(* ===== verification/Prelude.thy ===== *)
theory Prelude
  imports Main "HOL-Library.AList" "HOL-Library.Word" "HOL-Library.Sublist"
begin

text \<open>
  The prelude of the development: the types every component shares, the fact collections the
  component proofs use, JavaScript's insertion-ordered \<open>Map\<close> as an association list, and two
  interfaces that several components provide: a store bounded by evicting its oldest key, and a
  transition system whose invariant every step keeps.
\<close>

section \<open>Shared types\<close>

type_synonym byte = "8 word"
type_synonym bytes = "8 word list"

text \<open>Times are JavaScript millisecond timestamps, kept as unbounded integers.\<close>

type_synonym time = int

named_theorems model_inv \<open>preservation lemmas: an operation keeps the invariant of its component\<close>
named_theorems model_frame \<open>frame lemmas: what an operation leaves unchanged\<close>

section \<open>Lists and options\<close>

lemma map_of_drop_distinct:
  assumes "distinct (map fst m)" and "map_of (drop n m) k = Some v"
  shows "map_of m k = Some v"
  using assms by (meson in_set_dropD map_of_SomeD map_of_is_SomeI)

section \<open>JavaScript's Map\<close>

text \<open>
  A JavaScript \<open>Map\<close> iterates in insertion order: \<open>set\<close> on a present key keeps its place,
  \<open>delete\<close> followed by \<open>set\<close> moves the key to the end, and \<open>keys().next()\<close> is the oldest key.
  \<open>AList.update\<close> and \<open>AList.delete\<close> are exactly \<open>set\<close> and \<open>delete\<close>; \<open>map_of\<close> is \<open>get\<close>.
\<close>

type_synonym ('k, 'v) jsmap = "('k \<times> 'v) list"

abbreviation jm_get :: "('k, 'v) jsmap \<Rightarrow> 'k \<Rightarrow> 'v option" where
  "jm_get \<equiv> map_of"

abbreviation jm_set :: "'k \<Rightarrow> 'v \<Rightarrow> ('k, 'v) jsmap \<Rightarrow> ('k, 'v) jsmap" where
  "jm_set \<equiv> AList.update"

abbreviation jm_delete :: "'k \<Rightarrow> ('k, 'v) jsmap \<Rightarrow> ('k, 'v) jsmap" where
  "jm_delete \<equiv> AList.delete"

abbreviation jm_has :: "('k, 'v) jsmap \<Rightarrow> 'k \<Rightarrow> bool" where
  "jm_has m k \<equiv> map_of m k \<noteq> None"

abbreviation jm_wf :: "('k, 'v) jsmap \<Rightarrow> bool" where
  "jm_wf m \<equiv> distinct (map fst m)"

text \<open>\<open>map.delete(k); map.set(k, v)\<close>: the key becomes the newest one.\<close>

definition jm_touch :: "'k \<Rightarrow> 'v \<Rightarrow> ('k, 'v) jsmap \<Rightarrow> ('k, 'v) jsmap" where
  "jm_touch k v m = jm_set k v (jm_delete k m)"

text \<open>\<open>while (map.size > limit) map.delete(map.keys().next().value)\<close>\<close>

fun jm_evict :: "nat \<Rightarrow> ('k, 'v) jsmap \<Rightarrow> ('k, 'v) jsmap" where
  "jm_evict limit [] = []"
| "jm_evict limit (p # m) = (if length (p # m) > limit then jm_evict limit m else p # m)"

lemma jm_evict_drop: "jm_evict limit m = drop (length m - limit) m"
  by (induction m) (auto simp: Suc_diff_le)

lemma jm_get_set [simp]: "jm_get (jm_set k v m) j = (if j = k then Some v else jm_get m j)"
  by (simp add: update_conv')

lemma jm_get_delete [simp]: "jm_get (jm_delete k m) j = (if j = k then None else jm_get m j)"
  by (simp add: delete_conv')

lemma jm_get_touch [simp]: "jm_get (jm_touch k v m) j = (if j = k then Some v else jm_get m j)"
  by (simp add: jm_touch_def)

lemma jm_wf_set [simp, intro]: "jm_wf m \<Longrightarrow> jm_wf (jm_set k v m)"
  by (rule distinct_update)

lemma jm_wf_delete [simp, intro]: "jm_wf m \<Longrightarrow> jm_wf (jm_delete k m)"
  by (rule distinct_delete)

lemma jm_wf_touch [simp, intro]: "jm_wf m \<Longrightarrow> jm_wf (jm_touch k v m)"
  by (simp add: jm_touch_def)

lemma jm_wf_evict [simp, intro]: "jm_wf m \<Longrightarrow> jm_wf (jm_evict n m)"
  by (simp add: jm_evict_drop drop_map [symmetric])

lemma jm_wf_filter [simp, intro]: "jm_wf m \<Longrightarrow> jm_wf (filter P m)"
  by (induction m) auto

lemma jm_length_evict: "length (jm_evict n m) = min n (length m)"
  by (simp add: jm_evict_drop)

lemma jm_get_evict_Some: "jm_wf m \<Longrightarrow> jm_get (jm_evict n m) k = Some v \<Longrightarrow> jm_get m k = Some v"
  by (simp add: jm_evict_drop map_of_drop_distinct)

lemma jm_evict_small [simp]: "length m \<le> n \<Longrightarrow> jm_evict n m = m"
  by (simp add: jm_evict_drop)

lemma jm_length_set_present: "jm_get m k = Some w \<Longrightarrow> length (jm_set k v m) = length m"
  by (induction m) auto

lemma jm_delete_filter: "jm_delete k m = filter (\<lambda>p. fst p \<noteq> k) m"
  by (induction m) auto

lemma jm_set_fresh: "k \<notin> fst ` set m \<Longrightarrow> jm_set k v m = m @ [(k, v)]"
  by (induction m) auto

lemma jm_touch_append: "jm_touch k v m = filter (\<lambda>p. fst p \<noteq> k) m @ [(k, v)]"
  by (simp add: jm_touch_def jm_delete_filter jm_set_fresh image_iff)

lemma jm_length_touch: "length (jm_touch k v m) \<le> Suc (length m)"
  by (simp add: jm_touch_append)

lemma jm_get_evict_touch_same: "0 < n \<Longrightarrow> jm_get (jm_evict n (jm_touch k v m)) k = Some v"
proof -
  assume "0 < n"
  define xs where "xs = filter (\<lambda>p. fst p \<noteq> k) m"
  have "jm_evict n (xs @ [(k, v)]) = drop (length xs + 1 - n) xs @ [(k, v)]"
    using \<open>0 < n\<close> by (simp add: jm_evict_drop)
  moreover have "k \<notin> fst ` set (drop (length xs + 1 - n) xs)"
    unfolding xs_def by (auto dest: in_set_dropD)
  ultimately show ?thesis
    by (simp add: jm_touch_append map_add_Some_iff map_of_eq_None_iff flip: xs_def)
qed

text \<open>Deleting by a predicate on the entry, as the loops that delete while iterating do.\<close>

lemma jm_get_filter:
  "jm_wf m \<Longrightarrow> jm_get (filter P m) k =
     (case jm_get m k of None \<Rightarrow> None | Some v \<Rightarrow> if P (k, v) then Some v else None)"
proof (induction m)
  case Nil
  then show ?case by simp
next
  case (Cons p m)
  then have "fst p \<notin> fst ` set m" by simp
  then have "map_of (filter P m) (fst p) = None"
    by (auto simp: map_of_eq_None_iff)
  with Cons show ?case
    by (cases p) (auto split: option.splits)
qed

text \<open>Updating an entry in place, and looking at every entry.\<close>

lemma map_entry_keys [simp]: "map fst (AList.map_entry k f m) = map fst m"
  by (induction m) auto

lemma jm_get_map_entry [simp]:
  "jm_get (AList.map_entry k f m) j = (if j = k then map_option f (jm_get m j) else jm_get m j)"
  by (induction m) auto

lemma jm_list_ex:
  assumes "jm_wf m"
  shows "list_ex (\<lambda>(k, c). P k c) m \<longleftrightarrow> (\<exists>k c. jm_get m k = Some c \<and> P k c)"
  using map_of_eq_Some_iff [OF assms] by (auto simp: list_ex_iff)

lemma jm_list_all:
  assumes "jm_wf m"
  shows "list_all (\<lambda>(k, c). P k c) m \<longleftrightarrow> (\<forall>k c. jm_get m k = Some c \<longrightarrow> P k c)"
  using map_of_eq_Some_iff [OF assms] by (auto simp: list_all_iff)

section \<open>Interface: a store that evicts its oldest key\<close>

text \<open>
  Every process-wide table of the program that could grow without bound is a \<open>Map\<close> written by
  delete, set, then evict-oldest. A provider promises the laws below; the client lemmas say what a
  reader may rely on after any sequence of writes.
\<close>

locale bounded_store =
  fixes put :: "'k \<Rightarrow> 'v \<Rightarrow> 's \<Rightarrow> 's"
    and lookup :: "'s \<Rightarrow> 'k \<Rightarrow> 'v option"
    and size_of :: "'s \<Rightarrow> nat"
    and wf :: "'s \<Rightarrow> bool"
    and limit :: nat
  assumes wf_put: "wf s \<Longrightarrow> wf (put k v s)"
    and lookup_put_same: "wf s \<Longrightarrow> lookup (put k v s) k = Some v"
    and lookup_put_other: "wf s \<Longrightarrow> j \<noteq> k \<Longrightarrow> lookup (put k v s) j = Some w \<Longrightarrow> lookup s j = Some w"
    and size_put: "wf s \<Longrightarrow> size_of (put k v s) \<le> limit"
begin

text \<open>A sequence of writes, oldest first.\<close>

fun puts :: "('k \<times> 'v) list \<Rightarrow> 's \<Rightarrow> 's" where
  "puts [] s = s"
| "puts ((k, v) # ws) s = puts ws (put k v s)"

lemma wf_puts: "wf s \<Longrightarrow> wf (puts ws s)"
  by (induction ws s rule: puts.induct) (auto intro: wf_put)

lemma puts_append: "puts (us @ ws) s = puts ws (puts us s)"
  by (induction us s rule: puts.induct) auto

lemma puts_snoc: "puts (ws @ [(k, v)]) s = put k v (puts ws s)"
  by (simp add: puts_append)

text \<open>The store never exceeds its limit once written, however long the sequence.\<close>

lemma puts_bounded: "wf s \<Longrightarrow> ws \<noteq> [] \<Longrightarrow> size_of (puts ws s) \<le> limit"
proof (induction ws rule: rev_induct)
  case (snoc w ws)
  then show ?case by (cases w) (auto simp: puts_snoc intro: size_put wf_puts)
qed simp

text \<open>A value found for a key is the one last written under it: eviction loses, never corrupts.\<close>

lemma puts_last_write:
  assumes "wf s" and "lookup (puts ws s) k = Some v"
  shows "map_of (rev ws) k = Some v \<or> (k \<notin> fst ` set ws \<and> lookup s k = Some v)"
  using assms(2)
proof (induction ws rule: rev_induct)
  case (snoc w ws)
  obtain j u where w: "w = (j, u)" by (cases w)
  show ?case
  proof (cases "j = k")
    case True
    then show ?thesis
      using snoc.prems assms(1) by (simp add: w puts_snoc lookup_put_same wf_puts)
  next
    case False
    then have "lookup (puts ws s) k = Some v"
      using snoc.prems assms(1) lookup_put_other [of "puts ws s" k j u v] by (simp add: w puts_snoc wf_puts)
    from snoc.IH [OF this] False show ?thesis by (auto simp: w)
  qed
qed simp

lemma puts_newest: "wf s \<Longrightarrow> lookup (puts (ws @ [(k, v)]) s) k = Some v"
  by (simp add: puts_snoc lookup_put_same wf_puts)

end

text \<open>The generic provider: touch, then evict down to a positive limit.\<close>

definition jm_put :: "nat \<Rightarrow> 'k \<Rightarrow> 'v \<Rightarrow> ('k, 'v) jsmap \<Rightarrow> ('k, 'v) jsmap" where
  "jm_put limit k v m = jm_evict limit (jm_touch k v m)"

lemma jm_put_same [simp]: "0 < n \<Longrightarrow> jm_get (jm_put n k v m) k = Some v"
  by (simp add: jm_put_def jm_get_evict_touch_same)

lemma jm_put_other:
  assumes "jm_wf m" and "j \<noteq> k" and "jm_get (jm_put n k v m) j = Some w"
  shows "jm_get m j = Some w"
  using jm_get_evict_Some [OF jm_wf_touch [OF assms(1)] assms(3) [unfolded jm_put_def]] assms(2)
  by (simp only: jm_get_touch if_False)

lemma jm_put_wf [simp, intro]: "jm_wf m \<Longrightarrow> jm_wf (jm_put n k v m)"
  by (simp add: jm_put_def)

lemma jm_put_length: "length (jm_put n k v m) \<le> n"
  by (simp add: jm_put_def jm_length_evict)

lemma jm_put_store: "0 < n \<Longrightarrow> bounded_store (jm_put n) map_of length jm_wf n"
  by (rule bounded_store.intro) (rule jm_put_wf jm_put_same jm_put_length jm_put_other; assumption)+

text \<open>
  An entry written \<open>n\<close> other keys ago is still there while \<open>n\<close> is below the limit.
\<close>

definition jm_kept :: "'k \<Rightarrow> 'v \<Rightarrow> nat \<Rightarrow> ('k, 'v) jsmap \<Rightarrow> bool" where
  "jm_kept k v n m \<longleftrightarrow> (\<exists>xs ys. m = xs @ (k, v) # ys \<and> k \<notin> fst ` set (xs @ ys) \<and> length ys \<le> n)"

lemma jm_kept_get: "jm_kept k v n m \<Longrightarrow> jm_get m k = Some v"
  by (auto simp: jm_kept_def map_add_Some_iff map_of_eq_None_iff)

lemma jm_kept_mono: "jm_kept k v n m \<Longrightarrow> n \<le> n' \<Longrightarrow> jm_kept k v n' m"
  unfolding jm_kept_def by (metis order_trans)

lemma jm_kept_Suc: "jm_kept k v n m \<Longrightarrow> jm_kept k v (Suc n) m"
  by (erule jm_kept_mono) simp

lemma jm_kept_delete: "jm_kept k v n m \<Longrightarrow> j \<noteq> k \<Longrightarrow> jm_kept k v n (jm_delete j m)"
  unfolding jm_kept_def jm_delete_filter
proof (elim exE conjE)
  fix xs ys assume m: "m = xs @ (k, v) # ys" "k \<notin> fst ` set (xs @ ys)" "length ys \<le> n" and j: "j \<noteq> k"
  let ?f = "filter (\<lambda>p. fst p \<noteq> j)"
  show "\<exists>xs ys. ?f m = xs @ (k, v) # ys \<and> k \<notin> fst ` set (xs @ ys) \<and> length ys \<le> n"
    using m j by (intro exI [of _ "?f xs"] exI [of _ "?f ys"]) (auto intro: order_trans [OF length_filter_le])
qed

lemma jm_kept_evict:
  assumes "jm_kept k v n m" "Suc n \<le> limit"
  shows "jm_kept k v n (jm_evict limit m)"
proof -
  obtain xs ys where m: "m = xs @ (k, v) # ys" "k \<notin> fst ` set (xs @ ys)" "length ys \<le> n"
    using assms(1) by (auto simp: jm_kept_def)
  then have "jm_evict limit m = drop (length m - limit) xs @ (k, v) # ys"
    using assms(2) by (simp add: jm_evict_drop)
  then show ?thesis using m unfolding jm_kept_def by (fastforce dest: in_set_dropD)
qed

lemma jm_kept_put:
  assumes "jm_kept k v n m" "j \<noteq> k" "Suc (Suc n) \<le> limit"
  shows "jm_kept k v (Suc n) (jm_put limit j w m)"
proof -
  obtain xs ys where d: "jm_delete j m = xs @ (k, v) # ys" "k \<notin> fst ` set (xs @ ys)" "length ys \<le> n"
    using jm_kept_delete [OF assms(1, 2)] by (auto simp: jm_kept_def)
  have "jm_touch j w m = xs @ (k, v) # (ys @ [(j, w)])"
    using d(1) by (simp add: jm_touch_append jm_delete_filter)
  then have "jm_kept k v (Suc n) (jm_touch j w m)"
    using d(2, 3) assms(2) unfolding jm_kept_def by (intro exI [of _ xs] exI [of _ "ys @ [(j, w)]"]) auto
  then show ?thesis using assms(3) by (simp add: jm_put_def jm_kept_evict)
qed

lemma jm_kept_new: "0 < limit \<Longrightarrow> jm_kept k v 0 (jm_put limit k v m)"
proof -
  assume "0 < limit"
  have "jm_kept k v 0 (jm_touch k v m)"
    unfolding jm_kept_def jm_touch_append by (intro exI [of _ "filter (\<lambda>p. fst p \<noteq> k) m"] exI [of _ "[]"]) auto
  then show ?thesis using \<open>0 < limit\<close> by (simp add: jm_put_def jm_kept_evict)
qed

section \<open>Interface: a system whose steps keep an invariant\<close>

locale step_system =
  fixes start :: "'s \<Rightarrow> bool"
    and step :: "'s \<Rightarrow> 'e \<Rightarrow> 's"
    and inv :: "'s \<Rightarrow> bool"
  assumes start_inv: "start s \<Longrightarrow> inv s"
    and step_inv: "inv s \<Longrightarrow> inv (step s e)"
begin

fun run :: "'s \<Rightarrow> 'e list \<Rightarrow> 's" where
  "run s [] = s"
| "run s (e # es) = run (step s e) es"

lemma run_inv: "inv s \<Longrightarrow> inv (run s es)"
  by (induction s es rule: run.induct) (auto intro: step_inv)

lemma reachable_inv: "start s \<Longrightarrow> inv (run s es)"
  by (simp add: run_inv start_inv)

lemma run_append: "run s (es @ fs) = run (run s es) fs"
  by (induction s es rule: run.induct) auto

end

section \<open>Interface: self-delimiting encodings\<close>

text \<open>
  Frames and protobuf fields are written one after the other and read off the front of a buffer.
  A provider proves that one encoded item is read back whatever follows it; the client lemma is
  that a concatenation of encodings is read back item by item.
\<close>

locale prefix_codec =
  fixes enc :: "'a \<Rightarrow> bytes"
    and dec :: "bytes \<Rightarrow> ('a \<times> bytes) option"
    and ok :: "'a \<Rightarrow> bool"
  assumes dec_enc: "ok x \<Longrightarrow> dec (enc x @ rest) = Some (x, rest)"
    and dec_shrinks: "dec bs = Some (x, rest) \<Longrightarrow> length rest < length bs"
begin

function dec_all :: "bytes \<Rightarrow> 'a list" where
  "dec_all bs = (case dec bs of None \<Rightarrow> [] | Some (x, rest) \<Rightarrow> x # dec_all rest)"
  by pat_completeness auto
termination by (relation "measure length") (auto dest: dec_shrinks)

declare dec_all.simps [simp del]

lemma dec_all_enc:
  assumes "\<forall>x \<in> set xs. ok x" and "dec rest = None"
  shows "dec_all (concat (map enc xs) @ rest) = xs"
  using assms(1)
proof (induction xs)
  case Nil
  then show ?case using assms(2) by (simp add: dec_all.simps [of rest])
next
  case (Cons x xs)
  then show ?case by (simp add: dec_all.simps [of "enc x @ _"] dec_enc)
qed

text \<open>Two encodings that start the same buffer are the same item: no encoding is a prefix of another.\<close>

lemma enc_unique: "ok x \<Longrightarrow> ok y \<Longrightarrow> enc x @ r = enc y @ q \<Longrightarrow> x = y \<and> r = q"
  by (metis dec_enc option.inject prod.inject)

end

end
