(* ===== verification/Framing.thy ===== *)
theory Framing
  imports Prelude
begin

text \<open>
  Connect frames (\<open>src/src/protocol/framing.ts\<close>): a flag byte, a big-endian 32-bit length and the
  payload. Gzip is zlib's, a parameter of the definitions that use it. A buffer is read as the
  suffix not yet consumed, so the offset of the code is the length already dropped.
\<close>

section \<open>Data and operations\<close>

definition FLAG_GZIP :: byte where "FLAG_GZIP = 1"
definition FLAG_END_STREAM :: byte where "FLAG_END_STREAM = 2"

record frame =
  fr_flags :: byte
  fr_payload :: bytes

text \<open>JavaScript's \<open>len >> n\<close> and \<open>\<dots> & 0xff\<close> work on the length as a 32-bit integer.\<close>

definition frameBytes :: "byte \<Rightarrow> bytes \<Rightarrow> bytes" where
  "frameBytes flags d =
     (let len = (of_nat (length d) :: 32 word)
      in [flags, ucast (drop_bit 24 len), ucast (drop_bit 16 len), ucast (drop_bit 8 len), ucast len] @ d)"

definition encodeFrame :: "(bytes \<Rightarrow> bytes) \<Rightarrow> byte \<Rightarrow> bytes \<Rightarrow> bytes" where
  "encodeFrame gzipSync flags payload =
     frameBytes flags (if and flags FLAG_GZIP \<noteq> 0 then gzipSync payload else payload)"

text \<open>The asynchronous encoder: zlib reports an error or the data.\<close>

definition encodeGzipFrame :: "(bytes \<Rightarrow> 'e + bytes) \<Rightarrow> bytes \<Rightarrow> 'e + bytes" where
  "encodeGzipFrame gzip payload =
     (case gzip payload of Inl e \<Rightarrow> Inl e | Inr d \<Rightarrow> Inr (frameBytes FLAG_GZIP d))"

definition decodeFramePayload :: "(bytes \<Rightarrow> 'e + bytes) \<Rightarrow> frame \<Rightarrow> 'e + bytes" where
  "decodeFramePayload gunzipSync f =
     (if and (fr_flags f) FLAG_GZIP \<noteq> 0 then gunzipSync (fr_payload f) else Inr (fr_payload f))"

text \<open>The four length bytes, shifted together and read unsigned (\<open>>>> 0\<close>).\<close>

definition frame_length :: "byte \<Rightarrow> byte \<Rightarrow> byte \<Rightarrow> byte \<Rightarrow> nat" where
  "frame_length b1 b2 b3 b4 =
     unat (or (or (or (push_bit 24 (ucast b1)) (push_bit 16 (ucast b2))) (push_bit 8 (ucast b3)))
       (ucast b4) :: 32 word)"

text \<open>One turn of the loop of \<open>streamFrames\<close>: the next complete frame and what follows it.\<close>

fun next_frame :: "bytes \<Rightarrow> (frame \<times> bytes) option" where
  "next_frame (fl # b1 # b2 # b3 # b4 # rest) =
     (let len = frame_length b1 b2 b3 b4
      in if length rest < len then None
         else Some (\<lparr>fr_flags = fl, fr_payload = take len rest\<rparr>, drop len rest))"
| "next_frame _ = None"

lemma next_frame_shrinks: "next_frame bs = Some (f, rest) \<Longrightarrow> length rest < length bs"
  by (induction bs rule: next_frame.induct) (auto simp: Let_def split: if_splits)

function streamFrames :: "bytes \<Rightarrow> frame list" where
  "streamFrames buf =
     (case next_frame buf of None \<Rightarrow> [] | Some (f, rest) \<Rightarrow> f # streamFrames rest)"
  by pat_completeness auto
termination by (relation "measure length") (auto dest: next_frame_shrinks)

declare streamFrames.simps [simp del]

definition mergeChunks :: "bytes list \<Rightarrow> bytes" where
  "mergeChunks chunks = (case chunks of [c] \<Rightarrow> c | _ \<Rightarrow> concat chunks)"

text \<open>
  \<open>asyncStreamFrames\<close>: the chunks kept so far and one read of the stream. A read gives a chunk or
  the end; frames found in the merged chunks are yielded and only the bytes after them are kept.
\<close>

definition consumed_bytes :: "frame list \<Rightarrow> nat" where
  "consumed_bytes fs = foldl (\<lambda>s f. s + 5 + length (fr_payload f)) 0 fs"

definition parse_chunks :: "bytes list \<Rightarrow> frame list \<times> bytes list" where
  "parse_chunks chunks =
     (let merged = mergeChunks chunks; frames = streamFrames merged
      in if frames \<noteq> []
         then (let remaining = drop (consumed_bytes frames) merged
               in (frames, if remaining \<noteq> [] then [remaining] else []))
         else ([], chunks))"

fun async_loop :: "bytes list \<Rightarrow> bytes list \<Rightarrow> frame list" where
  "async_loop chunks [] = (if chunks = [] then [] else fst (parse_chunks chunks))"
| "async_loop chunks (chunk # reads) =
     (case parse_chunks (chunks @ [chunk]) of (frames, kept) \<Rightarrow> frames @ async_loop kept reads)"

definition asyncStreamFrames :: "bytes list \<Rightarrow> frame list" where
  "asyncStreamFrames reads = async_loop [] reads"

section \<open>The length header\<close>

lemma frame_length_header:
  assumes "n < 2 ^ 32"
  shows "frame_length (ucast (drop_bit 24 (of_nat n :: 32 word))) (ucast (drop_bit 16 (of_nat n :: 32 word)))
           (ucast (drop_bit 8 (of_nat n :: 32 word))) (ucast (of_nat n :: 32 word)) = n"
proof -
  define w where "w = (of_nat n :: 32 word)"
  let ?v = "or (or (or (push_bit 24 (ucast (ucast (drop_bit 24 w) :: byte))) (push_bit 16 (ucast (ucast (drop_bit 16 w) :: byte))))
      (push_bit 8 (ucast (ucast (drop_bit 8 w) :: byte)))) (ucast (ucast w :: byte)) :: 32 word"
  have "?v = w"
  proof (rule bit_word_eqI)
    fix n assume "n < LENGTH(32)"
    then consider "n < 8" | "8 \<le> n" "n < 16" | "16 \<le> n" "n < 24" | "24 \<le> n" "n < 32" by force
    then show "bit ?v n = bit w n"
      by cases (auto simp: bit_simps)
  qed
  then have "frame_length (ucast (drop_bit 24 w)) (ucast (drop_bit 16 w)) (ucast (drop_bit 8 w)) (ucast w) = unat w"
    by (simp add: frame_length_def)
  then show ?thesis
    using assms by (simp add: w_def unat_of_nat)
qed

section \<open>One frame\<close>

lemma next_frame_frameBytes:
  assumes "length d < 2 ^ 32"
  shows "next_frame (frameBytes fl d @ rest) = Some (\<lparr>fr_flags = fl, fr_payload = d\<rparr>, rest)"
  using frame_length_header [OF assms] by (simp add: frameBytes_def Let_def)

lemma length_frameBytes [simp]: "length (frameBytes fl d) = 5 + length d"
  by (simp add: frameBytes_def Let_def)

text \<open>A frame as the wire holds it, and the frames a 32-bit length can carry.\<close>

definition wire_frame :: "frame \<Rightarrow> bytes" where
  "wire_frame f = frameBytes (fr_flags f) (fr_payload f)"

definition frame_ok :: "frame \<Rightarrow> bool" where
  "frame_ok f \<longleftrightarrow> length (fr_payload f) < 2 ^ 32"

interpretation frames: prefix_codec wire_frame next_frame frame_ok
  by unfold_locales
    (auto simp: wire_frame_def frame_ok_def next_frame_frameBytes dest: next_frame_shrinks)

lemma streamFrames_dec_all: "streamFrames bs = frames.dec_all bs"
  by (induction bs rule: streamFrames.induct)
    (subst streamFrames.simps, subst frames.dec_all.simps, auto split: option.splits)

lemma streamFrames_wire:
  "\<forall>f \<in> set fs. frame_ok f \<Longrightarrow> next_frame rest = None \<Longrightarrow>
   streamFrames (concat (map wire_frame fs) @ rest) = fs"
  by (simp add: streamFrames_dec_all frames.dec_all_enc)

section \<open>What a buffer leaves unread\<close>

text \<open>The bytes after the last complete frame.\<close>

definition unread :: "bytes \<Rightarrow> bytes" where
  "unread buf = drop (consumed_bytes (streamFrames buf)) buf"

lemma consumed_bytes_alt: "foldl (\<lambda>s f. s + 5 + length (fr_payload f)) n fs
    = n + sum_list (map (\<lambda>f. 5 + length (fr_payload f)) fs)"
  by (induction fs arbitrary: n) auto

lemma consumed_bytes_Nil [simp]: "consumed_bytes [] = 0"
  by (simp add: consumed_bytes_def)

lemma consumed_bytes_Cons [simp]:
  "consumed_bytes (f # fs) = 5 + length (fr_payload f) + consumed_bytes fs"
  by (simp add: consumed_bytes_def consumed_bytes_alt)

lemma next_frame_split:
  "next_frame bs = Some (f, rest) \<Longrightarrow> \<exists>h. length h = 5 + length (fr_payload f) \<and> bs = h @ rest
     \<and> (\<forall>q. next_frame (h @ q) = Some (f, q))"
proof (induction bs rule: next_frame.induct)
  case (1 fl b1 b2 b3 b4 tl)
  let ?n = "frame_length b1 b2 b3 b4"
  from 1 have n: "?n \<le> length tl" and f: "f = \<lparr>fr_flags = fl, fr_payload = take ?n tl\<rparr>" and r: "rest = drop ?n tl"
    by (auto simp: Let_def split: if_splits)
  show ?case
    using n by (intro exI [of _ "fl # b1 # b2 # b3 # b4 # take ?n tl"]) (auto simp: f r Let_def)
qed auto

lemma unread_step: "next_frame bs = Some (f, rest) \<Longrightarrow> unread bs = unread rest"
  using next_frame_split [of bs f rest]
  by (auto simp: unread_def streamFrames.simps [of bs])

lemma unread_none: "next_frame bs = None \<Longrightarrow> unread bs = bs"
  by (simp add: unread_def streamFrames.simps [of bs])

text \<open>Reading a longer buffer reads the same frames first, then goes on after them.\<close>

lemma streamFrames_append: "streamFrames (a @ b) = streamFrames a @ streamFrames (unread a @ b)"
proof (induction a rule: streamFrames.induct)
  case (1 a)
  show ?case
  proof (cases "next_frame a")
    case None
    then show ?thesis by (simp add: unread_none streamFrames.simps [of a])
  next
    case (Some p)
    obtain f rest where p: "p = (f, rest)" by (cases p)
    from next_frame_split [of a f rest] Some p
    have "next_frame (a @ b) = Some (f, rest @ b)" by auto
    with 1 [OF Some p [symmetric]] show ?thesis
      by (simp add: streamFrames.simps [of "a @ b"] streamFrames.simps [of a] Some p unread_step [of a f rest])
  qed
qed

lemma unread_no_frame: "next_frame (unread a) = None"
proof (induction a rule: streamFrames.induct)
  case (1 a)
  then show ?case
    by (cases "next_frame a") (auto simp: unread_none dest: unread_step)
qed

lemma streamFrames_unread [simp]: "streamFrames (unread a) = []"
  by (simp add: streamFrames.simps [of "unread a"] unread_no_frame)

section \<open>Chunked reading\<close>

lemma mergeChunks_concat [simp]: "mergeChunks cs = concat cs"
  by (simp add: mergeChunks_def split: list.splits)

lemma parse_chunks_fst: "fst (parse_chunks cs) = streamFrames (concat cs)"
  by (simp add: parse_chunks_def Let_def)

lemma parse_chunks_snd: "concat (snd (parse_chunks cs)) = unread (concat cs)"
  by (simp add: parse_chunks_def Let_def unread_def)

lemma async_loop_frames:
  "streamFrames (concat cs) = [] \<Longrightarrow> async_loop cs reads = streamFrames (concat cs @ concat reads)"
proof (induction reads arbitrary: cs)
  case Nil
  then show ?case by (simp add: parse_chunks_fst)
next
  case (Cons chunk reads)
  obtain fs kept where pc: "parse_chunks (cs @ [chunk]) = (fs, kept)" by force
  have fs: "fs = streamFrames (concat cs @ chunk)" and kept: "concat kept = unread (concat cs @ chunk)"
    using parse_chunks_fst [of "cs @ [chunk]"] parse_chunks_snd [of "cs @ [chunk]"] by (simp_all add: pc)
  have "async_loop kept reads = streamFrames (unread (concat cs @ chunk) @ concat reads)"
    using Cons.IH [of kept] by (simp add: kept)
  then show ?case
    using streamFrames_append [of "concat cs @ chunk" "concat reads"] by (simp add: pc fs)
qed

section \<open>Properties\<close>

text \<open>However the network splits the byte stream into chunks, the asynchronous reader yields
  exactly the frames of the whole stream read at once: keeping only the unread tail between reads
  neither loses, duplicates nor reorders a frame.\<close>

theorem async_frames_chunking_independent:
  "asyncStreamFrames reads = streamFrames (concat reads)"
  by (simp add: asyncStreamFrames_def async_loop_frames streamFrames.simps [of "[]"])

text \<open>Frames written one after the other, cut into arbitrary chunks and possibly followed by an
  incomplete frame, are read back exactly, flags and payload, as long as each payload fits the
  32-bit length of the header.\<close>

theorem frames_roundtrip:
  assumes "\<forall>f \<in> set fs. length (fr_payload f) < 2 ^ 32"
    and "next_frame partial = None"
    and "concat reads = concat (map (\<lambda>f. frameBytes (fr_flags f) (fr_payload f)) fs) @ partial"
  shows "asyncStreamFrames reads = fs"
proof -
  have "streamFrames (concat (map wire_frame fs) @ partial) = fs"
    using assms(1,2) by (intro streamFrames_wire) (auto simp: frame_ok_def)
  then show ?thesis
    using assms(3) by (simp add: asyncStreamFrames_def async_loop_frames streamFrames.simps [of "[]"] wire_frame_def [abs_def])
qed

theorem frames_roundtrip_witness:
  "asyncStreamFrames [[0, 0, 0], [0, 2, 7, 8, 2, 0, 0, 0], [1], [9, 0, 0, 0, 1]]
     = [\<lparr>fr_flags = 0, fr_payload = [7, 8]\<rparr>, \<lparr>fr_flags = 2, fr_payload = [9]\<rparr>]"
  by (rule frames_roundtrip [where partial = "[0, 0, 0, 1]"]) (simp_all add: frameBytes_def)

text \<open>A message encoded under either compression flag and read back from the front of a buffer
  decodes to the same message, given that gunzip inverts gzip and the data fits the length header.\<close>

theorem frame_payload_roundtrip:
  assumes "\<And>p. gunzipSync (gzipSync p) = Inr p"
    and "length (if and flags FLAG_GZIP \<noteq> 0 then gzipSync payload else payload) < 2 ^ 32"
  shows "\<exists>f. next_frame (encodeFrame gzipSync flags payload @ rest) = Some (f, rest)
           \<and> fr_flags f = flags \<and> decodeFramePayload gunzipSync f = Inr payload"
  using assms next_frame_frameBytes [OF assms(2), of flags rest]
  by (auto simp: encodeFrame_def decodeFramePayload_def)

theorem frame_payload_roundtrip_witness:
  "\<exists>f. next_frame (encodeFrame (\<lambda>p. 31 # 139 # p) 1 [5, 6] @ [1]) = Some (f, [1])
     \<and> fr_flags f = 1 \<and> decodeFramePayload (\<lambda>p. Inr (drop 2 p) :: unit + bytes) f = Inr [5, 6]"
  by (rule frame_payload_roundtrip) (simp_all add: FLAG_GZIP_def)

end
