(* ===== verification/Utf8.thy ===== *)
theory Utf8
  imports Prelude
begin

text \<open>
  JavaScript strings and the two standard codecs the program applies to them. A string is its
  UTF-16 code units. \<open>TextEncoder\<close> writes UTF-8 and replaces an unpaired surrogate by U+FFFD;
  \<open>TextDecoder\<close> follows the WHATWG decoder: it drops a leading byte-order mark, replaces each
  malformed sequence by U+FFFD, or (with \<open>fatal\<close>) refuses it.
\<close>

type_synonym utf16 = "16 word list"

section \<open>UTF-16\<close>

definition high_surrogate :: "nat \<Rightarrow> bool" where
  "high_surrogate n \<longleftrightarrow> 0xD800 \<le> n \<and> n \<le> 0xDBFF"

definition low_surrogate :: "nat \<Rightarrow> bool" where
  "low_surrogate n \<longleftrightarrow> 0xDC00 \<le> n \<and> n \<le> 0xDFFF"

definition scalar :: "nat \<Rightarrow> bool" where
  "scalar n \<longleftrightarrow> n < 0x110000 \<and> \<not> (0xD800 \<le> n \<and> n \<le> 0xDFFF)"

text \<open>The scalar values of a string, unpaired surrogates replaced.\<close>

fun scalars :: "utf16 \<Rightarrow> nat list" where
  "scalars [] = []"
| "scalars [u] = [if high_surrogate (unat u) \<or> low_surrogate (unat u) then 0xFFFD else unat u]"
| "scalars (u # v # us) =
     (if high_surrogate (unat u) then
        (if low_surrogate (unat v)
         then (0x10000 + (unat u - 0xD800) * 0x400 + (unat v - 0xDC00)) # scalars us
         else 0xFFFD # scalars (v # us))
      else if low_surrogate (unat u) then 0xFFFD # scalars (v # us)
      else unat u # scalars (v # us))"

text \<open>No unpaired surrogate.\<close>

fun well_formed16 :: "utf16 \<Rightarrow> bool" where
  "well_formed16 [] = True"
| "well_formed16 [u] = (\<not> high_surrogate (unat u) \<and> \<not> low_surrogate (unat u))"
| "well_formed16 (u # v # us) =
     (if high_surrogate (unat u) then low_surrogate (unat v) \<and> well_formed16 us
      else \<not> low_surrogate (unat u) \<and> well_formed16 (v # us))"

definition units_of :: "nat \<Rightarrow> utf16" where
  "units_of n =
     (if n < 0x10000 then [of_nat n]
      else [of_nat (0xD800 + (n - 0x10000) div 0x400), of_nat (0xDC00 + (n - 0x10000) mod 0x400)])"

lemma unat16_less: "unat (u :: 16 word) < 65536"
  using unsigned_less [of u] by simp

lemma units_scalars: "well_formed16 s \<Longrightarrow> concat (map units_of (scalars s)) = s"
proof (induction s rule: scalars.induct)
  case (2 u)
  then show ?case using unat16_less [of u] by (simp add: units_of_def)
next
  case (3 u v us)
  show ?case
  proof (cases "high_surrogate (unat u)")
    case True
    with 3 have v: "low_surrogate (unat v)" and wf: "well_formed16 us" by auto
    obtain a b where a: "unat u = 0xD800 + a" "a < 0x400" and b: "unat v = 0xDC00 + b" "b < 0x400"
      using True v by (auto simp: high_surrogate_def low_surrogate_def nat_le_iff_add)
    have "units_of (0x10000 + a * 0x400 + b) = [of_nat (unat u), of_nat (unat v)]"
      unfolding a(1) b(1) using a(2) b(2) by (simp add: units_of_def)
    then have "units_of (0x10000 + (unat u - 0xD800) * 0x400 + (unat v - 0xDC00)) = [u, v]"
      unfolding a(1) b(1) add_diff_cancel_left' by (simp flip: a(1) b(1))
    with True v wf 3(1) show ?thesis by simp
  next
    case False
    with 3 show ?thesis using unat16_less [of u] by (simp add: units_of_def)
  qed
qed simp

lemma scalars_scalar: "n \<in> set (scalars s) \<Longrightarrow> scalar n"
proof (induction s rule: scalars.induct)
  case (2 u)
  then show ?case
    using unat16_less [of u] by (auto simp: scalar_def high_surrogate_def low_surrogate_def split: if_splits)
next
  case (3 u v us)
  then show ?case
    using unat16_less [of u] by (auto simp: scalar_def high_surrogate_def low_surrogate_def split: if_splits)
qed simp

section \<open>UTF-8\<close>

definition utf8_of :: "nat \<Rightarrow> bytes" where
  "utf8_of n =
     (if n < 0x80 then [of_nat n]
      else if n < 0x800 then [of_nat (0xC0 + n div 64), of_nat (0x80 + n mod 64)]
      else if n < 0x10000 then
        [of_nat (0xE0 + n div 4096), of_nat (0x80 + n div 64 mod 64), of_nat (0x80 + n mod 64)]
      else [of_nat (0xF0 + n div 262144), of_nat (0x80 + n div 4096 mod 64),
        of_nat (0x80 + n div 64 mod 64), of_nat (0x80 + n mod 64)])"

definition textEncode :: "utf16 \<Rightarrow> bytes" where
  "textEncode s = concat (map utf8_of (scalars s))"

text \<open>
  The decoder's continuation bytes: \<open>k\<close> still needed, the value so far, the range the next byte
  must lie in. A byte out of range is given back to the stream; \<open>None\<close> is a malformed sequence.
\<close>

fun utf8_cont :: "nat \<Rightarrow> nat \<Rightarrow> nat \<Rightarrow> nat \<Rightarrow> bytes \<Rightarrow> nat option \<times> bytes" where
  "utf8_cont 0 cp lo hi bs = (Some cp, bs)"
| "utf8_cont (Suc k) cp lo hi [] = (None, [])"
| "utf8_cont (Suc k) cp lo hi (b # bs) =
     (if lo \<le> unat b \<and> unat b \<le> hi then utf8_cont k (cp * 64 + unat b mod 64) 0x80 0xBF bs
      else (None, b # bs))"

definition utf8_next :: "byte \<Rightarrow> bytes \<Rightarrow> nat option \<times> bytes" where
  "utf8_next b rest =
     (let n = unat b in
      if n < 0x80 then (Some n, rest)
      else if 0xC2 \<le> n \<and> n \<le> 0xDF then utf8_cont 1 (n - 0xC0) 0x80 0xBF rest
      else if 0xE0 \<le> n \<and> n \<le> 0xEF then
        utf8_cont 2 (n - 0xE0) (if n = 0xE0 then 0xA0 else 0x80) (if n = 0xED then 0x9F else 0xBF) rest
      else if 0xF0 \<le> n \<and> n \<le> 0xF4 then
        utf8_cont 3 (n - 0xF0) (if n = 0xF0 then 0x90 else 0x80) (if n = 0xF4 then 0x8F else 0xBF) rest
      else (None, rest))"

lemma utf8_cont_length: "length (snd (utf8_cont k cp lo hi bs)) \<le> length bs"
  by (induction k cp lo hi bs rule: utf8_cont.induct) auto

lemma utf8_next_length: "length (snd (utf8_next b rest)) \<le> length rest"
  by (simp add: utf8_next_def Let_def utf8_cont_length)

function utf8_scan :: "bytes \<Rightarrow> nat option list" where
  "utf8_scan [] = []"
| "utf8_scan (b # rest) = fst (utf8_next b rest) # utf8_scan (snd (utf8_next b rest))"
  by pat_completeness auto
termination
  by (relation "measure length") (auto simp: less_Suc_eq_le utf8_next_length)

definition strip_bom :: "bytes \<Rightarrow> bytes" where
  "strip_bom bs = (if take 3 bs = [0xEF, 0xBB, 0xBF] then drop 3 bs else bs)"

text \<open>\<open>new TextDecoder().decode(bs)\<close>\<close>

definition textDecode :: "bytes \<Rightarrow> utf16" where
  "textDecode bs =
     concat (map (\<lambda>r. units_of (case r of None \<Rightarrow> 0xFFFD | Some n \<Rightarrow> n)) (utf8_scan (strip_bom bs)))"

text \<open>\<open>new TextDecoder("utf-8", { fatal: true }).decode(bs)\<close>, \<open>None\<close> where it throws.\<close>

definition textDecodeFatal :: "bytes \<Rightarrow> utf16 option" where
  "textDecodeFatal bs =
     map_option (\<lambda>ns. concat (map units_of ns)) (those (utf8_scan (strip_bom bs)))"

section \<open>The decoder inverts the encoder\<close>

lemma unat_of_nat8: "n < 256 \<Longrightarrow> unat (of_nat n :: byte) = n"
  by (simp add: unat_of_nat)

lemma utf8_cont_unfold:
  "utf8_cont 1 cp lo hi (b # bs) =
     (if lo \<le> unat b \<and> unat b \<le> hi then (Some (cp * 64 + unat b mod 64), bs) else (None, b # bs))"
  "utf8_cont 2 cp lo hi (b # bs) =
     (if lo \<le> unat b \<and> unat b \<le> hi then utf8_cont 1 (cp * 64 + unat b mod 64) 0x80 0xBF bs else (None, b # bs))"
  "utf8_cont 3 cp lo hi (b # bs) =
     (if lo \<le> unat b \<and> unat b \<le> hi then utf8_cont 2 (cp * 64 + unat b mod 64) 0x80 0xBF bs else (None, b # bs))"
  by (simp_all only: One_nat_def numeral_2_eq_2 numeral_3_eq_3 utf8_cont.simps)

lemma unat_cont: "unat (of_nat (0x80 + n mod 64) :: byte) = 0x80 + n mod 64"
proof (rule unat_of_nat8)
  have "n mod 64 < 64" by simp
  then show "0x80 + n mod 64 < 256" by linarith
qed

lemma utf8_cont_byte: "(0x80 + n mod 64) mod 64 = n mod (64::nat)"
  using mod_mult_self3 [of 2 64 "n mod 64"] by simp

lemma utf8_scan_one:
  assumes "scalar n"
  shows "utf8_scan (utf8_of n @ rest) = Some n # utf8_scan rest"
proof -
  consider (one) "n < 0x80" | (two) "0x80 \<le> n" "n < 0x800" | (three) "0x800 \<le> n" "n < 0x10000"
    | (four) "0x10000 \<le> n" "n < 0x110000"
    using assms unfolding scalar_def by linarith
  then show ?thesis
  proof cases
    case one
    then show ?thesis by (simp add: utf8_of_def utf8_next_def unat_of_nat8)
  next
    case two
    define h where "h = n div 64"
    have h: "2 \<le> h" "h \<le> 31" using two by (auto simp: h_def)
    have u: "unat (of_nat (0xC0 + h) :: byte) = 0xC0 + h" using h by (intro unat_of_nat8) simp
    have "utf8_of n = [of_nat (0xC0 + h), of_nat (0x80 + n mod 64)]"
      using two by (simp add: utf8_of_def h_def)
    moreover have "h * 64 + n mod 64 = n" by (simp add: h_def)
    ultimately show ?thesis
      using h by (simp del: of_nat_add add: utf8_next_def Let_def u unat_cont utf8_cont_unfold utf8_cont_byte)
  next
    case three
    define h m where "h = n div 4096" and "m = n div 64"
    have h: "h \<le> 15" using three by (auto simp: h_def)
    have hm: "h * 64 + m mod 64 = m" "m * 64 + n mod 64 = n"
      by (simp_all add: h_def m_def div_mult2_eq [of n 64 64, simplified])
    have u: "unat (of_nat (0xE0 + h) :: byte) = 0xE0 + h" using h by (intro unat_of_nat8) simp
    have lo: "h = 0 \<Longrightarrow> 32 \<le> m mod 64" using three hm by auto
    have hi: "h = 13 \<Longrightarrow> m mod 64 < 32"
    proof -
      assume "h = 13"
      then have "0xD000 \<le> n" "n < 0xE000" using hm by auto
      then have "n < 0xD800" using assms by (auto simp: scalar_def)
      then show "m mod 64 < 32" using hm \<open>h = 13\<close> by auto
    qed
    have e: "utf8_of n = [of_nat (0xE0 + h), of_nat (0x80 + m mod 64), of_nat (0x80 + n mod 64)]"
      using three by (simp add: utf8_of_def h_def m_def)
    have "m mod 64 < 64" by simp
    have "utf8_next (of_nat (0xE0 + h)) (of_nat (0x80 + m mod 64) # of_nat (0x80 + n mod 64) # rest) = (Some n, rest)"
      using h lo hi \<open>m mod 64 < 64\<close>
      by (auto simp del: of_nat_add simp add: utf8_next_def Let_def u unat_cont utf8_cont_unfold utf8_cont_byte hm)
    then show ?thesis by (simp add: e)
  next
    case four
    define g h m where "g = n div 262144" and "h = n div 4096" and "m = n div 64"
    have g: "g \<le> 4" using four by (auto simp: g_def)
    have hm: "g * 64 + h mod 64 = h" "h * 64 + m mod 64 = m" "m * 64 + n mod 64 = n"
      by (simp_all add: g_def h_def m_def div_mult2_eq [of n 64 64, simplified] div_mult2_eq [of n 4096 64, simplified])
    have u: "unat (of_nat (0xF0 + g) :: byte) = 0xF0 + g" using g by (intro unat_of_nat8) simp
    have lo: "g = 0 \<Longrightarrow> 16 \<le> h mod 64" using four hm by auto
    have hi: "g = 4 \<Longrightarrow> h mod 64 < 16" using four hm by auto
    have e: "utf8_of n = [of_nat (0xF0 + g), of_nat (0x80 + h mod 64), of_nat (0x80 + m mod 64), of_nat (0x80 + n mod 64)]"
      using four by (simp add: utf8_of_def g_def h_def m_def)
    have "h mod 64 < 64" by simp
    have "utf8_next (of_nat (0xF0 + g))
      (of_nat (0x80 + h mod 64) # of_nat (0x80 + m mod 64) # of_nat (0x80 + n mod 64) # rest) = (Some n, rest)"
      using g lo hi \<open>h mod 64 < 64\<close>
      by (auto simp del: of_nat_add simp add: utf8_next_def Let_def u unat_cont utf8_cont_unfold utf8_cont_byte hm)
    then show ?thesis by (simp add: e)
  qed
qed

lemma utf8_scan_encode:
  "\<forall>n \<in> set ns. scalar n \<Longrightarrow> utf8_scan (concat (map utf8_of ns)) = map Some ns"
  by (induction ns) (simp_all add: utf8_scan_one)

lemma utf8_scan_textEncode: "utf8_scan (textEncode s) = map Some (scalars s)"
  unfolding textEncode_def by (rule utf8_scan_encode) (auto dest: scalars_scalar)

lemma utf8_scan_bom: "utf8_scan (0xEF # 0xBB # 0xBF # bs) = Some 0xFEFF # utf8_scan bs"
  by (simp add: utf8_next_def Let_def utf8_cont_unfold)

definition starts_bom :: "utf16 \<Rightarrow> bool" where
  "starts_bom s \<longleftrightarrow> s \<noteq> [] \<and> hd s = 0xFEFF"

lemma strip_bom_textEncode:
  assumes "well_formed16 s" and "\<not> starts_bom s"
  shows "strip_bom (textEncode s) = textEncode s"
proof -
  have False if "take 3 (textEncode s) = [0xEF, 0xBB, 0xBF]"
  proof -
    from that have "textEncode s = 0xEF # 0xBB # 0xBF # drop 3 (textEncode s)"
      by (metis append_Cons append_Nil append_take_drop_id)
    then have "map Some (scalars s) = Some 0xFEFF # utf8_scan (drop 3 (textEncode s))"
      by (metis utf8_scan_bom utf8_scan_textEncode)
    then obtain ns where "scalars s = 0xFEFF # ns" by (cases "scalars s") auto
    then have "s = units_of 0xFEFF @ concat (map units_of ns)"
      using units_scalars [OF assms(1)] by simp
    then have "hd s = 0xFEFF" "s \<noteq> []" by (auto simp: units_of_def)
    with assms(2) show False by (simp add: starts_bom_def)
  qed
  then show ?thesis by (auto simp: strip_bom_def)
qed

lemma textDecode_textEncode:
  assumes "well_formed16 s" and "\<not> starts_bom s"
  shows "textDecode (textEncode s) = s"
  using units_scalars [OF assms(1)]
  by (simp add: textDecode_def strip_bom_textEncode assms utf8_scan_textEncode comp_def)

lemma those_map_Some [simp]: "those (map Some xs) = Some xs"
  by (induction xs) auto

lemma textDecodeFatal_textEncode:
  assumes "well_formed16 s" and "\<not> starts_bom s"
  shows "textDecodeFatal (textEncode s) = Some s"
  using units_scalars [OF assms(1)]
  by (simp add: textDecodeFatal_def strip_bom_textEncode assms utf8_scan_textEncode)

text \<open>The mark itself is lost: this is what the two hypotheses above exclude.\<close>

lemma textDecode_bom:
  assumes "well_formed16 s"
  shows "textDecode (textEncode (0xFEFF # s)) = s"
proof -
  have "scalars (0xFEFF # s) = 0xFEFF # scalars s"
    by (cases s) (simp_all add: high_surrogate_def low_surrogate_def)
  moreover have "utf8_of 0xFEFF = [0xEF, 0xBB, 0xBF]" by (simp add: utf8_of_def)
  ultimately have "textEncode (0xFEFF # s) = [0xEF, 0xBB, 0xBF] @ textEncode s"
    by (simp add: textEncode_def)
  then have "strip_bom (textEncode (0xFEFF # s)) = textEncode s"
    by (simp add: strip_bom_def)
  then show ?thesis
    using units_scalars [OF assms] by (simp add: textDecode_def utf8_scan_textEncode comp_def)
qed

text \<open>A fatal decoder that accepts agrees with the lossy one.\<close>

lemma those_Some_map: "those xs = Some ys \<Longrightarrow> xs = map Some ys"
  by (induction xs arbitrary: ys) (auto split: option.splits)

lemma textDecodeFatal_Some: "textDecodeFatal bs = Some s \<Longrightarrow> textDecode bs = s"
  by (auto simp: textDecodeFatal_def textDecode_def comp_def dest!: those_Some_map)

end
