(* ===== verification/Wire.thy ===== *)
theory Wire
  imports Prelude
begin

text \<open>
  The protobuf wire layer of \<open>src/src/protocol/struct.ts\<close>: the writers of varints, tags and
  length-delimited fields, the lenient reader \<open>readAllFields\<close> with JavaScript's 32-bit shifts, and
  the strict reader \<open>readAllFieldsStrict\<close> the replay decisions rest on. A reader works on the
  suffix of the input its offset points at.
\<close>

section \<open>Writers\<close>

text \<open>\<open>writeVarint\<close> on \<open>v = n >>> 0\<close>.\<close>

lemma drop_bit_less: "0x7f < (v :: 32 word) \<Longrightarrow> unat (drop_bit 7 v) < unat v"
  by (simp add: unat_drop_bit_eq drop_bit_eq_div word_less_nat_alt unat_div)

function writeVarint :: "32 word \<Rightarrow> bytes" where
  "writeVarint v =
     (if v > 0x7f then ucast (or (and v 0x7f) 0x80) # writeVarint (drop_bit 7 v) else [ucast v])"
  by pat_completeness auto
termination by (relation "measure unat") (auto simp: drop_bit_less)

declare writeVarint.simps [simp del]

definition writeTag :: "32 word \<Rightarrow> 32 word \<Rightarrow> bytes" where
  "writeTag field wire = writeVarint (or (push_bit 3 field) wire)"

definition writeLengthDelimited :: "32 word \<Rightarrow> bytes \<Rightarrow> bytes" where
  "writeLengthDelimited field bs = writeTag field 2 @ writeVarint (of_nat (length bs)) @ bs"

section \<open>The lenient reader\<close>

text \<open>
  \<open>r |= (x & 0x7f) << s\<close>: JavaScript takes the shift count modulo 32, so the bytes of a varint
  past the fifth are folded back into the low bits.
\<close>

fun readVarintLoop :: "32 word \<Rightarrow> nat \<Rightarrow> bytes \<Rightarrow> 32 word \<times> bytes" where
  "readVarintLoop r s [] = (r, [])"
| "readVarintLoop r s (x # xs) =
     (let r' = or r (push_bit (s mod 32) (ucast (and x 0x7f)))
      in if and x 0x80 = 0 then (r', xs) else readVarintLoop r' (s + 7) xs)"

definition readVarintAt :: "bytes \<Rightarrow> 32 word \<times> bytes" where
  "readVarintAt b = readVarintLoop 0 0 b"

record raw_field =
  rf_fn :: "32 word"
  rf_wt :: "32 word"
  rf_varint :: "32 word"
  rf_bytes :: "bytes option"
  rf_i64 :: "bytes option"

lemma readVarintLoop_length: "length (snd (readVarintLoop r s b)) \<le> length b"
  by (induction r s b rule: readVarintLoop.induct) (auto simp: Let_def)

lemma readVarintAt_length: "length (snd (readVarintAt b)) \<le> length b"
  by (simp add: readVarintAt_def readVarintLoop_length)

lemma readVarintAt_shrinks: "b \<noteq> [] \<Longrightarrow> length (snd (readVarintAt b)) < length b"
  using readVarintLoop_length by (cases b) (auto simp: readVarintAt_def Let_def less_Suc_eq_le)

lemma readVarintAt_shorter:
  "(k, b') = readVarintAt b \<Longrightarrow> length b' \<le> length b \<and> (b \<noteq> [] \<longrightarrow> length b' < length b)"
  by (metis readVarintAt_length readVarintAt_shrinks snd_conv)

function readAllFields :: "bytes \<Rightarrow> raw_field list" where
  "readAllFields b =
     (if b = [] then []
      else
        let (key, b1) = readVarintAt b; fn = drop_bit 3 key; wt = and key 7 in
        if wt = 0 then
          (let (v, b2) = readVarintAt b1
           in \<lparr>rf_fn = fn, rf_wt = wt, rf_varint = v, rf_bytes = None, rf_i64 = None\<rparr> # readAllFields b2)
        else if wt = 2 then
          (let (len, b2) = readVarintAt b1
           in \<lparr>rf_fn = fn, rf_wt = wt, rf_varint = 0, rf_bytes = Some (take (unat len) b2), rf_i64 = None\<rparr>
              # readAllFields (drop (unat len) b2))
        else if wt = 1 then
          \<lparr>rf_fn = fn, rf_wt = wt, rf_varint = 0, rf_bytes = None, rf_i64 = Some (take 8 b1)\<rparr>
            # readAllFields (drop 8 b1)
        else if wt = 5 then readAllFields (drop 4 b1)
        else [])"
  by pat_completeness auto
termination
  by (relation "measure length") (auto dest!: readVarintAt_shorter)

declare readAllFields.simps [simp del]

section \<open>The strict reader\<close>

definition MAX_UINT32 :: nat where "MAX_UINT32 = 0xffffffff"
definition MAX_UINT64 :: nat where "MAX_UINT64 = 0xffffffffffffffff"
definition MAX_PROTOBUF_FIELD_NUMBER :: nat where "MAX_PROTOBUF_FIELD_NUMBER = 0x1fffffff"

text \<open>
  The loop of \<open>readBoundedVarint\<close> over at most ten bytes: \<open>k\<close> of them are left. Bigints are
  unbounded, so \<open>value |= BigInt(byte & 0x7f) << shift\<close> is exact.
\<close>

fun readBoundedLoop :: "nat \<Rightarrow> nat \<Rightarrow> nat \<Rightarrow> nat \<Rightarrow> bytes \<Rightarrow> (nat \<times> bytes) option" where
  "readBoundedLoop maximum 0 v s bs = None"
| "readBoundedLoop maximum (Suc k) v s [] = None"
| "readBoundedLoop maximum (Suc k) v s (b # bs) =
     (let v' = or v (push_bit s (unat (and b 0x7f)))
      in if v' > maximum then None
         else if and b 0x80 = 0 then Some (v', bs)
         else readBoundedLoop maximum k v' (s + 7) bs)"

definition readBoundedVarint :: "bytes \<Rightarrow> nat \<Rightarrow> (nat \<times> bytes) option" where
  "readBoundedVarint bs maximum = readBoundedLoop maximum 10 0 0 bs"

record strict_field =
  sf_fn :: nat
  sf_wt :: nat
  sf_varint :: "nat option"
  sf_bytes :: "bytes option"
  sf_fixed64 :: "bytes option"
  sf_fixed32 :: "bytes option"

definition varint_field :: "nat \<Rightarrow> nat \<Rightarrow> strict_field" where
  "varint_field fn v = \<lparr>sf_fn = fn, sf_wt = 0, sf_varint = Some v, sf_bytes = None, sf_fixed64 = None, sf_fixed32 = None\<rparr>"
definition fixed64_field :: "nat \<Rightarrow> bytes \<Rightarrow> strict_field" where
  "fixed64_field fn d = \<lparr>sf_fn = fn, sf_wt = 1, sf_varint = None, sf_bytes = None, sf_fixed64 = Some d, sf_fixed32 = None\<rparr>"
definition bytes_field :: "nat \<Rightarrow> bytes \<Rightarrow> strict_field" where
  "bytes_field fn d = \<lparr>sf_fn = fn, sf_wt = 2, sf_varint = None, sf_bytes = Some d, sf_fixed64 = None, sf_fixed32 = None\<rparr>"
definition fixed32_field :: "nat \<Rightarrow> bytes \<Rightarrow> strict_field" where
  "fixed32_field fn d = \<lparr>sf_fn = fn, sf_wt = 5, sf_varint = None, sf_bytes = None, sf_fixed64 = None, sf_fixed32 = Some d\<rparr>"

text \<open>One turn of the loop: the field and what follows it, \<open>None\<close> where the code returns undefined.\<close>

definition strict_next :: "bytes \<Rightarrow> (strict_field \<times> bytes) option" where
  "strict_next bs =
     (case readBoundedVarint bs MAX_UINT32 of
        None \<Rightarrow> None
      | Some (tag, b1) \<Rightarrow>
          let fn = drop_bit 3 tag; wt = and tag 7 in
          if fn = 0 \<or> fn > MAX_PROTOBUF_FIELD_NUMBER then None
          else if wt = 0 then
            (case readBoundedVarint b1 MAX_UINT64 of
               None \<Rightarrow> None
             | Some (v, b2) \<Rightarrow> Some (varint_field fn v, b2))
          else if wt = 1 then
            (if length b1 < 8 then None else Some (fixed64_field fn (take 8 b1), drop 8 b1))
          else if wt = 2 then
            (case readBoundedVarint b1 MAX_UINT32 of
               None \<Rightarrow> None
             | Some (len, b2) \<Rightarrow>
                 if length b2 < len then None else Some (bytes_field fn (take len b2), drop len b2))
          else if wt = 5 then
            (if length b1 < 4 then None else Some (fixed32_field fn (take 4 b1), drop 4 b1))
          else None)"

lemma readBoundedLoop_shrinks:
  "readBoundedLoop maximum k v s bs = Some (r, rest) \<Longrightarrow> length rest < length bs"
  by (induction maximum k v s bs rule: readBoundedLoop.induct) (auto simp: Let_def less_SucI split: if_splits)

lemma readBoundedVarint_shrinks: "readBoundedVarint bs m = Some (r, rest) \<Longrightarrow> length rest < length bs"
  by (auto simp: readBoundedVarint_def dest: readBoundedLoop_shrinks)

lemma strict_next_shrinks: "strict_next bs = Some (f, rest) \<Longrightarrow> length rest < length bs"
  by (fastforce simp: strict_next_def Let_def dest: readBoundedVarint_shrinks split: option.splits if_splits)

function readAllFieldsStrict :: "bytes \<Rightarrow> strict_field list option" where
  "readAllFieldsStrict bs =
     (if bs = [] then Some []
      else case strict_next bs of
        None \<Rightarrow> None
      | Some (f, rest) \<Rightarrow> map_option (Cons f) (readAllFieldsStrict rest))"
  by pat_completeness auto
termination by (relation "measure length") (auto dest: strict_next_shrinks)

declare readAllFieldsStrict.simps [simp del]

section \<open>Varints\<close>

lemma or_push_bit_nat:
  fixes a m :: nat
  assumes "a < 2 ^ s"
  shows "or a (push_bit s m) = a + m * 2 ^ s"
proof -
  have "\<not> bit a n" if "s \<le> n" for n
  proof -
    have "a < 2 ^ n" using assms by (rule less_le_trans) (simp add: that)
    then show ?thesis by (simp add: bit_iff_odd)
  qed
  then have "and a (push_bit s m) = 0"
    by (intro bit_eqI) (auto simp: bit_and_iff bit_push_bit_iff)
  then show ?thesis
    by (simp add: disjunctive_add_eq_or [symmetric] push_bit_eq_mult)
qed

text \<open>A byte's payload and continuation bit.\<close>

lemma unat_payload: "unat (and (x :: byte) 0x7f) = unat x mod 128"
proof -
  have "(0x7f :: byte) = mask 7" by (simp add: mask_eq_exp_minus_1)
  then have "and x 0x7f = take_bit 7 x" by (simp add: take_bit_eq_mask)
  then show ?thesis by (simp add: unsigned_take_bit_eq take_bit_eq_mod unat_mod)
qed

lemma unat_payload32: "unat (and (x :: 32 word) 0x7f) = unat x mod 128"
proof -
  have "(0x7f :: 32 word) = mask 7" by (simp add: mask_eq_exp_minus_1)
  then have "and x 0x7f = take_bit 7 x" by (simp add: take_bit_eq_mask)
  then show ?thesis by (simp add: unsigned_take_bit_eq take_bit_eq_mod unat_mod)
qed

lemma top_bit: "and (x :: byte) 0x80 = 0 \<longleftrightarrow> unat x < 128"
proof -
  have "unat x < 256" using unsigned_less [of x] by simp
  have "and x 0x80 = 0 \<longleftrightarrow> \<not> bit x 7"
    using and_exp_eq_0_iff_not_bit [of x 7] by simp
  also have "\<dots> \<longleftrightarrow> \<not> bit (unat x) 7" by (simp add: bit_unsigned_iff)
  also have "\<dots> \<longleftrightarrow> even (unat x div 128)" by (simp add: bit_iff_odd)
  also have "\<dots> \<longleftrightarrow> unat x < 128"
  proof (cases "unat x < 128")
    case False
    then have "unat x div 128 = 1" using \<open>unat x < 256\<close> by (intro div_nat_eqI) auto
    with False show ?thesis by simp
  qed simp
  finally show ?thesis .
qed

text \<open>The minimal encoding of a natural number, the specification of both readers.\<close>

fun enc_varint :: "nat \<Rightarrow> bytes" where
  "enc_varint n = (if n > 127 then of_nat (n mod 128 + 128) # enc_varint (n div 128) else [of_nat n])"

declare enc_varint.simps [simp del]

lemma enc_varint_nonempty [simp]: "enc_varint n \<noteq> []"
  by (subst enc_varint.simps) simp

lemma unat_byte: "n < 256 \<Longrightarrow> unat (of_nat n :: byte) = n"
  by (simp add: unat_of_nat)

lemma unat_high_byte: "unat (of_nat (n mod 128 + 128) :: byte) = n mod 128 + 128"
proof (rule unat_byte)
  have "n mod 128 < 128" by simp
  then show "n mod 128 + 128 < 256" by linarith
qed

lemma writeVarint_enc: "writeVarint v = enc_varint (unat v)"
proof (induction v rule: writeVarint.induct)
  case (1 v)
  show ?case
  proof (cases "0x7f < v")
    case True
    have d: "unat (drop_bit 7 v) = unat v div 128"
      by (simp add: drop_bit_eq_div unat_div)
    have "ucast (or (and v 0x7f) 0x80) = (of_nat (unat v mod 128 + 128) :: byte)"
    proof -
      have "unat (or (and v 0x7f) 0x80) = or (unat v mod 128) (push_bit 7 1)"
        by (simp add: unsigned_or_eq unat_payload32)
      also have "\<dots> = unat v mod 128 + 128" by (subst or_push_bit_nat) simp_all
      finally show ?thesis by (metis of_nat_unat)
    qed
    then show ?thesis
      using 1 [OF True] True by (simp add: writeVarint.simps [of v] enc_varint.simps [of "unat v"] d word_less_nat_alt)
  next
    case False
    then show ?thesis
      by (simp add: writeVarint.simps [of v] enc_varint.simps [of "unat v"] word_less_nat_alt of_nat_unat)
  qed
qed

lemma readBoundedLoop_enc:
  "a < 2 ^ s \<Longrightarrow> a + n * 2 ^ s \<le> m \<Longrightarrow> n < 2 ^ (7 * k) \<Longrightarrow> 0 < k \<Longrightarrow>
   readBoundedLoop m k a s (enc_varint n @ rest) = Some (a + n * 2 ^ s, rest)"
proof (induction n arbitrary: a s k rule: enc_varint.induct)
  case (1 n)
  then obtain k' where k: "k = Suc k'" by (cases k) auto
  show ?case
  proof (cases "n > 127")
    case False
    then show ?thesis
      using "1.prems" by (simp add: enc_varint.simps [of n] k Let_def unat_payload unat_byte top_bit or_push_bit_nat)
  next
    case True
    let ?a = "a + n mod 128 * 2 ^ s"
    have split: "?a + n div 128 * 2 ^ (s + 7) = a + n * 2 ^ s"
    proof -
      have "n mod 128 * 2 ^ s + n div 128 * 2 ^ (s + 7) = (n mod 128 + n div 128 * 128) * 2 ^ s"
        by (simp only: power_add distrib_right) simp
      then show ?thesis by (simp only: mod_div_mult_eq add.assoc)
    qed
    have "n mod 128 * 2 ^ s \<le> 127 * 2 ^ s" by (intro mult_right_mono) auto
    moreover have "(2 :: nat) ^ (s + 7) = 128 * 2 ^ s" by (simp add: power_add)
    ultimately have a: "?a < 2 ^ (s + 7)" using "1.prems"(1) by linarith
    have le: "?a \<le> m" using "1.prems"(2) split by linarith
    have "0 < k'" using "1.prems"(3) True k by (cases k') auto
    have "n div 128 < 2 ^ (7 * k')"
      using "1.prems"(3) by (simp add: k power_add less_mult_imp_div_less mult.commute)
    then have "readBoundedLoop m k' ?a (s + 7) (enc_varint (n div 128) @ rest) = Some (a + n * 2 ^ s, rest)"
      using "1.IH" [OF True a, of k'] "1.prems"(2) split \<open>0 < k'\<close> by simp
    then show ?thesis
      using True le "1.prems"(1)
      by (simp del: of_nat_add add: enc_varint.simps [of n] k Let_def unat_payload unat_high_byte top_bit or_push_bit_nat)
  qed
qed

lemma readBoundedVarint_enc:
  "n \<le> m \<Longrightarrow> n < 2 ^ 64 \<Longrightarrow> readBoundedVarint (enc_varint n @ rest) m = Some (n, rest)"
  using readBoundedLoop_enc [of 0 0 n m 10 rest] by (simp add: readBoundedVarint_def)

text \<open>
  Where the strict reader accepts a value below \<open>2 ^ 32\<close>, the lenient loop with its 32-bit shifts
  reads the same value and stops at the same byte.
\<close>

lemma readBoundedLoop_grows:
  "readBoundedLoop m k a s bs = Some (v, rest) \<Longrightarrow> a < 2 ^ s \<Longrightarrow> a \<le> v"
proof (induction m k a s bs rule: readBoundedLoop.induct)
  case (3 m k a s b bs)
  let ?p = "unat b mod 128"
  have or: "or a (push_bit s (unat (and b 0x7f))) = a + ?p * 2 ^ s"
    using 3(3) by (simp add: or_push_bit_nat unat_payload)
  have "?p * 2 ^ s \<le> 127 * 2 ^ s" by (intro mult_right_mono) auto
  moreover have "(2 :: nat) ^ (s + 7) = 128 * 2 ^ s" by (simp add: power_add)
  ultimately have "a + ?p * 2 ^ s < 2 ^ (s + 7)" using 3(3) by linarith
  then show ?case
    using 3(1) [OF or [symmetric]] 3(2) by (auto simp: or Let_def split: if_splits)
qed auto

lemma lenient_byte:
  assumes "a + p * 2 ^ s < 2 ^ 32" and "a < 2 ^ s" and "p = unat (and (b :: byte) 0x7f)"
  shows "or (of_nat a) (push_bit (s mod 32) (ucast (and b 0x7f))) = (of_nat (a + p * 2 ^ s) :: 32 word)"
proof (cases "s < 32")
  case True
  have "(of_nat (or a (push_bit s p)) :: 32 word) = or (of_nat a) (push_bit s (of_nat p))"
    by (simp only: of_nat_or_eq of_nat_push_bit)
  then show ?thesis
    using True assms(2) by (simp add: or_push_bit_nat assms(3))
next
  case False
  have "p = 0"
  proof (rule ccontr)
    assume "p \<noteq> 0"
    then have "2 ^ s \<le> p * 2 ^ s" by simp
    moreover have "(2 :: nat) ^ 32 \<le> 2 ^ s" using False by (intro power_increasing) auto
    ultimately show False using assms(1) by linarith
  qed
  then have "and b 0x7f = 0" using assms(3) by (simp add: unat_eq_0 [symmetric])
  then show ?thesis by (simp add: \<open>p = 0\<close>)
qed

lemma lenient_loop:
  "readBoundedLoop m k a s bs = Some (v, rest) \<Longrightarrow> v < 2 ^ 32 \<Longrightarrow> a < 2 ^ s \<Longrightarrow>
   readVarintLoop (of_nat a) s bs = (of_nat v, rest)"
proof (induction m k a s bs rule: readBoundedLoop.induct)
  case (3 m k a s b bs)
  let ?p = "unat (and b 0x7f)"
  have or: "or a (push_bit s ?p) = a + ?p * 2 ^ s" using 3(4) by (simp add: or_push_bit_nat)
  have "?p * 2 ^ s \<le> 127 * 2 ^ s" by (intro mult_right_mono) (auto simp: unat_payload)
  moreover have "(2 :: nat) ^ (s + 7) = 128 * 2 ^ s" by (simp add: power_add)
  ultimately have a': "a + ?p * 2 ^ s < 2 ^ (s + 7)" using 3(4) by linarith
  have next_v: "a + ?p * 2 ^ s \<le> v"
    using 3(2) a' by (auto simp: or Let_def dest: readBoundedLoop_grows split: if_splits)
  then have step: "or (of_nat a) (push_bit (s mod 32) (ucast (and b 0x7f))) = (of_nat (a + ?p * 2 ^ s) :: 32 word)"
    using 3(3,4) by (intro lenient_byte) auto
  show ?case
    using 3(1) [OF or [symmetric] _ _ _ 3(3) a'] 3(2)
    by (auto simp del: of_nat_add of_nat_mult simp add: Let_def step or split: if_splits)
qed auto

lemma lenient_varint:
  "readBoundedVarint bs m = Some (v, rest) \<Longrightarrow> v < 2 ^ 32 \<Longrightarrow> readVarintAt bs = (of_nat v, rest)"
  using lenient_loop [of m 10 0 0 bs v rest] by (simp add: readBoundedVarint_def readVarintAt_def)

lemma readVarintAt_write: "readVarintAt (writeVarint v @ rest) = (v, rest)"
proof -
  have u: "unat v < 2 ^ 32" using unsigned_less [of v] by simp
  then have "readBoundedVarint (enc_varint (unat v) @ rest) MAX_UINT64 = Some (unat v, rest)"
    by (intro readBoundedVarint_enc) (auto simp: MAX_UINT64_def)
  from lenient_varint [OF this u] show ?thesis by (simp add: writeVarint_enc)
qed

section \<open>Fields\<close>

text \<open>A field a protobuf message can hold, and its minimal encoding.\<close>

definition strict_ok :: "strict_field \<Rightarrow> bool" where
  "strict_ok f \<longleftrightarrow> 0 < sf_fn f \<and> sf_fn f \<le> MAX_PROTOBUF_FIELD_NUMBER \<and>
     ((\<exists>v < 2 ^ 64. f = varint_field (sf_fn f) v) \<or>
      (\<exists>d. length d = 8 \<and> f = fixed64_field (sf_fn f) d) \<or>
      (\<exists>d. length d < 2 ^ 32 \<and> f = bytes_field (sf_fn f) d) \<or>
      (\<exists>d. length d = 4 \<and> f = fixed32_field (sf_fn f) d))"

definition enc_field :: "strict_field \<Rightarrow> bytes" where
  "enc_field f =
     enc_varint (sf_fn f * 8 + sf_wt f)
     @ (case sf_varint f of Some v \<Rightarrow> enc_varint v
        | None \<Rightarrow> (case sf_bytes f of Some d \<Rightarrow> enc_varint (length d) @ d
        | None \<Rightarrow> (case sf_fixed64 f of Some d \<Rightarrow> d
        | None \<Rightarrow> (case sf_fixed32 f of Some d \<Rightarrow> d | None \<Rightarrow> []))))"

lemmas field_defs = varint_field_def fixed64_field_def bytes_field_def fixed32_field_def

lemma strict_ok_cases [consumes 1, case_names varint fixed64 bytes fixed32]:
  assumes "strict_ok f"
    and "\<And>n v. f = varint_field n v \<Longrightarrow> v < 2 ^ 64 \<Longrightarrow> 0 < n \<Longrightarrow> n \<le> MAX_PROTOBUF_FIELD_NUMBER \<Longrightarrow> P"
    and "\<And>n d. f = fixed64_field n d \<Longrightarrow> length d = 8 \<Longrightarrow> 0 < n \<Longrightarrow> n \<le> MAX_PROTOBUF_FIELD_NUMBER \<Longrightarrow> P"
    and "\<And>n d. f = bytes_field n d \<Longrightarrow> length d < 2 ^ 32 \<Longrightarrow> 0 < n \<Longrightarrow> n \<le> MAX_PROTOBUF_FIELD_NUMBER \<Longrightarrow> P"
    and "\<And>n d. f = fixed32_field n d \<Longrightarrow> length d = 4 \<Longrightarrow> 0 < n \<Longrightarrow> n \<le> MAX_PROTOBUF_FIELD_NUMBER \<Longrightarrow> P"
  shows P
  using assms unfolding strict_ok_def by blast

lemma tag_parts:
  assumes "w < 8"
  shows "drop_bit 3 (n * 8 + w :: nat) = n" "and (n * 8 + w :: nat) 7 = w"
proof -
  show "drop_bit 3 (n * 8 + w) = n" using assms by (simp add: drop_bit_eq_div)
  have "(7 :: nat) = mask 3" by (simp add: mask_eq_exp_minus_1)
  then have "and (n * 8 + w) 7 = take_bit 3 (n * 8 + w)" by (simp only: take_bit_eq_mask)
  then show "and (n * 8 + w) 7 = w" using assms by (simp add: take_bit_eq_mod)
qed

lemma strict_next_tag:
  assumes "0 < n" and "n \<le> MAX_PROTOBUF_FIELD_NUMBER" and "w < 8"
  shows "readBoundedVarint (enc_varint (n * 8 + w) @ rest) MAX_UINT32 = Some (n * 8 + w, rest)"
  using assms by (intro readBoundedVarint_enc) (auto simp: MAX_UINT32_def MAX_PROTOBUF_FIELD_NUMBER_def)

lemma strict_next_enc:
  assumes "strict_ok f"
  shows "strict_next (enc_field f @ rest) = Some (f, rest)"
  using assms
proof (cases rule: strict_ok_cases)
  case (varint n v)
  have "readBoundedVarint (enc_varint v @ rest) MAX_UINT64 = Some (v, rest)"
    using varint(2) by (intro readBoundedVarint_enc) (auto simp: MAX_UINT64_def)
  then show ?thesis
    using varint strict_next_tag [of n 0 "enc_varint v @ rest"] tag_parts [of 0 n]
    by (simp add: strict_next_def enc_field_def varint_field_def)
next
  case (fixed64 n d)
  then show ?thesis
    using strict_next_tag [of n 1 "d @ rest"] tag_parts [of 1 n]
    by (simp add: strict_next_def enc_field_def fixed64_field_def)
next
  case (bytes n d)
  have "readBoundedVarint (enc_varint (length d) @ d @ rest) MAX_UINT32 = Some (length d, d @ rest)"
    using bytes(2) by (intro readBoundedVarint_enc) (auto simp: MAX_UINT32_def)
  then show ?thesis
    using bytes strict_next_tag [of n 2 "enc_varint (length d) @ d @ rest"] tag_parts [of 2 n]
    by (simp add: strict_next_def enc_field_def bytes_field_def)
next
  case (fixed32 n d)
  then show ?thesis
    using strict_next_tag [of n 5 "d @ rest"] tag_parts [of 5 n]
    by (simp add: strict_next_def enc_field_def fixed32_field_def)
qed

interpretation fields: prefix_codec enc_field strict_next strict_ok
  by unfold_locales (auto simp: strict_next_enc dest: strict_next_shrinks)

lemma enc_field_nonempty [simp]: "enc_field f \<noteq> []"
  by (simp add: enc_field_def)

lemma readAllFieldsStrict_enc_append:
  "\<forall>f \<in> set fs. strict_ok f \<Longrightarrow>
   readAllFieldsStrict (concat (map enc_field fs) @ rest)
     = map_option ((@) fs) (readAllFieldsStrict rest)"
proof (induction fs)
  case Nil
  then show ?case by (cases "readAllFieldsStrict rest") auto
next
  case (Cons f fs)
  then show ?case
    by (simp add: readAllFieldsStrict.simps [of "enc_field f @ _"] strict_next_enc option.map_comp comp_def)
qed

text \<open>What the strict reader accepts it accepts whatever follows.\<close>

lemma readBoundedLoop_append:
  "readBoundedLoop m k a s bs = Some (v, rest) \<Longrightarrow> readBoundedLoop m k a s (bs @ q) = Some (v, rest @ q)"
  by (induction m k a s bs rule: readBoundedLoop.induct) (auto simp: Let_def split: if_splits)

lemma readBoundedVarint_append:
  "readBoundedVarint bs m = Some (v, rest) \<Longrightarrow> readBoundedVarint (bs @ q) m = Some (v, rest @ q)"
  by (simp add: readBoundedVarint_def readBoundedLoop_append)

lemma strict_next_cases [consumes 1, case_names varint fixed64 bytes fixed32]:
  assumes "strict_next bs = Some (f, rest)"
  obtains (varint) tag b1 v where "readBoundedVarint bs MAX_UINT32 = Some (tag, b1)"
      "and tag 7 = 0" "readBoundedVarint b1 MAX_UINT64 = Some (v, rest)"
      "0 < drop_bit 3 tag" "drop_bit 3 tag \<le> MAX_PROTOBUF_FIELD_NUMBER" "f = varint_field (drop_bit 3 tag) v"
    | (fixed64) tag b1 where "readBoundedVarint bs MAX_UINT32 = Some (tag, b1)"
      "and tag 7 = 1" "8 \<le> length b1" "rest = drop 8 b1"
      "0 < drop_bit 3 tag" "drop_bit 3 tag \<le> MAX_PROTOBUF_FIELD_NUMBER" "f = fixed64_field (drop_bit 3 tag) (take 8 b1)"
    | (bytes) tag b1 len b2 where "readBoundedVarint bs MAX_UINT32 = Some (tag, b1)"
      "and tag 7 = 2" "readBoundedVarint b1 MAX_UINT32 = Some (len, b2)" "len \<le> length b2" "rest = drop len b2"
      "0 < drop_bit 3 tag" "drop_bit 3 tag \<le> MAX_PROTOBUF_FIELD_NUMBER" "f = bytes_field (drop_bit 3 tag) (take len b2)"
    | (fixed32) tag b1 where "readBoundedVarint bs MAX_UINT32 = Some (tag, b1)"
      "and tag 7 = 5" "4 \<le> length b1" "rest = drop 4 b1"
      "0 < drop_bit 3 tag" "drop_bit 3 tag \<le> MAX_PROTOBUF_FIELD_NUMBER" "f = fixed32_field (drop_bit 3 tag) (take 4 b1)"
proof -
  from assms obtain tag b1 where t: "readBoundedVarint bs MAX_UINT32 = Some (tag, b1)"
    by (auto simp: strict_next_def split: option.splits)
  show thesis
    using assms that(1-4) [OF t] by (auto simp: strict_next_def t Let_def not_less split: option.splits if_splits)
qed

lemma strict_next_append:
  assumes "strict_next bs = Some (f, rest)"
  shows "strict_next (bs @ q) = Some (f, rest @ q)"
  using assms
proof (cases rule: strict_next_cases)
  case (varint tag b1 v)
  then show ?thesis
    by (simp add: strict_next_def Let_def readBoundedVarint_append [OF varint(1)] readBoundedVarint_append [OF varint(3)])
next
  case (fixed64 tag b1)
  then show ?thesis by (simp add: strict_next_def Let_def readBoundedVarint_append [OF fixed64(1)])
next
  case (bytes tag b1 len b2)
  then show ?thesis
    by (simp add: strict_next_def Let_def readBoundedVarint_append [OF bytes(1)] readBoundedVarint_append [OF bytes(3)])
next
  case (fixed32 tag b1)
  then show ?thesis by (simp add: strict_next_def Let_def readBoundedVarint_append [OF fixed32(1)])
qed

lemma strict_next_truncated:
  assumes "strict_ok f" and "k < length (enc_field f)"
  shows "strict_next (take k (enc_field f)) = None"
proof (rule ccontr)
  assume "strict_next (take k (enc_field f)) \<noteq> None"
  then obtain g r where "strict_next (take k (enc_field f)) = Some (g, r)" by auto
  from strict_next_append [OF this, of "drop k (enc_field f)"]
  have "r @ drop k (enc_field f) = []" using strict_next_enc [OF assms(1), of "[]"] by simp
  then show False using assms(2) by simp
qed

section \<open>The strict and the lenient reader\<close>

definition lenient_of :: "strict_field \<Rightarrow> raw_field" where
  "lenient_of f =
     \<lparr>rf_fn = of_nat (sf_fn f), rf_wt = of_nat (sf_wt f),
      rf_varint = (case sf_varint f of None \<Rightarrow> 0 | Some v \<Rightarrow> of_nat v),
      rf_bytes = sf_bytes f, rf_i64 = sf_fixed64 f\<rparr>"

definition small_varint :: "strict_field \<Rightarrow> bool" where
  "small_varint f \<longleftrightarrow> (case sf_varint f of None \<Rightarrow> True | Some v \<Rightarrow> v < 2 ^ 32)"

lemma readBoundedLoop_le: "readBoundedLoop m k a s bs = Some (v, rest) \<Longrightarrow> v \<le> m"
  by (induction m k a s bs rule: readBoundedLoop.induct) (auto simp: Let_def split: if_splits)

lemma readBounded32:
  assumes "readBoundedVarint bs MAX_UINT32 = Some (v, rest)"
  shows "v < 2 ^ 32" "readVarintAt bs = (of_nat v, rest)"
proof -
  have "v \<le> MAX_UINT32" using assms by (simp add: readBoundedVarint_def readBoundedLoop_le)
  then show "v < 2 ^ 32" by (simp add: MAX_UINT32_def)
  then show "readVarintAt bs = (of_nat v, rest)" by (rule lenient_varint [OF assms])
qed

lemma lenient_tag:
  assumes "tag < 2 ^ 32"
  shows "drop_bit 3 (of_nat tag :: 32 word) = of_nat (drop_bit 3 tag)"
    and "and (of_nat tag :: 32 word) 7 = of_nat (and tag 7)"
proof -
  have "unat (of_nat tag :: 32 word) = tag" using assms by (simp add: unat_of_nat)
  then have "unat (drop_bit 3 (of_nat tag :: 32 word)) = drop_bit 3 tag" by (simp add: drop_bit_eq_div unat_div)
  then show "drop_bit 3 (of_nat tag :: 32 word) = of_nat (drop_bit 3 tag)" by (metis of_nat_unat ucast_id)
  show "and (of_nat tag :: 32 word) 7 = of_nat (and tag 7)" by (simp add: of_nat_and_eq)
qed

lemma wt_cases: "and (tag :: nat) 7 = w \<Longrightarrow> w < 8"
proof -
  assume "and tag 7 = w"
  moreover have "(7 :: nat) = mask 3" by (simp add: mask_eq_exp_minus_1)
  ultimately have "w = take_bit 3 tag" by (simp only: take_bit_eq_mask)
  then show "w < 8" by (simp add: take_bit_eq_mod)
qed

lemma readAllFields_tag:
  assumes "readBoundedVarint bs MAX_UINT32 = Some (tag, b1)"
  shows "readAllFields bs = (let fn = of_nat (drop_bit 3 tag); wt = (of_nat (and tag 7) :: 32 word) in
        if wt = 0 then
          (let (v, b2) = readVarintAt b1
           in \<lparr>rf_fn = fn, rf_wt = wt, rf_varint = v, rf_bytes = None, rf_i64 = None\<rparr> # readAllFields b2)
        else if wt = 2 then
          (let (len, b2) = readVarintAt b1
           in \<lparr>rf_fn = fn, rf_wt = wt, rf_varint = 0, rf_bytes = Some (take (unat len) b2), rf_i64 = None\<rparr>
              # readAllFields (drop (unat len) b2))
        else if wt = 1 then
          \<lparr>rf_fn = fn, rf_wt = wt, rf_varint = 0, rf_bytes = None, rf_i64 = Some (take 8 b1)\<rparr>
            # readAllFields (drop 8 b1)
        else if wt = 5 then readAllFields (drop 4 b1)
        else [])"
proof -
  have "bs \<noteq> []" using readBoundedVarint_shrinks [OF assms] by auto
  then show ?thesis
    using readBounded32 [OF assms] lenient_tag [OF readBounded32(1) [OF assms]]
    by (subst readAllFields.simps) (simp only: Let_def split_conv if_False)
qed

lemma lenient_step:
  assumes "strict_next bs = Some (f, rest)" and "small_varint f"
  shows "readAllFields bs = (if sf_wt f = 5 then [] else [lenient_of f]) @ readAllFields rest"
  using assms(1)
proof (cases rule: strict_next_cases)
  case (varint tag b1 v)
  then have "v < 2 ^ 32" using assms(2) by (simp add: small_varint_def varint_field_def)
  from lenient_varint [OF varint(3) this] varint show ?thesis
    by (simp add: readAllFields_tag [OF varint(1)] lenient_of_def varint_field_def)
next
  case (fixed64 tag b1)
  then show ?thesis by (simp add: readAllFields_tag [OF fixed64(1)] lenient_of_def fixed64_field_def)
next
  case (bytes tag b1 len b2)
  from readBounded32 [OF bytes(3)] bytes show ?thesis
    by (simp add: readAllFields_tag [OF bytes(1)] lenient_of_def bytes_field_def unat_of_nat)
next
  case (fixed32 tag b1)
  then show ?thesis by (simp add: readAllFields_tag [OF fixed32(1)] lenient_of_def fixed32_field_def)
qed

lemma readAllFieldsStrict_Cons:
  assumes "readAllFieldsStrict bs = Some (f # fs)"
  obtains rest where "strict_next bs = Some (f, rest)" "readAllFieldsStrict rest = Some fs"
  using assms by (subst (asm) readAllFieldsStrict.simps) (auto split: if_splits option.splits)

lemma readAllFieldsStrict_Nil: "readAllFieldsStrict bs = Some [] \<longleftrightarrow> bs = []"
  by (subst readAllFieldsStrict.simps) (auto split: option.splits)

lemma readAllFieldsStrict_Nil' [simp]: "readAllFieldsStrict [] = Some []"
  by (simp add: readAllFieldsStrict_Nil)

lemma strict_next_ok: "strict_next bs = Some (f, rest) \<Longrightarrow> strict_ok f"
proof (erule strict_next_cases)
  fix tag b1 v assume "readBoundedVarint b1 MAX_UINT64 = Some (v, rest)" "f = varint_field (drop_bit 3 tag) v"
    "0 < drop_bit 3 tag" "drop_bit 3 tag \<le> MAX_PROTOBUF_FIELD_NUMBER"
  moreover from this(1) have "v \<le> MAX_UINT64" by (simp add: readBoundedVarint_def readBoundedLoop_le)
  ultimately show ?thesis by (simp add: strict_ok_def field_defs MAX_UINT64_def)
next
  fix tag b1 len b2 assume "readBoundedVarint b1 MAX_UINT32 = Some (len, b2)" "len \<le> length b2"
    "f = bytes_field (drop_bit 3 tag) (take len b2)" "0 < drop_bit 3 tag" "drop_bit 3 tag \<le> MAX_PROTOBUF_FIELD_NUMBER"
  with readBounded32(1) [OF this(1)] show ?thesis by (simp add: strict_ok_def field_defs)
qed (simp_all add: strict_ok_def field_defs)

lemma readAllFieldsStrict_ok: "readAllFieldsStrict bs = Some fs \<Longrightarrow> f \<in> set fs \<Longrightarrow> strict_ok f"
proof (induction fs arbitrary: bs)
  case (Cons g fs)
  from Cons.prems(1) show ?case
  proof (rule readAllFieldsStrict_Cons)
    fix rest assume "strict_next bs = Some (g, rest)" "readAllFieldsStrict rest = Some fs"
    with Cons show ?thesis by (auto dest: strict_next_ok)
  qed
qed simp

lemma strict_lenient:
  "readAllFieldsStrict bs = Some fs \<Longrightarrow> \<forall>f \<in> set fs. small_varint f \<Longrightarrow>
   readAllFields bs = map lenient_of (filter (\<lambda>f. sf_wt f \<noteq> 5) fs)"
proof (induction fs arbitrary: bs)
  case Nil
  then show ?case by (simp add: readAllFieldsStrict_Nil readAllFields.simps [of "[]"])
next
  case (Cons f fs)
  from Cons.prems(1) show ?case
  proof (rule readAllFieldsStrict_Cons)
    fix rest assume n: "strict_next bs = Some (f, rest)" and r: "readAllFieldsStrict rest = Some fs"
    have "small_varint f" using Cons.prems(2) by simp
    from lenient_step [OF n this] Cons.IH [OF r] Cons.prems(2) show ?thesis by auto
  qed
qed

lemma strict_truncated:
  assumes "\<forall>g \<in> set fs. strict_ok g" and "strict_ok f" and "0 < k" and "k < length (enc_field f)"
  shows "readAllFieldsStrict (concat (map enc_field fs) @ take k (enc_field f)) = None"
proof -
  have "take k (enc_field f) \<noteq> []" using assms(3,4) by auto
  then have "readAllFieldsStrict (take k (enc_field f)) = None"
    by (subst readAllFieldsStrict.simps) (simp add: strict_next_truncated assms)
  then show ?thesis by (simp add: readAllFieldsStrict_enc_append assms(1))
qed

section \<open>Properties\<close>

lemmas wire_eval = strict_ok_def field_defs MAX_PROTOBUF_FIELD_NUMBER_def enc_field_def enc_varint.simps

text \<open>The strict reader that guards replay decisions and the lenient reader that decodes tool
  arguments agree: where the strict reader accepts a message whose integers fit 32 bits, the lenient
  reader, with its 32-bit wrapping shifts, returns the same fields in the same order (fixed32 fields,
  which it skips, apart).\<close>

theorem strict_reader_agrees_with_lenient:
  assumes "readAllFieldsStrict bs = Some fs" and "\<forall>f \<in> set fs. small_varint f"
  shows "readAllFields bs = map lenient_of (filter (\<lambda>f. sf_wt f \<noteq> 5) fs)"
  using assms by (rule strict_lenient)

theorem strict_reader_agrees_with_lenient_witness:
  "readAllFields [8, 172, 2, 18, 1, 65, 29, 1, 2, 3, 4]
     = map lenient_of [varint_field 1 300, bytes_field 2 [65]]"
proof -
  have "readAllFieldsStrict [8, 172, 2, 18, 1, 65, 29, 1, 2, 3, 4]
      = Some [varint_field 1 300, bytes_field 2 [65], fixed32_field 3 [1, 2, 3, 4]]"
    using readAllFieldsStrict_enc_append
        [of "[varint_field 1 300, bytes_field 2 [65], fixed32_field 3 [1, 2, 3, 4]]" "[]"]
    by (simp add: wire_eval)
  from strict_reader_agrees_with_lenient [OF this] show ?thesis
    by (simp add: field_defs small_varint_def)
qed

text \<open>C36: The strict reader reads back exactly the fields that were written, and refuses the message
  as a whole when it is cut anywhere inside a field: it never returns a partial result.\<close>

theorem strict_reader_complete_or_refuses:
  assumes "\<forall>g \<in> set gs. strict_ok g" and "strict_ok f" and "0 < k" and "k < length (enc_field f)"
  shows "readAllFieldsStrict (concat (map enc_field gs)) = Some gs
    \<and> readAllFieldsStrict (concat (map enc_field gs) @ take k (enc_field f)) = None"
  using readAllFieldsStrict_enc_append [OF assms(1), of "[]"] strict_truncated [OF assms] by simp

theorem strict_reader_complete_or_refuses_witness:
  "readAllFieldsStrict (concat (map enc_field [varint_field 7 5])) = Some [varint_field 7 5]
    \<and> readAllFieldsStrict (concat (map enc_field [varint_field 7 5]) @ take 3 (enc_field (bytes_field 2 [1, 2]))) = None"
  by (rule strict_reader_complete_or_refuses)
    (simp_all add: wire_eval)

text \<open>Every field the strict reader returns has a field number between 1 and the protobuf maximum,
  a wire type other than a group, and contents in range for it: 64-bit integers, full eight- and
  four-byte fixed fields, and length-delimited bytes of the announced length.\<close>

theorem strict_reader_fields_valid:
  assumes "readAllFieldsStrict bs = Some fs"
  shows "\<forall>f \<in> set fs. strict_ok f"
  using readAllFieldsStrict_ok [OF assms] by blast

theorem strict_reader_fields_valid_witness:
  "strict_ok (bytes_field 2 [65])"
proof -
  have "readAllFieldsStrict [18, 1, 65] = Some [bytes_field 2 [65]]"
    using readAllFieldsStrict_enc_append [of "[bytes_field 2 [65]]" "[]"] by (simp add: wire_eval)
  from strict_reader_fields_valid [OF this] show ?thesis by simp
qed

end
