(* ===== verification/JsonValue.thy ===== *)
theory JsonValue
  imports Wire Utf8 "HOL-Library.List_Lexorder"
begin

text \<open>
  \<open>google.protobuf.Value\<close> bytes and JSON (\<open>src/src/protocol/struct.ts\<close>): the encoder
  \<open>encodeJsonAsValue\<close>, the decoders built on the lenient reader, and their round trip. A number is
  its IEEE bit pattern, which \<open>setFloat64\<close> and \<open>getFloat64\<close> copy; an object is its own enumerable
  entries.
\<close>

section \<open>JSON values\<close>

text \<open>\<open>JOther\<close> is a value the encoder has no case for (a function, a symbol, a bigint).\<close>

datatype json =
    JNull
  | JUndefined
  | JNumber "64 word"
  | JBoolean bool
  | JString utf16
  | JArray "json list"
  | JObject "(utf16 \<times> json) list"
  | JOther

section \<open>The encoder\<close>

definition writeString :: "32 word \<Rightarrow> utf16 \<Rightarrow> bytes" where
  "writeString field str = writeLengthDelimited field (textEncode str)"

definition float64_le :: "64 word \<Rightarrow> bytes" where
  "float64_le w = map (\<lambda>i. ucast (drop_bit (8 * i) w)) [0..<8]"

definition writeDouble :: "32 word \<Rightarrow> 64 word \<Rightarrow> bytes" where
  "writeDouble field num = writeTag field 1 @ float64_le num"

text \<open>\<open>Object.entries(v).sort(\<dots>)\<close>: by the keys' code units; the sort is stable.\<close>

definition sorted_entries :: "(utf16 \<times> json) list \<Rightarrow> (utf16 \<times> json) list" where
  "sorted_entries kvs = sort_key fst kvs"

lemma sorted_entries_set [simp]: "set (sorted_entries kvs) = set kvs"
  by (simp add: sorted_entries_def)

lemma size_entry: "(k, v) \<in> set kvs \<Longrightarrow> size v < Suc (size_list (size_prod (\<lambda>_. 0) size) kvs)"
  by (induction kvs) auto

function encodeJsonAsValue :: "json \<Rightarrow> bytes" where
  "encodeJsonAsValue JNull = writeTag 1 0 @ writeVarint 0"
| "encodeJsonAsValue JUndefined = writeTag 1 0 @ writeVarint 0"
| "encodeJsonAsValue (JNumber n) = writeDouble 2 n"
| "encodeJsonAsValue (JBoolean b) = writeTag 4 0 @ writeVarint (if b then 1 else 0)"
| "encodeJsonAsValue (JString s) = writeString 3 s"
| "encodeJsonAsValue (JArray vs) =
     writeLengthDelimited 6 (concat (map (\<lambda>item. writeLengthDelimited 1 (encodeJsonAsValue item)) vs))"
| "encodeJsonAsValue (JObject kvs) =
     writeLengthDelimited 5 (concat (map (\<lambda>(key, val).
        if val = JUndefined then []
        else writeLengthDelimited 1 (writeString 1 key @ writeLengthDelimited 2 (encodeJsonAsValue val)))
       (sorted_entries kvs)))"
| "encodeJsonAsValue JOther = writeTag 1 0 @ writeVarint 0"
  by pat_completeness auto
termination
  by (relation "measure size") (auto simp: size_list_estimation' less_Suc_eq_le dest: size_entry)

section \<open>The decoders\<close>

text \<open>
  Assigning \<open>obj[key]\<close> on an object literal: \<open>__proto__\<close> sets the prototype (or nothing) and
  makes no own property.
\<close>

definition proto_key :: utf16 where
  "proto_key = map (\<lambda>c. of_nat (of_char c)) ''__proto__''"

definition assign_key :: "utf16 \<Rightarrow> json \<Rightarrow> (utf16 \<times> json) list \<Rightarrow> (utf16 \<times> json) list" where
  "assign_key key v obj = (if key = proto_key then obj else AList.update key v obj)"

fun readMapEntryLoop :: "utf16 option \<times> bytes option \<Rightarrow> raw_field list \<Rightarrow> utf16 option \<times> bytes option" where
  "readMapEntryLoop acc [] = acc"
| "readMapEntryLoop (key, val) (e # es) =
     (case rf_bytes e of
        None \<Rightarrow> readMapEntryLoop (key, val) es
      | Some d \<Rightarrow>
          if rf_fn e = 1 then readMapEntryLoop (Some (textDecode d), val) es
          else if rf_fn e = 2 then readMapEntryLoop (key, Some d) es
          else readMapEntryLoop (key, val) es)"

definition readMapEntry :: "bytes \<Rightarrow> utf16 option \<times> bytes option" where
  "readMapEntry b = readMapEntryLoop (None, None) (readAllFields b)"

text \<open>The length-delimited fields number 1 of a message: list items, or map entries.\<close>

definition items1 :: "bytes \<Rightarrow> bytes list" where
  "items1 b = List.map_filter (\<lambda>f. if rf_fn f = 1 then rf_bytes f else None) (readAllFields b)"

definition entries1 :: "bytes list \<Rightarrow> (utf16 \<times> bytes option) list" where
  "entries1 es = List.map_filter (\<lambda>e. case readMapEntry e of (None, _) \<Rightarrow> None | (Some k, vb) \<Rightarrow> Some (k, vb)) es"

definition float64_of :: "bytes \<Rightarrow> 64 word" where
  "float64_of d = foldr (\<lambda>b acc. or (push_bit 8 acc) (ucast b)) d 0"

lemma readAllFields_smaller:
  "f \<in> set (readAllFields b) \<Longrightarrow> rf_bytes f = Some d \<Longrightarrow> length d < length b"
proof (induction "length b" arbitrary: b rule: less_induct)
  case less
  obtain key b1 where r: "readVarintAt b = (key, b1)" by force
  obtain v b2 where r1: "readVarintAt b1 = (v, b2)" by force
  have ne: "b \<noteq> []" using less.prems(1) by (auto simp: readAllFields.simps [of b])
  have b1: "length b1 < length b" using readVarintAt_shorter [OF r [symmetric]] ne by simp
  have b2: "length b2 \<le> length b1" using readVarintAt_shorter [OF r1 [symmetric]] by simp
  have IH: "length q < length b \<Longrightarrow> f \<in> set (readAllFields q) \<Longrightarrow> length d < length b" for q
    using less.hyps [of q] less.prems(2) by force
  have "f \<in> set (readAllFields b2) \<or> f \<in> set (readAllFields (drop (unat v) b2)) \<or> f \<in> set (readAllFields (drop 8 b1))
      \<or> f \<in> set (readAllFields (drop 4 b1)) \<or> d = take (unat v) b2"
    using less.prems by (subst (asm) readAllFields.simps) (auto simp: r r1 ne Let_def split: if_splits)
  then show ?case
    using b1 b2 IH [of b2] IH [of "drop (unat v) b2"] IH [of "drop 8 b1"] IH [of "drop 4 b1"] by auto
qed

lemma items1_smaller: "d \<in> set (items1 b) \<Longrightarrow> length d < length b"
  by (auto simp: items1_def List.map_filter_def readAllFields_smaller split: if_splits)

lemma readMapEntryLoop_smaller:
  "readMapEntryLoop (k0, v0) es = (k, Some d) \<Longrightarrow> v0 = Some d \<or> (\<exists>e \<in> set es. rf_bytes e = Some d)"
  by (induction "(k0, v0)" es arbitrary: k0 v0 rule: readMapEntryLoop.induct)
    (fastforce split: option.splits if_splits)+

lemma entries1_smaller:
  "(k, Some d) \<in> set (entries1 es) \<Longrightarrow> \<exists>e \<in> set es. length d < length e"
  by (fastforce simp: entries1_def List.map_filter_def readMapEntry_def split: prod.splits option.splits
      dest: readMapEntryLoop_smaller readAllFields_smaller)

text \<open>
  \<open>decodeValueToJson\<close> with \<open>decodeStructBytes\<close> and \<open>decodeListBytes\<close>, which call it back. \<open>None\<close>
  stands for a double cut short: there \<open>DataView\<close> reads the enclosing buffer's bytes or throws,
  so the result is not a function of the message.
\<close>

function decodeValueToJson :: "bytes \<Rightarrow> json option" where
  "decodeValueToJson b =
     (case readAllFields b of
        [] \<Rightarrow> Some JNull
      | f # _ \<Rightarrow>
          if rf_fn f = 1 then Some JNull
          else if rf_fn f = 2 then
            (case rf_i64 f of
               None \<Rightarrow> Some (JNumber 0)
             | Some d \<Rightarrow> if length d = 8 then Some (JNumber (float64_of d)) else None)
          else if rf_fn f = 3 then
            Some (JString (case rf_bytes f of None \<Rightarrow> [] | Some d \<Rightarrow> textDecode d))
          else if rf_fn f = 4 then Some (JBoolean (rf_varint f \<noteq> 0))
          else if rf_fn f = 5 then
            (case rf_bytes f of
               None \<Rightarrow> Some (JObject [])
             | Some d \<Rightarrow>
                 map_option (\<lambda>kvs. JObject (fold (\<lambda>(k, v). assign_key k v) kvs []))
                   (those (map (\<lambda>(k, vb). case vb of
                       None \<Rightarrow> Some (k, JNull)
                     | Some vd \<Rightarrow> map_option (Pair k) (decodeValueToJson vd)) (entries1 (items1 d)))))
          else if rf_fn f = 6 then
            (case rf_bytes f of
               None \<Rightarrow> Some (JArray [])
             | Some d \<Rightarrow> map_option JArray (those (map decodeValueToJson (items1 d))))
          else Some JNull)"
  by pat_completeness auto
termination
proof (relation "measure length", goal_cases)
  case (2 b f fs d z k vb vd)
  then have "length d < length b" by (auto intro!: readAllFields_smaller [of f])
  moreover from 2 obtain e where "e \<in> set (items1 d)" "length vd < length e" by (auto dest: entries1_smaller)
  ultimately show ?case using items1_smaller [of e d] by auto
next
  case (3 b f fs d z)
  then have "length d < length b" by (auto intro!: readAllFields_smaller [of f])
  then show ?case using 3 items1_smaller [of z d] by auto
qed simp

declare decodeValueToJson.simps [simp del]

definition decodeStructEntriesToJson :: "bytes list \<Rightarrow> json option" where
  "decodeStructEntriesToJson entries =
     map_option (\<lambda>kvs. JObject (fold (\<lambda>(k, v). assign_key k v) kvs []))
       (those (map (\<lambda>(k, vb). case vb of
           None \<Rightarrow> Some (k, JNull)
         | Some vd \<Rightarrow> map_option (Pair k) (decodeValueToJson vd)) (entries1 entries)))"

definition decodeStructBytes :: "bytes \<Rightarrow> json option" where
  "decodeStructBytes b = decodeStructEntriesToJson (items1 b)"

definition decodeListBytes :: "bytes \<Rightarrow> json option" where
  "decodeListBytes b = map_option JArray (those (map decodeValueToJson (items1 b)))"

section \<open>Reading what was written\<close>

lemma not_bit_small:
  fixes x :: "'a::len word"
  assumes "unat x < 2 ^ k" and "k \<le> i"
  shows "\<not> bit x i"
proof -
  have "unat x < 2 ^ i" using assms(1) by (rule less_le_trans) (simp add: assms(2))
  then have "\<not> bit (unat x) i" by (simp add: bit_iff_odd)
  then show ?thesis by (simp add: bit_unsigned_iff)
qed

lemma tag_word:
  assumes "n \<le> (6 :: 32 word)" and "w \<le> 2"
  shows "drop_bit 3 (or (push_bit 3 n) w) = n" and "and (or (push_bit 3 n) w) 7 = w"
proof -
  have n: "\<not> bit n i" if "3 \<le> i" for i
    using assms(1) that by (intro not_bit_small [of n 3]) (auto simp: word_le_nat_alt)
  have w: "\<not> bit w i" if "2 \<le> i" for i
    using assms(2) that by (intro not_bit_small [of w 2]) (auto simp: word_le_nat_alt)
  have w': "bit w i \<Longrightarrow> i < 2" for i using w [of i] by fastforce
  have n': "bit n i \<Longrightarrow> i < 29" for i using n [of i] by fastforce
  show "drop_bit 3 (or (push_bit 3 n) w) = n"
    by (rule bit_word_eqI) (auto simp: bit_simps n w dest: n')
  have "(7 :: 32 word) = mask 3" by (simp add: mask_eq_exp_minus_1)
  moreover have "take_bit 3 (or (push_bit 3 n) w) = w"
    by (rule bit_word_eqI) (auto simp: bit_simps dest: w')
  ultimately show "and (or (push_bit 3 n) w) 7 = w" by (simp only: take_bit_eq_mask)
qed

definition tag_ok :: "32 word \<Rightarrow> 32 word \<Rightarrow> bool" where
  "tag_ok n w \<longleftrightarrow> drop_bit 3 (or (push_bit 3 n) w) = n \<and> and (or (push_bit 3 n) w) 7 = w"

lemma writeVarint_nonempty [simp]: "writeVarint v \<noteq> []"
  by (simp add: writeVarint_enc)

lemma readAllFields_varint:
  assumes "tag_ok n 0"
  shows "readAllFields (writeTag n 0 @ writeVarint v @ rest) =
    \<lparr>rf_fn = n, rf_wt = 0, rf_varint = v, rf_bytes = None, rf_i64 = None\<rparr> # readAllFields rest"
  using assms by (subst readAllFields.simps) (simp add: writeTag_def readVarintAt_write tag_ok_def)

lemma readAllFields_delimited:
  assumes "tag_ok n 2" and "length d < 2 ^ 32"
  shows "readAllFields (writeLengthDelimited n d @ rest) =
    \<lparr>rf_fn = n, rf_wt = 2, rf_varint = 0, rf_bytes = Some d, rf_i64 = None\<rparr> # readAllFields rest"
  using assms
  by (subst readAllFields.simps)
    (simp add: writeLengthDelimited_def writeTag_def readVarintAt_write tag_ok_def unat_of_nat)

lemma readAllFields_double:
  assumes "tag_ok n 1" and "length d = 8"
  shows "readAllFields (writeTag n 1 @ d @ rest) =
    \<lparr>rf_fn = n, rf_wt = 1, rf_varint = 0, rf_bytes = None, rf_i64 = Some d\<rparr> # readAllFields rest"
  using assms by (subst readAllFields.simps) (simp add: writeTag_def readVarintAt_write tag_ok_def)

lemma readAllFields_Nil [simp]: "readAllFields [] = []"
  by (simp add: readAllFields.simps)

lemma length_float64_le [simp]: "length (float64_le w) = 8"
  by (simp add: float64_le_def)

lemma float64_of_le: "float64_of (float64_le w) = w"
proof -
  have bytes_step: "or (push_bit 8 (drop_bit (8 * Suc k) w)) (ucast (ucast (drop_bit (8 * k) w) :: byte)) = drop_bit (8 * k) w" for k
    by (rule bit_word_eqI) (auto simp: bit_simps not_less)
  have "foldr (\<lambda>b acc. or (push_bit 8 acc) (ucast b)) (map (\<lambda>i. ucast (drop_bit (8 * i) w) :: byte) [k..<8]) 0
      = drop_bit (8 * k) w" if "k \<le> 8" for k
    using that
  proof (induction k rule: inc_induct)
    case base
    have "drop_bit 64 w = 0" by (rule bit_word_eqI) (simp add: bit_simps)
    then show ?case by simp
  next
    case (step k)
    then show ?case by (simp only: upt_conv_Cons list.map foldr.simps comp_apply bytes_step)
  qed
  from this [of 0] show ?thesis by (simp add: float64_of_def float64_le_def)
qed

lemma tag_ok_small: "n \<le> 6 \<Longrightarrow> w \<le> 2 \<Longrightarrow> tag_ok n w"
  using tag_word [of n w] unfolding tag_ok_def by blast

lemmas tags_ok [simp] =
  tag_ok_small [of 1 0, simplified] tag_ok_small [of 4 0, simplified] tag_ok_small [of 2 1, simplified]
  tag_ok_small [of 1 2, simplified] tag_ok_small [of 2 2, simplified] tag_ok_small [of 3 2, simplified]
  tag_ok_small [of 5 2, simplified] tag_ok_small [of 6 2, simplified]

lemma items1_delimited:
  "\<forall>d \<in> set ds. length d < 2 ^ 32 \<Longrightarrow> items1 (concat (map (writeLengthDelimited 1) ds)) = ds"
proof (induction ds)
  case (Cons d ds)
  then show ?case
    by (simp add: items1_def readAllFields_delimited tag_ok_small)
qed (simp add: items1_def)

lemma readMapEntry_written:
  assumes "length (textEncode key) < 2 ^ 32" and "length d < 2 ^ 32"
    and "well_formed16 key" and "\<not> starts_bom key"
  shows "readMapEntry (writeString 1 key @ writeLengthDelimited 2 d) = (Some key, Some d)"
proof -
  have "readAllFields (writeString 1 key @ writeLengthDelimited 2 d @ []) =
    [\<lparr>rf_fn = 1, rf_wt = 2, rf_varint = 0, rf_bytes = Some (textEncode key), rf_i64 = None\<rparr>,
     \<lparr>rf_fn = 2, rf_wt = 2, rf_varint = 0, rf_bytes = Some d, rf_i64 = None\<rparr>]"
    unfolding writeString_def
    by (simp only: readAllFields_delimited [OF tags_ok(4) assms(1)] readAllFields_delimited [OF tags_ok(5) assms(2)] readAllFields_Nil)
  then show ?thesis by (simp add: readMapEntry_def textDecode_textEncode assms)
qed

section \<open>The round trip\<close>

text \<open>
  What survives: keys in code-unit order, undefined members dropped, everything without a protobuf
  form as null.
\<close>

function normal_form :: "json \<Rightarrow> json" where
  "normal_form JNull = JNull"
| "normal_form JUndefined = JNull"
| "normal_form (JNumber n) = JNumber n"
| "normal_form (JBoolean b) = JBoolean b"
| "normal_form (JString s) = JString s"
| "normal_form (JArray vs) = JArray (map normal_form vs)"
| "normal_form (JObject kvs) =
     JObject (map (\<lambda>(k, v). (k, normal_form v)) (filter (\<lambda>(k, v). v \<noteq> JUndefined) (sorted_entries kvs)))"
| "normal_form JOther = JNull"
  by pat_completeness auto
termination
  by (relation "measure size") (auto simp: size_list_estimation' less_Suc_eq_le dest: size_entry)

definition plain_string :: "utf16 \<Rightarrow> bool" where
  "plain_string s \<longleftrightarrow> well_formed16 s \<and> \<not> starts_bom s"

function json_ok :: "json \<Rightarrow> bool" where
  "json_ok JNull = True"
| "json_ok JUndefined = True"
| "json_ok (JNumber n) = True"
| "json_ok (JBoolean b) = True"
| "json_ok (JString s) = plain_string s"
| "json_ok (JArray vs) = (\<forall>v \<in> set vs. json_ok v)"
| "json_ok (JObject kvs) =
     (distinct (map fst kvs) \<and> (\<forall>(k, v) \<in> set kvs. plain_string k \<and> k \<noteq> proto_key \<and> json_ok v))"
| "json_ok JOther = True"
  by pat_completeness auto
termination
  by (relation "measure size") (auto simp: size_list_estimation' less_Suc_eq_le dest: size_entry)

lemma fold_assign_key:
  "distinct (map fst acc @ map fst kvs) \<Longrightarrow> proto_key \<notin> fst ` set kvs \<Longrightarrow>
   fold (\<lambda>(k, v). assign_key k v) kvs acc = acc @ kvs"
proof (induction kvs arbitrary: acc)
  case (Cons p kvs)
  then show ?case by (cases p) (auto simp: assign_key_def jm_set_fresh)
qed simp

lemma writeLengthDelimited_longer: "length d < length (writeLengthDelimited n d)"
  by (simp add: writeLengthDelimited_def writeTag_def less_Suc_eq_le trans_less_add2)

lemma member_shorter:
  "x \<in> set xs \<Longrightarrow> length (enc x) \<le> length (concat (map (\<lambda>x. writeLengthDelimited n (enc x)) xs))"
proof (induction xs)
  case (Cons y xs)
  then show ?case using writeLengthDelimited_longer [of "enc y" n] by auto
qed simp

text \<open>One member of an object, as the encoder writes it.\<close>

definition entry_bytes :: "utf16 \<times> json \<Rightarrow> bytes" where
  "entry_bytes kv = writeString 1 (fst kv) @ writeLengthDelimited 2 (encodeJsonAsValue (snd kv))"

lemma object_bytes:
  "concat (map (\<lambda>(key, val). if val = JUndefined then [] else writeLengthDelimited 1
       (writeString 1 key @ writeLengthDelimited 2 (encodeJsonAsValue val))) kvs)
   = concat (map (\<lambda>kv. writeLengthDelimited 1 (entry_bytes kv)) (filter (\<lambda>(k, v). v \<noteq> JUndefined) kvs))"
  by (induction kvs) (auto simp: entry_bytes_def)

lemma entry_parts_shorter:
  "length (textEncode (fst kv)) < length (entry_bytes kv)"
  "length (encodeJsonAsValue (snd kv)) < length (entry_bytes kv)"
  using writeLengthDelimited_longer [of "textEncode (fst kv)" 1]
    writeLengthDelimited_longer [of "encodeJsonAsValue (snd kv)" 2]
  by (auto simp: entry_bytes_def writeString_def)

lemma entries1_written:
  assumes "\<forall>kv \<in> set kvs. plain_string (fst kv) \<and> length (entry_bytes kv) < 2 ^ 32"
  shows "entries1 (map entry_bytes kvs) = map (\<lambda>(k, v). (k, Some (encodeJsonAsValue v))) kvs"
  using assms
proof (induction kvs)
  case (Cons kv kvs)
  have "length (textEncode (fst kv)) < 2 ^ 32" "length (encodeJsonAsValue (snd kv)) < 2 ^ 32"
    using Cons.prems entry_parts_shorter [of kv] by (auto intro: less_trans)
  then have "readMapEntry (entry_bytes kv) = (Some (fst kv), Some (encodeJsonAsValue (snd kv)))"
    unfolding entry_bytes_def using Cons.prems by (intro readMapEntry_written) (auto simp: plain_string_def)
  with Cons show ?case by (cases kv) (simp add: entries1_def)
qed (simp add: entries1_def)

lemma those_map_Some': "(\<And>x. x \<in> set xs \<Longrightarrow> f x = Some (g x)) \<Longrightarrow> those (map f xs) = Some (map g xs)"
  by (induction xs) auto

lemma decode_object:
  assumes plain: "\<forall>(k, v) \<in> set kvs. plain_string k"
    and small: "length (encodeJsonAsValue (JObject kvs)) < 2 ^ 32"
    and members: "\<And>k v. (k, v) \<in> set kvs \<Longrightarrow> length (encodeJsonAsValue v) < 2 ^ 32 \<Longrightarrow>
      decodeValueToJson (encodeJsonAsValue v) = Some (normal_form v)"
  shows "decodeValueToJson (encodeJsonAsValue (JObject kvs)) = Some (JObject (fold (\<lambda>(k, v). assign_key k v)
     (map (\<lambda>(k, v). (k, normal_form v)) (filter (\<lambda>(k, v). v \<noteq> JUndefined) (sorted_entries kvs))) []))"
proof -
  let ?es = "filter (\<lambda>(k, v). v \<noteq> JUndefined) (sorted_entries kvs)"
  let ?d = "concat (map (\<lambda>kv. writeLengthDelimited 1 (entry_bytes kv)) ?es)"
  have enc: "encodeJsonAsValue (JObject kvs) = writeLengthDelimited 5 ?d" by (simp add: object_bytes)
  have d: "length ?d < 2 ^ 32"
    using small writeLengthDelimited_longer [of ?d 5] unfolding enc by simp
  have short: "length (entry_bytes kv) < 2 ^ 32" if "kv \<in> set ?es" for kv
    using member_shorter [OF that, of entry_bytes 1] d by simp
  have items: "items1 ?d = map entry_bytes ?es"
    using items1_delimited [of "map entry_bytes ?es"] short by (simp add: comp_def)
  have entries: "entries1 (items1 ?d) = map (\<lambda>(k, v). (k, Some (encodeJsonAsValue v))) ?es"
    unfolding items by (rule entries1_written) (use plain short in auto)
  have dec: "those (map (\<lambda>(k, vb). case vb of None \<Rightarrow> Some (k, JNull)
      | Some vd \<Rightarrow> map_option (Pair k) (decodeValueToJson vd)) (entries1 (items1 ?d)))
    = Some (map (\<lambda>(k, v). (k, normal_form v)) ?es)"
    unfolding entries map_map
  proof (rule those_map_Some')
    fix kv assume kv: "kv \<in> set ?es"
    obtain k v where kv_def: "kv = (k, v)" by (cases kv)
    have "decodeValueToJson (encodeJsonAsValue v) = Some (normal_form v)"
      using members [of k v] kv short [OF kv] entry_parts_shorter(2) [of kv] by (auto simp: kv_def)
    then show "((\<lambda>(k, vb). case vb of None \<Rightarrow> Some (k, JNull)
      | Some vd \<Rightarrow> map_option (Pair k) (decodeValueToJson vd)) \<circ> (\<lambda>(k, v). (k, Some (encodeJsonAsValue v)))) kv
      = Some ((\<lambda>(k, v). (k, normal_form v)) kv)" by (simp add: kv_def)
  qed
  with readAllFields_delimited [OF tags_ok(7) d, of "[]"] show ?thesis
    unfolding enc by (subst decodeValueToJson.simps) simp
qed

lemma decode_null: "decodeValueToJson (writeTag 1 0 @ writeVarint 0) = Some JNull"
  using readAllFields_varint [OF tags_ok(1), of 0 "[]"] by (subst decodeValueToJson.simps) simp

lemma json_roundtrip:
  "json_ok v \<Longrightarrow> length (encodeJsonAsValue v) < 2 ^ 32 \<Longrightarrow>
   decodeValueToJson (encodeJsonAsValue v) = Some (normal_form v)"
proof (induction v rule: encodeJsonAsValue.induct)
  case (3 n)
  show ?case
    using readAllFields_double [OF tags_ok(3) length_float64_le, of n "[]"]
    by (subst decodeValueToJson.simps) (simp add: writeDouble_def float64_of_le)
next
  case (4 b)
  show ?case
    using readAllFields_varint [OF tags_ok(2), of _ "[]"]
    by (subst decodeValueToJson.simps) simp
next
  case (5 s)
  have "length (textEncode s) < 2 ^ 32"
    using 5(2) writeLengthDelimited_longer [of "textEncode s" 3] by (simp add: writeString_def)
  from readAllFields_delimited [OF tags_ok(6) this, of "[]"] 5(1) show ?case
    by (subst decodeValueToJson.simps) (simp add: writeString_def textDecode_textEncode plain_string_def)
next
  case (6 vs)
  let ?d = "concat (map (\<lambda>item. writeLengthDelimited 1 (encodeJsonAsValue item)) vs)"
  have d: "length ?d < 2 ^ 32"
    using 6(3) writeLengthDelimited_longer [of ?d 6] by simp
  have short: "length (encodeJsonAsValue v) < 2 ^ 32" if "v \<in> set vs" for v
    using member_shorter [OF that, of encodeJsonAsValue 1] d by simp
  have items: "items1 ?d = map encodeJsonAsValue vs"
    using items1_delimited [of "map encodeJsonAsValue vs"] short by (simp add: comp_def)
  have "those (map decodeValueToJson (map encodeJsonAsValue vs)) = Some (map normal_form vs)"
    unfolding map_map using 6(1,2) short by (intro those_map_Some') auto
  with readAllFields_delimited [OF tags_ok(8) d, of "[]"] items show ?case
    by (subst decodeValueToJson.simps) simp
next
  case (7 kvs)
  let ?es = "map (\<lambda>(k, v). (k, normal_form v)) (filter (\<lambda>(k, v). v \<noteq> JUndefined) (sorted_entries kvs))"
  have ok: "\<forall>(k, v) \<in> set kvs. plain_string k \<and> k \<noteq> proto_key \<and> json_ok v" and dist: "distinct (map fst kvs)"
    using 7(2) by simp_all
  have "decodeValueToJson (encodeJsonAsValue (JObject kvs)) = Some (JObject (fold (\<lambda>(k, v). assign_key k v) ?es []))"
  proof (rule decode_object)
    show "\<forall>(k, v) \<in> set kvs. plain_string k" using ok by auto
    show "decodeValueToJson (encodeJsonAsValue v) = Some (normal_form v)"
      if "(k, v) \<in> set kvs" "length (encodeJsonAsValue v) < 2 ^ 32" for k v
    proof (cases "v = JUndefined")
      case False
      then show ?thesis using 7(1) [of "(k, v)" k v] that ok by auto
    qed (simp add: decode_null)
  qed (rule 7(3))
  moreover have "fold (\<lambda>(k, v). assign_key k v) ?es [] = [] @ ?es"
  proof (rule fold_assign_key)
    have "distinct (map fst (sorted_entries kvs))"
      using dist by (simp add: sorted_entries_def distinct_map)
    then show "distinct (map fst [] @ map fst ?es)"
      by (auto simp: comp_def split_def intro: jm_wf_filter)
    show "proto_key \<notin> fst ` set ?es" using ok by force
  qed
  ultimately show ?case by simp
qed (simp_all add: decode_null)

section \<open>Properties\<close>

text \<open>A JSON value written as a \<open>google.protobuf.Value\<close> and read back is the same value up to
  the form the wire has (keys sorted, undefined members dropped, values without a JSON form as
  null), for every nesting of arrays and objects, provided its strings are well-formed UTF-16
  without a leading byte-order mark and no object has a \<open>__proto__\<close> key.\<close>

theorem json_value_roundtrip:
  assumes "json_ok v" and "length (encodeJsonAsValue v) < 2 ^ 32"
  shows "decodeValueToJson (encodeJsonAsValue v) = Some (normal_form v)"
  using assms by (rule json_roundtrip)

theorem json_value_roundtrip_witness:
  "decodeValueToJson (encodeJsonAsValue (JArray [JBoolean True, JArray [JNumber 5], JUndefined]))
     = Some (JArray [JBoolean True, JArray [JNumber 5], JNull])"
proof -
  let ?v = "JArray [JBoolean True, JArray [JNumber 5], JUndefined]"
  have w: "length (writeVarint n) = 1" if "n \<le> 127" for n
    using that by (simp add: writeVarint.simps not_less)
  have "length (encodeJsonAsValue ?v) < 2 ^ 32"
    by (simp add: writeDouble_def writeLengthDelimited_def writeTag_def w)
  from json_value_roundtrip [OF _ this] show ?thesis by simp
qed

text \<open>What the first hypothesis of the round trip excludes is really lost: a string that starts
  with a byte-order mark comes back without it, and a member named \<open>__proto__\<close> does not come back
  as a member at all.\<close>

theorem json_value_losses:
  assumes "well_formed16 s" and "length (textEncode (0xFEFF # s)) < 2 ^ 32"
  shows "decodeValueToJson (encodeJsonAsValue (JString (0xFEFF # s))) = Some (JString s)
    \<and> decodeValueToJson (encodeJsonAsValue (JObject [(proto_key, JNull)])) = Some (JObject [])"
proof
  from readAllFields_delimited [OF tags_ok(6) assms(2), of "[]"]
  show "decodeValueToJson (encodeJsonAsValue (JString (0xFEFF # s))) = Some (JString s)"
    by (subst decodeValueToJson.simps) (simp add: writeString_def textDecode_bom assms(1))
  let ?o = "JObject [(proto_key, JNull)]"
  have w: "length (writeVarint n) = 1" if "n \<le> 127" for n
    using that by (simp add: writeVarint.simps not_less)
  have scal: "scalars proto_key = [95, 95, 112, 114, 111, 116, 111, 95, 95]"
    by (simp add: proto_key_def high_surrogate_def low_surrogate_def)
  then have enc9: "textEncode proto_key = [95, 95, 112, 114, 111, 116, 111, 95, 95]"
    by (simp add: textEncode_def utf8_of_def)
  have "decodeValueToJson (encodeJsonAsValue ?o) = Some (JObject (fold (\<lambda>(k, v). assign_key k v)
     (map (\<lambda>(k, v). (k, normal_form v)) (filter (\<lambda>(k, v). v \<noteq> JUndefined) (sorted_entries [(proto_key, JNull)]))) []))"
  proof (rule decode_object)
    show "\<forall>(k, v) \<in> set [(proto_key, JNull)]. plain_string k"
      by (simp add: plain_string_def starts_bom_def proto_key_def high_surrogate_def low_surrogate_def)
    show "length (encodeJsonAsValue ?o) < 2 ^ 32"
      by (simp add: sorted_entries_def writeString_def writeLengthDelimited_def writeTag_def w enc9)
  qed (simp add: decode_null)
  then show "decodeValueToJson (encodeJsonAsValue ?o) = Some (JObject [])"
    by (simp add: sorted_entries_def assign_key_def)
qed

theorem json_value_losses_witness:
  "decodeValueToJson (encodeJsonAsValue (JString [0xFEFF, 65])) = Some (JString [65])
    \<and> decodeValueToJson (encodeJsonAsValue (JObject [(proto_key, JNull)])) = Some (JObject [])"
  by (rule json_value_losses)
    (simp_all add: textEncode_def utf8_of_def high_surrogate_def low_surrogate_def)

end
