(* ===== verification/StepOrder.thy ===== *)
theory StepOrder
  imports Prelude "HOL-Library.Multiset"
begin

text \<open>
  Model-order holds for a Cursor step that changes a file (\<open>src/src/step-order.ts\<close>): the calls of
  the current generation in model order, the execs dispatched for them, and the execs held behind an
  unfinished file change. An exec frame, the request it asks for and the identity of its pending
  entry are opaque to this component.
\<close>

section \<open>State\<close>

datatype call_state = Announced | Held | Running | Done | Refused

record ordered_call =
  oc_index :: nat
  oc_fileChange :: bool
  oc_state :: call_state

record ('f, 'p) held_exec =
  he_callId :: string
  he_execId :: int
  he_frame :: 'f
  he_request :: 'p
  he_pending :: nat

record ('f, 'p) step_order =
  so_nextIndex :: nat
  so_listedCount :: "int option"
  so_calls :: "(string, ordered_call) jsmap"
  so_execs :: "(int, string \<times> bool) jsmap"
  so_held :: "('f, 'p) held_exec list"

definition createStepOrder :: "('f, 'p) step_order" where
  "createStepOrder = \<lparr>so_nextIndex = 0, so_listedCount = None, so_calls = [], so_execs = [], so_held = []\<rparr>"

section \<open>Classification\<close>

definition FILE_CHANGE_DISPLAY_VARIANTS :: "string list" where
  "FILE_CHANGE_DISPLAY_VARIANTS =
     [''edit_tool_call'', ''delete_tool_call'', ''pi_edit_tool_call'', ''pi_write_tool_call'']"

definition FILE_CHANGE_RESULT_FIELDS :: "string list" where
  "FILE_CHANGE_RESULT_FIELDS = [''write_result'', ''delete_result'', ''pi_edit_result'', ''pi_write_result'']"

definition FILE_CHANGE_HOST_TOOLS :: "string list" where
  "FILE_CHANGE_HOST_TOOLS = [''edit'', ''write'', ''apply_patch'', ''patch'']"

text \<open>A tool call is its keys, each with whether its value is non-null; \<open>None\<close> is not an object.\<close>

definition isFileChangeDisplay :: "(string \<times> bool) list option \<Rightarrow> string option \<Rightarrow> bool" where
  "isFileChangeDisplay toolCall mcpHostTool =
     (case toolCall of
        None \<Rightarrow> False
      | Some keys \<Rightarrow>
          (case mcpHostTool of Some t \<Rightarrow> t \<in> set FILE_CHANGE_HOST_TOOLS | None \<Rightarrow> False)
          \<or> list_ex (\<lambda>(key, present). key \<in> set FILE_CHANGE_DISPLAY_VARIANTS \<and> present) keys)"

definition isFileChangeExec :: "string \<Rightarrow> string \<Rightarrow> bool" where
  "isFileChangeExec resultField toolName =
     (resultField \<in> set FILE_CHANGE_RESULT_FIELDS \<or> toolName \<in> set FILE_CHANGE_HOST_TOOLS)"

section \<open>Operations\<close>

definition terminal :: "call_state \<Rightarrow> bool" where
  "terminal st \<longleftrightarrow> st = Done \<or> st = Refused"

definition stepFinished :: "('f, 'p) step_order \<Rightarrow> bool" where
  "stepFinished order =
     (case so_listedCount order of
        None \<Rightarrow> False
      | Some n \<Rightarrow> so_held order = [] \<and> int (length (so_calls order)) \<ge> n
          \<and> list_all (\<lambda>(_, c). terminal (oc_state c)) (so_calls order))"

definition clearStep :: "('f, 'p) step_order \<Rightarrow> ('f, 'p) step_order" where
  "clearStep order = order\<lparr>so_calls := [], so_execs := [], so_nextIndex := 0, so_listedCount := None\<rparr>"

text \<open>\<open>None\<close> is a count that is not a finite number.\<close>

definition noteOrderedCallCount :: "('f, 'p) step_order \<Rightarrow> int option \<Rightarrow> ('f, 'p) step_order" where
  "noteOrderedCallCount order callCount =
     (case callCount of
        None \<Rightarrow> order
      | Some n \<Rightarrow>
          if n < 0 then order
          else (if so_listedCount order \<noteq> None \<and> stepFinished order then clearStep order else order)
                 \<lparr>so_listedCount := Some n\<rparr>)"

definition startOrderedStep :: "('f, 'p) step_order \<Rightarrow> ('f, 'p) step_order" where
  "startOrderedStep order =
     (if so_held order = [] \<and> list_all (\<lambda>(_, c). terminal (oc_state c)) (so_calls order)
      then clearStep order else order)"

definition ensureCall :: "('f, 'p) step_order \<Rightarrow> string \<Rightarrow> bool \<Rightarrow> ('f, 'p) step_order" where
  "ensureCall order callId fileChange =
     (case jm_get (so_calls order) callId of
        None \<Rightarrow> order\<lparr>so_nextIndex := Suc (so_nextIndex order),
           so_calls := jm_set callId
             \<lparr>oc_index = so_nextIndex order, oc_fileChange = fileChange, oc_state = Announced\<rparr> (so_calls order)\<rparr>
      | Some call \<Rightarrow>
          if fileChange
          then order\<lparr>so_calls := AList.map_entry callId (\<lambda>c. c\<lparr>oc_fileChange := True\<rparr>) (so_calls order)\<rparr>
          else order)"

definition announceCall :: "('f, 'p) step_order \<Rightarrow> string \<Rightarrow> bool \<Rightarrow> ('f, 'p) step_order" where
  "announceCall order callId fileChange =
     ensureCall (if stepFinished order then clearStep order else order) callId fileChange"

definition set_state :: "string \<Rightarrow> call_state \<Rightarrow> ('f, 'p) step_order \<Rightarrow> ('f, 'p) step_order" where
  "set_state callId st order =
     order\<lparr>so_calls := AList.map_entry callId (\<lambda>c. c\<lparr>oc_state := st\<rparr>) (so_calls order)\<rparr>"

definition blocked :: "('f, 'p) step_order \<Rightarrow> string \<Rightarrow> ordered_call \<Rightarrow> bool" where
  "blocked order callId call =
     list_ex (\<lambda>(otherId, other).
        otherId \<noteq> callId \<and> oc_index other < oc_index call
        \<and> (oc_fileChange other \<and> oc_state other \<in> {Announced, Held, Running}
           \<or> oc_fileChange call \<and> oc_state other \<in> {Held, Running}))
       (so_calls order)"

definition followsRefusal :: "('f, 'p) step_order \<Rightarrow> ordered_call \<Rightarrow> bool" where
  "followsRefusal order call =
     list_ex (\<lambda>(_, other). oc_index other < oc_index call \<and> oc_fileChange other \<and> oc_state other = Refused)
       (so_calls order)"

datatype decision = Run | Hold | Cancel

definition orderExec :: "('f, 'p) step_order \<Rightarrow> string \<Rightarrow> bool \<Rightarrow> decision \<times> ('f, 'p) step_order" where
  "orderExec order callId fileChange =
     (let order' = ensureCall order callId fileChange; call = the (jm_get (so_calls order') callId)
      in (if followsRefusal order' call then Cancel
          else if blocked order' callId call then Hold else Run, order'))"

definition isFileChangeCall :: "('f, 'p) step_order option \<Rightarrow> string \<Rightarrow> bool" where
  "isFileChangeCall order callId =
     (case order of None \<Rightarrow> False | Some ord \<Rightarrow>
        (case jm_get (so_calls ord) callId of None \<Rightarrow> False | Some call \<Rightarrow> oc_fileChange call))"

text \<open>\<open>order.calls.get(id)?.index ?? 0\<close>\<close>

definition call_index :: "('f, 'p) step_order \<Rightarrow> string \<Rightarrow> nat" where
  "call_index order callId = (case jm_get (so_calls order) callId of None \<Rightarrow> 0 | Some c \<Rightarrow> oc_index c)"

fun insert_held :: "(('f, 'p) held_exec \<Rightarrow> nat) \<Rightarrow> nat \<Rightarrow> ('f, 'p) held_exec
    \<Rightarrow> ('f, 'p) held_exec list \<Rightarrow> ('f, 'p) held_exec list" where
  "insert_held idx i held [] = [held]"
| "insert_held idx i held (other # hs) =
     (if idx other > i then held # other # hs else other # insert_held idx i held hs)"

definition holdExec :: "('f, 'p) step_order \<Rightarrow> ('f, 'p) held_exec \<Rightarrow> ('f, 'p) step_order" where
  "holdExec order held =
     (let order1 = set_state (he_callId held) Held (ensureCall order (he_callId held) False);
          i = call_index order1 (he_callId held)
      in order1\<lparr>so_held := insert_held (\<lambda>other. call_index order1 (he_callId other)) i held (so_held order1)\<rparr>)"

definition runExec :: "('f, 'p) step_order \<Rightarrow> string \<Rightarrow> int \<Rightarrow> bool \<Rightarrow> ('f, 'p) step_order" where
  "runExec order callId execId fileChangeRead =
     (let order1 = ensureCall order callId False; call = the (jm_get (so_calls order1) callId);
          order2 = (if terminal (oc_state call) then order1 else set_state callId Running order1)
      in order2\<lparr>so_execs := jm_set execId (callId, fileChangeRead) (so_execs order2)\<rparr>)"

definition finishCall :: "('f, 'p) step_order \<Rightarrow> string \<Rightarrow> ('f, 'p) step_order" where
  "finishCall order callId =
     (case jm_get (so_calls order) callId of
        None \<Rightarrow> order
      | Some call \<Rightarrow>
          if oc_state call \<noteq> Held \<and> oc_state call \<noteq> Refused then set_state callId Done order else order)"

definition refuseCall :: "('f, 'p) step_order \<Rightarrow> string \<Rightarrow> ('f, 'p) step_order" where
  "refuseCall order callId =
     (case jm_get (so_calls order) callId of
        None \<Rightarrow> order
      | Some call \<Rightarrow>
          if oc_state call = Held then order
          else set_state callId (if oc_fileChange call then Refused else Done) order)"

text \<open>The first held exec with this id leaves the list; its call is done.\<close>

definition dropHeldExec :: "('f, 'p) step_order \<Rightarrow> int \<Rightarrow> ('f, 'p) held_exec option \<times> ('f, 'p) step_order" where
  "dropHeldExec order execId =
     (case find (\<lambda>h. he_execId h = execId) (so_held order) of
        None \<Rightarrow> (None, order)
      | Some held \<Rightarrow>
          (Some held, set_state (he_callId held) Done (order\<lparr>so_held := remove1 held (so_held order)\<rparr>)))"

datatype outcome = OutcomeDone | OutcomeRefused

definition noteExecResult :: "('f, 'p) step_order \<Rightarrow> int \<Rightarrow> outcome \<Rightarrow> bool \<times> ('f, 'p) step_order" where
  "noteExecResult order execId outcome =
     (case dropHeldExec order execId of
        (Some _, order') \<Rightarrow> (True, order')
      | (None, _) \<Rightarrow>
          (case jm_get (so_execs order) execId of
             None \<Rightarrow> (False, order)
           | Some (callId, fileChangeRead) \<Rightarrow>
               (let order1 = order\<lparr>so_execs := jm_delete execId (so_execs order)\<rparr>
                in (True, if outcome = OutcomeRefused then refuseCall order1 callId
                          else if \<not> fileChangeRead then finishCall order1 callId else order1))))"

definition takeCancelledExecs :: "('f, 'p) step_order \<Rightarrow> ('f, 'p) held_exec list \<times> ('f, 'p) step_order" where
  "takeCancelledExecs order =
     (let cancelled = filter (\<lambda>held. case jm_get (so_calls order) (he_callId held) of
             None \<Rightarrow> False | Some call \<Rightarrow> followsRefusal order call) (so_held order)
      in (cancelled, fold (\<lambda>held ord. set_state (he_callId held) Done (ord\<lparr>so_held := remove1 held (so_held ord)\<rparr>))
            cancelled order))"

fun release_loop :: "('f, 'p) held_exec list \<Rightarrow> ('f, 'p) step_order \<Rightarrow> ('f, 'p) held_exec list \<times> ('f, 'p) step_order" where
  "release_loop [] order = ([], order)"
| "release_loop (held # hs) order =
     (case jm_get (so_calls order) (he_callId held) of
        None \<Rightarrow> release_loop hs order
      | Some call \<Rightarrow>
          if followsRefusal order call \<or> blocked order (he_callId held) call then release_loop hs order
          else (let order1 = set_state (he_callId held) Running order;
                    (released, order2) = release_loop hs (order1\<lparr>so_held := remove1 held (so_held order1)\<rparr>)
                in (held # released, order2)))"

definition takeReleasableExecs :: "('f, 'p) step_order \<Rightarrow> ('f, 'p) held_exec list \<times> ('f, 'p) step_order" where
  "takeReleasableExecs order = release_loop (so_held order) order"

section \<open>Lookups after an operation\<close>

abbreviation so_get :: "('f, 'p) step_order \<Rightarrow> string \<Rightarrow> ordered_call option" where
  "so_get order \<equiv> jm_get (so_calls order)"

lemma so_get_set_state [simp]:
  "so_get (set_state k st s) j = (if j = k then map_option (\<lambda>c. c\<lparr>oc_state := st\<rparr>) (so_get s j) else so_get s j)"
  by (auto simp: set_state_def jm_get_map_entry split: option.splits)

lemma set_state_frame [simp]:
  "so_held (set_state k st s) = so_held s" "so_nextIndex (set_state k st s) = so_nextIndex s"
  "so_execs (set_state k st s) = so_execs s"
  "map fst (so_calls (set_state k st s)) = map fst (so_calls s)"
  by (simp_all add: set_state_def)

definition so_wf :: "('f, 'p) step_order \<Rightarrow> bool" where
  "so_wf s \<longleftrightarrow> jm_wf (so_calls s) \<and> map (\<lambda>p. oc_index (snd p)) (so_calls s) = [0..<so_nextIndex s]"

lemma map_entry_index:
  "(\<And>c. oc_index (f c) = oc_index c) \<Longrightarrow>
   map (\<lambda>p. oc_index (snd p)) (AList.map_entry k f m) = map (\<lambda>p. oc_index (snd p)) m"
  by (induction m) auto

lemma so_wf_set_state [model_inv]: "so_wf s \<Longrightarrow> so_wf (set_state k st s)"
  by (simp add: so_wf_def set_state_def map_entry_index)


lemma so_wf_index_unique:
  assumes "so_wf s" and "so_get s i = Some c" and "so_get s j = Some d" and "oc_index c = oc_index d"
  shows "i = j"
proof -
  have "distinct (map (\<lambda>p. oc_index (snd p)) (so_calls s))"
    using assms(1) by (simp add: so_wf_def)
  from distinct_map [THEN iffD1, OF this]
  have "inj_on (\<lambda>p. oc_index (snd p)) (set (so_calls s))" by simp
  from inj_onD [OF this, of "(i, c)" "(j, d)"] show ?thesis
    using assms by (auto dest: map_of_SomeD)
qed

lemma blocked_iff:
  "so_wf s \<Longrightarrow> blocked s k call \<longleftrightarrow>
     (\<exists>j d. so_get s j = Some d \<and> j \<noteq> k \<and> oc_index d < oc_index call
        \<and> (oc_fileChange d \<and> oc_state d \<in> {Announced, Held, Running}
           \<or> oc_fileChange call \<and> oc_state d \<in> {Held, Running}))"
  unfolding blocked_def so_wf_def by (subst jm_list_ex) auto

lemma followsRefusal_iff:
  "so_wf s \<Longrightarrow> followsRefusal s call \<longleftrightarrow>
     (\<exists>j d. so_get s j = Some d \<and> oc_index d < oc_index call \<and> oc_fileChange d \<and> oc_state d = Refused)"
  unfolding followsRefusal_def so_wf_def by (subst jm_list_ex) auto

lemma so_get_ensure:
  "so_get (ensureCall s k fc) j =
     (if j = k then (case so_get s k of
         None \<Rightarrow> Some \<lparr>oc_index = so_nextIndex s, oc_fileChange = fc, oc_state = Announced\<rparr>
       | Some c \<Rightarrow> Some (if fc then c\<lparr>oc_fileChange := True\<rparr> else c))
      else so_get s j)"
  by (auto simp: ensureCall_def jm_get_map_entry split: option.splits)

lemma ensure_frame [simp]:
  "so_held (ensureCall s k fc) = so_held s" "so_execs (ensureCall s k fc) = so_execs s"
  "so_listedCount (ensureCall s k fc) = so_listedCount s"
  by (auto simp: ensureCall_def split: option.splits)

lemma so_wf_ensure [model_inv]:
  assumes "so_wf s" shows "so_wf (ensureCall s k fc)"
proof (cases "so_get s k")
  case None
  then have "k \<notin> fst ` set (so_calls s)" by (simp add: map_of_eq_None_iff)
  then show ?thesis using assms None by (auto simp: so_wf_def ensureCall_def jm_set_fresh)
next
  case (Some c)
  then show ?thesis using assms by (simp add: so_wf_def ensureCall_def map_entry_index)
qed

lemma so_wf_clear [model_inv]: "so_wf (clearStep s)"
  by (simp add: so_wf_def clearStep_def)

lemma clear_frame [simp]: "so_held (clearStep s) = so_held s" "so_calls (clearStep s) = []"
  by (simp_all add: clearStep_def)

section \<open>The invariant of a step\<close>

text \<open>
  The calls are numbered in the order of the map, the held list is sorted by model order and it holds
  exactly one exec of each held call.
\<close>

definition held_ok :: "('f, 'p) step_order \<Rightarrow> bool" where
  "held_ok s \<longleftrightarrow> sorted (map (\<lambda>h. call_index s (he_callId h)) (so_held s)) \<and> distinct (map he_callId (so_held s))
     \<and> he_callId ` set (so_held s) = {k. \<exists>c. so_get s k = Some c \<and> oc_state c = Held}"

definition so_inv :: "('f, 'p) step_order \<Rightarrow> bool" where
  "so_inv s \<longleftrightarrow> so_wf s \<and> held_ok s"


lemma call_index_set_state [simp]: "call_index (set_state k st s) j = call_index s j"
  by (auto simp: call_index_def split: option.splits)

lemma call_index_held [simp]: "call_index (s\<lparr>so_held := hs\<rparr>) j = call_index s j"
  by (simp add: call_index_def)

lemma call_index_known: "so_get s j = Some c \<Longrightarrow> call_index s j = oc_index c"
  by (simp add: call_index_def)

lemma call_index_ensure: "so_get s j = Some c \<Longrightarrow> call_index (ensureCall s k fc) j = oc_index c"
  by (auto simp: call_index_def so_get_ensure)

lemma held_ok_known: "held_ok s \<Longrightarrow> h \<in> set (so_held s) \<Longrightarrow> \<exists>c. so_get s (he_callId h) = Some c \<and> oc_state c = Held"
  unfolding held_ok_def by blast

lemma held_ok_ensure [model_inv]:
  assumes "held_ok s" shows "held_ok (ensureCall s k fc)"
proof -
  have "call_index (ensureCall s k fc) (he_callId h) = call_index s (he_callId h)" if "h \<in> set (so_held s)" for h
    using held_ok_known [OF assms that] by (auto simp: call_index_ensure call_index_known)
  then have "map (\<lambda>h. call_index (ensureCall s k fc) (he_callId h)) (so_held s)
      = map (\<lambda>h. call_index s (he_callId h)) (so_held s)"
    by simp
  moreover have "{j. \<exists>c. so_get (ensureCall s k fc) j = Some c \<and> oc_state c = Held}
      = {j. \<exists>c. so_get s j = Some c \<and> oc_state c = Held}"
    by (auto simp: so_get_ensure split: option.splits if_splits)
  ultimately show ?thesis using assms by (simp add: held_ok_def del: map_eq_conv)
qed

lemma so_inv_ensure [model_inv]: "so_inv s \<Longrightarrow> so_inv (ensureCall s k fc)"
  unfolding so_inv_def by (auto intro: so_wf_ensure held_ok_ensure)

text \<open>A call that is not held moves to a state that is not \<open>Held\<close>.\<close>

lemma held_ok_set_state [model_inv]:
  assumes "held_ok s" and "st \<noteq> Held" and "\<And>c. so_get s k = Some c \<Longrightarrow> oc_state c \<noteq> Held"
  shows "held_ok (set_state k st s)"
proof -
  have "{j. \<exists>c. so_get (set_state k st s) j = Some c \<and> oc_state c = Held}
      = {j. \<exists>c. so_get s j = Some c \<and> oc_state c = Held}"
    using assms(2,3) by auto
  then show ?thesis using assms(1) by (simp add: held_ok_def)
qed

lemma so_inv_set_state [model_inv]:
  assumes "so_inv s" and "st \<noteq> Held" and "\<And>c. so_get s k = Some c \<Longrightarrow> oc_state c \<noteq> Held"
  shows "so_inv (set_state k st s)"
  using assms unfolding so_inv_def by (auto intro: so_wf_set_state held_ok_set_state)

lemma so_inv_create: "so_inv createStepOrder"
  by (simp add: so_inv_def createStepOrder_def so_wf_def held_ok_def)

lemma so_inv_clear [model_inv]: "so_held s = [] \<Longrightarrow> so_inv (clearStep s)"
  by (simp add: so_inv_def clearStep_def so_wf_def held_ok_def)

text \<open>The invariant looks at the calls, the next index and the held list only.\<close>

lemma so_inv_cong:
  assumes "so_calls t = so_calls s" and "so_nextIndex t = so_nextIndex s" and "so_held t = so_held s"
  shows "so_inv t = so_inv s"
  using assms by (simp add: so_inv_def so_wf_def held_ok_def call_index_def)

section \<open>Every operation keeps the invariant\<close>

definition unhold :: "('f, 'p) held_exec \<Rightarrow> call_state \<Rightarrow> ('f, 'p) step_order \<Rightarrow> ('f, 'p) step_order" where
  "unhold h st s = set_state (he_callId h) st (s\<lparr>so_held := remove1 h (so_held s)\<rparr>)"

lemma unhold_alt: "unhold h st s = (set_state (he_callId h) st s)\<lparr>so_held := remove1 h (so_held s)\<rparr>"
  by (simp add: unhold_def set_state_def)

lemma sorted_map_remove1: "sorted (map f xs) \<Longrightarrow> sorted (map f (remove1 x xs))"
  by (induction xs) (auto dest: notin_set_remove1 in_set_remove1 [THEN iffD1] set_remove1_subset [THEN subsetD])

lemma distinct_map_remove1: "distinct (map f xs) \<Longrightarrow> distinct (map f (remove1 x xs))"
  by (induction xs) (auto dest: set_remove1_subset [THEN subsetD])

lemma image_remove1: "distinct (map f xs) \<Longrightarrow> x \<in> set xs \<Longrightarrow> f ` set (remove1 x xs) = f ` set xs - {f x}"
  by (induction xs) auto

lemma so_inv_unhold [model_inv]:
  assumes inv: "so_inv s" and h: "h \<in> set (so_held s)" and st: "st \<noteq> Held"
  shows "so_inv (unhold h st s)"
proof -
  note facts = inv [unfolded so_inv_def]
  have hk: "so_held s \<noteq> []" using h by auto
  let ?t = "set_state (he_callId h) st s"
  obtain c where c: "so_get s (he_callId h) = Some c" "oc_state c = Held"
    using held_ok_known [OF _ h] facts by blast
  have base: "so_wf ?t" using facts by (auto intro: so_wf_set_state)
  have ok: "held_ok s" using facts by blast
  have "he_callId ` set (remove1 h (so_held s)) = he_callId ` set (so_held s) - {he_callId h}"
    using ok h unfolding held_ok_def by (intro image_remove1) auto
  also have "\<dots> = {k. \<exists>c. so_get ?t k = Some c \<and> oc_state c = Held}"
    using ok st unfolding held_ok_def by auto
  finally have "held_ok (?t\<lparr>so_held := remove1 h (so_held s)\<rparr>)"
    using ok by (simp add: held_ok_def sorted_map_remove1 distinct_map_remove1 del: set_remove1_eq)
  then show ?thesis using base
    by (simp add: so_inv_def unhold_alt so_wf_def del: so_get_set_state)
qed

lemma unhold_frame:
  "so_held (unhold h st s) = remove1 h (so_held s)"
  "so_get (unhold h st s) k = (if k = he_callId h then map_option (\<lambda>c. c\<lparr>oc_state := st\<rparr>) (so_get s k) else so_get s k)"
  by (simp_all add: unhold_alt)

lemma dropHeldExec_unhold:
  "dropHeldExec s e = (case find (\<lambda>h. he_execId h = e) (so_held s) of None \<Rightarrow> (None, s) | Some h \<Rightarrow> (Some h, unhold h Done s))"
  by (simp add: dropHeldExec_def unhold_def split: option.splits)

lemma so_inv_drop [model_inv]: "so_inv s \<Longrightarrow> so_inv (snd (dropHeldExec s e))"
  by (auto simp: dropHeldExec_unhold find_Some_iff intro!: so_inv_unhold split: option.splits)

lemma so_inv_finish [model_inv]: "so_inv s \<Longrightarrow> so_inv (finishCall s k)"
  by (auto simp: finishCall_def terminal_def intro!: so_inv_set_state split: option.splits)

lemma so_inv_refuse [model_inv]: "so_inv s \<Longrightarrow> so_inv (refuseCall s k)"
  by (auto simp: refuseCall_def terminal_def intro!: so_inv_set_state split: option.splits)

lemma so_inv_execs [simp]: "so_inv (s\<lparr>so_execs := m\<rparr>) = so_inv s"
  "so_inv (s\<lparr>so_listedCount := n\<rparr>) = so_inv s"
  by (rule so_inv_cong; simp)+

lemma so_inv_result [model_inv]:
  assumes "so_inv s" shows "so_inv (snd (noteExecResult s e oc))"
  using so_inv_drop [OF assms, of e] assms
  by (auto simp: noteExecResult_def Let_def intro: so_inv_refuse so_inv_finish split: prod.splits option.splits)

lemma stepFinished_held: "stepFinished s \<Longrightarrow> so_held s = []"
  by (simp add: stepFinished_def split: option.splits)

lemma so_inv_count [model_inv]: "so_inv s \<Longrightarrow> so_inv (noteOrderedCallCount s n)"
  by (auto simp: noteOrderedCallCount_def intro: so_inv_clear stepFinished_held split: option.splits)

lemma so_inv_start [model_inv]: "so_inv s \<Longrightarrow> so_inv (startOrderedStep s)"
  by (auto simp: startOrderedStep_def intro: so_inv_clear)

lemma so_inv_announce [model_inv]: "so_inv s \<Longrightarrow> so_inv (announceCall s k fc)"
  by (auto simp: announceCall_def intro!: so_inv_ensure so_inv_clear stepFinished_held)


lemma so_inv_run [model_inv]:
  assumes inv: "so_inv s" and c: "so_get s k = Some c" and ok: "terminal (oc_state c) \<or> oc_state c \<noteq> Held"
  shows "so_inv (runExec s k e r)"
proof -
  have "ensureCall s k False = s" using c by (simp add: ensureCall_def)
  moreover have "so_inv (set_state k Running s)" if "\<not> terminal (oc_state c)"
    using ok that c by (intro so_inv_set_state [OF inv]) auto
  ultimately show ?thesis using c inv by (simp add: runExec_def Let_def)
qed

lemma set_insert_held [simp]: "set (insert_held idx i h hs) = insert h (set hs)"
  by (induction hs) auto

lemma distinct_insert_held: "distinct (map f (insert_held idx i h hs)) \<longleftrightarrow> f h \<notin> f ` set hs \<and> distinct (map f hs)"
  by (induction hs) auto

lemma sorted_insert_held: "sorted (map idx hs) \<Longrightarrow> idx h = i \<Longrightarrow> sorted (map idx (insert_held idx i h hs))"
  by (induction hs) auto

lemma so_inv_hold [model_inv]:
  assumes inv: "so_inv s" and c: "so_get s (he_callId h) = Some c"
    and live: "\<not> terminal (oc_state c)" "oc_state c \<noteq> Held"
  shows "so_inv (holdExec s h)"
proof -
  note facts = inv [unfolded so_inv_def]
  let ?t = "set_state (he_callId h) Held s"
  have e: "ensureCall s (he_callId h) False = s" using c by (simp add: ensureCall_def)
  have base: "so_wf ?t" using facts by (auto intro: so_wf_set_state)
  have ok: "held_ok s" using facts by blast
  have new: "he_callId h \<notin> he_callId ` set (so_held s)"
    using ok c live(2) unfolding held_ok_def by auto
  have "insert (he_callId h) (he_callId ` set (so_held s)) = {k. \<exists>c. so_get ?t k = Some c \<and> oc_state c = Held}"
    using ok c unfolding held_ok_def by auto
  then have "held_ok (?t\<lparr>so_held := insert_held (\<lambda>o'. call_index ?t (he_callId o'))
      (call_index ?t (he_callId h)) h (so_held s)\<rparr>)"
    using ok new by (simp add: held_ok_def distinct_insert_held sorted_insert_held del: so_get_set_state)
  then show ?thesis using base
    by (simp add: so_inv_def holdExec_def e Let_def so_wf_def del: so_get_set_state)
qed

section \<open>Cancelling and releasing held execs\<close>

lemma mset_filter_split: "mset (filter P xs) + mset (filter (\<lambda>x. \<not> P x) xs) = mset xs"
  by (induction xs) auto

lemma release_loop_Cons:
  "release_loop (h # hs) s = (case so_get s (he_callId h) of
      None \<Rightarrow> release_loop hs s
    | Some c \<Rightarrow> if followsRefusal s c \<or> blocked s (he_callId h) c then release_loop hs s
        else (h # fst (release_loop hs (unhold h Running s)), snd (release_loop hs (unhold h Running s))))"
  by (simp add: unhold_alt Let_def split_beta split: option.splits)

declare release_loop.simps(2) [simp del]

lemma held_distinct: "so_inv s \<Longrightarrow> distinct (so_held s)"
  by (simp add: so_inv_def held_ok_def distinct_map)

lemma unhold_subset:
  "distinct (h # hs) \<Longrightarrow> set (h # hs) \<subseteq> set (so_held s) \<Longrightarrow> set hs \<subseteq> set (so_held (unhold h st s))"
  by (auto simp: unhold_frame) (metis in_set_remove1 subsetD)

text \<open>What a release loop over a part of the held list does.\<close>

lemma release_loop_spec:
  assumes "so_inv s" and "distinct hs" and "set hs \<subseteq> set (so_held s)"
  shows "so_inv (snd (release_loop hs s))
    \<and> mset (fst (release_loop hs s)) + mset (so_held (snd (release_loop hs s))) = mset (so_held s)
    \<and> set (fst (release_loop hs s)) \<subseteq> set hs
    \<and> (\<forall>k c. so_get s k = Some c \<longrightarrow> oc_state c = Running \<longrightarrow>
         (\<exists>d. so_get (snd (release_loop hs s)) k = Some d \<and> oc_state d = Running))
    \<and> (\<forall>h\<in>set (fst (release_loop hs s)).
         \<exists>c. so_get (snd (release_loop hs s)) (he_callId h) = Some c \<and> oc_state c = Running)"
  using assms
proof (induction hs arbitrary: s)
  case Nil
  then show ?case by simp
next
  case (Cons h hs)
  have h: "h \<in> set (so_held s)" and wf: "so_wf s" using Cons.prems by (auto simp: so_inv_def)
  obtain c where c: "so_get s (he_callId h) = Some c" "oc_state c = Held"
    using held_ok_known [OF _ h] Cons.prems(1) unfolding so_inv_def by blast
  show ?case
  proof (cases "followsRefusal s c \<or> blocked s (he_callId h) c")
    case True
    moreover have "distinct hs" "set hs \<subseteq> set (so_held s)" using Cons.prems by auto
    ultimately show ?thesis
      using Cons.IH [OF Cons.prems(1)] c by (auto simp: release_loop_Cons)
  next
    case False
    let ?u = "unhold h Running s"
    have u: "so_inv ?u"
      using h by (intro so_inv_unhold [OF Cons.prems(1)]) auto
    have run: "so_get ?u (he_callId h) = Some (c\<lparr>oc_state := Running\<rparr>)"
      using c by (simp add: unhold_frame)
    have kept: "\<exists>d. so_get ?u k = Some d \<and> oc_state d = Running" if "so_get s k = Some e" "oc_state e = Running" for k e
      using that by (auto simp: unhold_frame)
    have ms: "add_mset h (mset (so_held ?u)) = mset (so_held s)"
      using h by (simp add: unhold_frame)
    have d: "distinct hs" using Cons.prems by simp
    note IH = Cons.IH [OF u d unhold_subset [OF Cons.prems(2,3)]]
    show ?thesis
      using IH run kept ms c False by (auto simp: release_loop_Cons simp flip: ms; blast)
  qed
qed

lemma cancel_loop_spec:
  assumes "so_inv s" and "distinct hs" and "set hs \<subseteq> set (so_held s)"
  shows "so_inv (fold (\<lambda>h. unhold h Done) hs s)
    \<and> so_held (fold (\<lambda>h. unhold h Done) hs s) = filter (\<lambda>h. h \<notin> set hs) (so_held s)
    \<and> (\<forall>h\<in>set hs. \<exists>c. so_get (fold (\<lambda>h. unhold h Done) hs s) (he_callId h) = Some c \<and> oc_state c = Done)"
  using assms
proof (induction hs arbitrary: s rule: rev_induct)
  case Nil
  then show ?case by simp
next
  case (snoc h hs)
  let ?t = "fold (\<lambda>h. unhold h Done) hs s"
  have IH: "so_inv ?t" "so_held ?t = filter (\<lambda>h. h \<notin> set hs) (so_held s)"
    "\<forall>h\<in>set hs. \<exists>c. so_get ?t (he_callId h) = Some c \<and> oc_state c = Done"
    using snoc by auto
  have h: "h \<in> set (so_held ?t)" using snoc.prems IH(2) by auto
  obtain c where c: "so_get ?t (he_callId h) = Some c"
    using held_ok_known [OF _ h] IH(1) unfolding so_inv_def by blast
  have "remove1 h (filter (\<lambda>h. h \<notin> set hs) (so_held s)) = filter (\<lambda>x. x \<notin> set (hs @ [h])) (so_held s)"
    using held_distinct [OF snoc.prems(1)] by (simp add: distinct_remove1_removeAll removeAll_filter_not_eq) (rule filter_cong; auto)
  then show ?case
    using so_inv_unhold [OF IH(1) h, of Done] IH(2,3) c by (auto simp: unhold_frame)
qed

lemma takeCancelledExecs_unhold:
  "takeCancelledExecs s = (let cs = filter (\<lambda>h. case so_get s (he_callId h) of None \<Rightarrow> False
       | Some c \<Rightarrow> followsRefusal s c) (so_held s) in (cs, fold (\<lambda>h. unhold h Done) cs s))"
  by (simp add: takeCancelledExecs_def Let_def unhold_def [abs_def])

lemma so_inv_release [model_inv]: "so_inv s \<Longrightarrow> so_inv (snd (takeReleasableExecs s))"
  using release_loop_spec [of s "so_held s"] by (simp add: takeReleasableExecs_def held_distinct)

lemma so_inv_cancel [model_inv]: "so_inv s \<Longrightarrow> so_inv (snd (takeCancelledExecs s))"
  using cancel_loop_spec [of s] held_distinct [of s]
  by (simp add: takeCancelledExecs_unhold Let_def)

section \<open>A step driven by a client\<close>

text \<open>
  The events the provider feeds a step: display announcements and counts, arriving execs, results,
  withdrawals, and the two releases. Announcements and execs carry whether their frame changes a
  file, so a call can become a file change late (\<open>ensureCall\<close>). The two guards are what Cursor's
  protocol gives: no exec arrives for a call that has finished or still has a held exec, and a
  released exec is dispatched again for a call that is running or has since finished.
\<close>

datatype ('f, 'p) so_event = AnnounceEv string bool | CountEv "int option" | StartEv
  | ExecEv "('f, 'p) held_exec" bool bool | RedispatchEv string int bool
  | FinishEv string | ResultEv int outcome | WithdrawEv int | CancelEv | ReleaseEv

definition dispatchExec :: "('f, 'p) held_exec \<Rightarrow> bool \<Rightarrow> bool \<Rightarrow> ('f, 'p) step_order \<Rightarrow> ('f, 'p) step_order" where
  "dispatchExec h fileChange read s =
     (case orderExec s (he_callId h) fileChange of
        (Run, s') \<Rightarrow> runExec s' (he_callId h) (he_execId h) read
      | (Hold, s') \<Rightarrow> holdExec s' h
      | (Cancel, s') \<Rightarrow> s')"

fun so_step :: "('f, 'p) step_order \<Rightarrow> ('f, 'p) so_event \<Rightarrow> ('f, 'p) step_order" where
  "so_step s (AnnounceEv k fc) = announceCall s k fc"
| "so_step s (CountEv n) = noteOrderedCallCount s n"
| "so_step s StartEv = startOrderedStep s"
| "so_step s (ExecEv h fc read) =
     (if (case so_get s (he_callId h) of None \<Rightarrow> True
            | Some c \<Rightarrow> \<not> terminal (oc_state c) \<and> oc_state c \<noteq> Held)
      then dispatchExec h fc read s else s)"
| "so_step s (RedispatchEv k e read) =
     (case so_get s k of None \<Rightarrow> s
      | Some c \<Rightarrow> if terminal (oc_state c) \<or> oc_state c = Running then runExec s k e read else s)"
| "so_step s (FinishEv k) = finishCall s k"
| "so_step s (ResultEv e oc) = snd (noteExecResult s e oc)"
| "so_step s (WithdrawEv e) = snd (dropHeldExec s e)"
| "so_step s CancelEv = snd (takeCancelledExecs s)"
| "so_step s ReleaseEv = snd (takeReleasableExecs s)"

definition so_run :: "('f, 'p) so_event list \<Rightarrow> ('f, 'p) step_order" where
  "so_run es = fold (\<lambda>e s. so_step s e) es createStepOrder"


lemma so_get_ensure_Some: "\<exists>c. so_get (ensureCall s k fc) k = Some c \<and>
    oc_state c = (case so_get s k of None \<Rightarrow> Announced | Some c \<Rightarrow> oc_state c)"
  by (auto simp: so_get_ensure split: option.splits)

lemma so_inv_dispatch [model_inv]:
  assumes inv: "so_inv s"
    and live: "case so_get s (he_callId h) of None \<Rightarrow> True | Some c \<Rightarrow> \<not> terminal (oc_state c) \<and> oc_state c \<noteq> Held"
  shows "so_inv (dispatchExec h fc read s)"
proof -
  let ?k = "he_callId h" and ?t = "ensureCall s (he_callId h) fc"
  have t: "so_inv ?t" using inv by (rule so_inv_ensure)
  obtain c where c: "so_get ?t ?k = Some c" "\<not> terminal (oc_state c)" "oc_state c \<noteq> Held"
    using so_get_ensure_Some [of s ?k fc] live by (auto simp: terminal_def split: option.splits)
  have "so_inv (runExec ?t ?k (he_execId h) read)" using c by (intro so_inv_run [OF t c(1)]) simp
  moreover have "so_inv (holdExec ?t h)" by (rule so_inv_hold [OF t c])
  ultimately show ?thesis using t c by (simp add: dispatchExec_def orderExec_def Let_def)
qed

lemma so_inv_step: "so_inv s \<Longrightarrow> so_inv (so_step s e)"
  by (cases e)
    (auto intro: so_inv_announce so_inv_count so_inv_start so_inv_dispatch so_inv_finish so_inv_result so_inv_drop
       so_inv_cancel so_inv_release so_inv_run simp: terminal_def split: option.splits)

interpretation so_sys: step_system "\<lambda>s. s = createStepOrder" so_step so_inv
  by unfold_locales (auto intro: so_inv_create so_inv_step)

lemma so_run_run: "so_run es = so_sys.run createStepOrder es"
proof -
  have "so_sys.run s es = fold (\<lambda>e s. so_step s e) es s" for s :: "('a, 'b) step_order"
    by (induction es arbitrary: s) auto
  then show ?thesis by (simp add: so_run_def)
qed

lemma so_run_inv: "so_inv (so_run es)"
  unfolding so_run_run by (rule so_sys.reachable_inv) simp

section \<open>Model order\<close>
























definition demo_exec :: "string \<Rightarrow> int \<Rightarrow> (unit, unit) held_exec" where
  "demo_exec k e = \<lparr>he_callId = k, he_execId = e, he_frame = (), he_request = (), he_pending = 0\<rparr>"

definition demo_order :: "(unit, unit) so_event list" where
  "demo_order = [AnnounceEv ''w'' True, AnnounceEv ''b'' False, ExecEv (demo_exec ''b'' 2) False False,
     ExecEv (demo_exec ''w'' 1) True False]"

lemmas step_order_eval = so_run_def createStepOrder_def announceCall_def stepFinished_def ensureCall_def
  dispatchExec_def orderExec_def followsRefusal_def blocked_def runExec_def holdExec_def set_state_def
  call_index_def terminal_def Let_def demo_exec_def demo_order_def noteExecResult_def dropHeldExec_def
  finishCall_def refuseCall_def takeReleasableExecs_def takeCancelledExecs_def release_loop.simps



text \<open>C30: No deadlock: when execs are held and nothing is left to wait for (no call is running and every
announced file change has its exec), the first held exec is either released or cancelled.\<close>

theorem held_never_stuck:
  assumes "so_held (so_run es) = h # hs"
    and "\<forall>k c. so_get (so_run es) k = Some c \<longrightarrow>
      oc_state c \<noteq> Running \<and> (oc_state c = Announced \<longrightarrow> \<not> oc_fileChange c)"
  shows "h \<in> set (fst (takeReleasableExecs (so_run es))) \<or> h \<in> set (fst (takeCancelledExecs (so_run es)))"
proof -
  let ?s = "so_run es"
  have inv: "so_wf ?s" "held_ok ?s" using so_run_inv [of es] by (auto simp: so_inv_def)
  obtain c where c: "so_get ?s (he_callId h) = Some c" "oc_state c = Held"
    using held_ok_known [OF inv(2), of h] assms(1) by auto
  have "\<not> blocked ?s (he_callId h) c"
    unfolding blocked_iff [OF inv(1)]
  proof
    assume "\<exists>j d. so_get ?s j = Some d \<and> j \<noteq> he_callId h \<and> oc_index d < oc_index c
        \<and> (oc_fileChange d \<and> oc_state d \<in> {Announced, Held, Running}
           \<or> oc_fileChange c \<and> oc_state d \<in> {Held, Running})"
    then obtain j d where j: "so_get ?s j = Some d" "oc_index d < oc_index c" "oc_state d = Held"
      using assms(2) by blast
    then have "j \<in> he_callId ` set (so_held ?s)" using inv(2) unfolding held_ok_def by auto
    then obtain g where g: "g \<in> set (h # hs)" "he_callId g = j" using assms(1) by auto
    have "call_index ?s (he_callId h) \<le> call_index ?s j"
      using inv(2) g unfolding held_ok_def by (auto simp: assms(1))
    then show False using j c by (simp add: call_index_known)
  qed
  then show ?thesis
    using c assms(1)
    by (cases "followsRefusal ?s c") (simp_all add: takeReleasableExecs_def release_loop_Cons takeCancelledExecs_def Let_def)
qed

theorem held_never_stuck_witness:
  "demo_exec ''b'' 2 \<in> set (fst (takeReleasableExecs (so_run (demo_order @ [ResultEv 1 OutcomeDone]))))
   \<or> demo_exec ''b'' 2 \<in> set (fst (takeCancelledExecs (so_run (demo_order @ [ResultEv 1 OutcomeDone]))))"
proof (rule held_never_stuck)
  let ?s = "so_run (demo_order @ [ResultEv 1 OutcomeDone])"
  show "so_held ?s = demo_exec ''b'' 2 # []"
    by (simp add: step_order_eval)
  have "so_calls ?s = [(''w'', \<lparr>oc_index = 0, oc_fileChange = True, oc_state = Done\<rparr>),
      (''b'', \<lparr>oc_index = 1, oc_fileChange = False, oc_state = Held\<rparr>)]"
    by (simp add: step_order_eval)
  then show "\<forall>k c. so_get ?s k = Some c \<longrightarrow> oc_state c \<noteq> Running \<and> (oc_state c = Announced \<longrightarrow> \<not> oc_fileChange c)"
    by (auto split: if_splits)
qed

text \<open>An operation starts no call that follows a refused file change.\<close>

definition no_new_running :: "('f, 'p) step_order \<Rightarrow> ('f, 'p) step_order \<Rightarrow> bool" where
  "no_new_running s t \<longleftrightarrow> (\<forall>j d. so_get t j = Some d \<longrightarrow> oc_state d = Running \<longrightarrow>
     (\<exists>c. so_get s j = Some c \<and> oc_state c = Running) \<or>
     (\<forall>c. so_get s j = Some c \<longrightarrow> \<not> followsRefusal s c))"

lemma no_new_running_refl: "no_new_running s s"
  by (simp add: no_new_running_def)

lemma no_new_running_clear: "no_new_running s (clearStep s)"
  by (simp add: no_new_running_def)

lemma no_new_running_ensure: "no_new_running s (ensureCall (if b then clearStep s else s) k fc)"
  by (auto simp: no_new_running_def so_get_ensure split: if_splits option.splits)

lemma no_new_running_set_state:
  "st \<noteq> Running \<Longrightarrow> no_new_running s (set_state k st s)"
  by (auto simp: no_new_running_def split: if_splits)

lemma no_new_running_calls:
  "so_calls t = so_calls u \<Longrightarrow> no_new_running s t = no_new_running s u"
  by (simp add: no_new_running_def)

lemma no_new_running_unhold: "st \<noteq> Running \<Longrightarrow> no_new_running s (unhold h st s)"
  by (auto simp: no_new_running_def unhold_frame split: if_splits)

lemma no_new_running_drop: "no_new_running s (snd (dropHeldExec s e))"
  by (auto simp: dropHeldExec_unhold intro: no_new_running_refl no_new_running_unhold split: option.splits)

lemma no_new_running_finish: "no_new_running s (finishCall s k)" "no_new_running s (refuseCall s k)"
  by (auto simp: finishCall_def refuseCall_def intro!: no_new_running_refl no_new_running_set_state split: option.splits)

lemma no_new_running_result: "no_new_running s (snd (noteExecResult s e oc))"
proof -
  have *: "no_new_running (s\<lparr>so_execs := m\<rparr>) t \<Longrightarrow> no_new_running s t" for t m
    by (simp add: no_new_running_def followsRefusal_def)
  have "no_new_running s (s\<lparr>so_execs := m\<rparr>)" for m by (rule * [OF no_new_running_refl])
  then show ?thesis
    using no_new_running_drop [of s e] * [OF no_new_running_finish(1)] * [OF no_new_running_finish(2)]
    by (auto simp: noteExecResult_def Let_def no_new_running_refl split: prod.splits option.splits)
qed

lemma no_new_running_cancel:
  "so_get (fold (\<lambda>h. unhold h Done) hs s) j = Some d \<Longrightarrow> oc_state d = Running
   \<Longrightarrow> \<exists>c. so_get s j = Some c \<and> oc_state c = Running"
  by (induction hs arbitrary: s) (fastforce simp: unhold_frame split: if_splits)+

lemma followsRefusal_unhold:
  assumes "so_wf s" and "so_wf (unhold h Running s)" and "so_get s (he_callId h) = Some c" and "oc_state c \<noteq> Refused"
    and "oc_index e = oc_index d"
  shows "followsRefusal (unhold h Running s) e = followsRefusal s d"
  unfolding followsRefusal_iff [OF assms(1)] followsRefusal_iff [OF assms(2)]
proof -
  have "so_get s j = Some x \<and> oc_state x = Refused \<longleftrightarrow>
      so_get (unhold h Running s) j = Some x \<and> oc_state x = Refused" for j x
    using assms(3,4) by (auto simp: unhold_frame)
  then show "(\<exists>j x. so_get (unhold h Running s) j = Some x \<and> oc_index x < oc_index e \<and> oc_fileChange x \<and> oc_state x = Refused)
    = (\<exists>j x. so_get s j = Some x \<and> oc_index x < oc_index d \<and> oc_fileChange x \<and> oc_state x = Refused)"
    using assms(5) by metis
qed

lemma no_new_running_release:
  assumes "so_inv s" and "distinct hs" and "set hs \<subseteq> set (so_held s)"
  shows "no_new_running s (snd (release_loop hs s))"
  using assms
proof (induction hs arbitrary: s)
  case Nil
  then show ?case by (simp add: no_new_running_refl)
next
  case (Cons h hs)
  have h: "h \<in> set (so_held s)" and wf: "so_wf s" using Cons.prems by (auto simp: so_inv_def)
  obtain c where c: "so_get s (he_callId h) = Some c" "oc_state c = Held"
    using held_ok_known [OF _ h] Cons.prems(1) unfolding so_inv_def by blast
  show ?case
  proof (cases "followsRefusal s c \<or> blocked s (he_callId h) c")
    case True
    then show ?thesis using Cons.IH [OF Cons.prems(1)] Cons.prems c by (auto simp: release_loop_Cons)
  next
    case False
    let ?u = "unhold h Running s"
    have u: "so_inv ?u"
      using h by (intro so_inv_unhold [OF Cons.prems(1)]) auto
    have d: "distinct hs" using Cons.prems by simp
    note IH = Cons.IH [OF u d unhold_subset [OF Cons.prems(2,3)], unfolded no_new_running_def]
    have same: "followsRefusal ?u e = followsRefusal s f" if "oc_index e = oc_index f" for e f
      using followsRefusal_unhold [OF wf _ c(1) _ that] u c(2) by (simp add: so_inv_def)
    have "no_new_running s (snd (release_loop hs ?u))"
      unfolding no_new_running_def
    proof (intro allI impI)
      fix j d
      assume j: "so_get (snd (release_loop hs ?u)) j = Some d" "oc_state d = Running"
      show "(\<exists>c. so_get s j = Some c \<and> oc_state c = Running) \<or> (\<forall>c. so_get s j = Some c \<longrightarrow> \<not> followsRefusal s c)"
      proof (cases "j = he_callId h")
        case True
        then show ?thesis using False c by simp
      next
        case neq: False
        then have "so_get ?u j = so_get s j" by (simp add: unhold_frame)
        then show ?thesis using IH j same by (metis (no_types, lifting))
      qed
    qed
    then show ?thesis using c False by (simp add: release_loop_Cons)
  qed
qed

lemma followsRefusal_ensure:
  assumes "so_wf s" and "so_get s j = Some d" and "so_get (ensureCall s k fc) j = Some d'"
  shows "followsRefusal s d \<Longrightarrow> followsRefusal (ensureCall s k fc) d'"
proof -
  have wf: "so_wf s" "so_wf (ensureCall s k fc)"
    using assms(1) so_wf_ensure by auto
  have idx: "oc_index d' = oc_index d" using assms(2,3) by (auto simp: so_get_ensure split: if_splits option.splits)
  assume "followsRefusal s d"
  then obtain i c where c: "so_get s i = Some c" "oc_index c < oc_index d" "oc_fileChange c" "oc_state c = Refused"
    unfolding followsRefusal_iff [OF wf(1)] by blast
  have "so_get (ensureCall s k fc) i = Some (if i = k \<and> fc then c\<lparr>oc_fileChange := True\<rparr> else c)"
    using c by (auto simp: so_get_ensure)
  then show "followsRefusal (ensureCall s k fc) d'"
    unfolding followsRefusal_iff [OF wf(2)] using c idx by (intro exI [of _ i]) auto
qed

lemma no_new_running_dispatch:
  assumes inv: "so_inv s" shows "no_new_running s (dispatchExec h fc read s)"
proof -
  let ?k = "he_callId h" and ?t = "ensureCall s (he_callId h) fc"
  have wf: "so_wf s" using inv by (simp add: so_inv_def)
  have e: "no_new_running s ?t" using no_new_running_ensure [of s False ?k fc] by simp
  obtain c where c: "so_get ?t ?k = Some c" using so_get_ensure_Some by blast
  have keep: "ensureCall ?t ?k False = ?t" using c by (simp add: ensureCall_def)
  have run: "no_new_running s (runExec ?t ?k (he_execId h) read)" if "\<not> followsRefusal ?t c"
  proof -
    have "\<not> followsRefusal s d" if "so_get s ?k = Some d" for d
      using followsRefusal_ensure [OF wf that c] \<open>\<not> followsRefusal ?t c\<close> by blast
    then show ?thesis
      using e c unfolding no_new_running_def
      by (auto simp: runExec_def keep Let_def split: if_splits)
  qed
  have "no_new_running s (holdExec ?t h)"
    using e unfolding no_new_running_def by (auto simp: holdExec_def keep Let_def split: if_splits)
  then show ?thesis using run e c by (simp add: dispatchExec_def orderExec_def Let_def)
qed

lemma no_new_running_redispatch:
  "so_get s k = Some c \<Longrightarrow> terminal (oc_state c) \<or> oc_state c = Running \<Longrightarrow> no_new_running s (runExec s k e r)"
  by (auto simp: runExec_def ensureCall_def Let_def no_new_running_def terminal_def split: if_splits)

lemma no_new_running_step:
  assumes inv: "so_inv s" shows "no_new_running s (so_step s e)"
proof (cases e)
  case (CountEv n)
  then show ?thesis
    by (auto simp: noteOrderedCallCount_def no_new_running_def split: option.splits if_splits)
next
  case StartEv
  then show ?thesis by (simp add: startOrderedStep_def no_new_running_clear no_new_running_refl)
next
  case (ExecEv h fc read)
  then show ?thesis
    by (auto simp: no_new_running_refl intro!: no_new_running_dispatch [OF inv] split: option.splits)
next
  case (RedispatchEv k n r)
  then show ?thesis by (auto simp: no_new_running_refl intro: no_new_running_redispatch split: option.splits)
next
  case CancelEv
  then show ?thesis
    unfolding no_new_running_def by (simp add: takeCancelledExecs_unhold Let_def) (blast dest: no_new_running_cancel)
next
  case ReleaseEv
  then show ?thesis
    using no_new_running_release [OF inv] by (simp add: takeReleasableExecs_def held_distinct [OF inv])
qed (simp_all add: announceCall_def no_new_running_ensure no_new_running_finish no_new_running_result no_new_running_drop)

text \<open>C25: A refused file change stops everything after it: from the moment the host refused it, no event
ever starts a call of the step that comes later in model order; its execs are cancelled on arrival.\<close>

theorem refusal_stops_later_calls:
  assumes "so_get (so_run es) i = Some c" and "oc_fileChange c" and "oc_state c = Refused"
    and "so_get (so_run es) j = Some d" and "oc_index c < oc_index d" and "oc_state d \<noteq> Running"
    and "so_get (so_step (so_run es) e) j = Some d'"
  shows "oc_state d' \<noteq> Running \<and> fst (orderExec (so_run es) j fc) = Cancel"
proof
  let ?s = "so_run es"
  have inv: "so_inv ?s" and wf: "so_wf ?s" using so_run_inv [of es] by (auto simp: so_inv_def)
  have after: "followsRefusal ?s d" unfolding followsRefusal_iff [OF wf] using assms(1-5) by blast
  have "(\<exists>c. so_get ?s j = Some c \<and> oc_state c = Running) \<or> (\<forall>c. so_get ?s j = Some c \<longrightarrow> \<not> followsRefusal ?s c)"
    if "oc_state d' = Running"
    using no_new_running_step [OF inv, of e] assms(7) that unfolding no_new_running_def by blast
  then show "oc_state d' \<noteq> Running" using after assms(4,6) by auto
  obtain t where "so_get (ensureCall ?s j fc) j = Some t" using so_get_ensure_Some by blast
  with followsRefusal_ensure [OF wf assms(4) this after]
  show "fst (orderExec ?s j fc) = Cancel" by (simp add: orderExec_def Let_def)
qed

theorem refusal_stops_later_calls_witness:
  "fst (orderExec (so_run (demo_order @ [ResultEv 1 OutcomeRefused]) :: (unit, unit) step_order) ''b'' False) = Cancel"
proof -
  let ?s = "so_run (demo_order @ [ResultEv 1 OutcomeRefused])"
  have w: "so_get ?s ''w'' = Some \<lparr>oc_index = 0, oc_fileChange = True, oc_state = Refused\<rparr>"
    and b: "so_get ?s ''b'' = Some \<lparr>oc_index = 1, oc_fileChange = False, oc_state = Held\<rparr>"
    and r: "so_get (so_step ?s ReleaseEv) ''b'' = Some \<lparr>oc_index = 1, oc_fileChange = False, oc_state = Held\<rparr>"
    by (simp_all add: step_order_eval)
  show ?thesis
    using refusal_stops_later_calls [OF w _ _ b _ _ r] by simp
qed

text \<open>Nothing held is lost or run twice: cancelling and then releasing splits the held list into the
cancelled execs, exactly those that follow a refused file change, the released ones, whose calls are
then running, and those still held.\<close>

theorem taken_execs_conserved:
  assumes "takeCancelledExecs (so_run es) = (cs, s1)" and "takeReleasableExecs s1 = (rs, s2)"
  shows "mset cs + mset rs + mset (so_held s2) = mset (so_held (so_run es))
    \<and> cs = filter (\<lambda>h. \<exists>i c. so_get (so_run es) i = Some c \<and> oc_fileChange c \<and> oc_state c = Refused
           \<and> oc_index c < call_index (so_run es) (he_callId h)) (so_held (so_run es))
    \<and> (\<forall>h\<in>set cs. \<exists>c. so_get s1 (he_callId h) = Some c \<and> oc_state c = Done)
    \<and> (\<forall>h\<in>set rs. \<exists>c. so_get s2 (he_callId h) = Some c \<and> oc_state c = Running)"
proof -
  let ?s = "so_run es"
  have inv: "so_inv ?s" and wf: "so_wf ?s" and ok: "held_ok ?s"
    using so_run_inv [of es] by (auto simp: so_inv_def)
  note dist = held_distinct [OF inv]
  have cs: "cs = filter (\<lambda>h. case so_get ?s (he_callId h) of None \<Rightarrow> False | Some c \<Rightarrow> followsRefusal ?s c) (so_held ?s)"
    and s1: "s1 = fold (\<lambda>h. unhold h Done) cs ?s"
    using assms(1) by (auto simp: takeCancelledExecs_unhold Let_def)
  have sub: "distinct cs" "set cs \<subseteq> set (so_held ?s)" using dist by (auto simp: cs)
  note cancel = cancel_loop_spec [OF inv sub, folded s1]
  have rs: "rs = fst (release_loop (so_held s1) s1)" "s2 = snd (release_loop (so_held s1) s1)"
    using assms(2) by (simp_all add: takeReleasableExecs_def)
  note release = release_loop_spec [of s1 "so_held s1", folded rs]
  have "cs = filter (\<lambda>h. h \<in> set cs) (so_held ?s)"
    unfolding cs by (rule filter_cong) auto
  then have "mset cs + mset (so_held s1) = mset (filter (\<lambda>h. h \<in> set cs) (so_held ?s)) + mset (filter (\<lambda>h. h \<notin> set cs) (so_held ?s))"
    using cancel by argo
  then have "mset cs + mset (so_held s1) = mset (so_held ?s)" by (simp only: mset_filter_split)
  moreover have "(case so_get ?s (he_callId h) of None \<Rightarrow> False | Some c \<Rightarrow> followsRefusal ?s c)
      \<longleftrightarrow> (\<exists>i c. so_get ?s i = Some c \<and> oc_fileChange c \<and> oc_state c = Refused \<and> oc_index c < call_index ?s (he_callId h))"
    if "h \<in> set (so_held ?s)" for h
    using held_ok_known [OF ok that] by (auto simp: followsRefusal_iff [OF wf] call_index_known) blast+
  then have "cs = filter (\<lambda>h. \<exists>i c. so_get ?s i = Some c \<and> oc_fileChange c \<and> oc_state c = Refused
      \<and> oc_index c < call_index ?s (he_callId h)) (so_held ?s)"
    unfolding cs by (intro filter_cong) auto
  moreover have inv1: "so_inv s1" using cancel by blast
  have rel: "mset rs + mset (so_held s2) = mset (so_held s1)"
      "\<forall>h\<in>set rs. \<exists>c. so_get s2 (he_callId h) = Some c \<and> oc_state c = Running"
    using release [OF inv1 held_distinct [OF inv1]] by blast+
  ultimately show ?thesis
    using cancel by (simp add: rel add.assoc)
qed

theorem taken_execs_conserved_witness:
  "\<exists>cs s1 rs s2. takeCancelledExecs (so_run (demo_order @ [ResultEv 1 OutcomeRefused])) = (cs, s1)
    \<and> takeReleasableExecs s1 = (rs, s2) \<and> cs = [demo_exec ''b'' 2]
    \<and> mset cs + mset rs + mset (so_held s2) = mset [demo_exec ''b'' 2]"
proof -
  let ?s = "so_run (demo_order @ [ResultEv 1 OutcomeRefused])"
  have held: "so_held ?s = [demo_exec ''b'' 2]" and cs: "fst (takeCancelledExecs ?s) = [demo_exec ''b'' 2]"
    by (simp_all add: step_order_eval)
  obtain cs s1 where 1: "takeCancelledExecs ?s = (cs, s1)" by fastforce
  obtain rs s2 where 2: "takeReleasableExecs s1 = (rs, s2)" by fastforce
  from taken_execs_conserved [OF 1 2] held cs 1 2 show ?thesis by auto
qed

end
