(* ===== verification/RetryBudget.thy ===== *)
theory RetryBudget
  imports Prelude
begin

text \<open>
  The retry allowance of one logical user turn (\<open>src/src/retry-budget.ts\<close>). Budgets are objects
  that recovery loops keep while the process-wide table may forget them, so they live in a heap and
  the table maps a session key and a turn key to an address.
\<close>

section \<open>State\<close>

record retry_budget =
  b_server :: nat
  b_transport :: nat
  b_retries :: nat
  b_stallStartedAt :: "time option"
  b_hostRetryPending :: bool
  b_hostRetryKey :: "string option"

type_synonym addr = nat
type_synonym turns = "(string, addr) jsmap"

record budgets =
  rb_heap :: "retry_budget list"
  rb_sessions :: "(string, turns) jsmap"

definition MAX_SESSIONS :: nat where "MAX_SESSIONS = 1024"
definition MAX_TURNS_PER_SESSION :: nat where "MAX_TURNS_PER_SESSION = 16"

definition newRetryBudget :: retry_budget where
  "newRetryBudget = \<lparr>b_server = 0, b_transport = 0, b_retries = 0, b_stallStartedAt = None,
     b_hostRetryPending = False, b_hostRetryKey = None\<rparr>"

text \<open>\<open>new\<close>: the address of a fresh object.\<close>

definition alloc :: "retry_budget \<Rightarrow> budgets \<Rightarrow> addr \<times> budgets" where
  "alloc b st = (length (rb_heap st), st\<lparr>rb_heap := rb_heap st @ [b]\<rparr>)"

definition modify :: "addr \<Rightarrow> (retry_budget \<Rightarrow> retry_budget) \<Rightarrow> budgets \<Rightarrow> budgets" where
  "modify a f st = st\<lparr>rb_heap := (rb_heap st)[a := f (rb_heap st ! a)]\<rparr>"

section \<open>Operations\<close>

text \<open>The inner \<open>lookup\<close>: the turn's own entry, or the first one whose host retry has this key.\<close>

definition lookup_turn :: "retry_budget list \<Rightarrow> turns \<Rightarrow> string \<Rightarrow> (string \<times> addr) option" where
  "lookup_turn heap turns key =
     (case jm_get turns key of
        Some a \<Rightarrow> Some (key, a)
      | None \<Rightarrow> find (\<lambda>(_, a). b_hostRetryKey (heap ! a) = Some key) turns)"

definition turnRetryBudget :: "string option \<Rightarrow> string \<Rightarrow> string option \<Rightarrow> budgets \<Rightarrow> addr \<times> budgets" where
  "turnRetryBudget sessionKey turnKey continuationKey st =
     (case sessionKey of
        None \<Rightarrow> alloc newRetryBudget st
      | Some s \<Rightarrow>
          if s = '''' then alloc newRetryBudget st
          else
            (let turns = (case jm_get (rb_sessions st) s of None \<Rightarrow> [] | Some ts \<Rightarrow> ts);
                 found = lookup_turn (rb_heap st) turns turnKey;
                 continued = (case continuationKey of None \<Rightarrow> None
                   | Some c \<Rightarrow> (case lookup_turn (rb_heap st) turns c of
                        None \<Rightarrow> None
                      | Some (k, a) \<Rightarrow> if b_hostRetryPending (rb_heap st ! a) then Some (k, a) else None));
                 (key, budget, st1) = (case found of
                     Some (k, a) \<Rightarrow> (k, a, st)
                   | None \<Rightarrow> (case continued of
                        Some (k, a) \<Rightarrow> (k, a, modify a (\<lambda>b. b\<lparr>b_hostRetryKey := Some turnKey\<rparr>) st)
                      | None \<Rightarrow> (turnKey, alloc newRetryBudget st)));
                 st2 = modify budget (\<lambda>b. b\<lparr>b_hostRetryPending := False\<rparr>) st1;
                 turns' = jm_put MAX_TURNS_PER_SESSION key budget turns
             in (budget, st2\<lparr>rb_sessions := jm_put MAX_SESSIONS s turns' (rb_sessions st2)\<rparr>)))"

definition forgetRetryBudget :: "string option \<Rightarrow> addr option \<Rightarrow> budgets \<Rightarrow> budgets" where
  "forgetRetryBudget sessionKey budget st =
     (case sessionKey of None \<Rightarrow> st | Some s \<Rightarrow>
        if s = '''' then st
        else (case jm_get (rb_sessions st) s of
            None \<Rightarrow> st
          | Some turns \<Rightarrow>
              (case budget of
                 None \<Rightarrow> st\<lparr>rb_sessions := jm_delete s (rb_sessions st)\<rparr>
               | Some a \<Rightarrow>
                   (let turns' = filter (\<lambda>(_, v). v \<noteq> a) turns
                    in st\<lparr>rb_sessions := (if turns' = [] then jm_delete s (rb_sessions st)
                          else jm_set s turns' (rb_sessions st))\<rparr>))))"

text \<open>The value of \<open>CURSOR_ENDLESS_RETRIES\<close>.\<close>

definition endlessRetriesEnabled :: "string option \<Rightarrow> bool" where
  "endlessRetriesEnabled env \<longleftrightarrow> env = Some ''1'' \<or> env = Some ''true''"

text \<open>The parts of a provider failure the retry decision reads.\<close>

datatype origin = Local_Cancel | Transport | Server | Protocol | Auth

record failure =
  f_origin :: origin
  f_code :: "string option"

datatype category = ServerRetry | TransportRetry

definition retryCategory :: "failure \<Rightarrow> category" where
  "retryCategory failure =
     (if f_origin failure = Transport \<and> f_code failure \<noteq> Some ''CURSOR_READ_IDLE_TIMEOUT''
      then TransportRetry else ServerRetry)"

text \<open>\<open>CursorRetryExhaustedError\<close>: the attempts made and the last failure.\<close>

datatype retry_error = RetryExhausted nat failure

definition spent :: "category \<Rightarrow> retry_budget \<Rightarrow> nat" where
  "spent category b = (case category of ServerRetry \<Rightarrow> b_server b | TransportRetry \<Rightarrow> b_transport b)"

definition retry_limit :: "category \<Rightarrow> nat" where
  "retry_limit category = (case category of ServerRetry \<Rightarrow> 3 | TransportRetry \<Rightarrow> 10)"

text \<open>
  A reservation updates the budget object also when it throws: a failure that is not a stall clears
  the stall clock first.
\<close>

definition reserveRetry :: "bool \<Rightarrow> retry_budget \<Rightarrow> failure \<Rightarrow> int option \<Rightarrow> time
    \<Rightarrow> (retry_error + unit) \<times> retry_budget" where
  "reserveRetry endless budget failure maxAttempts now =
     (let category = retryCategory failure;
          stalled = (f_code failure = Some ''CURSOR_SEMANTIC_IDLE_TIMEOUT'');
          b1 = (if stalled then budget else budget\<lparr>b_stallStartedAt := None\<rparr>);
          stallExpired = (stalled \<and> (case b_stallStartedAt b1 of None \<Rightarrow> False | Some t \<Rightarrow> now - t \<ge> 180000))
      in if stallExpired \<or> (\<not> endless \<and> (spent category b1 \<ge> retry_limit category
              \<or> (case maxAttempts of None \<Rightarrow> False | Some m \<Rightarrow> int (b_retries b1) \<ge> m - 1)))
         then (Inl (RetryExhausted (b_retries b1 + 1) failure), b1)
         else (let b2 = (if stalled \<and> b_stallStartedAt b1 = None then b1\<lparr>b_stallStartedAt := Some now\<rparr> else b1);
                   b3 = (case category of ServerRetry \<Rightarrow> b2\<lparr>b_server := b_server b2 + 1\<rparr>
                           | TransportRetry \<Rightarrow> b2\<lparr>b_transport := b_transport b2 + 1\<rparr>)
               in (Inr (), b3\<lparr>b_retries := b_retries b3 + 1\<rparr>)))"

section \<open>The table\<close>

definition entry :: "(string, turns) jsmap \<Rightarrow> string \<Rightarrow> string \<Rightarrow> addr option" where
  "entry sessions s k = (case jm_get sessions s of None \<Rightarrow> None | Some ts \<Rightarrow> jm_get ts k)"

text \<open>
  Table entries name allocated budgets, no budget is filed twice, and the key of a host retry is
  free as a turn key and belongs to one budget of its session.
\<close>

definition table_ok :: "budgets \<Rightarrow> bool" where
  "table_ok st \<longleftrightarrow> jm_wf (rb_sessions st) \<and> length (rb_sessions st) \<le> MAX_SESSIONS
     \<and> (\<forall>s ts. jm_get (rb_sessions st) s = Some ts \<longrightarrow> jm_wf ts \<and> length ts \<le> MAX_TURNS_PER_SESSION)
     \<and> (\<forall>s k a. entry (rb_sessions st) s k = Some a \<longrightarrow> a < length (rb_heap st))
     \<and> (\<forall>s k s' k' a. entry (rb_sessions st) s k = Some a \<longrightarrow> entry (rb_sessions st) s' k' = Some a \<longrightarrow> s = s' \<and> k = k')"

definition retry_keys_ok :: "budgets \<Rightarrow> bool" where
  "retry_keys_ok st \<longleftrightarrow>
     (\<forall>s k a t. entry (rb_sessions st) s k = Some a \<longrightarrow> b_hostRetryKey (rb_heap st ! a) = Some t
        \<longrightarrow> entry (rb_sessions st) s t = None)
     \<and> (\<forall>s k k' a a' t. entry (rb_sessions st) s k = Some a \<longrightarrow> entry (rb_sessions st) s k' = Some a'
        \<longrightarrow> b_hostRetryKey (rb_heap st ! a) = Some t \<longrightarrow> b_hostRetryKey (rb_heap st ! a') = Some t \<longrightarrow> a = a')"

text \<open>\<open>k\<close> finds \<open>a\<close> under its own key or as the key of a host retry.\<close>

definition finds :: "budgets \<Rightarrow> string \<Rightarrow> string \<Rightarrow> addr \<Rightarrow> bool" where
  "finds st s k a \<longleftrightarrow> entry (rb_sessions st) s k = Some a
     \<or> (\<exists>j. entry (rb_sessions st) s j = Some a \<and> b_hostRetryKey (rb_heap st ! a) = Some k)"

definition turns_of :: "budgets \<Rightarrow> string \<Rightarrow> turns" where
  "turns_of st s = (case jm_get (rb_sessions st) s of None \<Rightarrow> [] | Some ts \<Rightarrow> ts)"

lemma turns_of_get: "jm_get (turns_of st s) k = entry (rb_sessions st) s k"
  by (simp add: turns_of_def entry_def split: option.splits)

lemma turns_of_wf: "table_ok st \<Longrightarrow> jm_wf (turns_of st s)"
  by (simp add: turns_of_def table_ok_def split: option.splits)

lemma turns_of_mem: "table_ok st \<Longrightarrow> (k, a) \<in> set (turns_of st s) \<longleftrightarrow> entry (rb_sessions st) s k = Some a"
  using map_of_eq_Some_iff [OF turns_of_wf [of st s], of k a] by (simp add: turns_of_get)

lemma find_SomeD: "find P xs = Some x \<Longrightarrow> x \<in> set xs \<and> P x"
  by (auto simp: find_Some_iff)

lemma lookup_turn_Some:
  assumes "table_ok st" and "lookup_turn (rb_heap st) (turns_of st s) k = Some (j, a)"
  shows "entry (rb_sessions st) s j = Some a \<and> finds st s k a"
  using assms(2) turns_of_mem [OF assms(1)]
  by (auto simp: lookup_turn_def finds_def turns_of_get split: option.splits dest!: find_SomeD)

lemma lookup_turn_None:
  assumes "table_ok st"
  shows "lookup_turn (rb_heap st) (turns_of st s) k = None \<longleftrightarrow> (\<forall>a. \<not> finds st s k a)"
  using turns_of_mem [OF assms, of _ _ s]
  by (auto simp: lookup_turn_def finds_def turns_of_get find_None_iff split: option.splits)



text \<open>The three ways a turn gets its budget.\<close>

definition filed :: "string \<Rightarrow> string \<Rightarrow> addr \<Rightarrow> budgets \<Rightarrow> budgets" where
  "filed s key a st = (let st2 = modify a (\<lambda>b. b\<lparr>b_hostRetryPending := False\<rparr>) st
     in st2\<lparr>rb_sessions := jm_put MAX_SESSIONS s (jm_put MAX_TURNS_PER_SESSION key a (turns_of st s)) (rb_sessions st)\<rparr>)"

definition fresh_budget :: "budgets \<Rightarrow> budgets" where
  "fresh_budget st = snd (alloc newRetryBudget st)"

definition retried :: "addr \<Rightarrow> string \<Rightarrow> budgets \<Rightarrow> budgets" where
  "retried a t st = modify a (\<lambda>b. b\<lparr>b_hostRetryKey := Some t\<rparr>) st"

lemma turns_of_other [simp]:
  "turns_of (modify a f st) s = turns_of st s" "turns_of (fresh_budget st) s = turns_of st s"
  "rb_sessions (modify a f st) = rb_sessions st" "rb_sessions (fresh_budget st) = rb_sessions st"
  "rb_heap (fresh_budget st) = rb_heap st @ [newRetryBudget]"
  "length (rb_heap (modify a f st)) = length (rb_heap st)"
  by (simp_all add: turns_of_def modify_def fresh_budget_def alloc_def)

lemma heap_modify: "i < length (rb_heap st) \<Longrightarrow>
   rb_heap (modify a f st) ! i = (if i = a then f (rb_heap st ! i) else rb_heap st ! i)"
  by (auto simp: modify_def)

lemma turnRetryBudget_cases:
  assumes "s \<noteq> []"
  shows "turnRetryBudget (Some s) t c st =
    (case lookup_turn (rb_heap st) (turns_of st s) t of
       Some (k, a) \<Rightarrow> (a, filed s k a st)
     | None \<Rightarrow>
        (case (case c of None \<Rightarrow> None | Some c' \<Rightarrow> lookup_turn (rb_heap st) (turns_of st s) c') of
           Some (k, a) \<Rightarrow> if b_hostRetryPending (rb_heap st ! a) then (a, filed s k a (retried a t st))
             else (length (rb_heap st), filed s t (length (rb_heap st)) (fresh_budget st))
         | None \<Rightarrow> (length (rb_heap st), filed s t (length (rb_heap st)) (fresh_budget st))))"
  using assms
  by (simp add: turnRetryBudget_def filed_def retried_def fresh_budget_def alloc_def turns_of_def [symmetric]
      split: option.splits prod.splits) (auto simp: turns_of_def modify_def split: option.splits)

lemma entry_filed:
  assumes "table_ok st" and "entry (rb_sessions (filed s key a st)) s' k' = Some b"
  shows "(s' = s \<and> k' = key \<and> b = a) \<or> ((s', k') \<noteq> (s, key) \<and> entry (rb_sessions st) s' k' = Some b)"
proof -
  let ?ts = "jm_put MAX_TURNS_PER_SESSION key a (turns_of st s)"
  obtain ts where ts: "jm_get (jm_put MAX_SESSIONS s ?ts (rb_sessions st)) s' = Some ts" "jm_get ts k' = Some b"
    using assms(2) by (auto simp: filed_def entry_def modify_def split: option.splits)
  show ?thesis
  proof (cases "s' = s")
    case True
    then have "ts = ?ts" using ts by (simp add: MAX_SESSIONS_def)
    then show ?thesis
      using True ts(2) jm_put_other [OF turns_of_wf [OF assms(1)], of k' key MAX_TURNS_PER_SESSION a s b]
      by (cases "k' = key") (auto simp: MAX_TURNS_PER_SESSION_def turns_of_get)
  next
    case False
    have "jm_wf (rb_sessions st)" using assms(1) by (simp add: table_ok_def)
    from jm_put_other [OF this False ts(1)] ts(2) False show ?thesis by (simp add: entry_def)
  qed
qed

lemma entry_filed_same: "entry (rb_sessions (filed s key a st)) s key = Some a"
  by (simp add: filed_def entry_def modify_def MAX_SESSIONS_def MAX_TURNS_PER_SESSION_def)

section \<open>Every operation keeps the table\<close>

definition rb_inv :: "budgets \<Rightarrow> bool" where
  "rb_inv st \<longleftrightarrow> table_ok st \<and> retry_keys_ok st"

lemma hostRetryKey_pending:
  "table_ok st \<Longrightarrow> entry (rb_sessions st) s k = Some i \<Longrightarrow>
   b_hostRetryKey (rb_heap (filed s' key a st) ! i) = b_hostRetryKey (rb_heap st ! i)"
  by (simp add: filed_def Let_def table_ok_def heap_modify)

lemma hostRetryKey_filed_self:
  "a < length (rb_heap st) \<Longrightarrow> b_hostRetryKey (rb_heap (filed s' key a st) ! a) = b_hostRetryKey (rb_heap st ! a)"
  by (simp add: filed_def Let_def heap_modify)

lemma table_ok_filed [model_inv]:
  assumes ok: "table_ok st" and a: "a < length (rb_heap st)"
    and only: "\<And>s' k'. entry (rb_sessions st) s' k' = Some a \<Longrightarrow> s' = s \<and> k' = key"
  shows "table_ok (filed s key a st)"
proof -
  let ?ts = "jm_put MAX_TURNS_PER_SESSION key a (turns_of st s)"
  have wf: "jm_wf (rb_sessions st)" using ok by (simp add: table_ok_def)
  have sess: "rb_sessions (filed s key a st) = jm_put MAX_SESSIONS s ?ts (rb_sessions st)"
    and heap: "length (rb_heap (filed s key a st)) = length (rb_heap st)"
    by (simp_all add: filed_def Let_def)
  have inner: "jm_wf ts \<and> length ts \<le> MAX_TURNS_PER_SESSION"
    if "jm_get (jm_put MAX_SESSIONS s ?ts (rb_sessions st)) s' = Some ts" for s' ts
  proof (cases "s' = s")
    case True
    then have "ts = ?ts" using that by (simp add: MAX_SESSIONS_def)
    then show ?thesis using jm_put_wf [OF turns_of_wf [OF ok]] jm_put_length by auto
  next
    case False
    with jm_put_other [OF wf False that] ok show ?thesis by (auto simp: table_ok_def)
  qed
  have bound: "b < length (rb_heap st)" if "entry (rb_sessions (filed s key a st)) s' k' = Some b" for s' k' b
    using entry_filed [OF ok that] ok a by (auto simp: table_ok_def)
  have inj: "s' = s'' \<and> k' = k''" if "entry (rb_sessions (filed s key a st)) s' k' = Some b"
    "entry (rb_sessions (filed s key a st)) s'' k'' = Some b" for s' k' s'' k'' b
    using entry_filed [OF ok that(1)] entry_filed [OF ok that(2)] ok only unfolding table_ok_def by blast
  have all: "\<forall>s' ts. jm_get (rb_sessions (filed s key a st)) s' = Some ts \<longrightarrow> jm_wf ts \<and> length ts \<le> MAX_TURNS_PER_SESSION"
    "\<forall>s' k' b. entry (rb_sessions (filed s key a st)) s' k' = Some b \<longrightarrow> b < length (rb_heap (filed s key a st))"
    "\<forall>s' k' s'' k'' b. entry (rb_sessions (filed s key a st)) s' k' = Some b \<longrightarrow>
       entry (rb_sessions (filed s key a st)) s'' k'' = Some b \<longrightarrow> s' = s'' \<and> k' = k''"
    subgoal using inner unfolding sess by blast
    subgoal using bound unfolding heap by blast
    subgoal using inj by blast
    done
  have "jm_wf (rb_sessions (filed s key a st))" "length (rb_sessions (filed s key a st)) \<le> MAX_SESSIONS"
    using wf by (simp_all add: sess jm_put_length)
  then show ?thesis unfolding table_ok_def by (intro conjI all)
qed

lemma keys_free: "retry_keys_ok st \<Longrightarrow> entry (rb_sessions st) s k = Some a \<Longrightarrow>
   b_hostRetryKey (rb_heap st ! a) = Some t \<Longrightarrow> entry (rb_sessions st) s t = None"
  unfolding retry_keys_ok_def by blast

lemma keys_one: "retry_keys_ok st \<Longrightarrow> entry (rb_sessions st) s k = Some a \<Longrightarrow> entry (rb_sessions st) s k' = Some a' \<Longrightarrow>
   b_hostRetryKey (rb_heap st ! a) = Some t \<Longrightarrow> b_hostRetryKey (rb_heap st ! a') = Some t \<Longrightarrow> a = a'"
  unfolding retry_keys_ok_def by blast

lemma retry_keys_okI:
  assumes "\<And>s k a t c. entry (rb_sessions st) s k = Some a \<Longrightarrow> b_hostRetryKey (rb_heap st ! a) = Some t
      \<Longrightarrow> entry (rb_sessions st) s t = Some c \<Longrightarrow> False"
    and "\<And>s k k' a a' t. entry (rb_sessions st) s k = Some a \<Longrightarrow> entry (rb_sessions st) s k' = Some a' \<Longrightarrow>
      b_hostRetryKey (rb_heap st ! a) = Some t \<Longrightarrow> b_hostRetryKey (rb_heap st ! a') = Some t \<Longrightarrow> a = a'"
  shows "retry_keys_ok st"
proof -
  have "entry (rb_sessions st) s t = None"
    if "entry (rb_sessions st) s k = Some a" "b_hostRetryKey (rb_heap st ! a) = Some t" for s k a t
    using assms(1) [OF that] by (cases "entry (rb_sessions st) s t") auto
  then show ?thesis using assms(2) unfolding retry_keys_ok_def by blast
qed

lemma retry_keys_submap:
  assumes "retry_keys_ok st"
    and sub: "\<And>s k a. entry (rb_sessions t) s k = Some a \<Longrightarrow> entry (rb_sessions st) s k = Some a
      \<and> b_hostRetryKey (rb_heap t ! a) = b_hostRetryKey (rb_heap st ! a)"
  shows "retry_keys_ok t"
proof (rule retry_keys_okI)
  fix s k a u c
  assume "entry (rb_sessions t) s k = Some a" "b_hostRetryKey (rb_heap t ! a) = Some u" "entry (rb_sessions t) s u = Some c"
  then show False using sub keys_free [OF assms(1)] by (metis option.distinct(1))
next
  fix s k k' a a' u
  assume "entry (rb_sessions t) s k = Some a" "entry (rb_sessions t) s k' = Some a'"
    "b_hostRetryKey (rb_heap t ! a) = Some u" "b_hostRetryKey (rb_heap t ! a') = Some u"
  then show "a = a'" using sub keys_one [OF assms(1)] by metis
qed

lemma retry_keys_filed_old [model_inv]:
  assumes ok: "table_ok st" and "retry_keys_ok st" and e: "entry (rb_sessions st) s key = Some a"
  shows "retry_keys_ok (filed s key a st)"
proof (rule retry_keys_submap [OF assms(2)])
  fix s' k b
  assume "entry (rb_sessions (filed s key a st)) s' k = Some b"
  then have "entry (rb_sessions st) s' k = Some b" using entry_filed [OF ok] e by blast
  then show "entry (rb_sessions st) s' k = Some b \<and>
      b_hostRetryKey (rb_heap (filed s key a st) ! b) = b_hostRetryKey (rb_heap st ! b)"
    using hostRetryKey_pending [OF ok] by blast
qed

lemma retry_keys_filed_new [model_inv]:
  assumes ok: "table_ok st" and keys: "retry_keys_ok st" and a: "a < length (rb_heap st)"
    and fresh: "b_hostRetryKey (rb_heap st ! a) = None" and free: "\<And>b. \<not> finds st s key b"
  shows "retry_keys_ok (filed s key a st)"
proof (rule retry_keys_okI)
  let ?f = "filed s key a st"
  have old: "entry (rb_sessions st) s' k = Some b \<and> b_hostRetryKey (rb_heap st ! b) = Some t"
    if e: "entry (rb_sessions ?f) s' k = Some b" and h: "b_hostRetryKey (rb_heap ?f ! b) = Some t" for s' k b t
  proof (cases "b = a")
    case True
    then show ?thesis using h fresh hostRetryKey_filed_self [OF a, of s key] by simp
  next
    case False
    then have "entry (rb_sessions st) s' k = Some b" using entry_filed [OF ok e] by blast
    then show ?thesis using h hostRetryKey_pending [OF ok] by metis
  qed
  {
    fix s' k b t c
    assume "entry (rb_sessions ?f) s' k = Some b" "b_hostRetryKey (rb_heap ?f ! b) = Some t"
      and c: "entry (rb_sessions ?f) s' t = Some c"
    from old [OF this(1,2)] have b: "entry (rb_sessions st) s' k = Some b" "b_hostRetryKey (rb_heap st ! b) = Some t" by auto
    from entry_filed [OF ok c] have "s' = s \<and> t = key \<or> entry (rb_sessions st) s' t = Some c" by blast
    then show False
      using b free [of b] keys_free [OF keys b] unfolding finds_def by auto
  next
    fix s' k k' b b' t
    assume e: "entry (rb_sessions ?f) s' k = Some b" "entry (rb_sessions ?f) s' k' = Some b'"
      "b_hostRetryKey (rb_heap ?f ! b) = Some t" "b_hostRetryKey (rb_heap ?f ! b') = Some t"
    show "b = b'"
      using keys_one [OF keys] old [OF e(1,3)] old [OF e(2,4)] by blast
  }
qed

lemma rb_inv_fresh [model_inv]: assumes "rb_inv st" shows "rb_inv (fresh_budget st)"
proof -
  have ok: "table_ok st" and keys: "retry_keys_ok st" using assms by (simp_all add: rb_inv_def)
  have "retry_keys_ok (fresh_budget st)"
  proof (rule retry_keys_submap [OF keys])
    fix s k a
    assume "entry (rb_sessions (fresh_budget st)) s k = Some a"
    moreover from this have "a < length (rb_heap st)" using ok by (simp add: table_ok_def)
    ultimately show "entry (rb_sessions st) s k = Some a
      \<and> b_hostRetryKey (rb_heap (fresh_budget st) ! a) = b_hostRetryKey (rb_heap st ! a)"
      by (simp add: nth_append)
  qed
  then show ?thesis using ok by (simp add: rb_inv_def table_ok_def less_SucI)
qed

lemma rb_inv_retried [model_inv]:
  assumes inv: "rb_inv st" and e: "entry (rb_sessions st) s k = Some a" and new: "\<And>b. \<not> finds st s t b"
  shows "rb_inv (retried a t st)"
proof -
  have ok: "table_ok st" and keys: "retry_keys_ok st" using inv by (simp_all add: rb_inv_def)
  have bound: "b < length (rb_heap st)" if "entry (rb_sessions st) s' k' = Some b" for s' k' b
    using ok that by (simp add: table_ok_def)
  have hk: "b_hostRetryKey (rb_heap (retried a t st) ! b) = (if b = a then Some t else b_hostRetryKey (rb_heap st ! b))"
    if "entry (rb_sessions st) s' k' = Some b" for s' k' b
    using bound [OF that] by (simp add: retried_def heap_modify)
  have mine: "s' = s" if "entry (rb_sessions st) s' k' = Some a" for s' k'
    using ok e that by (simp add: table_ok_def)
  have sess: "rb_sessions (retried a t st) = rb_sessions st" by (simp add: retried_def)
  have "retry_keys_ok (retried a t st)"
  proof (rule retry_keys_okI, unfold sess)
    fix s' k' b u c
    assume 1: "entry (rb_sessions st) s' k' = Some b" and 2: "b_hostRetryKey (rb_heap (retried a t st) ! b) = Some u"
      and 3: "entry (rb_sessions st) s' u = Some c"
    show False
    proof (cases "b = a")
      case True
      then show ?thesis using mine [of s' k'] 1 2 3 new [of c] hk [OF 1] by (simp add: finds_def)
    next
      case False
      then show ?thesis using keys_free [OF keys 1, of u] 2 3 hk [OF 1] by simp
    qed
  next
    fix s' k1 k2 b b' u
    assume 1: "entry (rb_sessions st) s' k1 = Some b" and 2: "entry (rb_sessions st) s' k2 = Some b'"
      and 3: "b_hostRetryKey (rb_heap (retried a t st) ! b) = Some u"
      and 4: "b_hostRetryKey (rb_heap (retried a t st) ! b') = Some u"
    have "\<not> (x = a \<and> y \<noteq> a)" if "entry (rb_sessions st) s' k = Some x" "entry (rb_sessions st) s' k' = Some y"
      "b_hostRetryKey (rb_heap (retried a t st) ! x) = Some u" "b_hostRetryKey (rb_heap (retried a t st) ! y) = Some u" for x y k k'
      using that hk [OF that(1)] hk [OF that(2)] mine [of s' k] new [of y] by (auto simp: finds_def split: if_splits)
    from this [OF 1 2 3 4] this [OF 2 1 4 3] show "b = b'"
      using 3 4 hk [OF 1] hk [OF 2] keys_one [OF keys 1 2] by (cases "b = a") auto
  qed
  then show ?thesis using ok by (simp add: rb_inv_def table_ok_def retried_def)
qed

text \<open>What a budget has spent.\<close>

definition spending :: "retry_budget \<Rightarrow> nat \<times> nat \<times> nat \<times> time option" where
  "spending b = (b_server b, b_transport b, b_retries b, b_stallStartedAt b)"

lemma spending_new [simp]: "spending newRetryBudget = (0, 0, 0, None)"
  by (simp add: spending_def newRetryBudget_def)

lemma spending_filed: "i < length (rb_heap st) \<Longrightarrow> spending (rb_heap (filed s k a st) ! i) = spending (rb_heap st ! i)"
  "i < length (rb_heap st) \<Longrightarrow> spending (rb_heap (retried a t st) ! i) = spending (rb_heap st ! i)"
  "i < length (rb_heap st) \<Longrightarrow> spending (rb_heap (fresh_budget st) ! i) = spending (rb_heap st ! i)"
  by (simp_all add: filed_def retried_def Let_def heap_modify spending_def nth_append)

lemma heap_filed [simp]: "length (rb_heap (filed s k a st)) = length (rb_heap st)"
  "length (rb_heap (retried a t st)) = length (rb_heap st)"
  "rb_sessions (retried a t st) = rb_sessions st"
  by (simp_all add: filed_def retried_def Let_def)

lemma finds_filed:
  assumes "a < length (rb_heap st)" and "k = t \<or> b_hostRetryKey (rb_heap st ! a) = Some t"
  shows "finds (filed s k a st) s t a"
  using assms entry_filed_same [of s k a st] hostRetryKey_filed_self [OF assms(1), of s k]
  by (auto simp: finds_def)

lemma filed_old_inv:
  assumes "rb_inv st" and "entry (rb_sessions st) s k = Some a"
  shows "rb_inv (filed s k a st)"
proof -
  have ok: "table_ok st" and keys: "retry_keys_ok st" using assms(1) by (simp_all add: rb_inv_def)
  have "a < length (rb_heap st)" using ok assms(2) by (simp add: table_ok_def)
  moreover have "s' = s \<and> k' = k" if "entry (rb_sessions st) s' k' = Some a" for s' k'
    using ok assms(2) that by (simp add: table_ok_def)
  ultimately show ?thesis
    using table_ok_filed [OF ok, of a s k] retry_keys_filed_old [OF ok keys assms(2)] unfolding rb_inv_def by blast
qed

lemma filed_new_inv:
  assumes "rb_inv st" and free: "\<And>b. \<not> finds st s t b"
  shows "rb_inv (filed s t (length (rb_heap st)) (fresh_budget st))"
proof -
  let ?n = "length (rb_heap st)"
  have inv: "table_ok (fresh_budget st)" "retry_keys_ok (fresh_budget st)"
    using rb_inv_fresh [OF assms(1)] by (simp_all add: rb_inv_def)
  have bound: "b < ?n" if "entry (rb_sessions st) s' k' = Some b" for s' k' b
    using assms(1) that by (simp add: rb_inv_def table_ok_def)
  have "\<not> finds (fresh_budget st) s t b" for b
    using free [of b] bound [of s _ b] by (auto simp: finds_def nth_append)
  moreover have "\<not> entry (rb_sessions st) s' k' = Some ?n" for s' k'
    using bound [of s' k' ?n] by auto
  ultimately show ?thesis
    using table_ok_filed [OF inv(1), of ?n s t] retry_keys_filed_new [OF inv, of ?n s t]
    by (simp add: rb_inv_def nth_append newRetryBudget_def)
qed

lemma turnRetryBudget_spec:
  assumes inv: "rb_inv st" and s: "s \<noteq> []" and call: "turnRetryBudget (Some s) t c st = (a, st')"
  shows "rb_inv st' \<and> finds st' s t a \<and> a < length (rb_heap st') \<and> length (rb_heap st) \<le> length (rb_heap st')
    \<and> (\<forall>i < length (rb_heap st). spending (rb_heap st' ! i) = spending (rb_heap st ! i))
    \<and> (\<forall>i < length (rb_heap st'). i \<ge> length (rb_heap st) \<longrightarrow> spending (rb_heap st' ! i) = (0, 0, 0, None))"
proof -
  have ok: "table_ok st" using inv by (simp add: rb_inv_def)
  let ?n = "length (rb_heap st)"
  have new: ?thesis if "a = ?n" "st' = filed s t ?n (fresh_budget st)" "\<And>b. \<not> finds st s t b"
    using that filed_new_inv [OF inv that(3)] finds_filed [of ?n "fresh_budget st" t t s]
    by (auto simp: spending_filed less_Suc_eq nth_append)
  show ?thesis
  proof (cases "lookup_turn (rb_heap st) (turns_of st s) t")
    case (Some p)
    then obtain k where k: "lookup_turn (rb_heap st) (turns_of st s) t = Some (k, a)" "st' = filed s k a st"
      using call by (cases p) (simp add: turnRetryBudget_cases [OF s])
    have e: "entry (rb_sessions st) s k = Some a" and f: "k = t \<or> b_hostRetryKey (rb_heap st ! a) = Some t"
      using k(1) lookup_turn_Some [OF ok k(1)] turns_of_mem [OF ok]
      by (auto simp: lookup_turn_def split: option.splits dest!: find_SomeD)
    have "a < ?n" using ok e by (simp add: table_ok_def)
    then show ?thesis using filed_old_inv [OF inv e] f k(2) by (auto simp: spending_filed intro: finds_filed)
  next
    case None
    have free: "\<not> finds st s t b" for b using lookup_turn_None [OF ok] None by blast
    show ?thesis
    proof (cases "a = ?n \<and> st' = filed s t ?n (fresh_budget st)")
      case True
      then show ?thesis using new free by blast
    next
      case False
      then obtain c' k where k: "lookup_turn (rb_heap st) (turns_of st s) c' = Some (k, a)" "st' = filed s k a (retried a t st)"
        using call None by (auto simp: turnRetryBudget_cases [OF s] split: option.splits prod.splits if_splits)
      have e: "entry (rb_sessions st) s k = Some a" using lookup_turn_Some [OF ok k(1)] by blast
      have a: "a < ?n" using ok e by (simp add: table_ok_def)
      have "rb_inv (filed s k a (retried a t st))"
        using filed_old_inv [OF rb_inv_retried [OF inv e free], of s k a] e by simp
      moreover have "b_hostRetryKey (rb_heap (retried a t st) ! a) = Some t" using a by (simp add: retried_def heap_modify)
      ultimately show ?thesis
        using a k(2) finds_filed [of a "retried a t st" k t s] by (auto simp: spending_filed)
    qed
  qed
qed

section \<open>Histories of the table\<close>

text \<open>
  What a process does with its budgets: look one up for a turn, reserve a retry on a budget object it
  holds, ask the host to retry, and forget a turn or a session. \<open>endless\<close> is the process setting.
\<close>

datatype rb_event = TurnEv "string option" string "string option"
  | ReserveEv addr failure "int option" time | HostRetryEv addr | ForgetEv "string option" "addr option"

fun rb_step :: "bool \<Rightarrow> budgets \<Rightarrow> rb_event \<Rightarrow> budgets" where
  "rb_step endless st (TurnEv s t c) = snd (turnRetryBudget s t c st)"
| "rb_step endless st (ReserveEv a f m now) =
     modify a (\<lambda>b. snd (reserveRetry endless b f m now)) st"
| "rb_step endless st (HostRetryEv a) = modify a (\<lambda>b. b\<lparr>b_hostRetryPending := True\<rparr>) st"
| "rb_step endless st (ForgetEv s a) = forgetRetryBudget s a st"

definition rb_start :: budgets where
  "rb_start = \<lparr>rb_heap = [], rb_sessions = []\<rparr>"

definition rb_run :: "bool \<Rightarrow> budgets \<Rightarrow> rb_event list \<Rightarrow> budgets" where
  "rb_run endless = foldl (rb_step endless)"

text \<open>A budget within the limits of a process that does not retry endlessly.\<close>

definition within_limits :: "retry_budget \<Rightarrow> bool" where
  "within_limits b \<longleftrightarrow> b_server b \<le> 3 \<and> b_transport b \<le> 10 \<and> b_retries b = b_server b + b_transport b"

definition rb_all :: "bool \<Rightarrow> budgets \<Rightarrow> bool" where
  "rb_all endless st \<longleftrightarrow> rb_inv st \<and> (\<not> endless \<longrightarrow> (\<forall>i < length (rb_heap st). within_limits (rb_heap st ! i)))"

lemma within_limits_spending:
  "spending b = spending c \<Longrightarrow> within_limits b = within_limits c"
  "spending b = (0, 0, 0, None) \<Longrightarrow> within_limits b"
  by (simp_all add: spending_def within_limits_def)

lemma reserve_within: "within_limits b \<Longrightarrow> within_limits (snd (reserveRetry False b f m now))"
  by (auto simp: reserveRetry_def Let_def within_limits_def spent_def retry_limit_def split: category.splits)

lemma reserve_key: "b_hostRetryKey (snd (reserveRetry e b f m now)) = b_hostRetryKey b"
  by (auto simp: reserveRetry_def Let_def split: category.splits)

lemma rb_inv_modify:
  assumes "rb_inv st" and "\<And>b. b_hostRetryKey (f b) = b_hostRetryKey b"
  shows "rb_inv (modify a f st)"
proof -
  have "retry_keys_ok (modify a f st)"
  proof (rule retry_keys_submap [of st])
    show "retry_keys_ok st" using assms(1) by (simp add: rb_inv_def)
  next
    fix s k b
    assume e: "entry (rb_sessions (modify a f st)) s k = Some b"
    then have "b < length (rb_heap st)" using assms(1) by (simp add: rb_inv_def table_ok_def)
    then show "entry (rb_sessions st) s k = Some b \<and>
        b_hostRetryKey (rb_heap (modify a f st) ! b) = b_hostRetryKey (rb_heap st ! b)"
      using e by (simp add: heap_modify assms(2))
  qed
  then show ?thesis using assms(1) by (simp add: rb_inv_def table_ok_def)
qed

lemma forget_submap:
  fixes s :: "string option" and a :: "addr option"
  assumes inv: "rb_inv st"
  defines "t \<equiv> forgetRetryBudget s a st"
  shows "rb_heap t = rb_heap st"
    and "entry (rb_sessions t) s' k = Some b \<Longrightarrow> entry (rb_sessions st) s' k = Some b"
    and "jm_wf (rb_sessions t)" and "length (rb_sessions t) \<le> MAX_SESSIONS"
    and "jm_get (rb_sessions t) s' = Some ts \<Longrightarrow> jm_wf ts \<and> length ts \<le> MAX_TURNS_PER_SESSION"
proof -
  have wf: "jm_wf (rb_sessions st)" "length (rb_sessions st) \<le> MAX_SESSIONS"
    and inner: "\<And>s' ts. jm_get (rb_sessions st) s' = Some ts \<Longrightarrow> jm_wf ts \<and> length ts \<le> MAX_TURNS_PER_SESSION"
    using inv unfolding rb_inv_def table_ok_def by blast+
  show "rb_heap t = rb_heap st"
    by (simp add: t_def forgetRetryBudget_def Let_def split: option.splits)
  show "jm_wf (rb_sessions t)"
    using wf by (simp add: t_def forgetRetryBudget_def Let_def split: option.splits)
  show "length (rb_sessions t) \<le> MAX_SESSIONS"
    using wf(2) length_delete_le [of _ "rb_sessions st"] jm_length_set_present [of "rb_sessions st"]
    by (auto simp: t_def forgetRetryBudget_def Let_def intro: le_trans split: option.splits)
  show "entry (rb_sessions t) s' k = Some b \<Longrightarrow> entry (rb_sessions st) s' k = Some b"
    using inner
    by (auto simp: t_def forgetRetryBudget_def Let_def entry_def jm_get_filter split: option.splits if_splits)
  show "jm_get (rb_sessions t) s' = Some ts \<Longrightarrow> jm_wf ts \<and> length ts \<le> MAX_TURNS_PER_SESSION"
    using inner
    by (auto simp: t_def forgetRetryBudget_def Let_def intro: le_trans [OF length_filter_le] split: option.splits if_splits)
qed

lemma rb_inv_forget [model_inv]: "rb_inv st \<Longrightarrow> rb_inv (forgetRetryBudget s a st)"
proof -
  assume inv: "rb_inv st"
  note sub = forget_submap [OF inv, of s a]
  have "retry_keys_ok (forgetRetryBudget s a st)"
    by (rule retry_keys_submap [of st]) (use inv sub in \<open>auto simp: rb_inv_def\<close>)
  moreover have "a' < length (rb_heap st)" if "entry (rb_sessions (forgetRetryBudget s a st)) s' k = Some a'" for s' k a'
    using sub(2) [OF that] inv by (simp add: rb_inv_def table_ok_def)
  moreover have "s' = s'' \<and> k = k'" if "entry (rb_sessions (forgetRetryBudget s a st)) s' k = Some b"
    "entry (rb_sessions (forgetRetryBudget s a st)) s'' k' = Some b" for s' s'' k k' b
    using sub(2) [OF that(1)] sub(2) [OF that(2)] inv unfolding rb_inv_def table_ok_def by blast
  ultimately show ?thesis
    using sub(1,3,4,5) by (simp add: rb_inv_def table_ok_def)
qed

lemma rb_all_step: assumes "rb_all endless st" shows "rb_all endless (rb_step endless st e)"
proof (cases e)
  case (TurnEv s t c)
  obtain a st' where call: "turnRetryBudget s t c st = (a, st')" by fastforce
  have inv: "rb_inv st" using assms by (simp add: rb_all_def)
  show ?thesis
  proof (cases "s = None \<or> s = Some []")
    case True
    then have "st' = fresh_budget st" using call by (auto simp: turnRetryBudget_def fresh_budget_def)
    then show ?thesis using assms TurnEv call rb_inv_fresh [OF inv]
      by (auto simp: rb_all_def nth_append less_Suc_eq intro: within_limits_spending(2))
  next
    case False
    then obtain s' where s: "s = Some s'" "s' \<noteq> []" by auto
    note spec = turnRetryBudget_spec [OF inv s(2) call [unfolded s(1)]]
    have "within_limits (rb_heap st' ! i)" if "\<not> endless" "i < length (rb_heap st')" for i
      using spec assms that within_limits_spending unfolding rb_all_def by (meson not_less)
    then show ?thesis using spec TurnEv call by (simp add: rb_all_def)
  qed
next
  case (ReserveEv a f m now)
  then show ?thesis using assms reserve_within
    by (auto simp: rb_all_def reserve_key heap_modify intro!: rb_inv_modify)
next
  case (HostRetryEv a)
  then show ?thesis using assms
    by (auto simp: rb_all_def heap_modify within_limits_def intro!: rb_inv_modify)
next
  case (ForgetEv s a)
  then show ?thesis using assms forget_submap(1) [of st] rb_inv_forget by (simp add: rb_all_def)
qed

lemma rb_all_start: "rb_all endless rb_start"
  by (simp add: rb_all_def rb_start_def rb_inv_def table_ok_def retry_keys_ok_def entry_def)

interpretation rb_sys: step_system "\<lambda>st. st = rb_start" "rb_step endless" "rb_all endless" for endless
  by unfold_locales (simp_all add: rb_all_start rb_all_step)

interpretation session_store: bounded_store "jm_put MAX_SESSIONS" map_of length jm_wf MAX_SESSIONS
  by (rule jm_put_store) (simp add: MAX_SESSIONS_def)

lemma rb_run_reachable: "rb_all endless (rb_run endless rb_start es)"
proof -
  have "rb_run endless st es = rb_sys.run endless st es" for st
    by (induction es arbitrary: st) (auto simp: rb_run_def)
  then show ?thesis using rb_sys.reachable_inv by metis
qed

lemma finds_modify:
  assumes "finds st s t a" and "\<And>b. b_hostRetryKey (f b) = b_hostRetryKey b" and "rb_inv st"
  shows "finds (modify x f st) s t a"
proof -
  obtain k where "entry (rb_sessions st) s k = Some a" using assms(1) by (auto simp: finds_def)
  then have "a < length (rb_heap st)" using assms(3) by (simp add: rb_inv_def table_ok_def)
  then show ?thesis using assms(1,2) by (auto simp: finds_def heap_modify)
qed






















section \<open>Properties\<close>


definition server_failure :: failure where
  "server_failure = \<lparr>f_origin = Server, f_code = None\<rparr>"

lemmas retry_eval = rb_run_def rb_start_def turnRetryBudget_def alloc_def newRetryBudget_def lookup_turn_def modify_def
  jm_put_def jm_touch_def MAX_SESSIONS_def MAX_TURNS_PER_SESSION_def server_failure_def reserveRetry_def
  retryCategory_def spent_def retry_limit_def Let_def finds_def entry_def spending_def


text \<open>Without the endless setting no history ever gives a turn more than three server and ten transport
  retries, thirteen in all, and the process table stays bounded.\<close>

theorem retries_are_bounded:
  assumes "i < length (rb_heap (rb_run False rb_start es))"
  shows "b_server (rb_heap (rb_run False rb_start es) ! i) \<le> 3 \<and> b_transport (rb_heap (rb_run False rb_start es) ! i) \<le> 10
    \<and> b_retries (rb_heap (rb_run False rb_start es) ! i) \<le> 13
    \<and> length (rb_sessions (rb_run False rb_start es)) \<le> 1024
    \<and> (\<forall>(s, ts) \<in> set (rb_sessions (rb_run False rb_start es)). length ts \<le> 16)"
proof -
  let ?st = "rb_run False rb_start es"
  have all: "rb_all False ?st" by (rule rb_run_reachable)
  then have "table_ok ?st" by (simp add: rb_all_def rb_inv_def)
  then have "length (rb_sessions ?st) \<le> 1024" "\<forall>(s, ts) \<in> set (rb_sessions ?st). length ts \<le> 16"
    unfolding table_ok_def by (auto simp: MAX_SESSIONS_def MAX_TURNS_PER_SESSION_def)
  then show ?thesis using all assms unfolding rb_all_def within_limits_def by auto
qed

theorem retries_are_bounded_witness:
  "b_server (rb_heap (rb_run False rb_start [TurnEv (Some ''s'') ''t'' None, ReserveEv 0 server_failure None 5,
       ReserveEv 0 server_failure None 5, ReserveEv 0 server_failure None 5, ReserveEv 0 server_failure None 5]) ! 0) \<le> 3"
proof -
  let ?es = "[TurnEv (Some ''s'') ''t'' None, ReserveEv 0 server_failure None 5,
       ReserveEv 0 server_failure None 5, ReserveEv 0 server_failure None 5, ReserveEv 0 server_failure None 5]"
  have "0 < length (rb_heap (rb_run False rb_start ?es))" by (simp add: retry_eval)
  from retries_are_bounded [OF this] show ?thesis by blast
qed

text \<open>A series of reservations on one budget; \<open>None\<close> once one of them throws.\<close>

fun reserve_all :: "bool \<Rightarrow> retry_budget \<Rightarrow> (failure \<times> int option \<times> time) list \<Rightarrow> retry_budget option" where
  "reserve_all endless b [] = Some b"
| "reserve_all endless b ((f, m, now) # rs) =
     (case reserveRetry endless b f m now of
        (Inl _, _) \<Rightarrow> None
      | (Inr _, b') \<Rightarrow> reserve_all endless b' rs)"

lemma reserve_stalled:
  assumes "f_code f = Some ''CURSOR_SEMANTIC_IDLE_TIMEOUT''" and "reserveRetry e b f m now = (Inr u, b')"
  shows "b_stallStartedAt b' = Some (case b_stallStartedAt b of None \<Rightarrow> now | Some t \<Rightarrow> t)
    \<and> (\<forall>t. b_stallStartedAt b = Some t \<longrightarrow> now - t < 180000)"
  using assms by (auto simp: reserveRetry_def Let_def split: if_splits option.splits category.splits)

lemma stall_window:
  assumes "list_all (\<lambda>(f, m, now). f_code f = Some ''CURSOR_SEMANTIC_IDLE_TIMEOUT'') rs"
    and "b_stallStartedAt b = Some t" and "reserve_all e b rs = Some b'"
  shows "list_all (\<lambda>(f, m, now). now - t < 180000) rs"
  using assms
proof (induction rs arbitrary: b)
  case (Cons r rs)
  obtain f m now where r: "r = (f, m, now)" by (cases r)
  from Cons.prems(3) r obtain u b1 where b1: "reserveRetry e b f m now = (Inr u, b1)" "reserve_all e b1 rs = Some b'"
    by (auto split: prod.splits sum.splits)
  have "b_stallStartedAt b1 = Some t" "now - t < 180000"
    using reserve_stalled [OF _ b1(1)] Cons.prems(1,2) r by auto
  then show ?case using Cons.IH [of b1] Cons.prems(1) b1(2) r by auto
qed simp

text \<open>C37: Semantic stalls end even where retries are endless: a series of retries that are all stalls is
  admitted only within 180 seconds of the first one, after which the reservation throws.\<close>

theorem stalls_are_bounded:
  assumes "list_all (\<lambda>(f, m, now). f_code f = Some ''CURSOR_SEMANTIC_IDLE_TIMEOUT'') ((f0, m0, start) # rs)"
    and "b_stallStartedAt b = None" and "reserve_all endless b ((f0, m0, start) # rs) = Some b'"
  shows "list_all (\<lambda>(f, m, now). now - start < 180000) rs"
proof -
  obtain u b1 where b1: "reserveRetry endless b f0 m0 start = (Inr u, b1)" "reserve_all endless b1 rs = Some b'"
    using assms(3) by (auto split: prod.splits sum.splits)
  have "b_stallStartedAt b1 = Some start" using reserve_stalled [OF _ b1(1)] assms(1,2) by auto
  from stall_window [OF _ this b1(2)] assms(1) show ?thesis by simp
qed

theorem stalls_are_bounded_witness:
  "list_all (\<lambda>(f, m, now). now - 1000 < 180000) [(\<lparr>f_origin = Server, f_code = Some ''CURSOR_SEMANTIC_IDLE_TIMEOUT''\<rparr>, None :: int option, 180999 :: int)]"
proof -
  let ?f = "\<lparr>f_origin = Server, f_code = Some ''CURSOR_SEMANTIC_IDLE_TIMEOUT''\<rparr>"
  obtain b' where "reserve_all True newRetryBudget [(?f, None, 1000), (?f, None, 180999)] = Some b'"
    by (simp add: retry_eval)
  from stalls_are_bounded [OF _ _ this] show ?thesis by (simp add: newRetryBudget_def)
qed

end
