(* ===== verification/Activity.thy ===== *)
theory Activity
  imports Prelude
begin

text \<open>
  Session activity (\<open>src/src/activity.ts\<close>): message progress propagated through subagent ancestry,
  open host prompts, and the host tools still running. The continuation leases of held Runs read it.
  Times are finite integers, as \<open>Date.now()\<close> gives them.
\<close>

section \<open>State\<close>

definition RUNNING_TOOL_CAP_MS :: int where "RUNNING_TOOL_CAP_MS = 4 * 60 * 60 * 1000"

record running_tool =
  rt_sessionId :: string
  rt_startedAt :: time

record open_prompt =
  op_sessionId :: string
  op_openedAt :: time

record activity =
  parentBySession :: "(string, string) jsmap"
  lastActivityBySession :: "(string, time) jsmap"
  openPrompts :: "(string, open_prompt) jsmap"
  runningTools :: "(string, running_tool) jsmap"

definition createSessionActivityState :: activity where
  "createSessionActivityState =
     \<lparr>parentBySession = [], lastActivityBySession = [], openPrompts = [], runningTools = []\<rparr>"

definition MAX_ANCESTRY_DEPTH :: nat where "MAX_ANCESTRY_DEPTH = 64"
definition MAX_TRACKED_SESSIONS :: nat where "MAX_TRACKED_SESSIONS = 1024"
definition ACTIVITY_RETENTION_MS :: int where "ACTIVITY_RETENTION_MS = 24 * 60 * 60 * 1000"

text \<open>The composite key \<open>${sessionId}\0${id}\<close>.\<close>

definition nul_key :: "string \<Rightarrow> string \<Rightarrow> string" where
  "nul_key sessionId ident = sessionId @ [CHR 0x00] @ ident"

section \<open>Pruning\<close>

text \<open>\<open>while (map.size > limit) { oldest = first key; if (!oldest) break; map.delete(oldest) }\<close>\<close>

fun evict_named :: "nat \<Rightarrow> (string, 'v) jsmap \<Rightarrow> (string, 'v) jsmap" where
  "evict_named limit [] = []"
| "evict_named limit ((k, v) # m) =
     (if length ((k, v) # m) > limit \<and> k \<noteq> [] then evict_named limit m else (k, v) # m)"

text \<open>The loop that evicts the least recently active session also forgets its parent link.\<close>

fun evict_linked :: "nat \<Rightarrow> (string, 'v) jsmap \<Rightarrow> (string, string) jsmap \<Rightarrow> (string, 'v) jsmap \<times> (string, string) jsmap" where
  "evict_linked limit [] ps = ([], ps)"
| "evict_linked limit ((k, v) # m) ps =
     (if length ((k, v) # m) > limit \<and> k \<noteq> [] then evict_linked limit m (jm_delete k ps) else ((k, v) # m, ps))"

fun expire_linked :: "time \<Rightarrow> (string, time) jsmap \<Rightarrow> (string, string) jsmap \<Rightarrow> (string, time) jsmap \<times> (string, string) jsmap" where
  "expire_linked oldest [] ps = ([], ps)"
| "expire_linked oldest ((k, at) # m) ps =
     (if at \<ge> oldest then ((k, at) # m, ps) else expire_linked oldest m (jm_delete k ps))"

definition prune :: "time \<Rightarrow> activity \<Rightarrow> activity" where
  "prune now st =
     (let oldestAllowed = now - ACTIVITY_RETENTION_MS;
          prompts = evict_named MAX_TRACKED_SESSIONS
            (dropWhile (\<lambda>(_, p). op_openedAt p < oldestAllowed) (openPrompts st));
          (last1, parents1) = expire_linked oldestAllowed (lastActivityBySession st) (parentBySession st);
          (last2, parents2) = evict_linked MAX_TRACKED_SESSIONS last1 parents1;
          parents3 = evict_named MAX_TRACKED_SESSIONS parents2;
          tools = evict_named MAX_TRACKED_SESSIONS
            (filter (\<lambda>(_, t). \<not> rt_startedAt t < oldestAllowed) (runningTools st))
      in \<lparr>parentBySession = parents3, lastActivityBySession = last2, openPrompts = prompts, runningTools = tools\<rparr>)"

section \<open>Operations\<close>

text \<open>
  The ancestry walk of \<open>recordActivity\<close>: at most \<open>depth\<close> sessions. Meeting a session twice returns
  from the whole operation (the flag is False), so its last \<open>prune\<close> does not run.
\<close>

fun record_walk :: "nat \<Rightarrow> string list \<Rightarrow> string option \<Rightarrow> time \<Rightarrow> (string, string) jsmap
    \<Rightarrow> (string, time) jsmap \<Rightarrow> (string, time) jsmap \<times> bool" where
  "record_walk 0 visited current at ps m = (m, True)"
| "record_walk (Suc d) visited current at ps m =
     (case current of
        None \<Rightarrow> (m, True)
      | Some c \<Rightarrow>
          if c = [] then (m, True)
          else if c \<in> set visited then (m, False)
          else record_walk d (c # visited) (jm_get ps c) at ps
                 (case jm_get m c of
                    None \<Rightarrow> jm_touch c at m
                  | Some previous \<Rightarrow> if at > previous then jm_touch c at m else m))"

definition recordActivity :: "string \<Rightarrow> time \<Rightarrow> activity \<Rightarrow> activity" where
  "recordActivity sessionId at st =
     (if sessionId = [] then st
      else (let st1 = prune at st;
                (m, finished) = record_walk MAX_ANCESTRY_DEPTH [] (Some sessionId) at
                  (parentBySession st1) (lastActivityBySession st1);
                st2 = st1\<lparr>lastActivityBySession := m\<rparr>
            in if finished then prune at st2 else st2))"

definition linkSession :: "string \<Rightarrow> string option \<Rightarrow> time \<Rightarrow> activity \<Rightarrow> activity" where
  "linkSession sessionId parentId now st =
     (if sessionId = [] then st
      else (let st1 = prune now st;
                st2 = (case parentId of
                    Some p \<Rightarrow> if p \<noteq> [] \<and> p \<noteq> sessionId
                      then st1\<lparr>parentBySession := jm_set sessionId p (parentBySession st1)\<rparr>
                      else st1\<lparr>parentBySession := jm_delete sessionId (parentBySession st1)\<rparr>
                  | None \<Rightarrow> st1\<lparr>parentBySession := jm_delete sessionId (parentBySession st1)\<rparr>);
                st3 = (case jm_get (lastActivityBySession st2) sessionId of
                    None \<Rightarrow> st2 | Some existing \<Rightarrow> recordActivity sessionId existing st2)
            in prune now st3))"

text \<open>\<open>current === sessionId\<close> along the parent chain, at most \<open>depth\<close> steps.\<close>

fun ancestry_meets :: "nat \<Rightarrow> string option \<Rightarrow> string \<Rightarrow> (string, string) jsmap \<Rightarrow> bool" where
  "ancestry_meets 0 current sessionId ps = False"
| "ancestry_meets (Suc d) current sessionId ps =
     (case current of
        None \<Rightarrow> False
      | Some c \<Rightarrow> c \<noteq> [] \<and> (c = sessionId \<or> ancestry_meets d (jm_get ps c) sessionId ps))"

definition belongsTo :: "string \<Rightarrow> string \<Rightarrow> activity \<Rightarrow> bool" where
  "belongsTo toolSessionId sessionId st =
     ancestry_meets MAX_ANCESTRY_DEPTH (Some toolSessionId) sessionId (parentBySession st)"

definition awaitsUser :: "string \<Rightarrow> activity \<Rightarrow> bool" where
  "awaitsUser sessionId st =
     list_ex (\<lambda>(_, p). ancestry_meets MAX_ANCESTRY_DEPTH (Some (op_sessionId p)) sessionId (parentBySession st))
       (openPrompts st)"

definition lastActivityAt :: "string \<Rightarrow> time \<Rightarrow> activity \<Rightarrow> time option \<times> activity" where
  "lastActivityAt sessionId now st =
     (let st1 = prune now st
      in (if awaitsUser sessionId st1 then Some now else jm_get (lastActivityBySession st1) sessionId, st1))"

definition openPrompt :: "string \<Rightarrow> string \<Rightarrow> time \<Rightarrow> activity \<Rightarrow> activity" where
  "openPrompt sessionId requestId at st =
     (if sessionId = [] \<or> requestId = [] then st
      else recordActivity sessionId at
        (st\<lparr>openPrompts := jm_touch (nul_key sessionId requestId)
            \<lparr>op_sessionId = sessionId, op_openedAt = at\<rparr> (openPrompts st)\<rparr>))"

definition closePrompt :: "string \<Rightarrow> string \<Rightarrow> time \<Rightarrow> activity \<Rightarrow> activity" where
  "closePrompt sessionId requestId at st =
     (if sessionId = [] \<or> requestId = [] then st
      else recordActivity sessionId at
        (st\<lparr>openPrompts := jm_delete (nul_key sessionId requestId) (openPrompts st)\<rparr>))"

definition toolStarted :: "string \<Rightarrow> string \<Rightarrow> time \<Rightarrow> activity \<Rightarrow> activity" where
  "toolStarted sessionId callId at st =
     (if sessionId = [] \<or> callId = [] then st
      else (let key = nul_key sessionId callId
            in recordActivity sessionId at
                 (if jm_has (runningTools st) key then st
                  else st\<lparr>runningTools := jm_set key \<lparr>rt_sessionId = sessionId, rt_startedAt = at\<rparr> (runningTools st)\<rparr>)))"

definition clearRunningTools :: "string \<Rightarrow> activity \<Rightarrow> activity" where
  "clearRunningTools sessionId st =
     st\<lparr>runningTools := filter (\<lambda>(_, t). rt_sessionId t \<noteq> sessionId) (runningTools st)\<rparr>"

definition endRunningTools :: "string \<Rightarrow> time \<Rightarrow> activity \<Rightarrow> activity" where
  "endRunningTools sessionId at st =
     (if sessionId = [] then st
      else if list_ex (\<lambda>(_, t). rt_sessionId t = sessionId) (runningTools st)
      then recordActivity sessionId at
        (st\<lparr>runningTools := filter (\<lambda>(_, t). rt_sessionId t \<noteq> sessionId) (runningTools st)\<rparr>)
      else st)"

definition toolEnded :: "string \<Rightarrow> string \<Rightarrow> time \<Rightarrow> activity \<Rightarrow> activity" where
  "toolEnded sessionId callId at st =
     (if sessionId = [] \<or> callId = [] then st
      else recordActivity sessionId at
        (st\<lparr>runningTools := jm_delete (nul_key sessionId callId) (runningTools st)\<rparr>))"

fun latest_deadline :: "(running_tool \<Rightarrow> bool) \<Rightarrow> time \<Rightarrow> int \<Rightarrow> running_tool list \<Rightarrow> time option \<Rightarrow> time option" where
  "latest_deadline mine now cap [] deadline = deadline"
| "latest_deadline mine now cap (tool # ts) deadline =
     latest_deadline mine now cap ts
       (if \<not> mine tool \<or> now \<ge> rt_startedAt tool + cap then deadline
        else Some (case deadline of None \<Rightarrow> rt_startedAt tool + cap | Some d \<Rightarrow> max d (rt_startedAt tool + cap)))"

definition runningToolDeadline :: "string \<Rightarrow> time \<Rightarrow> int \<Rightarrow> activity \<Rightarrow> time option" where
  "runningToolDeadline sessionId now toolCapMs st =
     latest_deadline (\<lambda>tool. belongsTo (rt_sessionId tool) sessionId st) now toolCapMs
       (map snd (runningTools st)) None"

definition removeSession :: "string \<Rightarrow> activity \<Rightarrow> activity" where
  "removeSession sessionId st =
     clearRunningTools sessionId
       (st\<lparr>parentBySession := jm_delete sessionId (parentBySession st),
          lastActivityBySession := jm_delete sessionId (lastActivityBySession st),
          openPrompts := filter (\<lambda>(_, p). op_sessionId p \<noteq> sessionId) (openPrompts st)\<rparr>)"

definition clear_activity :: "activity \<Rightarrow> activity" where
  "clear_activity st = createSessionActivityState"

section \<open>Host events\<close>

text \<open>A host event's payload: objects, strings and booleans, anything else is \<open>HOther\<close>.\<close>

datatype host_value = HObj "(string \<times> host_value) list" | HStr string | HBool bool | HOther

fun field :: "host_value \<Rightarrow> string \<Rightarrow> host_value" where
  "field (HObj ps) k = (case map_of ps k of None \<Rightarrow> HOther | Some v \<Rightarrow> v)"
| "field _ k = HOther"

fun is_obj :: "host_value \<Rightarrow> bool" where
  "is_obj (HObj _) = True"
| "is_obj _ = False"

fun event_text :: "host_value \<Rightarrow> string" where
  "event_text (HStr s) = s"
| "event_text _ = []"

definition or_text :: "string \<Rightarrow> string \<Rightarrow> string" where
  "or_text a b = (if a = [] then b else a)"

definition applyHostPromptEvent :: "host_value \<Rightarrow> host_value \<Rightarrow> time \<Rightarrow> activity \<Rightarrow> activity" where
  "applyHostPromptEvent type data now st =
     (let kind = event_text type
      in if kind \<in> {''permission.asked'', ''permission.updated'', ''question.asked''}
         then openPrompt (event_text (field data ''sessionID'')) (event_text (field data ''id'')) now st
         else if kind \<in> {''permission.replied'', ''question.replied'', ''question.rejected''}
         then closePrompt (event_text (field data ''sessionID''))
                (or_text (event_text (field data ''requestID'')) (event_text (field data ''permissionID''))) now st
         else if kind = ''form.created''
         then (let form = field data ''form''
               in openPrompt (event_text (field form ''sessionID'')) (event_text (field form ''id'')) now st)
         else if kind \<in> {''form.replied'', ''form.cancelled''}
         then closePrompt (event_text (field data ''sessionID'')) (event_text (field data ''id'')) now st
         else st)"

definition applyHostToolEvent :: "host_value \<Rightarrow> host_value \<Rightarrow> time \<Rightarrow> activity \<Rightarrow> activity" where
  "applyHostToolEvent type data now st =
     (let kind = event_text type; sessionId = event_text (field data ''sessionID'');
          callId = or_text (event_text (field data ''id'')) (event_text (field data ''callID''))
      in if kind = ''message.part.updated''
         then (let part = field data ''part''; partSession = event_text (field part ''sessionID'');
                   partCall = or_text (event_text (field part ''callID'')) (event_text (field part ''callId''));
                   state = field part ''state''; status = event_text (field state ''status'')
               in if event_text (field part ''type'') \<noteq> ''tool'' \<or> partSession = [] \<or> partCall = [] \<or> \<not> is_obj state then st
                  else if status = ''running'' \<and> field (field part ''metadata'') ''providerExecuted'' \<noteq> HBool True
                  then toolStarted partSession partCall now st
                  else if status = ''completed'' \<or> status = ''error'' then toolEnded partSession partCall now st
                  else st)
         else if kind = ''session.tool.called''
         then (if sessionId = [] \<or> callId = [] \<or> field data ''executed'' = HBool True then st
               else toolStarted sessionId callId now st)
         else if kind = ''session.tool.success'' \<or> kind = ''session.tool.failed''
         then (if sessionId \<noteq> [] \<and> callId \<noteq> [] then toolEnded sessionId callId now st else st)
         else if kind = ''session.idle''
         then (let idle = or_text sessionId (event_text (field (field data ''info'') ''id''))
               in if idle \<noteq> [] then endRunningTools idle now st else st)
         else st)"

section \<open>Every table stays bounded\<close>

definition named :: "(string, 'v) jsmap \<Rightarrow> bool" where
  "named m \<longleftrightarrow> [] \<notin> fst ` set m"

lemma named_simps [simp]:
  "named []" "named (p # m) \<longleftrightarrow> fst p \<noteq> [] \<and> named m"
  by (auto simp: named_def)

lemma named_subset: "set m' \<subseteq> set m \<Longrightarrow> named m \<Longrightarrow> named m'"
  by (auto simp: named_def)

lemma named_ops [simp]:
  "named m \<Longrightarrow> named (jm_delete k m)" "named m \<Longrightarrow> named (filter P m)" "named m \<Longrightarrow> named (dropWhile P m)"
  "named m \<Longrightarrow> k \<noteq> [] \<Longrightarrow> named (jm_set k v m)" "named m \<Longrightarrow> k \<noteq> [] \<Longrightarrow> named (jm_touch k v m)"
  by (auto simp: named_def jm_touch_append dom_update jm_delete_filter dest: set_dropWhileD)

lemma evict_named_length: "named m \<Longrightarrow> length (evict_named n m) \<le> n"
  by (induction n m rule: evict_named.induct) auto

lemma evict_named_named [simp]: "named m \<Longrightarrow> named (evict_named n m)"
  by (induction n m rule: evict_named.induct) auto

lemma expire_linked_spec:
  "named m \<Longrightarrow> named ps \<Longrightarrow> named (fst (expire_linked t m ps)) \<and> named (snd (expire_linked t m ps))"
  by (induction t m ps rule: expire_linked.induct) auto

lemma evict_linked_spec:
  "named m \<Longrightarrow> named ps \<Longrightarrow> named (fst (evict_linked n m ps)) \<and> named (snd (evict_linked n m ps))
     \<and> length (fst (evict_linked n m ps)) \<le> n"
  by (induction n m ps rule: evict_linked.induct) auto

lemma record_walk_spec:
  "named m \<Longrightarrow> named (fst (record_walk d vs c at ps m)) \<and> length (fst (record_walk d vs c at ps m)) \<le> length m + d"
proof (induction d vs c at ps m rule: record_walk.induct)
  case (2 d vs c at ps m)
  have "length (jm_touch k at m) + d \<le> Suc (length m + d)" for k
    using jm_length_touch [of k at m] by simp
  with 2 show ?case by (auto split: option.splits intro: le_trans)
qed simp

definition act_named :: "activity \<Rightarrow> bool" where
  "act_named st \<longleftrightarrow> named (parentBySession st) \<and> named (lastActivityBySession st)
     \<and> named (openPrompts st) \<and> named (runningTools st)"

definition act_small :: "activity \<Rightarrow> bool" where
  "act_small st \<longleftrightarrow> length (parentBySession st) \<le> MAX_TRACKED_SESSIONS
     \<and> length (lastActivityBySession st) \<le> MAX_TRACKED_SESSIONS + MAX_ANCESTRY_DEPTH
     \<and> length (openPrompts st) \<le> MAX_TRACKED_SESSIONS \<and> length (runningTools st) \<le> MAX_TRACKED_SESSIONS"

lemma prune_spec:
  assumes "act_named st"
  shows "act_named (prune now st) \<and> act_small (prune now st)
    \<and> length (lastActivityBySession (prune now st)) \<le> MAX_TRACKED_SESSIONS"
proof -
  let ?o = "now - ACTIVITY_RETENTION_MS"
  let ?e = "expire_linked ?o (lastActivityBySession st) (parentBySession st)"
  let ?v = "evict_linked MAX_TRACKED_SESSIONS (fst ?e) (snd ?e)"
  have n: "named (parentBySession st)" "named (lastActivityBySession st)" "named (openPrompts st)" "named (runningTools st)"
    using assms by (simp_all add: act_named_def)
  have e: "named (fst ?e)" "named (snd ?e)" using expire_linked_spec [OF n(2,1)] by auto
  have v: "named (fst ?v)" "named (snd ?v)" "length (fst ?v) \<le> MAX_TRACKED_SESSIONS"
    using evict_linked_spec [OF e] by auto
  show ?thesis
    using n v by (simp add: act_named_def act_small_def prune_def Let_def split_beta evict_named_length)
qed

lemma recordActivity_spec:
  assumes "act_named st" and "act_small st \<or> s \<noteq> []"
  shows "act_named (recordActivity s at st) \<and> act_small (recordActivity s at st)"
proof (cases "s = []")
  case False
  let ?p = "prune at st"
  let ?w = "record_walk MAX_ANCESTRY_DEPTH [] (Some s) at (parentBySession ?p) (lastActivityBySession ?p)"
  have p: "act_named ?p" "act_small ?p" "length (lastActivityBySession ?p) \<le> MAX_TRACKED_SESSIONS"
    using prune_spec [OF assms(1)] by auto
  have w: "named (fst ?w)" "length (fst ?w) \<le> length (lastActivityBySession ?p) + MAX_ANCESTRY_DEPTH"
    using record_walk_spec p(1) by (auto simp: act_named_def)
  have "act_named (?p\<lparr>lastActivityBySession := fst ?w\<rparr>)" "act_small (?p\<lparr>lastActivityBySession := fst ?w\<rparr>)"
    using p w by (auto simp: act_named_def act_small_def)
  then show ?thesis
    using False prune_spec by (simp add: recordActivity_def Let_def split_beta)
qed (use assms in \<open>simp add: recordActivity_def\<close>)

text \<open>What the host and the provider do with the tracker.\<close>

datatype act_event = ALink string "string option" time | ARecord string time | AQuery string time
  | AOpen string string time | AClose string string time | AStart string string time | AEnd string string time
  | AIdle string time | ARemove string | AClear | APrompt host_value host_value time | ATool host_value host_value time

fun act_step :: "activity \<Rightarrow> act_event \<Rightarrow> activity" where
  "act_step st (ALink s p t) = linkSession s p t st"
| "act_step st (ARecord s t) = recordActivity s t st"
| "act_step st (AQuery s t) = snd (lastActivityAt s t st)"
| "act_step st (AOpen s r t) = openPrompt s r t st"
| "act_step st (AClose s r t) = closePrompt s r t st"
| "act_step st (AStart s c t) = toolStarted s c t st"
| "act_step st (AEnd s c t) = toolEnded s c t st"
| "act_step st (AIdle s t) = endRunningTools s t st"
| "act_step st (ARemove s) = removeSession s st"
| "act_step st AClear = clear_activity st"
| "act_step st (APrompt ty d t) = applyHostPromptEvent ty d t st"
| "act_step st (ATool ty d t) = applyHostToolEvent ty d t st"

definition act_inv :: "activity \<Rightarrow> bool" where
  "act_inv st \<longleftrightarrow> act_named st \<and> act_small st"

lemma act_inv_record [model_inv]: "act_named st \<Longrightarrow> s \<noteq> [] \<Longrightarrow> act_inv (recordActivity s at st)"
  using recordActivity_spec by (simp add: act_inv_def)

lemma nul_key_named [simp]: "nul_key s k \<noteq> []"
  by (simp add: nul_key_def)

lemma act_named_update:
  "act_named st \<Longrightarrow> named m1 \<Longrightarrow> act_named (st\<lparr>openPrompts := m1\<rparr>)"
  "act_named st \<Longrightarrow> named m2 \<Longrightarrow> act_named (st\<lparr>runningTools := m2\<rparr>)"
  "act_named st \<Longrightarrow> named m3 \<Longrightarrow> act_named (st\<lparr>parentBySession := m3\<rparr>)"
  by (simp_all add: act_named_def)

lemma act_inv_named:
  assumes "act_inv st" shows "act_named st" "named (parentBySession st)" "named (openPrompts st)" "named (runningTools st)"
  using assms by (simp_all add: act_inv_def act_named_def)

lemma act_inv_prompt [model_inv]:
  "act_inv st \<Longrightarrow> act_inv (openPrompt s r t st)" "act_inv st \<Longrightarrow> act_inv (closePrompt s r t st)"
  by (simp_all add: openPrompt_def closePrompt_def act_inv_record act_named_update act_inv_named)

lemma act_inv_tool [model_inv]:
  "act_inv st \<Longrightarrow> act_inv (toolStarted s c t st)" "act_inv st \<Longrightarrow> act_inv (toolEnded s c t st)"
  "act_inv st \<Longrightarrow> act_inv (endRunningTools s t st)"
  by (simp_all add: toolStarted_def toolEnded_def endRunningTools_def Let_def act_inv_record act_named_update act_inv_named)

lemma act_inv_link [model_inv]:
  assumes "act_inv st" shows "act_inv (linkSession s p t st)"
proof -
  have n: "act_named (prune t st)" using prune_spec assms by (simp add: act_inv_def)
  then have m: "named (parentBySession (prune t st))" by (simp add: act_named_def)
  have "act_named (linkSession s p t st) \<and> act_small (linkSession s p t st)"
    unfolding linkSession_def Let_def using assms n m
    by (auto simp: act_inv_def split: option.splits
        intro!: prune_spec [THEN conjunct1] prune_spec [THEN conjunct2, THEN conjunct1]
          recordActivity_spec [THEN conjunct1] act_named_update(3))
  then show ?thesis by (simp add: act_inv_def)
qed

lemma act_inv_remove [model_inv]: "act_inv st \<Longrightarrow> act_inv (removeSession s st)"
  by (auto simp: act_inv_def act_named_def act_small_def removeSession_def clearRunningTools_def
      intro: le_trans [OF length_filter_le] le_trans [OF length_delete_le])

lemma act_inv_events [model_inv]:
  "act_inv st \<Longrightarrow> act_inv (applyHostPromptEvent ty d t st)" "act_inv st \<Longrightarrow> act_inv (applyHostToolEvent ty d t st)"
  by (simp_all add: applyHostPromptEvent_def applyHostToolEvent_def Let_def act_inv_prompt act_inv_tool)

lemma act_inv_query [model_inv]:
  "act_inv st \<Longrightarrow> act_inv (recordActivity s t st)" "act_inv st \<Longrightarrow> act_inv (snd (lastActivityAt s t st))"
  by (simp_all add: act_inv_def recordActivity_spec prune_spec lastActivityAt_def Let_def)

lemma act_inv_start: "act_inv createSessionActivityState"
  by (simp add: act_inv_def act_named_def act_small_def createSessionActivityState_def)

lemma act_inv_step: "act_inv st \<Longrightarrow> act_inv (act_step st e)"
  by (cases e) (simp_all add: act_inv_prompt act_inv_tool act_inv_link act_inv_remove act_inv_events clear_activity_def
      act_inv_start act_inv_query)

interpretation act_sys: step_system "\<lambda>st. st = createSessionActivityState" act_step act_inv
  by unfold_locales (simp_all add: act_inv_start act_inv_step)

lemma act_run_inv: "act_inv (foldl act_step createSessionActivityState es)"
proof -
  have "foldl act_step st es = act_sys.run st es" for st
    by (induction es arbitrary: st) auto
  then show ?thesis using act_sys.reachable_inv by metis
qed

text \<open>Whatever events the host sends, the tracker's tables stay bounded: at most 1024 parents, prompts and
  tools, and 1024 activity entries, or 64 more after progress on a cyclic ancestry, which the next
  operation prunes.\<close>

theorem activity_is_bounded:
  "act_small (foldl act_step createSessionActivityState es)"
  using act_run_inv by (simp add: act_inv_def)

lemma latest_deadline_max:
  assumes "latest_deadline mine now cap ts d = Some x"
  shows "(d = Some x \<or> (\<exists>t\<in>set ts. mine t \<and> now < rt_startedAt t + cap \<and> x = rt_startedAt t + cap))
    \<and> (\<forall>t\<in>set ts. mine t \<and> now < rt_startedAt t + cap \<longrightarrow> rt_startedAt t + cap \<le> x) \<and> (\<forall>y. d = Some y \<longrightarrow> y \<le> x)"
  using assms
proof (induction ts arbitrary: d)
  case (Cons t ts)
  from Cons.IH [OF Cons.prems [unfolded latest_deadline.simps]] show ?case
    by (auto split: if_splits option.splits simp: max_def)
qed simp

lemma evict_named_subset: "set (evict_named n m) \<subseteq> set m"
  by (induction n m rule: evict_named.induct) auto

lemma prune_tools: "set (runningTools (prune now st)) \<subseteq> set (runningTools st)"
  using evict_named_subset by (fastforce simp: prune_def Let_def split_beta)

lemma record_tools: "set (runningTools (recordActivity s at st)) \<subseteq> set (runningTools st)"
proof -
  have "set (runningTools (prune at (prune at st\<lparr>lastActivityBySession := m\<rparr>))) \<subseteq> set (runningTools st)" for m
    using prune_tools [of at "prune at st\<lparr>lastActivityBySession := m\<rparr>"] prune_tools [of at st] by auto
  then show ?thesis using prune_tools by (simp add: recordActivity_def Let_def split_beta)
qed

text \<open>A host tool holds a Run only while it is inside its own ceiling: the deadline is always in the
  future, it is the latest start plus the cap among the running tools of the session and its descendants
  that are still inside their cap, and a repeated start of a running tool does not move its start.\<close>

theorem running_tool_ceiling:
  assumes "runningToolDeadline s now cap st = Some d"
  shows "now < d \<and> (\<exists>(k, t) \<in> set (runningTools st). belongsTo (rt_sessionId t) s st \<and> d = rt_startedAt t + cap)
    \<and> (\<forall>(k, t) \<in> set (runningTools st). belongsTo (rt_sessionId t) s st \<longrightarrow> now < rt_startedAt t + cap
         \<longrightarrow> rt_startedAt t + cap \<le> d)
    \<and> (\<forall>s' c at. jm_has (runningTools st) (nul_key s' c) \<longrightarrow>
         set (runningTools (toolStarted s' c at st)) \<subseteq> set (runningTools st))"
proof (intro conjI)
  note * = latest_deadline_max [OF assms [unfolded runningToolDeadline_def]]
  show "now < d" using * by auto
  show "\<exists>(k, t) \<in> set (runningTools st). belongsTo (rt_sessionId t) s st \<and> d = rt_startedAt t + cap"
    using * by force
  show "\<forall>(k, t) \<in> set (runningTools st). belongsTo (rt_sessionId t) s st \<longrightarrow> now < rt_startedAt t + cap
         \<longrightarrow> rt_startedAt t + cap \<le> d"
    using * by force
  show "\<forall>s' c at. jm_has (runningTools st) (nul_key s' c) \<longrightarrow>
         set (runningTools (toolStarted s' c at st)) \<subseteq> set (runningTools st)"
    using record_tools by (simp add: toolStarted_def Let_def)
qed

theorem running_tool_ceiling_witness:
  "(10 :: int) < 17 \<and> set (runningTools (toolStarted ''s'' ''c'' 9 (toolStarted ''s'' ''c'' 7 createSessionActivityState)))
     \<subseteq> set (runningTools (toolStarted ''s'' ''c'' 7 createSessionActivityState))"
proof -
  let ?st = "toolStarted ''s'' ''c'' 7 createSessionActivityState"
  have tools: "runningTools ?st = [(nul_key ''s'' ''c'', \<lparr>rt_sessionId = ''s'', rt_startedAt = 7\<rparr>)]"
    by (simp add: toolStarted_def createSessionActivityState_def recordActivity_def prune_def Let_def
        MAX_ANCESTRY_DEPTH_def eval_nat_numeral MAX_TRACKED_SESSIONS_def ACTIVITY_RETENTION_MS_def jm_touch_def nul_key_def)
  have "runningToolDeadline ''s'' 10 10 ?st = Some 17"
    by (simp add: runningToolDeadline_def tools belongsTo_def MAX_ANCESTRY_DEPTH_def eval_nat_numeral)
  have has: "jm_has (runningTools ?st) (nul_key ''s'' ''c'')" by (simp add: tools)
  from running_tool_ceiling [OF \<open>runningToolDeadline _ _ _ _ = _\<close>] has show ?thesis by blast
qed

end
