(* ===== verification/SessionManager.thy ===== *)
theory SessionManager
  imports Activity
begin

text \<open>
  Held-open Run sessions (\<open>src/src/session.ts\<close>): the continuation policy, the pending execs of each
  Run, and the manager that claims and delivers host results at most once, renews leases from host
  activity, remembers how an exec ended, and closes Runs. Sessions, pending execs and streams are
  compared by identity in the code, so each has a heap and is named by its address. An operation
  reads the clock once: JavaScript runs it without interruption. Asynchronous delivery is split at
  its awaits.
\<close>

section \<open>Continuation policy\<close>

record policy =
  semanticIdleMs :: int
  hardCapMs :: int
  heartbeatMs :: int

definition DEFAULT_CONTINUATION_POLICY :: policy where
  "DEFAULT_CONTINUATION_POLICY = \<lparr>semanticIdleMs = 30000, hardCapMs = 600000, heartbeatMs = 5000\<rparr>"

definition MAX_TIMER_MS :: int where "MAX_TIMER_MS = 2147483647"
definition DEFAULT_TOMBSTONE_TTL_MS :: int where "DEFAULT_TOMBSTONE_TTL_MS = 15 * 60000"
definition DEFAULT_TOMBSTONE_LIMIT :: int where "DEFAULT_TOMBSTONE_LIMIT = 1024"
definition DEFAULT_MAX_OPEN_SESSIONS :: int where "DEFAULT_MAX_OPEN_SESSIONS = 24"
definition MAX_SAFE_INTEGER :: int where "MAX_SAFE_INTEGER = 2 ^ 53 - 1"

text \<open>
  An option's value: a number that is an integer, or something else. Two \<open>JOther\<close> values are the
  same when they are strictly equal; \<open>NaN\<close> is not equal to itself.
\<close>

datatype js_val = JUndefined | JNull | JInt int | JNaN | JOther nat

definition js_strict_eq :: "js_val \<Rightarrow> js_val \<Rightarrow> bool" where
  "js_strict_eq a b \<longleftrightarrow> a = b \<and> a \<noteq> JNaN"

datatype policy_error = OptionsNotAnObject | UnknownOption string | AliasMismatch | BadInteger string
  | HeartbeatTooLong | IdleTooLong

definition positiveInteger :: "string \<Rightarrow> js_val \<Rightarrow> int \<Rightarrow> policy_error + int" where
  "positiveInteger name v fallback =
     (case (if v = JUndefined then JInt fallback else v) of
        JInt n \<Rightarrow> if \<bar>n\<bar> \<le> MAX_SAFE_INTEGER \<and> 0 < n \<and> n \<le> MAX_TIMER_MS then Inr n else Inl (BadInteger name)
      | _ \<Rightarrow> Inl (BadInteger name))"

text \<open>The options argument: absent, not a plain object, or an object's own enumerable properties.\<close>

datatype cont_options = NoOptions | NotAnObject | Options "(string \<times> js_val) list"

definition option_value :: "cont_options \<Rightarrow> string \<Rightarrow> js_val" where
  "option_value options name =
     (case options of Options ps \<Rightarrow> (case map_of ps name of None \<Rightarrow> JUndefined | Some v \<Rightarrow> v) | _ \<Rightarrow> JUndefined)"

definition nullish :: "js_val \<Rightarrow> js_val \<Rightarrow> js_val" where
  "nullish a b = (if a = JUndefined \<or> a = JNull then b else a)"

definition resolveContinuationPolicy :: "cont_options \<Rightarrow> policy_error + policy" where
  "resolveContinuationPolicy options =
     (if options = NotAnObject then Inl OptionsNotAnObject
      else case find (\<lambda>k. k \<notin> {''heartbeatMs'', ''semanticIdleMs'', ''softHealthMs'', ''hardCapMs''})
          (case options of Options ps \<Rightarrow> map fst ps | _ \<Rightarrow> []) of
        Some k \<Rightarrow> Inl (UnknownOption k)
      | None \<Rightarrow>
          (let legacy = option_value options ''softHealthMs'';
               current = option_value options ''semanticIdleMs''
           in if current \<noteq> JUndefined \<and> legacy \<noteq> JUndefined \<and> \<not> js_strict_eq current legacy then Inl AliasMismatch
              else case positiveInteger ''heartbeatMs'' (option_value options ''heartbeatMs'') (heartbeatMs DEFAULT_CONTINUATION_POLICY) of
                Inl e \<Rightarrow> Inl e
              | Inr heartbeat \<Rightarrow>
                  (case positiveInteger ''semanticIdleMs'' (nullish current legacy) (semanticIdleMs DEFAULT_CONTINUATION_POLICY) of
                     Inl e \<Rightarrow> Inl e
                   | Inr semantic \<Rightarrow>
                       (case positiveInteger ''hardCapMs'' (option_value options ''hardCapMs'') (hardCapMs DEFAULT_CONTINUATION_POLICY) of
                          Inl e \<Rightarrow> Inl e
                        | Inr hard \<Rightarrow>
                            if heartbeat \<ge> semantic then Inl HeartbeatTooLong
                            else if semantic > hard then Inl IdleTooLong
                            else Inr \<lparr>semanticIdleMs = semantic, hardCapMs = hard, heartbeatMs = heartbeat\<rparr>))))"

section \<open>State\<close>

datatype pending_state = Pending | Claimed | Delivered

record pending_exec =
  pe_resultField :: string
  pe_state :: pending_state
  pe_registeredAt :: time
  pe_hardDeadlineAt :: time
  pe_toolName :: "string option"
  pe_jobDirectory :: "string option" \<comment> \<open>\<open>resultMetadata.managed_job_directory\<close>, when a string\<close>
  pe_bridged :: bool
  pe_aborted :: bool
  pe_answered :: bool

datatype terminal_reason = HostInterrupted | HardCapExpired | RemoteCleanClose | RemoteError | ResultWriteFailed
  | AmbiguousPartialWrite | HeartbeatWriteFailed | ReplyWriteFailed | ProcessDisposed | SupersededByNewRun
  | OpenSessionCapExceeded

datatype close_reason = Terminal terminal_reason | OrdinaryCleanup | TurnEnded | InitialWriteFailed

datatype tomb_reason = TombDelivered | TombTerminal terminal_reason

record tombstone =
  ts_reason :: tomb_reason
  ts_expiresAt :: time

datatype stream_event = EvCleanClose | EvError nat | EvLocalClose

text \<open>What the manager sees of a bidirectional stream: \<open>isClosed()\<close> and the end it has announced.\<close>

record bidi =
  bs_closed :: bool
  bs_terminal :: "stream_event option"

record billing =
  bl_estimatedUsd :: int
  bl_estimatedOutputTokens :: int
  bl_estimatedReasoningTokens :: int
  bl_ledgerEpoch :: "nat option"

text \<open>
  The fields of a session the manager reads or writes. \<open>ss_runData\<close> says whether any of the retained
  frames and step state (\<open>pendingFrameRead\<close>, \<open>pushbackFrame\<close>, \<open>heldFrames\<close>, \<open>parallelStep\<close>,
  \<open>priorParallelStepCallIds\<close>, \<open>stepOrder\<close>) is set, \<open>ss_turnData\<close> the same for \<open>displayToolCalls\<close>,
  \<open>mirroredTodos\<close> and \<open>blobs\<close>; timers are the time they fire at.
\<close>

record session =
  ss_sessionId :: string
  ss_openCodeSessionId :: "string option"
  ss_stoppedWithSessionId :: "string option"
  ss_runId :: "string option"
  ss_stream :: nat
  ss_terminalSubscription :: "nat option"
  ss_deferredTerminalReason :: "terminal_reason option"
  ss_pending :: "(int, nat) jsmap"
  ss_pumpOwner :: "nat option"
  ss_pumpActive :: bool
  ss_heartbeat :: bool
  ss_hardDeadlineTimer :: "time option"
  ss_semanticDeadline :: bool
  ss_policy :: policy
  ss_createdAt :: time
  ss_lastInboundAt :: time
  ss_lastHeartbeatWriteAt :: time
  ss_semanticDeadlineAt :: time
  ss_closeError :: "nat option"
  ss_closed :: bool
  ss_hostInterrupted :: bool
  ss_answeredContinuation :: bool
  ss_billing :: billing
  ss_runData :: bool
  ss_turnData :: bool

type_synonym exec_key = "string \<times> int"

text \<open>
  The manager and the objects it can reach. \<open>${sessionId}:${execId}\<close> names its two parts uniquely, since
  the number follows the last colon, and is kept as the pair.
\<close>

record manager =
  sm_now :: time
  sm_sessionHeap :: "session list"
  sm_pendingHeap :: "pending_exec list"
  sm_streamHeap :: "bidi list"
  sm_delivering :: "nat list"
  sm_byExecId :: "(exec_key, nat) jsmap"
  sm_sessions :: "nat list"
  sm_byOpenCodeSessionId :: "(string, nat) jsmap"
  sm_tombstones :: "(exec_key, tombstone) jsmap"
  sm_toolCallRoutes :: "(string, exec_key) jsmap"
  sm_activitySource :: activity
  sm_tombstoneTtlMs :: int
  sm_tombstoneLimit :: nat
  sm_maxOpenSessions :: nat
  sm_releasedTerminals :: "string list"

datatype manager_error = ClosedRegistration | ClosedPending | PumpBusy | ClosedReplace

abbreviation sess :: "manager \<Rightarrow> nat \<Rightarrow> session" where
  "sess st a \<equiv> sm_sessionHeap st ! a"

abbreviation pend :: "manager \<Rightarrow> nat \<Rightarrow> pending_exec" where
  "pend st p \<equiv> sm_pendingHeap st ! p"

definition upd_sess :: "nat \<Rightarrow> (session \<Rightarrow> session) \<Rightarrow> manager \<Rightarrow> manager" where
  "upd_sess a f st = st\<lparr>sm_sessionHeap := (sm_sessionHeap st)[a := f (sess st a)]\<rparr>"

definition upd_pend :: "nat \<Rightarrow> (pending_exec \<Rightarrow> pending_exec) \<Rightarrow> manager \<Rightarrow> manager" where
  "upd_pend p f st = st\<lparr>sm_pendingHeap := (sm_pendingHeap st)[p := f (pend st p)]\<rparr>"

text \<open>\<open>stream.destroy()\<close>: a stream closed locally announces nothing else.\<close>

definition destroy_stream :: "nat \<Rightarrow> manager \<Rightarrow> manager" where
  "destroy_stream x st = st\<lparr>sm_streamHeap := (sm_streamHeap st)[x := \<lparr>bs_closed = True,
     bs_terminal = (case bs_terminal (sm_streamHeap st ! x) of None \<Rightarrow> Some EvLocalClose | Some e \<Rightarrow> Some e)\<rparr>]\<rparr>"

definition exec_key :: "string \<Rightarrow> int \<Rightarrow> exec_key" where
  "exec_key sessionId execId = (sessionId, execId)"

definition stoppedWith :: "session \<Rightarrow> string option" where
  "stoppedWith s = (case ss_stoppedWithSessionId s of None \<Rightarrow> ss_openCodeSessionId s | Some i \<Rightarrow> Some i)"

section \<open>Tombstones\<close>

definition getTombstone :: "exec_key \<Rightarrow> manager \<Rightarrow> tombstone option \<times> manager" where
  "getTombstone key st =
     (case jm_get (sm_tombstones st) key of
        None \<Rightarrow> (None, st)
      | Some t \<Rightarrow> if sm_now st \<ge> ts_expiresAt t
          then (None, st\<lparr>sm_tombstones := jm_delete key (sm_tombstones st)\<rparr>) else (Some t, st))"

definition putTombstone :: "exec_key \<Rightarrow> tomb_reason \<Rightarrow> manager \<Rightarrow> manager" where
  "putTombstone key reason st =
     st\<lparr>sm_tombstones := jm_put (sm_tombstoneLimit st) key
          \<lparr>ts_reason = reason, ts_expiresAt = sm_now st + sm_tombstoneTtlMs st\<rparr> (sm_tombstones st)\<rparr>"

definition isTerminalReason :: "close_reason \<Rightarrow> bool" where
  "isTerminalReason reason \<longleftrightarrow> reason \<notin> {OrdinaryCleanup, TurnEnded, InitialWriteFailed}"

section \<open>Leases\<close>

text \<open>\<open>!session.openCodeSessionId\<close>: absent or empty.\<close>

definition host_session :: "session \<Rightarrow> string option" where
  "host_session s = (case ss_openCodeSessionId s of None \<Rightarrow> None | Some i \<Rightarrow> if i = [] then None else Some i)"

definition renewed_lease :: "time \<Rightarrow> time option \<Rightarrow> time option \<Rightarrow> int \<Rightarrow> pending_exec \<Rightarrow> time" where
  "renewed_lease now toolCapAt activityAt cap pending =
     (let d1 = (case activityAt of None \<Rightarrow> pe_hardDeadlineAt pending
            | Some t \<Rightarrow> if t > pe_registeredAt pending \<and> t + cap > pe_hardDeadlineAt pending
                then t + cap else pe_hardDeadlineAt pending)
      in (case toolCapAt of None \<Rightarrow> d1
            | Some c \<Rightarrow> if min (now + cap) c > d1 then min (now + cap) c else d1))"

definition refreshHardDeadline :: "nat \<Rightarrow> nat \<Rightarrow> manager \<Rightarrow> time \<times> manager" where
  "refreshHardDeadline a p st =
     (case host_session (sess st a) of
        None \<Rightarrow> (pe_hardDeadlineAt (pend st p), st)
      | Some i \<Rightarrow>
          (let now = sm_now st;
               toolCapAt = runningToolDeadline i now RUNNING_TOOL_CAP_MS (sm_activitySource st);
               (activityAt, source) = lastActivityAt i now (sm_activitySource st);
               deadline = renewed_lease now toolCapAt activityAt (hardCapMs (ss_policy (sess st a))) (pend st p)
           in (deadline, upd_pend p (\<lambda>x. x\<lparr>pe_hardDeadlineAt := deadline\<rparr>) (st\<lparr>sm_activitySource := source\<rparr>))))"

definition hardDeadlineExpired :: "nat \<Rightarrow> nat \<Rightarrow> manager \<Rightarrow> bool \<times> manager" where
  "hardDeadlineExpired a p st =
     (let (deadline, st1) = refreshHardDeadline a p st in (sm_now st \<ge> deadline, st1))"

fun refresh_all :: "nat \<Rightarrow> nat list \<Rightarrow> manager \<Rightarrow> time list \<times> manager" where
  "refresh_all a [] st = ([], st)"
| "refresh_all a (p # ps) st =
     (let (d, st1) = refreshHardDeadline a p st; (ds, st2) = refresh_all a ps st1 in (d # ds, st2))"

definition scheduleHardDeadline :: "nat \<Rightarrow> manager \<Rightarrow> manager" where
  "scheduleHardDeadline a st =
     (let st1 = upd_sess a (\<lambda>s. s\<lparr>ss_hardDeadlineTimer := None\<rparr>) st
      in if ss_closed (sess st1 a) \<or> ss_pending (sess st1 a) = [] then st1
         else (let (ds, st2) = refresh_all a (map snd (ss_pending (sess st1 a))) st1;
                   earliest = Min (set ds); delayMs = max 0 (earliest - sm_now st2)
               in upd_sess a (\<lambda>s. s\<lparr>ss_hardDeadlineTimer := Some (sm_now st2 + delayMs)\<rparr>) st2))"

definition recordSemanticProgress :: "nat \<Rightarrow> time option \<Rightarrow> manager \<Rightarrow> manager" where
  "recordSemanticProgress a at st =
     (if ss_closed (sess st a) then st
      else (let now = (case at of None \<Rightarrow> sm_now st | Some t \<Rightarrow> t)
            in upd_sess a (\<lambda>s. s\<lparr>ss_lastInboundAt := now, ss_semanticDeadlineAt := now + semanticIdleMs (ss_policy s)\<rparr>) st))"

definition recordHeartbeatWrite :: "nat \<Rightarrow> manager \<Rightarrow> manager" where
  "recordHeartbeatWrite a st =
     (if ss_closed (sess st a) then st else upd_sess a (\<lambda>s. s\<lparr>ss_lastHeartbeatWriteAt := sm_now st\<rparr>) st)"

section \<open>Closing a Run\<close>

text \<open>\<open>releaseUnstartedTerminal\<close> of a pending exec's job directory, when it has one.\<close>

definition release_terminal :: "nat \<Rightarrow> manager \<Rightarrow> manager" where
  "release_terminal p st =
     (case pe_jobDirectory (pend st p) of None \<Rightarrow> st
      | Some d \<Rightarrow> st\<lparr>sm_releasedTerminals := sm_releasedTerminals st @ [d]\<rparr>)"

fun close_pendings :: "string \<Rightarrow> close_reason \<Rightarrow> (int \<times> nat) list \<Rightarrow> manager \<Rightarrow> manager" where
  "close_pendings sid reason [] st = st"
| "close_pendings sid reason ((execId, p) # ps) st =
     (let st1 = release_terminal p st; key = exec_key sid execId;
          st2 = st1\<lparr>sm_byExecId := jm_delete key (sm_byExecId st1)\<rparr>;
          st3 = (case reason of
                   Terminal r \<Rightarrow> if isTerminalReason reason then putTombstone key (TombTerminal r) st2 else st2
                 | _ \<Rightarrow> st2)
      in close_pendings sid reason ps st3)"

definition closed_session :: "nat option \<Rightarrow> session \<Rightarrow> session" where
  "closed_session err s = s\<lparr>ss_closed := True,
     ss_closeError := (case err of None \<Rightarrow> ss_closeError s | Some e \<Rightarrow> Some e),
     ss_heartbeat := False, ss_hardDeadlineTimer := None, ss_semanticDeadline := False,
     ss_terminalSubscription := None, ss_deferredTerminalReason := None, ss_pending := [],
     ss_runData := False, ss_turnData := False, ss_pumpOwner := None, ss_pumpActive := False\<rparr>"

definition closeSession :: "nat \<Rightarrow> close_reason \<Rightarrow> nat option \<Rightarrow> manager \<Rightarrow> manager" where
  "closeSession a reason err st =
     (let s = sess st a in
      if ss_closed s then st
      else (let st1 = close_pendings (ss_sessionId s) reason (ss_pending s) st;
                st2 = upd_sess a (closed_session err) st1;
                st3 = st2\<lparr>sm_sessions := removeAll a (sm_sessions st2)\<rparr>;
                st4 = (case host_session s of None \<Rightarrow> st3
                   | Some i \<Rightarrow> if jm_get (sm_byOpenCodeSessionId st3) i = Some a
                       then st3\<lparr>sm_byOpenCodeSessionId := jm_delete i (sm_byOpenCodeSessionId st3)\<rparr> else st3)
            in destroy_stream (ss_stream s) st4))"

definition isPumping :: "session \<Rightarrow> bool" where
  "isPumping s \<longleftrightarrow> ss_pumpOwner s \<noteq> None \<or> ss_pumpActive s"

definition closeUnlessPending :: "nat \<Rightarrow> manager \<Rightarrow> bool \<times> manager" where
  "closeUnlessPending a st =
     (if ss_closed (sess st a) then (True, st)
      else if ss_pending (sess st a) \<noteq> [] \<or> isPumping (sess st a) then (False, st)
      else (True, closeSession a OrdinaryCleanup None st))"

text \<open>Every open Run is closed, in registration order; the tables of execs and routes are emptied.\<close>

definition dispose :: "manager \<Rightarrow> manager" where
  "dispose st =
     (let st1 = fold (\<lambda>a st. closeSession a (Terminal ProcessDisposed) None st) (sm_sessions st) st
      in st1\<lparr>sm_byExecId := [], sm_toolCallRoutes := []\<rparr>)"

text \<open>\<open>some\<close> stops at the first expired exec; the leases it looked at are renewed.\<close>

fun some_expired :: "nat \<Rightarrow> nat list \<Rightarrow> manager \<Rightarrow> bool \<times> manager" where
  "some_expired a [] st = (False, st)"
| "some_expired a (p # ps) st =
     (let (expired, st1) = hardDeadlineExpired a p st
      in if expired then (True, st1) else some_expired a ps st1)"

definition sweep_session :: "nat \<Rightarrow> manager \<Rightarrow> manager" where
  "sweep_session a st =
     (if ss_closed (sess st a) then st
      else (let (expired, st1) = some_expired a (map snd (ss_pending (sess st a))) st
            in if expired then closeSession a (Terminal HardCapExpired) None st1 else st1))"

definition sweepHardDeadlines :: "manager \<Rightarrow> manager" where
  "sweepHardDeadlines st = fold sweep_session (sm_sessions st) st"

text \<open>The callback of the timer \<open>scheduleHardDeadline\<close> sets.\<close>

definition hard_deadline_fires :: "nat \<Rightarrow> manager \<Rightarrow> manager" where
  "hard_deadline_fires a st =
     (let st1 = upd_sess a (\<lambda>s. s\<lparr>ss_hardDeadlineTimer := None\<rparr>) st
      in if ss_closed (sess st1 a) then st1
         else (let (expired, st2) = some_expired a (map snd (ss_pending (sess st1 a))) st1
               in if expired then closeSession a (Terminal HardCapExpired) None st2 else scheduleHardDeadline a st2))"

section \<open>The end of a stream\<close>

definition holdsOnlyAnsweredWork :: "nat \<Rightarrow> manager \<Rightarrow> bool" where
  "holdsOnlyAnsweredWork a st =
     (let s = sess st a in
      if ss_hostInterrupted s then False
      else if ss_pending s = [] then ss_answeredContinuation s
      else list_all (\<lambda>(_, p). pe_answered (pend st p)) (ss_pending s))"

definition holdAfterCleanClose :: "nat \<Rightarrow> manager \<Rightarrow> manager" where
  "holdAfterCleanClose a st =
     upd_sess a (\<lambda>s. s\<lparr>ss_deferredTerminalReason := Some RemoteCleanClose, ss_heartbeat := False\<rparr>) st"

definition onStreamTerminal :: "nat \<Rightarrow> stream_event \<Rightarrow> manager \<Rightarrow> manager" where
  "onStreamTerminal a event st =
     (if event = EvLocalClose \<or> ss_closed (sess st a) then st
      else (let err = (case event of EvError e \<Rightarrow> Some e | _ \<Rightarrow> None);
                reason = (case event of EvError e \<Rightarrow> RemoteError | _ \<Rightarrow> RemoteCleanClose);
                st1 = (case err of None \<Rightarrow> st | Some e \<Rightarrow> upd_sess a (\<lambda>s. s\<lparr>ss_closeError := Some e\<rparr>) st)
            in if reason = RemoteCleanClose \<and> ss_pumpOwner (sess st1 a) = None \<and> holdsOnlyAnsweredWork a st1
               then holdAfterCleanClose a st1
               else if ss_pumpOwner (sess st1 a) \<noteq> None \<or> ss_hostInterrupted (sess st1 a)
               then upd_sess a (\<lambda>s. s\<lparr>ss_deferredTerminalReason := Some reason\<rparr>) st1
               else closeSession a (Terminal reason) err st1))"

text \<open>A stream that has ended calls a new listener at once; there is then nothing to unsubscribe from.\<close>

definition subscribeTerminal :: "nat \<Rightarrow> manager \<Rightarrow> manager" where
  "subscribeTerminal a st =
     (let boundStream = ss_stream (sess st a)
      in case bs_terminal (sm_streamHeap st ! boundStream) of
           Some event \<Rightarrow>
             (let st1 = onStreamTerminal a event st
              in if ss_closed (sess st1 a) then st1 else upd_sess a (\<lambda>s. s\<lparr>ss_terminalSubscription := None\<rparr>) st1)
         | None \<Rightarrow> if ss_closed (sess st a) then st
             else upd_sess a (\<lambda>s. s\<lparr>ss_terminalSubscription := Some boundStream\<rparr>) st)"

text \<open>A stream ends: the one session listening to it is told, if it still uses the stream.\<close>

definition stream_ends :: "nat \<Rightarrow> stream_event \<Rightarrow> manager \<Rightarrow> manager" where
  "stream_ends x event st =
     (case bs_terminal (sm_streamHeap st ! x) of
        Some _ \<Rightarrow> st
      | None \<Rightarrow>
          (let st1 = st\<lparr>sm_streamHeap := (sm_streamHeap st)[x := \<lparr>bs_closed = True, bs_terminal = Some event\<rparr>]\<rparr>
           in fold (\<lambda>a st. if ss_terminalSubscription (sess st a) = Some x \<and> ss_stream (sess st a) = x
                 then onStreamTerminal a event st else st) (sm_sessions st1) st1))"

section \<open>Pending execs\<close>

fun drop_pendings :: "string \<Rightarrow> tomb_reason \<Rightarrow> (int \<times> nat) list \<Rightarrow> manager \<Rightarrow> manager" where
  "drop_pendings sid reason [] st = st"
| "drop_pendings sid reason ((execId, p) # ps) st =
     (let st1 = release_terminal p st; key = exec_key sid execId;
          st2 = st1\<lparr>sm_byExecId := jm_delete key (sm_byExecId st1)\<rparr>
      in drop_pendings sid reason ps (putTombstone key reason st2))"

definition abandonPending :: "nat \<Rightarrow> manager \<Rightarrow> nat \<times> manager" where
  "abandonPending a st =
     (let s = sess st a in
      if ss_closed s then (0, st)
      else (let st1 = drop_pendings (ss_sessionId s) (TombTerminal HostInterrupted) (ss_pending s) st;
                st2 = upd_sess a (\<lambda>s. s\<lparr>ss_pending := []\<rparr>) st1
            in (length (ss_pending s), scheduleHardDeadline a st2)))"

text \<open>The exec of \<open>a\<close> is no longer pending.\<close>

definition remove_pending :: "nat \<Rightarrow> int \<Rightarrow> manager \<Rightarrow> manager" where
  "remove_pending a execId st =
     (let st1 = upd_sess a (\<lambda>s. s\<lparr>ss_pending := jm_delete execId (ss_pending s)\<rparr>) st
      in st1\<lparr>sm_byExecId := jm_delete (exec_key (ss_sessionId (sess st a)) execId) (sm_byExecId st1)\<rparr>)"

definition forgetHeldExec :: "nat \<Rightarrow> int \<Rightarrow> nat option \<Rightarrow> manager \<Rightarrow> bool \<times> manager" where
  "forgetHeldExec a execId pending st =
     (case jm_get (ss_pending (sess st a)) execId of
        None \<Rightarrow> (False, st)
      | Some p \<Rightarrow>
          if ss_closed (sess st a) \<or> Some p \<noteq> pending \<or> pe_state (pend st p) \<noteq> Pending \<or> pe_aborted (pend st p)
          then (False, st)
          else (let st1 = remove_pending a execId st;
                    st2 = (if ss_pending (sess st1 a) = [] then recordSemanticProgress a None st1 else st1)
                in (True, scheduleHardDeadline a st2)))"

definition markExecAborted :: "nat \<Rightarrow> int \<Rightarrow> manager \<Rightarrow> bool \<times> manager" where
  "markExecAborted a execId st =
     (case jm_get (ss_pending (sess st a)) execId of
        None \<Rightarrow> (False, st)
      | Some p \<Rightarrow>
          if ss_closed (sess st a) \<or> pe_bridged (pend st p) \<or> pe_aborted (pend st p) \<or> pe_answered (pend st p)
             \<or> pe_state (pend st p) \<noteq> Pending
          then (False, st)
          else (True, upd_pend p (\<lambda>x. x\<lparr>pe_aborted := True\<rparr>) st))"

text \<open>An exec whose result Cursor does not wait for and nobody is writing.\<close>

definition settleable :: "pending_exec \<Rightarrow> bool" where
  "settleable x \<longleftrightarrow> (pe_bridged x \<or> pe_aborted x \<or> pe_answered x) \<and> pe_state x \<noteq> Claimed"

fun settle_pendings :: "nat \<Rightarrow> (int \<times> nat) list \<Rightarrow> manager \<Rightarrow> nat \<times> manager" where
  "settle_pendings a [] st = (0, st)"
| "settle_pendings a ((execId, p) # ps) st =
     (if settleable (pend st p)
      then (let st1 = putTombstone (exec_key (ss_sessionId (sess st a)) execId) TombDelivered st;
                (n, st2) = settle_pendings a ps (remove_pending a execId st1)
            in (Suc n, st2))
      else settle_pendings a ps st)"

definition settleBridgedPending :: "nat \<Rightarrow> manager \<Rightarrow> nat \<times> manager" where
  "settleBridgedPending a st =
     (if ss_closed (sess st a) then (0, st)
      else (let (settled, st1) = settle_pendings a (ss_pending (sess st a)) st
            in if settled > 0
               then (let st2 = (if ss_pending (sess st1 a) = [] then recordSemanticProgress a None st1 else st1)
                     in (settled, scheduleHardDeadline a st2))
               else (settled, st1)))"

section \<open>Registration\<close>

text \<open>A session the cap may close: not the newest one, not being read, owing the host nothing live.\<close>

definition evictable :: "nat \<Rightarrow> nat \<Rightarrow> manager \<Rightarrow> bool" where
  "evictable justRegistered a st \<longleftrightarrow> a \<noteq> justRegistered \<and> \<not> isPumping (sess st a)
     \<and> list_all (\<lambda>(_, p). pe_aborted (pend st p)) (ss_pending (sess st a))"

fun oldest_of :: "(nat \<Rightarrow> time) \<Rightarrow> nat list \<Rightarrow> nat option \<Rightarrow> nat option" where
  "oldest_of created [] oldest = oldest"
| "oldest_of created (a # as) oldest =
     oldest_of created as
       (case oldest of None \<Rightarrow> Some a | Some b \<Rightarrow> if created a < created b then Some a else Some b)"

definition oldest_idle :: "nat \<Rightarrow> manager \<Rightarrow> nat option" where
  "oldest_idle justRegistered st =
     oldest_of (\<lambda>a. ss_createdAt (sess st a)) (filter (\<lambda>a. evictable justRegistered a st) (sm_sessions st)) None"

text \<open>The loop closes one open session each turn, so as many turns as sessions are enough.\<close>

fun cap_loop :: "nat \<Rightarrow> nat \<Rightarrow> manager \<Rightarrow> manager" where
  "cap_loop 0 justRegistered st = st"
| "cap_loop (Suc n) justRegistered st =
     (if length (sm_sessions st) > sm_maxOpenSessions st
      then (case oldest_idle justRegistered st of
              None \<Rightarrow> st
            | Some oldest \<Rightarrow> cap_loop n justRegistered (closeSession oldest (Terminal OpenSessionCapExceeded) None st))
      else st)"

definition enforceOpenSessionCap :: "nat \<Rightarrow> manager \<Rightarrow> manager" where
  "enforceOpenSessionCap justRegistered st = cap_loop (length (sm_sessions st)) justRegistered st"

text \<open>What a newer Run of the same host session does to the prior one.\<close>

definition supersede :: "nat \<Rightarrow> manager \<Rightarrow> manager" where
  "supersede prior st =
     (if isPumping (sess st prior) then st
      else (let st1 = snd (settleBridgedPending prior st)
            in if ss_pending (sess st1 prior) \<noteq> [] then st1
               else closeSession prior (Terminal SupersededByNewRun) None st1))"

definition registerSession :: "nat \<Rightarrow> manager \<Rightarrow> manager_error option \<times> manager" where
  "registerSession a st =
     (if ss_closed (sess st a) then (Some ClosedRegistration, st)
      else if a \<in> set (sm_sessions st) then (None, st)
      else (let st1 = st\<lparr>sm_sessions := sm_sessions st @ [a]\<rparr>;
                st2 = (case host_session (sess st a) of
                    None \<Rightarrow> st1
                  | Some i \<Rightarrow>
                      (let st' = (case jm_get (sm_byOpenCodeSessionId st1) i of
                           None \<Rightarrow> st1
                         | Some prior \<Rightarrow> if prior \<noteq> a \<and> \<not> ss_closed (sess st1 prior) then supersede prior st1 else st1)
                       in st'\<lparr>sm_byOpenCodeSessionId := jm_set i a (sm_byOpenCodeSessionId st')\<rparr>))
            in (None, subscribeTerminal a (enforceOpenSessionCap a st2))))"

definition findOpenByOpenCodeSessionId :: "string option \<Rightarrow> manager \<Rightarrow> nat option" where
  "findOpenByOpenCodeSessionId i st =
     (case i of None \<Rightarrow> None
      | Some k \<Rightarrow> if k = [] then None
          else (case jm_get (sm_byOpenCodeSessionId st) k of None \<Rightarrow> None
                  | Some a \<Rightarrow> if ss_closed (sess st a) then None else Some a))"

definition openSessionsStoppedWith :: "string option \<Rightarrow> manager \<Rightarrow> nat list" where
  "openSessionsStoppedWith i st =
     filter (\<lambda>a. \<not> ss_closed (sess st a) \<and> (i = None \<or> stoppedWith (sess st a) = i)) (sm_sessions st)"

definition registerPending :: "int \<Rightarrow> nat \<Rightarrow> string \<Rightarrow> string option \<Rightarrow> bool \<Rightarrow> string option \<Rightarrow> bool
    \<Rightarrow> manager \<Rightarrow> manager_error option \<times> manager" where
  "registerPending execId a resultField toolName bridged jobDirectory answered st =
     (case registerSession a st of
        (Some e, st1) \<Rightarrow> (Some e, st1)
      | (None, st1) \<Rightarrow>
          if ss_closed (sess st1 a) then (Some ClosedPending, st1)
          else (let key = exec_key (ss_sessionId (sess st1 a)) execId; p = length (sm_pendingHeap st1);
                    st2 = st1\<lparr>sm_tombstones := jm_delete key (sm_tombstones st1),
                      sm_pendingHeap := sm_pendingHeap st1 @
                        [\<lparr>pe_resultField = resultField, pe_state = Pending, pe_registeredAt = sm_now st1,
                          pe_hardDeadlineAt = sm_now st1 + hardCapMs (ss_policy (sess st1 a)), pe_toolName = toolName,
                          pe_jobDirectory = jobDirectory, pe_bridged = bridged, pe_aborted = False,
                          pe_answered = answered\<rparr>]\<rparr>;
                    st3 = upd_sess a (\<lambda>s. s\<lparr>ss_pending := jm_set execId p (ss_pending s)\<rparr>) st2;
                    st4 = st3\<lparr>sm_byExecId := jm_set key a (sm_byExecId st3)\<rparr>
                in (None, scheduleHardDeadline a st4)))"

definition pendingFor :: "string \<Rightarrow> int \<Rightarrow> manager \<Rightarrow> nat option" where
  "pendingFor sessionId execId st =
     (case jm_get (sm_byExecId st) (exec_key sessionId execId) of
        None \<Rightarrow> None | Some a \<Rightarrow> jm_get (ss_pending (sess st a)) execId)"

section \<open>Claiming and delivering a result\<close>

datatype duplicate_reason = InFlight | AlreadyDelivered

datatype classification = Deliverable nat nat | Duplicate duplicate_reason | Terminated terminal_reason | Missing

definition classify_tombstone :: "exec_key \<Rightarrow> manager \<Rightarrow> classification \<times> manager" where
  "classify_tombstone key st =
     (case getTombstone key st of
        (None, st1) \<Rightarrow> (Missing, st1)
      | (Some t, st1) \<Rightarrow>
          (case ts_reason t of TombDelivered \<Rightarrow> (Duplicate AlreadyDelivered, st1) | TombTerminal r \<Rightarrow> (Terminated r, st1)))"

text \<open>The legacy \<open>expiresAt\<close> field is on no session of this program.\<close>

definition classify :: "string \<Rightarrow> int \<Rightarrow> manager \<Rightarrow> classification \<times> manager" where
  "classify sessionId execId st =
     (let key = exec_key sessionId execId in
      case jm_get (sm_byExecId st) key of
        None \<Rightarrow> classify_tombstone key st
      | Some a \<Rightarrow>
          (case jm_get (ss_pending (sess st a)) execId of
             None \<Rightarrow>
               (let st1 = st\<lparr>sm_byExecId := jm_delete key (sm_byExecId st)\<rparr>
                in classify_tombstone key (if ss_closed (sess st1 a) then st1
                     else closeSession a (Terminal RemoteCleanClose) None st1))
           | Some p \<Rightarrow>
               if ss_closed (sess st a) \<or> (bs_closed (sm_streamHeap st ! ss_stream (sess st a)) \<and> \<not> pe_answered (pend st p))
               then (let st1 = st\<lparr>sm_byExecId := jm_delete key (sm_byExecId st)\<rparr>
                     in classify_tombstone key (if ss_closed (sess st1 a) then st1
                          else closeSession a (Terminal RemoteCleanClose) None st1))
               else (case hardDeadlineExpired a p st of
                   (True, st1) \<Rightarrow> classify_tombstone key (closeSession a (Terminal HardCapExpired) None st1)
                 | (False, st1) \<Rightarrow>
                     (case pe_state (pend st1 p) of
                        Pending \<Rightarrow> (Deliverable a p, st1)
                      | Claimed \<Rightarrow> (Duplicate InFlight, st1)
                      | Delivered \<Rightarrow> (Duplicate AlreadyDelivered, st1)))))"

record claim =
  cl_session :: nat
  cl_execId :: int
  cl_pending :: nat

definition claim_exec :: "string \<Rightarrow> int \<Rightarrow> manager \<Rightarrow> (classification + claim) \<times> manager" where
  "claim_exec sessionId execId st =
     (case classify sessionId execId st of
        (Deliverable a p, st1) \<Rightarrow>
          (Inr \<lparr>cl_session = a, cl_execId = execId, cl_pending = p\<rparr>, upd_pend p (\<lambda>x. x\<lparr>pe_state := Claimed\<rparr>) st1)
      | (c, st1) \<Rightarrow> (Inl c, st1))"

datatype outcome = OutDelivered nat | OutDuplicate duplicate_reason nat | OutTerminal terminal_reason nat | OutMissing nat

text \<open>\<open>unavailable(framesWritten)\<close>: nothing while the claim still owns its exec.\<close>

definition unavailable :: "claim \<Rightarrow> nat \<Rightarrow> manager \<Rightarrow> outcome option \<times> manager" where
  "unavailable cl framesWritten st =
     (let a = cl_session cl; s = sess st a in
      if \<not> ss_closed s \<and> jm_get (sm_byExecId st) (exec_key (ss_sessionId s) (cl_execId cl)) = Some a
         \<and> jm_get (ss_pending s) (cl_execId cl) = Some (cl_pending cl)
      then (None, st)
      else (case classify (ss_sessionId s) (cl_execId cl) st of
          (Duplicate r, st1) \<Rightarrow> (Some (OutDuplicate r framesWritten), st1)
        | (Terminated r, st1) \<Rightarrow> (Some (OutTerminal r framesWritten), st1)
        | (_, st1) \<Rightarrow> (Some (OutMissing framesWritten), st1)))"

text \<open>
  A delivery between two of its awaits: the claim, the frames not yet written and the number written.
  \<open>deliver_begin\<close> runs up to the first write, \<open>deliver_written\<close> continues after a write that
  succeeded, \<open>deliver_failed\<close> after one that threw (\<open>accepted\<close>: the bytes were buffered).
\<close>

record delivery =
  dl_claim :: claim
  dl_left :: nat
  dl_written :: nat

definition deliver_catch :: "claim \<Rightarrow> nat \<Rightarrow> manager \<Rightarrow> outcome \<times> manager" where
  "deliver_catch cl framesWritten st =
     (case unavailable cl framesWritten st of
        (Some o', st1) \<Rightarrow> (o', st1)
      | (None, st1) \<Rightarrow>
          (let reason = (if framesWritten = 0 then ResultWriteFailed else AmbiguousPartialWrite)
           in (OutTerminal reason framesWritten, closeSession (cl_session cl) (Terminal reason) None st1)))"

definition deliver_finish :: "claim \<Rightarrow> nat \<Rightarrow> manager \<Rightarrow> outcome \<times> manager" where
  "deliver_finish cl framesWritten st =
     (let a = cl_session cl; p = cl_pending cl;
          st1 = upd_pend p (\<lambda>x. x\<lparr>pe_state := Delivered\<rparr>) st;
          st2 = (if pe_answered (pend st1 p) then upd_sess a (\<lambda>s. s\<lparr>ss_answeredContinuation := True\<rparr>) st1 else st1);
          st3 = putTombstone (exec_key (ss_sessionId (sess st2 a)) (cl_execId cl)) TombDelivered st2;
          st4 = remove_pending a (cl_execId cl) st3;
          st5 = (if ss_pending (sess st4 a) = [] then recordSemanticProgress a None st4 else st4)
      in (OutDelivered framesWritten, scheduleHardDeadline a st5))"

definition deliver_begin :: "claim \<Rightarrow> nat \<Rightarrow> bool \<Rightarrow> manager \<Rightarrow> (outcome + delivery) \<times> manager" where
  "deliver_begin cl frames replyDeferred st =
     (case unavailable cl 0 st of
        (Some o', st1) \<Rightarrow> (Inl o', st1)
      | (None, st1) \<Rightarrow>
          (let p = cl_pending cl; a = cl_session cl in
           if pe_state (pend st1 p) \<noteq> Claimed \<or> p \<in> set (sm_delivering st1)
           then (Inl (OutDuplicate (if pe_state (pend st1 p) = Delivered then AlreadyDelivered else InFlight) 0), st1)
           else (case hardDeadlineExpired a p st1 of
               (True, st2) \<Rightarrow> (Inl (OutTerminal HardCapExpired 0), closeSession a (Terminal HardCapExpired) None st2)
             | (False, st2) \<Rightarrow>
                 (let st3 = st2\<lparr>sm_delivering := p # sm_delivering st2\<rparr>; x = pend st3 p in
                  if \<not> pe_bridged x \<and> \<not> pe_aborted x \<and> \<not> pe_answered x \<and> frames = 0 \<and> \<not> replyDeferred
                  then (let (o', st4) = deliver_catch cl 0 st3 in (Inl o', st4))
                  else if frames = 0 then (let (o', st4) = deliver_finish cl 0 st3 in (Inl o', st4))
                  else (Inr \<lparr>dl_claim = cl, dl_left = frames, dl_written = 0\<rparr>, st3)))))"

definition deliver_written :: "delivery \<Rightarrow> manager \<Rightarrow> (outcome + delivery) \<times> manager" where
  "deliver_written d st =
     (let n = Suc (dl_written d)
      in case unavailable (dl_claim d) n st of
           (Some o', st1) \<Rightarrow> (Inl o', st1)
         | (None, st1) \<Rightarrow>
             if dl_left d \<le> 1 then (let (o', st2) = deliver_finish (dl_claim d) n st1 in (Inl o', st2))
             else (Inr (d\<lparr>dl_left := dl_left d - 1, dl_written := n\<rparr>), st1))"

definition deliver_failed :: "delivery \<Rightarrow> bool \<Rightarrow> manager \<Rightarrow> outcome \<times> manager" where
  "deliver_failed d accepted st =
     deliver_catch (dl_claim d) (if accepted then Suc (dl_written d) else dl_written d) st"

fun findByExecIds :: "string \<Rightarrow> int list \<Rightarrow> manager \<Rightarrow> nat option \<times> manager" where
  "findByExecIds sessionId [] st = (None, st)"
| "findByExecIds sessionId (i # is) st =
     (case classify sessionId i st of
        (Deliverable a p, st1) \<Rightarrow> (Some a, st1)
      | (_, st1) \<Rightarrow> findByExecIds sessionId is st1)"

definition resolve :: "string \<Rightarrow> int \<Rightarrow> manager \<Rightarrow> manager" where
  "resolve sessionId execId st =
     (let k = exec_key sessionId execId;
          st1 = (case jm_get (sm_byExecId st) k of
                   None \<Rightarrow> st
                 | Some a \<Rightarrow>
                     scheduleHardDeadline a (putTombstone k TombDelivered
                       (upd_sess a (\<lambda>s. s\<lparr>ss_pending := jm_delete execId (ss_pending s)\<rparr>) st)))
      in st1\<lparr>sm_byExecId := jm_delete k (sm_byExecId st1)\<rparr>)"

section \<open>Pumps, streams and routes\<close>

definition beginPump :: "nat \<Rightarrow> nat \<Rightarrow> manager \<Rightarrow> manager_error option \<times> manager" where
  "beginPump a owner st =
     (case registerSession a st of
        (Some e, st1) \<Rightarrow> (Some e, st1)
      | (None, st1) \<Rightarrow>
          (case ss_pumpOwner (sess st1 a) of
             Some w \<Rightarrow> if w \<noteq> owner then (Some PumpBusy, st1)
               else (None, upd_sess a (\<lambda>s. s\<lparr>ss_pumpOwner := Some owner, ss_pumpActive := True, ss_answeredContinuation := False\<rparr>) st1)
           | None \<Rightarrow>
               (None, upd_sess a (\<lambda>s. s\<lparr>ss_pumpOwner := Some owner, ss_pumpActive := True, ss_answeredContinuation := False\<rparr>) st1)))"

definition isPumpOwner :: "nat \<Rightarrow> nat \<Rightarrow> manager \<Rightarrow> bool" where
  "isPumpOwner a owner st \<longleftrightarrow> \<not> ss_closed (sess st a) \<and> ss_pumpOwner (sess st a) = Some owner"

definition endPump :: "nat \<Rightarrow> nat \<Rightarrow> manager \<Rightarrow> bool \<times> manager" where
  "endPump a owner st =
     (if ss_pumpOwner (sess st a) \<noteq> Some owner then (False, st)
      else (let deferred = ss_deferredTerminalReason (sess st a);
                st1 = upd_sess a (\<lambda>s. s\<lparr>ss_pumpOwner := None, ss_pumpActive := False, ss_deferredTerminalReason := None\<rparr>) st
            in if deferred = Some RemoteCleanClose \<and> holdsOnlyAnsweredWork a st1 then (True, holdAfterCleanClose a st1)
               else (case deferred of
                   None \<Rightarrow> (True, st1)
                 | Some r \<Rightarrow> (True, if ss_hostInterrupted (sess st1 a) then st1 else closeSession a (Terminal r) None st1))))"

definition replaceStream :: "nat \<Rightarrow> nat \<Rightarrow> string option \<Rightarrow> manager \<Rightarrow> manager_error option \<times> manager" where
  "replaceStream a next runId st =
     (if ss_closed (sess st a) then (Some ClosedReplace, st)
      else (let old = ss_stream (sess st a);
                st1 = upd_sess a (\<lambda>s. s\<lparr>ss_heartbeat := False, ss_terminalSubscription := None,
                  ss_deferredTerminalReason := None, ss_stream := next,
                  ss_billing := (ss_billing s)\<lparr>bl_estimatedUsd := 0, bl_estimatedOutputTokens := 0,
                    bl_estimatedReasoningTokens := 0, bl_ledgerEpoch := None\<rparr>,
                  ss_runId := (case runId of None \<Rightarrow> ss_runId s | Some r \<Rightarrow> Some r), ss_runData := False\<rparr>) st
            in (None, destroy_stream old (subscribeTerminal a st1))))"

definition bindToolCall :: "string \<Rightarrow> string \<Rightarrow> int \<Rightarrow> manager \<Rightarrow> manager" where
  "bindToolCall toolCallId sessionId execId st =
     st\<lparr>sm_toolCallRoutes := jm_put (sm_tombstoneLimit st) toolCallId (sessionId, execId) (sm_toolCallRoutes st)\<rparr>"

definition toolCallExec :: "string \<Rightarrow> manager \<Rightarrow> exec_key option" where
  "toolCallExec toolCallId st = jm_get (sm_toolCallRoutes st) toolCallId"

section \<open>The constructor\<close>

definition createSessionManager :: "js_val \<Rightarrow> js_val \<Rightarrow> js_val \<Rightarrow> activity \<Rightarrow> time \<Rightarrow> policy_error + manager" where
  "createSessionManager ttlMs tombLimit maxOpen source now =
     (case positiveInteger ''tombstoneTtlMs'' ttlMs DEFAULT_TOMBSTONE_TTL_MS of
        Inl e \<Rightarrow> Inl e
      | Inr ttl \<Rightarrow>
          (case positiveInteger ''tombstoneLimit'' tombLimit DEFAULT_TOMBSTONE_LIMIT of
             Inl e \<Rightarrow> Inl e
           | Inr limit \<Rightarrow>
               (case positiveInteger ''maxOpenSessions'' maxOpen DEFAULT_MAX_OPEN_SESSIONS of
                  Inl e \<Rightarrow> Inl e
                | Inr cap \<Rightarrow>
                    Inr \<lparr>sm_now = now, sm_sessionHeap = [], sm_pendingHeap = [], sm_streamHeap = [], sm_delivering = [],
                      sm_byExecId = [], sm_sessions = [], sm_byOpenCodeSessionId = [], sm_tombstones = [],
                      sm_toolCallRoutes = [], sm_activitySource = source, sm_tombstoneTtlMs = ttl,
                      sm_tombstoneLimit = nat limit, sm_maxOpenSessions = nat cap, sm_releasedTerminals = []\<rparr>)))"

lemma positiveInteger_Inr: "positiveInteger name v d = Inr n \<Longrightarrow> 0 < n \<and> n \<le> MAX_TIMER_MS"
  by (auto simp: positiveInteger_def split: js_val.splits if_splits)

end
