(* ===== verification/SessionInvariant.thy ===== *)
theory SessionInvariant
  imports SessionManager
begin

text \<open>
  The invariant of the session manager. The part of a state it looks at is its view; the operations on
  leases, timers and host activity leave the view alone, so their lemmas are frame lemmas.
\<close>

declare split_paired_All [simp del] split_paired_Ex [simp del]

section \<open>The view\<close>

definition sess_view :: "session \<Rightarrow> string \<times> string option \<times> bool \<times> (int, nat) jsmap" where
  "sess_view s = (ss_sessionId s, host_session s, ss_closed s, ss_pending s)"

definition view where
  "view st = (map sess_view (sm_sessionHeap st), map pe_state (sm_pendingHeap st), sm_delivering st, sm_byExecId st,
     sm_sessions st, sm_byOpenCodeSessionId st, sm_tombstones st, sm_toolCallRoutes st,
     sm_tombstoneLimit st, sm_tombstoneTtlMs st, sm_now st, length (sm_streamHeap st))"

lemma view_upd_sess [model_frame]:
  "(\<And>s. sess_view (f s) = sess_view s) \<Longrightarrow> view (upd_sess a f st) = view st"
  by (simp add: view_def upd_sess_def map_update) (metis list_update_id map_update)

lemma view_upd_pend [model_frame]:
  "(\<And>x. pe_state (f x) = pe_state x) \<Longrightarrow> view (upd_pend p f st) = view st"
  by (simp add: view_def upd_pend_def map_update) (metis list_update_id map_update)

lemma view_activity [simp]: "view (st\<lparr>sm_activitySource := x\<rparr>) = view st"
  by (simp add: view_def)

lemma view_released [simp]: "view (st\<lparr>sm_releasedTerminals := x\<rparr>) = view st"
  by (simp add: view_def)

lemma view_destroy [simp]: "view (destroy_stream x st) = view st"
  by (simp add: view_def destroy_stream_def)

lemma view_release [simp]: "view (release_terminal p st) = view st"
  by (simp add: release_terminal_def split: option.splits)

lemma host_session_cong: "ss_openCodeSessionId t = ss_openCodeSessionId s \<Longrightarrow> host_session t = host_session s"
  by (simp add: host_session_def)

lemma sess_view_simps [simp]:
  "sess_view (s\<lparr>ss_hardDeadlineTimer := t\<rparr>) = sess_view s"
  "sess_view (s\<lparr>ss_lastInboundAt := n, ss_semanticDeadlineAt := d\<rparr>) = sess_view s"
  "sess_view (s\<lparr>ss_lastHeartbeatWriteAt := n\<rparr>) = sess_view s"
  "sess_view (s\<lparr>ss_closeError := e\<rparr>) = sess_view s"
  "sess_view (s\<lparr>ss_deferredTerminalReason := r, ss_heartbeat := h\<rparr>) = sess_view s"
  "sess_view (s\<lparr>ss_deferredTerminalReason := r\<rparr>) = sess_view s"
  "sess_view (s\<lparr>ss_terminalSubscription := u\<rparr>) = sess_view s"
  "sess_view (s\<lparr>ss_answeredContinuation := b\<rparr>) = sess_view s"
  "sess_view (s\<lparr>ss_pumpOwner := w, ss_pumpActive := c, ss_answeredContinuation := b\<rparr>) = sess_view s"
  "sess_view (s\<lparr>ss_pumpOwner := w, ss_pumpActive := c, ss_deferredTerminalReason := r\<rparr>) = sess_view s"
  by (simp_all add: sess_view_def host_session_def)

lemma view_refresh [simp]: "view (snd (refreshHardDeadline a p st)) = view st"
  by (simp add: refreshHardDeadline_def Let_def split_beta view_upd_pend split: option.splits)

lemma view_expired [simp]: "view (snd (hardDeadlineExpired a p st)) = view st"
  by (simp add: hardDeadlineExpired_def split_beta)

lemma view_refresh_all [simp]: "view (snd (refresh_all a ps st)) = view st"
  by (induction ps arbitrary: st) (simp_all add: split_beta)

lemma view_schedule [simp]: "view (scheduleHardDeadline a st) = view st"
  by (simp add: scheduleHardDeadline_def Let_def split_beta view_upd_sess)

lemma view_progress [simp]: "view (recordSemanticProgress a t st) = view st"
  by (simp add: recordSemanticProgress_def Let_def view_upd_sess)

lemma view_some_expired [simp]: "view (snd (some_expired a ps st)) = view st"
proof (induction ps arbitrary: st)
  case (Cons p ps)
  then show ?case using view_expired [of a p st] by (simp add: split_beta)
qed simp

lemma view_hold [simp]: "view (holdAfterCleanClose a st) = view st"
  by (simp add: holdAfterCleanClose_def view_upd_sess)

text \<open>What the view determines.\<close>

lemma view_parts:
  assumes "view t = view s"
  shows "sm_sessions t = sm_sessions s" "sm_byExecId t = sm_byExecId s" "sm_tombstones t = sm_tombstones s"
    "sm_byOpenCodeSessionId t = sm_byOpenCodeSessionId s" "sm_toolCallRoutes t = sm_toolCallRoutes s"
    "sm_delivering t = sm_delivering s" "sm_tombstoneLimit t = sm_tombstoneLimit s"
    "sm_tombstoneTtlMs t = sm_tombstoneTtlMs s" "sm_now t = sm_now s"
    "length (sm_sessionHeap t) = length (sm_sessionHeap s)" "length (sm_pendingHeap t) = length (sm_pendingHeap s)"
  using assms by (simp_all add: view_def) (metis length_map)+

lemma view_sess:
  assumes "view t = view s" and "a < length (sm_sessionHeap s)"
  shows "sess_view (sess t a) = sess_view (sess s a)"
  using assms by (simp add: view_def) (metis length_map nth_map)

lemma view_state:
  assumes "view t = view s" and "p < length (sm_pendingHeap s)"
  shows "pe_state (pend t p) = pe_state (pend s p)"
  using assms by (simp add: view_def) (metis length_map nth_map)

section \<open>The invariant\<close>

text \<open>The pending exec object of an exec of a session.\<close>

abbreviation owed :: "manager \<Rightarrow> nat \<Rightarrow> int \<Rightarrow> nat option" where
  "owed st a e \<equiv> jm_get (ss_pending (sess st a)) e"

text \<open>
  \<open>byExecId\<close> indexes exactly the execs pending on open sessions, closed and unregistered sessions owe
  nothing, no exec is both pending and buried, and the bounded tables are within their limit.
\<close>

definition heap_ok :: "manager \<Rightarrow> bool" where
  "heap_ok st \<longleftrightarrow> distinct (sm_sessions st) \<and> 0 < sm_tombstoneLimit st
     \<and> (\<forall>a \<in> set (sm_sessions st). a < length (sm_sessionHeap st) \<and> \<not> ss_closed (sess st a))
     \<and> (\<forall>a < length (sm_sessionHeap st). jm_wf (ss_pending (sess st a))
          \<and> (a \<notin> set (sm_sessions st) \<longrightarrow> ss_pending (sess st a) = []))
     \<and> (\<forall>a b. a < length (sm_sessionHeap st) \<longrightarrow> b < length (sm_sessionHeap st) \<longrightarrow>
          ss_sessionId (sess st a) = ss_sessionId (sess st b) \<longrightarrow> a = b)"

definition index_ok :: "manager \<Rightarrow> bool" where
  "index_ok st \<longleftrightarrow> (\<forall>k a. jm_get (sm_byExecId st) k = Some a \<longleftrightarrow>
       a \<in> set (sm_sessions st) \<and> ss_sessionId (sess st a) = fst k \<and> owed st a (snd k) \<noteq> None)
     \<and> (\<forall>i a. jm_get (sm_byOpenCodeSessionId st) i = Some a \<longrightarrow>
          a \<in> set (sm_sessions st) \<and> host_session (sess st a) = Some i)"

definition pend_ok :: "manager \<Rightarrow> bool" where
  "pend_ok st \<longleftrightarrow> (\<forall>a e p. a < length (sm_sessionHeap st) \<longrightarrow> owed st a e = Some p \<longrightarrow>
         p < length (sm_pendingHeap st) \<and> pe_state (pend st p) \<noteq> Delivered)
     \<and> (\<forall>a e b f p. a < length (sm_sessionHeap st) \<longrightarrow> b < length (sm_sessionHeap st) \<longrightarrow>
          owed st a e = Some p \<longrightarrow> owed st b f = Some p \<longrightarrow> a = b \<and> e = f)
     \<and> (\<forall>p \<in> set (sm_delivering st). p < length (sm_pendingHeap st) \<and> pe_state (pend st p) \<noteq> Pending)"

definition tomb_ok :: "manager \<Rightarrow> bool" where
  "tomb_ok st \<longleftrightarrow> jm_wf (sm_tombstones st) \<and> length (sm_tombstones st) \<le> sm_tombstoneLimit st
     \<and> jm_wf (sm_toolCallRoutes st) \<and> length (sm_toolCallRoutes st) \<le> sm_tombstoneLimit st
     \<and> (\<forall>k. jm_get (sm_byExecId st) k \<noteq> None \<longrightarrow> jm_get (sm_tombstones st) k = None)"

definition sm_inv :: "manager \<Rightarrow> bool" where
  "sm_inv st \<longleftrightarrow> heap_ok st \<and> index_ok st \<and> pend_ok st \<and> tomb_ok st"

lemma view_eqs:
  assumes "view t = view s" and "a < length (sm_sessionHeap s)"
  shows "ss_sessionId (sess t a) = ss_sessionId (sess s a)" "host_session (sess t a) = host_session (sess s a)"
    "ss_closed (sess t a) = ss_closed (sess s a)" "ss_pending (sess t a) = ss_pending (sess s a)"
  using view_sess [OF assms] by (simp_all add: sess_view_def)

lemma heap_ok_view:
  assumes v: "view t = view s" and ok: "heap_ok s" shows "heap_ok t"
  using ok unfolding heap_ok_def view_parts [OF v] by (simp add: view_eqs [OF v])

lemma index_ok_view:
  assumes v: "view t = view s" and ok: "heap_ok s" "index_ok s" shows "index_ok t"
proof -
  have "a < length (sm_sessionHeap s)" if "a \<in> set (sm_sessions s)" for a
    using ok(1) that by (simp add: heap_ok_def)
  then show ?thesis
    using ok(2) unfolding index_ok_def view_parts [OF v]
    by (simp add: view_eqs [OF v] cong: conj_cong)
qed

lemma pend_ok_view:
  assumes v: "view t = view s" and ok: "pend_ok s" shows "pend_ok t"
proof -
  have 1: "p < length (sm_pendingHeap s)" if "p \<in> set (sm_delivering s)" for p
    using ok that by (simp add: pend_ok_def)
  show ?thesis
    using ok 1 unfolding pend_ok_def view_parts [OF v]
    by (simp add: view_eqs [OF v] view_state [OF v])
qed

lemma sm_inv_view:
  assumes v: "view t = view s" and inv: "sm_inv s" shows "sm_inv t"
proof -
  have "tomb_ok t" using inv unfolding sm_inv_def tomb_ok_def view_parts [OF v] by blast
  then show ?thesis
    using inv heap_ok_view [OF v] index_ok_view [OF v] pend_ok_view [OF v] unfolding sm_inv_def by blast
qed

lemma sm_inv_sessions: "sm_inv st \<Longrightarrow> a \<in> set (sm_sessions st) \<Longrightarrow> a < length (sm_sessionHeap st) \<and> \<not> ss_closed (sess st a)"
  by (simp add: sm_inv_def heap_ok_def)

lemma sm_inv_owed:
  assumes "sm_inv st" and "a < length (sm_sessionHeap st)" and "owed st a e \<noteq> None"
  shows "a \<in> set (sm_sessions st)"
  using assms by (auto simp: sm_inv_def heap_ok_def)

lemma sm_inv_index:
  assumes "sm_inv st" and "jm_get (sm_byExecId st) (sid, e) = Some a"
  shows "a \<in> set (sm_sessions st)" "ss_sessionId (sess st a) = sid" "\<exists>p. owed st a e = Some p"
  using assms by (auto simp: sm_inv_def index_ok_def)

lemma sm_inv_index_iff:
  assumes "sm_inv st" and "a \<in> set (sm_sessions st)"
  shows "jm_get (sm_byExecId st) (ss_sessionId (sess st a), e) = Some a \<longleftrightarrow> owed st a e \<noteq> None"
  using assms by (simp add: sm_inv_def index_ok_def)

text \<open>Only the owner of a session id is indexed under it.\<close>

lemma sm_inv_index_owner:
  assumes "sm_inv st" and "a < length (sm_sessionHeap st)"
    and "jm_get (sm_byExecId st) (ss_sessionId (sess st a), e) = Some b"
  shows "b = a"
proof -
  have "b \<in> set (sm_sessions st)" "ss_sessionId (sess st b) = ss_sessionId (sess st a)"
    using sm_inv_index [OF assms(1,3)] by auto
  then show ?thesis using assms(1,2) sm_inv_sessions [OF assms(1)] by (auto simp: sm_inv_def heap_ok_def)
qed

section \<open>Primitives\<close>

text \<open>The exec leaves \<open>pending\<close> and the index together.\<close>

lemma sess_upd: "a < length (sm_sessionHeap st) \<Longrightarrow> sess (upd_sess a f st) b = (if b = a then f (sess st a) else sess st b)"
  by (auto simp: upd_sess_def)

lemma upd_sess_frame [simp]:
  "sm_pendingHeap (upd_sess a f st) = sm_pendingHeap st" "sm_sessions (upd_sess a f st) = sm_sessions st"
  "sm_byExecId (upd_sess a f st) = sm_byExecId st" "sm_tombstones (upd_sess a f st) = sm_tombstones st"
  "sm_byOpenCodeSessionId (upd_sess a f st) = sm_byOpenCodeSessionId st" "sm_now (upd_sess a f st) = sm_now st"
  "sm_delivering (upd_sess a f st) = sm_delivering st" "sm_toolCallRoutes (upd_sess a f st) = sm_toolCallRoutes st"
  "sm_tombstoneLimit (upd_sess a f st) = sm_tombstoneLimit st" "sm_tombstoneTtlMs (upd_sess a f st) = sm_tombstoneTtlMs st"
  "sm_streamHeap (upd_sess a f st) = sm_streamHeap st" "sm_activitySource (upd_sess a f st) = sm_activitySource st"
  "length (sm_sessionHeap (upd_sess a f st)) = length (sm_sessionHeap st)" "sm_maxOpenSessions (upd_sess a f st) = sm_maxOpenSessions st"
  by (simp_all add: upd_sess_def)

lemma putTombstone_frame [simp]:
  "sm_pendingHeap (putTombstone k r st) = sm_pendingHeap st" "sm_sessions (putTombstone k r st) = sm_sessions st"
  "sm_byExecId (putTombstone k r st) = sm_byExecId st" "sm_sessionHeap (putTombstone k r st) = sm_sessionHeap st"
  "sm_byOpenCodeSessionId (putTombstone k r st) = sm_byOpenCodeSessionId st" "sm_now (putTombstone k r st) = sm_now st"
  "sm_delivering (putTombstone k r st) = sm_delivering st" "sm_toolCallRoutes (putTombstone k r st) = sm_toolCallRoutes st"
  "sm_tombstoneLimit (putTombstone k r st) = sm_tombstoneLimit st" "sm_tombstoneTtlMs (putTombstone k r st) = sm_tombstoneTtlMs st"
  "sm_streamHeap (putTombstone k r st) = sm_streamHeap st" "sm_activitySource (putTombstone k r st) = sm_activitySource st"
  "sm_maxOpenSessions (putTombstone k r st) = sm_maxOpenSessions st"
  by (simp_all add: putTombstone_def)

lemma putTombstone_tombs:
  assumes "jm_wf (sm_tombstones st)" and "0 < sm_tombstoneLimit st"
  shows "jm_wf (sm_tombstones (putTombstone k r st))"
    "length (sm_tombstones (putTombstone k r st)) \<le> sm_tombstoneLimit st"
    "jm_get (sm_tombstones (putTombstone k r st)) k = Some \<lparr>ts_reason = r, ts_expiresAt = sm_now st + sm_tombstoneTtlMs st\<rparr>"
    "j \<noteq> k \<Longrightarrow> jm_get (sm_tombstones st) j = None \<Longrightarrow> jm_get (sm_tombstones (putTombstone k r st)) j = None"
proof -
  let ?m = "jm_put (sm_tombstoneLimit st) k \<lparr>ts_reason = r, ts_expiresAt = sm_now st + sm_tombstoneTtlMs st\<rparr> (sm_tombstones st)"
  show "jm_wf (sm_tombstones (putTombstone k r st))" using assms(1) by (simp add: putTombstone_def)
  show "length (sm_tombstones (putTombstone k r st)) \<le> sm_tombstoneLimit st"
    by (simp add: putTombstone_def jm_put_length)
  show "jm_get (sm_tombstones (putTombstone k r st)) k = Some \<lparr>ts_reason = r, ts_expiresAt = sm_now st + sm_tombstoneTtlMs st\<rparr>"
    using assms(2) by (simp add: putTombstone_def)
  assume "j \<noteq> k" "jm_get (sm_tombstones st) j = None"
  then have "jm_get ?m j \<noteq> Some w" for w using jm_put_other [OF assms(1) \<open>j \<noteq> k\<close>, of _ _ w] by fastforce
  then have "jm_get ?m j = None" by (cases "jm_get ?m j") blast+
  then show "jm_get (sm_tombstones (putTombstone k r st)) j = None" by (simp add: putTombstone_def)
qed

lemma tomb_ok_put [model_inv]:
  assumes "tomb_ok st" and "0 < sm_tombstoneLimit st" and "jm_get (sm_byExecId st) k = None"
  shows "tomb_ok (putTombstone k r st)"
proof -
  have wf: "jm_wf (sm_tombstones st)" using assms(1) by (simp add: tomb_ok_def)
  note put = putTombstone_tombs [OF wf assms(2), where k = k and r = r]
  have "jm_get (sm_tombstones (putTombstone k r st)) j = None" if "jm_get (sm_byExecId st) j \<noteq> None" for j
  proof -
    have "j \<noteq> k" using that assms(3) by auto
    moreover have "jm_get (sm_tombstones st) j = None" using assms(1) that unfolding tomb_ok_def by blast
    ultimately show ?thesis by (rule put(4))
  qed
  then show ?thesis using put assms(1) by (simp add: tomb_ok_def)
qed

lemma sm_inv_put [model_inv]:
  assumes "sm_inv st" and "jm_get (sm_byExecId st) k = None"
  shows "sm_inv (putTombstone k r st)"
  using assms tomb_ok_put [of st k r] by (simp add: sm_inv_def heap_ok_def index_ok_def pend_ok_def)

lemma sm_inv_remove [model_inv]:
  assumes inv: "sm_inv st" and a: "a < length (sm_sessionHeap st)"
  shows "sm_inv (remove_pending a e st)"
proof -
  let ?t = "remove_pending a e st" and ?sid = "ss_sessionId (sess st a)"
  have sess: "sess ?t b = (if b = a then (sess st a)\<lparr>ss_pending := jm_delete e (ss_pending (sess st a))\<rparr> else sess st b)" for b
    using a by (simp add: remove_pending_def Let_def upd_sess_def nth_list_update)
  have frame: "sm_sessions ?t = sm_sessions st" "length (sm_sessionHeap ?t) = length (sm_sessionHeap st)"
    "sm_pendingHeap ?t = sm_pendingHeap st" "sm_tombstones ?t = sm_tombstones st" "sm_delivering ?t = sm_delivering st"
    "sm_byOpenCodeSessionId ?t = sm_byOpenCodeSessionId st" "sm_toolCallRoutes ?t = sm_toolCallRoutes st"
    "sm_tombstoneLimit ?t = sm_tombstoneLimit st" "sm_byExecId ?t = jm_delete (?sid, e) (sm_byExecId st)"
    by (simp_all add: remove_pending_def Let_def exec_key_def)
  have owe: "owed ?t b f = (if b = a \<and> f = e then None else owed st b f)" for b f
    by (simp add: sess)
  have same: "ss_sessionId (sess ?t b) = ss_sessionId (sess st b)" "host_session (sess ?t b) = host_session (sess st b)"
    "ss_closed (sess ?t b) = ss_closed (sess st b)" for b
    by (simp_all add: sess host_session_def)
  have 1: "heap_ok ?t"
    using inv unfolding sm_inv_def heap_ok_def frame same by (auto simp: sess)
  have uniq: "b = a" if "b \<in> set (sm_sessions st)" "ss_sessionId (sess st b) = ?sid" for b
    using that a inv sm_inv_sessions [OF inv that(1)] by (auto simp: sm_inv_def heap_ok_def)
  have 2: "index_ok ?t"
    unfolding index_ok_def frame same owe
  proof (intro conjI allI)
    fix k b
    show "(jm_get (jm_delete (?sid, e) (sm_byExecId st)) k = Some b) =
        (b \<in> set (sm_sessions st) \<and> ss_sessionId (sess st b) = fst k \<and> (if b = a \<and> snd k = e then None else owed st b (snd k)) \<noteq> None)"
      using inv uniq [of b] by (cases k) (auto simp: sm_inv_def index_ok_def)
  qed (use inv in \<open>auto simp: sm_inv_def index_ok_def\<close>)
  have 3: "pend_ok ?t"
    using inv unfolding sm_inv_def pend_ok_def frame owe by (auto split: if_splits)
  have 4: "tomb_ok ?t"
    using inv unfolding sm_inv_def tomb_ok_def frame by (auto split: if_splits)
  show ?thesis using 1 2 3 4 by (simp add: sm_inv_def)
qed

section \<open>Closing\<close>

lemma release_frame [simp]:
  "sm_sessionHeap (release_terminal p st) = sm_sessionHeap st" "sm_pendingHeap (release_terminal p st) = sm_pendingHeap st"
  "sm_sessions (release_terminal p st) = sm_sessions st" "sm_byExecId (release_terminal p st) = sm_byExecId st"
  "sm_tombstones (release_terminal p st) = sm_tombstones st" "sm_delivering (release_terminal p st) = sm_delivering st"
  "sm_byOpenCodeSessionId (release_terminal p st) = sm_byOpenCodeSessionId st" "sm_now (release_terminal p st) = sm_now st"
  "sm_toolCallRoutes (release_terminal p st) = sm_toolCallRoutes st" "sm_tombstoneLimit (release_terminal p st) = sm_tombstoneLimit st"
  "sm_tombstoneTtlMs (release_terminal p st) = sm_tombstoneTtlMs st" "sm_streamHeap (release_terminal p st) = sm_streamHeap st"
  "sm_activitySource (release_terminal p st) = sm_activitySource st" "sm_maxOpenSessions (release_terminal p st) = sm_maxOpenSessions st"
  by (simp_all add: release_terminal_def split: option.splits)

text \<open>What a loop over the pendings of a session leaves alone, and what it does to the index.\<close>

definition only_index_and_tombs :: "manager \<Rightarrow> manager \<Rightarrow> bool" where
  "only_index_and_tombs st t \<longleftrightarrow> sm_sessionHeap t = sm_sessionHeap st \<and> sm_pendingHeap t = sm_pendingHeap st
     \<and> sm_sessions t = sm_sessions st \<and> sm_delivering t = sm_delivering st \<and> sm_now t = sm_now st
     \<and> sm_byOpenCodeSessionId t = sm_byOpenCodeSessionId st \<and> sm_toolCallRoutes t = sm_toolCallRoutes st
     \<and> sm_tombstoneLimit t = sm_tombstoneLimit st \<and> sm_tombstoneTtlMs t = sm_tombstoneTtlMs st
     \<and> sm_streamHeap t = sm_streamHeap st \<and> sm_activitySource t = sm_activitySource st
     \<and> sm_maxOpenSessions t = sm_maxOpenSessions st"

lemma only_index_trans: "only_index_and_tombs st t \<Longrightarrow> only_index_and_tombs t u \<Longrightarrow> only_index_and_tombs st u"
  by (simp add: only_index_and_tombs_def)

definition buries :: "string \<Rightarrow> int list \<Rightarrow> manager \<Rightarrow> manager \<Rightarrow> bool" where
  "buries sid es st t \<longleftrightarrow> only_index_and_tombs st t
     \<and> (\<forall>k. jm_get (sm_byExecId t) k = (if fst k = sid \<and> snd k \<in> set es then None else jm_get (sm_byExecId st) k))
     \<and> jm_wf (sm_tombstones t) \<and> length (sm_tombstones t) \<le> sm_tombstoneLimit st
     \<and> (\<forall>k. \<not> (fst k = sid \<and> snd k \<in> set es) \<longrightarrow> jm_get (sm_tombstones st) k = None \<longrightarrow> jm_get (sm_tombstones t) k = None)"

lemma buries_refl: "jm_wf (sm_tombstones st) \<Longrightarrow> length (sm_tombstones st) \<le> sm_tombstoneLimit st \<Longrightarrow> buries sid [] st st"
  by (simp add: buries_def only_index_and_tombs_def)

lemma buries_step:
  fixes sid :: string and e :: int and p :: nat
  assumes "jm_wf (sm_tombstones st)" and "0 < sm_tombstoneLimit st" and "length (sm_tombstones st) \<le> sm_tombstoneLimit st"
  defines "u \<equiv> (release_terminal p st)\<lparr>sm_byExecId := jm_delete (sid, e) (sm_byExecId st)\<rparr>"
  shows "buries sid [e] st (putTombstone (sid, e) r u)" and "buries sid [e] st u"
proof -
  have u: "only_index_and_tombs st u" "sm_tombstones u = sm_tombstones st"
    "sm_byExecId u = jm_delete (sid, e) (sm_byExecId st)" "sm_tombstoneLimit u = sm_tombstoneLimit st"
    by (simp_all add: u_def only_index_and_tombs_def)
  have wf: "jm_wf (sm_tombstones u)" "0 < sm_tombstoneLimit u" using assms(1,2) u by simp_all
  note put = putTombstone_tombs [OF wf, where k = "(sid, e)" and r = r]
  have "only_index_and_tombs st (putTombstone (sid, e) r u)" using u(1) by (simp add: only_index_and_tombs_def)
  moreover have "jm_get (sm_tombstones (putTombstone (sid, e) r u)) k = None"
    if "\<not> (fst k = sid \<and> snd k \<in> set [e])" "jm_get (sm_tombstones st) k = None" for k
    using put(4) [where j = k] that u(2) by (cases k) auto
  moreover have "(if fst k = sid \<and> snd k \<in> set [e] then None else jm_get (sm_byExecId st) k)
      = jm_get (sm_byExecId u) k" for k
    by (cases k) (simp add: u(3))
  ultimately show "buries sid [e] st (putTombstone (sid, e) r u)"
    using put(1,2) u(4) unfolding buries_def by simp
  show "buries sid [e] st u"
    using u assms(1,3) unfolding buries_def by (auto simp: prod_eq_iff)
qed

lemma buries_trans:
  assumes "buries sid es st t" and "buries sid fs t u"
  shows "buries sid (es @ fs) st u"
proof -
  have "only_index_and_tombs st u" using assms only_index_trans unfolding buries_def by blast
  moreover have "sm_tombstoneLimit t = sm_tombstoneLimit st" using assms(1) by (simp add: buries_def only_index_and_tombs_def)
  ultimately show ?thesis using assms unfolding buries_def by auto
qed

lemma buries_close:
  assumes "jm_wf (sm_tombstones st)" and "0 < sm_tombstoneLimit st" and "length (sm_tombstones st) \<le> sm_tombstoneLimit st"
  shows "buries sid (map fst ps) st (close_pendings sid reason ps st)"
  using assms
proof (induction ps arbitrary: st)
  case Nil
  then show ?case by (simp add: buries_refl)
next
  case (Cons q ps)
  obtain e p where q: "q = (e, p)" by (cases q)
  let ?u = "(release_terminal p st)\<lparr>sm_byExecId := jm_delete (sid, e) (sm_byExecId st)\<rparr>"
  let ?v = "case reason of Terminal r \<Rightarrow> if isTerminalReason reason then putTombstone (sid, e) (TombTerminal r) ?u else ?u | _ \<Rightarrow> ?u"
  have v: "buries sid [e] st ?v"
    using buries_step [OF Cons.prems, where sid = sid and e = e and p = p] by (auto split: close_reason.splits)
  then have "jm_wf (sm_tombstones ?v)" "0 < sm_tombstoneLimit ?v" "length (sm_tombstones ?v) \<le> sm_tombstoneLimit ?v"
    using Cons.prems by (simp_all add: buries_def only_index_and_tombs_def)
  from buries_trans [OF v Cons.IH [OF this]] show ?case by (cases reason) (simp_all add: q Let_def exec_key_def isTerminalReason_def)
qed

lemma buries_drop:
  assumes "jm_wf (sm_tombstones st)" and "0 < sm_tombstoneLimit st" and "length (sm_tombstones st) \<le> sm_tombstoneLimit st"
  shows "buries sid (map fst ps) st (drop_pendings sid reason ps st)"
  using assms
proof (induction ps arbitrary: st)
  case Nil
  then show ?case by (simp add: buries_refl)
next
  case (Cons q ps)
  obtain e p where q: "q = (e, p)" by (cases q)
  let ?v = "putTombstone (sid, e) reason ((release_terminal p st)\<lparr>sm_byExecId := jm_delete (sid, e) (sm_byExecId st)\<rparr>)"
  have v: "buries sid [e] st ?v" by (rule buries_step(1) [OF Cons.prems])
  then have "jm_wf (sm_tombstones ?v)" "0 < sm_tombstoneLimit ?v" "length (sm_tombstones ?v) \<le> sm_tombstoneLimit ?v"
    using Cons.prems by (simp_all add: buries_def only_index_and_tombs_def)
  from buries_trans [OF v Cons.IH [OF this]] show ?case by (simp add: q Let_def exec_key_def)
qed

text \<open>
  A session that buries all its pendings and then owes nothing keeps the invariant, whether it stays
  open (\<open>closed\<close> False) or is closed and taken off the list.
\<close>

lemma sm_inv_buried:
  assumes inv: "sm_inv st" and a: "a < length (sm_sessionHeap st)"
    and b: "buries (ss_sessionId (sess st a)) (map fst (ss_pending (sess st a))) st u"
    and t: "sm_sessionHeap t = (sm_sessionHeap u)[a := s']" "ss_pending s' = []"
      "ss_sessionId s' = ss_sessionId (sess st a)" "host_session s' = host_session (sess st a)"
    and same: "sm_pendingHeap t = sm_pendingHeap u" "sm_delivering t = sm_delivering u" "sm_byExecId t = sm_byExecId u"
      "sm_tombstones t = sm_tombstones u" "sm_toolCallRoutes t = sm_toolCallRoutes u"
      "sm_tombstoneLimit t = sm_tombstoneLimit u"
    and op: "(sm_sessions t = sm_sessions u \<and> sm_byOpenCodeSessionId t = sm_byOpenCodeSessionId u \<and> ss_closed s' = ss_closed (sess st a))
      \<or> (sm_sessions t = removeAll a (sm_sessions u) \<and> (\<forall>i c. jm_get (sm_byOpenCodeSessionId t) i = Some c \<longleftrightarrow>
           jm_get (sm_byOpenCodeSessionId u) i = Some c \<and> c \<noteq> a))"
  shows "sm_inv t"
proof -
  let ?sid = "ss_sessionId (sess st a)"
  have only: "only_index_and_tombs st u" using b by (simp add: buries_def)
  have sess: "sess t c = (if c = a then s' else sess st c)" for c
    using a only t(1) by (simp add: only_index_and_tombs_def nth_list_update)
  have len: "length (sm_sessionHeap t) = length (sm_sessionHeap st)" using only t(1) by (simp add: only_index_and_tombs_def)
  have ids: "ss_sessionId (sess t c) = ss_sessionId (sess st c)" "host_session (sess t c) = host_session (sess st c)" for c
    using t(3,4) by (simp_all add: sess)
  have owe: "owed t c e = (if c = a then None else owed st c e)" for c e
    using t(2) by (simp add: sess)
  have mem: "set (sm_sessions t) \<subseteq> set (sm_sessions st)" "c \<noteq> a \<Longrightarrow> c \<in> set (sm_sessions t) \<longleftrightarrow> c \<in> set (sm_sessions st)"
    "distinct (sm_sessions t)" for c
    using op only inv by (auto simp: only_index_and_tombs_def sm_inv_def heap_ok_def distinct_removeAll)
  have heap: "heap_ok t"
    unfolding heap_ok_def len ids
  proof (intro conjI ballI allI impI)
    show "distinct (sm_sessions t)" by (rule mem(3))
    show "0 < sm_tombstoneLimit t" using inv only same by (simp add: only_index_and_tombs_def sm_inv_def heap_ok_def)
  next
    fix c assume c: "c \<in> set (sm_sessions t)"
    then have "c \<in> set (sm_sessions st)" using mem(1) by auto
    then have 1: "c < length (sm_sessionHeap st)" "\<not> ss_closed (sess st c)" using sm_inv_sessions [OF inv] by auto
    show "c < length (sm_sessionHeap st)" by fact
    show "\<not> ss_closed (sess t c)" using 1 op c by (auto simp: sess)
  next
    fix c assume c: "c < length (sm_sessionHeap st)"
    show "jm_wf (ss_pending (sess t c))" using inv c t(2) by (simp add: sess sm_inv_def heap_ok_def)
    assume "c \<notin> set (sm_sessions t)"
    then show "ss_pending (sess t c) = []" using inv c t(2) mem(2) by (auto simp: sess sm_inv_def heap_ok_def)
  next
    fix c d assume "c < length (sm_sessionHeap st)" "d < length (sm_sessionHeap st)" "ss_sessionId (sess st c) = ss_sessionId (sess st d)"
    then show "c = d" using inv unfolding sm_inv_def heap_ok_def by blast
  qed
  have key: "jm_get (sm_byExecId t) k = Some c \<longleftrightarrow> jm_get (sm_byExecId st) k = Some c \<and> c \<noteq> a" for k c
  proof -
    have "jm_get (sm_byExecId t) k = (if fst k = ?sid \<and> snd k \<in> fst ` set (ss_pending (sess st a)) then None else jm_get (sm_byExecId st) k)"
      using b same(3) by (simp add: buries_def del: split_paired_All)
    moreover have "c = a \<longleftrightarrow> fst k = ?sid \<and> snd k \<in> fst ` set (ss_pending (sess st a))" if "jm_get (sm_byExecId st) k = Some c"
    proof
      assume "c = a"
      then have "ss_sessionId (sess st a) = fst k" "owed st a (snd k) \<noteq> None"
        using sm_inv_index [OF inv, of "fst k" "snd k" c] that by auto
      then show "fst k = ?sid \<and> snd k \<in> fst ` set (ss_pending (sess st a))" by (auto simp: map_of_eq_None_iff)
    next
      assume "fst k = ?sid \<and> snd k \<in> fst ` set (ss_pending (sess st a))"
      then show "c = a" using sm_inv_index_owner [OF inv a, of "snd k" c] that by (cases k) auto
    qed
    ultimately show ?thesis by auto
  qed
  have index: "index_ok t"
    unfolding index_ok_def ids owe key
  proof (intro conjI allI)
    fix k c
    show "(jm_get (sm_byExecId st) k = Some c \<and> c \<noteq> a) =
      (c \<in> set (sm_sessions t) \<and> ss_sessionId (sess st c) = fst k \<and> (if c = a then None else owed st c (snd k)) \<noteq> None)"
      using inv mem(2) [of c] by (cases "c = a") (auto simp: sm_inv_def index_ok_def)
  next
    fix i c
    show "jm_get (sm_byOpenCodeSessionId t) i = Some c \<longrightarrow> c \<in> set (sm_sessions t) \<and> host_session (sess st c) = Some i"
      using inv op only mem(2) [of c] by (auto simp: sm_inv_def index_ok_def only_index_and_tombs_def)
  qed
  have pend: "pend_ok t"
    using inv only same unfolding sm_inv_def pend_ok_def owe len only_index_and_tombs_def by (auto split: if_splits)
  have "jm_get (sm_tombstones t) k = None" if "jm_get (sm_byExecId t) k \<noteq> None" for k
  proof -
    from that obtain c where c: "jm_get (sm_byExecId t) k = Some c" by auto
    then have "jm_get (sm_byExecId st) k = Some c" using key by blast
    then have "jm_get (sm_tombstones st) k = None" using inv unfolding sm_inv_def tomb_ok_def by auto
    moreover have "\<not> (fst k = ?sid \<and> snd k \<in> set (map fst (ss_pending (sess st a))))"
      using c b same(3) by (simp add: buries_def split: if_splits)
    ultimately show ?thesis using b same unfolding buries_def by metis
  qed
  then have "tomb_ok t"
    using inv b same only by (simp add: tomb_ok_def sm_inv_def buries_def only_index_and_tombs_def)
  then show ?thesis using heap index pend by (simp add: sm_inv_def)
qed

lemma sm_inv_tombs: "sm_inv st \<Longrightarrow> jm_wf (sm_tombstones st) \<and> 0 < sm_tombstoneLimit st \<and> length (sm_tombstones st) \<le> sm_tombstoneLimit st"
  by (simp add: sm_inv_def tomb_ok_def heap_ok_def)

lemma delete_owner:
  assumes own: "\<And>j. jm_get m j = Some a \<Longrightarrow> h = Some j"
  shows "jm_get (case h of None \<Rightarrow> m | Some i \<Rightarrow> if jm_get m i = Some a then jm_delete i m else m) j = Some c
    \<longleftrightarrow> jm_get m j = Some c \<and> c \<noteq> a"
proof (cases h)
  case None
  then show ?thesis using own [of j] by auto
next
  case (Some i)
  show ?thesis
  proof (cases "jm_get m j = Some a")
    case True
    then have "h = Some j" by (rule own)
    then have "i = j" using Some by simp
    then show ?thesis using Some True by auto
  next
    case False
    then show ?thesis using Some by (cases "j = i") auto
  qed
qed

text \<open>What closing an open session does, field by field.\<close>

lemma closeSession_open:
  fixes reason :: close_reason and err :: "nat option"
  assumes "\<not> ss_closed (sess st a)"
  defines "u \<equiv> close_pendings (ss_sessionId (sess st a)) reason (ss_pending (sess st a)) st"
    and "t \<equiv> closeSession a reason err st"
  shows "sm_sessionHeap t = (sm_sessionHeap u)[a := closed_session err (sess u a)]"
    and "sm_pendingHeap t = sm_pendingHeap u" and "sm_delivering t = sm_delivering u" and "sm_byExecId t = sm_byExecId u"
    and "sm_tombstones t = sm_tombstones u" and "sm_toolCallRoutes t = sm_toolCallRoutes u"
    and "sm_tombstoneLimit t = sm_tombstoneLimit u" and "sm_tombstoneTtlMs t = sm_tombstoneTtlMs u"
    and "sm_now t = sm_now u" and "sm_maxOpenSessions t = sm_maxOpenSessions u"
    and "sm_sessions t = removeAll a (sm_sessions u)"
    and "sm_byOpenCodeSessionId t = (case host_session (sess st a) of None \<Rightarrow> sm_byOpenCodeSessionId u
      | Some i \<Rightarrow> if jm_get (sm_byOpenCodeSessionId u) i = Some a then jm_delete i (sm_byOpenCodeSessionId u)
          else sm_byOpenCodeSessionId u)"
  using assms(1) by (simp_all add: t_def u_def closeSession_def Let_def destroy_stream_def upd_sess_def split: option.splits)

lemma closed_session_simps [simp]:
  "ss_pending (closed_session err s) = []" "ss_sessionId (closed_session err s) = ss_sessionId s"
  "host_session (closed_session err s) = host_session s" "ss_closed (closed_session err s)"
  by (simp_all add: closed_session_def host_session_def)

lemma sm_inv_close [model_inv]:
  assumes inv: "sm_inv st" and a: "a < length (sm_sessionHeap st)"
  shows "sm_inv (closeSession a reason err st)"
proof (cases "ss_closed (sess st a)")
  case True
  then show ?thesis using inv by (simp add: closeSession_def)
next
  case False
  let ?u = "close_pendings (ss_sessionId (sess st a)) reason (ss_pending (sess st a)) st"
  note t = closeSession_open [OF False, of reason err]
  have b: "buries (ss_sessionId (sess st a)) (map fst (ss_pending (sess st a))) st ?u"
    using sm_inv_tombs [OF inv] by (intro buries_close) auto
  have u: "sm_sessionHeap ?u = sm_sessionHeap st" "sm_byOpenCodeSessionId ?u = sm_byOpenCodeSessionId st"
    using b by (simp_all add: buries_def only_index_and_tombs_def)
  have "jm_get (sm_byOpenCodeSessionId (closeSession a reason err st)) i = Some c \<longleftrightarrow>
      jm_get (sm_byOpenCodeSessionId ?u) i = Some c \<and> c \<noteq> a" for i c
  proof -
    have "host_session (sess st a) = Some j" if "jm_get (sm_byOpenCodeSessionId st) j = Some a" for j
      using inv that unfolding sm_inv_def index_ok_def by blast
    from delete_owner [where m = "sm_byOpenCodeSessionId st" and h = "host_session (sess st a)" and a = a, OF this] show ?thesis unfolding t(12) u by simp
  qed
  then show ?thesis
    using t u by (intro sm_inv_buried [OF inv a b, where s' = "closed_session err (sess ?u a)"]) auto
qed

lemma closeSession_sess:
  assumes "a < length (sm_sessionHeap st)" and inv: "sm_inv st"
  shows "sess (closeSession a reason err st) b =
      (if b = a \<and> \<not> ss_closed (sess st a) then closed_session err (sess st a) else sess st b)"
    and "length (sm_sessionHeap (closeSession a reason err st)) = length (sm_sessionHeap st)"
    and "set (sm_sessions (closeSession a reason err st)) = set (sm_sessions st) - {a}"
    and "sm_pendingHeap (closeSession a reason err st) = sm_pendingHeap st"
    and "sm_delivering (closeSession a reason err st) = sm_delivering st"
    and "sm_now (closeSession a reason err st) = sm_now st"
    and "sm_tombstoneLimit (closeSession a reason err st) = sm_tombstoneLimit st"
    and "sm_tombstoneTtlMs (closeSession a reason err st) = sm_tombstoneTtlMs st"
    and "sm_maxOpenSessions (closeSession a reason err st) = sm_maxOpenSessions st"
proof -
  let ?u = "close_pendings (ss_sessionId (sess st a)) reason (ss_pending (sess st a)) st"
  have "buries (ss_sessionId (sess st a)) (map fst (ss_pending (sess st a))) st ?u"
    using sm_inv_tombs [OF inv] by (intro buries_close) auto
  then have u: "only_index_and_tombs st ?u" by (simp add: buries_def)
  note t = closeSession_open [of st a reason err]
  show "sess (closeSession a reason err st) b =
      (if b = a \<and> \<not> ss_closed (sess st a) then closed_session err (sess st a) else sess st b)"
    using assms(1) t(1) u
    by (cases "ss_closed (sess st a)") (auto simp: closeSession_def [where st = st] only_index_and_tombs_def nth_list_update)
  show "length (sm_sessionHeap (closeSession a reason err st)) = length (sm_sessionHeap st)"
    using t(1) u by (cases "ss_closed (sess st a)") (auto simp: closeSession_def [where st = st] only_index_and_tombs_def)
  show "set (sm_sessions (closeSession a reason err st)) = set (sm_sessions st) - {a}"
    using t(11) u sm_inv_sessions [OF inv, of a]
    by (cases "ss_closed (sess st a)") (auto simp: closeSession_def [where st = st] only_index_and_tombs_def)
  show "sm_pendingHeap (closeSession a reason err st) = sm_pendingHeap st"
    "sm_delivering (closeSession a reason err st) = sm_delivering st"
    "sm_now (closeSession a reason err st) = sm_now st"
    "sm_tombstoneLimit (closeSession a reason err st) = sm_tombstoneLimit st"
    "sm_tombstoneTtlMs (closeSession a reason err st) = sm_tombstoneTtlMs st"
    "sm_maxOpenSessions (closeSession a reason err st) = sm_maxOpenSessions st"
    using t(2,3,7,8,9,10) u
    by (cases "ss_closed (sess st a)"; simp add: closeSession_def [where st = st] only_index_and_tombs_def)+
qed

end
