(* ===== verification/SessionOps.thy ===== *)
theory SessionOps
  imports SessionInvariant
begin

text \<open>
  Every operation of the session manager keeps the invariant, and the system of all of them: new
  sessions and streams, the passing of time, host activity, and every call of the program.
\<close>

section \<open>Every operation keeps the invariant\<close>

text \<open>The invariant with \<open>n\<close> sessions in the heap: no operation of the manager creates one.\<close>

definition inv_n :: "nat \<Rightarrow> manager \<Rightarrow> bool" where
  "inv_n n st \<longleftrightarrow> sm_inv st \<and> length (sm_sessionHeap st) = n"

lemma inv_n_view [model_inv]: "view t = view s \<Longrightarrow> inv_n n s \<Longrightarrow> inv_n n t"
  unfolding inv_n_def using sm_inv_view view_parts(10) by metis

lemma inv_n_close [model_inv]: "inv_n n st \<Longrightarrow> a < n \<Longrightarrow> inv_n n (closeSession a r e st)"
  unfolding inv_n_def using sm_inv_close closeSession_sess(2) by metis

lemma inv_n_put [model_inv]: "inv_n n st \<Longrightarrow> jm_get (sm_byExecId st) k = None \<Longrightarrow> inv_n n (putTombstone k r st)"
  by (simp add: inv_n_def sm_inv_put)

lemma remove_pending_frame [simp]:
  "length (sm_sessionHeap (remove_pending a e st)) = length (sm_sessionHeap st)"
  "sm_pendingHeap (remove_pending a e st) = sm_pendingHeap st" "sm_sessions (remove_pending a e st) = sm_sessions st"
  "sm_byExecId (remove_pending a e st) = jm_delete (ss_sessionId (sess st a), e) (sm_byExecId st)"
  by (simp_all add: remove_pending_def Let_def exec_key_def)

lemma inv_n_remove [model_inv]: "inv_n n st \<Longrightarrow> a < n \<Longrightarrow> inv_n n (remove_pending a e st)"
  by (simp add: inv_n_def sm_inv_remove)

lemma inv_n_bury [model_inv]:
  "inv_n n st \<Longrightarrow> a < n \<Longrightarrow> inv_n n (putTombstone (ss_sessionId (sess st a), e) r (remove_pending a e st))"
  by (rule inv_n_put) (simp_all add: inv_n_remove)

lemma remove_put: "remove_pending a e (putTombstone k r st) = putTombstone k r (remove_pending a e st)"
  by (simp add: remove_pending_def putTombstone_def upd_sess_def Let_def exec_key_def)

lemma inv_n_schedule [model_inv]: "inv_n n st \<Longrightarrow> inv_n n (scheduleHardDeadline a st)"
  by (rule inv_n_view) simp

lemma inv_n_progress [model_inv]: "inv_n n st \<Longrightarrow> inv_n n (recordSemanticProgress a t st)"
  by (rule inv_n_view) simp

lemma inv_n_upd_sess [model_inv]: "(\<And>s. sess_view (f s) = sess_view s) \<Longrightarrow> inv_n n st \<Longrightarrow> inv_n n (upd_sess a f st)"
  by (rule inv_n_view) (simp_all add: view_upd_sess)

lemma inv_n_sessions: "inv_n n st \<Longrightarrow> a \<in> set (sm_sessions st) \<Longrightarrow> a < n"
  using sm_inv_sessions by (auto simp: inv_n_def)

lemma inv_n_expired [model_inv]: "inv_n n st \<Longrightarrow> inv_n n (snd (some_expired a ps st))"
  "inv_n n st \<Longrightarrow> inv_n n (snd (hardDeadlineExpired a p st))"
  by (rule inv_n_view; simp)+

lemma inv_n_fold:
  assumes "\<And>st x. inv_n n st \<Longrightarrow> x \<in> set xs \<Longrightarrow> inv_n n (f x st)" and "inv_n n st"
  shows "inv_n n (fold f xs st)"
  using assms by (induction xs arbitrary: st) auto

lemma inv_n_sweep_session [model_inv]:
  assumes "inv_n n st" and "a < n" shows "inv_n n (sweep_session a st)"
  using inv_n_expired(1) [OF assms(1), of a] inv_n_close [OF _ assms(2)] assms(1)
  by (simp add: sweep_session_def split_beta)

lemma inv_n_sweep [model_inv]: "inv_n n st \<Longrightarrow> inv_n n (sweepHardDeadlines st)"
  unfolding sweepHardDeadlines_def
  by (rule inv_n_fold) (auto intro: inv_n_sweep_session dest: inv_n_sessions)

lemma inv_n_fires [model_inv]:
  assumes "inv_n n st" and "a < n" shows "inv_n n (hard_deadline_fires a st)"
proof -
  have "inv_n n (upd_sess a (\<lambda>s. s\<lparr>ss_hardDeadlineTimer := None\<rparr>) st)" by (rule inv_n_upd_sess) (simp_all add: assms)
  from this inv_n_expired(1) [OF this, of a] show ?thesis
    using inv_n_close [OF _ assms(2)] inv_n_schedule by (simp add: hard_deadline_fires_def Let_def split_beta)
qed

lemma inv_n_closeUnless [model_inv]: "inv_n n st \<Longrightarrow> a < n \<Longrightarrow> inv_n n (snd (closeUnlessPending a st))"
  by (simp add: closeUnlessPending_def inv_n_close)

lemma inv_n_terminal [model_inv]:
  assumes "inv_n n st" and "a < n" shows "inv_n n (onStreamTerminal a event st)"
proof -
  have "inv_n n (upd_sess a (\<lambda>s. s\<lparr>ss_closeError := e\<rparr>) st)" for e
    by (rule inv_n_upd_sess) (simp_all add: assms)
  moreover have "inv_n n (upd_sess a (\<lambda>s. s\<lparr>ss_deferredTerminalReason := r\<rparr>) t)" if "inv_n n t" for r t
    by (rule inv_n_upd_sess) (simp_all add: that)
  moreover have "inv_n n (holdAfterCleanClose a t)" if "inv_n n t" for t
    by (rule inv_n_view [OF _ that]) simp
  ultimately show ?thesis
    using assms by (auto simp: onStreamTerminal_def Let_def intro: inv_n_close split: option.splits stream_event.splits)
qed

lemma inv_n_subscribe [model_inv]:
  assumes "inv_n n st" and "a < n" shows "inv_n n (subscribeTerminal a st)"
proof -
  have "inv_n n (upd_sess a (\<lambda>s. s\<lparr>ss_terminalSubscription := u\<rparr>) t)" if "inv_n n t" for u t
    by (rule inv_n_upd_sess) (simp_all add: that)
  then show ?thesis
    using assms by (auto simp: subscribeTerminal_def Let_def intro: inv_n_terminal split: option.splits)
qed

lemma inv_n_stream_ends [model_inv]: "inv_n n st \<Longrightarrow> inv_n n (stream_ends x event st)"
proof -
  assume inv: "inv_n n st"
  let ?st = "st\<lparr>sm_streamHeap := (sm_streamHeap st)[x := \<lparr>bs_closed = True, bs_terminal = Some event\<rparr>]\<rparr>"
  have "inv_n n ?st" by (rule inv_n_view [OF _ inv]) (simp add: view_def)
  then have "inv_n n (fold (\<lambda>a st. if ss_terminalSubscription (sess st a) = Some x \<and> ss_stream (sess st a) = x
                 then onStreamTerminal a event st else st) (sm_sessions ?st) ?st)"
    by (intro inv_n_fold) (use inv in \<open>auto intro: inv_n_terminal dest: inv_n_sessions\<close>)
  then show ?thesis using inv by (simp add: stream_ends_def Let_def split: option.splits)
qed

lemma inv_n_bury_all:
  assumes inv: "inv_n n st" and a: "a < n" and "ss_closed (sess st a) = False"
  shows "inv_n n (snd (abandonPending a st))"
proof -
  let ?u = "drop_pendings (ss_sessionId (sess st a)) (TombTerminal HostInterrupted) (ss_pending (sess st a)) st"
  have si: "sm_inv st" and len: "a < length (sm_sessionHeap st)" using inv a by (simp_all add: inv_n_def)
  have b: "buries (ss_sessionId (sess st a)) (map fst (ss_pending (sess st a))) st ?u"
    using sm_inv_tombs [OF si] by (intro buries_drop) auto
  have heap: "sm_sessionHeap ?u = sm_sessionHeap st" using b by (simp add: buries_def only_index_and_tombs_def)
  let ?t = "upd_sess a (\<lambda>s. s\<lparr>ss_pending := []\<rparr>) ?u"
  have "sm_inv ?t"
    by (rule sm_inv_buried [OF si len b, where s' = "(sess st a)\<lparr>ss_pending := []\<rparr>"])
      (simp_all add: upd_sess_def host_session_def heap)
  then have "inv_n n ?t" using inv heap by (simp add: inv_n_def)
  then show ?thesis using assms by (simp add: abandonPending_def Let_def inv_n_schedule)
qed

lemma inv_n_abandon [model_inv]: "inv_n n st \<Longrightarrow> a < n \<Longrightarrow> inv_n n (snd (abandonPending a st))"
  using inv_n_bury_all by (cases "ss_closed (sess st a)") (auto simp: abandonPending_def)

lemma inv_n_forget [model_inv]:
  assumes "inv_n n st" and "a < n" shows "inv_n n (snd (forgetHeldExec a e p st))"
  using inv_n_remove [OF assms] assms(1)
  by (auto simp: forgetHeldExec_def Let_def intro!: inv_n_schedule inv_n_progress split: option.splits)

lemma inv_n_mark [model_inv]: "inv_n n st \<Longrightarrow> inv_n n (snd (markExecAborted a e st))"
  by (rule inv_n_view) (auto simp: markExecAborted_def view_upd_pend split: option.splits)

lemma inv_n_settle_loop: "inv_n n st \<Longrightarrow> a < n \<Longrightarrow> inv_n n (snd (settle_pendings a ps st))"
proof (induction ps arbitrary: st)
  case (Cons q ps)
  obtain e p where q: "q = (e, p)" by (cases q)
  show ?case
    using Cons.IH [OF inv_n_bury [OF Cons.prems] Cons.prems(2)] Cons.IH [OF Cons.prems] 
    by (simp add: q Let_def split_beta exec_key_def remove_put)
qed simp

lemma inv_n_settle [model_inv]: "inv_n n st \<Longrightarrow> a < n \<Longrightarrow> inv_n n (snd (settleBridgedPending a st))"
  using inv_n_settle_loop [of n st a "ss_pending (sess st a)"]
  by (auto simp: settleBridgedPending_def Let_def split_beta intro!: inv_n_schedule inv_n_progress)

text \<open>Identity fields no operation changes.\<close>

definition same_ids :: "manager \<Rightarrow> manager \<Rightarrow> bool" where
  "same_ids st t \<longleftrightarrow> length (sm_sessionHeap t) = length (sm_sessionHeap st)
     \<and> (\<forall>a < length (sm_sessionHeap st). ss_sessionId (sess t a) = ss_sessionId (sess st a)
          \<and> host_session (sess t a) = host_session (sess st a))"

lemma same_ids_refl [simp]: "same_ids st st"
  by (simp add: same_ids_def)

lemma same_ids_trans: "same_ids st t \<Longrightarrow> same_ids t u \<Longrightarrow> same_ids st u"
  by (simp add: same_ids_def)

lemma same_ids_view: "view t = view st \<Longrightarrow> same_ids st t"
  using view_parts(10) view_eqs(1,2) unfolding same_ids_def by metis

lemma same_ids_remove: "a < length (sm_sessionHeap st) \<Longrightarrow> same_ids st (remove_pending a e st)"
  by (simp add: same_ids_def remove_pending_def Let_def upd_sess_def nth_list_update host_session_def)

lemma same_ids_put: "same_ids st (putTombstone k r st)"
  by (simp add: same_ids_def)

lemma settle_loop_ids:
  assumes "a < length (sm_sessionHeap st)"
  shows "same_ids st (snd (settle_pendings a ps st)) \<and> sm_sessions (snd (settle_pendings a ps st)) = sm_sessions st"
  using assms
proof (induction ps arbitrary: st)
  case (Cons q ps)
  obtain e p where q: "q = (e, p)" by (cases q)
  let ?u = "putTombstone (ss_sessionId (sess st a), e) TombDelivered (remove_pending a e st)"
  have u: "same_ids st ?u" "sm_sessions ?u = sm_sessions st" "a < length (sm_sessionHeap ?u)"
    using same_ids_remove [OF Cons.prems] Cons.prems by (simp_all add: same_ids_def)
  show ?case
    using Cons.IH [OF u(3)] Cons.IH [OF Cons.prems] u same_ids_trans [OF u(1)]
    by (simp add: q Let_def split_beta exec_key_def remove_put)
qed simp

lemma view_sessions: "view t = view s \<Longrightarrow> sm_sessions t = sm_sessions s"
  by (rule view_parts)

lemma schedule_sessions [simp]: "sm_sessions (scheduleHardDeadline a st) = sm_sessions st"
  "sm_sessions (recordSemanticProgress a t st) = sm_sessions st"
  by (rule view_sessions; simp)+

lemma settle_ids:
  assumes "a < length (sm_sessionHeap st)"
  shows "same_ids st (snd (settleBridgedPending a st)) \<and> sm_sessions (snd (settleBridgedPending a st)) = sm_sessions st"
proof -
  have sch: "same_ids t u \<Longrightarrow> same_ids t (scheduleHardDeadline a u)" for t u
    using same_ids_view [of "scheduleHardDeadline a u" u] same_ids_trans by simp
  have prog: "same_ids t u \<Longrightarrow> same_ids t (recordSemanticProgress a None u)" for t u
    using same_ids_view [of "recordSemanticProgress a None u" u] same_ids_trans by simp
  show ?thesis
    using settle_loop_ids [OF assms, of "ss_pending (sess st a)"]
    by (auto simp: settleBridgedPending_def Let_def split_beta intro!: sch prog)
qed

lemma close_ids:
  assumes "inv_n n st" and "a < n"
  shows "same_ids st (closeSession a r e st)" "set (sm_sessions (closeSession a r e st)) = set (sm_sessions st) - {a}"
  using closeSession_sess [of a st r e] assms by (simp_all add: inv_n_def same_ids_def)

lemma supersede_spec:
  assumes inv: "inv_n n st" and p: "p < n"
  shows "inv_n n (supersede p st)" "same_ids st (supersede p st)"
    "set (sm_sessions st) - {p} \<subseteq> set (sm_sessions (supersede p st))"
proof -
  have s: "inv_n n (snd (settleBridgedPending p st))" "same_ids st (snd (settleBridgedPending p st))"
    "sm_sessions (snd (settleBridgedPending p st)) = sm_sessions st"
    using inv_n_settle [OF inv p] settle_ids [of p st] inv p by (auto simp: inv_n_def)
  show "inv_n n (supersede p st)" using inv s(1) p by (simp add: supersede_def inv_n_close Let_def)
  show "same_ids st (supersede p st)"
    using s close_ids(1) [OF s(1) p] by (auto simp: supersede_def Let_def intro: same_ids_trans)
  show "set (sm_sessions st) - {p} \<subseteq> set (sm_sessions (supersede p st))"
    using s(3) close_ids(2) [OF s(1) p] by (auto simp: supersede_def Let_def)
qed

lemma oldest_of_mem: "oldest_of f as o' = Some x \<Longrightarrow> x \<in> set as \<or> o' = Some x"
  by (induction as arbitrary: o') (auto split: option.splits if_splits)

lemma oldest_idle_mem: "oldest_idle j st = Some x \<Longrightarrow> x \<in> set (sm_sessions st) \<and> evictable j x st"
  using oldest_of_mem by (fastforce simp: oldest_idle_def)

lemma cap_loop_spec:
  assumes "inv_n n st"
  shows "inv_n n (cap_loop m j st) \<and> same_ids st (cap_loop m j st)
    \<and> (j \<in> set (sm_sessions st) \<longrightarrow> j \<in> set (sm_sessions (cap_loop m j st)))"
  using assms
proof (induction m arbitrary: st)
  case (Suc m)
  show ?case
  proof (cases "length (sm_sessions st) > sm_maxOpenSessions st \<and> oldest_idle j st \<noteq> None")
    case True
    then obtain x where x: "oldest_idle j st = Some x" by auto
    then have m: "x < n" "x \<noteq> j" using oldest_idle_mem [OF x] inv_n_sessions [OF Suc.prems] by (auto simp: evictable_def)
    let ?t = "closeSession x (Terminal OpenSessionCapExceeded) None st"
    note t = inv_n_close [OF Suc.prems m(1), of "Terminal OpenSessionCapExceeded" None]
      close_ids [OF Suc.prems m(1), of "Terminal OpenSessionCapExceeded" None]
    show ?thesis
      using True x Suc.IH [OF t(1)] t(2,3) m(2) same_ids_trans [OF t(2)] by simp
  next
    case False
    then show ?thesis using Suc.prems by (auto split: option.splits)
  qed
qed simp

lemma inv_n_enlist:
  assumes inv: "inv_n n st" and a: "a < n" "\<not> ss_closed (sess st a)" "a \<notin> set (sm_sessions st)"
  shows "inv_n n (st\<lparr>sm_sessions := sm_sessions st @ [a]\<rparr>)"
proof -
  have none: "ss_pending (sess st a) = []" using inv a by (simp add: inv_n_def sm_inv_def heap_ok_def)
  have key: "jm_get (sm_byExecId st) k \<noteq> Some a" for k
    using sm_inv_index(1) [of st "fst k" "snd k" a] inv a(3) by (auto simp: inv_n_def)
  have "heap_ok (st\<lparr>sm_sessions := sm_sessions st @ [a]\<rparr>)"
    using inv a by (auto simp: inv_n_def sm_inv_def heap_ok_def)
  moreover have "index_ok (st\<lparr>sm_sessions := sm_sessions st @ [a]\<rparr>)"
    unfolding index_ok_def
  proof (intro conjI allI)
    fix k c
    show "(jm_get (sm_byExecId (st\<lparr>sm_sessions := sm_sessions st @ [a]\<rparr>)) k = Some c) =
      (c \<in> set (sm_sessions (st\<lparr>sm_sessions := sm_sessions st @ [a]\<rparr>)) \<and>
       ss_sessionId (sess (st\<lparr>sm_sessions := sm_sessions st @ [a]\<rparr>) c) = fst k \<and>
       owed (st\<lparr>sm_sessions := sm_sessions st @ [a]\<rparr>) c (snd k) \<noteq> None)"
      using inv none key [of k] by (cases "c = a") (auto simp: inv_n_def sm_inv_def index_ok_def)
  qed (use inv in \<open>auto simp: inv_n_def sm_inv_def index_ok_def\<close>)
  ultimately show ?thesis using inv by (simp add: inv_n_def sm_inv_def pend_ok_def tomb_ok_def)
qed

lemma inv_n_set_host:
  assumes inv: "inv_n n st" and a: "a \<in> set (sm_sessions st)" "host_session (sess st a) = Some i"
  shows "inv_n n (st\<lparr>sm_byOpenCodeSessionId := jm_set i a (sm_byOpenCodeSessionId st)\<rparr>)"
proof -
  let ?t = "st\<lparr>sm_byOpenCodeSessionId := jm_set i a (sm_byOpenCodeSessionId st)\<rparr>"
  have "heap_ok ?t = heap_ok st" "pend_ok ?t = pend_ok st" "tomb_ok ?t = tomb_ok st"
    by (simp_all add: heap_ok_def pend_ok_def tomb_ok_def)
  moreover have "index_ok ?t" using inv a by (simp add: inv_n_def sm_inv_def index_ok_def)
  ultimately show ?thesis using inv by (simp add: inv_n_def sm_inv_def)
qed

lemma onStreamTerminal_cases:
  "view (onStreamTerminal a ev st) = view st
   \<or> (\<exists>u r e. view u = view st \<and> \<not> ss_closed (sess st a) \<and> onStreamTerminal a ev st = closeSession a r e u)"
proof (cases "ev = EvLocalClose \<or> ss_closed (sess st a)")
  case False
  have v: "view (upd_sess a (\<lambda>s. s\<lparr>ss_closeError := e\<rparr>) st) = view st" for e by (simp add: view_upd_sess)
  have w: "view (upd_sess a (\<lambda>s. s\<lparr>ss_deferredTerminalReason := r\<rparr>) t) = view t" for r t by (simp add: view_upd_sess)
  let ?err = "case ev of EvError e \<Rightarrow> Some e | _ \<Rightarrow> None" and ?r = "case ev of EvError e \<Rightarrow> RemoteError | _ \<Rightarrow> RemoteCleanClose"
  let ?u = "case ?err of None \<Rightarrow> st | Some e \<Rightarrow> upd_sess a (\<lambda>s. s\<lparr>ss_closeError := Some e\<rparr>) st"
  have u: "view ?u = view st" using v by (cases ev) auto
  have "onStreamTerminal a ev st = (if ?r = RemoteCleanClose \<and> ss_pumpOwner (sess ?u a) = None \<and> holdsOnlyAnsweredWork a ?u
      then holdAfterCleanClose a ?u
      else if ss_pumpOwner (sess ?u a) \<noteq> None \<or> ss_hostInterrupted (sess ?u a)
      then upd_sess a (\<lambda>s. s\<lparr>ss_deferredTerminalReason := Some ?r\<rparr>) ?u
      else closeSession a (Terminal ?r) ?err ?u)"
    using False by (simp add: onStreamTerminal_def Let_def)
  then consider "onStreamTerminal a ev st = holdAfterCleanClose a ?u"
    | "onStreamTerminal a ev st = upd_sess a (\<lambda>s. s\<lparr>ss_deferredTerminalReason := Some ?r\<rparr>) ?u"
    | "onStreamTerminal a ev st = closeSession a (Terminal ?r) ?err ?u"
    by presburger
  then show ?thesis
  proof cases
    case 1 then show ?thesis using u view_hold [of a ?u] by simp
  next
    case 2 then show ?thesis using u w [of _ ?u] by simp
  next
    case 3 then show ?thesis using u False by blast
  qed
qed (auto simp: onStreamTerminal_def)

lemma subscribe_spec:
  assumes inv: "inv_n n st" and a: "a < n"
  shows "same_ids st (subscribeTerminal a st)"
    "a \<in> set (sm_sessions st) \<Longrightarrow> \<not> ss_closed (sess (subscribeTerminal a st) a) \<Longrightarrow>
       a \<in> set (sm_sessions (subscribeTerminal a st))"
    "set (sm_sessions st) - {a} \<subseteq> set (sm_sessions (subscribeTerminal a st))"
proof -
  have len: "a < length (sm_sessionHeap st)" using inv a by (simp add: inv_n_def)
  have sub: "view (upd_sess a (\<lambda>s. s\<lparr>ss_terminalSubscription := u\<rparr>) t) = view t" for u t
    by (simp add: view_upd_sess)
  have "view (subscribeTerminal a st) = view st
     \<or> (\<exists>u r e. view u = view st \<and> \<not> ss_closed (sess st a) \<and> view (subscribeTerminal a st) = view (closeSession a r e u))"
  proof (cases "bs_terminal (sm_streamHeap st ! ss_stream (sess st a))")
    case None
    then show ?thesis using sub by (simp add: subscribeTerminal_def Let_def)
  next
    case (Some ev)
    then have v: "view (subscribeTerminal a st) = view (onStreamTerminal a ev st)"
      using sub by (simp add: subscribeTerminal_def Let_def)
    show ?thesis using onStreamTerminal_cases [of a ev st] unfolding v by metis
  qed
  then show "same_ids st (subscribeTerminal a st)"
    "a \<in> set (sm_sessions st) \<Longrightarrow> \<not> ss_closed (sess (subscribeTerminal a st) a) \<Longrightarrow>
       a \<in> set (sm_sessions (subscribeTerminal a st))"
    "set (sm_sessions st) - {a} \<subseteq> set (sm_sessions (subscribeTerminal a st))"
  proof (atomize (full), elim disjE exE conjE)
    assume v: "view (subscribeTerminal a st) = view st"
    then show "same_ids st (subscribeTerminal a st) \<and>
      (a \<in> set (sm_sessions st) \<longrightarrow> \<not> ss_closed (sess (subscribeTerminal a st) a) \<longrightarrow> a \<in> set (sm_sessions (subscribeTerminal a st))) \<and>
      set (sm_sessions st) - {a} \<subseteq> set (sm_sessions (subscribeTerminal a st))"
      using same_ids_view [OF v] view_sessions [OF v] by auto
  next
    fix u r e
    assume u: "view u = view st" and open_a: "\<not> ss_closed (sess st a)"
      and v: "view (subscribeTerminal a st) = view (closeSession a r e u)"
    have inv_u: "inv_n n u" by (rule inv_n_view [OF u inv])
    have ids: "same_ids st (subscribeTerminal a st)"
      using same_ids_view [OF u] close_ids(1) [OF inv_u a, of r e] same_ids_view [OF v] same_ids_trans by blast
    have "ss_closed (sess (closeSession a r e u) a)"
      using closeSession_sess(1) [of a u r e a] inv_u a view_eqs(3) [OF u len] open_a by (simp add: inv_n_def)
    moreover have "a < length (sm_sessionHeap (closeSession a r e u))"
      using close_ids(1) [OF inv_u a, of r e] inv_u a by (simp add: same_ids_def inv_n_def)
    ultimately have "ss_closed (sess (subscribeTerminal a st) a)" using view_eqs(3) [OF v] by simp
    then show "same_ids st (subscribeTerminal a st) \<and>
      (a \<in> set (sm_sessions st) \<longrightarrow> \<not> ss_closed (sess (subscribeTerminal a st) a) \<longrightarrow> a \<in> set (sm_sessions (subscribeTerminal a st))) \<and>
      set (sm_sessions st) - {a} \<subseteq> set (sm_sessions (subscribeTerminal a st))"
      using ids view_sessions [OF v] close_ids(2) [OF inv_u a, of r e] view_sessions [OF u] by auto
  qed
qed

text \<open>A session registered without an error is on the list unless its stream's end closed it at once.\<close>

lemma registerSession_spec:
  assumes inv: "inv_n n st" and a: "a < n" and reg: "registerSession a st = (err, t)"
  shows "inv_n n t" "same_ids st t" "err = None \<Longrightarrow> \<not> ss_closed (sess t a) \<Longrightarrow> a \<in> set (sm_sessions t)"
proof -
  have "inv_n n t \<and> same_ids st t \<and> (err = None \<longrightarrow> \<not> ss_closed (sess t a) \<longrightarrow> a \<in> set (sm_sessions t))"
  proof (cases "ss_closed (sess st a) \<or> a \<in> set (sm_sessions st)")
    case True
    then show ?thesis using reg inv by (auto simp: registerSession_def split: if_splits)
  next
    case False
    let ?st1 = "st\<lparr>sm_sessions := sm_sessions st @ [a]\<rparr>"
    have 1: "inv_n n ?st1" "a \<in> set (sm_sessions ?st1)" "same_ids st ?st1"
      using inv_n_enlist [OF inv a] False by (auto simp: same_ids_def)
    define st2 where "st2 = (case host_session (sess st a) of
                    None \<Rightarrow> ?st1
                  | Some i \<Rightarrow>
                      (let st' = (case jm_get (sm_byOpenCodeSessionId ?st1) i of
                           None \<Rightarrow> ?st1
                         | Some prior \<Rightarrow> if prior \<noteq> a \<and> \<not> ss_closed (sess ?st1 prior) then supersede prior ?st1 else ?st1)
                       in st'\<lparr>sm_byOpenCodeSessionId := jm_set i a (sm_byOpenCodeSessionId st')\<rparr>))"
    have 2: "inv_n n st2 \<and> same_ids st st2 \<and> a \<in> set (sm_sessions st2)"
    proof (cases "host_session (sess st a)")
      case None
      then show ?thesis using 1 by (simp add: st2_def)
    next
      case (Some i)
      define st' where "st' = (case jm_get (sm_byOpenCodeSessionId ?st1) i of
                           None \<Rightarrow> ?st1
                         | Some prior \<Rightarrow> if prior \<noteq> a \<and> \<not> ss_closed (sess ?st1 prior) then supersede prior ?st1 else ?st1)"
      have prior: "p < n" if "jm_get (sm_byOpenCodeSessionId st) i = Some p" for p
        using inv that inv_n_sessions [OF inv] unfolding inv_n_def sm_inv_def index_ok_def by blast
      have "inv_n n st' \<and> same_ids st st' \<and> a \<in> set (sm_sessions st')"
      proof (cases "jm_get (sm_byOpenCodeSessionId st) i")
        case None
        then show ?thesis using 1 by (simp add: st'_def)
      next
        case p: (Some p)
        have "a \<in> set (sm_sessions (supersede p ?st1))" if "p \<noteq> a"
          using supersede_spec(3) [OF 1(1) prior [OF p]] 1(2) that by blast
        then show ?thesis
          using 1 p supersede_spec(1,2) [OF 1(1) prior [OF p]] same_ids_trans [OF 1(3)] by (auto simp: st'_def)
      qed
      moreover have "st2 = st'\<lparr>sm_byOpenCodeSessionId := jm_set i a (sm_byOpenCodeSessionId st')\<rparr>"
        using Some by (simp add: st2_def st'_def Let_def)
      ultimately show ?thesis
        using inv_n_set_host [of n st' a i] Some inv a by (auto simp: same_ids_def inv_n_def)
    qed
    let ?st3 = "enforceOpenSessionCap a st2"
    have 3: "inv_n n ?st3 \<and> same_ids st2 ?st3 \<and> a \<in> set (sm_sessions ?st3)"
      using cap_loop_spec [of n st2 "length (sm_sessions st2)" a] 2 by (simp add: enforceOpenSessionCap_def)
    have "t = subscribeTerminal a ?st3" "err = None"
      using reg False by (simp_all add: registerSession_def Let_def st2_def)
    then show ?thesis
      using 2 3 a inv_n_subscribe [of n ?st3 a] subscribe_spec [of n ?st3 a] same_ids_trans by blast
  qed
  then show "inv_n n t" "same_ids st t" "err = None \<Longrightarrow> \<not> ss_closed (sess t a) \<Longrightarrow> a \<in> set (sm_sessions t)" by auto
qed

text \<open>A fresh pending exec is filed for a listed session, in the place of an earlier one with its id.\<close>

lemma inv_n_add_pending:
  fixes e :: int
  assumes inv: "inv_n n st" and a: "a \<in> set (sm_sessions st)" and new: "pe_state x = Pending"
  defines "k \<equiv> (ss_sessionId (sess st a), e)"
  shows "inv_n n ((upd_sess a (\<lambda>s. s\<lparr>ss_pending := jm_set e (length (sm_pendingHeap st)) (ss_pending s)\<rparr>)
      (st\<lparr>sm_tombstones := jm_delete k (sm_tombstones st), sm_pendingHeap := sm_pendingHeap st @ [x]\<rparr>))
        \<lparr>sm_byExecId := jm_set k a (sm_byExecId st)\<rparr>)" 
proof -
  define t where "t = (upd_sess a (\<lambda>s. s\<lparr>ss_pending := jm_set e (length (sm_pendingHeap st)) (ss_pending s)\<rparr>)
      (st\<lparr>sm_tombstones := jm_delete k (sm_tombstones st), sm_pendingHeap := sm_pendingHeap st @ [x]\<rparr>))
        \<lparr>sm_byExecId := jm_set k a (sm_byExecId st)\<rparr>"
  let ?p = "length (sm_pendingHeap st)"
  have si: "sm_inv st" and n: "length (sm_sessionHeap st) = n" using inv by (simp_all add: inv_n_def)
  have an: "a < length (sm_sessionHeap st)" using sm_inv_sessions [OF si a] by simp
  have sess: "sess t b = (if b = a then (sess st a)\<lparr>ss_pending := jm_set e ?p (ss_pending (sess st a))\<rparr> else sess st b)" for b
    using an by (simp add: t_def upd_sess_def nth_list_update)
  have frame: "sm_sessions t = sm_sessions st" "length (sm_sessionHeap t) = length (sm_sessionHeap st)"
    "sm_pendingHeap t = sm_pendingHeap st @ [x]" "sm_delivering t = sm_delivering st"
    "sm_byOpenCodeSessionId t = sm_byOpenCodeSessionId st" "sm_toolCallRoutes t = sm_toolCallRoutes st"
    "sm_tombstoneLimit t = sm_tombstoneLimit st" "sm_byExecId t = jm_set k a (sm_byExecId st)"
    "sm_tombstones t = jm_delete k (sm_tombstones st)"
    by (simp_all add: t_def upd_sess_def)
  have owe: "owed t b f = (if b = a \<and> f = e then Some ?p else owed st b f)" for b f
    by (simp add: sess)
  have same: "ss_sessionId (sess t b) = ss_sessionId (sess st b)" "host_session (sess t b) = host_session (sess st b)"
    "ss_closed (sess t b) = ss_closed (sess st b)" for b
    by (simp_all add: sess host_session_def)
  have pb: "p < ?p" "pe_state (pend st p) \<noteq> Delivered" if "owed st b f = Some p" "b < length (sm_sessionHeap st)" for b f p
    using si that unfolding sm_inv_def pend_ok_def by blast+
  have 1: "heap_ok t"
    using si a unfolding sm_inv_def heap_ok_def frame same by (auto simp: sess)
  have uniq: "b = a" if "b \<in> set (sm_sessions st)" "ss_sessionId (sess st b) = ss_sessionId (sess st a)" for b
    using that an sm_inv_sessions [OF si that(1)] si by (auto simp: sm_inv_def heap_ok_def)
  have 2: "index_ok t"
    unfolding index_ok_def frame same owe
  proof (intro conjI allI)
    fix j b
    show "(jm_get (jm_set k a (sm_byExecId st)) j = Some b) =
        (b \<in> set (sm_sessions st) \<and> ss_sessionId (sess st b) = fst j \<and> (if b = a \<and> snd j = e then Some ?p else owed st b (snd j)) \<noteq> None)"
      using si a uniq [of b] by (cases j) (auto simp: sm_inv_def index_ok_def k_def)
  qed (use si in \<open>auto simp: sm_inv_def index_ok_def\<close>)
  have inj: "b = c \<and> f = g" if "owed st b f = Some p" "owed st c g = Some p" "b < length (sm_sessionHeap st)" "c < length (sm_sessionHeap st)" for b c f g p
    using si that unfolding sm_inv_def pend_ok_def by blast
  have 3: "pend_ok t"
    unfolding pend_ok_def frame owe
  proof (intro conjI allI impI ballI)
    fix b f p assume b: "b < length (sm_sessionHeap st)" "(if b = a \<and> f = e then Some ?p else owed st b f) = Some p"
    show "p < length (sm_pendingHeap st @ [x])" using b pb(1) by (force split: if_splits)
    show "pe_state ((sm_pendingHeap st @ [x]) ! p) \<noteq> Delivered"
      using b pb new by (auto split: if_splits simp: nth_append)
  next
    fix b f c g p
    assume b: "b < length (sm_sessionHeap st)" "c < length (sm_sessionHeap st)"
      and o: "(if b = a \<and> f = e then Some ?p else owed st b f) = Some p" "(if c = a \<and> g = e then Some ?p else owed st c g) = Some p"
    then have "b = c \<and> f = g" using inj [of b f p c g] pb(1) by (auto split: if_splits)
    then show "b = c" "f = g" by auto
  next
    fix p assume p: "p \<in> set (sm_delivering st)"
    then have "p < ?p" "pe_state (pend st p) \<noteq> Pending" using si by (auto simp: sm_inv_def pend_ok_def)
    then show "p < length (sm_pendingHeap st @ [x])" "pe_state ((sm_pendingHeap st @ [x]) ! p) \<noteq> Pending"
      by (simp_all add: nth_append)
  qed
  have "length (jm_delete k (sm_tombstones st)) \<le> sm_tombstoneLimit st"
    using si length_delete_le [of k "sm_tombstones st"] by (simp add: sm_inv_def tomb_ok_def)
  then have 4: "tomb_ok t"
    using si unfolding sm_inv_def tomb_ok_def frame by auto
  show ?thesis unfolding t_def [symmetric] using 1 2 3 4 n frame(2) unfolding inv_n_def sm_inv_def by simp
qed

lemma inv_n_registerPending [model_inv]:
  assumes inv: "inv_n n st" and a: "a < n"
  shows "inv_n n (snd (registerPending e a rf tn br jd an st))"
proof -
  obtain err t where reg: "registerSession a st = (err, t)" by (cases "registerSession a st")
  note spec = registerSession_spec [OF inv a reg]
  show ?thesis
  proof (cases "err = None \<and> \<not> ss_closed (sess t a)")
    case True
    then have "a \<in> set (sm_sessions t)" using spec(3) by simp
    from inv_n_schedule [OF inv_n_add_pending [OF spec(1) this]] show ?thesis
      using True reg by (simp add: registerPending_def Let_def exec_key_def)
  next
    case False
    then show ?thesis using reg spec(1) by (auto simp: registerPending_def split: option.splits)
  qed
qed

lemma inv_n_tombstone [model_inv]: "inv_n n st \<Longrightarrow> inv_n n (snd (classify_tombstone k st))"
proof -
  assume inv: "inv_n n st"
  have "inv_n n (st\<lparr>sm_tombstones := jm_delete k (sm_tombstones st)\<rparr>)"
    using inv length_delete_le [of k "sm_tombstones st"]
    by (auto simp: inv_n_def sm_inv_def tomb_ok_def heap_ok_def index_ok_def pend_ok_def)
  then show ?thesis
    using inv by (auto simp: classify_tombstone_def getTombstone_def split: option.splits tomb_reason.splits)
qed

text \<open>A stale index entry: closing its session removes it again.\<close>

lemma close_after_delete:
  assumes inv: "sm_inv st" and k: "jm_get (sm_byExecId st) (sid, e) = Some a"
  shows "inv_n (length (sm_sessionHeap st)) (closeSession a r err (st\<lparr>sm_byExecId := jm_delete (sid, e) (sm_byExecId st)\<rparr>))"
proof -
  let ?u = "st\<lparr>sm_byExecId := jm_delete (sid, e) (sm_byExecId st)\<rparr>"
  have a: "a \<in> set (sm_sessions st)" "ss_sessionId (sess st a) = sid" "\<exists>p. owed st a e = Some p"
    using sm_inv_index [OF inv k] by auto
  have open_a: "\<not> ss_closed (sess st a)" and len: "a < length (sm_sessionHeap st)" using sm_inv_sessions [OF inv a(1)] by auto
  let ?c = "close_pendings (ss_sessionId (sess ?u a)) r (ss_pending (sess ?u a)) ?u"
  have wf: "jm_wf (sm_tombstones ?u)" "0 < sm_tombstoneLimit ?u" "length (sm_tombstones ?u) \<le> sm_tombstoneLimit ?u"
    using sm_inv_tombs [OF inv] by simp_all
  have b0: "buries (ss_sessionId (sess ?u a)) (map fst (ss_pending (sess ?u a))) ?u ?c" by (rule buries_close [OF wf])
  have e: "e \<in> fst ` set (ss_pending (sess st a))" using a(3) by (metis map_of_eq_None_iff option.distinct(1))
  have b: "buries (ss_sessionId (sess st a)) (map fst (ss_pending (sess st a))) st ?c"
    using b0 e a(2) unfolding buries_def by (auto simp: only_index_and_tombs_def)
  have open_u: "\<not> ss_closed (sess ?u a)" using open_a by simp
  note t = closeSession_open [OF open_u, of r err]
  have host: "sm_byOpenCodeSessionId ?c = sm_byOpenCodeSessionId st" and heap: "sm_sessionHeap ?c = sm_sessionHeap st"
    using b by (simp_all add: buries_def only_index_and_tombs_def)
  have own: "host_session (sess st a) = Some j" if "jm_get (sm_byOpenCodeSessionId st) j = Some a" for j
    using inv that unfolding sm_inv_def index_ok_def by blast
  have byoc: "jm_get (sm_byOpenCodeSessionId (closeSession a r err ?u)) i = Some c \<longleftrightarrow>
      jm_get (sm_byOpenCodeSessionId ?c) i = Some c \<and> c \<noteq> a" for i c
    using delete_owner [where m = "sm_byOpenCodeSessionId st" and h = "host_session (sess st a)" and a = a, OF own]
    unfolding t(12) host by simp
  have "sm_inv (closeSession a r err ?u)"
    by (rule sm_inv_buried [OF inv len b t(1)]) (use t byoc heap in simp_all)
  then show ?thesis using t(1) heap by (simp add: inv_n_def)
qed

lemma inv_n_classify [model_inv]:
  assumes inv: "inv_n n st" shows "inv_n n (snd (classify sid e st))"
proof (cases "jm_get (sm_byExecId st) (sid, e)")
  case None
  then show ?thesis using inv by (simp add: classify_def exec_key_def inv_n_tombstone)
next
  case (Some a)
  have si: "sm_inv st" and n: "length (sm_sessionHeap st) = n" using inv by (simp_all add: inv_n_def)
  obtain p where p: "owed st a e = Some p" using sm_inv_index(3) [OF si Some] by blast
  have a: "a \<in> set (sm_sessions st)" using sm_inv_index(1) [OF si Some] .
  have open_a: "\<not> ss_closed (sess st a)" and an: "a < n" using sm_inv_sessions [OF si a] n by auto
  let ?d = "hardDeadlineExpired a p st"
  have d: "inv_n n (snd ?d)" by (rule inv_n_expired(2) [OF inv])
  have stale: "inv_n n (closeSession a (Terminal RemoteCleanClose) None (st\<lparr>sm_byExecId := jm_delete (sid, e) (sm_byExecId st)\<rparr>))"
    using close_after_delete [OF si Some] n by simp
  show ?thesis
  proof (cases ?d)
    case (Pair x st1)
    then have "inv_n n st1" using d by simp
    then show ?thesis
      using Pair Some p open_a inv_n_tombstone [OF stale] inv_n_tombstone [OF inv_n_close [OF _ an]]
      by (auto simp: classify_def exec_key_def Let_def split: bool.splits pending_state.splits)
  qed
qed

section \<open>Delivery\<close>

lemma upd_pend_frame [simp]:
  "sm_sessionHeap (upd_pend p f st) = sm_sessionHeap st" "sm_sessions (upd_pend p f st) = sm_sessions st"
  "sm_byExecId (upd_pend p f st) = sm_byExecId st" "sm_tombstones (upd_pend p f st) = sm_tombstones st"
  "sm_delivering (upd_pend p f st) = sm_delivering st" "length (sm_pendingHeap (upd_pend p f st)) = length (sm_pendingHeap st)"
  "sm_now (upd_pend p f st) = sm_now st" "sm_tombstoneLimit (upd_pend p f st) = sm_tombstoneLimit st"
  "sm_tombstoneTtlMs (upd_pend p f st) = sm_tombstoneTtlMs st" "sm_toolCallRoutes (upd_pend p f st) = sm_toolCallRoutes st"
  "sm_byOpenCodeSessionId (upd_pend p f st) = sm_byOpenCodeSessionId st"
  by (simp_all add: upd_pend_def)

lemma pend_upd: "pend (upd_pend p f st) q = (if q = p \<and> p < length (sm_pendingHeap st) then f (pend st p) else pend st q)"
  by (auto simp: upd_pend_def not_less list_update_beyond)

lemma inv_n_pend_state:
  assumes inv: "inv_n n st" and ok: "\<And>x. pe_state (f x) \<noteq> Pending"
    and free: "(\<forall>x. pe_state (f x) \<noteq> Delivered) \<or> (\<forall>a < n. \<forall>e. owed st a e \<noteq> Some p)"
  shows "inv_n n (upd_pend p f st)"
proof -
  let ?t = "upd_pend p f st"
  have si: "sm_inv st" and n: "length (sm_sessionHeap st) = n" using inv by (simp_all add: inv_n_def)
  have "heap_ok ?t = heap_ok st" "index_ok ?t = index_ok st" "tomb_ok ?t = tomb_ok st"
    by (simp_all add: heap_ok_def index_ok_def tomb_ok_def)
  moreover have "pend_ok ?t"
    using si ok free unfolding sm_inv_def pend_ok_def upd_pend_frame pend_upd n by auto
  ultimately show ?thesis using si n by (simp add: inv_n_def sm_inv_def)
qed

lemma inv_n_claim [model_inv]: "inv_n n st \<Longrightarrow> inv_n n (snd (claim_exec sid e st))"
  using inv_n_classify [of n st sid e]
  by (auto simp: claim_exec_def intro!: inv_n_pend_state split: prod.splits classification.splits)

lemma unavailable_None:
  assumes "unavailable cl k st = (None, st1)"
  shows "st1 = st" "\<not> ss_closed (sess st (cl_session cl))" "owed st (cl_session cl) (cl_execId cl) = Some (cl_pending cl)"
    "jm_get (sm_byExecId st) (ss_sessionId (sess st (cl_session cl)), cl_execId cl) = Some (cl_session cl)"
  using assms by (auto simp: unavailable_def Let_def exec_key_def split: if_splits prod.splits classification.splits)

lemma inv_n_unavailable [model_inv]: "inv_n n st \<Longrightarrow> inv_n n (snd (unavailable cl k st))"
  using inv_n_classify [of n st "ss_sessionId (sess st (cl_session cl))" "cl_execId cl"]
  by (auto simp: unavailable_def Let_def split: prod.splits classification.splits)

lemma inv_n_catch [model_inv]:
  assumes "inv_n n st" and "cl_session cl < n" shows "inv_n n (snd (deliver_catch cl k st))"
  using inv_n_unavailable [OF assms(1), of cl k] assms(2)
  by (auto simp: deliver_catch_def Let_def intro: inv_n_close split: prod.splits option.splits)

lemma remove_commutes:
  "remove_pending a e (upd_pend p f st) = upd_pend p f (remove_pending a e st)"
  by (simp add: remove_pending_def upd_pend_def upd_sess_def Let_def)

lemma remove_upd_sess:
  assumes "\<And>s. ss_sessionId (f s) = ss_sessionId s"
    and "\<And>s x. (f s)\<lparr>ss_pending := jm_delete e (ss_pending (f s))\<rparr> = f (s\<lparr>ss_pending := jm_delete e (ss_pending s)\<rparr>)"
  shows "remove_pending a e (upd_sess a f st) = upd_sess a f (remove_pending a e st)"
  using assms by (cases "a < length (sm_sessionHeap st)") (simp_all add: remove_pending_def upd_sess_def Let_def exec_key_def not_less list_update_beyond)

lemma owed_remove:
  assumes "a < length (sm_sessionHeap st)"
  shows "owed (remove_pending a e st) b f = (if b = a \<and> f = e then None else owed st b f)"
  using assms by (simp add: remove_pending_def Let_def upd_sess_def nth_list_update)

text \<open>The state in which \<open>deliver_finish\<close> leaves the manager, in a normal form.\<close>

definition delivered_state :: "claim \<Rightarrow> manager \<Rightarrow> manager" where
  "delivered_state cl st =
     (let a = cl_session cl; u = upd_pend (cl_pending cl) (\<lambda>x. x\<lparr>pe_state := Delivered\<rparr>) (remove_pending a (cl_execId cl) st)
      in putTombstone (ss_sessionId (sess st a), cl_execId cl) TombDelivered u)"

lemma inv_n_delivered_state:
  assumes inv: "inv_n n st" and a: "cl_session cl < n" and o': "owed st (cl_session cl) (cl_execId cl) = Some (cl_pending cl)"
  shows "inv_n n (delivered_state cl st)"
proof -
  let ?a = "cl_session cl" and ?e = "cl_execId cl" and ?p = "cl_pending cl"
  have si: "sm_inv st" and n: "length (sm_sessionHeap st) = n" using inv by (simp_all add: inv_n_def)
  have "owed (remove_pending ?a ?e st) b f \<noteq> Some ?p" if "b < n" for b f
  proof
    assume "owed (remove_pending ?a ?e st) b f = Some ?p"
    then have "owed st b f = Some ?p" "\<not> (b = ?a \<and> f = ?e)" using a n by (auto simp: owed_remove split: if_splits)
    moreover have "b = ?a \<and> f = ?e"
      using si calculation(1) o' that a n unfolding sm_inv_def pend_ok_def by blast
    ultimately show False by blast
  qed
  then have "inv_n n (upd_pend ?p (\<lambda>x. x\<lparr>pe_state := Delivered\<rparr>) (remove_pending ?a ?e st))"
    by (intro inv_n_pend_state inv_n_remove [OF inv a]) auto
  then show ?thesis unfolding delivered_state_def Let_def by (rule inv_n_put) simp
qed

lemma deliver_finish_view:
  assumes a: "cl_session cl < length (sm_sessionHeap st)"
  shows "view (snd (deliver_finish cl k st)) = view (delivered_state cl st)"
proof -
  let ?a = "cl_session cl" and ?e = "cl_execId cl" and ?p = "cl_pending cl"
  let ?D = "\<lambda>x :: pending_exec. x\<lparr>pe_state := Delivered\<rparr>" and ?A = "\<lambda>s. s\<lparr>ss_answeredContinuation := True\<rparr>"
  let ?st1 = "upd_pend ?p ?D st"
  define st2 where "st2 = (if pe_answered (pend ?st1 ?p) then upd_sess ?a ?A ?st1 else ?st1)"
  let ?key = "(ss_sessionId (sess st ?a), ?e)"
  have sid: "ss_sessionId (sess st2 ?a) = ss_sessionId (sess st ?a)" using a by (simp add: st2_def upd_sess_def)
  have "view (remove_pending ?a ?e st2) = view (upd_pend ?p ?D (remove_pending ?a ?e st))"
  proof -
    have "remove_pending ?a ?e (upd_sess ?a ?A ?st1) = upd_sess ?a ?A (upd_pend ?p ?D (remove_pending ?a ?e st))"
      by (subst remove_upd_sess) (simp_all add: remove_commutes)
    then show ?thesis by (simp add: st2_def remove_commutes view_upd_sess)
  qed
  then have "view (putTombstone ?key TombDelivered (remove_pending ?a ?e st2)) = view (delivered_state cl st)"
    by (simp add: delivered_state_def Let_def view_def putTombstone_def)
  moreover have "view (snd (deliver_finish cl k st)) = view (remove_pending ?a ?e (putTombstone ?key TombDelivered st2))"
    using sid by (simp add: deliver_finish_def Let_def st2_def exec_key_def)
  ultimately show ?thesis by (simp add: remove_put)
qed

lemma inv_n_finish [model_inv]:
  assumes inv: "inv_n n st" and a: "cl_session cl < n" and o': "owed st (cl_session cl) (cl_execId cl) = Some (cl_pending cl)"
  shows "inv_n n (snd (deliver_finish cl k st))"
  using inv_n_view [OF deliver_finish_view inv_n_delivered_state [OF assms]] a inv by (simp add: inv_n_def)

lemma inv_n_deliver_begin [model_inv]:
  assumes inv: "inv_n n st" and a: "cl_session cl < n"
  shows "inv_n n (snd (deliver_begin cl k rd st))"
proof (cases "unavailable cl 0 st")
  case (Pair r st1)
  show ?thesis
  proof (cases r)
    case (Some x)
    then show ?thesis using Pair inv_n_unavailable [OF inv, of cl 0] by (simp add: deliver_begin_def)
  next
    case None
    let ?p = "cl_pending cl" and ?a = "cl_session cl"
    note un = unavailable_None [OF Pair [unfolded None]]
    show ?thesis
    proof (cases "pe_state (pend st ?p) \<noteq> Claimed \<or> ?p \<in> set (sm_delivering st)")
      case True
      then show ?thesis using Pair None un(1) inv by (auto simp: deliver_begin_def Let_def)
    next
      case False
      obtain b st2 where d: "hardDeadlineExpired ?a ?p st = (b, st2)" by (cases "hardDeadlineExpired ?a ?p st")
      have v: "view st2 = view st" using view_expired [of ?a ?p st] d by simp
      have inv2: "inv_n n st2" by (rule inv_n_view [OF v inv])
      have len: "?a < length (sm_sessionHeap st)" using a inv by (simp add: inv_n_def)
      have p: "?p < length (sm_pendingHeap st)"
        using un(3) inv len unfolding inv_n_def sm_inv_def pend_ok_def by blast
      have st_p: "pe_state (pend st2 ?p) = Claimed" using view_state [OF v p] False by simp
      let ?st3 = "st2\<lparr>sm_delivering := ?p # sm_delivering st2\<rparr>"
      have p2: "?p < length (sm_pendingHeap st2)" using p view_parts(11) [OF v] by simp
      have inv3: "inv_n n ?st3"
      proof -
        have "heap_ok ?st3 = heap_ok st2" "index_ok ?st3 = index_ok st2" "tomb_ok ?st3 = tomb_ok st2"
          by (simp_all add: heap_ok_def index_ok_def tomb_ok_def)
        moreover have "pend_ok ?st3"
          using inv2 st_p p2 unfolding inv_n_def sm_inv_def pend_ok_def by simp
        ultimately show ?thesis using inv2 by (simp add: inv_n_def sm_inv_def)
      qed
      have own: "owed ?st3 ?a (cl_execId cl) = Some ?p"
        using un(3) view_eqs(4) [OF v len] by simp
      show ?thesis
        using Pair None un(1) False d inv_n_close [OF inv2 a] inv_n_catch [OF inv3 a] inv_n_finish [OF inv3 a own] inv3
        by (cases b) (auto simp: deliver_begin_def Let_def split_beta)
    qed
  qed
qed

lemma inv_n_deliver_written [model_inv]:
  assumes inv: "inv_n n st" and a: "cl_session (dl_claim d) < n"
  shows "inv_n n (snd (deliver_written d st))"
proof (cases "unavailable (dl_claim d) (Suc (dl_written d)) st")
  case (Pair r st1)
  show ?thesis
  proof (cases r)
    case (Some x)
    then show ?thesis using Pair inv_n_unavailable [OF inv, of "dl_claim d" "Suc (dl_written d)"]
      by (simp add: deliver_written_def Let_def)
  next
    case None
    note un = unavailable_None [OF Pair [unfolded None]]
    show ?thesis
      using Pair None un inv inv_n_finish [OF inv a un(3)] by (auto simp: deliver_written_def Let_def split_beta)
  qed
qed

lemma inv_n_deliver_failed [model_inv]:
  "inv_n n st \<Longrightarrow> cl_session (dl_claim d) < n \<Longrightarrow> inv_n n (snd (deliver_failed d acc st))"
  by (simp add: deliver_failed_def inv_n_catch)

lemma inv_n_findBy [model_inv]: "inv_n n st \<Longrightarrow> inv_n n (snd (findByExecIds sid is st))"
proof (induction "is" arbitrary: st)
  case (Cons i "is")
  obtain c t where c: "classify sid i st = (c, t)" by (cases "classify sid i st")
  have "inv_n n t" using inv_n_classify [OF Cons.prems, of sid i] c by simp
  then show ?case using Cons.IH c by (cases c) auto
qed simp

lemma jm_delete_absent: "jm_get m k = None \<Longrightarrow> jm_delete k m = m"
  by (auto simp: jm_delete_filter map_of_eq_None_iff filter_id_conv image_iff)

lemma inv_n_resolve [model_inv]:
  assumes inv: "inv_n n st" shows "inv_n n (resolve sid e st)"
proof (cases "jm_get (sm_byExecId st) (sid, e)")
  case None
  then have "resolve sid e st = st" by (simp add: resolve_def exec_key_def jm_delete_absent)
  then show ?thesis using inv by simp
next
  case (Some a)
  have si: "sm_inv st" and n: "length (sm_sessionHeap st) = n" using inv by (simp_all add: inv_n_def)
  have a: "a < n" "ss_sessionId (sess st a) = sid"
    using sm_inv_index(1,2) [OF si Some] sm_inv_sessions [OF si] n by auto
  let ?X = "putTombstone (sid, e) TombDelivered (upd_sess a (\<lambda>s. s\<lparr>ss_pending := jm_delete e (ss_pending s)\<rparr>) st)"
  have del: "view (t\<lparr>sm_byExecId := m\<rparr>) = view (u\<lparr>sm_byExecId := m\<rparr>)" if "view t = view u" for t u m
    using that by (simp add: view_def)
  have "?X\<lparr>sm_byExecId := jm_delete (sid, e) (sm_byExecId st)\<rparr> = putTombstone (sid, e) TombDelivered (remove_pending a e st)"
    using a(2) by (simp add: putTombstone_def remove_pending_def Let_def exec_key_def upd_sess_def)
  moreover have "sm_byExecId (scheduleHardDeadline a ?X) = sm_byExecId st"
    using view_parts(2) [OF view_schedule [of a ?X]] by simp
  ultimately have "view (resolve sid e st) = view (putTombstone (sid, e) TombDelivered (remove_pending a e st))"
    using Some del [OF view_schedule [of a ?X], of "jm_delete (sid, e) (sm_byExecId st)"]
    by (simp add: resolve_def exec_key_def Let_def)
  then show ?thesis using inv_n_bury [OF inv a(1), of e TombDelivered] inv_n_view a(2) by blast
qed

lemma inv_n_pump [model_inv]:
  assumes "inv_n n st" and "a < n"
  shows "inv_n n (snd (beginPump a w st))" "inv_n n (snd (endPump a w st))"
proof -
  have p: "inv_n n (upd_sess a (\<lambda>s. s\<lparr>ss_pumpOwner := o', ss_pumpActive := c, ss_answeredContinuation := b\<rparr>) t)" if "inv_n n t" for t o' c b
    by (rule inv_n_upd_sess) (simp_all add: that sess_view_def host_session_def)
  obtain err t where reg: "registerSession a st = (err, t)" by (cases "registerSession a st")
  have "inv_n n t" by (rule registerSession_spec(1) [OF assms reg])
  then show "inv_n n (snd (beginPump a w st))"
    using reg p by (auto simp: beginPump_def split: option.splits)
  let ?u = "upd_sess a (\<lambda>s. s\<lparr>ss_pumpOwner := None, ss_pumpActive := False, ss_deferredTerminalReason := None\<rparr>) st"
  have u: "inv_n n ?u" by (rule inv_n_upd_sess) (simp_all add: assms sess_view_def host_session_def)
  have "inv_n n (holdAfterCleanClose a ?u)" by (rule inv_n_view [OF _ u]) simp
  then show "inv_n n (snd (endPump a w st))"
    using u assms inv_n_close [OF u assms(2)] by (auto simp: endPump_def Let_def split: option.splits)
qed

lemma inv_n_replace [model_inv]:
  assumes "inv_n n st" and "a < n" shows "inv_n n (snd (replaceStream a next r st))"
proof -
  let ?u = "upd_sess a (\<lambda>s. s\<lparr>ss_heartbeat := False, ss_terminalSubscription := None,
                  ss_deferredTerminalReason := None, ss_stream := next,
                  ss_billing := (ss_billing s)\<lparr>bl_estimatedUsd := 0, bl_estimatedOutputTokens := 0,
                    bl_estimatedReasoningTokens := 0, bl_ledgerEpoch := None\<rparr>,
                  ss_runId := (case r of None \<Rightarrow> ss_runId s | Some r \<Rightarrow> Some r), ss_runData := False\<rparr>) st"
  have "inv_n n ?u" by (rule inv_n_upd_sess) (simp_all add: assms sess_view_def host_session_def)
  from inv_n_subscribe [OF this assms(2)]
  have "inv_n n (destroy_stream (ss_stream (sess st a)) (subscribeTerminal a ?u))" by (rule inv_n_view [rotated]) simp
  then show ?thesis using assms(1) by (simp add: replaceStream_def Let_def)
qed

lemma inv_n_bind [model_inv]: "inv_n n st \<Longrightarrow> inv_n n (bindToolCall t sid e st)"
  by (auto simp: bindToolCall_def inv_n_def sm_inv_def heap_ok_def index_ok_def pend_ok_def tomb_ok_def jm_put_length jm_put_wf)

lemma close_all_sessions:
  assumes "inv_n n st" and "set as \<subseteq> {..<n}"
  shows "inv_n n (fold (\<lambda>a st. closeSession a r e st) as st)
    \<and> set (sm_sessions (fold (\<lambda>a st. closeSession a r e st) as st)) = set (sm_sessions st) - set as"
  using assms
proof (induction as arbitrary: st)
  case (Cons a as)
  then have a: "a < n" by simp
  have "inv_n n (closeSession a r e st)" "set (sm_sessions (closeSession a r e st)) = set (sm_sessions st) - {a}"
    using inv_n_close [OF Cons.prems(1) a] close_ids(2) [OF Cons.prems(1) a] by auto
  then show ?case using Cons.IH [of "closeSession a r e st"] Cons.prems(2) by auto
qed simp

lemma inv_n_dispose [model_inv]:
  assumes "inv_n n st" shows "inv_n n (dispose st) \<and> sm_sessions (dispose st) = []"
proof -
  let ?u = "fold (\<lambda>a st. closeSession a (Terminal ProcessDisposed) None st) (sm_sessions st) st"
  have "set (sm_sessions st) \<subseteq> {..<n}" using inv_n_sessions [OF assms] by auto
  from close_all_sessions [OF assms this] have u: "inv_n n ?u" "sm_sessions ?u = []" by auto
  let ?t = "?u\<lparr>sm_byExecId := [], sm_toolCallRoutes := []\<rparr>"
  have "heap_ok ?t = heap_ok ?u" "pend_ok ?t = pend_ok ?u" by (simp_all add: heap_ok_def pend_ok_def)
  moreover have "index_ok ?t" "tomb_ok ?t"
    using u unfolding inv_n_def sm_inv_def index_ok_def tomb_ok_def by auto
  ultimately show ?thesis using u by (simp add: dispose_def Let_def inv_n_def sm_inv_def)
qed

end
