(* ===== verification/SessionSystem.thy ===== *)
theory SessionSystem
  imports SessionOps "HOL-Library.Multiset"
begin

text \<open>
  The session manager under every caller: new sessions and streams, time, host activity and every
  operation, in any order, with deliveries interleaved at their awaits. The properties of the
  manager hold in every state this system reaches.
\<close>

section \<open>Only a delivery that starts is recorded as delivering\<close>

lemma close_pendings_delivering [simp]: "sm_delivering (close_pendings sid r ps st) = sm_delivering st"
  by (induction sid r ps st rule: close_pendings.induct) (auto simp: Let_def split: close_reason.splits)

lemma drop_pendings_delivering [simp]: "sm_delivering (drop_pendings sid r ps st) = sm_delivering st"
  by (induction sid r ps st rule: drop_pendings.induct) (auto simp: Let_def)

lemma closeSession_delivering [simp]: "sm_delivering (closeSession a r e st) = sm_delivering st"
  by (cases "ss_closed (sess st a)") (simp_all add: closeSession_def [where st = st] closeSession_open(3) Let_def destroy_stream_def split: option.splits)

lemma view_delivering: "view t = view st \<Longrightarrow> sm_delivering t = sm_delivering st"
  by (rule view_parts)

lemma timer_delivering [simp]:
  "sm_delivering (scheduleHardDeadline a st) = sm_delivering st" "sm_delivering (recordSemanticProgress a t st) = sm_delivering st"
  "sm_delivering (snd (some_expired a ps st)) = sm_delivering st" "sm_delivering (snd (hardDeadlineExpired a p st)) = sm_delivering st"
  "sm_delivering (holdAfterCleanClose a st) = sm_delivering st" "sm_delivering (destroy_stream x st) = sm_delivering st"
  by (rule view_delivering; simp)+

lemma remove_delivering [simp]: "sm_delivering (remove_pending a e st) = sm_delivering st"
  by (simp add: remove_pending_def Let_def)

lemma terminal_delivering [simp]: "sm_delivering (onStreamTerminal a ev st) = sm_delivering st"
  by (auto simp: onStreamTerminal_def Let_def split: option.splits stream_event.splits)

lemma subscribe_delivering [simp]: "sm_delivering (subscribeTerminal a st) = sm_delivering st"
  by (auto simp: subscribeTerminal_def Let_def split: option.splits)

lemma fold_delivering:
  "(\<And>x st. sm_delivering (f x st) = sm_delivering st) \<Longrightarrow> sm_delivering (fold f xs st) = sm_delivering st"
  by (induction xs arbitrary: st) auto

lemma settle_delivering [simp]: "sm_delivering (snd (settle_pendings a ps st)) = sm_delivering st"
  by (induction ps arbitrary: st) (auto simp: Let_def split_beta)

lemma settleBridged_delivering [simp]: "sm_delivering (snd (settleBridgedPending a st)) = sm_delivering st"
  by (auto simp: settleBridgedPending_def Let_def split_beta)

lemma supersede_delivering [simp]: "sm_delivering (supersede p st) = sm_delivering st"
  by (simp add: supersede_def Let_def)

lemma cap_delivering [simp]: "sm_delivering (cap_loop m j st) = sm_delivering st"
  by (induction m arbitrary: st) (auto split: option.splits)

lemma register_delivering [simp]: "sm_delivering (snd (registerSession a st)) = sm_delivering st"
  by (auto simp: registerSession_def enforceOpenSessionCap_def Let_def split: option.splits)

lemma register_delivering_eq: "registerSession a st = (r, t) \<Longrightarrow> sm_delivering t = sm_delivering st"
  using register_delivering by (metis snd_conv)

lemma registerPending_delivering [simp]: "sm_delivering (snd (registerPending e a rf tn br jd an st)) = sm_delivering st"
  by (auto simp: registerPending_def Let_def dest: register_delivering_eq split: prod.splits option.splits)

lemma tomb_delivering [simp]: "sm_delivering (snd (classify_tombstone k st)) = sm_delivering st"
  by (auto simp: classify_tombstone_def getTombstone_def split: option.splits tomb_reason.splits)

lemma classify_delivering [simp]: "sm_delivering (snd (classify sid e st)) = sm_delivering st"
proof -
  have "sm_delivering st1 = sm_delivering st" if "hardDeadlineExpired a p st = (b, st1)" for a p b st1
    using timer_delivering(4) [of a p st] that by simp
  then show ?thesis
    by (auto simp: classify_def Let_def split: option.splits prod.splits bool.splits pending_state.splits)
qed

lemma classify_delivering_eq: "classify sid e st = (r, t) \<Longrightarrow> sm_delivering t = sm_delivering st"
  using classify_delivering by (metis snd_conv)

lemma claim_delivering [simp]: "sm_delivering (snd (claim_exec sid e st)) = sm_delivering st"
  by (auto simp: claim_exec_def dest: classify_delivering_eq split: prod.splits classification.splits)

lemma findBy_delivering [simp]: "sm_delivering (snd (findByExecIds sid is st)) = sm_delivering st"
proof (induction "is" arbitrary: st)
  case (Cons i "is")
  obtain c t where c: "classify sid i st = (c, t)" by (cases "classify sid i st")
  then show ?case using Cons classify_delivering_eq [OF c] by (cases c) auto
qed simp

lemma stream_ends_delivering [simp]: "sm_delivering (stream_ends x ev st) = sm_delivering st"
proof -
  have "sm_delivering (fold (\<lambda>a st. if ss_terminalSubscription (sess st a) = Some x \<and> ss_stream (sess st a) = x
      then onStreamTerminal a ev st else st) as u) = sm_delivering u" for as u
    by (rule fold_delivering) simp
  then show ?thesis by (simp add: stream_ends_def Let_def split: option.splits)
qed

lemma other_delivering [simp]:
  "sm_delivering (snd (abandonPending a st)) = sm_delivering st" "sm_delivering (snd (forgetHeldExec a e q st)) = sm_delivering st"
  "sm_delivering (snd (markExecAborted a e st)) = sm_delivering st" "sm_delivering (resolve sid e st) = sm_delivering st"
  "sm_delivering (snd (closeUnlessPending a st)) = sm_delivering st" "sm_delivering (dispose st) = sm_delivering st"
  "sm_delivering (sweepHardDeadlines st) = sm_delivering st" "sm_delivering (hard_deadline_fires a st) = sm_delivering st"
  "sm_delivering (snd (endPump a w st)) = sm_delivering st"
  "sm_delivering (snd (replaceStream a next r st)) = sm_delivering st" "sm_delivering (bindToolCall t sid e st) = sm_delivering st"
  by (auto simp: abandonPending_def forgetHeldExec_def markExecAborted_def resolve_def closeUnlessPending_def dispose_def
      sweepHardDeadlines_def sweep_session_def hard_deadline_fires_def endPump_def replaceStream_def
      bindToolCall_def Let_def split_beta intro!: fold_delivering split: option.splits)

lemma beginPump_delivering [simp]: "sm_delivering (snd (beginPump a w st)) = sm_delivering st"
  by (auto simp: beginPump_def dest: register_delivering_eq split: prod.splits option.splits)

lemma unavailable_delivering [simp]: "sm_delivering (snd (unavailable cl k st)) = sm_delivering st"
  by (auto simp: unavailable_def Let_def dest: classify_delivering_eq split: prod.splits classification.splits)

lemma unavailable_delivering_eq: "unavailable cl k st = (r, t) \<Longrightarrow> sm_delivering t = sm_delivering st"
  using unavailable_delivering by (metis snd_conv)

lemma catch_delivering [simp]: "sm_delivering (snd (deliver_catch cl k st)) = sm_delivering st"
  by (auto simp: deliver_catch_def Let_def dest: unavailable_delivering_eq split: prod.splits option.splits)

lemma finish_delivering [simp]: "sm_delivering (snd (deliver_finish cl k st)) = sm_delivering st"
  by (simp add: deliver_finish_def Let_def)

lemma finish_delivering_eq: "deliver_finish cl k st = (r, t) \<Longrightarrow> sm_delivering t = sm_delivering st"
  using finish_delivering by (metis snd_conv)

lemma written_delivering [simp]: "sm_delivering (snd (deliver_written d st)) = sm_delivering st"
  by (auto simp: deliver_written_def Let_def split: prod.splits option.splits)
    (metis unavailable_delivering_eq finish_delivering_eq)+

text \<open>A delivery starts, or delivers at once, only for an exec no delivery has started for.\<close>

lemma deliver_begin_new:
  assumes "deliver_begin cl k rd st = (r, t)"
  shows "sm_delivering t = sm_delivering st \<and> (\<exists>x. r = Inl x \<and> (\<forall>m. x \<noteq> OutDelivered m))
    \<or> cl_pending cl \<notin> set (sm_delivering st) \<and> sm_delivering t = cl_pending cl # sm_delivering st
        \<and> (\<forall>d. r = Inr d \<longrightarrow> dl_claim d = cl)"
proof (cases "unavailable cl 0 st")
  case (Pair o1 st1)
  have d1: "sm_delivering st1 = sm_delivering st" by (rule unavailable_delivering_eq [OF Pair])
  have nd: "o1 \<noteq> Some (OutDelivered m)" for m
    using Pair by (auto simp: unavailable_def Let_def split: if_splits prod.splits classification.splits)
  obtain b st2 where d: "hardDeadlineExpired (cl_session cl) (cl_pending cl) st1 = (b, st2)"
    by (cases "hardDeadlineExpired (cl_session cl) (cl_pending cl) st1")
  have d2: "sm_delivering st2 = sm_delivering st"
    using timer_delivering(4) [of "cl_session cl" "cl_pending cl" st1] d d1 by simp
  show ?thesis
    using assms Pair d d1 d2 nd
    by (cases o1; cases b) (auto simp: deliver_begin_def Let_def split_beta split: if_splits)
qed

section \<open>The system\<close>

text \<open>
  The manager, the claims handed out, the deliveries between two awaits, and the pending execs whose
  delivery has returned \<open>delivered\<close>, newest first.
\<close>

record sys =
  sy_mgr :: manager
  sy_claims :: "claim list"
  sy_inflight :: "delivery list"
  sy_done :: "nat list"

datatype sm_event = ENewSession session | ENewStream | ETick nat | EHost act_event
  | ERegister nat | ERegisterPending int nat string "string option" bool "string option" bool
  | EAbandon nat | EForget nat int "nat option" | EMarkAborted nat int | ESettle nat
  | EProgress nat "time option" | EHeartbeat nat | EInterrupt nat
  | EClassify string int | EFind string "int list" | EClaim string int
  | EBegin nat nat bool | EWritten nat | EFailed nat bool | EResolve string int
  | EBeginPump nat nat | EEndPump nat nat | EReplace nat nat "string option"
  | EClose nat close_reason "nat option" | ECloseUnless nat | EDispose | ESweep | ETimer nat
  | EStreamEnds nat stream_event | EBind string string int

text \<open>A session as the program creates one: open, with nothing pending and an id of its own.\<close>

definition new_session_ok :: "session \<Rightarrow> manager \<Rightarrow> bool" where
  "new_session_ok s st \<longleftrightarrow> \<not> ss_closed s \<and> ss_pending s = [] \<and> ss_sessionId s \<notin> ss_sessionId ` set (sm_sessionHeap st)"

definition on_session :: "nat \<Rightarrow> (manager \<Rightarrow> manager) \<Rightarrow> sys \<Rightarrow> sys" where
  "on_session a f y = (if a < length (sm_sessionHeap (sy_mgr y)) then y\<lparr>sy_mgr := f (sy_mgr y)\<rparr> else y)"

text \<open>The result of one step of the delivery at position \<open>i\<close>.\<close>

definition step_delivery :: "nat \<Rightarrow> (outcome + delivery) \<times> manager \<Rightarrow> sys \<Rightarrow> sys" where
  "step_delivery i result y =
     (case result of
        (Inr d, st) \<Rightarrow> y\<lparr>sy_mgr := st, sy_inflight := (sy_inflight y)[i := d]\<rparr>
      | (Inl (OutDelivered _), st) \<Rightarrow>
          y\<lparr>sy_mgr := st, sy_inflight := take i (sy_inflight y) @ drop (Suc i) (sy_inflight y),
            sy_done := cl_pending (dl_claim (sy_inflight y ! i)) # sy_done y\<rparr>
      | (Inl _, st) \<Rightarrow> y\<lparr>sy_mgr := st, sy_inflight := take i (sy_inflight y) @ drop (Suc i) (sy_inflight y)\<rparr>)"

fun sm_step :: "sys \<Rightarrow> sm_event \<Rightarrow> sys" where
  "sm_step y (ENewSession s) =
     (if new_session_ok s (sy_mgr y) then y\<lparr>sy_mgr := (sy_mgr y)\<lparr>sm_sessionHeap := sm_sessionHeap (sy_mgr y) @ [s]\<rparr>\<rparr> else y)"
| "sm_step y ENewStream =
     y\<lparr>sy_mgr := (sy_mgr y)\<lparr>sm_streamHeap := sm_streamHeap (sy_mgr y) @ [\<lparr>bs_closed = False, bs_terminal = None\<rparr>]\<rparr>\<rparr>"
| "sm_step y (ETick d) = y\<lparr>sy_mgr := (sy_mgr y)\<lparr>sm_now := sm_now (sy_mgr y) + int d\<rparr>\<rparr>"
| "sm_step y (EHost ev) = y\<lparr>sy_mgr := (sy_mgr y)\<lparr>sm_activitySource := act_step (sm_activitySource (sy_mgr y)) ev\<rparr>\<rparr>"
| "sm_step y (ERegister a) = on_session a (\<lambda>st. snd (registerSession a st)) y"
| "sm_step y (ERegisterPending e a rf tn br jd an) = on_session a (\<lambda>st. snd (registerPending e a rf tn br jd an st)) y"
| "sm_step y (EAbandon a) = on_session a (\<lambda>st. snd (abandonPending a st)) y"
| "sm_step y (EForget a e p) = on_session a (\<lambda>st. snd (forgetHeldExec a e p st)) y"
| "sm_step y (EMarkAborted a e) = on_session a (\<lambda>st. snd (markExecAborted a e st)) y"
| "sm_step y (ESettle a) = on_session a (\<lambda>st. snd (settleBridgedPending a st)) y"
| "sm_step y (EProgress a t) = on_session a (recordSemanticProgress a t) y"
| "sm_step y (EHeartbeat a) = on_session a (recordHeartbeatWrite a) y"
| "sm_step y (EInterrupt a) = on_session a (upd_sess a (\<lambda>s. s\<lparr>ss_hostInterrupted := True\<rparr>)) y"
| "sm_step y (EClassify sid e) = y\<lparr>sy_mgr := snd (classify sid e (sy_mgr y))\<rparr>"
| "sm_step y (EFind sid is) = y\<lparr>sy_mgr := snd (findByExecIds sid is (sy_mgr y))\<rparr>"
| "sm_step y (EClaim sid e) =
     (case claim_exec sid e (sy_mgr y) of
        (Inr cl, st) \<Rightarrow> y\<lparr>sy_mgr := st, sy_claims := sy_claims y @ [cl]\<rparr>
      | (Inl _, st) \<Rightarrow> y\<lparr>sy_mgr := st\<rparr>)"
| "sm_step y (EBegin i k rd) =
     (if i < length (sy_claims y)
      then (case deliver_begin (sy_claims y ! i) k rd (sy_mgr y) of
              (Inr d, st) \<Rightarrow> y\<lparr>sy_mgr := st, sy_inflight := sy_inflight y @ [d]\<rparr>
            | (Inl (OutDelivered _), st) \<Rightarrow> y\<lparr>sy_mgr := st, sy_done := cl_pending (sy_claims y ! i) # sy_done y\<rparr>
            | (Inl _, st) \<Rightarrow> y\<lparr>sy_mgr := st\<rparr>)
      else y)"
| "sm_step y (EWritten i) =
     (if i < length (sy_inflight y) then step_delivery i (deliver_written (sy_inflight y ! i) (sy_mgr y)) y else y)"
| "sm_step y (EFailed i acc) =
     (if i < length (sy_inflight y)
      then (case deliver_failed (sy_inflight y ! i) acc (sy_mgr y) of (o', st) \<Rightarrow> step_delivery i (Inl o', st) y) else y)"
| "sm_step y (EResolve sid e) = y\<lparr>sy_mgr := resolve sid e (sy_mgr y)\<rparr>"
| "sm_step y (EBeginPump a w) = on_session a (\<lambda>st. snd (beginPump a w st)) y"
| "sm_step y (EEndPump a w) = on_session a (\<lambda>st. snd (endPump a w st)) y"
| "sm_step y (EReplace a x r) = on_session a (\<lambda>st. snd (replaceStream a x r st)) y"
| "sm_step y (EClose a r err) = on_session a (closeSession a r err) y"
| "sm_step y (ECloseUnless a) = on_session a (\<lambda>st. snd (closeUnlessPending a st)) y"
| "sm_step y EDispose = y\<lparr>sy_mgr := dispose (sy_mgr y)\<rparr>"
| "sm_step y ESweep = y\<lparr>sy_mgr := sweepHardDeadlines (sy_mgr y)\<rparr>"
| "sm_step y (ETimer a) =
     on_session a (\<lambda>st. case ss_hardDeadlineTimer (sess st a) of None \<Rightarrow> st
       | Some t \<Rightarrow> if sm_now st \<ge> t then hard_deadline_fires a st else st) y"
| "sm_step y (EStreamEnds x ev) = y\<lparr>sy_mgr := stream_ends x ev (sy_mgr y)\<rparr>"
| "sm_step y (EBind t sid e) = y\<lparr>sy_mgr := bindToolCall t sid e (sy_mgr y)\<rparr>"

definition sys_of :: "manager \<Rightarrow> sys" where
  "sys_of m = \<lparr>sy_mgr = m, sy_claims = [], sy_inflight = [], sy_done = []\<rparr>"

definition sys_run :: "manager \<Rightarrow> sm_event list \<Rightarrow> sys" where
  "sys_run m es = foldl sm_step (sys_of m) es"

lemma tombstone_not_deliverable: "fst (classify_tombstone k st) \<noteq> Deliverable a p"
  by (auto simp: classify_tombstone_def split: prod.splits option.splits tomb_reason.splits)

lemma classify_Deliverable:
  assumes "classify sid e st = (Deliverable a p, st1)"
  shows "jm_get (sm_byExecId st) (sid, e) = Some a" "owed st a e = Some p" "view st1 = view st"
    "pe_state (pend st1 p) = Pending" "\<not> ss_closed (sess st a)"
proof -
  have nt: "classify_tombstone k u \<noteq> (Deliverable a p, v)" for k u v
    using tombstone_not_deliverable [of k u a p] by (metis fst_conv)
  obtain b where b: "jm_get (sm_byExecId st) (sid, e) = Some b"
    using assms nt by (cases "jm_get (sm_byExecId st) (sid, e)") (auto simp: classify_def exec_key_def)
  obtain q where q: "owed st b e = Some q"
    using assms nt b by (cases "owed st b e") (auto simp: classify_def exec_key_def Let_def)
  obtain x st' where d: "hardDeadlineExpired b q st = (x, st')" by (cases "hardDeadlineExpired b q st")
  have v: "view st' = view st" using view_expired [of b q st] d by simp
  have open_b: "\<not> (ss_closed (sess st b) \<or> (bs_closed (sm_streamHeap st ! ss_stream (sess st b)) \<and> \<not> pe_answered (pend st q)))"
  proof
    assume "ss_closed (sess st b) \<or> (bs_closed (sm_streamHeap st ! ss_stream (sess st b)) \<and> \<not> pe_answered (pend st q))"
    then show False using assms nt b q by (simp add: classify_def exec_key_def Let_def)
  qed
  have "\<not> x" using assms nt b q d open_b by (cases x) (auto simp: classify_def exec_key_def Let_def)
  then have "a = b \<and> p = q \<and> st1 = st' \<and> pe_state (pend st1 p) = Pending"
    using assms b q d open_b by (auto simp: classify_def exec_key_def Let_def split: pending_state.splits)
  then show "jm_get (sm_byExecId st) (sid, e) = Some a" "owed st a e = Some p" "view st1 = view st"
    "pe_state (pend st1 p) = Pending" "\<not> ss_closed (sess st a)"
    using b q v open_b by auto
qed

definition sys_inv :: "sys \<Rightarrow> bool" where
  "sys_inv y \<longleftrightarrow> sm_inv (sy_mgr y)
     \<and> (\<forall>cl \<in> set (sy_claims y). cl_session cl < length (sm_sessionHeap (sy_mgr y)))
     \<and> (\<forall>d \<in> set (sy_inflight y). cl_session (dl_claim d) < length (sm_sessionHeap (sy_mgr y)))
     \<and> distinct (map (\<lambda>d. cl_pending (dl_claim d)) (sy_inflight y) @ sy_done y)
     \<and> set (map (\<lambda>d. cl_pending (dl_claim d)) (sy_inflight y) @ sy_done y) \<subseteq> set (sm_delivering (sy_mgr y))"

lemma sys_inv_n: "sys_inv y \<Longrightarrow> inv_n (length (sm_sessionHeap (sy_mgr y))) (sy_mgr y)"
  by (simp add: sys_inv_def inv_n_def)

text \<open>A step that only touches the manager.\<close>

lemma sys_inv_mgr:
  assumes "sys_inv y" and "inv_n (length (sm_sessionHeap (sy_mgr y))) st" and "sm_delivering st = sm_delivering (sy_mgr y)"
  shows "sys_inv (y\<lparr>sy_mgr := st\<rparr>)"
  using assms by (simp add: sys_inv_def inv_n_def)

lemma sys_inv_on_session:
  assumes "sys_inv y" and "\<And>n st. inv_n n st \<Longrightarrow> a < n \<Longrightarrow> inv_n n (f st)" and "\<And>st. sm_delivering (f st) = sm_delivering st"
  shows "sys_inv (on_session a f y)"
  using assms(1) sys_inv_mgr [OF assms(1) assms(2) [OF sys_inv_n [OF assms(1)]] assms(3)] by (simp add: on_session_def)

lemma inv_n_new_session:
  assumes "sm_inv st" and new: "new_session_ok s st"
  shows "sm_inv (st\<lparr>sm_sessionHeap := sm_sessionHeap st @ [s]\<rparr>)"
proof -
  let ?n = "length (sm_sessionHeap st)" and ?t = "st\<lparr>sm_sessionHeap := sm_sessionHeap st @ [s]\<rparr>"
  have old: "a < ?n" if "a \<in> set (sm_sessions st)" for a using sm_inv_sessions [OF assms(1) that] by simp
  have ids: "ss_sessionId (sess st a) \<noteq> ss_sessionId s" if "a < ?n" for a
    using new nth_mem [OF that] unfolding new_session_ok_def by (metis image_eqI)
  have nth: "sess ?t a = (if a < ?n then sess st a else s)" if "a < Suc ?n" for a
    using that by (auto simp: nth_append less_Suc_eq)
  have 1: "heap_ok ?t"
    unfolding heap_ok_def
  proof (intro conjI ballI allI impI)
    fix a b
    assume "a < length (sm_sessionHeap ?t)" "b < length (sm_sessionHeap ?t)" "ss_sessionId (sess ?t a) = ss_sessionId (sess ?t b)"
    then show "a = b"
      using ids assms(1) unfolding sm_inv_def heap_ok_def by (auto simp: nth_append less_Suc_eq split: if_splits)
  qed (use assms old in \<open>auto simp: sm_inv_def heap_ok_def new_session_ok_def nth_append less_Suc_eq dest: old\<close>)
  have 2: "index_ok ?t"
    using assms(1) old unfolding sm_inv_def index_ok_def by (auto simp: nth_append)
  have 3: "pend_ok ?t"
    using assms(1) new unfolding sm_inv_def pend_ok_def new_session_ok_def
    by (auto simp: nth_append less_Suc_eq)
  show ?thesis using 1 2 3 assms(1) by (simp add: sm_inv_def tomb_ok_def)
qed

lemma sys_inv_new:
  assumes "sys_inv y" and "new_session_ok s (sy_mgr y)"
  shows "sys_inv (y\<lparr>sy_mgr := (sy_mgr y)\<lparr>sm_sessionHeap := sm_sessionHeap (sy_mgr y) @ [s]\<rparr>\<rparr>)"
  using assms inv_n_new_session [OF _ assms(2)] by (auto simp: sys_inv_def less_SucI)

text \<open>One event of the delivery at position \<open>i\<close>.\<close>

lemma sys_inv_step_delivery:
  assumes inv: "sys_inv y" and i: "i < length (sy_inflight y)"
    and st: "inv_n (length (sm_sessionHeap (sy_mgr y))) (snd r)" "sm_delivering (snd r) = sm_delivering (sy_mgr y)"
    and same: "\<And>d. fst r = Inr d \<Longrightarrow> dl_claim d = dl_claim (sy_inflight y ! i)"
  shows "sys_inv (step_delivery i r y)"
proof -
  let ?ps = "map (\<lambda>d. cl_pending (dl_claim d)) (sy_inflight y)" and ?rest = "take i (sy_inflight y) @ drop (Suc i) (sy_inflight y)"
  have split: "sy_inflight y = take i (sy_inflight y) @ sy_inflight y ! i # drop (Suc i) (sy_inflight y)"
    using i by (rule id_take_nth_drop)
  have ps: "mset ?ps = mset (map (\<lambda>d. cl_pending (dl_claim d)) ?rest) + {#cl_pending (dl_claim (sy_inflight y ! i))#}"
    by (subst split) simp
  have sub: "set ?rest \<subseteq> set (sy_inflight y)" by (auto dest: in_set_takeD in_set_dropD)
  have d0: "distinct (?ps @ sy_done y)" using inv by (simp add: sys_inv_def)
  have dm: "distinct xs" if "mset xs = mset (?ps @ sy_done y)" for xs
    using d0 mset_eq_imp_distinct_iff [OF that] by simp
  have rest: "distinct (map (\<lambda>d. cl_pending (dl_claim d)) ?rest @ sy_done y)"
    using dm [of "cl_pending (dl_claim (sy_inflight y ! i)) # map (\<lambda>d. cl_pending (dl_claim d)) ?rest @ sy_done y"] ps by simp
  have done': "distinct (map (\<lambda>d. cl_pending (dl_claim d)) ?rest @ cl_pending (dl_claim (sy_inflight y ! i)) # sy_done y)"
    by (rule dm) (use ps in simp)
  have mem: "cl_pending (dl_claim (sy_inflight y ! i)) \<in> set (sm_delivering (sy_mgr y))"
    using inv i by (auto simp: sys_inv_def)
  obtain x t where r: "r = (x, t)" by (cases r)
  show ?thesis
  proof (cases x)
    case (Inr d)
    have eq: "map (\<lambda>d. cl_pending (dl_claim d)) ((sy_inflight y)[i := d]) = ?ps"
      using same Inr r i by (simp add: map_update) (metis (no_types, lifting) list_update_id length_map nth_map)
    have "\<forall>e \<in> set ((sy_inflight y)[i := d]). cl_session (dl_claim e) < length (sm_sessionHeap (sy_mgr y))"
    proof
      fix e assume "e \<in> set ((sy_inflight y)[i := d])"
      then have "e = d \<or> e \<in> set (sy_inflight y)" using set_update_subset_insert [of "sy_inflight y" i d] by blast
      then show "cl_session (dl_claim e) < length (sm_sessionHeap (sy_mgr y))"
        using inv same [of d] Inr r nth_mem [OF i] unfolding sys_inv_def by auto
    qed
    then show ?thesis
      using inv st r Inr eq unfolding sys_inv_def step_delivery_def inv_n_def by simp
  next
    case (Inl out)
    have rest_ok: "\<forall>e \<in> set ?rest. cl_session (dl_claim e) < length (sm_sessionHeap (sy_mgr y))"
      using inv sub by (auto simp: sys_inv_def)
    have "set (map (\<lambda>d. cl_pending (dl_claim d)) ?rest) \<subseteq> set ?ps"
      using image_mono [OF sub, of "\<lambda>d. cl_pending (dl_claim d)"] by (simp only: set_map)
    then have rest_sub: "set (map (\<lambda>d. cl_pending (dl_claim d)) ?rest @ sy_done y) \<subseteq> set (sm_delivering (sy_mgr y))"
      using inv unfolding sys_inv_def set_append by blast
    show ?thesis
    proof (cases "\<exists>m. out = OutDelivered m")
      case True
      then have "step_delivery i r y = y\<lparr>sy_mgr := t, sy_inflight := ?rest,
            sy_done := cl_pending (dl_claim (sy_inflight y ! i)) # sy_done y\<rparr>"
        using r Inl by (auto simp: step_delivery_def)
      then show ?thesis
        using inv st r rest_ok rest_sub done' mem unfolding sys_inv_def inv_n_def by simp
    next
      case False
      then have "step_delivery i r y = y\<lparr>sy_mgr := t, sy_inflight := ?rest\<rparr>"
        using r Inl by (cases out) (auto simp: step_delivery_def)
      then show ?thesis
        using inv st r rest_ok rest_sub rest unfolding sys_inv_def inv_n_def by simp
    qed
  qed
qed

lemma written_same_claim: "deliver_written d st = (Inr d', t) \<Longrightarrow> dl_claim d' = dl_claim d"
  by (auto simp: deliver_written_def Let_def split: prod.splits option.splits if_splits)

lemma sys_inv_claim:
  assumes "sys_inv y" shows "sys_inv (sm_step y (EClaim sid e))"
proof -
  obtain r t where c: "claim_exec sid e (sy_mgr y) = (r, t)" by (cases "claim_exec sid e (sy_mgr y)")
  have t: "inv_n (length (sm_sessionHeap (sy_mgr y))) t" "sm_delivering t = sm_delivering (sy_mgr y)"
    using inv_n_claim [OF sys_inv_n [OF assms], of sid e] claim_delivering [of sid e "sy_mgr y"] c by simp_all
  show ?thesis
  proof (cases r)
    case (Inl x)
    then show ?thesis using c sys_inv_mgr [OF assms t] by simp
  next
    case (Inr cl)
    obtain a p st1 where cd: "classify sid e (sy_mgr y) = (Deliverable a p, st1)" and cl: "cl_session cl = a"
      using c Inr by (auto simp: claim_exec_def split: prod.splits classification.splits)
    have "a < length (sm_sessionHeap (sy_mgr y))"
      using classify_Deliverable(1) [OF cd] sm_inv_index(1) sm_inv_sessions assms unfolding sys_inv_def by blast
    then show ?thesis using c Inr cl assms t by (auto simp: sys_inv_def inv_n_def)
  qed
qed

lemma sys_inv_begin:
  assumes "sys_inv y" shows "sys_inv (sm_step y (EBegin i k rd))"
proof (cases "i < length (sy_claims y)")
  case True
  let ?cl = "sy_claims y ! i"
  obtain r t where b: "deliver_begin ?cl k rd (sy_mgr y) = (r, t)" by (cases "deliver_begin ?cl k rd (sy_mgr y)")
  have cl: "cl_session ?cl < length (sm_sessionHeap (sy_mgr y))" using assms True by (simp add: sys_inv_def)
  have t: "inv_n (length (sm_sessionHeap (sy_mgr y))) t"
    using inv_n_deliver_begin [OF sys_inv_n [OF assms] cl, of k rd] b by simp
  from deliver_begin_new [OF b] show ?thesis
  proof (elim disjE conjE exE)
    fix x assume d: "sm_delivering t = sm_delivering (sy_mgr y)" and x: "r = Inl x" "\<forall>m. x \<noteq> OutDelivered m"
    then have "sm_step y (EBegin i k rd) = y\<lparr>sy_mgr := t\<rparr>" using True b by (cases x) auto
    then show ?thesis using sys_inv_mgr [OF assms t d] by simp
  next
    assume new: "cl_pending ?cl \<notin> set (sm_delivering (sy_mgr y))" and d: "sm_delivering t = cl_pending ?cl # sm_delivering (sy_mgr y)"
      and dl: "\<forall>d. r = Inr d \<longrightarrow> dl_claim d = ?cl"
    have fresh: "cl_pending ?cl \<notin> set (map (\<lambda>d. cl_pending (dl_claim d)) (sy_inflight y) @ sy_done y)"
      using new assms by (auto simp: sys_inv_def)
    show ?thesis
    proof (cases r)
      case (Inr x)
      then show ?thesis using True b dl fresh assms t d cl by (auto simp: sys_inv_def inv_n_def)
    next
      case (Inl x)
      then show ?thesis using True b fresh assms t d by (cases x) (auto simp: sys_inv_def inv_n_def)
    qed
  qed
qed (use assms in simp)

lemma sys_inv_step:
  assumes inv: "sys_inv y" shows "sys_inv (sm_step y e)"
proof -
  note n = sys_inv_n [OF inv]
  have v: "sys_inv (y\<lparr>sy_mgr := st\<rparr>)" if "view st = view (sy_mgr y)" for st
    using sys_inv_mgr [OF inv inv_n_view [OF that n] view_delivering [OF that]] .
  show ?thesis
  proof (cases e)
    case (ENewSession s) then show ?thesis using sys_inv_new [OF inv] inv by simp
  next
    case ENewStream
    then show ?thesis using inv by (simp add: sys_inv_def sm_inv_def heap_ok_def index_ok_def pend_ok_def tomb_ok_def)
  next
    case (ETick d)
    then show ?thesis using inv by (simp add: sys_inv_def sm_inv_def heap_ok_def index_ok_def pend_ok_def tomb_ok_def)
  next
    case (EHost ev) then show ?thesis using v by simp
  next
    case (EProgress a t)
    then show ?thesis using inv by (auto simp: inv_n_progress intro!: sys_inv_on_session)
  next
    case (EHeartbeat a)
    have "inv_n m (recordHeartbeatWrite a st)" if "inv_n m st" for m st
      using inv_n_upd_sess [OF _ that, of "\<lambda>s. s\<lparr>ss_lastHeartbeatWriteAt := sm_now st\<rparr>" a] that
      by (simp add: recordHeartbeatWrite_def)
    moreover have "sm_delivering (recordHeartbeatWrite a st) = sm_delivering st" for st by (simp add: recordHeartbeatWrite_def)
    ultimately show ?thesis using EHeartbeat inv by (auto intro!: sys_inv_on_session)
  next
    case (EInterrupt a)
    then show ?thesis
      using inv by (auto intro!: sys_inv_on_session inv_n_upd_sess simp: sess_view_def host_session_def)
  next
    case (ETimer a)
    then show ?thesis using inv inv_n_fires by (auto intro!: sys_inv_on_session split: option.splits)
  next
    case (EClaim sid x) then show ?thesis using sys_inv_claim [OF inv] by simp
  next
    case (EBegin i k rd) then show ?thesis using sys_inv_begin [OF inv] by simp
  next
    case (EWritten i)
    have c: "cl_session (dl_claim (sy_inflight y ! i)) < length (sm_sessionHeap (sy_mgr y))" if "i < length (sy_inflight y)"
      using inv that by (simp add: sys_inv_def)
    then show ?thesis
      using EWritten inv sys_inv_step_delivery [OF inv _ inv_n_deliver_written [OF n] written_delivering] written_same_claim
      by simp (metis (no_types, lifting) prod.collapse)
  next
    case (EFailed i acc)
    have c: "cl_session (dl_claim (sy_inflight y ! i)) < length (sm_sessionHeap (sy_mgr y))" if "i < length (sy_inflight y)"
      using inv that by (simp add: sys_inv_def)
    obtain o' t where f: "deliver_failed (sy_inflight y ! i) acc (sy_mgr y) = (o', t)" by (cases "deliver_failed (sy_inflight y ! i) acc (sy_mgr y)")
    have "inv_n (length (sm_sessionHeap (sy_mgr y))) t" if "i < length (sy_inflight y)"
      using inv_n_deliver_failed [OF n c [OF that], of acc] f by simp
    moreover have "sm_delivering t = sm_delivering (sy_mgr y)"
      using f catch_delivering by (metis deliver_failed_def snd_conv)
    ultimately show ?thesis
      using EFailed inv f sys_inv_step_delivery [OF inv, of i "(Inl o', t)"] by simp
  next
    case EDispose then show ?thesis using sys_inv_mgr [OF inv] inv_n_dispose [OF n] by simp
  qed (use inv n in \<open>auto intro!: sys_inv_on_session sys_inv_mgr inv_n_abandon inv_n_forget inv_n_mark inv_n_settle
      inv_n_classify inv_n_findBy inv_n_resolve inv_n_pump inv_n_replace inv_n_close inv_n_closeUnless inv_n_sweep
      inv_n_stream_ends inv_n_bind inv_n_registerPending registerSession_spec(1) [OF _ _ surjective_pairing]\<close>)
qed

end
