(* ===== verification/SessionProps.thy ===== *)
theory SessionProps
  imports SessionSystem
begin

text \<open>
  What the session manager promises its callers, in every state the system of \<open>SessionSystem\<close>
  reaches and for each of its operations.
\<close>

section \<open>Every reachable state\<close>

definition created_manager :: "manager \<Rightarrow> bool" where
  "created_manager m \<longleftrightarrow> (\<exists>ttl tombLimit maxOpen source now. createSessionManager ttl tombLimit maxOpen source now = Inr m)"

lemma createSessionManager_Inr:
  assumes "createSessionManager ttl tombLimit maxOpen source now = Inr m"
  shows "0 < sm_tombstoneLimit m" "sm_sessionHeap m = []" "sm_sessions m = []" "sm_byExecId m = []"
    "sm_byOpenCodeSessionId m = []" "sm_delivering m = []" "sm_tombstones m = []" "sm_toolCallRoutes m = []"
  using assms by (auto simp: createSessionManager_def split: sum.split_asm dest!: positiveInteger_Inr)

lemma created_sys_inv: "created_manager m \<Longrightarrow> sys_inv (sys_of m)"
  unfolding created_manager_def
  by (elim exE, frule createSessionManager_Inr)
    (simp add: createSessionManager_Inr sys_of_def sys_inv_def sm_inv_def heap_ok_def index_ok_def pend_ok_def tomb_ok_def)

interpretation sm_sys: step_system "\<lambda>y. \<exists>m. created_manager m \<and> y = sys_of m" sm_step sys_inv
  by unfold_locales (auto simp: created_sys_inv sys_inv_step)

lemma sys_run_eq: "sys_run m es = sm_sys.run (sys_of m) es"
proof -
  have "foldl sm_step y es = sm_sys.run y es" for y by (induction es arbitrary: y) simp_all
  then show ?thesis by (simp add: sys_run_def)
qed

lemma sys_run_inv: "created_manager m \<Longrightarrow> sys_inv (sys_run m es)"
  unfolding sys_run_eq by (rule sm_sys.reachable_inv) blast

text \<open>A manager with the defaults, one stream and one Run that owes exec 7.\<close>

definition demo_session :: "string \<Rightarrow> string option \<Rightarrow> session" where
  "demo_session sid host = \<lparr>ss_sessionId = sid, ss_openCodeSessionId = host, ss_stoppedWithSessionId = None, ss_runId = None,
     ss_stream = 0, ss_terminalSubscription = None, ss_deferredTerminalReason = None, ss_pending = [], ss_pumpOwner = None,
     ss_pumpActive = False, ss_heartbeat = False, ss_hardDeadlineTimer = None, ss_semanticDeadline = False,
     ss_policy = DEFAULT_CONTINUATION_POLICY, ss_createdAt = 0, ss_lastInboundAt = 0, ss_lastHeartbeatWriteAt = 0,
     ss_semanticDeadlineAt = 0, ss_closeError = None, ss_closed = False, ss_hostInterrupted = False,
     ss_answeredContinuation = False, ss_billing = \<lparr>bl_estimatedUsd = 0, bl_estimatedOutputTokens = 0,
       bl_estimatedReasoningTokens = 0, bl_ledgerEpoch = None\<rparr>, ss_runData = False, ss_turnData = False\<rparr>"

definition demo_manager :: manager where
  "demo_manager = \<lparr>sm_now = 1000, sm_sessionHeap = [], sm_pendingHeap = [], sm_streamHeap = [], sm_delivering = [],
     sm_byExecId = [], sm_sessions = [], sm_byOpenCodeSessionId = [], sm_tombstones = [], sm_toolCallRoutes = [],
     sm_activitySource = createSessionActivityState, sm_tombstoneTtlMs = 900000, sm_tombstoneLimit = 8,
     sm_maxOpenSessions = 24, sm_releasedTerminals = []\<rparr>"

lemma demo_created: "createSessionManager JUndefined (JInt 8) JUndefined createSessionActivityState 1000 = Inr demo_manager"
  by (simp add: createSessionManager_def positiveInteger_def demo_manager_def DEFAULT_TOMBSTONE_TTL_MS_def
      DEFAULT_TOMBSTONE_LIMIT_def DEFAULT_MAX_OPEN_SESSIONS_def MAX_SAFE_INTEGER_def MAX_TIMER_MS_def)

lemma demo_manager_created: "created_manager demo_manager"
  unfolding created_manager_def using demo_created by blast

definition demo_events :: "sm_event list" where
  "demo_events = [ENewStream, ENewSession (demo_session ''s1'' None), ERegisterPending 7 0 ''r'' None False None False,
     EClaim ''s1'' 7, EBegin 0 1 False]"

text \<open>C1: In every state the manager reaches, whatever the order of claims, deliveries, closes and
  timers, no pending exec is delivered twice: the deliveries in flight and the deliveries done are of
  distinct pending execs.\<close>
theorem results_delivered_at_most_once:
  assumes "created_manager m"
  shows "distinct (map (\<lambda>d. cl_pending (dl_claim d)) (sy_inflight (sys_run m es)) @ sy_done (sys_run m es))"
  using sys_run_inv [OF assms, of es] by (simp add: sys_inv_def)

text \<open>C2: In every state the manager reaches, \<open>byExecId\<close> indexes exactly the execs pending on the
  registered sessions, no exec is both owed and buried, and tombstones and tool-call routes stay
  within the configured limit.\<close>
theorem session_indexes_consistent:
  assumes "created_manager m" and "st = sy_mgr (sys_run m es)"
  shows "(jm_get (sm_byExecId st) (sid, e) = Some a \<longleftrightarrow>
        a \<in> set (sm_sessions st) \<and> ss_sessionId (sess st a) = sid \<and> owed st a e \<noteq> None)
    \<and> (jm_get (sm_byExecId st) k = None \<or> jm_get (sm_tombstones st) k = None)
    \<and> length (sm_tombstones st) \<le> sm_tombstoneLimit st
    \<and> length (sm_toolCallRoutes st) \<le> sm_tombstoneLimit st"
proof -
  have inv: "sm_inv st" using sys_run_inv [OF assms(1), of es] assms(2) by (simp add: sys_inv_def)
  then have "index_ok st" "tomb_ok st" by (simp_all add: sm_inv_def)
  then show ?thesis unfolding index_ok_def tomb_ok_def by (metis fst_conv snd_conv)
qed

definition demo_sys :: sys where
  "demo_sys = \<lparr>sy_mgr = demo_manager\<lparr>sm_sessionHeap := [(demo_session ''s1'' None)\<lparr>ss_terminalSubscription := Some 0,
       ss_pending := [(7, 0)], ss_hardDeadlineTimer := Some 601000\<rparr>],
     sm_pendingHeap := [\<lparr>pe_resultField = ''r'', pe_state = Claimed, pe_registeredAt = 1000, pe_hardDeadlineAt = 601000,
       pe_toolName = None, pe_jobDirectory = None, pe_bridged = False, pe_aborted = False, pe_answered = False\<rparr>],
     sm_streamHeap := [\<lparr>bs_closed = False, bs_terminal = None\<rparr>], sm_delivering := [0],
     sm_byExecId := [((''s1'', 7), 0)], sm_sessions := [0]\<rparr>,
     sy_claims = [\<lparr>cl_session = 0, cl_execId = 7, cl_pending = 0\<rparr>],
     sy_inflight = [\<lparr>dl_claim = \<lparr>cl_session = 0, cl_execId = 7, cl_pending = 0\<rparr>, dl_left = 1, dl_written = 0\<rparr>],
     sy_done = []\<rparr>"

lemma demo_run: "sys_run demo_manager demo_events = demo_sys"
  by code_simp

theorem results_delivered_at_most_once_witness:
  "distinct (map (\<lambda>d. cl_pending (dl_claim d)) (sy_inflight demo_sys) @ sy_done demo_sys)
   \<and> map (\<lambda>d. cl_pending (dl_claim d)) (sy_inflight demo_sys) = [0]"
  using results_delivered_at_most_once [OF demo_manager_created, of demo_events] unfolding demo_run by (simp add: demo_sys_def)

theorem session_indexes_consistent_witness:
  "0 \<in> set (sm_sessions (sy_mgr demo_sys)) \<and> jm_get (sm_tombstones (sy_mgr demo_sys)) (''s1'', 7) = None"
  using session_indexes_consistent [OF demo_manager_created refl, of demo_events "''s1''" 7 0 "(''s1'', 7)"]
  unfolding demo_run by (simp add: demo_sys_def)

section \<open>Delivery\<close>

lemma finish_duplicate:
  assumes inv: "sm_inv st" and a: "cl_session cl < length (sm_sessionHeap st)" and ttl: "0 < sm_tombstoneTtlMs st"
    and fin: "deliver_finish cl k st = (r, t)"
  shows "owed t (cl_session cl) (cl_execId cl) = None"
    "fst (classify (ss_sessionId (sess st (cl_session cl))) (cl_execId cl) t) = Duplicate AlreadyDelivered"
proof -
  let ?u = "delivered_state cl st" and ?k = "(ss_sessionId (sess st (cl_session cl)), cl_execId cl)"
  have v: "view t = view ?u" using deliver_finish_view [OF a, of k] fin by simp
  have tombs: "jm_wf (sm_tombstones st)" "0 < sm_tombstoneLimit st" using inv by (simp_all add: sm_inv_def heap_ok_def tomb_ok_def)
  let ?v = "upd_pend (cl_pending cl) (\<lambda>x. x\<lparr>pe_state := Delivered\<rparr>) (remove_pending (cl_session cl) (cl_execId cl) st)"
  have vf: "sm_tombstones ?v = sm_tombstones st" "sm_tombstoneLimit ?v = sm_tombstoneLimit st" "sm_now ?v = sm_now st"
    "sm_tombstoneTtlMs ?v = sm_tombstoneTtlMs st" by (simp_all add: remove_pending_def upd_pend_def Let_def)
  have "jm_get (sm_tombstones ?u) ?k = Some \<lparr>ts_reason = TombDelivered, ts_expiresAt = sm_now st + sm_tombstoneTtlMs st\<rparr>"
    using putTombstone_tombs(3) [of ?v ?k TombDelivered] tombs vf by (simp add: delivered_state_def Let_def)
  moreover have "sm_now ?u = sm_now st" using vf by (simp add: delivered_state_def Let_def)
  moreover have "jm_get (sm_byExecId ?u) ?k = None" by (simp add: delivered_state_def Let_def)
  ultimately show "fst (classify (ss_sessionId (sess st (cl_session cl))) (cl_execId cl) t) = Duplicate AlreadyDelivered"
    using view_parts [OF v] ttl by (simp add: classify_def exec_key_def classify_tombstone_def getTombstone_def)
  have l: "length (sm_sessionHeap ?u) = length (sm_sessionHeap st)" by (simp add: delivered_state_def Let_def)
  have "owed ?u (cl_session cl) (cl_execId cl) = None"
    using owed_remove [OF a, of "cl_execId cl" "cl_session cl" "cl_execId cl"] by (simp add: delivered_state_def Let_def)
  then show "owed t (cl_session cl) (cl_execId cl) = None" using view_eqs(4) [OF v] a l by simp
qed

lemma unavailable_not_delivered: "unavailable cl k st \<noteq> (Some (OutDelivered n), t)"
  by (auto simp: unavailable_def Let_def split: prod.splits classification.splits)

text \<open>Once the last frame of a result is written and the delivery reports it, the exec is no
  longer owed and any further result for it is classified as an already delivered duplicate.\<close>
theorem delivered_result_is_a_duplicate:
  assumes "created_manager m" and "y = sys_run m es" and "d \<in> set (sy_inflight y)" and "0 < sm_tombstoneTtlMs (sy_mgr y)"
    and "deliver_written d (sy_mgr y) = (Inl (OutDelivered k), t)"
  shows "owed t (cl_session (dl_claim d)) (cl_execId (dl_claim d)) = None
    \<and> fst (classify (ss_sessionId (sess (sy_mgr y) (cl_session (dl_claim d)))) (cl_execId (dl_claim d)) t) = Duplicate AlreadyDelivered"
proof -
  have inv: "sm_inv (sy_mgr y)" "cl_session (dl_claim d) < length (sm_sessionHeap (sy_mgr y))"
    using sys_run_inv [OF assms(1), of es] assms(2,3) by (auto simp: sys_inv_def)
  from assms(5) obtain n where "deliver_finish (dl_claim d) n (sy_mgr y) = (OutDelivered k, t)"
    using unavailable_None(1) unavailable_not_delivered
    by (fastforce simp: deliver_written_def Let_def split: prod.splits option.splits if_splits)
  from finish_duplicate [OF inv assms(4) this] show ?thesis by blast
qed

theorem delivered_result_is_a_duplicate_witness:
  "fst (classify ''s1'' 7 (snd (deliver_written (sy_inflight demo_sys ! 0) (sy_mgr demo_sys)))) = Duplicate AlreadyDelivered"
proof -
  have d: "fst (deliver_written (sy_inflight demo_sys ! 0) (sy_mgr demo_sys)) = Inl (OutDelivered 1)" by code_simp
  then obtain t where w: "deliver_written (sy_inflight demo_sys ! 0) (sy_mgr demo_sys) = (Inl (OutDelivered 1), t)"
    by (metis prod.collapse)
  from delivered_result_is_a_duplicate [OF demo_manager_created demo_run [symmetric], of "sy_inflight demo_sys ! 0" 1 t]
  moreover have "ss_sessionId (sess (sy_mgr demo_sys) 0) = ''s1''" "cl_session (dl_claim (sy_inflight demo_sys ! 0)) = 0"
    "cl_execId (dl_claim (sy_inflight demo_sys ! 0)) = 7" "0 < sm_tombstoneTtlMs (sy_mgr demo_sys)" "sy_inflight demo_sys \<noteq> []"
    by (simp_all add: demo_sys_def demo_manager_def demo_session_def)
  ultimately show ?thesis using w by simp
qed

section \<open>Leases\<close>

text \<open>A lease renewal never shortens the lease, and extends it at most to one hard cap after now
  or after the latest host activity, whichever is later.\<close>
theorem lease_grows_and_is_bounded:
  assumes "refreshHardDeadline a p st = (d, t)" and "host_session (sess st a) = Some i"
  shows "pe_hardDeadlineAt (pend st p) \<le> d
    \<and> d \<le> max (pe_hardDeadlineAt (pend st p)) (max (sm_now st + hardCapMs (ss_policy (sess st a)))
          (case fst (lastActivityAt i (sm_now st) (sm_activitySource st)) of None \<Rightarrow> pe_hardDeadlineAt (pend st p)
             | Some x \<Rightarrow> x + hardCapMs (ss_policy (sess st a))))"
  using assms by (auto simp: refreshHardDeadline_def renewed_lease_def Let_def split_beta split: option.splits)

definition leased_manager :: manager where
  "leased_manager = snd (registerPending 7 0 ''r'' None False None False
     (demo_manager\<lparr>sm_sessionHeap := [demo_session ''s1'' (Some ''h'')], sm_streamHeap := [\<lparr>bs_closed = False, bs_terminal = None\<rparr>],
        sm_activitySource := recordActivity ''h'' 1500 createSessionActivityState\<rparr>))\<lparr>sm_now := 2000\<rparr>"

theorem lease_grows_and_is_bounded_witness:
  "pe_hardDeadlineAt (pend leased_manager 0) = 601500 \<and> fst (refreshHardDeadline 0 0 leased_manager) \<ge> 601500"
proof -
  have "host_session (sess leased_manager 0) = Some ''h''" "pe_hardDeadlineAt (pend leased_manager 0) = 601500" by code_simp+
  with lease_grows_and_is_bounded [of 0 0 leased_manager _ _ "''h''", OF prod.collapse [symmetric]] show ?thesis by simp
qed

section \<open>The cap on open Runs\<close>

lemma close_keeps:
  assumes "inv_n n st" and "x < n"
  shows "b \<noteq> x \<Longrightarrow> sess (closeSession x r e st) b = sess st b" and "sm_pendingHeap (closeSession x r e st) = sm_pendingHeap st"
    "set (sm_sessions (closeSession x r e st)) = set (sm_sessions st) - {x}"
    "sm_maxOpenSessions (closeSession x r e st) = sm_maxOpenSessions st"
  using closeSession_sess [of x st r e] assms by (simp_all add: inv_n_def)

lemma evictable_close:
  assumes "inv_n n st" and "x < n" and "b \<noteq> x"
  shows "evictable j b (closeSession x r e st) = evictable j b st"
  using close_keeps [OF assms(1,2), where r = r and e = e] assms(3) by (simp add: evictable_def)

lemma oldest_of_None: "oldest_of f as o' = None \<longleftrightarrow> as = [] \<and> o' = None"
  by (induction as arbitrary: o') (auto split: option.splits)

lemma cap_loop_done:
  assumes "inv_n n st" and "length (sm_sessions st) \<le> m"
  shows "(length (sm_sessions (cap_loop m j st)) \<le> sm_maxOpenSessions st \<or> (\<forall>a \<in> set (sm_sessions (cap_loop m j st)). \<not> evictable j a (cap_loop m j st)))
     \<and> set (sm_sessions (cap_loop m j st)) \<subseteq> set (sm_sessions st)
     \<and> (\<forall>a \<in> set (sm_sessions st) - set (sm_sessions (cap_loop m j st)). evictable j a st)"
  using assms
proof (induction m arbitrary: st)
  case 0
  then show ?case by simp
next
  case (Suc m)
  show ?case
  proof (cases "length (sm_sessions st) > sm_maxOpenSessions st \<and> oldest_idle j st \<noteq> None")
    case True
    then obtain x where x: "oldest_idle j st = Some x" by auto
    let ?t = "closeSession x (Terminal OpenSessionCapExceeded) None st"
    have mem: "x \<in> set (sm_sessions st)" "evictable j x st" using oldest_idle_mem [OF x] by auto
    have n: "x < n" using inv_n_sessions [OF Suc.prems(1) mem(1)] .
    note c = close_keeps [OF Suc.prems(1) n, where r = "Terminal OpenSessionCapExceeded" and e = None]
    have inv: "inv_n n ?t" using inv_n_close [OF Suc.prems(1) n] .
    have "distinct (sm_sessions st)" "distinct (sm_sessions ?t)"
      using Suc.prems(1) inv by (simp_all add: inv_n_def sm_inv_def heap_ok_def)
    then have "length (sm_sessions ?t) = card (set (sm_sessions st) - {x})" "length (sm_sessions st) = card (set (sm_sessions st))"
      using c(3) by (metis distinct_card)+
    then have "length (sm_sessions ?t) \<le> m"
      using Suc.prems(2) mem(1) by simp
    from Suc.IH [OF inv this] show ?thesis
      using True x c(3,4) mem evictable_close [OF Suc.prems(1) n, of _ j "Terminal OpenSessionCapExceeded" None]
      by auto
  next
    case False
    moreover have "\<forall>a \<in> set (sm_sessions st). \<not> evictable j a st" if "oldest_idle j st = None"
      using that by (simp add: oldest_idle_def oldest_of_None filter_empty_conv)
    ultimately show ?thesis by (auto split: option.splits)
  qed
qed

text \<open>After the cap is enforced, either no more Runs are open than the limit, or every open Run
  is the newest, is being read, or owes the host a live exec; and only Runs that were idle are closed.\<close>
theorem open_runs_are_capped:
  assumes "sm_inv st"
  shows "(length (sm_sessions (enforceOpenSessionCap j st)) \<le> sm_maxOpenSessions st
       \<or> filter (\<lambda>a. evictable j a (enforceOpenSessionCap j st)) (sm_sessions (enforceOpenSessionCap j st)) = [])
     \<and> set (sm_sessions st) \<subseteq> set (sm_sessions (enforceOpenSessionCap j st)) \<union> {a. evictable j a st}"
  using cap_loop_done [of "length (sm_sessionHeap st)" st "length (sm_sessions st)" j] assms
  by (auto simp: enforceOpenSessionCap_def inv_n_def filter_empty_conv)

definition full_manager :: manager where
  "full_manager = demo_manager\<lparr>sm_sessionHeap := [demo_session ''s1'' None, (demo_session ''s2'' None)\<lparr>ss_pumpActive := True\<rparr>,
       demo_session ''s3'' None], sm_sessions := [0, 1, 2], sm_maxOpenSessions := 1,
     sm_streamHeap := [\<lparr>bs_closed = False, bs_terminal = None\<rparr>]\<rparr>"

lemma full_heap:
  "sm_sessionHeap full_manager = [demo_session ''s1'' None, (demo_session ''s2'' None)\<lparr>ss_pumpActive := True\<rparr>, demo_session ''s3'' None]"
  "sm_sessions full_manager = [0, 1, 2]" "sm_byExecId full_manager = []" "sm_byOpenCodeSessionId full_manager = []"
  "sm_delivering full_manager = []" "sm_tombstones full_manager = []" "sm_toolCallRoutes full_manager = []" "sm_tombstoneLimit full_manager = 8"
  by (simp_all add: full_manager_def demo_manager_def)

lemma full_sess: "a < 3 \<Longrightarrow> sess full_manager a =
    (if a = 0 then demo_session ''s1'' None else if a = 1 then (demo_session ''s2'' None)\<lparr>ss_pumpActive := True\<rparr> else demo_session ''s3'' None)"
  by (auto simp: full_heap numeral_3_eq_3 less_Suc_eq)

lemma demo_session_fields [simp]:
  "ss_pending (demo_session i h) = []" "ss_closed (demo_session i h) = False" "ss_sessionId (demo_session i h) = i"
  by (simp_all add: demo_session_def)

lemma full_pending: "a < 3 \<Longrightarrow> ss_pending (sess full_manager a) = [] \<and> \<not> ss_closed (sess full_manager a)"
  by (simp add: full_sess)

lemma full_inv: "sm_inv full_manager"
proof -
  have len: "length (sm_sessionHeap full_manager) = 3" by (simp add: full_heap)
  have "heap_ok full_manager"
    using full_pending by (simp add: heap_ok_def len full_heap(2,8)) (auto simp: full_sess split: if_splits)
  moreover have "index_ok full_manager"
    unfolding index_ok_def
  proof (intro conjI allI)
    fix k a
    have "ss_pending (sess full_manager a) = []" if "a \<in> set (sm_sessions full_manager)"
      using that full_pending [of a] by (auto simp only: full_heap(2) set_simps)
    then show "(jm_get (sm_byExecId full_manager) k = Some a) = (a \<in> set (sm_sessions full_manager)
        \<and> ss_sessionId (sess full_manager a) = fst k \<and> owed full_manager a (snd k) \<noteq> None)"
      by (simp only: full_heap(3) map_of.simps) auto
  qed (simp add: full_heap(4))
  moreover have "pend_ok full_manager" using full_pending by (simp add: pend_ok_def len full_heap(5))
  moreover have "tomb_ok full_manager" by (simp add: tomb_ok_def full_heap(3,6-8))
  ultimately show ?thesis by (simp add: sm_inv_def)
qed

theorem open_runs_are_capped_witness:
  "set [0, 1, 2] \<subseteq> set [1, 2] \<union> {a. evictable 2 a full_manager} \<and> sm_sessions (enforceOpenSessionCap 2 full_manager) = [1, 2]"
proof -
  have "sm_sessions (enforceOpenSessionCap 2 full_manager) = [1, 2]" "sm_sessions full_manager = [0, 1, 2]" by code_simp+
  then show ?thesis using open_runs_are_capped [OF full_inv, of 2] by simp
qed

section \<open>A newer Run of the same host session\<close>

text \<open>The loop settles exactly the listed execs Cursor does not wait for.\<close>

lemma settle_loop_keeps:
  assumes "a < length (sm_sessionHeap st)" and "distinct (map fst ps)"
  shows "sm_pendingHeap (snd (settle_pendings a ps st)) = sm_pendingHeap st
    \<and> owed (snd (settle_pendings a ps st)) b e
        = (if b = a \<and> (\<exists>p. (e, p) \<in> set ps \<and> settleable (pend st p)) then None else owed st b e)
    \<and> ss_closed (sess (snd (settle_pendings a ps st)) b) = ss_closed (sess st b)"
  using assms
proof (induction ps arbitrary: st)
  case (Cons q ps)
  obtain i p where q: "q = (i, p)" by (cases q)
  let ?u = "putTombstone (ss_sessionId (sess st a), i) TombDelivered (remove_pending a i st)"
  have u: "a < length (sm_sessionHeap ?u)" "sm_pendingHeap ?u = sm_pendingHeap st" using Cons.prems by simp_all
  have o': "owed ?u b e = (if b = a \<and> e = i then None else owed st b e)" for b e
    using owed_remove [OF Cons.prems(1), of i b e] by simp
  have c: "ss_closed (sess ?u b) = ss_closed (sess st b)" for b
    using Cons.prems(1) by (simp add: remove_pending_def Let_def upd_sess_def nth_list_update)
  have "distinct (map fst ps)" "i \<notin> fst ` set ps" using Cons.prems(2) q by auto
  then show ?case
    using Cons.IH [OF u(1)] Cons.IH [OF Cons.prems(1)] u(2) o' c
    by (cases "settleable (pend st p)") (auto simp: q Let_def split_beta exec_key_def remove_put)
qed simp

lemma settle_keeps:
  assumes inv: "sm_inv st" and a: "a < length (sm_sessionHeap st)" and p: "owed st b e = Some p" and b: "b < length (sm_sessionHeap st)"
    and live: "b = a \<longrightarrow> \<not> settleable (pend st p)"
  shows "owed (snd (settleBridgedPending a st)) b e = Some p"
    "ss_closed (sess (snd (settleBridgedPending a st)) b) = ss_closed (sess st b)"
proof -
  let ?ps = "ss_pending (sess st a)"
  have d: "distinct (map fst ?ps)" using inv a by (simp add: sm_inv_def heap_ok_def)
  let ?l = "snd (settle_pendings a ?ps st)"
  have none: "\<not> (b = a \<and> (\<exists>p. (e, p) \<in> set ?ps \<and> settleable (pend st p)))"
    using p live map_of_is_SomeI [OF d] by fastforce
  have l: "owed ?l b e = Some p" "ss_closed (sess ?l b) = ss_closed (sess st b)"
    using settle_loop_keeps [OF a d, of b e] none p by auto
  have bl: "b < length (sm_sessionHeap ?l)" using settle_loop_ids [OF a, of ?ps] b by (simp add: same_ids_def)
  have v: "owed u b e = Some p \<and> ss_closed (sess u b) = ss_closed (sess st b)" if "view u = view ?l" for u
    using view_eqs [OF that bl] l by simp
  have "snd (settleBridgedPending a st) = st \<or> view (snd (settleBridgedPending a st)) = view ?l"
    by (auto simp: settleBridgedPending_def Let_def split_beta)
  then show "owed (snd (settleBridgedPending a st)) b e = Some p"
    "ss_closed (sess (snd (settleBridgedPending a st)) b) = ss_closed (sess st b)"
    using v p by auto
qed

lemma supersede_keeps:
  assumes inv: "sm_inv st" and prior: "prior < length (sm_sessionHeap st)" and b: "b < length (sm_sessionHeap st)"
    and p: "owed st b e = Some p" and live: "b = prior \<longrightarrow> \<not> settleable (pend st p)"
  shows "owed (supersede prior st) b e = Some p \<and> ss_closed (sess (supersede prior st) b) = ss_closed (sess st b)"
proof (cases "isPumping (sess st prior)")
  case False
  let ?u = "snd (settleBridgedPending prior st)"
  note k = settle_keeps [OF inv prior p b live]
  have n: "inv_n (length (sm_sessionHeap st)) st" using inv by (simp add: inv_n_def)
  have u: "inv_n (length (sm_sessionHeap st)) ?u" by (rule inv_n_settle [OF n prior])
  have "sess (closeSession prior (Terminal SupersededByNewRun) None ?u) b = sess ?u b" if "ss_pending (sess ?u prior) = []"
    using close_keeps(1) [OF u prior] that k(1) by (cases "b = prior") auto
  then show ?thesis using False k by (auto simp: supersede_def Let_def)
qed (use p in \<open>simp add: supersede_def\<close>)

text \<open>A newer Run of the same host session never costs a prior Run a live exec: an exec that is
  neither bridged, aborted nor answered, or whose result is being written, stays owed and its Run open.\<close>
theorem newer_run_spares_live_work:
  assumes "sm_inv st" and "prior < length (sm_sessionHeap st)" and "owed st prior e = Some p" and "\<not> settleable (pend st p)"
  shows "owed (supersede prior st) prior e = Some p \<and> \<not> ss_closed (sess (supersede prior st) prior)"
proof -
  have "prior \<in> set (sm_sessions st)" using sm_inv_owed [OF assms(1,2), of e] assms(3) by simp
  then show ?thesis using supersede_keeps [OF assms(1,2,2,3)] assms(4) sm_inv_sessions [OF assms(1)] by simp
qed

theorem newer_run_spares_live_work_witness:
  "owed (supersede 0 (sy_mgr demo_sys)) 0 7 = Some 0 \<and> \<not> ss_closed (sess (supersede 0 (sy_mgr demo_sys)) 0)"
proof -
  have "sm_inv (sy_mgr demo_sys)" using sys_run_inv [OF demo_manager_created, of demo_events] unfolding demo_run by (simp add: sys_inv_def)
  then show ?thesis
    by (rule newer_run_spares_live_work) (simp_all add: demo_sys_def settleable_def)
qed

section \<open>The continuation policy\<close>

lemma pair_sum_cases: "(case x of Inl e \<Rightarrow> Inl e | Inr y \<Rightarrow> f y) = Inr z \<longleftrightarrow> (\<exists>y. x = Inr y \<and> f y = Inr z)"
  by (cases x) simp_all

text \<open>A policy that is accepted is ordered and within the timer range: heartbeats come more often
  than the idle deadline, and the idle deadline is no later than the hard cap.\<close>
theorem accepted_policy_is_ordered:
  assumes "resolveContinuationPolicy options = Inr q"
  shows "0 < heartbeatMs q \<and> heartbeatMs q < semanticIdleMs q \<and> semanticIdleMs q \<le> hardCapMs q \<and> hardCapMs q \<le> MAX_TIMER_MS"
  using assms by (auto simp: resolveContinuationPolicy_def Let_def pair_sum_cases split: if_splits option.splits dest!: positiveInteger_Inr)

theorem accepted_policy_is_ordered_witness:
  "resolveContinuationPolicy (Options [(''softHealthMs'', JInt 9000)]) = Inr \<lparr>semanticIdleMs = 9000, hardCapMs = 600000, heartbeatMs = 5000\<rparr>
   \<and> (5000::int) < 9000"
proof -
  have r: "resolveContinuationPolicy (Options [(''softHealthMs'', JInt 9000)]) = Inr \<lparr>semanticIdleMs = 9000, hardCapMs = 600000, heartbeatMs = 5000\<rparr>"
    by code_simp
  from accepted_policy_is_ordered [OF this] r show ?thesis by simp
qed

end
