(* ===== verification/ParallelStep.thy ===== *)
theory ParallelStep
  imports Prelude Complex_Main
begin

text \<open>
  The step boundary of parallel tool calls (\<open>src/src/parallel-step.ts\<close>): a host step stays open
  until the number of calls Cursor listed is resolved, or until nothing has happened for the idle
  guard. A call id is a string, \<open>undefined\<close> is \<open>None\<close>; the listed count is a JavaScript number.
\<close>

section \<open>State and operations\<close>

definition PARALLEL_STEP_IDLE_MS :: int where "PARALLEL_STEP_IDLE_MS = 1500"

datatype js_count = Finite rat | NotFinite

record parallel_step =
  ps_listedCount :: "rat option"
  ps_callIds :: "string list"
  ps_resolved :: "string list"
  ps_emitted :: nat
  ps_lastProgressAt :: int

text \<open>The process-wide flag is threaded beside the step.\<close>

definition createParallelStep :: "int \<Rightarrow> parallel_step" where
  "createParallelStep now = \<lparr>ps_listedCount = None, ps_callIds = [], ps_resolved = [], ps_emitted = 0, ps_lastProgressAt = now\<rparr>"

definition noteParallelStepProgress :: "int \<Rightarrow> parallel_step \<Rightarrow> parallel_step" where
  "noteParallelStepProgress now s = s\<lparr>ps_lastProgressAt := now\<rparr>"

definition noteListedCallCount :: "js_count \<Rightarrow> int \<Rightarrow> bool \<times> parallel_step \<Rightarrow> bool \<times> parallel_step" where
  "noteListedCallCount callCount now st =
     (let s = snd st;
          s1 = (case callCount of Finite c \<Rightarrow> if c \<ge> 0 then s\<lparr>ps_listedCount := Some c\<rparr> else s | NotFinite \<Rightarrow> s)
      in (True, noteParallelStepProgress now s1))"

definition set_add :: "string \<Rightarrow> string list \<Rightarrow> string list" where
  "set_add x xs = (if x \<in> set xs then xs else xs @ [x])"

definition resolveParallelStepCall :: "string option \<Rightarrow> string list \<Rightarrow> int \<Rightarrow> parallel_step \<Rightarrow> bool \<times> parallel_step" where
  "resolveParallelStepCall callId prior now s =
     (case callId of
        None \<Rightarrow> (False, s)
      | Some i \<Rightarrow>
          if i = [] \<or> i \<in> set prior then (False, s)
          else (let s1 = s\<lparr>ps_callIds := set_add i (ps_callIds s)\<rparr>
                in if i \<in> set (ps_resolved s1) then (False, s1)
                   else (True, noteParallelStepProgress now (s1\<lparr>ps_resolved := set_add i (ps_resolved s1)\<rparr>))))"

definition recordParallelStepEmission :: "int \<Rightarrow> parallel_step \<Rightarrow> parallel_step" where
  "recordParallelStepEmission now s = noteParallelStepProgress now (s\<lparr>ps_emitted := ps_emitted s + 1\<rparr>)"

definition parallelStepCountMet :: "parallel_step \<Rightarrow> bool" where
  "parallelStepCountMet s = (case ps_listedCount s of None \<Rightarrow> False | Some c \<Rightarrow> of_nat (length (ps_resolved s)) \<ge> c)"

definition shouldHoldParallelStep :: "bool option \<Rightarrow> bool \<Rightarrow> bool \<times> parallel_step \<Rightarrow> bool" where
  "shouldHoldParallelStep fieldSeen humanGatedWithoutCount st =
     (let seen = fst st; s = snd st in
      if humanGatedWithoutCount \<and> ps_listedCount s = None then False
      else if \<not> (case fieldSeen of None \<Rightarrow> seen | Some b \<Rightarrow> b) \<and> ps_listedCount s = None then False
      else \<not> parallelStepCountMet s)"

definition shouldGuardCloseParallelStep :: "int \<Rightarrow> int \<Rightarrow> parallel_step \<Rightarrow> bool" where
  "shouldGuardCloseParallelStep now idleMs s =
     (if parallelStepCountMet s then False else now - ps_lastProgressAt s \<ge> idleMs)"

record frame_kinds =
  toolRequestsListed :: bool
  partialToolCall :: bool
  toolCallDelta :: bool
  toolCallStarted :: bool
  toolCallCompleted :: bool
  exec_kind :: bool
  interactionQuery :: bool
  textDelta :: bool
  thinkingDelta :: bool

definition isParallelStepProgressFrame :: "frame_kinds \<Rightarrow> bool" where
  "isParallelStepProgressFrame k \<longleftrightarrow> toolRequestsListed k \<or> partialToolCall k \<or> toolCallDelta k \<or> toolCallStarted k
     \<or> toolCallCompleted k \<or> exec_kind k \<or> interactionQuery k \<or> textDelta k \<or> thinkingDelta k"

section \<open>Events of a step\<close>

datatype ps_event = PCount js_count int | PFrame frame_kinds int | PResolve "string option" int | PEmit int

fun ps_time :: "ps_event \<Rightarrow> int" where
  "ps_time (PCount _ t) = t" | "ps_time (PFrame _ t) = t" | "ps_time (PResolve _ t) = t" | "ps_time (PEmit t) = t"

fun ps_step :: "string list \<Rightarrow> bool \<times> parallel_step \<Rightarrow> ps_event \<Rightarrow> bool \<times> parallel_step" where
  "ps_step prior st (PCount c t) = noteListedCallCount c t st"
| "ps_step prior st (PFrame k t) = (fst st, if isParallelStepProgressFrame k then noteParallelStepProgress t (snd st) else snd st)"
| "ps_step prior st (PResolve i t) = (fst st, snd (resolveParallelStepCall i prior t (snd st)))"
| "ps_step prior st (PEmit t) = (fst st, recordParallelStepEmission t (snd st))"

text \<open>The calls a sequence of events resolves.\<close>

fun resolved_ids :: "string list \<Rightarrow> ps_event list \<Rightarrow> string set" where
  "resolved_ids prior [] = {}"
| "resolved_ids prior (PResolve (Some i) t # es) =
     (if i = [] \<or> i \<in> set prior then {} else {i}) \<union> resolved_ids prior es"
| "resolved_ids prior (_ # es) = resolved_ids prior es"

definition ps_inv :: "parallel_step \<Rightarrow> bool" where
  "ps_inv s \<longleftrightarrow> distinct (ps_resolved s) \<and> set (ps_resolved s) \<subseteq> set (ps_callIds s)"

lemma set_add [simp]: "set (set_add x xs) = insert x (set xs)" "distinct (set_add x xs) = distinct xs"
  by (auto simp: set_add_def)

lemma resolve_spec:
  assumes "ps_inv s"
  shows "ps_inv (snd (resolveParallelStepCall i prior t s))"
    "set (ps_resolved (snd (resolveParallelStepCall i prior t s)))
      = set (ps_resolved s) \<union> (case i of None \<Rightarrow> {} | Some j \<Rightarrow> if j = [] \<or> j \<in> set prior then {} else {j})"
    "fst (resolveParallelStepCall i prior t s) \<longleftrightarrow>
       set (ps_resolved (snd (resolveParallelStepCall i prior t s))) \<noteq> set (ps_resolved s)"
  using assms by (auto simp: resolveParallelStepCall_def ps_inv_def Let_def noteParallelStepProgress_def split: option.splits)

lemma ps_inv_upd [simp]:
  "ps_inv (noteParallelStepProgress t s) = ps_inv s" "ps_inv (s\<lparr>ps_listedCount := c\<rparr>) = ps_inv s"
  "ps_inv (s\<lparr>ps_emitted := n\<rparr>) = ps_inv s" "ps_inv (createParallelStep t)"
  by (simp_all add: ps_inv_def noteParallelStepProgress_def createParallelStep_def)

lemma created_resolved [simp]: "ps_resolved (createParallelStep t) = []"
  by (simp add: createParallelStep_def)

lemma ps_step_inv: "ps_inv (snd st) \<Longrightarrow> ps_inv (snd (ps_step prior st e))"
  by (cases e) (auto simp: resolve_spec(1) noteListedCallCount_def recordParallelStepEmission_def Let_def split: js_count.splits)

lemma ps_step_resolved:
  "ps_inv (snd st) \<Longrightarrow> set (ps_resolved (snd (ps_step prior st e))) = set (ps_resolved (snd st)) \<union> resolved_ids prior [e]"
  by (cases e) (auto simp: resolve_spec noteListedCallCount_def recordParallelStepEmission_def noteParallelStepProgress_def
      Let_def split: js_count.splits option.splits)

lemma ps_step_time: "ps_lastProgressAt (snd (ps_step prior st e)) \<in> {ps_lastProgressAt (snd st), ps_time e}"
  by (cases e) (auto simp: resolveParallelStepCall_def noteListedCallCount_def recordParallelStepEmission_def
      noteParallelStepProgress_def Let_def split: option.splits js_count.splits)

interpretation ps_sys: step_system "\<lambda>st. \<exists>now seen. st = (seen, createParallelStep now)" "ps_step prior" "\<lambda>st. ps_inv (snd st)" for prior
  by unfold_locales (auto intro: ps_step_inv)

lemma resolved_ids_Cons: "resolved_ids prior (e # es) = resolved_ids prior [e] \<union> resolved_ids prior es"
proof (cases e)
  case (PResolve i t)
  then show ?thesis by (cases i) simp_all
qed simp_all

lemma ps_run_resolved:
  "ps_inv (snd st) \<Longrightarrow> set (ps_resolved (snd (ps_sys.run prior st es))) = set (ps_resolved (snd st)) \<union> resolved_ids prior es"
proof (induction es arbitrary: st)
  case (Cons e es)
  then show ?case using Cons.IH [OF ps_step_inv [OF Cons.prems]] ps_step_resolved [OF Cons.prems]
    by (simp add: resolved_ids_Cons [of prior e es] Un_assoc)
qed simp

lemma ps_run_time:
  "ps_lastProgressAt (snd st) \<le> T \<Longrightarrow> \<forall>e \<in> set es. ps_time e \<le> T \<Longrightarrow> ps_lastProgressAt (snd (ps_sys.run prior st es)) \<le> T"
proof (induction es arbitrary: st)
  case (Cons e es)
  have "ps_lastProgressAt (snd (ps_step prior st e)) \<le> T" using Cons.prems ps_step_time [of prior st e] by auto
  then show ?case using Cons.IH Cons.prems(2) by simp
qed simp

text \<open>The calls a step counts as resolved are exactly the distinct calls that got a final
  disposition in it, without empty ids and without the calls of earlier steps: the step has met its
  listed count when at least that many distinct calls did.\<close>
theorem resolved_calls_are_counted_once:
  assumes "st = ps_sys.run prior (seen, createParallelStep now) es"
  shows "length (ps_resolved (snd st)) = card (resolved_ids prior es)
    \<and> (parallelStepCountMet (snd st) \<longleftrightarrow> (case ps_listedCount (snd st) of None \<Rightarrow> False
         | Some c \<Rightarrow> c \<le> of_nat (card (resolved_ids prior es))))"
proof -
  have "ps_inv (snd st)" unfolding assms by (rule ps_sys.reachable_inv) blast
  moreover have "set (ps_resolved (snd st)) = resolved_ids prior es"
    unfolding assms using ps_run_resolved [of "(seen, createParallelStep now)" prior es] by simp
  ultimately have "length (ps_resolved (snd st)) = card (resolved_ids prior es)"
    unfolding ps_inv_def by (metis distinct_card)
  then show ?thesis by (simp add: parallelStepCountMet_def split: option.splits)
qed

text \<open>A held step always ends: once the idle guard has passed since its last event, the step is
  either not held or the guard closes it, whatever Cursor listed and whatever was resolved.\<close>
theorem parallel_step_ends:
  assumes "T = Max (insert now (ps_time ` set es))" and "later \<ge> T + PARALLEL_STEP_IDLE_MS"
  shows "\<not> shouldHoldParallelStep fieldSeen gated (ps_sys.run prior (seen, createParallelStep now) es)
    \<or> shouldGuardCloseParallelStep later PARALLEL_STEP_IDLE_MS (snd (ps_sys.run prior (seen, createParallelStep now) es))"
proof -
  let ?st = "ps_sys.run prior (seen, createParallelStep now) es"
  have "ps_lastProgressAt (snd ?st) \<le> T"
    by (rule ps_run_time) (auto simp: assms(1) createParallelStep_def)
  then show ?thesis
    using assms(2) by (auto simp: shouldHoldParallelStep_def shouldGuardCloseParallelStep_def Let_def)
qed

definition ps_demo :: "ps_event list" where
  "ps_demo = [PCount (Finite 2) 10, PResolve (Some ''a'') 20, PResolve (Some ''a'') 30, PResolve (Some ''old'') 40, PResolve None 50]"

theorem resolved_calls_are_counted_once_witness:
  "card (resolved_ids [''old''] ps_demo) = 1 \<and> \<not> parallelStepCountMet (snd (ps_sys.run [''old''] (False, createParallelStep 0) ps_demo))"
  using resolved_calls_are_counted_once [OF refl, of "[''old'']" False 0 ps_demo]
  by (simp add: ps_demo_def noteListedCallCount_def resolveParallelStepCall_def createParallelStep_def noteParallelStepProgress_def
      set_add_def Let_def)

theorem parallel_step_ends_witness:
  "shouldGuardCloseParallelStep 1550 PARALLEL_STEP_IDLE_MS (snd (ps_sys.run [''old''] (False, createParallelStep 0) ps_demo))"
proof -
  have "shouldHoldParallelStep None False (ps_sys.run [''old''] (False, createParallelStep 0) ps_demo)"
    by (simp add: ps_demo_def noteListedCallCount_def resolveParallelStepCall_def createParallelStep_def noteParallelStepProgress_def
        set_add_def Let_def shouldHoldParallelStep_def parallelStepCountMet_def)
  with parallel_step_ends [OF refl, of 0 ps_demo 1550 None False "[''old'']" False] show ?thesis
    by (simp add: ps_demo_def PARALLEL_STEP_IDLE_MS_def)
qed

end
