(* ===== verification/FrameReader.thy ===== *)
theory FrameReader
  imports Prelude
begin

text \<open>
  Reading the frames of a held Run (\<open>readSessionFrame\<close> in \<open>src/src/session.ts\<close>): a pushed-back frame
  first, then the frames a reader held back, then the iterator. A timeout that wins the race leaves
  the iterator read pending for the next reader. The iterator's results, in the order of its
  \<open>next()\<close> calls, are the list \<open>src\<close>; calls after its end report the end again.
\<close>

section \<open>Reading one frame\<close>

datatype ('f, 'x) outcome_of_next = Arrives 'f | Throws 'x

datatype ('f, 'x) read_result = ReadFrame 'f | ReadDone | TimedOut | ReadThrows 'x

record 'f frame_reader =
  pushbackFrame :: "'f option"
  heldFrames :: "'f list"
  pendingFrameRead :: "nat option"
  nextCalls :: nat

definition next_result :: "('f, 'x) outcome_of_next list \<Rightarrow> nat \<Rightarrow> ('f, 'x) read_result" where
  "next_result src i = (if i < length src then (case src ! i of Arrives f \<Rightarrow> ReadFrame f | Throws x \<Rightarrow> ReadThrows x) else ReadDone)"

text \<open>\<open>settled\<close> says whether the pending read wins the race against the timer, when there is one.\<close>

definition readSessionFrame :: "('f, 'x) outcome_of_next list \<Rightarrow> bool \<Rightarrow> 'f frame_reader \<Rightarrow> ('f, 'x) read_result \<times> 'f frame_reader" where
  "readSessionFrame src settled r =
     (case pushbackFrame r of
        Some f \<Rightarrow> (ReadFrame f, r\<lparr>pushbackFrame := None\<rparr>)
      | None \<Rightarrow>
          (case heldFrames r of
             f # fs \<Rightarrow> (ReadFrame f, r\<lparr>heldFrames := fs\<rparr>)
           | [] \<Rightarrow>
               (let (i, r1) = (case pendingFrameRead r of
                        Some i \<Rightarrow> (i, r)
                      | None \<Rightarrow> (nextCalls r, r\<lparr>pendingFrameRead := Some (nextCalls r), nextCalls := nextCalls r + 1\<rparr>))
                in if settled then (next_result src i, r1\<lparr>pendingFrameRead := None\<rparr>) else (TimedOut, r1))))"

definition stream_reader :: "'f frame_reader" where
  "stream_reader = \<lparr>pushbackFrame = None, heldFrames = [], pendingFrameRead = None, nextCalls = 0\<rparr>"

section \<open>No frame is lost or overtaken\<close>

text \<open>The results not yet handed to a reader, in order.\<close>

definition unread :: "('f, 'x) outcome_of_next list \<Rightarrow> 'f frame_reader \<Rightarrow> ('f, 'x) outcome_of_next list" where
  "unread src r = map Arrives (case pushbackFrame r of None \<Rightarrow> [] | Some f \<Rightarrow> [f]) @ map Arrives (heldFrames r)
     @ drop (case pendingFrameRead r of None \<Rightarrow> nextCalls r | Some i \<Rightarrow> i) src"

definition reader_ok :: "'f frame_reader \<Rightarrow> bool" where
  "reader_ok r \<longleftrightarrow> (case pendingFrameRead r of None \<Rightarrow> True | Some i \<Rightarrow> nextCalls r = Suc i)"

fun handed :: "('f, 'x) read_result \<Rightarrow> ('f, 'x) outcome_of_next list" where
  "handed (ReadFrame f) = [Arrives f]"
| "handed (ReadThrows x) = [Throws x]"
| "handed ReadDone = []"
| "handed TimedOut = []"

lemma read_keeps_order:
  assumes "reader_ok r" and "readSessionFrame src settled r = (res, r')"
  shows "unread src r = handed res @ unread src r'" "reader_ok r'"
    "res = ReadDone \<Longrightarrow> unread src r = []" "settled \<Longrightarrow> res \<noteq> TimedOut"
proof -
  have d: "drop i src = handed (next_result src i) @ drop (Suc i) src" for i
    by (cases "i < length src") (auto simp: next_result_def Cons_nth_drop_Suc [symmetric] split: outcome_of_next.splits)
  have e: "next_result src i = ReadDone \<Longrightarrow> drop i src = []" for i
    by (auto simp: next_result_def split: if_splits outcome_of_next.splits)
  have n: "next_result src i \<noteq> TimedOut" for i by (auto simp: next_result_def split: outcome_of_next.splits)
  have "unread src r = handed res @ unread src r' \<and> reader_ok r' \<and> (res = ReadDone \<longrightarrow> unread src r = []) \<and> (settled \<longrightarrow> res \<noteq> TimedOut)"
  proof (cases "pushbackFrame r = None \<and> heldFrames r = []")
    case True
    define i where "i = (case pendingFrameRead r of None \<Rightarrow> nextCalls r | Some i \<Rightarrow> i)"
    let ?r = "r\<lparr>pendingFrameRead := Some i, nextCalls := Suc i\<rparr>"
    have r: "readSessionFrame src settled r = (if settled then (next_result src i, ?r\<lparr>pendingFrameRead := None\<rparr>) else (TimedOut, ?r))"
      using True assms(1) by (auto simp: readSessionFrame_def i_def reader_ok_def split: option.splits)
    show ?thesis
      using assms(2) True d [of i] e [of i] n [of i] unfolding r
      by (auto simp: unread_def reader_ok_def i_def [symmetric] split: if_splits)
  qed (use assms in \<open>auto simp: readSessionFrame_def unread_def reader_ok_def split: option.splits list.splits\<close>)
  then show "unread src r = handed res @ unread src r'" "reader_ok r'" "res = ReadDone \<Longrightarrow> unread src r = []" "settled \<Longrightarrow> res \<noteq> TimedOut"
    by blast+
qed

text \<open>A sequence of reads, each with or without its timer winning, and the results they hand over.\<close>

fun read_all :: "('f, 'x) outcome_of_next list \<Rightarrow> bool list \<Rightarrow> 'f frame_reader \<Rightarrow> ('f, 'x) read_result list \<times> 'f frame_reader" where
  "read_all src [] r = ([], r)"
| "read_all src (b # bs) r =
     (let (res, r1) = readSessionFrame src b r; (rs, r2) = read_all src bs r1 in (res # rs, r2))"

lemma read_all_keeps_order:
  "reader_ok r \<Longrightarrow> unread src r = concat (map handed (fst (read_all src bs r))) @ unread src (snd (read_all src bs r))"
proof (induction bs arbitrary: r)
  case (Cons b bs)
  obtain res r1 where r: "readSessionFrame src b r = (res, r1)" by (cases "readSessionFrame src b r")
  show ?case using read_keeps_order [OF Cons.prems r] Cons.IH [of r1] r by (simp add: split_beta)
qed simp

text \<open>Whatever timers win, the frames handed to the readers of a Run, one after the other, are the
  pushed-back frame, the held frames and then the stream's, in order: a timed-out read loses and
  reorders nothing, and an error is reported once.\<close>
theorem frames_survive_timeouts:
  assumes "r = stream_reader\<lparr>pushbackFrame := back, heldFrames := held\<rparr>" and "read_all src timers r = (results, r')"
  shows "map Arrives (case back of None \<Rightarrow> [] | Some f \<Rightarrow> [f]) @ map Arrives held @ src
    = concat (map handed results) @ unread src r'"
proof -
  have "reader_ok r" "unread src r = map Arrives (case back of None \<Rightarrow> [] | Some f \<Rightarrow> [f]) @ map Arrives held @ src"
    by (simp_all add: assms(1) stream_reader_def reader_ok_def unread_def)
  then show ?thesis using read_all_keeps_order [of r src timers] assms(2) by simp
qed

theorem frames_survive_timeouts_witness:
  "concat (map handed (fst (read_all [Arrives ''c'', Throws True] [False, False, False, False, True, True, True]
      (stream_reader\<lparr>pushbackFrame := Some ''a'', heldFrames := [''b'']\<rparr>)))) = [Arrives ''a'', Arrives ''b'', Arrives ''c'', Throws True]"
proof -
  have "read_all [Arrives ''c'', Throws True] [False, False, False, False, True, True, True]
      (stream_reader\<lparr>pushbackFrame := Some ''a'', heldFrames := [''b'']\<rparr>)
    = ([ReadFrame ''a'', ReadFrame ''b'', TimedOut, TimedOut, ReadFrame ''c'', ReadThrows True, ReadDone],
       stream_reader\<lparr>nextCalls := 3\<rparr>)"
    by (simp add: readSessionFrame_def stream_reader_def Let_def next_result_def)
  from frames_survive_timeouts [OF refl this] show ?thesis
    using \<open>read_all _ _ _ = _\<close> by (simp add: unread_def stream_reader_def)
qed

end
