(* ===== verification/JsString.thy ===== *)
theory JsString
  imports Utf8
begin

text \<open>
  JavaScript strings as lists of UTF-16 code units: the methods of \<open>String.prototype\<close> the sources
  call, and the lemmas on lines, searches and prefixes that the components on text share.
\<close>

section \<open>JavaScript strings\<close>

definition nl :: "16 word" where "nl = 10"
definition lit :: "string \<Rightarrow> utf16" where "lit s = map (\<lambda>c. of_nat (of_char c)) s"

definition starts_with :: "utf16 \<Rightarrow> utf16 \<Rightarrow> bool" where
  "starts_with p s \<longleftrightarrow> take (length p) s = p"

definition ends_with :: "utf16 \<Rightarrow> utf16 \<Rightarrow> bool" where
  "ends_with p s \<longleftrightarrow> length p \<le> length s \<and> drop (length s - length p) s = p"

text \<open>\<open>split("\n")\<close> and \<open>join("\n")\<close>.\<close>

fun split_nl :: "utf16 \<Rightarrow> utf16 list" where
  "split_nl [] = [[]]"
| "split_nl (c # cs) = (if c = nl then [] # split_nl cs else (c # hd (split_nl cs)) # tl (split_nl cs))"

fun join_nl :: "utf16 list \<Rightarrow> utf16" where
  "join_nl [] = []"
| "join_nl [l] = l"
| "join_nl (l # ls) = l @ nl # join_nl ls"

definition indexOf :: "utf16 \<Rightarrow> utf16 \<Rightarrow> nat \<Rightarrow> nat option" where
  "indexOf s p from = find (\<lambda>i. starts_with p (drop i s)) [from ..< length s + 1 - length p]"

text \<open>White space of \<open>String.prototype.trim\<close>.\<close>

definition js_space :: "16 word \<Rightarrow> bool" where
  "js_space c \<longleftrightarrow> c \<in> {9, 10, 11, 12, 13, 32, 0xA0, 0x1680, 0x2028, 0x2029, 0x202F, 0x205F, 0x3000, 0xFEFF}
     \<or> (0x2000 \<le> c \<and> c \<le> 0x200A)"

definition js_trim :: "utf16 \<Rightarrow> utf16" where
  "js_trim s = rev (dropWhile js_space (rev (dropWhile js_space s)))"

lemma find_upt_Some: "find P [a ..< b] = Some i \<longleftrightarrow> a \<le> i \<and> i < b \<and> P i \<and> (\<forall>j. a \<le> j \<and> j < i \<longrightarrow> \<not> P j)"
proof (induction b)
  case (Suc b)
  have f: "find P (xs @ [b]) = (case find P xs of None \<Rightarrow> if P b then Some b else None | Some i \<Rightarrow> Some i)" for xs
    by (induction xs) auto
  have n: "find P [a ..< b] = None \<longleftrightarrow> (\<forall>j. a \<le> j \<and> j < b \<longrightarrow> \<not> P j)" by (auto simp: find_None_iff)
  show ?case
  proof (cases "find P [a ..< b]")
    case None
    then show ?thesis using n f [of "[a ..< b]"] by (auto simp: less_Suc_eq)
  next
    case (Some j)
    then have "j = i \<longleftrightarrow> a \<le> i \<and> i < b \<and> P i \<and> (\<forall>j. a \<le> j \<and> j < i \<longrightarrow> \<not> P j)" using Suc.IH by auto
    moreover have "\<not> (\<forall>k. a \<le> k \<and> k < b \<longrightarrow> \<not> P k)" using Some n by auto
    ultimately show ?thesis using Some f [of "[a ..< b]"] by (auto simp: less_Suc_eq)
  qed
qed simp

lemma indexOf_Some:
  "indexOf s p a = Some i \<longleftrightarrow> a \<le> i \<and> i + length p \<le> length s \<and> starts_with p (drop i s)
     \<and> (\<forall>j. a \<le> j \<and> j < i \<longrightarrow> \<not> starts_with p (drop j s))"
  unfolding indexOf_def find_upt_Some by auto

section \<open>Lines\<close>

lemma split_nonempty [simp]: "split_nl s \<noteq> []"
  by (cases s) auto

lemma join_Cons: "ls \<noteq> [] \<Longrightarrow> join_nl (l # ls) = l @ nl # join_nl ls"
  by (cases ls) auto

lemma join_split [simp]: "join_nl (split_nl s) = s"
proof (induction s)
  case (Cons c cs)
  obtain l ls where l: "split_nl cs = l # ls" by (cases "split_nl cs") auto
  then show ?case using Cons.IH by (cases ls) (auto simp: join_Cons)
qed simp

lemma split_append: "split_nl (xs @ nl # ys) = split_nl xs @ split_nl ys"
proof (induction xs)
  case (Cons c cs)
  then show ?case by (cases "split_nl cs") auto
qed simp

lemma split_plain: "nl \<notin> set l \<Longrightarrow> split_nl l = [l]"
  by (induction l) auto

lemma split_join: "ls \<noteq> [] \<Longrightarrow> \<forall>l \<in> set ls. nl \<notin> set l \<Longrightarrow> split_nl (join_nl ls) = ls"
proof (induction ls rule: join_nl.induct)
  case (3 l m ls)
  then show ?case by (simp add: split_append split_plain)
qed (simp_all add: split_plain)

lemma join_inj:
  assumes "ls \<noteq> []" "ms \<noteq> []" "\<forall>l \<in> set ls \<union> set ms. nl \<notin> set l" "join_nl ls = join_nl ms"
  shows "ls = ms"
  using assms split_join [of ls] split_join [of ms] by (metis UnCI)

lemma split_no_nl: "l \<in> set (split_nl s) \<Longrightarrow> nl \<notin> set l"
proof (induction s arbitrary: l)
  case (Cons c cs)
  then show ?case by (cases "split_nl cs") (auto split: if_splits)
qed simp

lemma last_split_nl [simp]: "last (split_nl (xs @ [nl])) = []" "split_nl (xs @ [nl]) = split_nl xs @ [[]]"
  using split_append [of xs "[]"] by simp_all

lemma last_split: "last (split_nl s) = [] \<longleftrightarrow> s = [] \<or> ends_with [nl] s"
proof (cases s rule: rev_cases)
  case (snoc xs c)
  show ?thesis
  proof (cases "c = nl")
    case True
    then show ?thesis using snoc by (simp add: ends_with_def)
  next
    case False
    have "last (split_nl (xs @ [c])) \<noteq> []" if "c \<noteq> nl" for xs
      using that
    proof (induction xs)
      case (Cons d ds)
      then show ?case by (cases "split_nl (ds @ [c])") (auto split: if_splits)
    qed simp
    then show ?thesis using snoc False by (auto simp: ends_with_def)
  qed
qed simp

section \<open>Searching backwards and numbers\<close>

text \<open>\<open>lastIndexOf(p, pos)\<close>: the last start of \<open>p\<close> at or before \<open>pos\<close>.\<close>

definition lastIndexOf :: "utf16 \<Rightarrow> utf16 \<Rightarrow> nat \<Rightarrow> nat option" where
  "lastIndexOf s p pos =
     (if length p > length s then None
      else find (\<lambda>i. starts_with p (drop i s)) (rev [0 ..< Suc (min pos (length s - length p))]))"

definition is_digit :: "16 word \<Rightarrow> bool" where
  "is_digit c \<longleftrightarrow> 48 \<le> c \<and> c \<le> 57"

text \<open>The digits of a natural number, and the number digits denote.\<close>

fun decimal :: "nat \<Rightarrow> utf16" where
  "decimal n = (if n < 10 then [of_nat (48 + n)] else decimal (n div 10) @ [of_nat (48 + n mod 10)])"

declare decimal.simps [simp del]

definition digits_value :: "utf16 \<Rightarrow> nat" where
  "digits_value ds = foldl (\<lambda>n c. 10 * n + (unat c - 48)) 0 ds"

text \<open>
  An integer held in a JavaScript number; both zeros are 0. \<open>Number\<close> of a digit string rounds the
  value to 53 significant bits, ties to even, and overflows to infinity.
\<close>

datatype js_int = JsInt int | JsInfinity | JsNegInfinity

fun bit_length :: "nat \<Rightarrow> nat" where
  "bit_length n = (if n = 0 then 0 else Suc (bit_length (n div 2)))"

declare bit_length.simps [simp del]

definition js_round :: "nat \<Rightarrow> js_int" where
  "js_round n =
     (let e = bit_length n - 53; q = n div 2 ^ e; r = n mod 2 ^ e;
          m = (if 2 * r > 2 ^ e \<or> 2 * r = 2 ^ e \<and> odd q then q + 1 else q) * 2 ^ e
      in if bit_length m > 1024 then JsInfinity else JsInt (int m))"

fun js_negate :: "js_int \<Rightarrow> js_int" where
  "js_negate (JsInt i) = JsInt (- i)"
| "js_negate JsInfinity = JsNegInfinity"
| "js_negate JsNegInfinity = JsInfinity"

text \<open>\<open>Number.isSafeInteger\<close> of such a number.\<close>

fun js_safe :: "js_int \<Rightarrow> bool" where
  "js_safe (JsInt i) \<longleftrightarrow> \<bar>i\<bar> < 2 ^ 53"
| "js_safe _ \<longleftrightarrow> False"

lemma starts_with_append [simp]: "starts_with p (p @ s)"
  by (simp add: starts_with_def)

lemma starts_withE: "starts_with p s \<Longrightarrow> s = p @ drop (length p) s"
  by (metis append_take_drop_id starts_with_def)

lemma starts_with_take: "starts_with p s \<Longrightarrow> length p \<le> n \<Longrightarrow> starts_with p (take n s)"
  by (simp add: starts_with_def min_def)

lemma digit_of_nat: "d < 10 \<Longrightarrow> is_digit (of_nat (48 + d)) \<and> unat (of_nat (48 + d) :: 16 word) = 48 + d"
proof -
  assume "d < 10"
  then have "unat (of_nat (48 + d) :: 16 word) = 48 + d" by (simp add: unsigned_of_nat take_bit_nat_eq_self del: of_nat_add)
  then show ?thesis using \<open>d < 10\<close> by (simp add: is_digit_def word_le_nat_alt del: of_nat_add)
qed

lemma decimal_digits: "list_all is_digit (decimal n)"
proof (induction n rule: decimal.induct)
  case (1 n)
  have "is_digit (of_nat (48 + n mod 10))" using digit_of_nat [of "n mod 10"] by simp
  then show ?case using 1 digit_of_nat [of n] by (subst decimal.simps) (simp del: of_nat_add)
qed

lemma decimal_nonempty [simp]: "decimal n \<noteq> []"
  by (subst decimal.simps) simp

lemma digits_value_decimal [simp]: "digits_value (decimal n) = n"
proof (induction n rule: decimal.induct)
  case (1 n)
  have "unat (of_nat (48 + n mod 10) :: 16 word) - 48 = n mod 10" using digit_of_nat [of "n mod 10"] by simp
  then show ?case using 1 digit_of_nat [of n]
    by (subst decimal.simps) (auto simp: digits_value_def simp del: of_nat_add)
qed

lemma digit_not_special: "is_digit c \<Longrightarrow> c \<noteq> nl \<and> c \<noteq> 13 \<and> c \<noteq> 58 \<and> c \<noteq> 32 \<and> c \<noteq> 45"
  by (auto simp: is_digit_def nl_def)

lemma bit_length_le: "n < 2 ^ k \<Longrightarrow> bit_length n \<le> k"
proof (induction n arbitrary: k rule: bit_length.induct)
  case (1 n)
  show ?case
  proof (cases "n = 0")
    case False
    then obtain j where k: "k = Suc j" using 1(2) by (cases k) auto
    then have "n div 2 < 2 ^ j" using 1(2) by simp
    then show ?thesis using 1(1) False k by (subst bit_length.simps) simp
  qed (simp add: bit_length.simps)
qed

lemma js_round_exact: "n < 2 ^ 53 \<Longrightarrow> js_round n = JsInt (int n)"
  using bit_length_le [of n 53] by (simp add: js_round_def)

text \<open>A line start in a text is the start of one of its lines.\<close>

lemma hd_split: "m \<noteq> [] \<Longrightarrow> nl \<notin> set m \<Longrightarrow> starts_with m s \<Longrightarrow> starts_with m (hd (split_nl s))"
proof (induction s arbitrary: m)
  case Nil
  then show ?case by (simp add: starts_with_def)
next
  case (Cons c cs)
  then obtain ms where m: "m = c # ms" "starts_with ms cs" by (cases m) (auto simp: starts_with_def)
  then show ?case using Cons.IH [of ms] Cons.prems by (cases "ms = []") (auto simp: starts_with_def)
qed

lemma line_start_in_split: "a = [] \<or> last a = nl \<Longrightarrow> hd (split_nl b) \<in> set (split_nl (a @ b))"
  by (cases a rule: rev_cases) (auto simp: split_append)

lemma starts_with_at:
  assumes "p \<noteq> []"
  shows "starts_with p (drop i s) \<longleftrightarrow> i + length p \<le> length s \<and> (\<forall>j < length p. s ! (i + j) = p ! j)"
proof -
  have "starts_with p t \<longleftrightarrow> length p \<le> length t \<and> (\<forall>j < length p. t ! j = p ! j)" for t
    by (force simp: starts_with_def list_eq_iff_nth_eq)
  from this [of "drop i s"] show ?thesis using assms by (cases "i \<le> length s") auto
qed

lemmas starts_with_at_0 = starts_with_at [where i = 0, simplified]

lemma find_rev_Some:
  "find P (rev [0 ..< n]) = Some i \<longleftrightarrow> i < n \<and> P i \<and> (\<forall>j. i < j \<and> j < n \<longrightarrow> \<not> P j)"
  by (induction n) (auto simp: less_Suc_eq)

lemma lastIndexOf_Some:
  "lastIndexOf s p pos = Some i \<longleftrightarrow> i \<le> pos \<and> i + length p \<le> length s \<and> starts_with p (drop i s)
     \<and> (\<forall>j. i < j \<and> j \<le> pos \<and> j + length p \<le> length s \<longrightarrow> \<not> starts_with p (drop j s))"
  by (cases "length s < length p") (auto simp: lastIndexOf_def find_rev_Some less_Suc_eq_le simp del: upt_Suc)

lemma lastIndexOf_end: "lastIndexOf (a @ p) p (length (a @ p)) = Some (length a)"
  by (simp add: lastIndexOf_Some starts_with_def)

text \<open>The last occurrence, when the pattern's first code unit does not come again before \<open>pos\<close>.\<close>

lemma lastIndexOf_mid:
  assumes "c \<notin> set ps" "c \<notin> set b" "\<not> starts_with (c # ps) q"
  shows "lastIndexOf (a @ (c # ps) @ b @ q) (c # ps) (length (a @ (c # ps) @ b)) = Some (length a)"
  unfolding lastIndexOf_Some
proof (intro conjI allI impI)
  fix j assume j: "length a < j \<and> j \<le> length (a @ (c # ps) @ b) \<and> j + length (c # ps) \<le> length (a @ (c # ps) @ b @ q)"
  define k where "k = j - Suc (length a)"
  have d: "drop j (a @ (c # ps) @ b @ q) = drop k (ps @ b) @ q" and k: "k \<le> length (ps @ b)"
    using j by (auto simp: k_def drop_Cons' simp del: append_assoc simp flip: append_assoc)
  show "\<not> starts_with (c # ps) (drop j (a @ (c # ps) @ b @ q))"
  proof (cases "k = length (ps @ b)")
    case True
    then show ?thesis using assms(3) d by simp
  next
    case False
    then have less: "k < length (ps @ b)" using k by simp
    then have "drop k (ps @ b) = (ps @ b) ! k # drop (Suc k) (ps @ b)" by (rule Cons_nth_drop_Suc [symmetric])
    moreover have "(ps @ b) ! k \<noteq> c" using nth_mem [OF less] assms(1, 2) by auto
    ultimately show ?thesis unfolding d by (simp add: starts_with_def)
  qed
qed (auto simp: starts_with_def)

end
