(* ===== verification/ApplyPatch.thy ===== *)
theory ApplyPatch
  imports JsString
begin

text \<open>
  Cursor's write and edit requests as OpenCode patch envelopes (\<open>src/src/protocol/apply-patch.ts\<close>).
  Strings are lists of UTF-16 code units. A thrown error is the left of a sum.
\<close>

section \<open>Patch envelopes\<close>

datatype host_patch_tool = APPLY_PATCH_TOOL | PATCH_TOOL

definition tool_name :: "host_patch_tool \<Rightarrow> string" where
  "tool_name t = (case t of APPLY_PATCH_TOOL \<Rightarrow> ''apply_patch'' | PATCH_TOOL \<Rightarrow> ''patch'')"

definition hostPatchTool :: "string list \<Rightarrow> host_patch_tool option" where
  "hostPatchTool advertised =
     (if tool_name APPLY_PATCH_TOOL \<in> set advertised then Some APPLY_PATCH_TOOL
      else if tool_name PATCH_TOOL \<in> set advertised then Some PATCH_TOOL else None)"

definition isHostPatchTool :: "string \<Rightarrow> bool" where
  "isHostPatchTool name \<longleftrightarrow> name = tool_name APPLY_PATCH_TOOL \<or> name = tool_name PATCH_TOOL"

definition BEGIN_PATCH :: utf16 where "BEGIN_PATCH = lit ''*** Begin Patch''"
definition END_PATCH :: utf16 where "END_PATCH = lit ''*** End Patch''"

record update_chunk =
  oldLines :: "utf16 list"
  newLines :: "utf16 list"

datatype patch_error = BadPath | StripsCarriageReturns | RepeatedBom | NoFinalNewlineContent | NewlineInLine

definition assertPatchPath :: "utf16 \<Rightarrow> patch_error option" where
  "assertPatchPath filePath =
     (if filePath = [] \<or> js_trim filePath \<noteq> filePath \<or> list_ex (\<lambda>c. c = 0 \<or> c = 13 \<or> c = nl) filePath then Some BadPath else None)"

text \<open>\<open>/\r(?:\n|$)/\<close> without the multiline flag: a carriage return before a line feed or at the end.\<close>

fun cr_at_line_end :: "utf16 \<Rightarrow> bool" where
  "cr_at_line_end [] = False"
| "cr_at_line_end [c] = (c = 13)"
| "cr_at_line_end (c # d # cs) = (c = 13 \<and> d = nl \<or> cr_at_line_end (d # cs))"

definition assertPatchText :: "utf16 \<Rightarrow> host_patch_tool \<Rightarrow> patch_error option" where
  "assertPatchText text t = (if t = PATCH_TOOL \<and> cr_at_line_end text then Some StripsCarriageReturns else None)"

definition bom :: utf16 where "bom = [0xFEFF]"

definition buildAddFilePatch :: "utf16 \<Rightarrow> utf16 \<Rightarrow> host_patch_tool \<Rightarrow> patch_error + utf16" where
  "buildAddFilePatch filePath content t =
     (case assertPatchPath filePath of Some e \<Rightarrow> Inl e
      | None \<Rightarrow> (case assertPatchText content t of Some e \<Rightarrow> Inl e
          | None \<Rightarrow> (if starts_with (bom @ bom) content then Inl RepeatedBom
              else if content \<noteq> [] \<and> \<not> ends_with [nl] content then Inl NoFinalNewlineContent
              else Inr (join_nl ([BEGIN_PATCH, lit ''*** Add File: '' @ filePath]
                     @ map (\<lambda>l. lit ''+'' @ l) (split_nl content) @ [END_PATCH])))))"

fun payload_lines :: "utf16 \<Rightarrow> utf16 list \<Rightarrow> host_patch_tool \<Rightarrow> patch_error + utf16 list" where
  "payload_lines mark [] t = Inr []"
| "payload_lines mark (l # ls) t =
     (if nl \<in> set l then Inl NewlineInLine
      else (case assertPatchText l t of Some e \<Rightarrow> Inl e
          | None \<Rightarrow> (case payload_lines mark ls t of Inl e \<Rightarrow> Inl e | Inr r \<Rightarrow> Inr ((mark @ l) # r))))"

fun chunk_body :: "update_chunk list \<Rightarrow> host_patch_tool \<Rightarrow> patch_error + utf16 list" where
  "chunk_body [] t = Inr []"
| "chunk_body (c # cs) t =
     (case payload_lines (lit ''-'') (oldLines c) t of Inl e \<Rightarrow> Inl e
      | Inr os \<Rightarrow> (case payload_lines (lit ''+'') (newLines c) t of Inl e \<Rightarrow> Inl e
      | Inr ns \<Rightarrow> (case chunk_body cs t of Inl e \<Rightarrow> Inl e
      | Inr r \<Rightarrow> Inr (lit ''@@'' # os @ ns @ r))))"

definition buildUpdateFilePatch :: "utf16 \<Rightarrow> update_chunk list \<Rightarrow> host_patch_tool \<Rightarrow> patch_error + utf16" where
  "buildUpdateFilePatch filePath chunks t =
     (case assertPatchPath filePath of Some e \<Rightarrow> Inl e
      | None \<Rightarrow> (case chunk_body chunks t of Inl e \<Rightarrow> Inl e
          | Inr body \<Rightarrow> Inr (join_nl ([BEGIN_PATCH, lit ''*** Update File: '' @ filePath] @ body @ [END_PATCH]))))"

section \<open>Planning a substring edit\<close>

datatype refusal = EmptyOldString | NotFound | NotUnique nat | ByteOrderMark | NoFinalNewline | Overlapping

definition lineStart :: "utf16 \<Rightarrow> nat \<Rightarrow> nat" where
  "lineStart source offset =
     (if offset = 0 then 0
      else case find (\<lambda>i. i < length source \<and> source ! i = nl) (rev [0 ..< offset]) of None \<Rightarrow> 0 | Some at \<Rightarrow> at + 1)"

definition lineEnd :: "utf16 \<Rightarrow> nat \<Rightarrow> nat" where
  "lineEnd source offset = (case indexOf source [nl] offset of None \<Rightarrow> length source | Some at \<Rightarrow> at)"

text \<open>The offsets of the matches, left to right; the text to replace is not empty here.\<close>

function match_offsets :: "utf16 \<Rightarrow> utf16 \<Rightarrow> nat \<Rightarrow> nat list" where
  "match_offsets source oldString from =
     (if oldString = [] then []
      else case indexOf source oldString from of None \<Rightarrow> []
        | Some at \<Rightarrow> at # match_offsets source oldString (at + length oldString))"
  by pat_completeness auto

termination match_offsets
  by (relation "measure (\<lambda>(s, p, a). Suc (length s) - a)")
    (auto simp: indexOf_Some simp flip: length_greater_0_conv intro!: diff_less_mono2)

declare match_offsets.simps [simp del]

text \<open>\<open>replace\<close> and \<open>replaceAll\<close>: the matched stretches are replaced, the rest is kept.\<close>

fun replace_at :: "utf16 \<Rightarrow> nat \<Rightarrow> utf16 \<Rightarrow> nat \<Rightarrow> nat list \<Rightarrow> utf16" where
  "replace_at source n newString from [] = drop from source"
| "replace_at source n newString from (i # is) =
     take (i - from) (drop from source) @ newString @ replace_at source n newString (i + n) is"

definition slice :: "utf16 \<Rightarrow> nat \<Rightarrow> nat \<Rightarrow> utf16" where
  "slice s a b = take (b - a) (drop a s)"

fun plan_chunks :: "utf16 \<Rightarrow> nat \<Rightarrow> utf16 \<Rightarrow> nat list \<Rightarrow> int \<Rightarrow> (update_chunk list \<times> int) option" where
  "plan_chunks source n newString [] previousEnd = Some ([], previousEnd)"
| "plan_chunks source n newString (offset # is) previousEnd =
     (let start = lineStart source offset; e = lineEnd source (offset + n) in
      if int start < previousEnd then None
      else (let before = slice source start offset; after = slice source (offset + n) e;
                ls = split_nl (slice source start e);
                old = (if e = length source \<and> last ls = [] then butlast ls else ls)
            in case plan_chunks source n newString is (int e) of None \<Rightarrow> None
               | Some (cs, final) \<Rightarrow> Some (\<lparr>oldLines = old, newLines = split_nl (before @ newString @ after)\<rparr> # cs, final)))"

definition planSubstringEdit :: "utf16 \<Rightarrow> utf16 \<Rightarrow> utf16 \<Rightarrow> bool \<Rightarrow> refusal + update_chunk list" where
  "planSubstringEdit source oldString newString replaceAll =
     (if oldString = [] then Inl EmptyOldString
      else (let offsets = match_offsets source oldString 0 in
        if offsets = [] then Inl NotFound
        else if length offsets > 1 \<and> \<not> replaceAll then Inl (NotUnique (length offsets))
        else (let targets = (if replaceAll then offsets else take 1 offsets);
                  target = replace_at source (length oldString) newString 0 targets in
          if starts_with (bom @ bom) target \<or> (starts_with bom source \<and> \<not> starts_with bom target) then Inl ByteOrderMark
          else if target \<noteq> [] \<and> \<not> ends_with [nl] target then Inl NoFinalNewline
          else case plan_chunks source (length oldString) newString targets (-1) of
              None \<Rightarrow> Inl Overlapping
            | Some (chunks, previousEnd) \<Rightarrow>
                Inr (chunks @ (if previousEnd < int (length source) \<and> (target = [nl] \<or> ends_with [nl, nl] target)
                      then [\<lparr>oldLines = [], newLines = [[]]\<rparr>] else [])))))"

section \<open>Patch text determines the change\<close>

lemma lit_no_nl: "nl \<notin> set BEGIN_PATCH" "nl \<notin> set END_PATCH" "nl \<notin> set (lit ''*** Add File: '')" "nl \<notin> set (lit ''*** Update File: '')"
  "nl \<notin> set (lit ''+'')" "nl \<notin> set (lit ''-'')" "nl \<notin> set (lit ''@@'')"
  by (simp_all add: BEGIN_PATCH_def END_PATCH_def lit_def nl_def)

lemma lit_marks: "lit ''+'' = [43]" "lit ''-'' = [45]" "lit ''@@'' = [64, 64]"
  by (simp_all add: lit_def)

lemma path_no_nl: "assertPatchPath p = None \<Longrightarrow> nl \<notin> set p"
  by (auto simp: assertPatchPath_def list_ex_iff split: if_splits)

lemma payload_Inr: "payload_lines mark ls t = Inr r \<Longrightarrow> r = map (\<lambda>l. mark @ l) ls \<and> (\<forall>l \<in> set ls. nl \<notin> set l)"
  by (induction mark ls t arbitrary: r rule: payload_lines.induct) (auto split: if_splits option.splits sum.splits)

lemma chunk_body_Cons:
  assumes "chunk_body (c # cs) t = Inr b"
  obtains r where "chunk_body cs t = Inr r"
    "b = [64, 64] # map (\<lambda>l. 45 # l) (oldLines c) @ map (\<lambda>l. 43 # l) (newLines c) @ r"
    "\<forall>l \<in> set (oldLines c). nl \<notin> set l" "\<forall>l \<in> set (newLines c). nl \<notin> set l"
  using assms by (auto simp: lit_marks split: sum.splits dest!: payload_Inr)

lemma chunk_body_no_nl: "chunk_body cs t = Inr b \<Longrightarrow> l \<in> set b \<Longrightarrow> nl \<notin> set l"
proof (induction cs arbitrary: b)
  case (Cons c cs)
  from Cons.prems(1) obtain r where "chunk_body cs t = Inr r"
    "b = [64, 64] # map (\<lambda>l. 45 # l) (oldLines c) @ map (\<lambda>l. 43 # l) (newLines c) @ r"
    "\<forall>l \<in> set (oldLines c). nl \<notin> set l" "\<forall>l \<in> set (newLines c). nl \<notin> set l" by (rule chunk_body_Cons)
  then show ?case using Cons.IH Cons.prems(2) by (auto simp: nl_def)
qed simp

text \<open>The body after a chunk starts with the next chunk's mark, so payload runs are read back by their mark.\<close>

lemma chunk_body_start: "chunk_body cs t = Inr r \<Longrightarrow> r = [] \<or> hd r = [64, 64]"
  by (cases cs) (auto simp: lit_marks split: sum.splits)

lemma marked_runs:
  assumes "r = [] \<or> hd r = [64, 64]"
  shows "takeWhile (\<lambda>l. take 1 l = [45]) (map (\<lambda>l. 45 # l) os @ map (\<lambda>l. 43 # l) ns @ r) = map (\<lambda>l. (45 :: 16 word) # l) os"
    and "dropWhile (\<lambda>l. take 1 l = [45]) (map (\<lambda>l. 45 # l) os @ map (\<lambda>l. 43 # l) ns @ r) = map (\<lambda>l. 43 # l) ns @ r"
    and "takeWhile (\<lambda>l. take 1 l = [43]) (map (\<lambda>l. 43 # l) ns @ r) = map (\<lambda>l. (43 :: 16 word) # l) ns"
    and "dropWhile (\<lambda>l. take 1 l = [43]) (map (\<lambda>l. 43 # l) ns @ r) = r"
proof -
  have t: "takeWhile P (map f xs @ ys) = map f xs \<and> dropWhile P (map f xs @ ys) = ys"
    if "\<forall>x. P (f x)" "ys = [] \<or> \<not> P (hd ys)" for P :: "utf16 \<Rightarrow> bool" and f xs ys
    using that by (induction xs) (cases ys, auto)+
  let ?m = "map (\<lambda>l. 43 # l) ns @ r"
  have m: "?m = [] \<or> take 1 (hd ?m) \<noteq> [45]" using assms by (cases ns) auto
  have r: "r = [] \<or> take 1 (hd r) \<noteq> [43]" using assms by auto
  show "takeWhile (\<lambda>l. take 1 l = [45]) (map (\<lambda>l. 45 # l) os @ ?m) = map (\<lambda>l. (45 :: 16 word) # l) os"
    "dropWhile (\<lambda>l. take 1 l = [45]) (map (\<lambda>l. 45 # l) os @ ?m) = ?m"
    "takeWhile (\<lambda>l. take 1 l = [43]) ?m = map (\<lambda>l. (43 :: 16 word) # l) ns" "dropWhile (\<lambda>l. take 1 l = [43]) ?m = r"
    using t [of "\<lambda>l. take 1 l = [45]" "\<lambda>l. 45 # l" ?m os] t [of "\<lambda>l. take 1 l = [43]" "\<lambda>l. 43 # l" r ns] m r by simp_all
qed

lemma chunk_body_inj: "chunk_body cs t = Inr b \<Longrightarrow> chunk_body ds u = Inr b \<Longrightarrow> cs = ds"
proof (induction cs arbitrary: ds b)
  case Nil
  then show ?case by (cases ds) (auto split: sum.splits)
next
  case (Cons c cs)
  from Cons.prems(1) obtain r where r: "chunk_body cs t = Inr r"
    "b = [64, 64] # map (\<lambda>l. 45 # l) (oldLines c) @ map (\<lambda>l. 43 # l) (newLines c) @ r" by (rule chunk_body_Cons)
  obtain d es where ds: "ds = d # es" using Cons.prems(2) r(2) by (cases ds) auto
  from Cons.prems(2) [unfolded ds] obtain q where q: "chunk_body es u = Inr q"
    "b = [64, 64] # map (\<lambda>l. 45 # l) (oldLines d) @ map (\<lambda>l. 43 # l) (newLines d) @ q" by (rule chunk_body_Cons)
  let ?X = "map (\<lambda>l. 45 # l) (oldLines c) @ map (\<lambda>l. 43 # l) (newLines c) @ r"
  have eq: "?X = map (\<lambda>l. 45 # l) (oldLines d) @ map (\<lambda>l. 43 # l) (newLines d) @ q" using r(2) q(2) by simp
  note mr = marked_runs [OF chunk_body_start [OF r(1)]]
  note mq = marked_runs [OF chunk_body_start [OF q(1)]]
  have "map (\<lambda>l. 45 # l) (oldLines c) = map (\<lambda>l. 45 # l) (oldLines d)" using mr(1) mq(1) eq by metis
  moreover have eq2: "map (\<lambda>l. 43 # l) (newLines c) @ r = map (\<lambda>l. 43 # l) (newLines d) @ q" using mr(2) mq(2) eq by metis
  moreover have "map (\<lambda>l. 43 # l) (newLines c) = map (\<lambda>l. 43 # l) (newLines d)" using mr(3) mq(3) eq2 by metis
  moreover have "r = q" using mr(4) mq(4) eq2 by metis
  ultimately have "c = d" "cs = es" using Cons.IH [OF r(1)] q(1) by (auto simp: inj_map_eq_map inj_def)
  then show ?case by (simp add: ds)
qed

lemma add_patch_lines:
  assumes "buildAddFilePatch path content t = Inr x"
  shows "x = join_nl ([BEGIN_PATCH, lit ''*** Add File: '' @ path] @ map (\<lambda>l. lit ''+'' @ l) (split_nl content) @ [END_PATCH])"
    and "\<forall>l \<in> set ([BEGIN_PATCH, lit ''*** Add File: '' @ path] @ map (\<lambda>l. lit ''+'' @ l) (split_nl content) @ [END_PATCH]). nl \<notin> set l"
  using assms path_no_nl [of path] lit_no_nl split_no_nl [of _ content]
  by (auto simp: buildAddFilePatch_def split: option.splits if_splits)

lemma update_patch_lines:
  assumes "buildUpdateFilePatch path cs t = Inr x"
  obtains b where "chunk_body cs t = Inr b"
    "x = join_nl ([BEGIN_PATCH, lit ''*** Update File: '' @ path] @ b @ [END_PATCH])"
    "\<forall>l \<in> set ([BEGIN_PATCH, lit ''*** Update File: '' @ path] @ b @ [END_PATCH]). nl \<notin> set l"
proof -
  obtain b where b: "chunk_body cs t = Inr b" "assertPatchPath path = None"
    using assms by (auto simp: buildUpdateFilePatch_def split: option.splits sum.splits)
  then show ?thesis
    using that [OF b(1)] assms path_no_nl [OF b(2)] lit_no_nl chunk_body_no_nl [OF b(1)]
    by (auto simp: buildUpdateFilePatch_def)
qed

text \<open>A patch text determines the change it was built for: two accepted whole-file writes with
  the same text write the same content to the same path, two accepted updates with the same text make
  the same chunk replacements in the same file, whichever patch tool they were built for.\<close>
theorem patch_text_determines_change:
  "(buildAddFilePatch path content t = Inr x \<and> buildAddFilePatch path' content' t' = Inr x \<longrightarrow> path = path' \<and> content = content')
   \<and> (buildUpdateFilePatch p cs u = Inr y \<and> buildUpdateFilePatch p' cs' u' = Inr y \<longrightarrow> p = p' \<and> cs = cs')"
proof (intro conjI impI; elim conjE)
  assume a: "buildAddFilePatch path content t = Inr x" and b: "buildAddFilePatch path' content' t' = Inr x"
  have "[BEGIN_PATCH, lit ''*** Add File: '' @ path] @ map (\<lambda>l. lit ''+'' @ l) (split_nl content) @ [END_PATCH]
      = [BEGIN_PATCH, lit ''*** Add File: '' @ path'] @ map (\<lambda>l. lit ''+'' @ l) (split_nl content') @ [END_PATCH]"
    using add_patch_lines [OF a] add_patch_lines [OF b] by (intro join_inj) auto
  then have "path = path'" "split_nl content = split_nl content'" by (simp_all add: inj_map_eq_map inj_def)
  then show "path = path'" "content = content'" using join_split by metis+
next
  assume a: "buildUpdateFilePatch p cs u = Inr y" and b: "buildUpdateFilePatch p' cs' u' = Inr y"
  obtain b1 where p: "chunk_body cs u = Inr b1" "y = join_nl ([BEGIN_PATCH, lit ''*** Update File: '' @ p] @ b1 @ [END_PATCH])"
    "\<forall>l \<in> set ([BEGIN_PATCH, lit ''*** Update File: '' @ p] @ b1 @ [END_PATCH]). nl \<notin> set l"
    using update_patch_lines [OF a] .
  obtain b2 where q: "chunk_body cs' u' = Inr b2" "y = join_nl ([BEGIN_PATCH, lit ''*** Update File: '' @ p'] @ b2 @ [END_PATCH])"
    "\<forall>l \<in> set ([BEGIN_PATCH, lit ''*** Update File: '' @ p'] @ b2 @ [END_PATCH]). nl \<notin> set l"
    using update_patch_lines [OF b] .
  have "[BEGIN_PATCH, lit ''*** Update File: '' @ p] @ b1 @ [END_PATCH] = [BEGIN_PATCH, lit ''*** Update File: '' @ p'] @ b2 @ [END_PATCH]"
    using p(2,3) q(2,3) by (intro join_inj) auto
  then have "p = p'" "b1 = b2" by simp_all
  then show "p = p'" "cs = cs'" using chunk_body_inj [OF p(1)] q(1) by blast+
qed

section \<open>A plan makes the replacement\<close>

text \<open>
  The host applies an update to the file's lines without the final terminator and adds it back when
  the last line is not empty: the documented behaviour the plan is made for. \<open>weave\<close> puts the lines
  between the chunks and the chunks' lines together.
\<close>

definition host_lines :: "utf16 \<Rightarrow> utf16 list" where
  "host_lines s = (let ls = split_nl s in if last ls = [] then butlast ls else ls)"

definition host_text :: "utf16 list \<Rightarrow> utf16" where
  "host_text ls = join_nl (if ls = [] \<or> last ls \<noteq> [] then ls @ [[]] else ls)"

fun weave :: "'a list list \<Rightarrow> 'a list list \<Rightarrow> 'a list" where
  "weave (c # cs) (x # xs) = c @ x @ weave cs xs"
| "weave (c # cs) [] = c"
| "weave [] xs = []"

lemma host_lines_append: "host_lines (xs @ nl # ys) = split_nl xs @ host_lines ys"
  by (simp add: host_lines_def Let_def split_append butlast_append)

lemma starts_nl: "starts_with [nl] (drop i s) \<longleftrightarrow> i < length s \<and> s ! i = nl"
proof -
  have "starts_with [nl] (drop i s) \<longleftrightarrow> (\<exists>r. drop i s = nl # r)" by (cases "drop i s") (auto simp: starts_with_def)
  also have "\<dots> \<longleftrightarrow> i < length s \<and> s ! i = nl"
    by (metis Cons_nth_drop_Suc drop_eq_Nil2 linorder_not_le list.inject list.simps(3))
  finally show ?thesis .
qed

lemma lineEnd_spec:
  assumes "j \<le> length s"
  shows "j \<le> lineEnd s j" "lineEnd s j \<le> length s" "lineEnd s j < length s \<Longrightarrow> s ! lineEnd s j = nl"
    "j \<le> k \<Longrightarrow> k < lineEnd s j \<Longrightarrow> s ! k \<noteq> nl"
proof -
  have 1: "j \<le> i \<and> i < length s \<and> s ! i = nl \<and> (\<forall>k. j \<le> k \<and> k < i \<longrightarrow> s ! k \<noteq> nl)" if "indexOf s [nl] j = Some i" for i
    using that unfolding indexOf_Some starts_nl by auto
  have 2: "s ! k \<noteq> nl" if "indexOf s [nl] j = None" "j \<le> k" "k < length s" for k
    using that starts_nl [of k s] by (auto simp: indexOf_def find_None_iff)
  show "j \<le> lineEnd s j" "lineEnd s j \<le> length s" "lineEnd s j < length s \<Longrightarrow> s ! lineEnd s j = nl"
    "j \<le> k \<Longrightarrow> k < lineEnd s j \<Longrightarrow> s ! k \<noteq> nl"
    using 1 2 assms by (auto simp: lineEnd_def split: option.splits)
qed

lemma find_rev_upt: "find P (rev [0 ..< n]) = Some i \<Longrightarrow> i < n \<and> P i \<and> (\<forall>j. i < j \<and> j < n \<longrightarrow> \<not> P j)"
proof (induction n)
  case (Suc n)
  then show ?case by (auto split: if_splits simp: less_Suc_eq)
qed simp

lemma lineStart_spec:
  assumes "i \<le> length s"
  shows "lineStart s i \<le> i" "lineStart s i = 0 \<or> s ! (lineStart s i - 1) = nl" "lineStart s i \<le> k \<Longrightarrow> k < i \<Longrightarrow> s ! k \<noteq> nl"
proof -
  let ?P = "\<lambda>i. i < length s \<and> s ! i = nl"
  have n: "s ! k \<noteq> nl" if "find ?P (rev [0 ..< i]) = None" "k < i" for k
    using that assms by (auto simp: find_None_iff)
  show "lineStart s i \<le> i" "lineStart s i = 0 \<or> s ! (lineStart s i - 1) = nl" "lineStart s i \<le> k \<Longrightarrow> k < i \<Longrightarrow> s ! k \<noteq> nl"
    using n assms by (auto simp: lineStart_def split: option.splits dest!: find_rev_upt)
qed

text \<open>Matches from a position on, without overlap.\<close>

fun chain :: "nat \<Rightarrow> nat \<Rightarrow> nat \<Rightarrow> nat list \<Rightarrow> bool" where
  "chain n len from [] = True"
| "chain n len from (i # is) = (from \<le> i \<and> i + n \<le> len \<and> chain n len (i + n) is)"

lemma match_chain: "chain (length p) (length s) a (match_offsets s p a)"
  by (induction s p a rule: match_offsets.induct)
    (subst match_offsets.simps, auto simp: indexOf_Some split: option.splits)

lemma match_at: "i \<in> set (match_offsets s p a) \<Longrightarrow> take (length p) (drop i s) = p \<and> p \<noteq> []"
proof (induction s p a rule: match_offsets.induct)
  case (1 s p a)
  show ?case
  proof (cases "p = []")
    case True
    then show ?thesis using "1.prems" by (subst (asm) match_offsets.simps) simp
  next
    case False
    then show ?thesis
      using 1 by (cases "indexOf s p a") (auto simp: match_offsets.simps [of s p a] indexOf_Some starts_with_def)
  qed
qed

lemma slice_split:
  assumes "a \<le> b" "b \<le> c" shows "slice s a c = slice s a b @ slice s b c"
proof -
  have "c - a = (b - a) + (c - b)" using assms by simp
  then have "take (c - a) (drop a s) = take (b - a) (drop a s) @ take (c - b) (drop (b - a) (drop a s))" by (metis take_add)
  then show ?thesis using assms by (simp add: slice_def)
qed

lemma slice_one: "k < length s \<Longrightarrow> slice s k (Suc k) = [s ! k]"
  by (simp add: slice_def flip: Cons_nth_drop_Suc)

lemma drop_slice: "a \<le> b \<Longrightarrow> drop a s = slice s a b @ drop b s"
  by (simp add: slice_def) (metis append_take_drop_id drop_drop le_add_diff_inverse2)

lemma replace_skip:
  assumes "chain n (length s) b is" and "a \<le> b" "b \<le> length s"
  shows "replace_at s n new a is = slice s a b @ replace_at s n new b is"
proof (cases "is")
  case Nil
  then show ?thesis using drop_slice [OF assms(2)] by simp
next
  case (Cons i js)
  then have "slice s a i = slice s a b @ slice s b i" using assms by (intro slice_split) auto
  then show ?thesis using Cons by (simp add: slice_def)
qed

definition pre_lines :: "utf16 \<Rightarrow> nat \<Rightarrow> nat \<Rightarrow> utf16 list" where
  "pre_lines s pos start = (if start = pos then [] else split_nl (slice s pos (start - 1)))"

lemma pre_lines:
  assumes "pos \<le> start" "start \<le> length s" "start = 0 \<or> s ! (start - 1) = nl"
  shows "split_nl (slice s pos start @ X) = pre_lines s pos start @ split_nl X"
    "host_lines (slice s pos start @ X) = pre_lines s pos start @ host_lines X"
proof -
  have "slice s pos start = slice s pos (start - 1) @ [nl]" if "start \<noteq> pos"
  proof -
    have "slice s (start - 1) start = [nl]"
      using that assms slice_one [of "start - 1" s] by simp
    then show ?thesis using slice_split [of pos "start - 1" start s] that assms by simp
  qed
  then show "split_nl (slice s pos start @ X) = pre_lines s pos start @ split_nl X"
    "host_lines (slice s pos start @ X) = pre_lines s pos start @ host_lines X"
    by (auto simp: pre_lines_def slice_def split_append host_lines_append)
qed

lemma plan_core:
  assumes "plan_chunks s n new is pe = Some (cs, fin)" and "0 < n" and "chain n (length s) pos is" and "pos \<le> length s"
    and "pos = 0 \<or> s ! (pos - 1) = nl" and "length is \<le> 1 \<or> (\<forall>i \<in> set is. s ! (i + n - 1) \<noteq> nl)"
  shows "\<exists>ctxs. length ctxs = Suc (length cs) \<and> weave ctxs (map oldLines cs) = host_lines (drop pos s)
    \<and> weave ctxs (map newLines cs) = (if is \<noteq> [] \<and> fin \<ge> int (length s) then split_nl (replace_at s n new pos is)
        else host_lines (replace_at s n new pos is)) \<and> (is \<noteq> [] \<and> fin < int (length s) \<longrightarrow> (\<exists>x. replace_at s n new pos is = x @ nl # drop (nat fin + 1) s))"
  using assms
proof (induction "is" arbitrary: pos pe cs fin)
  case Nil
  then show ?case by (auto intro!: exI [of _ "[host_lines (drop pos s)]"])
next
  case (Cons i "is")
  let ?L = "length s"
  define start e where "start = lineStart s i" and "e = lineEnd s (i + n)"
  define old where "old = (if e = ?L \<and> last (split_nl (slice s start e)) = [] then butlast (split_nl (slice s start e)) else split_nl (slice s start e))"
  define seg where "seg = slice s start i @ new @ slice s (i + n) e"
  from Cons.prems(1) obtain cs' where p: "plan_chunks s n new is (int e) = Some (cs', fin)"
    and cs: "cs = \<lparr>oldLines = old, newLines = split_nl seg\<rparr> # cs'"
    by (auto simp: Let_def start_def e_def old_def seg_def split: if_splits option.splits)
  have i: "pos \<le> i" "i + n \<le> ?L" "chain n ?L (i + n) is" using Cons.prems(3) by auto
  note st = lineStart_spec [of i s, folded start_def] and en = lineEnd_spec [OF i(2), folded e_def]
  have pos: "pos \<le> start"
  proof (rule ccontr)
    assume "\<not> pos \<le> start"
    then have "s ! (pos - 1) \<noteq> nl" "pos \<noteq> 0" using st(3) [of "pos - 1"] i by auto
    then show False using Cons.prems(5) by simp
  qed
  have l: "start \<le> ?L" "start \<le> e" using st(1) en(1,2) i by auto
  note pre = pre_lines [OF pos l(1)]
  have st2: "start = 0 \<or> s ! (start - 1) = nl" using st(2) i by simp
  have tail: "drop pos s = slice s pos start @ slice s start e @ drop e s"
    using drop_slice [OF pos, of s] drop_slice [OF l(2), of s] by simp
  have sl: "slice s pos i = slice s pos start @ slice s start i" using pos st(1) i by (intro slice_split) auto
  have chain_e: "chain n ?L (e + 1) is"
  proof (cases "is")
    case (Cons j js)
    have j: "i + n \<le> j" "j + n \<le> ?L" "chain n ?L (j + n) js" using i(3) Cons by auto
    have ge: "e \<le> lineStart s j" using p Cons by (auto simp: Let_def split: if_splits)
    note sj = lineStart_spec [of j s]
    have "s ! (i + n - 1) \<noteq> nl" using Cons.prems(6) Cons by auto
    have "j \<noteq> e"
    proof
      assume "j = e"
      then have "s ! (e - 1) = nl" using ge sj(1,2) j en(1) \<open>0 < n\<close> by auto
      then have "\<not> i + n \<le> e - 1" using en(4) [of "e - 1"] en(1) \<open>0 < n\<close> by auto
      then have "e = i + n" using en(1) by simp
      then show False using \<open>s ! (e - 1) = nl\<close> \<open>s ! (i + n - 1) \<noteq> nl\<close> by simp
    qed
    then show ?thesis using ge sj(1) j Cons by auto
  qed simp
  show ?case
  proof (cases "e = ?L")
    case True
    then have none: "is = []" using chain_e \<open>0 < n\<close> by (cases "is") auto
    then have cs': "cs' = []" "fin = int ?L" using p True by auto
    have "old = host_lines (slice s start e)" using True by (simp add: old_def host_lines_def Let_def)
    moreover have "replace_at s n new pos [i] = slice s pos start @ seg"
      using sl True drop_slice [OF en(1), of s] by (simp add: slice_def [of s pos i, symmetric] seg_def)
    ultimately show ?thesis
      using tail pre st2 True cs cs' none by (auto intro!: exI [of _ "[pre_lines s pos start, []]"])
  next
    case False
    then have e: "e < ?L" "drop e s = nl # drop (e + 1) s" using en(2,3) by (auto simp: Cons_nth_drop_Suc [symmetric])
    have "length is \<le> 1 \<or> (\<forall>i \<in> set is. s ! (i + n - 1) \<noteq> nl)" using Cons.prems(6) by auto
    from Cons.IH [OF p \<open>0 < n\<close> chain_e _ _ this] e(1) en(3) obtain ctxs where ctxs: "length ctxs = Suc (length cs')"
      "weave ctxs (map oldLines cs') = host_lines (drop (e + 1) s)"
      "weave ctxs (map newLines cs') = (if is \<noteq> [] \<and> fin \<ge> int ?L then split_nl (replace_at s n new (e + 1) is)
        else host_lines (replace_at s n new (e + 1) is))"
      "is \<noteq> [] \<and> fin < int ?L \<longrightarrow> (\<exists>x. replace_at s n new (e + 1) is = x @ nl # drop (nat fin + 1) s)" by auto
    have "slice s (i + n) (e + 1) = slice s (i + n) e @ [nl]"
      using slice_split [of "i + n" e "e + 1" s] slice_one [OF e(1)] en(1,3) e(1) by simp
    then have T: "replace_at s n new pos (i # is) = slice s pos start @ seg @ nl # replace_at s n new (e + 1) is"
      using replace_skip [OF chain_e, of "i + n" new] en(1) e(1) sl by (simp add: slice_def [of s pos i, symmetric] seg_def)
    have "old = split_nl (slice s start e)" using e by (simp add: old_def)
    moreover have "fin = int e" if "is = []" using p that by simp
    ultimately show ?thesis
      using ctxs tail e pre st2 T cs
      by (intro exI [of _ "pre_lines s pos start # ctxs"]) (auto simp: split_append host_lines_append)
  qed
qed

lemma weave_snoc: "length ctxs = Suc (length xs) \<Longrightarrow> weave (ctxs @ [c]) (xs @ [x]) = weave ctxs xs @ x @ c"
proof (induction ctxs xs rule: weave.induct)
  case (2 k ks)
  then show ?case by (cases ks) auto
qed auto

lemma host_text_split: "t = [] \<or> ends_with [nl] t \<Longrightarrow> host_text (split_nl t) = t"
  using last_split [of t] by (simp add: host_text_def)

lemma ends_nl: "ends_with [nl] t \<longleftrightarrow> (\<exists>u. t = u @ [nl])"
  by (cases t rule: rev_cases) (auto simp: ends_with_def)

lemma ends_nl2: "ends_with [nl, nl] (u @ [nl]) \<longleftrightarrow> ends_with [nl] u"
  by (cases u rule: rev_cases) (auto simp: ends_with_def)

lemma host_text_terminated:
  assumes "ends_with [nl] t"
  shows "t = [nl] \<or> ends_with [nl, nl] t \<Longrightarrow> host_text (host_lines t @ [[]]) = t"
    and "\<not> (t = [nl] \<or> ends_with [nl, nl] t) \<Longrightarrow> host_text (host_lines t) = t"
proof -
  obtain u where u: "t = u @ [nl]" using assms ends_nl by blast
  have h: "host_lines t = split_nl u" using u by (simp add: host_lines_def Let_def)
  have j: "join_nl (split_nl u @ [[]]) = t" using u by (metis join_split last_split_nl(2))
  then show "t = [nl] \<or> ends_with [nl, nl] t \<Longrightarrow> host_text (host_lines t @ [[]]) = t"
    using h by (simp add: host_text_def)
  show "\<not> (t = [nl] \<or> ends_with [nl, nl] t) \<Longrightarrow> host_text (host_lines t) = t"
    using h j u last_split [of u] by (auto simp: host_text_def ends_nl2)
qed

text \<open>The file with the replacement made.\<close>

definition edited :: "utf16 \<Rightarrow> utf16 \<Rightarrow> utf16 \<Rightarrow> utf16" where
  "edited source oldString newString = replace_at source (length oldString) newString 0 (match_offsets source oldString 0)"

text \<open>C29: A plan that is accepted makes the replacement, unless every match is to be replaced and the text matched ends
  with a line feed: the source is some lines kept between the
  chunks' old lines, and with the new lines in their place the host writes exactly the source with
  the match, or for \<open>replaceAll\<close> every match, replaced.\<close>

theorem plan_makes_replacement:
  assumes "planSubstringEdit source oldString newString replaceAll = Inr chunks" and "\<not> (replaceAll \<and> last oldString = nl)"
  shows "\<exists>ctxs. length ctxs = Suc (length chunks) \<and> weave ctxs (map oldLines chunks) = host_lines source
    \<and> host_text (weave ctxs (map newLines chunks)) = edited source oldString newString"
proof -
  let ?n = "length oldString" and ?is = "match_offsets source oldString 0"
  let ?t = "edited source oldString newString"
  have old: "oldString \<noteq> []" and ne: "?is \<noteq> []" and uniq: "length ?is \<le> 1 \<or> replaceAll"
    using assms(1) by (auto simp: planSubstringEdit_def Let_def split: if_splits)
  have "(if replaceAll then ?is else take 1 ?is) = ?is" using uniq by (cases ?is) auto
  then obtain cs fin where p: "plan_chunks source ?n newString ?is (-1) = Some (cs, fin)" and t: "?t = [] \<or> ends_with [nl] ?t"
    and chunks: "chunks = cs @ (if fin < int (length source) \<and> (?t = [nl] \<or> ends_with [nl, nl] ?t) then [\<lparr>oldLines = [], newLines = [[]]\<rparr>] else [])"
    using assms(1) by (auto simp: planSubstringEdit_def Let_def edited_def split: if_splits option.splits)
  have "source ! (i + ?n - 1) = last oldString" if "i \<in> set ?is" for i
  proof -
    have m: "take ?n (drop i source) = oldString" using match_at [OF that] by simp
    have "0 < ?n" "length (take ?n (drop i source)) = ?n" using m old by simp_all
    then have len: "?n - 1 < ?n" "i + ?n \<le> length source" by (auto simp: min_def split: if_splits simp flip: length_greater_0_conv)
    have "last oldString = take ?n (drop i source) ! (?n - 1)" using m old by (simp add: last_conv_nth)
    also have "\<dots> = source ! (i + (?n - 1))" using len by simp
    also have "i + (?n - 1) = i + ?n - 1" using len(1) by simp
    finally show ?thesis by simp
  qed
  then have "length ?is \<le> 1 \<or> (\<forall>i \<in> set ?is. source ! (i + ?n - 1) \<noteq> nl)" using uniq assms(2) by auto
  from plan_core [OF p _ match_chain] this old ne obtain ctxs where c: "length ctxs = Suc (length cs)"
    "weave ctxs (map oldLines cs) = host_lines source"
    "weave ctxs (map newLines cs) = (if fin \<ge> int (length source) then split_nl ?t else host_lines ?t)"
    "fin < int (length source) \<longrightarrow> (\<exists>x. ?t = x @ nl # drop (nat fin + 1) source)"
    by (auto simp: edited_def)
  show ?thesis
  proof (cases "fin \<ge> int (length source)")
    case True
    then show ?thesis using c chunks host_text_split [OF t] by (intro exI [of _ ctxs]) simp
  next
    case False
    then have "ends_with [nl] ?t" using c(4) t by auto
    note h = host_text_terminated [OF this]
    show ?thesis
    proof (cases "?t = [nl] \<or> ends_with [nl, nl] ?t")
      case True
      then show ?thesis using False c chunks h(1) by (intro exI [of _ "ctxs @ [[]]"]) (simp add: weave_snoc)
    qed (use False c chunks h(2) in \<open>auto intro!: exI [of _ ctxs]\<close>)
  qed
qed

text \<open>
  Where the text to replace ends a line, two expansions can share the line between them and are
  still accepted: this plan asks for more lines than the file has.
\<close>

lemma touching_expansions_accepted:
  "map_sum id (\<lambda>cs. length (concat (map oldLines cs))) (planSubstringEdit [nl, nl] [nl] [120, nl] True) = Inr 3
   \<and> length (host_lines [nl, nl]) = 2"
  by code_simp

theorem plan_makes_replacement_witness:
  "planSubstringEdit (lit ''a'' @ [nl] @ lit ''bc'' @ [nl, nl]) (lit ''b'') (lit ''x'') True
     = Inr [\<lparr>oldLines = [lit ''bc''], newLines = [lit ''xc'']\<rparr>, \<lparr>oldLines = [], newLines = [[]]\<rparr>]
   \<and> (\<exists>c d e. c @ [lit ''bc''] @ d @ [] @ e = host_lines (lit ''a'' @ [nl] @ lit ''bc'' @ [nl, nl])
        \<and> host_text (c @ [lit ''xc''] @ d @ [[]] @ e) = lit ''a'' @ [nl] @ lit ''xc'' @ [nl, nl])"
proof -
  let ?s = "lit ''a'' @ [nl] @ lit ''bc'' @ [nl, nl]"
  have p: "planSubstringEdit ?s (lit ''b'') (lit ''x'') True = Inr [\<lparr>oldLines = [lit ''bc''], newLines = [lit ''xc'']\<rparr>, \<lparr>oldLines = [], newLines = [[]]\<rparr>]"
    and e: "edited ?s (lit ''b'') (lit ''x'') = lit ''a'' @ [nl] @ lit ''xc'' @ [nl, nl]" and l: "last (lit ''b'') \<noteq> nl"
    by code_simp+
  obtain ctxs where c: "length ctxs = Suc (Suc (Suc 0))" "weave ctxs [[lit ''bc''], []] = host_lines ?s"
    "host_text (weave ctxs [[lit ''xc''], [[]]]) = lit ''a'' @ [nl] @ lit ''xc'' @ [nl, nl]"
    using plan_makes_replacement [OF p] l e by auto
  obtain a b d where "ctxs = [a, b, d]" using c(1) by (auto simp: length_Suc_conv)
  then have "a @ [lit ''bc''] @ b @ [] @ d = host_lines ?s \<and> host_text (a @ [lit ''xc''] @ b @ [[]] @ d) = lit ''a'' @ [nl] @ lit ''xc'' @ [nl, nl]"
    using c(2,3) by simp
  then show ?thesis using p by blast
qed

theorem patch_text_determines_change_witness:
  "\<exists>x y. buildAddFilePatch (lit ''f'') (lit ''a'' @ [nl]) PATCH_TOOL = Inr x
     \<and> buildUpdateFilePatch (lit ''f'') [\<lparr>oldLines = [lit ''a''], newLines = []\<rparr>] APPLY_PATCH_TOOL = Inr y
     \<and> buildAddFilePatch (lit ''g'') (lit ''a'' @ [nl]) PATCH_TOOL \<noteq> Inr x
     \<and> buildUpdateFilePatch (lit ''f'') [] APPLY_PATCH_TOOL \<noteq> Inr y"
proof -
  have "case buildAddFilePatch (lit ''f'') (lit ''a'' @ [nl]) PATCH_TOOL of Inr _ \<Rightarrow> True | Inl _ \<Rightarrow> False"
    "case buildUpdateFilePatch (lit ''f'') [\<lparr>oldLines = [lit ''a''], newLines = []\<rparr>] APPLY_PATCH_TOOL of Inr _ \<Rightarrow> True | Inl _ \<Rightarrow> False"
    by code_simp+
  then obtain x y where x: "buildAddFilePatch (lit ''f'') (lit ''a'' @ [nl]) PATCH_TOOL = Inr x"
    and y: "buildUpdateFilePatch (lit ''f'') [\<lparr>oldLines = [lit ''a''], newLines = []\<rparr>] APPLY_PATCH_TOOL = Inr y"
    by (auto split: sum.splits)
  have "lit ''g'' \<noteq> lit ''f''" by (simp add: lit_def)
  with x y patch_text_determines_change [of "lit ''f''" "lit ''a'' @ [nl]" PATCH_TOOL x "lit ''g''" "lit ''a'' @ [nl]" PATCH_TOOL
      "lit ''f''" "[\<lparr>oldLines = [lit ''a''], newLines = []\<rparr>]" APPLY_PATCH_TOOL y "lit ''f''" "[]" APPLY_PATCH_TOOL]
  show ?thesis by auto
qed

end
