(* ===== verification/BlobReachability.thy ===== *)
theory BlobReachability
  imports Prelude
begin

text \<open>
  The blobs a conversation checkpoint refers to (\<open>src/src/protocol/blob-reachability.ts\<close>). The
  protobufjs reader is a parameter: its three operations on the bytes that are left, \<open>None\<close> where it
  throws. A thrown error is the left of a sum; the result is the list of ids in reference order, of
  which the code keeps the set.
\<close>

section \<open>Error values and loops\<close>

fun bindE :: "'e + 'a \<Rightarrow> ('a \<Rightarrow> 'e + 'b) \<Rightarrow> 'e + 'b" where
  "bindE (Inl e) f = Inl e"
| "bindE (Inr x) f = f x"

lemma bindE_cong [fundef_cong]: "x = y \<Longrightarrow> (\<And>v. y = Inr v \<Longrightarrow> f v = g v) \<Longrightarrow> bindE x f = bindE y g"
  by (cases y) auto

lemma bindE_Inr [simp]: "bindE x f = Inr z \<longleftrightarrow> (\<exists>y. x = Inr y \<and> f y = Inr z)"
  by (cases x) auto

text \<open>A loop whose body may add ids or throw.\<close>

fun for_each :: "('a \<Rightarrow> 'e + 'b list) \<Rightarrow> 'a list \<Rightarrow> 'e + 'b list" where
  "for_each f [] = Inr []"
| "for_each f (x # xs) = bindE (f x) (\<lambda>r. bindE (for_each f xs) (\<lambda>s. Inr (r @ s)))"

lemma for_each_cong [fundef_cong]: "xs = ys \<Longrightarrow> (\<And>x. x \<in> set ys \<Longrightarrow> f x = g x) \<Longrightarrow> for_each f xs = for_each g ys"
  by (induction ys arbitrary: xs) auto

lemma for_each_agree:
  "for_each f xs = Inr r \<Longrightarrow> (\<And>x s. x \<in> set xs \<Longrightarrow> f x = Inr s \<Longrightarrow> set s \<subseteq> set r \<Longrightarrow> g x = Inr s) \<Longrightarrow> for_each g xs = Inr r"
proof (induction xs arbitrary: r)
  case (Cons x xs)
  then obtain a b where ab: "f x = Inr a" "for_each f xs = Inr b" "r = a @ b" by auto
  have "for_each g xs = Inr b" using Cons.IH [OF ab(2)] Cons.prems(2) ab(3) by auto
  then show ?case using Cons.prems(2) [of x a] ab by simp
qed simp

section \<open>Reading length-delimited fields\<close>

definition hex_digit :: "nat \<Rightarrow> char" where
  "hex_digit n = ''0123456789abcdef'' ! n"

definition hex :: "bytes \<Rightarrow> string" where
  "hex bs = concat (map (\<lambda>b. [hex_digit (unat b div 16), hex_digit (unat b mod 16)]) bs)"

record pb_reader =
  rd_uint32 :: "bytes \<Rightarrow> (nat \<times> bytes) option"
  rd_bytes :: "bytes \<Rightarrow> (bytes \<times> bytes) option"
  rd_skipType :: "nat \<Rightarrow> bytes \<Rightarrow> bytes option"

datatype walk_error = ReaderError | FieldZero | MissingBlob string | TooDeep

type_synonym bytes_field = "nat \<times> bytes"

text \<open>
  One turn of the loop per field. \<open>uint32()\<close> takes at least one byte or throws, so as many turns as
  bytes are enough.
\<close>

fun bytes_fields_loop :: "pb_reader \<Rightarrow> nat \<Rightarrow> bytes \<Rightarrow> walk_error + bytes_field list" where
  "bytes_fields_loop rd fuel [] = Inr []"
| "bytes_fields_loop rd 0 (b # bs) = Inl ReaderError"
| "bytes_fields_loop rd (Suc fuel) (b # bs) =
     (case rd_uint32 rd (b # bs) of None \<Rightarrow> Inl ReaderError
      | Some (tag, rest) \<Rightarrow>
          if tag div 8 = 0 then Inl FieldZero
          else if tag mod 8 = 2 then
            (case rd_bytes rd rest of None \<Rightarrow> Inl ReaderError
             | Some (v, rest') \<Rightarrow> bindE (bytes_fields_loop rd fuel rest') (\<lambda>fs. Inr ((tag div 8, v) # fs)))
          else (case rd_skipType rd (tag mod 8) rest of None \<Rightarrow> Inl ReaderError
             | Some rest' \<Rightarrow> bytes_fields_loop rd fuel rest'))"

definition bytesFields :: "pb_reader \<Rightarrow> bytes \<Rightarrow> walk_error + bytes_field list" where
  "bytesFields rd data = bytes_fields_loop rd (length data) data"

definition first_field :: "nat \<Rightarrow> bytes_field list \<Rightarrow> bytes option" where
  "first_field n fs = map_option snd (find (\<lambda>f. fst f = n) fs)"

definition mapValue :: "pb_reader \<Rightarrow> bytes \<Rightarrow> walk_error + bytes option" where
  "mapValue rd entry = bindE (bytesFields rd entry) (\<lambda>fs. Inr (first_field 2 fs))"

section \<open>The walk\<close>

definition MAX_NESTED_STATE_DEPTH :: nat where "MAX_NESTED_STATE_DEPTH = 64"

type_synonym resolver = "bytes \<Rightarrow> bytes option"

text \<open>The referenced blob, when the id is not empty, and the id added to the reachable ones.\<close>

definition reference :: "resolver \<Rightarrow> bytes \<Rightarrow> walk_error + (bytes option \<times> string list)" where
  "reference resolveBlob i =
     (if i = [] then Inr (None, [])
      else case resolveBlob i of None \<Rightarrow> Inl (MissingBlob (hex i)) | Some v \<Rightarrow> Inr (Some v, [hex i]))"

definition reference_only :: "resolver \<Rightarrow> bytes \<Rightarrow> walk_error + string list" where
  "reference_only resolveBlob i = bindE (reference resolveBlob i) (\<lambda>r. Inr (snd r))"

definition walk_image_part :: "pb_reader \<Rightarrow> resolver \<Rightarrow> bytes_field \<Rightarrow> walk_error + string list" where
  "walk_image_part rd resolveBlob imagePart =
     (if fst imagePart = 1 then reference_only resolveBlob (snd imagePart)
      else if fst imagePart = 9 then
        bindE (bytesFields rd (snd imagePart)) (\<lambda>fs. case first_field 1 fs of None \<Rightarrow> Inr [] | Some blobId \<Rightarrow> reference_only resolveBlob blobId)
      else Inr [])"

definition walkUserMessage :: "pb_reader \<Rightarrow> resolver \<Rightarrow> bytes \<Rightarrow> walk_error + string list" where
  "walkUserMessage rd resolveBlob data =
     bindE (bytesFields rd data) (\<lambda>fs. case first_field 3 fs of None \<Rightarrow> Inr []
       | Some selectedContext \<Rightarrow>
           bindE (bytesFields rd selectedContext) (for_each (\<lambda>imageField.
             if fst imageField \<noteq> 1 then Inr []
             else bindE (bytesFields rd (snd imageField)) (for_each (walk_image_part rd resolveBlob)))))"

definition walk_agent_field :: "pb_reader \<Rightarrow> resolver \<Rightarrow> bytes_field \<Rightarrow> walk_error + string list" where
  "walk_agent_field rd resolveBlob agentField =
     (if fst agentField = 1 then
        bindE (reference resolveBlob (snd agentField)) (\<lambda>(userMessage, ids).
          case userMessage of None \<Rightarrow> Inr ids
          | Some m \<Rightarrow> bindE (walkUserMessage rd resolveBlob m) (\<lambda>more. Inr (ids @ more)))
      else if fst agentField = 2 then reference_only resolveBlob (snd agentField)
      else Inr [])"

text \<open>The walk of a turn returns after its first agent or shell field.\<close>

definition walkTurn :: "pb_reader \<Rightarrow> resolver \<Rightarrow> bytes \<Rightarrow> walk_error + string list" where
  "walkTurn rd resolveBlob data =
     bindE (bytesFields rd data) (\<lambda>fs. case find (\<lambda>f. fst f = 1 \<or> fst f = 2) fs of None \<Rightarrow> Inr []
       | Some turnField \<Rightarrow>
           if fst turnField = 1 then bindE (bytesFields rd (snd turnField)) (for_each (walk_agent_field rd resolveBlob))
           else bindE (bytesFields rd (snd turnField)) (for_each (\<lambda>shellField.
             if fst shellField = 1 \<or> fst shellField = 2 then reference_only resolveBlob (snd shellField) else Inr [])))"

text \<open>\<open>nested_state\<close>: the state a persisted subagent holds.\<close>

definition nested_state :: "pb_reader \<Rightarrow> bytes \<Rightarrow> walk_error + bytes option" where
  "nested_state rd data = bindE (bytesFields rd data) (\<lambda>fs. Inr (first_field 1 fs))"

function walkState :: "pb_reader \<Rightarrow> resolver \<Rightarrow> bytes \<Rightarrow> nat \<Rightarrow> walk_error + string list" where
  "walkState rd resolveBlob data depth =
     (if depth > MAX_NESTED_STATE_DEPTH then Inl TooDeep
      else bindE (bytesFields rd data) (for_each (\<lambda>field.
        if fst field = 8 then
          bindE (reference resolveBlob (snd field)) (\<lambda>(turn, ids). case turn of None \<Rightarrow> Inr ids
            | Some t \<Rightarrow> bindE (walkTurn rd resolveBlob t) (\<lambda>more. Inr (ids @ more)))
        else if fst field \<in> {1, 3, 6, 7, 13} then reference_only resolveBlob (snd field)
        else if fst field = 16 then
          bindE (mapValue rd (snd field)) (\<lambda>persisted. case persisted of None \<Rightarrow> Inr []
            | Some p \<Rightarrow> bindE (nested_state rd p) (\<lambda>ns. case ns of None \<Rightarrow> Inr []
                | Some s \<Rightarrow> walkState rd resolveBlob s (depth + 1)))
        else if fst field = 31 then
          bindE (mapValue rd (snd field)) (\<lambda>subagentId. case subagentId of None \<Rightarrow> Inr []
            | Some i \<Rightarrow> bindE (reference resolveBlob i) (\<lambda>(persisted, ids). case persisted of None \<Rightarrow> Inr ids
                | Some p \<Rightarrow> bindE (nested_state rd p) (\<lambda>ns. case ns of None \<Rightarrow> Inr ids
                    | Some s \<Rightarrow> bindE (walkState rd resolveBlob s (depth + 1)) (\<lambda>more. Inr (ids @ more)))))
        else Inr [])))"
  by pat_completeness auto
termination
  by (relation "measure (\<lambda>(rd, r, data, depth). Suc MAX_NESTED_STATE_DEPTH - depth)") auto

declare walkState.simps [simp del]

definition collectReachableConversationBlobIds :: "pb_reader \<Rightarrow> bytes \<Rightarrow> resolver \<Rightarrow> walk_error + string list" where
  "collectReachableConversationBlobIds rd checkpoint resolveBlob =
     bindE (walkState rd resolveBlob checkpoint 0) (\<lambda>ids. Inr (remdups ids))"

section \<open>The walk depends only on the blobs it reaches\<close>

definition agree_on :: "string list \<Rightarrow> resolver \<Rightarrow> resolver \<Rightarrow> bool" where
  "agree_on ids r r' \<longleftrightarrow> (\<forall>i. i \<noteq> [] \<longrightarrow> hex i \<in> set ids \<longrightarrow> r' i = r i)"

lemma agree_mono: "agree_on ids r r' \<Longrightarrow> set js \<subseteq> set ids \<Longrightarrow> agree_on js r r'"
  by (auto simp: agree_on_def)

text \<open>
  \<open>same r r' x y\<close>: where \<open>x\<close>, computed with \<open>r\<close>, returns ids on which the resolvers agree, \<open>y\<close>
  returns the same. \<open>extends js x\<close>: what \<open>x\<close> returns contains \<open>js\<close>. The rules follow the code.
\<close>

definition same :: "resolver \<Rightarrow> resolver \<Rightarrow> walk_error + string list \<Rightarrow> walk_error + string list \<Rightarrow> bool" where
  "same r r' x y \<longleftrightarrow> (\<forall>ids. x = Inr ids \<longrightarrow> agree_on ids r r' \<longrightarrow> y = Inr ids)"

definition extends :: "string list \<Rightarrow> walk_error + string list \<Rightarrow> bool" where
  "extends js x \<longleftrightarrow> (\<forall>ids. x = Inr ids \<longrightarrow> set js \<subseteq> set ids)"

named_theorems same_intro \<open>rules for \<open>same\<close> and \<open>extends\<close>\<close>

lemma same_refl [same_intro]: "same r r' x x"
  by (simp add: same_def)

lemma same_bind [same_intro]: "(\<And>v. same r r' (f v) (g v)) \<Longrightarrow> same r r' (bindE x f) (bindE x g)"
  by (cases x) (auto simp: same_def)

lemma same_option [same_intro]:
  "same r r' a b \<Longrightarrow> (\<And>x. same r r' (f x) (g x)) \<Longrightarrow>
     same r r' (case v of None \<Rightarrow> a | Some x \<Rightarrow> f x) (case v of None \<Rightarrow> b | Some x \<Rightarrow> g x)"
  by (cases v) simp_all

lemma same_if [same_intro]:
  "same r r' a b \<Longrightarrow> same r r' a' b' \<Longrightarrow> same r r' (if c then a else a') (if c then b else b')"
  by simp

lemma same_append [same_intro]:
  "same r r' x y \<Longrightarrow> same r r' (bindE x (\<lambda>more. Inr (js @ more))) (bindE y (\<lambda>more. Inr (js @ more)))"
  by (auto simp: same_def agree_on_def)

lemma same_for_each [same_intro]:
  assumes "\<And>x. same r r' (f x) (g x)" shows "same r r' (for_each f xs) (for_each g xs)"
  unfolding same_def
proof (intro allI impI)
  fix ids assume f: "for_each f xs = Inr ids" and a: "agree_on ids r r'"
  show "for_each g xs = Inr ids"
    by (rule for_each_agree [OF f]) (use assms a agree_mono in \<open>unfold same_def, blast\<close>)
qed

lemma extends_rules [same_intro]:
  "extends js (Inr js)" "(\<And>v. extends js (f v)) \<Longrightarrow> extends js (bindE x f)"
  "extends js a \<Longrightarrow> (\<And>x. extends js (h x)) \<Longrightarrow> extends js (case v of None \<Rightarrow> a | Some x \<Rightarrow> h x)"
  by (auto simp: extends_def split: option.splits)

lemma extends_append [same_intro]: "extends js (bindE y (\<lambda>more. Inr (js @ more)))"
  by (auto simp: extends_def)

lemma same_reference [same_intro]:
  assumes "\<And>v js. extends js (g v js)" and "\<And>v js. same r r' (g v js) (g' v js)"
  shows "same r r' (bindE (reference r i) (\<lambda>(v, js). g v js)) (bindE (reference r' i) (\<lambda>(v, js). g' v js))"
  unfolding same_def
proof (intro allI impI)
  fix ids assume g: "bindE (reference r i) (\<lambda>(v, js). g v js) = Inr ids" and a: "agree_on ids r r'"
  then obtain v js where v: "reference r i = Inr (v, js)" "g v js = Inr ids" by auto
  then have "set js \<subseteq> set ids" using assms(1) unfolding extends_def by blast
  then have "reference r' i = Inr (v, js)"
    using v(1) a by (cases "i = []"; cases "r i") (auto simp: reference_def agree_on_def)
  then show "bindE (reference r' i) (\<lambda>(v, js). g' v js) = Inr ids" using v(2) assms(2) a by (simp add: same_def)
qed

lemma same_reference_only [same_intro]: "same r r' (reference_only r i) (reference_only r' i)"
  unfolding reference_only_def
  using same_reference [of "\<lambda>v js. Inr js" r r' "\<lambda>v js. Inr js" i] by (simp add: same_intro case_prod_beta')

lemma same_image_part [same_intro]: "same r r' (walk_image_part rd r f) (walk_image_part rd r' f)"
  unfolding walk_image_part_def by (intro same_intro)

lemma same_user_message [same_intro]: "same r r' (walkUserMessage rd r d) (walkUserMessage rd r' d)"
  unfolding walkUserMessage_def by (intro same_intro)

lemma same_agent_field [same_intro]: "same r r' (walk_agent_field rd r f) (walk_agent_field rd r' f)"
  unfolding walk_agent_field_def by (intro same_intro)

lemma same_turn [same_intro]: "same r r' (walkTurn rd r d) (walkTurn rd r' d)"
  unfolding walkTurn_def by (intro same_intro)

lemma same_state: "same r r' (walkState rd r d n) (walkState rd r' d n)"
proof (induction "Suc MAX_NESTED_STATE_DEPTH - n" arbitrary: d n)
  case 0
  then show ?case by (simp add: walkState.simps [of rd _ d n] same_refl)
next
  case (Suc k)
  have [same_intro]: "same r r' (walkState rd r s (n + 1)) (walkState rd r' s (n + 1))" for s
    using Suc.hyps(1) [of "n + 1" s] Suc.hyps(2) by simp
  show ?case
    unfolding walkState.simps [of rd _ d n] by (intro same_intro)
qed

lemma collect_agree:
  "collectReachableConversationBlobIds rd d r = Inr ids \<Longrightarrow> agree_on ids r r' \<Longrightarrow>
     collectReachableConversationBlobIds rd d r' = Inr ids"
  using same_state [of r r' rd d 0] by (auto simp: collectReachableConversationBlobIds_def same_def agree_on_def)

end
