(* ===== verification/BlobStore.thy ===== *)
theory BlobStore
  imports BlobReachability
begin

text \<open>
  The durable blobs of a conversation (\<open>src/src/protocol/blob-store.ts\<close>) and the KV channel that
  stores and serves them (\<open>src/src/protocol/kv.ts\<close>). The process-wide map from conversation ids to
  buckets is the state; \<open>encodeMessage\<close> is a parameter.
\<close>

section \<open>The store\<close>

type_synonym bucket = "(string, bytes) jsmap"
type_synonym blob_store = "(string, bucket) jsmap"

definition current_bucket :: "string \<Rightarrow> blob_store \<Rightarrow> bucket" where
  "current_bucket conversationId st = (case jm_get st conversationId of None \<Rightarrow> [] | Some m \<Rightarrow> m)"

definition bucket_of :: "string \<Rightarrow> blob_store \<Rightarrow> bucket \<times> blob_store" where
  "bucket_of conversationId st =
     (case jm_get st conversationId of Some m \<Rightarrow> (m, st) | None \<Rightarrow> ([], jm_set conversationId [] st))"

definition setConversationBlob :: "string \<Rightarrow> bytes \<Rightarrow> bytes \<Rightarrow> blob_store \<Rightarrow> string \<times> blob_store" where
  "setConversationBlob conversationId blobId blobData st =
     (let key = hex blobId; (m, st1) = bucket_of conversationId st
      in (key, jm_set conversationId (jm_set key blobData m) st1))"

definition getConversationBlob :: "string \<Rightarrow> bytes \<Rightarrow> blob_store \<Rightarrow> bytes option \<times> blob_store" where
  "getConversationBlob conversationId blobId st =
     (let (m, st1) = bucket_of conversationId st in (jm_get m (hex blobId), st1))"

definition conversationBlobCount :: "string \<Rightarrow> blob_store \<Rightarrow> nat" where
  "conversationBlobCount conversationId st = length (current_bucket conversationId st)"

definition retainedBlobStats :: "bucket \<Rightarrow> nat \<times> nat" where
  "retainedBlobStats m = (length m, sum_list (map (length \<circ> snd) m))"

text \<open>\<open>isBlobIdHash\<close>: 32 bytes, not all of them printable text.\<close>

definition isBlobIdHash :: "bytes \<Rightarrow> bool" where
  "isBlobIdHash blobId \<longleftrightarrow> length blobId = 32
     \<and> list_ex (\<lambda>b. b < 0x09 \<or> (b > 0x0d \<and> b < 0x20) \<or> b > 0x7e) blobId"

definition stored_or_literal :: "bucket \<Rightarrow> resolver" where
  "stored_or_literal current i =
     (case jm_get current (hex i) of Some d \<Rightarrow> Some d | None \<Rightarrow> if isBlobIdHash i then None else Some i)"

datatype fallback_reason = CheckpointUnavailable | WalkFailed walk_error

record graph_stats =
  gs_count :: nat
  gs_bytes :: nat
  gs_fallbackReason :: "fallback_reason option"

definition inspectConversationBlobGraph :: "pb_reader \<Rightarrow> string \<Rightarrow> bytes option \<Rightarrow> blob_store \<Rightarrow> graph_stats" where
  "inspectConversationBlobGraph rd conversationId checkpoint st =
     (let current = current_bucket conversationId st;
          retained = (\<lambda>r. \<lparr>gs_count = fst (retainedBlobStats current), gs_bytes = snd (retainedBlobStats current), gs_fallbackReason = Some r\<rparr>)
      in case checkpoint of None \<Rightarrow> retained CheckpointUnavailable
         | Some cp \<Rightarrow> if cp = [] then retained CheckpointUnavailable
             else (case collectReachableConversationBlobIds rd cp (stored_or_literal current) of
                 Inl e \<Rightarrow> retained (WalkFailed e)
               | Inr reachable \<Rightarrow>
                   (let ds = List.map_filter (jm_get current) reachable
                    in \<lparr>gs_count = length ds, gs_bytes = sum_list (map length ds), gs_fallbackReason = None\<rparr>)))"

record compaction =
  cp_blobs :: "(string \<times> bytes) list"
  cp_before :: "nat \<times> nat"
  cp_after :: "nat \<times> nat"
  cp_compacted :: bool
  cp_fallbackReason :: "fallback_reason option"

definition snapshotConversationBlobs :: "string \<Rightarrow> blob_store \<Rightarrow> (string \<times> bytes) list" where
  "snapshotConversationBlobs conversationId st = current_bucket conversationId st"

definition compactConversationBlobs :: "pb_reader \<Rightarrow> string \<Rightarrow> bytes option \<Rightarrow> bool \<Rightarrow> blob_store \<Rightarrow> compaction \<times> blob_store" where
  "compactConversationBlobs rd conversationId checkpoint keepInMemory st =
     (let current = current_bucket conversationId st; before = retainedBlobStats current;
          fallback = (\<lambda>r. (\<lparr>cp_blobs = snapshotConversationBlobs conversationId st, cp_before = before, cp_after = before,
            cp_compacted = False, cp_fallbackReason = Some r\<rparr>, st))
      in case checkpoint of None \<Rightarrow> fallback CheckpointUnavailable
         | Some cp \<Rightarrow> if cp = [] then fallback CheckpointUnavailable
             else (case collectReachableConversationBlobIds rd cp (stored_or_literal current) of
                 Inl e \<Rightarrow> fallback (WalkFailed e)
               | Inr reachable \<Rightarrow>
                   (let retained = filter (\<lambda>e. fst e \<in> set reachable) current;
                        st1 = (if keepInMemory then st else if retained \<noteq> [] then jm_set conversationId retained st
                          else jm_delete conversationId st)
                    in (\<lparr>cp_blobs = retained, cp_before = before, cp_after = retainedBlobStats retained,
                          cp_compacted = True, cp_fallbackReason = None\<rparr>, st1))))"

text \<open>\<open>/^(?:[0-9a-f]{2})+$/i\<close> and \<open>toLowerCase\<close>.\<close>

definition hex_char :: "char \<Rightarrow> bool" where
  "hex_char c \<longleftrightarrow> c \<in> set ''0123456789abcdefABCDEF''"

definition hex_id :: "string \<Rightarrow> bool" where
  "hex_id s \<longleftrightarrow> s \<noteq> [] \<and> even (length s) \<and> list_all hex_char s"

definition lower_char :: "char \<Rightarrow> char" where
  "lower_char c = (let n = of_char c :: nat in if 65 \<le> n \<and> n \<le> 90 then char_of (n + 32) else c)"

fun restored :: "(string \<times> bytes) list \<Rightarrow> bucket \<Rightarrow> bucket" where
  "restored [] m = m"
| "restored ((i, d) # bs) m = restored bs (if hex_id i then jm_set (map lower_char i) d m else m)"

definition restoreConversationBlobs :: "string \<Rightarrow> (string \<times> bytes) list \<Rightarrow> blob_store \<Rightarrow> blob_store" where
  "restoreConversationBlobs conversationId blobs st =
     (if conversationId = [] then st
      else (let m = restored blobs [] in if m \<noteq> [] then jm_set conversationId m st else jm_delete conversationId st))"

definition clearConversationBlobs :: "string \<Rightarrow> blob_store \<Rightarrow> blob_store" where
  "clearConversationBlobs conversationId st = jm_delete conversationId st"

section \<open>The KV channel\<close>

record kv_session =
  kv_conversationId :: string
  kv_blobs :: bucket

record set_args =
  sa_blob_id :: "bytes option"
  sa_blob_data :: "bytes option"

record kv_message =
  km_id :: "int option"
  km_set :: "set_args option"
  km_get :: "bytes option option" \<comment> \<open>\<open>get_blob_args\<close> and its \<open>blob_id\<close>\<close>

datatype kv_client_message = SetBlobResult int | GetBlobResult int bytes

record kv_result =
  kr_reply :: bytes
  kr_replyBlobBytes :: nat
  kr_isSet :: bool
  kr_id :: int
  kr_blobIdHex :: string
  kr_found :: bool
  kr_echoed :: "bool option"

definition served_blob :: "bytes option \<Rightarrow> bytes \<Rightarrow> bytes" where
  "served_blob stored blobId = (case stored of Some d \<Rightarrow> d | None \<Rightarrow> if isBlobIdHash blobId then [] else blobId)"

definition handleKvServerMessage :: "(kv_client_message \<Rightarrow> bytes) \<Rightarrow> kv_message \<Rightarrow> kv_session \<Rightarrow> blob_store
    \<Rightarrow> kv_result option \<times> kv_session \<times> blob_store" where
  "handleKvServerMessage encodeMessage ksm session st =
     (let i = (case km_id ksm of None \<Rightarrow> 0 | Some i \<Rightarrow> i) in
      case Option.bind (km_set ksm) (\<lambda>a. map_option (\<lambda>b. (b, sa_blob_data a)) (sa_blob_id a)) of
        Some (blobId, blobData) \<Rightarrow>
          (let data = (case blobData of None \<Rightarrow> [] | Some d \<Rightarrow> d); key = hex blobId;
               session1 = session\<lparr>kv_blobs := jm_set key data (kv_blobs session)\<rparr>;
               st1 = (if kv_conversationId session \<noteq> [] then snd (setConversationBlob (kv_conversationId session) blobId data st) else st)
           in (Some \<lparr>kr_reply = encodeMessage (SetBlobResult i), kr_replyBlobBytes = 0, kr_isSet = True, kr_id = i,
                 kr_blobIdHex = key, kr_found = True, kr_echoed = None\<rparr>, session1, st1))
      | None \<Rightarrow>
          (case Option.bind (km_get ksm) (\<lambda>x. x) of
             Some blobId \<Rightarrow>
               (let key = hex blobId;
                    (stored, st1) = (case jm_get (kv_blobs session) key of Some d \<Rightarrow> (Some d, st)
                      | None \<Rightarrow> if kv_conversationId session \<noteq> [] then getConversationBlob (kv_conversationId session) blobId st
                          else (None, st));
                    blobData = served_blob stored blobId
                in (Some \<lparr>kr_reply = encodeMessage (GetBlobResult i blobData), kr_replyBlobBytes = length blobData, kr_isSet = False,
                      kr_id = i, kr_blobIdHex = key, kr_found = (stored \<noteq> None),
                      kr_echoed = Some (stored = None \<and> \<not> isBlobIdHash blobId)\<rparr>, session, st1))
           | None \<Rightarrow> (None, session, st)))"

section \<open>Keys\<close>

lemma hex_Cons: "hex (b # bs) = hex_digit (unat b div 16) # hex_digit (unat b mod 16) # hex bs"
  by (simp add: hex_def)

lemma hex_Nil [simp]: "hex [] = []" "hex bs = [] \<longleftrightarrow> bs = []"
  by (cases bs; simp add: hex_def)+

lemma byte_digits: "unat (b :: byte) div 16 < 16" "unat b mod 16 < 16"
  using unsigned_less [of b, where 'a = nat] by simp_all

lemma hex_digit_spec: "n < 16 \<Longrightarrow> hex_char (hex_digit n) \<and> lower_char (hex_digit n) = hex_digit n"
proof -
  assume "n < 16"
  moreover have "\<forall>n \<in> set [0 ..< 16]. hex_char (hex_digit n) \<and> lower_char (hex_digit n) = hex_digit n" by code_simp
  ultimately show ?thesis by simp
qed

lemma hex_id_hex: "bs \<noteq> [] \<Longrightarrow> hex_id (hex bs)" "map lower_char (hex bs) = hex bs"
proof -
  have "even (length (hex bs)) \<and> list_all hex_char (hex bs) \<and> map lower_char (hex bs) = hex bs"
    by (induction bs) (simp_all add: hex_Cons hex_digit_spec byte_digits)
  then show "bs \<noteq> [] \<Longrightarrow> hex_id (hex bs)" "map lower_char (hex bs) = hex bs" by (simp_all add: hex_id_def)
qed

section \<open>The store's invariant\<close>

definition lower_key :: "string \<Rightarrow> bool" where
  "lower_key k \<longleftrightarrow> map lower_char k = k \<and> (k = [] \<or> hex_id k)"

definition bucket_ok :: "bucket \<Rightarrow> bool" where
  "bucket_ok m \<longleftrightarrow> jm_wf m \<and> (\<forall>k \<in> fst ` set m. lower_key k)"

definition store_ok :: "blob_store \<Rightarrow> bool" where
  "store_ok st \<longleftrightarrow> jm_wf st \<and> (\<forall>m \<in> snd ` set st. bucket_ok m)"

lemma bucket_ok_Nil [simp]: "bucket_ok []"
  by (simp add: bucket_ok_def)

lemma current_ok: "store_ok st \<Longrightarrow> bucket_ok (current_bucket c st)"
  by (auto simp: store_ok_def current_bucket_def split: option.splits dest!: map_of_SomeD)

lemma update_keys_subset: "fst ` set (jm_set k v m) \<subseteq> insert k (fst ` set m)"
  by (induction m) auto

lemma update_values_subset: "snd ` set (jm_set k v m) \<subseteq> insert v (snd ` set m)"
  by (induction m) auto

lemma bucket_ok_set: "bucket_ok m \<Longrightarrow> lower_key k \<Longrightarrow> bucket_ok (jm_set k d m)"
  unfolding bucket_ok_def using update_keys_subset [of k d m] jm_wf_set [of m k d] by blast

lemma bucket_ok_filter: "bucket_ok m \<Longrightarrow> bucket_ok (filter P m)"
  by (auto simp: bucket_ok_def distinct_map_filter)

lemma store_ok_set: "store_ok st \<Longrightarrow> bucket_ok m \<Longrightarrow> store_ok (jm_set c m st)"
  unfolding store_ok_def using update_values_subset [of c m st] jm_wf_set [of st c m] by blast

lemma store_ok_delete: "store_ok st \<Longrightarrow> store_ok (jm_delete c st)"
  by (auto simp: store_ok_def jm_delete_filter)

lemma lower_key_lower: "hex_id i \<Longrightarrow> lower_key (map lower_char i)"
proof -
  have "\<forall>c \<in> set ''0123456789abcdefABCDEF''. hex_char (lower_char c) \<and> lower_char (lower_char c) = lower_char c"
    by code_simp
  then have "hex_char c \<Longrightarrow> hex_char (lower_char c) \<and> lower_char (lower_char c) = lower_char c" for c
    unfolding hex_char_def by blast
  then show "hex_id i \<Longrightarrow> lower_key (map lower_char i)"
    by (auto simp: lower_key_def hex_id_def list_all_iff)
qed

lemma restored_ok: "bucket_ok m \<Longrightarrow> bucket_ok (restored bs m)"
  by (induction bs m rule: restored.induct) (simp_all add: bucket_ok_set lower_key_lower)

lemma lower_hex: "lower_key (hex i)"
  using hex_id_hex [of i] by (auto simp: lower_key_def)

text \<open>The operations on the store.\<close>

datatype blob_event = BSet string bytes bytes | BGet string bytes | BCompact string "bytes option" bool
  | BRestore string "(string \<times> bytes) list" | BClear string

fun blob_step :: "pb_reader \<Rightarrow> blob_store \<Rightarrow> blob_event \<Rightarrow> blob_store" where
  "blob_step rd st (BSet c i d) = snd (setConversationBlob c i d st)"
| "blob_step rd st (BGet c i) = snd (getConversationBlob c i st)"
| "blob_step rd st (BCompact c cp keep) = snd (compactConversationBlobs rd c cp keep st)"
| "blob_step rd st (BRestore c bs) = restoreConversationBlobs c bs st"
| "blob_step rd st (BClear c) = clearConversationBlobs c st"

lemma bucket_of_ok: "store_ok st \<Longrightarrow> bucket_ok (fst (bucket_of c st)) \<and> store_ok (snd (bucket_of c st))"
  using current_ok [of st c] by (auto simp: bucket_of_def current_bucket_def store_ok_set split: option.splits)

lemma blob_step_ok: "store_ok st \<Longrightarrow> store_ok (blob_step rd st e)"
  using bucket_of_ok [of st] current_ok [of st]
  by (cases e)
    (auto simp: setConversationBlob_def getConversationBlob_def compactConversationBlobs_def restoreConversationBlobs_def
      clearConversationBlobs_def Let_def split_beta store_ok_delete
      intro!: store_ok_set bucket_ok_set bucket_ok_filter lower_hex restored_ok split: option.splits sum.splits)

interpretation blob_sys: step_system "\<lambda>st. st = []" "blob_step rd" store_ok for rd
  by unfold_locales (auto simp: blob_step_ok store_ok_def [of "[]"])

section \<open>Compaction keeps the restart graph\<close>

lemma get_filter_keys: "jm_get (filter (\<lambda>e. fst e \<in> A) m) k = (if k \<in> A then jm_get m k else None)"
  by (induction m) auto

lemma current_set: "current_bucket c (jm_set c m st) = m" "current_bucket c (jm_delete c st) = []"
  by (simp_all add: current_bucket_def)

lemma update_fresh: "k \<notin> fst ` set m \<Longrightarrow> jm_set k v m = m @ [(k, v)]"
  by (induction m) auto

lemma restored_filter:
  "jm_wf (m @ bs) \<Longrightarrow> \<forall>k \<in> fst ` set bs. lower_key k \<Longrightarrow> restored bs m = m @ filter (\<lambda>e. fst e \<noteq> []) bs"
proof (induction bs m rule: restored.induct)
  case (2 i d bs m)
  show ?case
  proof (cases "i = []")
    case True
    then show ?thesis using 2 by (auto simp: hex_id_def)
  next
    case False
    then have "hex_id i" "map lower_char i = i" "i \<notin> fst ` set m" using 2(2,3) by (auto simp: lower_key_def)
    then show ?thesis using 2 False by (simp add: update_fresh)
  qed
qed simp

lemma agree_kept:
  assumes "\<And>i. i \<noteq> [] \<Longrightarrow> hex i \<in> set ids \<Longrightarrow> jm_get m (hex i) = jm_get current (hex i)"
  shows "agree_on ids (stored_or_literal current) (stored_or_literal m)"
  using assms by (simp add: agree_on_def stored_or_literal_def)

text \<open>C7: Compacting a conversation's blobs never costs a restart anything. Where it compacts, the walk
  from the checkpoint reaches the same blobs in the compacted store, and in any store restored from the
  snapshot it took; where it cannot walk, it changes nothing and snapshots every blob.\<close>
theorem compaction_keeps_the_restart_graph:
  assumes "st = blob_sys.run rd [] es" and "compactConversationBlobs rd c (Some cp) keep st = (r, st')" and "c \<noteq> []"
  shows "(cp_compacted r \<and> (\<exists>ids. collectReachableConversationBlobIds rd cp (stored_or_literal (current_bucket c st)) = Inr ids
        \<and> collectReachableConversationBlobIds rd cp (stored_or_literal (current_bucket c st')) = Inr ids
        \<and> collectReachableConversationBlobIds rd cp (stored_or_literal (current_bucket c (restoreConversationBlobs c (cp_blobs r) any))) = Inr ids))
    \<or> (\<not> cp_compacted r \<and> st' = st \<and> cp_blobs r = current_bucket c st)"
proof -
  have ok: "bucket_ok (current_bucket c st)" using blob_sys.reachable_inv current_ok unfolding assms(1) by blast
  show ?thesis
  proof (cases "cp = [] \<or> (\<exists>e. collectReachableConversationBlobIds rd cp (stored_or_literal (current_bucket c st)) = Inl e)")
    case True
    then show ?thesis
      using assms(2) by (auto simp: compactConversationBlobs_def Let_def snapshotConversationBlobs_def split: if_splits)
  next
    case False
    then obtain ids where ids: "collectReachableConversationBlobIds rd cp (stored_or_literal (current_bucket c st)) = Inr ids"
      by (cases "collectReachableConversationBlobIds rd cp (stored_or_literal (current_bucket c st))") auto
    let ?m = "current_bucket c st" and ?kept = "filter (\<lambda>e. fst e \<in> set ids) (current_bucket c st)"
    have r: "cp_compacted r" "cp_blobs r = ?kept" "current_bucket c st' = (if keep then ?m else ?kept)"
      using assms(2) False ids by (auto simp: compactConversationBlobs_def Let_def current_set split: if_splits)
    have "bucket_ok ?kept" by (rule bucket_ok_filter [OF ok])
    then have "restored ?kept [] = filter (\<lambda>e. fst e \<noteq> []) ?kept"
      using restored_filter [of "[]" ?kept] by (simp add: bucket_ok_def)
    then have "current_bucket c (restoreConversationBlobs c ?kept any) = filter (\<lambda>e. fst e \<in> set ids - {[]}) ?m"
      using assms(3) by (auto simp: restoreConversationBlobs_def Let_def current_set filter_empty_conv intro!: filter_cong)
    then have "jm_get (current_bucket c (restoreConversationBlobs c (cp_blobs r) any)) k = (if k \<in> set ids - {[]} then jm_get ?m k else None)" for k
      by (simp only: r(2) get_filter_keys)
    then have "agree_on ids (stored_or_literal ?m) (stored_or_literal (current_bucket c (restoreConversationBlobs c (cp_blobs r) any)))"
      by (simp add: agree_kept)
    moreover have "agree_on ids (stored_or_literal ?m) (stored_or_literal (current_bucket c st'))"
      using r(3) by (simp add: agree_kept get_filter_keys)
    ultimately show ?thesis using collect_agree [OF ids] r(1) ids by blast
  qed
qed

text \<open>A reader of one-byte varints, enough to walk a small checkpoint.\<close>

definition byte_reader :: pb_reader where
  "byte_reader = \<lparr>rd_uint32 = (\<lambda>bs. case bs of [] \<Rightarrow> None | b # r \<Rightarrow> Some (unat b, r)),
     rd_bytes = (\<lambda>bs. case bs of [] \<Rightarrow> None | b # r \<Rightarrow> if unat b \<le> length r then Some (take (unat b) r, drop (unat b) r) else None),
     rd_skipType = (\<lambda>_ _. None)\<rparr>"

text \<open>The checkpoint holds one turn, blob \<open>05\<close>, whose user message is blob \<open>06\<close>; blob \<open>07\<close> is garbage.\<close>

definition demo_blobs :: "blob_event list" where
  "demo_blobs = [BSet ''c'' [7] [1, 2], BSet ''c'' [5] [10, 3, 10, 1, 6], BSet ''c'' [6] []]"

theorem compaction_keeps_the_restart_graph_witness:
  "cp_compacted (fst (compactConversationBlobs byte_reader ''c'' (Some [66, 1, 5]) False (blob_sys.run byte_reader [] demo_blobs)))
   \<and> collectReachableConversationBlobIds byte_reader [66, 1, 5] (stored_or_literal (current_bucket ''c''
       (restoreConversationBlobs ''c'' (cp_blobs (fst (compactConversationBlobs byte_reader ''c'' (Some [66, 1, 5]) False
          (blob_sys.run byte_reader [] demo_blobs)))) []))) = Inr [''05'', ''06'']"
proof -
  let ?st = "blob_sys.run byte_reader [] demo_blobs"
  have st: "?st = [(''c'', [(''07'', [1, 2]), (''05'', [10, 3, 10, 1, 6]), (''06'', [])])]"
    by (simp add: demo_blobs_def setConversationBlob_def bucket_of_def Let_def hex_def hex_digit_def)
  have w: "collectReachableConversationBlobIds byte_reader [66, 1, 5] (stored_or_literal (current_bucket ''c''
      [(''c'', [(''07'', [1, 2]), (''05'', [10, 3, 10, 1, 6]), (''06'', [])])])) = Inr [''05'', ''06'']"
    "cp_compacted (fst (compactConversationBlobs byte_reader ''c'' (Some [66, 1, 5]) False
      [(''c'', [(''07'', [1, 2]), (''05'', [10, 3, 10, 1, 6]), (''06'', [])])]))"
    by code_simp+
  from compaction_keeps_the_restart_graph [OF refl prod.collapse [symmetric], of "''c''" byte_reader "[66, 1, 5]" False demo_blobs "[]"]
  show ?thesis using w unfolding st by auto
qed

section \<open>The KV channel\<close>

lemma hex_digit_inj: "a < 16 \<Longrightarrow> b < 16 \<Longrightarrow> hex_digit a = hex_digit b \<Longrightarrow> a = b"
proof -
  have "\<forall>a \<in> set [0 ..< 16]. \<forall>b \<in> set [0 ..< 16]. hex_digit a = hex_digit b \<longrightarrow> a = b" by code_simp
  then show "a < 16 \<Longrightarrow> b < 16 \<Longrightarrow> hex_digit a = hex_digit b \<Longrightarrow> a = b" by simp
qed

lemma hex_inj: "hex i = hex j \<Longrightarrow> i = j"
proof (induction i arbitrary: j)
  case Nil
  then show ?case by (metis hex_Nil)
next
  case (Cons b i)
  then obtain c k where j: "j = c # k" by (cases j) (auto simp: hex_Cons)
  have "unat b div 16 = unat c div 16" "unat b mod 16 = unat c mod 16"
    using Cons.prems j hex_digit_inj byte_digits by (auto simp: hex_Cons)
  then have "unat b = unat c" by (metis div_mult_mod_eq)
  then have "b = c" by (rule unsigned_word_eqI)
  then show ?case using Cons j by (simp add: hex_Cons)
qed

text \<open>The blob a message stores.\<close>

definition set_request :: "kv_message \<Rightarrow> (bytes \<times> bytes option) option" where
  "set_request ksm = Option.bind (km_set ksm) (\<lambda>a. map_option (\<lambda>b. (b, sa_blob_data a)) (sa_blob_id a))"

definition stores :: "string \<Rightarrow> bytes \<Rightarrow> kv_message \<times> kv_session \<Rightarrow> bool" where
  "stores c i m \<longleftrightarrow> kv_conversationId (snd m) = c \<and> map_option fst (set_request (fst m)) = Some i"

definition kv_store :: "(kv_client_message \<Rightarrow> bytes) \<Rightarrow> kv_message \<times> kv_session \<Rightarrow> blob_store \<Rightarrow> blob_store" where
  "kv_store encodeMessage m st = snd (snd (handleKvServerMessage encodeMessage (fst m) (snd m) st))"

lemma current_bucket_of: "current_bucket c (snd (bucket_of d st)) = current_bucket c st" "fst (bucket_of d st) = current_bucket d st"
  by (auto simp: bucket_of_def current_bucket_def split: option.splits)

lemma get_set: "jm_get (current_bucket c (snd (setConversationBlob d i x st))) k
    = (if c = d \<and> k = hex i then Some x else jm_get (current_bucket c st) k)"
  by (auto simp: setConversationBlob_def Let_def split_beta current_bucket_def current_bucket_of [unfolded current_bucket_def] bucket_of_def
      split: option.splits)

lemma get_get: "current_bucket c (snd (getConversationBlob d i st)) = current_bucket c st"
  by (simp add: getConversationBlob_def Let_def split_beta current_bucket_of)

lemma kv_keeps: "\<not> stores c i m \<Longrightarrow> jm_get (current_bucket c (kv_store enc m st)) (hex i) = jm_get (current_bucket c st) (hex i)"
  by (auto simp: kv_store_def handleKvServerMessage_def stores_def set_request_def Let_def split_beta get_set get_get
      split: option.splits dest!: hex_inj)

text \<open>A blob Cursor stored in one Run is served in any later Run of the conversation: after its set
  request, and any KV traffic of any Runs that does not store the same blob again there, a get request
  of a Run that does not hold it itself is answered with its data.\<close>
theorem stored_blob_is_served_later:
  assumes "set_request ksm = Some (i, Some d)" and "kv_conversationId s = c" and "c \<noteq> []"
    and "\<not> list_ex (stores c i) later" and "kv_conversationId s' = c" and "jm_get (kv_blobs s') (hex i) = None"
    and "set_request ksm' = None" and "km_get ksm' = Some (Some i)"
    and "handleKvServerMessage enc ksm' s' (fold (kv_store enc) later (kv_store enc (ksm, s) st)) = (r, s'', st')"
  shows "map_option kr_found r = Some True
    \<and> map_option kr_reply r = Some (enc (GetBlobResult (case km_id ksm' of None \<Rightarrow> 0 | Some n \<Rightarrow> n) d))"
proof -
  have "jm_get (current_bucket c (kv_store enc (ksm, s) st)) (hex i) = Some d"
    using assms(1-3) by (simp add: kv_store_def handleKvServerMessage_def set_request_def Let_def get_set)
  moreover have "jm_get (current_bucket c (fold (kv_store enc) later u)) (hex i) = jm_get (current_bucket c u) (hex i)" for u
    using assms(4) by (induction later arbitrary: u) (simp_all add: kv_keeps)
  ultimately have g: "jm_get (current_bucket c (fold (kv_store enc) later (kv_store enc (ksm, s) st))) (hex i) = Some d" by simp
  have "fst (getConversationBlob c i u) = jm_get (current_bucket c u) (hex i)" for u
    by (simp add: getConversationBlob_def Let_def split_beta current_bucket_of)
  then show ?thesis
    using assms g by (auto simp: handleKvServerMessage_def set_request_def [symmetric] Let_def split_beta served_blob_def)
qed

theorem stored_blob_is_served_later_witness:
  "map_option kr_reply (fst (handleKvServerMessage (\<lambda>m. case m of SetBlobResult _ \<Rightarrow> [] | GetBlobResult _ d \<Rightarrow> d)
      \<lparr>km_id = Some 3, km_set = None, km_get = Some (Some [5])\<rparr> \<lparr>kv_conversationId = ''c'', kv_blobs = []\<rparr>
      (kv_store (\<lambda>m. case m of SetBlobResult _ \<Rightarrow> [] | GetBlobResult _ d \<Rightarrow> d)
        (\<lparr>km_id = None, km_set = Some \<lparr>sa_blob_id = Some [5], sa_blob_data = Some [9, 9]\<rparr>, km_get = None\<rparr>,
         \<lparr>kv_conversationId = ''c'', kv_blobs = []\<rparr>) []))) = Some [9, 9]"
  using stored_blob_is_served_later [of "\<lparr>km_id = None, km_set = Some \<lparr>sa_blob_id = Some [5], sa_blob_data = Some [9, 9]\<rparr>, km_get = None\<rparr>"
      "[5]" "[9, 9]" "\<lparr>kv_conversationId = ''c'', kv_blobs = []\<rparr>" "''c''" "[]" "\<lparr>kv_conversationId = ''c'', kv_blobs = []\<rparr>"
      "\<lparr>km_id = Some 3, km_set = None, km_get = Some (Some [5])\<rparr>" "\<lambda>m. case m of SetBlobResult _ \<Rightarrow> [] | GetBlobResult _ d \<Rightarrow> d" "[]",
      OF _ _ _ _ _ _ _ _ surjective_pairing [THEN trans, OF arg_cong2 [where f = Pair, OF refl surjective_pairing]]]
  by (simp add: set_request_def)

end
