(* ===== verification/ReplayFrame.thy ===== *)
theory ReplayFrame
  imports Wire Utf8
begin

text \<open>
  The classification of one server frame for replay (\<open>analyzeReplayFrame\<close> and its helpers in
  \<open>src/src/replay-safety.ts\<close>): which frames are a barrier to sending the turn again, judged on the
  bytes with the strict reader and not only on what the decoder kept.
\<close>

section \<open>The decoded frame\<close>

text \<open>
  What the code reads of the decoder's output: whether a member is present, and of a display call
  whether it has a string \<open>call_id\<close>.
\<close>

record decoded_update =
  du_tool_call_started :: "utf16 option option"
  du_tool_call_completed :: "utf16 option option"
  du_user_message_appended :: bool

record decoded_frame =
  df_interactionUpdate :: "decoded_update option"
  df_exec :: bool
  df_kv :: bool
  df_execControl :: bool
  df_interactionQuery :: bool

datatype barrier_reason = VisibleText | VisibleReasoning | VisibleToolRow | DisplayToolLifecycle | NonControlExec
  | StatefulInteraction | UnknownOrMalformedFrame

datatype lifecycle_kind = LifecycleStarted | LifecycleCompleted

record tool_lifecycle =
  tl_kind :: lifecycle_kind
  tl_callId :: utf16
  tl_catalog :: bool

record appended_message =
  am_messageId :: utf16
  am_text :: utf16

record frame_analysis =
  fa_barrier :: "barrier_reason option"
  fa_toolLifecycle :: "tool_lifecycle option"
  fa_appendedUserMessage :: "appended_message option"

section \<open>Fields\<close>

definition optionalField :: "strict_field list \<Rightarrow> nat \<Rightarrow> nat \<Rightarrow> bool" where
  "optionalField flds fn wt =
     (let matches = filter (\<lambda>f. sf_fn f = fn) flds in length matches \<le> 1 \<and> list_all (\<lambda>f. sf_wt f = wt) matches)"

definition nestedFields :: "strict_field option \<Rightarrow> nat \<Rightarrow> strict_field list" where
  "nestedFields topLevel field =
     (case topLevel of None \<Rightarrow> []
      | Some t \<Rightarrow> if sf_fn t \<noteq> field \<or> sf_wt t \<noteq> 2 then []
          else (case sf_bytes t of None \<Rightarrow> []
            | Some b \<Rightarrow> (case readAllFieldsStrict b of None \<Rightarrow> [] | Some fs \<Rightarrow> fs)))"

definition find_fn :: "nat \<Rightarrow> strict_field list \<Rightarrow> strict_field option" where
  "find_fn n flds = find (\<lambda>f. sf_fn f = n) flds"

text \<open>\<open>field?.bytes && readAllFieldsStrict(field.bytes)\<close>\<close>

definition sub_fields :: "strict_field option \<Rightarrow> strict_field list option" where
  "sub_fields field = Option.bind field (\<lambda>f. Option.bind (sf_bytes f) readAllFieldsStrict)"

section \<open>Inline catalog lookups\<close>

definition catalog_success :: "strict_field list \<Rightarrow> bool" where
  "catalog_success success \<longleftrightarrow> list_all (\<lambda>f. sf_fn f \<in> {1, 2} \<and> sf_wt f = 2) success
     \<and> optionalField success 1 2 \<and> optionalField success 2 2
     \<and> list_ex (\<lambda>f. sf_fn f = 1) success
     \<and> \<not> list_ex (\<lambda>f. sf_fn f = 2 \<and> sf_bytes f \<noteq> None \<and> sf_bytes f \<noteq> Some []) success"

definition catalog_ok :: "strict_field list \<Rightarrow> bool \<Rightarrow> bool" where
  "catalog_ok catalog completed =
     (if \<not> list_all (\<lambda>f. sf_fn f \<in> {1, 2} \<and> sf_wt f = 2) catalog \<or> \<not> (optionalField catalog 1 2 \<and> optionalField catalog 2 2) then False
      else case sub_fields (find_fn 1 catalog) of None \<Rightarrow> False
        | Some flds \<Rightarrow>
            if \<not> list_all (\<lambda>f. sf_fn f \<in> {1, 2, 3, 4} \<and> sf_wt f = 2) flds \<or> \<not> list_all (\<lambda>n. optionalField flds n 2) [1, 2, 3, 4] then False
            else if \<not> completed then Option.bind (find_fn 2 catalog) sf_bytes = None
            else (case sub_fields (find_fn 2 catalog) of None \<Rightarrow> False
              | Some outcome \<Rightarrow>
                  (case outcome of
                     [o'] \<Rightarrow> sf_fn o' = 1 \<and> sf_wt o' = 2
                       \<and> (case sub_fields (Some o') of None \<Rightarrow> False | Some success \<Rightarrow> catalog_success success)
                   | _ \<Rightarrow> False)))"

definition inlineCatalog :: "strict_field option \<Rightarrow> bool \<Rightarrow> bool" where
  "inlineCatalog topLevel completed =
     (case sub_fields (find_fn (if completed then 3 else 2) (nestedFields topLevel 1)) of None \<Rightarrow> False
      | Some lifecycle \<Rightarrow>
          (case sub_fields (find_fn 2 lifecycle) of None \<Rightarrow> False
           | Some toolFields \<Rightarrow>
               if \<not> (optionalField toolFields 57 2 \<and> optionalField toolFields 59 0 \<and> optionalField toolFields 60 0) then False
               else (case filter (\<lambda>f. sf_fn f \<notin> {57, 59, 60}) toolFields of
                   [v] \<Rightarrow> sf_fn v = 44 \<and> sf_wt v = 2 \<and> (case sub_fields (Some v) of None \<Rightarrow> False | Some catalog \<Rightarrow> catalog_ok catalog completed)
                 | _ \<Rightarrow> False)))"

section \<open>Appended messages\<close>

definition APPENDED_ECHO_METADATA :: "nat list" where "APPENDED_ECHO_METADATA = [24, 25, 26]"

text \<open>Called only on a frame whose update \<open>#6\<close> holds exactly one length-delimited \<open>#1\<close>.\<close>

definition appendedEcho :: "strict_field option \<Rightarrow> appended_message option" where
  "appendedEcho topLevel =
     (case sub_fields (find_fn 6 (nestedFields topLevel 1)) of
        None \<Rightarrow> None
      | Some [] \<Rightarrow> None
      | Some (user # _) \<Rightarrow>
          (case sub_fields (Some user) of
             None \<Rightarrow> None
           | Some message \<Rightarrow>
               if \<not> list_all (\<lambda>f. if sf_fn f \<in> {1, 2} then sf_wt f = 2 else sf_fn f \<in> set APPENDED_ECHO_METADATA \<and> sf_wt f = 0) message
                  \<or> \<not> list_all (\<lambda>n. length (filter (\<lambda>f. sf_fn f = n) message) \<le> 1) ([1, 2] @ APPENDED_ECHO_METADATA) then None
               else (case (Option.bind (find_fn 1 message) sf_bytes, Option.bind (find_fn 2 message) sf_bytes) of
                   (Some text, Some i) \<Rightarrow>
                     if text = [] \<or> i = [] then None
                     else (case (textDecodeFatal i, textDecodeFatal text) of
                         (Some m, Some t) \<Rightarrow> Some \<lparr>am_messageId = m, am_text = t\<rparr>
                       | _ \<Rightarrow> None)
                 | _ \<Rightarrow> None)))"

section \<open>Wire checks\<close>

definition INTERACTION_UPDATE_FIELDS :: "nat list" where
  "INTERACTION_UPDATE_FIELDS = [1, 2, 3, 4, 5, 6, 7, 8, 13, 14, 15, 16, 17, 23, 24, 27]"
definition INTERACTION_UPDATE_STARTED_AT :: nat where "INTERACTION_UPDATE_STARTED_AT = 25"
definition INTERACTION_QUERY_FIELDS :: "nat list" where
  "INTERACTION_QUERY_FIELDS = [2, 3, 4, 7, 8, 9, 10, 11, 12, 13, 14]"
definition TOP_LEVEL_FIELDS :: "nat list" where "TOP_LEVEL_FIELDS = [1, 2, 3, 4, 5, 7]"
definition SERVER_MESSAGE_TTFT :: nat where "SERVER_MESSAGE_TTFT = 8"

definition exact_exec_variant :: "strict_field option \<Rightarrow> nat \<Rightarrow> bool" where
  "exact_exec_variant topLevel field =
     (let flds = nestedFields topLevel 2;
          metadataValid = optionalField flds 1 0 \<and> optionalField flds 15 2 \<and> optionalField flds 19 2 \<and> optionalField flds 55 0
      in metadataValid \<and> (case filter (\<lambda>f. sf_fn f \<notin> {1, 15, 19, 55}) flds of [v] \<Rightarrow> sf_fn v = field \<and> sf_wt v = 2 | _ \<Rightarrow> False))"

text \<open>\<open>(exactRequestContext, exactMcpState)\<close>\<close>

definition analyzeExecWire :: "strict_field option \<Rightarrow> bool \<times> bool" where
  "analyzeExecWire topLevel = (exact_exec_variant topLevel 10, exact_exec_variant topLevel 36)"

definition validKvWire :: "strict_field option \<Rightarrow> bool" where
  "validKvWire topLevel =
     (let flds = nestedFields topLevel 4; spans = filter (\<lambda>f. sf_fn f = 4) flds in
      if length spans > 1 \<or> list_ex (\<lambda>f. sf_wt f \<noteq> 2) spans then False
      else (case filter (\<lambda>f. sf_fn f \<noteq> 1 \<and> sf_fn f \<noteq> 4) flds of
          [v] \<Rightarrow>
            (let args = (if sf_wt v = 2 then (case sub_fields (Some v) of None \<Rightarrow> [] | Some fs \<Rightarrow> fs) else []);
                 blobIds = filter (\<lambda>f. sf_fn f = 1 \<and> sf_wt f = 2 \<and> sf_bytes f \<noteq> None \<and> sf_bytes f \<noteq> Some []) args
             in sf_fn v \<in> {2, 3} \<and> sf_wt v = 2 \<and> length blobIds = 1
                \<and> list_all (\<lambda>f. sf_wt f = 2 \<and> (sf_fn f = 1 \<or> (sf_fn v = 3 \<and> sf_fn f = 2))) args)
        | _ \<Rightarrow> False))"

definition valid_update :: "strict_field \<Rightarrow> decoded_update \<Rightarrow> bool" where
  "valid_update update decoded =
     (if sf_wt update \<noteq> 2 \<or> sf_fn update \<notin> set INTERACTION_UPDATE_FIELDS then False
      else if sf_fn update = 6 then
        du_user_message_appended decoded
        \<and> (case sub_fields (Some update) of Some [a] \<Rightarrow> sf_fn a = 1 \<and> sf_wt a = 2 | _ \<Rightarrow> False)
      else if sf_fn update = 2 \<or> sf_fn update = 3 then
        (case sub_fields (Some update) of None \<Rightarrow> False
         | Some lifecycle \<Rightarrow> list_all (\<lambda>f. sf_fn f \<in> {1, 2, 3}) lifecycle \<and> list_all (\<lambda>n. optionalField lifecycle n 2) [1, 2, 3])
      else if sf_fn update \<notin> {1, 4} then True
      else (let delta = (case sub_fields (Some update) of None \<Rightarrow> [] | Some fs \<Rightarrow> fs);
                text = filter (\<lambda>f. sf_fn f = 1) delta; flag = filter (\<lambda>f. sf_fn f = 2) delta
            in (case text of [t] \<Rightarrow> sf_wt t = 2 | _ \<Rightarrow> False) \<and> optionalField delta 2 0 \<and> length delta = length text + length flag))"

definition validInteractionUpdateWire :: "strict_field option \<Rightarrow> decoded_update option \<Rightarrow> bool" where
  "validInteractionUpdateWire topLevel decoded =
     (case decoded of None \<Rightarrow> True
      | Some d \<Rightarrow>
          (let all' = nestedFields topLevel 1 in
           if \<not> optionalField all' INTERACTION_UPDATE_STARTED_AT 0 then False
           else (case filter (\<lambda>f. sf_fn f \<noteq> INTERACTION_UPDATE_STARTED_AT) all' of [update] \<Rightarrow> valid_update update d | _ \<Rightarrow> False)))"

definition validInteractionQueryWire :: "strict_field option \<Rightarrow> bool \<Rightarrow> bool" where
  "validInteractionQueryWire topLevel decoded =
     (if \<not> decoded then True
      else (let flds = nestedFields topLevel 7; ids = filter (\<lambda>f. sf_fn f = 1) flds
            in length ids \<le> 1 \<and> list_all (\<lambda>f. sf_wt f = 0) ids
               \<and> (case filter (\<lambda>f. sf_fn f \<noteq> 1) flds of [v] \<Rightarrow> sf_wt v = 2 \<and> sf_fn v \<in> set INTERACTION_QUERY_FIELDS | _ \<Rightarrow> False)))"

definition decodedMatchesWire :: "strict_field option \<Rightarrow> decoded_frame \<Rightarrow> bool" where
  "decodedMatchesWire topLevel decoded =
     (case topLevel of None \<Rightarrow> True
      | Some t \<Rightarrow> \<not> (sf_fn t = 1 \<and> df_interactionUpdate decoded = None \<or> sf_fn t = 2 \<and> \<not> df_exec decoded
          \<or> sf_fn t = 4 \<and> \<not> df_kv decoded \<or> sf_fn t = 5 \<and> \<not> df_execControl decoded \<or> sf_fn t = 7 \<and> \<not> df_interactionQuery decoded))"

section \<open>The classification\<close>

definition top_level :: "bytes \<Rightarrow> strict_field option" where
  "top_level payload =
     (let allTopLevel = (case readAllFieldsStrict payload of None \<Rightarrow> [] | Some fs \<Rightarrow> fs)
      in if optionalField allTopLevel SERVER_MESSAGE_TTFT 2
         then (case filter (\<lambda>f. sf_fn f \<noteq> SERVER_MESSAGE_TTFT) allTopLevel of [t] \<Rightarrow> Some t | _ \<Rightarrow> None) else None)"

definition malformed :: "strict_field option \<Rightarrow> decoded_frame \<Rightarrow> bool" where
  "malformed topLevel decoded \<longleftrightarrow>
     (case topLevel of None \<Rightarrow> True | Some t \<Rightarrow> sf_wt t \<noteq> 2 \<or> sf_fn t \<notin> set TOP_LEVEL_FIELDS)
     \<or> \<not> validInteractionUpdateWire topLevel (df_interactionUpdate decoded)
     \<or> \<not> validInteractionQueryWire topLevel (df_interactionQuery decoded)
     \<or> \<not> decodedMatchesWire topLevel decoded \<or> df_execControl decoded"

definition display_call :: "decoded_frame \<Rightarrow> (lifecycle_kind \<times> utf16 option) option" where
  "display_call decoded =
     (case df_interactionUpdate decoded of None \<Rightarrow> None
      | Some d \<Rightarrow> (case du_tool_call_started d of Some i \<Rightarrow> Some (LifecycleStarted, i)
          | None \<Rightarrow> map_option (Pair LifecycleCompleted) (du_tool_call_completed d)))"

definition analyzeReplayFrame :: "bytes \<Rightarrow> decoded_frame \<Rightarrow> frame_analysis" where
  "analyzeReplayFrame payload decoded =
     (let topLevel = top_level payload; bad = malformed topLevel decoded;
          completed = (case df_interactionUpdate decoded of None \<Rightarrow> False | Some d \<Rightarrow> du_tool_call_completed d \<noteq> None);
          fn = (case topLevel of None \<Rightarrow> 0 | Some t \<Rightarrow> sf_fn t)
      in case display_call decoded of
           Some (kind, callId) \<Rightarrow>
             \<lparr>fa_barrier = Some DisplayToolLifecycle,
               fa_toolLifecycle = (case callId of None \<Rightarrow> None
                 | Some i \<Rightarrow> if \<not> bad \<and> i \<noteq> [] then Some \<lparr>tl_kind = kind, tl_callId = i, tl_catalog = inlineCatalog topLevel completed\<rparr> else None),
               fa_appendedUserMessage = None\<rparr>
         | None \<Rightarrow>
             if bad \<or> (fn = 4 \<and> \<not> validKvWire topLevel) then
               \<lparr>fa_barrier = Some UnknownOrMalformedFrame, fa_toolLifecycle = None, fa_appendedUserMessage = None\<rparr>
             else if fn = 1 \<and> (case df_interactionUpdate decoded of None \<Rightarrow> False | Some d \<Rightarrow> du_user_message_appended d) then
               \<lparr>fa_barrier = Some StatefulInteraction, fa_toolLifecycle = None, fa_appendedUserMessage = appendedEcho topLevel\<rparr>
             else if fn = 2 \<and> \<not> fst (analyzeExecWire topLevel) \<and> \<not> snd (analyzeExecWire topLevel) then
               \<lparr>fa_barrier = Some NonControlExec, fa_toolLifecycle = None, fa_appendedUserMessage = None\<rparr>
             else \<lparr>fa_barrier = None, fa_toolLifecycle = None, fa_appendedUserMessage = None\<rparr>)"

text \<open>The layout of a frame, for the trace.\<close>

fun decimal :: "nat \<Rightarrow> string" where
  "decimal n = (if n < 10 then [char_of (48 + n)] else decimal (n div 10) @ [char_of (48 + n mod 10)])"

fun join_comma :: "string list \<Rightarrow> string" where
  "join_comma [] = []"
| "join_comma [x] = x"
| "join_comma (x # xs) = x @ '','' @ join_comma xs"

fun describeFrameLayout :: "nat \<Rightarrow> bytes \<Rightarrow> string" where
  "describeFrameLayout depth payload =
     (case readAllFieldsStrict payload of None \<Rightarrow> ''?''
      | Some flds \<Rightarrow> join_comma (map (\<lambda>f. decimal (sf_fn f) @ '':'' @ decimal (sf_wt f) @
          (case sf_bytes f of None \<Rightarrow> []
           | Some b \<Rightarrow> (case depth of 0 \<Rightarrow> [] | Suc d \<Rightarrow>
               if depth > 1 \<and> sf_wt f = 2 \<and> b \<noteq> []
                 \<and> (case readAllFieldsStrict b of None \<Rightarrow> False | Some nested \<Rightarrow> nested \<noteq> [])
               then ''{'' @ describeFrameLayout d b @ ''}'' else []))) flds))"

section \<open>A frame without a barrier\<close>

lemma singleton_case: "(case xs of [x] \<Rightarrow> P x | _ \<Rightarrow> False) \<longleftrightarrow> (\<exists>x. xs = [x] \<and> P x)"
  by (auto split: list.splits)

lemma top_level_Some:
  "top_level payload = Some t \<Longrightarrow> \<exists>fs. readAllFieldsStrict payload = Some fs \<and> filter (\<lambda>f. sf_fn f \<noteq> 8) fs = [t]"
  by (auto simp: top_level_def Let_def SERVER_MESSAGE_TTFT_def split: option.splits if_splits list.splits)

lemma exact_variant: "exact_exec_variant t n \<Longrightarrow> \<exists>v. filter (\<lambda>f. sf_fn f \<notin> {1, 15, 19, 55}) (nestedFields t 2) = [v] \<and> sf_fn v = n"
  by (auto simp: exact_exec_variant_def Let_def singleton_case)

lemma valid_kv: "validKvWire t \<Longrightarrow> \<exists>v. filter (\<lambda>f. sf_fn f \<noteq> 1 \<and> sf_fn f \<noteq> 4) (nestedFields t 4) = [v] \<and> sf_fn v \<in> {2, 3}"
  unfolding validKvWire_def Let_def singleton_case by (meson if_split_asm)

text \<open>A frame that is no barrier to a replay is one of five inert kinds, judged on its bytes. It has
  exactly one member besides timing metrics, and that is: a checkpoint; an interaction update of a known
  kind that neither announces or completes a tool call nor appends a user message; an exec whose only
  variant asks for the request context or the MCP state; a blob read or write; an interaction query of
  a known kind, which no update or control message accompanies.\<close>
theorem barrier_free_frame_is_inert:
  assumes "fa_barrier (analyzeReplayFrame payload decoded) = None"
  shows "\<exists>fs t. readAllFieldsStrict payload = Some fs \<and> filter (\<lambda>f. sf_fn f \<noteq> 8) fs = [t] \<and> sf_wt t = 2
    \<and> display_call decoded = None \<and> \<not> df_execControl decoded
    \<and> (sf_fn t = 3
       \<or> (sf_fn t = 1 \<and> (\<exists>u. filter (\<lambda>f. sf_fn f \<noteq> 25) (nestedFields (Some t) 1) = [u] \<and> sf_fn u \<in> set INTERACTION_UPDATE_FIELDS - {6}))
       \<or> (sf_fn t = 2 \<and> (\<exists>v. filter (\<lambda>f. sf_fn f \<notin> {1, 15, 19, 55}) (nestedFields (Some t) 2) = [v] \<and> sf_fn v \<in> {10, 36}))
       \<or> (sf_fn t = 4 \<and> (\<exists>v. filter (\<lambda>f. sf_fn f \<noteq> 1 \<and> sf_fn f \<noteq> 4) (nestedFields (Some t) 4) = [v] \<and> sf_fn v \<in> {2, 3}))
       \<or> (sf_fn t = 7 \<and> (\<exists>v. filter (\<lambda>f. sf_fn f \<noteq> 1) (nestedFields (Some t) 7) = [v] \<and> sf_fn v \<in> set INTERACTION_QUERY_FIELDS)))"
proof -
  let ?top = "top_level payload"
  have d: "display_call decoded = None" and ok: "\<not> malformed ?top decoded"
    using assms by (auto simp: analyzeReplayFrame_def Let_def split: option.splits if_splits)
  obtain t where t: "?top = Some t" using ok by (cases ?top) (simp_all add: malformed_def)
  then obtain fs where fs: "readAllFieldsStrict payload = Some fs" "filter (\<lambda>f. sf_fn f \<noteq> 8) fs = [t]"
    using top_level_Some by blast
  have m: "sf_wt t = 2" "sf_fn t \<in> {1, 2, 3, 4, 5, 7}" "validInteractionUpdateWire ?top (df_interactionUpdate decoded)"
    "validInteractionQueryWire ?top (df_interactionQuery decoded)" "decodedMatchesWire ?top decoded" "\<not> df_execControl decoded"
    using ok t by (auto simp: malformed_def TOP_LEVEL_FIELDS_def)
  have kv: "sf_fn t = 4 \<Longrightarrow> validKvWire (Some t)"
    and up: "sf_fn t = 1 \<Longrightarrow> df_interactionUpdate decoded = Some u \<Longrightarrow> \<not> du_user_message_appended u"
    and ex: "sf_fn t = 2 \<Longrightarrow> exact_exec_variant (Some t) 10 \<or> exact_exec_variant (Some t) 36" for u
    using assms d ok t by (auto simp: analyzeReplayFrame_def analyzeExecWire_def Let_def split: if_splits)
  from m(2,5,6) t consider "sf_fn t = 3" | u where "sf_fn t = 1" "df_interactionUpdate decoded = Some u" | "sf_fn t = 2" | "sf_fn t = 4"
    | "sf_fn t = 7" "df_interactionQuery decoded" by (auto simp: decodedMatchesWire_def)
  then show ?thesis
  proof cases
    case 2
    then have "\<exists>w. filter (\<lambda>f. sf_fn f \<noteq> 25) (nestedFields (Some t) 1) = [w] \<and> valid_update w u"
      using m(3) t by (auto simp: validInteractionUpdateWire_def Let_def singleton_case INTERACTION_UPDATE_STARTED_AT_def split: if_splits)
    moreover have "sf_fn w \<in> set INTERACTION_UPDATE_FIELDS - {6}" if "valid_update w u" for w
      using that up [OF 2] by (auto simp: valid_update_def split: if_splits)
    ultimately show ?thesis using fs m(1,6) d 2(1) by (intro exI [of _ fs] exI [of _ t]) (simp, blast)
  next
    case 3
    then show ?thesis using fs m(1,6) d ex exact_variant [of "Some t" 10] exact_variant [of "Some t" 36]
      by (intro exI [of _ fs] exI [of _ t]) (simp, blast)
  next
    case 4
    then show ?thesis using fs m(1,6) d valid_kv [OF kv] by (intro exI [of _ fs] exI [of _ t]) simp
  next
    case 5
    then have "\<exists>v. filter (\<lambda>f. sf_fn f \<noteq> 1) (nestedFields (Some t) 7) = [v] \<and> sf_fn v \<in> set INTERACTION_QUERY_FIELDS"
      using m(4) t by (auto simp: validInteractionQueryWire_def Let_def singleton_case)
    then show ?thesis using fs m(1,6) d 5(1) by (intro exI [of _ fs] exI [of _ t]) simp
  qed (use fs m(1,6) d in auto)
qed

definition no_decoded :: decoded_frame where
  "no_decoded = \<lparr>df_interactionUpdate = None, df_exec = False, df_kv = False, df_execControl = False, df_interactionQuery = False\<rparr>"

text \<open>An exec frame with id 5 that asks for the request context (\<open>#10\<close>), beside timing metrics (\<open>#8\<close>).\<close>

theorem barrier_free_frame_is_inert_witness:
  "fa_barrier (analyzeReplayFrame [18, 4, 8, 5, 82, 0, 66, 0] (no_decoded\<lparr>df_exec := True\<rparr>)) = None
   \<and> display_call (no_decoded\<lparr>df_exec := True\<rparr>) = None
   \<and> (\<exists>fs t v. readAllFieldsStrict [18, 4, 8, 5, 82, 0, 66, 0] = Some fs \<and> filter (\<lambda>f. sf_fn f \<noteq> 8) fs = [t] \<and> sf_fn t = 2
        \<and> filter (\<lambda>f. sf_fn f \<notin> {1, 15, 19, 55}) (nestedFields (Some t) 2) = [v] \<and> sf_fn v \<in> {10, 36})"
proof -
  have r: "readAllFieldsStrict [18, 4, 8, 5, 82, 0, 66, 0] = Some [bytes_field 2 [8, 5, 82, 0], bytes_field 8 []]"
    using readAllFieldsStrict_enc_append [of "[bytes_field 2 [8, 5, 82, 0], bytes_field 8 []]" "[]"] by (simp add: wire_eval)
  have n: "readAllFieldsStrict [8, 5, 82, 0] = Some [varint_field 1 5, bytes_field 10 []]"
    using readAllFieldsStrict_enc_append [of "[varint_field 1 5, bytes_field 10 []]" "[]"] by (simp add: wire_eval)
  have "top_level [18, 4, 8, 5, 82, 0, 66, 0] = Some (bytes_field 2 [8, 5, 82, 0])"
    by (simp add: top_level_def r optionalField_def SERVER_MESSAGE_TTFT_def field_defs)
  moreover have "nestedFields (Some (bytes_field 2 [8, 5, 82, 0])) 2 = [varint_field 1 5, bytes_field 10 []]"
    by (simp add: nestedFields_def n bytes_field_def)
  ultimately have b: "fa_barrier (analyzeReplayFrame [18, 4, 8, 5, 82, 0, 66, 0] (no_decoded\<lparr>df_exec := True\<rparr>)) = None"
    by (simp add: analyzeReplayFrame_def display_call_def no_decoded_def malformed_def TOP_LEVEL_FIELDS_def validInteractionUpdateWire_def
        validInteractionQueryWire_def decodedMatchesWire_def analyzeExecWire_def exact_exec_variant_def Let_def optionalField_def)
      (simp add: field_defs)
  have f: "map sf_fn [bytes_field 2 [8, 5, 82, 0], bytes_field 8 []] = [2, 8]" by (simp add: field_defs)
  from barrier_free_frame_is_inert [OF b] obtain fs t where t: "readAllFieldsStrict [18, 4, 8, 5, 82, 0, 66, 0] = Some fs"
    "filter (\<lambda>f. sf_fn f \<noteq> 8) fs = [t]" "display_call (no_decoded\<lparr>df_exec := True\<rparr>) = None"
    "sf_fn t = 2 \<longrightarrow> (\<exists>v. filter (\<lambda>f. sf_fn f \<notin> {1, 15, 19, 55}) (nestedFields (Some t) 2) = [v] \<and> sf_fn v \<in> {10, 36})" by auto
  have "t \<in> set (filter (\<lambda>f. sf_fn f \<noteq> 8) fs)" using t(2) by simp
  then have "t \<in> set fs" "sf_fn t \<noteq> 8" by simp_all
  moreover have "fs = [bytes_field 2 [8, 5, 82, 0], bytes_field 8 []]" using t(1) r by simp
  then have "map sf_fn fs = [2, 8]" using f by (simp only:)
  then have "sf_fn ` set fs = {2, 8}" by (metis list.set_map empty_set list.simps(15))
  ultimately have "sf_fn t = 2" by blast
  then show ?thesis using b t by blast
qed

end
