(* ===== verification/ReplaySafety.thy ===== *)
theory ReplaySafety
  imports ReplayFrame
begin

text \<open>
  What a Run remembers about the frames it saw (\<open>src/src/replay-safety.ts\<close>): the barriers that rule out
  sending a turn again, and the execs, display calls and injections a history rebuild must hold.
  Absent optional arrays and records are empty lists: the code reads them the same way. Trace output
  is left out.
\<close>

section \<open>Injections of the Run\<close>

datatype injection_kind = Steer | Note

record run_injection =
  ri_kind :: injection_kind
  ri_injectionId :: utf16
  ri_messageId :: utf16
  ri_text :: utf16
  ri_notes :: "utf16 list option"
  ri_delivered :: bool

datatype appended_injection = AppendedSteer utf16 | AppendedNote utf16 "utf16 list"

definition MAX_RUN_INJECTIONS :: nat where "MAX_RUN_INJECTIONS = 64"
definition MAX_APPENDED_INJECTIONS :: nat where "MAX_APPENDED_INJECTIONS = 128"

definition trackRunInjection :: "run_injection \<Rightarrow> run_injection list \<Rightarrow> run_injection list" where
  "trackRunInjection injection injections =
     (let is = injections @ [injection]
      in if length is > MAX_RUN_INJECTIONS then drop (length is - MAX_RUN_INJECTIONS) is else is)"

fun update_first :: "('a \<Rightarrow> bool) \<Rightarrow> ('a \<Rightarrow> 'a) \<Rightarrow> 'a list \<Rightarrow> 'a list" where
  "update_first P f [] = []"
| "update_first P f (x # xs) = (if P x then f x # xs else x # update_first P f xs)"

definition markRunInjectionDelivered :: "utf16 option \<Rightarrow> run_injection list \<Rightarrow> run_injection list" where
  "markRunInjectionDelivered injectionId injections =
     (case injectionId of None \<Rightarrow> injections
      | Some i \<Rightarrow> if i = [] then injections
          else update_first (\<lambda>x. ri_injectionId x = i) (\<lambda>x. x\<lparr>ri_delivered := True\<rparr>) injections)"

fun remove_first :: "('a \<Rightarrow> bool) \<Rightarrow> 'a list \<Rightarrow> 'a list" where
  "remove_first P [] = []"
| "remove_first P (x # xs) = (if P x then xs else x # remove_first P xs)"

definition takeAppendedInjection :: "run_injection list option \<Rightarrow> appended_message option
    \<Rightarrow> appended_injection option \<times> run_injection list option" where
  "takeAppendedInjection injections message =
     (case (injections, message) of
        (Some is, Some m) \<Rightarrow>
          (case find (\<lambda>x. ri_messageId x = am_messageId m) is of
             None \<Rightarrow> (None, injections)
           | Some x \<Rightarrow>
               if \<not> ri_delivered x \<or> ri_text x \<noteq> am_text m then (None, injections)
               else (Some (case ri_kind x of Steer \<Rightarrow> AppendedSteer (ri_injectionId x)
                       | Note \<Rightarrow> AppendedNote (ri_injectionId x) (case ri_notes x of None \<Rightarrow> [] | Some ns \<Rightarrow> ns)),
                     Some (remove_first (\<lambda>y. ri_messageId y = am_messageId m) is)))
      | _ \<Rightarrow> (None, injections))"

section \<open>State of a Run and of an attempt\<close>

record run_exec =
  re_sessionId :: string
  re_id :: int
  re_callId :: "utf16 option"

datatype catalog_state = CatalogStarted | CatalogCompleted

record replay_state =
  rs_statefulBarrier :: "barrier_reason option"
  rs_execs :: "run_exec list"
  rs_announcedCalls :: "utf16 list"
  rs_catalogCalls :: "(utf16, catalog_state) jsmap"
  rs_historyRebaseUnsafe :: bool
  rs_appendedInjections :: "appended_injection list"

record attempt =
  at_sessionId :: string
  at_barrierReason :: "barrier_reason option"
  at_stateful :: bool
  at_otherBarrier :: bool

text \<open>What \<open>applyTo\<close> reads and writes of a failure.\<close>

datatype replay_barrier = BarrierStateful | BarrierOutputOnly

record replay_failure =
  pf_replaySafe :: bool
  pf_replayBarrier :: "replay_barrier option"
  pf_replayBarrierEchoesOnly :: bool

definition OUTPUT_ONLY_BARRIERS :: "barrier_reason list" where
  "OUTPUT_ONLY_BARRIERS = [VisibleText, VisibleReasoning, VisibleToolRow]"

definition claimed_calls :: "replay_state \<Rightarrow> utf16 list" where
  "claimed_calls s = concat (map (\<lambda>e. case re_callId e of None \<Rightarrow> [] | Some c \<Rightarrow> if c = [] then [] else [c]) (rs_execs s))"

definition announcedCallsClaimed :: "replay_state option \<Rightarrow> bool" where
  "announcedCallsClaimed state =
     (case state of None \<Rightarrow> True
      | Some s \<Rightarrow> list_all (\<lambda>c. c \<in> set (claimed_calls s) \<or> jm_get (rs_catalogCalls s) c = Some CatalogCompleted) (rs_announcedCalls s))"

definition newReplayState :: replay_state where
  "newReplayState = \<lparr>rs_statefulBarrier = None, rs_execs = [], rs_announcedCalls = [], rs_catalogCalls = [],
     rs_historyRebaseUnsafe = False, rs_appendedInjections = []\<rparr>"

definition newAttempt :: "string \<Rightarrow> replay_state \<Rightarrow> attempt" where
  "newAttempt sessionId s = \<lparr>at_sessionId = sessionId, at_barrierReason = None, at_stateful = (rs_statefulBarrier s \<noteq> None), at_otherBarrier = False\<rparr>"

type_synonym replay = "attempt \<times> replay_state"

definition markHistoryUnsafe :: "replay \<Rightarrow> replay" where
  "markHistoryUnsafe r = (fst r, (snd r)\<lparr>rs_historyRebaseUnsafe := True\<rparr>)"

definition mark :: "barrier_reason \<Rightarrow> bool \<Rightarrow> bool \<Rightarrow> replay \<Rightarrow> replay" where
  "mark reason historyRepresentable injectionEcho r =
     (let a1 = (if injectionEcho then fst r else (fst r)\<lparr>at_otherBarrier := True\<rparr>);
          r1 = (if reason \<in> set OUTPUT_ONLY_BARRIERS then (a1, snd r)
            else (let s1 = (case rs_statefulBarrier (snd r) of None \<Rightarrow> (snd r)\<lparr>rs_statefulBarrier := Some reason\<rparr> | Some _ \<Rightarrow> snd r);
                      r' = (a1\<lparr>at_stateful := True\<rparr>, s1)
                  in if historyRepresentable then r' else markHistoryUnsafe r'))
      in case at_barrierReason (fst r1) of Some _ \<Rightarrow> r1
         | None \<Rightarrow> ((fst r1)\<lparr>at_barrierReason := Some reason\<rparr>, snd r1))"

definition markBarrier :: "barrier_reason \<Rightarrow> replay \<Rightarrow> replay" where
  "markBarrier reason r = mark reason (reason = NonControlExec) False r"

definition recordToolLifecycle :: "tool_lifecycle option \<Rightarrow> replay \<Rightarrow> replay" where
  "recordToolLifecycle lifecycle r =
     (case lifecycle of
        None \<Rightarrow> mark DisplayToolLifecycle False False r
      | Some l \<Rightarrow>
          (let s = snd r; c = tl_callId l; claimed = list_ex (\<lambda>e. re_callId e = Some c) (rs_execs s) in
           if tl_catalog l \<and> tl_kind l = LifecycleCompleted \<and> jm_get (rs_catalogCalls s) c = Some CatalogStarted
           then (fst r, s\<lparr>rs_catalogCalls := jm_set c CatalogCompleted (rs_catalogCalls s)\<rparr>)
           else if tl_kind l = LifecycleCompleted \<and> claimed then r
           else if tl_kind l = LifecycleStarted \<and> \<not> claimed then
             (if jm_has (rs_catalogCalls s) c then mark DisplayToolLifecycle False False r
              else (let s1 = (if tl_catalog l then s\<lparr>rs_catalogCalls := jm_set c CatalogStarted (rs_catalogCalls s)\<rparr> else s);
                        s2 = (if c \<in> set (rs_announcedCalls s1) then s1 else s1\<lparr>rs_announcedCalls := rs_announcedCalls s1 @ [c]\<rparr>)
                    in mark DisplayToolLifecycle True False (fst r, s2)))
           else mark DisplayToolLifecycle False False r))"

text \<open>The exec id when it is a safe integer.\<close>

definition recordExec :: "int option \<Rightarrow> utf16 option \<Rightarrow> replay \<Rightarrow> replay" where
  "recordExec i callId r =
     (case i of None \<Rightarrow> markHistoryUnsafe r
      | Some n \<Rightarrow>
          if list_ex (\<lambda>e. re_sessionId e = at_sessionId (fst r) \<and> re_id e = n) (rs_execs (snd r)) then markHistoryUnsafe r
          else (fst r, (snd r)\<lparr>rs_execs := rs_execs (snd r) @ [\<lparr>re_sessionId = at_sessionId (fst r), re_id = n,
                  re_callId = (case callId of None \<Rightarrow> None | Some c \<Rightarrow> if c = [] then None else Some c)\<rparr>]\<rparr>))"

definition recordAppendedMessage :: "appended_injection option \<Rightarrow> replay \<Rightarrow> replay" where
  "recordAppendedMessage injection r =
     (case injection of
        None \<Rightarrow> mark StatefulInteraction False False r
      | Some i \<Rightarrow>
          if length (rs_appendedInjections (snd r)) \<ge> MAX_APPENDED_INJECTIONS then mark StatefulInteraction False False r
          else mark StatefulInteraction True True (fst r, (snd r)\<lparr>rs_appendedInjections := rs_appendedInjections (snd r) @ [i]\<rparr>))"

definition applyTo :: "replay_failure \<Rightarrow> attempt \<Rightarrow> replay_failure" where
  "applyTo failure a =
     (let f1 = failure\<lparr>pf_replaySafe := at_barrierReason a = None \<and> \<not> at_stateful a \<and> pf_replaySafe failure\<rparr>
      in case at_barrierReason a of None \<Rightarrow> f1
         | Some _ \<Rightarrow>
             (let f2 = f1\<lparr>pf_replayBarrier := Some (if at_stateful a then BarrierStateful else BarrierOutputOnly)\<rparr>
              in if at_otherBarrier a then f2 else f2\<lparr>pf_replayBarrierEchoesOnly := True\<rparr>))"

section \<open>A Run's events\<close>

datatype replay_event = RBarrier barrier_reason | RLifecycle "tool_lifecycle option" | RExec "int option" "utf16 option"
  | RAppended "appended_injection option" | RNewAttempt string

fun replay_step :: "replay \<Rightarrow> replay_event \<Rightarrow> replay" where
  "replay_step r (RBarrier b) = markBarrier b r"
| "replay_step r (RLifecycle l) = recordToolLifecycle l r"
| "replay_step r (RExec i c) = recordExec i c r"
| "replay_step r (RAppended i) = recordAppendedMessage i r"
| "replay_step r (RNewAttempt sid) = (newAttempt sid (snd r), snd r)"

section \<open>What a Run remembers is never forgotten\<close>

definition remembers :: "replay_state \<Rightarrow> replay_state \<Rightarrow> bool" where
  "remembers s t \<longleftrightarrow> set (rs_execs s) \<subseteq> set (rs_execs t) \<and> set (rs_announcedCalls s) \<subseteq> set (rs_announcedCalls t)
     \<and> set (rs_appendedInjections s) \<subseteq> set (rs_appendedInjections t)
     \<and> (\<forall>c. jm_get (rs_catalogCalls s) c = Some CatalogCompleted \<longrightarrow> jm_get (rs_catalogCalls t) c = Some CatalogCompleted)
     \<and> (rs_historyRebaseUnsafe s \<longrightarrow> rs_historyRebaseUnsafe t)
     \<and> (\<forall>b. rs_statefulBarrier s = Some b \<longrightarrow> rs_statefulBarrier t = Some b)"

lemma remembers_refl [simp]: "remembers s s"
  by (simp add: remembers_def)

lemma remembers_trans: "remembers s t \<Longrightarrow> remembers t u \<Longrightarrow> remembers s u"
  by (auto simp: remembers_def)

lemma mark_state:
  "rs_execs (snd (mark b h e r)) = rs_execs (snd r)" "rs_announcedCalls (snd (mark b h e r)) = rs_announcedCalls (snd r)"
  "rs_appendedInjections (snd (mark b h e r)) = rs_appendedInjections (snd r)" "rs_catalogCalls (snd (mark b h e r)) = rs_catalogCalls (snd r)"
  "rs_historyRebaseUnsafe (snd (mark b h e r)) \<longleftrightarrow> rs_historyRebaseUnsafe (snd r) \<or> (b \<notin> set OUTPUT_ONLY_BARRIERS \<and> \<not> h)"
  "rs_statefulBarrier (snd (mark b h e r)) = (if b \<in> set OUTPUT_ONLY_BARRIERS \<or> rs_statefulBarrier (snd r) \<noteq> None then rs_statefulBarrier (snd r) else Some b)"
  by (auto simp: mark_def markHistoryUnsafe_def Let_def split: option.splits)

lemma mark_remembers: "remembers (snd r) (snd (mark b h e r))"
  by (auto simp: remembers_def mark_state)

lemma mark_remembers': "remembers s (snd r) \<Longrightarrow> remembers s (snd (mark b h e r))"
  using remembers_trans mark_remembers by blast

lemma step_remembers: "remembers (snd r) (snd (replay_step r e))"
proof (cases e)
  case (RLifecycle l)
  have m: "remembers s (snd (mark b h e (a, t)))" if "remembers s t" for s a t b h e using mark_remembers' [of s "(a, t)"] that by simp
  show ?thesis
    using RLifecycle by (auto simp: recordToolLifecycle_def Let_def remembers_def [of "snd r" "(snd r)\<lparr>rs_catalogCalls := _\<rparr>"]
        remembers_def [of "snd r" "_\<lparr>rs_announcedCalls := _\<rparr>"] intro!: m mark_remembers split: option.splits)
next
  case (RExec i c)
  then show ?thesis by (auto simp: recordExec_def markHistoryUnsafe_def remembers_def split: option.splits)
next
  case (RAppended i)
  have "remembers (snd r) ((snd r)\<lparr>rs_appendedInjections := rs_appendedInjections (snd r) @ [x]\<rparr>)" for x by (auto simp: remembers_def)
  then show ?thesis
    using RAppended mark_remembers' [of "snd r" "(fst r, (snd r)\<lparr>rs_appendedInjections := rs_appendedInjections (snd r) @ [x]\<rparr>)" for x]
    by (auto simp: recordAppendedMessage_def mark_remembers split: option.splits)
qed (simp_all add: markBarrier_def mark_remembers)

text \<open>An attempt knows of every stateful barrier of its Run.\<close>

definition attempt_ok :: "replay \<Rightarrow> bool" where
  "attempt_ok r \<longleftrightarrow> (rs_statefulBarrier (snd r) \<noteq> None \<longrightarrow> at_stateful (fst r))
     \<and> distinct (map (\<lambda>e. (re_sessionId e, re_id e)) (rs_execs (snd r))) \<and> (\<forall>e \<in> set (rs_execs (snd r)). re_callId e \<noteq> Some [])"

lemma mark_ok: "attempt_ok r \<Longrightarrow> attempt_ok (mark b h e r)"
  by (auto simp: attempt_ok_def mark_def markHistoryUnsafe_def Let_def split: option.splits)

lemma attempt_ok_data: "attempt_ok r \<Longrightarrow> rs_statefulBarrier s = rs_statefulBarrier (snd r) \<Longrightarrow> rs_execs s = rs_execs (snd r) \<Longrightarrow> attempt_ok (fst r, s)"
  by (simp add: attempt_ok_def)

lemma step_ok: "attempt_ok r \<Longrightarrow> attempt_ok (replay_step r e)"
proof (cases e)
  case (RLifecycle l)
  then show "attempt_ok r \<Longrightarrow> attempt_ok (replay_step r e)"
    by (auto simp: recordToolLifecycle_def Let_def intro!: mark_ok attempt_ok_data split: option.splits)
next
  case (RExec i c)
  then show "attempt_ok r \<Longrightarrow> attempt_ok (replay_step r e)"
    by (auto simp: recordExec_def attempt_ok_def markHistoryUnsafe_def list_ex_iff split: option.splits)
next
  case (RAppended i)
  then show "attempt_ok r \<Longrightarrow> attempt_ok (replay_step r e)"
    by (auto simp: recordAppendedMessage_def intro!: mark_ok attempt_ok_data split: option.splits)
next
  case (RNewAttempt sid)
  then show "attempt_ok r \<Longrightarrow> attempt_ok (replay_step r e)" by (simp add: attempt_ok_def newAttempt_def)
qed (simp add: markBarrier_def mark_ok)

definition fresh_run :: "string \<Rightarrow> replay" where
  "fresh_run sid = (newAttempt sid newReplayState, newReplayState)"

lemma fresh_run_ok: "attempt_ok (fresh_run sid)"
  by (simp add: fresh_run_def attempt_ok_def newReplayState_def)

interpretation replay_sys: step_system "\<lambda>r. \<exists>sid. r = fresh_run sid" replay_step attempt_ok
  by unfold_locales (auto intro: step_ok fresh_run_ok)

lemma run_remembers: "remembers (snd r) (snd (replay_sys.run r es))"
proof (induction es arbitrary: r)
  case (Cons e es)
  show ?case using remembers_trans [OF step_remembers [of r e] Cons.IH] by simp
qed simp

text \<open>A stateful barrier rules out a replay for the rest of the Run: once one was recorded, it stays
  recorded with its first reason, and no later failure is marked safe to replay, in that attempt or in
  any attempt after it.\<close>
theorem replay_barrier_is_permanent:
  assumes "rs_statefulBarrier (snd (replay_sys.run (fresh_run sid) es)) = Some b"
  shows "rs_statefulBarrier (snd (replay_sys.run (fresh_run sid) (es @ fs))) = Some b
    \<and> \<not> pf_replaySafe (applyTo failure (fst (replay_sys.run (fresh_run sid) (es @ fs))))"
proof -
  let ?r = "replay_sys.run (fresh_run sid) es" and ?t = "replay_sys.run (fresh_run sid) (es @ fs)"
  have "?t = replay_sys.run ?r fs" by (rule replay_sys.run_append)
  then have b: "rs_statefulBarrier (snd ?t) = Some b" using run_remembers [of ?r fs] assms by (simp add: remembers_def)
  moreover have "attempt_ok ?t" by (rule replay_sys.reachable_inv) blast
  ultimately show ?thesis by (simp add: attempt_ok_def applyTo_def Let_def split: option.splits)
qed

section \<open>A history rebuild repeats nothing\<close>

text \<open>How host history holds an event of the Run.\<close>

fun represented :: "replay_state \<Rightarrow> replay_event \<Rightarrow> bool" where
  "represented s (RBarrier b) = (b \<in> set OUTPUT_ONLY_BARRIERS \<or> b = NonControlExec)"
| "represented s (RLifecycle l) = (case l of None \<Rightarrow> False
     | Some l \<Rightarrow> tl_callId l \<in> set (claimed_calls s) \<or> jm_get (rs_catalogCalls s) (tl_callId l) = Some CatalogCompleted)"
| "represented s (RExec i c) = (case i of None \<Rightarrow> False | Some n \<Rightarrow> n \<in> re_id ` set (rs_execs s))"
| "represented s (RAppended i) = (case i of None \<Rightarrow> False | Some x \<Rightarrow> x \<in> set (rs_appendedInjections s))"
| "represented s (RNewAttempt sid) = True"

text \<open>The same, counting an announced call as held.\<close>

definition noted :: "replay_state \<Rightarrow> replay_event \<Rightarrow> bool" where
  "noted s e \<longleftrightarrow> represented s e \<or> (\<exists>l. e = RLifecycle (Some l) \<and> tl_callId l \<in> set (rs_announcedCalls s))"

lemma claimed_iff: "c \<in> set (claimed_calls s) \<longleftrightarrow> c \<noteq> [] \<and> (\<exists>e \<in> set (rs_execs s). re_callId e = Some c)"
proof -
  have "c \<in> set (case re_callId e of None \<Rightarrow> [] | Some c \<Rightarrow> if c = [] then [] else [c]) \<longleftrightarrow> c \<noteq> [] \<and> re_callId e = Some c" for e
    by (cases "re_callId e") (simp, simp, blast)
  then show ?thesis unfolding claimed_calls_def set_concat set_map by blast
qed

lemma noted_mono: "noted s e \<Longrightarrow> remembers s t \<Longrightarrow> noted t e"
  by (cases e) (auto simp: noted_def remembers_def claimed_iff split: option.splits)

lemma step_noted: "attempt_ok r \<Longrightarrow> rs_historyRebaseUnsafe (snd (replay_step r e)) \<or> noted (snd (replay_step r e)) e"
proof (cases e)
  case (RLifecycle l)
  assume ok: "attempt_ok r"
  show ?thesis
  proof (cases l)
    case (Some k)
    have "tl_callId k \<in> set (claimed_calls (snd r))" if "list_ex (\<lambda>e. re_callId e = Some (tl_callId k)) (rs_execs (snd r))"
      using that ok by (auto simp: claimed_iff list_ex_iff attempt_ok_def)
    then show ?thesis
      using RLifecycle Some by (auto simp: recordToolLifecycle_def Let_def noted_def mark_state OUTPUT_ONLY_BARRIERS_def)
  qed (use RLifecycle in \<open>simp add: recordToolLifecycle_def mark_state OUTPUT_ONLY_BARRIERS_def\<close>)
next
  case (RExec i c)
  then show ?thesis by (auto simp: recordExec_def markHistoryUnsafe_def noted_def split: option.splits)
next
  case (RAppended i)
  then show ?thesis
    by (auto simp: recordAppendedMessage_def noted_def mark_state OUTPUT_ONLY_BARRIERS_def split: option.splits)
qed (auto simp: noted_def markBarrier_def mark_state)

lemma run_noted:
  "attempt_ok r \<Longrightarrow> rs_historyRebaseUnsafe (snd (replay_sys.run r es)) \<or> list_all (noted (snd (replay_sys.run r es))) es"
proof (induction es arbitrary: r)
  case (Cons e es)
  let ?t = "replay_sys.run (replay_step r e) es"
  have "rs_historyRebaseUnsafe (snd ?t) \<or> noted (snd ?t) e"
    using step_noted [OF Cons.prems, of e] run_remembers [of "replay_step r e" es] noted_mono by (auto simp: remembers_def)
  then show ?case using Cons.IH [OF step_ok [OF Cons.prems, of e]] by auto
qed simp

text \<open>C4: A history rebuild is authorized only when host history can hold everything the Run did. If the
  Run's history is not marked unsafe and every announced call is claimed, then every barrier so far was
  host output or an exec, every exec is recorded under its own id, every display call belongs to a host
  exec or is a completed catalog lookup, and every appended message is one the Run injected itself.\<close>
theorem history_rebuild_is_represented:
  assumes "s = snd (replay_sys.run (fresh_run sid) es)" and "\<not> rs_historyRebaseUnsafe s" and "announcedCallsClaimed (Some s)"
  shows "list_all (represented s) es \<and> distinct (map (\<lambda>e. (re_sessionId e, re_id e)) (rs_execs s))"
proof -
  have fresh: "attempt_ok (fresh_run sid)" using replay_sys.start_inv by blast
  have "attempt_ok (replay_sys.run (fresh_run sid) es)" by (rule replay_sys.run_inv [OF fresh])
  then have "distinct (map (\<lambda>e. (re_sessionId e, re_id e)) (rs_execs s))" by (simp add: attempt_ok_def assms(1))
  moreover have "represented s e" if "noted s e" for e
    using that assms(3) by (auto simp: noted_def announcedCallsClaimed_def list_all_iff)
  ultimately show ?thesis using run_noted [OF fresh, of es] assms(1,2) by (auto simp: list_all_iff)
qed

definition replay_demo :: "replay_event list" where
  "replay_demo = [RBarrier VisibleText, RLifecycle (Some \<lparr>tl_kind = LifecycleStarted, tl_callId = [97], tl_catalog = False\<rparr>),
     RExec (Some 4) (Some [97]), RBarrier NonControlExec, RLifecycle (Some \<lparr>tl_kind = LifecycleCompleted, tl_callId = [97], tl_catalog = False\<rparr>)]"

theorem replay_barrier_is_permanent_witness:
  "\<not> pf_replaySafe (applyTo \<lparr>pf_replaySafe = True, pf_replayBarrier = None, pf_replayBarrierEchoesOnly = False\<rparr>
     (fst (replay_sys.run (fresh_run ''s'') (replay_demo @ [RNewAttempt ''s2'']))))"
proof -
  have "rs_statefulBarrier (snd (replay_sys.run (fresh_run ''s'') replay_demo)) = Some DisplayToolLifecycle"
    by (simp add: replay_demo_def fresh_run_def newAttempt_def newReplayState_def markBarrier_def mark_def recordToolLifecycle_def
        recordExec_def markHistoryUnsafe_def OUTPUT_ONLY_BARRIERS_def Let_def)
  from replay_barrier_is_permanent [OF this] show ?thesis by blast
qed

theorem history_rebuild_is_represented_witness:
  "list_all (represented (snd (replay_sys.run (fresh_run ''s'') replay_demo))) replay_demo"
proof -
  have e: "snd (replay_sys.run (fresh_run ''s'') replay_demo) = newReplayState\<lparr>rs_statefulBarrier := Some DisplayToolLifecycle,
      rs_execs := [\<lparr>re_sessionId = ''s'', re_id = 4, re_callId = Some [97]\<rparr>], rs_announcedCalls := [[97]]\<rparr>"
    by (simp add: replay_demo_def fresh_run_def newAttempt_def newReplayState_def markBarrier_def mark_def recordToolLifecycle_def
        recordExec_def markHistoryUnsafe_def OUTPUT_ONLY_BARRIERS_def Let_def)
  show ?thesis
    using history_rebuild_is_represented [OF refl, of "''s''" replay_demo] unfolding e
    by (simp add: announcedCallsClaimed_def claimed_calls_def newReplayState_def)
qed

end
