(* ===== verification/ShellOutcome.thy ===== *)
theory ShellOutcome
  imports JsString
begin

text \<open>
  Shell results (\<open>src/src/shell-timeout.ts\<close>): the private sentinels a launcher prints after the
  command's output, the host's own timeout block, and the text that is stored and rendered for them.
  A regular expression is written out as the scan it performs.
\<close>

section \<open>Policies and outcomes\<close>

definition CURSOR_TIMEOUT_BACKGROUND :: nat where "CURSOR_TIMEOUT_BACKGROUND = 2"

definition BACKGROUND_MARKER :: utf16 where "BACKGROUND_MARKER = lit ''__CURSOR_SHELL_BACKGROUND__''"
definition EXIT_MARKER :: utf16 where "EXIT_MARKER = lit ''__CURSOR_SHELL_EXIT__''"
definition TIMEOUT_MARKER :: utf16 where "TIMEOUT_MARKER = lit ''__CURSOR_SHELL_TIMEOUT__''"
definition BACKGROUND_SHELL_MARKER :: utf16 where "BACKGROUND_SHELL_MARKER = lit ''__CURSOR_BACKGROUND_SHELL__''"

record shell_policy =
  pol_command :: utf16
  workingDirectory :: utf16
  timeoutMs :: nat
  timeoutBehavior :: nat
  hardTimeoutMs :: "nat option"
  backgroundSpawn :: bool
  pol_description :: "utf16 option"
  managedCommand :: "utf16 option"
  managedJobDirectory :: "utf16 option"
  shellPath :: "utf16 option"

record background_outcome =
  shellId :: js_int
  bg_pid :: js_int
  bg_command :: utf16
  bg_workingDirectory :: utf16
  msToWait :: nat
  outputFile :: "utf16 option"

datatype shell_outcome = ExitCode js_int | Aborted | TimeoutAfter js_int | Backgrounded background_outcome

section \<open>Sentinels\<close>

text \<open>
  The part of a regular expression after its line start: what it captures and how many code units
  it takes from the front of the text, when it matches there.
\<close>

type_synonym regex = "utf16 \<Rightarrow> (utf16 option list \<times> nat) option"

definition in_line :: "16 word \<Rightarrow> bool" where "in_line c \<longleftrightarrow> c \<noteq> 13 \<and> c \<noteq> nl"

definition colon :: "16 word" where "colon = 58"

text \<open>\<open>(\d+)\<close>, \<open>(-?\d+)\<close>, \<open>(\d+):(?:(\d+):)?([^\r\n]+)\<close> and \<open>[^\r\n]*\<close>\<close>

definition digits_regex :: regex where
  "digits_regex s = (let d = takeWhile is_digit s in if d = [] then None else Some ([Some d], length d))"

definition exit_regex :: regex where
  "exit_regex s =
     (let (sign, rest) = (if starts_with (lit ''-'') s then (lit ''-'', tl s) else ([], s)); d = takeWhile is_digit rest
      in if d = [] then None else Some ([Some (sign @ d)], length (sign @ d)))"

definition handoff_regex :: regex where
  "handoff_regex s =
     (let d = takeWhile is_digit s; r = drop (length d) s in
      if d = [] \<or> \<not> starts_with [colon] r then None
      else let e = takeWhile is_digit (tl r); q = drop (length e) (tl r); file = takeWhile in_line (tl q) in
        if e \<noteq> [] \<and> starts_with [colon] q \<and> file \<noteq> [] then Some ([Some d, Some e, Some file], length d + 1 + length e + 1 + length file)
        else let file = takeWhile in_line (tl r) in
          if file = [] then None else Some ([Some d, None, Some file], length d + 1 + length file))"

definition line_regex :: regex where
  "line_regex s = Some ([], length (takeWhile in_line s))"

text \<open>The group \<open>(${marker}${valuePattern})\<close>; a marker may be an alternative of several.\<close>

definition marker_regex :: "utf16 list \<Rightarrow> regex \<Rightarrow> regex" where
  "marker_regex markers val s =
     (case find (\<lambda>m. starts_with m s) markers of None \<Rightarrow> None
      | Some m \<Rightarrow> map_option (\<lambda>(vs, n). (vs, length m + n)) (val (drop (length m) s)))"

text \<open>One attempt at \<open>(?:^|\r?\n)(\<dots>)\<close>: the start of the group, its captures and its length.\<close>

definition match_here :: "regex \<Rightarrow> utf16 \<Rightarrow> nat \<Rightarrow> (nat \<times> utf16 option list \<times> nat) option" where
  "match_here re out i =
     (case if i = 0 then re out else None of
        Some (vs, n) \<Rightarrow> Some (0, vs, n)
      | None \<Rightarrow>
          (if starts_with [13, nl] (drop i out) then map_option (\<lambda>(vs, n). (i + 2, vs, n)) (re (drop (i + 2) out))
           else if starts_with [nl] (drop i out) then map_option (\<lambda>(vs, n). (i + 1, vs, n)) (re (drop (i + 1) out))
           else None))"

text \<open>
  The loop over \<open>re.exec(output)\<close> with the \<open>g\<close> flag, from \<open>lastIndex\<close> \<open>i\<close> on. Every marker is non-empty,
  so a match ends after its start and the index grows by at least one per turn.
\<close>

function exec_all :: "regex \<Rightarrow> utf16 \<Rightarrow> nat \<Rightarrow> (nat \<times> utf16 option list) option \<Rightarrow> (nat \<times> utf16 option list) option" where
  "exec_all re out i last_match =
     (if length out < i then last_match
      else case match_here re out i of
          None \<Rightarrow> exec_all re out (i + 1) last_match
        | Some (k, vs, n) \<Rightarrow> exec_all re out (max (i + 1) (k + n)) (Some (k, vs)))"
  by pat_completeness auto
termination
  by (relation "measure (\<lambda>(re, out, i, l). Suc (length out) - i)") auto

declare exec_all.simps [simp del]

definition lastPrivateMarker :: "utf16 \<Rightarrow> utf16 list \<Rightarrow> regex \<Rightarrow> (nat \<times> utf16 option list) option" where
  "lastPrivateMarker out markers val = exec_all (marker_regex markers val) out 0 None"

section \<open>Stripping and rendering\<close>

text \<open>\<open>Number\<close> of captured digits, with an optional sign.\<close>

definition js_number :: "utf16 \<Rightarrow> js_int" where
  "js_number s = (if starts_with (lit ''-'') s then js_negate (js_round (digits_value (tl s))) else js_round (digits_value s))"

definition withoutMarker :: "utf16 \<Rightarrow> nat \<Rightarrow> utf16" where
  "withoutMarker out index =
     (let s = take index out; clean = (if ends_with [nl, nl] s then take (length s - 2) s else s)
      in if clean = lit ''(no output)'' then [] else clean)"

definition withoutPrivateMarker :: "utf16 \<Rightarrow> nat \<Rightarrow> utf16" where
  "withoutPrivateMarker out index = (let s = take index out in if ends_with [nl] s then butlast s else s)"

text \<open>
  Numbers are put into text by JavaScript's conversion \<open>fmt\<close>, which writes a safe integer in decimal;
  larger ones keep only some digits or use an exponent.
\<close>

definition formats_safe :: "(js_int \<Rightarrow> utf16) \<Rightarrow> bool" where
  "formats_safe fmt \<longleftrightarrow> (\<forall>n. n < 2 ^ 53 \<longrightarrow> fmt (JsInt (int n)) = decimal n)"

definition outcome_notice :: "(js_int \<Rightarrow> utf16) \<Rightarrow> shell_outcome \<Rightarrow> utf16 option" where
  "outcome_notice fmt oc =
     (case oc of
        Backgrounded b \<Rightarrow>
          (let identity = (case outputFile b of None \<Rightarrow> lit ''pid '' @ fmt (bg_pid b)
                           | Some _ \<Rightarrow> lit ''shell '' @ fmt (shellId b) @ lit '', pid '' @ fmt (bg_pid b));
               file = (case outputFile b of None \<Rightarrow> [] | Some f \<Rightarrow> lit '' Output: '' @ f)
           in Some (if msToWait b > 0
                then lit ''Still running in the background ('' @ identity @ lit '') after '' @ fmt (JsInt (int (msToWait b))) @ lit ''ms.'' @ file
                else lit ''Started in the background ('' @ identity @ lit '').'' @ file))
      | TimeoutAfter ms \<Rightarrow> Some (lit ''Timed out after '' @ fmt ms @ lit ''ms.'')
      | _ \<Rightarrow> None)"

definition formatShellOutcomeDisplay :: "(js_int \<Rightarrow> utf16) \<Rightarrow> utf16 \<Rightarrow> shell_outcome \<Rightarrow> utf16" where
  "formatShellOutcomeDisplay fmt clean oc =
     (case outcome_notice fmt oc of None \<Rightarrow> clean
      | Some notice \<Rightarrow>
          (if clean = [] then notice @ [nl]
           else if ends_with [nl] clean then clean @ notice @ [nl] else clean @ nl # notice @ [nl]))"

definition OPEN_TAG :: utf16 where "OPEN_TAG = lit ''<shell_metadata>''"
definition CLOSE_TAG :: utf16 where "CLOSE_TAG = lit ''</shell_metadata>''"
definition TERMINATED :: utf16 where "TERMINATED = lit ''shell tool terminated command after exceeding timeout ''"

definition restoreOpenCodeTimeout :: "(js_int \<Rightarrow> utf16) \<Rightarrow> utf16 \<Rightarrow> js_int \<Rightarrow> utf16" where
  "restoreOpenCodeTimeout fmt display ms =
     (let notice = lit ''Timed out after '' @ fmt ms @ lit ''ms.'' @ [nl];
          progress = (if ends_with notice display
            then (let s = take (length display - length notice) display in if ends_with [nl] s then butlast s else s)
            else display)
      in (if progress = [] then lit ''(no output)'' else progress) @ [nl, nl] @ OPEN_TAG @ [nl]
           @ TERMINATED @ fmt ms @ lit '' ms.'' @ [nl] @ CLOSE_TAG)"

text \<open>\<open>/^<shell_metadata>\r?\nshell tool terminated command after exceeding timeout (\d+) ms\./\<close>\<close>

definition timeout_header :: "utf16 \<Rightarrow> utf16 option" where
  "timeout_header s =
     (if \<not> starts_with OPEN_TAG s then None
      else let r = drop (length OPEN_TAG) s; r = (if starts_with [13, nl] r then tl r else r) in
        if \<not> starts_with (nl # TERMINATED) r then None
        else let t = drop (Suc (length TERMINATED)) r; d = takeWhile is_digit t in
          if d \<noteq> [] \<and> starts_with (lit '' ms.'') (drop (length d) t) then Some d else None)"

definition parseOpenCodeTimeout :: "utf16 \<Rightarrow> (utf16 \<times> js_int) option" where
  "parseOpenCodeTimeout out =
     (case lastIndexOf out CLOSE_TAG (length out) of None \<Rightarrow> None
      | Some closeAt \<Rightarrow>
          (if js_trim (drop (closeAt + length CLOSE_TAG) out) \<noteq> [] then None
           else case lastIndexOf out OPEN_TAG closeAt of None \<Rightarrow> None
             | Some openAt \<Rightarrow>
                 (case timeout_header (take (closeAt - openAt) (drop openAt out)) of None \<Rightarrow> None
                  | Some d \<Rightarrow> Some (withoutMarker out openAt, js_number d))))"

section \<open>Outcomes\<close>

definition background_outcome_of :: "shell_policy option \<Rightarrow> nat \<Rightarrow> utf16 option list \<Rightarrow> shell_outcome option" where
  "background_outcome_of policy waitMs vs =
     (let sid = js_number (the (vs ! 0)); pid = (case vs ! 1 of None \<Rightarrow> sid | Some v \<Rightarrow> js_number v) in
      if js_safe pid \<and> (case pid of JsInt p \<Rightarrow> 0 < p \<and> p \<le> 0xffffffff | _ \<Rightarrow> False)
      then Some (Backgrounded \<lparr>shellId = sid, bg_pid = pid,
        bg_command = (case policy of None \<Rightarrow> [] | Some p \<Rightarrow> pol_command p),
        bg_workingDirectory = (case policy of None \<Rightarrow> [] | Some p \<Rightarrow> workingDirectory p),
        msToWait = waitMs, outputFile = (if vs ! 1 \<noteq> None then vs ! 2 else None)\<rparr>)
      else None)"

text \<open>The largest marker index, \<open>-1\<close> standing for an absent one.\<close>

definition marker_index :: "(nat \<times> utf16 option list) option \<Rightarrow> int" where
  "marker_index m = (case m of None \<Rightarrow> -1 | Some (k, _) \<Rightarrow> int k)"

definition parseSoftBackgroundOutcome :: "utf16 \<Rightarrow> shell_policy option \<Rightarrow> (utf16 \<times> shell_outcome) option" where
  "parseSoftBackgroundOutcome out policy =
     (let background = lastPrivateMarker out [BACKGROUND_MARKER] handoff_regex;
          timeout = lastPrivateMarker out [TIMEOUT_MARKER] digits_regex;
          ended = lastPrivateMarker out [EXIT_MARKER] exit_regex;
          finalIndex = max (marker_index background) (max (marker_index timeout) (marker_index ended));
          handed = (case background of
              Some (k, vs) \<Rightarrow>
                (if int k = finalIndex
                 then map_option (Pair (withoutPrivateMarker out k))
                   (background_outcome_of policy (case policy of None \<Rightarrow> 0 | Some p \<Rightarrow> timeoutMs p) vs)
                 else None)
            | None \<Rightarrow> None)
      in case handed of Some r \<Rightarrow> Some r
         | None \<Rightarrow>
             (case timeout of
                Some (k, vs) \<Rightarrow>
                  (if int k = finalIndex then Some (withoutPrivateMarker out k, TimeoutAfter (js_number (the (vs ! 0))))
                   else (case ended of
                      Some (k, vs) \<Rightarrow>
                        (if int k = finalIndex then Some (withoutPrivateMarker out k, ExitCode (js_number (the (vs ! 0)))) else None)
                    | None \<Rightarrow> None))
              | None \<Rightarrow>
                  (case ended of
                     Some (k, vs) \<Rightarrow>
                       (if int k = finalIndex then Some (withoutPrivateMarker out k, ExitCode (js_number (the (vs ! 0)))) else None)
                   | None \<Rightarrow> None)))"

definition parseBackgroundSpawnOutcome :: "utf16 \<Rightarrow> shell_policy option \<Rightarrow> (utf16 \<times> shell_outcome) option" where
  "parseBackgroundSpawnOutcome out policy =
     (case lastPrivateMarker out [BACKGROUND_SHELL_MARKER] handoff_regex of None \<Rightarrow> None
      | Some (k, vs) \<Rightarrow>
          (let finished = lastPrivateMarker out [BACKGROUND_MARKER, TIMEOUT_MARKER, EXIT_MARKER] line_regex in
           if int k < marker_index finished then None
           else map_option (Pair (withoutPrivateMarker out k)) (background_outcome_of policy 0 vs)))"

definition sanitizeCursorShellDisplayOutput ::
  "(js_int \<Rightarrow> utf16) \<Rightarrow> utf16 \<Rightarrow> shell_policy option \<Rightarrow> shell_outcome option \<Rightarrow> utf16" where
  "sanitizeCursorShellDisplayOutput fmt out policy capturedOutcome =
     (let soft = parseSoftBackgroundOutcome out policy;
          spawn = (if (case policy of None \<Rightarrow> False | Some p \<Rightarrow> backgroundSpawn p)
            then (case parseBackgroundSpawnOutcome out policy of Some r \<Rightarrow> Some r | None \<Rightarrow> soft) else None);
          wrapper = (if (case policy of None \<Rightarrow> False | Some p \<Rightarrow> timeoutBehavior p = CURSOR_TIMEOUT_BACKGROUND)
            then soft else None)
      in case spawn of Some (clean, oc) \<Rightarrow> formatShellOutcomeDisplay fmt clean oc
         | None \<Rightarrow>
             (case wrapper of Some (clean, oc) \<Rightarrow> formatShellOutcomeDisplay fmt clean oc
              | None \<Rightarrow>
                  (case (if (case capturedOutcome of None \<Rightarrow> True | Some (TimeoutAfter _) \<Rightarrow> True | _ \<Rightarrow> False)
                         then parseOpenCodeTimeout out else None) of
                     Some (clean, ms) \<Rightarrow> formatShellOutcomeDisplay fmt clean (TimeoutAfter ms)
                   | None \<Rightarrow> out)))"

section \<open>What the scan finds\<close>

text \<open>A match lies within one line.\<close>

definition line_bound :: "regex \<Rightarrow> bool" where
  "line_bound re \<longleftrightarrow> (\<forall>s vs n. re s = Some (vs, n) \<longrightarrow> 0 < n \<and> n \<le> length s \<and> nl \<notin> set (take n s))"

lemma match_here_start:
  assumes "match_here re out i = Some (k, vs, n)"
  shows "re (drop k out) = Some (vs, n)" and "k = 0 \<and> i = 0 \<or> 0 < k \<and> i < k \<and> k \<le> length out \<and> out ! (k - 1) = nl"
    and "k = Suc i \<or> k = i \<or> k = i + 2 \<and> out ! i = 13"
  using assms
  by (auto simp: match_here_def starts_with_at starts_with_at_0 less_Suc_eq nl_def split: option.splits if_splits)

lemma exec_all_quiet:
  assumes "\<And>k. m < k \<Longrightarrow> k \<le> length out \<Longrightarrow> out ! (k - 1) = nl \<Longrightarrow> re (drop k out) = None" and "m \<le> i" "0 < i"
  shows "exec_all re out i last_match = last_match"
  using assms(2, 3)
proof (induction "Suc (length out) - i" arbitrary: i rule: less_induct)
  case less
  have n: "match_here re out i = None"
  proof (rule ccontr)
    assume "match_here re out i \<noteq> None"
    then obtain k vs n where m: "match_here re out i = Some (k, vs, n)" by auto
    then show False using match_here_start [OF m] assms(1) [of k] less.prems by auto
  qed
  then show ?case using less.hyps [of "i + 1"] less.prems by (subst exec_all.simps) (auto simp: not_less)
qed

lemma exec_all_below:
  assumes "\<And>k. m \<le> k \<Longrightarrow> k \<le> length out \<Longrightarrow> k = 0 \<or> out ! (k - 1) = nl \<Longrightarrow> re (drop k out) = None"
    and "marker_index last_match < int m"
  shows "marker_index (exec_all re out i last_match) < int m"
  using assms(2)
proof (induction "Suc (length out) - i" arbitrary: i last_match rule: less_induct)
  case less
  show ?case
  proof (cases "match_here re out i")
    case None
    then show ?thesis using less.hyps [of "i + 1" last_match] less.prems by (subst exec_all.simps) (auto simp: not_less)
  next
    case (Some r)
    then obtain k vs n where m: "match_here re out i = Some (k, vs, n)" by (cases r) auto
    have "k < m" if "i \<le> length out" using match_here_start [OF m] assms(1) [of k] that by (cases "m \<le> k") auto
    then show ?thesis
      using less.hyps [of "max (i + 1) (k + n)" "Some (k, vs)"] less.prems m
      by (subst exec_all.simps) (auto simp: not_less marker_index_def)
  qed
qed

text \<open>The last line start at which the pattern matches is the one the loop keeps.\<close>

lemma exec_all_last:
  assumes re: "line_bound re" and B: "re B = Some (vs, n)" and out: "out = A @ nl # B"
    and later: "\<And>k. Suc (length A) < k \<Longrightarrow> k \<le> length out \<Longrightarrow> out ! (k - 1) = nl \<Longrightarrow> re (drop k out) = None"
    and "i \<le> length A"
  shows "exec_all re out i last_match = Some (Suc (length A), vs)"
  using assms(5)
proof (induction "Suc (length out) - i" arbitrary: i last_match rule: less_induct)
  case less
  have at: "out ! length A = nl" "drop (Suc (length A)) out = B" "length A < length out" by (simp_all add: out)
  show ?case
  proof (cases "match_here re out i")
    case None
    have "i < length A"
    proof (rule ccontr)
      assume "\<not> i < length A"
      then have "i = length A" using less.prems by simp
      then show False using None at B
        by (auto simp: match_here_def starts_with_at starts_with_at_0 less_Suc_eq Suc_le_eq nl_def split: option.splits if_splits)
    qed
    then show ?thesis using less.hyps [of "i + 1"] at None by (subst exec_all.simps) auto
  next
    case (Some r)
    then obtain k us l where m: "match_here re out i = Some (k, us, l)" by (cases r) auto
    note start = match_here_start [OF m]
    from re start(1) have l: "0 < l" "k + l \<le> length out" "nl \<notin> set (take l (drop k out))"
      unfolding line_bound_def by fastforce+
    have k: "k \<le> Suc (length A)"
      using start(3) less.prems at(1) by (cases "i = length A") (auto simp: nl_def)
    show ?thesis
    proof (cases "k = Suc (length A)")
      case True
      then have "us = vs" using start(1) B at(2) by simp
      moreover have "exec_all re out (max (i + 1) (k + l)) (Some (k, us)) = Some (k, us)"
        using later True by (intro exec_all_quiet [where m = "Suc (length A)"]) auto
      ultimately show ?thesis using True m less.prems at(3) by (subst exec_all.simps) auto
    next
      case False
      with k have "k \<le> length A" by simp
      have "k + l \<le> length A"
      proof (rule ccontr)
        assume "\<not> k + l \<le> length A"
        then have "take l (drop k out) ! (length A - k) = nl" "length A - k < length (take l (drop k out))"
          using \<open>k \<le> length A\<close> at l by auto
        then show False using l(3) nth_mem by metis
      qed
      moreover have "i + 1 \<le> length A" using start(2, 3) \<open>k \<le> length A\<close> l(1) calculation by auto
      ultimately show ?thesis using less.hyps [of "max (i + 1) (k + l)"] m at(3) by (subst exec_all.simps) auto
    qed
  qed
qed

section \<open>The launcher's sentinel decides\<close>

text \<open>What a launcher prints after the command's output, each on a line of its own.\<close>

datatype launcher_line = PrintsExit nat | PrintsTimeout nat | PrintsHandoff nat utf16 | PrintsManaged nat nat utf16

fun printed :: "launcher_line \<Rightarrow> utf16" where
  "printed (PrintsExit code) = EXIT_MARKER @ decimal code"
| "printed (PrintsTimeout ms) = TIMEOUT_MARKER @ decimal ms"
| "printed (PrintsHandoff pid log) = BACKGROUND_MARKER @ decimal pid @ colon # log"
| "printed (PrintsManaged sid pid file) = BACKGROUND_MARKER @ decimal sid @ colon # decimal pid @ colon # file"

text \<open>A path on one line; a log path without a managed terminal does not start with a digit.\<close>

definition path_ok :: "utf16 \<Rightarrow> bool" where "path_ok f \<longleftrightarrow> f \<noteq> [] \<and> list_all in_line f"

fun line_ok :: "launcher_line \<Rightarrow> bool" where
  "line_ok (PrintsExit code) \<longleftrightarrow> code < 2 ^ 53"
| "line_ok (PrintsTimeout ms) \<longleftrightarrow> ms < 2 ^ 53"
| "line_ok (PrintsHandoff pid log) \<longleftrightarrow> 0 < pid \<and> pid \<le> 0xffffffff \<and> path_ok log \<and> \<not> is_digit (hd log)"
| "line_ok (PrintsManaged sid pid file) \<longleftrightarrow> sid < 2 ^ 53 \<and> 0 < pid \<and> pid \<le> 0xffffffff \<and> path_ok file"

fun reported :: "shell_policy \<Rightarrow> launcher_line \<Rightarrow> shell_outcome" where
  "reported policy (PrintsExit code) = ExitCode (JsInt (int code))"
| "reported policy (PrintsTimeout ms) = TimeoutAfter (JsInt (int ms))"
| "reported policy (PrintsHandoff pid log) = Backgrounded \<lparr>shellId = JsInt (int pid), bg_pid = JsInt (int pid),
     bg_command = pol_command policy, bg_workingDirectory = workingDirectory policy, msToWait = timeoutMs policy, outputFile = None\<rparr>"
| "reported policy (PrintsManaged sid pid file) = Backgrounded \<lparr>shellId = JsInt (int sid), bg_pid = JsInt (int pid),
     bg_command = pol_command policy, bg_workingDirectory = workingDirectory policy, msToWait = timeoutMs policy, outputFile = Some file\<rparr>"

text \<open>Text the host shell may add afterwards: no line of it starts with a sentinel.\<close>

definition quiet_tail :: "utf16 \<Rightarrow> bool" where
  "quiet_tail t \<longleftrightarrow> (\<forall>l \<in> set (split_nl t). \<forall>m \<in> {BACKGROUND_MARKER, TIMEOUT_MARKER, EXIT_MARKER}. \<not> starts_with m l)"

definition within_line :: "regex \<Rightarrow> bool" where
  "within_line val \<longleftrightarrow> (\<forall>s vs n. val s = Some (vs, n) \<longrightarrow> n \<le> length s \<and> nl \<notin> set (take n s))"

lemma take_while_parts:
  "length (takeWhile P s) \<le> length s" "take (length (takeWhile P s)) s = takeWhile P s"
  by (simp_all add: length_takeWhile_le takeWhile_eq_take [symmetric])

lemma no_nl_digits: "nl \<notin> set (takeWhile is_digit s)" "nl \<notin> set (takeWhile in_line s)"
  by (auto simp: in_line_def dest!: set_takeWhileD digit_not_special)

lemma within_line_digits: "within_line digits_regex"
  by (auto simp: within_line_def digits_regex_def Let_def take_while_parts no_nl_digits split: if_splits)

lemma within_line_exit: "within_line exit_regex"
proof -
  have "s = 45 # tl s" if "starts_with (lit ''-'') s" for s
    using that by (cases s) (simp_all add: starts_with_def lit_def)
  then have m: "starts_with (lit ''-'') s \<Longrightarrow> s = (45 :: 16 word) # tl s" for s .
  show ?thesis
    unfolding within_line_def
  proof (intro allI impI)
    fix s vs n assume e: "exit_regex s = Some (vs, n)"
    show "n \<le> length s \<and> nl \<notin> set (take n s)"
    proof (cases "starts_with (lit ''-'') s")
      case True
      obtain t where s: "s = 45 # t" using m [OF True] by metis
      have "n = Suc (length (takeWhile is_digit t))"
        using e True by (auto simp: exit_regex_def Let_def s lit_def split: if_splits)
      then show ?thesis by (simp add: s take_while_parts no_nl_digits nl_def) (metis nl_def no_nl_digits(1))
    next
      case False
      then have "n = length (takeWhile is_digit s)"
        using e by (auto simp: exit_regex_def Let_def split: if_splits)
      then show ?thesis by (simp add: take_while_parts no_nl_digits)
    qed
  qed
qed

text \<open>The two shapes of a hand-off's value.\<close>

lemma handoff_cases:
  assumes "handoff_regex s = Some (vs, n)"
  obtains (managed) d e f q where "s = d @ colon # e @ colon # q" "f = takeWhile in_line q" "list_all is_digit d" "list_all is_digit e"
      "vs = [Some d, Some e, Some f]" "n = length d + 1 + length e + 1 + length f"
    | (plain) d f q where "s = d @ colon # q" "f = takeWhile in_line q" "list_all is_digit d"
      "vs = [Some d, None, Some f]" "n = length d + 1 + length f"
proof -
  define d where "d = takeWhile is_digit s"
  define r where "r = tl (drop (length d) s)"
  define e where "e = takeWhile is_digit r"
  define q where "q = tl (drop (length e) r)"
  have d: "d \<noteq> []" "starts_with [colon] (drop (length d) s)"
    using assms by (auto simp: handoff_regex_def Let_def d_def split: if_splits)
  have s: "s = d @ colon # r"
    using d(2) takeWhile_eq_take [of is_digit s] append_take_drop_id [of "length d" s]
    by (cases "drop (length d) s") (auto simp: starts_with_def r_def d_def)
  have dig: "list_all is_digit d" "list_all is_digit e"
    by (auto simp: d_def e_def list_all_iff dest: set_takeWhileD)
  consider "vs = [Some d, Some e, Some (takeWhile in_line q)]" "n = length d + 1 + length e + 1 + length (takeWhile in_line q)"
      "starts_with [colon] (drop (length e) r)"
    | "vs = [Some d, None, Some (takeWhile in_line r)]" "n = length d + 1 + length (takeWhile in_line r)"
    using assms by (auto simp: handoff_regex_def Let_def d_def e_def r_def q_def split: if_splits)
  then show ?thesis
  proof cases
    case 1
    have "r = e @ colon # q"
      using 1(3) takeWhile_eq_take [of is_digit r] append_take_drop_id [of "length e" r]
      by (cases "drop (length e) r") (auto simp: starts_with_def q_def e_def)
    then show ?thesis using managed [of d e q] s dig 1 by simp
  next
    case 2
    then show ?thesis using plain [of d r] s dig by simp
  qed
qed

lemma digits_no_nl: "list_all is_digit d \<Longrightarrow> nl \<notin> set d"
  by (auto simp: list_all_iff dest: digit_not_special)

lemma within_line_handoff: "within_line handoff_regex"
  unfolding within_line_def
proof (intro allI impI)
  fix s vs n assume "handoff_regex s = Some (vs, n)"
  then show "n \<le> length s \<and> nl \<notin> set (take n s)"
  proof (cases rule: handoff_cases)
    case (managed d e f q)
    then have "take n s = d @ colon # e @ colon # f" by (simp add: take_while_parts)
    then show ?thesis using managed by (simp add: take_while_parts digits_no_nl no_nl_digits) (simp add: colon_def nl_def)
  next
    case (plain d f q)
    then have "take n s = d @ colon # f" by (simp add: take_while_parts)
    then show ?thesis using plain by (simp add: take_while_parts digits_no_nl no_nl_digits) (simp add: colon_def nl_def)
  qed
qed

lemma line_bound_marker:
  assumes "within_line val" "\<forall>m \<in> set ms. m \<noteq> [] \<and> nl \<notin> set m"
  shows "line_bound (marker_regex ms val)"
  unfolding line_bound_def
proof (intro allI impI)
  fix s vs n assume "marker_regex ms val s = Some (vs, n)"
  then obtain m k where m: "m \<in> set ms" "starts_with m s" "val (drop (length m) s) = Some (vs, k)" "n = length m + k"
    by (auto simp: marker_regex_def find_Some_iff split: option.splits dest!: nth_mem)
  then have s: "s = m @ drop (length m) s" by (simp add: starts_withE)
  have "k \<le> length (drop (length m) s)" "nl \<notin> set (take k (drop (length m) s))"
    using assms(1) m(3) unfolding within_line_def by blast+
  moreover have "take n s = m @ take k (drop (length m) s)"
    by (subst s) (simp add: m(4))
  moreover have "length m \<le> length s" using s by (metis length_append le_add1)
  ultimately show "0 < n \<and> n \<le> length s \<and> nl \<notin> set (take n s)"
    using assms(2) m(1, 4) by auto
qed

lemma markers_plain:
  "BACKGROUND_MARKER \<noteq> []" "EXIT_MARKER \<noteq> []" "TIMEOUT_MARKER \<noteq> []"
  "nl \<notin> set BACKGROUND_MARKER" "nl \<notin> set EXIT_MARKER" "nl \<notin> set TIMEOUT_MARKER"
  by (simp_all add: BACKGROUND_MARKER_def EXIT_MARKER_def TIMEOUT_MARKER_def lit_def nl_def)

lemma markers_differ:
  "\<not> starts_with BACKGROUND_MARKER (EXIT_MARKER @ s)" "\<not> starts_with BACKGROUND_MARKER (TIMEOUT_MARKER @ s)"
  "\<not> starts_with EXIT_MARKER (BACKGROUND_MARKER @ s)" "\<not> starts_with EXIT_MARKER (TIMEOUT_MARKER @ s)"
  "\<not> starts_with TIMEOUT_MARKER (BACKGROUND_MARKER @ s)" "\<not> starts_with TIMEOUT_MARKER (EXIT_MARKER @ s)"
  by (simp_all add: BACKGROUND_MARKER_def EXIT_MARKER_def TIMEOUT_MARKER_def lit_def starts_with_def)

lemma later_quiet:
  assumes t: "quiet_tail t" and m: "m \<in> {BACKGROUND_MARKER, TIMEOUT_MARKER, EXIT_MARKER}" and B: "nl \<notin> set B"
    and k: "Suc (length A) < k" "k \<le> length (A @ nl # B @ nl # t)" "(A @ nl # B @ nl # t) ! (k - 1) = nl"
  shows "\<not> starts_with m (drop k (A @ nl # B @ nl # t))"
proof
  assume s: "starts_with m (drop k (A @ nl # B @ nl # t))"
  let ?C = "A @ nl # B"
  have "length ?C < k"
  proof (rule ccontr)
    assume "\<not> length ?C < k"
    then have "(A @ nl # B @ nl # t) ! (k - 1) = B ! (k - 2 - length A)" "k - 2 - length A < length B"
      using k(1) by (auto simp: nth_append nth_Cons')
    then show False using B k(3) nth_mem by metis
  qed
  define j where "j = k - Suc (length ?C)"
  have kj: "k = Suc (length ?C) + j" using \<open>length ?C < k\<close> by (simp add: j_def)
  have d: "drop k (A @ nl # B @ nl # t) = drop j t"
    unfolding kj by simp
  have "take j t = [] \<or> last (take j t) = nl"
  proof (cases "j = 0")
    case False
    then have "t ! (j - 1) = nl" "j \<le> length t"
      using k(2, 3) unfolding kj by (auto simp: nth_append nth_Cons' split: if_splits)
    then show ?thesis using False by (cases "t = []") (auto simp: last_conv_nth)
  qed simp
  from line_start_in_split [OF this, of "drop j t"] have "hd (split_nl (drop j t)) \<in> set (split_nl t)" by simp
  moreover have "starts_with m (hd (split_nl (drop j t)))"
    using hd_split [of m] m s markers_plain unfolding d by auto
  ultimately show False using t m unfolding quiet_tail_def by blast
qed

lemma sentinel_last:
  assumes "quiet_tail t" "m \<in> {BACKGROUND_MARKER, TIMEOUT_MARKER, EXIT_MARKER}" "nl \<notin> set x" "within_line val"
    and v: "val (x @ nl # t) = Some (vs, n)"
  shows "lastPrivateMarker (p @ nl # (m @ x) @ nl # t) [m] val = Some (Suc (length p), vs)"
  unfolding lastPrivateMarker_def
proof (rule exec_all_last [where B = "(m @ x) @ nl # t"])
  have m: "m \<noteq> []" "nl \<notin> set m" using assms(2) markers_plain by auto
  then show "line_bound (marker_regex [m] val)" using assms(4) by (simp add: line_bound_marker)
  show "marker_regex [m] val ((m @ x) @ nl # t) = Some (vs, length m + n)"
    by (simp add: marker_regex_def v)
  fix k assume "Suc (length p) < k" "k \<le> length (p @ nl # (m @ x) @ nl # t)" "(p @ nl # (m @ x) @ nl # t) ! (k - 1) = nl"
  then have "\<not> starts_with m (drop k (p @ nl # (m @ x) @ nl # t))"
    using later_quiet [OF assms(1, 2), of "m @ x"] assms(3) m(2) by auto
  then show "marker_regex [m] val (drop k (p @ nl # (m @ x) @ nl # t)) = None"
    by (simp add: marker_regex_def)
qed simp_all

lemma sentinel_earlier:
  assumes "quiet_tail t" "m \<in> {BACKGROUND_MARKER, TIMEOUT_MARKER, EXIT_MARKER}" "nl \<notin> set y"
    and "\<not> starts_with m (y @ nl # t)"
  shows "marker_index (lastPrivateMarker (p @ nl # y @ nl # t) [m] val) < int (Suc (length p))"
  unfolding lastPrivateMarker_def
proof (rule exec_all_below)
  fix k assume k: "Suc (length p) \<le> k" "k \<le> length (p @ nl # y @ nl # t)" "k = 0 \<or> (p @ nl # y @ nl # t) ! (k - 1) = nl"
  have "\<not> starts_with m (drop k (p @ nl # y @ nl # t))"
  proof (cases "k = Suc (length p)")
    case True
    then show ?thesis using assms(4) by simp
  next
    case False
    then show ?thesis using later_quiet [OF assms(1-3)] k by auto
  qed
  then show "marker_regex [m] val (drop k (p @ nl # y @ nl # t)) = None" by (simp add: marker_regex_def)
qed (simp add: marker_index_def)

section \<open>Values on printed lines\<close>

lemma takeWhile_decimal: "s = [] \<or> \<not> is_digit (hd s) \<Longrightarrow> takeWhile is_digit (decimal n @ s) = decimal n"
  using decimal_digits [of n] by (cases s) (auto simp: list_all_iff takeWhile_append2)

lemma hd_decimal: "is_digit (hd (decimal n))"
  using decimal_digits [of n] by (cases "decimal n") auto

lemma specials: "\<not> is_digit nl" "\<not> is_digit colon" "\<not> in_line nl"
  by (simp_all add: is_digit_def nl_def colon_def in_line_def)

lemma no_sign: "\<not> starts_with (lit ''-'') (decimal n @ s)"
  using hd_decimal [of n] by (cases "decimal n") (auto simp: starts_with_def lit_def is_digit_def)

lemma js_number_decimal [simp]: "n < 2 ^ 53 \<Longrightarrow> js_number (decimal n) = JsInt (int n)"
  using no_sign [of n "[]"] by (simp add: js_number_def js_round_exact)

lemma digits_printed: "digits_regex (decimal n @ nl # t) = Some ([Some (decimal n)], length (decimal n))"
  by (simp add: digits_regex_def Let_def takeWhile_decimal specials)

lemma exit_printed: "exit_regex (decimal n @ nl # t) = Some ([Some (decimal n)], length (decimal n))"
  by (simp add: exit_regex_def Let_def takeWhile_decimal specials no_sign)

lemma takeWhile_path: "path_ok f \<Longrightarrow> takeWhile in_line (f @ nl # t) = f \<and> f \<noteq> [] \<and> nl \<notin> set f"
  using specials by (auto simp: path_ok_def list_all_iff takeWhile_append2)

lemma single_start [simp]: "starts_with [c] (d # s) \<longleftrightarrow> d = c"
  by (auto simp: starts_with_def)

lemma handoff_printed:
  assumes "path_ok f" "\<not> is_digit (hd f)"
  shows "handoff_regex ((decimal n @ colon # f) @ nl # t) = Some ([Some (decimal n), None, Some f], length (decimal n) + 1 + length f)"
  using takeWhile_path [OF assms(1), of t] assms(2)
  by (cases f) (simp_all add: handoff_regex_def Let_def takeWhile_decimal specials)

lemma managed_printed:
  assumes "path_ok f"
  shows "handoff_regex ((decimal n @ colon # decimal k @ colon # f) @ nl # t)
    = Some ([Some (decimal n), Some (decimal k), Some f], length (decimal n) + 1 + length (decimal k) + 1 + length f)"
  using takeWhile_path [OF assms(1), of t]
  by (simp add: handoff_regex_def Let_def takeWhile_decimal specials)

lemma decimal_no_nl [simp]: "nl \<notin> set (decimal n)"
  using decimal_digits digits_no_nl by blast

lemma strip_launcher: "withoutPrivateMarker (p @ nl # s) (Suc (length p)) = p"
  by (simp add: withoutPrivateMarker_def Let_def ends_with_def)

lemma soft_exit:
  assumes "quiet_tail t" "code < 2 ^ 53"
  shows "parseSoftBackgroundOutcome (p @ nl # printed (PrintsExit code) @ nl # t) policy = Some (p, ExitCode (JsInt (int code)))"
proof -
  let ?o = "p @ nl # (EXIT_MARKER @ decimal code) @ nl # t"
  have e: "lastPrivateMarker ?o [EXIT_MARKER] exit_regex = Some (Suc (length p), [Some (decimal code)])"
    using assms(1) by (intro sentinel_last) (auto simp: within_line_exit exit_printed)
  have b: "marker_index (lastPrivateMarker ?o [BACKGROUND_MARKER] handoff_regex) < int (Suc (length p))"
    and t: "marker_index (lastPrivateMarker ?o [TIMEOUT_MARKER] digits_regex) < int (Suc (length p))"
    using assms(1) markers_plain by (intro sentinel_earlier; simp add: markers_differ)+
  show ?thesis
    using e b t assms(2)
    by (auto simp: parseSoftBackgroundOutcome_def Let_def marker_index_def strip_launcher split: option.splits)
qed

lemma soft_timeout:
  assumes "quiet_tail t" "ms < 2 ^ 53"
  shows "parseSoftBackgroundOutcome (p @ nl # printed (PrintsTimeout ms) @ nl # t) policy = Some (p, TimeoutAfter (JsInt (int ms)))"
proof -
  let ?o = "p @ nl # (TIMEOUT_MARKER @ decimal ms) @ nl # t"
  have e: "lastPrivateMarker ?o [TIMEOUT_MARKER] digits_regex = Some (Suc (length p), [Some (decimal ms)])"
    using assms(1) by (intro sentinel_last) (auto simp: within_line_digits digits_printed)
  have b: "marker_index (lastPrivateMarker ?o [BACKGROUND_MARKER] handoff_regex) < int (Suc (length p))"
    and t: "marker_index (lastPrivateMarker ?o [EXIT_MARKER] exit_regex) < int (Suc (length p))"
    using assms(1) markers_plain by (intro sentinel_earlier; simp add: markers_differ)+
  show ?thesis
    using e b t assms(2)
    by (auto simp: parseSoftBackgroundOutcome_def Let_def marker_index_def strip_launcher split: option.splits)
qed

lemma soft_handoff:
  assumes "quiet_tail t" "nl \<notin> set x" "handoff_regex (x @ nl # t) = Some (vs, n)"
    and oc: "background_outcome_of policy (case policy of None \<Rightarrow> 0 | Some p \<Rightarrow> timeoutMs p) vs = Some oc"
  shows "parseSoftBackgroundOutcome (p @ nl # (BACKGROUND_MARKER @ x) @ nl # t) policy = Some (p, oc)"
proof -
  let ?o = "p @ nl # (BACKGROUND_MARKER @ x) @ nl # t"
  have e: "lastPrivateMarker ?o [BACKGROUND_MARKER] handoff_regex = Some (Suc (length p), vs)"
    using assms(1-3) by (intro sentinel_last) (auto simp: within_line_handoff)
  have b: "marker_index (lastPrivateMarker ?o [TIMEOUT_MARKER] digits_regex) < int (Suc (length p))"
    and t: "marker_index (lastPrivateMarker ?o [EXIT_MARKER] exit_regex) < int (Suc (length p))"
    using assms(1, 2) markers_plain by (intro sentinel_earlier; simp add: markers_differ)+
  have "max (marker_index (Some (Suc (length p), vs))) (max (marker_index (lastPrivateMarker ?o [TIMEOUT_MARKER] digits_regex))
      (marker_index (lastPrivateMarker ?o [EXIT_MARKER] exit_regex))) = int (Suc (length p))"
    using b t by (simp add: marker_index_def)
  then show ?thesis
    using oc unfolding parseSoftBackgroundOutcome_def e Let_def by (simp add: strip_launcher)
qed

text \<open>Whatever a command printed, sentinels included, the line its launcher prints last decides the
  outcome: the exit code, timeout or hand-off is read back with its numbers and paths, the command's own
  output is kept to the last code unit, and what the host shell adds after that line is dropped.\<close>

lemma launcher_sentinel_decides:
  assumes "line_ok l" "quiet_tail t"
  shows "parseSoftBackgroundOutcome (p @ nl # printed l @ nl # t) (Some policy) = Some (p, reported policy l)"
proof (cases l)
  case (PrintsExit code)
  then show ?thesis using assms soft_exit by simp
next
  case (PrintsTimeout ms)
  then show ?thesis using assms soft_timeout by simp
next
  case (PrintsHandoff pid log)
  have "background_outcome_of (Some policy) (timeoutMs policy) [Some (decimal pid), None, Some log] = Some (reported policy l)"
    using assms(1) by (simp add: PrintsHandoff background_outcome_of_def Let_def)
  moreover have "nl \<notin> set (decimal pid @ colon # log)"
    using takeWhile_path [of log] assms(1) by (simp add: PrintsHandoff) (simp add: colon_def nl_def)
  ultimately show ?thesis
    using soft_handoff [OF assms(2) _ handoff_printed [of log pid t], of "Some policy"] assms(1) by (simp add: PrintsHandoff)
next
  case (PrintsManaged sid pid path)
  have "background_outcome_of (Some policy) (timeoutMs policy) [Some (decimal sid), Some (decimal pid), Some path] = Some (reported policy l)"
    using assms(1) by (simp add: PrintsManaged background_outcome_of_def Let_def)
  moreover have "nl \<notin> set (decimal sid @ colon # decimal pid @ colon # path)"
    using takeWhile_path [of path] assms(1) by (simp add: PrintsManaged) (simp add: colon_def nl_def)
  ultimately show ?thesis
    using soft_handoff [OF assms(2) _ managed_printed [of path sid pid t], of "Some policy"] assms(1) by (simp add: PrintsManaged)
qed

section \<open>Timeouts survive a replay\<close>

lemma decimal_no_lt: "60 \<notin> set (decimal n)"
  using decimal_digits [of n] by (auto simp: list_all_iff is_digit_def)

lemma tags: "OPEN_TAG = 60 # lit ''shell_metadata>''" "CLOSE_TAG = 60 # lit ''/shell_metadata>''"
  "60 \<notin> set (lit ''shell_metadata>'')" "60 \<notin> set TERMINATED" "60 \<notin> set (lit '' ms.'')"
  by (simp_all add: OPEN_TAG_def CLOSE_TAG_def TERMINATED_def lit_def)

text \<open>The host's block for a timeout of \<open>ms\<close> milliseconds, after the output \<open>p\<close>.\<close>

definition timeout_block :: "utf16 \<Rightarrow> nat \<Rightarrow> utf16" where
  "timeout_block p ms = p @ [nl, nl] @ OPEN_TAG @ [nl] @ TERMINATED @ decimal ms @ lit '' ms.'' @ [nl] @ CLOSE_TAG"

lemma timeout_header_block:
  "timeout_header (OPEN_TAG @ nl # TERMINATED @ decimal ms @ lit '' ms.'' @ [nl]) = Some (decimal ms)"
proof -
  have "takeWhile is_digit (decimal ms @ lit '' ms.'' @ [nl]) = decimal ms"
    by (rule takeWhile_decimal) (simp add: lit_def is_digit_def)
  then show ?thesis by (simp add: timeout_header_def Let_def) (simp add: starts_with_def nl_def)
qed

lemma parse_timeout_block:
  assumes "ms < 2 ^ 53"
  shows "parseOpenCodeTimeout (timeout_block p ms) = Some (if p = lit ''(no output)'' then [] else p, JsInt (int ms))"
proof -
  let ?b = "[nl] @ TERMINATED @ decimal ms @ lit '' ms.'' @ [nl]"
  let ?a = "p @ [nl, nl]"
  have o: "timeout_block p ms = ?a @ OPEN_TAG @ ?b @ CLOSE_TAG" by (simp add: timeout_block_def)
  have c: "lastIndexOf (timeout_block p ms) CLOSE_TAG (length (timeout_block p ms)) = Some (length (?a @ OPEN_TAG @ ?b))"
    using lastIndexOf_end [of "?a @ OPEN_TAG @ ?b" CLOSE_TAG] by (simp add: o)
  have "\<not> starts_with OPEN_TAG CLOSE_TAG" by (simp add: OPEN_TAG_def CLOSE_TAG_def starts_with_def lit_def)
  then have op: "lastIndexOf (timeout_block p ms) OPEN_TAG (length (?a @ OPEN_TAG @ ?b)) = Some (length ?a)"
    unfolding o tags(1)
    by (intro lastIndexOf_mid) (simp_all add: tags(3-5) decimal_no_lt nl_def)
  have d: "drop (length (?a @ OPEN_TAG @ ?b) + length CLOSE_TAG) (timeout_block p ms) = []" by (simp add: o)
  have h: "take (length (?a @ OPEN_TAG @ ?b) - length ?a) (drop (length ?a) (timeout_block p ms)) = OPEN_TAG @ ?b"
    by (simp add: o)
  have w: "withoutMarker (timeout_block p ms) (length ?a) = (if p = lit ''(no output)'' then [] else p)"
    by (simp add: withoutMarker_def Let_def o ends_with_def)
  show ?thesis
    unfolding parseOpenCodeTimeout_def c option.case d op h
    using timeout_header_block [of ms] w assms by (simp add: js_trim_def)
qed

text \<open>The output without its last line feed, and without the placeholder for an empty one.\<close>

definition chomped :: "utf16 \<Rightarrow> utf16" where
  "chomped clean =
     (let s = (if ends_with [nl] clean then butlast clean else clean) in if s = lit ''(no output)'' then [] else s)"

lemma ends_append [simp]: "ends_with p (s @ p)"
  by (simp add: ends_with_def)

lemma ends_nl_iff: "ends_with [nl] s \<longleftrightarrow> s \<noteq> [] \<and> last s = nl"
  by (cases s rule: rev_cases) (auto simp: ends_with_def)

lemma no_output: "lit ''(no output)'' \<noteq> []" "[] \<noteq> lit ''(no output)''"
  by (simp_all add: lit_def)

lemma placeholder:
  "(if (if s = [] then lit ''(no output)'' else s) = lit ''(no output)'' then [] else if s = [] then lit ''(no output)'' else s)
    = (if s = lit ''(no output)'' then [] else s)"
  using no_output by (cases "s = []") simp_all

lemma restore_display:
  assumes "formats_safe fmt" "ms < 2 ^ 53"
  shows "restoreOpenCodeTimeout fmt (formatShellOutcomeDisplay fmt clean (TimeoutAfter (JsInt (int ms)))) (JsInt (int ms))
    = timeout_block (let s = (if ends_with [nl] clean then butlast clean else clean) in if s = [] then lit ''(no output)'' else s) ms"
proof -
  define notice where "notice = lit ''Timed out after '' @ decimal ms @ lit ''ms.'' @ [nl]"
  define s where "s = (if clean = [] \<or> ends_with [nl] clean then clean else clean @ [nl])"
  have f: "fmt (JsInt (int ms)) = decimal ms" using assms by (simp add: formats_safe_def)
  have disp: "formatShellOutcomeDisplay fmt clean (TimeoutAfter (JsInt (int ms))) = s @ notice"
    by (simp add: formatShellOutcomeDisplay_def outcome_notice_def f s_def notice_def)
  have "(if ends_with [nl] s then butlast s else s) = (if ends_with [nl] clean then butlast clean else clean)"
    by (auto simp: s_def ends_nl_iff)
  then show ?thesis
    unfolding restoreOpenCodeTimeout_def disp f notice_def [symmetric] by (simp add: Let_def timeout_block_def)
qed

text \<open>A timeout survives the replay of its stored display: the block rebuilt from any display parses
  as a timeout of the same length with the output shown there, short of one final line feed; unless the
  output ended with an empty line or was the placeholder, rendering it again gives the stored display.\<close>

theorem replayed_timeout_parses:
  assumes "formats_safe fmt" "ms < 2 ^ 53"
  shows "parseOpenCodeTimeout (restoreOpenCodeTimeout fmt (formatShellOutcomeDisplay fmt clean (TimeoutAfter (JsInt (int ms))))
      (JsInt (int ms))) = Some (chomped clean, JsInt (int ms))
    \<and> (ends_with [nl, nl] clean \<or> clean = [nl] \<or> clean \<in> {lit ''(no output)'', lit ''(no output)'' @ [nl]}
       \<or> formatShellOutcomeDisplay fmt (chomped clean) (TimeoutAfter (JsInt (int ms)))
           = formatShellOutcomeDisplay fmt clean (TimeoutAfter (JsInt (int ms))))"
proof
  show "parseOpenCodeTimeout (restoreOpenCodeTimeout fmt (formatShellOutcomeDisplay fmt clean (TimeoutAfter (JsInt (int ms))))
      (JsInt (int ms))) = Some (chomped clean, JsInt (int ms))"
    unfolding restore_display [OF assms] parse_timeout_block [OF assms(2)] chomped_def Let_def placeholder ..
  show "ends_with [nl, nl] clean \<or> clean = [nl] \<or> clean \<in> {lit ''(no output)'', lit ''(no output)'' @ [nl]}
       \<or> formatShellOutcomeDisplay fmt (chomped clean) (TimeoutAfter (JsInt (int ms)))
           = formatShellOutcomeDisplay fmt clean (TimeoutAfter (JsInt (int ms)))"
  proof (cases "ends_with [nl] clean")
    case True
    then obtain s where s: "clean = s @ [nl]" by (cases clean rule: rev_cases) (auto simp: ends_nl_iff)
    have "ends_with [nl, nl] clean" if "ends_with [nl] s" using that
      by (cases s rule: rev_cases) (auto simp: s ends_nl_iff ends_with_def)
    then show ?thesis
      by (cases "ends_with [nl] s") (auto simp: s chomped_def formatShellOutcomeDisplay_def outcome_notice_def split: option.splits)
  next
    case False
    then show ?thesis by (auto simp: chomped_def Let_def)
  qed
qed

section \<open>Examples\<close>

definition demo_policy :: shell_policy where
  "demo_policy = \<lparr>pol_command = lit ''make'', workingDirectory = lit ''/w'', timeoutMs = 30000, timeoutBehavior = 2,
     hardTimeoutMs = None, backgroundSpawn = False, pol_description = None, managedCommand = None,
     managedJobDirectory = None, shellPath = None\<rparr>"

theorem replayed_timeout_parses_witness:
  "formats_safe (\<lambda>i. case i of JsInt n \<Rightarrow> decimal (nat n) | _ \<Rightarrow> [])
   \<and> parseOpenCodeTimeout (restoreOpenCodeTimeout (\<lambda>i. case i of JsInt n \<Rightarrow> decimal (nat n) | _ \<Rightarrow> [])
        (formatShellOutcomeDisplay (\<lambda>i. case i of JsInt n \<Rightarrow> decimal (nat n) | _ \<Rightarrow> []) (lit ''part'')
           (TimeoutAfter (JsInt (int 500)))) (JsInt (int 500))) = Some (chomped (lit ''part''), JsInt (int 500))"
proof -
  have f: "formats_safe (\<lambda>i. case i of JsInt n \<Rightarrow> decimal (nat n) | _ \<Rightarrow> [])" by (simp add: formats_safe_def)
  show ?thesis using f replayed_timeout_parses [OF f, of 500 "lit ''part''"] by simp
qed

end
