(* ===== verification/ShellCalls.thy ===== *)
theory ShellCalls
  imports Complex_Main ShellOutcome JsonValue
begin

text \<open>
  The tables of running shell calls (\<open>src/src/shell-timeout.ts\<close>): policies, outcomes and failures by
  tool call, the launcher files prepared for them, and the gate that lets calls with the same command
  create their shells one at a time. The scripts a launcher file holds are kept symbolic; the file
  system is a parameter.
\<close>

section \<open>State\<close>

definition MAX_TRACKED_SHELL_CALLS :: nat where "MAX_TRACKED_SHELL_CALLS = 512"
definition OPENCODE_TIMEOUT_GRACE_MS :: nat where "OPENCODE_TIMEOUT_GRACE_MS = 15000"

text \<open>The script of \<open>wrapperBodyForPolicy\<close>: a managed launcher, or one built from the policy.\<close>

datatype wrapper_body = ManagedBody utf16 | BackgroundBody utf16 "utf16 option" | SoftBody shell_policy

text \<open>A wrap is known by the number of its temporary directory; the host shell defaults when none is named.\<close>

record env_wrap =
  wr_id :: nat
  wr_body :: wrapper_body
  wr_command :: utf16
  wr_shell :: "utf16 option"

record lane =
  lockedBy :: utf16
  waiters :: "utf16 list"

text \<open>What the code does outside its tables, in order: promises settled, files removed.\<close>

datatype shell_note = Granted utf16 | Cancelled utf16 | ReleasesTerminal "utf16 option" | RemovesWrap env_wrap

record shell_state =
  policies :: "(utf16, shell_policy) jsmap"
  outcomes :: "(utf16, shell_outcome) jsmap"
  failures :: "(utf16, utf16) jsmap"
  pendingEnvWraps :: "utf16 list"
  activeEnvWraps :: "(utf16, env_wrap) jsmap"
  createGate :: "(utf16, lane) jsmap"
  armedCalls :: "(utf16, nat) jsmap" \<comment> \<open>the hook event of the call, by reference\<close>
  inputs :: "(nat, json) jsmap" \<comment> \<open>\<open>event.input\<close> as the hooks left it\<close>
  wrapsMade :: nat
  journal :: "shell_note list"

definition shell_start :: shell_state where
  "shell_start = \<lparr>policies = [], outcomes = [], failures = [], pendingEnvWraps = [], activeEnvWraps = [],
     createGate = [], armedCalls = [], inputs = [], wrapsMade = 0, journal = []\<rparr>"

text \<open>The host the code runs on: \<open>node:path\<close>, the file system and the environment.\<close>

record shell_host =
  win32 :: bool
  defaultShell :: "utf16 option"
  envShell :: "utf16 option"
  bashOnPath :: bool
  basename :: "utf16 \<Rightarrow> utf16"
  canonicalDirectory :: "utf16 \<Rightarrow> utf16"

definition log_note :: "shell_note \<Rightarrow> shell_state \<Rightarrow> shell_state" where
  "log_note n s = s\<lparr>journal := journal s @ [n]\<rparr>"

text \<open>
  \<open>remember\<close>: delete, set, then drop the oldest entries beyond the limit; an empty key ends the loop.
  The second component holds the dropped values.
\<close>

fun drop_oldest :: "nat \<Rightarrow> (utf16, 'v) jsmap \<Rightarrow> (utf16, 'v) jsmap \<times> 'v list" where
  "drop_oldest limit [] = ([], [])"
| "drop_oldest limit ((k, v) # m) =
     (if limit < length ((k, v) # m) \<and> k \<noteq> [] then (let (m', vs) = drop_oldest limit m in (m', v # vs)) else ((k, v) # m, []))"

definition remember :: "utf16 \<Rightarrow> 'v \<Rightarrow> (utf16, 'v) jsmap \<Rightarrow> (utf16, 'v) jsmap \<times> 'v list" where
  "remember k v m = drop_oldest MAX_TRACKED_SHELL_CALLS (jm_touch k v m)"

section \<open>Policies\<close>

text \<open>The request metadata: a field is present when it has the type the code asks for; numbers are \<open>Number(value)\<close>.\<close>

record shell_metadata =
  md_command :: "utf16 option"
  md_working_directory :: "utf16 option"
  md_description :: "utf16 option"
  md_managed_command :: "utf16 option"
  md_managed_job_directory :: "utf16 option"
  md_managed_shell_path :: "utf16 option"
  md_background_shell_spawn :: bool
  md_shell_stream :: bool
  md_timeout_ms :: "rat option"
  md_timeout_behavior :: "rat option"
  md_hard_timeout_ms :: "rat option"

text \<open>\<open>None\<close> is a number that is not finite.\<close>

definition finiteNonNegative :: "rat option \<Rightarrow> nat option" where
  "finiteNonNegative v = (case v of None \<Rightarrow> None | Some n \<Rightarrow> if n < 0 then None else Some (nat \<lfloor>n\<rfloor>))"

definition shellPolicyFromMetadata :: "shell_metadata option \<Rightarrow> shell_policy option" where
  "shellPolicyFromMetadata metadata =
     (case metadata of None \<Rightarrow> None | Some md \<Rightarrow>
       (let text = (\<lambda>v. case v of None \<Rightarrow> [] | Some t \<Rightarrow> t);
            hard = (case finiteNonNegative (md_hard_timeout_ms md) of Some h \<Rightarrow> if h > 0 then Some h else None | None \<Rightarrow> None);
            policy = \<lparr>pol_command = text (md_command md), workingDirectory = text (md_working_directory md),
              timeoutMs = 0, timeoutBehavior = 0, hardTimeoutMs = hard, backgroundSpawn = True,
              pol_description = md_description md, managedCommand = md_managed_command md,
              managedJobDirectory = md_managed_job_directory md, shellPath = md_managed_shell_path md\<rparr>
        in if md_background_shell_spawn md then Some policy
           else if \<not> md_shell_stream md then None
           else Some (policy\<lparr>backgroundSpawn := False,
             timeoutMs := (case finiteNonNegative (md_timeout_ms md) of Some t \<Rightarrow> t | None \<Rightarrow> 30000),
             timeoutBehavior := (case finiteNonNegative (md_timeout_behavior md) of Some b \<Rightarrow> b | None \<Rightarrow> 0)\<rparr>)))"

definition cursor_prefix :: utf16 where "cursor_prefix = lit ''cursor_''"

definition registerCursorShellCall :: "utf16 \<Rightarrow> shell_metadata option \<Rightarrow> shell_state \<Rightarrow> shell_state" where
  "registerCursorShellCall toolCallId metadata s =
     (case shellPolicyFromMetadata metadata of None \<Rightarrow> s
      | Some policy \<Rightarrow>
          (if \<not> starts_with cursor_prefix toolCallId then s
           else let (ps, evicted) = remember toolCallId policy (policies s) in
             s\<lparr>policies := ps, journal := journal s @ map (\<lambda>p. ReleasesTerminal (managedJobDirectory p)) evicted\<rparr>))"

section \<open>The create gate\<close>

text \<open>\<open>callCommand\<close>: the command of an event's input, when the input is an object with a string command.\<close>

fun callCommand :: "json option \<Rightarrow> utf16 option" where
  "callCommand (Some (JObject kvs)) = (case map_of kvs (lit ''command'') of Some (JString c) \<Rightarrow> Some c | _ \<Rightarrow> None)"
| "callCommand _ = None"

definition armed_command :: "shell_state \<Rightarrow> utf16 \<Rightarrow> utf16 option" where
  "armed_command s cid = (case jm_get (armedCalls s) cid of None \<Rightarrow> None | Some call \<Rightarrow> callCommand (jm_get (inputs s) call))"

text \<open>
  The synchronous part of \<open>armCursorShellCreate\<close>. The caller holds the lane at once, noted as granted,
  or waits until its promise is resolved.
\<close>

definition armCursorShellCreate :: "shell_host \<Rightarrow> utf16 \<Rightarrow> nat \<Rightarrow> shell_state \<Rightarrow> shell_state" where
  "armCursorShellCreate h toolCallId call s =
     (if win32 h then s
      else case callCommand (jm_get (inputs s) call) of None \<Rightarrow> s
        | Some command \<Rightarrow>
            (let s = s\<lparr>armedCalls := jm_set toolCallId call (armedCalls s)\<rparr> in
             case jm_get (createGate s) command of
               None \<Rightarrow> log_note (Granted toolCallId) (s\<lparr>createGate := jm_set command \<lparr>lockedBy = toolCallId, waiters = []\<rparr> (createGate s)\<rparr>)
             | Some l \<Rightarrow> s\<lparr>createGate := jm_set command (l\<lparr>waiters := waiters l @ [toolCallId]\<rparr>) (createGate s)\<rparr>))"

text \<open>One lane of the loop in \<open>disarmCursorShellCreate\<close>: what is left of it and whom it passes to.\<close>

definition disarm_lane :: "utf16 \<Rightarrow> lane \<Rightarrow> lane option \<times> utf16 list" where
  "disarm_lane cid l =
     (let ws = filter (\<lambda>w. w \<noteq> cid) (waiters l) in
      if lockedBy l \<noteq> cid then (Some (l\<lparr>waiters := ws\<rparr>), [])
      else case ws of [] \<Rightarrow> (None, []) | next_id # rest \<Rightarrow> (Some \<lparr>lockedBy = next_id, waiters = rest\<rparr>, [next_id]))"

fun disarm_lanes :: "utf16 \<Rightarrow> (utf16, lane) jsmap \<Rightarrow> (utf16, lane) jsmap \<times> utf16 list" where
  "disarm_lanes cid [] = ([], [])"
| "disarm_lanes cid ((command, l) # gate) =
     (let (kept, woken) = disarm_lane cid l; (gate', woken') = disarm_lanes cid gate
      in (case kept of None \<Rightarrow> gate' | Some l' \<Rightarrow> (command, l') # gate', woken @ woken'))"

definition disarmCursorShellCreate :: "utf16 \<Rightarrow> shell_state \<Rightarrow> shell_state" where
  "disarmCursorShellCreate toolCallId s =
     (let (gate, woken) = disarm_lanes toolCallId (createGate s) in
      s\<lparr>armedCalls := jm_delete toolCallId (armedCalls s), createGate := gate, journal := journal s @ map Granted woken\<rparr>)"

section \<open>Launcher files\<close>

definition wrapperBodyForPolicy :: "shell_policy \<Rightarrow> wrapper_body option" where
  "wrapperBodyForPolicy policy =
     (if managedCommand policy \<notin> {None, Some []} then map_option ManagedBody (managedCommand policy)
      else if backgroundSpawn policy then Some (BackgroundBody (pol_command policy) (shellPath policy))
      else if timeoutBehavior policy = CURSOR_TIMEOUT_BACKGROUND then Some (SoftBody policy)
      else None)"

definition ensureShellEnvWrap :: "utf16 \<Rightarrow> shell_policy \<Rightarrow> shell_state \<Rightarrow> shell_state \<times> env_wrap option" where
  "ensureShellEnvWrap toolCallId policy s =
     (case jm_get (activeEnvWraps s) toolCallId of Some w \<Rightarrow> (s, Some w)
      | None \<Rightarrow>
          (case wrapperBodyForPolicy policy of None \<Rightarrow> (s, None)
           | Some body \<Rightarrow>
               (let wrap = \<lparr>wr_id = wrapsMade s, wr_body = body, wr_command = pol_command policy, wr_shell = shellPath policy\<rparr>;
                    (ws, evicted) = remember toolCallId wrap (activeEnvWraps s)
                in (s\<lparr>wrapsMade := Suc (wrapsMade s), activeEnvWraps := ws, journal := journal s @ map RemovesWrap evicted\<rparr>, Some wrap))))"

text \<open>\<open>resolveCursorShellKind\<close>: only ASCII letters matter for the names compared.\<close>

datatype shell_kind = Bash | Zsh | Sh | Dash | OtherShell

definition lower :: "utf16 \<Rightarrow> utf16" where
  "lower = map (\<lambda>c. if 65 \<le> c \<and> c \<le> 90 then c + 32 else c)"

definition resolveCursorShellKind :: "shell_host \<Rightarrow> utf16 option \<Rightarrow> shell_kind" where
  "resolveCursorShellKind h given =
     (let shell = (case given of Some g \<Rightarrow> Some g | None \<Rightarrow> (case defaultShell h of Some d \<Rightarrow> Some d | None \<Rightarrow> envShell h));
          base = (case shell of None \<Rightarrow> [] | Some p \<Rightarrow> if p = [] then [] else lower (basename h p));
          name = (if ends_with (lit ''.exe'') base then take (length base - 4) base else base);
          name = (if name \<in> {lit ''fish'', lit ''nu'', []} then (if bashOnPath h then lit ''bash'' else lit ''sh'') else name)
      in if name = lit ''bash'' then Bash else if name = lit ''zsh'' then Zsh else if name = lit ''sh'' then Sh
         else if name = lit ''dash'' then Dash else OtherShell)"

record shell_args =
  ar_command :: utf16
  ar_timeout :: "nat option"

text \<open>What the arguments run: the command itself, a managed launcher, or \<open>exec /bin/sh\<close> on a wrapper.\<close>

datatype launch = LaunchCommand utf16 | LaunchWrapper env_wrap

record prepare_options =
  preferWrapperCommand :: bool
  deferToShellHook :: bool
  opt_shellPath :: "utf16 option"

text \<open>The command and the timeout the arguments get; \<open>None\<close> leaves an argument as it was.\<close>

definition prepareCursorShellArgs ::
  "shell_host \<Rightarrow> utf16 \<Rightarrow> prepare_options \<Rightarrow> shell_state \<Rightarrow> shell_state \<times> launch option \<times> nat option" where
  "prepareCursorShellArgs h toolCallId opts s =
     (case jm_get (policies s) toolCallId of None \<Rightarrow> (s, None, None)
      | Some policy \<Rightarrow>
          (let policy = policy\<lparr>shellPath := (case opt_shellPath opts of Some p \<Rightarrow> Some p | None \<Rightarrow> shellPath policy)\<rparr>;
               s = s\<lparr>policies := jm_set toolCallId policy (policies s)\<rparr> in
           if \<not> backgroundSpawn policy \<and> timeoutBehavior policy \<noteq> CURSOR_TIMEOUT_BACKGROUND then (s, None, None)
           else let s = s\<lparr>pendingEnvWraps := List.insert toolCallId (pendingEnvWraps s)\<rparr>;
             timeout = (if backgroundSpawn policy then None
               else Some (max OPENCODE_TIMEOUT_GRACE_MS (timeoutMs policy + OPENCODE_TIMEOUT_GRACE_MS)));
             kind = resolveCursorShellKind h (shellPath policy) in
           if deferToShellHook opts \<or> win32 h \<or> (\<not> preferWrapperCommand opts \<and> (kind = Bash \<or> kind = Zsh))
           then (s, Some (LaunchCommand (pol_command policy)), timeout)
           else let (s, wrap) = ensureShellEnvWrap toolCallId policy s in
             (s, map_option (\<lambda>w. case managedCommand policy of Some m \<Rightarrow> LaunchCommand m | None \<Rightarrow> LaunchWrapper w) wrap, timeout)))"

definition releaseCursorShellEnv :: "utf16 \<Rightarrow> shell_state \<Rightarrow> shell_state" where
  "releaseCursorShellEnv toolCallId s =
     (let s = disarmCursorShellCreate toolCallId s;
          s = s\<lparr>pendingEnvWraps := filter (\<lambda>i. i \<noteq> toolCallId) (pendingEnvWraps s)\<rparr>;
          s = log_note (ReleasesTerminal (Option.bind (jm_get (policies s) toolCallId) managedJobDirectory)) s
      in case jm_get (activeEnvWraps s) toolCallId of None \<Rightarrow> s
         | Some w \<Rightarrow> log_note (RemovesWrap w) (s\<lparr>activeEnvWraps := jm_delete toolCallId (activeEnvWraps s)\<rparr>))"

definition cursorShellEnvForCall :: "utf16 option \<Rightarrow> shell_state \<Rightarrow> shell_state \<times> env_wrap option" where
  "cursorShellEnvForCall toolCallId s =
     (case toolCallId of None \<Rightarrow> (s, None)
      | Some cid \<Rightarrow>
          (if cid = [] \<or> cid \<notin> set (pendingEnvWraps s) then (s, None)
           else case jm_get (policies s) cid of None \<Rightarrow> (s, None)
             | Some policy \<Rightarrow>
                 (case ensureShellEnvWrap cid policy s of
                    (s, None) \<Rightarrow> (s, None)
                  | (s, Some w) \<Rightarrow> (s\<lparr>pendingEnvWraps := filter (\<lambda>i. i \<noteq> cid) (pendingEnvWraps s)\<rparr>, Some w))))"

text \<open>
  The adapter put in place of the host's shell: run with \<open>-c\<close> and this very command it executes the
  wrap, with anything else it executes the host's shell.
\<close>

record create_event =
  ev_command :: utf16
  ev_cwd :: utf16
  ev_shell :: utf16

record adapter =
  ad_call :: utf16
  ad_wrap :: env_wrap
  ad_command :: utf16
  ad_shell :: utf16

definition create_owners :: "utf16 \<Rightarrow> shell_state \<Rightarrow> utf16 list" where
  "create_owners command s =
     filter (\<lambda>cid. armed_command s cid = Some command) (map (\<lambda>(_, l). lockedBy l) (createGate s))"

definition create_matches :: "shell_host \<Rightarrow> create_event \<Rightarrow> utf16 option \<Rightarrow> shell_state \<Rightarrow> utf16 \<times> shell_policy \<Rightarrow> bool" where
  "create_matches h ev own s p =
     (case p of (cid, policy) \<Rightarrow>
        cid \<in> set (pendingEnvWraps s) \<and> pol_command policy = ev_command ev
        \<and> (workingDirectory policy = [] \<or> canonicalDirectory h (workingDirectory policy) = canonicalDirectory h (ev_cwd ev))
        \<and> (case own of Some owner \<Rightarrow> cid = owner | None \<Rightarrow> \<not> jm_has (armedCalls s) cid))"

text \<open>The loop over the policies stops at the first that matches.\<close>

definition prepareCursorShellCreate :: "shell_host \<Rightarrow> create_event \<Rightarrow> shell_state \<Rightarrow> shell_state \<times> adapter option" where
  "prepareCursorShellCreate h ev s =
     (if win32 h then (s, None)
      else let owners = create_owners (ev_command ev) s in
        if length owners > 1 then (s, None)
        else let own = (case owners of [] \<Rightarrow> None | o1 # _ \<Rightarrow> Some o1);
                 s1 = (case own of None \<Rightarrow> s | Some owner \<Rightarrow> disarmCursorShellCreate owner s) in
          if own \<noteq> None \<and> the own \<notin> set (pendingEnvWraps s1) then (s1, None)
          else let (s2, ad) =
              (case find (create_matches h ev own s1) (policies s1) of None \<Rightarrow> (s1, None)
               | Some (cid, policy) \<Rightarrow>
                   (case ensureShellEnvWrap cid policy s1 of
                      (s2, None) \<Rightarrow> (s2, None)
                    | (s2, Some w) \<Rightarrow>
                        (s2\<lparr>pendingEnvWraps := filter (\<lambda>i. i \<noteq> cid) (pendingEnvWraps s2)\<rparr>,
                         Some \<lparr>ad_call = cid, ad_wrap = w, ad_command = ev_command ev, ad_shell = ev_shell ev\<rparr>)))
            in (case own of None \<Rightarrow> s2
                | Some owner \<Rightarrow> s2\<lparr>pendingEnvWraps := filter (\<lambda>i. i \<noteq> owner) (pendingEnvWraps s2)\<rparr>, ad))"

section \<open>Results\<close>

text \<open>\<open>metadata?.exit\<close>: absent, null, or a value whose \<open>Number\<close> is given (\<open>None\<close> when it is not finite).\<close>

datatype host_exit = ExitMissing | ExitNull | ExitGiven "rat option"

definition record_outcome :: "utf16 \<Rightarrow> shell_outcome \<Rightarrow> shell_state \<Rightarrow> shell_state" where
  "record_outcome cid oc s = s\<lparr>outcomes := fst (remember cid oc (outcomes s))\<rparr>"

text \<open>The wrapper's own outcome, looked for only in the output of a call that was transformed.\<close>

definition wrapper_outcome :: "utf16 \<Rightarrow> shell_policy option \<Rightarrow> (utf16 \<times> shell_outcome) option" where
  "wrapper_outcome out policy =
     (case policy of None \<Rightarrow> None
      | Some p \<Rightarrow>
          (let spawned = (if backgroundSpawn p
              then (case parseBackgroundSpawnOutcome out policy of Some r \<Rightarrow> Some r | None \<Rightarrow> parseSoftBackgroundOutcome out policy)
              else None)
           in case spawned of Some r \<Rightarrow> Some r
              | None \<Rightarrow> if timeoutBehavior p = CURSOR_TIMEOUT_BACKGROUND then parseSoftBackgroundOutcome out policy else None))"

definition captureCursorShellResult ::
  "(js_int \<Rightarrow> utf16) \<Rightarrow> utf16 \<Rightarrow> utf16 \<Rightarrow> host_exit \<Rightarrow> shell_state \<Rightarrow> shell_state \<times> utf16" where
  "captureCursorShellResult fmt toolCallId out ex s =
     (if \<not> starts_with cursor_prefix toolCallId then (s, out)
      else if ex = ExitNull then
        (case parseOpenCodeTimeout out of
           None \<Rightarrow> (record_outcome toolCallId Aborted s, out)
         | Some (clean, ms) \<Rightarrow> (record_outcome toolCallId (TimeoutAfter ms) s, formatShellOutcomeDisplay fmt clean (TimeoutAfter ms)))
      else case wrapper_outcome out (jm_get (policies s) toolCallId) of
          Some (clean, oc) \<Rightarrow> (record_outcome toolCallId oc s, formatShellOutcomeDisplay fmt clean oc)
        | None \<Rightarrow>
            (case (if ex = ExitMissing then parseOpenCodeTimeout out else None) of
               Some (clean, ms) \<Rightarrow> (record_outcome toolCallId (TimeoutAfter ms) s, formatShellOutcomeDisplay fmt clean (TimeoutAfter ms))
             | None \<Rightarrow>
                 (case (case ex of ExitGiven v \<Rightarrow> finiteNonNegative v | _ \<Rightarrow> None) of
                    Some code \<Rightarrow> (record_outcome toolCallId (ExitCode (JsInt (int code))) s, out)
                  | None \<Rightarrow> (s, out))))"

text \<open>The message of the error, or the text of any other value, is given.\<close>

definition captureCursorShellFailure :: "utf16 \<Rightarrow> utf16 \<Rightarrow> shell_state \<Rightarrow> shell_state" where
  "captureCursorShellFailure toolCallId message s =
     (if \<not> jm_has (policies s) toolCallId then s
      else s\<lparr>failures := fst (remember toolCallId (if message = [] then lit ''Shell execution failed'' else message) (failures s))\<rparr>)"

text \<open>The host's exit notice in a live result.\<close>

datatype output_block = TextBlock utf16 | OtherBlock
datatype host_output = TextOutput utf16 | ContentOutput "output_block list" | OtherOutput

definition TIMEOUT_EXIT_CODE :: int where "TIMEOUT_EXIT_CODE = 124"

definition hostShellExitNotice :: "(js_int \<Rightarrow> utf16) \<Rightarrow> js_int \<Rightarrow> utf16" where
  "hostShellExitNotice fmt code = lit ''Exited with code '' @ fmt code"

definition withHostShellExitNotice :: "(js_int \<Rightarrow> utf16) \<Rightarrow> utf16 \<Rightarrow> js_int \<Rightarrow> utf16" where
  "withHostShellExitNotice fmt out code = out @ [nl, nl] @ hostShellExitNotice fmt code"

definition withoutHostShellExitNotice :: "(js_int \<Rightarrow> utf16) \<Rightarrow> utf16 \<Rightarrow> host_output \<Rightarrow> shell_state \<Rightarrow> host_output" where
  "withoutHostShellExitNotice fmt toolCallId out s =
     (case (case jm_get (outcomes s) toolCallId of Some (ExitCode c) \<Rightarrow> Some c | Some (TimeoutAfter _) \<Rightarrow> Some (JsInt TIMEOUT_EXIT_CODE) | _ \<Rightarrow> None) of
        None \<Rightarrow> out
      | Some code \<Rightarrow>
          (if code = JsInt 0 then out
           else let notice = hostShellExitNotice fmt code in
             case out of
               TextOutput v \<Rightarrow>
                 (if v = notice then TextOutput []
                  else if ends_with ([nl, nl] @ notice) v then TextOutput (take (length v - length notice - 2) v)
                  else out)
             | ContentOutput bs \<Rightarrow>
                 (if bs \<noteq> [] \<and> last bs = TextBlock notice then ContentOutput (butlast bs) else out)
             | OtherOutput \<Rightarrow> out))"

record consumed =
  co_output :: utf16
  co_outcome :: "shell_outcome option"
  co_error :: "utf16 option"

definition consumeCursorShellResult :: "(js_int \<Rightarrow> utf16) \<Rightarrow> utf16 \<Rightarrow> utf16 \<Rightarrow> shell_state \<Rightarrow> shell_state \<times> consumed" where
  "consumeCursorShellResult fmt toolCallId out s =
     (if toolCallId = [] then (s, \<lparr>co_output = out, co_outcome = None, co_error = None\<rparr>)
      else let saved = jm_get (outcomes s) toolCallId;
          (s, clean) = (if saved = None then captureCursorShellResult fmt toolCallId out ExitMissing s else (s, out));
          clean = (case saved of
              Some (TimeoutAfter ms) \<Rightarrow>
                (case parseOpenCodeTimeout out of Some (restored, _) \<Rightarrow> formatShellOutcomeDisplay fmt restored (TimeoutAfter ms) | None \<Rightarrow> clean)
            | _ \<Rightarrow> clean);
          result = \<lparr>co_output = clean, co_outcome = jm_get (outcomes s) toolCallId,
            co_error = (case jm_get (failures s) toolCallId of Some e \<Rightarrow> (if e = [] then None else Some e) | None \<Rightarrow> None)\<rparr>;
          s = s\<lparr>failures := jm_delete toolCallId (failures s), outcomes := jm_delete toolCallId (outcomes s)\<rparr>;
          s = releaseCursorShellEnv toolCallId s
      in (s\<lparr>policies := jm_delete toolCallId (policies s)\<rparr>, result))"

definition resetCursorShellCalls :: "shell_state \<Rightarrow> shell_state" where
  "resetCursorShellCalls s =
     s\<lparr>createGate := [], armedCalls := [], activeEnvWraps := [], pendingEnvWraps := [], policies := [], outcomes := [], failures := [],
       journal := journal s @ map Cancelled (concat (map (\<lambda>(_, l). waiters l) (createGate s)))
         @ map (\<lambda>(_, w). RemovesWrap w) (activeEnvWraps s) @ map (\<lambda>(_, p). ReleasesTerminal (managedJobDirectory p)) (policies s)\<rparr>"

section \<open>Sequences of operations\<close>

text \<open>\<open>SInput\<close> is a hook creating or rewriting the input of an event.\<close>

datatype shell_event = SRegister utf16 "shell_metadata option" | SInput nat json | SArm utf16 nat | SDisarm utf16
  | SPrepareArgs utf16 prepare_options | SEnv "utf16 option" | SCreate create_event | SRelease utf16
  | SResult utf16 utf16 host_exit | SFailure utf16 utf16 | SConsume utf16 utf16 | SReset

fun shell_step :: "shell_host \<Rightarrow> (js_int \<Rightarrow> utf16) \<Rightarrow> shell_state \<Rightarrow> shell_event \<Rightarrow> shell_state" where
  "shell_step h fmt s (SRegister cid md) = registerCursorShellCall cid md s"
| "shell_step h fmt s (SInput call v) = s\<lparr>inputs := jm_set call v (inputs s)\<rparr>"
| "shell_step h fmt s (SArm cid call) = armCursorShellCreate h cid call s"
| "shell_step h fmt s (SDisarm cid) = disarmCursorShellCreate cid s"
| "shell_step h fmt s (SPrepareArgs cid opts) = fst (prepareCursorShellArgs h cid opts s)"
| "shell_step h fmt s (SEnv cid) = fst (cursorShellEnvForCall cid s)"
| "shell_step h fmt s (SCreate ev) = fst (prepareCursorShellCreate h ev s)"
| "shell_step h fmt s (SRelease cid) = releaseCursorShellEnv cid s"
| "shell_step h fmt s (SResult cid out ex) = fst (captureCursorShellResult fmt cid out ex s)"
| "shell_step h fmt s (SFailure cid message) = captureCursorShellFailure cid message s"
| "shell_step h fmt s (SConsume cid out) = fst (consumeCursorShellResult fmt cid out s)"
| "shell_step h fmt s SReset = resetCursorShellCalls s"

end
