(* ===== verification/ShellGate.thy ===== *)
theory ShellGate
  imports ShellCalls
begin

text \<open>
  The create gate of \<open>src/src/shell-timeout.ts\<close> as one queue of calls per command: every operation on
  the shell tables is an operation on these queues, a waiting call gets its lane, and a shell create
  takes no other call's launcher.
\<close>

section \<open>Lanes as queues\<close>

text \<open>The calls of a command, its holder first.\<close>

definition lane_queue :: "lane \<Rightarrow> utf16 list" where "lane_queue l = lockedBy l # waiters l"

definition queue_of :: "(utf16, lane) jsmap \<Rightarrow> utf16 \<Rightarrow> utf16 list" where
  "queue_of gate c = (case jm_get gate c of None \<Rightarrow> [] | Some l \<Rightarrow> lane_queue l)"

definition holds_lane :: "(utf16, lane) jsmap \<Rightarrow> utf16 \<Rightarrow> utf16 \<Rightarrow> bool" where
  "holds_lane gate c i \<longleftrightarrow> (\<exists>ws. queue_of gate c = i # ws)"

lemma disarm_lane_queue:
  "disarm_lane i l = (kept, woken) \<Longrightarrow>
     (case kept of None \<Rightarrow> [] | Some l' \<Rightarrow> lane_queue l') = filter (\<lambda>w. w \<noteq> i) (lane_queue l)
     \<and> woken = (if lockedBy l = i then take 1 (filter (\<lambda>w. w \<noteq> i) (lane_queue l)) else [])"
  by (auto simp: disarm_lane_def Let_def lane_queue_def split: list.splits if_splits)

lemma disarm_lanes_Cons:
  assumes "disarm_lane i l = (kept, woken)"
  shows "disarm_lanes i ((c, l) # gate) =
    ((case kept of None \<Rightarrow> [] | Some l' \<Rightarrow> [(c, l')]) @ fst (disarm_lanes i gate), woken @ snd (disarm_lanes i gate))"
  using assms by (simp add: case_prod_beta split: option.splits)

lemma disarm_lanes_keys: "fst ` set (fst (disarm_lanes i gate)) \<subseteq> fst ` set gate"
proof (induction gate)
  case (Cons p gate)
  then show ?case
    by (cases p; cases "disarm_lane i (snd p)") (auto simp: disarm_lanes_Cons simp del: disarm_lanes.simps split: option.splits)
qed simp

lemma disarm_lanes_wf: "jm_wf gate \<Longrightarrow> jm_wf (fst (disarm_lanes i gate))"
proof (induction gate)
  case (Cons p gate)
  then show ?case using disarm_lanes_keys [of i gate]
    by (cases p; cases "disarm_lane i (snd p)") (auto simp: disarm_lanes_Cons simp del: disarm_lanes.simps split: option.splits)
qed simp

lemma queue_of_Cons: "queue_of ((d, l) # gate) c = (if c = d then lane_queue l else queue_of gate c)"
  by (simp add: queue_of_def)

lemma queue_of_absent: "c \<notin> fst ` set gate \<Longrightarrow> queue_of gate c = []"
  by (simp add: queue_of_def map_of_eq_None_iff [THEN iffD2])

lemma queue_of_disarm:
  "jm_wf gate \<Longrightarrow> queue_of (fst (disarm_lanes i gate)) c = filter (\<lambda>w. w \<noteq> i) (queue_of gate c)"
proof (induction gate)
  case (Cons p gate)
  obtain d l where p: "p = (d, l)" by (cases p)
  obtain kept woken where l: "disarm_lane i l = (kept, woken)" by (cases "disarm_lane i l")
  have "d \<notin> fst ` set gate" "d \<notin> fst ` set (fst (disarm_lanes i gate))"
    using disarm_lanes_keys [of i gate] Cons.prems p by auto
  then show ?case using disarm_lane_queue [OF l] Cons queue_of_absent [of d]
    by (auto simp: p disarm_lanes_Cons [OF l] queue_of_Cons simp del: disarm_lanes.simps split: option.splits)
qed (simp add: queue_of_def)

lemma woken_iff:
  "jm_wf gate \<Longrightarrow> j \<in> set (snd (disarm_lanes i gate)) \<longleftrightarrow>
     (\<exists>c ws vs. queue_of gate c = i # ws \<and> filter (\<lambda>w. w \<noteq> i) ws = j # vs)"
proof (induction gate)
  case (Cons p gate)
  obtain d l where p: "p = (d, l)" by (cases p)
  obtain kept woken where l: "disarm_lane i l = (kept, woken)" by (cases "disarm_lane i l")
  let ?Q = "\<lambda>q. \<exists>ws vs. q = i # ws \<and> filter (\<lambda>w. w \<noteq> i) ws = j # vs"
  have w: "j \<in> set woken \<longleftrightarrow> ?Q (lane_queue l)"
    using disarm_lane_queue [OF l] by (cases "filter (\<lambda>w. w \<noteq> i) (waiters l)") (auto simp: lane_queue_def)
  have "queue_of gate d = []" using Cons.prems p by (simp add: queue_of_absent)
  then have "(\<exists>c. ?Q (queue_of (p # gate) c)) \<longleftrightarrow> ?Q (lane_queue l) \<or> (\<exists>c. ?Q (queue_of gate c))"
    unfolding p queue_of_Cons by (metis list.distinct(1))
  moreover have "j \<in> set (snd (disarm_lanes i gate)) \<longleftrightarrow> (\<exists>c. ?Q (queue_of gate c))"
    using Cons by simp
  ultimately show ?case using w unfolding p disarm_lanes_Cons [OF l] by auto
qed (simp add: queue_of_def)

section \<open>Every operation is an operation on the queues\<close>

datatype gate_op = Joins utf16 utf16 | Leaves utf16 | Clears | Stays

fun queue_op :: "gate_op \<Rightarrow> (utf16 \<Rightarrow> utf16 list) \<Rightarrow> utf16 \<Rightarrow> utf16 list" where
  "queue_op (Joins c i) q = q(c := q c @ [i])"
| "queue_op (Leaves i) q = (\<lambda>c. filter (\<lambda>w. w \<noteq> i) (q c))"
| "queue_op Clears q = (\<lambda>c. [])"
| "queue_op Stays q = q"

text \<open>The queue operation of an event: arming joins, finishing leaves, and a create ends its owner's turn.\<close>

fun gate_op_of :: "shell_host \<Rightarrow> shell_state \<Rightarrow> shell_event \<Rightarrow> gate_op" where
  "gate_op_of h s (SArm i call) =
     (if win32 h then Stays else case callCommand (jm_get (inputs s) call) of None \<Rightarrow> Stays | Some c \<Rightarrow> Joins c i)"
| "gate_op_of h s (SDisarm i) = Leaves i"
| "gate_op_of h s (SRelease i) = Leaves i"
| "gate_op_of h s (SConsume i out) = (if i = [] then Stays else Leaves i)"
| "gate_op_of h s (SCreate ev) =
     (if win32 h then Stays else case create_owners (ev_command ev) s of [i] \<Rightarrow> Leaves i | _ \<Rightarrow> Stays)"
| "gate_op_of h s SReset = Clears"
| "gate_op_of h s e = Stays"

lemma log_note_simps [simp]:
  "createGate (log_note n s) = createGate s" "journal (log_note n s) = journal s @ [n]" "armedCalls (log_note n s) = armedCalls s"
  "policies (log_note n s) = policies s" "activeEnvWraps (log_note n s) = activeEnvWraps s" "pendingEnvWraps (log_note n s) = pendingEnvWraps s"
  "outcomes (log_note n s) = outcomes s" "failures (log_note n s) = failures s" "inputs (log_note n s) = inputs s"
  by (simp_all add: log_note_def)

lemma wrap_frame [model_frame]:
  assumes "ensureShellEnvWrap i policy s = (s', w)"
  shows "createGate s' = createGate s" "armedCalls s' = armedCalls s" "policies s' = policies s" "inputs s' = inputs s"
    "pendingEnvWraps s' = pendingEnvWraps s" "outcomes s' = outcomes s" "failures s' = failures s" "\<exists>ns. journal s' = journal s @ ns"
  using assms by (auto simp: ensureShellEnvWrap_def Let_def split: option.splits prod.splits)

lemma wrap_fst [simp]:
  "createGate (fst (ensureShellEnvWrap i policy s)) = createGate s"
  "set (journal s) \<subseteq> set (journal (fst (ensureShellEnvWrap i policy s)))"
  "pendingEnvWraps (fst (ensureShellEnvWrap i policy s)) = pendingEnvWraps s"
  using wrap_frame [OF surjective_pairing, of i policy s] by auto

lemma disarm_frame [simp]:
  "policies (disarmCursorShellCreate i s) = policies s" "pendingEnvWraps (disarmCursorShellCreate i s) = pendingEnvWraps s"
  "activeEnvWraps (disarmCursorShellCreate i s) = activeEnvWraps s" "inputs (disarmCursorShellCreate i s) = inputs s"
  "outcomes (disarmCursorShellCreate i s) = outcomes s" "failures (disarmCursorShellCreate i s) = failures s"
  "createGate (disarmCursorShellCreate i s) = fst (disarm_lanes i (createGate s))"
  "armedCalls (disarmCursorShellCreate i s) = jm_delete i (armedCalls s)"
  "journal (disarmCursorShellCreate i s) = journal s @ map Granted (snd (disarm_lanes i (createGate s)))"
  by (simp_all add: disarmCursorShellCreate_def case_prod_beta Let_def)

lemma shell_release_frame [simp]:
  "createGate (releaseCursorShellEnv i s) = fst (disarm_lanes i (createGate s))"
  "outcomes (releaseCursorShellEnv i s) = outcomes s" "failures (releaseCursorShellEnv i s) = failures s"
  "policies (releaseCursorShellEnv i s) = policies s" "armedCalls (releaseCursorShellEnv i s) = jm_delete i (armedCalls s)"
  "pendingEnvWraps (releaseCursorShellEnv i s) = filter (\<lambda>w. w \<noteq> i) (pendingEnvWraps s)"
  "jm_get (activeEnvWraps (releaseCursorShellEnv i s)) i = None"
  by (simp_all add: releaseCursorShellEnv_def Let_def split: option.splits)

text \<open>What an operation may do to the journal: only add to it, and pass the lanes it frees on.\<close>

definition journal_grows :: "gate_op \<Rightarrow> shell_state \<Rightarrow> shell_state \<Rightarrow> bool" where
  "journal_grows op s s' \<longleftrightarrow> set (journal s) \<subseteq> set (journal s') \<and>
     (\<forall>i. op = Leaves i \<longrightarrow> Granted ` set (snd (disarm_lanes i (createGate s))) \<subseteq> set (journal s')) \<and>
     (\<forall>c i. op = Joins c i \<and> queue_of (createGate s) c = [] \<longrightarrow> Granted i \<in> set (journal s'))"

lemma queue_of_nil: "queue_of gate c = [] \<longleftrightarrow> jm_get gate c = None"
  by (simp add: queue_of_def lane_queue_def split: option.splits)

lemma queue_of_set: "queue_of (jm_set c l gate) d = (if d = c then lane_queue l else queue_of gate d)"
  by (simp add: queue_of_def)

lemma arm_gate:
  assumes "jm_wf (createGate s)"
  shows "jm_wf (createGate (armCursorShellCreate h i call s))"
    and "queue_of (createGate (armCursorShellCreate h i call s)) = queue_op (gate_op_of h s (SArm i call)) (queue_of (createGate s))"
    and "journal_grows (gate_op_of h s (SArm i call)) s (armCursorShellCreate h i call s)"
  using assms
  by (auto simp: armCursorShellCreate_def Let_def queue_of_set queue_of_nil journal_grows_def lane_queue_def fun_eq_iff
      split: option.splits) (auto simp: queue_of_def lane_queue_def)

text \<open>The wrap a create takes, once the owner has left its lane.\<close>

definition take_wrap :: "shell_host \<Rightarrow> create_event \<Rightarrow> utf16 option \<Rightarrow> shell_state \<Rightarrow> shell_state \<times> adapter option" where
  "take_wrap h ev own s1 =
     (case find (create_matches h ev own s1) (policies s1) of None \<Rightarrow> (s1, None)
      | Some (i, policy) \<Rightarrow>
          (case ensureShellEnvWrap i policy s1 of
             (s2, None) \<Rightarrow> (s2, None)
           | (s2, Some w) \<Rightarrow>
               (s2\<lparr>pendingEnvWraps := filter (\<lambda>j. j \<noteq> i) (pendingEnvWraps s2)\<rparr>,
                Some \<lparr>ad_call = i, ad_wrap = w, ad_command = ev_command ev, ad_shell = ev_shell ev\<rparr>)))"

lemma create_unfold:
  "prepareCursorShellCreate h ev s =
     (if win32 h then (s, None)
      else case create_owners (ev_command ev) s of
        [] \<Rightarrow> take_wrap h ev None s
      | [i] \<Rightarrow>
          (let s1 = disarmCursorShellCreate i s in
           if i \<notin> set (pendingEnvWraps s) then (s1, None)
           else (case take_wrap h ev (Some i) s1 of (s2, ad) \<Rightarrow>
             (s2\<lparr>pendingEnvWraps := filter (\<lambda>j. j \<noteq> i) (pendingEnvWraps s2)\<rparr>, ad)))
      | _ \<Rightarrow> (s, None))"
  by (simp add: prepareCursorShellCreate_def take_wrap_def [symmetric] Let_def split: list.split prod.split)

lemma take_wrap_frame:
  assumes "take_wrap h ev own s = (s', ad)"
  shows "createGate s' = createGate s" "armedCalls s' = armedCalls s" "policies s' = policies s" "\<exists>ns. journal s' = journal s @ ns"
    "set (pendingEnvWraps s') \<subseteq> set (pendingEnvWraps s)"
  using assms
  by (auto simp: take_wrap_def split: option.splits prod.splits dest: wrap_frame)

lemma take_wrap_fst [simp]:
  "createGate (fst (take_wrap h ev own s)) = createGate s" "set (journal s) \<subseteq> set (journal (fst (take_wrap h ev own s)))"
  using take_wrap_frame [OF surjective_pairing, of h ev own s] by auto

lemma create_gate:
  assumes "jm_wf (createGate s)"
  shows "jm_wf (createGate (fst (prepareCursorShellCreate h ev s)))"
    and "queue_of (createGate (fst (prepareCursorShellCreate h ev s))) = queue_op (gate_op_of h s (SCreate ev)) (queue_of (createGate s))"
    and "journal_grows (gate_op_of h s (SCreate ev)) s (fst (prepareCursorShellCreate h ev s))"
  using assms
  by (auto simp: create_unfold Let_def journal_grows_def queue_of_disarm disarm_lanes_wf fun_eq_iff
      split: list.splits prod.splits dest: take_wrap_frame intro: take_wrap_fst(2) [THEN subsetD])

lemma capture_frame [simp]:
  "createGate (fst (captureCursorShellResult fmt i out ex s)) = createGate s" "journal (fst (captureCursorShellResult fmt i out ex s)) = journal s"
  "policies (fst (captureCursorShellResult fmt i out ex s)) = policies s" "failures (fst (captureCursorShellResult fmt i out ex s)) = failures s"
  "armedCalls (fst (captureCursorShellResult fmt i out ex s)) = armedCalls s"
  "pendingEnvWraps (fst (captureCursorShellResult fmt i out ex s)) = pendingEnvWraps s"
  by (simp_all add: captureCursorShellResult_def record_outcome_def split: option.splits prod.splits host_exit.splits)


lemma consume_empty: "fst (consumeCursorShellResult fmt [] out s) = s"
  by (simp add: consumeCursorShellResult_def)

lemma consume_nonempty:
  assumes "i \<noteq> []"
  shows "createGate (fst (consumeCursorShellResult fmt i out s)) = fst (disarm_lanes i (createGate s))"
    and "set (journal s) \<union> Granted ` set (snd (disarm_lanes i (createGate s))) \<subseteq> set (journal (fst (consumeCursorShellResult fmt i out s)))"
  using assms
  by (auto simp: consumeCursorShellResult_def Let_def case_prod_beta releaseCursorShellEnv_def split: option.splits)

lemma other_gate:
  "createGate (registerCursorShellCall i md s) = createGate s" "set (journal s) \<subseteq> set (journal (registerCursorShellCall i md s))"
  "createGate (fst (prepareCursorShellArgs h i opts s)) = createGate s" "set (journal s) \<subseteq> set (journal (fst (prepareCursorShellArgs h i opts s)))"
  "createGate (fst (cursorShellEnvForCall j s)) = createGate s" "set (journal s) \<subseteq> set (journal (fst (cursorShellEnvForCall j s)))"
  "createGate (captureCursorShellFailure i message s) = createGate s" "journal (captureCursorShellFailure i message s) = journal s"
  by (auto simp: registerCursorShellCall_def prepareCursorShellArgs_def cursorShellEnvForCall_def captureCursorShellFailure_def
      Let_def case_prod_beta split: option.splits intro: wrap_fst(2) [THEN subsetD])

lemma release_gate: "set (journal s) \<union> Granted ` set (snd (disarm_lanes i (createGate s))) \<subseteq> set (journal (releaseCursorShellEnv i s))"
  by (auto simp: releaseCursorShellEnv_def Let_def split: option.splits)

lemma step_gate:
  assumes "jm_wf (createGate s)"
  shows "jm_wf (createGate (shell_step h fmt s e))"
    and "queue_of (createGate (shell_step h fmt s e)) = queue_op (gate_op_of h s e) (queue_of (createGate s))"
    and "journal_grows (gate_op_of h s e) s (shell_step h fmt s e)"
proof -
  show "jm_wf (createGate (shell_step h fmt s e))"
  proof (cases e)
    case (SConsume i out)
    then show ?thesis using assms by (cases "i = []") (simp_all add: consume_nonempty consume_empty disarm_lanes_wf)
  qed (use assms arm_gate(1) create_gate(1) in \<open>simp_all add: other_gate disarm_lanes_wf resetCursorShellCalls_def\<close>)
  show "queue_of (createGate (shell_step h fmt s e)) = queue_op (gate_op_of h s e) (queue_of (createGate s))"
  proof (cases e)
    case (SArm i call)
    then show ?thesis using arm_gate(2) [OF assms] by simp
  next
    case (SCreate ev)
    then show ?thesis using create_gate(2) [OF assms] by simp
  next
    case (SConsume i out)
    then show ?thesis using assms
      by (cases "i = []") (simp_all add: consume_nonempty queue_of_disarm consume_empty fun_eq_iff)
  qed (simp_all add: assms other_gate queue_of_disarm fun_eq_iff resetCursorShellCalls_def queue_of_def [of "[]"])
  show "journal_grows (gate_op_of h s e) s (shell_step h fmt s e)"
  proof (cases e)
    case (SArm i call)
    then show ?thesis using arm_gate(3) [OF assms] by simp
  next
    case (SCreate ev)
    then show ?thesis using create_gate(3) [OF assms] by simp
  next
    case (SConsume i out)
    then show ?thesis
      using consume_nonempty(2) [of i s fmt out]
      by (cases "i = []") (auto simp: journal_grows_def consume_empty)
  next
    case (SRelease i)
    then show ?thesis using release_gate by (simp add: journal_grows_def)
  qed (use other_gate in \<open>auto simp: journal_grows_def resetCursorShellCalls_def\<close>)
qed

text \<open>C32: The create gate implements one first-in first-out queue of calls per command: whatever operation
  on the shell tables runs, the queues after it are the queues before it with the one call appended that
  armed, the one call removed that finished or whose shell was created, or nothing changed.\<close>

theorem gate_refines_queues:
  assumes "jm_wf (createGate s)"
  shows "jm_wf (createGate (shell_step h fmt s e))
    \<and> queue_of (createGate (shell_step h fmt s e)) = queue_op (gate_op_of h s e) (queue_of (createGate s))"
  using step_gate [OF assms] by simp

section \<open>Runs\<close>

definition shell_run :: "shell_host \<Rightarrow> (js_int \<Rightarrow> utf16) \<Rightarrow> shell_state \<Rightarrow> shell_event list \<Rightarrow> shell_state" where
  "shell_run h fmt s es = foldl (shell_step h fmt) s es"

text \<open>A holder of a lane has been granted it.\<close>

definition shell_inv :: "shell_state \<Rightarrow> bool" where
  "shell_inv s \<longleftrightarrow> jm_wf (createGate s) \<and>
     (\<forall>c i ws. queue_of (createGate s) c = i # ws \<longrightarrow> Granted i \<in> set (journal s))"

lemma shell_inv_step [model_inv]:
  assumes "shell_inv s"
  shows "shell_inv (shell_step h fmt s e)"
proof -
  have wf: "jm_wf (createGate s)" using assms by (simp add: shell_inv_def)
  note step = step_gate [OF wf, where h = h and fmt = fmt and e = e]
  have "Granted j \<in> set (journal (shell_step h fmt s e))" if q: "queue_op (gate_op_of h s e) (queue_of (createGate s)) c = j # ws" for c j ws
  proof -
    have old: "Granted i \<in> set (journal (shell_step h fmt s e))" if "queue_of (createGate s) d = i # vs" for d i vs
      using that assms step(3) by (auto simp: shell_inv_def journal_grows_def)
    show ?thesis
    proof (cases "gate_op_of h s e")
      case (Joins d i)
      then show ?thesis using q step(3) old [of c]
        by (cases "queue_of (createGate s) c") (auto simp: journal_grows_def split: if_splits)
    next
      case (Leaves i)
      show ?thesis
      proof (cases "queue_of (createGate s) c")
        case (Cons k vs)
        then show ?thesis
        proof (cases "k = i")
          case True
          then have "j \<in> set (snd (disarm_lanes i (createGate s)))"
            using q Leaves Cons by (auto simp: woken_iff [OF wf])
          then show ?thesis using step(3) Leaves by (auto simp: journal_grows_def)
        next
          case False
          then show ?thesis using q Leaves Cons old [of c] by simp
        qed
      qed (use q Leaves in simp)
    qed (use q old in auto)
  qed
  then show ?thesis using step(1, 2) by (simp add: shell_inv_def)
qed

interpretation shell_sys: step_system "\<lambda>s. s = shell_start" "shell_step h fmt" shell_inv for h fmt
  by unfold_locales (auto simp: shell_inv_step, simp add: shell_inv_def shell_start_def queue_of_def)

lemma shell_run_eq: "shell_run h fmt s es = shell_sys.run h fmt s es"
  unfolding shell_run_def by (induction es arbitrary: s) simp_all

lemma shell_run_Cons: "shell_run h fmt s (e # es) = shell_run h fmt (shell_step h fmt s e) es"
  by (simp add: shell_run_def)

text \<open>The calls that left a lane or were waiting for one during a run.\<close>

fun leavers :: "shell_host \<Rightarrow> (js_int \<Rightarrow> utf16) \<Rightarrow> shell_state \<Rightarrow> shell_event list \<Rightarrow> utf16 set" where
  "leavers h fmt s [] = {}"
| "leavers h fmt s (e # es) =
     (case gate_op_of h s e of Leaves i \<Rightarrow> {i} | _ \<Rightarrow> {}) \<union> leavers h fmt (shell_step h fmt s e) es"

lemma clears_iff: "gate_op_of h s e = Clears \<longleftrightarrow> e = SReset"
  by (cases e) (auto split: option.splits list.splits)

lemma queue_run:
  assumes "shell_inv s" "queue_of (createGate s) c = ahead @ i # behind" "SReset \<notin> set es" "i \<notin> leavers h fmt s es"
  shows "\<exists>b. queue_of (createGate (shell_run h fmt s es)) c = filter (\<lambda>w. w \<notin> leavers h fmt s es) ahead @ i # b"
  using assms
proof (induction es arbitrary: s ahead behind)
  case Nil
  then show ?case by (simp add: shell_run_def)
next
  case (Cons e es)
  note wf = Cons.prems(1) [unfolded shell_inv_def, THEN conjunct1]
  note inv = shell_inv_step [OF Cons.prems(1), of h fmt e]
  note q = step_gate(2) [OF wf, where h = h and fmt = fmt and e = e]
  show ?case
  proof (cases "gate_op_of h s e")
    case (Joins d j)
    have "queue_of (createGate (shell_step h fmt s e)) c = ahead @ i # (behind @ (if c = d then [j] else []))"
      using q Cons.prems(2) by (auto simp: Joins)
    from Cons.IH [OF inv this] Cons.prems show ?thesis by (simp add: shell_run_Cons Joins)
  next
    case (Leaves j)
    then have "j \<noteq> i" using Cons.prems(4) by auto
    then have "queue_of (createGate (shell_step h fmt s e)) c = filter (\<lambda>w. w \<noteq> j) ahead @ i # filter (\<lambda>w. w \<noteq> j) behind"
      using q Cons.prems(2) by (simp add: Leaves)
    from Cons.IH [OF inv this] Cons.prems show ?thesis
      by (simp add: shell_run_Cons Leaves conj_commute)
  next
    case Clears
    then show ?thesis using clears_iff [of h s e] Cons.prems(3) by simp
  next
    case Stays
    then have "queue_of (createGate (shell_step h fmt s e)) c = ahead @ i # behind"
      using q Cons.prems(2) by simp
    from Cons.IH [OF inv this] Cons.prems show ?thesis by (simp add: shell_run_Cons Stays)
  qed
qed

text \<open>C31: A call waiting for its command's lane is served in turn: once every call queued ahead of it has
  finished or had its shell created, in whatever order and with whatever else happening in between, it
  holds the lane and its wait has been resolved.\<close>

theorem waiting_call_gets_its_lane:
  assumes "queue_of (createGate (shell_run h fmt shell_start es0)) c = ahead @ i # behind" and "SReset \<notin> set es"
    and "set ahead \<subseteq> leavers h fmt (shell_run h fmt shell_start es0) es" and "i \<notin> leavers h fmt (shell_run h fmt shell_start es0) es"
  shows "holds_lane (createGate (shell_run h fmt shell_start (es0 @ es))) c i
    \<and> Granted i \<in> set (journal (shell_run h fmt shell_start (es0 @ es)))"
proof -
  have r: "shell_run h fmt shell_start (es0 @ es) = shell_run h fmt (shell_run h fmt shell_start es0) es"
    by (simp add: shell_run_def)
  have inv: "shell_inv (shell_run h fmt shell_start es)" for es
    unfolding shell_run_eq by (rule shell_sys.reachable_inv) simp
  have "filter (\<lambda>w. w \<notin> leavers h fmt (shell_run h fmt shell_start es0) es) ahead = []"
    using assms(3) by (auto simp: filter_empty_conv)
  with queue_run [OF inv assms(1, 2, 4)]
  obtain b where "queue_of (createGate (shell_run h fmt shell_start (es0 @ es))) c = i # b" by (auto simp: r)
  then show ?thesis using inv [of "es0 @ es"] unfolding shell_inv_def holds_lane_def by blast
qed

text \<open>The wrap a call gets: the one it had, or a new one for its policy; either is its active wrap afterwards.\<close>

definition launcher_of :: "utf16 \<Rightarrow> shell_policy \<Rightarrow> shell_state \<Rightarrow> env_wrap \<Rightarrow> bool" where
  "launcher_of i policy s w \<longleftrightarrow>
     (case jm_get (activeEnvWraps s) i of
        Some old \<Rightarrow> w = old
      | None \<Rightarrow> wr_id w = wrapsMade s \<and> wrapperBodyForPolicy policy = Some (wr_body w)
          \<and> wr_command w = pol_command policy \<and> wr_shell w = shellPath policy)"

lemma drop_oldest_keeps_newest:
  "0 < n \<Longrightarrow> k \<notin> fst ` set m \<Longrightarrow> jm_get (fst (drop_oldest n (m @ [(k, v)]))) k = Some v"
  by (induction m) (auto simp: split_beta map_add_Some_iff map_of_eq_None_iff)

lemma jm_get_remember: "remember k v m = (m', vs) \<Longrightarrow> jm_get m' k = Some v"
proof -
  assume "remember k v m = (m', vs)"
  then have "m' = fst (drop_oldest MAX_TRACKED_SHELL_CALLS (filter (\<lambda>p. fst p \<noteq> k) m @ [(k, v)]))"
    by (simp add: remember_def jm_touch_append)
  then show ?thesis
    using drop_oldest_keeps_newest [of MAX_TRACKED_SHELL_CALLS k "filter (\<lambda>p. fst p \<noteq> k) m" v]
    by (auto simp: MAX_TRACKED_SHELL_CALLS_def)
qed

lemma ensure_wrap_own:
  assumes "ensureShellEnvWrap i policy s = (s', Some w)"
  shows "launcher_of i policy s w \<and> jm_get (activeEnvWraps s') i = Some w"
  using assms jm_get_remember
  by (fastforce simp: ensureShellEnvWrap_def launcher_of_def Let_def split: option.splits prod.splits)

lemma take_wrap_own:
  assumes "take_wrap h ev own s = (s', Some ad)"
  shows "\<exists>policy. (ad_call ad, policy) \<in> set (policies s) \<and> create_matches h ev own s (ad_call ad, policy)
      \<and> launcher_of (ad_call ad) policy s (ad_wrap ad)"
    and "jm_get (activeEnvWraps s') (ad_call ad) = Some (ad_wrap ad)"
    and "ad_command ad = ev_command ev" and "ad_shell ad = ev_shell ev"
    and "ad_call ad \<in> set (pendingEnvWraps s) - set (pendingEnvWraps s')"
proof -
  from assms obtain i policy s3 w where f: "find (create_matches h ev own s) (policies s) = Some (i, policy)"
      and e: "ensureShellEnvWrap i policy s = (s3, Some w)"
      and s': "s' = s3\<lparr>pendingEnvWraps := filter (\<lambda>j. j \<noteq> i) (pendingEnvWraps s3)\<rparr>"
      and ad: "ad = \<lparr>ad_call = i, ad_wrap = w, ad_command = ev_command ev, ad_shell = ev_shell ev\<rparr>"
    by (auto simp: take_wrap_def split: option.splits prod.splits)
  have m: "(i, policy) \<in> set (policies s)" "create_matches h ev own s (i, policy)"
    using f by (metis find_Some_iff nth_mem)+
  show "\<exists>policy. (ad_call ad, policy) \<in> set (policies s) \<and> create_matches h ev own s (ad_call ad, policy)
      \<and> launcher_of (ad_call ad) policy s (ad_wrap ad)"
    using m ensure_wrap_own [OF e] ad by auto
  show "jm_get (activeEnvWraps s') (ad_call ad) = Some (ad_wrap ad)" using ensure_wrap_own [OF e] ad s' by simp
  show "ad_call ad \<in> set (pendingEnvWraps s) - set (pendingEnvWraps s')" using m ad s' by (simp add: create_matches_def)
qed (use assms in \<open>auto simp: take_wrap_def split: option.splits prod.splits\<close>)

lemma wrapsMade_disarm [simp]: "wrapsMade (disarmCursorShellCreate j s) = wrapsMade s"
  by (simp add: disarmCursorShellCreate_def split_beta)

text \<open>C6: A shell create never takes another call's launcher. The adapter it installs belongs to one call,
still waiting for its launcher, whose approved policy has the create's command and, when it names a
directory, the create's directory. The wrap it runs is that call's own: the wrap the call already had,
or a new one with the body, the command and the shell of that policy, and it is the call's active wrap
afterwards. The call's launcher is then used up, and if the call is armed it is the only lane holder
whose event now carries the command, and is disarmed.\<close>

theorem create_takes_its_owners_launcher:
  assumes "prepareCursorShellCreate h ev s = (s', Some ad)"
  shows "ad_command ad = ev_command ev \<and> ad_shell ad = ev_shell ev
    \<and> (\<exists>policy. (ad_call ad, policy) \<in> set (policies s) \<and> pol_command policy = ev_command ev
         \<and> (workingDirectory policy = [] \<or> canonicalDirectory h (workingDirectory policy) = canonicalDirectory h (ev_cwd ev))
         \<and> (case jm_get (activeEnvWraps s) (ad_call ad) of
              Some old \<Rightarrow> ad_wrap ad = old
            | None \<Rightarrow> wr_id (ad_wrap ad) = wrapsMade s \<and> wrapperBodyForPolicy policy = Some (wr_body (ad_wrap ad))
                \<and> wr_command (ad_wrap ad) = ev_command ev \<and> wr_shell (ad_wrap ad) = shellPath policy))
    \<and> jm_get (activeEnvWraps s') (ad_call ad) = Some (ad_wrap ad)
    \<and> ad_call ad \<in> set (pendingEnvWraps s) - set (pendingEnvWraps s')
    \<and> create_owners (ev_command ev) s = (if jm_has (armedCalls s) (ad_call ad) then [ad_call ad] else [])
    \<and> \<not> jm_has (armedCalls s') (ad_call ad)"
proof -
  consider "create_owners (ev_command ev) s = []" "take_wrap h ev None s = (s', Some ad)"
    | i s2 where "create_owners (ev_command ev) s = [i]" "take_wrap h ev (Some i) (disarmCursorShellCreate i s) = (s2, Some ad)"
      "s' = s2\<lparr>pendingEnvWraps := filter (\<lambda>j. j \<noteq> i) (pendingEnvWraps s2)\<rparr>"
    using assms [unfolded create_unfold] by (auto simp: Let_def split: if_splits list.splits prod.splits)
  then show ?thesis
  proof cases
    case 1
    from take_wrap_own [OF 1(2)] take_wrap_frame(2) [OF 1(2)] 1(1)
    show ?thesis by (auto simp: create_matches_def launcher_of_def split: option.splits)
  next
    case (2 i s2)
    have "armed_command s i = Some (ev_command ev)"
      using arg_cong [OF 2(1), of set] by (auto simp: create_owners_def)
    then have armed: "jm_has (armedCalls s) i" by (auto simp: armed_command_def split: option.splits)
    note own = take_wrap_own [OF 2(2)] and frame = take_wrap_frame(2) [OF 2(2)]
    have "ad_call ad = i" using own(1) by (auto simp: create_matches_def)
    with own frame 2(1,3) armed show ?thesis by (auto simp: create_matches_def launcher_of_def split: option.splits)
  qed
qed

section \<open>Examples\<close>

definition demo_host :: shell_host where
  "demo_host = \<lparr>win32 = False, defaultShell = None, envShell = None, bashOnPath = True, basename = (\<lambda>p. p), canonicalDirectory = (\<lambda>p. p)\<rparr>"

definition demo_input :: json where "demo_input = JObject [(lit ''command'', JString (lit ''make''))]"

text \<open>Calls \<open>a\<close> and \<open>b\<close> arm with the same command.\<close>

definition demo_events :: "shell_event list" where
  "demo_events = [SInput 0 demo_input, SInput 1 demo_input, SArm [1] 0, SArm [2] 1]"

definition demo_armed :: shell_state where
  "demo_armed = shell_run demo_host (\<lambda>_. []) shell_start demo_events"

lemma demo_armed: "demo_armed = shell_start\<lparr>createGate := [(lit ''make'', \<lparr>lockedBy = [1], waiters = [[2]]\<rparr>)],
    armedCalls := [([1], 0), ([2], 1)], inputs := [(0, demo_input), (1, demo_input)], journal := [Granted [1]]\<rparr>"
  by (simp add: demo_armed_def demo_events_def shell_run_def shell_start_def armCursorShellCreate_def demo_host_def demo_input_def log_note_def)

theorem gate_refines_queues_witness:
  "jm_wf (createGate (shell_step demo_host (\<lambda>_. []) demo_armed (SDisarm [1])))
   \<and> queue_of (createGate (shell_step demo_host (\<lambda>_. []) demo_armed (SDisarm [1])))
     = queue_op (gate_op_of demo_host demo_armed (SDisarm [1])) (queue_of (createGate demo_armed))"
  using gate_refines_queues [of demo_armed demo_host "\<lambda>_. []" "SDisarm [1]"] by (simp add: demo_armed)

theorem waiting_call_gets_its_lane_witness:
  "holds_lane (createGate (shell_run demo_host (\<lambda>_. []) shell_start (demo_events @ [SDisarm [1]]))) (lit ''make'') [2]
   \<and> Granted [2] \<in> set (journal (shell_run demo_host (\<lambda>_. []) shell_start (demo_events @ [SDisarm [1]])))"
  by (rule waiting_call_gets_its_lane [where ahead = "[[1]]" and behind = "[]"])
    (simp_all add: demo_armed_def [symmetric], simp_all add: demo_armed queue_of_def lane_queue_def)

text \<open>A prepared call whose create comes.\<close>

definition demo_prepared :: shell_state where
  "demo_prepared = demo_armed\<lparr>policies := [([1], demo_policy)], pendingEnvWraps := [[1]]\<rparr>"

definition demo_event :: create_event where
  "demo_event = \<lparr>ev_command = lit ''make'', ev_cwd = lit ''/w'', ev_shell = lit ''/bin/bash''\<rparr>"

definition demo_adapter :: adapter where
  "demo_adapter = \<lparr>ad_call = [1], ad_wrap = \<lparr>wr_id = 0, wr_body = SoftBody demo_policy, wr_command = lit ''make'', wr_shell = None\<rparr>,
     ad_command = lit ''make'', ad_shell = lit ''/bin/bash''\<rparr>"

lemma demo_create: "snd (prepareCursorShellCreate demo_host demo_event demo_prepared) = Some demo_adapter"
  by (simp add: create_unfold create_owners_def demo_prepared_def demo_armed demo_host_def demo_event_def demo_policy_def demo_adapter_def
      armed_command_def demo_input_def take_wrap_def create_matches_def Let_def ensureShellEnvWrap_def wrapperBodyForPolicy_def
      CURSOR_TIMEOUT_BACKGROUND_def remember_def jm_touch_def MAX_TRACKED_SHELL_CALLS_def disarmCursorShellCreate_def disarm_lane_def
      shell_start_def split: prod.split)

theorem create_takes_its_owners_launcher_witness:
  "ad_call demo_adapter \<in> set (pendingEnvWraps demo_prepared)
      - set (pendingEnvWraps (fst (prepareCursorShellCreate demo_host demo_event demo_prepared)))
   \<and> create_owners (ev_command demo_event) demo_prepared = [ad_call demo_adapter]
   \<and> jm_get (activeEnvWraps (fst (prepareCursorShellCreate demo_host demo_event demo_prepared))) [1] = Some (ad_wrap demo_adapter)"
proof -
  have "prepareCursorShellCreate demo_host demo_event demo_prepared
      = (fst (prepareCursorShellCreate demo_host demo_event demo_prepared), Some demo_adapter)"
    using demo_create by (metis prod.collapse)
  from create_takes_its_owners_launcher [OF this]
  have "jm_get (activeEnvWraps (fst (prepareCursorShellCreate demo_host demo_event demo_prepared))) (ad_call demo_adapter) = Some (ad_wrap demo_adapter)
    \<and> ad_call demo_adapter \<in> set (pendingEnvWraps demo_prepared) - set (pendingEnvWraps (fst (prepareCursorShellCreate demo_host demo_event demo_prepared)))
    \<and> create_owners (ev_command demo_event) demo_prepared
      = (if jm_has (armedCalls demo_prepared) (ad_call demo_adapter) then [ad_call demo_adapter] else [])"
    by blast
  moreover have "jm_has (armedCalls demo_prepared) (ad_call demo_adapter)" and "ad_call demo_adapter = [1]"
    by (simp_all add: demo_prepared_def demo_armed demo_adapter_def)
  ultimately show ?thesis by simp
qed

end
