(* ===== verification/ShellResults.thy ===== *)
theory ShellResults
  imports ShellGate
begin

text \<open>
  A shell call from its result to its end (\<open>src/src/shell-timeout.ts\<close>): the outcome recorded for a call
  is the one its consumer gets, and consuming a call leaves nothing of it in any table.
\<close>

lemma drop_oldest_newest:
  "0 < limit \<Longrightarrow> k \<notin> fst ` set xs \<Longrightarrow> jm_get (fst (drop_oldest limit (xs @ [(k, v)]))) k = Some v"
  by (induction xs) (auto simp: case_prod_beta map_add_Some_iff map_of_eq_None_iff)

lemma remember_get: "jm_get (fst (remember k v m)) k = Some v"
  by (simp add: remember_def jm_touch_append MAX_TRACKED_SHELL_CALLS_def drop_oldest_newest image_iff)

text \<open>No table mentions the call.\<close>

definition forgotten :: "shell_state \<Rightarrow> utf16 \<Rightarrow> bool" where
  "forgotten s i \<longleftrightarrow> \<not> jm_has (policies s) i \<and> \<not> jm_has (outcomes s) i \<and> \<not> jm_has (failures s) i \<and> i \<notin> set (pendingEnvWraps s)
     \<and> \<not> jm_has (activeEnvWraps s) i \<and> \<not> jm_has (armedCalls s) i \<and> (\<forall>c. i \<notin> set (queue_of (createGate s) c))"

lemma consume_forgets:
  assumes "i \<noteq> []" "jm_wf (createGate s)"
  shows "forgotten (fst (consumeCursorShellResult fmt i out s)) i"
  using assms
  by (simp add: consumeCursorShellResult_def Let_def case_prod_beta forgotten_def queue_of_disarm)

lemma consume_outcome:
  assumes "i \<noteq> []" "jm_get (outcomes s) i = Some oc"
  shows "co_outcome (snd (consumeCursorShellResult fmt i out s)) = Some oc"
  using assms by (simp add: consumeCursorShellResult_def Let_def)

lemma wrapper_outcome_soft:
  assumes "timeoutBehavior policy = CURSOR_TIMEOUT_BACKGROUND" "\<not> backgroundSpawn policy"
  shows "wrapper_outcome out (Some policy) = parseSoftBackgroundOutcome out (Some policy)"
  using assms by (simp add: wrapper_outcome_def)

text \<open>C10: The result of a wrapped shell call reaches its consumer. For a call whose policy lets it run on in the
background, which is not itself a background spawn, and whose native exit is known or not reported (where the host reports the exit as null, its
own outcome wins over any printed line): from the raw output, whatever the
command printed before the launcher's last line, the after hook records the outcome that line reports
and renders the command's own output with its notice; the consumer then gets that outcome, and no
table, lane or launcher of the call is left behind. The line is one the launcher can print, with numbers and
paths within its bounds, and nothing after it starts like a marker.\<close>

theorem wrapped_result_is_consumed:
  assumes "jm_get (policies s) i = Some policy" and "timeoutBehavior policy = CURSOR_TIMEOUT_BACKGROUND" and "\<not> backgroundSpawn policy"
    and "starts_with cursor_prefix i" and "ex \<noteq> ExitNull" and "line_ok l" and "quiet_tail t" and "jm_wf (createGate s)"
    and "captureCursorShellResult fmt i (p @ nl # printed l @ nl # t) ex s = (s1, shown)"
    and "consumeCursorShellResult fmt i shown s1 = (s2, result)"
  shows "shown = formatShellOutcomeDisplay fmt p (reported policy l) \<and> co_outcome result = Some (reported policy l) \<and> forgotten s2 i"
proof -
  have i: "i \<noteq> []" using assms(4) by (auto simp: starts_with_def cursor_prefix_def lit_def)
  have "wrapper_outcome (p @ nl # printed l @ nl # t) (jm_get (policies s) i) = Some (p, reported policy l)"
    using launcher_sentinel_decides [OF assms(6, 7)] by (simp add: assms(1) wrapper_outcome_soft [OF assms(2, 3)])
  then have c: "s1 = record_outcome i (reported policy l) s" "shown = formatShellOutcomeDisplay fmt p (reported policy l)"
    using assms(4, 5, 9) by (auto simp: captureCursorShellResult_def)
  have "jm_get (outcomes s1) i = Some (reported policy l)" "createGate s1 = createGate s"
    by (simp_all add: c(1) record_outcome_def remember_get)
  with consume_outcome [OF i this(1), of fmt shown] consume_forgets [OF i, of s1 fmt shown] assms(8, 10) c(2)
  show ?thesis by simp
qed

lemma demo_line: "line_ok (PrintsManaged 1000 4242 (lit ''/t''))" "quiet_tail (lit ''done'')"
proof -
  show "line_ok (PrintsManaged 1000 4242 (lit ''/t''))"
    by (simp add: path_ok_def lit_def in_line_def nl_def)
  show "quiet_tail (lit ''done'')"
    by code_simp
qed

text \<open>A managed hand-off of call \<open>cursor_\<close>, whose command had printed a forged exit line.\<close>

definition demo_running :: shell_state where
  "demo_running = shell_start\<lparr>policies := [(cursor_prefix, demo_policy)]\<rparr>"

definition demo_output :: utf16 where
  "demo_output = lit ''__CURSOR_SHELL_EXIT__0'' @ nl # printed (PrintsManaged 1000 4242 (lit ''/t'')) @ nl # lit ''done''"

definition demo_captured :: "shell_state \<times> utf16" where
  "demo_captured = captureCursorShellResult (\<lambda>_. []) cursor_prefix demo_output ExitMissing demo_running"

definition demo_consumed :: "shell_state \<times> consumed" where
  "demo_consumed = consumeCursorShellResult (\<lambda>_. []) cursor_prefix (snd demo_captured) (fst demo_captured)"

theorem wrapped_result_is_consumed_witness:
  "snd demo_captured = formatShellOutcomeDisplay (\<lambda>_. []) (lit ''__CURSOR_SHELL_EXIT__0'') (reported demo_policy (PrintsManaged 1000 4242 (lit ''/t'')))
   \<and> co_outcome (snd demo_consumed) = Some (reported demo_policy (PrintsManaged 1000 4242 (lit ''/t''))) \<and> forgotten (fst demo_consumed) cursor_prefix"
  by (rule wrapped_result_is_consumed [where s = demo_running and ex = ExitMissing and t = "lit ''done''" and ?s1.0 = "fst demo_captured"])
    (use demo_line in \<open>simp_all add: demo_running_def demo_policy_def CURSOR_TIMEOUT_BACKGROUND_def shell_start_def demo_consumed_def starts_with_def\<close>,
     simp_all add: demo_captured_def demo_output_def demo_running_def demo_policy_def shell_start_def)

end
