(* ===== verification/LostRequest.thy ===== *)
theory LostRequest
  imports JsonValue JsString
begin

text \<open>
  User messages whose Run failed before Cursor checkpointed them (\<open>src/src/lost-request.ts\<close>), and the
  turn that carries them (\<open>src/src/language-model.ts\<close>). The hash of \<open>node:crypto\<close> is the parameter
  \<open>sha256_hex\<close>.
\<close>

section \<open>Records\<close>

record lost_request =
  lr_conversationId :: utf16
  lr_checkpointKey :: utf16
  lr_text :: utf16
  lr_latest :: utf16

type_synonym lost_requests = "(utf16, lost_request) jsmap"

definition MAX_RECORDS :: nat where "MAX_RECORDS = 1024"

definition checkpointKey :: "(bytes \<Rightarrow> utf16) \<Rightarrow> bytes option \<Rightarrow> utf16" where
  "checkpointKey sha256_hex bs = (case bs of None \<Rightarrow> lit ''none'' | Some b \<Rightarrow> if b = [] then lit ''none'' else sha256_hex b)"

definition blank_line :: utf16 where "blank_line = [nl, nl]"

definition carryLostRequest ::
  "(bytes \<Rightarrow> utf16) \<Rightarrow> utf16 \<Rightarrow> utf16 \<Rightarrow> bytes option \<Rightarrow> utf16 \<Rightarrow> bool \<Rightarrow> lost_requests \<Rightarrow> lost_requests \<times> utf16" where
  "carryLostRequest sha256_hex sessionKey conversationId checkpoint text rebuildFromHistory m =
     (case jm_get m sessionKey of None \<Rightarrow> (m, text)
      | Some r \<Rightarrow>
          (if rebuildFromHistory \<or> lr_conversationId r \<noteq> conversationId \<or> lr_checkpointKey r \<noteq> checkpointKey sha256_hex checkpoint
           then (jm_delete sessionKey m, text)
           else if text = lr_latest r then (m, lr_text r)
           else if text = lr_text r \<or> starts_with (lr_text r @ blank_line) text then (m, text)
           else (jm_delete sessionKey m, lr_text r @ blank_line @ text)))"

text \<open>\<open>setRecord\<close>; its loop stops early only at an undefined key, and keys are strings.\<close>

definition setRecord :: "utf16 \<Rightarrow> lost_request \<Rightarrow> lost_requests \<Rightarrow> lost_requests" where
  "setRecord sessionKey r m = jm_put MAX_RECORDS sessionKey r m"

definition rememberLostRequest ::
  "(bytes \<Rightarrow> utf16) \<Rightarrow> utf16 \<Rightarrow> utf16 \<Rightarrow> bytes option \<Rightarrow> utf16 \<Rightarrow> utf16 option \<Rightarrow> lost_requests \<Rightarrow> lost_requests" where
  "rememberLostRequest sha256_hex sessionKey conversationId checkpoint text latest m =
     (if sessionKey = [] \<or> text = [] \<or> text = lit ''.'' then m
      else setRecord sessionKey \<lparr>lr_conversationId = conversationId, lr_checkpointKey = checkpointKey sha256_hex checkpoint,
        lr_text = text, lr_latest = (case latest of None \<Rightarrow> text | Some l \<Rightarrow> l)\<rparr> m)"

definition noteCheckpoint :: "(bytes \<Rightarrow> utf16) \<Rightarrow> utf16 option \<Rightarrow> bytes \<Rightarrow> lost_requests \<Rightarrow> lost_requests" where
  "noteCheckpoint sha256_hex sessionKey bs m =
     (case sessionKey of None \<Rightarrow> m
      | Some k \<Rightarrow>
          (if k = [] then m
           else case jm_get m k of None \<Rightarrow> m
             | Some r \<Rightarrow> if checkpointKey sha256_hex (Some bs) \<noteq> lr_checkpointKey r then jm_delete k m else m))"

definition hasLostRequest :: "utf16 option \<Rightarrow> lost_requests \<Rightarrow> bool" where
  "hasLostRequest sessionKey m = (case sessionKey of None \<Rightarrow> False | Some k \<Rightarrow> k \<noteq> [] \<and> jm_has m k)"

definition dropLostRequest :: "utf16 option \<Rightarrow> lost_requests \<Rightarrow> lost_requests" where
  "dropLostRequest sessionKey m = (case sessionKey of None \<Rightarrow> m | Some k \<Rightarrow> if k = [] then m else jm_delete k m)"

text \<open>
  The record as the JSON value that is stringified, and a parsed one; JavaScript's own \<open>JSON\<close> text is
  a parameter of \<open>restoreLostRequest\<close>. Members are looked up as \<open>JSON.parse\<close> leaves them: the last of
  a repeated name counts.
\<close>

definition serializeLostRequest :: "utf16 option \<Rightarrow> lost_requests \<Rightarrow> json option" where
  "serializeLostRequest sessionKey m =
     (case sessionKey of None \<Rightarrow> None
      | Some k \<Rightarrow>
          (if k = [] then None
           else map_option (\<lambda>r. JObject [(lit ''conversationId'', JString (lr_conversationId r)),
             (lit ''checkpointKey'', JString (lr_checkpointKey r)), (lit ''text'', JString (lr_text r)),
             (lit ''latest'', JString (lr_latest r))]) (jm_get m k)))"

fun member :: "json \<Rightarrow> utf16 \<Rightarrow> json" where
  "member (JObject kvs) k = (case map_of (rev kvs) k of None \<Rightarrow> JUndefined | Some v \<Rightarrow> v)"
| "member _ k = JUndefined"

text \<open>
  \<open>None\<close> is a thrown error: reading a member of \<open>null\<close>, which \<open>JSON.parse\<close> returns without an error.
\<close>

definition restoreLostRequest :: "(utf16 \<Rightarrow> json option) \<Rightarrow> utf16 \<Rightarrow> utf16 option \<Rightarrow> lost_requests \<Rightarrow> lost_requests option" where
  "restoreLostRequest parse sessionKey raw m =
     (case raw of None \<Rightarrow> Some m
      | Some text \<Rightarrow>
          (if text = [] \<or> jm_has m sessionKey then Some m
           else case parse text of None \<Rightarrow> Some m
             | Some JNull \<Rightarrow> None
             | Some p \<Rightarrow>
                 (case (member p (lit ''conversationId''), member p (lit ''checkpointKey''), member p (lit ''text''), member p (lit ''latest'')) of
                    (JString conv, JString key, JString t, JString latest) \<Rightarrow>
                      Some (if t = [] then m else setRecord sessionKey \<lparr>lr_conversationId = conv, lr_checkpointKey = key, lr_text = t, lr_latest = latest\<rparr> m)
                  | (JString conv, JString key, JString t, JUndefined) \<Rightarrow>
                      Some (if t = [] then m else setRecord sessionKey \<lparr>lr_conversationId = conv, lr_checkpointKey = key, lr_text = t, lr_latest = t\<rparr> m)
                  | _ \<Rightarrow> Some m)))"

section \<open>A live turn\<close>

text \<open>
  The block of \<open>doStream\<close> that decides the text of a live turn: without a checkpoint the Run is
  rebuilt from the host history, with one the carried text is sent and remembered.
\<close>

definition live_turn :: "(bytes \<Rightarrow> utf16) \<Rightarrow> utf16 \<Rightarrow> utf16 \<Rightarrow> bytes option \<Rightarrow> utf16 \<Rightarrow> lost_requests \<Rightarrow> lost_requests \<times> utf16" where
  "live_turn sha256_hex sessionKey conversationId conversationState liveText m =
     (if sessionKey = [] then (m, liveText)
      else let rebuildFromHistory = (conversationState \<in> {None, Some []});
               (m, userText) = carryLostRequest sha256_hex sessionKey conversationId conversationState liveText rebuildFromHistory m
      in (if rebuildFromHistory then m
          else rememberLostRequest sha256_hex sessionKey conversationId conversationState userText (Some liveText) m, userText))"

datatype lr_event = LTurn utf16 utf16 "bytes option" utf16 | LNote "utf16 option" bytes | LDrop "utf16 option" | LRestore utf16 "utf16 option"

text \<open>A restore that throws leaves the records as they were.\<close>

fun lr_step :: "(bytes \<Rightarrow> utf16) \<Rightarrow> (utf16 \<Rightarrow> json option) \<Rightarrow> lost_requests \<Rightarrow> lr_event \<Rightarrow> lost_requests" where
  "lr_step sha parse m (LTurn k conv c text) = fst (live_turn sha k conv c text m)"
| "lr_step sha parse m (LNote k bs) = noteCheckpoint sha k bs m"
| "lr_step sha parse m (LDrop k) = dropLostRequest k m"
| "lr_step sha parse m (LRestore k raw) = (case restoreLostRequest parse k raw m of None \<Rightarrow> m | Some m' \<Rightarrow> m')"

fun lr_key :: "lr_event \<Rightarrow> utf16 option" where
  "lr_key (LTurn k conv c text) = Some k"
| "lr_key (LNote k bs) = k"
| "lr_key (LDrop k) = k"
| "lr_key (LRestore k raw) = Some k"

definition lr_run :: "(bytes \<Rightarrow> utf16) \<Rightarrow> (utf16 \<Rightarrow> json option) \<Rightarrow> lost_requests \<Rightarrow> lr_event list \<Rightarrow> lost_requests" where
  "lr_run sha parse m es = foldl (lr_step sha parse) m es"

section \<open>A record survives other sessions\<close>

lemma kept_carry:
  assumes "jm_kept k v n m" "j \<noteq> k"
  shows "jm_kept k v n (fst (carryLostRequest sha j conv c text b m))"
  using assms by (auto simp: carryLostRequest_def jm_kept_delete split: option.splits)

lemma kept_remember:
  assumes "jm_kept k v n m" "j \<noteq> k" "Suc (Suc n) \<le> MAX_RECORDS"
  shows "jm_kept k v (Suc n) (rememberLostRequest sha j conv c text latest m)"
  using assms by (auto simp: rememberLostRequest_def setRecord_def jm_kept_put intro: jm_kept_mono)

lemma restore_cases:
  assumes "restoreLostRequest parse j raw m = Some m'"
  shows "m' = m \<or> (\<exists>r. m' = setRecord j r m)"
  using assms unfolding restoreLostRequest_def
  by (simp split: option.splits if_splits json.splits) blast+

lemma kept_restore:
  assumes "jm_kept k v n m" "j \<noteq> k" "Suc (Suc n) \<le> MAX_RECORDS" "restoreLostRequest parse j raw m = Some m'"
  shows "jm_kept k v (Suc n) m'"
  using restore_cases [OF assms(4)] assms(1-3) jm_kept_mono [OF assms(1), of "Suc n"]
  by (auto simp: setRecord_def jm_kept_put)

lemma kept_step:
  assumes "jm_kept k v n m" "lr_key e \<noteq> Some k" "Suc (Suc n) \<le> MAX_RECORDS"
  shows "jm_kept k v (Suc n) (lr_step sha parse m e)"
proof (cases e)
  case (LTurn j conv c t)
  then show ?thesis using assms kept_carry [OF assms(1), of j]
    by (auto simp: live_turn_def Let_def case_prod_beta kept_remember intro: jm_kept_Suc)
next
  case (LNote j bs)
  then show ?thesis using assms by (auto simp: noteCheckpoint_def intro: jm_kept_Suc jm_kept_Suc [OF jm_kept_delete] split: option.splits)
next
  case (LDrop j)
  then show ?thesis using assms by (auto simp: dropLostRequest_def intro: jm_kept_Suc jm_kept_Suc [OF jm_kept_delete] split: option.splits)
next
  case (LRestore j raw)
  then show ?thesis using assms by (auto intro: jm_kept_Suc kept_restore split: option.splits)
qed

lemma kept_run:
  assumes "jm_kept k v n m" "\<forall>e \<in> set es. lr_key e \<noteq> Some k" "n + length es < MAX_RECORDS"
  shows "jm_kept k v (n + length es) (lr_run sha parse m es)"
  using assms
proof (induction es arbitrary: n m)
  case (Cons e es)
  have "jm_kept k v (Suc n) (lr_step sha parse m e)" using Cons.prems by (intro kept_step) auto
  from Cons.IH [OF this] Cons.prems show ?case by (simp add: lr_run_def)
qed (simp add: lr_run_def)

text \<open>A live turn on a checkpoint leaves a record of what it sent.\<close>

lemma live_turn_record:
  assumes "live_turn sha k conv (Some c) text m = (m', sent)" "k \<noteq> []" "c \<noteq> []" "sent \<noteq> []" "sent \<noteq> lit ''.''"
  shows "jm_kept k \<lparr>lr_conversationId = conv, lr_checkpointKey = sha c, lr_text = sent, lr_latest = text\<rparr> 0 m'"
  using assms
  by (auto simp: live_turn_def Let_def case_prod_beta rememberLostRequest_def setRecord_def checkpointKey_def MAX_RECORDS_def
      intro: jm_kept_new split: if_splits)

text \<open>C8: A user message that no checkpoint saved is sent again with the next turn: if a turn sent some
  text and at most 1,023 operations of other sessions follow, the next turn of the conversation on the
  same checkpoint sends the whole of that text first, a retry sends exactly it, and a newer message comes
  after it once; had a different checkpoint been noted, only the newer message is sent.\<close>

theorem unsaved_message_is_sent_again:
  assumes "live_turn sha k conv (Some c) text1 m = (m1, sent1)" and "k \<noteq> []" and "c \<noteq> []" and "sent1 \<noteq> []" and "sent1 \<noteq> lit ''.''"
    and "\<forall>e \<in> set es. lr_key e \<noteq> Some k" and "length es < MAX_RECORDS"
    and "sha d \<noteq> sha c" and "d \<noteq> []"
  shows "snd (live_turn sha k conv (Some c) text2 (lr_run sha parse m1 es)) =
      (if text2 = text1 \<or> text2 = sent1 then sent1
       else if starts_with (sent1 @ blank_line) text2 then text2 else sent1 @ blank_line @ text2)
    \<and> snd (live_turn sha k conv (Some c) text2 (lr_step sha parse (lr_run sha parse m1 es) (LNote (Some k) d))) = text2"
proof -
  let ?r = "\<lparr>lr_conversationId = conv, lr_checkpointKey = sha c, lr_text = sent1, lr_latest = text1\<rparr>"
  have "jm_kept k ?r (0 + length es) (lr_run sha parse m1 es)"
    using live_turn_record [OF assms(1-5)] assms(6, 7) by (intro kept_run) auto
  then have g: "jm_get (lr_run sha parse m1 es) k = Some ?r" by (rule jm_kept_get)
  have "snd (live_turn sha k conv (Some c) text2 (lr_run sha parse m1 es)) =
      (if text2 = text1 \<or> text2 = sent1 then sent1
       else if starts_with (sent1 @ blank_line) text2 then text2 else sent1 @ blank_line @ text2)"
    using assms(2, 3) g by (simp add: live_turn_def Let_def case_prod_beta carryLostRequest_def checkpointKey_def)
  moreover have "jm_get (lr_step sha parse (lr_run sha parse m1 es) (LNote (Some k) d)) k = None"
    using assms(2, 8, 9) g by (simp add: noteCheckpoint_def checkpointKey_def)
  then have "snd (live_turn sha k conv (Some c) text2 (lr_step sha parse (lr_run sha parse m1 es) (LNote (Some k) d))) = text2"
    using assms(2, 3) by (simp add: live_turn_def Let_def case_prod_beta carryLostRequest_def)
  ultimately show ?thesis by blast
qed

interpretation lr_store: bounded_store setRecord map_of length jm_wf MAX_RECORDS
  using jm_put_store [of MAX_RECORDS] by (simp add: setRecord_def [abs_def] MAX_RECORDS_def)

text \<open>A restart keeps the record: what is restored from a saved one is that record.\<close>

lemma restart_keeps_record:
  assumes "serializeLostRequest (Some k) m = Some p" "parse raw = Some p" "raw \<noteq> []" "lr_text (the (jm_get m k)) \<noteq> []"
  shows "\<exists>m'. restoreLostRequest parse k (Some raw) [] = Some m' \<and> jm_get m' k = jm_get m k"
  using assms
  by (auto simp: serializeLostRequest_def restoreLostRequest_def setRecord_def MAX_RECORDS_def lit_def split: if_splits option.splits)

text \<open>Message \<open>b\<close> is sent on the checkpoint \<open>1\<close> and lost, another session works, and message \<open>a\<close> is sent.\<close>

definition demo_sha :: "bytes \<Rightarrow> utf16" where "demo_sha = map ucast"

definition demo_sent :: lost_requests where
  "demo_sent = fst (live_turn demo_sha [1] [2] (Some [1]) [98] [])"

lemma demo_sent: "live_turn demo_sha [1] [2] (Some [1]) [98] [] = (demo_sent, [98])"
  by (simp add: demo_sent_def live_turn_def carryLostRequest_def Let_def)

theorem unsaved_message_is_sent_again_witness:
  "snd (live_turn demo_sha [1] [2] (Some [1]) [97] (lr_run demo_sha (\<lambda>_. None) demo_sent [LDrop (Some [3])])) = [98] @ blank_line @ [97]
   \<and> snd (live_turn demo_sha [1] [2] (Some [1]) [97]
       (lr_step demo_sha (\<lambda>_. None) (lr_run demo_sha (\<lambda>_. None) demo_sent [LDrop (Some [3])]) (LNote (Some [1]) [4]))) = [97]"
proof -
  have "\<not> starts_with ([98] @ blank_line) [97]" by (simp add: starts_with_def)
  then show ?thesis
    using unsaved_message_is_sent_again [OF demo_sent, of "[LDrop (Some [3])]" "[4]" "[97]" "\<lambda>_. None"]
    by (simp add: demo_sha_def lit_def MAX_RECORDS_def)
qed

end
