(* ===== verification/HostSteer.thy ===== *)
theory HostSteer
  imports JsonValue JsString
begin

text \<open>
  Messages OpenCode promotes as steers while Cursor still works on a step (\<open>src/src/host-steer.ts\<close>):
  the announced and queued steers, the early steers injected into a Run until OpenCode's own copy came,
  and their snapshot across a restart. Objects the code shares by reference carry a number.
\<close>

section \<open>State\<close>

record host_steer =
  hs_sessionID :: utf16
  hs_inboxID :: utf16
  hs_text :: utf16

record early_steer = host_steer +
  injectionId :: utf16
  es_run :: utf16
  delivered :: bool
  checkpointed :: bool
  answered :: bool
  promoted :: "bool option"
  hostTurn :: "utf16 option"
  es_ref :: nat \<comment> \<open>the object's identity\<close>

record steer_state =
  listeners :: "(utf16, nat) jsmap" \<comment> \<open>the listening function of a session, by reference\<close>
  injected :: "(utf16, early_steer list) jsmap"
  queued :: "(utf16, host_steer) jsmap"
  announced :: "utf16 list"
  nextRef :: nat

definition steer_start :: steer_state where
  "steer_start = \<lparr>listeners = [], injected = [], queued = [], announced = [], nextRef = 0\<rparr>"

definition MAX_RECORDS_PER_SESSION :: nat where "MAX_RECORDS_PER_SESSION = 32"
definition MAX_REMEMBERED :: nat where "MAX_REMEMBERED = 256"

text \<open>\<open>remember\<close> on a map and on a set: the oldest keys go, but never the one just added.\<close>

fun remember_key :: "('v \<Rightarrow> utf16) \<Rightarrow> utf16 \<Rightarrow> 'v list \<Rightarrow> 'v list" where
  "remember_key key_of key [] = []"
| "remember_key key_of key (e # es) =
     (if length (e # es) > MAX_REMEMBERED \<and> key_of e \<noteq> key then remember_key key_of key es else e # es)"

section \<open>Announcements\<close>

text \<open>\<open>None\<close> is \<open>undefined\<close>; the listener's answer is given.\<close>

definition announceHostSteer :: "(nat \<Rightarrow> host_steer \<Rightarrow> bool) \<Rightarrow> host_steer \<Rightarrow> steer_state \<Rightarrow> steer_state \<times> bool option" where
  "announceHostSteer call steer s =
     (if hs_inboxID steer \<in> set (announced s) then (s, None)
      else (s\<lparr>announced := remember_key (\<lambda>k. k) (hs_inboxID steer) (announced s @ [hs_inboxID steer])\<rparr>,
        Some (case jm_get (listeners s) (hs_sessionID steer) of None \<Rightarrow> False | Some f \<Rightarrow> call f steer)))"

definition rememberQueuedSteer :: "host_steer \<Rightarrow> steer_state \<Rightarrow> steer_state" where
  "rememberQueuedSteer steer s =
     (if hs_inboxID steer \<in> set (announced s) then s
      else s\<lparr>queued := remember_key fst (hs_inboxID steer) (jm_touch (hs_inboxID steer) steer (queued s))\<rparr>)"

definition takeQueuedSteer :: "utf16 \<Rightarrow> steer_state \<Rightarrow> steer_state \<times> host_steer option" where
  "takeQueuedSteer inboxID s = (s\<lparr>queued := jm_delete inboxID (queued s)\<rparr>, jm_get (queued s) inboxID)"

definition listenForHostSteers :: "utf16 \<Rightarrow> nat \<Rightarrow> steer_state \<Rightarrow> steer_state" where
  "listenForHostSteers sessionID listener s = s\<lparr>listeners := jm_set sessionID listener (listeners s)\<rparr>"

text \<open>The function \<open>listenForHostSteers\<close> returns.\<close>

definition stopListening :: "utf16 \<Rightarrow> nat \<Rightarrow> steer_state \<Rightarrow> steer_state" where
  "stopListening sessionID listener s =
     (if jm_get (listeners s) sessionID = Some listener then s\<lparr>listeners := jm_delete sessionID (listeners s)\<rparr> else s)"

section \<open>Early steers\<close>

definition recordEarlySteer :: "early_steer \<Rightarrow> steer_state \<Rightarrow> steer_state \<times> bool" where
  "recordEarlySteer steer s =
     (case jm_get (injected s) (hs_sessionID steer) of
        Some rs \<Rightarrow>
          (if length rs \<ge> MAX_RECORDS_PER_SESSION then (s, False)
           else (s\<lparr>injected := jm_set (hs_sessionID steer) (rs @ [steer\<lparr>es_ref := nextRef s\<rparr>]) (injected s), nextRef := Suc (nextRef s)\<rparr>, True))
      | None \<Rightarrow>
          (if length (injected s) \<ge> MAX_REMEMBERED then (s, False)
           else (s\<lparr>injected := jm_set (hs_sessionID steer) [steer\<lparr>es_ref := nextRef s\<rparr>] (injected s), nextRef := Suc (nextRef s)\<rparr>, True)))"

definition keep :: "utf16 \<Rightarrow> early_steer list \<Rightarrow> steer_state \<Rightarrow> steer_state" where
  "keep sessionID rs s = s\<lparr>injected := (if rs = [] then jm_delete sessionID (injected s) else jm_set sessionID rs (injected s))\<rparr>"

definition steers_of :: "utf16 \<Rightarrow> steer_state \<Rightarrow> early_steer list" where
  "steers_of sessionID s = (case jm_get (injected s) sessionID of None \<Rightarrow> [] | Some rs \<Rightarrow> rs)"

text \<open>\<open>sessionID ? \<dots> : undefined\<close>: the records of a session named by a non-empty string.\<close>

definition named_steers :: "utf16 option \<Rightarrow> steer_state \<Rightarrow> early_steer list option" where
  "named_steers sessionID s = (case sessionID of None \<Rightarrow> None | Some sid \<Rightarrow> if sid = [] then None else jm_get (injected s) sid)"

definition findEarlySteer :: "utf16 option \<Rightarrow> utf16 \<Rightarrow> steer_state \<Rightarrow> early_steer option" where
  "findEarlySteer sessionID iid s = Option.bind (named_steers sessionID s) (find (\<lambda>r. injectionId r = iid))"

definition isEarlySteerTracked :: "utf16 \<Rightarrow> utf16 \<Rightarrow> steer_state \<Rightarrow> bool" where
  "isEarlySteerTracked sessionID iid s = list_ex (\<lambda>r. injectionId r = iid) (steers_of sessionID s)"

definition forgetUndeliveredEarlySteer :: "utf16 \<Rightarrow> utf16 \<Rightarrow> steer_state \<Rightarrow> steer_state" where
  "forgetUndeliveredEarlySteer sessionID iid s =
     keep sessionID (filter (\<lambda>r. injectionId r \<noteq> iid \<or> delivered r \<or> promoted r = Some True) (steers_of sessionID s)) s"

definition forgetEarlySteerOfInbox :: "utf16 \<Rightarrow> utf16 \<Rightarrow> steer_state \<Rightarrow> steer_state" where
  "forgetEarlySteerOfInbox sessionID inboxID s = keep sessionID (filter (\<lambda>r. hs_inboxID r \<noteq> inboxID) (steers_of sessionID s)) s"

text \<open>A change to one object of a list, and to all of them, in place.\<close>

fun update_first :: "('r \<Rightarrow> bool) \<Rightarrow> ('r \<Rightarrow> 'r) \<Rightarrow> 'r list \<Rightarrow> 'r list" where
  "update_first P f [] = []"
| "update_first P f (r # rs) = (if P r then f r # rs else r # update_first P f rs)"

definition markEarlySteerDelivered :: "utf16 option \<Rightarrow> utf16 option \<Rightarrow> steer_state \<Rightarrow> steer_state \<times> bool" where
  "markEarlySteerDelivered sessionID iid s =
     (case (named_steers sessionID s, iid) of
        (Some rs, Some i) \<Rightarrow>
          (if i \<noteq> [] \<and> list_ex (\<lambda>r. injectionId r = i) rs
           then (s\<lparr>injected := jm_set (the sessionID) (update_first (\<lambda>r. injectionId r = i) (\<lambda>r. r\<lparr>delivered := True\<rparr>) rs) (injected s)\<rparr>, True)
           else (s, False))
      | _ \<Rightarrow> (s, False))"

definition markEarlySteersCheckpointed :: "utf16 option \<Rightarrow> utf16 \<Rightarrow> steer_state \<Rightarrow> steer_state" where
  "markEarlySteersCheckpointed sessionID r s =
     (case named_steers sessionID s of None \<Rightarrow> s
      | Some rs \<Rightarrow> s\<lparr>injected := jm_set (the sessionID)
          (map (\<lambda>x. if es_run x = r \<and> delivered x then x\<lparr>checkpointed := True\<rparr> else x) rs) (injected s)\<rparr>)"

text \<open>What the end of a turn does with one record: the record as it is left, if it stays, and its count.\<close>

datatype settled = Untouched | Answered | Undelivered | LeftToHost

definition settle_one :: "utf16 \<Rightarrow> early_steer \<Rightarrow> early_steer option \<times> settled" where
  "settle_one r x =
     (if es_run x \<noteq> r then (if answered x then None else Some x, Untouched)
      else if promoted x = Some True then
        (if delivered x then (Some (x\<lparr>answered := True\<rparr>), if answered x then Untouched else Answered)
         else (Some (x\<lparr>delivered := True\<rparr>), Undelivered))
      else if \<not> delivered x then (None, LeftToHost)
      else (Some (x\<lparr>answered := True\<rparr>), if answered x then Untouched else Answered))"

record settlement =
  st_answered :: nat
  st_undelivered :: "early_steer list"
  st_leftToHost :: nat

definition settleEarlySteers :: "utf16 option \<Rightarrow> utf16 \<Rightarrow> steer_state \<Rightarrow> steer_state \<times> settlement" where
  "settleEarlySteers sessionID r s =
     (case named_steers sessionID s of
        None \<Rightarrow> (s, \<lparr>st_answered = 0, st_undelivered = [], st_leftToHost = 0\<rparr>)
      | Some rs \<Rightarrow>
          (keep (the sessionID) (List.map_filter (\<lambda>x. fst (settle_one r x)) rs) s,
           \<lparr>st_answered = length (filter (\<lambda>x. snd (settle_one r x) = Answered) rs),
            st_undelivered = List.map_filter (\<lambda>x. if snd (settle_one r x) = Undelivered then fst (settle_one r x) else None) rs,
            st_leftToHost = length (filter (\<lambda>x. snd (settle_one r x) = LeftToHost) rs)\<rparr>))"

definition hand_over_one :: "utf16 \<Rightarrow> utf16 option \<Rightarrow> early_steer \<Rightarrow> early_steer option" where
  "hand_over_one from to x =
     (if es_run x \<noteq> from \<or> answered x then Some x
      else case to of None \<Rightarrow> None
        | Some t \<Rightarrow>
            (if t = [] \<or> \<not> checkpointed x \<and> promoted x \<noteq> Some True then None
             else Some (let y = x\<lparr>es_run := t\<rparr> in if checkpointed x then y else y\<lparr>delivered := False\<rparr>)))"

definition handOverEarlySteers :: "utf16 option \<Rightarrow> utf16 \<Rightarrow> utf16 option \<Rightarrow> steer_state \<Rightarrow> steer_state" where
  "handOverEarlySteers sessionID from to s =
     (case named_steers sessionID s of None \<Rightarrow> s
      | Some rs \<Rightarrow> keep (the sessionID) (List.map_filter (hand_over_one from to) rs) s)"

text \<open>
  \<open>message.replace(SYSTEM_REMINDER, "")\<close>: each opening tag with the nearest closing tag after it is cut
  out; without a closing tag nothing more matches.
\<close>

definition REMINDER_OPEN :: utf16 where "REMINDER_OPEN = lit ''<system-reminder>''"
definition REMINDER_CLOSE :: utf16 where "REMINDER_CLOSE = lit ''</system-reminder>''"

function drop_reminders :: "utf16 \<Rightarrow> utf16" where
  "drop_reminders s =
     (case indexOf s REMINDER_OPEN 0 of None \<Rightarrow> s
      | Some i \<Rightarrow>
          (case indexOf s REMINDER_CLOSE (i + length REMINDER_OPEN) of None \<Rightarrow> s
           | Some j \<Rightarrow> take i s @ drop_reminders (drop (j + length REMINDER_CLOSE) s)))"
  by pat_completeness auto
termination
  by (relation "measure length") (auto simp: indexOf_Some REMINDER_CLOSE_def lit_def)

definition carriesSteer :: "utf16 \<Rightarrow> utf16 \<Rightarrow> bool" where
  "carriesSteer message t \<longleftrightarrow> js_trim (drop_reminders message) = js_trim t"

fun match_loop :: "(early_steer \<Rightarrow> bool) \<Rightarrow> utf16 list \<Rightarrow> early_steer list \<Rightarrow> early_steer list option" where
  "match_loop accept [] candidates = Some []"
| "match_loop accept (message # ms) candidates =
     (case find (\<lambda>r. accept r \<and> carriesSteer message (hs_text r)) candidates of None \<Rightarrow> None
      | Some r \<Rightarrow> map_option (Cons r) (match_loop accept ms (remove1 r candidates)))"

definition matchEarlySteers :: "utf16 option \<Rightarrow> utf16 list \<Rightarrow> (early_steer \<Rightarrow> bool) \<Rightarrow> steer_state \<Rightarrow> early_steer list" where
  "matchEarlySteers sessionID messages accept s =
     (case named_steers sessionID s of None \<Rightarrow> []
      | Some rs \<Rightarrow> if rs = [] \<or> messages = [] then [] else case match_loop accept messages rs of None \<Rightarrow> [] | Some ms \<Rightarrow> ms)"

definition forgetEarlySteerRecords :: "utf16 \<Rightarrow> nat list \<Rightarrow> steer_state \<Rightarrow> steer_state" where
  "forgetEarlySteerRecords sessionID refs s = keep sessionID (filter (\<lambda>r. es_ref r \<notin> set refs) (steers_of sessionID s)) s"

definition needsHostHistory :: "utf16 option \<Rightarrow> utf16 option \<Rightarrow> steer_state \<Rightarrow> bool" where
  "needsHostHistory sessionID openRun s =
     (case named_steers sessionID s of None \<Rightarrow> False
      | Some rs \<Rightarrow> list_ex (\<lambda>r. \<not> answered r \<and> Some (es_run r) \<noteq> openRun \<and> (promoted r = Some True \<or> checkpointed r)) rs)"

definition clearUnansweredEarlySteers :: "utf16 option \<Rightarrow> steer_state \<Rightarrow> steer_state" where
  "clearUnansweredEarlySteers sessionID s =
     (case sessionID of None \<Rightarrow> s | Some sid \<Rightarrow> if sid = [] then s else keep sid (filter answered (steers_of sid s)) s)"

definition forgetEarlySteers :: "utf16 \<Rightarrow> steer_state \<Rightarrow> steer_state" where
  "forgetEarlySteers sessionID s = s\<lparr>injected := jm_delete sessionID (injected s), listeners := jm_delete sessionID (listeners s)\<rparr>"

section \<open>The restart snapshot\<close>

definition js_one :: "64 word" where "js_one = 0x3FF0000000000000"

definition steer_json :: "early_steer \<Rightarrow> json" where
  "steer_json r = JObject ([(lit ''sessionID'', JString (hs_sessionID r)), (lit ''inboxID'', JString (hs_inboxID r)),
     (lit ''text'', JString (hs_text r)), (lit ''injectionId'', JString (injectionId r)), (lit ''run'', JString (es_run r)),
     (lit ''delivered'', JBoolean (delivered r)), (lit ''checkpointed'', JBoolean (checkpointed r)), (lit ''answered'', JBoolean (answered r))]
     @ (case promoted r of None \<Rightarrow> [] | Some p \<Rightarrow> [(lit ''promoted'', JBoolean p)])
     @ (case hostTurn r of None \<Rightarrow> [] | Some t \<Rightarrow> [(lit ''hostTurn'', JString t)]))"

text \<open>The value that is stringified.\<close>

definition serializeEarlySteers :: "utf16 \<Rightarrow> steer_state \<Rightarrow> json option" where
  "serializeEarlySteers sessionID s =
     (if steers_of sessionID s = [] then None
      else Some (JObject [(lit ''version'', JNumber js_one), (lit ''records'', JArray (map steer_json (steers_of sessionID s)))]))"

fun json_member :: "json \<Rightarrow> utf16 \<Rightarrow> json" where
  "json_member (JObject kvs) k = (case map_of (rev kvs) k of None \<Rightarrow> JUndefined | Some v \<Rightarrow> v)"
| "json_member _ k = JUndefined"

fun text_of :: "json \<Rightarrow> utf16 option" where
  "text_of (JString t) = (if t = [] then None else Some t)"
| "text_of _ = None"

fun bool_of :: "json \<Rightarrow> bool option" where
  "bool_of (JBoolean b) = Some b"
| "bool_of _ = None"

text \<open>\<open>/^[a-f0-9]{64}$/\<close>\<close>

definition is_hash :: "utf16 \<Rightarrow> bool" where
  "is_hash t \<longleftrightarrow> length t = 64 \<and> list_all (\<lambda>c. is_digit c \<or> 97 \<le> c \<and> c \<le> 102) t"

fun hash_of :: "json \<Rightarrow> utf16 option" where
  "hash_of (JString t) = (if is_hash t then Some t else None)"
| "hash_of _ = None"

definition restore_record :: "utf16 \<Rightarrow> json \<Rightarrow> early_steer option" where
  "restore_record sessionID v =
     (let f = (\<lambda>k. json_member v (lit k)) in
      if f ''sessionID'' \<noteq> JString sessionID then None
      else case (text_of (f ''inboxID''), text_of (f ''injectionId''), text_of (f ''run''), text_of (f ''text'')) of
        (Some inbox, Some iid, Some r, Some t) \<Rightarrow>
          (case (bool_of (f ''delivered''), bool_of (f ''checkpointed''), bool_of (f ''answered'')) of
             (Some d, Some c, Some a) \<Rightarrow>
               (if (c \<or> a) \<and> \<not> d then None
                else if f ''promoted'' \<noteq> JUndefined \<and> bool_of (f ''promoted'') = None then None
                else if f ''hostTurn'' \<noteq> JUndefined \<and> hash_of (f ''hostTurn'') = None then None
                else Some \<lparr>hs_sessionID = sessionID, hs_inboxID = inbox, hs_text = t, injectionId = iid, es_run = r,
                  delivered = d, checkpointed = c, answered = a, promoted = bool_of (f ''promoted''),
                  hostTurn = hash_of (f ''hostTurn''), es_ref = 0\<rparr>)
           | _ \<Rightarrow> None)
      | _ \<Rightarrow> None)"

fun number_refs :: "nat \<Rightarrow> early_steer list \<Rightarrow> early_steer list" where
  "number_refs n [] = []"
| "number_refs n (r # rs) = r\<lparr>es_ref := n\<rparr> # number_refs (Suc n) rs"

definition restoreEarlySteers :: "(utf16 \<Rightarrow> json option) \<Rightarrow> utf16 \<Rightarrow> utf16 option \<Rightarrow> steer_state \<Rightarrow> steer_state" where
  "restoreEarlySteers parse sessionID encoded s =
     (case encoded of None \<Rightarrow> s
      | Some t \<Rightarrow>
          (if t = [] \<or> jm_has (injected s) sessionID \<or> length (injected s) \<ge> MAX_REMEMBERED then s
           else case parse t of None \<Rightarrow> s
             | Some v \<Rightarrow>
                 (case (json_member v (lit ''version''), json_member v (lit ''records'')) of
                    (JNumber n, JArray vs) \<Rightarrow>
                      (if n \<noteq> js_one \<or> length vs > MAX_RECORDS_PER_SESSION then s
                       else case those (map (restore_record sessionID) vs) of None \<Rightarrow> s
                         | Some rs \<Rightarrow>
                             (if rs = [] then s
                              else s\<lparr>injected := jm_set sessionID (number_refs (nextRef s) rs) (injected s),
                                nextRef := nextRef s + length rs\<rparr>))
                  | _ \<Rightarrow> s)))"

section \<open>Sequences of operations\<close>

text \<open>
  \<open>SPromote\<close> and \<open>SHostTurn\<close> are the assignments \<open>language-model.ts\<close> makes to records it matched: the
  host's copy came with the step's tool results, or an answered steer's copy came at a prompt boundary.
\<close>

datatype steer_event = SAnnounce host_steer | SQueue host_steer | STake utf16 | SListen utf16 nat | SStop utf16 nat
  | SRecord early_steer | SForgetUndelivered utf16 utf16 | SForgetInbox utf16 utf16 | SDelivered "utf16 option" "utf16 option"
  | SCheckpointed "utf16 option" utf16 | SSettle "utf16 option" utf16 | SHandOver "utf16 option" utf16 "utf16 option"
  | SForgetRecords utf16 "nat list" | SClear "utf16 option" | SForget utf16 | SRestore utf16 "utf16 option"
  | SPromote utf16 "nat list" utf16 | SHostTurn utf16 "nat list" utf16

definition assign :: "utf16 \<Rightarrow> nat list \<Rightarrow> (early_steer \<Rightarrow> early_steer) \<Rightarrow> steer_state \<Rightarrow> steer_state" where
  "assign sessionID refs f s =
     s\<lparr>injected := AList.map_entry sessionID (map (\<lambda>r. if es_ref r \<in> set refs then f r else r)) (injected s)\<rparr>"

fun steer_step :: "(nat \<Rightarrow> host_steer \<Rightarrow> bool) \<Rightarrow> (utf16 \<Rightarrow> json option) \<Rightarrow> steer_state \<Rightarrow> steer_event \<Rightarrow> steer_state" where
  "steer_step call parse s (SAnnounce steer) = fst (announceHostSteer call steer s)"
| "steer_step call parse s (SQueue steer) = rememberQueuedSteer steer s"
| "steer_step call parse s (STake inboxID) = fst (takeQueuedSteer inboxID s)"
| "steer_step call parse s (SListen sid f) = listenForHostSteers sid f s"
| "steer_step call parse s (SStop sid f) = stopListening sid f s"
| "steer_step call parse s (SRecord steer) = fst (recordEarlySteer steer s)"
| "steer_step call parse s (SForgetUndelivered sid iid) = forgetUndeliveredEarlySteer sid iid s"
| "steer_step call parse s (SForgetInbox sid inboxID) = forgetEarlySteerOfInbox sid inboxID s"
| "steer_step call parse s (SDelivered sid iid) = fst (markEarlySteerDelivered sid iid s)"
| "steer_step call parse s (SCheckpointed sid r) = markEarlySteersCheckpointed sid r s"
| "steer_step call parse s (SSettle sid r) = fst (settleEarlySteers sid r s)"
| "steer_step call parse s (SHandOver sid from to) = handOverEarlySteers sid from to s"
| "steer_step call parse s (SForgetRecords sid refs) = forgetEarlySteerRecords sid refs s"
| "steer_step call parse s (SClear sid) = clearUnansweredEarlySteers sid s"
| "steer_step call parse s (SForget sid) = forgetEarlySteers sid s"
| "steer_step call parse s (SRestore sid encoded) = restoreEarlySteers parse sid encoded s"
| "steer_step call parse s (SPromote sid refs h) = assign sid refs (\<lambda>r. r\<lparr>promoted := Some True, hostTurn := Some h\<rparr>) s"
| "steer_step call parse s (SHostTurn sid refs h) = assign sid refs (\<lambda>r. r\<lparr>hostTurn := Some h\<rparr>) s"

definition steer_run :: "(nat \<Rightarrow> host_steer \<Rightarrow> bool) \<Rightarrow> (utf16 \<Rightarrow> json option) \<Rightarrow> steer_state \<Rightarrow> steer_event list \<Rightarrow> steer_state" where
  "steer_run call parse s es = foldl (steer_step call parse) s es"

text \<open>
  What callers pass: a new record has its texts and no flag but possibly \<open>promoted\<close>, a Run it is handed
  to is named, and a prompt boundary is a SHA-256 hash in hexadecimal.
\<close>

fun event_ok :: "steer_event \<Rightarrow> bool" where
  "event_ok (SRecord r) \<longleftrightarrow> hs_sessionID r \<noteq> [] \<and> hs_inboxID r \<noteq> [] \<and> hs_text r \<noteq> [] \<and> injectionId r \<noteq> [] \<and> es_run r \<noteq> []
     \<and> \<not> delivered r \<and> \<not> checkpointed r \<and> \<not> answered r \<and> (case hostTurn r of None \<Rightarrow> True | Some h \<Rightarrow> is_hash h)"
| "event_ok (SPromote sid refs h) \<longleftrightarrow> is_hash h"
| "event_ok (SHostTurn sid refs h) \<longleftrightarrow> is_hash h"
| "event_ok _ \<longleftrightarrow> True"

section \<open>The invariant\<close>

definition record_ok :: "utf16 \<Rightarrow> early_steer \<Rightarrow> bool" where
  "record_ok sid r \<longleftrightarrow> hs_sessionID r = sid \<and> hs_inboxID r \<noteq> [] \<and> hs_text r \<noteq> [] \<and> injectionId r \<noteq> [] \<and> es_run r \<noteq> []
     \<and> (checkpointed r \<or> answered r \<longrightarrow> delivered r) \<and> (case hostTurn r of None \<Rightarrow> True | Some h \<Rightarrow> is_hash h)"

definition session_ok :: "utf16 \<Rightarrow> early_steer list \<Rightarrow> bool" where
  "session_ok sid rs \<longleftrightarrow> rs \<noteq> [] \<and> length rs \<le> MAX_RECORDS_PER_SESSION \<and> list_all (record_ok sid) rs"

definition steer_inv :: "steer_state \<Rightarrow> bool" where
  "steer_inv s \<longleftrightarrow> jm_wf (injected s) \<and> length (injected s) \<le> MAX_REMEMBERED
     \<and> (\<forall>sid rs. jm_get (injected s) sid = Some rs \<longrightarrow> session_ok sid rs)"

lemma inv_other [simp]:
  "steer_inv (s\<lparr>nextRef := n\<rparr>) = steer_inv s" "steer_inv (s\<lparr>listeners := l\<rparr>) = steer_inv s"
  "steer_inv (s\<lparr>queued := q\<rparr>) = steer_inv s" "steer_inv (s\<lparr>announced := a\<rparr>) = steer_inv s"
  by (simp_all add: steer_inv_def)

lemma inv_delete: "steer_inv s \<Longrightarrow> steer_inv (s\<lparr>injected := jm_delete sid (injected s)\<rparr>)"
  by (auto simp: steer_inv_def jm_delete_filter jm_get_filter intro: order_trans [OF length_filter_le] split: option.splits if_splits)

lemma inv_set:
  assumes "steer_inv s" "session_ok sid rs" "jm_has (injected s) sid \<or> length (injected s) < MAX_REMEMBERED"
  shows "steer_inv (s\<lparr>injected := jm_set sid rs (injected s)\<rparr>)"
proof -
  have "length (jm_set sid rs (injected s)) \<le> MAX_REMEMBERED"
  proof (cases "jm_get (injected s) sid")
    case None
    then have "jm_set sid rs (injected s) = injected s @ [(sid, rs)]" by (intro jm_set_fresh) (simp add: map_of_eq_None_iff)
    then show ?thesis using assms(3) None by simp
  next
    case (Some w)
    then show ?thesis using assms(1) by (simp add: jm_length_set_present steer_inv_def)
  qed
  then show ?thesis using assms(1, 2) by (auto simp: steer_inv_def)
qed

lemma inv_keep:
  assumes "steer_inv s" "list_all (record_ok sid) rs" "length rs \<le> length (steers_of sid s)"
  shows "steer_inv (keep sid rs s)"
proof (cases "rs = []")
  case True
  then show ?thesis using inv_delete [OF assms(1)] by (simp add: keep_def)
next
  case False
  then obtain old where old: "jm_get (injected s) sid = Some old" "length rs \<le> length old"
    using assms(3) by (auto simp: steers_of_def split: option.splits)
  then have "session_ok sid old" using assms(1) unfolding steer_inv_def by blast
  then have "session_ok sid rs" using assms(2) False old by (auto simp: session_ok_def)
  then show ?thesis using inv_set [OF assms(1)] False old by (simp add: keep_def)
qed

lemma steers_ok: "steer_inv s \<Longrightarrow> list_all (record_ok sid) (steers_of sid s)"
  by (auto simp: steers_of_def steer_inv_def session_ok_def split: option.splits)

lemma inv_filter: "steer_inv s \<Longrightarrow> steer_inv (keep sid (filter P (steers_of sid s)) s)"
  using steers_ok [of s sid] by (intro inv_keep) (auto simp: list_all_iff)

lemma length_map_filter: "length (List.map_filter f xs) \<le> length xs"
  by (induction xs) (auto simp: List.map_filter_simps split: option.splits)

lemma all_map_filter: "(\<And>x y. x \<in> set xs \<Longrightarrow> f x = Some y \<Longrightarrow> P y) \<Longrightarrow> list_all P (List.map_filter f xs)"
  by (induction xs) (auto simp: List.map_filter_simps split: option.splits)

lemma named_steers_Some: "named_steers sid s = Some rs \<longleftrightarrow> (\<exists>k. sid = Some k \<and> k \<noteq> [] \<and> jm_get (injected s) k = Some rs)"
  by (auto simp: named_steers_def split: option.splits)

lemma inv_map_filter:
  assumes "steer_inv s" "named_steers sid s = Some rs" "\<And>x y. record_ok (the sid) x \<Longrightarrow> f x = Some y \<Longrightarrow> record_ok (the sid) y"
  shows "steer_inv (keep (the sid) (List.map_filter f rs) s)"
proof -
  have "steers_of (the sid) s = rs" using assms(2) by (auto simp: named_steers_Some steers_of_def)
  moreover have "list_all (record_ok (the sid)) (List.map_filter f rs)"
    using steers_ok [OF assms(1), of "the sid"] assms(3) calculation by (intro all_map_filter) (auto simp: list_all_iff)
  ultimately show ?thesis using assms(1) length_map_filter [of f rs] by (intro inv_keep) auto
qed

lemma inv_update:
  assumes "steer_inv s" "named_steers sid s = Some rs" "length rs' = length rs" "list_all (record_ok (the sid)) rs'"
  shows "steer_inv (s\<lparr>injected := jm_set (the sid) rs' (injected s)\<rparr>)"
proof -
  have g: "jm_get (injected s) (the sid) = Some rs" using assms(2) by (auto simp: named_steers_Some)
  then have "session_ok (the sid) rs'" using assms unfolding steer_inv_def session_ok_def by (metis length_0_conv)
  then show ?thesis using g inv_set [OF assms(1)] by simp
qed

lemma update_first_length [simp]: "length (update_first P f rs) = length rs"
  by (induction rs) auto

lemma update_first_all: "list_all Q rs \<Longrightarrow> (\<And>r. Q r \<Longrightarrow> P r \<Longrightarrow> Q (f r)) \<Longrightarrow> list_all Q (update_first P f rs)"
  by (induction rs) auto

lemma map_entry_length [simp]: "length (AList.map_entry k f m) = length m"
  by (induction m) auto

lemma inv_assign:
  assumes "steer_inv s" "\<And>r. record_ok sid r \<Longrightarrow> record_ok sid (f r)"
  shows "steer_inv (assign sid refs f s)"
proof -
  have "session_ok j rs" if g: "jm_get (injected (assign sid refs f s)) j = Some rs" for j rs
  proof (cases "j = sid")
    case True
    then obtain old where old: "jm_get (injected s) sid = Some old" "rs = map (\<lambda>r. if es_ref r \<in> set refs then f r else r) old"
      using g by (auto simp: assign_def)
    then have "session_ok sid old" using assms(1) unfolding steer_inv_def by blast
    then show ?thesis using True old assms(2) by (auto simp: session_ok_def list_all_iff)
  next
    case False
    then show ?thesis using g assms(1) by (auto simp: assign_def steer_inv_def)
  qed
  moreover have "length (injected (assign sid refs f s)) = length (injected s)"
    by (simp add: assign_def)
  ultimately show ?thesis using assms(1) by (simp add: steer_inv_def assign_def)
qed

lemma number_refs_length [simp]: "length (number_refs n rs) = length rs"
  by (induction rs arbitrary: n) auto

lemma number_refs_all: "list_all (record_ok sid) rs \<Longrightarrow> list_all (record_ok sid) (number_refs n rs)"
  by (induction rs arbitrary: n) (auto simp: record_ok_def)

lemma text_of_Some: "text_of v = Some t \<Longrightarrow> t \<noteq> []"
  by (cases v) (auto split: if_splits)

lemma hash_of_Some: "hash_of v = Some t \<Longrightarrow> is_hash t"
  by (cases v) (auto split: if_splits)

lemma restore_record_ok: "restore_record sid v = Some r \<Longrightarrow> record_ok sid r"
  unfolding restore_record_def Let_def
  by (auto simp: record_ok_def split: if_splits option.splits dest: text_of_Some hash_of_Some)

lemma those_all:
  "those (map f vs) = Some rs \<Longrightarrow> \<forall>v \<in> set vs. \<forall>r. f v = Some r \<longrightarrow> P r \<Longrightarrow> list_all P rs \<and> length rs = length vs"
  by (induction vs arbitrary: rs) (auto split: option.splits)

lemma settle_one_ok: "record_ok sid x \<Longrightarrow> fst (settle_one r x) = Some y \<Longrightarrow> record_ok sid y"
  by (auto simp: settle_one_def record_ok_def split: if_splits)

lemma hand_over_ok: "record_ok sid x \<Longrightarrow> hand_over_one from to x = Some y \<Longrightarrow> record_ok sid y"
  by (auto simp: hand_over_one_def record_ok_def Let_def split: if_splits option.splits)

lemma inv_record:
  assumes "steer_inv s" "event_ok (SRecord r)"
  shows "steer_inv (fst (recordEarlySteer r s))"
proof (cases "jm_get (injected s) (hs_sessionID r)")
  case None
  have "session_ok (hs_sessionID r) [r\<lparr>es_ref := nextRef s\<rparr>]"
    using assms(2) by (auto simp: session_ok_def record_ok_def MAX_RECORDS_PER_SESSION_def)
  from inv_set [OF assms(1) this] None show ?thesis
    using assms(1) by (simp add: recordEarlySteer_def)
next
  case (Some rs)
  show ?thesis
  proof (cases "length rs < MAX_RECORDS_PER_SESSION")
    case True
    have "session_ok (hs_sessionID r) rs" using assms(1) Some unfolding steer_inv_def by blast
    then have "session_ok (hs_sessionID r) (rs @ [r\<lparr>es_ref := nextRef s\<rparr>])"
      using assms(2) True by (auto simp: session_ok_def record_ok_def)
    from inv_set [OF assms(1) this] Some True show ?thesis
      by (simp add: recordEarlySteer_def)
  qed (simp add: recordEarlySteer_def Some assms(1))
qed

lemma inv_restore:
  assumes "steer_inv s"
  shows "steer_inv (restoreEarlySteers parse sid encoded s)"
proof (cases "restoreEarlySteers parse sid encoded s = s")
  case False
  then obtain vs rs where r: "those (map (restore_record sid) vs) = Some rs" "rs \<noteq> []" "length vs \<le> MAX_RECORDS_PER_SESSION"
      "\<not> jm_has (injected s) sid" "length (injected s) < MAX_REMEMBERED"
      "restoreEarlySteers parse sid encoded s = s\<lparr>injected := jm_set sid (number_refs (nextRef s) rs) (injected s), nextRef := nextRef s + length rs\<rparr>"
    by (auto simp: restoreEarlySteers_def split: option.splits if_splits json.splits)
  have "list_all (record_ok sid) rs \<and> length rs = length vs"
    using those_all [OF r(1), of "record_ok sid"] restore_record_ok by blast
  moreover have "number_refs (nextRef s) rs \<noteq> []" using r(2) by (cases rs) auto
  ultimately have "session_ok sid (number_refs (nextRef s) rs)"
    using r(3) by (simp add: session_ok_def number_refs_all)
  from inv_set [OF assms this] r(5, 6) show ?thesis by simp
qed (simp add: assms)

lemma steer_step_inv [model_inv]:
  assumes "steer_inv s" "event_ok e"
  shows "steer_inv (steer_step call parse s e)"
proof (cases e)
  case (SRecord r)
  then show ?thesis using inv_record assms by simp
next
  case (SDelivered sid iid)
  have "steer_inv (fst (markEarlySteerDelivered sid iid s))"
    using assms(1) steers_ok [OF assms(1), of "the sid"]
    by (auto simp: markEarlySteerDelivered_def split: option.splits intro!: inv_update update_first_all)
      (auto simp: named_steers_Some steers_of_def record_ok_def)
  then show ?thesis by (simp add: SDelivered)
next
  case (SCheckpointed sid r)
  have "steer_inv (markEarlySteersCheckpointed sid r s)"
    using assms(1) steers_ok [OF assms(1), of "the sid"]
    by (auto simp: markEarlySteersCheckpointed_def split: option.splits intro!: inv_update)
      (auto simp: named_steers_Some steers_of_def record_ok_def list_all_iff)
  then show ?thesis by (simp add: SCheckpointed)
next
  case (SSettle sid r)
  then show ?thesis
    using assms(1) settle_one_ok by (auto simp: settleEarlySteers_def split: option.splits intro!: inv_map_filter)
next
  case (SHandOver sid run_from run_to)
  then show ?thesis
    using assms(1) hand_over_ok by (auto simp: handOverEarlySteers_def split: option.splits intro!: inv_map_filter)
next
  case (SPromote sid refs h)
  then show ?thesis using assms by (auto simp: record_ok_def intro!: inv_assign)
next
  case (SHostTurn sid refs h)
  then show ?thesis using assms by (auto simp: record_ok_def intro!: inv_assign)
next
  case (SForget sid)
  then show ?thesis using inv_delete [OF assms(1), of sid] by (simp add: forgetEarlySteers_def)
qed (use assms(1) in \<open>auto simp: announceHostSteer_def rememberQueuedSteer_def takeQueuedSteer_def listenForHostSteers_def stopListening_def
    forgetUndeliveredEarlySteer_def forgetEarlySteerOfInbox_def forgetEarlySteerRecords_def clearUnansweredEarlySteers_def inv_restore
    split: option.splits intro!: inv_filter\<close>)

interpretation steer_sys: step_system "\<lambda>s. s = steer_start"
    "\<lambda>s e. if event_ok e then steer_step call parse s e else s" steer_inv for call parse
  by unfold_locales (auto simp: steer_step_inv, simp add: steer_inv_def steer_start_def MAX_REMEMBERED_def)

lemma steer_run_inv:
  assumes "list_all event_ok es"
  shows "steer_inv (steer_run call parse steer_start es)"
proof -
  have "steer_run call parse s es = steer_sys.run call parse s es" for s
    using assms unfolding steer_run_def by (induction es arbitrary: s) simp_all
  then show ?thesis using steer_sys.reachable_inv by simp
qed

section \<open>The snapshot restores the records\<close>

text \<open>A record without its object identity, which no snapshot keeps.\<close>

definition erase :: "early_steer \<Rightarrow> early_steer" where "erase r = r\<lparr>es_ref := 0\<rparr>"

lemma json_member_steer:
  "json_member (steer_json r) (lit ''sessionID'') = JString (hs_sessionID r)"
  "json_member (steer_json r) (lit ''inboxID'') = JString (hs_inboxID r)"
  "json_member (steer_json r) (lit ''text'') = JString (hs_text r)"
  "json_member (steer_json r) (lit ''injectionId'') = JString (injectionId r)"
  "json_member (steer_json r) (lit ''run'') = JString (es_run r)"
  "json_member (steer_json r) (lit ''delivered'') = JBoolean (delivered r)"
  "json_member (steer_json r) (lit ''checkpointed'') = JBoolean (checkpointed r)"
  "json_member (steer_json r) (lit ''answered'') = JBoolean (answered r)"
  "json_member (steer_json r) (lit ''promoted'') = (case promoted r of None \<Rightarrow> JUndefined | Some p \<Rightarrow> JBoolean p)"
  "json_member (steer_json r) (lit ''hostTurn'') = (case hostTurn r of None \<Rightarrow> JUndefined | Some t \<Rightarrow> JString t)"
  by (simp_all add: steer_json_def lit_def split: option.splits)

lemma restore_steer_json: "record_ok sid r \<Longrightarrow> restore_record sid (steer_json r) = Some (erase r)"
  by (cases "hostTurn r"; cases "promoted r") (auto simp: restore_record_def Let_def json_member_steer record_ok_def erase_def)

lemma those_map: "\<forall>x \<in> set xs. f x = Some (g x) \<Longrightarrow> those (map f xs) = Some (map g xs)"
  by (induction xs) auto

lemma erase_number_refs: "map erase (number_refs n rs) = map erase rs"
  by (induction rs arbitrary: n) (auto simp: erase_def)

text \<open>C12: The steers of a session survive a restart: from any sequence of operations, the snapshot saved
  with the checkpoint is one the restore accepts, and a fresh process restores from it the same records
  in the same order, with their texts, Runs and flags.\<close>

theorem early_steers_survive_restart:
  assumes "list_all event_ok es" and "serializeEarlySteers sid (steer_run call parse steer_start es) = Some v"
    and "parse raw = Some v" and "raw \<noteq> []"
  shows "map erase (steers_of sid (restoreEarlySteers parse sid (Some raw) steer_start))
    = map erase (steers_of sid (steer_run call parse steer_start es))"
proof -
  define rs where "rs = steers_of sid (steer_run call parse steer_start es)"
  have inv: "steer_inv (steer_run call parse steer_start es)" by (rule steer_run_inv [OF assms(1)])
  have ok: "list_all (record_ok sid) rs" unfolding rs_def by (rule steers_ok [OF inv])
  have v: "v = JObject [(lit ''version'', JNumber js_one), (lit ''records'', JArray (map steer_json rs))]" "rs \<noteq> []"
    using assms(2) by (auto simp: serializeEarlySteers_def rs_def split: if_splits)
  have len: "length rs \<le> MAX_RECORDS_PER_SESSION"
    using inv by (auto simp: rs_def steers_of_def steer_inv_def session_ok_def split: option.splits)
  have m: "json_member v (lit ''version'') = JNumber js_one" "json_member v (lit ''records'') = JArray (map steer_json rs)"
    by (simp_all add: v lit_def)
  have t: "those (map (restore_record sid) (map steer_json rs)) = Some (map erase rs)"
    using ok restore_steer_json unfolding map_map comp_def by (intro those_map) (auto simp: list_all_iff)
  have "restoreEarlySteers parse sid (Some raw) steer_start =
      steer_start\<lparr>injected := [(sid, number_refs 0 (map erase rs))], nextRef := length rs\<rparr>"
    using v(2) len assms(3, 4) m t by (simp add: restoreEarlySteers_def steer_start_def MAX_REMEMBERED_def)
  then show ?thesis unfolding rs_def [symmetric] by (simp add: steers_of_def erase_number_refs) (simp add: erase_def)
qed

section \<open>The end of a turn accounts for every steer\<close>

definition count_where :: "('a \<Rightarrow> bool) \<Rightarrow> 'a list \<Rightarrow> nat" where "count_where P xs = length (filter P xs)"

lemma settle_counts:
  "length (filter (\<lambda>x. snd (settle_one r x) = Answered) rs)
   + length (List.map_filter (\<lambda>x. if snd (settle_one r x) = Undelivered then fst (settle_one r x) else None) rs)
   + length (filter (\<lambda>x. snd (settle_one r x) = LeftToHost) rs)
   + count_where (\<lambda>x. es_run x = r \<and> answered x \<and> delivered x) rs
   = count_where (\<lambda>x. es_run x = r) rs"
  by (induction rs) (auto simp: List.map_filter_simps settle_one_def count_where_def)

lemma settle_one_kept:
  "fst (settle_one r x) = Some y \<Longrightarrow> es_run y = r \<Longrightarrow> delivered y \<and> (answered y \<or> snd (settle_one r x) = Undelivered)"
  by (cases "es_run x = r"; cases "promoted x = Some True"; cases "delivered x") (auto simp: settle_one_def split: if_splits)

lemma map_filter_set: "set (List.map_filter f xs) = {y. \<exists>x \<in> set xs. f x = Some y}"
  by (induction xs) (auto simp: List.map_filter_simps split: option.splits)

text \<open>When a Run's turn ends, every early steer of it is accounted for once: newly answered, handed
  to a follow-up Run, left to the host's own copy, or answered before; what Cursor took stays tracked
  as answered, and a steer left to the host is not tracked any more.\<close>

theorem turn_end_accounts_for_steers:
  assumes "list_all event_ok es" and "sid \<noteq> []"
    and "jm_get (injected (steer_run call parse steer_start es)) sid = Some rs"
    and "settleEarlySteers (Some sid) r (steer_run call parse steer_start es) = (s', res)"
  shows "st_answered res + length (st_undelivered res) + st_leftToHost res + count_where (\<lambda>x. es_run x = r \<and> answered x) rs
      = count_where (\<lambda>x. es_run x = r) rs
    \<and> (\<forall>x \<in> set rs. es_run x = r \<and> delivered x \<longrightarrow> x\<lparr>answered := True\<rparr> \<in> set (steers_of sid s'))
    \<and> (\<forall>y \<in> set (steers_of sid s'). es_run y = r \<longrightarrow> delivered y \<and> (answered y \<or> y \<in> set (st_undelivered res)))"
proof -
  let ?s = "steer_run call parse steer_start es"
  have "list_all (record_ok sid) rs"
    using steers_ok [OF steer_run_inv [OF assms(1), of call parse], of sid] assms(3) by (simp add: steers_of_def)
  then have d: "\<forall>x \<in> set rs. answered x \<longrightarrow> delivered x" by (auto simp: list_all_iff record_ok_def)
  then have "filter (\<lambda>x. es_run x = r \<and> answered x \<and> delivered x) rs = filter (\<lambda>x. es_run x = r \<and> answered x) rs"
    by (auto intro: filter_cong)
  then have c: "count_where (\<lambda>x. es_run x = r \<and> answered x \<and> delivered x) rs = count_where (\<lambda>x. es_run x = r \<and> answered x) rs"
    by (simp add: count_where_def)
  have n: "named_steers (Some sid) ?s = Some rs" using assms(2, 3) by (simp add: named_steers_def)
  let ?kept = "List.map_filter (\<lambda>x. fst (settle_one r x)) rs"
  have s': "s' = keep sid ?kept ?s"
    and res: "st_answered res = length (filter (\<lambda>x. snd (settle_one r x) = Answered) rs)"
      "st_undelivered res = List.map_filter (\<lambda>x. if snd (settle_one r x) = Undelivered then fst (settle_one r x) else None) rs"
      "st_leftToHost res = length (filter (\<lambda>x. snd (settle_one r x) = LeftToHost) rs)"
    using assms(4) by (auto simp: settleEarlySteers_def n)
  have k: "steers_of sid s' = ?kept" by (simp add: s' keep_def steers_of_def)
  have "\<forall>x \<in> set rs. es_run x = r \<and> delivered x \<longrightarrow> x\<lparr>answered := True\<rparr> \<in> set ?kept"
  proof (intro ballI impI)
    fix x assume x: "x \<in> set rs" "es_run x = r \<and> delivered x"
    then have "fst (settle_one r x) = Some (x\<lparr>answered := True\<rparr>)" by (auto simp: settle_one_def)
    then show "x\<lparr>answered := True\<rparr> \<in> set ?kept" using x(1) by (auto simp: map_filter_set)
  qed
  moreover have "\<forall>y \<in> set ?kept. es_run y = r \<longrightarrow> delivered y \<and> (answered y \<or> y \<in> set (st_undelivered res))"
  proof (intro ballI impI)
    fix y assume y: "y \<in> set ?kept" "es_run y = r"
    then obtain x where x: "x \<in> set rs" "fst (settle_one r x) = Some y" by (auto simp: map_filter_set)
    then have "snd (settle_one r x) = Undelivered \<Longrightarrow> y \<in> set (st_undelivered res)"
      unfolding res(2) map_filter_set by (intro CollectI bexI [of _ x]) simp_all
    then show "delivered y \<and> (answered y \<or> y \<in> set (st_undelivered res))"
      using settle_one_kept [OF x(2) y(2)] by blast
  qed
  ultimately show ?thesis using settle_counts [of r rs] c k res by simp
qed

section \<open>Examples\<close>

definition demo_steer :: early_steer where
  "demo_steer = \<lparr>hs_sessionID = [1], hs_inboxID = [2], hs_text = [3], injectionId = [4], es_run = [5], delivered = False,
     checkpointed = False, answered = False, promoted = None, hostTurn = None, es_ref = 0\<rparr>"

definition demo_value :: json where
  "demo_value = JObject [(lit ''version'', JNumber js_one), (lit ''records'', JArray [steer_json demo_steer])]"

lemma demo_steer_run: "steer_run (\<lambda>_ _. False) (\<lambda>_. Some demo_value) steer_start [SRecord demo_steer]
    = steer_start\<lparr>injected := [([1], [demo_steer])], nextRef := 1\<rparr>"
  by (simp add: steer_run_def recordEarlySteer_def steer_start_def demo_steer_def MAX_REMEMBERED_def)

theorem early_steers_survive_restart_witness:
  "map erase (steers_of [1] (restoreEarlySteers (\<lambda>_. Some demo_value) [1] (Some [7]) steer_start))
    = map erase (steers_of [1] (steer_run (\<lambda>_ _. False) (\<lambda>_. Some demo_value) steer_start [SRecord demo_steer]))"
proof (rule early_steers_survive_restart)
  show "list_all event_ok [SRecord demo_steer]" by (simp add: demo_steer_def)
  show "serializeEarlySteers [1] (steer_run (\<lambda>_ _. False) (\<lambda>_. Some demo_value) steer_start [SRecord demo_steer]) = Some demo_value"
    unfolding demo_steer_run by (simp add: serializeEarlySteers_def steers_of_def demo_value_def)
qed simp_all

theorem turn_end_accounts_for_steers_witness:
  "st_leftToHost (snd (settleEarlySteers (Some [1]) [5] (steer_run (\<lambda>_ _. False) (\<lambda>_. Some demo_value) steer_start [SRecord demo_steer])))
     + st_answered (snd (settleEarlySteers (Some [1]) [5] (steer_run (\<lambda>_ _. False) (\<lambda>_. Some demo_value) steer_start [SRecord demo_steer])))
     + length (st_undelivered (snd (settleEarlySteers (Some [1]) [5] (steer_run (\<lambda>_ _. False) (\<lambda>_. Some demo_value) steer_start [SRecord demo_steer])))) = 1"
proof -
  have ok: "list_all event_ok [SRecord demo_steer]" by (simp add: demo_steer_def)
  have "jm_get (injected (steer_run (\<lambda>_ _. False) (\<lambda>_. Some demo_value) steer_start [SRecord demo_steer])) [1] = Some [demo_steer]"
    by (simp add: demo_steer_run)
  from turn_end_accounts_for_steers [OF ok _ this surjective_pairing, of "[5]"] show ?thesis
    by (simp add: count_where_def demo_steer_def)
qed

end
