(* ===== verification/JsonAccess.thy ===== *)
theory JsonAccess
  imports JsonValue JsString
begin

text \<open>
  Reading untyped values the way the sources do: member access, the \<open>typeof\<close> tests, and the helpers
  \<open>str\<close>, \<open>stringValue\<close> and \<open>num\<close> of \<open>src/src/protocol/tools.ts\<close>. An object is its entries; a later
  entry of a key replaces an earlier one.
\<close>

fun json_field :: "json \<Rightarrow> utf16 \<Rightarrow> json" where
  "json_field (JObject kvs) k = (case map_of (rev kvs) k of None \<Rightarrow> JUndefined | Some v \<Rightarrow> v)"
| "json_field _ k = JUndefined"

text \<open>\<open>k in object\<close> and \<open>Object.hasOwn\<close> for an object of own members.\<close>

fun json_has :: "json \<Rightarrow> utf16 \<Rightarrow> bool" where
  "json_has (JObject kvs) k \<longleftrightarrow> k \<in> fst ` set kvs"
| "json_has _ k \<longleftrightarrow> False"

text \<open>\<open>typeof v === "string"\<close>\<close>

fun string_of :: "json \<Rightarrow> utf16 option" where
  "string_of (JString t) = Some t"
| "string_of _ = None"

text \<open>\<open>str\<close>: a string that is not empty.\<close>

fun nonempty_string :: "json \<Rightarrow> utf16 option" where
  "nonempty_string (JString t) = (if t = [] then None else Some t)"
| "nonempty_string _ = None"

text \<open>\<open>v && typeof v === "object" && !Array.isArray(v)\<close>\<close>

fun is_object :: "json \<Rightarrow> bool" where
  "is_object (JObject kvs) = True"
| "is_object _ = False"

fun json_array :: "json \<Rightarrow> json list option" where
  "json_array (JArray vs) = Some vs"
| "json_array _ = None"

fun json_entries :: "json \<Rightarrow> (utf16 \<times> json) list" where
  "json_entries (JObject kvs) = kvs"
| "json_entries _ = []"

text \<open>The first of two optional values: \<open>a ?? b\<close>.\<close>

fun or_else :: "'a option \<Rightarrow> 'a option \<Rightarrow> 'a option" where
  "or_else (Some a) b = Some a"
| "or_else None b = b"

lemma or_else_Some: "or_else a b = Some x \<longleftrightarrow> a = Some x \<or> a = None \<and> b = Some x"
  by (cases a) auto

lemma or_else_None [simp]: "or_else a b = None \<longleftrightarrow> a = None \<and> b = None"
  by (cases a) auto

lemma nonempty_string_Some: "nonempty_string v = Some t \<longleftrightarrow> v = JString t \<and> t \<noteq> []"
  by (cases v) auto

lemma string_of_Some: "string_of v = Some t \<longleftrightarrow> v = JString t"
  by (cases v) auto

text \<open>A number is finite unless its exponent bits are all set; it is positive unless it is signed or zero.\<close>

definition number_finite :: "64 word \<Rightarrow> bool" where
  "number_finite w \<longleftrightarrow> unat w div 2 ^ 52 mod 2 ^ 11 \<noteq> 2047"

definition number_positive :: "64 word \<Rightarrow> bool" where
  "number_positive w \<longleftrightarrow> w \<noteq> 0 \<and> unat w < 2 ^ 63"

text \<open>\<open>num\<close>; \<open>to_number\<close> is \<open>Number\<close> on a string.\<close>

definition num_of :: "(utf16 \<Rightarrow> 64 word) \<Rightarrow> json \<Rightarrow> 64 word option" where
  "num_of to_number v =
     (case v of
        JNumber w \<Rightarrow> if number_finite w then Some w else None
      | JString s \<Rightarrow> if js_trim s \<noteq> [] \<and> number_finite (to_number s) then Some (to_number s) else None
      | _ \<Rightarrow> None)"

end
