(* ===== verification/TurnProvenance.thy ===== *)
theory TurnProvenance
  imports JsonAccess
begin

text \<open>
  Whose turn the host's history ends on (\<open>src/src/protocol/turn-provenance.ts\<close>): the record of what
  this provider emitted in its latest step, and the comparison with the host's last assistant message.
\<close>

section \<open>Records\<close>

definition MAX_PROVENANCE_SESSIONS :: nat where "MAX_PROVENANCE_SESSIONS = 256"
definition MAX_TOOL_CALL_IDS :: nat where "MAX_TOOL_CALL_IDS = 64"
definition MAX_TEXT_CHARS :: nat where "MAX_TEXT_CHARS = 4096"

record emitted_step =
  toolCallIds :: "utf16 list"
  es_text :: utf16
  textWithReasoning :: utf16

definition empty_step :: emitted_step where
  "empty_step = \<lparr>toolCallIds = [], es_text = [], textWithReasoning = []\<rparr>"

record turn_provenance =
  tp_conversationId :: utf16
  tp_step :: emitted_step
  tp_unfinished :: bool
  tp_previous :: "emitted_step option"

record provenance_entry = turn_provenance +
  stepPending :: bool

type_synonym provenance = "(utf16, provenance_entry) jsmap"

text \<open>\<open>text.replace(/\s+/g, "")\<close>\<close>

definition normalizeText :: "utf16 \<Rightarrow> utf16" where
  "normalizeText t = filter (\<lambda>c. \<not> js_space c) t"

text \<open>\<open>touch\<close>; an empty key is falsy and ends the eviction.\<close>

fun evict_oldest :: "nat \<Rightarrow> (utf16, 'v) jsmap \<Rightarrow> (utf16, 'v) jsmap" where
  "evict_oldest limit [] = []"
| "evict_oldest limit (p # m) = (if length (p # m) > limit \<and> fst p \<noteq> [] then evict_oldest limit m else p # m)"

definition touch_entry :: "utf16 \<Rightarrow> provenance_entry \<Rightarrow> provenance \<Rightarrow> provenance" where
  "touch_entry sessionKey e m = evict_oldest MAX_PROVENANCE_SESSIONS (jm_touch sessionKey e m)"

definition fresh_entry :: "utf16 \<Rightarrow> provenance_entry" where
  "fresh_entry conversationId =
     \<lparr>tp_conversationId = conversationId, tp_step = empty_step, tp_unfinished = False, tp_previous = None, stepPending = False\<rparr>"

text \<open>
  \<open>entryFor\<close>: the entry of the conversation, moved to the end. The code then changes the returned
  object in place; \<open>set_entry\<close> is that change.
\<close>

definition entryFor :: "utf16 \<Rightarrow> utf16 \<Rightarrow> provenance \<Rightarrow> provenance_entry \<times> provenance" where
  "entryFor sessionKey conversationId m =
     (let e = (case jm_get m sessionKey of
          Some e \<Rightarrow> if tp_conversationId e = conversationId then e else fresh_entry conversationId
        | None \<Rightarrow> fresh_entry conversationId)
      in (e, touch_entry sessionKey e m))"

definition set_entry :: "utf16 \<Rightarrow> provenance_entry \<Rightarrow> provenance \<Rightarrow> provenance" where
  "set_entry sessionKey e m = AList.map_entry sessionKey (\<lambda>_. e) m"

definition appendCapped :: "utf16 \<Rightarrow> utf16 \<Rightarrow> utf16" where
  "appendCapped v delta = (if length v < MAX_TEXT_CHARS then take MAX_TEXT_CHARS (v @ delta) else v)"

definition hasContent :: "emitted_step \<Rightarrow> bool" where
  "hasContent s \<longleftrightarrow> toolCallIds s \<noteq> [] \<or> es_text s \<noteq> [] \<or> textWithReasoning s \<noteq> []"

text \<open>The entry the first content of a pending step is added to.\<close>

definition open_step :: "provenance_entry \<Rightarrow> provenance_entry" where
  "open_step e =
     (if stepPending e
      then e\<lparr>tp_previous := (if hasContent (tp_step e) then Some (tp_step e) else None), stepPending := False,
        tp_unfinished := True, tp_step := empty_step\<rparr>
      else e)"

definition contentEntry :: "utf16 \<Rightarrow> utf16 \<Rightarrow> provenance \<Rightarrow> provenance_entry \<times> provenance" where
  "contentEntry sessionKey conversationId m =
     (let (e, m) = entryFor sessionKey conversationId m in (open_step e, set_entry sessionKey (open_step e) m))"

definition beginEmittedStep :: "utf16 \<Rightarrow> utf16 \<Rightarrow> provenance \<Rightarrow> provenance" where
  "beginEmittedStep sessionKey conversationId m =
     (let (e, m) = entryFor sessionKey conversationId m in set_entry sessionKey (e\<lparr>stepPending := True\<rparr>) m)"

text \<open>A stream part: a text or reasoning delta that is a string, a tool call with a string id, or anything else.\<close>

datatype emitted_part = TextDelta utf16 | ReasoningDelta utf16 | ToolCall utf16 | OtherPart

definition add_text :: "bool \<Rightarrow> utf16 \<Rightarrow> emitted_step \<Rightarrow> emitted_step" where
  "add_text is_text delta s =
     (let s = s\<lparr>textWithReasoning := appendCapped (textWithReasoning s) delta\<rparr>
      in if is_text then s\<lparr>es_text := appendCapped (es_text s) delta\<rparr> else s)"

definition add_call :: "utf16 \<Rightarrow> emitted_step \<Rightarrow> emitted_step" where
  "add_call i s = (if length (toolCallIds s) < MAX_TOOL_CALL_IDS then s\<lparr>toolCallIds := toolCallIds s @ [i]\<rparr> else s)"

text \<open>What a part adds to the step it is recorded in; \<open>None\<close> leaves the records alone.\<close>

definition part_effect :: "emitted_part \<Rightarrow> (emitted_step \<Rightarrow> emitted_step) option" where
  "part_effect part =
     (case part of
        TextDelta d \<Rightarrow> if normalizeText d = [] then None else Some (add_text True (normalizeText d))
      | ReasoningDelta d \<Rightarrow> if normalizeText d = [] then None else Some (add_text False (normalizeText d))
      | ToolCall i \<Rightarrow> if i = [] then None else Some (add_call i)
      | OtherPart \<Rightarrow> None)"

definition recordEmittedPart :: "utf16 \<Rightarrow> utf16 \<Rightarrow> emitted_part \<Rightarrow> provenance \<Rightarrow> provenance" where
  "recordEmittedPart sessionKey conversationId part m =
     (case part_effect part of None \<Rightarrow> m
      | Some f \<Rightarrow>
          (let (e, m) = contentEntry sessionKey conversationId m
           in set_entry sessionKey (e\<lparr>tp_step := f (tp_step e)\<rparr>) m))"

definition finishEmittedStep :: "utf16 \<Rightarrow> utf16 \<Rightarrow> provenance \<Rightarrow> provenance" where
  "finishEmittedStep sessionKey conversationId m =
     (case jm_get m sessionKey of None \<Rightarrow> m
      | Some e \<Rightarrow>
          (if tp_conversationId e \<noteq> conversationId \<or> stepPending e then m
           else set_entry sessionKey (e\<lparr>tp_unfinished := False, tp_previous := None\<rparr>) m))"

definition resumeEmittedStep :: "utf16 \<Rightarrow> utf16 \<Rightarrow> provenance \<Rightarrow> provenance" where
  "resumeEmittedStep sessionKey conversationId m =
     (case jm_get m sessionKey of None \<Rightarrow> m
      | Some e \<Rightarrow>
          (if tp_conversationId e \<noteq> conversationId \<or> stepPending e then m
           else set_entry sessionKey (e\<lparr>tp_unfinished := True\<rparr>) m))"

definition trackTurnProvenance :: "utf16 \<Rightarrow> utf16 \<Rightarrow> provenance \<Rightarrow> provenance" where
  "trackTurnProvenance sessionKey conversationId m = snd (entryFor sessionKey conversationId m)"

definition getTurnProvenance :: "utf16 \<Rightarrow> provenance \<Rightarrow> turn_provenance option" where
  "getTurnProvenance sessionKey m =
     map_option (\<lambda>e. \<lparr>tp_conversationId = tp_conversationId e, tp_step = tp_step e, tp_unfinished = tp_unfinished e,
       tp_previous = (if tp_unfinished e then tp_previous e else None)\<rparr>) (jm_get m sessionKey)"

definition restoreTurnProvenance :: "utf16 \<Rightarrow> turn_provenance \<Rightarrow> provenance \<Rightarrow> provenance" where
  "restoreTurnProvenance sessionKey v m =
     touch_entry sessionKey \<lparr>tp_conversationId = tp_conversationId v, tp_step = tp_step v, tp_unfinished = tp_unfinished v,
       tp_previous = (if tp_unfinished v then tp_previous v else None), stepPending = False\<rparr> m"

definition forgetTurnProvenance :: "utf16 \<Rightarrow> provenance \<Rightarrow> provenance" where
  "forgetTurnProvenance sessionKey m = jm_delete sessionKey m"

section \<open>The saved record\<close>

definition step_json :: "emitted_step \<Rightarrow> (utf16 \<times> json) list" where
  "step_json s = [(lit ''toolCallIds'', JArray (map JString (toolCallIds s))), (lit ''text'', JString (es_text s)),
     (lit ''textWithReasoning'', JString (textWithReasoning s))]"

text \<open>The value that is stringified.\<close>

definition serializeTurnProvenance :: "turn_provenance \<Rightarrow> json" where
  "serializeTurnProvenance v = JObject ((lit ''conversationId'', JString (tp_conversationId v)) # step_json (tp_step v)
     @ (if tp_unfinished v then [(lit ''unfinished'', JBoolean True)] else [])
     @ (case tp_previous v of None \<Rightarrow> [] | Some p \<Rightarrow> [(lit ''previous'', JObject (step_json p))]))"

definition parseStep :: "json \<Rightarrow> emitted_step" where
  "parseStep v =
     \<lparr>toolCallIds = (case json_field v (lit ''toolCallIds'') of
        JArray vs \<Rightarrow> take MAX_TOOL_CALL_IDS (List.map_filter string_of vs) | _ \<Rightarrow> []),
      es_text = (case string_of (json_field v (lit ''text'')) of Some t \<Rightarrow> take MAX_TEXT_CHARS t | None \<Rightarrow> []),
      textWithReasoning = (case string_of (json_field v (lit ''textWithReasoning'')) of Some t \<Rightarrow> take MAX_TEXT_CHARS t | None \<Rightarrow> [])\<rparr>"

text \<open>
  The parsed value is given; \<open>None\<close> is \<open>JSON.parse\<close> throwing, and \<open>null\<close> throws at the first member,
  both inside the \<open>try\<close>.
\<close>

definition parseTurnProvenance :: "json option \<Rightarrow> turn_provenance option" where
  "parseTurnProvenance parsed =
     (case parsed of None \<Rightarrow> None
      | Some v \<Rightarrow>
          (case string_of (json_field v (lit ''conversationId'')) of None \<Rightarrow> None
           | Some conv \<Rightarrow>
               (if conv = [] then None
                else let unfinished = (json_field v (lit ''unfinished'') = JBoolean True);
                     prev = json_field v (lit ''previous'') in
                  Some \<lparr>tp_conversationId = conv, tp_step = parseStep v, tp_unfinished = unfinished,
                    tp_previous = (if unfinished \<and> (case prev of JObject _ \<Rightarrow> True | JArray _ \<Rightarrow> True | _ \<Rightarrow> False)
                      then Some (parseStep prev) else None)\<rparr>)))"

section \<open>Foreign history\<close>

text \<open>
  A message of the host's prompt: an assistant message has its parts, or content that is not an array;
  a part keeps the string it holds.
\<close>

datatype host_part = HostToolCall utf16 | HostText utf16 | HostReasoning utf16 | HostOther
datatype host_message = AssistantMessage "host_part list option" | OtherMessage

definition sameStep :: "emitted_step \<Rightarrow> emitted_step \<Rightarrow> bool" where
  "sameStep s host \<longleftrightarrow>
     list_ex (\<lambda>i. i \<in> set (toolCallIds s)) (toolCallIds host)
     \<or> es_text s \<noteq> [] \<and> es_text host = es_text s
     \<or> textWithReasoning s \<noteq> [] \<and> textWithReasoning host = textWithReasoning s"

definition host_calls :: "host_part list \<Rightarrow> utf16 list" where
  "host_calls ps = List.map_filter (\<lambda>p. case p of HostToolCall i \<Rightarrow> Some i | _ \<Rightarrow> None) ps"

definition host_text :: "host_part list \<Rightarrow> utf16" where
  "host_text ps = concat (map (\<lambda>p. case p of HostText t \<Rightarrow> normalizeText t | _ \<Rightarrow> []) ps)"

definition host_reasoned :: "host_part list \<Rightarrow> utf16" where
  "host_reasoned ps = concat (map (\<lambda>p. case p of HostText t \<Rightarrow> normalizeText t | HostReasoning t \<Rightarrow> normalizeText t | _ \<Rightarrow> []) ps)"

definition last_assistant :: "host_message list \<Rightarrow> host_message option" where
  "last_assistant prompt = find (\<lambda>msg. msg \<noteq> OtherMessage) (rev prompt)"

text \<open>True is \<open>"foreign-assistant"\<close>, False \<open>undefined\<close>.\<close>

definition detectForeignHistory :: "utf16 option \<Rightarrow> utf16 \<Rightarrow> host_message list \<Rightarrow> provenance \<Rightarrow> bool" where
  "detectForeignHistory sessionKey conversationId prompt m =
     (case sessionKey of None \<Rightarrow> False
      | Some k \<Rightarrow>
          (if k = [] then False
           else case jm_get m k of None \<Rightarrow> False
             | Some e \<Rightarrow>
                 (if tp_conversationId e \<noteq> conversationId then False
                  else case last_assistant prompt of
                      Some (AssistantMessage (Some ps)) \<Rightarrow>
                        (if host_calls ps = [] \<and> host_text ps = [] then False
                         else let host = \<lparr>toolCallIds = host_calls ps, es_text = take MAX_TEXT_CHARS (host_text ps),
                                  textWithReasoning = take MAX_TEXT_CHARS (host_reasoned ps)\<rparr> in
                           if sameStep (tp_step e) host then False
                           else if tp_unfinished e \<and> (case tp_previous e of None \<Rightarrow> False | Some p \<Rightarrow> sameStep p host) then False
                           else if tp_unfinished e \<and> toolCallIds host = []
                             \<and> (es_text host \<noteq> [] \<and> starts_with (es_text host) (es_text (tp_step e))
                                \<or> textWithReasoning host \<noteq> [] \<and> starts_with (textWithReasoning host) (textWithReasoning (tp_step e)))
                           then False
                           else True)
                    | _ \<Rightarrow> False)))"

section \<open>Sequences of operations\<close>

text \<open>A session is restored from a saved record, given as what \<open>JSON.parse\<close> returned for it.\<close>

datatype pv_event =
    PBegin utf16 utf16
  | PRecord utf16 utf16 emitted_part
  | PFinish utf16 utf16
  | PResume utf16 utf16
  | PTrack utf16 utf16
  | PRestore utf16 "json option"
  | PForget utf16

fun pv_key :: "pv_event \<Rightarrow> utf16" where
  "pv_key (PBegin k c) = k"
| "pv_key (PRecord k c p) = k"
| "pv_key (PFinish k c) = k"
| "pv_key (PResume k c) = k"
| "pv_key (PTrack k c) = k"
| "pv_key (PRestore k v) = k"
| "pv_key (PForget k) = k"

fun pv_step :: "provenance \<Rightarrow> pv_event \<Rightarrow> provenance" where
  "pv_step m (PBegin k c) = beginEmittedStep k c m"
| "pv_step m (PRecord k c p) = recordEmittedPart k c p m"
| "pv_step m (PFinish k c) = finishEmittedStep k c m"
| "pv_step m (PResume k c) = resumeEmittedStep k c m"
| "pv_step m (PTrack k c) = trackTurnProvenance k c m"
| "pv_step m (PRestore k raw) = (case parseTurnProvenance raw of None \<Rightarrow> m | Some v \<Rightarrow> restoreTurnProvenance k v m)"
| "pv_step m (PForget k) = forgetTurnProvenance k m"

section \<open>An entry survives other sessions\<close>

lemma evict_oldest_drop: "\<exists>n. evict_oldest limit m = drop n m \<and> n \<le> length m - limit"
proof (induction m)
  case (Cons p m)
  then obtain n where "evict_oldest limit m = drop n m" "n \<le> length m - limit" by blast
  then show ?case
    by (auto intro: exI [of _ "Suc n"] exI [of _ "0::nat"])
qed simp

lemma kept_evict_oldest:
  assumes "jm_kept k v n m" "Suc n \<le> limit"
  shows "jm_kept k v n (evict_oldest limit m)"
proof -
  obtain xs ys where m: "m = xs @ (k, v) # ys" "k \<notin> fst ` set (xs @ ys)" "length ys \<le> n"
    using assms(1) by (auto simp: jm_kept_def)
  obtain d where d: "evict_oldest limit m = drop d m" "d \<le> length m - limit"
    using evict_oldest_drop by blast
  then have "evict_oldest limit m = drop d xs @ (k, v) # ys" using m assms(2) by simp
  then show ?thesis using m unfolding jm_kept_def by (fastforce dest: in_set_dropD)
qed

lemma kept_touch_new: "jm_kept k v 0 (touch_entry k v m)"
proof -
  have "jm_kept k v 0 (jm_touch k v m)"
    unfolding jm_kept_def jm_touch_append by (intro exI [of _ "filter (\<lambda>p. fst p \<noteq> k) m"] exI [of _ "[]"]) auto
  then show ?thesis by (simp add: touch_entry_def kept_evict_oldest MAX_PROVENANCE_SESSIONS_def)
qed

lemma kept_touch_other:
  assumes "jm_kept k v n m" "j \<noteq> k" "Suc (Suc n) \<le> MAX_PROVENANCE_SESSIONS"
  shows "jm_kept k v (Suc n) (touch_entry j w m)"
proof -
  obtain xs ys where d: "jm_delete j m = xs @ (k, v) # ys" "k \<notin> fst ` set (xs @ ys)" "length ys \<le> n"
    using jm_kept_delete [OF assms(1, 2)] by (auto simp: jm_kept_def)
  have "jm_touch j w m = xs @ (k, v) # (ys @ [(j, w)])"
    using d(1) by (simp add: jm_touch_append jm_delete_filter)
  then have "jm_kept k v (Suc n) (jm_touch j w m)"
    using d(2, 3) assms(2) unfolding jm_kept_def by (intro exI [of _ xs] exI [of _ "ys @ [(j, w)]"]) auto
  then show ?thesis using assms(3) by (simp add: touch_entry_def kept_evict_oldest)
qed

lemma map_entry_append:
  "AList.map_entry j f (us @ ws) = (if j \<in> fst ` set us then AList.map_entry j f us @ ws else us @ AList.map_entry j f ws)"
  by (induction us) auto

lemma kept_set_other: "jm_kept k v n m \<Longrightarrow> j \<noteq> k \<Longrightarrow> jm_kept k v n (set_entry j w m)"
proof -
  assume a: "jm_kept k v n m" "j \<noteq> k"
  then obtain xs ys where m: "m = xs @ (k, v) # ys" "k \<notin> fst ` set (xs @ ys)" "length ys \<le> n"
    by (auto simp: jm_kept_def)
  let ?f = "AList.map_entry j (\<lambda>_. w)"
  have dom: "fst ` set (?f us) = fst ` set us" for us :: provenance
    by (metis list.set_map map_entry_keys)
  have len: "length (?f us) = length us" for us :: provenance by (metis length_map map_entry_keys)
  show ?thesis
    using m a(2) unfolding jm_kept_def set_entry_def
    by (intro exI [of _ "if j \<in> fst ` set xs then ?f xs else xs"] exI [of _ "if j \<in> fst ` set xs then ys else ?f ys"])
      (simp add: map_entry_append dom len image_Un)
qed

lemma kept_set_same: "jm_kept k v n m \<Longrightarrow> jm_kept k w n (set_entry k w m)"
proof -
  assume "jm_kept k v n m"
  then obtain xs ys where m: "m = xs @ (k, v) # ys" "k \<notin> fst ` set (xs @ ys)" "length ys \<le> n"
    by (auto simp: jm_kept_def)
  let ?f = "AList.map_entry k (\<lambda>_. w)"
  show ?thesis
    using m unfolding jm_kept_def set_entry_def
    by (intro exI [of _ xs] exI [of _ ys]) (simp add: map_entry_append image_Un)
qed

lemma kept_step_other:
  assumes "jm_kept k v n m" "pv_key e \<noteq> k" "Suc (Suc n) \<le> MAX_PROVENANCE_SESSIONS"
  shows "jm_kept k v (Suc n) (pv_step m e)"
  using assms kept_touch_other [OF assms(1) _ assms(3)] jm_kept_Suc [OF assms(1)] jm_kept_Suc [OF jm_kept_delete [OF assms(1)]]
  by (cases e)
    (auto simp: beginEmittedStep_def entryFor_def recordEmittedPart_def contentEntry_def finishEmittedStep_def resumeEmittedStep_def
      trackTurnProvenance_def restoreTurnProvenance_def forgetTurnProvenance_def Let_def
      intro!: kept_set_other split: option.splits)

section \<open>What a session's own operations record\<close>

definition rec_entry :: "emitted_part \<Rightarrow> provenance_entry \<Rightarrow> provenance_entry" where
  "rec_entry part e = (case part_effect part of None \<Rightarrow> e | Some f \<Rightarrow> (open_step e)\<lparr>tp_step := f (tp_step (open_step e))\<rparr>)"

definition finish_entry :: "provenance_entry \<Rightarrow> provenance_entry" where
  "finish_entry e = (if stepPending e then e else e\<lparr>tp_unfinished := False, tp_previous := None\<rparr>)"

definition resume_entry :: "provenance_entry \<Rightarrow> provenance_entry" where
  "resume_entry e = (if stepPending e then e else e\<lparr>tp_unfinished := True\<rparr>)"

lemma entryFor_conv: "tp_conversationId (fst (entryFor k c m)) = c"
  by (simp add: entryFor_def fresh_entry_def Let_def split: option.splits)

lemma kept_begin: "jm_kept k ((fst (entryFor k c m))\<lparr>stepPending := True\<rparr>) 0 (beginEmittedStep k c m)"
  by (simp add: beginEmittedStep_def entryFor_def Let_def kept_set_same [OF kept_touch_new])

lemma entryFor_kept: "jm_kept k e n m \<Longrightarrow> tp_conversationId e = c \<Longrightarrow> fst (entryFor k c m) = e"
  by (simp add: entryFor_def Let_def jm_kept_get)

lemma kept_record:
  assumes "jm_kept k e n m" "tp_conversationId e = c"
  shows "jm_kept k (rec_entry p e) n (recordEmittedPart k c p m)"
  using assms jm_kept_get [OF assms(1)]
  by (auto simp: recordEmittedPart_def rec_entry_def contentEntry_def entryFor_def Let_def
      intro!: jm_kept_mono [OF kept_set_same [OF kept_set_same [OF kept_touch_new]]] split: option.splits)

lemma rec_entry_conv [simp]: "tp_conversationId (rec_entry p e) = tp_conversationId e"
  by (simp add: rec_entry_def open_step_def split: option.splits)

lemma kept_finish:
  assumes "jm_kept k e n m" "tp_conversationId e = c"
  shows "jm_kept k (finish_entry e) n (finishEmittedStep k c m)"
  using assms jm_kept_get [OF assms(1)] by (auto simp: finishEmittedStep_def finish_entry_def intro: kept_set_same)

lemma finish_entry_conv [simp]: "tp_conversationId (finish_entry e) = tp_conversationId e"
  by (simp add: finish_entry_def)

text \<open>What a list of parts amounts to: the ids of its calls, its text, its reasoning and text.\<close>

definition calls_of :: "emitted_part list \<Rightarrow> utf16 list" where
  "calls_of ps = filter (\<lambda>i. i \<noteq> []) (List.map_filter (\<lambda>p. case p of ToolCall i \<Rightarrow> Some i | _ \<Rightarrow> None) ps)"

definition text_of :: "emitted_part list \<Rightarrow> utf16" where
  "text_of ps = concat (map (\<lambda>p. case p of TextDelta d \<Rightarrow> normalizeText d | _ \<Rightarrow> []) ps)"

definition reasoned_of :: "emitted_part list \<Rightarrow> utf16" where
  "reasoned_of ps = concat (map (\<lambda>p. case p of TextDelta d \<Rightarrow> normalizeText d | ReasoningDelta d \<Rightarrow> normalizeText d | _ \<Rightarrow> []) ps)"

definition step_of :: "emitted_part list \<Rightarrow> emitted_step" where
  "step_of ps = \<lparr>toolCallIds = take MAX_TOOL_CALL_IDS (calls_of ps), es_text = take MAX_TEXT_CHARS (text_of ps),
     textWithReasoning = take MAX_TEXT_CHARS (reasoned_of ps)\<rparr>"

lemma parts_append:
  "calls_of (ps @ qs) = calls_of ps @ calls_of qs"
  "text_of (ps @ qs) = text_of ps @ text_of qs"
  "reasoned_of (ps @ qs) = reasoned_of ps @ reasoned_of qs"
  by (simp_all add: calls_of_def text_of_def reasoned_of_def List.map_filter_def)

lemma parts_simps:
  "calls_of [] = []" "text_of [] = []" "reasoned_of [] = []"
  "calls_of [TextDelta d] = []" "calls_of [ReasoningDelta d] = []" "calls_of [OtherPart] = []"
  "calls_of [ToolCall i] = (if i = [] then [] else [i])"
  "text_of [TextDelta d] = normalizeText d" "text_of [ReasoningDelta d] = []" "text_of [OtherPart] = []" "text_of [ToolCall i] = []"
  "reasoned_of [TextDelta d] = normalizeText d" "reasoned_of [ReasoningDelta d] = normalizeText d"
  "reasoned_of [OtherPart] = []" "reasoned_of [ToolCall i] = []"
  by (simp_all add: calls_of_def text_of_def reasoned_of_def List.map_filter_def)

lemma appendCapped_take: "appendCapped (take MAX_TEXT_CHARS u) d = take MAX_TEXT_CHARS (u @ d)"
  by (auto simp: appendCapped_def min_def)

lemma part_effect_step:
  "part_effect p = Some f \<Longrightarrow> f (step_of ps) = step_of (ps @ [p])"
  by (cases p) (auto simp: part_effect_def step_of_def parts_append parts_simps add_text_def add_call_def appendCapped_take
      min_def split: if_splits)

lemma part_effect_None: "part_effect p = None \<Longrightarrow> step_of (ps @ [p]) = step_of ps"
  by (cases p) (auto simp: part_effect_def step_of_def parts_append parts_simps split: if_splits)

lemma part_effect_content: "part_effect p = Some f \<Longrightarrow> hasContent (f s)"
  by (cases p) (auto simp: part_effect_def hasContent_def add_text_def add_call_def appendCapped_def Let_def MAX_TEXT_CHARS_def
      MAX_TOOL_CALL_IDS_def split: if_splits)

lemma step_of_Nil: "step_of [] = empty_step"
  by (simp add: step_of_def empty_step_def parts_simps)

text \<open>A step that emitted nothing leaves the entry as it was; any other replaces the recorded step.\<close>

lemma rec_parts:
  assumes "stepPending e"
  shows "fold rec_entry ps e =
     (if hasContent (step_of ps)
      then e\<lparr>tp_previous := (if hasContent (tp_step e) then Some (tp_step e) else None), stepPending := False,
        tp_unfinished := True, tp_step := step_of ps\<rparr>
      else e)"
proof (induction ps rule: rev_induct)
  case Nil
  then show ?case by (simp add: step_of_Nil hasContent_def empty_step_def)
next
  case (snoc p ps)
  show ?case
  proof (cases "part_effect p")
    case None
    then show ?thesis using snoc by (simp add: rec_entry_def part_effect_None)
  next
    case (Some f)
    have c: "hasContent (step_of (ps @ [p]))" using part_effect_content [OF Some] part_effect_step [OF Some] by metis
    have n: "\<not> hasContent (step_of ps) \<Longrightarrow> step_of ps = empty_step" by (simp add: hasContent_def empty_step_def)
    show ?thesis
      using snoc assms c n part_effect_step [OF Some, of ps] by (auto simp: rec_entry_def Some open_step_def)
  qed
qed

text \<open>The session's own operations on one conversation, as changes of its entry.\<close>

fun own_event :: "utf16 \<Rightarrow> utf16 \<Rightarrow> pv_event \<Rightarrow> bool" where
  "own_event k c (PBegin k' c') \<longleftrightarrow> k' = k \<and> c' = c"
| "own_event k c (PRecord k' c' p) \<longleftrightarrow> k' = k \<and> c' = c"
| "own_event k c (PFinish k' c') \<longleftrightarrow> k' = k \<and> c' = c"
| "own_event k c _ \<longleftrightarrow> False"

fun own_entry :: "pv_event \<Rightarrow> provenance_entry \<Rightarrow> provenance_entry" where
  "own_entry (PBegin k c) e = e\<lparr>stepPending := True\<rparr>"
| "own_entry (PRecord k c p) e = rec_entry p e"
| "own_entry (PFinish k c) e = finish_entry e"
| "own_entry _ e = e"

lemma kept_own:
  assumes "jm_kept k e n m" "tp_conversationId e = c" "own_event k c ev"
  shows "jm_kept k (own_entry ev e) n (pv_step m ev) \<and> tp_conversationId (own_entry ev e) = c"
proof (cases ev)
  case (PBegin k' c')
  then show ?thesis
    using assms kept_begin [of k c m] entryFor_kept [OF assms(1, 2)] by (auto intro: jm_kept_mono)
qed (use assms kept_record kept_finish in auto)

lemma kept_own_run:
  assumes "jm_kept k e n m" "tp_conversationId e = c" "\<forall>ev \<in> set es. pv_key ev = k \<longrightarrow> own_event k c ev"
    and "n + length (filter (\<lambda>ev. pv_key ev \<noteq> k) es) < MAX_PROVENANCE_SESSIONS"
  shows "\<exists>n'. jm_kept k (fold own_entry (filter (\<lambda>ev. pv_key ev = k) es) e) n' (foldl pv_step m es)"
  using assms
proof (induction es arbitrary: e n m)
  case (Cons ev es)
  show ?case
  proof (cases "pv_key ev = k")
    case True
    then show ?thesis using Cons.IH [of "own_entry ev e" n "pv_step m ev"] Cons.prems kept_own [of k e n m c ev] by auto
  next
    case False
    then show ?thesis using Cons.IH [of e "Suc n" "pv_step m ev"] Cons.prems kept_step_other [of k e n m ev] by auto
  qed
qed auto

section \<open>A step this provider emitted is recognized\<close>

text \<open>
  What the host's last assistant message holds after it read the parts \<open>qs\<close>: the calls, the text and
  the reasoning in emission order, deltas merged and white space free to differ. After a model switch the
  host replays reasoning as text.
\<close>

definition replays :: "bool \<Rightarrow> emitted_part list \<Rightarrow> host_part list \<Rightarrow> bool" where
  "replays switched qs hs \<longleftrightarrow> host_calls hs = calls_of qs \<and> host_reasoned hs = reasoned_of qs
     \<and> host_text hs = (if switched then reasoned_of qs else text_of qs)"

definition host_step :: "host_part list \<Rightarrow> emitted_step" where
  "host_step hs = \<lparr>toolCallIds = host_calls hs, es_text = take MAX_TEXT_CHARS (host_text hs),
     textWithReasoning = take MAX_TEXT_CHARS (host_reasoned hs)\<rparr>"

text \<open>The comparison of one entry with the message.\<close>

definition own_turn :: "provenance_entry \<Rightarrow> host_part list \<Rightarrow> bool" where
  "own_turn e hs \<longleftrightarrow> host_calls hs = [] \<and> host_text hs = [] \<or> sameStep (tp_step e) (host_step hs)
     \<or> tp_unfinished e \<and> (case tp_previous e of None \<Rightarrow> False | Some p \<Rightarrow> sameStep p (host_step hs))
     \<or> tp_unfinished e \<and> host_calls hs = []
        \<and> (take MAX_TEXT_CHARS (host_text hs) \<noteq> [] \<and> starts_with (take MAX_TEXT_CHARS (host_text hs)) (es_text (tp_step e))
           \<or> take MAX_TEXT_CHARS (host_reasoned hs) \<noteq> []
             \<and> starts_with (take MAX_TEXT_CHARS (host_reasoned hs)) (textWithReasoning (tp_step e)))"

lemma detect_iff:
  "detectForeignHistory (Some k) c prompt m \<longleftrightarrow> k \<noteq> [] \<and>
     (case jm_get m k of None \<Rightarrow> False
      | Some e \<Rightarrow> tp_conversationId e = c \<and>
          (case last_assistant prompt of Some (AssistantMessage (Some hs)) \<Rightarrow> \<not> own_turn e hs | _ \<Rightarrow> False))"
  unfolding own_turn_def host_step_def
  by (simp add: detectForeignHistory_def Let_def del: take_eq_Nil take_eq_Nil2 split: option.split host_message.split) blast

lemma MAX_pos: "0 < MAX_TEXT_CHARS" "0 < MAX_TOOL_CALL_IDS"
  by (simp_all add: MAX_TEXT_CHARS_def MAX_TOOL_CALL_IDS_def)

lemma call_recorded: "calls_of qs \<noteq> [] \<Longrightarrow> prefix qs ps \<Longrightarrow> hd (calls_of qs) \<in> set (toolCallIds (step_of ps))"
  by (cases "calls_of qs") (auto simp: prefix_def step_of_def parts_append MAX_TOOL_CALL_IDS_def)

lemma take_prefix_starts: "prefix u v \<Longrightarrow> starts_with (take n u) (take n v)"
  by (auto simp: prefix_def starts_with_def min_def)

lemma same_step_replayed:
  assumes "replays switched ps hs" "host_calls hs \<noteq> [] \<or> host_text hs \<noteq> []"
  shows "sameStep (step_of ps) (host_step hs)"
proof (cases "calls_of ps = []")
  case False
  then have "hd (calls_of ps) \<in> set (calls_of ps)" by simp
  then show ?thesis
    using call_recorded [OF False, of ps] assms by (auto simp: sameStep_def replays_def host_step_def list_ex_iff)
next
  case True
  then show ?thesis using assms MAX_pos by (auto simp: sameStep_def replays_def host_step_def step_of_def split: if_splits)
qed

lemma prefix_replayed:
  assumes "replays switched qs hs" "prefix qs ps" "tp_step e = step_of ps" "tp_unfinished e"
  shows "own_turn e hs"
proof (cases "calls_of qs = []")
  case False
  then have "hd (calls_of qs) \<in> set (calls_of qs)" by simp
  then show ?thesis
    using call_recorded [OF False assms(2)] assms by (auto simp: own_turn_def sameStep_def replays_def host_step_def list_ex_iff)
next
  case True
  have "prefix (text_of qs) (text_of ps)" "prefix (reasoned_of qs) (reasoned_of ps)"
    using assms(2) by (auto simp: prefix_def parts_append)
  then show ?thesis
    using True assms MAX_pos by (auto simp: own_turn_def replays_def step_of_def take_prefix_starts split: if_splits)
qed

lemma contentless_replayed: "\<not> hasContent (step_of ps) \<Longrightarrow> prefix qs ps \<Longrightarrow> replays switched qs hs \<Longrightarrow> own_turn e hs"
  using MAX_pos by (auto simp: own_turn_def replays_def step_of_def hasContent_def prefix_def parts_append)

lemma map_record [simp]: "fold own_entry (map (PRecord k c) ps) = fold rec_entry ps"
  by (induction ps) (auto simp: fun_eq_iff)

text \<open>The entry after a finished step and, perhaps, a further one.\<close>

lemma own_turn_of_steps:
  assumes "stepPending e" "replays switched qs hs" "qs = ps \<or> again \<and> prefix qs ps'"
  shows "own_turn (fold own_entry (map (PRecord k c) ps @ PFinish k c # (if again then PBegin k c # map (PRecord k c) ps' else [])) e) hs"
proof (cases "host_calls hs = [] \<and> host_text hs = []")
  case True
  then show ?thesis by (simp add: own_turn_def)
next
  case content: False
  let ?e1 = "finish_entry (fold rec_entry ps e)"
  have p: "stepPending (?e1\<lparr>stepPending := True\<rparr>)" by simp
  have one: "qs = ps \<Longrightarrow> hasContent (step_of ps)"
    using contentless_replayed [of ps qs switched hs] content assms(2)
    by (auto simp: replays_def hasContent_def step_of_def MAX_TEXT_CHARS_def MAX_TOOL_CALL_IDS_def split: if_splits)
  have same: "qs = ps \<Longrightarrow> sameStep (step_of ps) (host_step hs)" using same_step_replayed content assms(2) by blast
  have e1: "qs = ps \<Longrightarrow> tp_step ?e1 = step_of ps" using one by (simp add: rec_parts [OF assms(1)] finish_entry_def)
  show ?thesis
  proof (cases again)
    case False
    then show ?thesis using assms(3) e1 same by (simp add: own_turn_def)
  next
    case True
    show ?thesis
    proof (cases "qs = ps")
      case first: True
      then show ?thesis using True e1 same one by (auto simp: rec_parts [OF p] own_turn_def)
    next
      case False
      then have pre: "prefix qs ps'" using assms(3) by blast
      then have "hasContent (step_of ps') \<Longrightarrow> ?thesis"
        using True by (auto simp: rec_parts [OF p] intro!: prefix_replayed [OF assms(2) pre])
      then show ?thesis using contentless_replayed [OF _ pre assms(2)] by blast
    qed
  qed
qed

text \<open>C5: A conversation whose history still ends on what this provider emitted is not taken for one the host
continued with another provider. A step of the session begins, its parts are recorded and it is finished, and
perhaps a further step begins, which is still streaming or was stopped; besides these there are no operations
of the session itself - no reset, restore or resume - and fewer than 256 operations of other sessions, the
number of sessions the record keeps, each recorded delta counting as one. Then, if the host's last assistant
message holds the parts of the finished step or any leading parts of the further one, whatever their grouping
and white space and also when the host replays reasoning as text, no foreign history is reported.\<close>

theorem own_step_is_never_foreign:
  assumes "filter (\<lambda>ev. pv_key ev = k) es =
      map (PRecord k c) ps @ PFinish k c # (if again then PBegin k c # map (PRecord k c) ps' else [])"
    and "length (filter (\<lambda>ev. pv_key ev \<noteq> k) es) < MAX_PROVENANCE_SESSIONS"
    and "last_assistant prompt = Some (AssistantMessage (Some hs))"
    and "replays switched qs hs" and "qs = ps \<or> again \<and> prefix qs ps'"
  shows "\<not> detectForeignHistory (Some k) c prompt (foldl pv_step m (PBegin k c # es))"
proof -
  let ?e = "(fst (entryFor k c m))\<lparr>stepPending := True\<rparr>"
  have conv: "tp_conversationId ?e = c" by (simp add: entryFor_conv)
  have own: "\<forall>ev \<in> set es. pv_key ev = k \<longrightarrow> own_event k c ev"
  proof (intro ballI impI)
    fix ev assume "ev \<in> set es" "pv_key ev = k"
    then have "ev \<in> set (filter (\<lambda>ev. pv_key ev = k) es)" by simp
    then show "own_event k c ev" unfolding assms(1) by (auto split: if_splits)
  qed
  obtain n where kept: "jm_kept k (fold own_entry (filter (\<lambda>ev. pv_key ev = k) es) ?e) n (foldl pv_step m (PBegin k c # es))"
    using kept_own_run [OF kept_begin conv own] assms(2) by auto
  have same: "tp_conversationId (fold own_entry evs e) = tp_conversationId e" for evs e
  proof (induction evs arbitrary: e)
    case (Cons ev evs)
    then show ?case by (cases ev) simp_all
  qed simp
  have "own_turn (fold own_entry (filter (\<lambda>ev. pv_key ev = k) es) ?e) hs"
    unfolding assms(1) by (rule own_turn_of_steps [OF _ assms(4, 5)]) simp
  then show ?thesis using jm_kept_get [OF kept] assms(3) by (simp add: detect_iff same conv)
qed

section \<open>A restart keeps the record\<close>

definition step_ok :: "emitted_step \<Rightarrow> bool" where
  "step_ok s \<longleftrightarrow> length (toolCallIds s) \<le> MAX_TOOL_CALL_IDS \<and> length (es_text s) \<le> MAX_TEXT_CHARS
     \<and> length (textWithReasoning s) \<le> MAX_TEXT_CHARS"

definition entry_ok :: "provenance_entry \<Rightarrow> bool" where
  "entry_ok e \<longleftrightarrow> step_ok (tp_step e) \<and> (case tp_previous e of None \<Rightarrow> True | Some p \<Rightarrow> step_ok p)"

definition pv_ok :: "provenance \<Rightarrow> bool" where
  "pv_ok m \<longleftrightarrow> jm_wf m \<and> (\<forall>p \<in> set m. entry_ok (snd p))"

lemma pv_ok_get: "pv_ok m \<Longrightarrow> jm_get m k = Some e \<Longrightarrow> entry_ok e"
  by (auto simp: pv_ok_def dest: map_of_SomeD)

lemma pv_ok_touch: "pv_ok m \<Longrightarrow> entry_ok e \<Longrightarrow> pv_ok (touch_entry k e m)"
proof -
  assume a: "pv_ok m" "entry_ok e"
  obtain n where n: "touch_entry k e m = drop n (jm_touch k e m)"
    using evict_oldest_drop unfolding touch_entry_def by blast
  have "jm_wf (jm_touch k e m)" using a by (simp add: pv_ok_def)
  then have "jm_wf (drop n (jm_touch k e m))" by (simp flip: drop_map)
  moreover have "set (drop n (jm_touch k e m)) \<subseteq> insert (k, e) (set m)"
    by (auto simp: jm_touch_append dest: in_set_dropD)
  ultimately show ?thesis using a unfolding n pv_ok_def by (metis (no_types, lifting) insertE snd_conv subsetD)
qed

lemma pv_ok_set: "pv_ok m \<Longrightarrow> entry_ok e \<Longrightarrow> pv_ok (set_entry k e m)"
proof -
  assume a: "pv_ok m" "entry_ok e"
  have "p \<in> set (AList.map_entry k (\<lambda>_. e) m) \<Longrightarrow> p \<in> set m \<or> p = (k, e)" for p
    by (induction m) (auto split: if_splits)
  then have "p \<in> set (set_entry k e m) \<Longrightarrow> entry_ok (snd p)" for p
    using a unfolding pv_ok_def set_entry_def by (metis snd_conv)
  then show ?thesis using a by (simp add: pv_ok_def set_entry_def)
qed

lemma entry_ok_entryFor: "pv_ok m \<Longrightarrow> entry_ok (fst (entryFor k c m)) \<and> pv_ok (snd (entryFor k c m))"
  using pv_ok_get [of m k]
  by (auto simp: entryFor_def Let_def fresh_entry_def entry_ok_def step_ok_def empty_step_def split: option.splits
      intro!: pv_ok_touch)

lemma step_ok_part: "part_effect p = Some f \<Longrightarrow> step_ok s \<Longrightarrow> step_ok (f s)"
  by (cases p) (auto simp: part_effect_def step_ok_def add_text_def add_call_def appendCapped_def Let_def split: if_splits)

lemma entry_ok_part:
  assumes "entry_ok e" "part_effect p = Some f"
  shows "entry_ok (open_step e) \<and> entry_ok ((open_step e)\<lparr>tp_step := f (tp_step (open_step e))\<rparr>)"
proof -
  have o: "entry_ok (open_step e)" using assms(1) by (auto simp: entry_ok_def open_step_def step_ok_def empty_step_def)
  then show ?thesis using step_ok_part [OF assms(2)] by (simp add: entry_ok_def)
qed

lemma parsed_ok: "parseTurnProvenance raw = Some v \<Longrightarrow> step_ok (tp_step v) \<and> (case tp_previous v of None \<Rightarrow> True | Some p \<Rightarrow> step_ok p)"
proof -
  have "step_ok (parseStep j)" for j by (auto simp: parseStep_def step_ok_def split: option.splits json.splits)
  then show "parseTurnProvenance raw = Some v \<Longrightarrow> ?thesis"
    by (auto simp: parseTurnProvenance_def Let_def split: option.splits if_splits)
qed

lemma pv_ok_step [model_inv]: "pv_ok m \<Longrightarrow> pv_ok (pv_step m ev)"
proof (cases ev)
  case (PRecord k c p)
  assume m: "pv_ok m"
  show ?thesis
    using entry_ok_entryFor [OF m, of k c] PRecord entry_ok_part [of "fst (entryFor k c m)" p]
    by (auto simp: recordEmittedPart_def contentEntry_def Let_def case_prod_beta m intro!: pv_ok_set split: option.splits)
next
  case (PRestore k raw)
  assume m: "pv_ok m"
  then show ?thesis
    using PRestore parsed_ok by (fastforce simp: restoreTurnProvenance_def entry_ok_def intro!: pv_ok_touch split: option.splits)
next
  case (PForget k)
  then show "pv_ok m \<Longrightarrow> ?thesis"
    by (auto simp: forgetTurnProvenance_def pv_ok_def jm_delete_filter)
qed (use entry_ok_entryFor pv_ok_get in \<open>fastforce simp: beginEmittedStep_def finishEmittedStep_def resumeEmittedStep_def
    trackTurnProvenance_def case_prod_beta entry_ok_def intro!: pv_ok_set split: option.splits\<close>)+

interpretation pv: step_system "\<lambda>m. m = []" pv_step pv_ok
  by unfold_locales (auto simp: pv_ok_def pv_ok_step [unfolded pv_ok_def])

lemma map_filter_strings: "List.map_filter string_of (map JString xs) = xs"
  by (induction xs) (auto simp: List.map_filter_def)

lemma json_field_step: "json_field (JObject (step_json s)) k =
    (if k = lit ''textWithReasoning'' then JString (textWithReasoning s) else if k = lit ''text'' then JString (es_text s)
     else if k = lit ''toolCallIds'' then JArray (map JString (toolCallIds s)) else JUndefined)"
  by (simp add: step_json_def)

lemma keys_distinct:
  "lit ''toolCallIds'' \<noteq> lit ''text''" "lit ''toolCallIds'' \<noteq> lit ''textWithReasoning''" "lit ''text'' \<noteq> lit ''textWithReasoning''"
  "lit ''conversationId'' \<noteq> lit ''toolCallIds''" "lit ''conversationId'' \<noteq> lit ''text''" "lit ''conversationId'' \<noteq> lit ''textWithReasoning''"
  "lit ''conversationId'' \<noteq> lit ''unfinished''" "lit ''conversationId'' \<noteq> lit ''previous''" "lit ''unfinished'' \<noteq> lit ''previous''"
  "lit ''unfinished'' \<noteq> lit ''text''" "lit ''unfinished'' \<noteq> lit ''toolCallIds''" "lit ''unfinished'' \<noteq> lit ''textWithReasoning''"
  "lit ''previous'' \<noteq> lit ''text''" "lit ''previous'' \<noteq> lit ''toolCallIds''" "lit ''previous'' \<noteq> lit ''textWithReasoning''"
  by (simp_all add: lit_def)

lemma parse_step_json: "step_ok s \<Longrightarrow> parseStep (JObject (step_json s)) = s"
  by (simp add: parseStep_def json_field_step map_filter_strings step_ok_def keys_distinct del: json_field.simps)

lemma parse_serialized:
  assumes "step_ok (tp_step v)" "case tp_previous v of None \<Rightarrow> True | Some p \<Rightarrow> step_ok p" "tp_conversationId v \<noteq> []"
    and "tp_previous v \<noteq> None \<longrightarrow> tp_unfinished v"
  shows "parseTurnProvenance (Some (serializeTurnProvenance v)) = Some v"
proof -
  let ?j = "serializeTurnProvenance v"
  note d = keys_distinct keys_distinct [symmetric]
  have f: "json_field ?j (lit ''conversationId'') = JString (tp_conversationId v)"
    "json_field ?j (lit ''unfinished'') = (if tp_unfinished v then JBoolean True else JUndefined)"
    "json_field ?j (lit ''previous'') = (case tp_previous v of None \<Rightarrow> JUndefined | Some p \<Rightarrow> JObject (step_json p))"
    "json_field ?j (lit ''toolCallIds'') = JArray (map JString (toolCallIds (tp_step v)))"
    "json_field ?j (lit ''text'') = JString (es_text (tp_step v))"
    "json_field ?j (lit ''textWithReasoning'') = JString (textWithReasoning (tp_step v))"
    by (auto simp: serializeTurnProvenance_def step_json_def d split: option.splits)
  have "parseStep ?j = tp_step v"
    using assms(1) by (simp add: parseStep_def f map_filter_strings step_ok_def)
  then have "parseTurnProvenance (Some ?j) = Some \<lparr>tp_conversationId = tp_conversationId v, tp_step = tp_step v,
      tp_unfinished = tp_unfinished v, tp_previous = tp_previous v\<rparr>"
    using assms(2-) by (cases "tp_previous v") (auto simp: parseTurnProvenance_def f Let_def parse_step_json)
  then show ?thesis by simp
qed

text \<open>A restart changes no answer: after any sequence of operations the record of a session is read back
  from its saved form exactly, caps included, and a process that restored it over whatever it held gives
  the same verdict on every prompt.\<close>

theorem provenance_survives_restart:
  assumes "getTurnProvenance k (foldl pv_step [] es) = Some v" and "tp_conversationId v \<noteq> []"
  shows "parseTurnProvenance (Some (serializeTurnProvenance v)) = Some v
    \<and> detectForeignHistory (Some k) c prompt (pv_step m (PRestore k (Some (serializeTurnProvenance v))))
       = detectForeignHistory (Some k) c prompt (foldl pv_step [] es)"
proof -
  let ?m = "foldl pv_step [] es"
  have run: "pv.run m0 evs = foldl pv_step m0 evs" for m0 evs by (induction m0 evs rule: pv.run.induct) simp_all
  obtain e where e: "jm_get ?m k = Some e" "v = \<lparr>tp_conversationId = tp_conversationId e, tp_step = tp_step e,
      tp_unfinished = tp_unfinished e, tp_previous = (if tp_unfinished e then tp_previous e else None)\<rparr>"
    using assms(1) by (auto simp: getTurnProvenance_def)
  have "entry_ok e" using pv_ok_get [OF pv.reachable_inv [of "[]" es, unfolded run] e(1)] by simp
  then have p: "parseTurnProvenance (Some (serializeTurnProvenance v)) = Some v"
    using assms(2) by (intro parse_serialized) (auto simp: e(2) entry_ok_def)
  have "jm_get (restoreTurnProvenance k v m) k = Some \<lparr>tp_conversationId = tp_conversationId e, tp_step = tp_step e,
      tp_unfinished = tp_unfinished e, tp_previous = (if tp_unfinished e then tp_previous e else None), stepPending = False\<rparr>"
    unfolding restoreTurnProvenance_def by (rule jm_kept_get [THEN trans]) (auto simp: e(2) intro: kept_touch_new)
  moreover have "own_turn \<lparr>tp_conversationId = tp_conversationId e, tp_step = tp_step e,
      tp_unfinished = tp_unfinished e, tp_previous = (if tp_unfinished e then tp_previous e else None), stepPending = False\<rparr> hs
      \<longleftrightarrow> own_turn e hs" for hs by (auto simp: own_turn_def)
  ultimately show ?thesis
    using p e(1) by (simp add: detect_iff split del: if_split split: option.split host_message.split)
qed

text \<open>A step with reasoning, text and a call ends; in the next one the host read one of two deltas.\<close>

theorem own_step_is_never_foreign_witness:
  "\<not> detectForeignHistory (Some [1]) [2] [OtherMessage, AssistantMessage (Some [HostText [100, 32]]), OtherMessage]
     (foldl pv_step [] (PBegin [1] [2] # [PRecord [1] [2] (ReasoningDelta [97, 32]), PForget [5], PRecord [1] [2] (ToolCall [99]),
        PFinish [1] [2], PBegin [1] [2], PRecord [1] [2] (TextDelta [100]), PRecord [1] [2] (TextDelta [101])]))"
  by (rule own_step_is_never_foreign [where ps = "[ReasoningDelta [97, 32], ToolCall [99]]" and again = True
        and ps' = "[TextDelta [100], TextDelta [101]]" and qs = "[TextDelta [100]]" and switched = False
        and hs = "[HostText [100, 32]]"])
    (simp_all add: last_assistant_def MAX_PROVENANCE_SESSIONS_def replays_def host_calls_def host_text_def host_reasoned_def
      calls_of_def text_of_def reasoned_of_def List.map_filter_def normalizeText_def js_space_def)

theorem provenance_survives_restart_witness:
  "parseTurnProvenance (Some (serializeTurnProvenance \<lparr>tp_conversationId = [2], tp_step = \<lparr>toolCallIds = [[99]], es_text = [],
       textWithReasoning = []\<rparr>, tp_unfinished = True, tp_previous = None\<rparr>))
     = Some \<lparr>tp_conversationId = [2], tp_step = \<lparr>toolCallIds = [[99]], es_text = [], textWithReasoning = []\<rparr>,
         tp_unfinished = True, tp_previous = None\<rparr>"
  using provenance_survives_restart [of "[1]" "[PBegin [1] [2], PRecord [1] [2] (ToolCall [99])]"
      "\<lparr>tp_conversationId = [2], tp_step = \<lparr>toolCallIds = [[99]], es_text = [], textWithReasoning = []\<rparr>,
         tp_unfinished = True, tp_previous = None\<rparr>"]
  by (simp add: getTurnProvenance_def beginEmittedStep_def recordEmittedPart_def contentEntry_def part_effect_def entryFor_def
      fresh_entry_def Let_def touch_entry_def jm_touch_def MAX_PROVENANCE_SESSIONS_def set_entry_def open_step_def add_call_def
      hasContent_def empty_step_def MAX_TOOL_CALL_IDS_def)

end
