(* ===== verification/EditRemap.thy ===== *)
theory EditRemap
  imports ApplyPatch Utf8
begin

text \<open>
  What becomes of Cursor's native write and edit requests when the host's catalog lacks the tool they
  ask for (\<open>src/src/protocol/tools.ts\<close>): a whole-file write of an existing file is collapsed into one
  line-bounded replacement, and writes and edits become patch envelopes. The file system is a function
  from resolved paths to what \<open>statSync\<close> and \<open>readFileSync\<close> report, \<open>path.resolve\<close> on the workspace
  root (or the working directory) is a parameter.
\<close>

section \<open>Collapsing a whole-file replacement\<close>

record whole_file_edit =
  wf_oldString :: utf16
  wf_newString :: utf16

text \<open>The number of non-overlapping occurrences, stopping at two.\<close>

definition replacementOccurrenceCount :: "utf16 \<Rightarrow> utf16 \<Rightarrow> nat" where
  "replacementOccurrenceCount source needle =
     (if needle = [] then 0
      else case indexOf source needle 0 of None \<Rightarrow> 0
        | Some first \<Rightarrow> (if indexOf source needle (first + length needle) = None then 1 else 2))"

text \<open>\<open>lastIndexOf\<close> takes a negative position as zero.\<close>

definition after_newline :: "utf16 \<Rightarrow> int \<Rightarrow> nat" where
  "after_newline source before = (case lastIndexOf source [nl] (nat before) of None \<Rightarrow> 0 | Some i \<Rightarrow> i + 1)"

definition previousLineStart :: "utf16 \<Rightarrow> nat \<Rightarrow> nat" where
  "previousLineStart source start =
     (if start = 0 then 0
      else after_newline source (if source ! (start - 1) = nl then int start - 2 else int start - 1))"

definition followingLineEnd :: "utf16 \<Rightarrow> nat \<Rightarrow> nat" where
  "followingLineEnd source e =
     (if length source \<le> e then length source
      else case indexOf source [nl] e of None \<Rightarrow> length source | Some newline \<Rightarrow> newline + 1)"

text \<open>The two scans for what source and target share at their ends.\<close>

function shared_prefix :: "utf16 \<Rightarrow> utf16 \<Rightarrow> nat \<Rightarrow> nat" where
  "shared_prefix source target i =
     (if i < min (length source) (length target) \<and> source ! i = target ! i then shared_prefix source target (i + 1) else i)"
  by pat_completeness auto
termination by (relation "measure (\<lambda>(s, t, i). length s - i)") auto

function shared_suffix :: "utf16 \<Rightarrow> utf16 \<Rightarrow> nat \<Rightarrow> nat \<Rightarrow> nat" where
  "shared_suffix source target pre i =
     (if i < length source - pre \<and> i < length target - pre
         \<and> source ! (length source - i - 1) = target ! (length target - i - 1)
      then shared_suffix source target pre (i + 1) else i)"
  by pat_completeness auto
termination by (relation "measure (\<lambda>(s, t, p, i). length s - i)") auto

declare shared_prefix.simps [simp del] shared_suffix.simps [simp del]

definition replacement :: "utf16 \<Rightarrow> utf16 \<Rightarrow> nat \<Rightarrow> nat \<Rightarrow> nat \<Rightarrow> nat \<Rightarrow> nat \<Rightarrow> whole_file_edit" where
  "replacement source target pre sourceChangeEnd targetChangeEnd start e =
     \<lparr>wf_oldString = slice source start e,
      wf_newString = slice source start pre @ slice target pre targetChangeEnd @ slice source sourceChangeEnd e\<rparr>"

lemma after_newline_le: "after_newline source b \<le> Suc (nat b)"
  by (auto simp: after_newline_def lastIndexOf_Some split: option.splits)

lemma previousLineStart_le: "previousLineStart source start \<le> start"
  using after_newline_le [of source "int start - 2"] after_newline_le [of source "int start - 1"]
  by (cases "start = 1") (auto simp: previousLineStart_def nat_diff_distrib)

lemma followingLineEnd_ge: "e \<le> length source \<Longrightarrow> e \<le> followingLineEnd source e \<and> followingLineEnd source e \<le> length source"
  by (auto simp: followingLineEnd_def indexOf_Some split: option.splits)

text \<open>The widening loop: a line before and a line after until the text is found once.\<close>

function widen :: "utf16 \<Rightarrow> (nat \<Rightarrow> nat \<Rightarrow> whole_file_edit) \<Rightarrow> nat \<Rightarrow> nat \<Rightarrow> whole_file_edit option" where
  "widen source repl start e =
     (if replacementOccurrenceCount source (wf_oldString (repl start e)) = 1 then Some (repl start e)
      else (let start' = (if start > 0 then previousLineStart source start else start);
                e' = (if e < length source then followingLineEnd source e else e)
            in if start' = start \<and> e' = e then None else widen source repl start' e'))"
  by pat_completeness auto
termination
proof (relation "measure (\<lambda>(s, r, a, e). a + (length s - e))", goal_cases)
  case (2 source repl start e x xa)
  then show ?case
    using previousLineStart_le [of source start] followingLineEnd_ge [of e source] by (auto split: if_splits)
qed simp

declare widen.simps [simp del]

definition planWholeFileEdit :: "utf16 \<Rightarrow> utf16 \<Rightarrow> whole_file_edit option" where
  "planWholeFileEdit source target =
     (if source = [] \<or> source = target then None
      else
        let pre = shared_prefix source target 0;
            suf = shared_suffix source target pre 0;
            sourceChangeEnd = length source - suf;
            targetChangeEnd = length target - suf;
            start = (if pre = 0 then 0 else after_newline source (int pre - 1));
            e = (if sourceChangeEnd \<ge> length source then length source else followingLineEnd source sourceChangeEnd);
            start' = (if start = e \<and> start > 0 then previousLineStart source start else start);
            e' = (if start = e \<and> start = 0 then followingLineEnd source e else e)
        in widen source (replacement source target pre sourceChangeEnd targetChangeEnd) start' e')"

section \<open>The plan is exact\<close>

lemma shared_prefix_spec:
  assumes "i \<le> length s" "i \<le> length t" "take i s = take i t"
  shows "i \<le> shared_prefix s t i \<and> shared_prefix s t i \<le> length s \<and> shared_prefix s t i \<le> length t
    \<and> take (shared_prefix s t i) s = take (shared_prefix s t i) t"
  using assms
proof (induction s t i rule: shared_prefix.induct)
  case (1 s t i)
  show ?case
  proof (cases "i < min (length s) (length t) \<and> s ! i = t ! i")
    case True
    then have "take (i + 1) s = take (i + 1) t" using 1(4) by (simp add: take_Suc_conv_app_nth)
    with 1 True show ?thesis by (subst (1 2 3 4 5) shared_prefix.simps) auto
  next
    case False
    then have "shared_prefix s t i = i" by (subst shared_prefix.simps) (rule if_not_P)
    then show ?thesis using 1(2-) by simp
  qed
qed

lemma shared_suffix_spec:
  assumes "i \<le> length s - p" "i \<le> length t - p" "drop (length s - i) s = drop (length t - i) t"
  shows "shared_suffix s t p i \<le> length s - p \<and> shared_suffix s t p i \<le> length t - p
    \<and> drop (length s - shared_suffix s t p i) s = drop (length t - shared_suffix s t p i) t"
  using assms
proof (induction s t p i rule: shared_suffix.induct)
  case (1 s t p i)
  show ?case
  proof (cases "i < length s - p \<and> i < length t - p \<and> s ! (length s - i - 1) = t ! (length t - i - 1)")
    case True
    have d: "drop (length u - (i + 1)) u = u ! (length u - i - 1) # drop (length u - i) u" if "i < length u" for u :: utf16
      using that Cons_nth_drop_Suc [of "length u - (i + 1)" u] by (simp add: Suc_diff_Suc)
    have "i < length s" "i < length t" using True by auto
    then have "drop (length s - (i + 1)) s = drop (length t - (i + 1)) t" using 1(4) True by (simp only: d)
    with 1 True show ?thesis by (subst (1 2 3 4) shared_suffix.simps) auto
  next
    case False
    then have "shared_suffix s t p i = i" by (subst shared_suffix.simps) (rule if_not_P)
    then show ?thesis using 1(2-) by simp
  qed
qed

text \<open>Both texts around the change: what they share before it and after it.\<close>

definition change :: "utf16 \<Rightarrow> utf16 \<Rightarrow> nat \<Rightarrow> nat \<Rightarrow> nat \<Rightarrow> bool" where
  "change source target p sce tce \<longleftrightarrow> p \<le> sce \<and> sce \<le> length source \<and> p \<le> tce \<and> tce \<le> length target
     \<and> take p source = take p target \<and> drop sce source = drop tce target"

lemma change_shared:
  fixes source target
  defines "p \<equiv> shared_prefix source target 0"
  shows "change source target p (length source - shared_suffix source target p 0) (length target - shared_suffix source target p 0)"
  using shared_prefix_spec [of 0 source target] shared_suffix_spec [of 0 source p target] by (auto simp: change_def p_def)

lemma replacement_exact:
  assumes "change source target p sce tce" "a \<le> p" "sce \<le> e" "e \<le> length source"
  shows "source = take a source @ wf_oldString (replacement source target p sce tce a e) @ drop e source"
    and "target = take a source @ wf_newString (replacement source target p sce tce a e) @ drop e source"
proof -
  have c: "p \<le> sce" "take p source = take p target" "drop sce source = drop tce target" "p \<le> tce" "tce \<le> length target"
    using assms(1) by (simp_all add: change_def)
  have ae: "a \<le> e" using assms c by simp
  show "source = take a source @ wf_oldString (replacement source target p sce tce a e) @ drop e source"
    using ae by (simp add: replacement_def slice_def) (metis append_take_drop_id drop_drop le_add_diff_inverse2)
  have "take a source @ slice source a p = take p source"
    using assms(2) by (simp add: slice_def) (metis le_add_diff_inverse take_add)
  moreover have "take p target @ slice target p tce = take tce target"
    using c(4) by (simp add: slice_def) (metis le_add_diff_inverse take_add)
  moreover have "slice source sce e @ drop e source = drop sce source"
    using assms(3) by (simp add: slice_def) (metis append_take_drop_id drop_drop le_add_diff_inverse2)
  ultimately show "target = take a source @ wf_newString (replacement source target p sce tce a e) @ drop e source"
    using c(2, 3) by (simp add: replacement_def) (metis append.assoc append_take_drop_id)
qed

definition line_bounded :: "utf16 \<Rightarrow> nat \<Rightarrow> nat \<Rightarrow> bool" where
  "line_bounded source a e \<longleftrightarrow> (a = 0 \<or> source ! (a - 1) = nl) \<and> (e = length source \<or> 0 < e \<and> source ! (e - 1) = nl)"

lemma starts_nl_at: "starts_with [nl] (drop i s) \<longleftrightarrow> i < length s \<and> s ! i = nl"
  by (simp add: starts_with_at Suc_le_eq)

lemma after_newline_bound: "after_newline source b = 0 \<or> source ! (after_newline source b - 1) = nl"
  by (auto simp: after_newline_def lastIndexOf_Some starts_nl_at split: option.splits)

lemma line_bounded_wider:
  assumes "line_bounded source a e" "e \<le> length source"
  shows "line_bounded source (if a > 0 then previousLineStart source a else a) (if e < length source then followingLineEnd source e else e)"
proof -
  have "previousLineStart source a = 0 \<or> source ! (previousLineStart source a - 1) = nl"
    using after_newline_bound by (auto simp: previousLineStart_def)
  moreover have "followingLineEnd source e = length source \<or> 0 < followingLineEnd source e \<and> source ! (followingLineEnd source e - 1) = nl"
    by (auto simp: followingLineEnd_def indexOf_Some starts_nl_at split: option.splits)
  ultimately show ?thesis using assms by (auto simp: line_bounded_def)
qed

lemma widen_spec:
  assumes "widen source repl a e = Some r" "line_bounded source a e" "e \<le> length source"
  shows "\<exists>a' e'. a' \<le> a \<and> e \<le> e' \<and> e' \<le> length source \<and> line_bounded source a' e' \<and> r = repl a' e'
    \<and> replacementOccurrenceCount source (wf_oldString r) = 1"
  using assms
proof (induction source repl a e rule: widen.induct)
  case (1 source repl a e)
  let ?a = "if a > 0 then previousLineStart source a else a" and ?e = "if e < length source then followingLineEnd source e else e"
  show ?case
  proof (cases "replacementOccurrenceCount source (wf_oldString (repl a e)) = 1")
    case True
    then show ?thesis using 1(2-) by (auto simp: widen.simps [of source repl a e])
  next
    case False
    then have ne: "\<not> (?a = a \<and> ?e = e)" and w: "widen source repl ?a ?e = Some r"
      using 1(2) by (auto simp: widen.simps [of source repl a e] Let_def split: if_splits)
    have le: "?a \<le> a" "e \<le> ?e" "?e \<le> length source"
      using previousLineStart_le followingLineEnd_ge [of e source] 1(4) by auto
    obtain a' e' where "a' \<le> ?a" "?e \<le> e'" "e' \<le> length source" "line_bounded source a' e'" "r = repl a' e'"
      "replacementOccurrenceCount source (wf_oldString r) = 1"
      using 1(1) [OF False refl refl ne w line_bounded_wider [OF 1(3, 4)] le(3)] by blast
    moreover have "a' \<le> a" "e \<le> e'" using calculation(1, 2) le by (auto intro: order_trans)
    ultimately show ?thesis by blast
  qed
qed

text \<open>Where the widening starts.\<close>

definition plan_start :: "utf16 \<Rightarrow> nat \<Rightarrow> nat \<Rightarrow> nat \<times> nat" where
  "plan_start source p sce =
     (let start = (if p = 0 then 0 else after_newline source (int p - 1));
          e = (if sce \<ge> length source then length source else followingLineEnd source sce)
      in (if start = e \<and> start > 0 then previousLineStart source start else start,
          if start = e \<and> start = 0 then followingLineEnd source e else e))"

lemma plan_unfold:
  "planWholeFileEdit source target =
     (if source = [] \<or> source = target then None
      else let p = shared_prefix source target 0; s = shared_suffix source target p 0; sce = length source - s
           in widen source (replacement source target p sce (length target - s)) (fst (plan_start source p sce)) (snd (plan_start source p sce)))"
  by (simp add: planWholeFileEdit_def plan_start_def Let_def)

lemma plan_start_spec:
  assumes "p \<le> sce" "sce \<le> length source"
  shows "fst (plan_start source p sce) \<le> p \<and> sce \<le> snd (plan_start source p sce) \<and> snd (plan_start source p sce) \<le> length source
    \<and> line_bounded source (fst (plan_start source p sce)) (snd (plan_start source p sce))"
proof -
  define a where "a = (if p = 0 then 0 else after_newline source (int p - 1))"
  define e where "e = (if sce \<ge> length source then length source else followingLineEnd source sce)"
  have a: "a \<le> p" "a = 0 \<or> source ! (a - 1) = nl"
    using after_newline_le [of source "int p - 1"] after_newline_bound by (auto simp: a_def nat_diff_distrib)
  have e: "sce \<le> e" "e \<le> length source" "e = length source \<or> 0 < e \<and> source ! (e - 1) = nl"
    using followingLineEnd_ge [OF assms(2)] assms(2)
    by (auto simp: e_def followingLineEnd_def indexOf_Some starts_nl_at split: option.splits)
  have f: "e \<le> followingLineEnd source e" "followingLineEnd source e \<le> length source"
    "followingLineEnd source e = length source \<or> 0 < followingLineEnd source e \<and> source ! (followingLineEnd source e - 1) = nl"
    using followingLineEnd_ge [OF e(2)] by (auto simp: followingLineEnd_def indexOf_Some starts_nl_at split: option.splits)
  have "previousLineStart source a = 0 \<or> source ! (previousLineStart source a - 1) = nl"
    using after_newline_bound by (auto simp: previousLineStart_def)
  then show ?thesis
    using a e f previousLineStart_le [of source a] unfolding plan_start_def Let_def a_def [symmetric] e_def [symmetric] line_bounded_def
    by auto
qed

text \<open>The planned text with what is before and after it.\<close>

lemma plan_parts:
  assumes "planWholeFileEdit source target = Some r"
  obtains a e where "line_bounded source a e" "a \<le> e" "e \<le> length source" "replacementOccurrenceCount source (wf_oldString r) = 1"
    and "source = take a source @ wf_oldString r @ drop e source" "target = take a source @ wf_newString r @ drop e source"
proof -
  define p where "p = shared_prefix source target 0"
  define s where "s = shared_suffix source target p 0"
  define sce where "sce = length source - s"
  define tce where "tce = length target - s"
  have ch: "change source target p sce tce" using change_shared [of source target] by (simp add: p_def s_def sce_def tce_def)
  then have le: "p \<le> sce" "sce \<le> length source" by (simp_all add: change_def)
  have "widen source (replacement source target p sce tce) (fst (plan_start source p sce)) (snd (plan_start source p sce)) = Some r"
    using assms by (simp add: plan_unfold Let_def p_def s_def sce_def tce_def split: if_splits)
  from widen_spec [OF this] plan_start_spec [OF le] obtain a e
    where ae: "a \<le> fst (plan_start source p sce)" "snd (plan_start source p sce) \<le> e" "e \<le> length source" "line_bounded source a e"
      "r = replacement source target p sce tce a e" "replacementOccurrenceCount source (wf_oldString r) = 1" by blast
  then have out: "a \<le> p" "sce \<le> e" using plan_start_spec [OF le] by auto
  have "a \<le> e" using out le by simp
  from that [OF ae(4) this ae(3, 6) replacement_exact [OF ch out ae(3), folded ae(5)]] show ?thesis .
qed

lemma count_one_nonempty: "replacementOccurrenceCount source needle = 1 \<Longrightarrow> needle \<noteq> []"
  by (auto simp: replacementOccurrenceCount_def)

text \<open>A text that starts at one place only is replaced there.\<close>

lemma edited_unique:
  assumes "source = pre @ old @ post" "old \<noteq> []" "\<And>i. starts_with old (drop i source) \<Longrightarrow> i = length pre"
  shows "edited source old new = pre @ new @ post"
proof -
  have first: "indexOf source old 0 = Some (length pre)"
    unfolding indexOf_Some
  proof (intro conjI allI impI)
    fix j assume "0 \<le> j \<and> j < length pre"
    then show "\<not> starts_with old (drop j source)" using assms(3) [of j] by auto
  qed (simp_all add: assms(1))
  have "indexOf source old (length pre + length old) = None"
  proof (rule ccontr)
    assume "indexOf source old (length pre + length old) \<noteq> None"
    then obtain i where "indexOf source old (length pre + length old) = Some i" by blast
    then have "length pre + length old \<le> i" "starts_with old (drop i source)" by (auto simp: indexOf_Some)
    then show False using assms(2, 3) by fastforce
  qed
  then have "match_offsets source old 0 = [length pre]"
    using first assms(2) by (simp add: match_offsets.simps [of source old 0] match_offsets.simps [of source old "length pre + length old"])
  then show ?thesis using assms(1) by (simp add: edited_def)
qed

text \<open>C26: Cursor's whole-file write of an existing file is collapsed exactly: source and content agree
  before and after the planned text, which is not empty, starts and ends at line borders of the file and
  is found once in it without overlap; a host that replaces a text only where it starts in one place
  writes the content Cursor asked for.\<close>

theorem whole_file_plan_is_exact:
  assumes "planWholeFileEdit source target = Some r"
  shows "\<exists>pre post. source = pre @ wf_oldString r @ post \<and> target = pre @ wf_newString r @ post \<and> wf_oldString r \<noteq> []
    \<and> line_bounded source (length pre) (length source - length post) \<and> replacementOccurrenceCount source (wf_oldString r) = 1
    \<and> ((\<forall>i j. starts_with (wf_oldString r) (drop i source) \<longrightarrow> starts_with (wf_oldString r) (drop j source) \<longrightarrow> i = j)
        \<longrightarrow> edited source (wf_oldString r) (wf_newString r) = target)"
proof -
  obtain a e where r: "line_bounded source a e" "a \<le> e" "e \<le> length source" "replacementOccurrenceCount source (wf_oldString r) = 1"
    "source = take a source @ wf_oldString r @ drop e source" "target = take a source @ wf_newString r @ drop e source"
    using plan_parts [OF assms] by blast
  have ne: "wf_oldString r \<noteq> []" using count_one_nonempty [OF r(4)] .
  have "starts_with (wf_oldString r) (drop a source)"
    using r(2, 3, 5) by (metis append_eq_conv_conj append_take_drop_id starts_with_append length_take min.absorb2 order_trans)
  then have "edited source (wf_oldString r) (wf_newString r) = target"
    if "\<forall>i j. starts_with (wf_oldString r) (drop i source) \<longrightarrow> starts_with (wf_oldString r) (drop j source) \<longrightarrow> i = j"
    using edited_unique [OF r(5) ne] r(2, 3) that by (simp flip: r(6))
  moreover have "line_bounded source (length (take a source)) (length source - length (drop e source))"
    using r(1-3) by simp
  ultimately show ?thesis using r(4-6) ne by blast
qed

text \<open>A plan is found for every change of a file that does not start with an empty line.\<close>

lemma previousLineStart_less: "0 < start \<Longrightarrow> source ! 0 \<noteq> nl \<Longrightarrow> previousLineStart source start < start"
proof -
  assume start: "0 < start" and first: "source ! 0 \<noteq> nl"
  show ?thesis
  proof (cases "source ! (start - 1) = nl")
    case True
    then have "1 < start" using start first by (cases "start = 1") auto
    then show ?thesis
      using True after_newline_le [of source "int start - 2"] by (auto simp: previousLineStart_def nat_diff_distrib)
  next
    case False
    have n: "nat (int start - 1) = start - 1" by simp
    have "i \<noteq> start - 1" if "lastIndexOf source [nl] (start - 1) = Some i" for i
      using that False by (auto simp: lastIndexOf_Some starts_nl_at)
    moreover have "i \<le> start - 1" if "lastIndexOf source [nl] (start - 1) = Some i" for i
      using that by (simp add: lastIndexOf_Some)
    ultimately show ?thesis
      using start False by (fastforce simp: previousLineStart_def after_newline_def n split: option.split)
  qed
qed

lemma followingLineEnd_greater: "e < length source \<Longrightarrow> e < followingLineEnd source e"
  by (auto simp: followingLineEnd_def indexOf_Some split: option.splits)

lemma whole_text_once: "source \<noteq> [] \<Longrightarrow> replacementOccurrenceCount source source = 1"
proof -
  assume ne: "source \<noteq> []"
  have "indexOf source source 0 = Some 0" by (simp add: indexOf_Some starts_with_def)
  moreover have "indexOf source source (0 + length source) = None"
    using ne by (simp add: indexOf_def)
  ultimately show ?thesis using ne by (simp add: replacementOccurrenceCount_def)
qed

lemma widen_finds:
  assumes "source \<noteq> []" "source ! 0 \<noteq> nl" "e \<le> length source" "\<And>a e. wf_oldString (repl a e) = slice source a e"
  shows "widen source repl a e \<noteq> None"
  using assms
proof (induction source repl a e rule: widen.induct)
  case (1 source repl a e)
  let ?a = "if a > 0 then previousLineStart source a else a" and ?e = "if e < length source then followingLineEnd source e else e"
  show ?case
  proof (cases "replacementOccurrenceCount source (wf_oldString (repl a e)) = 1")
    case True
    then show ?thesis by (simp add: widen.simps [of source repl a e])
  next
    case False
    have "\<not> (?a = a \<and> ?e = e)"
    proof
      assume "?a = a \<and> ?e = e"
      then have "a = 0" "e = length source"
        using previousLineStart_less [of a source] followingLineEnd_greater [of e source] 1(3, 4) by (auto split: if_splits)
      then show False using False whole_text_once [OF 1(2)] 1(5) by (simp add: slice_def)
    qed
    moreover from this have "widen source repl ?a ?e \<noteq> None"
      using 1(1) [OF False refl refl _ 1(2, 3) _ 1(5)] followingLineEnd_ge [OF 1(4)] 1(4) by auto
    ultimately show ?thesis using False by (simp add: widen.simps [of source repl a e] Let_def)
  qed
qed

text \<open>For a file that is not empty and does not start with an empty line, every different content has
  a plan: the search for a text found once always ends with one, at the latest with the whole file.\<close>

theorem whole_file_plan_exists:
  assumes "source \<noteq> []" and "hd source \<noteq> nl" and "source \<noteq> target"
  shows "\<exists>r. planWholeFileEdit source target = Some r"
proof -
  have "source ! 0 \<noteq> nl" using assms(1, 2) by (simp add: hd_conv_nth)
  moreover have "wf_oldString (replacement source target p sce tce a e) = slice source a e" for p sce tce a e
    by (simp add: replacement_def)
  moreover have "snd (plan_start source p sce) \<le> length source" if "p \<le> sce" "sce \<le> length source" for p sce
    using plan_start_spec [OF that] by simp
  ultimately have "planWholeFileEdit source target \<noteq> None"
    using widen_finds [OF assms(1)] assms(1, 3) change_shared [of source target]
    by (simp add: plan_unfold Let_def change_def)
  then show ?thesis by simp
qed

text \<open>
  The two ways the search falls short of its purpose: an empty first line is never included, so nothing
  can be appended to a file of one empty line; and overlapping occurrences are not counted, so for three equal
  lines the text planned for the last two also starts at the first, where a patch replaces it.
\<close>

lemma first_empty_line_not_included: "planWholeFileEdit [nl] [nl, 120] = None"
  by code_simp

lemma overlapping_text_is_replaced_first:
  "let s = [120, nl, 120, nl, 120, nl]; t = [120, nl, 120, nl, 121, nl]
   in planWholeFileEdit s t = Some \<lparr>wf_oldString = [120, nl, 120, nl], wf_newString = [120, nl, 121, nl]\<rparr>
     \<and> edited s [120, nl, 120, nl] [120, nl, 121, nl] = [120, nl, 121, nl, 120, nl]"
  by code_simp

section \<open>Requests and the file system\<close>

definition MAX_EDIT_SOURCE_BYTES :: nat where "MAX_EDIT_SOURCE_BYTES = 50 * 1024 * 1024"

text \<open>
  What \<open>statSync\<close> and \<open>readFileSync(_, "utf8")\<close> report for a path: no such file, another failure, a
  file that is not regular, or a regular file with its size and its decoded text, unless reading it fails.
\<close>

datatype file_state = MissingFile | FailingFile | OtherKind | RegularFile nat "utf16 option"

datatype arg_value = ArgString utf16 | ArgBool bool | ArgOther

datatype edit_error =
    NoTargetPath | NoContent | MissingTexts | NotRegularFile | FileTooLarge | Unreadable | SourceStripsCarriageReturns
  | PlanRefused refusal | PatchRefused patch_error
  | DirectNoFinalNewline | DirectMixedEndings

text \<open>\<open>ParsedExecRequest\<close>, as far as the edit tools use it.\<close>

record parsed_exec =
  toolName :: string
  args :: "(string \<times> arg_value) list"
  resultField :: string
  localError :: "edit_error option"
  metadataPath :: "utf16 option"
  binaryBytes :: bool

text \<open>\<open>stringValue\<close>, \<open>str\<close> and \<open>opencodePathArg\<close>\<close>

fun stringValue :: "arg_value option \<Rightarrow> utf16 option" where
  "stringValue (Some (ArgString s)) = Some s"
| "stringValue _ = None"

fun str_value :: "arg_value option \<Rightarrow> utf16 option" where
  "str_value (Some (ArgString s)) = (if s = [] then None else Some s)"
| "str_value _ = None"

definition opencodePathArg :: "(string \<times> arg_value) list \<Rightarrow> utf16 option" where
  "opencodePathArg as =
     (case str_value (map_of as ''filePath'') of Some p \<Rightarrow> Some p
      | None \<Rightarrow> (case str_value (map_of as ''path'') of Some p \<Rightarrow> Some p | None \<Rightarrow> str_value (map_of as ''file_path'')))"

definition binaryWritePayload :: "parsed_exec \<Rightarrow> bool" where
  "binaryWritePayload parsed \<longleftrightarrow> toolName parsed = ''write'' \<and> binaryBytes parsed"

section \<open>An announced edit and its whole-file write\<close>

text \<open>The tool an announced edit of a path becomes; \<open>None\<close> withholds the name.\<close>

definition hostToolForCursorEdit ::
    "(utf16 option \<Rightarrow> utf16 \<Rightarrow> utf16) \<Rightarrow> (utf16 \<Rightarrow> bool) \<Rightarrow> (utf16 \<Rightarrow> file_state) \<Rightarrow> utf16 \<Rightarrow> string list \<Rightarrow> utf16 option \<Rightarrow> string option" where
  "hostToolForCursorEdit resolve absolute fs filePath catalog workspaceRoot =
     (let patchTool = map_option tool_name (hostPatchTool catalog);
          creation = (if ''write'' \<in> set catalog then Some ''write'' else patchTool)
      in if \<not> absolute filePath \<and> (case workspaceRoot of None \<Rightarrow> True | Some r \<Rightarrow> r = []) then None
         else case fs (resolve workspaceRoot filePath) of
             MissingFile \<Rightarrow> creation
           | FailingFile \<Rightarrow> None
           | OtherKind \<Rightarrow> None
           | RegularFile n content \<Rightarrow>
               (if n > MAX_EDIT_SOURCE_BYTES then None
                else if n = 0 then creation
                else if ''edit'' \<in> set catalog then Some ''edit''
                else case hostPatchTool catalog of None \<Rightarrow> None
                  | Some PATCH_TOOL \<Rightarrow>
                      (case content of None \<Rightarrow> None | Some s \<Rightarrow> if cr_at_line_end s then None else patchTool)
                  | Some APPLY_PATCH_TOOL \<Rightarrow> patchTool))"

definition file_path_key :: "(string \<times> arg_value) list \<Rightarrow> string" where
  "file_path_key as =
     (if stringValue (map_of as ''path'') \<noteq> None \<and> stringValue (map_of as ''filePath'') = None then ''path'' else ''filePath'')"

definition remapCorrelatedEditWriteForCatalog ::
    "(utf16 option \<Rightarrow> utf16 \<Rightarrow> utf16) \<Rightarrow> (utf16 \<Rightarrow> file_state) \<Rightarrow> parsed_exec \<Rightarrow> string list \<Rightarrow> utf16 \<Rightarrow> utf16 option \<Rightarrow> parsed_exec \<times> bool" where
  "remapCorrelatedEditWriteForCatalog resolve fs parsed advertised editPath workspaceRoot =
     (if resultField parsed \<noteq> ''write_result'' \<or> toolName parsed \<noteq> ''write'' then (parsed, False)
      else if ''edit'' \<notin> set advertised \<and> hostPatchTool advertised = None then (parsed, False)
      else case (opencodePathArg (args parsed), stringValue (map_of (args parsed) ''content'')) of
          (Some filePath, Some content) \<Rightarrow>
            (if editPath = [] then (parsed, False)
             else if resolve workspaceRoot filePath \<noteq> resolve workspaceRoot editPath then (parsed, False)
             else case fs (resolve workspaceRoot filePath) of
                 RegularFile n (Some source) \<Rightarrow>
                   (if n > MAX_EDIT_SOURCE_BYTES \<or> length (textEncode content) > MAX_EDIT_SOURCE_BYTES then (parsed, False)
                    else case planWholeFileEdit source content of None \<Rightarrow> (parsed, False)
                      | Some r \<Rightarrow>
                          (parsed\<lparr>toolName := ''edit'',
                                 args := [(file_path_key (args parsed), ArgString filePath), (''oldString'', ArgString (wf_oldString r)), (''newString'', ArgString (wf_newString r))],
                                 metadataPath := Some filePath\<rparr>, True))
               | _ \<Rightarrow> (parsed, False))
        | _ \<Rightarrow> (parsed, False))"

section \<open>Patch calls\<close>

definition UPDATE_HEADER :: utf16 where "UPDATE_HEADER = lit ''*** Update File:''"

definition crlf_text :: utf16 where "crlf_text = [13, nl]"

definition has_text :: "utf16 \<Rightarrow> utf16 \<Rightarrow> bool" where
  "has_text s p \<longleftrightarrow> indexOf s p 0 \<noteq> None"

text \<open>\<open>/(^|[^\r])\n/\<close>: a line feed with no carriage return before it.\<close>

fun bare_newline :: "16 word \<Rightarrow> utf16 \<Rightarrow> bool" where
  "bare_newline before [] = False"
| "bare_newline before (c # cs) = (c = nl \<and> before \<noteq> 13 \<or> bare_newline c cs)"

text \<open>The lines of a direct patch call, with carriage returns restored in the updates of CRLF files.\<close>

fun preserve_lines :: "(utf16 \<Rightarrow> file_state) \<Rightarrow> (utf16 \<Rightarrow> utf16) \<Rightarrow> bool \<Rightarrow> bool \<Rightarrow> utf16 list \<Rightarrow> edit_error + utf16 list" where
  "preserve_lines fs target is_patch crlf [] = Inr []"
| "preserve_lines fs target is_patch crlf (line # ls) =
     (let keep = (\<lambda>crlf. map_sum id (\<lambda>out. line # out) (preserve_lines fs target is_patch crlf ls)) in
      if starts_with UPDATE_HEADER line then
        (case fs (target (js_trim (drop (length UPDATE_HEADER) line))) of
           RegularFile n content \<Rightarrow>
             (if n > MAX_EDIT_SOURCE_BYTES then Inl FileTooLarge
              else case content of None \<Rightarrow> keep False
                | Some source \<Rightarrow>
                    (if source \<noteq> [] \<and> \<not> ends_with [nl] source then Inl DirectNoFinalNewline
                     else if \<not> has_text source crlf_text then keep False
                     else if is_patch then Inl SourceStripsCarriageReturns
                     else if bare_newline 0 source then Inl DirectMixedEndings
                     else keep True))
         | _ \<Rightarrow> keep False)
      else if starts_with (lit ''***'') line \<and> \<not> starts_with (lit ''*** Move to:'') line then keep False
      else if crlf \<and> line \<noteq> [] \<and> (hd line = 32 \<or> hd line = 43 \<or> hd line = 45)
        then map_sum id (\<lambda>out. ((if last line = 13 then butlast line else line) @ [13]) # out) (preserve_lines fs target is_patch crlf ls)
      else keep crlf)"

definition preserveDirectPatchLineEndings ::
    "(utf16 option \<Rightarrow> utf16 \<Rightarrow> utf16) \<Rightarrow> (utf16 \<Rightarrow> file_state) \<Rightarrow> parsed_exec \<Rightarrow> utf16 option \<Rightarrow> parsed_exec" where
  "preserveDirectPatchLineEndings resolve fs parsed workspaceRoot =
     (case stringValue (map_of (args parsed) ''patchText'') of None \<Rightarrow> parsed
      | Some patchText \<Rightarrow>
          (case (if toolName parsed = tool_name PATCH_TOOL \<and> cr_at_line_end patchText then Inl SourceStripsCarriageReturns
                 else preserve_lines fs (resolve workspaceRoot) (toolName parsed = tool_name PATCH_TOOL) False (split_nl patchText)) of
             Inl err \<Rightarrow> parsed\<lparr>args := [], localError := Some err\<rparr>
           | Inr ls \<Rightarrow> parsed\<lparr>args := AList.update ''patchText'' (ArgString (join_nl ls)) (args parsed)\<rparr>))"

text \<open>\<open>value.replace(/\r\n/g, "\n").replace(/\n/g, lineEnding)\<close>\<close>

fun crlf_to_lf :: "utf16 \<Rightarrow> utf16" where
  "crlf_to_lf (c # d # cs) = (if c = 13 \<and> d = nl then nl # crlf_to_lf cs else c # crlf_to_lf (d # cs))"
| "crlf_to_lf cs = cs"

definition editText :: "host_patch_tool \<Rightarrow> utf16 \<Rightarrow> utf16 \<Rightarrow> utf16" where
  "editText t source v =
     (if t = APPLY_PATCH_TOOL
      then concat (map (\<lambda>c. if c = nl then (if has_text source crlf_text then crlf_text else [nl]) else [c]) (crlf_to_lf v))
      else v)"

text \<open>The patch text a write or an edit becomes, or why it is refused.\<close>

definition edit_patch :: "(utf16 \<Rightarrow> file_state) \<Rightarrow> host_patch_tool \<Rightarrow> utf16 \<Rightarrow> utf16 \<Rightarrow> (string \<times> arg_value) list \<Rightarrow> edit_error + utf16" where
  "edit_patch fs t filePath absolute as =
     (case (stringValue (map_of as ''oldString''), stringValue (map_of as ''newString'')) of
        (Some oldString, Some newString) \<Rightarrow>
          (case fs absolute of
             MissingFile \<Rightarrow> Inl Unreadable
           | FailingFile \<Rightarrow> Inl Unreadable
           | OtherKind \<Rightarrow> Inl NotRegularFile
           | RegularFile n content \<Rightarrow>
               (if n > MAX_EDIT_SOURCE_BYTES then Inl FileTooLarge
                else case content of None \<Rightarrow> Inl Unreadable
                  | Some source \<Rightarrow>
                      (if t = PATCH_TOOL \<and> cr_at_line_end source then Inl SourceStripsCarriageReturns
                       else case planSubstringEdit source (editText t source oldString) (editText t source newString)
                                  (map_of as ''replaceAll'' = Some (ArgBool True)) of
                           Inl reason \<Rightarrow> Inl (PlanRefused reason)
                         | Inr chunks \<Rightarrow> map_sum PatchRefused id (buildUpdateFilePatch filePath chunks t))))
      | _ \<Rightarrow> Inl MissingTexts)"

definition write_patch :: "host_patch_tool \<Rightarrow> utf16 \<Rightarrow> (string \<times> arg_value) list \<Rightarrow> edit_error + utf16" where
  "write_patch t filePath as =
     (case stringValue (map_of as ''content'') of None \<Rightarrow> Inl NoContent
      | Some content \<Rightarrow> map_sum PatchRefused id (buildAddFilePatch filePath content t))"

definition remapEditToolsForCatalog ::
    "(utf16 option \<Rightarrow> utf16 \<Rightarrow> utf16) \<Rightarrow> (utf16 \<Rightarrow> file_state) \<Rightarrow> parsed_exec \<Rightarrow> string list \<Rightarrow> utf16 option \<Rightarrow> parsed_exec" where
  "remapEditToolsForCatalog resolve fs parsed advertised workspaceRoot =
     (if isHostPatchTool (toolName parsed) then
        (if toolName parsed \<in> set advertised then preserveDirectPatchLineEndings resolve fs parsed workspaceRoot else parsed)
      else if toolName parsed \<noteq> ''write'' \<and> toolName parsed \<noteq> ''edit'' then parsed
      else if binaryWritePayload parsed then parsed
      else if toolName parsed \<in> set advertised then parsed
      else case hostPatchTool advertised of None \<Rightarrow> parsed
        | Some t \<Rightarrow>
            (let refuse = (\<lambda>reason. parsed\<lparr>toolName := tool_name t, args := [], localError := Some reason\<rparr>) in
             case opencodePathArg (args parsed) of None \<Rightarrow> refuse NoTargetPath
             | Some filePath \<Rightarrow>
                 (case (if toolName parsed = ''write'' then write_patch t filePath (args parsed)
                        else edit_patch fs t filePath (resolve workspaceRoot filePath) (args parsed)) of
                    Inl reason \<Rightarrow> refuse reason
                  | Inr patchText \<Rightarrow> parsed\<lparr>toolName := tool_name t, args := [(''patchText'', ArgString patchText)], metadataPath := Some filePath\<rparr>)))"

section \<open>Line endings\<close>

lemma has_text_iff: "has_text s p \<longleftrightarrow> (\<exists>a b. s = a @ p @ b)"
proof
  assume "has_text s p"
  then obtain i where "starts_with p (drop i s)" by (auto simp: has_text_def indexOf_Some)
  then show "\<exists>a b. s = a @ p @ b" by (metis append_take_drop_id starts_withE)
next
  assume "\<exists>a b. s = a @ p @ b"
  then obtain a b where "s = a @ p @ b" by blast
  then have "length a < length s + 1 - length p \<and> starts_with p (drop (length a) s)" by simp
  then show "has_text s p" unfolding has_text_def indexOf_def by (auto simp: find_None_iff)
qed

lemma crlf_to_lf_id: "\<not> has_text v crlf_text \<Longrightarrow> crlf_to_lf v = v"
proof (induction v rule: crlf_to_lf.induct)
  case (1 c d cs)
  have "\<not> (c = 13 \<and> d = nl)" using 1(3) unfolding has_text_iff crlf_text_def by (metis append_Cons append_Nil)
  moreover have "\<not> has_text (d # cs) crlf_text" using 1(3) unfolding has_text_iff by (metis append_Cons)
  ultimately show ?case using 1(2) by auto
qed simp_all

lemma no_crlf_substring: "\<not> has_text (a @ v @ b) crlf_text \<Longrightarrow> \<not> has_text v crlf_text"
  unfolding has_text_iff by (metis append.assoc)

lemma bare_append: "bare_newline b (xs @ ys) \<longleftrightarrow> bare_newline b xs \<or> bare_newline (last (b # xs)) ys"
  by (induction xs arbitrary: b) auto

lemma bare_before: "b \<noteq> 13 \<Longrightarrow> b' \<noteq> 13 \<Longrightarrow> bare_newline b v = bare_newline b' v"
  by (cases v) auto

lemma expand_crlf:
  "\<not> bare_newline b v \<Longrightarrow> b \<noteq> 13 \<Longrightarrow> concat (map (\<lambda>c. if c = nl then crlf_text else [c]) (crlf_to_lf v)) = v"
proof (induction v arbitrary: b rule: crlf_to_lf.induct)
  case (1 c d cs)
  show ?case
  proof (cases "c = 13 \<and> d = nl")
    case True
    moreover have "nl \<noteq> 13" by (simp add: nl_def)
    ultimately show ?thesis using 1(1) [of nl] 1(3) by (simp add: crlf_text_def)
  next
    case False
    then have "c \<noteq> nl" using 1(3, 4) by auto
    moreover have "\<not> bare_newline 0 (d # cs)" using 1(3) False by auto
    ultimately show ?thesis using 1(2) [of 0] False by auto
  qed
qed auto

text \<open>Source and content keep one convention, or the tool takes the texts as they are.\<close>

definition same_endings :: "host_patch_tool \<Rightarrow> utf16 \<Rightarrow> utf16 \<Rightarrow> bool" where
  "same_endings t source target \<longleftrightarrow>
     t = PATCH_TOOL \<or> (if has_text source crlf_text then \<not> bare_newline 0 source \<and> \<not> bare_newline 0 target else \<not> has_text target crlf_text)"

lemma editText_same:
  assumes "same_endings t source target" "source = a @ old @ b" "target = a @ new @ b" "a = [] \<or> last a = nl"
  shows "editText t source old = old \<and> editText t source new = new"
proof (cases "t = PATCH_TOOL")
  case False
  have lf: "concat (map (\<lambda>c. if c = nl then [nl] else [c]) v) = v" for v by (induction v) auto
  have sub: "bare_newline 0 v = False" if "\<not> bare_newline 0 (a @ v @ b)" for v
    using that assms(4) bare_before [of 0 nl v] by (auto simp: bare_append nl_def split: if_splits)
  have t: "t = APPLY_PATCH_TOOL" using False by (cases t) simp_all
  show ?thesis
  proof (cases "has_text source crlf_text")
    case True
    then have "\<not> bare_newline 0 old" "\<not> bare_newline 0 new"
      using assms(1-3) False sub unfolding same_endings_def by metis+
    then show ?thesis using True expand_crlf [of 0] by (simp add: editText_def t)
  next
    case no: False
    then have "\<not> has_text old crlf_text" "\<not> has_text new crlf_text"
      using assms(1-3) False no_crlf_substring unfolding same_endings_def by metis+
    then show ?thesis using no by (simp add: editText_def t crlf_to_lf_id lf)
  qed
qed (simp add: editText_def)

section \<open>Whatever tool carries it, a write keeps its content\<close>

text \<open>The call, run by the host on a file holding \<open>source\<close>, leaves \<open>result\<close> in it.\<close>

definition host_leaves :: "parsed_exec \<Rightarrow> utf16 \<Rightarrow> utf16 \<Rightarrow> utf16 \<Rightarrow> bool" where
  "host_leaves parsed filePath source result \<longleftrightarrow>
     toolName parsed = ''write'' \<and> stringValue (map_of (args parsed) ''content'') = Some result
     \<or> toolName parsed = ''edit'' \<and> (\<exists>old new. stringValue (map_of (args parsed) ''oldString'') = Some old
         \<and> stringValue (map_of (args parsed) ''newString'') = Some new \<and> edited source old new = result)
     \<or> (\<exists>t text. toolName parsed = tool_name t \<and> stringValue (map_of (args parsed) ''patchText'') = Some text
         \<and> (buildAddFilePatch filePath result t = Inr text
            \<or> (\<exists>chunks ctxs. buildUpdateFilePatch filePath chunks t = Inr text \<and> length ctxs = Suc (length chunks)
                 \<and> weave ctxs (map oldLines chunks) = host_lines source \<and> host_text (weave ctxs (map newLines chunks)) = result)))"

lemma map_sum_Inr: "map_sum f id x = Inr y \<longleftrightarrow> x = Inr y"
  by (cases x) auto

lemma edit_leaves:
  assumes "fs absolute = RegularFile n (Some source)" "edit_patch fs t filePath absolute as = Inr body"
    and "stringValue (map_of as ''oldString'') = Some old" "stringValue (map_of as ''newString'') = Some new" "map_of as ''replaceAll'' = None"
    and "editText t source old = old" "editText t source new = new"
  shows "\<exists>chunks ctxs. buildUpdateFilePatch filePath chunks t = Inr body \<and> length ctxs = Suc (length chunks)
     \<and> weave ctxs (map oldLines chunks) = host_lines source \<and> host_text (weave ctxs (map newLines chunks)) = edited source old new"
proof -
  obtain chunks where plan: "planSubstringEdit source old new False = Inr chunks" and body: "buildUpdateFilePatch filePath chunks t = Inr body"
    using assms by (auto simp: edit_patch_def map_sum_Inr split: if_splits sum.splits)
  from plan_makes_replacement [OF plan] body show ?thesis by blast
qed

lemma write_patch_leaves:
  "write_patch t filePath as = Inr body \<Longrightarrow> stringValue (map_of as ''content'') = Some content \<Longrightarrow> buildAddFilePatch filePath content t = Inr body"
  by (simp add: write_patch_def map_sum_Inr)

lemma tool_names [simp]: "tool_name t \<noteq> ''write''" "tool_name t \<noteq> ''edit''" "\<not> isHostPatchTool ''write''" "\<not> isHostPatchTool ''edit''"
  by (cases t; simp add: tool_name_def isHostPatchTool_def)+

text \<open>A write that was not collapsed, and one that was.\<close>

lemma remapped_write_leaves:
  assumes "toolName parsed = ''write''" "opencodePathArg (args parsed) = Some path" "stringValue (map_of (args parsed) ''content'') = Some content"
  shows "let out = remapEditToolsForCatalog resolve fs parsed advertised root
     in localError out \<noteq> None \<or> host_leaves out path source content"
  using assms
  by (auto simp: remapEditToolsForCatalog_def Let_def host_leaves_def dest: write_patch_leaves split: option.split sum.split)

lemma remapped_edit_leaves:
  assumes "toolName parsed = ''edit''" "opencodePathArg (args parsed) = Some path"
    and "stringValue (map_of (args parsed) ''oldString'') = Some old" "stringValue (map_of (args parsed) ''newString'') = Some new"
    and "map_of (args parsed) ''replaceAll'' = None" "fs (resolve root path) = RegularFile n (Some source)" "edited source old new = content"
    and "hostPatchTool advertised \<noteq> None \<or> ''edit'' \<in> set advertised"
    and "\<And>t. hostPatchTool advertised = Some t \<Longrightarrow> editText t source old = old \<and> editText t source new = new"
  shows "let out = remapEditToolsForCatalog resolve fs parsed advertised root
     in localError out \<noteq> None \<or> host_leaves out path source content"
proof (cases "''edit'' \<in> set advertised")
  case True
  then show ?thesis using assms by (simp add: remapEditToolsForCatalog_def host_leaves_def binaryWritePayload_def Let_def)
next
  case False
  then obtain t where t: "hostPatchTool advertised = Some t" using assms(8) by blast
  show ?thesis
  proof (cases "edit_patch fs t path (resolve root path) (args parsed)")
    case (Inl e)
    then show ?thesis using False assms(1, 2) t by (simp add: remapEditToolsForCatalog_def binaryWritePayload_def Let_def)
  next
    case (Inr body)
    from edit_leaves [OF assms(6) Inr assms(3-5)] assms(7, 9) t
    show ?thesis using False Inr assms(1, 2) t
      by (auto simp: remapEditToolsForCatalog_def binaryWritePayload_def Let_def host_leaves_def)
  qed
qed

text \<open>C9: A Cursor write of an existing file keeps its content when the text its planned edit replaces starts at
one place of the file only and, where the catalog has \<open>apply_patch\<close>, file and content keep one line
ending. Then, whatever tools the host's catalog has, after the announced edit was correlated and the call fitted to the
catalog, running it on the file leaves exactly the content Cursor wrote, whether it is a write, an edit, a
file or an update patch, or it is refused with an error. Without these conditions it need not: an edit of
overlapping text changes the first place, and mixed line endings place the patch elsewhere.\<close>

theorem cursor_write_keeps_content:
  assumes "toolName parsed = ''write''" and "opencodePathArg (args parsed) = Some path"
    and "stringValue (map_of (args parsed) ''content'') = Some content"
    and "fs (resolve root path) = RegularFile n (Some source)"
    and "\<And>r i j. planWholeFileEdit source content = Some r \<Longrightarrow> starts_with (wf_oldString r) (drop i source)
      \<Longrightarrow> starts_with (wf_oldString r) (drop j source) \<Longrightarrow> i = j"
    and "\<And>t. hostPatchTool advertised = Some t \<Longrightarrow> same_endings t source content"
  shows "let out = remapEditToolsForCatalog resolve fs
      (fst (remapCorrelatedEditWriteForCatalog resolve fs parsed advertised editPath root)) advertised root
    in localError out \<noteq> None \<or> host_leaves out path source content"
proof (cases "snd (remapCorrelatedEditWriteForCatalog resolve fs parsed advertised editPath root)")
  case False
  then have "fst (remapCorrelatedEditWriteForCatalog resolve fs parsed advertised editPath root) = parsed"
    by (auto simp: remapCorrelatedEditWriteForCatalog_def Let_def split: option.splits file_state.splits if_splits)
  then show ?thesis using remapped_write_leaves [OF assms(1-3)] by metis
next
  case True
  let ?p = "fst (remapCorrelatedEditWriteForCatalog resolve fs parsed advertised editPath root)"
  let ?key = "file_path_key (args parsed)"
  have key: "?key \<in> {''path'', ''filePath''}" by (simp add: file_path_key_def)
  obtain r where r: "planWholeFileEdit source content = Some r"
    and p: "toolName ?p = ''edit''" "args ?p = [(?key, ArgString path), (''oldString'', ArgString (wf_oldString r)), (''newString'', ArgString (wf_newString r))]"
    and adv: "hostPatchTool advertised \<noteq> None \<or> ''edit'' \<in> set advertised"
    using True assms(1-4) by (auto simp: remapCorrelatedEditWriteForCatalog_def Let_def split: option.splits if_splits)
  obtain a e where parts: "line_bounded source a e" "a \<le> e" "e \<le> length source"
    "replacementOccurrenceCount source (wf_oldString r) = 1"
    "source = take a source @ wf_oldString r @ drop e source" "content = take a source @ wf_newString r @ drop e source"
    using plan_parts [OF r] by blast
  have ne: "wf_oldString r \<noteq> []" using count_one_nonempty [OF parts(4)] .
  have at: "starts_with (wf_oldString r) (drop a source)"
    using parts(2, 3, 5) by (metis append_eq_conv_conj append_take_drop_id starts_with_append length_take min.absorb2 order_trans)
  have "edited source (wf_oldString r) (wf_newString r) = take a source @ wf_newString r @ drop e source"
    by (rule edited_unique [OF parts(5) ne]) (use assms(5) [OF r _ at] parts(2, 3) in simp)
  then have exact: "edited source (wf_oldString r) (wf_newString r) = content" by (rule trans) (rule parts(6) [symmetric])
  have "take a source = [] \<or> last (take a source) = nl"
    using parts(1-3) by (cases a) (auto simp: line_bounded_def take_Suc_conv_app_nth)
  then have "editText t source (wf_oldString r) = wf_oldString r \<and> editText t source (wf_newString r) = wf_newString r"
    if "hostPatchTool advertised = Some t" for t
    using editText_same [OF assms(6) [OF that] parts(5, 6)] by blast
  moreover have "path \<noteq> []"
    using assms(2) by (auto simp: opencodePathArg_def split: option.splits elim!: str_value.elims split: if_splits)
  then have "opencodePathArg (args ?p) = Some path" using key by (auto simp: p(2) opencodePathArg_def)
  moreover have "stringValue (map_of (args ?p) ''oldString'') = Some (wf_oldString r)"
    "stringValue (map_of (args ?p) ''newString'') = Some (wf_newString r)" "map_of (args ?p) ''replaceAll'' = None"
    using key by (auto simp: p(2))
  ultimately show ?thesis
    using remapped_edit_leaves [where fs = fs and resolve = resolve and root = root and path = path, OF p(1) _ _ _ _ assms(4) exact adv]
    by blast
qed

text \<open>An edit of the second line of a CRLF file, on a catalog with the patch tool only.\<close>

definition demo_source :: utf16 where "demo_source = lit ''a'' @ crlf_text @ lit ''b'' @ crlf_text"
definition demo_target :: utf16 where "demo_target = lit ''a'' @ crlf_text @ lit ''c'' @ crlf_text"

lemma demo_plan: "planWholeFileEdit demo_source demo_target
    = Some \<lparr>wf_oldString = lit ''b'' @ crlf_text, wf_newString = lit ''c'' @ crlf_text\<rparr>"
  by code_simp

lemma demo_once: "starts_with (lit ''b'' @ crlf_text) (drop i demo_source) \<Longrightarrow> i = 3"
proof -
  assume a: "starts_with (lit ''b'' @ crlf_text) (drop i demo_source)"
  have "\<forall>i \<in> set [0..<7]. starts_with (lit ''b'' @ crlf_text) (drop i demo_source) \<longrightarrow> i = 3" by code_simp
  moreover have "i < 7" using a by (cases "i < 7") (auto simp: starts_with_def demo_source_def lit_def crlf_text_def)
  ultimately show "i = 3" using a by auto
qed

theorem whole_file_plan_is_exact_witness:
  "edited demo_source (lit ''b'' @ crlf_text) (lit ''c'' @ crlf_text) = demo_target"
  using whole_file_plan_is_exact [OF demo_plan] demo_once by auto

theorem whole_file_plan_exists_witness: "\<exists>r. planWholeFileEdit (lit ''a'') (lit ''b'') = Some r"
  by (rule whole_file_plan_exists) (simp_all add: lit_def nl_def)

definition demo_write :: parsed_exec where
  "demo_write = \<lparr>toolName = ''write'', args = [(''filePath'', ArgString (lit ''f'')), (''content'', ArgString demo_target)],
     resultField = ''write_result'', localError = None, metadataPath = None, binaryBytes = False\<rparr>"

definition demo_fs :: "utf16 \<Rightarrow> file_state" where "demo_fs p = RegularFile 6 (Some demo_source)"

lemma demo_endings: "same_endings APPLY_PATCH_TOOL demo_source demo_target"
  by code_simp

theorem cursor_write_keeps_content_witness:
  "let out = remapEditToolsForCatalog (\<lambda>r p. p) demo_fs
      (fst (remapCorrelatedEditWriteForCatalog (\<lambda>r p. p) demo_fs demo_write [''apply_patch''] (lit ''f'') None)) [''apply_patch''] None
    in localError out \<noteq> None \<or> host_leaves out (lit ''f'') demo_source demo_target"
proof (rule cursor_write_keeps_content)
  show "opencodePathArg (args demo_write) = Some (lit ''f'')" by (simp add: demo_write_def opencodePathArg_def lit_def)
  show "i = j" if "planWholeFileEdit demo_source demo_target = Some r" "starts_with (wf_oldString r) (drop i demo_source)"
    "starts_with (wf_oldString r) (drop j demo_source)" for r i j
    using that demo_once [of i] demo_once [of j] by (auto simp: demo_plan)
  show "same_endings t demo_source demo_target" if "hostPatchTool [''apply_patch''] = Some t" for t
    using demo_endings by (cases t) (simp_all add: same_endings_def)
qed (simp_all add: demo_write_def demo_fs_def)

text \<open>
  With mixed endings \<open>apply_patch\<close> gets another text: the planned line ends in a bare line feed, and after
  the conversion to CRLF the text matches a different line.
\<close>

lemma mixed_endings_edit_elsewhere:
  "let s = [120, nl, 113, 13, nl, 120, 13, nl]; t = [121, nl, 113, 13, nl, 120, 13, nl]
   in planWholeFileEdit s t = Some \<lparr>wf_oldString = [120, nl], wf_newString = [121, nl]\<rparr>
     \<and> edited s [120, nl] [121, nl] = t
     \<and> edited s (editText APPLY_PATCH_TOOL s [120, nl]) (editText APPLY_PATCH_TOOL s [121, nl]) = [120, nl, 113, 13, nl, 121, 13, nl]"
  by code_simp

section \<open>The announced tool is the one called\<close>

lemma correlated_regular:
  assumes "toolName parsed = ''write''" "resultField parsed = ''write_result''" "opencodePathArg (args parsed) = Some path" "path \<noteq> []"
    and "stringValue (map_of (args parsed) ''content'') = Some content" "fs (resolve root path) = RegularFile n (Some source)"
    and "n \<le> MAX_EDIT_SOURCE_BYTES" "length (textEncode content) \<le> MAX_EDIT_SOURCE_BYTES" "planWholeFileEdit source content = Some r"
    and "''edit'' \<in> set catalog \<or> hostPatchTool catalog \<noteq> None"
  shows "toolName (fst (remapCorrelatedEditWriteForCatalog resolve fs parsed catalog path root)) = ''edit''
    \<and> opencodePathArg (args (fst (remapCorrelatedEditWriteForCatalog resolve fs parsed catalog path root))) = Some path"
  using assms by (auto simp: remapCorrelatedEditWriteForCatalog_def file_path_key_def opencodePathArg_def)

lemma uncorrelated_write:
  "(\<And>n source. fs (resolve root path) = RegularFile n (Some source) \<Longrightarrow> planWholeFileEdit source content = None)
   \<Longrightarrow> opencodePathArg (args parsed) = Some path \<Longrightarrow> stringValue (map_of (args parsed) ''content'') = Some content
   \<Longrightarrow> fst (remapCorrelatedEditWriteForCatalog resolve fs parsed catalog path root) = parsed"
  by (auto simp: remapCorrelatedEditWriteForCatalog_def split: option.splits file_state.splits)

lemma remapped_tool:
  assumes "toolName parsed = ''write'' \<or> toolName parsed = ''edit''" "\<not> binaryBytes parsed" "opencodePathArg (args parsed) = Some path"
  shows "toolName (remapEditToolsForCatalog resolve fs parsed catalog root) =
    (if toolName parsed \<in> set catalog then toolName parsed
     else case hostPatchTool catalog of None \<Rightarrow> toolName parsed | Some t \<Rightarrow> tool_name t)"
  using assms by (auto simp: remapEditToolsForCatalog_def binaryWritePayload_def Let_def split: option.split sum.split)

text \<open>The tool announced to the user for a Cursor edit is the tool its write is sent to: if a name was
  announced for the path, the write that follows to the same path, of text with a plan or to a missing or
  empty file, is fitted to exactly that tool.\<close>

theorem announced_tool_is_called:
  assumes "hostToolForCursorEdit resolve absolute fs path catalog root = Some name"
    and "toolName parsed = ''write''" and "resultField parsed = ''write_result''" and "\<not> binaryBytes parsed"
    and "opencodePathArg (args parsed) = Some path" and "path \<noteq> []"
    and "stringValue (map_of (args parsed) ''content'') = Some content" and "length (textEncode content) \<le> MAX_EDIT_SOURCE_BYTES"
    and "\<And>n text. fs (resolve root path) = RegularFile n text \<Longrightarrow>
      \<exists>source. text = Some source \<and> (n = 0 \<longleftrightarrow> source = []) \<and> (source \<noteq> [] \<longrightarrow> hd source \<noteq> nl \<and> source \<noteq> content)"
  shows "toolName (remapEditToolsForCatalog resolve fs
    (fst (remapCorrelatedEditWriteForCatalog resolve fs parsed catalog path root)) catalog root) = name"
proof (cases "fs (resolve root path)")
  case MissingFile
  then have same: "fst (remapCorrelatedEditWriteForCatalog resolve fs parsed catalog path root) = parsed"
    by (intro uncorrelated_write [OF _ assms(5, 7)]) simp
  show ?thesis
    unfolding same using assms(1, 2, 4, 5) MissingFile
    by (auto simp: remapped_tool hostToolForCursorEdit_def Let_def split: if_splits option.splits)
next
  case (RegularFile n content')
  then obtain source where s: "content' = Some source" "n = 0 \<longleftrightarrow> source = []" "source \<noteq> [] \<longrightarrow> hd source \<noteq> nl \<and> source \<noteq> content"
    using assms(9) by blast
  show ?thesis
  proof (cases "source = []")
    case True
    have same: "fst (remapCorrelatedEditWriteForCatalog resolve fs parsed catalog path root) = parsed"
      by (rule uncorrelated_write [OF _ assms(5, 7)]) (use RegularFile True s(1) in \<open>auto simp: planWholeFileEdit_def\<close>)
    show ?thesis
      unfolding same using assms(1, 2, 4, 5) RegularFile True s
      by (auto simp: remapped_tool hostToolForCursorEdit_def Let_def split: if_splits option.splits)
  next
    case False
    then obtain r where r: "planWholeFileEdit source content = Some r" using whole_file_plan_exists [of source content] s(3) by blast
    have n: "n \<noteq> 0" "n \<le> MAX_EDIT_SOURCE_BYTES" "''edit'' \<in> set catalog \<or> hostPatchTool catalog \<noteq> None"
      using assms(1) RegularFile s False
      by (auto simp: hostToolForCursorEdit_def Let_def split: if_splits option.splits host_patch_tool.splits)
    note c = correlated_regular [of parsed path content fs resolve root n source r catalog, OF assms(2, 3, 5, 6, 7) RegularFile [unfolded s(1)] n(2) assms(8) r n(3)]
    have "\<not> binaryBytes (fst (remapCorrelatedEditWriteForCatalog resolve fs parsed catalog path root))"
      using assms(4) by (auto simp: remapCorrelatedEditWriteForCatalog_def split: option.split file_state.split)
    then show ?thesis
      using c assms(1) RegularFile n s(1) remapped_tool [OF disjI2]
      by (auto simp: hostToolForCursorEdit_def Let_def split: if_splits option.splits host_patch_tool.splits)
  qed
qed (use assms(1) in \<open>auto simp: hostToolForCursorEdit_def Let_def split: if_splits\<close>)

theorem announced_tool_is_called_witness:
  "toolName (remapEditToolsForCatalog (\<lambda>r p. p) demo_fs
    (fst (remapCorrelatedEditWriteForCatalog (\<lambda>r p. p) demo_fs demo_write [''apply_patch''] (lit ''f'') None)) [''apply_patch''] None)
   = ''apply_patch''"
proof (rule announced_tool_is_called [where absolute = "\<lambda>p. True"])
  show "hostToolForCursorEdit (\<lambda>r p. p) (\<lambda>p. True) demo_fs (lit ''f'') [''apply_patch''] None = Some ''apply_patch''"
    by (simp add: hostToolForCursorEdit_def demo_fs_def MAX_EDIT_SOURCE_BYTES_def hostPatchTool_def tool_name_def)
  show "opencodePathArg (args demo_write) = Some (lit ''f'')" "lit ''f'' \<noteq> []"
    by (simp_all add: demo_write_def opencodePathArg_def lit_def)
  show "length (textEncode demo_target) \<le> MAX_EDIT_SOURCE_BYTES"
  proof -
    have "length (textEncode demo_target) = 6"
      by (simp add: textEncode_def demo_target_def lit_def crlf_text_def nl_def high_surrogate_def low_surrogate_def utf8_of_def)
    then show ?thesis by (simp add: MAX_EDIT_SOURCE_BYTES_def)
  qed
  show "\<exists>source. t = Some source \<and> (n = 0 \<longleftrightarrow> source = []) \<and> (source \<noteq> [] \<longrightarrow> hd source \<noteq> nl \<and> source \<noteq> demo_target)"
    if "demo_fs (lit ''f'') = RegularFile n t" for n t
    using that by (auto simp: demo_fs_def demo_source_def demo_target_def lit_def nl_def)
qed (simp_all add: demo_write_def)

end
