(* ===== verification/ToolNames.thy ===== *)
theory ToolNames
  imports JsonAccess
begin

text \<open>
  The names of the host's tools as Cursor sees them (\<open>src/src/protocol/tools.ts\<close>,
  \<open>src/src/protocol/tool-call-bridge.ts\<close>): the server a tool is advertised under, the public names that
  cannot be taken for Cursor's own tools, the descriptors built from both, and the way back from a call
  of Cursor to the host's tool.
\<close>

section \<open>Tools\<close>

record tool_def =
  td_name :: utf16
  td_description :: "utf16 option"
  td_inputSchema :: json
  td_sourceName :: "utf16 option"

definition missingRequiredToolArguments :: "tool_def option \<Rightarrow> json \<Rightarrow> utf16 list" where
  "missingRequiredToolArguments tool args =
     (case tool of None \<Rightarrow> []
      | Some t \<Rightarrow>
          (case json_array (json_field (td_inputSchema t) (lit ''required'')) of None \<Rightarrow> []
           | Some vs \<Rightarrow> filter (\<lambda>k. json_field args k = JUndefined) (List.map_filter string_of vs)))"

definition file_tools :: "utf16 list" where
  "file_tools = map lit [''read'', ''write'', ''edit'', ''grep'', ''glob'', ''ls'']"

definition misplacedShellCommand :: "tool_def option \<Rightarrow> json \<Rightarrow> bool" where
  "misplacedShellCommand tool args \<longleftrightarrow>
     (case tool of None \<Rightarrow> False
      | Some t \<Rightarrow> json_field args (lit ''command'') \<noteq> JUndefined \<and> td_name t \<in> set file_tools
          \<and> is_object (td_inputSchema t)
          \<and> is_object (json_field (td_inputSchema t) (lit ''properties''))
          \<and> \<not> json_has (json_field (td_inputSchema t) (lit ''properties'')) (lit ''command''))"

section \<open>The host's dialect\<close>

datatype file_path_key = PathKey | FilePathKey
datatype shell_tool = BashTool | ShellTool
datatype skill_arg_key = NameKey | IdKey
datatype shell_description = OptionalDescription | RequiredDescription

record tool_dialect =
  filePathKey :: file_path_key
  shellTool :: shell_tool
  skillArgKey :: skill_arg_key
  shellDescription :: "shell_description option"

definition OPENCODE_1_TOOL_DIALECT :: tool_dialect where
  "OPENCODE_1_TOOL_DIALECT = \<lparr>filePathKey = FilePathKey, shellTool = BashTool, skillArgKey = NameKey, shellDescription = None\<rparr>"

definition OPENCODE_2_TOOL_DIALECT :: tool_dialect where
  "OPENCODE_2_TOOL_DIALECT = \<lparr>filePathKey = PathKey, shellTool = ShellTool, skillArgKey = IdKey, shellDescription = None\<rparr>"

text \<open>\<open>obj.jsonSchema ?? obj.parameters ?? obj.schema\<close>; null and undefined fall through.\<close>

fun nullish :: "json \<Rightarrow> bool" where
  "nullish JNull = True"
| "nullish JUndefined = True"
| "nullish _ = False"

definition jsonSchemaProperties :: "json \<Rightarrow> json option" where
  "jsonSchemaProperties schema =
     (if \<not> is_object schema then None
      else if is_object (json_field schema (lit ''properties'')) then Some (json_field schema (lit ''properties''))
      else
        let a = json_field schema (lit ''jsonSchema''); b = json_field schema (lit ''parameters'');
            nested = (if \<not> nullish a then a else if \<not> nullish b then b else json_field schema (lit ''schema''));
            props = json_field nested (lit ''properties'')
        in if is_object nested \<and> is_object props then Some props else None)"

definition find_tool :: "utf16 \<Rightarrow> tool_def list \<Rightarrow> tool_def option" where
  "find_tool name tools = find (\<lambda>t. td_name t = name) tools"

definition tool_properties :: "utf16 \<Rightarrow> tool_def list \<Rightarrow> json option" where
  "tool_properties name tools =
     (case find_tool name tools of None \<Rightarrow> None | Some t \<Rightarrow> jsonSchemaProperties (td_inputSchema t))"

fun path_key_of :: "utf16 list \<Rightarrow> tool_def list \<Rightarrow> file_path_key option" where
  "path_key_of [] tools = None"
| "path_key_of (name # names) tools =
     (case tool_properties name tools of None \<Rightarrow> path_key_of names tools
      | Some props \<Rightarrow>
          (if json_has props (lit ''path'') \<and> \<not> json_has props (lit ''filePath'') then Some PathKey
           else if json_has props (lit ''filePath'') then Some FilePathKey
           else path_key_of names tools))"

definition shell_name :: "shell_tool \<Rightarrow> utf16" where
  "shell_name t = (case t of BashTool \<Rightarrow> lit ''bash'' | ShellTool \<Rightarrow> lit ''shell'')"

definition hostToolDialectFromTools :: "tool_def list \<Rightarrow> tool_dialect \<Rightarrow> tool_dialect" where
  "hostToolDialectFromTools tools defaultDialect =
     (let names = map td_name tools;
          shell = (if lit ''shell'' \<in> set names \<and> lit ''bash'' \<notin> set names then ShellTool
                   else if lit ''bash'' \<in> set names then BashTool else shellTool defaultDialect);
          pathKey = (case path_key_of [lit ''read'', lit ''write'', lit ''edit''] tools of Some k \<Rightarrow> k
                     | None \<Rightarrow> if shell = ShellTool then PathKey else filePathKey defaultDialect);
          inferred = (case tool_properties (lit ''skill'') tools of None \<Rightarrow> None
                      | Some props \<Rightarrow>
                          (if json_has props (lit ''id'') \<and> \<not> json_has props (lit ''name'') then Some IdKey
                           else if json_has props (lit ''name'') then Some NameKey else None));
          skillKey = (case inferred of Some k \<Rightarrow> k
                      | None \<Rightarrow> if shell = ShellTool \<and> pathKey = PathKey then IdKey else skillArgKey defaultDialect);
          shellSchema = (case find_tool (shell_name shell) tools of None \<Rightarrow> JUndefined | Some t \<Rightarrow> td_inputSchema t);
          description = (case jsonSchemaProperties shellSchema of None \<Rightarrow> JUndefined | Some props \<Rightarrow> json_field props (lit ''description''));
          required = (case json_array (json_field shellSchema (lit ''required'')) of None \<Rightarrow> False
                      | Some vs \<Rightarrow> JString (lit ''description'') \<in> set vs)
      in \<lparr>filePathKey = pathKey, shellTool = shell, skillArgKey = skillKey,
          shellDescription = (if json_field description (lit ''type'') = JString (lit ''string'')
            then Some (if required then RequiredDescription else OptionalDescription) else None)\<rparr>)"

section \<open>Servers\<close>

record server_identity =
  si_server :: utf16
  si_toolName :: utf16
  si_opencodeName :: utf16

definition underscore :: "16 word" where "underscore = 95"

definition id_char :: "16 word \<Rightarrow> bool" where
  "id_char c \<longleftrightarrow> 97 \<le> c \<and> c \<le> 122 \<or> 65 \<le> c \<and> c \<le> 90 \<or> is_digit c \<or> c = underscore \<or> c = 45"

definition sanitizeMcpServerId :: "utf16 \<Rightarrow> utf16" where
  "sanitizeMcpServerId v = map (\<lambda>c. if id_char c then c else underscore) v"

text \<open>\<open>[...new Set(xs)]\<close>: the first of each.\<close>

definition js_dedupe :: "'a list \<Rightarrow> 'a list" where
  "js_dedupe xs = rev (remdups (rev xs))"

definition longest_first :: "utf16 list \<Rightarrow> utf16 list" where
  "longest_first servers = sort_key (\<lambda>s. - int (length s)) servers"

definition resolveToolServerIdentity :: "utf16 \<Rightarrow> utf16 \<Rightarrow> utf16 list \<Rightarrow> server_identity" where
  "resolveToolServerIdentity opencodeName defaultServer knownMcpServers =
     (if opencodeName = [] then \<lparr>si_server = defaultServer, si_toolName = lit ''mcp'', si_opencodeName = lit ''mcp''\<rparr>
      else
        let servers = longest_first (js_dedupe (filter (\<lambda>s. s \<noteq> []) (map sanitizeMcpServerId knownMcpServers)))
        in case find (\<lambda>s. starts_with (s @ [underscore]) opencodeName \<and> length opencodeName \<noteq> length s + 1) servers of
            Some server \<Rightarrow> \<lparr>si_server = server, si_toolName = drop (length server + 1) opencodeName, si_opencodeName = opencodeName\<rparr>
          | None \<Rightarrow> \<lparr>si_server = defaultServer, si_toolName = opencodeName, si_opencodeName = opencodeName\<rparr>)"

section \<open>Names that cannot be taken for Cursor's own tools\<close>

record alias_rule =
  ar_alias :: utf16
  ar_exact :: "utf16 list"
  ar_suffixes :: "utf16 list"

definition WEB_ALIAS_RULES :: "alias_rule list" where
  "WEB_ALIAS_RULES =
    [\<lparr>ar_alias = lit ''custom_websearch'', ar_exact = [lit ''websearch'', lit ''web_search''],
      ar_suffixes = [lit ''_web_search'', lit ''-web_search'', lit ''_websearch'', lit ''-websearch'']\<rparr>,
     \<lparr>ar_alias = lit ''custom_webfetch'', ar_exact = [lit ''webfetch'', lit ''web_fetch''],
      ar_suffixes = [lit ''_web_fetch'', lit ''-web_fetch'', lit ''_webfetch'', lit ''-webfetch'']\<rparr>,
     \<lparr>ar_alias = lit ''custom_list_mcp_resources'', ar_exact = [lit ''list_mcp_resources''],
      ar_suffixes = [lit ''_list_mcp_resources'', lit ''-list_mcp_resources'']\<rparr>,
     \<lparr>ar_alias = lit ''custom_read_mcp_resource'', ar_exact = [lit ''read_mcp_resource''],
      ar_suffixes = [lit ''_read_mcp_resource'', lit ''-read_mcp_resource'']\<rparr>]"

definition COLLISION_SAFE_ALIASES :: "utf16 list" where
  "COLLISION_SAFE_ALIASES = map ar_alias WEB_ALIAS_RULES"

text \<open>\<open>toLowerCase\<close> for the comparison with the rules, whose names are ASCII and hold no letter another character lowers to.\<close>

definition ascii_lower :: "utf16 \<Rightarrow> utf16" where
  "ascii_lower s = map (\<lambda>c. if 65 \<le> c \<and> c \<le> 90 then c + 32 else c) s"

record aliased_catalog =
  ac_advertised :: "tool_def list"
  ac_aliases :: "(utf16, utf16) jsmap"
  ac_ambiguous :: "(utf16, utf16 list) jsmap"

definition rule_candidates :: "alias_rule \<Rightarrow> tool_def list \<Rightarrow> tool_def list" where
  "rule_candidates rule tools =
     (let exact = filter (\<lambda>t. ascii_lower (td_name t) \<in> set (ar_exact rule)) tools
      in if exact \<noteq> [] then exact
         else filter (\<lambda>t. list_ex (\<lambda>suffix. ends_with suffix (ascii_lower (td_name t))) (ar_suffixes rule)) tools)"

text \<open>The loop over the rules: the aliases, the ambiguous ones and the replacements.\<close>

fun alias_loop :: "alias_rule list \<Rightarrow> tool_def list \<Rightarrow> (utf16, utf16) jsmap \<times> (utf16, utf16 list) jsmap \<times> (utf16, utf16) jsmap
    \<Rightarrow> (utf16, utf16) jsmap \<times> (utf16, utf16 list) jsmap \<times> (utf16, utf16) jsmap" where
  "alias_loop [] tools st = st"
| "alias_loop (rule # rules) tools (aliases, ambiguous, replacements) =
     (if list_ex (\<lambda>t. td_name t = ar_alias rule) tools then alias_loop rules tools (aliases, ambiguous, replacements)
      else case rule_candidates rule tools of
          [t] \<Rightarrow> alias_loop rules tools (jm_set (ar_alias rule) (td_name t) aliases, ambiguous, jm_set (td_name t) (ar_alias rule) replacements)
        | [] \<Rightarrow> alias_loop rules tools (aliases, ambiguous, replacements)
        | ts \<Rightarrow> alias_loop rules tools (aliases, jm_set (ar_alias rule) (map td_name ts) ambiguous, replacements))"

definition aliased_tool :: "(utf16, utf16) jsmap \<Rightarrow> tool_def \<Rightarrow> tool_def" where
  "aliased_tool replacements t =
     (case jm_get replacements (td_name t) of None \<Rightarrow> t
      | Some a \<Rightarrow> if a = [] then t else t\<lparr>td_name := a, td_sourceName := Some (td_name t)\<rparr>)"

definition buildCustomWebToolAliases :: "tool_def list \<Rightarrow> aliased_catalog" where
  "buildCustomWebToolAliases tools =
     (let (aliases, ambiguous, replacements) = alias_loop WEB_ALIAS_RULES tools ([], [], [])
      in \<lparr>ac_advertised = map (aliased_tool replacements) tools, ac_aliases = aliases, ac_ambiguous = ambiguous\<rparr>)"

text \<open>An empty host name is falsy.\<close>

definition resolveCustomWebToolAlias :: "utf16 \<Rightarrow> (utf16, utf16) jsmap \<Rightarrow> utf16" where
  "resolveCustomWebToolAlias toolName aliases =
     (case jm_get aliases toolName of
        Some original \<Rightarrow> if original \<noteq> [] then original else
          (case find (\<lambda>p. ends_with (underscore # fst p) toolName) aliases of None \<Rightarrow> toolName | Some p \<Rightarrow> snd p)
      | None \<Rightarrow> (case find (\<lambda>p. ends_with (underscore # fst p) toolName) aliases of None \<Rightarrow> toolName | Some p \<Rightarrow> snd p))"

section \<open>Descriptors and calls\<close>

record descriptor =
  de_name :: utf16
  de_description :: utf16
  de_inputSchema :: bytes
  de_provider :: utf16
  de_toolName :: utf16

definition normalizeInputSchema :: "json \<Rightarrow> json" where
  "normalizeInputSchema schema =
     (if is_object schema then schema else JObject [(lit ''type'', JString (lit ''object'')), (lit ''properties'', JObject [])])"

definition identity_of :: "utf16 \<Rightarrow> utf16 list \<Rightarrow> tool_def \<Rightarrow> server_identity" where
  "identity_of provider known t = resolveToolServerIdentity (case td_sourceName t of Some s \<Rightarrow> s | None \<Rightarrow> td_name t) provider known"

definition public_name :: "server_identity \<Rightarrow> tool_def \<Rightarrow> utf16" where
  "public_name i t = (if td_sourceName t \<noteq> None \<and> td_sourceName t \<noteq> Some [] then td_name t else si_toolName i)"

definition toolsToDescriptors :: "tool_def list \<Rightarrow> utf16 \<Rightarrow> utf16 list \<Rightarrow> descriptor list" where
  "toolsToDescriptors tools provider known =
     map (\<lambda>t. let i = identity_of provider known t in
       \<lparr>de_name = (if td_name t \<in> set COLLISION_SAFE_ALIASES then td_name t else si_server i @ [45] @ si_toolName i),
        de_description = (case td_description t of None \<Rightarrow> [] | Some d \<Rightarrow> d),
        de_inputSchema = encodeJsonAsValue (normalizeInputSchema (td_inputSchema t)),
        de_provider = si_server i,
        de_toolName = public_name i t\<rparr>) tools"

text \<open>Nested descriptors by server, servers in order of first appearance; the schema part is left out when only names are asked for.\<close>

record mcp_tool =
  mt_toolName :: utf16
  mt_rest :: "(utf16 \<times> bytes) option"

fun group_tool :: "utf16 \<Rightarrow> 'a \<Rightarrow> (utf16, 'a list) jsmap \<Rightarrow> (utf16, 'a list) jsmap" where
  "group_tool server x m = (case jm_get m server of None \<Rightarrow> jm_set server [x] m | Some xs \<Rightarrow> jm_set server (xs @ [x]) m)"

definition toolsToMcpDescriptors :: "tool_def list \<Rightarrow> utf16 \<Rightarrow> utf16 list \<Rightarrow> bool \<Rightarrow> (utf16 \<times> mcp_tool list) list" where
  "toolsToMcpDescriptors tools provider known namesOnly =
     fold (\<lambda>t. let i = identity_of provider known t in
       group_tool (si_server i) \<lparr>mt_toolName = public_name i t,
         mt_rest = (if namesOnly then None
           else Some (case td_description t of None \<Rightarrow> [] | Some d \<Rightarrow> d, encodeJsonAsValue (normalizeInputSchema (td_inputSchema t))))\<rparr>)
      tools []"

definition opencode :: utf16 where "opencode = lit ''opencode''"

text \<open>\<open>McpArgs\<close> as \<open>mcpRealToolName\<close> reads it; a field that is not a string is absent.\<close>

record mcp_call =
  mc_name :: "utf16 option"
  mc_toolName :: "utf16 option"
  mc_provider :: "utf16 option"

definition mcpRealToolName :: "mcp_call \<Rightarrow> utf16 \<Rightarrow> utf16" where
  "mcpRealToolName call defaultServer =
     (let toolName = (case mc_toolName call of None \<Rightarrow> [] | Some t \<Rightarrow> t);
          provider = (case mc_provider call of None \<Rightarrow> [] | Some p \<Rightarrow> p);
          name = (case mc_name call of None \<Rightarrow> [] | Some n \<Rightarrow> n)
      in if toolName \<noteq> [] then
           (if provider \<noteq> [] \<and> provider \<noteq> defaultServer then
              (if starts_with (provider @ [underscore]) toolName then toolName else provider @ [underscore] @ toolName)
            else toolName)
         else
           (case indexOf name [45] 0 of
              Some dash \<Rightarrow>
                (let server = take dash name; bare = drop (dash + 1) name in
                 if dash > 0 \<and> server \<noteq> [] \<and> bare \<noteq> [] then
                   (if server = defaultServer then bare else server @ [underscore] @ bare)
                 else if name = [] then lit ''mcp'' else name)
            | None \<Rightarrow> if name = [] then lit ''mcp'' else name))"

definition advertisedToolNamesFromDescriptors :: "descriptor list \<Rightarrow> utf16 list" where
  "advertisedToolNamesFromDescriptors ds =
     map (\<lambda>d. if de_provider d \<noteq> [] \<and> de_provider d \<noteq> opencode then de_provider d @ [underscore] @ de_toolName d else de_toolName d)
       (filter (\<lambda>d. de_toolName d \<noteq> []) ds)"

section \<open>One host tool per public name\<close>

definition rule_matches :: "alias_rule \<Rightarrow> utf16 \<Rightarrow> bool" where
  "rule_matches rule n \<longleftrightarrow> ascii_lower n \<in> set (ar_exact rule) \<or> list_ex (\<lambda>suffix. ends_with suffix (ascii_lower n)) (ar_suffixes rule)"

lemma ends_with_iff: "ends_with p s \<longleftrightarrow> (\<exists>a. s = a @ p)"
proof
  assume "ends_with p s"
  then show "\<exists>a. s = a @ p" unfolding ends_with_def by (metis append_take_drop_id)
qed (auto simp: ends_with_def)

lemma ends_with_both: "ends_with p s \<Longrightarrow> ends_with q s \<Longrightarrow> ends_with p q \<or> ends_with q p"
  by (auto simp: ends_with_iff append_eq_append_conv2)

definition patterns :: "alias_rule \<Rightarrow> utf16 list" where
  "patterns r = ar_exact r @ ar_suffixes r"

lemma matches_pattern: "rule_matches r n \<Longrightarrow> \<exists>p \<in> set (patterns r). ends_with p (ascii_lower n)"
  by (auto simp: rule_matches_def patterns_def list_ex_iff ends_with_iff)

lemma patterns_apart:
  "list_all (\<lambda>r. list_all (\<lambda>r'. ar_alias r = ar_alias r' \<or>
     list_all (\<lambda>p. list_all (\<lambda>q. \<not> ends_with p q \<and> \<not> ends_with q p) (patterns r')) (patterns r)) WEB_ALIAS_RULES) WEB_ALIAS_RULES"
  by code_simp

lemma rules_apart:
  assumes "r \<in> set WEB_ALIAS_RULES" "r' \<in> set WEB_ALIAS_RULES" "rule_matches r n" "rule_matches r' n"
  shows "ar_alias r = ar_alias r'"
  using patterns_apart matches_pattern [OF assms(3)] matches_pattern [OF assms(4)] ends_with_both assms(1, 2)
  unfolding list_all_iff by blast

lemma aliases_apart:
  "list_all (\<lambda>a. a \<noteq> [] \<and> list_all (\<lambda>b. \<not> ends_with (underscore # b) a \<and> (a = b \<or> \<not> ends_with (underscore # b) (underscore # a)))
     COLLISION_SAFE_ALIASES) COLLISION_SAFE_ALIASES \<and> distinct COLLISION_SAFE_ALIASES"
  by code_simp

text \<open>What the loop has built after some of the rules.\<close>

definition alias_inv :: "tool_def list \<Rightarrow> alias_rule list \<Rightarrow> (utf16, utf16) jsmap \<Rightarrow> (utf16, utf16) jsmap \<Rightarrow> bool" where
  "alias_inv tools before al re \<longleftrightarrow>
     (\<forall>a orig. jm_get al a = Some orig \<longleftrightarrow> jm_get re orig = Some a)
     \<and> (\<forall>a orig. jm_get al a = Some orig \<longrightarrow>
          (\<exists>r \<in> set before. ar_alias r = a \<and> rule_matches r orig) \<and> orig \<in> td_name ` set tools \<and> a \<notin> td_name ` set tools)"

lemma candidates_match: "t \<in> set (rule_candidates r tools) \<Longrightarrow> rule_matches r (td_name t) \<and> t \<in> set tools"
  by (auto simp: rule_candidates_def rule_matches_def Let_def split: if_splits)

lemma alias_loop_inv:
  assumes "alias_inv tools before al re" "set before \<union> set rules \<subseteq> set WEB_ALIAS_RULES" "distinct (map ar_alias (before @ rules))"
    and "alias_loop rules tools (al, am, re) = (al', am', re')"
  shows "alias_inv tools (before @ rules) al' re'"
  using assms
proof (induction rules arbitrary: before al am re)
  case (Cons r rules)
  have skip: "alias_inv tools (before @ [r]) al re" using Cons.prems(1) unfolding alias_inv_def by fastforce
  have IH: "alias_inv tools (before @ [r]) al1 re1 \<Longrightarrow> alias_loop rules tools (al1, am1, re1) = (al', am', re')
      \<Longrightarrow> alias_inv tools (before @ r # rules) al' re'" for al1 am1 re1
    using Cons.IH [of "before @ [r]" al1 re1 am1] Cons.prems(2, 3) by simp
  show ?case
  proof (cases "list_ex (\<lambda>t. td_name t = ar_alias r) tools")
    case True
    then show ?thesis using IH [OF skip] Cons.prems(4) by simp
  next
    case fresh: False
    show ?thesis
    proof (cases "\<exists>t. rule_candidates r tools = [t]")
      case False
      then show ?thesis using IH [OF skip] Cons.prems(4) fresh by (auto split: list.splits)
    next
      case True
      then obtain t where t: "rule_candidates r tools = [t]" by blast
      then have m: "rule_matches r (td_name t)" "t \<in> set tools" using candidates_match [of t r tools] by simp_all
      have unlike: "ar_alias r' \<noteq> ar_alias r" if "r' \<in> set before" for r'
      proof
        assume "ar_alias r' = ar_alias r"
        then have "ar_alias r \<in> ar_alias ` set before" using that by (metis image_eqI)
        then show False using Cons.prems(3) by auto
      qed
      have other: "jm_get al a \<noteq> Some (td_name t)" for a
      proof
        assume "jm_get al a = Some (td_name t)"
        then obtain r' where "r' \<in> set before" "rule_matches r' (td_name t)"
          using Cons.prems(1) unfolding alias_inv_def by blast
        then have "ar_alias r' = ar_alias r" using rules_apart [of r' r] m(1) Cons.prems(2) by auto
        then show False using \<open>r' \<in> set before\<close> unlike by blast
      qed
      have new: "jm_get al (ar_alias r) = None"
      proof (rule ccontr)
        assume "jm_get al (ar_alias r) \<noteq> None"
        then obtain orig where "jm_get al (ar_alias r) = Some orig" by blast
        then obtain r' where "r' \<in> set before" "ar_alias r' = ar_alias r"
          using Cons.prems(1) unfolding alias_inv_def by blast
        then show False using unlike by blast
      qed
      have new': "jm_get re orig \<noteq> Some (ar_alias r)" for orig
        using new Cons.prems(1) unfolding alias_inv_def by (metis option.distinct(1))
      have "alias_inv tools (before @ [r]) (jm_set (ar_alias r) (td_name t) al) (jm_set (td_name t) (ar_alias r) re)"
        using Cons.prems(1) m fresh other new new' unfolding alias_inv_def by (auto simp: list_ex_iff)
      from IH [OF this] show ?thesis using Cons.prems(4) fresh t by simp
    qed
  qed
qed (use assms(1) in simp)

lemma alias_catalog:
  obtains re where "ac_advertised (buildCustomWebToolAliases tools) = map (aliased_tool re) tools"
    "alias_inv tools WEB_ALIAS_RULES (ac_aliases (buildCustomWebToolAliases tools)) re"
proof -
  obtain al am re where l: "alias_loop WEB_ALIAS_RULES tools ([], [], []) = (al, am, re)" by (cases "alias_loop WEB_ALIAS_RULES tools ([], [], [])")
  have "alias_inv tools [] [] []" by (simp add: alias_inv_def)
  from alias_loop_inv [OF this _ _ l] aliases_apart have "alias_inv tools WEB_ALIAS_RULES al re"
    by (simp add: COLLISION_SAFE_ALIASES_def)
  moreover have "ac_advertised (buildCustomWebToolAliases tools) = map (aliased_tool re) tools"
    "ac_aliases (buildCustomWebToolAliases tools) = al" by (simp_all add: buildCustomWebToolAliases_def l)
  ultimately show ?thesis using that by blast
qed

text \<open>Cursor never sees two tools under one name: if the host's tool names are distinct, so are the
  advertised ones, and every public name that replaced a host's name leads back to that one tool.\<close>

theorem advertised_names_stay_distinct:
  assumes "distinct (map td_name tools)"
  shows "distinct (map td_name (ac_advertised (buildCustomWebToolAliases tools)))
    \<and> (\<forall>a orig. jm_get (ac_aliases (buildCustomWebToolAliases tools)) a = Some orig \<longrightarrow>
         orig \<in> td_name ` set tools \<and> a \<in> td_name ` set (ac_advertised (buildCustomWebToolAliases tools))
         \<and> (\<forall>b. jm_get (ac_aliases (buildCustomWebToolAliases tools)) b = Some orig \<longrightarrow> b = a))"
proof -
  obtain re where re: "ac_advertised (buildCustomWebToolAliases tools) = map (aliased_tool re) tools"
    and inv: "alias_inv tools WEB_ALIAS_RULES (ac_aliases (buildCustomWebToolAliases tools)) re" by (rule alias_catalog)
  let ?al = "ac_aliases (buildCustomWebToolAliases tools)"
  have both: "jm_get ?al a = Some n \<longleftrightarrow> jm_get re n = Some a" for a n using inv by (simp add: alias_inv_def)
  have fresh: "jm_get re n = Some a \<Longrightarrow> n \<in> td_name ` set tools \<and> a \<notin> td_name ` set tools \<and> a \<noteq> []" for a n
  proof -
    assume "jm_get re n = Some a"
    then obtain r where "r \<in> set WEB_ALIAS_RULES" "ar_alias r = a" and t: "n \<in> td_name ` set tools" "a \<notin> td_name ` set tools"
      using inv unfolding alias_inv_def by blast
    then have "a \<in> set COLLISION_SAFE_ALIASES" by (auto simp: COLLISION_SAFE_ALIASES_def)
    then show ?thesis using t aliases_apart by (auto simp: list_all_iff)
  qed
  define pub where "pub n = (case jm_get re n of None \<Rightarrow> n | Some a \<Rightarrow> a)" for n
  have name: "td_name (aliased_tool re t) = pub (td_name t)" for t
    using fresh by (auto simp: aliased_tool_def pub_def split: option.split)
  have "inj_on pub (td_name ` set tools)"
  proof (rule inj_onI)
    fix x y assume "x \<in> td_name ` set tools" "y \<in> td_name ` set tools" "pub x = pub y"
    then show "x = y" using fresh both by (auto simp: pub_def split: option.splits) (metis option.inject)+
  qed
  then have "distinct (map td_name (map (aliased_tool re) tools))"
    using assms by (simp add: name distinct_map inj_on_image_iff comp_inj_on_iff comp_def cong: map_cong)
  moreover have "a \<in> td_name ` set (map (aliased_tool re) tools)" if "jm_get ?al a = Some n" for a n
  proof -
    have r: "jm_get re n = Some a" using that both by simp
    then obtain t where "t \<in> set tools" "n = td_name t" using fresh by blast
    then have "a = td_name (aliased_tool re t)" using r by (simp add: name pub_def)
    then show ?thesis using \<open>t \<in> set tools\<close> by auto
  qed
  ultimately show ?thesis unfolding re using fresh both by (metis option.inject)
qed

section \<open>A call leads back to the host's tool\<close>

text \<open>How Cursor calls the tool of a descriptor.\<close>

definition call_of :: "descriptor \<Rightarrow> mcp_call" where
  "call_of d = \<lparr>mc_name = Some (de_name d), mc_toolName = Some (de_toolName d), mc_provider = Some (de_provider d)\<rparr>"

lemma identity_cases:
  assumes "n \<noteq> []"
  shows "(si_server (resolveToolServerIdentity n provider known) = provider \<and> si_toolName (resolveToolServerIdentity n provider known) = n)
    \<or> (\<exists>s \<in> set known. si_server (resolveToolServerIdentity n provider known) = sanitizeMcpServerId s \<and> sanitizeMcpServerId s \<noteq> []
        \<and> n = sanitizeMcpServerId s @ [underscore] @ si_toolName (resolveToolServerIdentity n provider known)
        \<and> si_toolName (resolveToolServerIdentity n provider known) \<noteq> [])"
proof -
  let ?servers = "longest_first (js_dedupe (filter (\<lambda>s. s \<noteq> []) (map sanitizeMcpServerId known)))"
  let ?P = "\<lambda>s. starts_with (s @ [underscore]) n \<and> length n \<noteq> length s + 1"
  show ?thesis
  proof (cases "find ?P ?servers")
    case None
    then show ?thesis using assms by (simp add: resolveToolServerIdentity_def Let_def)
  next
    case (Some s)
    then have p: "?P s" and mem: "s \<in> set ?servers" by (auto simp: find_Some_iff)
    then have "s \<noteq> []" "s \<in> sanitizeMcpServerId ` set known" by (auto simp: longest_first_def js_dedupe_def)
    moreover have n: "n = (s @ [underscore]) @ drop (length (s @ [underscore])) n" using p starts_withE by blast
    moreover have "drop (length s + 1) n \<noteq> []" using p n by (metis append_Nil2 length_append_singleton Suc_eq_plus1)
    moreover have "si_server (resolveToolServerIdentity n provider known) = s"
      "si_toolName (resolveToolServerIdentity n provider known) = drop (length s + 1) n"
      using assms Some by (simp_all add: resolveToolServerIdentity_def Let_def)
    ultimately show ?thesis by (auto simp del: drop_eq_Nil)
  qed
qed

text \<open>A public name, alone or after its server, resolves to the tool it replaced.\<close>

lemma alias_resolves:
  assumes "alias_inv tools WEB_ALIAS_RULES al re" "jm_get re n = Some a" "n \<noteq> []"
  shows "resolveCustomWebToolAlias a al = n" "resolveCustomWebToolAlias (p @ [underscore] @ a) al = n"
proof -
  have al: "jm_get al a = Some n" using assms(1, 2) by (simp add: alias_inv_def)
  have keys: "b \<in> set COLLISION_SAFE_ALIASES" if "(b, x) \<in> set al" for b x
  proof -
    have "jm_get al b \<noteq> None" using that by (metis (no_types, lifting) fst_conv image_eqI map_of_eq_None_iff)
    then obtain y where "jm_get al b = Some y" by blast
    then show ?thesis using assms(1) unfolding alias_inv_def COLLISION_SAFE_ALIASES_def by force
  qed
  have a: "a \<in> set COLLISION_SAFE_ALIASES" using keys map_of_SomeD [OF al] by blast
  show "resolveCustomWebToolAlias a al = n" using al assms(3) by (simp add: resolveCustomWebToolAlias_def)
  have none: "jm_get al (p @ [underscore] @ a) = None"
  proof (rule ccontr)
    assume "jm_get al (p @ [underscore] @ a) \<noteq> None"
    then obtain y where "jm_get al (p @ [underscore] @ a) = Some y" by blast
    then have "p @ [underscore] @ a \<in> set COLLISION_SAFE_ALIASES" using keys map_of_SomeD by fast
    moreover have "ends_with (underscore # a) (p @ [underscore] @ a)" by (auto simp: ends_with_iff)
    ultimately show False using a aliases_apart unfolding list_all_iff by blast
  qed
  have only: "b = a" if "(b, x) \<in> set al" "ends_with (underscore # b) (p @ [underscore] @ a)" for b x
  proof -
    have "ends_with (underscore # a) (p @ [underscore] @ a)" by (auto simp: ends_with_iff)
    then have "ends_with (underscore # a) (underscore # b) \<or> ends_with (underscore # b) (underscore # a)"
      using ends_with_both that(2) by blast
    then show ?thesis using aliases_apart a keys [OF that(1)] unfolding list_all_iff by metis
  qed
  have "find (\<lambda>q. ends_with (underscore # fst q) (p @ [underscore] @ a)) al \<noteq> None"
    unfolding find_None_iff using map_of_SomeD [OF al] by (force simp: ends_with_iff)
  then obtain q where q: "find (\<lambda>q. ends_with (underscore # fst q) (p @ [underscore] @ a)) al = Some q" by blast
  have "snd q = n"
  proof -
    obtain i where i: "i < length al" "q = al ! i" "ends_with (underscore # fst q) (p @ [underscore] @ a)"
      "\<forall>j < i. \<not> ends_with (underscore # fst (al ! j)) (p @ [underscore] @ a)"
      using q by (auto simp: find_Some_iff)
    have fa: "fst q = a" using only [of "fst q" "snd q"] i by simp
    have "j < i \<Longrightarrow> fst (al ! j) \<noteq> a" for j using i(4) by (auto simp: ends_with_iff)
    then have "jm_get al a = Some (snd q)"
      using i(1, 2) fa
    proof (induction al arbitrary: i)
      case (Cons x xs)
      show ?case
      proof (cases i)
        case 0
        then show ?thesis using Cons.prems by (cases x) auto
      next
        case (Suc k)
        then have "fst x \<noteq> a" using Cons.prems(1) [of 0] by simp
        moreover have "jm_get xs a = Some (snd q)"
          using Cons.IH [of k] Cons.prems Suc by (metis Suc_less_eq length_Cons nth_Cons_Suc)
        ultimately show ?thesis by (cases x) auto
      qed
    qed simp
    then show ?thesis using al by simp
  qed
  then show "resolveCustomWebToolAlias (p @ [underscore] @ a) al = n"
    using q none by (simp add: resolveCustomWebToolAlias_def)
qed

lemma plain_name_resolves:
  assumes "alias_inv tools WEB_ALIAS_RULES al re" "n \<in> td_name ` set tools"
    and "\<forall>a \<in> set COLLISION_SAFE_ALIASES. \<not> ends_with (underscore # a) n"
  shows "resolveCustomWebToolAlias n al = n"
proof -
  have "jm_get al n = None" using assms(1, 2) unfolding alias_inv_def by (metis not_None_eq)
  moreover have "find (\<lambda>p. ends_with (underscore # fst p) n) al = None"
  proof -
    have "fst p \<in> set COLLISION_SAFE_ALIASES" if p: "p \<in> set al" for p
    proof -
      have "jm_get al (fst p) \<noteq> None" using p by (simp add: map_of_eq_None_iff)
      then obtain y where "jm_get al (fst p) = Some y" by blast
      then show ?thesis using assms(1) unfolding alias_inv_def COLLISION_SAFE_ALIASES_def by force
    qed
    then show ?thesis using assms(3) by (auto simp: find_None_iff)
  qed
  ultimately show ?thesis by (simp add: resolveCustomWebToolAlias_def)
qed

lemma mem_map: "x \<in> set xs \<Longrightarrow> f x = y \<Longrightarrow> y \<in> set (map f xs)"
  by auto

text \<open>The nested descriptors list, under each server, the tool names of the flat ones in their order.\<close>

definition group_names :: "utf16 \<Rightarrow> (utf16, mcp_tool list) jsmap \<Rightarrow> utf16 list" where
  "group_names server m = (case jm_get m server of None \<Rightarrow> [] | Some xs \<Rightarrow> map mt_toolName xs)"

lemma group_names_tool: "group_names server (group_tool server' x m) = group_names server m @ (if server' = server then [mt_toolName x] else [])"
  by (auto simp: group_names_def split: option.split)

lemma group_names_descriptors:
  "group_names server (toolsToMcpDescriptors tools provider known namesOnly)
     = map de_toolName (filter (\<lambda>d. de_provider d = server) (toolsToDescriptors tools provider known))"
proof -
  have "group_names server (fold (\<lambda>t. let i = identity_of provider known t in group_tool (si_server i) \<lparr>mt_toolName = public_name i t,
          mt_rest = (if namesOnly then None
            else Some (case td_description t of None \<Rightarrow> [] | Some d \<Rightarrow> d, encodeJsonAsValue (normalizeInputSchema (td_inputSchema t))))\<rparr>) tools m)
      = group_names server m @ map de_toolName (filter (\<lambda>d. de_provider d = server) (toolsToDescriptors tools provider known))" for m
    by (induction tools arbitrary: m) (auto simp: toolsToDescriptors_def Let_def group_names_tool simp del: group_tool.simps)
  from this [of "[]"] show ?thesis by (simp add: toolsToMcpDescriptors_def group_names_def)
qed

text \<open>C33: Every advertised tool can be called: there is one descriptor for each of the host's tools, in their order, and when
Cursor calls the tool of a descriptor, by the server and the name it gives, the call is resolved to exactly
the tool that descriptor was built for, whether its name was replaced by a public one or not, and that tool is
in the set of advertised ones; the nested descriptors list the same names under the same servers. The host
gives its tools names and no other source name, and no server it knows is called like the default one. For the
tool called, no server's name stands twice at the front of its name (such a tool is called back under a
shorter name), and its name does not end like a public one.\<close>

theorem advertised_tool_is_called_back:
  assumes "i < length tools" and "\<And>u. u \<in> set tools \<Longrightarrow> td_name u \<noteq> [] \<and> td_sourceName u = None"
    and "\<And>s. s \<in> set known \<Longrightarrow> sanitizeMcpServerId s \<noteq> opencode"
    and "\<And>s. s \<in> set known \<Longrightarrow> \<not> starts_with (sanitizeMcpServerId s @ [underscore] @ sanitizeMcpServerId s @ [underscore]) (td_name (tools ! i))"
    and "\<And>a. a \<in> set COLLISION_SAFE_ALIASES \<Longrightarrow> \<not> ends_with (underscore # a) (td_name (tools ! i))"
  shows "let cat = buildCustomWebToolAliases tools; ds = toolsToDescriptors (ac_advertised cat) opencode known
    in length ds = length tools
      \<and> resolveCustomWebToolAlias (mcpRealToolName (call_of (ds ! i)) opencode) (ac_aliases cat) = td_name (tools ! i)
      \<and> td_name (tools ! i) \<in> set (map (\<lambda>n. resolveCustomWebToolAlias n (ac_aliases cat)) (advertisedToolNamesFromDescriptors ds))
      \<and> group_names (de_provider (ds ! i)) (toolsToMcpDescriptors (ac_advertised cat) opencode known namesOnly)
          = map de_toolName (filter (\<lambda>d. de_provider d = de_provider (ds ! i)) ds)"
proof -
  obtain re where re: "ac_advertised (buildCustomWebToolAliases tools) = map (aliased_tool re) tools"
    and inv: "alias_inv tools WEB_ALIAS_RULES (ac_aliases (buildCustomWebToolAliases tools)) re" by (rule alias_catalog)
  define t where "t = tools ! i"
  have t: "t \<in> set tools" using assms(1) by (simp add: t_def)
  note side = assms(4,5) [folded t_def]
  let ?al = "ac_aliases (buildCustomWebToolAliases tools)" and ?ds = "toolsToDescriptors (map (aliased_tool re) tools) opencode known"
  let ?n = "td_name t" and ?i = "resolveToolServerIdentity (td_name t) opencode known"
  have n: "?n \<noteq> []" "td_sourceName t = None" using t assms(2) by blast+
  have op: "opencode \<noteq> []" by (simp add: opencode_def lit_def)
  define d where "d = hd (toolsToDescriptors [aliased_tool re t] opencode known)"
  have at: "?ds ! i = d" using assms(1) by (simp add: d_def toolsToDescriptors_def t_def Let_def)
  have d: "d \<in> set ?ds" using t by (auto simp: d_def toolsToDescriptors_def Let_def)
  have id: "identity_of opencode known (aliased_tool re t) = ?i"
    using n by (auto simp: identity_of_def aliased_tool_def split: option.split)
  have prov: "de_provider d = si_server ?i" by (simp add: d_def toolsToDescriptors_def Let_def id)
  have tool: "de_toolName d = (case jm_get re ?n of None \<Rightarrow> si_toolName ?i | Some a \<Rightarrow> if a = [] then si_toolName ?i else a)"
    using n by (auto simp: d_def toolsToDescriptors_def Let_def id public_name_def aliased_tool_def identity_of_def split: option.split)
  let ?full = "if de_provider d \<noteq> [] \<and> de_provider d \<noteq> opencode then de_provider d @ [underscore] @ de_toolName d else de_toolName d"
  have adv: "?n \<in> set (map (\<lambda>n. resolveCustomWebToolAlias n ?al) (advertisedToolNamesFromDescriptors ?ds))"
    if "de_toolName d \<noteq> []" "resolveCustomWebToolAlias ?full ?al = ?n"
    using d that by (intro mem_map [where x = ?full]) (auto simp: advertisedToolNamesFromDescriptors_def)
  have "resolveCustomWebToolAlias (mcpRealToolName (call_of d) opencode) ?al = ?n
    \<and> ?n \<in> set (map (\<lambda>n. resolveCustomWebToolAlias n ?al) (advertisedToolNamesFromDescriptors ?ds))"
  proof (cases "jm_get re ?n")
    case (Some a)
    then have a: "a \<noteq> []" using inv aliases_apart unfolding alias_inv_def COLLISION_SAFE_ALIASES_def
      by (fastforce simp: list_all_iff)
    note res = alias_resolves [OF inv Some n(1)]
    show ?thesis
      using res a Some by (intro conjI adv) (simp_all add: call_of_def mcpRealToolName_def Let_def tool)
  next
    case None
    have plain: "resolveCustomWebToolAlias ?n ?al = ?n"
      using plain_name_resolves [OF inv] t side(2) by blast
    show ?thesis
    proof (cases "si_server ?i = opencode \<and> si_toolName ?i = ?n")
      case True
      then show ?thesis
        using plain n(1) None by (intro conjI adv) (simp_all add: call_of_def mcpRealToolName_def Let_def tool prov)
    next
      case False
      then obtain s where s: "s \<in> set known" "si_server ?i = sanitizeMcpServerId s" "sanitizeMcpServerId s \<noteq> []"
        "?n = sanitizeMcpServerId s @ [underscore] @ si_toolName ?i" "si_toolName ?i \<noteq> []"
        using identity_cases [OF n(1), of opencode known] by blast
      have "\<not> starts_with (sanitizeMcpServerId s @ [underscore]) (si_toolName ?i)"
        using side(1) [OF s(1)] s(4) by (metis append.assoc starts_withE starts_with_append)
      then have "mcpRealToolName (call_of d) opencode = ?n"
        using s(2-5) assms(3) [OF s(1)] None by (simp add: call_of_def mcpRealToolName_def Let_def tool prov)
      moreover have "si_server ?i @ [underscore] @ si_toolName ?i = ?n" using s(2, 4) by metis
      ultimately show ?thesis using plain None s(2, 3, 5) assms(3) [OF s(1)] by (intro conjI adv) (simp_all add: tool prov)
    qed
  qed
  moreover have "length ?ds = length tools" by (simp add: toolsToDescriptors_def)
  ultimately show ?thesis using group_names_descriptors unfolding Let_def re at t_def by blast
qed

text \<open>A tool that repeats its server's name is called back under a name that is not advertised.\<close>

lemma repeated_server_name_is_lost:
  "si_server (resolveToolServerIdentity (lit ''git_git_status'') opencode [lit ''git'']) = lit ''git''
   \<and> si_toolName (resolveToolServerIdentity (lit ''git_git_status'') opencode [lit ''git'']) = lit ''git_status''
   \<and> mcpRealToolName \<lparr>mc_name = None, mc_toolName = Some (lit ''git_status''), mc_provider = Some (lit ''git'')\<rparr> opencode = lit ''git_status''"
  by code_simp

text \<open>A search tool of a server and a tool whose name is taken as it is.\<close>

definition demo_tools :: "tool_def list" where
  "demo_tools = [\<lparr>td_name = lit ''gh_web_search'', td_description = None, td_inputSchema = JNull, td_sourceName = None\<rparr>,
     \<lparr>td_name = lit ''read'', td_description = None, td_inputSchema = JNull, td_sourceName = None\<rparr>]"

lemma demo_names: "distinct (map td_name demo_tools)"
  by (simp add: demo_tools_def lit_def)

theorem advertised_names_stay_distinct_witness:
  "distinct (map td_name (ac_advertised (buildCustomWebToolAliases demo_tools)))"
  using advertised_names_stay_distinct [OF demo_names] by blast

theorem advertised_tool_is_called_back_witness:
  "let cat = buildCustomWebToolAliases demo_tools; ds = toolsToDescriptors (ac_advertised cat) opencode [lit ''gh'']
    in resolveCustomWebToolAlias (mcpRealToolName (call_of (ds ! 0)) opencode) (ac_aliases cat) = lit ''gh_web_search''"
proof -
  have "\<forall>a \<in> set COLLISION_SAFE_ALIASES. \<not> ends_with (underscore # a) (lit ''gh_web_search'')" by code_simp
  moreover have "sanitizeMcpServerId (lit ''gh'') \<noteq> opencode" by code_simp
  moreover have "\<not> starts_with (sanitizeMcpServerId (lit ''gh'') @ [underscore] @ sanitizeMcpServerId (lit ''gh'') @ [underscore]) (lit ''gh_web_search'')"
    by code_simp
  moreover have "td_name (demo_tools ! 0) = lit ''gh_web_search''" "0 < length demo_tools"
    "\<And>u. u \<in> set demo_tools \<Longrightarrow> td_name u \<noteq> [] \<and> td_sourceName u = None" by (auto simp: demo_tools_def lit_def)
  ultimately show ?thesis using advertised_tool_is_called_back [of 0 demo_tools "[lit ''gh'']" True] unfolding Let_def by simp
qed

end
