(* ===== verification/TodoStore.thy ===== *)
theory TodoStore
  imports JsonAccess
begin

text \<open>
  The per-session todo lists kept for hosts without todo tools, and the defaults filled into a todo
  call (\<open>src/src/todo-store.ts\<close>).
\<close>

section \<open>Todos\<close>

datatype todo_status = Pending | InProgress | Completed | Cancelled
datatype todo_priority = High | Medium | Low

definition status_name :: "todo_status \<Rightarrow> utf16" where
  "status_name s = lit (case s of Pending \<Rightarrow> ''pending'' | InProgress \<Rightarrow> ''in_progress'' | Completed \<Rightarrow> ''completed'' | Cancelled \<Rightarrow> ''cancelled'')"

definition priority_name :: "todo_priority \<Rightarrow> utf16" where
  "priority_name p = lit (case p of High \<Rightarrow> ''high'' | Medium \<Rightarrow> ''medium'' | Low \<Rightarrow> ''low'')"

definition TODO_STATUSES :: "todo_status list" where "TODO_STATUSES = [Pending, InProgress, Completed, Cancelled]"
definition TODO_PRIORITIES :: "todo_priority list" where "TODO_PRIORITIES = [High, Medium, Low]"

record session_todo =
  todo_id :: utf16
  todo_content :: utf16
  todo_status :: todo_status
  todo_priority :: todo_priority

definition MAX_TRACKED_TODO_SESSIONS :: nat where "MAX_TRACKED_TODO_SESSIONS = 256"

text \<open>\<open>isStatus\<close> and \<open>isPriority\<close>: the value a string names.\<close>

definition isStatus :: "json \<Rightarrow> todo_status option" where
  "isStatus v = (case string_of v of None \<Rightarrow> None | Some t \<Rightarrow> find (\<lambda>s. status_name s = t) TODO_STATUSES)"

definition isPriority :: "json \<Rightarrow> todo_priority option" where
  "isPriority v = (case string_of v of None \<Rightarrow> None | Some t \<Rightarrow> find (\<lambda>p. priority_name p = t) TODO_PRIORITIES)"

definition normalizeSessionTodo :: "json \<Rightarrow> nat \<Rightarrow> session_todo option" where
  "normalizeSessionTodo v index =
     (if \<not> is_object v then None
      else let content = (case string_of (json_field v (lit ''content'')) of None \<Rightarrow> [] | Some t \<Rightarrow> t) in
        if js_trim content = [] then None
        else Some \<lparr>
          todo_id = (case string_of (json_field v (lit ''id'')) of
              Some i \<Rightarrow> if js_trim i \<noteq> [] then js_trim i else decimal (index + 1)
            | None \<Rightarrow> decimal (index + 1)),
          todo_content = content,
          todo_status = (case isStatus (json_field v (lit ''status'')) of Some s \<Rightarrow> s | None \<Rightarrow> Pending),
          todo_priority = (case isPriority (json_field v (lit ''priority'')) of Some p \<Rightarrow> p | None \<Rightarrow> Medium)\<rparr>)"

fun normalize_todos :: "session_todo list \<Rightarrow> utf16 set \<Rightarrow> json list \<Rightarrow> session_todo list" where
  "normalize_todos out seen [] = out"
| "normalize_todos out seen (item # items) =
     (case normalizeSessionTodo item (length out) of None \<Rightarrow> normalize_todos out seen items
      | Some todo \<Rightarrow>
          (let i = (if todo_id todo \<in> seen then todo_id todo @ [45] @ decimal (length out + 1) else todo_id todo)
           in normalize_todos (out @ [todo\<lparr>todo_id := i\<rparr>]) (insert i seen) items))"

definition normalizeSessionTodos :: "json \<Rightarrow> session_todo list" where
  "normalizeSessionTodos v = (case json_array v of None \<Rightarrow> [] | Some items \<Rightarrow> normalize_todos [] {} items)"

text \<open>\<open>{ ...todo, ...(k missing ? { k: default } : {}) }\<close>\<close>

definition default_member :: "utf16 \<Rightarrow> json \<Rightarrow> (utf16 \<times> json) list \<Rightarrow> (utf16 \<times> json) list" where
  "default_member k v kvs = (if json_field (JObject kvs) k = JUndefined then AList.update k v kvs else kvs)"

fun normalize_todo_items :: "nat \<Rightarrow> json list \<Rightarrow> json list" where
  "normalize_todo_items index [] = []"
| "normalize_todo_items index (item # items) =
     (if is_object item
      then JObject (default_member (lit ''priority'') (JString (lit ''medium''))
          (default_member (lit ''status'') (JString (lit ''pending''))
            (default_member (lit ''id'') (JString (decimal (index + 1))) (json_entries item))))
      else item) # normalize_todo_items (Suc index) items"

definition normalizeOpencodeTodoArgs :: "(utf16 \<times> json) list \<Rightarrow> (utf16 \<times> json) list" where
  "normalizeOpencodeTodoArgs as =
     (case json_array (json_field (JObject as) (lit ''todos'')) of None \<Rightarrow> as
      | Some items \<Rightarrow> AList.update (lit ''todos'') (JArray (normalize_todo_items 0 items)) as)"

section \<open>The lists\<close>

type_synonym todo_lists = "(utf16, session_todo list) jsmap"

definition getSessionTodos :: "utf16 \<Rightarrow> todo_lists \<Rightarrow> session_todo list" where
  "getSessionTodos sessionID m = (case jm_get m sessionID of None \<Rightarrow> [] | Some ts \<Rightarrow> ts)"

definition setSessionTodos :: "utf16 \<Rightarrow> json \<Rightarrow> todo_lists \<Rightarrow> session_todo list \<times> todo_lists" where
  "setSessionTodos sessionID todos m =
     (let m' = jm_evict MAX_TRACKED_TODO_SESSIONS (jm_touch sessionID (normalizeSessionTodos todos) m)
      in (getSessionTodos sessionID m', m'))"

definition clearSessionTodos :: "utf16 \<Rightarrow> todo_lists \<Rightarrow> todo_lists" where
  "clearSessionTodos sessionID m = jm_delete sessionID m"

definition clearAllSessionTodos :: "todo_lists \<Rightarrow> todo_lists" where
  "clearAllSessionTodos m = []"

section \<open>A list written is the list read\<close>

text \<open>The items of a list as a call holds them.\<close>

definition todo_json :: "session_todo \<Rightarrow> json" where
  "todo_json t = JObject [(lit ''id'', JString (todo_id t)), (lit ''content'', JString (todo_content t)),
     (lit ''status'', JString (status_name (todo_status t))), (lit ''priority'', JString (priority_name (todo_priority t)))]"

definition todo_ok :: "session_todo \<Rightarrow> bool" where
  "todo_ok t \<longleftrightarrow> js_trim (todo_content t) \<noteq> [] \<and> js_trim (todo_id t) \<noteq> [] \<and> js_trim (todo_id t) = todo_id t"

lemma names: "isStatus (JString (status_name s)) = Some s" "isPriority (JString (priority_name p)) = Some p"
  by (cases s; simp add: isStatus_def TODO_STATUSES_def status_name_def lit_def)
     (cases p; simp add: isPriority_def TODO_PRIORITIES_def priority_name_def lit_def)

lemma todo_fields:
  "json_field (todo_json t) (lit ''id'') = JString (todo_id t)" "json_field (todo_json t) (lit ''content'') = JString (todo_content t)"
  "json_field (todo_json t) (lit ''status'') = JString (status_name (todo_status t))"
  "json_field (todo_json t) (lit ''priority'') = JString (priority_name (todo_priority t))"
  by (simp_all add: todo_json_def lit_def)

lemma normalize_todo_json: "todo_ok t \<Longrightarrow> normalizeSessionTodo (todo_json t) n = Some t"
  by (auto simp: normalizeSessionTodo_def todo_fields names todo_ok_def Let_def todo_json_def lit_def js_trim_def)

lemma normalize_distinct:
  "\<forall>t \<in> set ts. todo_ok t \<Longrightarrow> distinct (map todo_id ts) \<Longrightarrow> todo_id ` set ts \<inter> seen = {} \<Longrightarrow>
   normalize_todos out seen (map todo_json ts) = out @ ts"
  by (induction ts arbitrary: out seen) (auto simp: normalize_todo_json Let_def)

text \<open>What the store holds is well formed, whatever was written.\<close>

lemma js_trim_idem: "js_trim (js_trim s) = js_trim s"
proof -
  have last: "dropWhile P xs \<noteq> [] \<Longrightarrow> \<not> P (hd (dropWhile P xs))" for P and xs :: utf16 by (rule hd_dropWhile)
  have id: "dropWhile js_space (js_trim s) = js_trim s"
  proof (cases "js_trim s")
    case (Cons c cs)
    let ?d = "dropWhile js_space s"
    have pre: "prefix (js_trim s) ?d"
      unfolding js_trim_def by (metis rev_rev_ident suffix_dropWhile suffix_to_prefix)
    then have d: "hd ?d = c" "?d \<noteq> []" using Cons by (auto simp: prefix_def simp del: dropWhile_eq_Nil_conv)
    then have "\<not> js_space c" using last [of js_space s] by metis
    then show ?thesis using Cons by simp
  qed simp
  then show ?thesis unfolding js_trim_def [of "js_trim s"] id
    by (simp add: js_trim_def dropWhile_idem)
qed

lemma decimal_trim: "js_trim (decimal n) = decimal n"
proof -
  have "\<not> js_space c" if "c \<in> set (decimal n)" for c
  proof -
    have "48 \<le> c \<and> c \<le> 57" using that decimal_digits [of n] by (auto simp: list_all_iff is_digit_def)
    then show ?thesis by (auto simp: js_space_def word_le_nat_alt)
  qed
  then have "dropWhile js_space xs = xs" if "set xs \<subseteq> set (decimal n)" for xs
    using that by (cases xs) auto
  then show ?thesis by (simp add: js_trim_def)
qed

lemma normalized_ok: "normalizeSessionTodo v n = Some t \<Longrightarrow> todo_ok t"
  by (auto simp: normalizeSessionTodo_def todo_ok_def Let_def js_trim_idem decimal_trim split: if_splits option.splits)

lemma trim_fixed: "js_trim s = s \<longleftrightarrow> s = [] \<or> \<not> js_space (hd s) \<and> \<not> js_space (last s)"
proof
  assume t: "js_trim s = s"
  let ?d = "dropWhile js_space s"
  have "length (js_trim s) \<le> length ?d" unfolding js_trim_def by (metis length_dropWhile_le length_rev)
  then have "length ?d = length s" using t length_dropWhile_le [of js_space s] by simp
  then have d: "?d = s" by (metis suffix_dropWhile suffix_length_suffix suffix_order.antisym order_refl suffix_order.refl)
  then have "dropWhile js_space (rev s) = rev s" using t by (metis js_trim_def rev_rev_ident)
  then show "s = [] \<or> \<not> js_space (hd s) \<and> \<not> js_space (last s)"
    using d by (auto simp: dropWhile_eq_self_iff hd_rev)
next
  assume "s = [] \<or> \<not> js_space (hd s) \<and> \<not> js_space (last s)"
  then have "dropWhile js_space s = s" "dropWhile js_space (rev s) = rev s" by (auto simp: dropWhile_eq_self_iff hd_rev)
  then show "js_trim s = s" by (simp add: js_trim_def)
qed

lemma suffixed_ok: "todo_ok t \<Longrightarrow> todo_ok (t\<lparr>todo_id := todo_id t @ [45] @ decimal k\<rparr>)"
proof -
  assume t: "todo_ok t"
  then have h: "todo_id t \<noteq> []" "\<not> js_space (hd (todo_id t))" using trim_fixed [of "todo_id t"] by (auto simp: todo_ok_def)
  have "\<not> js_space (last (decimal k))" using trim_fixed [of "decimal k"] decimal_trim by auto
  then have "js_trim (todo_id t @ [45] @ decimal k) = todo_id t @ [45] @ decimal k"
    using h by (subst trim_fixed) simp
  then show ?thesis using t h by (simp add: todo_ok_def)
qed

lemma normalize_todos_ok: "\<forall>t \<in> set out. todo_ok t \<Longrightarrow> t \<in> set (normalize_todos out seen items) \<Longrightarrow> todo_ok t"
proof (induction items arbitrary: out seen)
  case (Cons item items)
  show ?case
  proof (cases "normalizeSessionTodo item (length out)")
    case (Some todo)
    let ?i = "if todo_id todo \<in> seen then todo_id todo @ [45] @ decimal (length out + 1) else todo_id todo"
    have "todo_ok (todo\<lparr>todo_id := ?i\<rparr>)" using normalized_ok [OF Some] suffixed_ok by simp
    then show ?thesis using Cons.IH [of "out @ [todo\<lparr>todo_id := ?i\<rparr>]" "insert ?i seen"] Cons.prems Some by (auto simp: Let_def)
  qed (use Cons in auto)
qed simp

text \<open>Other sessions' operations on the lists.\<close>

datatype todo_event = TSet utf16 json | TClear utf16

fun todo_key :: "todo_event \<Rightarrow> utf16" where
  "todo_key (TSet k v) = k"
| "todo_key (TClear k) = k"

fun todo_step :: "todo_lists \<Rightarrow> todo_event \<Rightarrow> todo_lists" where
  "todo_step m (TSet k v) = snd (setSessionTodos k v m)"
| "todo_step m (TClear k) = clearSessionTodos k m"

lemma set_is_put: "snd (setSessionTodos k v m) = jm_put MAX_TRACKED_TODO_SESSIONS k (normalizeSessionTodos v) m"
  by (simp add: setSessionTodos_def jm_put_def Let_def)

interpretation todo_store: bounded_store "jm_put MAX_TRACKED_TODO_SESSIONS" map_of length jm_wf MAX_TRACKED_TODO_SESSIONS
  using jm_put_store [of MAX_TRACKED_TODO_SESSIONS] by (simp add: MAX_TRACKED_TODO_SESSIONS_def)

lemma todos_kept:
  assumes "jm_kept k ts n m" "\<forall>e \<in> set es. todo_key e \<noteq> k" "n + length es < MAX_TRACKED_TODO_SESSIONS"
  shows "\<exists>n'. jm_kept k ts n' (foldl todo_step m es)"
  using assms
proof (induction es arbitrary: n m)
  case (Cons e es)
  have "jm_kept k ts (Suc n) (todo_step m e)"
    using Cons.prems by (cases e) (auto simp: set_is_put clearSessionTodos_def jm_kept_put intro: jm_kept_Suc jm_kept_delete)
  from Cons.IH [OF this] Cons.prems show ?case by simp
qed auto

text \<open>A session's todo list survives: every list a session holds is well formed whatever was written,
  with non-empty trimmed ids and non-empty contents, and writing back a well-formed list with distinct ids
  gives exactly that list, also after up to 255 operations of other sessions.\<close>

theorem todo_list_is_kept:
  assumes "\<forall>e \<in> set es. todo_key e \<noteq> k" and "length es < MAX_TRACKED_TODO_SESSIONS"
  shows "(\<forall>t \<in> set (getSessionTodos k (foldl todo_step (snd (setSessionTodos k v m)) es)). todo_ok t)
    \<and> getSessionTodos k (foldl todo_step (snd (setSessionTodos k v m)) es) = fst (setSessionTodos k v m)
    \<and> (\<forall>ts. v = JArray (map todo_json ts) \<longrightarrow> (\<forall>t \<in> set ts. todo_ok t) \<longrightarrow> distinct (map todo_id ts) \<longrightarrow>
         getSessionTodos k (foldl todo_step (snd (setSessionTodos k v m)) es) = ts)"
proof -
  have "jm_kept k (normalizeSessionTodos v) 0 (snd (setSessionTodos k v m))"
    unfolding set_is_put by (rule jm_kept_new) (simp add: MAX_TRACKED_TODO_SESSIONS_def)
  from todos_kept [OF this assms(1)] assms(2) obtain n
    where "jm_kept k (normalizeSessionTodos v) n (foldl todo_step (snd (setSessionTodos k v m)) es)" by auto
  then have get: "getSessionTodos k (foldl todo_step (snd (setSessionTodos k v m)) es) = normalizeSessionTodos v"
    by (simp add: getSessionTodos_def jm_kept_get)
  moreover have "fst (setSessionTodos k v m) = normalizeSessionTodos v"
    by (simp add: setSessionTodos_def getSessionTodos_def Let_def jm_get_evict_touch_same MAX_TRACKED_TODO_SESSIONS_def)
  moreover have "\<forall>t \<in> set (normalizeSessionTodos v). todo_ok t"
    using normalize_todos_ok [of "[]"] by (auto simp: normalizeSessionTodos_def split: option.splits)
  moreover have "normalizeSessionTodos (JArray (map todo_json ts)) = ts" if "\<forall>t \<in> set ts. todo_ok t" "distinct (map todo_id ts)" for ts
    using normalize_distinct [OF that, of "{}" "[]"] by (simp add: normalizeSessionTodos_def)
  ultimately show ?thesis by metis
qed

text \<open>The suffix given to a repeated id can itself be taken.\<close>

lemma suffixed_id_collides:
  "map todo_id (normalizeSessionTodos (JArray (map (\<lambda>i. JObject [(lit ''id'', JString i), (lit ''content'', JString (lit ''x''))])
     [lit ''a-3'', lit ''a'', lit ''a'']))) = [lit ''a-3'', lit ''a'', lit ''a-3'']"
  by code_simp

theorem todo_list_is_kept_witness:
  "getSessionTodos [1] (foldl todo_step (snd (setSessionTodos [1] (JArray (map todo_json [\<lparr>todo_id = [97], todo_content = [98],
       todo_status = Completed, todo_priority = Low\<rparr>])) [])) [TClear [2]])
     = [\<lparr>todo_id = [97], todo_content = [98], todo_status = Completed, todo_priority = Low\<rparr>]"
proof -
  have ok: "todo_ok \<lparr>todo_id = [97], todo_content = [98], todo_status = Completed, todo_priority = Low\<rparr>"
    by (simp add: todo_ok_def js_trim_def js_space_def)
  have "\<forall>e \<in> set [TClear [2]]. todo_key e \<noteq> [1]" "length [TClear [2]] < MAX_TRACKED_TODO_SESSIONS"
    by (simp_all add: MAX_TRACKED_TODO_SESSIONS_def)
  note kept = todo_list_is_kept [OF this, THEN conjunct2, THEN conjunct2, rule_format, OF refl]
  show ?thesis by (rule kept) (use ok in simp_all)
qed

end
