(* ===== verification/ExecArgs.thy ===== *)
theory ExecArgs
  imports ToolNames TodoStore ShellOutcome
begin

text \<open>
  Cursor's exec requests as calls of the host's tools (\<open>src/src/protocol/tools.ts\<close>,
  \<open>src/src/protocol/exec-variants.ts\<close>): which request variant is set, the tool it becomes, and the
  arguments rebuilt for that tool's schema. The parts of the platform the code calls are collected in a
  record of functions.
\<close>

section \<open>What the platform provides\<close>

text \<open>
  \<open>Number\<close> on a string, the conversion to a byte of \<open>Uint8Array.from\<close>, \<open>toLowerCase\<close>, \<open>new
  TextDecoder(label, { fatal: true })\<close> with the decoding, which are \<open>None\<close> where they throw, and the path
  of the shell \<open>resolveCursorShellPath\<close> finds in the file system.
\<close>

record platform =
  to_number :: "utf16 \<Rightarrow> 64 word"
  to_byte :: "64 word \<Rightarrow> byte"
  to_lower :: "utf16 \<Rightarrow> utf16"
  text_decoder :: "utf16 \<Rightarrow> (bytes \<Rightarrow> utf16 option) option"
  shell_path :: utf16

type_synonym tool_args = "(utf16 \<times> json) list"

text \<open>
  The fields of one request variant. Fields of type \<open>bytes\<close> are not JSON: \<open>file_bytes\<close> of a write is kept
  apart, and so are the entries of an MCP call's arguments, when they are an array.
\<close>

record raw_args =
  ra_fields :: tool_args
  ra_bytes :: "bytes option"
  ra_call :: mcp_call
  ra_entries :: "bytes list option"

section \<open>Values\<close>

definition fld :: "tool_args \<Rightarrow> string \<Rightarrow> json" where
  "fld as k = json_field (JObject as) (lit k)"

definition strf :: "tool_args \<Rightarrow> string \<Rightarrow> utf16 option" where
  "strf as k = nonempty_string (fld as k)"

definition numf :: "platform \<Rightarrow> tool_args \<Rightarrow> string \<Rightarrow> 64 word option" where
  "numf pl as k = num_of (to_number pl) (fld as k)"

text \<open>A member that is present only when there is a value.\<close>

definition opt :: "utf16 \<Rightarrow> ('a \<Rightarrow> json) \<Rightarrow> 'a option \<Rightarrow> tool_args" where
  "opt k f v = (case v of None \<Rightarrow> [] | Some x \<Rightarrow> [(k, f x)])"

text \<open>\<open>bytesValue\<close> of an array of numbers, for an MCP call.\<close>

definition bytes_of_array :: "platform \<Rightarrow> json \<Rightarrow> bytes option" where
  "bytes_of_array pl v =
     (case json_array v of None \<Rightarrow> None
      | Some vs \<Rightarrow>
          (if vs \<noteq> [] \<and> list_all (\<lambda>x. case x of JNumber _ \<Rightarrow> True | _ \<Rightarrow> False) vs
           then Some (map (\<lambda>x. case x of JNumber w \<Rightarrow> to_byte pl w | _ \<Rightarrow> 0) vs) else None))"

text \<open>\<open>/^utf-?(16|32)/\<close>\<close>

definition wide_text_encoding :: "utf16 \<Rightarrow> bool" where
  "wide_text_encoding label \<longleftrightarrow>
     list_ex (\<lambda>p. starts_with (lit p) label) [''utf-16'', ''utf-32'', ''utf16'', ''utf32'']"

definition decodeWriteBytes :: "platform \<Rightarrow> bytes \<Rightarrow> utf16 option \<Rightarrow> utf16 option" where
  "decodeWriteBytes pl bs hint =
     (let encoding = map_option (\<lambda>h. map (\<lambda>c. if c = 95 \<or> c = 32 then 45 else c) (to_lower pl (js_trim h))) hint;
          named = (case encoding of None \<Rightarrow> None
            | Some e \<Rightarrow> if e \<noteq> [] \<and> e \<noteq> lit ''utf-8'' \<and> e \<noteq> lit ''utf8'' then map_option (\<lambda>d. (e, d)) (text_decoder pl e) else None);
          (label, decode) = (case named of Some p \<Rightarrow> p | None \<Rightarrow> (lit ''utf-8'', textDecodeFatal))
      in if \<not> wide_text_encoding label \<and> (0::byte) \<in> set bs then None else decode bs)"

section \<open>Keys\<close>

definition CURSOR_INTERNAL_KEYS :: "utf16 list" where
  "CURSOR_INTERNAL_KEYS = map lit [''tool_call_id'', ''toolCallId'', ''exec_id'', ''span'', ''sandbox_policy'',
     ''requested_sandbox_policy'', ''smart_mode_approval'', ''smart_mode_approval_only'', ''skip_approval'', ''parsing_result'',
     ''classifier_result'', ''hook_approval_requirement'', ''conversation_id'', ''simple_commands'', ''has_input_redirect'',
     ''has_output_redirect'', ''is_background'', ''timeout_behavior'', ''hard_timeout'', ''close_stdin'', ''output_notification'',
     ''file_output_threshold_bytes'', ''return_file_content_after_write'', ''ignore'']"

definition PRESERVE_EMPTY_STRING_KEYS :: "utf16 list" where
  "PRESERVE_EMPTY_STRING_KEYS = map lit [''content'', ''file_text'', ''fileText'', ''stream_content'', ''input'', ''oldString'',
     ''old_string'', ''newString'', ''new_string'']"

definition clean_args :: "tool_args \<Rightarrow> tool_args" where
  "clean_args raw = filter (\<lambda>(k, v). v \<noteq> JUndefined \<and> v \<noteq> JNull \<and> k \<notin> set CURSOR_INTERNAL_KEYS
     \<and> \<not> (v = JString [] \<and> k \<notin> set PRESERVE_EMPTY_STRING_KEYS)) raw"

definition path_key_name :: "file_path_key \<Rightarrow> utf16" where
  "path_key_name k = (case k of PathKey \<Rightarrow> lit ''path'' | FilePathKey \<Rightarrow> lit ''filePath'')"

definition skill_key_name :: "skill_arg_key \<Rightarrow> utf16" where
  "skill_key_name k = (case k of NameKey \<Rightarrow> lit ''name'' | IdKey \<Rightarrow> lit ''id'')"

text \<open>\<open>assignHostFilePath\<close> on fresh arguments, and \<open>copyShellCommand\<close>.\<close>

definition host_path :: "tool_dialect \<Rightarrow> utf16 option \<Rightarrow> tool_args" where
  "host_path dialect p = opt (path_key_name (filePathKey dialect)) JString p"

definition shell_command :: "tool_args \<Rightarrow> tool_args" where
  "shell_command cleaned = opt (lit ''command'') JString (strf cleaned ''command'')"

text \<open>\<open>shellQuote\<close>\<close>

definition shell_quote :: "utf16 \<Rightarrow> utf16" where
  "shell_quote s = [39] @ concat (map (\<lambda>c. if c = 39 then [39, 92, 39, 39] else [c]) s) @ [39]"

text \<open>\<open>buildBackgroundShellCommand\<close> of \<open>src/src/shell-timeout.ts\<close>\<close>

definition buildBackgroundShellCommand :: "utf16 \<Rightarrow> utf16 \<Rightarrow> utf16" where
  "buildBackgroundShellCommand shell command = join_nl
    [lit ''cursor_payload_shell='' @ shell_quote shell,
     lit ''[ -z \"$CURSOR_SHELL_EXECUTABLE\" ] || cursor_payload_shell=\"$CURSOR_SHELL_EXECUTABLE\"'',
     lit ''bg_log=\"$(mktemp \"${TMPDIR:-/tmp}/cursor-opencode-bg.XXXXXX\")\" || exit 1'',
     lit ''nohup \"$cursor_payload_shell\" -c '' @ shell_quote command @ lit '' >\"$bg_log\" 2>&1 </dev/null &'',
     lit ''bg_pid=$!'',
     lit ''printf '' @ [39] @ BACKGROUND_SHELL_MARKER @ lit ''%s:%s'' @ [92] @ lit ''n'' @ [39] @ lit '' \"$bg_pid\" \"$bg_log\"'']"

text \<open>A title cut at 60 code units.\<close>

definition run_description :: "utf16 \<Rightarrow> utf16" where
  "run_description command = lit ''Run: '' @ (if length command > 60 then take 57 command @ lit ''...'' else command)"

definition HEADER_MAX_LENGTH :: nat where "HEADER_MAX_LENGTH = 30"

definition questionHeader :: "utf16 \<Rightarrow> utf16" where
  "questionHeader title =
     (let trimmed = js_trim title in
      if trimmed = [] then lit ''Question''
      else if length trimmed > HEADER_MAX_LENGTH
        then rev (dropWhile js_space (rev (take (HEADER_MAX_LENGTH - 1) trimmed))) @ [0x2026]
      else trimmed)"

definition question_option :: "json \<Rightarrow> json" where
  "question_option v = (if is_object v then JObject (default_member (lit ''description'') (JString []) (json_entries v)) else v)"

definition question_item :: "json \<Rightarrow> json" where
  "question_item v =
     (if \<not> is_object v then v
      else let q = json_entries v;
               text_member = (\<lambda>k. case string_of (fld q k) of None \<Rightarrow> [] | Some t \<Rightarrow> t);
               existing = js_trim (text_member ''header'');
               options = (case json_array (fld q ''options'') of None \<Rightarrow> fld q ''options'' | Some vs \<Rightarrow> JArray (map question_option vs))
           in JObject (AList.update (lit ''options'') options
                (AList.update (lit ''header'') (JString (questionHeader (if existing \<noteq> [] then existing else text_member ''question''))) q)))"

definition normalizeOpencodeQuestionArgs :: "tool_args \<Rightarrow> tool_args" where
  "normalizeOpencodeQuestionArgs as =
     (case json_array (fld as ''questions'') of None \<Rightarrow> as
      | Some items \<Rightarrow> AList.update (lit ''questions'') (JArray (map question_item items)) as)"

section \<open>Arguments per tool\<close>

record mapped_call =
  mp_toolName :: utf16
  mp_args :: tool_args
  mp_binary :: "bytes option"

definition plain_call :: "utf16 \<Rightarrow> tool_args \<Rightarrow> mapped_call" where
  "plain_call t as = \<lparr>mp_toolName = t, mp_args = as, mp_binary = None\<rparr>"

definition file_path_of :: "tool_args \<Rightarrow> utf16 option" where
  "file_path_of c = or_else (strf c ''filePath'') (or_else (strf c ''path'') (strf c ''file_path''))"

definition read_call :: "platform \<Rightarrow> tool_dialect \<Rightarrow> tool_args \<Rightarrow> mapped_call" where
  "read_call pl dialect c =
     (let positive = (\<lambda>k. case numf pl c k of Some w \<Rightarrow> if number_positive w then Some w else None | None \<Rightarrow> None)
      in plain_call (lit ''read'') (host_path dialect (file_path_of c)
           @ opt (lit ''offset'') JNumber (positive ''offset'') @ opt (lit ''limit'') JNumber (positive ''limit'') @ shell_command c))"

definition write_content :: "tool_args \<Rightarrow> utf16 option" where
  "write_content c = or_else (string_of (fld c ''content'')) (or_else (string_of (fld c ''file_text''))
     (or_else (string_of (fld c ''fileText'')) (or_else (string_of (fld c ''contents'')) (string_of (fld c ''text'')))))"

definition write_call :: "platform \<Rightarrow> tool_dialect \<Rightarrow> bytes option \<Rightarrow> tool_args \<Rightarrow> mapped_call" where
  "write_call pl dialect bs c =
     (let file_bytes = or_else (case bs of Some b \<Rightarrow> if b = [] then None else Some b | None \<Rightarrow> None)
            (or_else (bytes_of_array pl (fld c ''file_bytes'')) (bytes_of_array pl (fld c ''fileBytes'')));
          p = host_path dialect (file_path_of c)
      in case file_bytes of
          Some b \<Rightarrow>
            (case decodeWriteBytes pl b (or_else (strf c ''encoding_hint'') (strf c ''encodingHint'')) of
               None \<Rightarrow> \<lparr>mp_toolName = lit ''write'', mp_args = p @ shell_command c, mp_binary = Some b\<rparr>
             | Some content \<Rightarrow> plain_call (lit ''write'') (p @ [(lit ''content'', JString content)] @ shell_command c))
        | None \<Rightarrow> plain_call (lit ''write'') (p @ opt (lit ''content'') JString (write_content c) @ shell_command c))"

definition edit_call :: "tool_dialect \<Rightarrow> tool_args \<Rightarrow> mapped_call" where
  "edit_call dialect c =
     (case string_of (fld c ''input'') of
        Some i \<Rightarrow> plain_call (lit ''edit'') ([(lit ''input'', JString i)] @ shell_command c)
      | None \<Rightarrow> plain_call (lit ''edit'') (host_path dialect (file_path_of c)
          @ opt (lit ''oldString'') JString (or_else (string_of (fld c ''oldString'')) (string_of (fld c ''old_string'')))
          @ opt (lit ''newString'') JString (or_else (string_of (fld c ''newString'')) (string_of (fld c ''new_string'')))
          @ (case fld c ''replaceAll'' of JBoolean b \<Rightarrow> [(lit ''replaceAll'', JBoolean b)] | _ \<Rightarrow> [])
          @ shell_command c))"

definition shell_call :: "platform \<Rightarrow> tool_dialect \<Rightarrow> tool_args \<Rightarrow> mapped_call" where
  "shell_call pl dialect c =
     (let command = strf c ''command'';
          description = (case shellDescription dialect of None \<Rightarrow> None
            | Some d \<Rightarrow> or_else (strf c ''description'')
                (if d = RequiredDescription then map_option run_description command else None))
      in plain_call (shell_name (shellTool dialect)) (opt (lit ''command'') JString command @ opt (lit ''description'') JString description
           @ opt (lit ''workdir'') JString (or_else (strf c ''workdir'') (strf c ''working_directory''))
           @ opt (lit ''timeout'') JNumber (numf pl c ''timeout'')
           @ (if fld c ''background'' = JBoolean True then [(lit ''background'', JBoolean True)] else [])))"

definition grep_call :: "tool_args \<Rightarrow> mapped_call" where
  "grep_call c =
     (let pattern = strf c ''pattern''; p = opt (lit ''path'') JString (strf c ''path''); inc = or_else (strf c ''include'') (strf c ''glob'')
      in if pattern = None \<and> strf c ''command'' = None
         then plain_call (lit ''glob'') ([(lit ''pattern'', JString (case inc of Some i \<Rightarrow> i | None \<Rightarrow> lit ''**/*''))] @ p)
         else plain_call (lit ''grep'') (opt (lit ''pattern'') JString pattern @ p
           @ (if pattern = None then [] else opt (lit ''include'') JString inc) @ shell_command c))"

definition glob_call :: "tool_args \<Rightarrow> mapped_call" where
  "glob_call c = plain_call (lit ''glob'')
     (opt (lit ''pattern'') JString (or_else (strf c ''pattern'') (or_else (strf c ''glob_pattern'') (strf c ''globPattern'')))
      @ opt (lit ''path'') JString (or_else (strf c ''path'') (or_else (strf c ''target_directory'') (strf c ''targetDirectory'')))
      @ shell_command c)"

definition skill_call :: "tool_dialect \<Rightarrow> tool_args \<Rightarrow> mapped_call" where
  "skill_call dialect c =
     (let key = skill_key_name (skillArgKey dialect);
          v = or_else (nonempty_string (json_field (JObject c) key)) (or_else (strf c ''id'') (strf c ''name''))
      in plain_call (lit ''skill'') ((filter (\<lambda>(k, _). k \<noteq> lit ''id'' \<and> k \<noteq> lit ''name'') c) @ opt key JString v))"

definition map_tool :: "platform \<Rightarrow> tool_dialect \<Rightarrow> bytes option \<Rightarrow> utf16 \<Rightarrow> tool_args \<Rightarrow> mapped_call" where
  "map_tool pl dialect bs toolName c =
     (if toolName = lit ''read'' then read_call pl dialect c
      else if toolName = lit ''write'' then write_call pl dialect bs c
      else if toolName = lit ''edit'' then edit_call dialect c
      else if toolName = lit ''bash'' \<or> toolName = lit ''shell'' then shell_call pl dialect c
      else if toolName = lit ''grep'' then grep_call c
      else if toolName = lit ''glob'' then glob_call c
      else if toolName = lit ''skill'' then skill_call dialect c
      else if toolName = lit ''todowrite'' then plain_call toolName (normalizeOpencodeTodoArgs c)
      else if toolName = lit ''question'' then plain_call toolName (normalizeOpencodeQuestionArgs c)
      else plain_call toolName c)"

text \<open>\<open>mapCursorArgsToOpencode\<close>; a delete becomes a shell command, a listing a read.\<close>

datatype exec_variant = ReadArgs | WriteArgs | PiReadArgs | PiBashArgs | PiEditArgs | PiWriteArgs | PiGrepArgs | PiFindArgs | PiLsArgs
  | GrepArgs | LsArgs | DeleteArgs | ShellArgs | ShellStreamArgs | BackgroundShellSpawnArgs | McpArgs | SubagentArgs

definition mapCursorArgsToOpencode :: "platform \<Rightarrow> tool_dialect \<Rightarrow> bytes option \<Rightarrow> utf16 \<Rightarrow> tool_args \<Rightarrow> exec_variant option \<Rightarrow> mapped_call" where
  "mapCursorArgsToOpencode pl dialect bs toolName raw variant =
     (let c = clean_args raw in
      if variant = Some LsArgs then plain_call (lit ''read'') (host_path dialect (or_else (strf c ''path'') (strf c ''filePath'')) @ shell_command c)
      else if variant = Some DeleteArgs then
        shell_call pl dialect (clean_args [(lit ''command'', JString (case or_else (strf c ''path'') (strf c ''filePath'') of
            Some target \<Rightarrow> lit ''rm -f -- '' @ shell_quote target | None \<Rightarrow> lit ''true''))])
      else map_tool pl dialect bs toolName c)"

section \<open>Requests\<close>

definition request_name :: "exec_variant \<Rightarrow> string" where
  "request_name v = (case v of ReadArgs \<Rightarrow> ''read_args'' | WriteArgs \<Rightarrow> ''write_args'' | PiReadArgs \<Rightarrow> ''pi_read_args''
     | PiBashArgs \<Rightarrow> ''pi_bash_args'' | PiEditArgs \<Rightarrow> ''pi_edit_args'' | PiWriteArgs \<Rightarrow> ''pi_write_args'' | PiGrepArgs \<Rightarrow> ''pi_grep_args''
     | PiFindArgs \<Rightarrow> ''pi_find_args'' | PiLsArgs \<Rightarrow> ''pi_ls_args'' | GrepArgs \<Rightarrow> ''grep_args'' | LsArgs \<Rightarrow> ''ls_args''
     | DeleteArgs \<Rightarrow> ''delete_args'' | ShellArgs \<Rightarrow> ''shell_args'' | ShellStreamArgs \<Rightarrow> ''shell_stream_args''
     | BackgroundShellSpawnArgs \<Rightarrow> ''background_shell_spawn_args'' | McpArgs \<Rightarrow> ''mcp_args'' | SubagentArgs \<Rightarrow> ''subagent_args'')"

text \<open>The order in which \<open>parseExecServerMessage\<close> looks for the variant that is set.\<close>

definition candidates :: "exec_variant list" where
  "candidates = [ReadArgs, WriteArgs, PiReadArgs, PiBashArgs, PiEditArgs, PiWriteArgs, PiGrepArgs, PiFindArgs, PiLsArgs,
     GrepArgs, LsArgs, DeleteArgs, ShellArgs, ShellStreamArgs, BackgroundShellSpawnArgs, McpArgs, SubagentArgs]"

definition findOneOfVariant :: "(exec_variant \<times> raw_args) list \<Rightarrow> exec_variant option" where
  "findOneOfVariant msg = find (\<lambda>v. map_of msg v \<noteq> None) candidates"

datatype exec_handling = OpencodeTool | ProviderControl | Unsupported

record variant_row =
  vr_requestField :: nat
  vr_requestName :: string
  vr_resultField :: nat
  vr_resultName :: string
  vr_handling :: exec_handling

definition row :: "nat \<Rightarrow> string \<Rightarrow> nat \<Rightarrow> string \<Rightarrow> exec_handling \<Rightarrow> variant_row" where
  "row a q b r h = \<lparr>vr_requestField = a, vr_requestName = q, vr_resultField = b, vr_resultName = r, vr_handling = h\<rparr>"

definition CURSOR_EXEC_VARIANTS :: "variant_row list" where
  "CURSOR_EXEC_VARIANTS =
    [row 2 ''shell_args'' 2 ''shell_result'' OpencodeTool, row 3 ''write_args'' 3 ''write_result'' OpencodeTool,
     row 4 ''delete_args'' 4 ''delete_result'' OpencodeTool, row 5 ''grep_args'' 5 ''grep_result'' OpencodeTool,
     row 7 ''read_args'' 7 ''read_result'' OpencodeTool, row 8 ''ls_args'' 8 ''ls_result'' OpencodeTool,
     row 9 ''diagnostics_args'' 9 ''diagnostics_result'' Unsupported,
     row 10 ''request_context_args'' 10 ''request_context_result'' ProviderControl,
     row 11 ''mcp_args'' 11 ''mcp_result'' OpencodeTool, row 14 ''shell_stream_args'' 14 ''shell_stream'' OpencodeTool,
     row 16 ''background_shell_spawn_args'' 16 ''background_shell_spawn_result'' OpencodeTool,
     row 17 ''list_mcp_resources_exec_args'' 17 ''list_mcp_resources_exec_result'' ProviderControl,
     row 18 ''read_mcp_resource_exec_args'' 18 ''read_mcp_resource_exec_result'' ProviderControl,
     row 20 ''fetch_args'' 20 ''fetch_result'' Unsupported, row 21 ''record_screen_args'' 21 ''record_screen_result'' Unsupported,
     row 22 ''computer_use_args'' 22 ''computer_use_result'' Unsupported,
     row 23 ''write_shell_stdin_args'' 23 ''write_shell_stdin_result'' Unsupported,
     row 27 ''execute_hook_args'' 27 ''execute_hook_result'' Unsupported, row 28 ''subagent_args'' 28 ''subagent_result'' OpencodeTool,
     row 29 ''redacted_read_args'' 29 ''redacted_read_result'' Unsupported,
     row 30 ''force_background_shell_args'' 30 ''force_background_shell_result'' Unsupported,
     row 31 ''force_background_subagent_args'' 31 ''force_background_subagent_result'' Unsupported,
     row 36 ''mcp_state_exec_args'' 36 ''mcp_state_exec_result'' ProviderControl,
     row 37 ''subagent_await_args'' 37 ''subagent_await_result'' Unsupported,
     row 38 ''smart_mode_classifier_args'' 38 ''smart_mode_classifier_result'' Unsupported,
     row 40 ''canvas_diagnostics_args'' 40 ''canvas_diagnostics_result'' Unsupported,
     row 41 ''shell_allowlist_precheck_args'' 41 ''shell_allowlist_precheck_result'' Unsupported,
     row 42 ''mcp_allowlist_precheck_args'' 42 ''mcp_allowlist_precheck_result'' Unsupported,
     row 43 ''web_fetch_allowlist_precheck_args'' 43 ''web_fetch_allowlist_precheck_result'' Unsupported,
     row 44 ''git_diff_request'' 44 ''git_diff_response'' ProviderControl,
     row 45 ''pi_read_args'' 46 ''pi_read_result'' OpencodeTool, row 46 ''pi_bash_args'' 47 ''pi_bash_result'' OpencodeTool,
     row 47 ''pi_edit_args'' 48 ''pi_edit_result'' OpencodeTool, row 48 ''pi_write_args'' 49 ''pi_write_result'' OpencodeTool,
     row 49 ''pi_grep_args'' 50 ''pi_grep_result'' OpencodeTool, row 50 ''pi_find_args'' 51 ''pi_find_result'' OpencodeTool,
     row 51 ''pi_ls_args'' 52 ''pi_ls_result'' OpencodeTool,
     row 52 ''mini_swe_agent_bash_args'' 55 ''mini_swe_agent_bash_result'' Unsupported,
     row 53 ''conversation_search_args'' 53 ''conversation_search_result'' Unsupported,
     row 54 ''agent_store_conflict_args'' 54 ''agent_store_conflict_result'' Unsupported,
     row 56 ''adopt_args'' 56 ''adopt_result'' Unsupported]"

definition cursorExecVariantByRequestField :: "nat \<Rightarrow> variant_row option" where
  "cursorExecVariantByRequestField f = find (\<lambda>r. vr_requestField r = f) CURSOR_EXEC_VARIANTS"

definition cursorExecVariantByRequestName :: "string \<Rightarrow> variant_row option" where
  "cursorExecVariantByRequestName n = find (\<lambda>r. vr_requestName r = n) CURSOR_EXEC_VARIANTS"

definition isExecRequestWithoutNewCall :: "nat option \<Rightarrow> bool" where
  "isExecRequestWithoutNewCall f \<longleftrightarrow> f \<in> {Some 10, Some 30, Some 31, Some 36}"

definition tool_of_variant :: "exec_variant \<Rightarrow> utf16" where
  "tool_of_variant v = lit (case v of ReadArgs \<Rightarrow> ''read'' | WriteArgs \<Rightarrow> ''write'' | PiReadArgs \<Rightarrow> ''read'' | PiBashArgs \<Rightarrow> ''bash''
     | PiEditArgs \<Rightarrow> ''edit'' | PiWriteArgs \<Rightarrow> ''write'' | PiGrepArgs \<Rightarrow> ''grep'' | PiFindArgs \<Rightarrow> ''glob'' | PiLsArgs \<Rightarrow> ''read''
     | GrepArgs \<Rightarrow> ''grep'' | LsArgs \<Rightarrow> ''read'' | DeleteArgs \<Rightarrow> ''bash'' | ShellArgs \<Rightarrow> ''bash'' | ShellStreamArgs \<Rightarrow> ''bash''
     | BackgroundShellSpawnArgs \<Rightarrow> ''bash'' | McpArgs \<Rightarrow> ''mcp'' | SubagentArgs \<Rightarrow> ''task'')"

text \<open>\<open>mapCursorSubagentTypeToOpenCode\<close>\<close>

definition explore_types :: "utf16 list" where
  "explore_types = map lit [''cursor-guide'', ''cursor_guide'', ''explore'', ''bugbot'', ''security-review'', ''security_review'']"

definition general_types :: "utf16 list" where
  "general_types = map lit [''generalPurpose'', ''general-purpose'', ''general_purpose'', ''general'', ''unspecified'', ''best-of-n-runner'',
     ''best_of_n_runner'', ''bash'', ''shell'', ''debug'', ''computer_use'', ''computerUse'', ''browser_use'', ''browserUse'',
     ''media_review'', ''mediaReview'', ''watch_video'', ''watchVideo'', ''vm_setup_helper'', ''vmSetupHelper'']"

definition mapCursorSubagentTypeToOpenCode :: "utf16 \<Rightarrow> utf16" where
  "mapCursorSubagentTypeToOpenCode t =
     (if t \<in> set explore_types then lit ''explore'' else if t \<in> set general_types then lit ''general'' else t)"

text \<open>The words between white space.\<close>

fun words_of :: "utf16 \<Rightarrow> utf16 \<Rightarrow> utf16 list" where
  "words_of acc [] = (if acc = [] then [] else [acc])"
| "words_of acc (c # cs) = (if js_space c then (if acc = [] then words_of [] cs else acc # words_of [] cs) else words_of (acc @ [c]) cs)"

fun join_spaces :: "utf16 list \<Rightarrow> utf16" where
  "join_spaces [] = []"
| "join_spaces [w] = w"
| "join_spaces (w # ws) = w @ [32] @ join_spaces ws"

definition describeSubagentTask :: "utf16 option \<Rightarrow> utf16 option \<Rightarrow> utf16" where
  "describeSubagentTask prompt subagentType =
     (let ws = (case prompt of None \<Rightarrow> [] | Some p \<Rightarrow> take 5 (words_of [] p))
      in if ws \<noteq> [] then join_spaces ws
         else (case subagentType of Some t \<Rightarrow> if t = [] then lit ''Delegated'' else t | None \<Rightarrow> lit ''Delegated'') @ lit '' task'')"

datatype exec_error = InteractiveShell | MissingCommand | MissingSubagentFields | PiEditShape

record exec_request =
  xr_id :: int
  xr_execId :: utf16
  xr_toolName :: utf16
  xr_args :: tool_args
  xr_resultField :: string
  xr_localError :: "exec_error option"
  xr_metadata :: "tool_args option"
  xr_binary :: "bytes option"

record exec_message =
  em_id :: "int option"
  em_execId :: utf16
  em_variants :: "(exec_variant \<times> raw_args) list"

definition number_30000 :: "64 word" where "number_30000 = 0x40DD4C0000000000"
definition number_2 :: "64 word" where "number_2 = 0x4000000000000000"

text \<open>Zero of either sign.\<close>

definition number_zero :: "64 word \<Rightarrow> bool" where
  "number_zero w \<longleftrightarrow> w = 0 \<or> unat w = 2 ^ 63"

definition shellStreamResultMetadata :: "platform \<Rightarrow> tool_args \<Rightarrow> tool_args" where
  "shellStreamResultMetadata pl raw =
     (let timeout = (case numf pl raw ''timeout'' of Some w \<Rightarrow> w | None \<Rightarrow> 0);
          behavior = (case numf pl raw ''timeout_behavior'' of Some w \<Rightarrow> w | None \<Rightarrow> 0);
          hard = (case numf pl raw ''hard_timeout'' of Some w \<Rightarrow> if number_positive w then Some w else None | None \<Rightarrow> None);
          effective = (if \<not> number_zero timeout then timeout else if behavior = number_2 \<or> hard \<noteq> None then 0 else number_30000);
          text_or_empty = (\<lambda>k. JString (case strf raw k of Some s \<Rightarrow> s | None \<Rightarrow> []))
      in [(lit ''shell_stream'', JBoolean True), (lit ''command'', text_or_empty ''command'')]
         @ opt (lit ''description'') JString (strf raw ''description'')
         @ [(lit ''working_directory'', text_or_empty ''working_directory''), (lit ''timeout_ms'', JNumber effective), (lit ''timeout_behavior'', JNumber behavior)]
         @ opt (lit ''hard_timeout_ms'') JNumber hard)"

definition requested_path :: "tool_args \<Rightarrow> tool_args \<Rightarrow> utf16 option" where
  "requested_path raw mapped =
     or_else (strf raw ''path'') (or_else (strf raw ''filePath'') (or_else (strf raw ''file_path'') (file_path_of mapped)))"

definition number_member :: "tool_args \<Rightarrow> string \<Rightarrow> tool_args" where
  "number_member as k = (case fld as k of JNumber w \<Rightarrow> [(lit k, JNumber w)] | _ \<Rightarrow> [])"

definition readRequestResultMetadata :: "tool_args \<Rightarrow> tool_args \<Rightarrow> tool_args" where
  "readRequestResultMetadata raw mapped =
     [(lit ''path'', JString (case requested_path raw mapped of Some p \<Rightarrow> p | None \<Rightarrow> []))] @ number_member mapped ''offset'' @ number_member mapped ''limit''"

definition writeRequestResultMetadata :: "tool_args \<Rightarrow> tool_args \<Rightarrow> tool_args option" where
  "writeRequestResultMetadata raw mapped = map_option (\<lambda>p. [(lit ''path'', JString p)]) (requested_path raw mapped)"

definition grepRequestResultMetadata :: "tool_args \<Rightarrow> tool_args option" where
  "grepRequestResultMetadata raw =
     (let m = opt (lit ''pattern'') JString (strf raw ''pattern'') @ opt (lit ''output_mode'') JString (strf raw ''output_mode'')
                @ opt (lit ''path'') JString (strf raw ''path'')
      in if m = [] then None else Some m)"

text \<open>\<open>decodeMcpArgs\<close>: what cannot be decoded, or is not an array, is no arguments.\<close>

definition decodeMcpArgs :: "bytes list option \<Rightarrow> tool_args" where
  "decodeMcpArgs entries = (case entries of None \<Rightarrow> []
     | Some es \<Rightarrow> (case decodeStructEntriesToJson es of Some (JObject kvs) \<Rightarrow> kvs | _ \<Rightarrow> []))"

definition background_request :: "platform \<Rightarrow> tool_dialect \<Rightarrow> exec_request \<Rightarrow> tool_args \<Rightarrow> exec_request" where
  "background_request pl dialect base raw =
     (let command = strf raw ''command''; workdir = strf raw ''working_directory''; text_of = (\<lambda>v. JString (case v of Some s \<Rightarrow> s | None \<Rightarrow> []))
      in base\<lparr>xr_toolName := shell_name (shellTool dialect),
        xr_args := opt (lit ''command'') JString (map_option (buildBackgroundShellCommand (shell_path pl)) command) @ opt (lit ''workdir'') JString workdir,
        xr_metadata := Some ([(lit ''background_shell_spawn'', JBoolean True), (lit ''command'', text_of command),
            (lit ''working_directory'', text_of workdir)] @ opt (lit ''description'') JString (strf raw ''description'')),
        xr_localError := (if fld raw ''enable_write_shell_stdin_tool'' = JBoolean True then Some InteractiveShell
          else if command \<noteq> None then None else Some MissingCommand)\<rparr>)"

definition subagent_request :: "exec_request \<Rightarrow> tool_args \<Rightarrow> exec_request" where
  "subagent_request base raw =
     (let prompt = strf raw ''prompt''; cursorType = strf raw ''subagent_type'';
          subagentType = map_option mapCursorSubagentTypeToOpenCode cursorType
      in base\<lparr>xr_toolName := lit ''task'',
        xr_args := [(lit ''description'', JString (describeSubagentTask prompt subagentType)),
            (lit ''prompt'', JString (case prompt of Some p \<Rightarrow> p | None \<Rightarrow> [])),
            (lit ''subagent_type'', JString (case subagentType of Some t \<Rightarrow> t | None \<Rightarrow> []))]
          @ opt (lit ''task_id'') JString (strf raw ''resume_agent_id'')
          @ (if fld raw ''run_in_background'' = JBoolean True then [(lit ''background'', JBoolean True)] else []),
        xr_metadata := map_option (\<lambda>t. [(lit ''cursor_subagent_type'', JString t)]) cursorType,
        xr_localError := (if prompt \<noteq> None \<and> cursorType \<noteq> None then None else Some MissingSubagentFields)\<rparr>)"

definition mcp_request :: "platform \<Rightarrow> tool_dialect \<Rightarrow> exec_request \<Rightarrow> raw_args \<Rightarrow> exec_request" where
  "mcp_request pl dialect base raw =
     (let rawArgs = decodeMcpArgs (ra_entries raw);
          m = mapCursorArgsToOpencode pl dialect None (mcpRealToolName (ra_call raw) opencode) rawArgs (Some McpArgs)
      in base\<lparr>xr_toolName := mp_toolName m, xr_args := mp_args m,
        xr_metadata := (if mp_toolName m = lit ''read'' then Some (readRequestResultMetadata rawArgs (mp_args m)) else None)\<rparr>)"

definition pi_edit_request :: "tool_dialect \<Rightarrow> exec_request \<Rightarrow> tool_args \<Rightarrow> exec_request" where
  "pi_edit_request dialect base raw =
     (let replacement = (case json_array (fld raw ''edits'') of Some [e] \<Rightarrow> e | _ \<Rightarrow> JUndefined);
          p = strf raw ''path'';
          oldString = string_of (json_field replacement (lit ''old_text''));
          newString = string_of (json_field replacement (lit ''new_text''))
      in base\<lparr>xr_toolName := lit ''edit'',
        xr_args := host_path dialect p @ opt (lit ''oldString'') JString oldString @ opt (lit ''newString'') JString newString,
        xr_localError := (if p \<noteq> None \<and> oldString \<noteq> None \<and> oldString \<noteq> Some [] \<and> newString \<noteq> None then None else Some PiEditShape)\<rparr>)"

definition native_metadata :: "platform \<Rightarrow> exec_variant \<Rightarrow> tool_args \<Rightarrow> tool_args \<Rightarrow> tool_args option" where
  "native_metadata pl v raw mapped =
     (case v of
        ShellStreamArgs \<Rightarrow> Some (shellStreamResultMetadata pl raw)
      | ShellArgs \<Rightarrow> Some (shellStreamResultMetadata pl raw)
      | ReadArgs \<Rightarrow> Some (readRequestResultMetadata raw mapped)
      | PiReadArgs \<Rightarrow> Some (readRequestResultMetadata raw mapped)
      | WriteArgs \<Rightarrow> writeRequestResultMetadata raw mapped
      | PiWriteArgs \<Rightarrow> writeRequestResultMetadata raw mapped
      | GrepArgs \<Rightarrow> grepRequestResultMetadata raw
      | DeleteArgs \<Rightarrow> Some [(lit ''path'', JString (case strf raw ''path'' of Some p \<Rightarrow> p | None \<Rightarrow> []))]
      | LsArgs \<Rightarrow> Some [(lit ''path'', JString (case strf raw ''path'' of Some p \<Rightarrow> p | None \<Rightarrow> []))]
      | _ \<Rightarrow> None)"

definition native_request :: "platform \<Rightarrow> tool_dialect \<Rightarrow> exec_request \<Rightarrow> exec_variant \<Rightarrow> raw_args \<Rightarrow> exec_request" where
  "native_request pl dialect base v raw =
     (let m = mapCursorArgsToOpencode pl dialect (ra_bytes raw) (tool_of_variant v) (ra_fields raw) (Some v);
          meta = native_metadata pl v (ra_fields raw) (mp_args m);
          as = (case meta of None \<Rightarrow> mp_args m
                | Some ms \<Rightarrow> (case fld ms ''timeout_ms'' of
                      JNumber t \<Rightarrow> if fld ms ''timeout_behavior'' \<noteq> JNumber number_2 then AList.update (lit ''timeout'') (JNumber t) (mp_args m) else mp_args m
                    | _ \<Rightarrow> mp_args m));
          binary_path = JString (case or_else (strf (ra_fields raw) ''path'') (strf (ra_fields raw) ''file_path'') of Some p \<Rightarrow> p | None \<Rightarrow> [])
      in base\<lparr>xr_toolName := mp_toolName m, xr_args := as, xr_binary := mp_binary m,
        xr_metadata := (if mp_binary m \<noteq> None then Some (AList.update (lit ''path'') binary_path (case meta of Some ms \<Rightarrow> ms | None \<Rightarrow> [])) else meta)\<rparr>)"

definition parseExecServerMessage :: "platform \<Rightarrow> tool_dialect \<Rightarrow> exec_message \<Rightarrow> exec_request option" where
  "parseExecServerMessage pl dialect msg =
     (case em_id msg of None \<Rightarrow> None
      | Some i \<Rightarrow>
          (case findOneOfVariant (em_variants msg) of None \<Rightarrow> None
           | Some v \<Rightarrow>
               (case cursorExecVariantByRequestName (request_name v) of None \<Rightarrow> None
                | Some r \<Rightarrow>
                    (let raw = the (map_of (em_variants msg) v);
                         base = \<lparr>xr_id = i, xr_execId = em_execId msg, xr_toolName = [], xr_args = [], xr_resultField = vr_resultName r,
                           xr_localError = None, xr_metadata = None, xr_binary = None\<rparr>
                     in Some (case v of
                         BackgroundShellSpawnArgs \<Rightarrow> background_request pl dialect base (ra_fields raw)
                       | SubagentArgs \<Rightarrow> subagent_request base (ra_fields raw)
                       | McpArgs \<Rightarrow> mcp_request pl dialect base raw
                       | PiEditArgs \<Rightarrow> pi_edit_request dialect base (ra_fields raw)
                       | _ \<Rightarrow> native_request pl dialect base v raw)))))"

end
