(* ===== verification/ExecCalls.thy ===== *)
theory ExecCalls
  imports ExecArgs
begin

text \<open>
  What becomes of an exec request of Cursor (\<open>src/src/protocol/tools.ts\<close>): the tool call a request asks
  for, read off its fields; how the host reads the call it is given, by the names its dialect has; and that
  the two agree. The last part is the shell word a delete is rewritten to.
\<close>

section \<open>Members\<close>

lemma lit_inject: "lit a = lit b \<longleftrightarrow> a = b"
proof -
  have "inj (\<lambda>c. of_nat (of_char c) :: 16 word)"
  proof (rule injI)
    fix x y :: char assume eq: "(of_nat (of_char x) :: 16 word) = of_nat (of_char y)"
    have less: "(of_char z :: nat) < 2 ^ 16" for z :: char
    proof -
      have "(of_char z :: nat) mod 256 < 256" by (rule mod_less_divisor) simp
      then have "(of_char z :: nat) < 256" unfolding of_char_mod_256 .
      then show ?thesis by (rule less_trans) simp
    qed
    have "unat (of_nat (of_char z) :: 16 word) = of_char z" for z :: char
    proof -
      have "(of_char z :: nat) mod 2 ^ LENGTH(16) = of_char z" using less [of z] by (intro mod_less) (simp del: of_char_mod_256)
      then show ?thesis by (simp only: unat_of_nat)
    qed
    then have "(of_char x :: nat) = of_char y" using eq by metis
    then show "x = y" by simp
  qed
  then show ?thesis by (simp add: lit_def inj_map_eq_map)
qed




lemma keys_opt: "k \<in> fst ` set (opt k' f v) \<longleftrightarrow> k = k' \<and> v \<noteq> None"
  by (cases v) (simp_all add: opt_def)

lemma notin_opt: "k \<noteq> k' \<Longrightarrow> k \<notin> fst ` set (opt k' f v)"
  by (simp add: keys_opt)

lemma notin_app: "k \<notin> fst ` set as \<Longrightarrow> k \<notin> fst ` set bs \<Longrightarrow> k \<notin> fst ` set (as @ bs)"
  by auto

lemma flag_opt: "(if b then [(k, JBoolean True)] else []) = opt k JBoolean (if b then Some True else None)"
  by (simp add: opt_def)

section \<open>The call a request asks for\<close>



definition silent :: "tool_args \<Rightarrow> string list \<Rightarrow> bool" where
  "silent f ks \<longleftrightarrow> (\<forall>k \<in> set ks. fld f k = JUndefined)"











section \<open>The call the host reads\<close>


definition only :: "tool_args \<Rightarrow> utf16 list \<Rightarrow> bool" where
  "only as ks \<longleftrightarrow> distinct (map fst as) \<and> fst ` set as \<subseteq> set ks"



section \<open>Cleaning keeps what is said\<close>














section \<open>Reading the fields\<close>












lemma no_command: "silent c (k # ks) \<Longrightarrow> fld c k = JUndefined" "silent c (k # ks) \<Longrightarrow> silent c ks"
  by (simp_all add: silent_def)





lemma in_opt: "(x, y) \<in> set (opt k f v) \<longleftrightarrow> x = k \<and> (\<exists>z. v = Some z \<and> y = f z)"
  by (cases v) (auto simp: opt_def)








section \<open>Each tool\<close>









section \<open>Every variant\<close>
















text \<open>An edit of a file to nothing, with a field the tool does not know.\<close>

definition demo_platform :: platform where
  "demo_platform = \<lparr>to_number = (\<lambda>_. 0), to_byte = (\<lambda>_. 0), to_lower = (\<lambda>s. s), text_decoder = (\<lambda>_. None), shell_path = lit ''/bin/sh''\<rparr>"



section \<open>Quoting for the shell\<close>

text \<open>
  How a POSIX shell reads a word: text between single quotes is literal, a backslash takes the next
  character, a blank or a line end closes the word. A character the shell would interpret is \<open>None\<close>.
\<close>

fun quoted_part :: "utf16 \<Rightarrow> (utf16 \<times> utf16) option" where
  "quoted_part [] = None"
| "quoted_part (c # cs) = (if c = 39 then Some ([], cs) else map_option (\<lambda>(a, r). (c # a, r)) (quoted_part cs))"

lemma quoted_part_shorter: "quoted_part cs = Some (a, r) \<Longrightarrow> length r < length cs"
proof (induction cs arbitrary: a)
  case (Cons c cs)
  then show ?case by (cases "c = 39") (auto dest: Cons.IH)
qed simp

definition interpreted :: "utf16" where
  "interpreted = [36, 96, 34, 42, 63, 91, 126, 35, 38, 59, 124, 60, 62, 40, 41]"

function posix_word :: "utf16 \<Rightarrow> utf16 \<Rightarrow> (utf16 \<times> utf16) option" where
  "posix_word acc [] = Some (acc, [])"
| "posix_word acc (c # cs) =
     (if c = 39 then (case quoted_part cs of None \<Rightarrow> None | Some (a, r) \<Rightarrow> posix_word (acc @ a) r)
      else if c = 92 then (case cs of [] \<Rightarrow> None | d # r \<Rightarrow> posix_word (acc @ [d]) r)
      else if c = 32 \<or> c = 9 \<or> c = 10 then Some (acc, c # cs)
      else if c \<in> set interpreted then None
      else posix_word (acc @ [c]) cs)"
  by pat_completeness auto
termination by (relation "measure (length \<circ> snd)") (auto dest: quoted_part_shorter)

lemma quoted_plain: "39 \<notin> set s \<Longrightarrow> quoted_part (s @ 39 # r) = Some (s, r)"
  by (induction s) auto

definition quote_body :: "utf16 \<Rightarrow> utf16" where
  "quote_body s = concat (map (\<lambda>c. if c = 39 then [39, 92, 39, 39] else [c]) s)"

lemma quote_body_append: "quote_body (a @ b) = quote_body a @ quote_body b"
  by (simp add: quote_body_def)

lemma quote_body_plain: "39 \<notin> set s \<Longrightarrow> quote_body s = s"
  by (induction s) (auto simp: quote_body_def)

lemma quote_word: "posix_word acc (shell_quote s @ rest) = posix_word (acc @ s) rest"
proof (induction "length s" arbitrary: s acc rule: less_induct)
  case less
  have q: "shell_quote t = 39 # quote_body t @ [39]" for t by (simp add: shell_quote_def quote_body_def)
  show ?case
  proof (cases "39 \<in> set s")
    case False
    then show ?thesis by (simp add: q quote_body_plain quoted_plain)
  next
    case True
    then obtain a b where s: "s = a @ 39 # b" "39 \<notin> set a" by (meson split_list_first)
    have "shell_quote s @ rest = 39 # a @ 39 # 92 # 39 # shell_quote b @ rest"
      by (simp add: q s quote_body_append quote_body_plain) (simp add: quote_body_def)
    then have "posix_word acc (shell_quote s @ rest) = posix_word (acc @ a @ [39]) (shell_quote b @ rest)"
      using s(2) by (simp add: quoted_plain)
    also have "\<dots> = posix_word (acc @ s) rest" using less [of b "acc @ a @ [39]"] by (simp add: s)
    finally show ?thesis .
  qed
qed

lemma shell_call_command: "strf c ''command'' = Some t \<Longrightarrow> fld (mp_args (shell_call pl d c)) ''command'' = JString t"
proof -
  assume t: "strf c ''command'' = Some t"
  have f: "lit ''command'' \<notin> fst ` set bs \<Longrightarrow> fld (opt (lit ''command'') JString (Some t) @ bs) ''command'' = JString t" for bs
  proof -
    assume "lit ''command'' \<notin> fst ` set bs"
    then have "map_of (rev bs) (lit ''command'') = None" by (simp add: map_of_eq_None_iff)
    then show ?thesis by (simp add: fld_def opt_def map_add_def)
  qed
  show ?thesis
    unfolding shell_call_def plain_call_def Let_def mapped_call.simps flag_opt t
    by (rule f) (intro notin_app notin_opt; simp add: lit_inject)
qed

text \<open>C34: A delete of the service removes the file it names and nothing else. The request is rewritten as the
command \<open>rm -f --\<close> followed by one word, and whatever characters the path holds - blanks, quotes,
newlines, characters a shell expands - a POSIX shell reads that word back as exactly the path, with
nothing after it.\<close>

theorem delete_names_one_file:
  assumes "or_else (strf (clean_args raw) ''path'') (strf (clean_args raw) ''filePath'') = Some p"
  shows "\<exists>w. fld (mp_args (mapCursorArgsToOpencode pl d bs t raw (Some DeleteArgs))) ''command'' = JString (lit ''rm -f -- '' @ w)
    \<and> posix_word [] w = Some (p, [])"
proof -
  let ?cmd = "lit ''rm -f -- '' @ shell_quote p"
  have "strf (clean_args [(lit ''command'', JString ?cmd)]) ''command'' = Some ?cmd"
    by (simp add: clean_args_def CURSOR_INTERNAL_KEYS_def strf_def fld_def lit_inject) (simp add: lit_def)
  moreover have "posix_word [] (shell_quote p) = Some (p, [])"
    using quote_word [of "[]" p "[]"] by simp
  ultimately show ?thesis
    using assms shell_call_command [of "clean_args [(lit ''command'', JString ?cmd)]" ?cmd pl d]
    by (auto simp: mapCursorArgsToOpencode_def Let_def)
qed

theorem delete_names_one_file_witness:
  "\<exists>w. fld (mp_args (mapCursorArgsToOpencode demo_platform OPENCODE_2_TOOL_DIALECT None (lit ''bash'')
       [(lit ''path'', JString (lit ''it's; rm *''))] (Some DeleteArgs))) ''command'' = JString (lit ''rm -f -- '' @ w)
    \<and> posix_word [] w = Some (lit ''it's; rm *'', [])"
  by (rule delete_names_one_file)
    (simp add: clean_args_def CURSOR_INTERNAL_KEYS_def strf_def fld_def lit_inject, simp add: lit_def)

end
