(* ===== verification/HostPrompt.thy ===== *)
theory HostPrompt
  imports ShellCalls ApplyPatch JsonAccess
begin

text \<open>
  The host's prompt as the provider reads it (\<open>src/src/language-model.ts\<close>, section "Prompt extraction"):
  host notes and tool results at its end, media that lost its owner, the turn the user wrote, and the
  history that seeds a rebuilt conversation. A prompt is the AI SDK's list of messages.
\<close>

section \<open>Messages\<close>

text \<open>
  Tool output as the AI SDK types it; a value outside the type is \<open>UnknownOut\<close>, which says whether its
  \<open>type\<close> starts with \<open>error\<close>. Media and other non-text parts are opaque JSON.
\<close>

datatype content_block = TextBlk utf16 | MediaBlk json

datatype tool_output = NoOut | StringOut utf16 | TextOut utf16 | ErrorTextOut utf16 | JsonOut json | ErrorJsonOut json
  | DeniedOut utf16 | ContentOut "content_block list" | UnknownOut json bool

record result_part =
  rp_callId :: utf16
  rp_tool :: utf16
  rp_output :: tool_output
  rp_options :: json

datatype prompt_part = TextPart utf16 | MediaPart json | CallPart utf16 utf16 | ResultPart result_part

datatype prompt_message = SystemMsg utf16 | UserMsg "prompt_part list" | AssistantMsg "prompt_part list" | ToolMsg "prompt_part list"

type_synonym prompt = "prompt_message list"

text \<open>\<open>JSON.stringify\<close> and JavaScript's conversion of a number to text.\<close>

record text_env =
  stringify :: "json \<Rightarrow> utf16"
  fmt_number :: "js_int \<Rightarrow> utf16"

section \<open>Host notes\<close>

definition js_includes :: "utf16 \<Rightarrow> utf16 \<Rightarrow> bool" where
  "js_includes s p \<longleftrightarrow> indexOf s p 0 \<noteq> None"

definition SYSTEM_UPDATE_OPEN :: utf16 where "SYSTEM_UPDATE_OPEN = lit ''<system-update>''"
definition SYSTEM_UPDATE_CLOSE :: utf16 where "SYSTEM_UPDATE_CLOSE = lit ''</system-update>''"
definition SYSTEM_REMINDER_OPEN :: utf16 where "SYSTEM_REMINDER_OPEN = lit ''<system-reminder>''"
definition SYSTEM_REMINDER_CLOSE :: utf16 where "SYSTEM_REMINDER_CLOSE = lit ''</system-reminder>''"
definition TOOL_MEDIA_CAPTION :: utf16 where "TOOL_MEDIA_CAPTION = lit ''Attached media from tool result:''"

text \<open>\<open>/^Instructions from: (?:\/|[A-Za-z]:[\\/])/\<close>\<close>

definition ascii_letter :: "16 word \<Rightarrow> bool" where
  "ascii_letter c \<longleftrightarrow> 65 \<le> c \<and> c \<le> 90 \<or> 97 \<le> c \<and> c \<le> 122"

definition is_instructions :: "utf16 \<Rightarrow> bool" where
  "is_instructions s \<longleftrightarrow> starts_with (lit ''Instructions from: '') s
     \<and> (case drop 19 s of c # d # e # _ \<Rightarrow> c = 47 \<or> ascii_letter c \<and> d = 58 \<and> (e = 92 \<or> e = 47)
        | c # _ \<Rightarrow> c = 47 | [] \<Rightarrow> False)"

text \<open>
  \<open>OPENCODE_SHELL_NOTIFICATION\<close>: an identifier of one line, one of three states, then any text that has
  \<open>">\<close> with a line end before the line end of the closing tag.
\<close>

definition shell_states :: "utf16 list" where
  "shell_states = map lit [''completed'', ''cancelled'', ''error'']"

definition after_state :: "utf16 \<Rightarrow> utf16 option" where
  "after_state s = (case find (\<lambda>st. starts_with (st @ lit ''\" command=\"'') s) shell_states of
     None \<Rightarrow> None | Some st \<Rightarrow> Some (drop (length st + 11) s))"

definition is_shell_notification :: "utf16 \<Rightarrow> bool" where
  "is_shell_notification s \<longleftrightarrow> starts_with (lit ''<shell id=\"'') s
     \<and> (let rest = drop 11 s; ident = takeWhile (\<lambda>c. c \<noteq> 34 \<and> c \<noteq> 13 \<and> c \<noteq> 10) rest; tl' = drop (length ident) rest
        in ident \<noteq> [] \<and> starts_with (lit ''\" state=\"'') tl'
           \<and> (case after_state (drop 9 tl') of None \<Rightarrow> False
              | Some body \<Rightarrow> ends_with (nl # lit ''</shell>'') body
                  \<and> (let inner = take (length body - 9) body in js_includes inner (lit ''\">'' @ [nl]) \<or> js_includes inner (lit ''\">'' @ [13, nl]))))"

record tail_note =
  tn_text :: "utf16 option"
  tn_media :: "json list option"

definition wrappedHostNote :: "utf16 \<Rightarrow> utf16 \<Rightarrow> utf16 \<Rightarrow> bool" where
  "wrappedHostNote s left right \<longleftrightarrow> starts_with left s \<and> ends_with right s"

text \<open>The loop over the parts: the notes found, and whether only reminders were.\<close>

fun note_parts :: "prompt_part list \<Rightarrow> (utf16 list \<times> bool) option" where
  "note_parts [] = Some ([], False)"
| "note_parts (TextPart s # ps) =
     (let t = js_trim s in
      if wrappedHostNote t SYSTEM_UPDATE_OPEN SYSTEM_UPDATE_CLOSE \<or> is_instructions t \<or> is_shell_notification t
        then map_option (\<lambda>(ts, r). (t # ts, r)) (note_parts ps)
      else if wrappedHostNote t SYSTEM_REMINDER_OPEN SYSTEM_REMINDER_CLOSE then map_option (\<lambda>(ts, r). (ts, True)) (note_parts ps)
      else None)"
| "note_parts (_ # ps) = None"

fun part_value :: "prompt_part \<Rightarrow> json" where
  "part_value (TextPart s) = JObject [(lit ''type'', JString (lit ''text'')), (lit ''text'', JString s)]"
| "part_value (MediaPart v) = v"
| "part_value (CallPart c n) = JObject [(lit ''type'', JString (lit ''tool-call'')), (lit ''toolCallId'', JString c), (lit ''toolName'', JString n)]"
| "part_value (ResultPart r) = JObject [(lit ''type'', JString (lit ''tool-result'')), (lit ''toolCallId'', JString (rp_callId r))]"

fun hostTailNote :: "prompt_message \<Rightarrow> tail_note option" where
  "hostTailNote (SystemMsg s) = Some \<lparr>tn_text = Some s, tn_media = None\<rparr>"
| "hostTailNote (UserMsg ps) =
     (if ps = [] then None
      else if hd ps = TextPart TOOL_MEDIA_CAPTION then Some \<lparr>tn_text = None, tn_media = Some (map part_value (tl ps))\<rparr>
      else (case note_parts ps of None \<Rightarrow> None
        | Some ([], reminders) \<Rightarrow> if reminders then Some \<lparr>tn_text = None, tn_media = None\<rparr> else None
        | Some (t # ts, _) \<Rightarrow> Some \<lparr>tn_text = Some (join_nl (t # ts)), tn_media = None\<rparr>))"
| "hostTailNote _ = None"

definition note_text :: "tail_note \<Rightarrow> utf16 list" where
  "note_text n = (case tn_text n of None \<Rightarrow> [] | Some t \<Rightarrow> if t = [] then [] else [t])"

definition note_media :: "tail_note \<Rightarrow> json list" where
  "note_media n = (case tn_media n of None \<Rightarrow> [] | Some m \<Rightarrow> m)"

record live_tail =
  lt_end :: nat
  lt_notes :: "utf16 list"
  lt_media :: "json list"

text \<open>The loop of \<open>liveTail\<close>, over the reversed prompt.\<close>

fun live_tail_loop :: "prompt_message list \<Rightarrow> utf16 list \<Rightarrow> json list \<Rightarrow> live_tail" where
  "live_tail_loop [] notes media = \<lparr>lt_end = 0, lt_notes = notes, lt_media = media\<rparr>"
| "live_tail_loop (m # ms) notes media =
     (case hostTailNote m of
        None \<Rightarrow> \<lparr>lt_end = length (m # ms), lt_notes = notes, lt_media = media\<rparr>
      | Some n \<Rightarrow> live_tail_loop ms (note_text n @ notes) (note_media n @ media))"

definition liveTail :: "prompt \<Rightarrow> live_tail" where
  "liveTail p = live_tail_loop (rev p) [] []"

fun is_system :: "prompt_message \<Rightarrow> bool" where "is_system (SystemMsg _) = True" | "is_system _ = False"
fun is_user :: "prompt_message \<Rightarrow> bool" where "is_user (UserMsg _) = True" | "is_user _ = False"
fun is_assistant :: "prompt_message \<Rightarrow> bool" where "is_assistant (AssistantMsg _) = True" | "is_assistant _ = False"
fun is_tool :: "prompt_message \<Rightarrow> bool" where "is_tool (ToolMsg _) = True" | "is_tool _ = False"

text \<open>The notes just before the closing user message, nearest first in the loop.\<close>

fun notes_back :: "prompt_message list \<Rightarrow> utf16 list \<Rightarrow> utf16 list" where
  "notes_back [] notes = notes"
| "notes_back (m # ms) notes = (case hostTailNote m of None \<Rightarrow> notes | Some n \<Rightarrow> notes_back ms (note_text n @ notes))"

definition hostNotesBeforeUserTurn :: "prompt \<Rightarrow> utf16 list" where
  "hostNotesBeforeUserTurn p =
     (if p = [] \<or> \<not> is_user (last p) \<or> hostTailNote (last p) \<noteq> None then []
      else notes_back (rev (drop (Suc (length (takeWhile is_system p))) (butlast p))) [])"


section \<open>Tool results\<close>

datatype tool_refusal = PermissionDenied | Rejected

record native_failure =
  nf_type :: utf16
  nf_text :: utf16
  nf_refusal :: "tool_refusal option"

text \<open>\<open>toolResultFailure\<close> of \<open>src/src/opencode2/tool-results.ts\<close>\<close>

definition toolResultFailure :: "json \<Rightarrow> utf16 \<Rightarrow> native_failure option" where
  "toolResultFailure options callID =
     (let status = json_field (json_field options (lit ''cursor'')) (lit ''opencodeToolResult'');
          failure = json_field status (lit ''failure'')
      in if json_field status (lit ''callID'') \<noteq> JString callID \<or> json_field status (lit ''status'') \<noteq> JString (lit ''error'') \<or> \<not> is_object failure then None
         else (case (string_of (json_field failure (lit ''type'')), string_of (json_field failure (lit ''text''))) of
             (Some t, Some x) \<Rightarrow> Some \<lparr>nf_type = t,
               nf_text = (if x = [] then lit ''OpenCode tool failed ('' @ (if t = [] then lit ''tool.execution'' else t) @ lit '')'' else x),
               nf_refusal = (if json_field failure (lit ''refusal'') = JString (lit ''permission_denied'') then Some PermissionDenied
                 else if json_field failure (lit ''refusal'') = JString (lit ''rejected'') then Some Rejected else None)\<rparr>
           | _ \<Rightarrow> None))"

text \<open>The captured exit of the call, dropped from the end of a live result (\<open>withoutHostShellExitNotice\<close>).\<close>

definition as_host_output :: "tool_output \<Rightarrow> host_output" where
  "as_host_output out = (case out of TextOut v \<Rightarrow> TextOutput v
     | ContentOut bs \<Rightarrow> ContentOutput (map (\<lambda>b. case b of TextBlk s \<Rightarrow> TextBlock s | MediaBlk _ \<Rightarrow> OtherBlock) bs) | _ \<Rightarrow> OtherOutput)"

definition without_exit_notice :: "text_env \<Rightarrow> shell_state \<Rightarrow> utf16 \<Rightarrow> tool_output \<Rightarrow> tool_output" where
  "without_exit_notice env st callId out =
     (case withoutHostShellExitNotice (fmt_number env) callId (as_host_output out) st of
        TextOutput v \<Rightarrow> TextOut v
      | ContentOutput bs \<Rightarrow> (case out of ContentOut ps \<Rightarrow> ContentOut (take (length bs) ps) | _ \<Rightarrow> out)
      | OtherOutput \<Rightarrow> out)"

text \<open>\<open>/^(?:Exited with code [1-9]\d*|Killed by \S+|Timed out before completion)$/\<close>\<close>

definition is_host_notice :: "utf16 \<Rightarrow> bool" where
  "is_host_notice s \<longleftrightarrow>
     starts_with (lit ''Exited with code '') s \<and> (let ds = drop 17 s in ds \<noteq> [] \<and> list_all is_digit ds \<and> hd ds \<noteq> 48)
     \<or> starts_with (lit ''Killed by '') s \<and> (let r = drop 10 s in r \<noteq> [] \<and> list_all (\<lambda>c. \<not> js_space c) r)
     \<or> s = lit ''Timed out before completion''"

text \<open>The fold over the content blocks; the last one may be the host's notice about a shell.\<close>

fun content_text :: "bool \<Rightarrow> utf16 \<Rightarrow> content_block list \<Rightarrow> utf16" where
  "content_text shell joined [] = joined"
| "content_text shell joined (b # bs) =
     (let part = (case b of TextBlk s \<Rightarrow> s | MediaBlk _ \<Rightarrow> []) in
      content_text shell
        (if part = [] then joined
         else if shell \<and> bs = [] \<and> is_host_notice part \<and> joined \<noteq> [] \<and> \<not> ends_with [nl] joined then joined @ [nl] @ part
         else joined @ part) bs)"

definition toolResultOutputToText :: "text_env \<Rightarrow> utf16 option \<Rightarrow> tool_output \<Rightarrow> utf16 \<times> bool" where
  "toolResultOutputToText env tool out =
     (case out of
        NoOut \<Rightarrow> ([], False)
      | StringOut s \<Rightarrow> (s, False)
      | DeniedOut r \<Rightarrow> (if r = [] then lit ''Tool execution denied'' else r, True)
      | TextOut v \<Rightarrow> (v, False)
      | ErrorTextOut v \<Rightarrow> (if v = [] then lit ''OpenCode tool execution failed'' else v, True)
      | JsonOut v \<Rightarrow> (stringify env v, False)
      | ErrorJsonOut v \<Rightarrow> (stringify env v, True)
      | ContentOut bs \<Rightarrow> (content_text (tool = Some (lit ''shell'') \<or> tool = Some (lit ''bash'')) [] bs, False)
      | UnknownOut v e \<Rightarrow> (stringify env v, e))"

definition toolResultOutputMedia :: "tool_output \<Rightarrow> json list" where
  "toolResultOutputMedia out = (case out of
     ContentOut bs \<Rightarrow> concat (map (\<lambda>b. case b of MediaBlk v \<Rightarrow> [v] | TextBlk _ \<Rightarrow> []) bs) | _ \<Rightarrow> [])"

text \<open>\<open>extractOpenCodeReadInstruction\<close> of \<open>src/src/protocol/tools.ts\<close>\<close>

definition content_close :: utf16 where "content_close = lit ''</content>''"

definition closes_here :: "utf16 \<Rightarrow> nat \<Rightarrow> bool" where
  "closes_here s i \<longleftrightarrow>
     (let at_end = (\<lambda>r. r = [] \<or> hd r = nl); t = drop i s
      in i = 0 \<and> starts_with content_close t \<and> at_end (drop 10 t)
       \<or> starts_with (nl # content_close) t \<and> at_end (drop 11 t))"

definition extractOpenCodeReadInstruction :: "utf16 \<Rightarrow> utf16 option" where
  "extractOpenCodeReadInstruction out =
     (case indexOf out (lit ''<content>'') 0 of None \<Rightarrow> None
      | Some h \<Rightarrow>
          (let header = take h out; rest = drop (h + 9) out in
           if \<not> js_includes out SYSTEM_REMINDER_OPEN \<or> \<not> js_includes header (lit ''<path>'') \<or> \<not> js_includes header (lit ''<type>file</type>'') then None
           else (case find (closes_here rest) [0 ..< Suc (length rest)] of None \<Rightarrow> None
             | Some i \<Rightarrow>
                 (let after = drop (if starts_with (nl # content_close) (drop i rest) then i + 11 else i + 10) rest;
                      block = dropWhile js_space after
                  in if \<not> starts_with (SYSTEM_REMINDER_OPEN @ [nl]) block then None
                     else (case indexOf (drop 18 block) (nl # SYSTEM_REMINDER_CLOSE) 0 of None \<Rightarrow> None
                       | Some e \<Rightarrow> (let body = js_trim (take e (drop 18 block)) in if body = [] then None else Some body))))))"

record result_content =
  rc_callId :: utf16
  rc_tool :: utf16
  rc_output :: utf16
  rc_error :: "utf16 option"
  rc_refusal :: "tool_refusal option"
  rc_interrupted :: bool
  rc_media :: "json list"
  rc_notes :: "utf16 list"

definition result_content_of :: "text_env \<Rightarrow> shell_state \<Rightarrow> result_part \<Rightarrow> result_content" where
  "result_content_of env st p =
     (let failure = toolResultFailure (rp_options p) (rp_callId p);
          normalized = toolResultOutputToText env (Some (rp_tool p)) (without_exit_notice env st (rp_callId p) (rp_output p));
          txt = (case failure of Some f \<Rightarrow> nf_text f | None \<Rightarrow> fst normalized);
          is_error = (failure \<noteq> None \<or> snd normalized)
      in \<lparr>rc_callId = rp_callId p, rc_tool = rp_tool p, rc_output = txt,
          rc_error = (if is_error then Some (if txt = [] then lit ''OpenCode tool execution failed'' else txt) else None),
          rc_refusal = (case failure of Some f \<Rightarrow> nf_refusal f | None \<Rightarrow> None),
          rc_interrupted = (case failure of Some f \<Rightarrow> nf_type f = lit ''aborted'' | None \<Rightarrow> False),
          rc_media = (if is_error then [] else toolResultOutputMedia (rp_output p)),
          rc_notes = (if rp_tool p = lit ''read'' \<and> \<not> is_error then (case extractOpenCodeReadInstruction txt of None \<Rightarrow> [] | Some i \<Rightarrow> [i]) else [])\<rparr>)"

fun result_parts :: "prompt_part list \<Rightarrow> result_part list" where
  "result_parts [] = []"
| "result_parts (ResultPart r # ps) = r # result_parts ps"
| "result_parts (_ # ps) = result_parts ps"

definition extractToolResultContent :: "text_env \<Rightarrow> shell_state \<Rightarrow> prompt \<Rightarrow> result_content list" where
  "extractToolResultContent env st p =
     concat (map (\<lambda>m. case m of ToolMsg ps \<Rightarrow> map (result_content_of env st) (result_parts ps) | _ \<Rightarrow> []) p)"

section \<open>Which exec a result answers\<close>

type_synonym exec_ref = "utf16 \<times> int"

text \<open>\<open>/^cursor_(.+)_(\d+)$/\<close>; the digits are read as a number, and an infinite one is refused.\<close>

definition dot :: "16 word \<Rightarrow> bool" where
  "dot c \<longleftrightarrow> c \<noteq> 10 \<and> c \<noteq> 13 \<and> c \<noteq> 0x2028 \<and> c \<noteq> 0x2029"

definition parseExecIdFromToolCallId :: "utf16 \<Rightarrow> exec_ref option" where
  "parseExecIdFromToolCallId s =
     (let rest = drop 7 s; ds = rev (takeWhile is_digit (rev rest)); front = take (length rest - length ds) rest
      in if starts_with (lit ''cursor_'') s \<and> ds \<noteq> [] \<and> front \<noteq> [] \<and> last front = 95 \<and> butlast front \<noteq> [] \<and> list_all dot (butlast front)
         then (case js_round (digits_value ds) of JsInt n \<Rightarrow> Some (butlast front, n) | _ \<Rightarrow> None) else None)"

definition UNBOUND_EXEC_ID :: int where "UNBOUND_EXEC_ID = -1"

definition parseEarlyRowToolCallId :: "utf16 \<Rightarrow> exec_ref option" where
  "parseEarlyRowToolCallId s =
     (if \<not> starts_with (lit ''cursor-early_'') s then None
      else let rest = drop 13 s in
        case indexOf rest [95] 0 of None \<Rightarrow> None
        | Some i \<Rightarrow> if i = 0 \<or> i = length rest - 1 then None else Some (take i rest, UNBOUND_EXEC_ID))"

text \<open>The session manager's routes are a lookup.\<close>

definition exec_of :: "(utf16 \<Rightarrow> exec_ref option) \<Rightarrow> utf16 \<Rightarrow> exec_ref option" where
  "exec_of route s = or_else (parseExecIdFromToolCallId s) (or_else (route s) (parseEarlyRowToolCallId s))"

definition correlateToolResults :: "(utf16 \<Rightarrow> exec_ref option) \<Rightarrow> result_content list \<Rightarrow> (result_content \<times> exec_ref) list" where
  "correlateToolResults route rs = concat (map (\<lambda>r. case exec_of route (rc_callId r) of None \<Rightarrow> [] | Some e \<Rightarrow> [(r, e)]) rs)"

definition extractToolResults :: "text_env \<Rightarrow> shell_state \<Rightarrow> (utf16 \<Rightarrow> exec_ref option) \<Rightarrow> prompt \<Rightarrow> (result_content \<times> exec_ref) list" where
  "extractToolResults env st route p = correlateToolResults route (extractToolResultContent env st p)"


section \<open>Detached media\<close>

definition TOOL_MEDIA_PLACEHOLDER :: utf16 where "TOOL_MEDIA_PLACEHOLDER = lit ''Media attached in the following user message.''"

definition MEDIA_READ_OUTPUTS :: "utf16 list" where
  "MEDIA_READ_OUTPUTS = map lit [''Image read successfully'', ''PDF read successfully'']"

definition AMBIGUOUS_MEDIA :: utf16 where
  "AMBIGUOUS_MEDIA = [nl, nl] @ lit ''[Detached tool media has ambiguous ownership; images remain available in history.]''"

definition text_only_tools :: "utf16 list" where
  "text_only_tools = map lit [''glob'', ''grep'', ''ls'', ''edit'', ''write'', ''todowrite'', ''todoread'']"

definition host_patch_name :: "utf16 \<Rightarrow> bool" where
  "host_patch_name t \<longleftrightarrow> t = lit (tool_name APPLY_PATCH_TOOL) \<or> t = lit (tool_name PATCH_TOOL)"

text \<open>How many media parts a result can own, out of \<open>n\<close>.\<close>

definition media_bounds :: "nat \<Rightarrow> result_content \<Rightarrow> int \<times> int" where
  "media_bounds n r =
     (if rc_error r \<noteq> None then (0, 0)
      else if rc_tool r = lit ''read'' then (if rc_output r \<in> set MEDIA_READ_OUTPUTS then (1, 1) else (0, 0))
      else if rc_output r = TOOL_MEDIA_PLACEHOLDER then (1, int n)
      else if rc_tool r \<in> set text_only_tools \<or> host_patch_name (rc_tool r) then (0, 0)
      else (0, int n))"

definition slice :: "int \<Rightarrow> int \<Rightarrow> 'a list \<Rightarrow> 'a list" where
  "slice a b xs = take (nat (b - a)) (drop (nat a) xs)"

text \<open>One result of the loop; the suffix sums are what the total leaves after it.\<close>

definition attribute_one :: "json list \<Rightarrow> int \<Rightarrow> int \<Rightarrow> int \<Rightarrow> int \<Rightarrow> result_content \<Rightarrow> int \<Rightarrow> int \<Rightarrow> result_content" where
  "attribute_one media sumMin sumMax prefixMin prefixMax r bmin bmax =
     (let len = int (length media);
          suffixMin = sumMin - prefixMin - bmin; suffixMax = sumMax - prefixMax - bmax;
          startMin = max prefixMin (len - suffixMax - bmax); startMax = min prefixMax (len - suffixMin - bmin);
          endMin = max (prefixMin + bmin) (len - suffixMax); endMax = min (prefixMax + bmax) (len - suffixMin)
      in if startMin = startMax \<and> endMin = endMax \<and> endMin > startMin
           then r\<lparr>rc_media := rc_media r @ slice startMin endMin media\<rparr>
         else if bmax > 0 \<and> (startMin \<noteq> startMax \<or> endMin \<noteq> endMax)
           then r\<lparr>rc_output := rc_output r @ AMBIGUOUS_MEDIA\<rparr>
         else r)"

fun attribute_loop :: "json list \<Rightarrow> int \<Rightarrow> int \<Rightarrow> int \<Rightarrow> int \<Rightarrow> (result_content \<times> int \<times> int) list \<Rightarrow> result_content list" where
  "attribute_loop media sumMin sumMax prefixMin prefixMax [] = []"
| "attribute_loop media sumMin sumMax prefixMin prefixMax ((r, bmin, bmax) # rs) =
     attribute_one media sumMin sumMax prefixMin prefixMax r bmin bmax
       # attribute_loop media sumMin sumMax (prefixMin + bmin) (prefixMax + bmax) rs"

definition attributeTrailingMedia :: "result_content list \<Rightarrow> json list \<Rightarrow> result_content list" where
  "attributeTrailingMedia results media =
     (case results of
        [] \<Rightarrow> results
      | [r] \<Rightarrow> (if rc_error r \<noteq> None \<or> rc_tool r = lit ''read'' \<and> rc_output r \<notin> set MEDIA_READ_OUTPUTS then results
               else [r\<lparr>rc_media := rc_media r @ media\<rparr>])
      | _ \<Rightarrow>
          (let bounds = map (media_bounds (length media)) results;
               sumMin = sum_list (map fst bounds); sumMax = sum_list (map snd bounds)
           in if sumMin > int (length media) \<or> sumMax < int (length media) then results
              else attribute_loop media sumMin sumMax 0 0 (zip results bounds)))"

definition tool_tail :: "prompt \<Rightarrow> prompt" where
  "tool_tail p = rev (takeWhile is_tool (rev p))"

definition extractTrailingToolResults :: "text_env \<Rightarrow> shell_state \<Rightarrow> (utf16 \<Rightarrow> exec_ref option) \<Rightarrow> prompt \<Rightarrow> (result_content \<times> exec_ref) list" where
  "extractTrailingToolResults env st route p =
     (let tl = liveTail p; live = take (lt_end tl) p; step = tool_tail live in
      if step = [] then []
      else let contents = extractToolResultContent env st step;
               owned = (if lt_media tl = [] then contents else attributeTrailingMedia contents (lt_media tl));
               results = correlateToolResults route owned
           in if results = [] \<or> lt_notes tl = [] then results
              else butlast results @ [((fst (last results))\<lparr>rc_notes := rc_notes (fst (last results)) @ lt_notes tl\<rparr>, snd (last results))])"

subsection \<open>Who can own what\<close>

text \<open>A way the media parts can belong to the results: each result a number within its bounds, in order.\<close>

definition fits_bounds :: "(int \<times> int) list \<Rightarrow> int list \<Rightarrow> bool" where
  "fits_bounds bs c \<longleftrightarrow> list_all2 (\<lambda>b x. fst b \<le> x \<and> x \<le> snd b) bs c"

definition consistent :: "result_content list \<Rightarrow> json list \<Rightarrow> nat list \<Rightarrow> bool" where
  "consistent results media c \<longleftrightarrow> fits_bounds (map (media_bounds (length media)) results) (map int c) \<and> sum_list c = length media"

definition owned_slice :: "nat list \<Rightarrow> nat \<Rightarrow> 'a list \<Rightarrow> 'a list" where
  "owned_slice c i media = take (c ! i) (drop (sum_list (take i c)) media)"

lemma fits_sums: "fits_bounds bs c \<Longrightarrow> sum_list (map fst bs) \<le> sum_list c \<and> sum_list c \<le> sum_list (map snd bs)"
  unfolding fits_bounds_def by (induction bs c rule: list_all2_induct) auto

lemma fits_split: "fits_bounds bs c \<Longrightarrow> i < length bs \<Longrightarrow>
    fits_bounds (take i bs) (take i c) \<and> fst (bs ! i) \<le> c ! i \<and> c ! i \<le> snd (bs ! i) \<and> fits_bounds (drop (Suc i) bs) (drop (Suc i) c)"
  unfolding fits_bounds_def by (auto simp: list_all2_takeI list_all2_dropI list_all2_conv_all_nth)

lemma sum_split: "i < length c \<Longrightarrow> sum_list c = sum_list (take i c) + c ! i + sum_list (drop (Suc i) c)" for c :: "'a::comm_monoid_add list"
  by (metis add.assoc append_take_drop_id id_take_nth_drop sum_list.Cons sum_list.append)

lemma bounds_ordered: "list_all (\<lambda>b. fst b \<le> snd b) bs \<Longrightarrow> sum_list (map fst bs) \<le> sum_list (map snd bs)" for bs :: "(int \<times> int) list"
  by (induction bs) auto

lemma fits_exists:
  assumes "list_all (\<lambda>b. fst b \<le> snd b) bs" "sum_list (map fst bs) \<le> T" "T \<le> sum_list (map snd bs)"
  shows "\<exists>c. fits_bounds bs c \<and> sum_list c = T"
  using assms
proof (induction bs arbitrary: T)
  case (Cons b bs)
  define x where "x = max (fst b) (T - sum_list (map snd bs))"
  have "fst b \<le> x" "x \<le> snd b" "sum_list (map fst bs) \<le> T - x" "T - x \<le> sum_list (map snd bs)"
    using Cons.prems bounds_ordered [of bs] unfolding x_def by auto
  moreover then obtain c where "fits_bounds bs c" "sum_list c = T - x" using Cons.IH [of "T - x"] Cons.prems(1) by auto
  ultimately show ?case by (intro exI [of _ "x # c"]) (simp add: fits_bounds_def)
qed (simp add: fits_bounds_def)

lemma fits_append: "fits_bounds as c \<Longrightarrow> fits_bounds bs d \<Longrightarrow> fits_bounds (as @ bs) (c @ d)"
  unfolding fits_bounds_def by (rule list_all2_appendI)

text \<open>Every start and every end between the two extremes is taken in some way of owning.\<close>

lemma boundary_reached:
  assumes v: "list_all (\<lambda>b. fst b \<le> snd b) bs" and k: "k \<le> length bs"
    and lo: "sum_list (map fst (take k bs)) \<le> x" "M - sum_list (map snd (drop k bs)) \<le> x"
    and hi: "x \<le> sum_list (map snd (take k bs))" "x \<le> M - sum_list (map fst (drop k bs))"
  shows "\<exists>c. fits_bounds bs c \<and> sum_list c = M \<and> sum_list (take k c) = x"
proof -
  have vs: "list_all (\<lambda>b. fst b \<le> snd b) (take k bs)" "list_all (\<lambda>b. fst b \<le> snd b) (drop k bs)"
    using v by (metis append_take_drop_id list_all_append)+
  obtain c where c: "fits_bounds (take k bs) c" "sum_list c = x" using fits_exists [OF vs(1)] lo hi by blast
  obtain d where d: "fits_bounds (drop k bs) d" "sum_list d = M - x" using fits_exists [OF vs(2), of "M - x"] lo hi by auto
  have "length c = k" using list_all2_lengthD [OF c(1) [unfolded fits_bounds_def]] k by simp
  then have "fits_bounds bs (c @ d) \<and> sum_list (c @ d) = M \<and> sum_list (take k (c @ d)) = x"
    using fits_append [OF c(1) d(1)] c(2) d(2) by simp
  then show ?thesis by blast
qed

lemma attribute_loop_length: "length (attribute_loop media sm sM p P zs) = length zs"
  by (induction media sm sM p P zs rule: attribute_loop.induct) auto

lemma attribute_loop_nth:
  "i < length zs \<Longrightarrow> attribute_loop media sm sM p P zs ! i =
     attribute_one media sm sM (p + sum_list (map (fst \<circ> snd) (take i zs))) (P + sum_list (map (snd \<circ> snd) (take i zs)))
       (fst (zs ! i)) (fst (snd (zs ! i))) (snd (snd (zs ! i)))"
proof (induction media sm sM p P zs arbitrary: i rule: attribute_loop.induct)
  case (2 media sm sM p P r a b rs)
  then show ?case by (cases i) (simp_all add: add.assoc)
qed simp

lemma fits_ordered: "fits_bounds bs c \<Longrightarrow> list_all (\<lambda>b. fst b \<le> snd b) bs"
  unfolding fits_bounds_def by (induction bs c rule: list_all2_induct) auto

lemma bounds_nonneg: "fits_bounds (map (media_bounds m) results) c \<Longrightarrow> list_all (\<lambda>x. 0 \<le> x) c"
proof (induction results arbitrary: c)
  case (Cons r rs)
  have "0 \<le> fst (media_bounds m r)" by (simp add: media_bounds_def)
  then show ?case using Cons by (cases c) (auto simp: fits_bounds_def)
qed (simp add: fits_bounds_def)

lemma slice_of_counts:
  assumes "sum_list (map int (take i c)) = s" "int (c ! i) = e - s"
  shows "slice s e media = owned_slice c i media"
proof -
  have "sum_list (map int (take i c)) = int (sum_list (take i c))" by (induction "take i c") (simp_all add: sum_list_of_nat)
  then have "nat s = sum_list (take i c)" "nat (e - s) = c ! i" using assms by simp_all
  then show ?thesis by (simp add: slice_def owned_slice_def)
qed

text \<open>The four extremes of the loop are the least and the greatest start and end of what the result can own.\<close>

lemma attribute_one_owner:
  fixes r :: result_content
  assumes fits: "fits_bounds bs c" and total: "sum_list c = M" and i: "i < length bs" and M: "M = int (length media)"
  defines "p \<equiv> sum_list (map fst (take i bs))" and "P \<equiv> sum_list (map snd (take i bs))"
  defines "r' \<equiv> attribute_one media (sum_list (map fst bs)) (sum_list (map snd bs)) p P r (fst (bs ! i)) (snd (bs ! i))"
  shows "r' = r\<lparr>rc_media := rc_media r @ slice (sum_list (take i c)) (sum_list (take i c) + c ! i) media\<rparr>
    \<or> r' = r \<and> c ! i \<le> 0
    \<or> r' = r\<lparr>rc_output := rc_output r @ AMBIGUOUS_MEDIA\<rparr>
      \<and> (\<exists>d. fits_bounds bs d \<and> sum_list d = M \<and> (sum_list (take i d) \<noteq> sum_list (take i c) \<or> sum_list (take (Suc i) d) \<noteq> sum_list (take (Suc i) c)))"
proof -
  define lo hi S S' s where d: "lo = fst (bs ! i)" "hi = snd (bs ! i)" "S = sum_list (map fst (drop (Suc i) bs))"
    "S' = sum_list (map snd (drop (Suc i) bs))" "s = sum_list (take i c)"
  have len: "length c = length bs" using fits by (simp add: fits_bounds_def list_all2_lengthD)
  have m: "sum_list (map fst bs) = p + lo + S" "sum_list (map snd bs) = P + hi + S'"
    using sum_split [of i "map fst bs"] sum_split [of i "map snd bs"] i by (simp_all add: p_def P_def d d take_map drop_map)
  have t: "M = s + c ! i + sum_list (drop (Suc i) c)" using total sum_split [of i c] i len by (simp add: d)
  have r: "p \<le> s" "s \<le> P" "lo \<le> c ! i" "c ! i \<le> hi" "S \<le> sum_list (drop (Suc i) c)" "sum_list (drop (Suc i) c) \<le> S'"
    using fits_split [OF fits i] fits_sums [of "take i bs" "take i c"] fits_sums [of "drop (Suc i) bs" "drop (Suc i) c"]
    by (simp_all add: p_def P_def d d d)
  define a A e E where b: "a = max p (M - S' - hi)" "A = min P (M - S - lo)" "e = max (p + lo) (M - S')" "E = min (P + hi) (M - S)"
  have range: "a \<le> s" "s \<le> A" "e \<le> s + c ! i" "s + c ! i \<le> E" using r t unfolding b by linarith+
  have x: "p + lo + S - p - lo = S" "P + hi + S' - P - hi = S'" by simp_all
  have one: "r' = (if a = A \<and> e = E \<and> e > a then r\<lparr>rc_media := rc_media r @ slice a e media\<rparr>
      else if hi > 0 \<and> (a \<noteq> A \<or> e \<noteq> E) then r\<lparr>rc_output := rc_output r @ AMBIGUOUS_MEDIA\<rparr> else r)"
    unfolding r'_def attribute_one_def Let_def M [symmetric] m d(1,2) [symmetric] x b by (rule refl)
  have drop_i: "sum_list (map fst (drop i bs)) = lo + S" "sum_list (map snd (drop i bs)) = hi + S'"
    using Cons_nth_drop_Suc [OF i, symmetric] by (simp_all add: d d)
  have take_Suc: "sum_list (map fst (take (Suc i) bs)) = p + lo" "sum_list (map snd (take (Suc i) bs)) = P + hi"
    "sum_list (take (Suc i) c) = s + c ! i"
    using i len by (simp_all add: take_Suc_conv_app_nth p_def P_def d d)
  have ord: "list_all (\<lambda>b. fst b \<le> snd b) bs" using fits_ordered [OF fits] .
  have start: "\<exists>d. fits_bounds bs d \<and> sum_list d = M \<and> sum_list (take i d) = x" if "a \<le> x" "x \<le> A" for x
    using boundary_reached [OF ord, of i x M] that i drop_i unfolding b by (simp add: p_def P_def)
  have stop: "\<exists>d. fits_bounds bs d \<and> sum_list d = M \<and> sum_list (take (Suc i) d) = x" if "e \<le> x" "x \<le> E" for x
    using boundary_reached [OF ord, of "Suc i" x M] that i take_Suc unfolding b by (simp add: d)
  consider "a = A" "e = E" | "a \<noteq> A \<or> e \<noteq> E" by blast
  then show ?thesis
  proof cases
    case 1
    then show ?thesis using range one by (auto simp: d)
  next
    case 2
    show ?thesis
    proof (cases "hi > 0")
      case False
      then show ?thesis using 2 r one by auto
    next
      case True
      have "\<exists>d. fits_bounds bs d \<and> sum_list d = M \<and> (sum_list (take i d) \<noteq> s \<or> sum_list (take (Suc i) d) \<noteq> s + c ! i)"
      proof (cases "a = A")
        case False
        then have "a \<noteq> s \<or> A \<noteq> s" by blast
        then show ?thesis using start [of a] start [of A] range False by auto
      next
        case True
        then have "e \<noteq> s + c ! i \<or> E \<noteq> s + c ! i" using 2 by auto
        then show ?thesis using stop [of e] stop [of E] range by auto
      qed
      then have "\<exists>d. fits_bounds bs d \<and> sum_list d = M \<and> (sum_list (take i d) \<noteq> sum_list (take i c) \<or> sum_list (take (Suc i) d) \<noteq> sum_list (take (Suc i) c))"
        unfolding take_Suc(3) d(5) .
      moreover have "r' = r\<lparr>rc_output := rc_output r @ AMBIGUOUS_MEDIA\<rparr>" using one 2 True by auto
      ultimately show ?thesis by blast
    qed
  qed
qed

lemma nat_counts:
  assumes "fits_bounds (map (media_bounds m) results) d"
  obtains c where "d = map int c"
proof
  have "list_all (\<lambda>x. 0 \<le> x) d" by (rule bounds_nonneg [OF assms])
  then show "d = map int (map nat d)" by (induction d) auto
qed

lemma sum_map_int: "sum_list (map int c) = int (sum_list c)"
  by (induction c) auto

text \<open>C28: Media that lost its owner is given to a result only when it can belong to no other. The host sends
the media of a step in one message after the results, without saying whose it is. Let \<open>c\<close> be any way the
parts can belong to the results in order: none for a failed or text-only result, one for an image read, at
least one behind the host's placeholder, any number for an unknown tool. Then every result gets exactly its own
parts, or keeps what it had and owns none, or keeps what it had and says that the owner is ambiguous, and then
there is another way in which its parts start or end elsewhere.\<close>

theorem detached_media_goes_to_its_owner:
  assumes "consistent results media c" "i < length results"
  shows "(let r = results ! i; r' = attributeTrailingMedia results media ! i in
     rc_media r' = rc_media r @ owned_slice c i media \<and> rc_output r' = rc_output r
     \<or> rc_media r' = rc_media r \<and> rc_output r' = rc_output r @ AMBIGUOUS_MEDIA
       \<and> (\<exists>c'. consistent results media c' \<and> (sum_list (take i c') \<noteq> sum_list (take i c) \<or> sum_list (take (Suc i) c') \<noteq> sum_list (take (Suc i) c))))"
proof -
  define bs where "bs = map (media_bounds (length media)) results"
  have fits: "fits_bounds bs (map int c)" and total: "sum_list c = length media" using assms(1) by (simp_all add: consistent_def bs_def)
  have len: "length c = length results" "length bs = length results"
    using list_all2_lengthD [OF fits [unfolded fits_bounds_def]] by (simp_all add: bs_def)
  have ci: "int (c ! i) \<le> snd (bs ! i)" using fits_split [OF fits, of i] assms(2) len by simp
  consider "results = []" | r where "results = [r]" | "1 < length results" by (cases results rule: remdups_adj.cases) auto
  then show ?thesis
  proof cases
    case (2 r)
    then have i: "i = 0" "c = [length media]" using assms(2) len total by (auto simp: length_Suc_conv)
    then have own: "owned_slice c i media = media" by (simp add: owned_slice_def)
    have "rc_error r \<noteq> None \<or> rc_tool r = lit ''read'' \<and> rc_output r \<notin> set MEDIA_READ_OUTPUTS \<Longrightarrow> media = []"
      using ci i 2 by (auto simp: bs_def media_bounds_def split: if_splits)
    then show ?thesis using 2 i own by (auto simp: attributeTrailingMedia_def Let_def)
  next
    case 3
    have sums: "sum_list (map fst bs) \<le> int (length media)" "int (length media) \<le> sum_list (map snd bs)"
      using fits_sums [OF fits] total by (simp_all add: sum_map_int)
    have loop: "attributeTrailingMedia results media = attribute_loop media (sum_list (map fst bs)) (sum_list (map snd bs)) 0 0 (zip results bs)"
    proof -
      obtain x y xs where r: "results = x # y # xs" using 3 by (cases results rule: remdups_adj.cases) auto
      have "\<not> sum_list (map fst bs) > int (length media)" "\<not> sum_list (map snd bs) < int (length media)" using sums by simp_all
      then show ?thesis unfolding attributeTrailingMedia_def bs_def Let_def r by (simp only: list.case if_False disj_not1 simp_thms)
    qed
    have sel: "map (fst \<circ> snd) (take i (zip results bs)) = map fst (take i bs)" "map (snd \<circ> snd) (take i (zip results bs)) = map snd (take i bs)"
      using len by (simp_all add: take_zip map_map [symmetric] del: map_map)
    have nth: "attributeTrailingMedia results media ! i = attribute_one media (sum_list (map fst bs)) (sum_list (map snd bs))
        (sum_list (map fst (take i bs))) (sum_list (map snd (take i bs))) (results ! i) (fst (bs ! i)) (snd (bs ! i))"
      unfolding loop using attribute_loop_nth [of i "zip results bs"] assms(2) len by (simp add: sel)
    have "sum_list (map int c) = int (length media)" using total by (simp add: sum_map_int)
    note one = attribute_one_owner [OF fits this, of i media "results ! i", folded nth]
    consider (own) "attributeTrailingMedia results media ! i = (results ! i)\<lparr>rc_media := rc_media (results ! i)
          @ slice (sum_list (take i (map int c))) (sum_list (take i (map int c)) + map int c ! i) media\<rparr>"
      | (none) "attributeTrailingMedia results media ! i = results ! i" "map int c ! i \<le> 0"
      | (other) d where "attributeTrailingMedia results media ! i = (results ! i)\<lparr>rc_output := rc_output (results ! i) @ AMBIGUOUS_MEDIA\<rparr>"
          "fits_bounds bs d" "sum_list d = int (length media)"
          "sum_list (take i d) \<noteq> sum_list (take i (map int c)) \<or> sum_list (take (Suc i) d) \<noteq> sum_list (take (Suc i) (map int c))"
      using one assms(2) len by auto
    then show ?thesis
    proof cases
      case own
      have "slice (sum_list (take i (map int c))) (sum_list (take i (map int c)) + map int c ! i) media = owned_slice c i media"
        by (rule slice_of_counts) (use assms(2) len in \<open>simp_all add: take_map\<close>)
      then show ?thesis using own by (simp add: Let_def)
    next
      case none
      then have "owned_slice c i media = []" using assms(2) len by (simp add: owned_slice_def)
      then show ?thesis using none by (simp add: Let_def)
    next
      case (other d)
      obtain c' where c': "d = map int c'" using nat_counts other(2) unfolding bs_def by blast
      then have "consistent results media c'" using other(2,3) by (simp add: consistent_def bs_def sum_map_int)
      moreover have "sum_list (take i c') \<noteq> sum_list (take i c) \<or> sum_list (take (Suc i) c') \<noteq> sum_list (take (Suc i) c)"
        using other(4) unfolding c' take_map sum_map_int by simp
      ultimately show ?thesis using other(1) by (auto simp: Let_def)
    qed
  qed (use assms in simp)
qed

text \<open>An image read, a failed call and an unknown tool, with two parts: the read has the first, the tool the second.\<close>

definition demo_results :: "result_content list" where
  "demo_results = map (\<lambda>(t, x, e). \<lparr>rc_callId = [], rc_tool = lit t, rc_output = lit x, rc_error = (if e then Some [] else None), rc_refusal = None,
     rc_interrupted = False, rc_media = [], rc_notes = []\<rparr>)
     [(''read'', ''Image read successfully'', False), (''shot'', ''no'', True), (''shot'', ''done'', False)]"

theorem detached_media_goes_to_its_owner_witness:
  "rc_media (attributeTrailingMedia demo_results [JNumber 1, JNumber 2] ! 2) = [JNumber 2]
   \<and> (let r = demo_results ! 2; r' = attributeTrailingMedia demo_results [JNumber 1, JNumber 2] ! 2 in
     rc_media r' = rc_media r @ owned_slice [1, 0, 1] 2 [JNumber 1, JNumber 2] \<and> rc_output r' = rc_output r
     \<or> rc_media r' = rc_media r \<and> rc_output r' = rc_output r @ AMBIGUOUS_MEDIA
       \<and> (\<exists>c'. consistent demo_results [JNumber 1, JNumber 2] c'
           \<and> (sum_list (take 2 c') \<noteq> sum_list (take 2 [1, 0, 1]) \<or> sum_list (take (Suc 2) c') \<noteq> sum_list (take (Suc 2) [1, 0, 1]))))"
proof -
  have "consistent demo_results [JNumber 1, JNumber 2] [1, 0, 1]" by code_simp
  moreover have "2 < length demo_results" by (simp add: demo_results_def)
  ultimately have "let r = demo_results ! 2; r' = attributeTrailingMedia demo_results [JNumber 1, JNumber 2] ! 2 in
     rc_media r' = rc_media r @ owned_slice [1, 0, 1] 2 [JNumber 1, JNumber 2] \<and> rc_output r' = rc_output r
     \<or> rc_media r' = rc_media r \<and> rc_output r' = rc_output r @ AMBIGUOUS_MEDIA
       \<and> (\<exists>c'. consistent demo_results [JNumber 1, JNumber 2] c'
           \<and> (sum_list (take 2 c') \<noteq> sum_list (take 2 [1, 0, 1]) \<or> sum_list (take (Suc 2) c') \<noteq> sum_list (take (Suc 2) [1, 0, 1])))"
    by (rule detached_media_goes_to_its_owner)
  moreover have "rc_media (attributeTrailingMedia demo_results [JNumber 1, JNumber 2] ! 2) = [JNumber 2]" by code_simp
  ultimately show ?thesis by blast
qed

end
