(* ===== verification/JsText.thy ===== *)
theory JsText
  imports JsString
begin

text \<open>
  Separators in JavaScript strings: \<open>split\<close>, \<open>join\<close> and searches from the start of a text, with the
  lemmas on separators that do not overlap themselves.
\<close>

definition starts_at :: "utf16 \<Rightarrow> utf16 \<Rightarrow> nat option" where
  "starts_at p s = indexOf s p 0"

text \<open>A list of texts with a separator between them.\<close>

fun join_with :: "utf16 \<Rightarrow> utf16 list \<Rightarrow> utf16" where
  "join_with sep [] = []"
| "join_with sep [x] = x"
| "join_with sep (x # xs) = x @ sep @ join_with sep xs"

definition blank_line_sep :: utf16 where "blank_line_sep = [nl, nl]"

text \<open>\<open>split\<close> on a text that is not empty.\<close>

function split_on :: "utf16 \<Rightarrow> utf16 \<Rightarrow> utf16 list" where
  "split_on sep s =
     (case (if sep = [] then None else starts_at sep s) of None \<Rightarrow> [s]
      | Some i \<Rightarrow> take i s # split_on sep (drop (i + length sep) s))"
  by pat_completeness auto
termination by (relation "measure (\<lambda>(p, s). length s)") (auto simp: starts_at_def indexOf_Some length_greater_0_conv [symmetric] simp del: length_greater_0_conv split: if_splits)

declare split_on.simps [simp del]

section \<open>Occurrences\<close>

definition contains_text :: "utf16 \<Rightarrow> utf16 \<Rightarrow> bool" where
  "contains_text p s \<longleftrightarrow> indexOf s p 0 \<noteq> None"

lemma starts_with_append_iff: "starts_with p s \<longleftrightarrow> (\<exists>r. s = p @ r)"
  by (metis append_eq_conv_conj starts_with_def)

lemma contains_text_iff: "contains_text p s \<longleftrightarrow> (\<exists>a b. s = a @ p @ b)"
proof
  assume "contains_text p s"
  then obtain i where "starts_with p (drop i s)" by (auto simp: contains_text_def indexOf_Some)
  then obtain r where "drop i s = p @ r" by (auto simp: starts_with_append_iff)
  then show "\<exists>a b. s = a @ p @ b" by (metis append_take_drop_id)
next
  assume "\<exists>a b. s = a @ p @ b"
  then obtain a b where s: "s = a @ p @ b" by blast
  then have "length a \<in> set [0 ..< length s + 1 - length p]" "starts_with p (drop (length a) s)" by auto
  then show "contains_text p s" unfolding contains_text_def indexOf_def by (metis (no_types, lifting) find_None_iff)
qed

text \<open>A separator no proper suffix of which is one of its prefixes.\<close>

definition unbordered :: "utf16 \<Rightarrow> bool" where
  "unbordered p \<longleftrightarrow> p \<noteq> [] \<and> (\<forall>k \<in> {1 ..< length p}. drop k p \<noteq> take (length p - k) p)"

lemma first_occurrence:
  assumes "unbordered p" "\<not> contains_text p a"
  shows "indexOf (a @ p @ r) p 0 = Some (length a)"
  unfolding indexOf_Some
proof (intro conjI allI impI)
  fix j assume j: "0 \<le> j \<and> j < length a"
  show "\<not> starts_with p (drop j (a @ p @ r))"
  proof
    assume s: "starts_with p (drop j (a @ p @ r))"
    show False
    proof (cases "j + length p \<le> length a")
      case True
      then have "take (length p) (drop j a) = p" using s j by (simp add: starts_with_def)
      then have "a = take j a @ p @ drop (length p) (drop j a)" by (metis append_take_drop_id)
      then show False using assms(2) unfolding contains_text_iff by blast
    next
      case False
      let ?k = "length p - (length a - j)"
      have k: "length a - j \<in> {1 ..< length p}" using False j by auto
      have "p = drop j a @ take ?k (p @ r)" using s False j by (simp add: starts_with_def)
      then have "drop (length a - j) p = take ?k p" using j k by (metis append_eq_conv_conj diff_le_self length_drop take_append diff_is_0_eq take_0 append.right_neutral)
      then show False using assms(1) k by (auto simp: unbordered_def)
    qed
  qed
qed auto

lemma split_on_step: "unbordered p \<Longrightarrow> \<not> contains_text p a \<Longrightarrow> split_on p (a @ p @ r) = a # split_on p r"
  using first_occurrence [of p a r] by (subst split_on.simps) (auto simp: starts_at_def unbordered_def)

lemma split_on_last: "\<not> contains_text p a \<Longrightarrow> split_on p a = [a]"
  by (subst split_on.simps) (auto simp: starts_at_def contains_text_def)

lemma split_on_join:
  "unbordered p \<Longrightarrow> list_all (\<lambda>a. \<not> contains_text p a) as \<Longrightarrow> split_on p (join_with p as) = (if as = [] then [[]] else as)"
proof (induction p as rule: join_with.induct)
  case (1 sep)
  then have "\<not> contains_text sep []" by (auto simp: contains_text_iff unbordered_def)
  then show ?case by (simp add: split_on_last)
qed (auto simp: split_on_step split_on_last)

end
