(* ===== verification/PromptHistory.thy ===== *)
theory PromptHistory
  imports HostPrompt JsText
begin

text \<open>
  What of the host's prompt is the user's turn and what is history (\<open>src/src/language-model.ts\<close>): the live
  turn, the key that recognises a retry of it, the history that seeds a rebuilt conversation, and whether a
  plan stage was approved.
\<close>

section \<open>Text of a message\<close>

fun text_parts :: "prompt_part list \<Rightarrow> utf16 list" where
  "text_parts [] = []"
| "text_parts (TextPart s # ps) = s # text_parts ps"
| "text_parts (_ # ps) = text_parts ps"

definition dot_text :: utf16 where "dot_text = lit ''.''"

definition extractUserText :: "prompt_part list \<Rightarrow> utf16" where
  "extractUserText ps = (let ts = text_parts ps in if ts = [] then dot_text else join_nl ts)"

definition extractAssistantHistoryText :: "prompt_part list \<Rightarrow> utf16" where
  "extractAssistantHistoryText ps = join_nl (filter (\<lambda>t. t \<noteq> []) (text_parts ps))"

definition extractSystemPrompt :: "prompt \<Rightarrow> utf16 option" where
  "extractSystemPrompt p = (let parts = concat (map (\<lambda>m. case m of SystemMsg s \<Rightarrow> [s] | _ \<Rightarrow> []) p) in
     if parts = [] then None else Some (join_with blank_line_sep parts))"

section \<open>The live turn\<close>

definition user_or_system :: "prompt_message \<Rightarrow> bool" where
  "user_or_system m \<longleftrightarrow> is_user m \<or> is_system m"

text \<open>The start of the trailing user and system messages.\<close>

definition block_start :: "prompt \<Rightarrow> nat" where
  "block_start p = length p - length (takeWhile user_or_system (rev p))"

definition user_text_of :: "prompt_message \<Rightarrow> utf16 list" where
  "user_text_of m = (case m of UserMsg ps \<Rightarrow> if hostTailNote m = None then [extractUserText ps] else [] | _ \<Rightarrow> [])"

definition liveUserTurn :: "prompt \<Rightarrow> (nat \<times> utf16) option" where
  "liveUserTurn p =
     (let s = block_start p; start = (if s = 0 then length (takeWhile is_system p) else s) in
      if start = length p then None
      else let t = join_with blank_line_sep (concat (map user_text_of (drop start p))) in Some (start, if t = [] then dot_text else t))"

record trailing_texts =
  tt_start :: nat
  tt_texts :: "(nat \<times> utf16) list"
  tt_nonText :: "nat list"
  tt_notes :: prompt

fun all_text :: "prompt_part list \<Rightarrow> bool" where
  "all_text [] = True"
| "all_text (TextPart _ # ps) = all_text ps"
| "all_text (_ # ps) = False"

fun sort_tail :: "nat \<Rightarrow> prompt \<Rightarrow> trailing_texts \<Rightarrow> trailing_texts" where
  "sort_tail i [] acc = acc"
| "sort_tail i (m # ms) acc =
     sort_tail (Suc i) ms
       (if hostTailNote m \<noteq> None then acc\<lparr>tt_notes := tt_notes acc @ [m]\<rparr>
        else case m of
            UserMsg ps \<Rightarrow> if all_text ps then acc\<lparr>tt_texts := tt_texts acc @ [(i, join_nl (text_parts ps))]\<rparr> else acc\<lparr>tt_nonText := tt_nonText acc @ [i]\<rparr>
          | _ \<Rightarrow> acc\<lparr>tt_nonText := tt_nonText acc @ [i]\<rparr>)"

definition trailingUserTexts :: "prompt \<Rightarrow> trailing_texts option" where
  "trailingUserTexts p = (let start = block_start p in
     if start = length p then None
     else Some (sort_tail start (drop start p) \<lparr>tt_start = start, tt_texts = [], tt_nonText = [], tt_notes = []\<rparr>))"

section \<open>The key of a turn\<close>

definition interrupted_notice :: utf16 where
  "interrupted_notice = lit ''The previous response was interrupted. Continue from where you left off without repeating completed content.''"

text \<open>Trailing parts that are host notes do not identify a turn; the first part always does.\<close>

fun drop_note_parts :: "prompt_part list \<Rightarrow> prompt_part list" where
  "drop_note_parts [] = []"
| "drop_note_parts [p] = [p]"
| "drop_note_parts (p # q # ps) = (if hostTailNote (UserMsg [p]) \<noteq> None then drop_note_parts (q # ps) else p # q # ps)"

definition turn_messages :: "prompt \<Rightarrow> prompt" where
  "turn_messages p = map (\<lambda>m. case m of UserMsg ps \<Rightarrow> UserMsg (rev (drop_note_parts (rev ps))) | _ \<Rightarrow> m)
     (filter (\<lambda>m. \<not> is_system m \<and> hostTailNote m = None) p)"

text \<open>The messages up to the last of the user.\<close>

definition up_to_user :: "prompt \<Rightarrow> prompt" where
  "up_to_user ms = rev (dropWhile (\<lambda>m. \<not> is_user m) (rev ms))"

text \<open>\<open>digest\<close> is the SHA-256 of the JSON text of the messages.\<close>

definition retryTurnKey :: "(prompt \<Rightarrow> 'k) \<Rightarrow> prompt \<Rightarrow> bool \<Rightarrow> 'k" where
  "retryTurnKey digest p withoutLastInterruptionNotice =
     (let ms = up_to_user (turn_messages p) in
      if withoutLastInterruptionNotice \<and> ms \<noteq> [] \<and> last ms = UserMsg [TextPart interrupted_notice]
          \<and> butlast ms \<noteq> [] \<and> is_assistant (last (butlast ms))
        then digest (up_to_user (butlast ms)) else digest ms)"

section \<open>History of a rebuilt conversation\<close>

datatype seed_role = SeedSystem | SeedUser | SeedAssistant
datatype result_mode = OmitResults | AllResults | TrailingResults

type_synonym seed_message = "seed_role \<times> utf16"

record history_options =
  ho_preserveTrailingUser :: bool
  ho_toolResults :: result_mode
  ho_liveTurnStart :: "nat option"

definition formatSeedToolObservation :: "text_env \<Rightarrow> utf16 \<Rightarrow> utf16 \<Rightarrow> utf16 \<Rightarrow> bool \<Rightarrow> utf16" where
  "formatSeedToolObservation env tool callId out is_error =
     lit ''OpenCode host observation '' @ stringify env (JObject [(lit ''source'', JString (lit ''opencode-tool'')), (lit ''tool'', JString tool),
       (lit ''callId'', JString callId), (lit ''status'', JString (if is_error then lit ''error'' else lit ''completed''))])
     @ lit '':'' @ [nl] @ out"

definition appendSeedHistory :: "seed_message list \<Rightarrow> seed_role \<Rightarrow> utf16 \<Rightarrow> seed_message list" where
  "appendSeedHistory out role content =
     (if content = [] then out
      else if out \<noteq> [] \<and> fst (last out) = role then butlast out @ [(role, snd (last out) @ blank_line_sep @ content)]
      else out @ [(role, content)])"

definition seed_observation :: "text_env \<Rightarrow> result_part \<Rightarrow> utf16" where
  "seed_observation env r =
     (let tool = (if rp_tool r = [] then lit ''tool'' else rp_tool r);
          (txt, is_error) = (case toolResultFailure (rp_options r) (rp_callId r) of
              Some f \<Rightarrow> (nf_text f, True) | None \<Rightarrow> toolResultOutputToText env (Some tool) (rp_output r))
      in formatSeedToolObservation env tool (rp_callId r) txt is_error)"

text \<open>Where the results of the last step start, behind the host notes; the length of the prompt if there are none.\<close>

definition notes_start :: "prompt \<Rightarrow> nat" where
  "notes_start p = length p - length (takeWhile (\<lambda>m. hostTailNote m \<noteq> None) (rev p))"

definition trailing_tool_start :: "prompt \<Rightarrow> nat" where
  "trailing_tool_start p =
     (let e = notes_start p; s = e - length (takeWhile is_tool (rev (take e p))) in if s = e then length p else s)"

definition seed_message :: "text_env \<Rightarrow> bool \<Rightarrow> prompt_message \<Rightarrow> seed_message list \<Rightarrow> seed_message list" where
  "seed_message env results m out =
     (case m of
        SystemMsg s \<Rightarrow> if s = [] then out else out @ [(SeedSystem, s)]
      | UserMsg ps \<Rightarrow> (let t = extractUserText ps in if t = [] \<or> t = dot_text then out else out @ [(SeedUser, t)])
      | AssistantMsg ps \<Rightarrow> (let t = extractAssistantHistoryText ps in if t = [] then out else appendSeedHistory out SeedAssistant t)
      | ToolMsg ps \<Rightarrow> (let rs = map (seed_observation env) (result_parts ps) in
          if \<not> results \<or> rs = [] then out else appendSeedHistory out SeedUser (join_with blank_line_sep rs)))"

text \<open>The loop, with the index of the first message.\<close>

fun seed_loop :: "text_env \<Rightarrow> history_options \<Rightarrow> nat \<Rightarrow> nat \<Rightarrow> prompt \<Rightarrow> seed_message list \<Rightarrow> seed_message list" where
  "seed_loop env op start i [] out = out"
| "seed_loop env op start i (m # ms) out =
     (if \<not> ho_preserveTrailingUser op \<and> (case ho_liveTurnStart op of None \<Rightarrow> False | Some l \<Rightarrow> l \<le> i) then out
      else seed_loop env op start (Suc i) ms
        (seed_message env (ho_toolResults op = AllResults \<or> ho_toolResults op = TrailingResults \<and> start \<le> i) m out))"

definition extractPromptHistory :: "text_env \<Rightarrow> history_options \<Rightarrow> prompt \<Rightarrow> seed_message list" where
  "extractPromptHistory env op p =
     (let out = seed_loop env op (trailing_tool_start p) 0 p [] in
      if ho_liveTurnStart op = None \<and> \<not> ho_preserveTrailingUser op \<and> out \<noteq> [] \<and> fst (last out) = SeedUser then butlast out else out)"

section \<open>Approved plan stages\<close>

definition CURSOR_PLAN_STAGE_TOOL :: utf16 where "CURSOR_PLAN_STAGE_TOOL = lit ''cursor_plan_stage''"

text \<open>The first plan result not of this provider's own exec calls, over the tool messages from the last one back.\<close>

definition plan_result :: "prompt_message \<Rightarrow> result_part option" where
  "plan_result m = (case m of ToolMsg ps \<Rightarrow> find (\<lambda>r. rp_tool r = CURSOR_PLAN_STAGE_TOOL \<and> parseExecIdFromToolCallId (rp_callId r) = None) (result_parts ps) | _ \<Rightarrow> None)"

definition hasApprovedUncorrelatedPlanStageResult :: "text_env \<Rightarrow> prompt \<Rightarrow> bool" where
  "hasApprovedUncorrelatedPlanStageResult env p =
     (let live = take (lt_end (liveTail p)) p in
      case find (\<lambda>r. r \<noteq> None) (map plan_result (takeWhile is_tool (rev live))) of
        Some (Some r) \<Rightarrow> \<not> snd (toolResultOutputToText env None (rp_output r)) \<and> toolResultFailure (rp_options r) (rp_callId r) = None
      | _ \<Rightarrow> False)"


section \<open>Retries of a turn\<close>

lemma turn_messages_append: "turn_messages (p @ q) = turn_messages p @ turn_messages q"
  by (simp add: turn_messages_def)

lemma turn_messages_notes: "list_all (\<lambda>m. hostTailNote m \<noteq> None) ns \<Longrightarrow> turn_messages ns = []"
  by (induction ns) (auto simp: turn_messages_def)

lemma turn_messages_assistant: "turn_messages [AssistantMsg as] = [AssistantMsg as]"
  by (simp add: turn_messages_def)

lemma up_to_user_append: "\<not> is_user m \<Longrightarrow> up_to_user (ms @ [m]) = up_to_user ms"
  by (simp add: up_to_user_def)

lemma up_to_user_user: "is_user m \<Longrightarrow> up_to_user (ms @ [m]) = ms @ [m]"
  by (simp add: up_to_user_def)

lemma up_to_user_length: "length (up_to_user ms) \<le> length ms"
  using length_dropWhile_le [of _ "rev ms"] by (simp add: up_to_user_def)

lemma notice_is_no_note: "turn_messages [UserMsg [TextPart interrupted_notice]] = [UserMsg [TextPart interrupted_notice]]"
  by code_simp

lemma user_turn_message: "hostTailNote (UserMsg us) = None \<Longrightarrow> turn_messages [UserMsg us] = [UserMsg (rev (drop_note_parts (rev us)))]"
  by (simp add: turn_messages_def)

text \<open>A retry of the host is recognised as the same user turn, and a new message is not. After a partial
reply the host sends the prompt again with that reply, and OpenCode 2 also with its own notice that the reply
was interrupted; host notes may come and go around them. The key of such a prompt is the key of the turn, so
the retry spends the turn's budget. A further message of the user, other than that notice, gives another key,
with or without the rule for the notice.\<close>

theorem retry_keeps_the_turn_key:
  assumes "inj digest" "list_all (\<lambda>m. hostTailNote m \<noteq> None) (ns @ ns')"
    and "hostTailNote (UserMsg us) = None" "rev (drop_note_parts (rev us)) \<noteq> [TextPart interrupted_notice]"
  shows "retryTurnKey digest (p @ [AssistantMsg as] @ ns) False = retryTurnKey digest p False
    \<and> retryTurnKey digest (p @ [AssistantMsg as] @ ns @ [UserMsg [TextPart interrupted_notice]] @ ns') True = retryTurnKey digest p False
    \<and> retryTurnKey digest (p @ [AssistantMsg as] @ ns @ [UserMsg us] @ ns') flag \<noteq> retryTurnKey digest p False"
proof (intro conjI)
  have n: "turn_messages ns = []" "turn_messages ns' = []" using assms(2) turn_messages_notes by auto
  show "retryTurnKey digest (p @ [AssistantMsg as] @ ns) False = retryTurnKey digest p False"
  proof -
    have t: "turn_messages (p @ [AssistantMsg as] @ ns) = turn_messages p @ [AssistantMsg as]"
      by (simp only: turn_messages_append n turn_messages_assistant append_Nil2)
    show ?thesis unfolding retryTurnKey_def t by (simp add: up_to_user_append)
  qed
  show "retryTurnKey digest (p @ [AssistantMsg as] @ ns @ [UserMsg [TextPart interrupted_notice]] @ ns') True = retryTurnKey digest p False"
  proof -
    have t: "turn_messages (p @ [AssistantMsg as] @ ns @ [UserMsg [TextPart interrupted_notice]] @ ns')
        = (turn_messages p @ [AssistantMsg as]) @ [UserMsg [TextPart interrupted_notice]]"
      by (simp only: turn_messages_append n turn_messages_assistant notice_is_no_note append_Nil append_Nil2 append_assoc)
    then show ?thesis unfolding retryTurnKey_def t
      by (simp add: up_to_user_user up_to_user_append Let_def del: append_assoc)
  qed
  show "retryTurnKey digest (p @ [AssistantMsg as] @ ns @ [UserMsg us] @ ns') flag \<noteq> retryTurnKey digest p False"
  proof -
    let ?u = "UserMsg (rev (drop_note_parts (rev us)))"
    have t: "turn_messages (p @ [AssistantMsg as] @ ns @ [UserMsg us] @ ns') = (turn_messages p @ [AssistantMsg as]) @ [?u]"
      by (simp only: turn_messages_append n turn_messages_assistant user_turn_message [OF assms(3)] append_Nil append_assoc append_Nil2)
    have "up_to_user (turn_messages p) \<noteq> (turn_messages p @ [AssistantMsg as]) @ [?u]"
      using up_to_user_length [of "turn_messages p"] by auto
    then show ?thesis
      using assms(1,4) unfolding retryTurnKey_def t by (simp add: up_to_user_user inj_eq Let_def del: append_assoc)
  qed
qed

theorem retry_keeps_the_turn_key_witness:
  "retryTurnKey (\<lambda>m. m) ([UserMsg [TextPart [104]]] @ [AssistantMsg [TextPart [105]]] @ [SystemMsg []] @ [UserMsg [TextPart interrupted_notice]] @ []) True
     = retryTurnKey (\<lambda>m. m) [UserMsg [TextPart [104]]] False
   \<and> retryTurnKey (\<lambda>m. m) ([UserMsg [TextPart [104]]] @ [AssistantMsg [TextPart [105]]] @ [SystemMsg []] @ [UserMsg [TextPart [104]]] @ []) True
     \<noteq> retryTurnKey (\<lambda>m. m) [UserMsg [TextPart [104]]] False"
proof -
  have "hostTailNote (UserMsg [TextPart [104]]) = None" by code_simp
  moreover have "rev (drop_note_parts (rev [TextPart [104]])) \<noteq> [TextPart interrupted_notice]" by code_simp
  moreover have "list_all (\<lambda>m. hostTailNote m \<noteq> None) ([SystemMsg []] @ [])" by simp
  ultimately show ?thesis
    using retry_keeps_the_turn_key [of "\<lambda>m. m" "[SystemMsg []]" "[]" "[TextPart [104]]" "[UserMsg [TextPart [104]]]" "[TextPart [105]]" True]
    by (simp add: inj_def)
qed

section \<open>Whose words the history holds\<close>

text \<open>Other outputs of the same tool calls.\<close>

fun mask_part :: "(result_part \<Rightarrow> tool_output) \<Rightarrow> prompt_part \<Rightarrow> prompt_part" where
  "mask_part f (ResultPart r) = ResultPart (r\<lparr>rp_output := f r\<rparr>)"
| "mask_part f p = p"

fun mask :: "(result_part \<Rightarrow> tool_output) \<Rightarrow> prompt_message \<Rightarrow> prompt_message" where
  "mask f (ToolMsg ps) = ToolMsg (map (mask_part f) ps)"
| "mask f m = m"

definition same_but_users :: "seed_message list \<Rightarrow> seed_message list \<Rightarrow> bool" where
  "same_but_users a b \<longleftrightarrow> list_all2 (\<lambda>(r, t) (r', t'). r = r' \<and> (r \<noteq> SeedUser \<longrightarrow> t = t')) a b"

lemma result_parts_mask: "result_parts (map (mask_part f) ps) = map (\<lambda>r. r\<lparr>rp_output := f r\<rparr>) (result_parts ps)"
  by (induction ps rule: result_parts.induct) auto

lemma observation_nonempty: "join_with sep (map (seed_observation env) rs) \<noteq> [] \<longleftrightarrow> rs \<noteq> []"
proof -
  have n: "seed_observation env r \<noteq> []" for r by (simp add: seed_observation_def formatSeedToolObservation_def Let_def split: prod.split)
  show ?thesis by (cases rs rule: remdups_adj.cases) (auto simp: n)
qed

lemma same_last: "same_but_users a b \<Longrightarrow> a \<noteq> [] \<Longrightarrow> b \<noteq> [] \<and> fst (last a) = fst (last b) \<and> (fst (last a) \<noteq> SeedUser \<longrightarrow> snd (last a) = snd (last b)) \<and> same_but_users (butlast a) (butlast b)"
proof -
  assume ab: "same_but_users a b" "a \<noteq> []"
  obtain ys r t where a: "a = ys @ [(r, t)]" using ab(2) by (metis prod.exhaust rev_exhaust)
  have "length a = length b" using ab(1) by (simp add: same_but_users_def list_all2_lengthD)
  then obtain zs r' t' where b: "b = zs @ [(r', t')]" "length ys = length zs" using a by (cases b rule: rev_cases) auto
  then show ?thesis using ab(1) by (simp add: a same_but_users_def list_all2_append)
qed

lemma same_snoc: "same_but_users a b \<Longrightarrow> (r \<noteq> SeedUser \<Longrightarrow> t = t') \<Longrightarrow> same_but_users (a @ [(r, t)]) (b @ [(r, t')])"
  unfolding same_but_users_def by (rule list_all2_appendI) auto

lemma same_Nil: "same_but_users a b \<Longrightarrow> a = [] \<longleftrightarrow> b = []"
  by (auto simp: same_but_users_def)

lemma same_append_seed:
  assumes "same_but_users a b" "x = [] \<longleftrightarrow> y = []" "role \<noteq> SeedUser \<Longrightarrow> x = y"
  shows "same_but_users (appendSeedHistory a role x) (appendSeedHistory b role y)"
proof (cases "a = []")
  case True
  then show ?thesis using assms same_Nil [OF assms(1)] same_snoc [of "[]" "[]" role x y] by (auto simp: appendSeedHistory_def same_but_users_def)
next
  case False
  note l = same_last [OF assms(1) False]
  show ?thesis
    using l assms False by (auto simp: appendSeedHistory_def intro!: same_snoc)
qed

lemma mask_kind [simp]: "hostTailNote (mask f m) = hostTailNote m" "is_tool (mask f m) = is_tool m"
  by (cases m; simp)+

lemma trailing_start_mask: "trailing_tool_start (map (mask f) p) = trailing_tool_start p"
proof -
  have n: "notes_start (map (mask f) p) = notes_start p"
    by (simp add: notes_start_def rev_map takeWhile_map o_def)
  show ?thesis
    by (simp add: trailing_tool_start_def n take_map rev_map takeWhile_map o_def Let_def)
qed

lemma same_seed_message: "same_but_users a b \<Longrightarrow> same_but_users (seed_message env res (mask f m) a) (seed_message env res m b)"
proof (cases m)
  case (ToolMsg ps)
  assume s: "same_but_users a b"
  have "join_with blank_line_sep (map (seed_observation env) rs) = [] \<longleftrightarrow> rs = []" for rs
    using observation_nonempty by blast
  then show ?thesis
    using same_append_seed [OF s, of "join_with blank_line_sep (map (seed_observation env) (map (\<lambda>r. r\<lparr>rp_output := f r\<rparr>) (result_parts ps)))"
        "join_with blank_line_sep (map (seed_observation env) (result_parts ps))" SeedUser] s
    by (simp add: ToolMsg seed_message_def result_parts_mask Let_def del: map_map)
qed (auto simp: seed_message_def Let_def intro: same_snoc same_append_seed)

lemma same_seed_loop: "same_but_users a b \<Longrightarrow> same_but_users (seed_loop env op start i (map (mask f) ms) a) (seed_loop env op start i ms b)"
proof (induction ms arbitrary: i a b)
  case (Cons m ms)
  show ?case using Cons.prems Cons.IH [OF same_seed_message [OF Cons.prems]] by simp
qed simp

lemma same_filter: "same_but_users a b \<Longrightarrow> filter (\<lambda>(r, t). r \<noteq> SeedUser) a = filter (\<lambda>(r, t). r \<noteq> SeedUser) b"
  unfolding same_but_users_def by (induction a b rule: list_all2_induct) auto

lemma omit_seed_loop: "ho_toolResults op = OmitResults \<Longrightarrow> seed_loop env op start i (map (mask f) ms) out = seed_loop env op start i ms out"
proof (induction ms arbitrary: i out)
  case (Cons m ms)
  have "seed_message env False (mask f m) out = seed_message env False m out" by (cases m) (simp_all add: seed_message_def)
  then show ?case using Cons by simp
qed simp

text \<open>The messages a seed is made of: those before the live turn, unless it is kept as well; \<open>i\<close> is the index of the first.\<close>

definition seeded_from :: "nat \<Rightarrow> history_options \<Rightarrow> prompt \<Rightarrow> prompt" where
  "seeded_from i op p = (if ho_preserveTrailingUser op then p else case ho_liveTurnStart op of None \<Rightarrow> p | Some l \<Rightarrow> take (l - i) p)"

fun model_said :: "prompt_message \<Rightarrow> utf16 list" where
  "model_said (AssistantMsg ps) = filter (\<lambda>t. t \<noteq> []) [extractAssistantHistoryText ps]"
| "model_said m = []"

fun system_said :: "prompt_message \<Rightarrow> utf16 list" where
  "system_said (SystemMsg t) = filter (\<lambda>t. t \<noteq> []) [t]"
| "system_said m = []"

definition entries :: "seed_role \<Rightarrow> seed_message list \<Rightarrow> utf16 list" where
  "entries role out = map snd (filter (\<lambda>(r, t). r = role) out)"

text \<open>The assistant entries are these words, some of them joined, all of them in order.\<close>

definition model_entries :: "seed_message list \<Rightarrow> utf16 list \<Rightarrow> bool" where
  "model_entries out ws \<longleftrightarrow> (\<exists>gs. entries SeedAssistant out = map (join_with blank_line_sep) gs \<and> [] \<notin> set gs \<and> concat gs = ws)"

lemma entries_simps [simp]:
  "entries role [] = []" "entries role (out @ [(r, t)]) = entries role out @ (if r = role then [t] else [])"
  by (simp_all add: entries_def)

lemma entries_seed_other: "r \<noteq> role \<Longrightarrow> entries role (appendSeedHistory out r t) = entries role out"
  by (cases out rule: rev_cases) (auto simp: appendSeedHistory_def entries_def)

lemma join_with_snoc: "g \<noteq> [] \<Longrightarrow> join_with sep (g @ [t]) = join_with sep g @ sep @ t"
  by (induction sep g rule: join_with.induct) auto

lemma model_entries_seed: "model_entries out ws \<Longrightarrow> t \<noteq> [] \<Longrightarrow> model_entries (appendSeedHistory out SeedAssistant t) (ws @ [t])"
proof -
  assume "model_entries out ws" and t: "t \<noteq> []"
  then obtain gs where gs: "entries SeedAssistant out = map (join_with blank_line_sep) gs" "[] \<notin> set gs" "concat gs = ws"
    unfolding model_entries_def by blast
  show ?thesis
  proof (cases "out \<noteq> [] \<and> fst (last out) = SeedAssistant")
    case True
    then obtain out0 u where out: "out = out0 @ [(SeedAssistant, u)]" by (metis prod.collapse append_butlast_last_id)
    with gs(1) obtain gs0 g where g: "gs = gs0 @ [g]" by (cases gs rule: rev_cases) auto
    have "entries SeedAssistant (appendSeedHistory out SeedAssistant t) = map (join_with blank_line_sep) (gs0 @ [g @ [t]])"
      using gs(1,2) t join_with_snoc [of g blank_line_sep t] unfolding out g by (auto simp: appendSeedHistory_def)
    then show ?thesis using gs(2,3) g unfolding model_entries_def by (intro exI [of _ "gs0 @ [g @ [t]]"]) simp
  next
    case False
    then have "entries SeedAssistant (appendSeedHistory out SeedAssistant t) = map (join_with blank_line_sep) (gs @ [[t]])"
      using gs(1) t by (auto simp: appendSeedHistory_def)
    then show ?thesis using gs(2,3) unfolding model_entries_def by (intro exI [of _ "gs @ [[t]]"]) simp
  qed
qed

lemma said_message:
  assumes "model_entries out ws"
  shows "model_entries (seed_message env res m out) (ws @ model_said m)"
    and "entries SeedSystem (seed_message env res m out) = entries SeedSystem out @ system_said m"
  using assms model_entries_seed [OF assms]
  by (cases m; simp add: seed_message_def Let_def entries_seed_other model_entries_def)+

lemma said_loop:
  assumes "model_entries out ws"
  shows "model_entries (seed_loop env op start i ms out) (ws @ concat (map model_said (seeded_from i op ms)))
    \<and> entries SeedSystem (seed_loop env op start i ms out) = entries SeedSystem out @ concat (map system_said (seeded_from i op ms))"
  using assms
proof (induction ms arbitrary: i out ws)
  case Nil
  then show ?case by (simp add: seeded_from_def split: option.split)
next
  case (Cons m ms)
  show ?case
  proof (cases "\<not> ho_preserveTrailingUser op \<and> (case ho_liveTurnStart op of None \<Rightarrow> False | Some l \<Rightarrow> l \<le> i)")
    case True
    then show ?thesis using Cons.prems by (auto simp: seeded_from_def split: option.splits)
  next
    case False
    then have "seeded_from i op (m # ms) = m # seeded_from (Suc i) op ms"
      by (auto simp: seeded_from_def Suc_diff_Suc [symmetric] split: option.splits)
    then show ?thesis
      using Cons.IH [OF said_message(1) [OF Cons.prems], of "Suc i" env
        "ho_toolResults op = AllResults \<or> ho_toolResults op = TrailingResults \<and> start \<le> i" m]
      by (simp only: seed_loop.simps if_not_P [OF False] said_message(2) [OF Cons.prems] list.map concat.simps append_assoc)
  qed
qed

lemma entries_butlast: "out \<noteq> [] \<Longrightarrow> fst (last out) = r \<Longrightarrow> r \<noteq> role \<Longrightarrow> entries role (butlast out) = entries role out"
  by (cases out rule: rev_cases) auto

lemma said_history:
  "model_entries (extractPromptHistory env op p) (concat (map model_said (seeded_from 0 op p)))
   \<and> entries SeedSystem (extractPromptHistory env op p) = concat (map system_said (seeded_from 0 op p))"
  using said_loop [of "[]" "[]" env op "trailing_tool_start p" 0 p]
  by (auto simp: extractPromptHistory_def model_entries_def Let_def entries_butlast)

text \<open>C27: What a tool printed, what the user wrote and what the host noted is never replayed as something the model
said. The assistant entries of the seed, some of them joined from several replies by a blank line, are exactly
the non-empty texts of the history's assistant messages, each once and in order, and the system entries are
exactly the texts of its system messages; every other word is in a user entry. However the results of the
history's tool calls are replaced - by text that looks like a reply, say - these entries stay as they were,
and so do the number, order and role of all entries; when the seed is built without results, as for an
ordinary turn, no entry depends on what tools printed at all.\<close>

theorem tool_output_is_never_the_models_words:
  "(\<exists>gs. entries SeedAssistant (extractPromptHistory env op p) = map (join_with blank_line_sep) gs \<and> [] \<notin> set gs
      \<and> concat gs = concat (map model_said (seeded_from 0 op p)))
   \<and> entries SeedSystem (extractPromptHistory env op p) = concat (map system_said (seeded_from 0 op p))
   \<and> filter (\<lambda>(r, t). r \<noteq> SeedUser) (extractPromptHistory env op (map (mask f) p)) = filter (\<lambda>(r, t). r \<noteq> SeedUser) (extractPromptHistory env op p)
   \<and> map fst (extractPromptHistory env op (map (mask f) p)) = map fst (extractPromptHistory env op p)
   \<and> extractPromptHistory env (op\<lparr>ho_toolResults := OmitResults\<rparr>) (map (mask f) p) = extractPromptHistory env (op\<lparr>ho_toolResults := OmitResults\<rparr>) p"
proof -
  define a b where d: "a = seed_loop env op (trailing_tool_start p) 0 (map (mask f) p) []" "b = seed_loop env op (trailing_tool_start p) 0 p []"
  have ab: "same_but_users a b" unfolding d by (rule same_seed_loop) (simp add: same_but_users_def)
  have s: "same_but_users (extractPromptHistory env op (map (mask f) p)) (extractPromptHistory env op p)"
  proof (cases "a = []")
    case True
    then show ?thesis using ab same_Nil [OF ab] by (simp add: extractPromptHistory_def trailing_start_mask d [symmetric] Let_def)
  next
    case False
    then show ?thesis using same_last [OF ab False] ab by (simp add: extractPromptHistory_def trailing_start_mask d [symmetric] Let_def)
  qed
  moreover have "map fst x = map fst y" if "same_but_users x y" for x y
    using that unfolding same_but_users_def by (induction x y rule: list_all2_induct) auto
  ultimately show ?thesis using same_filter [OF s] said_history [of env op p]
    by (simp add: extractPromptHistory_def trailing_start_mask omit_seed_loop model_entries_def)
qed

section \<open>Results behind notes\<close>

lemma live_tail_notes:
  "list_all (\<lambda>m. hostTailNote m \<noteq> None) ns \<Longrightarrow>
     live_tail_loop (rev ns @ q) N M = live_tail_loop q (concat (map (\<lambda>m. note_text (the (hostTailNote m))) ns) @ N)
       (concat (map (\<lambda>m. note_media (the (hostTailNote m))) ns) @ M)"
proof (induction ns arbitrary: N M rule: rev_induct)
  case (snoc m ns)
  then show ?case by (auto split: option.splits)
qed simp

lemma liveTail_tool:
  assumes "list_all (\<lambda>m. hostTailNote m \<noteq> None) ns"
  shows "liveTail (p @ [ToolMsg ps] @ ns) = \<lparr>lt_end = Suc (length p), lt_notes = concat (map (\<lambda>m. note_text (the (hostTailNote m))) ns),
    lt_media = concat (map (\<lambda>m. note_media (the (hostTailNote m))) ns)\<rparr>"
  using live_tail_notes [OF assms, of "ToolMsg ps # rev p" "[]" "[]"] by (simp add: liveTail_def)

text \<open>Notes the host appends behind the results of a step do not cost the held Run those results. System
updates, nested instructions and shell notices behind the tool messages leave every result as it is - its call,
its exec, its text, its media and its error - and their texts, in order, join the notes of the last result.\<close>

theorem results_survive_trailing_notes:
  assumes "list_all (\<lambda>m. hostTailNote m \<noteq> None) ns" "list_all (\<lambda>m. note_media (the (hostTailNote m)) = []) ns"
  shows "extractTrailingToolResults env st route (p @ [ToolMsg ps] @ ns) =
    (let rs = extractTrailingToolResults env st route (p @ [ToolMsg ps]); notes = concat (map (\<lambda>m. note_text (the (hostTailNote m))) ns)
     in if rs = [] \<or> notes = [] then rs
        else butlast rs @ [((fst (last rs))\<lparr>rc_notes := rc_notes (fst (last rs)) @ notes\<rparr>, snd (last rs))])"
proof -
  have m: "concat (map (\<lambda>m. note_media (the (hostTailNote m))) ns) = []" using assms(2) by (simp add: list_all_iff)
  note t = liveTail_tool [OF assms(1), of p ps] liveTail_tool [of "[]" p ps, simplified]
  have s: "tool_tail (p @ [ToolMsg ps]) \<noteq> []" by (simp add: tool_tail_def)
  show ?thesis using s unfolding extractTrailingToolResults_def t m by (simp add: Let_def)
qed

definition demo_route :: "utf16 \<Rightarrow> exec_ref option" where "demo_route _ = None"

definition demo_env :: text_env where "demo_env = \<lparr>stringify = (\<lambda>_. []), fmt_number = (\<lambda>_. [])\<rparr>"

definition demo_tool_message :: prompt_message where
  "demo_tool_message = ToolMsg [ResultPart \<lparr>rp_callId = lit ''cursor_s_7'', rp_tool = lit ''grep'', rp_output = TextOut (lit ''hit''), rp_options = JNull\<rparr>]"

theorem results_survive_trailing_notes_witness:
  "extractTrailingToolResults demo_env shell_start demo_route ([] @ [demo_tool_message] @ [SystemMsg (lit ''note'')]) =
    (let rs = extractTrailingToolResults demo_env shell_start demo_route ([] @ [demo_tool_message]); notes = [lit ''note'']
     in if rs = [] \<or> notes = [] then rs
        else butlast rs @ [((fst (last rs))\<lparr>rc_notes := rc_notes (fst (last rs)) @ notes\<rparr>, snd (last rs))])"
  using results_survive_trailing_notes [of "[SystemMsg (lit ''note'')]" demo_env shell_start demo_route "[]" "case demo_tool_message of ToolMsg ps \<Rightarrow> ps"]
  by (simp add: note_text_def note_media_def demo_tool_message_def lit_def)

section \<open>Tool call ids\<close>

record tool_call_part =
  tp_toolCallId :: utf16
  tp_toolName :: utf16
  tp_input :: utf16

text \<open>The exec id is a number of the wire, put into text as JavaScript does.\<close>

definition buildToolCallPart :: "text_env \<Rightarrow> utf16 \<Rightarrow> js_int \<Rightarrow> utf16 \<Rightarrow> json \<Rightarrow> tool_call_part" where
  "buildToolCallPart env sessionId execId toolName args =
     \<lparr>tp_toolCallId = lit ''cursor_'' @ sessionId @ [95] @ fmt_number env execId, tp_toolName = toolName, tp_input = stringify env args\<rparr>"

definition earlyRowToolCallId :: "(utf16 \<Rightarrow> utf16) \<Rightarrow> utf16 \<Rightarrow> utf16 \<Rightarrow> utf16" where
  "earlyRowToolCallId digest sessionId cursorCallId = lit ''cursor-early_'' @ sessionId @ [95] @ take 12 (digest cursorCallId)"

definition cursorEditFailureToolCallId :: "(utf16 \<Rightarrow> utf16) \<Rightarrow> utf16 \<Rightarrow> utf16 \<Rightarrow> utf16" where
  "cursorEditFailureToolCallId digest sessionId cursorCallId = earlyRowToolCallId digest sessionId (cursorCallId @ [nl] @ lit ''failed'')"

lemma takeWhile_digits_decimal: "takeWhile is_digit (rev (front @ 95 # decimal n)) = rev (decimal n)"
proof -
  have "list_all is_digit (rev (decimal n))" using decimal_digits by (simp add: list_all_iff)
  then have "takeWhile is_digit (rev (decimal n) @ 95 # rev front) = rev (decimal n)"
    by (auto simp: takeWhile_append list_all_iff is_digit_def)
  then show ?thesis by simp
qed

text \<open>A tool call's id names its exec. The id built for an exec of a session - any number a JavaScript
program holds exactly, any session name on one line, with underscores too - is read back as that session and
that exec. The id of an early row is read as its session with no exec, and neither kind is taken for the
other.\<close>

theorem exec_id_roundtrip:
  assumes "formats_safe (fmt_number env)" "n < 2 ^ 53" "sid \<noteq> []" "list_all dot sid" "95 \<notin> set row_sid" "row_sid \<noteq> []" "digest call \<noteq> []"
  shows "parseExecIdFromToolCallId (tp_toolCallId (buildToolCallPart env sid (JsInt (int n)) tool args)) = Some (sid, int n)
    \<and> parseEarlyRowToolCallId (earlyRowToolCallId digest row_sid call) = Some (row_sid, UNBOUND_EXEC_ID)
    \<and> parseExecIdFromToolCallId (earlyRowToolCallId digest row_sid call) = None
    \<and> parseEarlyRowToolCallId (tp_toolCallId (buildToolCallPart env sid (JsInt (int n)) tool args)) = None"
proof (intro conjI)
  have f: "fmt_number env (JsInt (int n)) = decimal n" using assms(1,2) by (simp add: formats_safe_def)
  have prefix7: "starts_with (lit ''cursor_'') (lit ''cursor_'' @ s)" "drop 7 (lit ''cursor_'' @ s) = s" for s
    by (simp, simp add: lit_def)
  show "parseExecIdFromToolCallId (tp_toolCallId (buildToolCallPart env sid (JsInt (int n)) tool args)) = Some (sid, int n)"
    unfolding buildToolCallPart_def tool_call_part.simps parseExecIdFromToolCallId_def f prefix7 Let_def
    using assms(2-4) takeWhile_digits_decimal [of sid n] by (simp add: js_round_exact)
  have prefix13: "starts_with (lit ''cursor-early_'') (lit ''cursor-early_'' @ s)" "drop 13 (lit ''cursor-early_'' @ s) = s" for s
    by (simp, simp add: lit_def)
  have i: "indexOf (row_sid @ [95] @ take 12 (digest call)) [95] 0 = Some (length row_sid)"
  proof -
    have "\<not> starts_with [95] (drop j row_sid @ x)" if "j < length row_sid" for j x
    proof -
      have "row_sid ! j \<noteq> 95" using assms(5) that nth_mem by metis
      then show ?thesis using Cons_nth_drop_Suc [OF that, symmetric] by (simp add: starts_with_def)
    qed
    moreover have "starts_with [95] (95 # x)" for x by (simp add: starts_with_def)
    ultimately show ?thesis by (auto simp: indexOf_Some)
  qed
  show "parseEarlyRowToolCallId (earlyRowToolCallId digest row_sid call) = Some (row_sid, UNBOUND_EXEC_ID)"
    unfolding earlyRowToolCallId_def parseEarlyRowToolCallId_def prefix13 Let_def i using assms(6,7) by simp
  show "parseExecIdFromToolCallId (earlyRowToolCallId digest row_sid call) = None"
    by (simp add: earlyRowToolCallId_def parseExecIdFromToolCallId_def starts_with_def lit_def)
  show "parseEarlyRowToolCallId (tp_toolCallId (buildToolCallPart env sid (JsInt (int n)) tool args)) = None"
    by (simp add: buildToolCallPart_def parseEarlyRowToolCallId_def starts_with_def lit_def)
qed

definition demo_fmt :: "js_int \<Rightarrow> utf16" where "demo_fmt i = (case i of JsInt n \<Rightarrow> decimal (nat n) | _ \<Rightarrow> [])"

theorem exec_id_roundtrip_witness:
  "parseExecIdFromToolCallId (tp_toolCallId (buildToolCallPart (demo_env\<lparr>fmt_number := demo_fmt\<rparr>) (lit ''a_b'') (JsInt (int 7)) [] JNull)) = Some (lit ''a_b'', int 7)
   \<and> parseEarlyRowToolCallId (earlyRowToolCallId (\<lambda>c. [97]) (lit ''a-b'') []) = Some (lit ''a-b'', UNBOUND_EXEC_ID)
   \<and> parseExecIdFromToolCallId (earlyRowToolCallId (\<lambda>c. [97]) (lit ''a-b'') []) = None
   \<and> parseEarlyRowToolCallId (tp_toolCallId (buildToolCallPart (demo_env\<lparr>fmt_number := demo_fmt\<rparr>) (lit ''a_b'') (JsInt (int 7)) [] JNull)) = None"
  by (rule exec_id_roundtrip) (simp_all add: formats_safe_def demo_fmt_def lit_def dot_def)

end
