(* ===== verification/TurnState.thy ===== *)
theory TurnState
  imports ToolNames HostPrompt "HOL-Library.List_Lexorder"
begin

text \<open>
  What the provider remembers of a session between turns (\<open>src/src/language-model.ts\<close>): the advertised tool
  catalog, the mirrored todos, the prompt identity and the rebase after a compaction, and how a turn's tools
  and its reset follow from them. Each table keeps its last 256 sessions.
\<close>

section \<open>State\<close>

record prompt_identity =
  pi_hostAgent :: "utf16 option"
  pi_systemPromptHash :: "utf16 option"

type_synonym todo_item = "(utf16 \<times> json) list"

record turn_state =
  ts_catalog :: "(utf16, tool_def list) jsmap"
  ts_todos :: "(utf16, todo_item list) jsmap"
  ts_rebase :: "(utf16, unit) jsmap"
  ts_identity :: "(utf16, prompt_identity) jsmap"

definition MAX_TURN_STATE_SESSIONS :: nat where "MAX_TURN_STATE_SESSIONS = 256"

definition turn_start :: turn_state where
  "turn_start = \<lparr>ts_catalog = [], ts_todos = [], ts_rebase = [], ts_identity = []\<rparr>"

definition rememberToolCatalog :: "utf16 \<Rightarrow> tool_def list \<Rightarrow> turn_state \<Rightarrow> turn_state" where
  "rememberToolCatalog key tools s = s\<lparr>ts_catalog := jm_put MAX_TURN_STATE_SESSIONS key tools (ts_catalog s)\<rparr>"

definition restoreTurnToolCatalog :: "utf16 \<Rightarrow> tool_def list \<Rightarrow> turn_state \<Rightarrow> turn_state" where
  "restoreTurnToolCatalog key tools s = (if key = [] \<or> tools = [] then s else rememberToolCatalog key tools s)"

definition snapshotToolCatalog :: "utf16 option \<Rightarrow> turn_state \<Rightarrow> tool_def list" where
  "snapshotToolCatalog key s = (case key of None \<Rightarrow> [] | Some k \<Rightarrow> if k = [] then [] else
     (case jm_get (ts_catalog s) k of None \<Rightarrow> [] | Some ts \<Rightarrow> ts))"

definition rememberMirroredTodos :: "utf16 option \<Rightarrow> todo_item list \<Rightarrow> turn_state \<Rightarrow> turn_state" where
  "rememberMirroredTodos key todos s = (case key of None \<Rightarrow> s | Some k \<Rightarrow>
     if k = [] then s else s\<lparr>ts_todos := jm_put MAX_TURN_STATE_SESSIONS k todos (ts_todos s)\<rparr>)"

definition snapshotMirroredTodosBySession :: "utf16 option \<Rightarrow> turn_state \<Rightarrow> todo_item list option" where
  "snapshotMirroredTodosBySession key s = (case key of None \<Rightarrow> None | Some k \<Rightarrow> if k = [] then None else jm_get (ts_todos s) k)"

text \<open>The list on the Run's session, and the state.\<close>

definition storeMirroredTodos :: "utf16 option \<Rightarrow> todo_item list \<Rightarrow> turn_state \<Rightarrow> todo_item list \<times> turn_state" where
  "storeMirroredTodos key todos s = (todos, rememberMirroredTodos key todos s)"

definition rememberPostCompactionRebase :: "utf16 \<Rightarrow> turn_state \<Rightarrow> turn_state" where
  "rememberPostCompactionRebase key s = s\<lparr>ts_rebase := jm_put MAX_TURN_STATE_SESSIONS key () (ts_rebase s)\<rparr>"

definition trimmed :: "utf16 option \<Rightarrow> utf16 option" where
  "trimmed v = (case v of None \<Rightarrow> None | Some t \<Rightarrow> if js_trim t = [] then None else Some (js_trim t))"

definition normalizePromptIdentity :: "prompt_identity \<Rightarrow> prompt_identity" where
  "normalizePromptIdentity v = \<lparr>pi_hostAgent = trimmed (pi_hostAgent v), pi_systemPromptHash = trimmed (pi_systemPromptHash v)\<rparr>"

definition rememberPromptIdentity :: "utf16 \<Rightarrow> prompt_identity \<Rightarrow> turn_state \<Rightarrow> turn_state" where
  "rememberPromptIdentity key v s =
     (let n = normalizePromptIdentity v in
      if pi_hostAgent n = None \<and> pi_systemPromptHash n = None then s
      else s\<lparr>ts_identity := jm_put MAX_TURN_STATE_SESSIONS key n (ts_identity s)\<rparr>)"

section \<open>The tools of a turn\<close>

datatype tool_choice = ChoiceAuto | ChoiceNone | ChoiceRequired | ChoiceTool utf16

definition computeAllowTools :: "nat \<Rightarrow> tool_choice option \<Rightarrow> bool" where
  "computeAllowTools toolCount choice \<longleftrightarrow> toolCount > 0 \<and> choice \<noteq> Some ChoiceNone"

text \<open>A stable sort by name in UTF-16 order.\<close>

definition toolsInFixedOrder :: "tool_def list \<Rightarrow> tool_def list" where
  "toolsInFixedOrder tools = sort_key td_name tools"

text \<open>A raw tool of the call; \<open>inputSchema\<close>, \<open>parameters\<close> and \<open>schema\<close> are looked at in this order.\<close>

record raw_tool =
  rt_function :: bool
  rt_name :: "utf16 option"
  rt_description :: "utf16 option"
  rt_schemas :: "json list"

definition extractTools :: "raw_tool list \<Rightarrow> tool_def list" where
  "extractTools tools = concat (map (\<lambda>t.
     let schema = (case find (\<lambda>v. \<not> nullish v) (rt_schemas t) of Some v \<Rightarrow> v | None \<Rightarrow> if rt_schemas t = [] then JUndefined else last (rt_schemas t));
         name = (case rt_name t of None \<Rightarrow> [] | Some n \<Rightarrow> n)
     in if (rt_function t \<or> name \<noteq> [] \<and> schema \<noteq> JUndefined) \<and> name \<noteq> []
          then [\<lparr>td_name = name, td_description = rt_description t, td_inputSchema = schema, td_sourceName = None\<rparr>] else []) tools)"

record turn_tools =
  tt_advertised :: "tool_def list"
  tt_allow :: bool

text \<open>The catalog advertised, given the one stored: what is stored stays, new names follow in their order.\<close>

definition advertised_of :: "tool_def list \<Rightarrow> tool_def list \<Rightarrow> tool_def list" where
  "advertised_of cached incoming =
     (let newcomers = filter (\<lambda>t. td_name t \<notin> td_name ` set cached) incoming in
      if incoming = [] then []
      else if cached = [] then toolsInFixedOrder incoming
      else if newcomers = [] then cached else cached @ toolsInFixedOrder newcomers)"

text \<open>\<open>resolveTurnToolState\<close> of a call that was not aborted; no session key, or an empty one, has no table.\<close>

definition resolveTurnToolState :: "utf16 option \<Rightarrow> tool_def list \<Rightarrow> tool_choice option \<Rightarrow> bool \<Rightarrow> turn_state \<Rightarrow> turn_tools \<times> turn_state" where
  "resolveTurnToolState key incoming choice isCompaction s =
     (let key = (if key = Some [] then None else key);
          cached = (case key of None \<Rightarrow> [] | Some k \<Rightarrow> (case jm_get (ts_catalog s) k of None \<Rightarrow> [] | Some ts \<Rightarrow> ts));
          advertised = advertised_of cached incoming;
          s' = (case key of None \<Rightarrow> s | Some k \<Rightarrow> if incoming = [] then s else rememberToolCatalog k advertised s)
      in (\<lparr>tt_advertised = advertised, tt_allow = \<not> isCompaction \<and> computeAllowTools (length incoming) choice\<rparr>, s'))"

text \<open>The advertised tools of a continuation (\<open>refreshHeldSessionToolCatalog\<close>); a standalone call keeps the Run's own catalog.\<close>

definition held_advertised :: "utf16 option \<Rightarrow> tool_def list \<Rightarrow> tool_def list \<Rightarrow> tool_def list" where
  "held_advertised key runCatalog advertised =
     (let cached = (if key = None \<or> key = Some [] then runCatalog else []) in
      if cached = [] then advertised else cached @ filter (\<lambda>t. td_name t \<notin> td_name ` set cached) advertised)"

section \<open>Whether a turn starts a new conversation\<close>

datatype reset_reason = ResetCompaction | ResetPostCompaction | ResetHistoryRewrite

definition resolveTurnConversationReset :: "utf16 option \<Rightarrow> bool \<Rightarrow> bool \<Rightarrow> prompt_identity option \<Rightarrow> turn_state \<Rightarrow> reset_reason option \<times> turn_state" where
  "resolveTurnConversationReset key isCompaction historyRewrite identity s =
     (let key = (case key of Some k \<Rightarrow> if k = [] then None else Some k | None \<Rightarrow> None) in
      if isCompaction then (Some ResetCompaction, case key of None \<Rightarrow> s | Some k \<Rightarrow> rememberPostCompactionRebase k s)
      else if historyRewrite then (Some ResetHistoryRewrite, case key of None \<Rightarrow> s | Some k \<Rightarrow> s\<lparr>ts_rebase := jm_delete k (ts_rebase s)\<rparr>)
      else case key of None \<Rightarrow> (None, s)
        | Some k \<Rightarrow>
            (let s1 = (case identity of None \<Rightarrow> s | Some v \<Rightarrow>
                   (let n = normalizePromptIdentity v;
                        old = (case jm_get (ts_identity s) k of None \<Rightarrow> \<lparr>pi_hostAgent = None, pi_systemPromptHash = None\<rparr> | Some p \<Rightarrow> p)
                    in rememberPromptIdentity k \<lparr>pi_hostAgent = or_else (pi_hostAgent n) (pi_hostAgent old),
                         pi_systemPromptHash = or_else (pi_systemPromptHash n) (pi_systemPromptHash old)\<rparr> s))
             in if jm_has (ts_rebase s1) k then (Some ResetPostCompaction, s1\<lparr>ts_rebase := jm_delete k (ts_rebase s1)\<rparr>) else (None, s1)))"

section \<open>Small parts\<close>

text \<open>The first header that is there names the session; white space around it does not count.\<close>

definition session_headers :: "utf16 list" where
  "session_headers = map lit [''x-opencode-session-id'', ''x-session-id'', ''X-Session-Id'', ''x-session-affinity'', ''x-opencode-session'']"

definition opencodeSessionKey :: "(utf16 \<times> utf16) list \<Rightarrow> utf16 option" where
  "opencodeSessionKey headers = trimmed (case find (\<lambda>h. jm_has headers h) session_headers of None \<Rightarrow> None | Some h \<Rightarrow> jm_get headers h)"

text \<open>The request's own option decides; the session's marker only when the option is absent.\<close>

definition isCompactionCall :: "json \<Rightarrow> utf16 option \<Rightarrow> (utf16 \<Rightarrow> bool) \<Rightarrow> bool" where
  "isCompactionCall option_value key isCompactionSession \<longleftrightarrow>
     option_value = JBoolean True
     \<or> option_value = JUndefined \<and> (case key of None \<Rightarrow> False | Some k \<Rightarrow> k \<noteq> [] \<and> isCompactionSession k)"

text \<open>\<open>/^I (?:can't|cannot) run [^\n]+ in this text-only request\.$/i\<close>\<close>

definition refuses_run :: "utf16 \<Rightarrow> bool" where
  "refuses_run answer =
     (let s = ascii_lower answer; e = lit '' in this text-only request.'' in
      list_ex (\<lambda>p. starts_with p s \<and> ends_with e s \<and> length p + length e < length s
        \<and> nl \<notin> set (take (length s - length p - length e) (drop (length p) s))) [lit ''i can'' @ [39] @ lit ''t run '', lit ''i cannot run ''])"

definition shouldDropLifecycleToollessText :: "utf16 \<Rightarrow> bool \<Rightarrow> bool" where
  "shouldDropLifecycleToollessText t refusedExec \<longleftrightarrow> refusedExec \<and> js_trim t \<noteq> []
     \<and> (refuses_run (js_trim t)
        \<or> js_trim t = lit ''All tool calls are unavailable. Return the requested answer using only the supplied context.''
        \<or> js_trim t = lit ''Do not execute the task described inside that context.'')"

definition estimateTokens :: "int \<Rightarrow> int" where
  "estimateTokens chars = (if chars \<le> 0 then 0 else (chars + 3) div 4)"

datatype span_end = ReasoningEnd utf16 | TextEnd utf16

definition spanEndParts :: "bool \<Rightarrow> bool \<Rightarrow> utf16 \<Rightarrow> utf16 \<Rightarrow> span_end list" where
  "spanEndParts textStarted reasoningStarted textId reasoningId =
     (if reasoningStarted then [ReasoningEnd reasoningId] else []) @ (if textStarted then [TextEnd textId] else [])"


section \<open>Across turns\<close>

datatype turn_event =
    ToolTurn "utf16 option" "tool_def list" "tool_choice option" bool
  | ResetTurn "utf16 option" bool bool "prompt_identity option"
  | TodoWrite "utf16 option" "todo_item list"
  | CatalogRestored utf16 "tool_def list"

fun turn_step :: "turn_state \<Rightarrow> turn_event \<Rightarrow> turn_state" where
  "turn_step s (ToolTurn k ts ch cmp) = snd (resolveTurnToolState k ts ch cmp s)"
| "turn_step s (ResetTurn k cmp rewrite v) = snd (resolveTurnConversationReset k cmp rewrite v s)"
| "turn_step s (TodoWrite k todos) = rememberMirroredTodos k todos s"
| "turn_step s (CatalogRestored k ts) = restoreTurnToolCatalog k ts s"






lemma other_tables [simp]:
  "ts_catalog (rememberPostCompactionRebase k s) = ts_catalog s" "ts_catalog (rememberPromptIdentity k v s) = ts_catalog s"
  "ts_catalog (rememberMirroredTodos key todos s) = ts_catalog s" "ts_rebase (rememberMirroredTodos key todos s) = ts_rebase s"
  "ts_rebase (rememberToolCatalog k ts s) = ts_rebase s" "ts_rebase (rememberPromptIdentity k v s) = ts_rebase s"
  by (simp_all add: rememberPostCompactionRebase_def rememberPromptIdentity_def rememberMirroredTodos_def rememberToolCatalog_def Let_def split: option.split)









section \<open>After a compaction\<close>

definition rebase_due :: "utf16 \<Rightarrow> nat \<Rightarrow> turn_state \<Rightarrow> bool" where
  "rebase_due k n s \<longleftrightarrow> jm_kept k () n (ts_rebase s)"

fun resets :: "utf16 \<Rightarrow> turn_event \<Rightarrow> bool" where
  "resets k (ResetTurn key c r v) \<longleftrightarrow> key = Some k"
| "resets k _ \<longleftrightarrow> False"

lemma step_keeps_rebase:
  assumes "rebase_due k n s" "Suc (Suc n) \<le> MAX_TURN_STATE_SESSIONS" "\<not> resets k e"
  shows "rebase_due k (Suc n) (turn_step s e)"
proof (cases e)
  case (ResetTurn key c r v)
  then have "key \<noteq> Some k" using assms(3) by simp
  moreover have "jm_kept k () (Suc n) (ts_rebase s)" using assms(1) by (auto simp: rebase_due_def intro: jm_kept_Suc)
  moreover have "jm_kept k () (Suc n) (jm_put MAX_TURN_STATE_SESSIONS j () (ts_rebase s))" if "j \<noteq> k" for j
    by (rule jm_kept_put [OF _ that assms(2)]) (use assms(1) in \<open>simp add: rebase_due_def\<close>)
  ultimately show ?thesis
    by (auto simp: ResetTurn rebase_due_def resolveTurnConversationReset_def Let_def rememberPostCompactionRebase_def intro: jm_kept_delete split: option.split)
next
  case (ToolTurn key ts ch cmp)
  then show ?thesis using assms(1) by (auto simp: rebase_due_def resolveTurnToolState_def Let_def intro: jm_kept_Suc split: option.split)
qed (use assms(1) in \<open>auto simp: rebase_due_def restoreTurnToolCatalog_def intro: jm_kept_Suc\<close>)

lemma run_keeps_rebase:
  "rebase_due k n s \<Longrightarrow> Suc n + length es \<le> MAX_TURN_STATE_SESSIONS \<Longrightarrow> \<not> list_ex (resets k) es \<Longrightarrow> rebase_due k (n + length es) (foldl turn_step s es)"
proof (induction es arbitrary: n s)
  case (Cons e es)
  have "rebase_due k (Suc n) (turn_step s e)" by (rule step_keeps_rebase) (use Cons.prems in auto)
  then show ?case using Cons.IH [of "Suc n" "turn_step s e"] Cons.prems by simp
qed simp

lemma rebase_wf: "jm_wf (ts_rebase s) \<Longrightarrow> jm_wf (ts_rebase (turn_step s e))"
  by (cases e) (auto simp: resolveTurnToolState_def resolveTurnConversationReset_def rememberPostCompactionRebase_def restoreTurnToolCatalog_def Let_def
      split: option.split)

lemma rebase_absent:
  assumes "jm_get (ts_rebase s) k = None" "\<not> resets k e" "jm_wf (ts_rebase s)"
  shows "jm_get (ts_rebase (turn_step s e)) k = None"
proof (cases e)
  case (ResetTurn key c r v)
  have "jm_get (jm_put MAX_TURN_STATE_SESSIONS j () (ts_rebase s)) k = None" if "j \<noteq> k" for j
    using jm_put_other [OF assms(3), of k j MAX_TURN_STATE_SESSIONS "()"] that assms(1)
    by (cases "jm_get (jm_put MAX_TURN_STATE_SESSIONS j () (ts_rebase s)) k") auto
  then show ?thesis
    using assms(1,2) by (auto simp: ResetTurn resolveTurnConversationReset_def rememberPostCompactionRebase_def Let_def split: option.split)
qed (use assms(1) in \<open>auto simp: resolveTurnToolState_def restoreTurnToolCatalog_def Let_def split: option.split\<close>)

lemma run_rebase_absent:
  "jm_get (ts_rebase s) k = None \<Longrightarrow> jm_wf (ts_rebase s) \<Longrightarrow> \<not> list_ex (resets k) es \<Longrightarrow> jm_get (ts_rebase (foldl turn_step s es)) k = None"
proof (induction es arbitrary: s)
  case (Cons e es)
  then show ?case using rebase_absent [of s k e] rebase_wf [of s e] by simp
qed simp

lemma run_rebase_wf: "jm_wf (ts_rebase s) \<Longrightarrow> jm_wf (ts_rebase (foldl turn_step s es))"
  by (induction es arbitrary: s) (auto intro: rebase_wf)

text \<open>A compaction makes the session start over exactly once. Its own turn resets the conversation; the next
turn of the session, with at most 255 other events in between, resets it again - the summary's conversation
is never resumed by the normal agent - and then the turns after it, however many other events lie before
them, go on with the conversation unless the host rewrites its history or compacts again.\<close>

theorem compaction_rebases_once:
  assumes "k \<noteq> []" "length es \<le> 255" "\<not> list_ex (resets k) (es @ es')"
    and "resolveTurnConversationReset (Some k) True rewrite v (foldl turn_step turn_start before) = (r0, s0)"
    and "resolveTurnConversationReset (Some k) False rewrite1 v1 (foldl turn_step s0 es) = (r1, s1)"
    and "resolveTurnConversationReset (Some k) False False v2 (foldl turn_step s1 es') = (r2, s2)"
  shows "r0 = Some ResetCompaction \<and> r1 = Some (if rewrite1 then ResetHistoryRewrite else ResetPostCompaction) \<and> r2 = None"
proof -
  define b where "b = foldl turn_step turn_start before"
  have wf: "jm_wf (ts_rebase b)" unfolding b_def by (rule run_rebase_wf) (simp add: turn_start_def)
  have c: "r0 = Some ResetCompaction" "s0 = rememberPostCompactionRebase k b"
    using assms(1,4) by (simp_all add: resolveTurnConversationReset_def b_def)
  have "rebase_due k 0 s0"
    using jm_kept_new [of MAX_TURN_STATE_SESSIONS k "()"] by (simp add: c(2) rebase_due_def rememberPostCompactionRebase_def MAX_TURN_STATE_SESSIONS_def)
  then have "rebase_due k (0 + length es) (foldl turn_step s0 es)"
    by (rule run_keeps_rebase) (use assms(2,3) in \<open>simp_all add: MAX_TURN_STATE_SESSIONS_def\<close>)
  then have due: "jm_get (ts_rebase (foldl turn_step s0 es)) k = Some ()" by (auto simp: rebase_due_def dest: jm_kept_get)
  have wf0: "jm_wf (ts_rebase (foldl turn_step s0 es))"
    by (rule run_rebase_wf) (use wf in \<open>simp add: c(2) rememberPostCompactionRebase_def jm_put_wf\<close>)
  have one: "r1 = Some (if rewrite1 then ResetHistoryRewrite else ResetPostCompaction)" "jm_get (ts_rebase s1) k = None" "jm_wf (ts_rebase s1)"
    using assms(1,5) due wf0 by (auto simp: resolveTurnConversationReset_def Let_def split: if_splits option.splits)
  have "jm_get (ts_rebase (foldl turn_step s1 es')) k = None" by (rule run_rebase_absent [OF one(2,3)]) (use assms(3) in simp)
  then have "r2 = None" using assms(1,6) by (auto simp: resolveTurnConversationReset_def Let_def split: if_splits option.splits)
  then show ?thesis using c one by simp
qed

theorem compaction_rebases_once_witness:
  "fst (resolveTurnConversationReset (Some [97]) True False None (foldl turn_step turn_start [])) = Some ResetCompaction
   \<and> fst (resolveTurnConversationReset (Some [97]) False False None (foldl turn_step
       (snd (resolveTurnConversationReset (Some [97]) True False None (foldl turn_step turn_start []))) [ResetTurn (Some [98]) True False None])) = Some ResetPostCompaction"
  using compaction_rebases_once [of "[97]" "[ResetTurn (Some [98]) True False None]" "[]" False None "[]" _ _ False None _ _ None,
      OF _ _ _ prod.collapse [symmetric] prod.collapse [symmetric] prod.collapse [symmetric]] by simp

end
