(* ===== verification/HostNotes.thy ===== *)
theory HostNotes
  imports PromptHistory
begin

text \<open>
  Host notes in the shapes Cursor's clients give model-visible context (\<open>src/src/protocol/host-notes.ts\<close>):
  the text inside OpenCode's update blocks, the reminders of a user turn, the hook contexts of a result, and
  the string a restart snapshot keeps them in.
\<close>

section \<open>Searching and replacing\<close>

text \<open>\<open>replaceAll\<close> of a text that is not empty, and \<open>replace\<close> of its first occurrence.\<close>

function replace_all :: "utf16 \<Rightarrow> utf16 \<Rightarrow> utf16 \<Rightarrow> utf16" where
  "replace_all p r s =
     (if s = [] then []
      else if p \<noteq> [] \<and> starts_with p s then r @ replace_all p r (drop (length p) s)
      else hd s # replace_all p r (tl s))"
  by pat_completeness auto
termination by (relation "measure (\<lambda>(p, r, s). length s)") auto

declare replace_all.simps [simp del]

definition replace_first :: "utf16 \<Rightarrow> utf16 \<Rightarrow> utf16" where
  "replace_first p s = (case starts_at p s of None \<Rightarrow> s | Some i \<Rightarrow> take i s @ drop (i + length p) s)"

section \<open>Update blocks\<close>

definition unescapeSystemUpdateText :: "utf16 \<Rightarrow> utf16" where
  "unescapeSystemUpdateText s = replace_all (lit ''&amp;'') (lit ''&'') (replace_all (lit ''&gt;'') (lit ''>'') (replace_all (lit ''&lt;'') (lit ''<'') s))"

text \<open>The matches of \<open>/<system-update>([\s\S]*?)<\/system-update>/g\<close>: each block's inner text.\<close>

function update_blocks :: "utf16 \<Rightarrow> utf16 list" where
  "update_blocks s =
     (case starts_at SYSTEM_UPDATE_OPEN s of None \<Rightarrow> []
      | Some i \<Rightarrow> (let inside = drop (i + 15) s in
          case starts_at SYSTEM_UPDATE_CLOSE inside of None \<Rightarrow> []
          | Some e \<Rightarrow> take e inside # update_blocks (drop (e + 16) inside)))"
  by pat_completeness auto
termination
  by (relation "measure length") (auto simp: starts_at_def indexOf_Some SYSTEM_UPDATE_OPEN_def lit_def)

declare update_blocks.simps [simp del]

definition hostNoteBody :: "utf16 \<Rightarrow> utf16" where
  "hostNoteBody text_in =
     (let t = js_trim text_in; inner = update_blocks t;
          bodies = map (\<lambda>b. unescapeSystemUpdateText (js_trim b)) inner;
          rest = foldl (\<lambda>r b. replace_first (SYSTEM_UPDATE_OPEN @ b @ SYSTEM_UPDATE_CLOSE) r) t inner
      in if bodies \<noteq> [] \<and> js_trim rest = [] then join_with blank_line_sep (filter (\<lambda>b. b \<noteq> []) bodies) else t)"

definition hostNoteText :: "utf16 list \<Rightarrow> utf16" where
  "hostNoteText notes = join_with blank_line_sep (filter (\<lambda>b. b \<noteq> []) (map hostNoteBody notes))"

section \<open>Hook contexts\<close>

definition HOOK_ADDITIONAL_CONTEXT_MAX_CHARS :: nat where "HOOK_ADDITIONAL_CONTEXT_MAX_CHARS = 10000"

definition high_unit :: "16 word \<Rightarrow> bool" where "high_unit c \<longleftrightarrow> 0xD800 \<le> c \<and> c \<le> 0xDBFF"

text \<open>The loop over the body; a limit below two would not move past a surrogate pair.\<close>

definition chunk_end :: "nat \<Rightarrow> utf16 \<Rightarrow> nat" where
  "chunk_end limit body =
     (let e = min (length body) limit in if e < length body \<and> high_unit (body ! (e - 1)) then e - 1 else e)"

function chunks :: "nat \<Rightarrow> utf16 \<Rightarrow> utf16 list" where
  "chunks limit body =
     (if body = [] \<or> limit < 2 then []
      else take (chunk_end limit body) body # chunks limit (drop (chunk_end limit body) body))"
  by pat_completeness auto
termination by (relation "measure (\<lambda>(l, b). length b)") (auto simp: chunk_end_def Let_def)

declare chunks.simps [simp del]

definition hostNoteHookContexts :: "utf16 list \<Rightarrow> utf16 list" where
  "hostNoteHookContexts notes = concat (map (\<lambda>n. chunks HOOK_ADDITIONAL_CONTEXT_MAX_CHARS (hostNoteBody n)) notes)"

section \<open>Reminders\<close>

definition system_reminder :: utf16 where "system_reminder = lit ''system_reminder''"
definition REMINDER_OPEN :: utf16 where "REMINDER_OPEN = lit ''<system_reminder>''"
definition REMINDER_CLOSE :: utf16 where "REMINDER_CLOSE = lit ''</system_reminder>''"

definition ascii_fold :: "utf16 \<Rightarrow> utf16" where
  "ascii_fold s = map (\<lambda>c. if 65 \<le> c \<and> c \<le> 90 then c + 32 else c) s"

text \<open>\<open>text.replace(/system_reminder/gi, "system_reminder_")\<close>\<close>

function escapeReminderTags :: "utf16 \<Rightarrow> utf16" where
  "escapeReminderTags s =
     (if s = [] then []
      else if ascii_fold (take 15 s) = system_reminder then system_reminder @ [95] @ escapeReminderTags (drop 15 s)
      else hd s # escapeReminderTags (tl s))"
  by pat_completeness auto
termination by (relation "measure length") auto

declare escapeReminderTags.simps [simp del]

definition wrapHostNoteForCursor :: "utf16 \<Rightarrow> utf16" where
  "wrapHostNoteForCursor s = REMINDER_OPEN @ [nl] @ escapeReminderTags (hostNoteBody s) @ [nl] @ REMINDER_CLOSE"

definition wrapHostNotesForCursor :: "utf16 list \<Rightarrow> utf16 list" where
  "wrapHostNotesForCursor notes = map wrapHostNoteForCursor (filter (\<lambda>n. hostNoteBody n \<noteq> []) notes)"

section \<open>The snapshot string\<close>

definition HOST_NOTE_PERSIST_SEP :: utf16 where "HOST_NOTE_PERSIST_SEP = [nl, 30, nl]"

definition encodePersistedHostNotes :: "utf16 list \<Rightarrow> utf16 option" where
  "encodePersistedHostNotes notes =
     (let present = filter (\<lambda>n. n \<noteq> []) notes in if present = [] then None else Some (join_with HOST_NOTE_PERSIST_SEP present))"

definition decodePersistedHostNotes :: "utf16 option \<Rightarrow> utf16 list" where
  "decodePersistedHostNotes blob = (case blob of None \<Rightarrow> [] | Some b \<Rightarrow>
     if b = [] then [] else filter (\<lambda>n. n \<noteq> []) (split_on HOST_NOTE_PERSIST_SEP b))"

section \<open>What the host wrote\<close>

text \<open>OpenCode's escape inside its update blocks: the characters \<open>&\<close>, \<open><\<close> and \<open>>\<close>.\<close>

fun host_char :: "16 word \<Rightarrow> utf16" where
  "host_char c = (if c = 38 then lit ''&amp;'' else if c = 60 then lit ''&lt;'' else if c = 62 then lit ''&gt;'' else [c])"

definition host_escape :: "utf16 \<Rightarrow> utf16" where
  "host_escape s = concat (map host_char s)"

definition update_block :: "utf16 \<Rightarrow> utf16" where
  "update_block t = SYSTEM_UPDATE_OPEN @ host_escape t @ SYSTEM_UPDATE_CLOSE"

lemma host_escape_Cons: "host_escape (c # s) = host_char c @ host_escape s"
  by (simp add: host_escape_def)

lemma entity_lits: "lit ''&amp;'' = [38, 97, 109, 112, 59]" "lit ''&lt;'' = [38, 108, 116, 59]" "lit ''&gt;'' = [38, 103, 116, 59]"
  "lit ''&'' = [38]" "lit ''<'' = [60]" "lit ''>'' = [62]"
  by (simp_all add: lit_def)

lemma replace_all_Nil [simp]: "replace_all p r [] = []"
  by (subst replace_all.simps) simp

lemma replace_all_hit: "p \<noteq> [] \<Longrightarrow> replace_all p r (p @ s) = r @ replace_all p r s"
  by (subst replace_all.simps) simp

lemma replace_all_skip: "\<not> starts_with p (c # s) \<Longrightarrow> replace_all p r (c # s) = c # replace_all p r s"
  by (subst replace_all.simps) simp

lemma unescape_escape: "unescapeSystemUpdateText (host_escape s) = s"
proof -
  define a where "a = (\<lambda>s. concat (map (\<lambda>c. if c = 38 then lit ''&amp;'' else if c = 62 then lit ''&gt;'' else [c]) s) :: utf16)"
  define b where "b = (\<lambda>s. concat (map (\<lambda>c. if c = 38 then lit ''&amp;'' else [c]) s) :: utf16)"
  have "replace_all (lit ''&lt;'') (lit ''<'') (host_escape s) = a s"
  proof (induction s)
    case (Cons c s)
    then show ?case using replace_all_hit [of "lit ''&lt;''" "lit ''<''" "host_escape s"]
      by (auto simp: host_escape_Cons a_def entity_lits replace_all_skip starts_with_def)
  qed (simp add: host_escape_def a_def)
  moreover have "replace_all (lit ''&gt;'') (lit ''>'') (a s) = b s"
  proof (induction s)
    case (Cons c s)
    then show ?case using replace_all_hit [of "lit ''&gt;''" "lit ''>''" "a s"]
      by (auto simp: a_def b_def entity_lits replace_all_skip starts_with_def)
  qed (simp add: a_def b_def)
  moreover have "replace_all (lit ''&amp;'') (lit ''&'') (b s) = s"
  proof (induction s)
    case (Cons c s)
    then show ?case using replace_all_hit [of "lit ''&amp;''" "lit ''&''" "b s"]
      by (auto simp: b_def entity_lits replace_all_skip starts_with_def)
  qed (simp add: b_def)
  ultimately show ?thesis by (simp add: unescapeSystemUpdateText_def)
qed

lemma host_char_space: "js_space c \<Longrightarrow> host_char c = [c]" "\<not> js_space c \<Longrightarrow> \<exists>h t. host_char c = h # t \<and> \<not> js_space h \<and> \<not> js_space (last (host_char c))"
  by (auto simp: js_space_def entity_lits)

lemma escape_dropWhile: "dropWhile js_space (host_escape s) = host_escape (dropWhile js_space s)"
proof (induction s)
  case (Cons c s)
  then show ?case using host_char_space [of c] by (cases "js_space c") (auto simp: host_escape_Cons)
qed (simp add: host_escape_def)

lemma escape_dropWhile_rev: "dropWhile js_space (rev (host_escape s)) = rev (host_escape (rev (dropWhile js_space (rev s))))"
proof (induction s rule: rev_induct)
  case (snoc c s)
  have e: "host_escape (s @ [c]) = host_escape s @ host_char c" by (simp add: host_escape_def)
  show ?case
  proof (cases "js_space c")
    case True
    then show ?thesis using snoc host_char_space(1) [OF True] by (simp add: e)
  next
    case False
    then obtain h t where "host_char c = h # t" "\<not> js_space (last (host_char c))" using host_char_space(2) by blast
    then obtain xs x where "host_char c = xs @ [x]" "\<not> js_space x" by (metis append_butlast_last_id list.distinct(1))
    then show ?thesis using False by (simp add: e)
  qed
qed (simp add: host_escape_def)

lemma escape_trim: "js_trim (host_escape s) = host_escape (js_trim s)"
  by (simp add: js_trim_def escape_dropWhile escape_dropWhile_rev)


lemma no_angle: "60 \<notin> set (host_escape s)"
  by (induction s) (auto simp: host_escape_def entity_lits)

lemma first_at:
  assumes "p \<noteq> []" "hd p = 60" "60 \<notin> set a"
  shows "starts_at p (a @ p @ rest) = Some (length a)"
proof -
  obtain q where p: "p = 60 # q" using assms(1,2) by (cases p) auto
  have "\<not> starts_with p (drop j a @ x)" if "j < length a" for j x
    using Cons_nth_drop_Suc [OF that, symmetric] nth_mem [OF that] assms(3) by (auto simp: starts_with_def p)
  moreover have "starts_with p (p @ rest)" by simp
  ultimately show ?thesis by (auto simp: starts_at_def indexOf_Some)
qed

lemma not_at:
  assumes "p \<noteq> []" "hd p = 60" "60 \<notin> set a"
  shows "starts_at p a = None"
proof (rule ccontr)
  obtain q where p: "p = 60 # q" using assms(1,2) by (cases p) auto
  assume "starts_at p a \<noteq> None"
  then obtain i where "starts_at p a = Some i" by blast
  then have "i < length a" "starts_with p (drop i a)" by (auto simp: starts_at_def indexOf_Some p)
  then show False using Cons_nth_drop_Suc [of i a, symmetric] nth_mem [of i a] assms(3) by (auto simp: starts_with_def p)
qed

lemma update_tags: "SYSTEM_UPDATE_OPEN \<noteq> []" "hd SYSTEM_UPDATE_OPEN = 60" "SYSTEM_UPDATE_CLOSE \<noteq> []" "hd SYSTEM_UPDATE_CLOSE = 60"
  "length SYSTEM_UPDATE_OPEN = 15" "length SYSTEM_UPDATE_CLOSE = 16" "last SYSTEM_UPDATE_CLOSE = 62"
  by (simp_all add: SYSTEM_UPDATE_OPEN_def SYSTEM_UPDATE_CLOSE_def lit_def)

lemma block_ends: "update_block t \<noteq> []" "hd (update_block t) = 60" "last (update_block t) = 62"
  using update_tags by (simp_all add: update_block_def)

lemma space_nl: "js_space nl"
  by (simp add: nl_def js_space_def)

lemma update_blocks_step:
  assumes "60 \<notin> set pre"
  shows "update_blocks (pre @ update_block t @ rest) = host_escape t # update_blocks rest"
proof -
  have a: "starts_at SYSTEM_UPDATE_OPEN (pre @ update_block t @ rest) = Some (length pre)"
    using first_at [OF update_tags(1,2) assms, of "host_escape t @ SYSTEM_UPDATE_CLOSE @ rest"] by (simp add: update_block_def)
  have b: "starts_at SYSTEM_UPDATE_CLOSE (host_escape t @ SYSTEM_UPDATE_CLOSE @ rest) = Some (length (host_escape t))"
    using first_at [OF update_tags(3,4) no_angle] .
  have d: "drop (length pre + 15) (pre @ update_block t @ rest) = host_escape t @ SYSTEM_UPDATE_CLOSE @ rest"
    by (simp add: update_block_def update_tags)
  have e: "drop (length (host_escape t) + 16) (host_escape t @ SYSTEM_UPDATE_CLOSE @ rest) = rest"
    by (simp add: update_tags)
  show ?thesis
    by (subst update_blocks.simps) (simp only: a d b e Let_def option.case take_append take_all length_append diff_self_eq_0 diff_0_eq_0 take_0 append_Nil append_Nil2 le_refl)
qed

lemma update_blocks_plain: "60 \<notin> set s \<Longrightarrow> update_blocks s = []"
  by (subst update_blocks.simps) (use not_at [OF update_tags(1,2), of s] in simp)

lemma update_blocks_joined: "60 \<notin> set pre \<Longrightarrow> ts \<noteq> [] \<Longrightarrow> update_blocks (pre @ join_nl (map update_block ts)) = map host_escape ts"
proof (induction ts arbitrary: pre)
  case (Cons t ts)
  show ?case
  proof (cases "ts = []")
    case True
    then show ?thesis using update_blocks_step [OF Cons.prems(1), of t "[]"] by (simp add: update_blocks_plain)
  next
    case False
    then have "update_blocks ([nl] @ join_nl (map update_block ts)) = map host_escape ts" by (intro Cons.IH) (simp add: nl_def)
    then show ?thesis using update_blocks_step [OF Cons.prems(1), of t "nl # join_nl (map update_block ts)"] False by (simp add: join_Cons)
  qed
qed simp

lemma replace_block: "60 \<notin> set pre \<Longrightarrow> replace_first (update_block t) (pre @ update_block t @ rest) = pre @ rest"
  using first_at [OF block_ends(1,2), of pre t rest] by (simp add: replace_first_def)

lemma replace_blocks:
  "list_all js_space pre \<Longrightarrow> ts \<noteq> [] \<Longrightarrow>
     list_all js_space (foldl (\<lambda>r b. replace_first (SYSTEM_UPDATE_OPEN @ b @ SYSTEM_UPDATE_CLOSE) r) (pre @ join_nl (map update_block ts)) (map host_escape ts))"
proof (induction ts arbitrary: pre)
  case (Cons t ts)
  have p: "60 \<notin> set pre" using Cons.prems(1) by (auto simp: list_all_iff js_space_def)
  have n: "list_all js_space (pre @ [nl])" using Cons.prems(1) by (simp add: space_nl)
  show ?case
  proof (cases "ts = []")
    case True
    then show ?thesis using replace_block [OF p, of t "[]"] Cons.prems(1) by (simp add: update_block_def [symmetric])
  next
    case False
    then show ?thesis using replace_block [OF p, of t "nl # join_nl (map update_block ts)"] Cons.IH [OF n False]
      by (simp add: update_block_def [symmetric] join_Cons)
  qed
qed simp

lemma trim_spaces: "list_all js_space s \<Longrightarrow> js_trim s = []"
proof -
  assume "list_all js_space s"
  then have "dropWhile js_space s = []" by (simp only: dropWhile_eq_Nil_conv list_all_iff)
  then show ?thesis by (simp only: js_trim_def dropWhile.simps rev.simps)
qed

lemma trim_id: "s \<noteq> [] \<Longrightarrow> \<not> js_space (hd s) \<Longrightarrow> \<not> js_space (last s) \<Longrightarrow> js_trim s = s"
proof -
  assume s: "s \<noteq> []" "\<not> js_space (hd s)" "\<not> js_space (last s)"
  then have "dropWhile js_space s = s" "dropWhile js_space (rev s) = rev s"
    by (cases s, auto) (cases s rule: rev_cases, auto)
  then show ?thesis by (simp add: js_trim_def)
qed

lemma joined_ends: "ts \<noteq> [] \<Longrightarrow> join_nl (map update_block ts) \<noteq> [] \<and> hd (join_nl (map update_block ts)) = 60 \<and> last (join_nl (map update_block ts)) = 62"
proof (induction ts)
  case (Cons t ts)
  show ?case using Cons block_ends [of t] by (cases "ts = []") (auto simp: join_Cons)
qed simp

text \<open>A system update reaches the model as the host wrote it. Whatever texts OpenCode put into the update
blocks of one message - with markup, ampersands, even text that looks like a block or an escaped block - the
note body is those texts, trimmed, in order, with a blank line between, and nothing else; an empty update adds
nothing.\<close>

theorem system_update_roundtrip:
  assumes "ts \<noteq> []"
  shows "hostNoteBody (join_nl (map update_block ts)) = join_with blank_line_sep (filter (\<lambda>t. t \<noteq> []) (map js_trim ts))"
proof -
  let ?m = "join_nl (map update_block ts)"
  have t: "js_trim ?m = ?m" using trim_id joined_ends [OF assms] by (auto simp: js_space_def)
  have b: "update_blocks ?m = map host_escape ts" using update_blocks_joined [of "[]" ts] assms by simp
  have r: "js_trim (foldl (\<lambda>r b. replace_first (SYSTEM_UPDATE_OPEN @ b @ SYSTEM_UPDATE_CLOSE) r) ?m (map host_escape ts)) = []"
    using replace_blocks [of "[]" ts] assms by (intro trim_spaces) simp
  have u: "map (\<lambda>b. unescapeSystemUpdateText (js_trim b)) (map host_escape ts) = map js_trim ts"
    by (simp add: escape_trim unescape_escape)
  show ?thesis using assms by (simp only: hostNoteBody_def t b r u Let_def) simp
qed

theorem system_update_roundtrip_witness:
  "hostNoteBody (join_nl (map update_block [lit '' a<b '', [], lit ''&lt;''])) = join_with blank_line_sep (filter (\<lambda>t. t \<noteq> []) (map js_trim [lit '' a<b '', [], lit ''&lt;'']))"
  by (rule system_update_roundtrip) simp

section \<open>No text is lost\<close>

definition low_unit :: "16 word \<Rightarrow> bool" where "low_unit c \<longleftrightarrow> 0xDC00 \<le> c \<and> c \<le> 0xDFFF"

lemma high_not_low: "high_unit c \<Longrightarrow> \<not> low_unit c"
  by (auto simp: high_unit_def low_unit_def word_le_nat_alt)

fun pairs_kept :: "utf16 list \<Rightarrow> bool" where
  "pairs_kept (a # b # r) \<longleftrightarrow> \<not> (high_unit (last a) \<and> low_unit (hd b)) \<and> pairs_kept (b # r)"
| "pairs_kept r \<longleftrightarrow> True"

lemma chunk_end_bounds:
  assumes "body \<noteq> []" "2 \<le> limit"
  shows "0 < chunk_end limit body" "chunk_end limit body \<le> limit" "chunk_end limit body \<le> length body"
  using assms by (auto simp: chunk_end_def Let_def)

lemma chunk_end_unsplit:
  assumes "2 \<le> limit" "chunk_end limit body < length body"
  shows "\<not> (high_unit (body ! (chunk_end limit body - 1)) \<and> low_unit (body ! chunk_end limit body))"
  using assms high_not_low by (auto simp: chunk_end_def Let_def min_def split: if_splits)

lemma chunks_Nil [simp]: "chunks limit [] = []"
  by (subst chunks.simps) simp

lemma chunks_step: "body \<noteq> [] \<Longrightarrow> 2 \<le> limit \<Longrightarrow>
    chunks limit body = take (chunk_end limit body) body # chunks limit (drop (chunk_end limit body) body)"
  by (subst chunks.simps) simp

lemma chunks_whole:
  "2 \<le> limit \<Longrightarrow> concat (chunks limit body) = body \<and> list_all (\<lambda>c. c \<noteq> [] \<and> length c \<le> limit) (chunks limit body)"
proof (induction limit body rule: chunks.induct)
  case (1 limit body)
  show ?case
  proof (cases "body = []")
    case False
    then have g: "\<not> (body = [] \<or> limit < 2)" using 1(2) by simp
    show ?thesis using 1(1) [OF g 1(2)] chunk_end_bounds [OF False 1(2)] False by (auto simp: chunks_step [OF False 1(2)])
  qed simp
qed

lemma chunks_hd: "2 \<le> limit \<Longrightarrow> body \<noteq> [] \<Longrightarrow> hd (hd (chunks limit body)) = hd body"
  using chunk_end_bounds [of body limit] by (simp add: chunks_step)

lemma chunks_pairs: "2 \<le> limit \<Longrightarrow> pairs_kept (chunks limit body)"
proof (induction limit body rule: chunks.induct)
  case (1 limit body)
  let ?e = "chunk_end limit body" and ?r = "drop (chunk_end limit body) body"
  show ?case
  proof (cases "body = [] \<or> ?r = []")
    case True
    then show ?thesis using 1(2) by (cases "body = []") (auto simp: chunks_step)
  next
    case False
    then have g: "\<not> (body = [] \<or> limit < 2)" and b: "body \<noteq> []" "?r \<noteq> []" and e: "?e < length body" using 1(2) by auto
    note c = chunks_step [OF b(2) 1(2)]
    have l: "last (take ?e body) = body ! (?e - 1)" "hd (take (chunk_end limit ?r) ?r) = body ! ?e"
      using chunk_end_bounds [OF b(1) 1(2)] chunk_end_bounds [OF b(2) 1(2)] e last_conv_nth [of "take ?e body"] b(1)
      by (auto simp: hd_drop_conv_nth min_def)
    show ?thesis using 1(1) [OF g 1(2)] chunk_end_unsplit [OF 1(2) e]
      unfolding chunks_step [OF b(1) 1(2)] c by (simp only: pairs_kept.simps l not_False_eq_True simp_thms)
  qed
qed

text \<open>Cutting notes into hook contexts loses nothing. The contexts put together are the note bodies in order;
each holds something and is at most ten thousand units, the length a client takes; and within a note no
cut falls between the two halves of a character outside the basic plane.\<close>

theorem hook_contexts_keep_the_note:
  "concat (hostNoteHookContexts ns) = concat (map hostNoteBody ns)
   \<and> list_all (\<lambda>c. c \<noteq> [] \<and> length c \<le> HOOK_ADDITIONAL_CONTEXT_MAX_CHARS) (hostNoteHookContexts ns)
   \<and> pairs_kept (hostNoteHookContexts [n])"
proof -
  have l: "2 \<le> HOOK_ADDITIONAL_CONTEXT_MAX_CHARS" by (simp add: HOOK_ADDITIONAL_CONTEXT_MAX_CHARS_def)
  have "concat (hostNoteHookContexts ns) = concat (map hostNoteBody ns)" "list_all (\<lambda>c. c \<noteq> [] \<and> length c \<le> HOOK_ADDITIONAL_CONTEXT_MAX_CHARS) (hostNoteHookContexts ns)"
    using chunks_whole [OF l] by (induction ns) (auto simp: hostNoteHookContexts_def)
  then show ?thesis using chunks_pairs [OF l] by (simp add: hostNoteHookContexts_def)
qed

section \<open>Notes over a restart\<close>

lemma first_sep: "30 \<notin> set a \<Longrightarrow> starts_at HOST_NOTE_PERSIST_SEP (a @ HOST_NOTE_PERSIST_SEP @ rest) = Some (length a)"
proof -
  assume a: "30 \<notin> set a"
  have "\<not> starts_with HOST_NOTE_PERSIST_SEP (drop j a @ HOST_NOTE_PERSIST_SEP @ rest)" if j: "j < length a" for j
  proof (cases "Suc j < length a")
    case True
    then have "drop j a = a ! j # a ! Suc j # drop (Suc (Suc j)) a" using j by (simp add: Cons_nth_drop_Suc)
    then show ?thesis using a nth_mem [OF True] by (auto simp: starts_with_def HOST_NOTE_PERSIST_SEP_def)
  next
    case False
    then have "drop j a = [a ! j]" using j by (metis Cons_nth_drop_Suc Suc_lessI drop_all order_refl)
    then show ?thesis by (simp add: starts_with_def HOST_NOTE_PERSIST_SEP_def nl_def)
  qed
  moreover have "starts_with HOST_NOTE_PERSIST_SEP (HOST_NOTE_PERSIST_SEP @ rest)" by simp
  ultimately show ?thesis by (auto simp: starts_at_def indexOf_Some)
qed

lemma no_sep: "30 \<notin> set a \<Longrightarrow> starts_at HOST_NOTE_PERSIST_SEP a = None"
proof (rule ccontr)
  assume a: "30 \<notin> set a" and "starts_at HOST_NOTE_PERSIST_SEP a \<noteq> None"
  then obtain i where "starts_with HOST_NOTE_PERSIST_SEP (drop i a)" by (auto simp: starts_at_def indexOf_Some)
  then obtain r where "drop i a = HOST_NOTE_PERSIST_SEP @ r" by (metis append_eq_conv_conj starts_with_def)
  then have "30 \<in> set (drop i a)" by (simp add: HOST_NOTE_PERSIST_SEP_def)
  then show False using a in_set_dropD by metis
qed

lemma split_step: "30 \<notin> set a \<Longrightarrow> split_on HOST_NOTE_PERSIST_SEP (a @ HOST_NOTE_PERSIST_SEP @ rest) = a # split_on HOST_NOTE_PERSIST_SEP rest"
  using first_sep [of a rest] by (subst split_on.simps) (simp add: HOST_NOTE_PERSIST_SEP_def)

lemma split_last: "30 \<notin> set a \<Longrightarrow> split_on HOST_NOTE_PERSIST_SEP a = [a]"
  using no_sep [of a] by (subst split_on.simps) simp

lemma split_joined: "ns \<noteq> [] \<Longrightarrow> list_all (\<lambda>n. 30 \<notin> set n) ns \<Longrightarrow> split_on HOST_NOTE_PERSIST_SEP (join_with HOST_NOTE_PERSIST_SEP ns) = ns"
proof (induction ns)
  case (Cons n ns)
  then show ?case using split_step [of n "join_with HOST_NOTE_PERSIST_SEP ns"] split_last [of n]
    by (cases ns) auto
qed simp

text \<open>The notes a restart snapshot saves come back as they were: same texts, same order, empty ones aside - as long as
no note holds the separator's control character.\<close>

theorem saved_notes_come_back:
  assumes "list_all (\<lambda>n. 30 \<notin> set n) notes"
  shows "decodePersistedHostNotes (encodePersistedHostNotes notes) = filter (\<lambda>n. n \<noteq> []) notes"
proof -
  let ?p = "filter (\<lambda>n. n \<noteq> []) notes"
  have "join_with HOST_NOTE_PERSIST_SEP ?p \<noteq> []" if "?p \<noteq> []"
    using that by (cases ?p; cases "tl ?p") (auto simp: filter_eq_Cons_iff)
  moreover have "list_all (\<lambda>n. 30 \<notin> set n) ?p" using assms by (auto simp: list_all_iff)
  ultimately show ?thesis using split_joined [of ?p] by (auto simp: encodePersistedHostNotes_def decodePersistedHostNotes_def Let_def)
qed

theorem saved_notes_come_back_witness:
  "decodePersistedHostNotes (encodePersistedHostNotes [lit ''a'', [], [nl, nl]]) = filter (\<lambda>n. n \<noteq> []) [lit ''a'', [], [nl, nl]]"
  by (rule saved_notes_come_back) (simp add: lit_def nl_def)

end
