(* ===== verification/HostNoteStore.thy ===== *)
theory HostNoteStore
  imports HostNotes TurnState HostSteer ReplaySafety
begin

text \<open>
  Where host notes wait between the host and the model (\<open>src/src/language-model.ts\<close>): the batches no turn has
  delivered, the injections of a Run that no stored checkpoint holds yet, and the notes an interrupted Run
  delivered with its request. Batches are objects the code compares by reference, so each carries a number;
  a Run is named by a number too.
\<close>

section \<open>State\<close>

record note_batch =
  nb_notes :: "utf16 list"
  nb_order :: nat
  nb_ref :: nat \<comment> \<open>the object's identity\<close>

record note_injection =
  in_notes :: "utf16 list"
  in_order :: nat
  in_run :: nat
  in_delivered :: bool

record note_store =
  ns_order :: nat \<comment> \<open>\<open>nextHostNoteOrder\<close>\<close>
  ns_ref :: nat
  ns_undelivered :: "(utf16, note_batch list) jsmap"
  ns_injections :: "(utf16, (utf16, note_injection) jsmap) jsmap"
  ns_interrupted :: "(utf16, note_batch) jsmap"

definition note_start :: note_store where
  "note_start = \<lparr>ns_order = 0, ns_ref = 0, ns_undelivered = [], ns_injections = [], ns_interrupted = []\<rparr>"

text \<open>A new batch object; \<open>nextHostNoteOrder++\<close>.\<close>

definition new_batch :: "utf16 list \<Rightarrow> nat \<Rightarrow> note_store \<Rightarrow> note_batch \<times> note_store" where
  "new_batch notes order s = (\<lparr>nb_notes = notes, nb_order = order, nb_ref = ns_ref s\<rparr>, s\<lparr>ns_ref := Suc (ns_ref s)\<rparr>)"

definition next_order :: "note_store \<Rightarrow> nat \<times> note_store" where
  "next_order s = (ns_order s, s\<lparr>ns_order := Suc (ns_order s)\<rparr>)"

text \<open>A session key that is not there or is empty names no session.\<close>

definition named :: "utf16 option \<Rightarrow> utf16 option" where
  "named key = (case key of None \<Rightarrow> None | Some k \<Rightarrow> if k = [] then None else Some k)"

section \<open>Notes no turn has delivered\<close>

text \<open>\<open>[...new Set(notes)]\<close> on objects.\<close>

fun uniq_refs :: "nat set \<Rightarrow> note_batch list \<Rightarrow> note_batch list" where
  "uniq_refs seen [] = []"
| "uniq_refs seen (b # bs) = (if nb_ref b \<in> seen then uniq_refs seen bs else b # uniq_refs (insert (nb_ref b) seen) bs)"

definition rememberUndeliveredHostNotes :: "utf16 \<Rightarrow> note_batch list \<Rightarrow> note_store \<Rightarrow> note_store" where
  "rememberUndeliveredHostNotes k batches s =
     s\<lparr>ns_undelivered := jm_put MAX_TURN_STATE_SESSIONS k (sort_key nb_order (uniq_refs {} batches)) (ns_undelivered s)\<rparr>"

definition undelivered_of :: "utf16 \<Rightarrow> note_store \<Rightarrow> note_batch list" where
  "undelivered_of k s = (case jm_get (ns_undelivered s) k of None \<Rightarrow> [] | Some bs \<Rightarrow> bs)"

definition undeliveredHostNotes :: "utf16 \<Rightarrow> note_store \<Rightarrow> utf16 list" where
  "undeliveredHostNotes k s = concat (map nb_notes (undelivered_of k s))"

definition appendUndeliveredHostNotes :: "utf16 \<Rightarrow> note_batch list \<Rightarrow> note_store \<Rightarrow> note_store" where
  "appendUndeliveredHostNotes k batches s =
     (if batches = [] then s else rememberUndeliveredHostNotes k (undelivered_of k s @ batches) s)"

text \<open>\<open>appendUndeliveredHostNotes(sessionKey, [{ notes, order }])\<close>\<close>

definition append_new :: "utf16 \<Rightarrow> utf16 list \<Rightarrow> nat \<Rightarrow> note_store \<Rightarrow> note_store" where
  "append_new k notes order s = (let (b, s1) = new_batch notes order s in appendUndeliveredHostNotes k [b] s1)"

definition forgetUndeliveredHostNotes :: "utf16 \<Rightarrow> note_batch list \<Rightarrow> note_store \<Rightarrow> note_store" where
  "forgetUndeliveredHostNotes k batches s =
     (case jm_get (ns_undelivered s) k of None \<Rightarrow> s
      | Some current \<Rightarrow> (let remaining = filter (\<lambda>b. nb_ref b \<notin> nb_ref ` set batches) current in
          s\<lparr>ns_undelivered := (if remaining = [] then jm_delete k (ns_undelivered s) else jm_set k remaining (ns_undelivered s))\<rparr>))"

section \<open>Injections\<close>

definition injections_of :: "utf16 \<Rightarrow> note_store \<Rightarrow> (utf16, note_injection) jsmap" where
  "injections_of k s = (case jm_get (ns_injections s) k of None \<Rightarrow> [] | Some m \<Rightarrow> m)"

text \<open>The map of a session is changed in place, and goes when it is empty.\<close>

definition put_injections :: "utf16 \<Rightarrow> (utf16, note_injection) jsmap \<Rightarrow> note_store \<Rightarrow> note_store" where
  "put_injections k m s = s\<lparr>ns_injections := (if m = [] then jm_delete k (ns_injections s) else jm_set k m (ns_injections s))\<rparr>"

definition trackHostNoteInjection :: "utf16 \<Rightarrow> utf16 \<Rightarrow> utf16 list \<Rightarrow> nat \<Rightarrow> nat \<Rightarrow> note_store \<Rightarrow> note_store" where
  "trackHostNoteInjection k iid notes run order s =
     (let entries = jm_set iid \<lparr>in_notes = notes, in_order = order, in_run = run, in_delivered = False\<rparr> (injections_of k s)
      in s\<lparr>ns_injections := jm_put MAX_TURN_STATE_SESSIONS k entries (ns_injections s)\<rparr>)"

text \<open>
  \<open>injectHostNotes\<close> up to its write: what is tracked, and the text to write, if any. A failed write closes
  the Run and leaves the tables as they are. The order is the caller's, or the next one.
\<close>

definition injectHostNotes :: "utf16 option \<Rightarrow> nat \<Rightarrow> utf16 list \<Rightarrow> nat option \<Rightarrow> utf16 \<Rightarrow> utf16
    \<Rightarrow> run_injection list \<times> note_store \<Rightarrow> utf16 option \<times> run_injection list \<times> note_store" where
  "injectHostNotes key run notes order iid mid st =
     (let (injections, s) = st;
          (o', s1) = (case order of None \<Rightarrow> next_order s | Some n \<Rightarrow> (n, s));
          txt = hostNoteText notes
      in if txt = [] then (None, injections, s1)
         else (Some txt,
           trackRunInjection \<lparr>ri_kind = Note, ri_injectionId = iid, ri_messageId = mid, ri_text = txt, ri_notes = Some notes, ri_delivered = False\<rparr> injections,
           (case named key of None \<Rightarrow> s1 | Some k \<Rightarrow> trackHostNoteInjection k iid notes run o' s1)))"

datatype injection_state = Delivered | Queued | UnknownState | OtherState \<comment> \<open>queued for the next turn, cancelled, rejected, or new\<close>

text \<open>\<open>applyContextInjectionState\<close>; \<open>True\<close> when Cursor delivered an early steer.\<close>

definition applyContextInjectionState :: "utf16 option \<Rightarrow> utf16 option \<Rightarrow> injection_state
    \<Rightarrow> run_injection list \<times> steer_state \<times> note_store \<Rightarrow> bool \<times> run_injection list \<times> steer_state \<times> note_store" where
  "applyContextInjectionState key iid kind st =
     (let (injections, steers, s) = st;
          injections1 = (if kind = Delivered then markRunInjectionDelivered iid injections else injections);
          (steers1, steered) = (if kind = Delivered then markEarlySteerDelivered key iid steers else (steers, False))
      in if steered then (True, injections1, steers1, s)
         else (False, injections1, steers1,
           (case (named key, named iid) of
              (Some k, Some i) \<Rightarrow>
                (case jm_get (injections_of k s) i of None \<Rightarrow> s
                 | Some e \<Rightarrow>
                     (case kind of Queued \<Rightarrow> s | UnknownState \<Rightarrow> s
                      | Delivered \<Rightarrow> put_injections k (jm_set i (e\<lparr>in_delivered := True\<rparr>) (injections_of k s)) s
                      | OtherState \<Rightarrow> append_new k (in_notes e) (in_order e) (put_injections k (jm_delete i (injections_of k s)) s)))
            | _ \<Rightarrow> s)))"

definition forgetCheckpointedHostNotes :: "utf16 option \<Rightarrow> nat \<Rightarrow> note_store \<Rightarrow> note_store" where
  "forgetCheckpointedHostNotes key run s =
     (case named key of None \<Rightarrow> s
      | Some k \<Rightarrow> if \<not> jm_has (ns_injections s) k then s
          else put_injections k (filter (\<lambda>(i, e). in_run e \<noteq> run \<or> \<not> in_delivered e) (injections_of k s)) s)"

text \<open>Each released entry is appended in the order of the map.\<close>

fun append_each :: "utf16 \<Rightarrow> note_injection list \<Rightarrow> note_store \<Rightarrow> note_store" where
  "append_each k [] s = s"
| "append_each k (e # es) s = append_each k es (append_new k (in_notes e) (in_order e) s)"

definition releases :: "nat option \<Rightarrow> (nat \<Rightarrow> bool) \<Rightarrow> note_injection \<Rightarrow> bool" where
  "releases owner gone e = (case owner of None \<Rightarrow> gone (in_run e) | Some r \<Rightarrow> in_run e = r)"

definition releaseHostNoteInjections :: "utf16 \<Rightarrow> nat option \<Rightarrow> (nat \<Rightarrow> bool) \<Rightarrow> note_store \<Rightarrow> note_store" where
  "releaseHostNoteInjections k owner gone s =
     (if \<not> jm_has (ns_injections s) k then s
      else put_injections k (filter (\<lambda>(i, e). \<not> releases owner gone e) (injections_of k s))
             (append_each k (filter (releases owner gone) (map snd (injections_of k s))) s))"

definition keepUndeliveredHostNotes :: "utf16 option \<Rightarrow> nat \<Rightarrow> note_store \<Rightarrow> note_store" where
  "keepUndeliveredHostNotes key run s = (case named key of None \<Rightarrow> s | Some k \<Rightarrow> releaseHostNoteInjections k (Some run) (\<lambda>_. False) s)"

fun new_batches :: "note_injection list \<Rightarrow> note_store \<Rightarrow> note_batch list \<times> note_store" where
  "new_batches [] s = ([], s)"
| "new_batches (e # es) s = (let (b, s1) = new_batch (in_notes e) (in_order e) s; (bs, s2) = new_batches es s1 in (b # bs, s2))"

definition takeHostNoteInjections :: "utf16 option \<Rightarrow> nat \<Rightarrow> note_store \<Rightarrow> note_batch list \<times> note_store" where
  "takeHostNoteInjections key owner s =
     (case named key of None \<Rightarrow> ([], s)
      | Some k \<Rightarrow> if \<not> jm_has (ns_injections s) k then ([], s)
          else (let (bs, s1) = new_batches (filter (\<lambda>e. in_run e = owner) (map snd (injections_of k s))) s
                in (sort_key nb_order bs, put_injections k (filter (\<lambda>(i, e). in_run e \<noteq> owner) (injections_of k s)) s1)))"

section \<open>Over a restart\<close>

definition restoreInterruptedRunHostNotes :: "utf16 \<Rightarrow> utf16 option \<Rightarrow> utf16 option \<Rightarrow> note_store \<Rightarrow> note_store" where
  "restoreInterruptedRunHostNotes k persisted deferred s =
     (let notes = filter (\<lambda>n. n \<notin> set (decodePersistedHostNotes deferred)) (decodePersistedHostNotes persisted);
          s1 = s\<lparr>ns_interrupted := jm_delete k (ns_interrupted s)\<rparr>
      in if notes = [] then s1
         else let (o', s2) = next_order s1; (b, s3) = new_batch notes o' s2
              in s3\<lparr>ns_interrupted := jm_put MAX_TURN_STATE_SESSIONS k b (ns_interrupted s3)\<rparr>)"

definition restorePersistedHostNotes :: "utf16 \<Rightarrow> utf16 option \<Rightarrow> note_store \<Rightarrow> note_store" where
  "restorePersistedHostNotes k persisted s =
     (let notes = decodePersistedHostNotes persisted in
      if notes = [] then s
      else let (o', s1) = next_order s; (b, s2) = new_batch notes o' s1 in rememberUndeliveredHostNotes k [b] s2)"

text \<open>The notes of an in-progress save: those still to deliver, and those the Run's own request delivered.\<close>

definition heldRunHostNotes :: "nat \<Rightarrow> note_batch list \<Rightarrow> utf16 \<Rightarrow> note_store \<Rightarrow> utf16 option \<times> utf16 option" where
  "heldRunHostNotes run userTurnHostNotes k s =
     (let injected = map (\<lambda>e. (in_order e, in_notes e)) (filter (\<lambda>e. in_run e = run) (map snd (injections_of k s)));
          deferred = sort_key fst (map (\<lambda>b. (nb_order b, nb_notes b)) (undelivered_of k s) @ injected)
      in (encodePersistedHostNotes (concat (map snd deferred)), encodePersistedHostNotes (concat (map nb_notes userTurnHostNotes))))"

section \<open>The notes a user turn carries\<close>

record turn_notes_input =
  ti_key :: "utf16 option"
  ti_prompt :: prompt
  ti_checkpoint :: bool \<comment> \<open>\<open>startedWithCheckpoint\<close>\<close>
  ti_compaction :: bool
  ti_ephemeral :: bool
  ti_resuming :: bool
  ti_seed :: "seed_message list option"
  ti_liveTurnStart :: "nat option"

record turn_notes =
  tn_reminders :: "utf16 list"
  tn_carried :: "note_batch list"
  tn_interrupted :: "note_batch option"
  tn_undelivered :: "note_batch list option"

definition plain_history :: history_options where
  "plain_history = \<lparr>ho_preserveTrailingUser = False, ho_toolResults = OmitResults, ho_liveTurnStart = None\<rparr>"

definition seeded_text :: "text_env \<Rightarrow> turn_notes_input \<Rightarrow> utf16" where
  "seeded_text env inp =
     (if ti_checkpoint inp then []
      else join_with blank_line_sep (map snd (filter (\<lambda>m. fst m = SeedUser)
        (case ti_seed inp of Some h \<Rightarrow> h | None \<Rightarrow> extractPromptHistory env plain_history (ti_prompt inp)))))"

definition turn_boundary :: "turn_notes_input \<Rightarrow> utf16 list" where
  "turn_boundary inp =
     (if ti_compaction inp \<or> ti_ephemeral inp \<or> ti_resuming inp then []
      else case ti_liveTurnStart inp of
          Some i \<Rightarrow> concat (map (\<lambda>m. case hostTailNote m of None \<Rightarrow> [] | Some n \<Rightarrow> note_text n) (drop i (ti_prompt inp)))
        | None \<Rightarrow> if ti_checkpoint inp then hostNotesBeforeUserTurn (ti_prompt inp) else [])"

definition prepareUserTurnHostNotes :: "text_env \<Rightarrow> (nat \<Rightarrow> bool) \<Rightarrow> turn_notes_input \<Rightarrow> note_store \<Rightarrow> turn_notes \<times> note_store" where
  "prepareUserTurnHostNotes env gone inp s =
     (let key = named (ti_key inp);
          s1 = (case key of None \<Rightarrow> s | Some k \<Rightarrow> if ti_compaction inp \<or> ti_ephemeral inp then s else releaseHostNoteInjections k None gone s);
          interrupted = (case key of None \<Rightarrow> None | Some k \<Rightarrow> if ti_ephemeral inp then None else jm_get (ns_interrupted s1) k);
          checkpointed = (case interrupted of None \<Rightarrow> [] | Some b \<Rightarrow> if \<not> ti_compaction inp \<and> (ti_checkpoint inp \<or> ti_resuming inp) then [b] else []);
          s2 = (case (interrupted, key) of
                  (Some b, Some k) \<Rightarrow> if checkpointed \<noteq> [] then s1
                     else appendUndeliveredHostNotes k [b] (s1\<lparr>ns_interrupted := jm_delete k (ns_interrupted s1)\<rparr>)
                | _ \<Rightarrow> s1);
          undelivered = (case key of None \<Rightarrow> None | Some k \<Rightarrow> if ti_compaction inp \<or> ti_ephemeral inp \<or> ti_resuming inp then None else jm_get (ns_undelivered s2) k);
          seeded = seeded_text env inp;
          boundary = turn_boundary inp;
          deferred = filter (\<lambda>n. \<not> js_includes seeded (js_trim n) \<and> \<not> list_ex (\<lambda>t. js_includes t (js_trim n)) boundary)
            (case undelivered of None \<Rightarrow> [] | Some bs \<Rightarrow> concat (map nb_notes bs));
          (own, s3) = (if boundary = [] then ([], s2)
            else let (o', s') = next_order s2; (b, s'') = new_batch boundary o' s' in ([b], s''))
      in (\<lparr>tn_reminders = wrapHostNotesForCursor deferred @ wrapHostNotesForCursor boundary,
           tn_carried = checkpointed @ (case undelivered of None \<Rightarrow> [] | Some bs \<Rightarrow> bs) @ own,
           tn_interrupted = interrupted, tn_undelivered = undelivered\<rparr>, s3))"

text \<open>\<open>sent()\<close>, called once the request is written.\<close>

definition turn_sent :: "utf16 option \<Rightarrow> turn_notes \<Rightarrow> note_store \<Rightarrow> note_store" where
  "turn_sent key t s =
     (case named key of None \<Rightarrow> s
      | Some k \<Rightarrow>
          (let s1 = (if map_option nb_ref (jm_get (ns_interrupted s) k) = map_option nb_ref (tn_interrupted t)
                     then s\<lparr>ns_interrupted := jm_delete k (ns_interrupted s)\<rparr> else s)
           in case tn_undelivered t of None \<Rightarrow> s1 | Some bs \<Rightarrow> if bs = [] then s1 else forgetUndeliveredHostNotes k bs s1))"

text \<open>Another copy of the process has taken the session over (\<open>onCopyStateReplaced\<close>).\<close>

definition copy_replaced :: "utf16 \<Rightarrow> note_store \<Rightarrow> note_store" where
  "copy_replaced k s = s\<lparr>ns_undelivered := jm_delete k (ns_undelivered s), ns_interrupted := jm_delete k (ns_interrupted s)\<rparr>"

section \<open>Sequences of operations\<close>

text \<open>A batch by what it says, not by its object.\<close>

type_synonym note_content = "nat \<times> utf16 list"

definition batch_content :: "note_batch \<Rightarrow> note_content" where "batch_content b = (nb_order b, nb_notes b)"
definition entry_content :: "note_injection \<Rightarrow> note_content" where "entry_content e = (in_order e, in_notes e)"

definition waiting :: "utf16 \<Rightarrow> note_store \<Rightarrow> note_content set" where
  "waiting k s = batch_content ` set (undelivered_of k s)"

definition in_flight :: "utf16 \<Rightarrow> note_store \<Rightarrow> note_content set" where
  "in_flight k s = entry_content ` set (map snd (injections_of k s))"

definition interrupted_content :: "utf16 \<Rightarrow> note_store \<Rightarrow> note_content set" where
  "interrupted_content k s = batch_content ` set_option (jm_get (ns_interrupted s) k)"

definition kept_notes :: "utf16 \<Rightarrow> note_store \<Rightarrow> note_content set" where
  "kept_notes k s = waiting k s \<union> in_flight k s \<union> interrupted_content k s"

datatype note_event =
    NotesInjected "utf16 option" nat "utf16 list" "nat option" utf16 utf16
  | InjectionState "utf16 option" "utf16 option" injection_state steer_state
  | CheckpointStored "utf16 option" nat
  | TurnEnded "utf16 option" nat
  | NotesTaken "utf16 option" nat
  | NotesKept utf16 "utf16 list"
  | BatchesKept utf16 "note_batch list"
  | TurnPrepared turn_notes_input "nat list" \<comment> \<open>with the Runs that are closed\<close>
  | TurnSent "utf16 option" turn_notes
  | NotesRestored utf16 "utf16 option"
  | InterruptedRestored utf16 "utf16 option" "utf16 option"
  | CopyReplaced utf16

fun note_step :: "text_env \<Rightarrow> note_store \<Rightarrow> note_event \<Rightarrow> note_store" where
  "note_step env s (NotesInjected key run notes ord iid mid) = snd (snd (injectHostNotes key run notes ord iid mid ([], s)))"
| "note_step env s (InjectionState key iid kind steers) = snd (snd (snd (applyContextInjectionState key iid kind ([], steers, s))))"
| "note_step env s (CheckpointStored key run) = forgetCheckpointedHostNotes key run s"
| "note_step env s (TurnEnded key run) = keepUndeliveredHostNotes key run s"
| "note_step env s (NotesTaken key run) = snd (takeHostNoteInjections key run s)"
| "note_step env s (NotesKept k notes) = (let (o', s1) = next_order s in append_new k notes o' s1)"
| "note_step env s (BatchesKept k bs) = appendUndeliveredHostNotes k bs s"
| "note_step env s (TurnPrepared inp gone) = snd (prepareUserTurnHostNotes env (\<lambda>r. r \<in> set gone) inp s)"
| "note_step env s (TurnSent key t) = turn_sent key t s"
| "note_step env s (NotesRestored k b) = restorePersistedHostNotes k b s"
| "note_step env s (InterruptedRestored k b d) = restoreInterruptedRunHostNotes k b d s"
| "note_step env s (CopyReplaced k) = copy_replaced k s"

text \<open>The notes an operation brings in.\<close>

fun handed :: "note_store \<Rightarrow> note_event \<Rightarrow> (utf16 \<times> note_content) list" where
  "handed s (NotesInjected key run notes ord iid mid) =
     (case named key of None \<Rightarrow> [] | Some k \<Rightarrow> if hostNoteText notes = [] then [] else
        [(k, (case ord of None \<Rightarrow> ns_order s | Some n \<Rightarrow> n), notes)])"
| "handed s (NotesKept k notes) = [(k, ns_order s, notes)]"
| "handed s (BatchesKept k bs) = map (\<lambda>b. (k, batch_content b)) bs"
| "handed s (NotesRestored k b) = (let ns = decodePersistedHostNotes b in if ns = [] then [] else [(k, ns_order s, ns)])"
| "handed s _ = []"

text \<open>Why notes leave the tables, with the notes that do.\<close>

datatype leaving = InCheckpoint | TakenByRecovery | CarriedByRun | OtherCopy | ReplacedBySnapshot

fun leaves :: "note_store \<Rightarrow> note_event \<Rightarrow> (utf16 \<times> leaving \<times> note_content) list" where
  "leaves s (CheckpointStored key run) = (case named key of None \<Rightarrow> [] | Some k \<Rightarrow>
     map (\<lambda>(i, e). (k, InCheckpoint, entry_content e)) (filter (\<lambda>(i, e). in_run e = run \<and> in_delivered e) (injections_of k s)))"
| "leaves s (NotesTaken key run) = (case named key of None \<Rightarrow> [] | Some k \<Rightarrow>
     map (\<lambda>b. (k, TakenByRecovery, batch_content b)) (fst (takeHostNoteInjections key run s)))"
| "leaves s (TurnSent key t) = (case named key of None \<Rightarrow> [] | Some k \<Rightarrow>
     map (\<lambda>b. (k, CarriedByRun, batch_content b)) (filter (\<lambda>b. nb_ref b \<in> nb_ref ` set (case tn_undelivered t of None \<Rightarrow> [] | Some bs \<Rightarrow> bs)) (undelivered_of k s))
     @ (case jm_get (ns_interrupted s) k of None \<Rightarrow> [] | Some b \<Rightarrow>
          if map_option nb_ref (tn_interrupted t) = Some (nb_ref b) then [(k, CarriedByRun, batch_content b)] else []))"
| "leaves s (NotesRestored k b) = (if decodePersistedHostNotes b = [] then [] else map (\<lambda>x. (k, ReplacedBySnapshot, batch_content x)) (undelivered_of k s))"
| "leaves s (InterruptedRestored k b d) = (case jm_get (ns_interrupted s) k of None \<Rightarrow> [] | Some x \<Rightarrow> [(k, ReplacedBySnapshot, batch_content x)])"
| "leaves s (CopyReplaced k) = map (\<lambda>b. (k, OtherCopy, batch_content b))
     (undelivered_of k s @ (case jm_get (ns_interrupted s) k of None \<Rightarrow> [] | Some b \<Rightarrow> [b]))"
| "leaves s _ = []"

text \<open>The objects that exist after an operation: those in the tables and those it returned.\<close>

definition live_batches :: "note_store \<Rightarrow> note_batch list" where
  "live_batches s = concat (map snd (ns_undelivered s)) @ map snd (ns_interrupted s)"

fun returned :: "text_env \<Rightarrow> note_store \<Rightarrow> note_event \<Rightarrow> note_batch list" where
  "returned env s (NotesTaken key run) = fst (takeHostNoteInjections key run s)"
| "returned env s (TurnPrepared inp gone) = tn_carried (fst (prepareUserTurnHostNotes env (\<lambda>r. r \<in> set gone) inp s))"
| "returned env s _ = []"

fun event_keys :: "note_event \<Rightarrow> utf16 list" where
  "event_keys (NotesInjected key _ _ _ _ _) = (case named key of None \<Rightarrow> [] | Some k \<Rightarrow> [k])"
| "event_keys (InjectionState key _ _ _) = (case named key of None \<Rightarrow> [] | Some k \<Rightarrow> [k])"
| "event_keys (CheckpointStored key _) = (case named key of None \<Rightarrow> [] | Some k \<Rightarrow> [k])"
| "event_keys (TurnEnded key _) = (case named key of None \<Rightarrow> [] | Some k \<Rightarrow> [k])"
| "event_keys (NotesTaken key _) = (case named key of None \<Rightarrow> [] | Some k \<Rightarrow> [k])"
| "event_keys (NotesKept k _) = [k]" | "event_keys (BatchesKept k _) = [k]"
| "event_keys (TurnPrepared inp _) = (case named (ti_key inp) of None \<Rightarrow> [] | Some k \<Rightarrow> [k])"
| "event_keys (TurnSent key _) = (case named key of None \<Rightarrow> [] | Some k \<Rightarrow> [k])"
| "event_keys (NotesRestored k _) = [k]" | "event_keys (InterruptedRestored k _ _) = [k]" | "event_keys (CopyReplaced k) = [k]"

fun event_ids :: "note_event \<Rightarrow> utf16 list" where
  "event_ids (NotesInjected _ _ _ _ iid _) = [iid]" | "event_ids _ = []"

fun event_batches :: "note_event \<Rightarrow> note_batch list" where
  "event_batches (BatchesKept k bs) = bs" | "event_batches _ = []"

text \<open>
  What callers keep to: the sessions are among \<open>K\<close>, an injection gets a new UUID, and a batch passed in is an
  object that exists.
\<close>

fun callers_ok :: "text_env \<Rightarrow> utf16 list \<Rightarrow> utf16 list \<Rightarrow> note_batch list \<Rightarrow> note_store \<Rightarrow> note_event list \<Rightarrow> bool" where
  "callers_ok env K used objs s [] = True"
| "callers_ok env K used objs s (e # es) =
     (set (event_keys e) \<subseteq> set K \<and> set (event_ids e) \<inter> set used = {} \<and> set (event_batches e) \<subseteq> set objs
      \<and> callers_ok env K (event_ids e @ used) (live_batches (note_step env s e) @ returned env s e @ objs) (note_step env s e) es)"

fun all_handed :: "text_env \<Rightarrow> note_store \<Rightarrow> note_event list \<Rightarrow> (utf16 \<times> note_content) list" where
  "all_handed env s [] = []" | "all_handed env s (e # es) = handed s e @ all_handed env (note_step env s e) es"

fun all_left :: "text_env \<Rightarrow> note_store \<Rightarrow> note_event list \<Rightarrow> (utf16 \<times> leaving \<times> note_content) list" where
  "all_left env s [] = []" | "all_left env s (e # es) = leaves s e @ all_left env (note_step env s e) es"

section \<open>No note is dropped\<close>

text \<open>Objects with the same number are the same object.\<close>

definition coherent :: "nat \<Rightarrow> note_batch set \<Rightarrow> bool" where
  "coherent n B \<longleftrightarrow> inj_on nb_ref B \<and> (\<forall>b \<in> B. nb_ref b < n)"

definition entry_ids :: "note_store \<Rightarrow> utf16 set" where
  "entry_ids s = \<Union> (set (map (\<lambda>p. fst ` set (snd p)) (ns_injections s)))"

definition tables_ok :: "utf16 set \<Rightarrow> utf16 set \<Rightarrow> note_batch set \<Rightarrow> note_store \<Rightarrow> bool" where
  "tables_ok K used objs s \<longleftrightarrow>
     jm_wf (ns_undelivered s) \<and> jm_wf (ns_injections s) \<and> jm_wf (ns_interrupted s)
     \<and> fst ` set (ns_undelivered s) \<subseteq> K \<and> fst ` set (ns_injections s) \<subseteq> K \<and> fst ` set (ns_interrupted s) \<subseteq> K
     \<and> (\<forall>p \<in> set (ns_injections s). jm_wf (snd p)) \<and> entry_ids s \<subseteq> used
     \<and> coherent (ns_ref s) objs \<and> set (live_batches s) \<subseteq> objs"

definition small :: "utf16 set \<Rightarrow> bool" where
  "small K \<longleftrightarrow> finite K \<and> card K \<le> MAX_TURN_STATE_SESSIONS"

lemma small_length: "small K \<Longrightarrow> jm_wf m \<Longrightarrow> fst ` set m \<subseteq> K \<Longrightarrow> length m \<le> MAX_TURN_STATE_SESSIONS"
  unfolding small_def by (metis card_mono distinct_card le_trans length_map set_map)

lemma keys_touch: "fst ` set (jm_touch k v m) = insert k (fst ` set m)"
  by (auto simp: jm_touch_append)

text \<open>With few sessions nothing is evicted.\<close>

lemma put_touch:
  assumes "small K" "jm_wf m" "fst ` set m \<subseteq> K" "k \<in> K"
  shows "jm_put MAX_TURN_STATE_SESSIONS k v m = jm_touch k v m"
proof -
  have "length (jm_touch k v m) \<le> MAX_TURN_STATE_SESSIONS"
    using assms by (intro small_length [OF assms(1) jm_wf_touch]) (auto simp: keys_touch)
  then show ?thesis by (simp add: jm_put_def)
qed

lemma uniq_refs_set: "inj_on nb_ref (set bs) \<Longrightarrow> set (uniq_refs seen bs) = {b \<in> set bs. nb_ref b \<notin> seen}"
  by (induction bs arbitrary: seen) (auto simp: inj_on_def)

lemma uniq_refs_all: "coherent n B \<Longrightarrow> set bs \<subseteq> B \<Longrightarrow> set (uniq_refs {} bs) = set bs"
  using uniq_refs_set [of bs "{}"] by (auto simp: coherent_def intro: inj_on_subset)

lemma undelivered_objs: "tables_ok K used objs s \<Longrightarrow> set (undelivered_of k s) \<subseteq> objs"
proof (cases "jm_get (ns_undelivered s) k")
  case (Some bs)
  assume "tables_ok K used objs s"
  then have "set (concat (map snd (ns_undelivered s))) \<subseteq> objs" by (simp add: tables_ok_def live_batches_def)
  then show ?thesis using map_of_SomeD [OF Some] Some by (force simp: undelivered_of_def)
qed (simp add: undelivered_of_def)

lemma interrupted_objs: "tables_ok K used objs s \<Longrightarrow> jm_get (ns_interrupted s) k = Some b \<Longrightarrow> b \<in> objs"
  by (auto simp: tables_ok_def live_batches_def image_iff dest!: map_of_SomeD)

lemma injections_wf: "tables_ok K used objs s \<Longrightarrow> jm_wf (injections_of k s)"
  by (auto simp: tables_ok_def injections_of_def split: option.splits dest!: map_of_SomeD)

lemma injections_ids: "tables_ok K used objs s \<Longrightarrow> fst ` set (injections_of k s) \<subseteq> used"
proof (cases "jm_get (ns_injections s) k")
  case (Some m)
  assume "tables_ok K used objs s"
  then have "entry_ids s \<subseteq> used" by (simp add: tables_ok_def)
  moreover have "fst ` set m \<subseteq> entry_ids s" using map_of_SomeD [OF Some] by (force simp: entry_ids_def)
  ultimately show ?thesis using Some by (simp add: injections_of_def)
qed (simp add: injections_of_def)

lemma content_simps [simp]:
  "in_flight k (s\<lparr>ns_undelivered := u\<rparr>) = in_flight k s" "interrupted_content k (s\<lparr>ns_undelivered := u\<rparr>) = interrupted_content k s"
  "waiting k (s\<lparr>ns_injections := m\<rparr>) = waiting k s" "interrupted_content k (s\<lparr>ns_injections := m\<rparr>) = interrupted_content k s"
  "waiting k (s\<lparr>ns_interrupted := i\<rparr>) = waiting k s" "in_flight k (s\<lparr>ns_interrupted := i\<rparr>) = in_flight k s"
  "waiting k (s\<lparr>ns_ref := n\<rparr>) = waiting k s" "in_flight k (s\<lparr>ns_ref := n\<rparr>) = in_flight k s" "interrupted_content k (s\<lparr>ns_ref := n\<rparr>) = interrupted_content k s"
  "waiting k (s\<lparr>ns_order := n\<rparr>) = waiting k s" "in_flight k (s\<lparr>ns_order := n\<rparr>) = in_flight k s" "interrupted_content k (s\<lparr>ns_order := n\<rparr>) = interrupted_content k s"
  by (simp_all add: waiting_def in_flight_def interrupted_content_def undelivered_of_def injections_of_def)

text \<open>More objects may exist than the tables hold.\<close>

lemma tables_ok_order [simp]: "tables_ok K used objs (s\<lparr>ns_order := n\<rparr>) = tables_ok K used objs s"
  by (simp add: tables_ok_def live_batches_def entry_ids_def)

lemma remember_ok:
  assumes "tables_ok K used objs s" "small K" "k \<in> K" "set bs \<subseteq> objs"
  shows "tables_ok K used objs (rememberUndeliveredHostNotes k bs s)"
    and "waiting j (rememberUndeliveredHostNotes k bs s) = (if j = k then batch_content ` set bs else waiting j s)"
    and "in_flight j (rememberUndeliveredHostNotes k bs s) = in_flight j s"
    and "interrupted_content j (rememberUndeliveredHostNotes k bs s) = interrupted_content j s"
proof -
  have p: "jm_put MAX_TURN_STATE_SESSIONS k v (ns_undelivered s) = jm_touch k v (ns_undelivered s)" for v
    using assms by (intro put_touch) (auto simp: tables_ok_def)
  have c: "coherent (ns_ref s) objs" using assms(1) by (simp add: tables_ok_def)
  have u: "set (uniq_refs {} bs) = set bs" by (rule uniq_refs_all [OF c assms(4)])
  show "tables_ok K used objs (rememberUndeliveredHostNotes k bs s)"
    using assms u unfolding rememberUndeliveredHostNotes_def p
    by (auto simp: tables_ok_def live_batches_def entry_ids_def keys_touch jm_touch_append distinct_map_filter)
  show "waiting j (rememberUndeliveredHostNotes k bs s) = (if j = k then batch_content ` set bs else waiting j s)"
    using u unfolding rememberUndeliveredHostNotes_def p by (simp add: waiting_def undelivered_of_def)
qed (simp_all add: rememberUndeliveredHostNotes_def)

lemma append_ok:
  assumes "tables_ok K used objs s" "small K" "k \<in> K" "set bs \<subseteq> objs"
  shows "tables_ok K used objs (appendUndeliveredHostNotes k bs s)"
    and "waiting j (appendUndeliveredHostNotes k bs s) = waiting j s \<union> (if j = k then batch_content ` set bs else {})"
    and "in_flight j (appendUndeliveredHostNotes k bs s) = in_flight j s"
    and "interrupted_content j (appendUndeliveredHostNotes k bs s) = interrupted_content j s"
proof -
  have b: "set (undelivered_of k s @ bs) \<subseteq> objs" using undelivered_objs [OF assms(1), of k] assms(4) by simp
  note r = remember_ok [OF assms(1-3) b]
  show "tables_ok K used objs (appendUndeliveredHostNotes k bs s)" using r(1) assms(1) by (simp add: appendUndeliveredHostNotes_def)
  show "waiting j (appendUndeliveredHostNotes k bs s) = waiting j s \<union> (if j = k then batch_content ` set bs else {})"
    by (cases "bs = []") (simp_all add: appendUndeliveredHostNotes_def r(2) image_Un waiting_def [of k s])
qed (simp_all add: appendUndeliveredHostNotes_def rememberUndeliveredHostNotes_def)

lemma new_batch_ok:
  assumes "tables_ok K used objs s"
  shows "tables_ok K used (insert (fst (new_batch ns ord s)) objs) (snd (new_batch ns ord s))"
  using assms by (auto simp: tables_ok_def new_batch_def coherent_def live_batches_def entry_ids_def less_Suc_eq)

lemma append_new_ok:
  assumes "tables_ok K used objs s" "small K" "k \<in> K"
  shows "\<exists>b. tables_ok K used (insert b objs) (append_new k ns ord s)"
    and "waiting j (append_new k ns ord s) = waiting j s \<union> (if j = k then {(ord, ns)} else {})"
    and "in_flight j (append_new k ns ord s) = in_flight j s"
    and "interrupted_content j (append_new k ns ord s) = interrupted_content j s"
proof -
  let ?b = "fst (new_batch ns ord s)" and ?s = "snd (new_batch ns ord s)"
  have a: "append_new k ns ord s = appendUndeliveredHostNotes k [?b] ?s" by (simp add: append_new_def split_beta)
  note ok = append_ok [OF new_batch_ok [OF assms(1), where ns = ns and ord = ord] assms(2,3), of "[?b]"]
  show "\<exists>b. tables_ok K used (insert b objs) (append_new k ns ord s)" using ok(1) a by auto
  show "waiting j (append_new k ns ord s) = waiting j s \<union> (if j = k then {(ord, ns)} else {})"
    using ok(2) [of j] by (simp add: a) (simp add: new_batch_def batch_content_def)
  show "in_flight j (append_new k ns ord s) = in_flight j s" "interrupted_content j (append_new k ns ord s) = interrupted_content j s"
    using ok(3,4) [of j] by (simp_all add: a) (simp_all add: new_batch_def)
qed

lemma set_jm_set: "set (jm_set k v m) \<subseteq> insert (k, v) (set m)"
  by (induction m) auto

lemma keys_jm_set: "fst ` set (jm_set k v m) = insert k (fst ` set m)"
  by (induction m) auto

lemma put_injections_ok:
  assumes "tables_ok K used objs s" "k \<in> K" "jm_wf m" "fst ` set m \<subseteq> used"
  shows "tables_ok K used objs (put_injections k m s)"
    and "waiting j (put_injections k m s) = waiting j s"
    and "in_flight j (put_injections k m s) = (if j = k then entry_content ` set (map snd m) else in_flight j s)"
    and "interrupted_content j (put_injections k m s) = interrupted_content j s"
proof -
  let ?fit = "\<lambda>p. fst p \<in> K \<and> jm_wf (snd p) \<and> (\<forall>q \<in> set (snd p). fst q \<in> used)"
  have o: "\<forall>p \<in> set (ns_injections s). ?fit p"
  proof
    fix p assume p: "p \<in> set (ns_injections s)"
    have "fst ` set (ns_injections s) \<subseteq> K" "\<forall>p \<in> set (ns_injections s). jm_wf (snd p)" "entry_ids s \<subseteq> used"
      using assms(1) by (simp_all add: tables_ok_def)
    moreover have "fst ` set (snd p) \<subseteq> entry_ids s" using p by (auto simp: entry_ids_def)
    ultimately show "?fit p" using p by blast
  qed
  have "set (ns_injections (put_injections k m s)) \<subseteq> insert (k, m) (set (ns_injections s))"
    using set_jm_set [of k m "ns_injections s"] by (auto simp: put_injections_def jm_delete_filter)
  moreover have "?fit (k, m)" using assms by auto
  ultimately have n: "\<forall>p \<in> set (ns_injections (put_injections k m s)). ?fit p" using o by blast
  have w: "jm_wf (ns_injections (put_injections k m s))" using assms(1) by (simp add: put_injections_def tables_ok_def)
  have r: "ns_undelivered (put_injections k m s) = ns_undelivered s" "ns_interrupted (put_injections k m s) = ns_interrupted s"
    "ns_ref (put_injections k m s) = ns_ref s" by (simp_all add: put_injections_def)
  have "fst ` set (ns_injections (put_injections k m s)) \<subseteq> K" "\<forall>p \<in> set (ns_injections (put_injections k m s)). jm_wf (snd p)"
    "entry_ids (put_injections k m s) \<subseteq> used" using n by (auto simp: entry_ids_def)
  then show "tables_ok K used objs (put_injections k m s)"
    using assms(1) w by (simp add: tables_ok_def r live_batches_def)
  show "in_flight j (put_injections k m s) = (if j = k then entry_content ` set (map snd m) else in_flight j s)"
    by (simp add: put_injections_def in_flight_def injections_of_def)
qed (simp_all add: put_injections_def)

lemma append_each_ok:
  assumes "tables_ok K used objs s" "small K" "k \<in> K"
  shows "\<exists>objs'. objs \<subseteq> objs' \<and> tables_ok K used objs' (append_each k es s)"
    and "waiting j (append_each k es s) = waiting j s \<union> (if j = k then entry_content ` set es else {})"
    and "in_flight j (append_each k es s) = in_flight j s"
    and "interrupted_content j (append_each k es s) = interrupted_content j s"
proof -
  have "(\<exists>objs'. objs \<subseteq> objs' \<and> tables_ok K used objs' (append_each k es s))
      \<and> waiting j (append_each k es s) = waiting j s \<union> (if j = k then entry_content ` set es else {})
      \<and> in_flight j (append_each k es s) = in_flight j s \<and> interrupted_content j (append_each k es s) = interrupted_content j s"
    using assms(1)
  proof (induction es arbitrary: s objs)
    case (Cons e es)
    note a = append_new_ok [OF Cons.prems assms(2,3), where ns = "in_notes e" and ord = "in_order e"]
    obtain b where "tables_ok K used (insert b objs) (append_new k (in_notes e) (in_order e) s)" using a(1) by blast
    from Cons.IH [OF this] show ?case
      by (auto simp: a(2-4) entry_content_def)
  qed auto
  then show "\<exists>objs'. objs \<subseteq> objs' \<and> tables_ok K used objs' (append_each k es s)"
    "waiting j (append_each k es s) = waiting j s \<union> (if j = k then entry_content ` set es else {})"
    "in_flight j (append_each k es s) = in_flight j s" "interrupted_content j (append_each k es s) = interrupted_content j s" by blast+
qed

lemma absent_injections: "\<not> jm_has (ns_injections s) k \<Longrightarrow> in_flight k s = {}"
  by (simp add: in_flight_def injections_of_def)

lemma release_ok:
  assumes "tables_ok K used objs s" "small K" "k \<in> K"
  shows "\<exists>objs'. objs \<subseteq> objs' \<and> tables_ok K used objs' (releaseHostNoteInjections k owner g s)"
    and "waiting j s \<subseteq> waiting j (releaseHostNoteInjections k owner g s)"
    and "kept_notes j (releaseHostNoteInjections k owner g s) = kept_notes j s"
    and "interrupted_content j (releaseHostNoteInjections k owner g s) = interrupted_content j s"
proof -
  let ?out = "filter (releases owner g) (map snd (injections_of k s))"
  let ?in = "filter (\<lambda>(i, e). \<not> releases owner g e) (injections_of k s)"
  let ?s = "append_each k ?out s"
  have "(\<exists>objs'. objs \<subseteq> objs' \<and> tables_ok K used objs' (releaseHostNoteInjections k owner g s))
    \<and> waiting j s \<subseteq> waiting j (releaseHostNoteInjections k owner g s)
    \<and> kept_notes j (releaseHostNoteInjections k owner g s) = kept_notes j s
    \<and> interrupted_content j (releaseHostNoteInjections k owner g s) = interrupted_content j s"
  proof (cases "jm_has (ns_injections s) k")
    case True
    then have r: "releaseHostNoteInjections k owner g s = put_injections k ?in ?s" by (simp add: releaseHostNoteInjections_def)
    note a = append_each_ok [OF assms, where es = ?out]
    obtain objs' where o: "objs \<subseteq> objs'" "tables_ok K used objs' ?s" using a(1) by blast
    have "jm_wf ?in" "fst ` set ?in \<subseteq> used" using injections_wf [OF assms(1)] injections_ids [OF assms(1)] by auto
    note p = put_injections_ok [OF o(2) assms(3) this]
    have q: "in_flight k s = entry_content ` set (map snd ?in) \<union> entry_content ` set ?out"
      by (force simp: in_flight_def)
    show ?thesis unfolding r kept_notes_def using o(1) p a q by (auto simp: image_Un)
  qed (use assms(1) in \<open>auto simp: releaseHostNoteInjections_def\<close>)
  then show "\<exists>objs'. objs \<subseteq> objs' \<and> tables_ok K used objs' (releaseHostNoteInjections k owner g s)"
    "waiting j s \<subseteq> waiting j (releaseHostNoteInjections k owner g s)" "kept_notes j (releaseHostNoteInjections k owner g s) = kept_notes j s"
    "interrupted_content j (releaseHostNoteInjections k owner g s) = interrupted_content j s" by blast+
qed

lemma tables_ok_mono: "tables_ok K used objs s \<Longrightarrow> used \<subseteq> used' \<Longrightarrow> tables_ok K used' objs s"
  by (auto simp: tables_ok_def)

lemma coherent_subset: "coherent n B \<Longrightarrow> A \<subseteq> B \<Longrightarrow> coherent n A"
  by (auto simp: coherent_def intro: inj_on_subset)

lemma tables_ok_objs: "tables_ok K used objs s \<Longrightarrow> B \<subseteq> objs \<Longrightarrow> set (live_batches s) \<subseteq> B \<Longrightarrow> tables_ok K used B s"
  by (auto simp: tables_ok_def intro: coherent_subset)

lemma track_ok:
  assumes "tables_ok K used objs s" "small K" "k \<in> K" "i \<notin> used"
  shows "tables_ok K (insert i used) objs (trackHostNoteInjection k i ns r ord s)"
    and "in_flight j (trackHostNoteInjection k i ns r ord s) = in_flight j s \<union> (if j = k then {(ord, ns)} else {})"
    and "waiting j (trackHostNoteInjection k i ns r ord s) = waiting j s"
    and "interrupted_content j (trackHostNoteInjection k i ns r ord s) = interrupted_content j s"
proof -
  let ?e = "\<lparr>in_notes = ns, in_order = ord, in_run = r, in_delivered = False\<rparr>"
  have p: "jm_put MAX_TURN_STATE_SESSIONS k v (ns_injections s) = jm_touch k v (ns_injections s)" for v
    using assms by (intro put_touch) (auto simp: tables_ok_def)
  have f: "i \<notin> fst ` set (injections_of k s)" using injections_ids [OF assms(1)] assms(4) by blast
  have e: "jm_set i ?e (injections_of k s) = injections_of k s @ [(i, ?e)]" by (rule jm_set_fresh [OF f])
  have t: "trackHostNoteInjection k i ns r ord s = s\<lparr>ns_injections := filter (\<lambda>q. fst q \<noteq> k) (ns_injections s) @ [(k, injections_of k s @ [(i, ?e)])]\<rparr>"
    unfolding trackHostNoteInjection_def Let_def p e by (simp add: jm_touch_append)
  have w: "jm_wf (injections_of k s @ [(i, ?e)])" "fst ` set (injections_of k s) \<subseteq> used"
    using injections_wf [OF assms(1)] injections_ids [OF assms(1)] f by auto
  have "jm_wf (ns_injections (trackHostNoteInjection k i ns r ord s))"
    using assms(1) jm_wf_touch [of "ns_injections s" k] by (simp add: t tables_ok_def jm_touch_append)
  moreover have "entry_ids (trackHostNoteInjection k i ns r ord s) \<subseteq> insert i used"
  proof -
    have "entry_ids s \<subseteq> used" using assms(1) by (simp add: tables_ok_def)
    moreover have "entry_ids (trackHostNoteInjection k i ns r ord s) \<subseteq> entry_ids s \<union> insert i (fst ` set (injections_of k s))"
      by (auto simp: t entry_ids_def)
    ultimately show ?thesis using w(2) by blast
  qed
  moreover have "fst ` set (ns_injections (trackHostNoteInjection k i ns r ord s)) \<subseteq> K" using assms(1,3) by (auto simp: t tables_ok_def)
  moreover have "\<forall>q \<in> set (ns_injections (trackHostNoteInjection k i ns r ord s)). jm_wf (snd q)" using assms(1) w(1) by (auto simp: t tables_ok_def)
  moreover have "ns_undelivered (trackHostNoteInjection k i ns r ord s) = ns_undelivered s" "ns_interrupted (trackHostNoteInjection k i ns r ord s) = ns_interrupted s"
    "ns_ref (trackHostNoteInjection k i ns r ord s) = ns_ref s" by (simp_all add: t)
  ultimately show "tables_ok K (insert i used) objs (trackHostNoteInjection k i ns r ord s)"
    using assms(1) by (simp add: tables_ok_def live_batches_def)
  show "in_flight j (trackHostNoteInjection k i ns r ord s) = in_flight j s \<union> (if j = k then {(ord, ns)} else {})"
  proof -
    have "injections_of j (trackHostNoteInjection k i ns r ord s) = (if j = k then injections_of k s @ [(i, ?e)] else injections_of j s)"
      unfolding trackHostNoteInjection_def Let_def p e by (simp add: injections_of_def)
    then show ?thesis by (simp add: in_flight_def entry_content_def)
  qed
qed (simp_all add: trackHostNoteInjection_def Let_def)

lemma new_batches_ok:
  assumes "tables_ok K used objs s"
  shows "\<exists>objs'. objs \<union> set (fst (new_batches es s)) \<subseteq> objs' \<and> tables_ok K used objs' (snd (new_batches es s))"
    and "batch_content ` set (fst (new_batches es s)) = entry_content ` set es"
    and "in_flight j (snd (new_batches es s)) = in_flight j s" "waiting j (snd (new_batches es s)) = waiting j s"
    "interrupted_content j (snd (new_batches es s)) = interrupted_content j s"
    "ns_injections (snd (new_batches es s)) = ns_injections s"
proof -
  have "(\<exists>objs'. objs \<union> set (fst (new_batches es s)) \<subseteq> objs' \<and> tables_ok K used objs' (snd (new_batches es s)))
    \<and> batch_content ` set (fst (new_batches es s)) = entry_content ` set es
    \<and> (\<exists>n. snd (new_batches es s) = s\<lparr>ns_ref := n\<rparr>)"
    using assms
  proof (induction es arbitrary: s objs)
    case (Cons e es)
    let ?b = "fst (new_batch (in_notes e) (in_order e) s)" and ?s = "snd (new_batch (in_notes e) (in_order e) s)"
    have n: "new_batches (e # es) s = (?b # fst (new_batches es ?s), snd (new_batches es ?s))" by (simp add: split_beta)
    have s': "?s = s\<lparr>ns_ref := Suc (ns_ref s)\<rparr>" and b: "batch_content ?b = entry_content e" by (simp_all add: new_batch_def batch_content_def entry_content_def)
    from Cons.IH [OF new_batch_ok [OF Cons.prems, where ns = "in_notes e" and ord = "in_order e"]]
    obtain objs' x where "insert ?b objs \<union> set (fst (new_batches es ?s)) \<subseteq> objs'" "tables_ok K used objs' (snd (new_batches es ?s))"
      "batch_content ` set (fst (new_batches es ?s)) = entry_content ` set es" "snd (new_batches es ?s) = ?s\<lparr>ns_ref := x\<rparr>" by blast
    then show ?case unfolding n fst_conv snd_conv by (intro conjI exI [of _ objs'] exI [of _ x]) (auto simp: b s')
  next
    case Nil
    have "s = s\<lparr>ns_ref := ns_ref s\<rparr>" by simp
    then have "\<exists>n. s = s\<lparr>ns_ref := n\<rparr>" by (rule exI)
    then show ?case using Nil by auto
  qed
  moreover obtain n where "snd (new_batches es s) = s\<lparr>ns_ref := n\<rparr>" using calculation by blast
  ultimately show "\<exists>objs'. objs \<union> set (fst (new_batches es s)) \<subseteq> objs' \<and> tables_ok K used objs' (snd (new_batches es s))"
    "batch_content ` set (fst (new_batches es s)) = entry_content ` set es" "in_flight j (snd (new_batches es s)) = in_flight j s"
    "waiting j (snd (new_batches es s)) = waiting j s" "interrupted_content j (snd (new_batches es s)) = interrupted_content j s"
    "ns_injections (snd (new_batches es s)) = ns_injections s" by simp_all
qed

definition left_notes :: "utf16 \<Rightarrow> note_store \<Rightarrow> note_event \<Rightarrow> note_content set" where
  "left_notes j s e = {c. \<exists>r. (j, r, c) \<in> set (leaves s e)}"

definition handed_notes :: "utf16 \<Rightarrow> note_store \<Rightarrow> note_event \<Rightarrow> note_content set" where
  "handed_notes j s e = {c. (j, c) \<in> set (handed s e)}"

definition event_ok :: "text_env \<Rightarrow> utf16 set \<Rightarrow> utf16 set \<Rightarrow> note_batch set \<Rightarrow> note_store \<Rightarrow> note_event \<Rightarrow> bool" where
  "event_ok env K used objs s e \<longleftrightarrow>
     (\<exists>objs'. objs \<union> set (returned env s e) \<subseteq> objs' \<and> tables_ok K (set (event_ids e) \<union> used) objs' (note_step env s e))
     \<and> (\<forall>j. kept_notes j s \<union> handed_notes j s e \<subseteq> kept_notes j (note_step env s e) \<union> left_notes j s e)"

lemma named_Some: "named key = Some k \<Longrightarrow> key = Some k \<and> k \<noteq> []"
  by (auto simp: named_def split: option.splits if_splits)

lemma event_inject:
  assumes "tables_ok K used objs s" "small K" "set (event_keys (NotesInjected key r ns ord i m)) \<subseteq> K" "i \<notin> used"
  shows "event_ok env K used objs s (NotesInjected key r ns ord i m)"
proof -
  define o' s1 where d: "o' = (case ord of None \<Rightarrow> ns_order s | Some n \<Rightarrow> n)" "s1 = (case ord of None \<Rightarrow> snd (next_order s) | Some n \<Rightarrow> s)"
  have k1: "kept_notes j s1 = kept_notes j s" "tables_ok K used objs s1" for j
    using assms(1) by (simp_all add: d next_order_def kept_notes_def split: option.split)
  have st: "note_step env s (NotesInjected key r ns ord i m) =
      (if hostNoteText ns = [] then s1 else case named key of None \<Rightarrow> s1 | Some k \<Rightarrow> trackHostNoteInjection k i ns r o' s1)"
    by (cases ord) (simp_all add: injectHostNotes_def d next_order_def Let_def split: option.split)
  have h: "handed_notes j s (NotesInjected key r ns ord i m) = (if hostNoteText ns \<noteq> [] \<and> named key = Some j then {(o', ns)} else {})" for j
    by (auto simp: handed_notes_def d split: option.splits)
  show ?thesis
  proof (cases "hostNoteText ns = [] \<or> named key = None")
    case True
    have "tables_ok K (insert i used) objs s1" using tables_ok_mono [OF k1(2)] by blast
    then show ?thesis unfolding event_ok_def st h using k1(1) True by auto
  next
    case False
    then obtain k where k: "named key = Some k" "hostNoteText ns \<noteq> []" by blast
    then have "k \<in> K" using assms(3) by simp
    note t = track_ok [OF k1(2) assms(2) this assms(4)]
    show ?thesis unfolding event_ok_def st h using k1(1) t(1) by (auto simp: k t(2-4) kept_notes_def)
  qed
qed

lemma mark_same: "jm_get m i = Some e \<Longrightarrow> f e' = f e \<Longrightarrow> map (\<lambda>p. f (snd p)) (jm_set i e' m) = map (\<lambda>p. f (snd p)) m"
  by (induction m) auto

lemma event_state:
  assumes "tables_ok K used objs s" "small K" "set (event_keys (InjectionState key i kind st)) \<subseteq> K"
  shows "event_ok env K used objs s (InjectionState key i kind st)"
proof -
  let ?s = "note_step env s (InjectionState key i kind st)"
  have h: "handed_notes j s (InjectionState key i kind st) = {}" "left_notes j s (InjectionState key i kind st) = {}" for j
    by (simp_all add: handed_notes_def left_notes_def)
  have "(\<exists>objs'. objs \<subseteq> objs' \<and> tables_ok K used objs' ?s) \<and> (\<forall>j. kept_notes j s \<subseteq> kept_notes j ?s)"
  proof (cases "\<exists>k x e. named key = Some k \<and> named i = Some x \<and> jm_get (injections_of k s) x = Some e
      \<and> \<not> (kind = Delivered \<and> snd (markEarlySteerDelivered key i st)) \<and> kind \<in> {Delivered, OtherState}")
    case False
    then have "?s = s" by (cases kind) (auto simp: applyContextInjectionState_def Let_def split: option.splits prod.splits)
    then show ?thesis using assms(1) by auto
  next
    case True
    then obtain k x e where k: "named key = Some k" "named i = Some x" "jm_get (injections_of k s) x = Some e"
      "\<not> (kind = Delivered \<and> snd (markEarlySteerDelivered key i st))" "kind \<in> {Delivered, OtherState}" by blast
    have K: "k \<in> K" using assms(3) k(1) by simp
    note w = injections_wf [OF assms(1), of k] and u = injections_ids [OF assms(1), of k]
    have x: "x \<in> used" using u k(3) by (force dest: map_of_SomeD)
    show ?thesis
    proof (cases "kind = Delivered")
      case True
      let ?m = "jm_set x (e\<lparr>in_delivered := True\<rparr>) (injections_of k s)"
      have s': "?s = put_injections k ?m s" using True k by (simp add: applyContextInjectionState_def Let_def split_beta)
      have "jm_wf ?m" "fst ` set ?m \<subseteq> used" using w u x by (simp_all add: keys_jm_set)
      note p = put_injections_ok [OF assms(1) K this]
      have "entry_content ` set (map snd ?m) = in_flight k s"
        using mark_same [OF k(3), of entry_content "e\<lparr>in_delivered := True\<rparr>"]
        unfolding in_flight_def set_map [symmetric] map_map comp_def by (simp add: entry_content_def)
      then show ?thesis unfolding s' using p by (auto simp: kept_notes_def)
    next
      case False
      let ?m = "jm_delete x (injections_of k s)"
      have s': "?s = append_new k (in_notes e) (in_order e) (put_injections k ?m s)"
        using False k by (auto simp: applyContextInjectionState_def Let_def split_beta)
      have "jm_wf ?m" "fst ` set ?m \<subseteq> used" using w u by (auto simp: jm_delete_filter)
      note p = put_injections_ok [OF assms(1) K this]
      note a = append_new_ok [OF p(1) assms(2) K, where ns = "in_notes e" and ord = "in_order e"]
      have "in_flight k s \<subseteq> insert (entry_content e) (entry_content ` set (map snd ?m))"
      proof
        fix c assume "c \<in> in_flight k s"
        then obtain y f where f: "(y, f) \<in> set (injections_of k s)" "c = entry_content f" by (auto simp: in_flight_def)
        show "c \<in> insert (entry_content e) (entry_content ` set (map snd ?m))"
        proof (cases "y = x")
          case True
          then show ?thesis using f k(3) w by (simp add: map_of_is_SomeI)
        qed (use f in \<open>force simp: jm_delete_filter\<close>)
      qed
      then show ?thesis unfolding s' using a p by (auto simp: kept_notes_def entry_content_def)
    qed
  qed
  then show ?thesis by (simp add: event_ok_def h)
qed

lemma event_checkpoint:
  assumes "tables_ok K used objs s" "set (event_keys (CheckpointStored key r)) \<subseteq> K"
  shows "event_ok env K used objs s (CheckpointStored key r)"
proof (cases "\<exists>k. named key = Some k \<and> jm_has (ns_injections s) k")
  case False
  then have "forgetCheckpointedHostNotes key r s = s" by (auto simp: forgetCheckpointedHostNotes_def split: option.split)
  then show ?thesis using assms(1) by (auto simp: event_ok_def handed_notes_def)
next
  case True
  then obtain k where k: "named key = Some k" "jm_has (ns_injections s) k" by blast
  let ?m = "filter (\<lambda>(i, e). in_run e \<noteq> r \<or> \<not> in_delivered e) (injections_of k s)"
  have s': "note_step env s (CheckpointStored key r) = put_injections k ?m s" using k by (simp add: forgetCheckpointedHostNotes_def)
  have K: "k \<in> K" using assms(2) k(1) by simp
  have "jm_wf ?m" "fst ` set ?m \<subseteq> used" using injections_wf [OF assms(1)] injections_ids [OF assms(1)] by auto
  note p = put_injections_ok [OF assms(1) K this]
  have "in_flight k s \<subseteq> entry_content ` set (map snd ?m) \<union> left_notes k s (CheckpointStored key r)"
    using k(1) by (force simp: in_flight_def left_notes_def)
  then show ?thesis unfolding event_ok_def s' using p by (auto simp: kept_notes_def handed_notes_def)
qed

lemma event_turn_ended:
  assumes "tables_ok K used objs s" "small K" "set (event_keys (TurnEnded key r)) \<subseteq> K"
  shows "event_ok env K used objs s (TurnEnded key r)"
proof (cases "named key")
  case None
  then show ?thesis using assms(1) by (auto simp: event_ok_def handed_notes_def keepUndeliveredHostNotes_def)
next
  case (Some k)
  then have K: "k \<in> K" using assms(3) by simp
  show ?thesis using release_ok [OF assms(1,2) K, where owner = "Some r" and g = "\<lambda>_. False"] Some
    by (auto simp: event_ok_def handed_notes_def keepUndeliveredHostNotes_def)
qed

lemma tagged_image: "L = (\<lambda>b. (k, x, f b)) ` B \<Longrightarrow> {c. \<exists>r. (k, r, c) \<in> L} = f ` B"
  by auto

lemma event_taken:
  assumes "tables_ok K used objs s" "set (event_keys (NotesTaken key r)) \<subseteq> K"
  shows "event_ok env K used objs s (NotesTaken key r)"
proof (cases "\<exists>k. named key = Some k \<and> jm_has (ns_injections s) k")
  case False
  then have "takeHostNoteInjections key r s = ([], s)" by (auto simp: takeHostNoteInjections_def split: option.split)
  then show ?thesis using assms(1) by (auto simp: event_ok_def handed_notes_def)
next
  case True
  then obtain k where k: "named key = Some k" "jm_has (ns_injections s) k" by blast
  let ?es = "filter (\<lambda>e. in_run e = r) (map snd (injections_of k s))"
  let ?m = "filter (\<lambda>(i, e). in_run e \<noteq> r) (injections_of k s)"
  let ?s = "snd (new_batches ?es s)"
  have t: "takeHostNoteInjections key r s = (sort_key nb_order (fst (new_batches ?es s)), put_injections k ?m ?s)"
    using k by (simp add: takeHostNoteInjections_def split_beta Let_def)
  note b = new_batches_ok [OF assms(1), where es = ?es]
  obtain objs' where o: "objs \<union> set (fst (new_batches ?es s)) \<subseteq> objs'" "tables_ok K used objs' ?s" using b(1) by blast
  have K: "k \<in> K" using assms(2) k(1) by simp
  have "jm_wf ?m" "fst ` set ?m \<subseteq> used" using injections_wf [OF assms(1)] injections_ids [OF assms(1)] by auto
  note p = put_injections_ok [OF o(2) K this]
  have "set (leaves s (NotesTaken key r)) = (\<lambda>b. (k, TakenByRecovery, batch_content b)) ` set (fst (new_batches ?es s))"
    by (simp only: leaves.simps k(1) option.case t fst_conv set_map set_sort)
  then have l: "left_notes k s (NotesTaken key r) = entry_content ` set ?es"
    unfolding left_notes_def b(2) [symmetric] by (rule tagged_image)
  have "in_flight k s \<subseteq> entry_content ` set (map snd ?m) \<union> entry_content ` set ?es" by (force simp: in_flight_def)
  then show ?thesis unfolding event_ok_def note_step.simps returned.simps t fst_conv snd_conv
    using p o b(3-5) l by (auto simp: kept_notes_def handed_notes_def)
qed

lemma event_kept:
  assumes "tables_ok K used objs s" "small K" "k \<in> K"
  shows "event_ok env K used objs s (NotesKept k ns)"
proof -
  have "tables_ok K used objs (snd (next_order s))" using assms(1) by (simp add: next_order_def)
  note a = append_new_ok [OF this assms(2,3), where ns = ns and ord = "ns_order s"]
  have s': "note_step env s (NotesKept k ns) = append_new k ns (ns_order s) (snd (next_order s))" by (simp add: next_order_def)
  obtain b where "tables_ok K used (insert b objs) (append_new k ns (ns_order s) (snd (next_order s)))" using a(1) by blast
  then show ?thesis unfolding event_ok_def s' using a(2-4)
    by (auto simp: kept_notes_def handed_notes_def next_order_def)
qed

lemma event_batches_kept:
  assumes "tables_ok K used objs s" "small K" "k \<in> K" "set bs \<subseteq> objs"
  shows "event_ok env K used objs s (BatchesKept k bs)"
  using append_ok [OF assms] by (auto simp: event_ok_def kept_notes_def handed_notes_def)

lemma interrupted_table_ok:
  assumes "tables_ok K used objs s" "jm_wf m" "fst ` set m \<subseteq> K" "snd ` set m \<subseteq> objs"
  shows "tables_ok K used objs (s\<lparr>ns_interrupted := m\<rparr>)"
  using assms by (simp add: tables_ok_def live_batches_def entry_ids_def)

lemma interrupted_delete_ok:
  assumes "tables_ok K used objs s"
  shows "tables_ok K used objs (s\<lparr>ns_interrupted := jm_delete k (ns_interrupted s)\<rparr>)"
proof (rule interrupted_table_ok [OF assms])
  have "set (jm_delete k (ns_interrupted s)) \<subseteq> set (ns_interrupted s)" by (auto simp: jm_delete_filter)
  moreover have "fst ` set (ns_interrupted s) \<subseteq> K" "snd ` set (ns_interrupted s) \<subseteq> objs"
    using assms by (auto simp: tables_ok_def live_batches_def)
  ultimately show "fst ` set (jm_delete k (ns_interrupted s)) \<subseteq> K" "snd ` set (jm_delete k (ns_interrupted s)) \<subseteq> objs" by blast+
qed (use assms in \<open>simp add: tables_ok_def\<close>)

lemma interrupted_delete [simp]:
  "interrupted_content j (s\<lparr>ns_interrupted := jm_delete k m\<rparr>) = (if j = k then {} else interrupted_content j (s\<lparr>ns_interrupted := m\<rparr>))"
  by (simp add: interrupted_content_def)

lemma new_order_batch_ok:
  assumes "tables_ok K used objs s"
  shows "tables_ok K used (insert (fst (new_batch ns (fst (next_order s)) (snd (next_order s)))) objs) (snd (new_batch ns (fst (next_order s)) (snd (next_order s))))"
    and "kept_notes j (snd (new_batch ns (fst (next_order s)) (snd (next_order s)))) = kept_notes j s"
  using new_batch_ok [of K used objs "snd (next_order s)"] assms by (auto simp: next_order_def kept_notes_def new_batch_def)

lemma interrupted_wait_ok:
  assumes "tables_ok K used objs s" "small K" "k \<in> K" "jm_get (ns_interrupted s) k = Some b"
  defines "s' \<equiv> appendUndeliveredHostNotes k [b] (s\<lparr>ns_interrupted := jm_delete k (ns_interrupted s)\<rparr>)"
  shows "tables_ok K used objs s'" "kept_notes j s' = kept_notes j s"
proof -
  have b: "set [b] \<subseteq> objs" using interrupted_objs [OF assms(1,4)] by simp
  note a = append_ok [OF interrupted_delete_ok [OF assms(1)] assms(2,3) b]
  show "tables_ok K used objs s'" unfolding s'_def by (rule a(1))
  have "interrupted_content k s = {batch_content b}" using assms(4) by (simp add: interrupted_content_def)
  then show "kept_notes j s' = kept_notes j s" unfolding s'_def kept_notes_def using a(2-4) [of j] by auto
qed

lemma event_prepared:
  assumes "tables_ok K used objs s" "small K" "set (event_keys (TurnPrepared inp g)) \<subseteq> K"
  shows "event_ok env K used objs s (TurnPrepared inp g)"
proof (cases "named (ti_key inp)")
  case None
  let ?n = "new_batch (turn_boundary inp) (fst (next_order s)) (snd (next_order s))"
  have p: "prepareUserTurnHostNotes env (\<lambda>r. r \<in> set g) inp s = (\<lparr>tn_reminders = wrapHostNotesForCursor (turn_boundary inp),
      tn_carried = (if turn_boundary inp = [] then [] else [fst ?n]), tn_interrupted = None, tn_undelivered = None\<rparr>,
      if turn_boundary inp = [] then s else snd ?n)"
    by (simp add: prepareUserTurnHostNotes_def None Let_def split_beta wrapHostNotesForCursor_def)
  show ?thesis using new_order_batch_ok [OF assms(1), where ns = "turn_boundary inp"] assms(1)
    by (auto simp: event_ok_def p handed_notes_def)
next
  case (Some k)
  then have K: "k \<in> K" using assms(3) by simp
  define s1 where "s1 = (if ti_compaction inp \<or> ti_ephemeral inp then s else releaseHostNoteInjections k None (\<lambda>r. r \<in> set g) s)"
  define i where "i = (if ti_ephemeral inp then None else jm_get (ns_interrupted s1) k)"
  define c where "c = (case i of None \<Rightarrow> [] | Some b \<Rightarrow> if \<not> ti_compaction inp \<and> (ti_checkpoint inp \<or> ti_resuming inp) then [b] else [])"
  define s2 where "s2 = (case i of None \<Rightarrow> s1 | Some b \<Rightarrow> if c \<noteq> [] then s1
     else appendUndeliveredHostNotes k [b] (s1\<lparr>ns_interrupted := jm_delete k (ns_interrupted s1)\<rparr>))"
  define u where "u = (if ti_compaction inp \<or> ti_ephemeral inp \<or> ti_resuming inp then None else jm_get (ns_undelivered s2) k)"
  define n where "n = new_batch (turn_boundary inp) (fst (next_order s2)) (snd (next_order s2))"
  define s3 where "s3 = (if turn_boundary inp = [] then s2 else snd n)"
  have p: "snd (prepareUserTurnHostNotes env (\<lambda>r. r \<in> set g) inp s) = s3"
    unfolding s3_def n_def s2_def c_def i_def s1_def
    by (cases "ti_ephemeral inp") (simp_all add: prepareUserTurnHostNotes_def Some Let_def split_beta split: option.split)
  have pc: "tn_carried (fst (prepareUserTurnHostNotes env (\<lambda>r. r \<in> set g) inp s)) = c @ (case u of None \<Rightarrow> [] | Some bs \<Rightarrow> bs) @ (if turn_boundary inp = [] then [] else [fst n])"
    unfolding n_def u_def s2_def c_def i_def s1_def
    by (cases "ti_ephemeral inp") (simp_all add: prepareUserTurnHostNotes_def Some Let_def split_beta split: option.split)
  obtain o1 where o1: "objs \<subseteq> o1" "tables_ok K used o1 s1" "\<And>j. kept_notes j s1 = kept_notes j s"
  proof (cases "ti_compaction inp \<or> ti_ephemeral inp")
    case True
    show ?thesis by (rule that [of objs]) (use True assms(1) in \<open>simp_all add: s1_def\<close>)
  next
    case False
    note r = release_ok [OF assms(1,2) K, where owner = None and g = "\<lambda>r. r \<in> set g"]
    obtain o1 where "objs \<subseteq> o1" "tables_ok K used o1 (releaseHostNoteInjections k None (\<lambda>r. r \<in> set g) s)" using r(1) by blast
    then show ?thesis using False r(3) by (intro that [of o1]) (simp_all add: s1_def)
  qed
  have s2: "tables_ok K used o1 s2" "kept_notes j s2 = kept_notes j s" for j
    using interrupted_wait_ok [OF o1(2) assms(2) K] o1 by (auto simp: s2_def i_def split: option.split)
  have c: "set c \<subseteq> o1" using interrupted_objs [OF o1(2), of k] by (auto simp: c_def i_def split: option.splits if_splits)
  have u: "(case u of None \<Rightarrow> {} | Some bs \<Rightarrow> set bs) \<subseteq> o1" using undelivered_objs [OF s2(1), of k] by (auto simp: u_def undelivered_of_def split: option.splits if_splits)
  note b = new_order_batch_ok [OF s2(1), where ns = "turn_boundary inp", folded n_def]
  define o2 where "o2 = o1 \<union> (if turn_boundary inp = [] then {} else {fst n})"
  have m: "tables_ok K used o2 s3" using b(1) s2(1) by (simp add: s3_def o2_def)
  have "kept_notes j s3 = kept_notes j s" for j using b(2) s2(2) by (simp add: s3_def)
  then show ?thesis unfolding event_ok_def note_step.simps returned.simps p
    using m o1(1) c u by (intro conjI exI [of _ o2]) (auto simp: handed_notes_def o2_def pc split: option.splits if_splits)
qed

lemma undelivered_table_ok:
  assumes "tables_ok K used objs s" "jm_wf m" "fst ` set m \<subseteq> K" "set (concat (map snd m)) \<subseteq> objs"
  shows "tables_ok K used objs (s\<lparr>ns_undelivered := m\<rparr>)"
  using assms by (simp add: tables_ok_def live_batches_def entry_ids_def)

lemma forget_ok:
  assumes "tables_ok K used objs s" "k \<in> K"
  shows "tables_ok K used objs (forgetUndeliveredHostNotes k bs s)"
    and "waiting j (forgetUndeliveredHostNotes k bs s) = (if j = k then batch_content ` set (filter (\<lambda>b. nb_ref b \<notin> nb_ref ` set bs) (undelivered_of k s)) else waiting j s)"
    and "in_flight j (forgetUndeliveredHostNotes k bs s) = in_flight j s"
    and "interrupted_content j (forgetUndeliveredHostNotes k bs s) = interrupted_content j s"
proof -
  define r where "r = filter (\<lambda>b. nb_ref b \<notin> nb_ref ` set bs) (undelivered_of k s)"
  define m where "m = (if r = [] then jm_delete k (ns_undelivered s) else jm_set k r (ns_undelivered s))"
  have f: "forgetUndeliveredHostNotes k bs s = (if jm_has (ns_undelivered s) k then s\<lparr>ns_undelivered := m\<rparr> else s)"
    by (auto simp: forgetUndeliveredHostNotes_def m_def r_def undelivered_of_def Let_def split: option.split)
  have m: "set m \<subseteq> insert (k, r) (set (ns_undelivered s))" using set_jm_set [of k r "ns_undelivered s"] by (auto simp: m_def jm_delete_filter)
  have r: "set r \<subseteq> objs" using undelivered_objs [OF assms(1), of k] by (auto simp: r_def)
  have o: "fst ` set (ns_undelivered s) \<subseteq> K" "set (concat (map snd (ns_undelivered s))) \<subseteq> objs"
    using assms(1) by (simp_all add: tables_ok_def live_batches_def)
  have "fst ` set m \<subseteq> K" using subset_trans [OF image_mono [OF m], of fst K] o(1) assms(2) by simp
  moreover have "set (concat (map snd m)) \<subseteq> objs"
  proof
    fix x assume "x \<in> set (concat (map snd m))"
    then obtain p where p: "p \<in> set m" "x \<in> set (snd p)" by auto
    show "x \<in> objs"
    proof (cases "p = (k, r)")
      case True
      then show ?thesis using p(2) r by auto
    next
      case False
      then have "p \<in> set (ns_undelivered s)" using m p(1) by blast
      then have "x \<in> set (concat (map snd (ns_undelivered s)))" using p(2) by auto
      then show ?thesis using o(2) by blast
    qed
  qed
  moreover have "jm_wf m" using assms(1) by (simp add: m_def tables_ok_def)
  ultimately show "tables_ok K used objs (forgetUndeliveredHostNotes k bs s)" using assms(1) by (simp add: f undelivered_table_ok)
  show "waiting j (forgetUndeliveredHostNotes k bs s) = (if j = k then batch_content ` set r else waiting j s)"
  proof -
    have "undelivered_of j (forgetUndeliveredHostNotes k bs s) = (if j = k then r else undelivered_of j s)"
    proof (cases "jm_get (ns_undelivered s) k")
      case None
      then show ?thesis by (simp add: f undelivered_of_def r_def)
    next
      case (Some c)
      then show ?thesis by (simp add: f undelivered_of_def m_def)
    qed
    then show ?thesis by (simp add: waiting_def)
  qed
qed (auto simp: forgetUndeliveredHostNotes_def Let_def split: option.split)

lemma event_sent:
  assumes "tables_ok K used objs s" "set (event_keys (TurnSent key t)) \<subseteq> K"
  shows "event_ok env K used objs s (TurnSent key t)"
proof (cases "named key")
  case None
  then show ?thesis using assms(1) by (auto simp: event_ok_def handed_notes_def turn_sent_def)
next
  case (Some k)
  then have K: "k \<in> K" using assms(2) by simp
  define bs where "bs = (case tn_undelivered t of None \<Rightarrow> [] | Some bs \<Rightarrow> bs)"
  define same where "same \<longleftrightarrow> map_option nb_ref (jm_get (ns_interrupted s) k) = map_option nb_ref (tn_interrupted t)"
  define s1 where "s1 = (if same then s\<lparr>ns_interrupted := jm_delete k (ns_interrupted s)\<rparr> else s)"
  have s': "turn_sent key t s = (if bs = [] then s1 else forgetUndeliveredHostNotes k bs s1)"
    by (auto simp: turn_sent_def Some bs_def s1_def same_def Let_def split: option.split)
  have s1: "tables_ok K used objs s1" using assms(1) by (simp add: s1_def interrupted_delete_ok)
  note f = forget_ok [OF s1 K, where bs = bs]
  have u: "undelivered_of k s1 = undelivered_of k s" by (simp add: s1_def undelivered_of_def)
  have ok: "tables_ok K used objs (turn_sent key t s)" using f(1) s1 by (simp add: s')
  have w: "waiting j s \<subseteq> waiting j (turn_sent key t s) \<union> left_notes j s (TurnSent key t)" for j
  proof
    fix c assume "c \<in> waiting j s"
    then obtain b where b: "b \<in> set (undelivered_of j s)" "c = batch_content b" by (auto simp: waiting_def)
    show "c \<in> waiting j (turn_sent key t s) \<union> left_notes j s (TurnSent key t)"
    proof (cases "j = k \<and> nb_ref b \<in> nb_ref ` set bs")
      case True
      then have "(j, CarriedByRun, c) \<in> set (leaves s (TurnSent key t))" using b Some unfolding bs_def by auto
      then show ?thesis unfolding left_notes_def by blast
    next
      case False
      then show ?thesis using b f(2) [of j] u by (auto simp: s' waiting_def s1_def undelivered_of_def)
    qed
  qed
  have i: "interrupted_content j s \<subseteq> interrupted_content j (turn_sent key t s) \<union> left_notes j s (TurnSent key t)" for j
  proof (cases "same \<and> j = k")
    case True
    show ?thesis
    proof
      fix c assume "c \<in> interrupted_content j s"
      then obtain b where b: "jm_get (ns_interrupted s) k = Some b" "c = batch_content b" using True by (auto simp: interrupted_content_def)
      then have "(j, CarriedByRun, c) \<in> set (leaves s (TurnSent key t))" using True Some by (auto simp: same_def)
      then show "c \<in> interrupted_content j (turn_sent key t s) \<union> left_notes j s (TurnSent key t)" unfolding left_notes_def by blast
    qed
  next
    case False
    then have "interrupted_content j (turn_sent key t s) = interrupted_content j s" using f(4) [of j] by (auto simp: s' s1_def)
    then show ?thesis by blast
  qed
  have l: "in_flight j (turn_sent key t s) = in_flight j s" for j using f(3) [of j] by (simp add: s' s1_def)
  have "kept_notes j s \<subseteq> kept_notes j (turn_sent key t s) \<union> left_notes j s (TurnSent key t)" for j
    unfolding kept_notes_def l using w [of j] i [of j] by blast
  then show ?thesis unfolding event_ok_def using ok by (auto simp: handed_notes_def)
qed

lemma event_restored:
  assumes "tables_ok K used objs s" "small K" "k \<in> K"
  shows "event_ok env K used objs s (NotesRestored k b)"
proof (cases "decodePersistedHostNotes b = []")
  case True
  then show ?thesis using assms(1) by (auto simp: event_ok_def handed_notes_def restorePersistedHostNotes_def)
next
  case False
  let ?n = "new_batch (decodePersistedHostNotes b) (fst (next_order s)) (snd (next_order s))"
  note n = new_order_batch_ok [OF assms(1), where ns = "decodePersistedHostNotes b"]
  have s': "restorePersistedHostNotes k b s = rememberUndeliveredHostNotes k [fst ?n] (snd ?n)"
    using False by (simp add: restorePersistedHostNotes_def Let_def split_beta)
  note r = remember_ok [OF n(1) assms(2,3), of "[fst ?n]"]
  have c: "batch_content (fst ?n) = (ns_order s, decodePersistedHostNotes b)" by (simp add: new_batch_def next_order_def batch_content_def)
  have f: "in_flight j (snd ?n) = in_flight j s" "interrupted_content j (snd ?n) = interrupted_content j s" "waiting j (snd ?n) = waiting j s" for j
    by (simp_all add: new_batch_def next_order_def)
  have "left_notes j s (NotesRestored k b) = (if j = k then waiting k s else {})" "handed_notes j s (NotesRestored k b) = (if j = k then {(ns_order s, decodePersistedHostNotes b)} else {})" for j
    using False by (auto simp: left_notes_def waiting_def handed_notes_def Let_def)
  then show ?thesis unfolding event_ok_def note_step.simps s' kept_notes_def
    using r c f by auto
qed

lemma event_interrupted:
  assumes "tables_ok K used objs s" "small K" "k \<in> K"
  shows "event_ok env K used objs s (InterruptedRestored k b d)"
proof -
  define ns where "ns = filter (\<lambda>n. n \<notin> set (decodePersistedHostNotes d)) (decodePersistedHostNotes b)"
  define s1 where "s1 = s\<lparr>ns_interrupted := jm_delete k (ns_interrupted s)\<rparr>"
  let ?n = "new_batch ns (fst (next_order s1)) (snd (next_order s1))"
  let ?s = "note_step env s (InterruptedRestored k b d)"
  have ok1: "tables_ok K used objs s1" using assms(1) by (simp add: s1_def interrupted_delete_ok)
  note n = new_order_batch_ok [OF ok1, where ns = ns]
  have p: "jm_put MAX_TURN_STATE_SESSIONS k v (ns_interrupted s1) = jm_touch k v (ns_interrupted s1)" for v
    using ok1 assms by (intro put_touch) (auto simp: tables_ok_def)
  have s': "?s = (if ns = [] then s1 else (snd ?n)\<lparr>ns_interrupted := jm_touch k (fst ?n) (ns_interrupted s1)\<rparr>)"
    using p by (simp add: restoreInterruptedRunHostNotes_def ns_def [symmetric] s1_def [symmetric] Let_def split_beta new_batch_def next_order_def)
  have "\<exists>objs'. objs \<subseteq> objs' \<and> tables_ok K used objs' ?s"
  proof (cases "ns = []")
    case False
    have "tables_ok K used (insert (fst ?n) objs) ((snd ?n)\<lparr>ns_interrupted := jm_touch k (fst ?n) (ns_interrupted s1)\<rparr>)"
    proof (rule interrupted_table_ok [OF n(1)])
      show "jm_wf (jm_touch k (fst ?n) (ns_interrupted s1))" using ok1 by (simp add: tables_ok_def)
      show "fst ` set (jm_touch k (fst ?n) (ns_interrupted s1)) \<subseteq> K" using ok1 assms(3) by (simp add: keys_touch tables_ok_def)
      have "snd ` set (ns_interrupted s1) \<subseteq> objs" using ok1 by (simp add: tables_ok_def live_batches_def)
      then show "snd ` set (jm_touch k (fst ?n) (ns_interrupted s1)) \<subseteq> insert (fst ?n) objs" by (auto simp: jm_touch_append)
    qed
    then show ?thesis using False s' by auto
  qed (use ok1 s' in auto)
  moreover have "kept_notes j s \<subseteq> kept_notes j ?s \<union> left_notes j s (InterruptedRestored k b d)" for j
  proof -
    have "in_flight j ?s = in_flight j s" "waiting j ?s = waiting j s" unfolding s' by (simp_all add: s1_def new_batch_def next_order_def)
    moreover have "interrupted_content j s \<subseteq> interrupted_content j ?s \<union> left_notes j s (InterruptedRestored k b d)"
    proof (cases "j = k")
      case True
      then show ?thesis by (auto simp: interrupted_content_def left_notes_def)
    next
      case False
      then show ?thesis unfolding s' by (auto simp: s1_def interrupted_content_def new_batch_def next_order_def)
    qed
    ultimately show ?thesis by (auto simp: kept_notes_def)
  qed
  ultimately show ?thesis by (simp add: event_ok_def handed_notes_def)
qed

lemma event_copy:
  assumes "tables_ok K used objs s"
  shows "event_ok env K used objs s (CopyReplaced k)"
proof -
  have d: "set (jm_delete k (ns_undelivered s)) \<subseteq> set (ns_undelivered s)" by (auto simp: jm_delete_filter)
  have o: "fst ` set (ns_undelivered s) \<subseteq> K" "set (concat (map snd (ns_undelivered s))) \<subseteq> objs" "jm_wf (ns_undelivered s)"
    using assms by (simp_all add: tables_ok_def live_batches_def)
  have "tables_ok K used objs (s\<lparr>ns_undelivered := jm_delete k (ns_undelivered s)\<rparr>)"
  proof (rule undelivered_table_ok [OF assms])
    show "jm_wf (jm_delete k (ns_undelivered s))" using o(3) by simp
    show "fst ` set (jm_delete k (ns_undelivered s)) \<subseteq> K" using image_mono [OF d] o(1) by (rule subset_trans)
    have "set (concat (map snd (jm_delete k (ns_undelivered s)))) \<subseteq> set (concat (map snd (ns_undelivered s)))" using d by (simp add: UN_mono)
    then show "set (concat (map snd (jm_delete k (ns_undelivered s)))) \<subseteq> objs" using o(2) by (rule subset_trans)
  qed
  then have "tables_ok K used objs (copy_replaced k s)"
    using interrupted_delete_ok [of K used objs "s\<lparr>ns_undelivered := jm_delete k (ns_undelivered s)\<rparr>" k] by (simp add: copy_replaced_def)
  moreover have "kept_notes j s \<subseteq> kept_notes j (copy_replaced k s) \<union> left_notes j s (CopyReplaced k)" for j
  proof (cases "j = k")
    case True
    have "waiting k s \<union> interrupted_content k s \<subseteq> left_notes k s (CopyReplaced k)"
    proof
      fix c assume "c \<in> waiting k s \<union> interrupted_content k s"
      then have "(k, OtherCopy, c) \<in> set (leaves s (CopyReplaced k))" by (auto simp: waiting_def interrupted_content_def)
      then show "c \<in> left_notes k s (CopyReplaced k)" unfolding left_notes_def by blast
    qed
    moreover have "in_flight k (copy_replaced k s) = in_flight k s" by (simp add: copy_replaced_def in_flight_def injections_of_def)
    ultimately show ?thesis unfolding True kept_notes_def by blast
  next
    case False
    then have "kept_notes j (copy_replaced k s) = kept_notes j s"
      by (simp add: copy_replaced_def kept_notes_def waiting_def in_flight_def interrupted_content_def undelivered_of_def injections_of_def)
    then show ?thesis by blast
  qed
  ultimately show ?thesis by (auto simp: event_ok_def handed_notes_def)
qed

lemma event_kept_ok:
  assumes "tables_ok K used objs s" "small K" "set (event_keys e) \<subseteq> K" "set (event_ids e) \<inter> used = {}" "set (event_batches e) \<subseteq> objs"
  shows "event_ok env K used objs s e"
proof (cases e)
  case (NotesInjected key r ns ord i m)
  then show ?thesis using event_inject [OF assms(1,2), of key r ns ord i m] assms(3,4) by simp
next
  case (InjectionState key i kind st)
  then show ?thesis using event_state [OF assms(1,2), of key i kind st] assms(3) by simp
next
  case (CheckpointStored key r)
  then show ?thesis using event_checkpoint [OF assms(1), of key r] assms(3) by simp
next
  case (TurnEnded key r)
  then show ?thesis using event_turn_ended [OF assms(1,2), of key r] assms(3) by simp
next
  case (NotesTaken key r)
  then show ?thesis using event_taken [OF assms(1), of key r] assms(3) by simp
next
  case (TurnPrepared inp g)
  then show ?thesis using event_prepared [OF assms(1,2), of inp g] assms(3) by simp
next
  case (TurnSent key t)
  then show ?thesis using event_sent [OF assms(1), of key t] assms(3) by simp
qed (use event_kept event_batches_kept event_restored event_interrupted event_copy assms in auto)

lemma chain_sets: "C \<union> E \<subseteq> F \<union> G \<Longrightarrow> A \<union> B \<subseteq> C \<union> D \<Longrightarrow> A \<union> (B \<union> E) \<subseteq> F \<union> (D \<union> G)"
  by blast

lemma events_keep:
  assumes "tables_ok (set K) (set used) (set objs) s" "small (set K)" "callers_ok env K used objs s es"
  shows "kept_notes j s \<union> {c. (j, c) \<in> set (all_handed env s es)}
    \<subseteq> kept_notes j (foldl (note_step env) s es) \<union> {c. \<exists>r. (j, r, c) \<in> set (all_left env s es)}"
  using assms(1,3)
proof (induction es arbitrary: s used objs)
  case (Cons e es)
  let ?s = "note_step env s e" and ?objs = "live_batches (note_step env s e) @ returned env s e @ objs"
  have c: "set (event_keys e) \<subseteq> set K" "set (event_ids e) \<inter> set used = {}" "set (event_batches e) \<subseteq> set objs"
    "callers_ok env K (event_ids e @ used) ?objs ?s es" using Cons.prems(2) by simp_all
  note ok = event_kept_ok [OF Cons.prems(1) assms(2) c(1-3), of env, unfolded event_ok_def]
  obtain o' where o': "set objs \<union> set (returned env s e) \<subseteq> o'" "tables_ok (set K) (set (event_ids e) \<union> set used) o' ?s" using ok by blast
  have "set (live_batches ?s) \<subseteq> o'" using o'(2) by (simp only: tables_ok_def)
  then have b: "set ?objs \<subseteq> o'" "set (live_batches ?s) \<subseteq> set ?objs" using o'(1) unfolding set_append by blast+
  have "tables_ok (set K) (set (event_ids e @ used)) (set ?objs) ?s" unfolding set_append [of "event_ids e"] by (rule tables_ok_objs [OF o'(2) b])
  from Cons.IH [OF this c(4)]
  have "kept_notes j ?s \<union> {c. (j, c) \<in> set (all_handed env ?s es)} \<subseteq> kept_notes j (foldl (note_step env) ?s es) \<union> {c. \<exists>r. (j, r, c) \<in> set (all_left env ?s es)}" .
  moreover have "kept_notes j s \<union> {c. (j, c) \<in> set (handed s e)} \<subseteq> kept_notes j ?s \<union> {c. \<exists>r. (j, r, c) \<in> set (leaves s e)}"
    using conjunct2 [OF ok] unfolding handed_notes_def left_notes_def by (rule spec)
  ultimately have "kept_notes j s \<union> ({c. (j, c) \<in> set (handed s e)} \<union> {c. (j, c) \<in> set (all_handed env ?s es)})
      \<subseteq> kept_notes j (foldl (note_step env) ?s es) \<union> ({c. \<exists>r. (j, r, c) \<in> set (leaves s e)} \<union> {c. \<exists>r. (j, r, c) \<in> set (all_left env ?s es)})"
    by (intro chain_sets)
  then show ?case by (simp only: foldl.simps all_handed.simps all_left.simps set_append Un_iff Collect_disj_eq ex_disj_distrib)
qed simp

section \<open>Why a note may leave\<close>

definition note_run :: "text_env \<Rightarrow> note_event list \<Rightarrow> note_store" where
  "note_run env es = foldl (note_step env) note_start es"

text \<open>A request says a note: it is one of its reminders, or in the history it seeds, or in a note just before the
user message that is one of them.\<close>

definition request_says :: "text_env \<Rightarrow> turn_notes_input \<Rightarrow> turn_notes \<Rightarrow> utf16 \<Rightarrow> bool" where
  "request_says env inp t n \<longleftrightarrow> hostNoteBody n = [] \<or> wrapHostNoteForCursor n \<in> set (tn_reminders t)
     \<or> js_includes (seeded_text env inp) (js_trim n)
     \<or> (\<exists>x \<in> set (turn_boundary inp). js_includes x (js_trim n) \<and> (hostNoteBody x = [] \<or> wrapHostNoteForCursor x \<in> set (tn_reminders t)))"

lemma request_says_undelivered:
  assumes "prepareUserTurnHostNotes env gone inp s = (t, s1)" "tn_undelivered t = Some bs" "b \<in> set bs" "n \<in> set (nb_notes b)"
  shows "request_says env inp t n"
proof -
  have t: "tn_reminders t = wrapHostNotesForCursor (filter (\<lambda>n. \<not> js_includes (seeded_text env inp) (js_trim n)
      \<and> \<not> list_ex (\<lambda>t. js_includes t (js_trim n)) (turn_boundary inp)) (concat (map nb_notes bs))) @ wrapHostNotesForCursor (turn_boundary inp)"
    using assms(1,2) by (auto simp: prepareUserTurnHostNotes_def Let_def split_beta)
  have x: "hostNoteBody x = [] \<or> wrapHostNoteForCursor x \<in> set (tn_reminders t)" if "x \<in> set (turn_boundary inp)" for x
    using that by (auto simp: t wrapHostNotesForCursor_def)
  have n: "n \<in> set (concat (map nb_notes bs))" using assms(3,4) by auto
  show ?thesis
  proof (cases "\<exists>x \<in> set (turn_boundary inp). js_includes x (js_trim n)")
    case True
    then show ?thesis using x unfolding request_says_def by blast
  next
    case False
    then show ?thesis using n by (auto simp: request_says_def t wrapHostNotesForCursor_def list_ex_iff)
  qed
qed

text \<open>Cursor reported the injection delivered.\<close>

definition acknowledged :: "note_event list \<Rightarrow> utf16 \<Rightarrow> utf16 \<Rightarrow> bool" where
  "acknowledged es k i \<longleftrightarrow> (\<exists>key st. InjectionState key (Some i) Delivered st \<in> set es \<and> named key = Some k)"

fun rightly_left :: "text_env \<Rightarrow> note_event list \<Rightarrow> note_event \<Rightarrow> utf16 \<Rightarrow> note_content \<Rightarrow> bool" where
  "rightly_left env before (CheckpointStored key run) k c \<longleftrightarrow> named key = Some k
     \<and> (\<exists>i e. (i, e) \<in> set (injections_of k (note_run env before)) \<and> entry_content e = c \<and> in_run e = run \<and> acknowledged before k i)"
| "rightly_left env before (NotesTaken key run) k c \<longleftrightarrow> named key = Some k
     \<and> c \<in> batch_content ` set (fst (takeHostNoteInjections key run (note_run env before)))"
| "rightly_left env before (TurnSent key t) k c \<longleftrightarrow> named key = Some k
     \<and> (\<exists>p inp gone q. before = p @ TurnPrepared inp gone # q \<and> named (ti_key inp) = Some k
          \<and> t = fst (prepareUserTurnHostNotes env (\<lambda>r. r \<in> set gone) inp (note_run env p))
          \<and> ((\<forall>n \<in> set (snd c). request_says env inp t n)
             \<or> (ti_checkpoint inp \<or> ti_resuming inp) \<and> (\<exists>b. tn_interrupted t = Some b \<and> batch_content b = c)))"
| "rightly_left env before (NotesRestored k' b) k c \<longleftrightarrow> k' = k"
| "rightly_left env before (InterruptedRestored k' b d) k c \<longleftrightarrow> k' = k"
| "rightly_left env before (CopyReplaced k') k c \<longleftrightarrow> k' = k"
| "rightly_left env before e k c \<longleftrightarrow> False"

text \<open>Only turns that were prepared are sent, under the session they were prepared for.\<close>

fun sends_ok :: "text_env \<Rightarrow> (utf16 option \<times> turn_notes) list \<Rightarrow> note_store \<Rightarrow> note_event list \<Rightarrow> bool" where
  "sends_ok env turns s [] \<longleftrightarrow> True"
| "sends_ok env turns s (e # es) \<longleftrightarrow>
     (case e of TurnSent key t \<Rightarrow> (named key, t) \<in> set turns | _ \<Rightarrow> True)
     \<and> sends_ok env ((case e of TurnPrepared inp gone \<Rightarrow> [(named (ti_key inp), fst (prepareUserTurnHostNotes env (\<lambda>r. r \<in> set gone) inp s))]
          | _ \<Rightarrow> []) @ turns) (note_step env s e) es"

lemma sends_prepared:
  assumes "sends_ok env turns s es" "es = before @ TurnSent key t # after"
  shows "(named key, t) \<in> set turns \<or> (\<exists>p inp gone q. before = p @ TurnPrepared inp gone # q \<and> named (ti_key inp) = named key
    \<and> t = fst (prepareUserTurnHostNotes env (\<lambda>r. r \<in> set gone) inp (foldl (note_step env) s p)))"
  using assms
proof (induction before arbitrary: s turns es)
  case Nil
  then show ?case by simp
next
  case (Cons e before)
  obtain turns' where t: "sends_ok env turns' (note_step env s e) (before @ TurnSent key t # after)"
      "set turns' \<subseteq> set turns \<union> {(named (ti_key inp), fst (prepareUserTurnHostNotes env (\<lambda>r. r \<in> set gone) inp s)) | inp gone. e = TurnPrepared inp gone}"
    using Cons.prems by (cases e) auto
  from Cons.IH [OF t(1) refl] show ?case
  proof
    assume "(named key, t) \<in> set turns'"
    then consider "(named key, t) \<in> set turns" | inp gone where "e = TurnPrepared inp gone" "named (ti_key inp) = named key"
        "t = fst (prepareUserTurnHostNotes env (\<lambda>r. r \<in> set gone) inp s)"
      using t(2) by fastforce
    then show ?thesis
    proof cases
      case (2 inp gone)
      then show ?thesis by (intro disjI2 exI [of _ "[]"] exI [of _ inp] exI [of _ gone] exI [of _ before]) simp
    qed simp
  next
    assume "\<exists>p inp gone q. before = p @ TurnPrepared inp gone # q \<and> named (ti_key inp) = named key
      \<and> t = fst (prepareUserTurnHostNotes env (\<lambda>r. r \<in> set gone) inp (foldl (note_step env) (note_step env s e) p))"
    then obtain p inp gone q where "before = p @ TurnPrepared inp gone # q" "named (ti_key inp) = named key"
        "t = fst (prepareUserTurnHostNotes env (\<lambda>r. r \<in> set gone) inp (foldl (note_step env) (note_step env s e) p))" by blast
    then show ?thesis by (intro disjI2 exI [of _ "e # p"] exI [of _ inp] exI [of _ gone] exI [of _ q]) simp
  qed
qed

lemma left_event:
  assumes "x \<in> set (all_left env s es)"
  shows "\<exists>before e after. es = before @ e # after \<and> x \<in> set (leaves (foldl (note_step env) s before) e)"
  using assms
proof (induction es arbitrary: s)
  case (Cons e es)
  show ?case
  proof (cases "x \<in> set (leaves s e)")
    case True
    then show ?thesis by (intro exI [of _ "[]"] exI [of _ e] exI [of _ es]) simp
  next
    case False
    then have "x \<in> set (all_left env (note_step env s e) es)" using Cons.prems by simp
    from Cons.IH [OF this] obtain before e' after
      where "es = before @ e' # after" "x \<in> set (leaves (foldl (note_step env) (note_step env s e) before) e')" by blast
    then show ?thesis by (intro exI [of _ "e # before"] exI [of _ e'] exI [of _ after]) simp
  qed
qed simp

text \<open>The objects seen on the way to a state are the same objects in it.\<close>

lemma objects_seen:
  assumes "tables_ok (set K) (set used) (set objs) s" "small (set K)" "callers_ok env K used objs s (before @ after)"
  shows "\<exists>used' objs'. tables_ok (set K) used' objs' (foldl (note_step env) s before) \<and> set objs \<subseteq> objs'
    \<and> (\<forall>p q. before = p @ q \<longrightarrow> set (live_batches (foldl (note_step env) s p)) \<subseteq> objs')
    \<and> (\<forall>p e q. before = p @ e # q \<longrightarrow> set (returned env (foldl (note_step env) s p) e) \<subseteq> objs')"
  using assms(1,3)
proof (induction before arbitrary: s used objs)
  case Nil
  then have "set (live_batches s) \<subseteq> set objs" by (simp add: tables_ok_def)
  then show ?case using Nil.prems(1) by (intro exI [of _ "set used"] exI [of _ "set objs"]) simp
next
  case (Cons e before)
  let ?s = "note_step env s e" and ?objs = "live_batches (note_step env s e) @ returned env s e @ objs"
  have c: "set (event_keys e) \<subseteq> set K" "set (event_ids e) \<inter> set used = {}" "set (event_batches e) \<subseteq> set objs"
    "callers_ok env K (event_ids e @ used) ?objs ?s (before @ after)" using Cons.prems(2) by simp_all
  note ok = event_kept_ok [OF Cons.prems(1) assms(2) c(1-3), of env, unfolded event_ok_def]
  obtain o' where o': "set objs \<union> set (returned env s e) \<subseteq> o'" "tables_ok (set K) (set (event_ids e) \<union> set used) o' ?s" using ok by blast
  have "set (live_batches ?s) \<subseteq> o'" using o'(2) by (simp only: tables_ok_def)
  then have b: "set ?objs \<subseteq> o'" "set (live_batches ?s) \<subseteq> set ?objs" using o'(1) unfolding set_append by blast+
  have "tables_ok (set K) (set (event_ids e @ used)) (set ?objs) ?s" unfolding set_append [of "event_ids e"] by (rule tables_ok_objs [OF o'(2) b])
  from Cons.IH [OF this c(4)] obtain used' objs' where IH: "tables_ok (set K) used' objs' (foldl (note_step env) ?s before)" "set ?objs \<subseteq> objs'"
      "\<forall>p q. before = p @ q \<longrightarrow> set (live_batches (foldl (note_step env) ?s p)) \<subseteq> objs'"
      "\<forall>p e' q. before = p @ e' # q \<longrightarrow> set (returned env (foldl (note_step env) ?s p) e') \<subseteq> objs'" by blast
  have live: "set (live_batches s) \<subseteq> objs'" using Cons.prems(1) IH(2) by (auto simp: tables_ok_def)
  have "set (live_batches (foldl (note_step env) s p)) \<subseteq> objs'" if "e # before = p @ q" for p q
    using that IH(3) live by (cases p) auto
  moreover have "set (returned env (foldl (note_step env) s p) e') \<subseteq> objs'" if "e # before = p @ e' # q" for p e' q
    using that IH(2,4) by (cases p) auto
  ultimately show ?case using IH(1,2) by (intro exI [of _ used'] exI [of _ objs']) auto
qed

text \<open>What an operation does to the acknowledged injections and to the interrupted batches.\<close>

definition delivered_ids :: "utf16 \<Rightarrow> note_store \<Rightarrow> utf16 set" where
  "delivered_ids k s = {i. \<exists>m e. (k, m) \<in> set (ns_injections s) \<and> (i, e) \<in> set m \<and> in_delivered e}"

lemma delivered_of: "(i, e) \<in> set (injections_of k s) \<Longrightarrow> in_delivered e \<Longrightarrow> i \<in> delivered_ids k s"
  by (cases "jm_get (ns_injections s) k") (auto simp: delivered_ids_def injections_of_def dest: map_of_SomeD)

lemma delivered_table:
  assumes "set (ns_injections s') \<subseteq> insert (k, m) (set (ns_injections s))"
    and "\<And>i e. (i, e) \<in> set m \<Longrightarrow> in_delivered e \<Longrightarrow> i \<in> delivered_ids k s \<union> D"
  shows "delivered_ids j s' \<subseteq> delivered_ids j s \<union> (if j = k then D else {})"
proof
  fix i assume "i \<in> delivered_ids j s'"
  then obtain n e where "(j, n) \<in> set (ns_injections s')" "(i, e) \<in> set n" "in_delivered e" by (auto simp: delivered_ids_def)
  moreover from this(1) consider "j = k" "n = m" | "(j, n) \<in> set (ns_injections s)" using assms(1) by auto
  ultimately show "i \<in> delivered_ids j s \<union> (if j = k then D else {})"
    using assms(2) by cases (auto simp: delivered_ids_def)
qed

lemma put_injections_set: "set (ns_injections (put_injections k m s)) \<subseteq> insert (k, m) (set (ns_injections s))"
  using set_jm_set [of k m "ns_injections s"] by (auto simp: put_injections_def jm_delete_filter)

lemma set_jm_put: "set (jm_put n k v m) \<subseteq> insert (k, v) (set m)"
  by (auto simp: jm_put_def jm_evict_drop jm_touch_append dest: in_set_dropD)

lemma delivered_same: "ns_injections s' = ns_injections s \<Longrightarrow> delivered_ids j s' = delivered_ids j s"
  by (simp add: delivered_ids_def)

lemma append_frame [simp]:
  "ns_injections (appendUndeliveredHostNotes k bs s) = ns_injections s" "ns_interrupted (appendUndeliveredHostNotes k bs s) = ns_interrupted s"
  "ns_ref (appendUndeliveredHostNotes k bs s) = ns_ref s"
  "ns_injections (append_new k ns ord s) = ns_injections s" "ns_interrupted (append_new k ns ord s) = ns_interrupted s"
  "ns_ref (append_new k ns ord s) = Suc (ns_ref s)"
  by (simp_all add: append_new_def new_batch_def appendUndeliveredHostNotes_def rememberUndeliveredHostNotes_def)

lemma append_each_frame [simp]:
  "ns_injections (append_each k es s) = ns_injections s" "ns_interrupted (append_each k es s) = ns_interrupted s"
  "ns_ref s \<le> ns_ref (append_each k es s)"
proof -
  have "ns_injections (append_each k es s) = ns_injections s \<and> ns_interrupted (append_each k es s) = ns_interrupted s \<and> ns_ref s \<le> ns_ref (append_each k es s)"
  proof (induction es arbitrary: s)
    case (Cons e es)
    then show ?case using Cons [of "append_new k (in_notes e) (in_order e) s"] by simp
  qed simp
  then show "ns_injections (append_each k es s) = ns_injections s" "ns_interrupted (append_each k es s) = ns_interrupted s"
    "ns_ref s \<le> ns_ref (append_each k es s)" by simp_all
qed

lemma new_batches_frame [simp]:
  "ns_injections (snd (new_batches es s)) = ns_injections s" "ns_interrupted (snd (new_batches es s)) = ns_interrupted s"
  "ns_ref s \<le> ns_ref (snd (new_batches es s))"
proof -
  have "ns_injections (snd (new_batches es s)) = ns_injections s \<and> ns_interrupted (snd (new_batches es s)) = ns_interrupted s \<and> ns_ref s \<le> ns_ref (snd (new_batches es s))"
  proof (induction es arbitrary: s)
    case (Cons e es)
    show ?case using Cons [of "snd (new_batch (in_notes e) (in_order e) s)"] by (simp add: split_beta) (simp add: new_batch_def)
  qed simp
  then show "ns_injections (snd (new_batches es s)) = ns_injections s" "ns_interrupted (snd (new_batches es s)) = ns_interrupted s"
    "ns_ref s \<le> ns_ref (snd (new_batches es s))" by simp_all
qed

lemma put_frame [simp]: "ns_interrupted (put_injections k m s) = ns_interrupted s" "ns_ref (put_injections k m s) = ns_ref s"
  by (simp_all add: put_injections_def)

lemma release_delivered: "delivered_ids j (releaseHostNoteInjections k owner g s) \<subseteq> delivered_ids j s"
proof (cases "jm_has (ns_injections s) k")
  case True
  let ?m = "filter (\<lambda>(i, e). \<not> releases owner g e) (injections_of k s)"
  let ?s = "append_each k (filter (releases owner g) (map snd (injections_of k s))) s"
  have r: "releaseHostNoteInjections k owner g s = put_injections k ?m ?s" using True by (simp add: releaseHostNoteInjections_def)
  have "set (ns_injections (put_injections k ?m ?s)) \<subseteq> insert (k, ?m) (set (ns_injections s))"
    using put_injections_set [of k ?m ?s] by simp
  then have "delivered_ids j (put_injections k ?m ?s) \<subseteq> delivered_ids j s \<union> (if j = k then {} else {})"
    by (rule delivered_table) (auto intro: delivered_of)
  then show ?thesis unfolding r by simp
qed (simp add: releaseHostNoteInjections_def)

lemma release_leaves_rest [simp]: "ns_interrupted (releaseHostNoteInjections k owner g s) = ns_interrupted s"
  "ns_ref s \<le> ns_ref (releaseHostNoteInjections k owner g s)"
  by (simp_all add: releaseHostNoteInjections_def)

text \<open>The store of a prepared turn, and its interrupted batch.\<close>

lemma prepared_store:
  fixes g :: "nat \<Rightarrow> bool" and s :: note_store
  assumes "named (ti_key inp) = Some k"
  defines "s1 \<equiv> if ti_compaction inp \<or> ti_ephemeral inp then s else releaseHostNoteInjections k None g s"
  shows "ns_injections (snd (prepareUserTurnHostNotes env g inp s)) = ns_injections s1"
    and "ns_ref s1 \<le> ns_ref (snd (prepareUserTurnHostNotes env g inp s))"
    and "set (ns_interrupted (snd (prepareUserTurnHostNotes env g inp s))) \<subseteq> set (ns_interrupted s)"
    and "tn_interrupted (fst (prepareUserTurnHostNotes env g inp s)) = Some b \<Longrightarrow>
      (k, b) \<in> set (ns_interrupted s) \<and> (ti_checkpoint inp \<or> ti_resuming inp
        \<or> (\<forall>x. (k, x) \<notin> set (ns_interrupted (snd (prepareUserTurnHostNotes env g inp s)))))"
    and "tn_undelivered (fst (prepareUserTurnHostNotes env g inp s)) = Some bs \<Longrightarrow>
      set bs \<subseteq> set (tn_carried (fst (prepareUserTurnHostNotes env g inp s)))"
  unfolding s1_def prepareUserTurnHostNotes_def Let_def split_beta assms(1)
  by (auto simp: next_order_def new_batch_def jm_delete_filter split: option.splits if_splits dest!: map_of_SomeD)

lemma prepared_nothing: "named (ti_key inp) = None \<Longrightarrow>
    ns_injections (snd (prepareUserTurnHostNotes env g inp s)) = ns_injections s
    \<and> ns_interrupted (snd (prepareUserTurnHostNotes env g inp s)) = ns_interrupted s
    \<and> ns_ref s \<le> ns_ref (snd (prepareUserTurnHostNotes env g inp s))"
  by (simp add: prepareUserTurnHostNotes_def Let_def split_beta next_order_def new_batch_def)

lemma delivered_step:
  "delivered_ids j (note_step env s e) \<subseteq> delivered_ids j s \<union> {i. \<exists>key st. e = InjectionState key (Some i) Delivered st \<and> named key = Some j}"
proof (cases e)
  case (NotesInjected key r ns ord i m)
  define s1 where "s1 = (case ord of None \<Rightarrow> snd (next_order s) | Some n \<Rightarrow> s)"
  have f: "ns_injections s1 = ns_injections s" by (simp add: s1_def next_order_def split: option.split)
  then have g: "delivered_ids j s1 = delivered_ids j s" for j by (rule delivered_same)
  have t: "delivered_ids j (trackHostNoteInjection k i ns r n s1) \<subseteq> delivered_ids j s1" for k n
  proof -
    let ?m = "jm_set i \<lparr>in_notes = ns, in_order = n, in_run = r, in_delivered = False\<rparr> (injections_of k s1)"
    have "x \<in> delivered_ids k s1 \<union> {}" if "(x, e) \<in> set ?m" "in_delivered e" for x e
      using that set_jm_set [of i _ "injections_of k s1"] delivered_of [of x e k s1] by fastforce
    then show ?thesis using delivered_table [of "trackHostNoteInjection k i ns r n s1" k ?m s1 "{}" j]
      set_jm_put [of MAX_TURN_STATE_SESSIONS k ?m "ns_injections s1"] by (auto simp: trackHostNoteInjection_def Let_def split: if_splits)
  qed
  have "note_step env s e = s1 \<or> (\<exists>k n. note_step env s e = trackHostNoteInjection k i ns r n s1)"
    unfolding NotesInjected by (cases ord) (auto simp: injectHostNotes_def s1_def next_order_def Let_def split: option.split)
  then show ?thesis
  proof
    assume "note_step env s e = s1"
    then show ?thesis using g by simp
  next
    assume "\<exists>k n. note_step env s e = trackHostNoteInjection k i ns r n s1"
    then obtain k n where "note_step env s e = trackHostNoteInjection k i ns r n s1" by blast
    then show ?thesis using t [of k n] g [of j] by auto
  qed
next
  case (InjectionState key i kind st)
  show ?thesis
  proof (cases "\<exists>k x e'. named key = Some k \<and> named i = Some x \<and> jm_get (injections_of k s) x = Some e'
      \<and> \<not> (kind = Delivered \<and> snd (markEarlySteerDelivered key i st)) \<and> kind \<in> {Delivered, OtherState}")
    case False
    then have "note_step env s e = s" unfolding InjectionState by (cases kind) (auto simp: applyContextInjectionState_def Let_def split: option.splits prod.splits)
    then show ?thesis by simp
  next
    case True
    then obtain k x e' where k: "named key = Some k" "named i = Some x" "jm_get (injections_of k s) x = Some e'"
      "\<not> (kind = Delivered \<and> snd (markEarlySteerDelivered key i st))" "kind \<in> {Delivered, OtherState}" by blast
    show ?thesis
    proof (cases "kind = Delivered")
      case True
      let ?m = "jm_set x (e'\<lparr>in_delivered := True\<rparr>) (injections_of k s)"
      have s': "note_step env s e = put_injections k ?m s" unfolding InjectionState using True k by (simp add: applyContextInjectionState_def Let_def split_beta)
      have "y \<in> delivered_ids k s \<union> {x}" if "(y, d) \<in> set ?m" "in_delivered d" for y d
        using that set_jm_set [of x _ "injections_of k s"] delivered_of [of y d k s] by fastforce
      then have "delivered_ids j (note_step env s e) \<subseteq> delivered_ids j s \<union> (if j = k then {x} else {})"
        unfolding s' by (intro delivered_table [OF put_injections_set]) blast
      moreover have "i = Some x" using k(2) named_Some by blast
      ultimately show ?thesis using k(1) InjectionState True by (auto split: if_splits)
    next
      case False
      let ?m = "jm_delete x (injections_of k s)"
      have s': "note_step env s e = append_new k (in_notes e') (in_order e') (put_injections k ?m s)"
        unfolding InjectionState using False k by (auto simp: applyContextInjectionState_def Let_def split_beta)
      have "delivered_ids j (put_injections k ?m s) \<subseteq> delivered_ids j s \<union> (if j = k then {} else {})"
        by (intro delivered_table [OF put_injections_set]) (auto simp: jm_delete_filter intro: delivered_of)
      moreover have "delivered_ids j (note_step env s e) = delivered_ids j (put_injections k ?m s)" unfolding s' by (rule delivered_same) simp
      ultimately show ?thesis by auto
    qed
  qed
next
  case (CheckpointStored key r)
  have "delivered_ids j (put_injections k (filter (\<lambda>(i, e). in_run e \<noteq> r \<or> \<not> in_delivered e) (injections_of k s)) s)
      \<subseteq> delivered_ids j s \<union> (if j = k then {} else {})" for k
    by (intro delivered_table [OF put_injections_set]) (auto intro: delivered_of)
  then show ?thesis unfolding CheckpointStored by (auto simp: forgetCheckpointedHostNotes_def split: option.split)
next
  case (TurnEnded key r)
  then show ?thesis using release_delivered by (fastforce simp: keepUndeliveredHostNotes_def split: option.splits)
next
  case (NotesTaken key r)
  have "delivered_ids j (put_injections k (filter (\<lambda>(i, e). in_run e \<noteq> r) (injections_of k s)) (snd (new_batches es s)))
      \<subseteq> delivered_ids j (snd (new_batches es s)) \<union> (if j = k then {} else {})" for k es
    by (intro delivered_table [OF put_injections_set]) (auto intro: delivered_of simp: delivered_same [of "snd (new_batches es s)" s])
  moreover have "delivered_ids j (snd (new_batches es s)) = delivered_ids j s" for es by (rule delivered_same) simp
  ultimately show ?thesis unfolding NotesTaken by (auto simp: takeHostNoteInjections_def split_beta Let_def split: option.split if_splits)
next
  case (TurnPrepared inp gone)
  show ?thesis
  proof (cases "named (ti_key inp)")
    case None
    then show ?thesis using delivered_same prepared_nothing unfolding TurnPrepared note_step.simps by blast
  next
    case (Some k)
    show ?thesis using delivered_same [OF prepared_store(1) [OF Some]] release_delivered [of j k None] unfolding TurnPrepared note_step.simps by auto
  qed
next
  case (TurnSent key t)
  have "ns_injections (turn_sent key t s) = ns_injections s" by (auto simp: turn_sent_def forgetUndeliveredHostNotes_def Let_def split: option.split)
  then show ?thesis using delivered_same unfolding TurnSent note_step.simps by blast
next
  case (NotesRestored k b)
  have "ns_injections (restorePersistedHostNotes k b s) = ns_injections s"
    by (simp add: restorePersistedHostNotes_def rememberUndeliveredHostNotes_def new_batch_def next_order_def Let_def)
  then show ?thesis using delivered_same unfolding NotesRestored note_step.simps by blast
next
  case (InterruptedRestored k b d)
  have "ns_injections (restoreInterruptedRunHostNotes k b d s) = ns_injections s"
    by (simp add: restoreInterruptedRunHostNotes_def new_batch_def next_order_def Let_def)
  then show ?thesis using delivered_same unfolding InterruptedRestored note_step.simps by blast
next
  case (NotesKept k ns)
  have "ns_injections (note_step env s e) = ns_injections s" by (simp add: NotesKept next_order_def)
  then show ?thesis using delivered_same by blast
next
  case (BatchesKept k bs)
  have "ns_injections (note_step env s e) = ns_injections s" by (simp add: BatchesKept)
  then show ?thesis using delivered_same by blast
next
  case (CopyReplaced k)
  have "ns_injections (note_step env s e) = ns_injections s" by (simp add: CopyReplaced copy_replaced_def)
  then show ?thesis using delivered_same by blast
qed

lemma delivered_acknowledged: "delivered_ids j (note_run env es) \<subseteq> {i. acknowledged es j i}"
proof (induction es rule: rev_induct)
  case (snoc e es)
  have run: "note_run env (es @ [e]) = note_step env (note_run env es) e" by (simp add: note_run_def)
  have "acknowledged es j i \<Longrightarrow> acknowledged (es @ [e]) j i" for i by (auto simp: acknowledged_def)
  moreover have "acknowledged (es @ [InjectionState key (Some i) Delivered st]) j i" if "named key = Some j" for key i st
    using that by (auto simp: acknowledged_def)
  ultimately show ?case unfolding run using delivered_step [of j env "note_run env es" e] snoc by blast
qed (simp add: note_run_def note_start_def delivered_ids_def)

text \<open>An interrupted batch was there before or is a new object.\<close>

lemma interrupted_step:
  "(k, b) \<in> set (ns_interrupted (note_step env s e)) \<Longrightarrow> (k, b) \<in> set (ns_interrupted s) \<or> ns_ref s \<le> nb_ref b"
  "ns_ref s \<le> ns_ref (note_step env s e)"
proof -
  have "((k, b) \<in> set (ns_interrupted (note_step env s e)) \<longrightarrow> (k, b) \<in> set (ns_interrupted s) \<or> ns_ref s \<le> nb_ref b) \<and> ns_ref s \<le> ns_ref (note_step env s e)"
  proof (cases e)
    case (NotesInjected key r ns ord i m)
    then show ?thesis by (auto simp: injectHostNotes_def trackHostNoteInjection_def next_order_def Let_def split: option.splits)
  next
    case (InjectionState key i kind st)
    then show ?thesis by (cases kind) (auto simp: applyContextInjectionState_def Let_def split_beta split: option.splits)
  next
    case (CheckpointStored key r)
    then show ?thesis by (auto simp: forgetCheckpointedHostNotes_def split: option.splits)
  next
    case (TurnEnded key r)
    then show ?thesis by (auto simp: keepUndeliveredHostNotes_def split: option.splits)
  next
    case (NotesTaken key r)
    then show ?thesis by (auto simp: takeHostNoteInjections_def split_beta Let_def split: option.splits)
  next
    case (TurnPrepared inp gone)
    show ?thesis
    proof (cases "named (ti_key inp)")
      case None
      then show ?thesis using prepared_nothing [OF None] unfolding TurnPrepared by auto
    next
      case (Some k)
      let ?g = "\<lambda>r. r \<in> set gone"
      have "ns_ref s \<le> ns_ref (if ti_compaction inp \<or> ti_ephemeral inp then s else releaseHostNoteInjections k None ?g s)" by simp
      then have "ns_ref s \<le> ns_ref (snd (prepareUserTurnHostNotes env ?g inp s))" using prepared_store(2) [OF Some] by (rule le_trans)
      moreover have "set (ns_interrupted (snd (prepareUserTurnHostNotes env ?g inp s))) \<subseteq> set (ns_interrupted s)" by (rule prepared_store(3) [OF Some])
      ultimately show ?thesis unfolding TurnPrepared note_step.simps by blast
    qed
  next
    case (TurnSent key t)
    then show ?thesis by (auto simp: turn_sent_def forgetUndeliveredHostNotes_def jm_delete_filter Let_def split: option.splits if_splits)
  next
    case (InterruptedRestored k b d)
    then show ?thesis using set_jm_put [of MAX_TURN_STATE_SESSIONS k]
      by (fastforce simp: restoreInterruptedRunHostNotes_def new_batch_def next_order_def jm_delete_filter Let_def split: if_splits)
  qed (auto simp: restorePersistedHostNotes_def rememberUndeliveredHostNotes_def new_batch_def next_order_def copy_replaced_def jm_delete_filter Let_def split: if_splits)
  then show "(k, b) \<in> set (ns_interrupted (note_step env s e)) \<Longrightarrow> (k, b) \<in> set (ns_interrupted s) \<or> ns_ref s \<le> nb_ref b"
    "ns_ref s \<le> ns_ref (note_step env s e)" by simp_all
qed

lemma interrupted_run:
  "(k, b) \<in> set (ns_interrupted (foldl (note_step env) s es)) \<Longrightarrow> (k, b) \<in> set (ns_interrupted s) \<or> ns_ref s \<le> nb_ref b"
proof (induction es arbitrary: s)
  case (Cons e es)
  from Cons.IH [of "note_step env s e"] Cons.prems interrupted_step(1) [of k b env s e] interrupted_step(2) [of s env e]
  show ?case by force
qed simp

lemma sent_leaves:
  assumes "named key = Some k" "(k, r, c) \<in> set (leaves s (TurnSent key t))"
  shows "(\<exists>b bs. b \<in> set (undelivered_of k s) \<and> tn_undelivered t = Some bs \<and> nb_ref b \<in> nb_ref ` set bs \<and> c = batch_content b)
    \<or> (\<exists>b b0. jm_get (ns_interrupted s) k = Some b \<and> tn_interrupted t = Some b0 \<and> nb_ref b0 = nb_ref b \<and> c = batch_content b)"
proof (cases "jm_get (ns_interrupted s) k")
  case None
  then show ?thesis using assms by (cases "tn_undelivered t") auto
next
  case (Some b)
  then show ?thesis using assms by (cases "tn_undelivered t") (auto split: if_splits)
qed

lemma sent_rightly:
  assumes "small (set K)" "callers_ok env K [] [] note_start (before @ after)"
    and "before = p @ TurnPrepared inp gone # q" "named (ti_key inp) = named key"
    and "t = fst (prepareUserTurnHostNotes env (\<lambda>r. r \<in> set gone) inp (note_run env p))"
    and "(k, r, c) \<in> set (leaves (note_run env before) (TurnSent key t))"
  shows "rightly_left env before (TurnSent key t) k c"
proof -
  define sp where "sp = note_run env p"
  have init: "tables_ok (set K) (set []) (set []) note_start"
    by (simp add: tables_ok_def note_start_def live_batches_def entry_ids_def coherent_def)
  obtain used' objs' where o: "tables_ok (set K) used' objs' (note_run env before)"
      "\<forall>p q. before = p @ q \<longrightarrow> set (live_batches (foldl (note_step env) note_start p)) \<subseteq> objs'"
      "\<forall>p e q. before = p @ e # q \<longrightarrow> set (returned env (foldl (note_step env) note_start p) e) \<subseteq> objs'"
    using objects_seen [OF init assms(1,2)] unfolding note_run_def by blast
  obtain used1 objs1 where o1: "tables_ok (set K) used1 objs1 sp"
    using objects_seen [OF init assms(1), where env = env and before = p and after = "TurnPrepared inp gone # q @ after"] assms(2,3) unfolding sp_def note_run_def by auto
  have inj: "inj_on nb_ref objs'" using o(1) by (simp add: tables_ok_def coherent_def)
  have live: "set (live_batches (note_run env before)) \<subseteq> objs'" "set (live_batches sp) \<subseteq> objs'"
    using o(1,2) assms(3) unfolding sp_def note_run_def by (auto simp: tables_ok_def)
  have "returned env (foldl (note_step env) note_start p) (TurnPrepared inp gone) = tn_carried t" using assms(5) by (simp add: note_run_def)
  then have ret: "set (tn_carried t) \<subseteq> objs'" using o(3) assms(3) by metis
  have k: "named key = Some k" using assms(6) by (auto split: option.splits)
  then have kt: "named (ti_key inp) = Some k" using assms(4) by simp
  note prep = prepared_store [OF kt, where env = env and g = "\<lambda>r. r \<in> set gone" and s = sp, folded assms(5) [folded sp_def]]
  consider (waiting) b bs where "b \<in> set (undelivered_of k (note_run env before))" "tn_undelivered t = Some bs" "nb_ref b \<in> nb_ref ` set bs" "c = batch_content b"
    | (interrupted) b b0 where "jm_get (ns_interrupted (note_run env before)) k = Some b" "tn_interrupted t = Some b0" "nb_ref b0 = nb_ref b" "c = batch_content b"
    using assms(6) sent_leaves [OF k] by blast
  then have "(\<forall>n \<in> set (snd c). request_says env inp t n)
      \<or> (ti_checkpoint inp \<or> ti_resuming inp) \<and> (\<exists>b. tn_interrupted t = Some b \<and> batch_content b = c)"
  proof cases
    case (waiting b bs)
    have "b \<in> objs'" using undelivered_objs [OF o(1)] waiting(1) by blast
    moreover have "set bs \<subseteq> objs'" using prep(5) [OF waiting(2)] ret by blast
    ultimately have "b \<in> set bs" using waiting(3) inj by (auto simp: inj_on_def)
    then show ?thesis using waiting(2,4) assms(5)
      by (auto simp: batch_content_def intro!: request_says_undelivered [OF prod.collapse [symmetric]])
  next
    case (interrupted b b0)
    have b0: "(k, b0) \<in> set (ns_interrupted sp)" using prep(4) [OF interrupted(2)] by blast
    have b: "(k, b) \<in> set (ns_interrupted (note_run env before))" using interrupted(1) by (rule map_of_SomeD)
    have "b0 \<in> set (live_batches sp)" "b \<in> set (live_batches (note_run env before))" using b b0 by (force simp: live_batches_def)+
    then have "b0 = b" using live inj interrupted(3) by (auto simp: inj_on_def)
    moreover have "nb_ref b0 < ns_ref sp"
      using o1 \<open>b0 \<in> set (live_batches sp)\<close> by (auto simp: tables_ok_def coherent_def)
    moreover have "note_run env before = foldl (note_step env) (note_step env sp (TurnPrepared inp gone)) q"
      by (simp add: note_run_def sp_def assms(3))
    moreover have "ti_checkpoint inp \<or> ti_resuming inp \<or> (\<forall>x. (k, x) \<notin> set (ns_interrupted (note_step env sp (TurnPrepared inp gone))))"
      using prep(4) [OF interrupted(2)] by simp
    ultimately show ?thesis
      using interrupted_run [of k b env "note_step env sp (TurnPrepared inp gone)" q] interrupted_step(2) [of sp env "TurnPrepared inp gone"] b interrupted(2,4)
      by fastforce
  qed
  then show ?thesis using assms(3,5) k kt by auto
qed

lemma leaves_rightly:
  assumes "small (set K)" "callers_ok env K [] [] note_start (before @ e # after)" "sends_ok env [] note_start (before @ e # after)"
    and "(k, r, c) \<in> set (leaves (note_run env before) e)"
  shows "rightly_left env before e k c"
proof (cases e)
  case (CheckpointStored key run)
  then obtain i x where k: "named key = Some k" "(i, x) \<in> set (injections_of k (note_run env before))" "in_run x = run" "in_delivered x" "c = entry_content x"
    using assms(4) by (auto split: option.splits)
  moreover have "acknowledged before k i" using delivered_of [OF k(2,4)] delivered_acknowledged [of k env before] by blast
  ultimately show ?thesis unfolding CheckpointStored by auto
next
  case (NotesTaken key run)
  then show ?thesis using assms(4) by (auto split: option.splits)
next
  case (TurnSent key t)
  obtain p inp gone q where "before = p @ TurnPrepared inp gone # q" "named (ti_key inp) = named key"
    "t = fst (prepareUserTurnHostNotes env (\<lambda>r. r \<in> set gone) inp (note_run env p))"
    using sends_prepared [OF assms(3) [unfolded TurnSent] refl] unfolding note_run_def by auto
  from sent_rightly [OF assms(1,2) this] show ?thesis using assms(4) unfolding TurnSent by blast
qed (use assms(4) in \<open>auto split: option.splits if_splits\<close>)

text \<open>C14: Host notes are not dropped. In any sequence of operations on the note tables - injections into Runs, Cursor's
reports about them, stored checkpoints, turns that end, recoveries, prepared and sent user turns, restores -
that names at most 256 sessions (the tables evict beyond that), by callers that use a new id per injection, pass only batches they were given and
send only turns prepared for that session, every note handed in for a session is at the end still in one of
its tables, or there is an operation that took it out for a right reason: a checkpoint of its Run was stored after
Cursor reported that very injection delivered; a recovery was given it; a prepared turn was sent whose request says each
of its texts - as a reminder, in the history it seeds, or in a note before the user message that is a
reminder - or, for the batch an interrupted Run had already said, whose request starts from the checkpoint or
resumes the Run; a saved snapshot took the place of the table; or another process copy took the session.\<close>

theorem host_notes_are_not_dropped:
  assumes "distinct K" "length K \<le> MAX_TURN_STATE_SESSIONS"
    and "callers_ok env K [] [] note_start es" "sends_ok env [] note_start es"
    and "(k, c) \<in> set (all_handed env note_start es)"
  shows "c \<in> kept_notes k (note_run env es)
    \<or> (\<exists>before e after. es = before @ e # after \<and> rightly_left env before e k c)"
proof -
  have s: "small (set K)" using assms(1,2) by (simp add: small_def distinct_card)
  moreover have "tables_ok (set K) (set []) (set []) note_start"
    by (simp add: tables_ok_def note_start_def live_batches_def entry_ids_def coherent_def)
  ultimately consider "c \<in> kept_notes k (note_run env es)" | r where "(k, r, c) \<in> set (all_left env note_start es)"
    using events_keep [OF _ _ assms(3), of k] assms(5) unfolding note_run_def by blast
  then show ?thesis
  proof cases
    case (2 r)
    from left_event [OF 2] obtain before e after where e: "es = before @ e # after" "(k, r, c) \<in> set (leaves (note_run env before) e)"
      unfolding note_run_def by blast
    show ?thesis using leaves_rightly [OF s assms(3,4) [unfolded e(1)] e(2)] e(1) by blast
  qed simp
qed

definition demo_note :: "utf16 list" where "demo_note = [[104]]"

definition demo_inp :: turn_notes_input where
  "demo_inp = \<lparr>ti_key = Some [115], ti_prompt = [], ti_checkpoint = True, ti_compaction = False, ti_ephemeral = False,
       ti_resuming = False, ti_seed = None, ti_liveTurnStart = None\<rparr>"

text \<open>A note is kept, another goes into a Run that ends; a turn is prepared and sent.\<close>

definition demo_before :: "note_event list" where
  "demo_before = [NotesKept [115] demo_note, NotesInjected (Some [115]) 1 [[105]] None [1] [2], TurnEnded (Some [115]) 1]"

definition demo_events :: "note_event list" where
  "demo_events = demo_before @ [TurnPrepared demo_inp [],
     TurnSent (Some [115]) (fst (prepareUserTurnHostNotes demo_env (\<lambda>r. r \<in> set []) demo_inp (foldl (note_step demo_env) note_start demo_before)))]"

theorem host_notes_are_not_dropped_witness:
  "(0, demo_note) \<in> kept_notes [115] (note_run demo_env demo_events)
   \<or> (\<exists>before e after. demo_events = before @ e # after \<and> rightly_left demo_env before e [115] (0, demo_note))"
proof (rule host_notes_are_not_dropped [of "[[115]]"])
  show "callers_ok demo_env [[115]] [] [] note_start demo_events"
    unfolding demo_events_def demo_before_def append_Cons append_Nil callers_ok.simps event_keys.simps event_ids.simps event_batches.simps
    by (simp only: named_def option.case demo_inp_def turn_notes_input.simps) simp
  show "sends_ok demo_env [] note_start demo_events"
    unfolding demo_events_def demo_before_def append_Cons append_Nil
    by (simp only: sends_ok.simps foldl.simps note_event.case list.set simp_thms) (simp add: named_def demo_inp_def)
  show "([115], 0, demo_note) \<in> set (all_handed demo_env note_start demo_events)"
    unfolding demo_events_def demo_before_def append_Cons append_Nil all_handed.simps handed.simps by (simp only: set_append Un_iff list.set insert_iff) (simp add: note_start_def)
qed (simp_all add: MAX_TURN_STATE_SESSIONS_def)

section \<open>What a user turn carries\<close>

text \<open>A note is forgotten by a user turn only when that turn's request says it. When the request prepared for a
session was sent, each note that no longer waits has an empty body, is one of the reminders of the request,
or its text is in the history the request seeds or in a note just before the user message - and those notes
are among the reminders too.\<close>

theorem user_turn_carries_what_it_forgets:
  assumes "prepareUserTurnHostNotes env gone inp s = (t, s1)" "ti_key inp = Some k" "k \<noteq> []"
    and "b \<in> set (undelivered_of k s2)" "b \<notin> set (undelivered_of k (turn_sent (Some k) t s2))" "n \<in> set (nb_notes b)"
    and "inj_on nb_ref (set (undelivered_of k s2) \<union> \<Union> (set ` set_option (tn_undelivered t)))"
  shows "hostNoteBody n = [] \<or> wrapHostNoteForCursor n \<in> set (tn_reminders t) \<or> js_includes (seeded_text env inp) (js_trim n)
    \<or> (\<exists>x \<in> set (turn_boundary inp). js_includes x (js_trim n) \<and> (hostNoteBody x = [] \<or> wrapHostNoteForCursor x \<in> set (tn_reminders t)))"
proof -
  obtain bs where bs: "tn_undelivered t = Some bs" "nb_ref b \<in> nb_ref ` set bs"
  proof (cases "tn_undelivered t")
    case None
    then have "undelivered_of k (turn_sent (Some k) t s2) = undelivered_of k s2" by (simp add: turn_sent_def named_def undelivered_of_def)
    then show ?thesis using assms(4,5) by simp
  next
    case (Some bs)
    have "b \<in> set (undelivered_of k (turn_sent (Some k) t s2))" if "nb_ref b \<notin> nb_ref ` set bs"
    proof -
      obtain c where c: "jm_get (ns_undelivered s2) k = Some c" "b \<in> set c" using assms(4) by (cases "jm_get (ns_undelivered s2) k") (auto simp: undelivered_of_def)
      then have "b \<in> set (filter (\<lambda>b. nb_ref b \<notin> nb_ref ` set bs) c)" using that by simp
      then have "filter (\<lambda>b. nb_ref b \<notin> nb_ref ` set bs) c \<noteq> []" by (metis empty_iff empty_set)
      then show ?thesis using c that assms(3) Some
        by (cases "bs = []") (simp_all add: turn_sent_def named_def forgetUndeliveredHostNotes_def undelivered_of_def Let_def)
    qed
    then show ?thesis using that [OF Some] assms(5) by blast
  qed
  have "b \<in> set bs" using bs assms(4,7) by (auto simp: inj_on_def)
  from request_says_undelivered [OF assms(1) bs(1) this assms(6)] show ?thesis by (simp add: request_says_def)
qed

definition demo_store :: note_store where "demo_store = append_new [115] demo_note 0 note_start"

definition demo_turn :: turn_notes where
  "demo_turn = fst (prepareUserTurnHostNotes demo_env (\<lambda>_. False) demo_inp demo_store)"

lemma demo_turn_undelivered: "tn_undelivered demo_turn = Some [\<lparr>nb_notes = [[104]], nb_order = 0, nb_ref = 0\<rparr>]"
  by (simp_all add: demo_turn_def prepareUserTurnHostNotes_def demo_inp_def demo_store_def named_def releaseHostNoteInjections_def append_new_def new_batch_def
      appendUndeliveredHostNotes_def rememberUndeliveredHostNotes_def undelivered_of_def note_start_def MAX_TURN_STATE_SESSIONS_def Let_def split_beta demo_note_def)

theorem user_turn_carries_what_it_forgets_witness:
  "hostNoteBody [104] = [] \<or> wrapHostNoteForCursor [104] \<in> set (tn_reminders demo_turn)
    \<or> js_includes (seeded_text demo_env demo_inp) (js_trim [104])
    \<or> (\<exists>x \<in> set (turn_boundary demo_inp). js_includes x (js_trim [104])
        \<and> (hostNoteBody x = [] \<or> wrapHostNoteForCursor x \<in> set (tn_reminders demo_turn)))"
proof (rule user_turn_carries_what_it_forgets [OF prod.collapse [symmetric, of "prepareUserTurnHostNotes demo_env (\<lambda>_. False) demo_inp demo_store", folded demo_turn_def]])
  let ?b = "\<lparr>nb_notes = [[104]], nb_order = 0, nb_ref = 0\<rparr>"
  have u: "undelivered_of [115] demo_store = [?b]"
    by (simp add: demo_store_def append_new_def new_batch_def appendUndeliveredHostNotes_def rememberUndeliveredHostNotes_def undelivered_of_def note_start_def
        MAX_TURN_STATE_SESSIONS_def Let_def demo_note_def)
  show "ti_key demo_inp = Some [115]" by (simp add: demo_inp_def)
  show "?b \<in> set (undelivered_of [115] demo_store)" by (simp add: u)
  show "?b \<notin> set (undelivered_of [115] (turn_sent (Some [115]) demo_turn demo_store))"
    using u demo_turn_undelivered by (auto simp: turn_sent_def named_def forgetUndeliveredHostNotes_def undelivered_of_def Let_def split: option.splits if_splits)
  show "inj_on nb_ref (set (undelivered_of [115] demo_store) \<union> \<Union> (set ` set_option (tn_undelivered demo_turn)))"
    using u demo_turn_undelivered by simp
qed simp_all

section \<open>What a restart keeps\<close>

text \<open>The notes an interrupted Run had not delivered survive a restart. After the save of a held Run and its restore in a
new process, the notes that wait for the session are those that waited and those injected into that Run,
acknowledged or not, without empty ones - as long as no note holds the separator's control character.\<close>

theorem held_run_notes_survive_restart:
  assumes "list_all (\<lambda>b. list_all (\<lambda>n. 30 \<notin> set n) (nb_notes b)) (undelivered_of k s)"
    and "list_all (\<lambda>p. list_all (\<lambda>n. 30 \<notin> set n) (in_notes (snd p))) (injections_of k s)"
  shows "set (undeliveredHostNotes k (restorePersistedHostNotes k (fst (heldRunHostNotes run own k s)) note_start))
    = {n. n \<noteq> [] \<and> (\<exists>b \<in> set (undelivered_of k s). n \<in> set (nb_notes b))}
      \<union> {n. n \<noteq> [] \<and> (\<exists>e \<in> set (map snd (injections_of k s)). in_run e = run \<and> n \<in> set (in_notes e))}"
proof -
  define ds where "ds = concat (map snd (sort_key fst (map (\<lambda>b. (nb_order b, nb_notes b)) (undelivered_of k s)
    @ map (\<lambda>e. (in_order e, in_notes e)) (filter (\<lambda>e. in_run e = run) (map snd (injections_of k s))))))"
  have h: "fst (heldRunHostNotes run own k s) = encodePersistedHostNotes ds" by (simp add: heldRunHostNotes_def ds_def Let_def)
  have "list_all (\<lambda>n. 30 \<notin> set n) ds" using assms by (auto simp: ds_def list_all_iff)
  from saved_notes_come_back [OF this]
  have "undeliveredHostNotes k (restorePersistedHostNotes k (encodePersistedHostNotes ds) note_start) = filter (\<lambda>n. n \<noteq> []) ds"
    by (simp add: restorePersistedHostNotes_def undeliveredHostNotes_def undelivered_of_def note_start_def new_batch_def next_order_def
        rememberUndeliveredHostNotes_def MAX_TURN_STATE_SESSIONS_def Let_def)
  then show ?thesis unfolding h by (auto simp: ds_def)
qed

theorem held_run_notes_survive_restart_witness:
  "set (undeliveredHostNotes [115] (restorePersistedHostNotes [115] (fst (heldRunHostNotes 1 [] [115] demo_store)) note_start))
    = {n. n \<noteq> [] \<and> (\<exists>b \<in> set (undelivered_of [115] demo_store). n \<in> set (nb_notes b))}
      \<union> {n. n \<noteq> [] \<and> (\<exists>e \<in> set (map snd (injections_of [115] demo_store)). in_run e = 1 \<and> n \<in> set (in_notes e))}"
  by (rule held_run_notes_survive_restart) code_simp+

end
