(* ===== verification/SteerTurns.thy ===== *)
theory SteerTurns
  imports HostNoteStore
begin

text \<open>
  What a turn does with the host's own copies of early steers (\<open>src/src/language-model.ts\<close>): copies the model
  has answered are left out of the prompt, copies behind the results of a held step continue it, and a
  rebuild from history is allowed only when it says everything Cursor was told. The SHA-256 of a message's
  JSON text is a parameter.
\<close>

section \<open>Copies the model has answered\<close>

text \<open>The hash of the message before the block; \<open>prompt[start - 1]\<close> is there when a block has a boundary.\<close>

definition steerHostTurn :: "(prompt_message option \<Rightarrow> utf16) \<Rightarrow> prompt \<Rightarrow> nat \<Rightarrow> utf16" where
  "steerHostTurn hash p start = hash (if start = 0 \<or> start > length p then None else Some (p ! (start - 1)))"

definition answered_here :: "utf16 \<Rightarrow> nat list \<Rightarrow> early_steer \<Rightarrow> bool" where
  "answered_here turn taken r \<longleftrightarrow> answered r \<and> (hostTurn r = None \<or> hostTurn r = Some [] \<or> hostTurn r = Some turn) \<and> es_ref r \<notin> set taken"

text \<open>The loop over the texts of the tail: the index of each copy with its record.\<close>

fun answered_copies :: "utf16 \<Rightarrow> utf16 \<Rightarrow> steer_state \<Rightarrow> nat list \<Rightarrow> (nat \<times> utf16) list \<Rightarrow> (nat \<times> early_steer) list" where
  "answered_copies k turn s taken [] = []"
| "answered_copies k turn s taken ((i, t) # ts) =
     (case matchEarlySteers (Some k) [t] (answered_here turn taken) s of
        [] \<Rightarrow> answered_copies k turn s taken ts
      | r # _ \<Rightarrow> (i, r) # answered_copies k turn s (es_ref r # taken) ts)"

datatype left_out = NothingLeftOut | AllLeftOut | LeftOut prompt

definition without_copies :: "nat list \<Rightarrow> prompt \<Rightarrow> prompt" where
  "without_copies is p = map snd (filter (\<lambda>q. fst q \<notin> set is) (enumerate 0 p))"

definition tail_role :: "prompt \<Rightarrow> nat \<Rightarrow> prompt_message option" where
  "tail_role p start = (if start = 0 then None else Some (p ! (start - 1)))"

text \<open>
  \<open>leaveOutAnsweredEarlySteers\<close>: first its guards. \<open>waiting_execs\<close>: the session has an open Run with pending
  execs; \<open>foreign\<close>: the history is another model's.
\<close>

definition copies_scope :: "(utf16 \<Rightarrow> bool) \<Rightarrow> (utf16 \<Rightarrow> bool) \<Rightarrow> prompt \<Rightarrow> utf16 option \<Rightarrow> (utf16 \<times> trailing_texts) option" where
  "copies_scope waiting_execs foreign p key =
     (case named key of None \<Rightarrow> None
      | Some k \<Rightarrow>
          (if waiting_execs k then None
           else case trailingUserTexts p of None \<Rightarrow> None
             | Some tail' \<Rightarrow>
                 (case tail_role p (tt_start tail') of None \<Rightarrow> None
                  | Some m \<Rightarrow>
                      if \<not> is_assistant m \<and> \<not> is_tool m then None
                      else if is_assistant m \<and> foreign k then None
                      else Some (k, tail'))))"

text \<open>Then what is done with the copies. The flag says that the Run that answered is to be saved.\<close>

definition leave_copies :: "(utf16 \<Rightarrow> bool) \<Rightarrow> prompt \<Rightarrow> utf16 \<Rightarrow> trailing_texts \<Rightarrow> utf16 \<Rightarrow> (nat \<times> early_steer) list
    \<Rightarrow> steer_state \<times> note_store \<Rightarrow> left_out \<times> bool \<times> steer_state \<times> note_store" where
  "leave_copies has_run p k tail' turn copies st =
     (let (s, n) = st;
          firstCopy = list_ex (\<lambda>c. hostTurn (snd c) = None \<or> hostTurn (snd c) = Some []) copies;
          s1 = assign k (map (\<lambda>c. es_ref (snd c)) copies) (\<lambda>r. r\<lparr>hostTurn := Some turn\<rparr>) s;
          tails = map hostTailNote (tt_notes tail');
          noteTexts = concat (map (\<lambda>t. case t of None \<Rightarrow> [] | Some x \<Rightarrow> note_text x) tails)
      in if copies = [] then (NothingLeftOut, False, s, n)
         else if length copies < length (tt_texts tail') \<or> tt_nonText tail' \<noteq> [] \<or> list_ex (\<lambda>t. case t of None \<Rightarrow> False | Some x \<Rightarrow> note_media x \<noteq> []) tails
           then (LeftOut (without_copies (map fst copies) p), False, s1, n)
         else (AllLeftOut, has_run k, s1,
           if firstCopy \<and> noteTexts \<noteq> [] then (let (o', n1) = next_order n in append_new k noteTexts o' n1) else n))"

definition leaveOutAnsweredEarlySteers :: "(prompt_message option \<Rightarrow> utf16) \<Rightarrow> (utf16 \<Rightarrow> bool) \<Rightarrow> (utf16 \<Rightarrow> bool) \<Rightarrow> (utf16 \<Rightarrow> bool)
    \<Rightarrow> prompt \<Rightarrow> utf16 option \<Rightarrow> steer_state \<times> note_store \<Rightarrow> left_out \<times> bool \<times> steer_state \<times> note_store" where
  "leaveOutAnsweredEarlySteers hash waiting_execs foreign has_run p key st =
     (case copies_scope waiting_execs foreign p key of
        None \<Rightarrow> (NothingLeftOut, False, st)
      | Some (k, tail') \<Rightarrow>
          (let turn = steerHostTurn hash p (tt_start tail')
           in leave_copies has_run p k tail' turn (answered_copies k turn (fst st) [] (tt_texts tail')) st))"

section \<open>Copies behind the results of a held step\<close>

definition waits_here :: "utf16 \<Rightarrow> nat list \<Rightarrow> early_steer \<Rightarrow> bool" where
  "waits_here run taken r \<longleftrightarrow> es_run r = run \<and> \<not> answered r \<and> es_ref r \<notin> set taken"

text \<open>The records the copies belong to, and the texts that are new.\<close>

fun copies_of_run :: "utf16 \<Rightarrow> utf16 \<Rightarrow> steer_state \<Rightarrow> nat list \<Rightarrow> utf16 list \<Rightarrow> early_steer list \<times> utf16 list" where
  "copies_of_run k run s taken [] = ([], [])"
| "copies_of_run k run s taken (t # ts) =
     (case matchEarlySteers (Some k) [t] (waits_here run taken) s of
        [] \<Rightarrow> (let (rs, new) = copies_of_run k run s taken ts in (rs, t # new))
      | r # _ \<Rightarrow> (let (rs, new) = copies_of_run k run s (es_ref r # taken) ts in (r # rs, new)))"

text \<open>New texts are recorded as steers already promoted; \<open>uuid\<close> gives the ids. \<open>None\<close>: too many records.\<close>

fun record_new :: "utf16 \<Rightarrow> utf16 \<Rightarrow> utf16 \<Rightarrow> (nat \<Rightarrow> utf16) \<Rightarrow> nat \<Rightarrow> utf16 list \<Rightarrow> nat list \<Rightarrow> steer_state \<Rightarrow> bool \<times> nat list \<times> steer_state" where
  "record_new k run turn uuid i [] added s = (True, added, s)"
| "record_new k run turn uuid i (t # ts) added s =
     (let (s1, ok) = recordEarlySteer \<lparr>hs_sessionID = k, hs_inboxID = uuid i, hs_text = t, injectionId = uuid (Suc i), es_run = run, delivered = False,
            checkpointed = False, answered = False, promoted = Some True, hostTurn = Some turn, es_ref = 0\<rparr> s
      in if ok then record_new k run turn uuid (Suc (Suc i)) ts (added @ [nextRef s]) s1 else (False, added, s1))"

text \<open>
  \<open>continuationAfterEarlySteers\<close>; \<open>held\<close> is the open Run of the session with its number of pending execs, and
  \<open>continues\<close> says that the results belong to it.
\<close>

definition continuationAfterEarlySteers :: "text_env \<Rightarrow> shell_state \<Rightarrow> (utf16 \<Rightarrow> exec_ref option) \<Rightarrow> (prompt_message option \<Rightarrow> utf16) \<Rightarrow> (nat \<Rightarrow> utf16)
    \<Rightarrow> (utf16 \<Rightarrow> (utf16 \<times> nat) option) \<Rightarrow> (utf16 \<Rightarrow> (result_content \<times> exec_ref) list \<Rightarrow> bool) \<Rightarrow> prompt \<Rightarrow> utf16 option \<Rightarrow> steer_state
    \<Rightarrow> ((result_content \<times> exec_ref) list \<times> utf16) option \<times> steer_state" where
  "continuationAfterEarlySteers env sh route hash uuid held continues p key s =
     (case named key of None \<Rightarrow> (None, s)
      | Some k \<Rightarrow>
          (case held k of None \<Rightarrow> (None, s)
           | Some (run, pending) \<Rightarrow>
               (if pending = 0 then (None, s)
                else case trailingUserTexts p of None \<Rightarrow> (None, s)
                  | Some tail' \<Rightarrow>
                      (case tail_role p (tt_start tail') of None \<Rightarrow> (None, s)
                       | Some m \<Rightarrow>
                           (if tt_nonText tail' \<noteq> [] \<or> \<not> is_tool m then (None, s)
                            else
                              let turn = steerHostTurn hash p (tt_start tail');
                                  (steers, newTexts) = copies_of_run k run s [] (map snd (tt_texts tail'));
                                  results = extractTrailingToolResults env sh route (take (tt_start tail') p @ tt_notes tail')
                              in if steers = [] then (None, s)
                                 else if results = [] \<or> \<not> continues run results then (None, s)
                                 else (case record_new k run turn uuid 0 newTexts [] s of
                                     (False, added, s1) \<Rightarrow> (None, forgetEarlySteerRecords k added s1)
                                   | (True, added, s1) \<Rightarrow>
                                       (Some (results, run), assign k (map es_ref steers) (\<lambda>r. r\<lparr>promoted := Some True, hostTurn := Some turn\<rparr>) s1)))))))"

section \<open>What a rebuild must say\<close>

text \<open>The text messages of the user with their index.\<close>

definition steer_copies :: "prompt \<Rightarrow> (nat \<times> utf16) list" where
  "steer_copies p = concat (map (\<lambda>(i, m). case m of UserMsg ps \<Rightarrow> if all_text ps then [(i, extractUserText ps)] else [] | _ \<Rightarrow> []) (enumerate 0 p))"

definition block_before :: "prompt \<Rightarrow> nat \<Rightarrow> nat" where
  "block_before p i = i - length (takeWhile user_or_system (rev (take i p)))"

text \<open>\<open>copies.findIndex\<close>, then \<open>copies.splice\<close>.\<close>

definition take_copy :: "(prompt_message option \<Rightarrow> utf16) \<Rightarrow> prompt \<Rightarrow> early_steer option \<Rightarrow> (nat \<times> utf16) list \<Rightarrow> (nat \<times> utf16) list option" where
  "take_copy hash p record copies =
     (case record of None \<Rightarrow> None
      | Some r \<Rightarrow>
          (case hostTurn r of None \<Rightarrow> None
           | Some h \<Rightarrow>
               (if \<not> delivered r \<or> promoted r \<noteq> Some True \<or> h = [] then None
                else let hit = (\<lambda>c. carriesSteer (snd c) (hs_text r) \<and> steerHostTurn hash p (block_before p (fst c)) = h) in
                  if list_ex hit copies then Some (takeWhile (\<lambda>c. \<not> hit c) copies @ tl (dropWhile (\<lambda>c. \<not> hit c) copies)) else None)))"

definition all_results_history :: history_options where
  "all_results_history = \<lparr>ho_preserveTrailingUser = True, ho_toolResults = AllResults, ho_liveTurnStart = None\<rparr>"

definition rebuilt_text :: "text_env \<Rightarrow> prompt \<Rightarrow> utf16" where
  "rebuilt_text env p = join_with blank_line_sep (map snd (filter (\<lambda>m. fst m = SeedUser) (extractPromptHistory env all_results_history p)))"

fun appended_said :: "text_env \<Rightarrow> (prompt_message option \<Rightarrow> utf16) \<Rightarrow> prompt \<Rightarrow> (utf16 \<Rightarrow> early_steer option) \<Rightarrow> (utf16 \<Rightarrow> bool) \<Rightarrow> utf16 list
    \<Rightarrow> (nat \<times> utf16) list \<Rightarrow> appended_injection list \<Rightarrow> bool" where
  "appended_said env hash p record_of tracked deferred copies [] = True"
| "appended_said env hash p record_of tracked deferred copies (AppendedSteer i # as) =
     (case take_copy hash p (record_of i) copies of None \<Rightarrow> False | Some rest \<Rightarrow> appended_said env hash p record_of tracked deferred rest as)"
| "appended_said env hash p record_of tracked deferred copies (AppendedNote i ns # as) =
     ((tracked i \<or> list_all (\<lambda>n. n \<in> set deferred) ns \<or> list_all (\<lambda>n. js_includes (rebuilt_text env p) (js_trim n)) ns)
      \<and> appended_said env hash p record_of tracked deferred copies as)"

definition appendedInjectionsInRebuild :: "text_env \<Rightarrow> (prompt_message option \<Rightarrow> utf16) \<Rightarrow> utf16 option \<Rightarrow> nat \<Rightarrow> appended_injection list \<Rightarrow> prompt
    \<Rightarrow> steer_state \<Rightarrow> note_store \<Rightarrow> bool" where
  "appendedInjectionsInRebuild env hash key run appended p s n =
     (appended = [] \<or>
      appended_said env hash p (\<lambda>i. findEarlySteer key i s)
        (\<lambda>i. case named key of None \<Rightarrow> False | Some k \<Rightarrow> map_option in_run (jm_get (injections_of k n) i) = Some run)
        (case named key of None \<Rightarrow> [] | Some k \<Rightarrow> undeliveredHostNotes k n) (steer_copies p) appended)"

section \<open>A rebuild says what Cursor appended\<close>

lemma take_copy_Some:
  assumes "take_copy hash p record copies = Some rest"
  shows "\<exists>r xs c ys. record = Some r \<and> delivered r \<and> promoted r = Some True \<and> copies = xs @ c # ys \<and> rest = xs @ ys
    \<and> carriesSteer (snd c) (hs_text r) \<and> hostTurn r = Some (steerHostTurn hash p (block_before p (fst c)))"
proof -
  obtain r h where r: "record = Some r" "hostTurn r = Some h" "delivered r" "promoted r = Some True"
    using assms by (auto simp: take_copy_def split: option.splits if_splits)
  define hit where "hit = (\<lambda>c. carriesSteer (snd c) (hs_text r) \<and> steerHostTurn hash p (block_before p (fst c)) = h)"
  have t: "list_ex hit copies" "rest = takeWhile (\<lambda>c. \<not> hit c) copies @ tl (dropWhile (\<lambda>c. \<not> hit c) copies)"
    using assms r by (simp_all add: take_copy_def hit_def [symmetric] Let_def split: if_splits)
  then obtain c ys where c: "dropWhile (\<lambda>c. \<not> hit c) copies = c # ys" "hit c"
    by (cases "dropWhile (\<lambda>c. \<not> hit c) copies") (auto simp: dropWhile_eq_Nil_conv list_ex_iff dropWhile_eq_Cons_conv)
  have "copies = takeWhile (\<lambda>c. \<not> hit c) copies @ c # ys" using c(1) by (metis takeWhile_dropWhile_id)
  then show ?thesis using r t(2) c by (intro exI [of _ r] exI [of _ "takeWhile (\<lambda>c. \<not> hit c) copies"] exI [of _ c] exI [of _ ys]) (simp add: hit_def)
qed

fun appended_steers :: "appended_injection list \<Rightarrow> utf16 list" where
  "appended_steers [] = []"
| "appended_steers (AppendedSteer i # as) = i # appended_steers as"
| "appended_steers (AppendedNote i ns # as) = appended_steers as"

definition says_steer :: "(prompt_message option \<Rightarrow> utf16) \<Rightarrow> prompt \<Rightarrow> (utf16 \<Rightarrow> early_steer option) \<Rightarrow> nat \<times> utf16 \<Rightarrow> utf16 \<Rightarrow> bool" where
  "says_steer hash p record_of c i \<longleftrightarrow> (\<exists>r. record_of i = Some r \<and> delivered r \<and> carriesSteer (snd c) (hs_text r)
     \<and> hostTurn r = Some (steerHostTurn hash p (block_before p (fst c))))"

lemma appended_said_copies:
  "appended_said env hash p record_of tracked deferred copies as \<Longrightarrow> distinct (map fst copies) \<Longrightarrow>
     \<exists>cs. distinct (map fst cs) \<and> set cs \<subseteq> set copies \<and> list_all2 (says_steer hash p record_of) cs (appended_steers as)"
proof (induction as arbitrary: copies rule: appended_steers.induct)
  case (2 i as)
  then obtain rest where rest: "take_copy hash p (record_of i) copies = Some rest" "appended_said env hash p record_of tracked deferred rest as"
    by (auto split: option.splits)
  obtain r xs c ys where t: "record_of i = Some r" "delivered r" "copies = xs @ c # ys" "rest = xs @ ys" "carriesSteer (snd c) (hs_text r)"
      "hostTurn r = Some (steerHostTurn hash p (block_before p (fst c)))" using take_copy_Some [OF rest(1)] by blast
  have "distinct (map fst rest)" using 2(3) t(3,4) by auto
  then obtain cs where cs: "distinct (map fst cs)" "set cs \<subseteq> set rest" "list_all2 (says_steer hash p record_of) cs (appended_steers as)"
    using 2(1) [OF rest(2)] by blast
  have "fst c \<notin> set (map fst cs)" using cs(2) 2(3) t(3,4) by auto
  moreover have "says_steer hash p record_of c i" using t(1,2,5,6) unfolding says_steer_def by blast
  ultimately show ?case using cs t(3,4) by (intro exI [of _ "c # cs"]) auto
next
  case (3 i ns as)
  then show ?case by auto
qed auto

lemma steer_copies_distinct: "distinct (map fst (steer_copies p))"
proof -
  have "sorted_wrt (<) (map fst (concat (map (\<lambda>(i, m). case m of UserMsg ps \<Rightarrow> if all_text ps then [(i, extractUserText ps)] else [] | _ \<Rightarrow> []) (enumerate n p))))
    \<and> (\<forall>q \<in> set (concat (map (\<lambda>(i, m). case m of UserMsg ps \<Rightarrow> if all_text ps then [(i, extractUserText ps)] else [] | _ \<Rightarrow> []) (enumerate n p))). n \<le> fst q)" for n
  proof (induction p arbitrary: n)
    case (Cons m p)
    show ?case using Cons [of "Suc n"] by (cases m) (auto simp: Suc_le_eq dest!: bspec)
  qed simp
  then show ?thesis unfolding steer_copies_def using strict_sorted_iff by blast
qed

text \<open>C35: A rebuild from the host's history is allowed only if it says, once each, everything Cursor appended to the Run:
every early steer Cursor appended has a message of its own in the history - delivered, with the steer's text,
at the boundary it was promoted at, no two sharing one - and every appended note is still tracked for the
Run, waits for the session, or is in the text that is seeded.\<close>

theorem rebuild_says_what_cursor_appended:
  assumes "appendedInjectionsInRebuild env hash key run appended p s n"
  shows "(\<exists>cs. distinct (map fst cs) \<and> set cs \<subseteq> set (steer_copies p) \<and> list_all2 (says_steer hash p (\<lambda>i. findEarlySteer key i s)) cs (appended_steers appended))
    \<and> list_all (\<lambda>a. case a of AppendedSteer _ \<Rightarrow> True | AppendedNote i ns \<Rightarrow>
        (\<exists>k. named key = Some k \<and> map_option in_run (jm_get (injections_of k n) i) = Some run)
        \<or> (\<exists>k. named key = Some k \<and> set ns \<subseteq> set (undeliveredHostNotes k n)) \<or> list_all (\<lambda>x. js_includes (rebuilt_text env p) (js_trim x)) ns) appended"
proof (cases "appended = []")
  case False
  define tracked where "tracked = (\<lambda>i. case named key of None \<Rightarrow> False | Some k \<Rightarrow> map_option in_run (jm_get (injections_of k n) i) = Some run)"
  define deferred where "deferred = (case named key of None \<Rightarrow> [] | Some k \<Rightarrow> undeliveredHostNotes k n)"
  have a: "appended_said env hash p (\<lambda>i. findEarlySteer key i s) tracked deferred (steer_copies p) appended"
    using assms False by (simp add: appendedInjectionsInRebuild_def tracked_def deferred_def)
  have "list_all (\<lambda>a. case a of AppendedSteer _ \<Rightarrow> True | AppendedNote i ns \<Rightarrow> tracked i \<or> list_all (\<lambda>n. n \<in> set deferred) ns
      \<or> list_all (\<lambda>n. js_includes (rebuilt_text env p) (js_trim n)) ns) as" if "appended_said env hash p f tracked deferred copies as" for f copies as
    using that
  proof (induction as arbitrary: copies)
    case (Cons a as)
    then show ?case by (cases a) (auto split: option.splits)
  qed simp
  from this [OF a] have "list_all (\<lambda>a. case a of AppendedSteer _ \<Rightarrow> True | AppendedNote i ns \<Rightarrow>
        (\<exists>k. named key = Some k \<and> map_option in_run (jm_get (injections_of k n) i) = Some run)
        \<or> (\<exists>k. named key = Some k \<and> set ns \<subseteq> set (undeliveredHostNotes k n)) \<or> list_all (\<lambda>x. js_includes (rebuilt_text env p) (js_trim x)) ns) appended"
  proof (rule list.pred_mono_strong)
    fix a assume h: "case a of AppendedSteer _ \<Rightarrow> True | AppendedNote i ns \<Rightarrow> tracked i \<or> list_all (\<lambda>n. n \<in> set deferred) ns
      \<or> list_all (\<lambda>n. js_includes (rebuilt_text env p) (js_trim n)) ns"
    show "case a of AppendedSteer _ \<Rightarrow> True | AppendedNote i ns \<Rightarrow>
        (\<exists>k. named key = Some k \<and> map_option in_run (jm_get (injections_of k n) i) = Some run)
        \<or> (\<exists>k. named key = Some k \<and> set ns \<subseteq> set (undeliveredHostNotes k n)) \<or> list_all (\<lambda>x. js_includes (rebuilt_text env p) (js_trim x)) ns"
    proof (cases a)
      case (AppendedNote i ns)
      then show ?thesis using h by (cases "named key"; cases ns) (auto simp: tracked_def deferred_def list_all_iff)
    qed simp
  qed
  then show ?thesis using appended_said_copies [OF a steer_copies_distinct] by blast
qed (auto intro: exI [of _ "[]"])

section \<open>Only answered copies are left out\<close>

lemma match_one:
  assumes "k \<noteq> []"
  shows "matchEarlySteers (Some k) [t] accept s =
    (case find (\<lambda>r. accept r \<and> carriesSteer t (hs_text r)) (steers_of k s) of None \<Rightarrow> [] | Some r \<Rightarrow> [r])"
  using assms by (cases "jm_get (injected s) k") (auto simp: matchEarlySteers_def named_steers_def steers_of_def split: option.split)

lemma answered_copies_step:
  "k \<noteq> [] \<Longrightarrow> answered_copies k turn s taken ((i, t) # ts) =
     (case find (\<lambda>r. answered_here turn taken r \<and> carriesSteer t (hs_text r)) (steers_of k s) of
        None \<Rightarrow> answered_copies k turn s taken ts | Some r \<Rightarrow> (i, r) # answered_copies k turn s (es_ref r # taken) ts)"
  by (simp add: match_one split: option.split)

lemma find_in: "find P xs = Some x \<Longrightarrow> x \<in> set xs \<and> P x"
  by (auto simp: find_Some_iff)

lemma copies_sound:
  assumes "k \<noteq> []" "(i, r) \<in> set (answered_copies k turn s taken ts)"
  shows "r \<in> set (steers_of k s) \<and> answered_here turn taken r \<and> (\<exists>t. (i, t) \<in> set ts \<and> carriesSteer t (hs_text r))"
  using assms(2)
proof (induction ts arbitrary: taken)
  case (Cons q ts)
  obtain j t where q: "q = (j, t)" by fastforce
  show ?case
  proof (cases "find (\<lambda>r. answered_here turn taken r \<and> carriesSteer t (hs_text r)) (steers_of k s)")
    case None
    then show ?thesis using Cons unfolding q answered_copies_step [OF assms(1)] by auto
  next
    case (Some x)
    then have "(i, r) = (j, x) \<or> (i, r) \<in> set (answered_copies k turn s (es_ref x # taken) ts)"
      using Cons.prems unfolding q answered_copies_step [OF assms(1)] by simp
    then show ?thesis using Cons.IH [of "es_ref x # taken"] find_in [OF Some] q by (auto simp: answered_here_def)
  qed
qed simp

lemma copies_refs:
  assumes "k \<noteq> []"
  shows "distinct (map (\<lambda>c. es_ref (snd c)) (answered_copies k turn s taken ts)) \<and> set (map (\<lambda>c. es_ref (snd c)) (answered_copies k turn s taken ts)) \<inter> set taken = {}"
proof (induction ts arbitrary: taken)
  case (Cons q ts)
  obtain j t where q: "q = (j, t)" by fastforce
  show ?case
  proof (cases "find (\<lambda>r. answered_here turn taken r \<and> carriesSteer t (hs_text r)) (steers_of k s)")
    case None
    then show ?thesis using Cons unfolding q answered_copies_step [OF assms] by simp
  next
    case (Some x)
    then show ?thesis using Cons [of "es_ref x # taken"] find_in [OF Some] unfolding q answered_copies_step [OF assms] by (auto simp: answered_here_def)
  qed
qed simp

lemma copies_indices:
  assumes "k \<noteq> []"
  shows "subseq (map fst (answered_copies k turn s taken ts)) (map fst ts)"
proof (induction ts arbitrary: taken)
  case (Cons q ts)
  obtain j t where q: "q = (j, t)" by fastforce
  show ?case using Cons unfolding q answered_copies_step [OF assms] by (auto split: option.split)
qed simp

definition text_message :: "prompt \<Rightarrow> nat \<Rightarrow> utf16 \<Rightarrow> bool" where
  "text_message p i t \<longleftrightarrow> i < length p \<and> hostTailNote (p ! i) = None \<and> (\<exists>ps. p ! i = UserMsg ps \<and> all_text ps \<and> t = join_nl (text_parts ps))"

lemma sort_tail_sound:
  assumes "drop i p = ms"
    and "\<forall>(j, t) \<in> set (tt_texts acc). text_message p j t \<and> lo \<le> j" "sorted_wrt (<) (map fst (tt_texts acc))" "\<forall>q \<in> set (tt_texts acc). fst q < i" "lo \<le> i"
  shows "(\<forall>(j, t) \<in> set (tt_texts (sort_tail i ms acc)). text_message p j t \<and> lo \<le> j) \<and> sorted_wrt (<) (map fst (tt_texts (sort_tail i ms acc)))"
  using assms
proof (induction ms arbitrary: i acc)
  case (Cons m ms)
  have i: "i < length p" "p ! i = m" "drop (Suc i) p = ms" using Cons.prems(1)
    by (metis drop_eq_Nil list.distinct(1) not_le, metis hd_drop_conv_nth list.sel(1) drop_eq_Nil list.distinct(1) not_le, metis drop_Suc list.sel(3) tl_drop)
  define acc' where "acc' = (if hostTailNote m \<noteq> None then acc\<lparr>tt_notes := tt_notes acc @ [m]\<rparr>
        else case m of UserMsg ps \<Rightarrow> if all_text ps then acc\<lparr>tt_texts := tt_texts acc @ [(i, join_nl (text_parts ps))]\<rparr> else acc\<lparr>tt_nonText := tt_nonText acc @ [i]\<rparr>
          | _ \<Rightarrow> acc\<lparr>tt_nonText := tt_nonText acc @ [i]\<rparr>)"
  have s: "sort_tail i (m # ms) acc = sort_tail (Suc i) ms acc'" by (simp add: acc'_def)
  have "tt_texts acc' = tt_texts acc \<or> (\<exists>ps. m = UserMsg ps \<and> all_text ps \<and> hostTailNote m = None \<and> tt_texts acc' = tt_texts acc @ [(i, join_nl (text_parts ps))])"
    by (auto simp: acc'_def split: prompt_message.split)
  then show ?case unfolding s
  proof (elim disjE exE conjE)
    assume "tt_texts acc' = tt_texts acc"
    then show "(\<forall>(j, t) \<in> set (tt_texts (sort_tail (Suc i) ms acc')). text_message p j t \<and> lo \<le> j) \<and> sorted_wrt (<) (map fst (tt_texts (sort_tail (Suc i) ms acc')))"
      using Cons.prems i by (intro Cons.IH) auto
  next
    fix ps assume a: "m = UserMsg ps" "all_text ps" "hostTailNote m = None" "tt_texts acc' = tt_texts acc @ [(i, join_nl (text_parts ps))]"
    have "text_message p i (join_nl (text_parts ps))" unfolding text_message_def i(2) using a(1-3) i(1) by blast
    then show "(\<forall>(j, t) \<in> set (tt_texts (sort_tail (Suc i) ms acc')). text_message p j t \<and> lo \<le> j) \<and> sorted_wrt (<) (map fst (tt_texts (sort_tail (Suc i) ms acc')))"
      using Cons.prems i a(4) by (intro Cons.IH) (auto simp: sorted_wrt_append)
  qed
qed simp

definition sort_one :: "nat \<Rightarrow> prompt_message \<Rightarrow> trailing_texts \<Rightarrow> trailing_texts" where
  "sort_one i m acc = sort_tail i [m] acc"

lemma sort_tail_step: "sort_tail i (m # ms) acc = sort_tail (Suc i) ms (sort_one i m acc)"
  by (simp add: sort_one_def)

lemma sort_one_grows: "set (tt_nonText acc) \<subseteq> set (tt_nonText (sort_one i m acc)) \<and> set (tt_texts acc) \<subseteq> set (tt_texts (sort_one i m acc))"
  unfolding sort_one_def by (cases "hostTailNote m = None"; cases m) (auto simp del: hostTailNote.simps)

lemma sort_one_sorts: "hostTailNote m = None \<Longrightarrow> i \<in> set (tt_nonText (sort_one i m acc)) \<or> i \<in> set (map fst (tt_texts (sort_one i m acc)))"
  unfolding sort_one_def by (cases m) (auto simp del: hostTailNote.simps)

lemma sort_tail_grows: "set (tt_nonText acc) \<subseteq> set (tt_nonText (sort_tail i ms acc)) \<and> set (tt_texts acc) \<subseteq> set (tt_texts (sort_tail i ms acc))"
proof (induction ms arbitrary: i acc)
  case (Cons m ms)
  show ?case unfolding sort_tail_step using Cons [of "sort_one i m acc" "Suc i"] sort_one_grows [of acc i m] by blast
qed simp

lemma sort_tail_covers:
  assumes "drop i p = ms" "i \<le> j" "j < length p"
  shows "hostTailNote (p ! j) \<noteq> None \<or> j \<in> set (tt_nonText (sort_tail i ms acc)) \<or> j \<in> set (map fst (tt_texts (sort_tail i ms acc)))"
  using assms
proof (induction ms arbitrary: i acc)
  case (Cons m ms)
  have i: "p ! i = m" "drop (Suc i) p = ms" using Cons.prems by (metis hd_drop_conv_nth le_less_trans list.sel(1), metis drop_Suc list.sel(3) tl_drop)
  show ?case unfolding sort_tail_step
  proof (cases "j = i")
    case True
    have "set (map fst (tt_texts (sort_one i m acc))) \<subseteq> set (map fst (tt_texts (sort_tail (Suc i) ms (sort_one i m acc))))"
      using sort_tail_grows [of "sort_one i m acc" "Suc i" ms] by auto
    then show "hostTailNote (p ! j) \<noteq> None \<or> j \<in> set (tt_nonText (sort_tail (Suc i) ms (sort_one i m acc))) \<or> j \<in> set (map fst (tt_texts (sort_tail (Suc i) ms (sort_one i m acc))))"
      using True i(1) sort_one_sorts [of m i acc] sort_tail_grows [of "sort_one i m acc" "Suc i" ms] by blast
  next
    case False
    then show "hostTailNote (p ! j) \<noteq> None \<or> j \<in> set (tt_nonText (sort_tail (Suc i) ms (sort_one i m acc))) \<or> j \<in> set (map fst (tt_texts (sort_tail (Suc i) ms (sort_one i m acc))))"
      using Cons.prems(2,3) by (intro Cons.IH [OF i(2)]) simp_all
  qed
qed simp

text \<open>What a result says of the copies it was made from.\<close>

definition copies_of_answered :: "utf16 \<Rightarrow> prompt \<Rightarrow> early_steer list \<Rightarrow> (nat \<times> early_steer) list \<Rightarrow> bool" where
  "copies_of_answered turn p rs cs \<longleftrightarrow> distinct (map fst cs) \<and> distinct (map (\<lambda>c. es_ref (snd c)) cs)
     \<and> (\<forall>(i, r) \<in> set cs. r \<in> set rs \<and> answered r \<and> hostTurn r \<in> {None, Some [], Some turn}
          \<and> block_start p \<le> i \<and> (\<exists>t. text_message p i t \<and> carriesSteer t (hs_text r)))"

lemma subseq_distinct: "subseq xs ys \<Longrightarrow> distinct ys \<Longrightarrow> distinct xs"
  by (induction rule: list_emb.induct) (auto dest: list_emb_set)

lemma scope_Some:
  "copies_scope we fo p key = Some (k, t) \<Longrightarrow> key = Some k \<and> k \<noteq> [] \<and> trailingUserTexts p = Some t"
  by (auto simp: copies_scope_def Let_def dest: named_Some split: option.splits if_splits)

lemma tail_start: "tt_start (sort_tail i ms acc) = tt_start acc"
  by (induction ms arbitrary: i acc) (auto simp del: hostTailNote.simps split: prompt_message.split)

lemma tail_texts_sound:
  assumes "trailingUserTexts p = Some t"
  shows "(\<forall>(j, x) \<in> set (tt_texts t). text_message p j x \<and> block_start p \<le> j) \<and> distinct (map fst (tt_texts t))"
    and "block_start p \<le> j \<Longrightarrow> j < length p \<Longrightarrow> hostTailNote (p ! j) \<noteq> None \<or> j \<in> set (tt_nonText t) \<or> j \<in> set (map fst (tt_texts t))"
proof -
  let ?acc = "\<lparr>tt_start = block_start p, tt_texts = [], tt_nonText = [], tt_notes = []\<rparr>"
  have t: "t = sort_tail (block_start p) (drop (block_start p) p) ?acc"
    using assms by (simp add: trailingUserTexts_def Let_def split: if_splits)
  show "(\<forall>(j, x) \<in> set (tt_texts t). text_message p j x \<and> block_start p \<le> j) \<and> distinct (map fst (tt_texts t))"
    using sort_tail_sound [of "block_start p" p _ ?acc "block_start p"] strict_sorted_iff unfolding t by force
  show "block_start p \<le> j \<Longrightarrow> j < length p \<Longrightarrow> hostTailNote (p ! j) \<noteq> None \<or> j \<in> set (tt_nonText t) \<or> j \<in> set (map fst (tt_texts t))"
    unfolding t by (rule sort_tail_covers [OF refl])
qed

text \<open>C15: Only the host's own copies of answered steers are left out of a turn. Each message left out is wholly text, stands
in the block of user messages that ends the prompt, and carries the text of a steer the model has answered
whose copy was not seen yet or was seen at this very boundary (the message before the block); no two stand
for the same steer. The steers they stand for are bound to this boundary from then on, so a later reply with
the same words is not taken for a copy, and no other steer changes. What is left is the prompt without just these messages, in order; the turn
is dropped altogether only if every message of that block is such a copy or a host note.\<close>

theorem only_answered_copies_are_left_out:
  assumes "leaveOutAnsweredEarlySteers hash we fo hr p key (s, n) = (x, sv, s', n')" "x \<noteq> NothingLeftOut"
  shows "\<exists>k cs. key = Some k \<and> cs \<noteq> [] \<and> copies_of_answered (steerHostTurn hash p (block_start p)) p (steers_of k s) cs
    \<and> s' = assign k (map (\<lambda>c. es_ref (snd c)) cs) (\<lambda>r. r\<lparr>hostTurn := Some (steerHostTurn hash p (block_start p))\<rparr>) s
    \<and> (x = LeftOut (without_copies (map fst cs) p)
       \<or> x = AllLeftOut \<and> (\<forall>j \<in> {block_start p ..< length p}. hostTailNote (p ! j) \<noteq> None \<or> j \<in> set (map fst cs)))"
proof -
  obtain k t where k: "copies_scope we fo p key = Some (k, t)" using assms by (fastforce simp: leaveOutAnsweredEarlySteers_def split: option.splits)
  note sc = scope_Some [OF k]
  have kn: "k \<noteq> []" using sc by blast
  define turn where "turn = steerHostTurn hash p (tt_start t)"
  define cs where "cs = answered_copies k turn s [] (tt_texts t)"
  have l: "leave_copies hr p k t turn cs (s, n) = (x, sv, s', n')"
    using assms(1) k by (simp add: leaveOutAnsweredEarlySteers_def turn_def cs_def Let_def)
  note tt = tail_texts_sound [OF conjunct2 [OF conjunct2 [OF sc]]]
  have start: "tt_start t = block_start p" using sc by (auto simp: trailingUserTexts_def Let_def tail_start split: if_splits)
  have c: "copies_of_answered turn p (steers_of k s) cs"
  proof -
    have "distinct (map fst cs)" using copies_indices [OF kn, of turn s "[]" "tt_texts t"] tt(1) unfolding cs_def by (blast intro: subseq_distinct)
    moreover have "distinct (map (\<lambda>c. es_ref (snd c)) cs)" using copies_refs [OF kn] unfolding cs_def by blast
    moreover have "r \<in> set (steers_of k s) \<and> answered r \<and> hostTurn r \<in> {None, Some [], Some turn} \<and> block_start p \<le> i \<and> (\<exists>t. text_message p i t \<and> carriesSteer t (hs_text r))" if "(i, r) \<in> set cs" for i r
      using copies_sound [OF kn that [unfolded cs_def]] tt(1) by (fastforce simp: answered_here_def)
    ultimately show ?thesis unfolding copies_of_answered_def by blast
  qed
  have "x = LeftOut (without_copies (map fst cs) p) \<or> x = AllLeftOut \<and> tt_nonText t = [] \<and> length (tt_texts t) \<le> length cs" "cs \<noteq> []"
    "s' = assign k (map (\<lambda>c. es_ref (snd c)) cs) (\<lambda>r. r\<lparr>hostTurn := Some turn\<rparr>) s"
    using l assms(2) by (auto simp: leave_copies_def Let_def split: if_splits)
  moreover have "\<forall>j \<in> {block_start p ..< length p}. hostTailNote (p ! j) \<noteq> None \<or> j \<in> set (map fst cs)"
    if "tt_nonText t = []" "length (tt_texts t) \<le> length cs"
  proof -
    have "map fst cs = map fst (tt_texts t)"
      using copies_indices [OF kn, of turn s "[]" "tt_texts t"] that(2) unfolding cs_def by (metis length_map list_emb_length subseq_same_length le_antisym)
    then show ?thesis using tt(2) that(1) by fastforce
  qed
  ultimately show ?thesis using c sc unfolding turn_def start by blast
qed

section \<open>A request sent again\<close>

definition settle_turn :: "nat set \<Rightarrow> utf16 \<Rightarrow> early_steer \<Rightarrow> early_steer" where
  "settle_turn R turn r = (if es_ref r \<in> R then r\<lparr>hostTurn := Some turn\<rparr> else r)"

lemma settle_turn_simps [simp]:
  "es_ref (settle_turn R turn r) = es_ref r" "hs_text (settle_turn R turn r) = hs_text r" "settle_turn R turn (settle_turn R turn r) = settle_turn R turn r"
  by (simp_all add: settle_turn_def)

lemma steers_assign: "steers_of k (assign k refs (\<lambda>r. r\<lparr>hostTurn := Some turn\<rparr>) s) = map (settle_turn (set refs) turn) (steers_of k s)"
  by (auto simp: steers_of_def assign_def settle_turn_def split: option.split)

lemma map_entry_twice: "AList.map_entry k f (AList.map_entry k g m) = AList.map_entry k (\<lambda>v. f (g v)) m"
  by (induction m) auto

lemma assign_twice: "assign k refs (\<lambda>r. r\<lparr>hostTurn := Some turn\<rparr>) (assign k refs (\<lambda>r. r\<lparr>hostTurn := Some turn\<rparr>) s) = assign k refs (\<lambda>r. r\<lparr>hostTurn := Some turn\<rparr>) s"
proof -
  have "(\<lambda>v. map (\<lambda>r. if es_ref r \<in> set refs then r\<lparr>hostTurn := Some turn\<rparr> else r) (map (\<lambda>r. if es_ref r \<in> set refs then r\<lparr>hostTurn := Some turn\<rparr> else r) v))
    = map (\<lambda>r :: early_steer. if es_ref r \<in> set refs then r\<lparr>hostTurn := Some turn\<rparr> else r)" by auto
  then show ?thesis by (simp add: assign_def map_entry_twice)
qed

lemma find_map: "find P (map g xs) = map_option g (find (\<lambda>x. P (g x)) xs)"
  by (induction xs) auto

definition open_at :: "utf16 \<Rightarrow> early_steer \<Rightarrow> bool" where
  "open_at turn r \<longleftrightarrow> answered r \<and> (hostTurn r = None \<or> hostTurn r = Some [] \<or> hostTurn r = Some turn)"

lemma answered_settled: "(es_ref r \<in> R \<Longrightarrow> open_at turn r) \<Longrightarrow> answered_here turn taken (settle_turn R turn r) = answered_here turn taken r"
  by (auto simp: answered_here_def open_at_def settle_turn_def)

lemma copies_settled:
  assumes "k \<noteq> []" "\<And>r. r \<in> set (steers_of k s) \<Longrightarrow> es_ref r \<in> R \<Longrightarrow> open_at turn r" "steers_of k s' = map (settle_turn R turn) (steers_of k s)"
  shows "answered_copies k turn s' taken ts = map (\<lambda>(i, r). (i, settle_turn R turn r)) (answered_copies k turn s taken ts)"
proof (induction ts arbitrary: taken)
  case (Cons q ts)
  obtain j t where q: "q = (j, t)" by fastforce
  have f: "find (\<lambda>r. answered_here turn taken r \<and> carriesSteer t (hs_text r)) (steers_of k s')
      = map_option (settle_turn R turn) (find (\<lambda>r. answered_here turn taken r \<and> carriesSteer t (hs_text r)) (steers_of k s))"
    unfolding assms(3) find_map by (intro arg_cong [where f = "map_option _"] find_cong) (simp_all add: answered_settled assms(2))
  show ?case unfolding q answered_copies_step [OF assms(1)] f using Cons by (auto split: option.split)
qed simp

text \<open>A request sent again loses the same messages and no others. When a turn was prepared once and the host sends the
same prompt again, the same copies are left out, the same messages remain, and neither the steers nor the
waiting host notes change: a note of the turn is queued for the next user turn only the first time.\<close>

theorem repeated_turn_leaves_out_the_same:
  assumes "leaveOutAnsweredEarlySteers hash we fo hr p key (s, n) = (x, sv, s', n')"
    and "distinct (map es_ref (steers_of (the key) s))" "\<And>m. hash m \<noteq> []"
  shows "leaveOutAnsweredEarlySteers hash we fo hr p key (s', n') = (x, sv, s', n')"
proof (cases "copies_scope we fo p key")
  case None
  then show ?thesis using assms(1) by (auto simp: leaveOutAnsweredEarlySteers_def)
next
  case (Some q)
  then obtain k t where k: "copies_scope we fo p key = Some (k, t)" by (cases q) auto
  have kn: "k \<noteq> []" "key = Some k" using scope_Some [OF k] by blast+
  define turn where "turn = steerHostTurn hash p (tt_start t)"
  define cs where "cs = answered_copies k turn s [] (tt_texts t)"
  define refs where "refs = map (\<lambda>c. es_ref (snd c)) cs"
  have l: "leave_copies hr p k t turn cs (s, n) = (x, sv, s', n')"
    using assms(1) k by (simp add: leaveOutAnsweredEarlySteers_def turn_def cs_def Let_def)
  show ?thesis
  proof (cases "cs = []")
    case True
    then have "(x, sv, s', n') = (NothingLeftOut, False, s, n)" using l by (simp add: leave_copies_def)
    then show ?thesis using assms(1) by simp
  next
    case False
    have s': "s' = assign k refs (\<lambda>r. r\<lparr>hostTurn := Some turn\<rparr>) s" using l False by (auto simp: leave_copies_def Let_def refs_def split: if_splits)
    have o: "open_at turn r" if m: "r \<in> set (steers_of k s)" "es_ref r \<in> set refs" for r
    proof -
      obtain i r' where r': "(i, r') \<in> set cs" "es_ref r' = es_ref r" using m(2) by (auto simp: refs_def)
      note c = copies_sound [OF kn(1) r'(1) [unfolded cs_def]]
      have "r' = r" using c r'(2) m(1) assms(2) kn(2) by (simp add: distinct_map inj_on_def)
      then show ?thesis using c by (auto simp: open_at_def answered_here_def)
    qed
    define cs' where "cs' = answered_copies k turn s' [] (tt_texts t)"
    have cs': "cs' = map (\<lambda>(i, r). (i, settle_turn (set refs) turn r)) cs"
      unfolding cs'_def cs_def by (rule copies_settled [OF kn(1) o]) (simp_all add: s' steers_assign)
    have refs': "map (\<lambda>c. es_ref (snd c)) cs' = refs" by (auto simp: cs' refs_def)
    have idx: "map fst cs' = map fst cs" by (auto simp: cs')
    have "turn \<noteq> []" using assms(3) by (auto simp: turn_def steerHostTurn_def)
    then have first: "\<not> list_ex (\<lambda>c. hostTurn (snd c) = None \<or> hostTurn (snd c) = Some []) cs'"
      by (auto simp: cs' list_ex_iff settle_turn_def refs_def image_iff split: if_splits) force+
    have "leave_copies hr p k t turn cs' (s', n') = (x, sv, s', n')"
      using l first False unfolding leave_copies_def Let_def refs' idx split
      by (auto simp: s' assign_twice refs_def cs' split: if_splits)
    then show ?thesis using k by (simp add: leaveOutAnsweredEarlySteers_def turn_def [symmetric] cs'_def Let_def)
  qed
qed

section \<open>Instances\<close>

definition demo_answered :: early_steer where
  "demo_answered = \<lparr>hs_sessionID = [115], hs_inboxID = [1], hs_text = [104], injectionId = [2], es_run = [3], delivered = True,
     checkpointed = True, answered = True, promoted = Some True, hostTurn = None, es_ref = 0\<rparr>"

definition demo_steers :: "utf16 option \<Rightarrow> steer_state" where
  "demo_steers h = \<lparr>listeners = [], injected = [([115], [demo_answered\<lparr>hostTurn := h\<rparr>])], queued = [], announced = [], nextRef = 1\<rparr>"

definition demo_copies :: prompt where
  "demo_copies = [AssistantMsg [TextPart [97]], UserMsg [TextPart [104]], UserMsg [TextPart [105]]]"

lemma demo_left_out:
  "leaveOutAnsweredEarlySteers (\<lambda>_. [49]) (\<lambda>_. False) (\<lambda>_. False) (\<lambda>_. False) demo_copies (Some [115]) (demo_steers None, note_start)
   = (LeftOut [AssistantMsg [TextPart [97]], UserMsg [TextPart [105]]], False, demo_steers (Some [49]), note_start)"
  by code_simp

theorem only_answered_copies_are_left_out_witness:
  "\<exists>k cs. Some [115] = Some k \<and> cs \<noteq> [] \<and> copies_of_answered (steerHostTurn (\<lambda>_. [49]) demo_copies (block_start demo_copies)) demo_copies (steers_of k (demo_steers None)) cs
    \<and> demo_steers (Some [49]) = assign k (map (\<lambda>c. es_ref (snd c)) cs) (\<lambda>r. r\<lparr>hostTurn := Some (steerHostTurn (\<lambda>_. [49]) demo_copies (block_start demo_copies))\<rparr>) (demo_steers None)
    \<and> (LeftOut [AssistantMsg [TextPart [97]], UserMsg [TextPart [105]]] = LeftOut (without_copies (map fst cs) demo_copies)
       \<or> LeftOut [AssistantMsg [TextPart [97]], UserMsg [TextPart [105]]] = AllLeftOut
         \<and> (\<forall>j \<in> {block_start demo_copies ..< length demo_copies}. hostTailNote (demo_copies ! j) \<noteq> None \<or> j \<in> set (map fst cs)))"
  by (rule only_answered_copies_are_left_out [OF demo_left_out]) simp

theorem repeated_turn_leaves_out_the_same_witness:
  "leaveOutAnsweredEarlySteers (\<lambda>_. [49]) (\<lambda>_. False) (\<lambda>_. False) (\<lambda>_. False) demo_copies (Some [115]) (demo_steers (Some [49]), note_start)
   = (LeftOut [AssistantMsg [TextPart [97]], UserMsg [TextPart [105]]], False, demo_steers (Some [49]), note_start)"
  by (rule repeated_turn_leaves_out_the_same [OF demo_left_out]) (simp_all add: demo_steers_def steers_of_def)

theorem rebuild_says_what_cursor_appended_witness:
  "(\<exists>cs. distinct (map fst cs) \<and> set cs \<subseteq> set (steer_copies demo_copies)
      \<and> list_all2 (says_steer (\<lambda>_. [49]) demo_copies (\<lambda>i. findEarlySteer (Some [115]) i (demo_steers (Some [49])))) cs (appended_steers [AppendedSteer [2]]))
    \<and> list_all (\<lambda>a. case a of AppendedSteer _ \<Rightarrow> True | AppendedNote i ns \<Rightarrow>
        (\<exists>k. named (Some [115]) = Some k \<and> map_option in_run (jm_get (injections_of k note_start) i) = Some 0)
        \<or> (\<exists>k. named (Some [115]) = Some k \<and> set ns \<subseteq> set (undeliveredHostNotes k note_start))
        \<or> list_all (\<lambda>x. js_includes (rebuilt_text demo_env demo_copies) (js_trim x)) ns) [AppendedSteer [2]]"
  by (rule rebuild_says_what_cursor_appended) code_simp

end
