(* ===== verification/AskQuestion.thy ===== *)
theory AskQuestion
  imports ExecArgs JsText
begin

text \<open>
  Cursor's questions on the host's \<open>question\<close> tool (\<open>src/src/protocol/ask-question.ts\<close>): the query, the
  input of the tool, and the answers read back from its output. The protobufjs decoder is a parameter; so are
  \<open>JSON.parse\<close>, \<open>toLowerCase\<close> and the text of a number.
\<close>

section \<open>Questions\<close>

record ask_env =
  ae_lower :: "utf16 \<Rightarrow> utf16"
  ae_parse :: "utf16 \<Rightarrow> json option"
  ae_number :: "64 word \<Rightarrow> utf16"

definition SKIPPED_REASON :: utf16 where "SKIPPED_REASON = lit ''Questions skipped by user''"
definition DISMISSED_REASON :: utf16 where "DISMISSED_REASON = lit ''Ask-question prompt dismissed''"

record ask_option =
  ao_id :: utf16
  ao_label :: utf16

record ask_item =
  aq_id :: utf16
  aq_prompt :: utf16
  aq_options :: "ask_option list"
  aq_allowMultiple :: bool

record ask_args =
  aa_title :: utf16
  aa_questions :: "ask_item list"
  aa_runAsync :: bool

record decoded_query =
  dq_args :: ask_args
  dq_rawArgs :: bytes
  dq_toolCallId :: utf16

text \<open>The local \<open>str\<close>, and \<open>=== true\<close>.\<close>

definition ask_str :: "json \<Rightarrow> utf16" where
  "ask_str v = (case string_of v of None \<Rightarrow> [] | Some t \<Rightarrow> t)"

fun is_true :: "json \<Rightarrow> bool" where
  "is_true (JBoolean b) = b"
| "is_true _ = False"

section \<open>The bytes of the arguments\<close>

text \<open>
  The buffer is read at a signed offset: a length is a 32-bit integer that may be negative, so the offset may
  move backwards. A byte outside the buffer is \<open>undefined\<close>, which the bit operators take as zero.
\<close>

definition byte_at :: "bytes \<Rightarrow> int \<Rightarrow> byte" where
  "byte_at b i = (if 0 \<le> i \<and> i < int (length b) then b ! nat i else 0)"

text \<open>A varint of at most five bytes; \<open>None\<close> is the early return.\<close>

function varint32_at :: "bytes \<Rightarrow> 32 word \<Rightarrow> nat \<Rightarrow> int \<Rightarrow> (32 word \<times> int) option" where
  "varint32_at b r s i =
     (if int (length b) \<le> i then Some (r, i)
      else let x = byte_at b i; r' = or r (push_bit s (ucast (and x 0x7f))) in
        if and x 0x80 = 0 then Some (r', i + 1)
        else if s + 7 > 28 then None
        else varint32_at b r' (s + 7) (i + 1))"
  by pat_completeness auto
termination by (relation "measure (\<lambda>(b, r, s, i). 35 - s)") auto

function skip_varint :: "bytes \<Rightarrow> int \<Rightarrow> int" where
  "skip_varint b i =
     (if int (length b) \<le> i then i
      else if and (byte_at b i) 0x80 \<noteq> 0 then skip_varint b (i + 1) else i + 1)"
  by pat_completeness auto
termination by (relation "measure (\<lambda>(b, i). nat (int (length b) - i))") auto

declare varint32_at.simps [simp del] skip_varint.simps [simp del]

text \<open>\<open>subarray(begin, end)\<close> counts negative positions from the end.\<close>

definition subarray :: "bytes \<Rightarrow> int \<Rightarrow> int \<Rightarrow> bytes" where
  "subarray b begin0 end0 =
     (let n = int (length b);
          at = (\<lambda>k. if k < 0 then max 0 (n + k) else min n k)
      in take (nat (at end0 - at begin0)) (drop (nat (at begin0)) b))"

text \<open>The loop over the fields; an outer \<open>None\<close> is not returning.\<close>

partial_function (option) extract_loop :: "bytes \<Rightarrow> int \<Rightarrow> bytes option option" where
  "extract_loop b i =
     (if int (length b) \<le> i then Some None
      else case varint32_at b 0 0 i of
        None \<Rightarrow> Some None
      | Some (key, i1) \<Rightarrow>
          (if and key 7 = 2 then
             (case varint32_at b 0 0 i1 of
                None \<Rightarrow> Some None
              | Some (len, i2) \<Rightarrow>
                  (if i2 + sint len > int (length b) then Some None
                   else if drop_bit 3 key = 1 then Some (Some (subarray b i2 (i2 + sint len)))
                   else extract_loop b (i2 + sint len)))
           else if and key 7 = 0 then extract_loop b (skip_varint b i1)
           else if and key 7 = 5 then extract_loop b (i1 + 4)
           else if and key 7 = 1 then extract_loop b (i1 + 8)
           else Some None))"

definition extractArgsBytes :: "bytes \<Rightarrow> bytes option option" where
  "extractArgsBytes b = extract_loop b 0"

section \<open>The query\<close>

definition decoded_option :: "json \<Rightarrow> ask_option list" where
  "decoded_option raw =
     (if \<not> is_object raw \<or> ask_str (json_field raw (lit ''label'')) = [] then []
      else [\<lparr>ao_id = ask_str (json_field raw (lit ''id'')), ao_label = ask_str (json_field raw (lit ''label''))\<rparr>])"

definition decoded_item :: "json \<Rightarrow> ask_item list" where
  "decoded_item raw =
     (if \<not> is_object raw \<or> ask_str (json_field raw (lit ''prompt'')) = [] then []
      else [\<lparr>aq_id = ask_str (json_field raw (lit ''id'')),
             aq_prompt = ask_str (json_field raw (lit ''prompt'')),
             aq_options = (case json_array (json_field raw (lit ''options'')) of None \<Rightarrow> [] | Some os \<Rightarrow> concat (map decoded_option os)),
             aq_allowMultiple = is_true (json_field raw (lit ''allow_multiple''))\<rparr>])"

text \<open>\<open>decodeAskQuestionQuery\<close>; \<open>decode\<close> is the schema decoder, \<open>None\<close> where it throws.\<close>

definition decodeAskQuestionQuery :: "(bytes \<Rightarrow> json option) \<Rightarrow> bytes \<Rightarrow> decoded_query option option" where
  "decodeAskQuestionQuery decode b =
     (case decode b of None \<Rightarrow> Some None
      | Some d \<Rightarrow>
          (case extractArgsBytes b of None \<Rightarrow> None
           | Some raw \<Rightarrow>
               (let a = json_field d (lit ''args'') in
                (case raw of None \<Rightarrow> Some None
                 | Some rawArgs \<Rightarrow>
                     (if \<not> is_object a then Some None
                      else let qs = (case json_array (json_field a (lit ''questions'')) of None \<Rightarrow> [] | Some is \<Rightarrow> concat (map decoded_item is)) in
                        if qs = [] then Some None
                        else Some (Some
                          \<lparr>dq_args = \<lparr>aa_title = ask_str (json_field a (lit ''title'')), aa_questions = qs,
                                      aa_runAsync = is_true (json_field a (lit ''run_async''))\<rparr>,
                           dq_rawArgs = rawArgs,
                           dq_toolCallId = ask_str (json_field d (lit ''tool_call_id''))\<rparr>))))))"

section \<open>The input of the host's tool\<close>

definition isCatchAllOptionLabel :: "ask_env \<Rightarrow> utf16 \<Rightarrow> bool" where
  "isCatchAllOptionLabel env label =
     (let n = js_trim (ae_lower env label) in
      n = lit ''other'' \<or> n = lit ''something else''
      \<or> list_ex (\<lambda>p. starts_with p n)
          [lit ''other:'', lit ''other -'', lit ''other ('', lit ''something else:'', lit ''something else -'', lit ''something else (''])"

definition displayOptions :: "ask_env \<Rightarrow> ask_item \<Rightarrow> ask_option list" where
  "displayOptions env q =
     (let os = aq_options q in
      if os \<noteq> [] \<and> isCatchAllOptionLabel env (ao_label (last os)) then butlast os else os)"

definition askQuestionToolInput :: "ask_env \<Rightarrow> ask_args \<Rightarrow> json" where
  "askQuestionToolInput env a =
     JObject [(lit ''questions'', JArray (map (\<lambda>q. JObject
       ([(lit ''question'', JString (aq_prompt q)),
         (lit ''header'', JString (questionHeader (aa_title a))),
         (lit ''options'', JArray (map (\<lambda>opt. JObject [(lit ''label'', JString (ao_label opt)), (lit ''description'', JString [])])
            (displayOptions env q)))]
        @ (if aq_allowMultiple q then [(lit ''multiple'', JBoolean True)] else []))) (aa_questions a)))]"

section \<open>Reading the answers\<close>

record ask_answer =
  an_question :: utf16
  an_selected :: "utf16 list option"
  an_freeform :: "utf16 option"

datatype ask_result = AskRejected utf16 | AskAsync | AskSuccess "ask_answer list"

definition rejectedResult :: "utf16 option \<Rightarrow> ask_result" where
  "rejectedResult reason = AskRejected (case reason of None \<Rightarrow> SKIPPED_REASON | Some r \<Rightarrow> r)"

definition asyncResult :: ask_result where "asyncResult = AskAsync"

definition comma_sep :: utf16 where "comma_sep = lit '', ''"

fun cellText :: "ask_env \<Rightarrow> json \<Rightarrow> utf16 option" where
  "cellText env (JString t) = Some t"
| "cellText env (JNumber n) = Some (ae_number env n)"
| "cellText env (JBoolean b) = Some (if b then lit ''true'' else lit ''false'')"
| "cellText env (JArray vs) =
     (let parts = filter (\<lambda>t. t \<noteq> []) (map ask_str vs) in if parts = [] then None else Some (join_with comma_sep parts))"
| "cellText env _ = None"

fun single_choice_cell :: "json \<Rightarrow> bool" where
  "single_choice_cell (JArray [JString t]) = True"
| "single_choice_cell _ = False"

text \<open>\<open>trimmed.startsWith("{")\<close> or \<open>"["\<close>.\<close>

definition structured :: "utf16 \<Rightarrow> bool" where
  "structured t \<longleftrightarrow> starts_with (lit ''{'') t \<or> starts_with (lit ''['') t"

definition parseJsonAnswerSegments :: "ask_env \<Rightarrow> utf16 \<Rightarrow> nat \<Rightarrow> bool \<Rightarrow> utf16 option list option" where
  "parseJsonAnswerSegments env out count singleChoice =
     (let trimmed = js_trim out in
      if \<not> structured trimmed then None
      else case ae_parse env trimmed of None \<Rightarrow> None
        | Some parsed \<Rightarrow>
            (case or_else (json_array parsed) (json_array (json_field parsed (lit ''answers''))) of None \<Rightarrow> None
             | Some cells \<Rightarrow>
                 if singleChoice \<and> (length cells \<noteq> count \<or> \<not> list_all single_choice_cell cells) then Some (replicate count None)
                 else Some (map (\<lambda>i. if i < length cells then cellText env (cells ! i) else None) [0 ..< count])))"

definition quote :: utf16 where "quote = [34]"

definition anchor :: "ask_item \<Rightarrow> utf16" where
  "anchor q = quote @ aq_prompt q @ lit ''\"=\"''"

text \<open>The smallest of the positions, as the \<open>reduce\<close> finds it.\<close>

definition min_position :: "nat list \<Rightarrow> nat option" where
  "min_position ps = foldl (\<lambda>m i. case m of None \<Rightarrow> Some i | Some k \<Rightarrow> if i < k then Some i else Some k) None ps"

fun prose_segments :: "utf16 \<Rightarrow> ask_item list \<Rightarrow> nat \<Rightarrow> utf16 option list" where
  "prose_segments out [] cursor = []"
| "prose_segments out (q # qs) cursor =
     (case indexOf out (anchor q) cursor of
        None \<Rightarrow> None # prose_segments out qs cursor
      | Some start \<Rightarrow>
          (let valueStart = start + length (anchor q);
               following = filter (\<lambda>i. valueStart < i) (List.map_filter (\<lambda>other. indexOf out (anchor other) valueStart) qs);
               searchEnd = (case min_position following of None \<Rightarrow> length out | Some k \<Rightarrow> k)
           in case lastIndexOf out quote (searchEnd - 1) of
                None \<Rightarrow> None # prose_segments out qs cursor
              | Some valueEnd \<Rightarrow>
                  if valueEnd < valueStart then None # prose_segments out qs cursor
                  else Some (take (valueEnd - valueStart) (drop valueStart out)) # prose_segments out qs valueEnd))"

definition parseAnswerSegments :: "ask_env \<Rightarrow> ask_item list \<Rightarrow> utf16 \<Rightarrow> bool \<Rightarrow> utf16 option list" where
  "parseAnswerSegments env qs out singleChoice =
     (case parseJsonAnswerSegments env out (length qs) singleChoice of
        Some segments \<Rightarrow> segments
      | None \<Rightarrow> if singleChoice \<and> structured (js_trim out) then map (\<lambda>q. None) qs
                else prose_segments out qs 0)"

definition UNANSWERED :: utf16 where "UNANSWERED = lit ''Unanswered''"

text \<open>A label of the display options, by its trimmed lower-case form; of two equal ones the later counts.\<close>

definition option_id :: "ask_env \<Rightarrow> ask_item \<Rightarrow> utf16 \<Rightarrow> utf16 option" where
  "option_id env q label =
     map_of (rev (map (\<lambda>opt. (ae_lower env (js_trim (ao_label opt)), ao_id opt)) (displayOptions env q))) (ae_lower env label)"

definition answerForQuestion :: "ask_env \<Rightarrow> ask_item \<Rightarrow> utf16 option \<Rightarrow> ask_answer" where
  "answerForQuestion env q segment =
     (let blank = \<lparr>an_question = aq_id q, an_selected = None, an_freeform = None\<rparr> in
      case segment of None \<Rightarrow> blank
      | Some s \<Rightarrow>
          (if js_trim s = [] \<or> js_trim s = UNANSWERED then blank
           else let labels = filter (\<lambda>l. l \<noteq> []) (map js_trim (split_on comma_sep s));
                    selected = List.map_filter (option_id env q) labels;
                    custom = filter (\<lambda>l. option_id env q l = None) labels
             in blank\<lparr>an_selected := (if selected \<noteq> [] then Some selected else None),
                      an_freeform := (if custom \<noteq> [] then Some (join_with comma_sep custom)
                                      else if selected = [] then Some (lit ''Other'') else None)\<rparr>))"

definition askQuestionResultFromToolOutput :: "ask_env \<Rightarrow> ask_args \<Rightarrow> utf16 \<Rightarrow> bool \<Rightarrow> ask_result" where
  "askQuestionResultFromToolOutput env a out isError =
     (if isError then rejectedResult (Some (if js_trim out \<noteq> [] then js_trim out else DISMISSED_REASON))
      else let segments = parseAnswerSegments env (aa_questions a) out False in
        AskSuccess (map (\<lambda>(q, s). answerForQuestion env q s) (zip (aa_questions a) segments)))"

section \<open>The arguments are echoed as they came\<close>

lemma byte_at_append [simp]: "byte_at (pre @ x # xs) (int (length pre)) = x"
  by (simp add: byte_at_def)

lemma high_byte: "unat (of_nat (128 + n mod 128) :: byte) = 128 + n mod 128"
  using unat_high_byte [of n] by (simp only: add.commute)

lemma varint32_at_enc:
  "a < 2 ^ s \<Longrightarrow> a + n * 2 ^ s < 2 ^ 32 \<Longrightarrow> n < 2 ^ (7 * k) \<Longrightarrow> s + 7 * k \<le> 35 \<Longrightarrow> 0 < k \<Longrightarrow>
   varint32_at (pre @ enc_varint n @ rest) (of_nat a) s (int (length pre))
     = Some (of_nat (a + n * 2 ^ s), int (length pre + length (enc_varint n)))"
proof (induction n arbitrary: a s k pre rule: enc_varint.induct)
  case (1 n)
  then obtain k' where k: "k = Suc k'" by (cases k) auto
  show ?case
  proof (cases "n > 127")
    case False
    have "or (of_nat a) (push_bit (s mod 32) (ucast (and (of_nat n :: byte) 0x7f))) = (of_nat (a + n * 2 ^ s) :: 32 word)"
      by (rule lenient_byte) (use "1.prems" False in \<open>simp_all add: unat_payload unat_byte\<close>)
    moreover have "s mod 32 = s" using "1.prems"(4) k by simp
    ultimately show ?thesis
      using False by (simp add: enc_varint.simps [of n] varint32_at.simps [of _ "of_nat a"] Let_def top_bit unat_byte)
  next
    case True
    let ?p = "n mod 128" and ?x = "of_nat (n mod 128 + 128) :: byte"
    let ?a = "a + ?p * 2 ^ s"
    have parts: "?a + n div 128 * 2 ^ (s + 7) = a + n * 2 ^ s"
    proof -
      have "?p * 2 ^ s + n div 128 * 2 ^ (s + 7) = (?p + n div 128 * 128) * 2 ^ s"
        by (simp only: power_add distrib_right) simp
      then show ?thesis by (simp only: mod_div_mult_eq add.assoc)
    qed
    have "?p * 2 ^ s \<le> 127 * 2 ^ s" by (intro mult_right_mono) auto
    moreover have "(2 :: nat) ^ (s + 7) = 128 * 2 ^ s" by (simp add: power_add)
    ultimately have a: "?a < 2 ^ (s + 7)" using "1.prems"(1) by linarith
    have k': "0 < k'" using "1.prems"(3) True k by (cases k') auto
    have n: "n div 128 < 2 ^ (7 * k')" using "1.prems"(3) by (simp add: k power_add less_mult_imp_div_less mult.commute)
    have "?a < 2 ^ 32" using parts "1.prems"(2) by linarith
    then have "or (of_nat a) (push_bit (s mod 32) (ucast (and ?x 0x7f))) = (of_nat ?a :: 32 word)"
      by (rule lenient_byte) (use "1.prems" in \<open>simp_all del: of_nat_add add: unat_payload unat_high_byte\<close>)
    moreover have "s mod 32 = s" "\<not> s + 7 > 28" using "1.prems"(4) k k' by simp_all
    moreover have step: "varint32_at ((pre @ [?x]) @ enc_varint (n div 128) @ rest) (of_nat ?a) (s + 7) (int (length (pre @ [?x])))
        = Some (of_nat (?a + n div 128 * 2 ^ (s + 7)), int (length (pre @ [?x]) + length (enc_varint (n div 128))))"
      by (rule "1.IH" [OF True a _ n]) (use parts "1.prems" k k' in simp_all)
    note step [unfolded parts]
    ultimately show ?thesis
      using True by (simp del: of_nat_add add: enc_varint.simps [of n] varint32_at.simps [of _ "of_nat a"] Let_def top_bit high_byte add_ac)
  qed
qed

lemma varint32_enc: "n < 2 ^ 32 \<Longrightarrow>
   varint32_at (pre @ enc_varint n @ rest) 0 0 (int (length pre)) = Some (of_nat n, int (length pre + length (enc_varint n)))"
  using varint32_at_enc [of 0 0 n 5 pre rest] by simp

lemma skip_varint_enc: "skip_varint (pre @ enc_varint n @ rest) (int (length pre)) = int (length pre + length (enc_varint n))"
proof (induction n arbitrary: pre rule: enc_varint.induct)
  case (1 n)
  show ?case
  proof (cases "n > 127")
    case True
    then show ?thesis using "1.IH" [of "pre @ [of_nat (n mod 128 + 128)]"]
      by (simp del: of_nat_add add: enc_varint.simps [of n] skip_varint.simps [of _ "int (length pre)"] top_bit high_byte add_ac)
  next
    case False
    then show ?thesis by (simp add: enc_varint.simps [of n] skip_varint.simps [of _ "int (length pre)"] top_bit unat_byte)
  qed
qed

text \<open>A field shorter than two gigabytes, whose length is not negative as a 32-bit integer.\<close>

definition echo_ok :: "strict_field \<Rightarrow> bool" where
  "echo_ok f \<longleftrightarrow> strict_ok f \<and> (case sf_bytes f of None \<Rightarrow> True | Some d \<Rightarrow> length d < 2 ^ 31)"

lemma extract_tag:
  assumes "0 < n" "n \<le> MAX_PROTOBUF_FIELD_NUMBER" "w < 8"
  shows "varint32_at (pre @ enc_varint (n * 8 + w) @ rest) 0 0 (int (length pre))
      = Some (of_nat (n * 8 + w), int (length pre + length (enc_varint (n * 8 + w))))"
    "drop_bit 3 (of_nat (n * 8 + w) :: 32 word) = of_nat n" "and (of_nat (n * 8 + w) :: 32 word) 7 = of_nat w"
    "of_nat n = (1 :: 32 word) \<longleftrightarrow> n = 1"
proof -
  have b: "n * 8 + w < 2 ^ 32" "n < 2 ^ 32" using assms by (auto simp: MAX_PROTOBUF_FIELD_NUMBER_def)
  show "varint32_at (pre @ enc_varint (n * 8 + w) @ rest) 0 0 (int (length pre))
      = Some (of_nat (n * 8 + w), int (length pre + length (enc_varint (n * 8 + w))))"
    using b varint32_enc [of "n * 8 + w" pre rest] by (simp del: of_nat_add of_nat_mult)
  show "drop_bit 3 (of_nat (n * 8 + w) :: 32 word) = of_nat n" "and (of_nat (n * 8 + w) :: 32 word) 7 = of_nat w"
    unfolding lenient_tag [OF b(1)] tag_parts [OF assms(3)] by simp_all
  have "unat (of_nat n :: 32 word) = n" using b by (simp add: unat_of_nat)
  then show "of_nat n = (1 :: 32 word) \<longleftrightarrow> n = 1" by (metis of_nat_1 unsigned_1)
qed

lemma extract_head:
  fixes pre rest :: bytes
  assumes "0 < n" "n \<le> MAX_PROTOBUF_FIELD_NUMBER" "w \<in> {0, 1, 2, 5}"
  defines "b \<equiv> pre @ enc_varint (n * 8 + w) @ rest" and "i \<equiv> int (length pre + length (enc_varint (n * 8 + w)))"
  shows "extract_loop b (int (length pre)) =
    (if w = 2 then
       (case varint32_at b 0 0 i of None \<Rightarrow> Some None
        | Some (len, i2) \<Rightarrow>
            (if i2 + sint len > int (length b) then Some None
             else if n = 1 then Some (Some (subarray b i2 (i2 + sint len)))
             else extract_loop b (i2 + sint len)))
     else if w = 0 then extract_loop b (skip_varint b i)
     else extract_loop b (i + (if w = 5 then 4 else 8)))"
proof -
  have w: "w < 8" "of_nat w = (0 :: 32 word) \<longleftrightarrow> w = 0" "of_nat w = (1 :: 32 word) \<longleftrightarrow> w = 1"
    "of_nat w = (2 :: 32 word) \<longleftrightarrow> w = 2" "of_nat w = (5 :: 32 word) \<longleftrightarrow> w = 5"
    using assms(3) by auto
  note t = extract_tag(1) [OF assms(1, 2) w(1), of pre rest, folded b_def i_def]
  note p = extract_tag(2-4) [OF assms(1, 2) w(1)]
  have "\<not> int (length b) \<le> int (length pre)" by (cases "enc_varint (n * 8 + w)") (simp_all add: b_def)
  then show ?thesis
    using assms(3) by (subst extract_loop.simps) (simp only: t p w option.case prod.case if_False, auto)
qed

lemma subarray_mid: "subarray (a @ d @ r) (int (length a)) (int (length a + length d)) = d"
  by (simp add: subarray_def)

lemma extract_field:
  assumes "echo_ok f"
  shows "extract_loop (pre @ enc_field f @ rest) (int (length pre))
    = (if sf_fn f = 1 \<and> sf_wt f = 2 then Some (sf_bytes f)
       else extract_loop (pre @ enc_field f @ rest) (int (length pre + length (enc_field f))))"
proof -
  have "strict_ok f" using assms by (simp add: echo_ok_def)
  then show ?thesis
  proof (cases rule: strict_ok_cases)
    case (varint n v)
    have "skip_varint (pre @ enc_varint (n * 8) @ enc_varint v @ rest) (int (length pre + length (enc_varint (n * 8))))
        = int (length pre + length (enc_varint (n * 8)) + length (enc_varint v))"
      using skip_varint_enc [of "pre @ enc_varint (n * 8)" v rest] by simp
    then show ?thesis
      using extract_head [OF varint(3, 4), of 0 pre "enc_varint v @ rest"] by (simp add: varint(1) enc_field_def varint_field_def add_ac)
  next
    case (fixed64 n d)
    then show ?thesis
      using extract_head [OF fixed64(3, 4), of 1 pre "d @ rest"] by (simp add: enc_field_def fixed64_field_def add_ac)
  next
    case (bytes n d)
    define t where "t = enc_varint (n * 8 + 2)"
    have small: "length d < 2 ^ 31" using assms by (simp add: echo_ok_def bytes(1) bytes_field_def)
    then have len: "sint (of_nat (length d) :: 32 word) = int (length d)"
      by (simp add: signed_of_nat signed_take_bit_int_eq_self)
    have at: "varint32_at (pre @ t @ enc_varint (length d) @ d @ rest) 0 0 (int (length pre + length t))
        = Some (of_nat (length d), int (length pre + length t + length (enc_varint (length d))))"
      using varint32_enc [of "length d" "pre @ t" "d @ rest"] small by simp
    have sub: "subarray (pre @ t @ enc_varint (length d) @ d @ rest) (int (length pre + length t + length (enc_varint (length d))))
        (int (length pre + length t + length (enc_varint (length d)) + length d)) = d"
      using subarray_mid [of "pre @ t @ enc_varint (length d)" d rest] by (simp add: add_ac)
    have f: "enc_field f = t @ enc_varint (length d) @ d" "sf_fn f = n" "sf_wt f = 2" "sf_bytes f = Some d"
      by (simp_all add: bytes(1) enc_field_def bytes_field_def t_def)
    show ?thesis
      using extract_head [OF bytes(3, 4), of 2 pre "enc_varint (length d) @ d @ rest", folded t_def] at sub
      by (simp add: f len add_ac)
  next
    case (fixed32 n d)
    then show ?thesis
      using extract_head [OF fixed32(3, 4), of 5 pre "d @ rest"] by (simp add: enc_field_def fixed32_field_def add_ac)
  qed
qed

lemma extract_fields:
  "\<forall>f \<in> set fs. echo_ok f \<Longrightarrow>
   extract_loop (pre @ concat (map enc_field fs)) (int (length pre))
     = Some (case find (\<lambda>f. sf_fn f = 1 \<and> sf_wt f = 2) fs of None \<Rightarrow> None | Some f \<Rightarrow> sf_bytes f)"
proof (induction fs arbitrary: pre)
  case Nil
  then show ?case by (subst extract_loop.simps) simp
next
  case (Cons f fs)
  then show ?case using extract_field [of f pre "concat (map enc_field fs)"] Cons.IH [of "pre @ enc_field f"]
    by (simp add: add_ac)
qed

text \<open>
  Whatever message the server encodes, the async completion echoes the very bytes of its first
  length-delimited field 1; the loop returns.
\<close>

theorem args_bytes_are_verbatim:
  assumes "\<forall>f \<in> set fs. echo_ok f"
  shows "extractArgsBytes (concat (map enc_field fs))
    = Some (case find (\<lambda>f. sf_fn f = 1 \<and> sf_wt f = 2) fs of None \<Rightarrow> None | Some f \<Rightarrow> sf_bytes f)"
  using extract_fields [OF assms, of "[]"] by (simp add: extractArgsBytes_def)

theorem args_bytes_are_verbatim_witness:
  "extractArgsBytes (concat (map enc_field [varint_field 3 300, bytes_field 1 [7, 8], bytes_field 1 [9]])) = Some (Some [7, 8])"
proof -
  have "\<forall>f \<in> set [varint_field 3 300, bytes_field 1 [7, 8], bytes_field 1 [9]]. echo_ok f"
    by (auto simp: echo_ok_def strict_ok_def field_defs MAX_PROTOBUF_FIELD_NUMBER_def)
  from args_bytes_are_verbatim [OF this] show ?thesis by (simp add: field_defs)
qed

text \<open>A negative length can move the offset back to where it was: the loop alone does not return. The decoder runs first
and refuses such a message.\<close>

definition endless :: bytes where "endless = [0x12, 0xFA, 0xFF, 0xFF, 0xFF, 0x0F]"

lemma negative_length_never_returns: "extractArgsBytes endless = None"
proof (rule ccontr)
  have key: "varint32_at endless 0 0 0 = Some (18, 1)" "varint32_at endless 0 0 1 = Some (- 6, 6)"
    by (code_simp)+
  assume "extractArgsBytes endless \<noteq> None"
  then obtain y where "extract_loop endless 0 = Some y" by (auto simp: extractArgsBytes_def)
  moreover have "\<not> (b = endless \<and> i = 0)" if "extract_loop b i = Some y" for b i y
    using that
  proof (rule extract_loop.raw_induct [where P = "\<lambda>b i y. \<not> (b = endless \<and> i = 0)", rotated])
    fix f :: "bytes \<Rightarrow> int \<Rightarrow> bytes option option" and b i y
    assume f: "\<And>b i y. f b i = Some y \<Longrightarrow> \<not> (b = endless \<and> i = (0 :: int))"
    have "int (length endless) = 6" by (simp add: endless_def)
    moreover assume "(if int (length b) \<le> i then Some None
       else case varint32_at b 0 0 i of None \<Rightarrow> Some None
       | Some (key, i1) \<Rightarrow>
          (if and key 7 = 2 then
             (case varint32_at b 0 0 i1 of
                None \<Rightarrow> Some None
              | Some (len, i2) \<Rightarrow>
                  (if i2 + sint len > int (length b) then Some None
                   else if drop_bit 3 key = 1 then Some (Some (subarray b i2 (i2 + sint len)))
                   else f b (i2 + sint len)))
           else if and key 7 = 0 then f b (skip_varint b i1)
           else if and key 7 = 5 then f b (i1 + 4)
           else if and key 7 = 1 then f b (i1 + 8)
           else Some None)) = Some y"
    ultimately show "\<not> (b = endless \<and> i = 0)" using f [of endless 0 y] by (auto simp: key)
  qed
  ultimately show False by blast
qed

section \<open>The host's prose\<close>

text \<open>The prose of the comment above \<open>parseAnswerSegments\<close>, for the texts the host puts into it.\<close>

definition host_row :: "ask_item \<times> utf16 \<Rightarrow> utf16" where
  "host_row r = anchor (fst r) @ snd r @ quote"

definition host_prose :: "utf16 \<Rightarrow> (ask_item \<times> utf16) list \<Rightarrow> utf16 \<Rightarrow> utf16" where
  "host_prose intro rows outro = intro @ join_with comma_sep (map host_row rows) @ outro"

text \<open>No later question's anchor stands inside an answer.\<close>

fun clear_rows :: "(ask_item \<times> utf16) list \<Rightarrow> bool" where
  "clear_rows [] \<longleftrightarrow> True"
| "clear_rows ((q, v) # rows) \<longleftrightarrow> list_all (\<lambda>r. \<not> contains_text (anchor (fst r)) (v @ quote)) rows \<and> clear_rows rows"

definition plain_prompt :: "ask_item \<Rightarrow> bool" where
  "plain_prompt q \<longleftrightarrow> 34 \<notin> set (aq_prompt q) \<and> aq_prompt q \<noteq> [61]"

lemma starts_with_nth: "starts_with p s \<Longrightarrow> i < length p \<Longrightarrow> i < length s \<and> s ! i = p ! i"
  by (auto simp: starts_with_append_iff nth_append)

lemma anchor_unfold: "anchor q = 34 # aq_prompt q @ [34, 61, 34]"
  by (simp add: anchor_def quote_def lit_def)

lemma anchor_nth:
  "length (anchor q) = length (aq_prompt q) + 4" "anchor q ! 0 = 34" "anchor q ! (length (aq_prompt q) + 1) = 34"
  "anchor q ! (length (aq_prompt q) + 2) = 61" "i < length (aq_prompt q) \<Longrightarrow> anchor q ! (i + 1) = aq_prompt q ! i"
  by (simp_all add: anchor_unfold nth_append)

lemma anchor_quotes:
  assumes "34 \<notin> set (aq_prompt q)" "i < length (anchor q)" "anchor q ! i = 34"
  shows "i = 0 \<or> i = length (aq_prompt q) + 1 \<or> i = length (aq_prompt q) + 3"
proof (cases i)
  case (Suc k)
  have "\<not> k < length (aq_prompt q)"
  proof
    assume "k < length (aq_prompt q)"
    then have "34 \<in> set (aq_prompt q)" using assms(3) nth_mem [of k "aq_prompt q"] Suc by (simp add: anchor_unfold nth_append)
    then show False using assms(1) by simp
  qed
  then have "k - length (aq_prompt q) < 3" using assms(2) Suc by (auto simp: anchor_nth)
  moreover have "k - length (aq_prompt q) \<noteq> 1" using assms(3) Suc \<open>\<not> k < _\<close> by (auto simp: anchor_unfold nth_append)
  ultimately show ?thesis using Suc \<open>\<not> k < _\<close> by auto
qed simp

definition row_gap :: utf16 where "row_gap = [34, 44, 32]"

text \<open>No anchor starts inside an answer or the separator behind it.\<close>

lemma no_anchor_in_answer:
  assumes q: "34 \<notin> set (aq_prompt q)" and q1: "34 \<notin> set (aq_prompt q1)" "aq_prompt q1 \<noteq> [61]"
    and clear: "\<not> contains_text (anchor q) (v @ quote)" and k: "k < length v + 3"
  shows "\<not> starts_with (anchor q) (drop k (v @ row_gap @ anchor q1 @ r))"
proof
  let ?t = "v @ row_gap @ anchor q1 @ r" and ?n = "length (aq_prompt q)"
  assume s: "starts_with (anchor q) (drop k ?t)"
  have at: "?t ! (k + i) = anchor q ! i" if "i < length (anchor q)" for i
    using starts_with_nth [OF s that] k by (simp del: drop_append add: row_gap_def)
  have gap: "?t ! length v = 34" "?t ! (length v + 1) = 44" "?t ! (length v + 2) = 32" "?t ! (length v + 3) = 34"
    by (simp_all add: nth_append row_gap_def anchor_unfold)
  show False
  proof (cases "k < length v")
    case True
    show False
    proof (cases "k + length (anchor q) \<le> length v + 1")
      case fits: True
      have "starts_with (anchor q) (drop k (v @ quote))"
        using s fits True by (auto simp: starts_with_def row_gap_def quote_def take_Cons')
      then have "drop k (v @ quote) = anchor q @ drop (length (anchor q)) (drop k (v @ quote))" by (rule starts_withE)
      then have "v @ quote = take k (v @ quote) @ anchor q @ drop (length (anchor q)) (drop k (v @ quote))" by (metis append_take_drop_id)
      then show False using clear unfolding contains_text_iff by blast
    next
      case False
      let ?d = "length v - k"
      have d: "0 < ?d" "?d < ?n + 3" "k + ?d = length v" using True False by (auto simp: anchor_nth)
      then have "anchor q ! ?d = 34" using at [of ?d] gap(1) by (simp add: anchor_nth)
      then have "?d = ?n + 1" using anchor_quotes [OF q, of ?d] d by (auto simp: anchor_nth)
      then have "anchor q ! (?n + 2) = 44" using at [of "?n + 2"] gap(2) d by (simp add: anchor_nth)
      then show False using anchor_nth(4) [of q] by simp
    qed
  next
    case False
    then consider "k = length v" | "k = length v + 1" | "k = length v + 2" using k by linarith
    then show False
    proof cases
      case 1
      have "anchor q ! 1 = 44" "anchor q ! 2 = 32" "anchor q ! 3 = 34"
        using at [of 1] at [of 2] at [of 3] gap 1 by (simp_all add: anchor_nth)
      then have n: "?n = 2" using q by (cases "aq_prompt q"; cases "tl (aq_prompt q)"; cases "tl (tl (aq_prompt q))") (auto simp: anchor_unfold)
      have "?t ! (length v + 4) = 61" "?t ! (length v + 5) = 34"
        using at [of 4] at [of 5] 1 n anchor_nth(4) [of q] by (simp_all add: anchor_nth(1)) (simp add: anchor_unfold nth_append)
      then have "(aq_prompt q1 @ [34, 61, 34] @ r) ! 0 = 61" "(aq_prompt q1 @ [34, 61, 34] @ r) ! 1 = 34"
        by (simp_all add: nth_append row_gap_def anchor_unfold)
      then show False using q1 by (cases "aq_prompt q1"; cases "tl (aq_prompt q1)") auto
    next
      case 2
      then show False using at [of 0] gap(2) by (simp add: anchor_nth)
    next
      case 3
      then show False using at [of 0] gap(3) by (simp add: anchor_nth)
    qed
  qed
qed

text \<open>What stands before the next anchor: the introduction, or the quote and separator behind an answer.\<close>

definition lead_in :: "utf16 \<Rightarrow> bool" where
  "lead_in m \<longleftrightarrow> 34 \<notin> set m \<or> m = row_gap"

lemma first_anchor:
  assumes "lead_in m" "34 \<notin> set (aq_prompt q)"
  shows "indexOf (c @ m @ anchor q @ r) (anchor q) (length c) = Some (length c + length m)"
proof -
  have "\<not> starts_with (anchor q) (drop k (m @ anchor q @ r))" if k: "k < length m" for k
  proof
    assume s: "starts_with (anchor q) (drop k (m @ anchor q @ r))"
    have at: "(m @ anchor q @ r) ! (k + i) = anchor q ! i" if "i < length (anchor q)" for i
      using starts_with_nth [OF s that] k by (simp del: drop_append)
    have first: "m ! k = 34" using at [of 0] k by (simp add: anchor_nth nth_append)
    then have m: "m = row_gap" using assms(1) nth_mem [OF k] by (auto simp: lead_in_def)
    then have k: "k = 0" using first k by (auto simp: row_gap_def less_Suc_eq numeral_3_eq_3)
    have "anchor q ! 1 = 44" "anchor q ! 2 = 32" "anchor q ! 3 = 34"
      using at [of 1] at [of 2] at [of 3] by (simp_all add: k m row_gap_def anchor_nth anchor_unfold)
    then have p: "aq_prompt q = [44, 32]" using assms(2)
      by (cases "aq_prompt q"; cases "tl (aq_prompt q)"; cases "tl (tl (aq_prompt q))") (auto simp: anchor_unfold)
    show False using at [of 4] by (simp add: k m row_gap_def anchor_unfold p)
  qed
  then have "\<not> starts_with (anchor q) (drop j (c @ m @ anchor q @ r))" if "length c \<le> j" "j < length c + length m" for j
    using that by (metis (no_types, lifting) add_diff_inverse_nat append_Nil drop_all drop_append less_diff_conv2 linorder_not_less nat_add_left_cancel_less)
  then show ?thesis by (auto simp: indexOf_Some)
qed

lemma min_strict: "min i k = (if i < k then i else (k :: nat))"
  by simp

lemma min_position_least:
  assumes "m \<in> set ps" "\<forall>p \<in> set ps. m \<le> p"
  shows "min_position ps = Some m"
proof -
  have "foldl (\<lambda>m i. case m of None \<Rightarrow> Some i | Some k \<Rightarrow> if i < k then Some i else Some k) (Some a) ps = Some (fold min ps a)" for a :: nat and ps
    by (induction ps arbitrary: a) (simp_all add: min_strict)
  moreover obtain p qs where ps: "ps = p # qs" using assms(1) by (cases ps) auto
  ultimately have "min_position ps = Some (Min (set ps))" using Min.set_eq_fold [of p qs] by (simp add: min_position_def)
  moreover have "Min (set ps) = m" using assms by (intro Min_eqI) auto
  ultimately show ?thesis by simp
qed

lemma join_rows: "rows \<noteq> [] \<Longrightarrow> \<exists>t. join_with comma_sep (map host_row rows) = anchor (fst (hd rows)) @ t"
  by (cases rows; cases "tl rows") (auto simp: host_row_def)

lemma quote_before_gap:
  "lastIndexOf (a @ row_gap @ b) quote (length a + 2) = Some (length a)"
  unfolding lastIndexOf_Some
proof (intro conjI allI impI)
  fix j assume "length a < j \<and> j \<le> length a + 2 \<and> j + length quote \<le> length (a @ row_gap @ b)"
  then have "j = length a + 1 \<or> j = length a + 2" by auto
  then show "\<not> starts_with quote (drop j (a @ row_gap @ b))" by (auto simp: starts_with_def quote_def row_gap_def)
qed (auto simp: starts_with_def quote_def row_gap_def)

lemma last_quote: "34 \<notin> set b \<Longrightarrow> lastIndexOf (a @ quote @ b) quote (length (a @ quote @ b) - 1) = Some (length a)"
  unfolding lastIndexOf_Some
proof (intro conjI allI impI)
  fix j assume b: "34 \<notin> set b" and j: "length a < j \<and> j \<le> length (a @ quote @ b) - 1 \<and> j + length quote \<le> length (a @ quote @ b)"
  show "\<not> starts_with quote (drop j (a @ quote @ b))"
  proof
    assume s: "starts_with quote (drop j (a @ quote @ b))"
    then have "drop j (a @ quote @ b) ! 0 = quote ! 0" using starts_with_nth [OF s, of 0] by (simp add: quote_def)
    then have "(a @ quote @ b) ! j = 34" using j by (simp add: quote_def del: drop_append)
    moreover have "(a @ quote @ b) ! j = b ! (j - length a - 1)" using j by (auto simp: nth_append quote_def)
    moreover have "b ! (j - length a - 1) \<in> set b" using j by (intro nth_mem) (auto simp: quote_def)
    ultimately show False using b by simp
  qed
qed (auto simp: starts_with_def quote_def)

text \<open>One answer is cut out between its anchor and the separator or the end behind it.\<close>

lemma map_filter_member: "p \<in> set (List.map_filter f xs) \<Longrightarrow> \<exists>x \<in> set xs. f x = Some p"
  by (auto simp: List.map_filter_def)

lemma following_position:
  assumes rows: "rows \<noteq> []" "list_all (\<lambda>r. \<not> contains_text (anchor (fst r)) (v @ quote)) rows" "list_all plain_prompt (map fst rows)"
    and out: "out = a @ v @ quote @ comma_sep @ join_with comma_sep (map host_row rows) @ outro"
  shows "min_position (filter (\<lambda>i. length a < i) (List.map_filter (\<lambda>other. indexOf out (anchor other) (length a)) (map fst rows)))
     = Some (length a + length v + 3)"
proof (rule min_position_least)
  obtain q1 rest where q1: "map fst rows = q1 # rest" "q1 = fst (hd rows)" using rows(1) by (cases rows) auto
  obtain r where r: "out = a @ (v @ row_gap @ anchor q1 @ r)"
    using join_rows [OF rows(1)] by (auto simp: out q1(2) row_gap_def quote_def comma_sep_def lit_def)
  have p1: "34 \<notin> set (aq_prompt q1)" "aq_prompt q1 \<noteq> [61]" using rows(3) q1(1) by (auto simp: plain_prompt_def)
  have none: "\<not> starts_with (anchor q) (drop j out)" if "q \<in> set (map fst rows)" "length a \<le> j" "j < length a + length v + 3" for q j
  proof -
    have "\<not> starts_with (anchor q) (drop (j - length a) (v @ row_gap @ anchor q1 @ r))"
      by (rule no_anchor_in_answer [OF _ p1]) (use that rows in \<open>auto simp: list_all_iff plain_prompt_def\<close>)
    then show ?thesis using that(2) by (simp add: r)
  qed
  show "\<forall>p \<in> set (filter (\<lambda>i. length a < i) (List.map_filter (\<lambda>other. indexOf out (anchor other) (length a)) (map fst rows))).
      length a + length v + 3 \<le> p"
  proof
    fix p assume "p \<in> set (filter (\<lambda>i. length a < i) (List.map_filter (\<lambda>other. indexOf out (anchor other) (length a)) (map fst rows)))"
    then obtain q where q: "q \<in> set (map fst rows)" "indexOf out (anchor q) (length a) = Some p"
      by (auto simp del: set_map dest: map_filter_member)
    then have "length a \<le> p" "starts_with (anchor q) (drop p out)" by (simp_all add: indexOf_Some)
    then show "length a + length v + 3 \<le> p" using none [OF q(1), of p] by linarith
  qed
  have "indexOf out (anchor q1) (length a) = Some (length a + length v + 3)"
    unfolding indexOf_Some using none [of q1] q1(1) by (auto simp: r row_gap_def)
  then show "length a + length v + 3 \<in> set (filter (\<lambda>i. length a < i)
      (List.map_filter (\<lambda>other. indexOf out (anchor other) (length a)) (map fst rows)))"
    by (simp add: q1(1) List.map_filter_def)
qed

lemma prose_segments_rows:
  assumes "34 \<notin> set outro"
  shows "lead_in m \<Longrightarrow> list_all plain_prompt (map fst rows) \<Longrightarrow> clear_rows rows \<Longrightarrow>
    prose_segments (c @ m @ join_with comma_sep (map host_row rows) @ outro) (map fst rows) (length c) = map (\<lambda>r. Some (snd r)) rows"
proof (induction rows arbitrary: c m)
  case (Cons row rows)
  obtain q v where row: "row = (q, v)" by (cases row)
  let ?a = "c @ m @ anchor q"
  define tail where "tail = (if rows = [] then outro else comma_sep @ join_with comma_sep (map host_row rows) @ outro)"
  define out where "out = ?a @ v @ quote @ tail"
  have out: "c @ m @ join_with comma_sep (map host_row (row # rows)) @ outro = out"
    by (cases rows) (simp_all add: out_def tail_def row host_row_def)
  have start: "indexOf out (anchor q) (length c) = Some (length c + length m)"
    using Cons.prems first_anchor [of m q c "v @ quote @ tail"] by (simp add: out_def row plain_prompt_def)
  let ?next = "filter (\<lambda>i. length ?a < i) (List.map_filter (\<lambda>other. indexOf out (anchor other) (length ?a)) (map fst rows))"
  have cut: "lastIndexOf out quote ((case min_position ?next of None \<Rightarrow> length out | Some k \<Rightarrow> k) - 1) = Some (length (?a @ v))"
  proof (cases "rows = []")
    case True
    then show ?thesis using last_quote [OF assms, of "?a @ v"]
      by (simp add: min_position_def List.map_filter_def out_def tail_def)
  next
    case False
    have "min_position ?next = Some (length ?a + length v + 3)"
      by (rule following_position [OF False, where outro = outro]) (use Cons.prems in \<open>simp_all add: row out_def tail_def False\<close>)
    moreover have "out = (?a @ v) @ row_gap @ join_with comma_sep (map host_row rows) @ outro"
      by (simp add: out_def tail_def False row_gap_def quote_def comma_sep_def lit_def)
    ultimately show ?thesis using quote_before_gap [of "?a @ v"] by (simp add: add_ac)
  qed
  have rest: "prose_segments out (map fst rows) (length (?a @ v)) = map (\<lambda>r. Some (snd r)) rows"
  proof (cases "rows = []")
    case False
    then have "out = (?a @ v) @ row_gap @ join_with comma_sep (map host_row rows) @ outro"
      by (simp add: out_def tail_def row_gap_def quote_def comma_sep_def lit_def)
    then show ?thesis using Cons.IH [of row_gap "?a @ v"] Cons.prems by (simp add: lead_in_def row)
  qed simp
  have "take (length (?a @ v) - length ?a) (drop (length ?a) out) = v" by (simp add: out_def)
  then show ?case
    using start cut rest unfolding out by (simp add: row Let_def add.assoc)
qed simp

section \<open>What the user picked is what Cursor reads\<close>

definition HOST_INTRO :: utf16 where "HOST_INTRO = lit ''User has answered your questions: ''"
definition HOST_OUTRO :: utf16 where
  "HOST_OUTRO = lit ''. You can now continue with the user'' @ [39] @ lit ''s answers in mind.''"

type_synonym choice = "ask_item \<times> ask_option list \<times> utf16 option"

definition spoken :: "choice \<Rightarrow> utf16 list" where
  "spoken ch = map ao_label (fst (snd ch)) @ (case snd (snd ch) of None \<Rightarrow> [] | Some t \<Rightarrow> [t])"

text \<open>A label or typed answer the translation can carry: trimmed, and without the separator of several answers.\<close>

definition carried :: "utf16 \<Rightarrow> bool" where
  "carried l \<longleftrightarrow> l \<noteq> [] \<and> \<not> js_space (hd l) \<and> \<not> js_space (last l) \<and> \<not> contains_text comma_sep l"

definition choice_ok :: "ask_env \<Rightarrow> choice \<Rightarrow> bool" where
  "choice_ok env ch =
     (let q = fst ch; picked = fst (snd ch); typed = snd (snd ch) in
      spoken ch \<noteq> [] \<and> spoken ch \<noteq> [UNANSWERED] \<and> list_all carried (spoken ch)
      \<and> set picked \<subseteq> set (displayOptions env q)
      \<and> distinct (map (\<lambda>opt. ae_lower env (js_trim (ao_label opt))) (displayOptions env q))
      \<and> (case typed of None \<Rightarrow> True | Some t \<Rightarrow> option_id env q t = None))"

definition choice_answer :: "choice \<Rightarrow> ask_answer" where
  "choice_answer ch =
     \<lparr>an_question = aq_id (fst ch), an_selected = (if fst (snd ch) = [] then None else Some (map ao_id (fst (snd ch)))),
      an_freeform = snd (snd ch)\<rparr>"

lemma carried_trim: "carried l \<Longrightarrow> js_trim l = l"
  by (simp add: carried_def trim_fixed)

lemma join_with_ends:
  "ls \<noteq> [] \<Longrightarrow> list_all (\<lambda>l. l \<noteq> []) ls \<Longrightarrow>
   join_with sep ls \<noteq> [] \<and> hd (join_with sep ls) = hd (hd ls) \<and> last (join_with sep ls) = last (last ls)"
  by (induction sep ls rule: join_with.induct) auto

lemma unbordered_comma: "unbordered comma_sep"
  by code_simp

lemma carried_join:
  assumes "ls \<noteq> []" "list_all carried ls"
  shows "split_on comma_sep (join_with comma_sep ls) = ls" "js_trim (join_with comma_sep ls) = join_with comma_sep ls"
    "join_with comma_sep ls \<noteq> []"
proof -
  show "split_on comma_sep (join_with comma_sep ls) = ls"
    using assms split_on_join [OF unbordered_comma, of ls] by (auto simp: carried_def list_all_iff)
  have "hd ls \<in> set ls" "last ls \<in> set ls" using assms(1) by auto
  then show "js_trim (join_with comma_sep ls) = join_with comma_sep ls" "join_with comma_sep ls \<noteq> []"
    using assms join_with_ends [of ls comma_sep] trim_fixed [of "join_with comma_sep ls"] by (auto simp: list_all_iff carried_def)
qed

lemma option_id_of:
  assumes "c \<in> set (displayOptions env q)" "js_trim (ao_label c) = ao_label c"
    and "distinct (map (\<lambda>opt. ae_lower env (js_trim (ao_label opt))) (displayOptions env q))"
  shows "option_id env q (ao_label c) = Some (ao_id c)"
  unfolding option_id_def
  by (rule map_of_is_SomeI) (use assms in \<open>auto simp: comp_def rev_map [symmetric] intro: image_eqI [where x = c]\<close>)

lemma answer_of_choice:
  assumes "choice_ok env ch"
  shows "answerForQuestion env (fst ch) (Some (join_with comma_sep (spoken ch))) = choice_answer ch"
proof -
  obtain q picked typed where ch: "ch = (q, picked, typed)" by (cases ch)
  note ok = assms [unfolded choice_ok_def Let_def]
  let ?s = "join_with comma_sep (spoken ch)"
  have s: "split_on comma_sep ?s = spoken ch" "js_trim ?s = ?s" "?s \<noteq> []" using ok carried_join [of "spoken ch"] by auto
  have "?s \<noteq> UNANSWERED"
  proof
    assume u: "?s = UNANSWERED"
    have "\<not> contains_text comma_sep UNANSWERED" by code_simp
    then show False using ok s(1) split_on_last [of comma_sep UNANSWERED] by (simp add: u)
  qed
  moreover have "filter (\<lambda>l. l \<noteq> []) (map js_trim (spoken ch)) = spoken ch"
    using ok by (simp add: list_all_iff carried_trim cong: map_cong) (auto simp: carried_def carried_trim intro!: filter_True)
  moreover have p: "option_id env q (ao_label c) = Some (ao_id c)" if "c \<in> set picked" for c
    using option_id_of [of c env q] that ok by (auto simp: ch spoken_def list_all_iff carried_trim)
  moreover have "List.map_filter (option_id env q) (spoken ch) = map ao_id picked"
  proof -
    have "List.map_filter (option_id env q) (map ao_label picked) = map ao_id picked"
      using p by (induction picked) (auto simp: List.map_filter_def)
    then show ?thesis using ok by (cases typed) (auto simp: spoken_def ch List.map_filter_def)
  qed
  moreover have "filter (\<lambda>l. option_id env q l = None) (spoken ch) = (case typed of None \<Rightarrow> [] | Some t \<Rightarrow> [t])"
    using p ok by (cases typed) (auto simp: spoken_def ch filter_map comp_def)
  ultimately show ?thesis
    using s ok by (cases typed) (auto simp: answerForQuestion_def choice_answer_def ch Let_def spoken_def)
qed

definition answer_rows :: "choice list \<Rightarrow> (ask_item \<times> utf16) list" where
  "answer_rows chs = map (\<lambda>ch. (fst ch, join_with comma_sep (spoken ch))) chs"

lemma answers_of_segments:
  assumes "list_all (choice_ok env) chs"
  shows "map (\<lambda>(q, s). answerForQuestion env q s) (zip (map fst chs) (map (\<lambda>ch. Some (join_with comma_sep (spoken ch))) chs))
     = map choice_answer chs"
  using assms by (induction chs) (auto simp: answer_of_choice)

lemma prose_not_structured: "\<not> structured (js_trim (host_prose HOST_INTRO rows outro))"
proof -
  have "\<exists>r. js_trim (c # s) = c # r" if "\<not> js_space c" for c s
    using that by (auto simp: js_trim_def dropWhile_append intro: exI [of _ "rev (dropWhile js_space (rev s))"])
  moreover have "host_prose HOST_INTRO rows outro = 85 # tl (host_prose HOST_INTRO rows outro)"
    by (simp add: host_prose_def HOST_INTRO_def lit_def)
  moreover have "\<not> js_space 85" by code_simp
  ultimately obtain r where "js_trim (host_prose HOST_INTRO rows outro) = 85 # r" by metis
  then show ?thesis by (simp add: structured_def starts_with_def lit_def)
qed

lemma prose_answers:
  assumes "list_all plain_prompt (map fst rows)" "clear_rows rows"
  shows "parseAnswerSegments env (map fst rows) (host_prose HOST_INTRO rows HOST_OUTRO) single = map (\<lambda>r. Some (snd r)) rows"
proof -
  have "lead_in HOST_INTRO" "34 \<notin> set HOST_OUTRO" by (simp_all add: lead_in_def HOST_INTRO_def HOST_OUTRO_def lit_def)
  then have "prose_segments (host_prose HOST_INTRO rows HOST_OUTRO) (map fst rows) 0 = map (\<lambda>r. Some (snd r)) rows"
    using prose_segments_rows [of HOST_OUTRO HOST_INTRO rows "[]"] assms by (simp add: host_prose_def)
  then show ?thesis using prose_not_structured [of rows] by (simp add: parseAnswerSegments_def parseJsonAnswerSegments_def Let_def)
qed

lemma json_answers:
  assumes "structured (js_trim out)" "list_all (choice_ok env) chs"
    and "ae_parse env (js_trim out) = Some (JObject [(lit ''answers'', JArray (map (\<lambda>ch. JArray (map JString (spoken ch))) chs))])"
  shows "parseAnswerSegments env (map fst chs) out False = map (\<lambda>ch. Some (join_with comma_sep (spoken ch))) chs"
proof -
  have cell: "cellText env (JArray (map JString (spoken ch))) = Some (join_with comma_sep (spoken ch))" if "choice_ok env ch" for ch
  proof -
    have "filter (\<lambda>t. t \<noteq> []) (map ask_str (map JString (spoken ch))) = spoken ch"
      using that by (auto simp: choice_ok_def Let_def list_all_iff carried_def ask_str_def comp_def intro!: filter_True)
    then show ?thesis using that by (auto simp: choice_ok_def Let_def)
  qed
  have "map (\<lambda>i. if i < length (map f chs) then cellText env (map f chs ! i) else None) [0 ..< length chs] = map (cellText env \<circ> f) chs" for f
    by (rule nth_equalityI) simp_all
  moreover have "json_array (json_field (JObject [(k, JArray vs)]) k) = Some vs" for k vs by simp
  ultimately have "parseJsonAnswerSegments env out (length chs) False = Some (map (cellText env \<circ> (\<lambda>ch. JArray (map JString (spoken ch)))) chs)"
    using assms(1) by (simp add: parseJsonAnswerSegments_def assms(3) del: map_map)
  also have "\<dots> = Some (map (\<lambda>ch. Some (join_with comma_sep (spoken ch))) chs)"
    using assms(2) cell by (simp add: list_all_iff)
  finally have "parseJsonAnswerSegments env out (length chs) False = Some (map (\<lambda>ch. Some (join_with comma_sep (spoken ch))) chs)" .
  then show ?thesis by (simp add: parseAnswerSegments_def)
qed

text \<open>C23: The options the user picked come back by their ids, in order, and the typed answer as free text, whether the
  host reports them in prose or as the JSON list of answers. Every question is answered, not with the host's word for
  an unanswered one; each label picked and each typed answer is not empty, has no blank at its ends and no
  comma followed by a blank, the labels of a question differ without regard to case, a typed answer is none of them, and in prose
  no prompt has a quote or is a lone equals sign and no answer holds the start of a later question.\<close>

theorem picked_answers_reach_cursor:
  assumes "aa_questions a = map fst chs" "list_all (choice_ok env) chs"
    and "list_all plain_prompt (aa_questions a)" "clear_rows (answer_rows chs)"
    and "structured (js_trim out)"
    and "ae_parse env (js_trim out) = Some (JObject [(lit ''answers'', JArray (map (\<lambda>ch. JArray (map JString (spoken ch))) chs))])"
  shows "askQuestionResultFromToolOutput env a (host_prose HOST_INTRO (answer_rows chs) HOST_OUTRO) False = AskSuccess (map choice_answer chs)
    \<and> askQuestionResultFromToolOutput env a out False = AskSuccess (map choice_answer chs)"
proof
  have q: "map fst (answer_rows chs) = aa_questions a" by (simp add: answer_rows_def assms(1) comp_def)
  have "parseAnswerSegments env (aa_questions a) (host_prose HOST_INTRO (answer_rows chs) HOST_OUTRO) False
      = map (\<lambda>ch. Some (join_with comma_sep (spoken ch))) chs"
    using prose_answers [of "answer_rows chs" env] assms(3, 4) unfolding q by (simp add: answer_rows_def comp_def)
  then show "askQuestionResultFromToolOutput env a (host_prose HOST_INTRO (answer_rows chs) HOST_OUTRO) False = AskSuccess (map choice_answer chs)"
    using answers_of_segments [OF assms(2)] by (simp add: askQuestionResultFromToolOutput_def assms(1))
  show "askQuestionResultFromToolOutput env a out False = AskSuccess (map choice_answer chs)"
    using json_answers [OF assms(5, 2, 6)] answers_of_segments [OF assms(2)] by (simp add: askQuestionResultFromToolOutput_def assms(1))
qed

definition sample_choices :: "choice list" where
  "sample_choices =
     [(\<lparr>aq_id = lit ''q1'', aq_prompt = lit ''Which?'', aq_options = [\<lparr>ao_id = lit ''a'', ao_label = lit ''Red''\<rparr>, \<lparr>ao_id = lit ''b'', ao_label = lit ''blue''\<rparr>, \<lparr>ao_id = lit ''o'', ao_label = lit ''other''\<rparr>],
        aq_allowMultiple = True\<rparr>, [\<lparr>ao_id = lit ''b'', ao_label = lit ''blue''\<rparr>, \<lparr>ao_id = lit ''a'', ao_label = lit ''Red''\<rparr>], Some (lit ''\"grey\"'')),
      (\<lparr>aq_id = lit ''q2'', aq_prompt = lit ''Name, please'', aq_options = [], aq_allowMultiple = False\<rparr>, [], Some (lit ''x''))]"

definition sample_env :: ask_env where
  "sample_env = \<lparr>ae_lower = (\<lambda>t. t),
     ae_parse = (\<lambda>t. Some (JObject [(lit ''answers'', JArray (map (\<lambda>ch. JArray (map JString (spoken ch))) sample_choices))])),
     ae_number = (\<lambda>n. [])\<rparr>"

theorem picked_answers_reach_cursor_witness:
  "askQuestionResultFromToolOutput sample_env \<lparr>aa_title = [], aa_questions = map fst sample_choices, aa_runAsync = False\<rparr>
      (host_prose HOST_INTRO (answer_rows sample_choices) HOST_OUTRO) False = AskSuccess (map choice_answer sample_choices)
    \<and> askQuestionResultFromToolOutput sample_env \<lparr>aa_title = [], aa_questions = map fst sample_choices, aa_runAsync = False\<rparr>
      (lit ''{}'') False = AskSuccess (map choice_answer sample_choices)"
proof (rule picked_answers_reach_cursor)
  show "list_all (choice_ok sample_env) sample_choices" by code_simp
  show "list_all plain_prompt (aa_questions \<lparr>aa_title = [], aa_questions = map fst sample_choices, aa_runAsync = False\<rparr>)" by code_simp
  show "clear_rows (answer_rows sample_choices)" by code_simp
  show "structured (js_trim (lit ''{}''))" by code_simp
qed (simp_all add: sample_env_def)

text \<open>An option whose label holds the separator is not recognised again: it comes back as free text.\<close>

lemma comma_label_comes_back_as_text:
  "answerForQuestion sample_env
     \<lparr>aq_id = lit ''q'', aq_prompt = lit ''p'', aq_options = [\<lparr>ao_id = lit ''y'', ao_label = lit ''Yes, all''\<rparr>], aq_allowMultiple = False\<rparr>
     (Some (lit ''Yes, all''))
   = \<lparr>an_question = lit ''q'', an_selected = None, an_freeform = Some (lit ''Yes, all'')\<rparr>"
  by code_simp

end
