(* ===== verification/PlanReceipts.thy ===== *)
theory PlanReceipts
  imports PromptHistory HostSteer
begin

text \<open>
  The receipts of plan writes and reviews (\<open>src/src/protocol/plan-operations.ts\<close>) and the check of a
  continuation against them (\<open>interruptedPlanContinuation\<close> of \<open>src/src/language-model.ts\<close>): what is recorded before
  a plan file is written stays until its operation ends, also over a restart.
\<close>

section \<open>Receipts\<close>

datatype plan_phase = WritePhase | ReviewPhase
datatype after_write = AfterReview | AfterAck | AfterHold
datatype review_tool = PlanExitTool | QuestionTool

record plan_receipt =
  pr_interactionId :: "64 word"
  pr_createPlanToolCallId :: "utf16 option"
  pr_hostCallId :: utf16
  pr_planPath :: utf16
  pr_planUri :: utf16
  pr_markdown :: utf16
  pr_phase :: plan_phase
  pr_bridgeKind :: utf16
  pr_afterWrite :: "after_write option"
  pr_reviewToolName :: "review_tool option"
  pr_consumedResultId :: "utf16 option"

definition MAX_RECEIPTS :: nat where "MAX_RECEIPTS = 8"
definition MAX_MARKDOWN_BYTES :: nat where "MAX_MARKDOWN_BYTES = 512 * 1024"
definition MAX_PLAN_SESSIONS :: nat where "MAX_PLAN_SESSIONS = 64"

type_synonym plan_store = "(utf16, plan_receipt list) jsmap"

text \<open>\<open>if (!sessionKey) return\<close>\<close>

definition plan_key :: "utf16 option \<Rightarrow> utf16 option" where
  "plan_key key = (if key = Some [] then None else key)"

definition byte_length :: "utf16 \<Rightarrow> nat" where
  "byte_length t = length (textEncode t)"

definition markdownBytes :: "plan_receipt list \<Rightarrow> nat" where
  "markdownBytes rs = sum_list (map (\<lambda>r. byte_length (pr_markdown r)) rs)"

definition touch :: "utf16 \<Rightarrow> plan_store \<Rightarrow> plan_receipt list \<times> plan_store" where
  "touch k m = (case jm_get m k of Some rs \<Rightarrow> (rs, jm_touch k rs m) | None \<Rightarrow> ([], jm_set k [] m))"

datatype plan_refusal = PendingPlansFull | TurnPlansFull

definition canAdmitPlanOperation :: "utf16 option \<Rightarrow> utf16 \<Rightarrow> plan_store \<Rightarrow> plan_refusal option" where
  "canAdmitPlanOperation key markdown m =
     (case plan_key key of None \<Rightarrow> None
      | Some k \<Rightarrow>
          (let rs = (case jm_get m k of None \<Rightarrow> [] | Some rs \<Rightarrow> rs) in
           if \<not> jm_has m k \<and> MAX_PLAN_SESSIONS \<le> length m then Some PendingPlansFull
           else if MAX_RECEIPTS \<le> length rs then Some TurnPlansFull
           else if MAX_MARKDOWN_BYTES < markdownBytes rs + byte_length markdown then Some TurnPlansFull
           else None))"

definition recordPlanOperation :: "utf16 option \<Rightarrow> plan_receipt \<Rightarrow> plan_store \<Rightarrow> plan_refusal option \<times> plan_store" where
  "recordPlanOperation key receipt m =
     (case plan_key key of None \<Rightarrow> (None, m)
      | Some k \<Rightarrow>
          (case canAdmitPlanOperation key (pr_markdown receipt) m of Some e \<Rightarrow> (Some e, m)
           | None \<Rightarrow> (let (rs, m') = touch k m in (None, jm_set k (rs @ [receipt]) m'))))"

text \<open>\<open>!entry.consumedResultId\<close>: absent or empty.\<close>

definition unconsumed :: "plan_receipt \<Rightarrow> bool" where
  "unconsumed r \<longleftrightarrow> pr_consumedResultId r = None \<or> pr_consumedResultId r = Some []"

fun consume_first :: "utf16 \<Rightarrow> utf16 \<Rightarrow> plan_phase option \<Rightarrow> plan_receipt list \<Rightarrow> plan_receipt list" where
  "consume_first call rid phase [] = []"
| "consume_first call rid phase (r # rs) =
     (if pr_hostCallId r = call \<and> unconsumed r
      then r\<lparr>pr_consumedResultId := Some rid, pr_phase := (case phase of None \<Rightarrow> pr_phase r | Some p \<Rightarrow> p)\<rparr> # rs
      else r # consume_first call rid phase rs)"

definition updatePlanOperationConsumed :: "utf16 option \<Rightarrow> utf16 \<Rightarrow> utf16 \<Rightarrow> plan_phase option \<Rightarrow> plan_store \<Rightarrow> plan_store" where
  "updatePlanOperationConsumed key call rid phase m =
     (case plan_key key of None \<Rightarrow> m
      | Some k \<Rightarrow> (case jm_get m k of None \<Rightarrow> m | Some rs \<Rightarrow> jm_set k (consume_first call rid phase rs) m))"

definition clearPlanOperation :: "utf16 option \<Rightarrow> utf16 \<Rightarrow> plan_store \<Rightarrow> plan_store" where
  "clearPlanOperation key call m =
     (case plan_key key of None \<Rightarrow> m
      | Some k \<Rightarrow> (case jm_get m k of None \<Rightarrow> m
          | Some rs \<Rightarrow> (let rest = filter (\<lambda>r. pr_hostCallId r \<noteq> call) rs in
              if rest = [] then jm_delete k m else jm_set k rest m)))"

definition clearPlanOperations :: "utf16 option \<Rightarrow> plan_store \<Rightarrow> plan_store" where
  "clearPlanOperations key m = (case plan_key key of None \<Rightarrow> m | Some k \<Rightarrow> jm_delete k m)"

definition planOperationsFor :: "utf16 option \<Rightarrow> plan_store \<Rightarrow> plan_receipt list" where
  "planOperationsFor key m = (case plan_key key of None \<Rightarrow> [] | Some k \<Rightarrow> (case jm_get m k of None \<Rightarrow> [] | Some rs \<Rightarrow> rs))"

definition incompletePlanOperations :: "utf16 option \<Rightarrow> plan_store \<Rightarrow> plan_receipt list" where
  "incompletePlanOperations key m = filter (\<lambda>r. pr_phase r = ReviewPhase \<or> unconsumed r) (planOperationsFor key m)"

section \<open>Over a restart\<close>

text \<open>The saved receipts as the JSON value that is stringified; an undefined member is left out.\<close>

definition phase_name :: "plan_phase \<Rightarrow> utf16" where
  "phase_name p = (case p of WritePhase \<Rightarrow> lit ''write'' | ReviewPhase \<Rightarrow> lit ''review'')"

definition after_name :: "after_write \<Rightarrow> utf16" where
  "after_name a = (case a of AfterReview \<Rightarrow> lit ''review'' | AfterAck \<Rightarrow> lit ''ack'' | AfterHold \<Rightarrow> lit ''hold'')"

definition review_name :: "review_tool \<Rightarrow> utf16" where
  "review_name t = (case t of PlanExitTool \<Rightarrow> lit ''plan_exit'' | QuestionTool \<Rightarrow> lit ''question'')"

definition given :: "utf16 \<Rightarrow> utf16 option \<Rightarrow> (utf16 \<times> json) list" where
  "given k v = (case v of None \<Rightarrow> [] | Some t \<Rightarrow> [(k, JString t)])"

definition receipt_json :: "plan_receipt \<Rightarrow> json" where
  "receipt_json r = JObject
     ([(lit ''interactionId'', JNumber (pr_interactionId r)), (lit ''hostCallId'', JString (pr_hostCallId r)),
       (lit ''planPath'', JString (pr_planPath r)), (lit ''planUri'', JString (pr_planUri r)),
       (lit ''markdown'', JString (pr_markdown r)), (lit ''phase'', JString (phase_name (pr_phase r))),
       (lit ''bridgeKind'', JString (pr_bridgeKind r))]
      @ given (lit ''createPlanToolCallId'') (pr_createPlanToolCallId r)
      @ given (lit ''afterWrite'') (map_option after_name (pr_afterWrite r))
      @ given (lit ''reviewToolName'') (map_option review_name (pr_reviewToolName r))
      @ given (lit ''consumedResultId'') (pr_consumedResultId r))"

definition serializePlanOperations :: "utf16 \<Rightarrow> plan_store \<Rightarrow> json option" where
  "serializePlanOperations k m =
     (case jm_get m k of None \<Rightarrow> None
      | Some rs \<Rightarrow> if rs = [] then None
          else Some (JObject [(lit ''version'', JNumber js_one), (lit ''receipts'', JArray (map receipt_json rs))]))"

definition phase_of :: "json \<Rightarrow> plan_phase option" where
  "phase_of v = (if v = JString (lit ''write'') then Some WritePhase else if v = JString (lit ''review'') then Some ReviewPhase else None)"

definition after_of :: "json \<Rightarrow> after_write option" where
  "after_of v = (if v = JString (lit ''review'') then Some AfterReview else if v = JString (lit ''ack'') then Some AfterAck
     else if v = JString (lit ''hold'') then Some AfterHold else None)"

definition review_of :: "json \<Rightarrow> review_tool option" where
  "review_of v = (if v = JString (lit ''plan_exit'') then Some PlanExitTool else if v = JString (lit ''question'') then Some QuestionTool else None)"

definition restored_receipt :: "json \<Rightarrow> plan_receipt option" where
  "restored_receipt e =
     (case (json_field e (lit ''interactionId''), json_field e (lit ''hostCallId''), json_field e (lit ''planPath''), json_field e (lit ''planUri''),
            json_field e (lit ''markdown''), phase_of (json_field e (lit ''phase'')), json_field e (lit ''bridgeKind'')) of
        (JNumber i, JString call, JString path, JString uri, JString md, Some ph, JString kind) \<Rightarrow>
          Some \<lparr>pr_interactionId = i, pr_createPlanToolCallId = string_of (json_field e (lit ''createPlanToolCallId'')),
                pr_hostCallId = call, pr_planPath = path, pr_planUri = uri, pr_markdown = md, pr_phase = ph, pr_bridgeKind = kind,
                pr_afterWrite = after_of (json_field e (lit ''afterWrite'')),
                pr_reviewToolName = review_of (json_field e (lit ''reviewToolName'')),
                pr_consumedResultId = string_of (json_field e (lit ''consumedResultId''))\<rparr>
      | _ \<Rightarrow> None)"

text \<open>The loop over the entries; \<open>None\<close> is the early return.\<close>

fun restore_receipts :: "nat \<Rightarrow> json list \<Rightarrow> plan_receipt list option" where
  "restore_receipts bytes [] = Some []"
| "restore_receipts bytes (e # es) =
     (case restored_receipt e of None \<Rightarrow> None
      | Some r \<Rightarrow>
          (let bytes' = bytes + byte_length (pr_markdown r) in
           if MAX_MARKDOWN_BYTES < bytes' then None else map_option ((#) r) (restore_receipts bytes' es)))"

definition restorePlanOperations :: "(utf16 \<Rightarrow> json option) \<Rightarrow> utf16 \<Rightarrow> utf16 option \<Rightarrow> plan_store \<Rightarrow> plan_store" where
  "restorePlanOperations parse k encoded m =
     (case encoded of None \<Rightarrow> m
      | Some text \<Rightarrow>
          (if text = [] \<or> jm_has m k then m
           else case parse text of None \<Rightarrow> m
             | Some v \<Rightarrow>
                 (if json_field v (lit ''version'') \<noteq> JNumber js_one then m
                  else case json_array (json_field v (lit ''receipts'')) of None \<Rightarrow> m
                    | Some es \<Rightarrow>
                        (if MAX_RECEIPTS < length es then m
                         else case restore_receipts 0 es of None \<Rightarrow> m
                           | Some rs \<Rightarrow> if rs = [] then m else jm_set k rs m))))"

section \<open>The continuation of an interrupted plan\<close>

fun calls_any :: "utf16 list \<Rightarrow> prompt_message \<Rightarrow> bool" where
  "calls_any calls (AssistantMsg ps) = list_ex (\<lambda>p. case p of CallPart i n \<Rightarrow> i \<in> set calls | _ \<Rightarrow> False) ps"
| "calls_any calls _ = False"

text \<open>
  \<open>open_session\<close> says whether \<open>findOpenByOpenCodeSessionId\<close> finds one, \<open>results\<close> are the call ids of
  \<open>extractToolResults\<close>; the second component is the store afterwards.
\<close>

definition interruptedPlanContinuation :: "bool \<Rightarrow> utf16 list \<Rightarrow> prompt \<Rightarrow> utf16 option \<Rightarrow> bool \<Rightarrow> plan_store \<Rightarrow> bool \<times> plan_store" where
  "interruptedPlanContinuation open_session results p key mayStartUserTurn m =
     (let calls = map pr_hostCallId (incompletePlanOperations key m);
          priorCall = find (\<lambda>i. calls_any calls (p ! i)) (rev [0 ..< length p])
      in if open_session \<or> calls = [] then (False, m)
         else (case (priorCall, liveUserTurn p) of
             (Some i, Some (start, t)) \<Rightarrow>
               (if t \<noteq> dot_text \<and> i < start
                then (False, if mayStartUserTurn then clearPlanOperations key m else m)
                else (True, m))
           | (Some i, None) \<Rightarrow> (True, m)
           | (None, _) \<Rightarrow> (list_ex (\<lambda>c. c \<in> set calls) results, m)))"

section \<open>The bounds\<close>

datatype plan_event =
    PRecord "utf16 option" plan_receipt
  | PConsume "utf16 option" utf16 utf16 "plan_phase option"
  | PClear "utf16 option" utf16
  | PClearAll "utf16 option"
  | PRestore utf16 "utf16 option"
  | PContinue bool "utf16 list" prompt "utf16 option" bool

fun plan_step :: "(utf16 \<Rightarrow> json option) \<Rightarrow> plan_store \<Rightarrow> plan_event \<Rightarrow> plan_store" where
  "plan_step parse m (PRecord key r) = snd (recordPlanOperation key r m)"
| "plan_step parse m (PConsume key call rid ph) = updatePlanOperationConsumed key call rid ph m"
| "plan_step parse m (PClear key call) = clearPlanOperation key call m"
| "plan_step parse m (PClearAll key) = clearPlanOperations key m"
| "plan_step parse m (PRestore k raw) = restorePlanOperations parse k raw m"
| "plan_step parse m (PContinue live results p key may) = snd (interruptedPlanContinuation live results p key may m)"

definition receipts_ok :: "plan_receipt list \<Rightarrow> bool" where
  "receipts_ok rs \<longleftrightarrow> length rs \<le> MAX_RECEIPTS \<and> markdownBytes rs \<le> MAX_MARKDOWN_BYTES"

definition plan_inv :: "plan_store \<Rightarrow> bool" where
  "plan_inv m \<longleftrightarrow> jm_wf m \<and> (\<forall>k rs. jm_get m k = Some rs \<longrightarrow> receipts_ok rs)"

lemma plan_inv_set: "plan_inv m \<Longrightarrow> receipts_ok rs \<Longrightarrow> plan_inv (jm_set k rs m)"
  by (auto simp: plan_inv_def)

lemma plan_inv_delete: "plan_inv m \<Longrightarrow> plan_inv (jm_delete k m)"
  by (auto simp: plan_inv_def split: if_splits)

lemma plan_inv_get: "plan_inv m \<Longrightarrow> jm_get m k = Some rs \<Longrightarrow> receipts_ok rs"
  by (auto simp: plan_inv_def)

lemma receipts_ok_Nil: "receipts_ok []"
  by (simp add: receipts_ok_def markdownBytes_def)

lemma receipts_ok_filter: "receipts_ok rs \<Longrightarrow> receipts_ok (filter P rs)"
proof -
  have "markdownBytes (filter P rs) \<le> markdownBytes rs" by (induction rs) (auto simp: markdownBytes_def)
  then show "receipts_ok rs \<Longrightarrow> receipts_ok (filter P rs)" by (auto simp: receipts_ok_def intro: le_trans [OF length_filter_le])
qed

lemma consume_first_bounds [simp]:
  "length (consume_first call rid ph rs) = length rs" "markdownBytes (consume_first call rid ph rs) = markdownBytes rs"
  by (induction rs) (auto simp: markdownBytes_def)

lemma restore_receipts_bytes: "restore_receipts n es = Some rs \<Longrightarrow> n \<le> MAX_MARKDOWN_BYTES \<Longrightarrow> length rs = length es \<and> n + markdownBytes rs \<le> MAX_MARKDOWN_BYTES"
  by (induction n es arbitrary: rs rule: restore_receipts.induct) (fastforce simp: markdownBytes_def Let_def split: option.splits if_splits)+

lemma touch_inv: "plan_inv m \<Longrightarrow> plan_inv (snd (touch k m))"
  by (auto simp: touch_def plan_inv_set receipts_ok_Nil jm_touch_def plan_inv_delete plan_inv_get split: option.split)

lemma record_inv: "plan_inv m \<Longrightarrow> plan_inv (snd (recordPlanOperation key r m))"
proof (cases "plan_key key")
  case (Some k)
  assume m: "plan_inv m"
  show ?thesis
  proof (cases "canAdmitPlanOperation key (pr_markdown r) m")
    case None
    let ?rs = "case jm_get m k of None \<Rightarrow> [] | Some rs \<Rightarrow> rs"
    have "receipts_ok (?rs @ [r])"
      using None Some by (auto simp: canAdmitPlanOperation_def Let_def receipts_ok_def markdownBytes_def split: if_splits option.splits)
    moreover have "fst (touch k m) = ?rs" by (auto simp: touch_def split: option.split)
    ultimately show ?thesis
      using touch_inv [OF m, of k] None Some by (auto simp: recordPlanOperation_def case_prod_beta intro!: plan_inv_set)
  qed (use m Some in \<open>simp add: recordPlanOperation_def\<close>)
qed (simp add: recordPlanOperation_def)

lemma plan_step_inv: "plan_inv m \<Longrightarrow> plan_inv (plan_step parse m e)"
proof (cases e)
  case (PConsume key call rid ph)
  assume "plan_inv m"
  then show ?thesis using PConsume
    by (auto simp: updatePlanOperationConsumed_def receipts_ok_def dest: plan_inv_get intro!: plan_inv_set split: option.split)
next
  case (PClear key call)
  assume "plan_inv m"
  then show ?thesis using PClear
    by (auto simp: clearPlanOperation_def Let_def receipts_ok_filter dest: plan_inv_get intro!: plan_inv_set plan_inv_delete split: option.split)
next
  case (PRestore k raw)
  assume "plan_inv m"
  then show ?thesis using PRestore
    by (auto simp: restorePlanOperations_def receipts_ok_def dest!: restore_receipts_bytes intro!: plan_inv_set split: option.split)
next
  case (PContinue live results p key may)
  assume "plan_inv m"
  then show ?thesis using PContinue
    by (auto simp: interruptedPlanContinuation_def clearPlanOperations_def Let_def plan_inv_delete split: option.split)
qed (auto simp: record_inv clearPlanOperations_def plan_inv_delete split: option.split)

interpretation plans: step_system "\<lambda>m. m = []" "plan_step parse" plan_inv
  by unfold_locales (simp add: plan_inv_def, rule plan_step_inv)

section \<open>An unfinished operation is not forgotten\<close>

definition unfinished :: "utf16 \<Rightarrow> utf16 \<Rightarrow> plan_store \<Rightarrow> bool" where
  "unfinished k call m \<longleftrightarrow> call \<in> pr_hostCallId ` set (incompletePlanOperations (Some k) m)"

text \<open>The events that end the operation of a call: its receipt is cleared or its result is taken without a review to follow,
the session is cleared, or the user wrote a new message.\<close>

fun ends_operation :: "utf16 \<Rightarrow> utf16 \<Rightarrow> plan_event \<Rightarrow> bool" where
  "ends_operation k c (PConsume key call rid ph) \<longleftrightarrow> key = Some k \<and> call = c \<and> ph \<noteq> Some ReviewPhase"
| "ends_operation k c (PClear key call) \<longleftrightarrow> key = Some k \<and> call = c"
| "ends_operation k c (PClearAll key) \<longleftrightarrow> key = Some k"
| "ends_operation k c (PContinue live results p key may) \<longleftrightarrow>
     key = Some k \<and> may \<and> \<not> live \<and> (case liveUserTurn p of None \<Rightarrow> False | Some (start, t) \<Rightarrow> t \<noteq> dot_text)"
| "ends_operation k c _ \<longleftrightarrow> False"

lemma plan_key_Some: "plan_key key = Some k \<longleftrightarrow> key = Some k \<and> k \<noteq> []"
  by (auto simp: plan_key_def)

lemma unfinished_iff:
  "k \<noteq> [] \<Longrightarrow> unfinished k c m \<longleftrightarrow>
     (\<exists>rs r. jm_get m k = Some rs \<and> r \<in> set rs \<and> pr_hostCallId r = c \<and> (pr_phase r = ReviewPhase \<or> unconsumed r))"
  by (cases "jm_get m k") (auto simp: unfinished_def incompletePlanOperations_def planOperationsFor_def plan_key_def)

lemma unfinished_key: "unfinished k c m \<Longrightarrow> k \<noteq> []"
  by (auto simp: unfinished_def incompletePlanOperations_def planOperationsFor_def plan_key_def)

lemma consume_first_keeps:
  assumes "r \<in> set rs" "pr_hostCallId r = c" "pr_phase r = ReviewPhase \<or> unconsumed r" "call \<noteq> c \<or> ph = Some ReviewPhase"
  shows "\<exists>r' \<in> set (consume_first call rid ph rs). pr_hostCallId r' = c \<and> (pr_phase r' = ReviewPhase \<or> unconsumed r')"
  using assms by (induction rs) (auto simp: unconsumed_def)

lemma unfinished_cong: "k \<noteq> [] \<Longrightarrow> jm_get m' k = jm_get m k \<Longrightarrow> unfinished k c m \<Longrightarrow> unfinished k c m'"
  by (simp add: unfinished_iff)

lemma plan_step_unfinished:
  assumes "unfinished k c m" "\<not> ends_operation k c e"
  shows "unfinished k c (plan_step parse m e)"
proof -
  have k: "k \<noteq> []" using assms(1) by (rule unfinished_key)
  obtain rs r where r: "jm_get m k = Some rs" "r \<in> set rs" "pr_hostCallId r = c" "pr_phase r = ReviewPhase \<or> unconsumed r"
    using assms(1) by (auto simp: unfinished_iff [OF k])
  show ?thesis
  proof (cases e)
    case (PRecord key x)
    have "\<exists>rs'. jm_get (snd (recordPlanOperation key x m)) k = Some rs' \<and> set rs \<subseteq> set rs'"
      using r(1) by (auto simp: recordPlanOperation_def touch_def split: option.split)
    then show ?thesis using r PRecord by (auto simp: unfinished_iff [OF k])
  next
    case (PConsume key call rid ph)
    show ?thesis
    proof (cases "key = Some k")
      case True
      then show ?thesis using consume_first_keeps [OF r(2-4), of call ph rid] assms(2) PConsume r(1) k
        by (auto simp: updatePlanOperationConsumed_def plan_key_def unfinished_iff)
    next
      case False
      then have "jm_get (plan_step parse m e) k = jm_get m k" using PConsume
        by (auto simp: updatePlanOperationConsumed_def plan_key_Some split: option.split)
      then show ?thesis using unfinished_cong [OF k _ assms(1)] by simp
    qed
  next
    case (PClear key call)
    show ?thesis
    proof (cases "key = Some k")
      case True
      then have "r \<in> set (filter (\<lambda>r. pr_hostCallId r \<noteq> call) rs)" using assms(2) PClear r by auto
      moreover from this have "filter (\<lambda>r. pr_hostCallId r \<noteq> call) rs \<noteq> []" by (metis list.set_cases list.distinct(1))
      ultimately show ?thesis using True PClear r k by (auto simp: clearPlanOperation_def plan_key_def unfinished_iff Let_def)
    next
      case False
      then have "jm_get (plan_step parse m e) k = jm_get m k" using PClear
        by (auto simp: clearPlanOperation_def plan_key_Some Let_def split: option.split)
      then show ?thesis using unfinished_cong [OF k _ assms(1)] by simp
    qed
  next
    case (PClearAll key)
    then have "jm_get (plan_step parse m e) k = jm_get m k" using assms(2)
      by (auto simp: clearPlanOperations_def plan_key_Some split: option.split)
    then show ?thesis using unfinished_cong [OF k _ assms(1)] by simp
  next
    case (PRestore j raw)
    have "jm_get (plan_step parse m e) k = jm_get m k" using r(1) PRestore
      by (auto simp: restorePlanOperations_def split: option.split)
    then show ?thesis using unfinished_cong [OF k _ assms(1)] by simp
  next
    case (PContinue live results p key may)
    then have "jm_get (plan_step parse m e) k = jm_get m k" using assms(2)
      by (auto simp: interruptedPlanContinuation_def clearPlanOperations_def plan_key_Some Let_def split: option.splits)
    then show ?thesis using unfinished_cong [OF k _ assms(1)] by simp
  qed
qed

lemma plan_run_unfinished:
  "unfinished k c m \<Longrightarrow> list_all (\<lambda>e. \<not> ends_operation k c e) es \<Longrightarrow> unfinished k c (foldl (plan_step parse) m es)"
  by (induction es arbitrary: m) (auto simp: plan_step_unfinished)

lemma plan_run_inv: "plan_inv m \<Longrightarrow> plan_inv (foldl (plan_step parse) m es)"
  by (induction es arbitrary: m) (auto simp: plan_step_inv)

section \<open>The snapshot comes back\<close>

lemma phase_of_name [simp]: "phase_of (JString (phase_name p)) = Some p"
  by (cases p) (simp_all add: phase_of_def phase_name_def lit_def)

lemma after_of_name [simp]: "after_of (JString (after_name a)) = Some a" "after_of JUndefined = None"
  by (cases a) (simp_all add: after_of_def after_name_def lit_def)

lemma review_of_name [simp]: "review_of (JString (review_name t)) = Some t" "review_of JUndefined = None"
  by (cases t) (simp_all add: review_of_def review_name_def lit_def)

lemma given_map: "map_of (rev (given k v)) j = (if j = k then map_option JString v else None)"
  by (cases v) (simp_all add: given_def)

lemma restored_receipt_json: "restored_receipt (receipt_json r) = Some r"
proof -
  let ?field = "\<lambda>k. json_field (receipt_json r) (lit k)"
  have f: "?field ''interactionId'' = JNumber (pr_interactionId r)" "?field ''hostCallId'' = JString (pr_hostCallId r)"
    "?field ''planPath'' = JString (pr_planPath r)" "?field ''planUri'' = JString (pr_planUri r)"
    "?field ''markdown'' = JString (pr_markdown r)" "?field ''phase'' = JString (phase_name (pr_phase r))"
    "?field ''bridgeKind'' = JString (pr_bridgeKind r)" "string_of (?field ''createPlanToolCallId'') = pr_createPlanToolCallId r"
    "string_of (?field ''consumedResultId'') = pr_consumedResultId r" "after_of (?field ''afterWrite'') = pr_afterWrite r"
    "review_of (?field ''reviewToolName'') = pr_reviewToolName r"
    by (simp_all add: receipt_json_def lit_def map_add_def given_map split: option.split)
  then show ?thesis by (simp add: restored_receipt_def)
qed

lemma restore_receipts_json:
  "n + markdownBytes rs \<le> MAX_MARKDOWN_BYTES \<Longrightarrow> restore_receipts n (map receipt_json rs) = Some rs"
proof (induction rs arbitrary: n)
  case (Cons r rs)
  then show ?case using Cons.IH [of "n + byte_length (pr_markdown r)"] by (simp add: restored_receipt_json markdownBytes_def Let_def)
qed simp

lemma unfinished_serialized: "unfinished k c m \<Longrightarrow> \<exists>j. serializePlanOperations k m = Some j"
  using unfinished_key by (fastforce simp: unfinished_iff serializePlanOperations_def)

lemma restore_serialized:
  assumes "plan_inv m" "serializePlanOperations k m = Some j" "parse raw = Some j" "raw \<noteq> []" "\<not> jm_has m' k"
  shows "jm_get (restorePlanOperations parse k (Some raw) m') k = jm_get m k"
proof -
  obtain rs where rs: "jm_get m k = Some rs" "rs \<noteq> []"
    "j = JObject [(lit ''version'', JNumber js_one), (lit ''receipts'', JArray (map receipt_json rs))]"
    using assms(2) by (auto simp: serializePlanOperations_def split: option.splits if_splits)
  have "receipts_ok rs" using assms(1) rs(1) by (rule plan_inv_get)
  then have "restore_receipts 0 (map receipt_json rs) = Some rs" "length rs \<le> MAX_RECEIPTS"
    using restore_receipts_json [of 0 rs] by (auto simp: receipts_ok_def)
  moreover have "json_field j (lit ''version'') = JNumber js_one" "json_array (json_field j (lit ''receipts'')) = Some (map receipt_json rs)"
    by (simp_all add: rs(3) lit_def)
  ultimately show ?thesis using assms(3-5) rs by (simp add: restorePlanOperations_def)
qed

section \<open>An interrupted plan is never resumed by itself\<close>

lemma refused_continuation:
  assumes "unfinished k c m" "i < length p" "calls_any [c] (p ! i)"
    and "case liveUserTurn p of None \<Rightarrow> True | Some (start, t) \<Rightarrow> t = dot_text \<or> start \<le> i"
  shows "interruptedPlanContinuation False results p (Some k) may m = (True, m)"
proof -
  let ?calls = "map pr_hostCallId (incompletePlanOperations (Some k) m)"
  have c: "c \<in> set ?calls" using assms(1) by (simp add: unfinished_def)
  then have i: "calls_any ?calls (p ! i)" using assms(3) by (cases "p ! i") (auto simp: list_ex_iff split: prompt_part.splits)
  then have "find (\<lambda>i. calls_any ?calls (p ! i)) (rev [0 ..< length p]) \<noteq> None" using assms(2) by (auto simp: find_None_iff)
  then obtain j where j: "find (\<lambda>i. calls_any ?calls (p ! i)) (rev [0 ..< length p]) = Some j" by blast
  then have "i \<le> j" using i assms(2) unfolding find_rev_Some by (metis not_less)
  moreover have "?calls \<noteq> []" using c by (metis list.set_cases list.distinct(1))
  ultimately show ?thesis using assms(4) j
    by (auto simp: interruptedPlanContinuation_def Let_def split: option.splits)
qed

text \<open>C21: A plan operation that was recorded and did not end is still unfinished after a restart, and a continuation that
  answers its call without a newer user message is refused.
\<close>

theorem interrupted_plan_is_never_resumed:
  assumes "plan_inv m" "unfinished k c m" "list_all (\<lambda>e. \<not> ends_operation k c e) es"
    and "serializePlanOperations k (foldl (plan_step parse) m es) = Some j" "parse raw = Some j" "raw \<noteq> []"
    and "i < length p" "calls_any [c] (p ! i)"
    and "case liveUserTurn p of None \<Rightarrow> True | Some (start, t) \<Rightarrow> t = dot_text \<or> start \<le> i"
  shows "fst (interruptedPlanContinuation False results p (Some k) may (restorePlanOperations parse k (Some raw) []))"
proof -
  let ?m = "foldl (plan_step parse) m es"
  have "unfinished k c ?m" using assms(2, 3) by (rule plan_run_unfinished)
  moreover have "jm_get (restorePlanOperations parse k (Some raw) []) k = jm_get ?m k"
    using restore_serialized [where parse = parse and raw = raw, OF plan_run_inv [OF assms(1)] assms(4-6), of "[]"] by simp
  ultimately have "unfinished k c (restorePlanOperations parse k (Some raw) [])"
    using unfinished_key [OF assms(2)] by (auto intro: unfinished_cong)
  then show ?thesis using refused_continuation [OF _ assms(7-9)] by simp
qed

definition sample_receipt :: plan_receipt where
  "sample_receipt = \<lparr>pr_interactionId = js_one, pr_createPlanToolCallId = None, pr_hostCallId = lit ''c'', pr_planPath = lit ''/p'', pr_planUri = lit ''file:///p'',
     pr_markdown = [], pr_phase = WritePhase, pr_bridgeKind = lit ''approve'', pr_afterWrite = Some AfterReview, pr_reviewToolName = Some QuestionTool,
     pr_consumedResultId = None\<rparr>"

definition sample_events :: "plan_event list" where
  "sample_events = [PConsume (Some (lit ''s'')) (lit ''c'') (lit ''r'') (Some ReviewPhase), PClear (Some (lit ''s'')) (lit ''d'')]"

theorem interrupted_plan_is_never_resumed_witness:
  "\<exists>j. fst (interruptedPlanContinuation False [] [UserMsg [TextPart (lit ''go'')], AssistantMsg [CallPart (lit ''c'') (lit ''write'')]] (Some (lit ''s'')) True
      (restorePlanOperations (\<lambda>t. Some j) (lit ''s'') (Some (lit ''x'')) []))"
proof -
  let ?m = "snd (recordPlanOperation (Some (lit ''s'')) sample_receipt [])"
  let ?e = "foldl (plan_step (\<lambda>t. None)) ?m sample_events"
  have e: "foldl (plan_step parse) ?m sample_events = ?e" for parse by (simp add: sample_events_def)
  have m: "?m = [(lit ''s'', [sample_receipt])]"
    by (simp add: recordPlanOperation_def canAdmitPlanOperation_def plan_key_def touch_def sample_receipt_def byte_length_def textEncode_def
        markdownBytes_def MAX_PLAN_SESSIONS_def MAX_RECEIPTS_def MAX_MARKDOWN_BYTES_def lit_def)
  have u: "unfinished (lit ''s'') (lit ''c'') ?m" "list_all (\<lambda>e. \<not> ends_operation (lit ''s'') (lit ''c'') e) sample_events"
    unfolding m by code_simp+
  then obtain j where j: "serializePlanOperations (lit ''s'') ?e = Some j"
    using unfinished_serialized [OF plan_run_unfinished] by blast
  have "fst (interruptedPlanContinuation False [] [UserMsg [TextPart (lit ''go'')], AssistantMsg [CallPart (lit ''c'') (lit ''write'')]] (Some (lit ''s'')) True
      (restorePlanOperations (\<lambda>t. Some j) (lit ''s'') (Some (lit ''x'')) []))"
  proof (rule interrupted_plan_is_never_resumed)
    show "plan_inv ?m" by (rule record_inv) (simp add: plan_inv_def)
    show "unfinished (lit ''s'') (lit ''c'') ?m" "list_all (\<lambda>e. \<not> ends_operation (lit ''s'') (lit ''c'') e) sample_events" by (rule u)+
    show "serializePlanOperations (lit ''s'') (foldl (plan_step (\<lambda>t. Some j)) ?m sample_events) = Some j" unfolding e [of "\<lambda>t. Some j"] by (rule j)
    show "calls_any [lit ''c''] ([UserMsg [TextPart (lit ''go'')], AssistantMsg [CallPart (lit ''c'') (lit ''write'')]] ! 1)" by simp
    show "case liveUserTurn [UserMsg [TextPart (lit ''go'')], AssistantMsg [CallPart (lit ''c'') (lit ''write'')]] of None \<Rightarrow> True
        | Some (start, t) \<Rightarrow> t = dot_text \<or> start \<le> 1" by (simp add: liveUserTurn_def block_start_def user_or_system_def)
  qed (simp_all add: lit_def)
  then show ?thesis by blast
qed

text \<open>C39: Admission keeps every session within its budget of receipts and Markdown.\<close>

theorem plan_receipts_are_bounded:
  "receipts_ok (planOperationsFor key (foldl (plan_step parse) [] es))"
  using plan_run_inv [of "[]" parse es] by (auto simp: planOperationsFor_def receipts_ok_Nil plan_inv_def split: option.split)

end
