(* ===== verification/SessionEdits.thy ===== *)
theory SessionEdits
  imports JsonAccess JsText
begin

text \<open>
  Session rules that deny edits, and what a conversation is told about them
  (\<open>src/src/protocol/session-edits.ts\<close>).
\<close>

section \<open>Rules\<close>

text \<open>
  \<open>wildcardMatch\<close>: backslashes count as slashes; the regular expression the code builds matches \<open>*\<close> with any text,
  \<open>?\<close> with one code unit, and makes a trailing \<open>" *"\<close> optional. On Windows letters match in either case; the only
  input is ASCII, where the \<open>i\<close> flag folds ASCII letters alone.
\<close>

definition fold_unit :: "16 word \<Rightarrow> 16 word" where
  "fold_unit c = (if 65 \<le> c \<and> c \<le> 90 then c + 32 else c)"

definition same_unit :: "bool \<Rightarrow> 16 word \<Rightarrow> 16 word \<Rightarrow> bool" where
  "same_unit win c d \<longleftrightarrow> c = d \<or> win \<and> fold_unit c = fold_unit d"

function wild :: "bool \<Rightarrow> utf16 \<Rightarrow> utf16 \<Rightarrow> bool" where
  "wild win [] s \<longleftrightarrow> s = []"
| "wild win (c # p) s \<longleftrightarrow>
     (if c = 42 then wild win p s \<or> (if s = [] then False else wild win (c # p) (tl s))
      else s \<noteq> [] \<and> (c = 63 \<or> same_unit win c (hd s)) \<and> wild win p (tl s))"
  by pat_completeness auto
termination by (relation "measure (\<lambda>(w, p, s). length p + length s)") auto

definition slashes :: "utf16 \<Rightarrow> utf16" where
  "slashes s = map (\<lambda>c. if c = 92 then 47 else c) s"

definition wildcardMatch :: "bool \<Rightarrow> utf16 \<Rightarrow> utf16 \<Rightarrow> bool" where
  "wildcardMatch win inp pattern =
     (let s = slashes inp; p = slashes pattern in
      wild win p s \<or> (ends_with [32, 42] p \<and> wild win (take (length p - 2) p) s))"

text \<open>A rule of either host generation: \<open>(action, resource, effect)\<close>.\<close>

definition rule_parts :: "json \<Rightarrow> json \<times> json \<times> json" where
  "rule_parts r =
     (if string_of (json_field r (lit ''permission'')) \<noteq> None
      then (json_field r (lit ''permission''), json_field r (lit ''pattern''), json_field r (lit ''action''))
      else (json_field r (lit ''action''), json_field r (lit ''resource''), json_field r (lit ''effect'')))"

definition effects :: "json list" where
  "effects = map (\<lambda>t. JString (lit t)) [''allow'', ''deny'', ''ask'']"

text \<open>One turn of the loop: \<open>None\<close> is a \<open>continue\<close>.\<close>

definition rule_denies :: "bool \<Rightarrow> json \<Rightarrow> bool option" where
  "rule_denies win rule =
     (if \<not> is_object rule then None
      else case rule_parts rule of (action, resource, eff) \<Rightarrow>
        (if resource \<noteq> JString (lit ''*'') then None
         else if eff \<notin> set effects then None
         else case string_of action of None \<Rightarrow> None
           | Some a \<Rightarrow> if wildcardMatch win (lit ''edit'') a then Some (eff = JString (lit ''deny'')) else None))"

definition sessionRulesDenyEdits :: "bool \<Rightarrow> json \<Rightarrow> bool" where
  "sessionRulesDenyEdits win permissions =
     (case json_array permissions of None \<Rightarrow> False
      | Some rules \<Rightarrow> foldl (\<lambda>denied rule. case rule_denies win rule of None \<Rightarrow> denied | Some d \<Rightarrow> d) False rules)"

text \<open>\<open>a ?? b\<close> on JSON values.\<close>

definition given_or :: "json \<Rightarrow> json \<Rightarrow> json" where
  "given_or a b = (if a = JUndefined \<or> a = JNull then b else a)"

definition permissionsFromSession :: "json \<Rightarrow> json" where
  "permissionsFromSession session =
     (if \<not> is_object session then JUndefined
      else let info = (if is_object (json_field session (lit ''data'')) then json_field session (lit ''data'') else session)
        in given_or (json_field info (lit ''permissions'')) (json_field info (lit ''permission'')))"

section \<open>What a conversation was told\<close>

record edit_guidance =
  eg_last :: "bool option"
  eg_denySent :: bool

type_synonym guidance_map = "(utf16, edit_guidance) jsmap"

definition MAX_EDIT_GUIDANCE_CONVERSATIONS :: nat where "MAX_EDIT_GUIDANCE_CONVERSATIONS = 256"

definition setEditGuidance :: "utf16 \<Rightarrow> edit_guidance \<Rightarrow> guidance_map \<Rightarrow> guidance_map" where
  "setEditGuidance c g m =
     (let m' = jm_touch c g m in if MAX_EDIT_GUIDANCE_CONVERSATIONS < length m' then tl m' else m')"

definition sessionEditsGuidance :: "utf16 \<Rightarrow> bool option \<Rightarrow> bool \<Rightarrow> bool \<Rightarrow> guidance_map \<Rightarrow> bool option" where
  "sessionEditsGuidance c denied carriesEarlierState carriesEditDeny m =
     (case denied of None \<Rightarrow> None
      | Some True \<Rightarrow> Some True
      | Some False \<Rightarrow>
          (if carriesEditDeny then Some False
           else case Option.bind (jm_get m c) eg_last of
               Some l \<Rightarrow> if l then Some False else None
             | None \<Rightarrow>
                 (if \<not> carriesEarlierState then None
                  else case jm_get m c of Some g \<Rightarrow> if eg_denySent g then Some False else None | None \<Rightarrow> Some False)))"

definition recordSessionEditsGuidance :: "utf16 \<Rightarrow> bool option \<Rightarrow> guidance_map \<Rightarrow> guidance_map" where
  "recordSessionEditsGuidance c denied m =
     (case denied of None \<Rightarrow> m
      | Some d \<Rightarrow> setEditGuidance c \<lparr>eg_last = Some d, eg_denySent = (d \<or> (case jm_get m c of None \<Rightarrow> False | Some g \<Rightarrow> eg_denySent g))\<rparr> m)"

definition sessionEditsDenySent :: "utf16 \<Rightarrow> guidance_map \<Rightarrow> bool" where
  "sessionEditsDenySent c m = (case jm_get m c of None \<Rightarrow> True | Some g \<Rightarrow> eg_denySent g)"

definition restoreSessionEditsDenySent :: "utf16 \<Rightarrow> bool \<Rightarrow> bool \<Rightarrow> guidance_map \<Rightarrow> guidance_map" where
  "restoreSessionEditsDenySent c denySent replace m =
     (if \<not> replace \<and> jm_has m c then m else setEditGuidance c \<lparr>eg_last = None, eg_denySent = denySent\<rparr> m)"

section \<open>The last rule decides\<close>

text \<open>Of the rules on every resource whose action covers \<open>edit\<close>, the last one counts; without one, nothing is denied.\<close>

theorem last_edit_rule_decides:
  "sessionRulesDenyEdits win (JArray rules) =
     (let ds = List.map_filter (rule_denies win) rules in ds \<noteq> [] \<and> last ds)"
proof -
  have "foldl (\<lambda>denied rule. case rule_denies win rule of None \<Rightarrow> denied | Some d \<Rightarrow> d) b rules
      = (let ds = List.map_filter (rule_denies win) rules in if ds = [] then b else last ds)" for b
    by (induction rules arbitrary: b) (auto simp: Let_def List.map_filter_def)
  then show ?thesis by (simp add: sessionRulesDenyEdits_def Let_def)
qed

section \<open>No stale word about edits\<close>

text \<open>
  What a conversation at Cursor says, kept beside the code's map: the state its last request left (the
  head), the checkpoint the provider holds, and the snapshot on disk, a checkpoint with the marker that
  was written with it. A request starts fresh, goes on in a held Run, or starts from the checkpoint, which
  may be older than the last request; a note carried along may hold an older deny. A restart forgets the
  map and restores each conversation from its snapshot; a snapshot another copy of the module wrote
  replaces what this copy knew. A conversation is forgotten while its entry, since evicted from the map,
  leaves a checkpoint that holds a deny unaccounted for.
\<close>

datatype request_start = Fresh | FromCheckpoint | HeldRun

record told =
  td_map :: guidance_map
  td_head :: "utf16 \<Rightarrow> bool"
  td_checkpoint :: "utf16 \<Rightarrow> bool"
  td_saved :: "utf16 \<Rightarrow> (bool \<times> bool) option"
  td_forgot :: "utf16 set"

datatype edit_event =
    ERequest utf16 "bool option" request_start bool
  | ECheckpoint utf16
  | ESave utf16
  | ERestart "utf16 list"
  | EOtherCopy utf16 bool bool

definition told_start :: told where
  "told_start = \<lparr>td_map = [], td_head = (\<lambda>c. False), td_checkpoint = (\<lambda>c. False), td_saved = (\<lambda>c. None), td_forgot = {}\<rparr>"

definition earlier_deny :: "told \<Rightarrow> utf16 \<Rightarrow> request_start \<Rightarrow> bool" where
  "earlier_deny t c start = (case start of Fresh \<Rightarrow> False | FromCheckpoint \<Rightarrow> td_checkpoint t c | HeldRun \<Rightarrow> td_head t c)"

definition restart :: "(utf16 \<Rightarrow> (bool \<times> bool) option) \<Rightarrow> utf16 list \<Rightarrow> guidance_map" where
  "restart saved cs = foldl (\<lambda>m c. case saved c of None \<Rightarrow> m | Some (h, marker) \<Rightarrow> restoreSessionEditsDenySent c marker False m) [] cs"

definition note_forgotten :: "told \<Rightarrow> told" where
  "note_forgotten t = t\<lparr>td_forgot := td_forgot t \<union> {c. td_checkpoint t c \<and> jm_get (td_map t) c = None}\<rparr>"

fun edit_move :: "told \<Rightarrow> edit_event \<Rightarrow> told" where
  "edit_move t (ERequest c denied start carriesDeny) =
     t\<lparr>td_map := recordSessionEditsGuidance c denied (td_map t),
       td_head := (td_head t)(c := (case sessionEditsGuidance c denied (start \<noteq> Fresh) carriesDeny (td_map t) of
         None \<Rightarrow> carriesDeny \<or> earlier_deny t c start | Some d \<Rightarrow> d))\<rparr>"
| "edit_move t (ECheckpoint c) = t\<lparr>td_checkpoint := (td_checkpoint t)(c := td_head t c), td_forgot := td_forgot t - {c}\<rparr>"
| "edit_move t (ESave c) = t\<lparr>td_saved := (td_saved t)(c := Some (td_checkpoint t c, sessionEditsDenySent c (td_map t)))\<rparr>"
| "edit_move t (ERestart cs) =
     (let held = (\<lambda>c. c \<in> set cs \<and> (case td_saved t c of None \<Rightarrow> False | Some (h, marker) \<Rightarrow> h))
      in t\<lparr>td_map := restart (td_saved t) cs, td_head := held, td_checkpoint := held, td_forgot := {}\<rparr>)"
| "edit_move t (EOtherCopy c h marker) =
     t\<lparr>td_map := restoreSessionEditsDenySent c marker True (td_map t), td_head := (td_head t)(c := h),
       td_checkpoint := (td_checkpoint t)(c := h), td_saved := (td_saved t)(c := Some (h, marker)), td_forgot := td_forgot t - {c}\<rparr>"

definition edit_step :: "told \<Rightarrow> edit_event \<Rightarrow> told" where
  "edit_step t e = note_forgotten (edit_move t e)"



definition guidance_ok :: "told \<Rightarrow> utf16 \<Rightarrow> edit_guidance \<Rightarrow> bool" where
  "guidance_ok t c g \<longleftrightarrow> (td_head t c \<longrightarrow> eg_denySent g \<and> eg_last g \<noteq> Some False)
     \<and> (td_checkpoint t c \<and> c \<notin> td_forgot t \<longrightarrow> eg_denySent g) \<and> (c \<in> td_forgot t \<longrightarrow> eg_denySent g \<or> eg_last g = Some False)"

definition told_ok :: "told \<Rightarrow> bool" where
  "told_ok t \<longleftrightarrow> jm_wf (td_map t) \<and> (\<forall>c g. jm_get (td_map t) c = Some g \<longrightarrow> guidance_ok t c g)
     \<and> (\<forall>c. td_saved t c \<noteq> Some (True, False))"

definition told_inv :: "told \<Rightarrow> bool" where
  "told_inv t \<longleftrightarrow> told_ok t \<and> (\<forall>c. td_checkpoint t c \<and> jm_get (td_map t) c = None \<longrightarrow> c \<in> td_forgot t)"











lemma told_start: "told_inv told_start"
  by (simp add: told_start_def told_inv_def told_ok_def)




lemmas edit_eval = edit_step_def note_forgotten_def told_start_def earlier_deny_def sessionEditsGuidance_def
  recordSessionEditsGuidance_def setEditGuidance_def MAX_EDIT_GUIDANCE_CONVERSATIONS_def jm_touch_def restart_def
  sessionEditsDenySent_def restoreSessionEditsDenySent_def Let_def


text \<open>
  Where the callers' part fails, the word is stale. When the Run that said "edits are permitted" ends before
  its checkpoint, the next request starts from the older one, which still holds the deny, and the note is not
  said again. And the first request after an eviction marks the conversation as never denied.
\<close>

theorem lost_correction_is_not_repeated:
  "td_head (foldl edit_step told_start [ERequest c (Some True) Fresh False, ECheckpoint c,
     ERequest c (Some False) FromCheckpoint False, ERequest c (Some False) FromCheckpoint False]) c"
  by (simp add: edit_eval)

lemma set_guidance_same: "jm_get (setEditGuidance c g m) c = Some g"
proof -
  have "jm_touch c g m = filter (\<lambda>p. fst p \<noteq> c) m @ [(c, g)]" by (rule jm_touch_append)
  then show ?thesis
    by (cases "filter (\<lambda>p. fst p \<noteq> c) m")
      (auto simp: setEditGuidance_def Let_def MAX_EDIT_GUIDANCE_CONVERSATIONS_def map_add_Some_iff map_of_eq_None_iff
         dest: filter_eq_ConsD simp del: map_of_eq_Some_iff)
qed

theorem evicted_deny_is_marked_unsent:
  assumes "jm_get m c = None"
  shows "sessionEditsDenySent c m \<and> \<not> sessionEditsDenySent c (recordSessionEditsGuidance c (Some False) m)"
  using assms by (simp add: sessionEditsDenySent_def recordSessionEditsGuidance_def set_guidance_same)

theorem evicted_deny_is_marked_unsent_witness:
  "sessionEditsDenySent [99] [] \<and> \<not> sessionEditsDenySent [99] (recordSessionEditsGuidance [99] (Some False) [])"
  by (rule evicted_deny_is_marked_unsent) simp

end
