(* ===== verification/CursorModes.thy ===== *)
theory CursorModes
  imports AskQuestion SessionEdits
begin

text \<open>
  Cursor's unified modes on the host's plan and build agents (\<open>src/src/protocol/cursor-mode.ts\<close>,
  \<open>src/src/protocol/switch-mode.ts\<close>): the table of modes, how a requested switch is satisfied, and the mode
  recorded for each session, which follows the host's plan agent. \<open>toLowerCase\<close> and the texts of the mode
  reminders are parameters.
\<close>

section \<open>Modes\<close>

datatype mode_role = PlanRole | ReadOnlyRole | ImplementRole
datatype mode_guidance = GuidePlan | GuideAsk | GuideDebug | GuideMultitask | GuideTriage | GuideProject | GuideBackground | GuideAgent

record mode_spec =
  sp_role :: mode_role
  sp_wire :: nat
  sp_guidance :: mode_guidance

definition ASK :: mode_spec where "ASK = \<lparr>sp_role = ReadOnlyRole, sp_wire = 2, sp_guidance = GuideAsk\<rparr>"
definition IMPLEMENT :: mode_spec where "IMPLEMENT = \<lparr>sp_role = ImplementRole, sp_wire = 1, sp_guidance = GuideAgent\<rparr>"

definition MODES :: "(utf16 \<times> mode_spec) list" where
  "MODES =
     [(lit ''plan'', \<lparr>sp_role = PlanRole, sp_wire = 3, sp_guidance = GuidePlan\<rparr>),
      (lit ''spec'', \<lparr>sp_role = PlanRole, sp_wire = 1, sp_guidance = GuidePlan\<rparr>),
      (lit ''chat'', ASK), (lit ''ask'', ASK), (lit ''search'', ASK),
      (lit ''debug'', \<lparr>sp_role = ImplementRole, sp_wire = 4, sp_guidance = GuideDebug\<rparr>),
      (lit ''multitask'', IMPLEMENT\<lparr>sp_guidance := GuideMultitask\<rparr>),
      (lit ''triage'', IMPLEMENT\<lparr>sp_guidance := GuideTriage\<rparr>),
      (lit ''project'', IMPLEMENT\<lparr>sp_guidance := GuideProject\<rparr>),
      (lit ''background'', IMPLEMENT\<lparr>sp_guidance := GuideBackground\<rparr>)]"

type_synonym lower_case = "utf16 \<Rightarrow> utf16"

definition normalizeCursorModeId :: "lower_case \<Rightarrow> utf16 option \<Rightarrow> utf16" where
  "normalizeCursorModeId lower modeId = lower (js_trim (case modeId of None \<Rightarrow> [] | Some t \<Rightarrow> t))"

definition cursorModeSpec :: "lower_case \<Rightarrow> utf16 option \<Rightarrow> mode_spec option" where
  "cursorModeSpec lower modeId =
     (let i = normalizeCursorModeId lower modeId in
      if i = [] then None else Some (case map_of MODES i of None \<Rightarrow> IMPLEMENT | Some s \<Rightarrow> s))"

definition cursorModeRole :: "lower_case \<Rightarrow> utf16 option \<Rightarrow> mode_role option" where
  "cursorModeRole lower modeId = map_option sp_role (cursorModeSpec lower modeId)"

definition HOST_PLAN_AGENT :: utf16 where "HOST_PLAN_AGENT = lit ''plan''"

definition hostAgentForCursorMode :: "lower_case \<Rightarrow> utf16 option \<Rightarrow> utf16 option" where
  "hostAgentForCursorMode lower modeId =
     (case cursorModeRole lower modeId of
        Some PlanRole \<Rightarrow> Some HOST_PLAN_AGENT
      | Some ImplementRole \<Rightarrow> Some (lit ''build'')
      | _ \<Rightarrow> None)"

definition cursorAgentModeWireValue :: "lower_case \<Rightarrow> utf16 option \<Rightarrow> nat" where
  "cursorAgentModeWireValue lower modeId = (case cursorModeSpec lower modeId of None \<Rightarrow> 1 | Some s \<Rightarrow> sp_wire s)"

definition isHostPlanAgent :: "utf16 option \<Rightarrow> bool" where
  "isHostPlanAgent agent \<longleftrightarrow> agent = Some HOST_PLAN_AGENT"

section \<open>A requested switch\<close>

datatype host_plan_tool = PlanEnter | PlanExit

definition plan_tool_name :: "host_plan_tool \<Rightarrow> utf16" where
  "plan_tool_name t = (case t of PlanEnter \<Rightarrow> lit ''plan_enter'' | PlanExit \<Rightarrow> lit ''plan_exit'')"

datatype switch_refusal = MissingTarget | PermissionsUnavailable | EditsDenied | ViaCreatePlan | ByUser

text \<open>\<open>mapSwitchModeTarget\<close>: \<open>None\<close> is the missing target, \<open>Some None\<close> a target that needs no host tool.\<close>

definition mapSwitchModeTarget :: "lower_case \<Rightarrow> utf16 \<Rightarrow> host_plan_tool option option" where
  "mapSwitchModeTarget lower target =
     (case cursorModeRole lower (Some target) of
        None \<Rightarrow> None
      | Some r \<Rightarrow> Some (case hostAgentForCursorMode lower (Some target) of
          None \<Rightarrow> None
        | Some agent \<Rightarrow> Some (if isHostPlanAgent (Some agent) then PlanEnter else PlanExit)))"

datatype switch_bridge = SwitchNative host_plan_tool | SwitchApprove | SwitchAck | SwitchReject switch_refusal

record switch_options =
  so_allowTools :: bool
  so_advertised :: "utf16 list"
  so_activeModeId :: "utf16 option"
  so_hostAgent :: "utf16 option"
  so_editsDenied :: bool
  so_permissionsUnavailable :: bool

definition resolveSwitchModeBridge :: "lower_case \<Rightarrow> utf16 \<Rightarrow> switch_options \<Rightarrow> switch_bridge" where
  "resolveSwitchModeBridge lower target ops =
     (case mapSwitchModeTarget lower target of
        None \<Rightarrow> SwitchReject MissingTarget
      | Some tool \<Rightarrow>
          (if \<not> so_allowTools ops then SwitchAck
           else case tool of None \<Rightarrow> SwitchApprove
             | Some t \<Rightarrow>
                 (if so_permissionsUnavailable ops \<and> t = PlanExit then SwitchReject PermissionsUnavailable
                  else if so_editsDenied ops \<and> t = PlanExit then SwitchReject EditsDenied
                  else if so_activeModeId ops \<noteq> None \<and> so_activeModeId ops \<noteq> Some []
                      \<and> normalizeCursorModeId lower (so_activeModeId ops) = normalizeCursorModeId lower (Some target) then SwitchApprove
                  else if plan_tool_name t \<in> set (so_advertised ops) then SwitchNative t
                  else if t = PlanEnter then SwitchApprove
                  else if isHostPlanAgent (so_hostAgent ops)
                    then SwitchReject (if lit ''question'' \<in> set (so_advertised ops) then ViaCreatePlan else ByUser)
                  else SwitchApprove)))"

record switch_query =
  sq_targetModeId :: utf16
  sq_explanation :: utf16
  sq_toolCallId :: utf16

definition decodeSwitchModeQuery :: "(bytes \<Rightarrow> json option) \<Rightarrow> bytes \<Rightarrow> switch_query option" where
  "decodeSwitchModeQuery decode b =
     (case decode b of None \<Rightarrow> None
      | Some d \<Rightarrow>
          (let a = json_field d (lit ''args''); target = ask_str (json_field a (lit ''target_mode_id''));
               own = ask_str (json_field a (lit ''tool_call_id'')) in
           if \<not> is_object a \<or> js_trim target = [] then None
           else Some \<lparr>sq_targetModeId = target, sq_explanation = ask_str (json_field a (lit ''explanation'')),
                      sq_toolCallId = (if own \<noteq> [] then own else ask_str (json_field d (lit ''tool_call_id'')))\<rparr>))"

datatype switch_result = SwitchApproved | SwitchRejected utf16

definition USER_REJECTED_REASON :: utf16 where "USER_REJECTED_REASON = lit ''Mode switch rejected by user''"

text \<open>A case-insensitive search for an ASCII word.\<close>

definition mentions :: "string \<Rightarrow> utf16 \<Rightarrow> bool" where
  "mentions w t \<longleftrightarrow> contains_text (lit w) (map fold_unit t)"

definition switchModeResultFromToolOutput :: "utf16 \<Rightarrow> bool \<Rightarrow> switch_result" where
  "switchModeResultFromToolOutput out isError =
     (if \<not> isError then SwitchApproved
      else let t = js_trim out in
        if t = [] \<or> list_ex (\<lambda>w. mentions w t) [''reject'', ''denied'', ''permission'', ''cancelled'', ''canceled'', ''dismissed'']
        then SwitchRejected USER_REJECTED_REASON else SwitchRejected t)"

section \<open>The mode of a session\<close>

record active_mode =
  am_modeId :: utf16
  am_firstTurn :: bool
  am_bridgedPlanEntered :: bool

record mode_state =
  mo_active :: "(utf16, active_mode) jsmap"
  mo_exitNotes :: "(utf16, utf16) jsmap"

definition MAX_ACTIVE_CURSOR_MODES :: nat where "MAX_ACTIVE_CURSOR_MODES = 256"

text \<open>The loop stops at an empty key.\<close>

fun evict_modes :: "nat \<Rightarrow> (utf16, 'v) jsmap \<Rightarrow> (utf16, 'v) jsmap" where
  "evict_modes limit [] = []"
| "evict_modes limit ((k, v) # m) = (if limit < length ((k, v) # m) \<and> k \<noteq> [] then evict_modes limit m else (k, v) # m)"

definition session_key :: "utf16 option \<Rightarrow> utf16 option" where
  "session_key key = (if key = Some [] then None else key)"

definition setActiveCursorMode :: "lower_case \<Rightarrow> utf16 option \<Rightarrow> utf16 \<Rightarrow> bool \<Rightarrow> mode_state \<Rightarrow> mode_state" where
  "setActiveCursorMode lower key target bridged st =
     (case session_key key of None \<Rightarrow> st
      | Some k \<Rightarrow>
          (let modeId = normalizeCursorModeId lower (Some target) in
           if modeId = [] then st
           else st\<lparr>mo_active := evict_modes MAX_ACTIVE_CURSOR_MODES
             (jm_set k \<lparr>am_modeId = modeId, am_firstTurn = True, am_bridgedPlanEntered = bridged\<rparr> (mo_active st))\<rparr>))"

definition active_of :: "utf16 option \<Rightarrow> mode_state \<Rightarrow> active_mode option" where
  "active_of key st = Option.bind (session_key key) (jm_get (mo_active st))"

definition getActiveCursorMode :: "utf16 option \<Rightarrow> mode_state \<Rightarrow> utf16 option" where
  "getActiveCursorMode key st = map_option am_modeId (active_of key st)"

definition isCursorPlanModeActive :: "lower_case \<Rightarrow> utf16 option \<Rightarrow> mode_state \<Rightarrow> bool" where
  "isCursorPlanModeActive lower key st \<longleftrightarrow> cursorModeRole lower (getActiveCursorMode key st) = Some PlanRole"

definition isBridgedCursorPlanModeActive :: "lower_case \<Rightarrow> utf16 option \<Rightarrow> mode_state \<Rightarrow> bool" where
  "isBridgedCursorPlanModeActive lower key st \<longleftrightarrow>
     (case active_of key st of None \<Rightarrow> False
      | Some a \<Rightarrow> cursorModeRole lower (Some (am_modeId a)) = Some PlanRole \<and> am_bridgedPlanEntered a)"

datatype followed = FollowEntered | FollowLeft

definition followHostPlanAgent :: "lower_case \<Rightarrow> utf16 option \<Rightarrow> utf16 option \<Rightarrow> utf16 option \<Rightarrow> mode_state \<Rightarrow> followed option \<times> mode_state" where
  "followHostPlanAgent lower key previousHostAgent hostAgent st =
     (if session_key key = None \<or> hostAgent = None \<or> hostAgent = Some [] then (None, st)
      else if isHostPlanAgent hostAgent then
        (if isBridgedCursorPlanModeActive lower key st then (None, st)
         else if isHostPlanAgent previousHostAgent \<and> cursorModeRole lower (getActiveCursorMode key st) = Some ReadOnlyRole then (None, st)
         else (Some FollowEntered, setActiveCursorMode lower key (lit ''plan'') True st))
      else if \<not> isHostPlanAgent previousHostAgent \<or> \<not> isCursorPlanModeActive lower key st then (None, st)
      else (Some FollowLeft, setActiveCursorMode lower key (lit ''agent'') False st))"

definition clearActiveCursorMode :: "utf16 option \<Rightarrow> mode_state \<Rightarrow> mode_state" where
  "clearActiveCursorMode key st = (case session_key key of None \<Rightarrow> st | Some k \<Rightarrow> st\<lparr>mo_active := jm_delete k (mo_active st)\<rparr>)"

section \<open>Reminders\<close>

definition SESSION_EDITS_DENIED_REMINDER :: utf16 where
  "SESSION_EDITS_DENIED_REMINDER =
     lit ''Execution remains blocked by the session'' @ [39] @ lit ''s edit rule. This supersedes any instruction to implement. ''
     @ lit ''Do not implement, and do not write files through the shell. The user changes that rule in the client.''"

definition SESSION_EDITS_ALLOWED_REMINDER :: utf16 where
  "SESSION_EDITS_ALLOWED_REMINDER =
     lit ''The session has no global edit deny. This supersedes earlier session-edit-deny reminders only; ''
     @ lit ''follow the current agent'' @ [39] @ lit ''s permissions and required plan approval.''"

definition reminder_open :: utf16 where "reminder_open = lit ''<system_reminder>'' @ [nl]"
definition reminder_close :: utf16 where "reminder_close = [nl] @ lit ''</system_reminder>''"

definition wrapReminder :: "utf16 \<Rightarrow> utf16" where
  "wrapReminder body = reminder_open @ js_trim body @ reminder_close"

text \<open>How a finished plan is submitted, in the texts of plan mode.\<close>

datatype leave_plan = LeaveByStage | LeaveByQuestion | LeaveByAgentSwitch | LeaveByPlanExit

definition leave_plan_of :: "bool option \<Rightarrow> bool \<Rightarrow> bool \<Rightarrow> leave_plan" where
  "leave_plan_of planExitAdvertised planStageAdvertised questionAdvertised =
     (if planStageAdvertised then LeaveByStage
      else if planExitAdvertised = Some False then (if questionAdvertised then LeaveByQuestion else LeaveByAgentSwitch)
      else LeaveByPlanExit)"

type_synonym reminder_texts = "mode_guidance \<Rightarrow> bool \<Rightarrow> leave_plan \<Rightarrow> utf16"

definition cursorModeSystemReminder :: "lower_case \<Rightarrow> reminder_texts \<Rightarrow> utf16 \<Rightarrow> bool \<Rightarrow> leave_plan \<Rightarrow> utf16 option" where
  "cursorModeSystemReminder lower texts target first leave =
     map_option (\<lambda>s. wrapReminder (texts (sp_guidance s) first leave)) (cursorModeSpec lower (Some target))"

text \<open>\<open>replace(/\n<\/system_reminder>\s*$/, \<dots>)\<close>\<close>

definition before_close :: "utf16 \<Rightarrow> utf16 option" where
  "before_close t =
     (let body = rev (dropWhile js_space (rev t)) in
      if ends_with reminder_close body then Some (take (length body - length reminder_close) body) else None)"

definition withSessionEditsDenied :: "utf16 option \<Rightarrow> bool option \<Rightarrow> utf16 option" where
  "withSessionEditsDenied reminder denied =
     (case denied of None \<Rightarrow> reminder
      | Some d \<Rightarrow>
          (let permission = (if d then SESSION_EDITS_DENIED_REMINDER else SESSION_EDITS_ALLOWED_REMINDER) in
           if reminder = None \<or> reminder = Some [] then Some (wrapReminder permission)
           else if contains_text permission (the reminder) then reminder
           else case before_close (the reminder) of None \<Rightarrow> reminder
             | Some body \<Rightarrow> Some (body @ [nl, nl] @ permission @ reminder_close)))"

definition takeActiveCursorModeReminder ::
    "lower_case \<Rightarrow> reminder_texts \<Rightarrow> utf16 option \<Rightarrow> utf16 list option \<Rightarrow> utf16 option \<Rightarrow> bool option \<Rightarrow> mode_state \<Rightarrow> utf16 option \<times> mode_state" where
  "takeActiveCursorModeReminder lower texts key advertised hostAgent denied st =
     (case active_of key st of None \<Rightarrow> (withSessionEditsDenied None denied, st)
      | Some a \<Rightarrow>
          (let k = the (session_key key); has = (\<lambda>w. \<exists>names. advertised = Some names \<and> lit w \<in> set names) in
           if cursorModeRole lower (Some (am_modeId a)) = Some PlanRole \<and> am_bridgedPlanEntered a \<and> (hostAgent = None \<or> hostAgent = Some [])
              \<and> has ''plan_enter''
           then (withSessionEditsDenied (cursorModeSystemReminder lower texts (lit ''agent'') True LeaveByPlanExit) denied,
                 st\<lparr>mo_active := jm_delete k (mo_active st)\<rparr>)
           else (withSessionEditsDenied (cursorModeSystemReminder lower texts (am_modeId a) (am_firstTurn a)
                   (leave_plan_of (map_option (\<lambda>names. lit ''plan_exit'' \<in> set names) advertised) (has ''cursor_plan_stage'') (has ''question''))) denied,
                 if am_firstTurn a then st\<lparr>mo_active := jm_set k (a\<lparr>am_firstTurn := False\<rparr>) (mo_active st)\<rparr> else st)))"

section \<open>The host plan agent's own workflow\<close>

text \<open>\<open>Object.keys\<close> of the properties of a schema; a schema has no integer-like names.\<close>

definition argument_line :: "json \<Rightarrow> utf16 set \<Rightarrow> utf16 \<Rightarrow> utf16" where
  "argument_line properties required name =
     (let property = json_field properties name;
          type = ask_str (json_field property (lit ''type''));
          description = js_trim (ask_str (json_field property (lit ''description'')))
      in lit ''- `'' @ name @ lit ''` ('' @ (if type = [] then lit ''value'' else type) @ lit '', ''
         @ (if name \<in> required then lit ''required'' else lit ''optional'') @ lit '')''
         @ (if description \<noteq> [] then lit '': '' @ description else []))"

definition describeToolArguments :: "json \<Rightarrow> utf16" where
  "describeToolArguments schema =
     (let properties = json_field schema (lit ''properties'');
          names = remdups (map fst (json_entries properties));
          required = set (List.map_filter string_of (case json_array (json_field schema (lit ''required'')) of None \<Rightarrow> [] | Some vs \<Rightarrow> vs))
      in if names = [] then lit ''It takes no arguments: call it with `{}`.''
         else lit ''Its arguments (use exactly these names):'' @ [nl] @ join_nl (map (argument_line properties required) names))"

definition file_note :: "utf16 \<Rightarrow> utf16" where
  "file_note planFile = wrapReminder
     (lit ''The host plan agent is active. When the plan is ready, record it with CreatePlan. ''
      @ lit ''CreatePlan saves it as the host'' @ [39] @ lit ''s plan file ('' @ planFile @ lit '') and submits it ''
      @ lit ''to the host'' @ [39] @ lit ''s plan review, which asks the user; this carries out the host ''
      @ lit ''instructions to write the plan file and call plan_exit, so do neither yourself. ''
      @ lit ''Do not implement until the user approves.'')"

definition call_note :: "utf16 \<Rightarrow> json \<Rightarrow> utf16" where
  "call_note server schema = wrapReminder
     (lit ''The host plan agent is active. When the plan file is written and ready for review, ''
      @ lit ''submit it by calling MCP tool `plan_exit` on server `'' @ server @ lit ''` directly. ''
      @ lit ''Its full definition is below, so do not look it up with GetMcpTools first. ''
      @ describeToolArguments schema)"

text \<open>Tools are given as names with their input schemas.\<close>

definition takeHostPlanAgentNote ::
    "utf16 option \<Rightarrow> utf16 \<Rightarrow> utf16 option \<Rightarrow> (utf16 \<times> json) list \<Rightarrow> utf16 option \<Rightarrow> utf16 option \<Rightarrow> mode_state \<Rightarrow> utf16 option \<times> mode_state" where
  "takeHostPlanAgentNote key conversationId hostAgent tools hostPlanFile server st =
     (case session_key key of None \<Rightarrow> (None, st)
      | Some k \<Rightarrow>
          (if \<not> isHostPlanAgent hostAgent then (None, st\<lparr>mo_exitNotes := jm_delete k (mo_exitNotes st)\<rparr>)
           else if list_ex (\<lambda>t. fst t = lit ''cursor_plan_stage'') tools then (None, st)
           else case find (\<lambda>t. fst t = lit ''plan_exit'') tools of None \<Rightarrow> (None, st)
             | Some planExit \<Rightarrow>
                 (if jm_get (mo_exitNotes st) k = Some conversationId then (None, st)
                  else (Some (if hostPlanFile \<noteq> None \<and> hostPlanFile \<noteq> Some [] then file_note (the hostPlanFile)
                              else call_note (case server of None \<Rightarrow> lit ''opencode'' | Some n \<Rightarrow> n) (snd planExit)),
                        st\<lparr>mo_exitNotes := evict_modes MAX_ACTIVE_CURSOR_MODES (jm_touch k conversationId (mo_exitNotes st))\<rparr>))))"

section \<open>What the modes mean\<close>

text \<open>What the platform's \<open>toLowerCase\<close> has to satisfy.\<close>

definition lower_ok :: "lower_case \<Rightarrow> bool" where
  "lower_ok lower \<longleftrightarrow> (\<forall>t. lower (js_trim (lower (js_trim t))) = lower (js_trim t)) \<and> lower (lit ''plan'') = lit ''plan''
     \<and> lower (lit ''agent'') = lit ''agent'' \<and> lower [] = []"

lemma lower_ok_id: "lower_ok (\<lambda>t. t)"
  by (simp add: lower_ok_def js_trim_idem)

lemma trim_words: "js_trim (lit ''plan'') = lit ''plan''" "js_trim (lit ''agent'') = lit ''agent''"
  by code_simp+

lemma role_normalized: "lower_ok lower \<Longrightarrow> cursorModeRole lower (Some (normalizeCursorModeId lower t)) = cursorModeRole lower t"
  by (simp add: cursorModeRole_def cursorModeSpec_def normalizeCursorModeId_def lower_ok_def)

lemma role_None: "lower_ok lower \<Longrightarrow> cursorModeRole lower None = None"
  by (simp add: cursorModeRole_def cursorModeSpec_def normalizeCursorModeId_def lower_ok_def js_trim_def Let_def)

lemma role_cong: "normalizeCursorModeId lower a = normalizeCursorModeId lower b \<Longrightarrow> cursorModeRole lower a = cursorModeRole lower b"
  by (simp add: cursorModeRole_def cursorModeSpec_def)

lemma role_plan: "lower_ok lower \<Longrightarrow> cursorModeRole lower (Some (lit ''plan'')) = Some PlanRole"
proof -
  have "map_of MODES (lit ''plan'') = Some \<lparr>sp_role = PlanRole, sp_wire = 3, sp_guidance = GuidePlan\<rparr>" "lit ''plan'' \<noteq> []" by code_simp+
  then show "lower_ok lower \<Longrightarrow> ?thesis"
    by (simp add: cursorModeRole_def cursorModeSpec_def normalizeCursorModeId_def lower_ok_def trim_words Let_def)
qed

lemma map_target:
  "mapSwitchModeTarget lower target = map_option (\<lambda>r. case r of PlanRole \<Rightarrow> Some PlanEnter | ReadOnlyRole \<Rightarrow> None | ImplementRole \<Rightarrow> Some PlanExit)
     (cursorModeRole lower (Some target))"
  by (auto simp: mapSwitchModeTarget_def hostAgentForCursorMode_def isHostPlanAgent_def HOST_PLAN_AGENT_def lit_def split: option.split mode_role.split)

text \<open>While the session denies edits, or its rules could not be read, a switch that would start implementation is refused.\<close>

theorem denied_switch_starts_nothing:
  assumes "so_allowTools ops" "so_editsDenied ops \<or> so_permissionsUnavailable ops" "cursorModeRole lower (Some target) = Some ImplementRole"
  shows "resolveSwitchModeBridge lower target ops \<in> {SwitchReject PermissionsUnavailable, SwitchReject EditsDenied}"
  using assms by (auto simp: resolveSwitchModeBridge_def map_target)

section \<open>The session follows the host\<close>

definition modes_ok :: "('k list, 'v) jsmap \<Rightarrow> bool" where
  "modes_ok m \<longleftrightarrow> jm_wf m \<and> [] \<notin> fst ` set m \<and> length m \<le> MAX_ACTIVE_CURSOR_MODES"

lemma evict_modes_evict: "[] \<notin> fst ` set m \<Longrightarrow> evict_modes limit m = jm_evict limit m"
  by (induction limit m rule: evict_modes.induct) (auto simp del: list.size)

lemma set_keeps_key:
  assumes "modes_ok m" "k \<noteq> []"
  shows "jm_get (evict_modes MAX_ACTIVE_CURSOR_MODES (jm_set k a m)) k = Some a"
proof -
  have n: "[] \<notin> fst ` set (jm_set k a m)" using assms by (auto simp: modes_ok_def dom_update)
  show ?thesis
  proof (cases "jm_get m k")
    case None
    then have "jm_set k a m = m @ [(k, a)]" by (intro jm_set_fresh) (simp add: map_of_eq_None_iff)
    moreover have "MAX_ACTIVE_CURSOR_MODES > 0" by (simp add: MAX_ACTIVE_CURSOR_MODES_def)
    moreover have "jm_get (drop i m) k = None" for i
      using None in_set_dropD by (fastforce simp: map_of_eq_None_iff)
    ultimately show ?thesis using None n assms(1)
      by (simp add: evict_modes_evict jm_evict_drop modes_ok_def map_of_append map_add_def)
  next
    case (Some b)
    then show ?thesis using n assms(1) by (simp add: evict_modes_evict modes_ok_def jm_length_set_present)
  qed
qed

lemma set_modes_ok: "modes_ok m \<Longrightarrow> k \<noteq> [] \<Longrightarrow> modes_ok (evict_modes MAX_ACTIVE_CURSOR_MODES (jm_set k a m))"
proof -
  assume m: "modes_ok m" and k: "k \<noteq> []"
  have n: "[] \<notin> fst ` set (jm_set k a m)" using m k by (auto simp: modes_ok_def dom_update)
  moreover have "fst ` set (jm_evict MAX_ACTIVE_CURSOR_MODES (jm_set k a m)) \<subseteq> fst ` set (jm_set k a m)"
    by (auto simp: jm_evict_drop dest: in_set_dropD)
  ultimately show ?thesis using m by (auto simp: evict_modes_evict modes_ok_def jm_length_evict)
qed

lemma set_modes_other:
  assumes "modes_ok m" "k \<noteq> []" "j \<noteq> k" "jm_get (evict_modes MAX_ACTIVE_CURSOR_MODES (jm_set k a m)) j = Some b"
  shows "jm_get m j = Some b"
proof -
  have "[] \<notin> fst ` set (jm_set k a m)" "jm_wf (jm_set k a m)" using assms(1, 2) by (auto simp: modes_ok_def dom_update)
  then show ?thesis using assms(3, 4) by (auto simp: evict_modes_evict simp del: map_of_eq_Some_iff dest: jm_get_evict_Some)
qed

text \<open>
  What happens to the modes while the host's plan agent runs: a switch Cursor asks for, answered and recorded without a
  host tool where that is approved; a mode set for another session; a reminder taken; a further turn of the plan agent.
\<close>

datatype mode_event =
    MSwitch utf16 switch_options
  | MOther utf16 utf16 bool
  | MReminder "utf16 list option" "bool option"
  | MFollow "utf16 option"
  | MClear "utf16 option"

fun mode_step :: "lower_case \<Rightarrow> reminder_texts \<Rightarrow> utf16 \<Rightarrow> mode_state \<Rightarrow> mode_event \<Rightarrow> mode_state" where
  "mode_step lower texts k st (MSwitch target ops) =
     (case resolveSwitchModeBridge lower target (ops\<lparr>so_activeModeId := getActiveCursorMode (Some k) st, so_hostAgent := Some HOST_PLAN_AGENT\<rparr>) of
        SwitchApprove \<Rightarrow> setActiveCursorMode lower (Some k) target False st
      | _ \<Rightarrow> st)"
| "mode_step lower texts k st (MOther j target bridged) = (if j = k then st else setActiveCursorMode lower (Some j) target bridged st)"
| "mode_step lower texts k st (MReminder names denied) = snd (takeActiveCursorModeReminder lower texts (Some k) names (Some HOST_PLAN_AGENT) denied st)"
| "mode_step lower texts k st (MFollow prev) = snd (followHostPlanAgent lower (Some k) prev (Some HOST_PLAN_AGENT) st)"
| "mode_step lower texts k st (MClear key) = clearActiveCursorMode key st"

definition not_implementing :: "lower_case \<Rightarrow> utf16 \<Rightarrow> mode_state \<Rightarrow> bool" where
  "not_implementing lower k st \<longleftrightarrow> modes_ok (mo_active st) \<and> cursorModeRole lower (getActiveCursorMode (Some k) st) \<noteq> Some ImplementRole"

lemma active_key: "k \<noteq> [] \<Longrightarrow> active_of (Some k) st = jm_get (mo_active st) k"
  by (simp add: active_of_def session_key_def)

lemma set_own_mode:
  assumes "lower_ok lower" "k \<noteq> []" "not_implementing lower k st" "cursorModeRole lower (Some target) \<noteq> Some ImplementRole"
  shows "not_implementing lower k (setActiveCursorMode lower (Some k) target b st)"
  using assms set_modes_ok [of "mo_active st" k] set_keeps_key [of "mo_active st" k]
  by (auto simp: not_implementing_def setActiveCursorMode_def session_key_def Let_def getActiveCursorMode_def active_of_def role_normalized)

lemma set_other_mode:
  assumes "lower_ok lower" "k \<noteq> []" "j \<noteq> k" "not_implementing lower k st"
  shows "not_implementing lower k (setActiveCursorMode lower (Some j) target b st)"
proof (cases "j = [] \<or> normalizeCursorModeId lower (Some target) = []")
  case True
  then show ?thesis using assms(4) by (auto simp: setActiveCursorMode_def session_key_def Let_def)
next
  case False
  let ?m = "evict_modes MAX_ACTIVE_CURSOR_MODES (jm_set j \<lparr>am_modeId = normalizeCursorModeId lower (Some target), am_firstTurn = True, am_bridgedPlanEntered = b\<rparr> (mo_active st))"
  have st': "setActiveCursorMode lower (Some j) target b st = st\<lparr>mo_active := ?m\<rparr>" using False by (simp add: setActiveCursorMode_def session_key_def Let_def)
  have m: "modes_ok (mo_active st)" using assms(4) by (simp add: not_implementing_def)
  have "jm_get ?m k = None \<or> jm_get ?m k = jm_get (mo_active st) k"
  proof (cases "jm_get ?m k")
    case (Some x)
    then show ?thesis using set_modes_other [OF m, of j k] False assms(3) by metis
  qed simp
  then show ?thesis using assms False set_modes_ok [OF m, of j] role_None [OF assms(1)]
    by (auto simp: st' not_implementing_def getActiveCursorMode_def active_key simp del: map_of_eq_Some_iff)
qed

lemma approved_switch_role:
  assumes "lower_ok lower" "not_implementing lower k st"
    and "resolveSwitchModeBridge lower target (ops\<lparr>so_activeModeId := getActiveCursorMode (Some k) st, so_hostAgent := Some HOST_PLAN_AGENT\<rparr>) = SwitchApprove"
  shows "cursorModeRole lower (Some target) \<noteq> Some ImplementRole"
proof
  assume r: "cursorModeRole lower (Some target) = Some ImplementRole"
  have "isHostPlanAgent (Some HOST_PLAN_AGENT)" by (simp add: isHostPlanAgent_def)
  then have "normalizeCursorModeId lower (getActiveCursorMode (Some k) st) = normalizeCursorModeId lower (Some target)"
    using assms(3) r by (auto simp: resolveSwitchModeBridge_def map_target split: if_splits)
  from role_cong [OF this] show False using assms(2) r by (simp add: not_implementing_def)
qed

lemma clear_mode:
  assumes "lower_ok lower" "not_implementing lower k st"
  shows "not_implementing lower k (st\<lparr>mo_active := jm_delete j (mo_active st)\<rparr>)"
proof -
  have "modes_ok (jm_delete j (mo_active st))" using assms(2)
    by (auto simp: not_implementing_def modes_ok_def jm_delete_filter intro: le_trans [OF length_filter_le])
  then show ?thesis using assms role_None [OF assms(1)]
    by (cases "session_key (Some k)") (auto simp: not_implementing_def getActiveCursorMode_def active_of_def)
qed

lemma followed_mode:
  assumes "lower_ok lower" "k \<noteq> []" "modes_ok (mo_active st)"
  shows "not_implementing lower k (snd (followHostPlanAgent lower (Some k) prev (Some HOST_PLAN_AGENT) st))"
proof -
  have p: "isHostPlanAgent (Some HOST_PLAN_AGENT)" "HOST_PLAN_AGENT \<noteq> []" by (simp_all add: isHostPlanAgent_def HOST_PLAN_AGENT_def lit_def)
  consider "isBridgedCursorPlanModeActive lower (Some k) st" | "cursorModeRole lower (getActiveCursorMode (Some k) st) = Some ReadOnlyRole"
      "snd (followHostPlanAgent lower (Some k) prev (Some HOST_PLAN_AGENT) st) = st"
    | "snd (followHostPlanAgent lower (Some k) prev (Some HOST_PLAN_AGENT) st) = setActiveCursorMode lower (Some k) (lit ''plan'') True st"
    using p assms(2) by (fastforce simp: followHostPlanAgent_def session_key_def split: if_splits)
  then show ?thesis
  proof cases
    case 1
    then show ?thesis using assms p
      by (auto simp: followHostPlanAgent_def isBridgedCursorPlanModeActive_def not_implementing_def getActiveCursorMode_def session_key_def split: option.splits)
  next
    case 2
    then show ?thesis using assms by (simp add: not_implementing_def)
  next
    case 3
    have "normalizeCursorModeId lower (Some (lit ''plan'')) = lit ''plan''" "lit ''plan'' \<noteq> []"
      using assms(1) by (simp_all add: normalizeCursorModeId_def trim_words lower_ok_def) (simp add: lit_def)
    then show ?thesis using assms set_modes_ok [OF assms(3, 2)] set_keeps_key [OF assms(3, 2)] role_plan [OF assms(1)]
      by (simp add: 3 not_implementing_def setActiveCursorMode_def session_key_def getActiveCursorMode_def active_key)
  qed
qed

lemma taken_reminder_mode:
  assumes "lower_ok lower" "k \<noteq> []" "not_implementing lower k st"
  shows "not_implementing lower k (snd (takeActiveCursorModeReminder lower texts (Some k) names (Some HOST_PLAN_AGENT) denied st))"
proof (cases "jm_get (mo_active st) k")
  case None
  then show ?thesis using assms by (simp add: takeActiveCursorModeReminder_def active_key)
next
  case (Some a)
  then have "modes_ok (jm_set k (a\<lparr>am_firstTurn := False\<rparr>) (mo_active st))"
    using assms(2, 3) by (auto simp: not_implementing_def modes_ok_def dom_update jm_length_set_present)
  then show ?thesis using assms Some
    by (auto simp: takeActiveCursorModeReminder_def active_key session_key_def not_implementing_def getActiveCursorMode_def
        HOST_PLAN_AGENT_def lit_def Let_def)
qed

lemma mode_step_keeps:
  assumes "lower_ok lower" "k \<noteq> []" "not_implementing lower k st"
  shows "not_implementing lower k (mode_step lower texts k st e)"
proof (cases e)
  case (MSwitch target ops)
  then show ?thesis using assms approved_switch_role [OF assms(1, 3), of target ops] set_own_mode [OF assms, of target False]
    by (auto split: switch_bridge.split)
next
  case (MOther j target b)
  then show ?thesis using assms set_other_mode [OF assms(1, 2) _ assms(3), of j target b] by auto
next
  case (MReminder names denied)
  then show ?thesis using taken_reminder_mode [OF assms] by simp
next
  case (MFollow prev)
  then show ?thesis using followed_mode [OF assms(1, 2)] assms(3) by (simp add: not_implementing_def)
next
  case (MClear key)
  then show ?thesis using assms clear_mode [OF assms(1, 3)] by (auto simp: clearActiveCursorMode_def split: option.split)
qed

text \<open>C19: From the start of a turn under the host's plan agent, whatever switches Cursor asks for, the session's mode is never
  one that implements: only the host's own approval ends planning.
\<close>

theorem plan_agent_never_implements_unasked:
  assumes "lower_ok lower" "k \<noteq> []" "modes_ok (mo_active st)"
  shows "cursorModeRole lower (getActiveCursorMode (Some k)
     (foldl (mode_step lower texts k) (snd (followHostPlanAgent lower (Some k) prev (Some HOST_PLAN_AGENT) st)) es)) \<noteq> Some ImplementRole"
proof -
  have "not_implementing lower k st' \<Longrightarrow> not_implementing lower k (foldl (mode_step lower texts k) st' es)" for st'
    by (induction es arbitrary: st') (auto simp: mode_step_keeps [OF assms(1, 2)])
  from this [OF followed_mode [OF assms, of prev]] show ?thesis by (simp add: not_implementing_def)
qed

theorem plan_agent_never_implements_unasked_witness:
  "cursorModeRole (\<lambda>t. t) (getActiveCursorMode (Some (lit ''s''))
     (foldl (mode_step (\<lambda>t. t) (\<lambda>g f l. []) (lit ''s'')) (snd (followHostPlanAgent (\<lambda>t. t) (Some (lit ''s'')) None (Some HOST_PLAN_AGENT)
        \<lparr>mo_active = [], mo_exitNotes = []\<rparr>))
        [MSwitch (lit ''agent'') \<lparr>so_allowTools = True, so_advertised = [lit ''question''], so_activeModeId = None, so_hostAgent = None, so_editsDenied = False,
           so_permissionsUnavailable = False\<rparr>])) \<noteq> Some ImplementRole"
  by (rule plan_agent_never_implements_unasked [OF lower_ok_id]) (simp_all add: modes_ok_def lit_def)

theorem denied_switch_starts_nothing_witness:
  "resolveSwitchModeBridge (\<lambda>t. t) (lit ''agent'') \<lparr>so_allowTools = True, so_advertised = [], so_activeModeId = Some (lit ''agent''), so_hostAgent = None,
     so_editsDenied = True, so_permissionsUnavailable = False\<rparr> \<in> {SwitchReject PermissionsUnavailable, SwitchReject EditsDenied}"
  by (rule denied_switch_starts_nothing) (simp, simp, code_simp)

section \<open>A denied session is always told\<close>

lemma before_close_wrap: "before_close (wrapReminder b) = Some (reminder_open @ js_trim b)"
proof -
  have "dropWhile js_space (rev (wrapReminder b)) = rev (wrapReminder b)"
    by (simp add: wrapReminder_def reminder_close_def lit_def) (simp add: js_space_def)
  then show ?thesis by (simp add: before_close_def ends_with_def wrapReminder_def Let_def)
qed

lemma told_permission:
  assumes "r = None \<or> (\<exists>b. r = Some (wrapReminder b))"
  shows "\<exists>t. withSessionEditsDenied r (Some d) = Some t \<and> contains_text (if d then SESSION_EDITS_DENIED_REMINDER else SESSION_EDITS_ALLOWED_REMINDER) t"
proof -
  let ?p = "if d then SESSION_EDITS_DENIED_REMINDER else SESSION_EDITS_ALLOWED_REMINDER"
  have "js_trim SESSION_EDITS_DENIED_REMINDER = SESSION_EDITS_DENIED_REMINDER" "js_trim SESSION_EDITS_ALLOWED_REMINDER = SESSION_EDITS_ALLOWED_REMINDER"
    by code_simp+
  then have trim: "js_trim ?p = ?p" by simp
  have w: "contains_text ?p (wrapReminder ?p)" unfolding wrapReminder_def trim contains_text_iff by blast
  have in_mid: "contains_text ?p (a @ [nl, nl] @ ?p @ c)" for a c
    unfolding contains_text_iff by (intro exI [of _ "a @ [nl, nl]"] exI [of _ c]) simp
  from assms show ?thesis
  proof
    assume "r = None"
    then show ?thesis using w by (auto simp: withSessionEditsDenied_def Let_def)
  next
    assume "\<exists>b. r = Some (wrapReminder b)"
    then obtain b where b: "r = Some (wrapReminder b)" by blast
    have n: "wrapReminder b \<noteq> []" by (simp add: wrapReminder_def reminder_open_def)
    show ?thesis
    proof (cases "contains_text ?p (wrapReminder b)")
      case True
      then show ?thesis using n by (intro exI [of _ "wrapReminder b"]) (simp add: withSessionEditsDenied_def Let_def b)
    next
      case False
      then show ?thesis using n in_mid [of "reminder_open @ js_trim b" reminder_close]
        by (intro exI [of _ "(reminder_open @ js_trim b) @ [nl, nl] @ ?p @ reminder_close"])
          (simp add: withSessionEditsDenied_def Let_def b before_close_wrap)
    qed
  qed
qed

lemma system_reminder_wrapped: "cursorModeSystemReminder lower texts target first leave = None \<or> (\<exists>b. cursorModeSystemReminder lower texts target first leave = Some (wrapReminder b))"
  by (cases "cursorModeSpec lower (Some target)") (auto simp: cursorModeSystemReminder_def)

text \<open>Whatever mode reminder a request takes, it states the edit permission it was asked to state.\<close>

theorem taken_reminder_states_permission:
  "\<exists>t. fst (takeActiveCursorModeReminder lower texts key names hostAgent (Some d) st) = Some t
     \<and> contains_text (if d then SESSION_EDITS_DENIED_REMINDER else SESSION_EDITS_ALLOWED_REMINDER) t"
proof -
  have "\<exists>t f l. fst (takeActiveCursorModeReminder lower texts key names hostAgent (Some d) st)
      = withSessionEditsDenied (cursorModeSystemReminder lower texts t f l) (Some d)" if "active_of key st = Some a" for a
    unfolding takeActiveCursorModeReminder_def that option.case Let_def
    by (split if_split, intro conjI impI; simp only: fst_conv; intro exI; rule refl)
  then show ?thesis using told_permission [OF system_reminder_wrapped] told_permission [of None d]
    by (cases "active_of key st") (simp add: takeActiveCursorModeReminder_def, metis)
qed

end
