(* ===== verification/CreatePlan.thy ===== *)
theory CreatePlan
  imports CursorModes ApplyPatch
begin

text \<open>
  Cursor's CreatePlan on the host (\<open>src/src/protocol/create-plan.ts\<close>, \<open>buildCreatePlanContinuationFrame\<close> of
  \<open>src/src/language-model.ts\<close>): how a plan is satisfied, its file, the question that approves its execution, and the
  reply Cursor waits for. Paths and the decoder are parameters.
\<close>

section \<open>Plans\<close>

record plan_todo =
  pt_id :: utf16
  pt_content :: utf16
  pt_status :: utf16

record plan_args =
  pl_plan :: utf16
  pl_overview :: utf16
  pl_name :: utf16
  pl_isProject :: bool
  pl_todos :: "plan_todo list"

record decoded_plan =
  dp_args :: plan_args
  dp_toolCallId :: utf16

definition mapTodoStatus :: "lower_case \<Rightarrow> json \<Rightarrow> utf16" where
  "mapTodoStatus lower v =
     (case v of
        JString t \<Rightarrow> lower t
      | JNumber n \<Rightarrow> if n = 0x4000000000000000 then lit ''in_progress'' else if n = 0x4008000000000000 then lit ''completed''
          else if n = 0x4010000000000000 then lit ''cancelled'' else lit ''pending''
      | _ \<Rightarrow> lit ''pending'')"

definition todoCheckbox :: "lower_case \<Rightarrow> utf16 \<Rightarrow> utf16" where
  "todoCheckbox lower status =
     (let s = lower status in
      if s \<in> set (map lit [''completed'', ''complete'', ''done'']) then lit ''[x]''
      else if s \<in> set (map lit [''cancelled'', ''canceled'']) then lit ''[~]''
      else lit ''[ ]'')"

definition decoded_todo :: "lower_case \<Rightarrow> json \<Rightarrow> plan_todo list" where
  "decoded_todo lower raw =
     (if \<not> is_object raw \<or> ask_str (json_field raw (lit ''content'')) = [] then []
      else [\<lparr>pt_id = ask_str (json_field raw (lit ''id'')), pt_content = ask_str (json_field raw (lit ''content'')),
             pt_status = mapTodoStatus lower (json_field raw (lit ''status''))\<rparr>])"

definition decodeCreatePlanQuery :: "lower_case \<Rightarrow> (bytes \<Rightarrow> json option) \<Rightarrow> bytes \<Rightarrow> decoded_plan option" where
  "decodeCreatePlanQuery lower decode b =
     (case decode b of None \<Rightarrow> None
      | Some d \<Rightarrow>
          (let a = json_field d (lit ''args'') in
           if \<not> is_object a then None
           else let plan = ask_str (json_field a (lit ''plan'')); overview = ask_str (json_field a (lit ''overview''));
                    name = ask_str (json_field a (lit ''name''));
                    todos = (case json_array (json_field a (lit ''todos'')) of None \<Rightarrow> [] | Some vs \<Rightarrow> concat (map (decoded_todo lower) vs))
             in if plan = [] \<and> overview = [] \<and> name = [] \<and> todos = [] then None
                else Some \<lparr>dp_args = \<lparr>pl_plan = plan, pl_overview = overview, pl_name = name,
                             pl_isProject = is_true (json_field a (lit ''is_project'')), pl_todos = todos\<rparr>,
                           dp_toolCallId = ask_str (json_field d (lit ''tool_call_id''))\<rparr>))"

section \<open>How a plan is satisfied\<close>

datatype defer_reason = HostPlanPending | HostPlanWorkflow
datatype plan_bridge = StageBridge | AckBridge | ApproveBridge | HoldBridge | DeferBridge defer_reason | ExitBridge utf16

record bridge_options =
  bo_allowTools :: bool
  bo_canStage :: bool
  bo_advertised :: "utf16 list"
  bo_hostPlanEntryPending :: bool
  bo_hostAgent :: "utf16 option"
  bo_planModeActive :: bool
  bo_hostPlanFile :: "utf16 option"
  bo_editsDenied :: bool

definition resolveCreatePlanBridge :: "bridge_options \<Rightarrow> plan_bridge" where
  "resolveCreatePlanBridge ops =
     (if \<not> bo_allowTools ops then AckBridge
      else if bo_hostPlanEntryPending ops then DeferBridge HostPlanPending
      else if bo_canStage ops then StageBridge
      else if bo_editsDenied ops then HoldBridge
      else let planAgent = isHostPlanAgent (bo_hostAgent ops) in
        if planAgent \<and> lit ''plan_exit'' \<in> set (bo_advertised ops)
        then (case bo_hostPlanFile ops of None \<Rightarrow> DeferBridge HostPlanWorkflow
              | Some f \<Rightarrow> if f = [] then DeferBridge HostPlanWorkflow else ExitBridge f)
        else if (bo_planModeActive ops \<or> planAgent) \<and> lit ''question'' \<in> set (bo_advertised ops) then ApproveBridge
        else AckBridge)"

section \<open>The question that approves\<close>

definition createPlanApprovalQuestion :: "utf16 \<Rightarrow> utf16" where
  "createPlanApprovalQuestion planLabel =
     (let there = js_trim planLabel in
      if there \<noteq> [] then lit ''Plan at '' @ there @ lit '' is complete. Would you like to switch to the build agent and start implementing?''
      else lit ''The plan is complete. Would you like to switch to the build agent and start implementing?'')"

definition YES :: utf16 where "YES = lit ''Yes''"
definition NO :: utf16 where "NO = lit ''No''"

definition createPlanApprovalItem :: "utf16 \<Rightarrow> ask_item" where
  "createPlanApprovalItem question =
     \<lparr>aq_id = lit ''create_plan_approval'', aq_prompt = question,
      aq_options = [\<lparr>ao_id = lit ''yes'', ao_label = YES\<rparr>, \<lparr>ao_id = lit ''no'', ao_label = NO\<rparr>], aq_allowMultiple = False\<rparr>"

definition createPlanApprovalQuestionInput :: "utf16 \<Rightarrow> json" where
  "createPlanApprovalQuestionInput planLabel =
     JObject [(lit ''questions'', JArray [JObject
       [(lit ''question'', JString (createPlanApprovalQuestion planLabel)), (lit ''header'', JString (lit ''Build Agent'')),
        (lit ''options'', JArray
          [JObject [(lit ''label'', JString YES), (lit ''description'', JString (lit ''Switch to build agent and start implementing the plan''))],
           JObject [(lit ''label'', JString NO), (lit ''description'', JString (lit ''Stay in plan mode and end this turn without implementing''))]])]])]"

datatype approval_outcome = PlanApproved | PlanDeclined | PlanRefine utf16

text \<open>One answer text; \<open>None\<close> is a missing segment.\<close>

definition classify_answer :: "ask_env \<Rightarrow> utf16 option \<Rightarrow> approval_outcome" where
  "classify_answer env segment =
     (let answer = js_trim (case segment of None \<Rightarrow> [] | Some s \<Rightarrow> s); l = ae_lower env answer in
      if answer = [] \<or> answer = UNANSWERED then PlanDeclined
      else if l = ae_lower env YES then PlanApproved
      else if l = ae_lower env NO then PlanDeclined
      else if l = lit ''other'' then PlanDeclined
      else PlanRefine answer)"

definition createPlanApprovalOutcome :: "ask_env \<Rightarrow> utf16 \<Rightarrow> bool \<Rightarrow> utf16 \<Rightarrow> approval_outcome" where
  "createPlanApprovalOutcome env out isError question =
     (if isError then PlanDeclined
      else classify_answer env (hd (parseAnswerSegments env [createPlanApprovalItem question] out True)))"

definition createPlanApproved :: "ask_env \<Rightarrow> utf16 \<Rightarrow> bool \<Rightarrow> utf16 \<Rightarrow> bool" where
  "createPlanApproved env out isError question \<longleftrightarrow> createPlanApprovalOutcome env out isError question = PlanApproved"

section \<open>The reply to a reviewed plan\<close>

definition SESSION_PERMISSIONS_UNAVAILABLE_REASON :: utf16 where
  "SESSION_PERMISSIONS_UNAVAILABLE_REASON =
     lit ''OpenCode session permissions could not be read, so plan execution cannot be approved. ''
     @ lit ''End this turn without implementing or writing files through the shell. Retry on a new user message.''"

definition CREATE_PLAN_NOT_APPROVED_REASON :: utf16 where
  "CREATE_PLAN_NOT_APPROVED_REASON =
     lit ''The user did not approve executing this plan. End this turn without further tool calls. ''
     @ lit ''Stay in plan mode and wait for the user'' @ [39] @ lit ''s next message before refining or proposing it again.''"

definition createPlanRefineReason :: "utf16 \<Rightarrow> utf16" where
  "createPlanRefineReason feedback =
     lit ''The user did not approve executing this plan and asked for these changes:'' @ [nl] @ js_trim feedback @ [nl]
     @ lit ''Stay in plan mode and revise the plan accordingly. Do not start implementing yet.''"

definition createPlanSessionEditsDeniedReason :: "utf16 \<Rightarrow> utf16" where
  "createPlanSessionEditsDeniedReason planPath =
     lit ''The plan is saved at '' @ (if js_trim planPath \<noteq> [] then js_trim planPath else lit ''the saved plan'')
     @ lit ''. Execution remains blocked by the session'' @ [39] @ lit ''s edit rule. ''
     @ lit ''Do not implement, and do not write files through the shell. End this turn. ''
     @ lit ''The user changes that rule in the client.''"

datatype plan_reply = PlanError utf16 | PlanSuccess utf16

record plan_continuation =
  pc_interactionId :: "64 word"
  pc_reply :: plan_reply
  pc_approved :: bool
  pc_emulated :: bool
  pc_endTurn :: bool

datatype lost_plan = LostInteractionId | LostPlanUri

text \<open>\<open>metadata\<close> is the pending call's result metadata, \<open>out\<close> and \<open>err\<close> the host tool's result.\<close>

definition emulated_outcome :: "ask_env \<Rightarrow> json \<Rightarrow> utf16 \<Rightarrow> utf16 option \<Rightarrow> approval_outcome option" where
  "emulated_outcome env metadata out err =
     (if json_field metadata (lit ''createPlanBridgeKind'') = JString (lit ''approve'')
      then Some (createPlanApprovalOutcome env out (err \<noteq> None) (ask_str (json_field metadata (lit ''createPlanQuestion''))))
      else None)"

definition review_approved :: "ask_env \<Rightarrow> json \<Rightarrow> utf16 \<Rightarrow> utf16 option \<Rightarrow> utf16 option \<Rightarrow> bool" where
  "review_approved env metadata out err deliveryHostAgent =
     (case emulated_outcome env metadata out err of Some e \<Rightarrow> e = PlanApproved
      | None \<Rightarrow>
          (if json_field metadata (lit ''createPlanBridgeKind'') = JString (lit ''exit'')
           then err = None \<and> deliveryHostAgent \<noteq> None \<and> deliveryHostAgent \<noteq> Some [] \<and> \<not> isHostPlanAgent deliveryHostAgent
           else err = None))"

definition not_approved_reason :: "ask_env \<Rightarrow> json \<Rightarrow> utf16 \<Rightarrow> utf16 option \<Rightarrow> utf16" where
  "not_approved_reason env metadata out err =
     (case emulated_outcome env metadata out err of Some (PlanRefine feedback) \<Rightarrow> createPlanRefineReason feedback
      | _ \<Rightarrow>
          (let e = js_trim (case err of None \<Rightarrow> [] | Some t \<Rightarrow> t);
               own = (if json_field metadata (lit ''createPlanBridgeKind'') = JString (lit ''exit'') then js_trim out else [])
           in if e \<noteq> [] then e else if own \<noteq> [] then own else CREATE_PLAN_NOT_APPROVED_REASON))"

definition buildCreatePlanContinuationFrame ::
    "ask_env \<Rightarrow> json \<Rightarrow> utf16 \<Rightarrow> utf16 option \<Rightarrow> utf16 option \<Rightarrow> bool \<Rightarrow> bool \<Rightarrow> lost_plan + plan_continuation" where
  "buildCreatePlanContinuationFrame env metadata out err deliveryHostAgent editsDenied permissionsUnavailable =
     (case json_field metadata (lit ''interactionId'') of
        JNumber i \<Rightarrow>
          (let uri = ask_str (json_field metadata (lit ''planUri''));
               approved = review_approved env metadata out err deliveryHostAgent;
               emulated = (emulated_outcome env metadata out err \<noteq> None);
               refines = (\<exists>f. emulated_outcome env metadata out err = Some (PlanRefine f))
           in if js_trim uri = [] then Inl LostPlanUri
              else if permissionsUnavailable \<or> approved \<and> editsDenied
              then Inr \<lparr>pc_interactionId = i,
                     pc_reply = PlanError (if permissionsUnavailable then SESSION_PERMISSIONS_UNAVAILABLE_REASON
                       else createPlanSessionEditsDeniedReason (js_trim (ask_str (json_field metadata (lit ''planPath''))))),
                     pc_approved = False, pc_emulated = emulated, pc_endTurn = True\<rparr>
              else if \<not> approved
              then Inr \<lparr>pc_interactionId = i, pc_reply = PlanError (not_approved_reason env metadata out err),
                     pc_approved = False, pc_emulated = emulated, pc_endTurn = \<not> refines\<rparr>
              else Inr \<lparr>pc_interactionId = i, pc_reply = PlanSuccess uri, pc_approved = True, pc_emulated = emulated, pc_endTurn = False\<rparr>)
      | _ \<Rightarrow> Inl LostInteractionId)"

section \<open>The plan file\<close>

definition PLAN_ADJECTIVES :: "string list" where
  "PLAN_ADJECTIVES =
    [''brave'', ''calm'', ''clever'', ''cosmic'', ''crisp'', ''curious'', ''eager'', ''gentle'', ''glowing'', ''happy'', ''hidden'',
     ''jolly'', ''kind'', ''lucky'', ''mighty'', ''misty'', ''neon'', ''nimble'', ''playful'', ''proud'', ''quick'', ''quiet'',
     ''shiny'', ''silent'', ''stellar'', ''sunny'', ''swift'', ''tidy'', ''witty'']"

definition PLAN_NOUNS :: "string list" where
  "PLAN_NOUNS =
    [''cabin'', ''cactus'', ''canyon'', ''circuit'', ''comet'', ''eagle'', ''engine'', ''falcon'', ''forest'', ''garden'', ''harbor'',
     ''island'', ''knight'', ''lagoon'', ''meadow'', ''moon'', ''mountain'', ''nebula'', ''orchid'', ''otter'', ''panda'', ''pixel'',
     ''planet'', ''river'', ''rocket'', ''sailor'', ''squid'', ''star'', ''tiger'', ''wizard'', ''wolf'']"

definition randomPlanSlug :: "nat \<Rightarrow> utf16" where
  "randomPlanSlug seed =
     lit (PLAN_ADJECTIVES ! (seed mod length PLAN_ADJECTIVES)) @ lit ''-''
     @ lit (PLAN_NOUNS ! (seed div length PLAN_ADJECTIVES mod length PLAN_NOUNS))"

text \<open>\<open>replace(/[^a-z0-9]+/g, "-")\<close>: each run of other code units becomes one dash.\<close>

definition slug_unit :: "16 word \<Rightarrow> bool" where
  "slug_unit c \<longleftrightarrow> 97 \<le> c \<and> c \<le> 122 \<or> 48 \<le> c \<and> c \<le> 57"

fun dashes :: "bool \<Rightarrow> utf16 \<Rightarrow> utf16" where
  "dashes inside [] = []"
| "dashes inside (c # cs) = (if slug_unit c then c # dashes False cs else if inside then dashes True cs else 45 # dashes True cs)"

text \<open>\<open>replace(/^-+|-+$/g, "")\<close>\<close>

definition strip_dashes :: "utf16 \<Rightarrow> utf16" where
  "strip_dashes s = rev (dropWhile (\<lambda>c. c = 45) (rev (dropWhile (\<lambda>c. c = 45) s)))"

definition slugifyPlanName :: "lower_case \<Rightarrow> nat \<Rightarrow> utf16 \<Rightarrow> utf16" where
  "slugifyPlanName lower now name =
     (let slug = take 64 (strip_dashes (dashes False (lower (js_trim name)))) in
      if slug \<noteq> [] then slug else randomPlanSlug now)"

record plan_paths =
  pp_join :: "utf16 \<Rightarrow> utf16 \<Rightarrow> utf16"
  pp_file_url :: "utf16 \<Rightarrow> utf16"
  pp_plans_dir :: "utf16 \<Rightarrow> utf16"

definition resolveHostPlanPath :: "lower_case \<Rightarrow> plan_paths \<Rightarrow> nat \<Rightarrow> utf16 \<Rightarrow> utf16 option \<Rightarrow> nat \<Rightarrow> utf16" where
  "resolveHostPlanPath lower paths now workspaceRoot name created =
     (let slug = (case name of None \<Rightarrow> randomPlanSlug created
                  | Some n \<Rightarrow> if js_trim n \<noteq> [] then slugifyPlanName lower now n else randomPlanSlug created)
      in pp_join paths (pp_plans_dir paths workspaceRoot) (decimal created @ lit ''-'' @ slug @ lit ''.md''))"

section \<open>Its Markdown\<close>

definition trim_start :: "utf16 \<Rightarrow> utf16" where "trim_start s = dropWhile js_space s"
definition trim_end :: "utf16 \<Rightarrow> utf16" where "trim_end s = rev (dropWhile js_space (rev s))"

definition line_end :: "16 word \<Rightarrow> bool" where
  "line_end c \<longleftrightarrow> c \<in> {10, 13, 0x2028, 0x2029}"

text \<open>
  \<open>/^#\s+(.+?)\s*$/\<close> on a line: the blanks behind the hash are taken greedily and the group lazily, so the group is
  the rest without its trailing blanks; on a line of blanks the blanks are given back up to one the dot matches.
\<close>

definition plan_lead_heading :: "utf16 \<Rightarrow> utf16 option" where
  "plan_lead_heading line =
     (case line of
        c # rest \<Rightarrow>
          (let blanks = takeWhile js_space rest; title = trim_end (trim_start rest) in
           if c \<noteq> 35 \<or> blanks = [] then None
           else if title \<noteq> [] then (if list_ex line_end title then None else Some title)
           else (case filter (\<lambda>b. \<not> line_end b) (tl blanks) of [] \<Rightarrow> None | bs \<Rightarrow> Some [last bs]))
      | [] \<Rightarrow> None)"

text \<open>\<open>replace(/\n{3,}/g, "\n\n")\<close>\<close>

fun collapse_blank_lines :: "nat \<Rightarrow> utf16 \<Rightarrow> utf16" where
  "collapse_blank_lines n [] = replicate (min n 2) nl"
| "collapse_blank_lines n (c # cs) =
     (if c = nl then collapse_blank_lines (n + 1) cs else replicate (min n 2) nl @ c # collapse_blank_lines 0 cs)"

definition plan_body :: "lower_case \<Rightarrow> plan_args \<Rightarrow> utf16" where
  "plan_body lower a =
     (let name = js_trim (pl_name a); plan = js_trim (pl_plan a) in
      case plan_lead_heading (hd (split_nl plan)) of
        None \<Rightarrow> plan
      | Some h \<Rightarrow>
          if name \<noteq> [] \<and> lower (js_trim h) = lower name
          then trim_start (drop (case indexOf plan [nl] 0 of None \<Rightarrow> 0 | Some i \<Rightarrow> i + 1) plan)
          else plan)"

definition plan_parts :: "lower_case \<Rightarrow> plan_args \<Rightarrow> utf16 list" where
  "plan_parts lower a =
     (let name = js_trim (pl_name a); overview = js_trim (pl_overview a); body = plan_body lower a;
          p1 = (if name \<noteq> [] then [lit ''# '' @ name, []] else []);
          p2 = (if overview \<noteq> [] \<and> (body = [] \<or> \<not> starts_with overview body) then p1 @ [overview, []] else p1);
          p3 = (if body \<noteq> [] then p2 @ body # (if ends_with [nl] body then [] else [[]]) else p2)
      in if pl_todos a = [] then p3
         else (if p3 \<noteq> [] \<and> last p3 \<noteq> [] then p3 @ [[]] else p3) @ [lit ''## Todos'', []]
           @ map (\<lambda>t. lit ''- '' @ todoCheckbox lower (pt_status t) @ lit '' '' @ pt_content t) (pl_todos a) @ [[]])"

definition renderOpencodePlanMarkdown :: "lower_case \<Rightarrow> plan_args \<Rightarrow> utf16" where
  "renderOpencodePlanMarkdown lower a =
     (let body = trim_end (collapse_blank_lines 0 (join_nl (plan_parts lower a))) in if body \<noteq> [] then body @ [nl] else [])"

record stage_input =
  si_plan_uri :: utf16
  si_content :: utf16
  si_title :: utf16

definition createPlanStageInput :: "lower_case \<Rightarrow> nat \<Rightarrow> plan_args \<Rightarrow> stage_input" where
  "createPlanStageInput lower now a =
     (let slug = slugifyPlanName lower now (pl_name a) in
      \<lparr>si_plan_uri = lit ''local://'' @ slug @ lit ''-plan.md'', si_content = renderOpencodePlanMarkdown lower a, si_title = slug\<rparr>)"

record prepared_plan =
  pp_planPath :: utf16
  pp_planUri :: utf16
  pp_markdown :: utf16

definition NO_PLAN_CONTENT :: utf16 where "NO_PLAN_CONTENT = lit ''CreatePlan produced no plan content to write''"

definition prepareCreatePlanFile :: "lower_case \<Rightarrow> plan_paths \<Rightarrow> nat \<Rightarrow> plan_args \<Rightarrow> utf16 \<Rightarrow> nat \<Rightarrow> utf16 option \<Rightarrow> utf16 + prepared_plan" where
  "prepareCreatePlanFile lower paths now a workspaceRoot created target =
     (let markdown = renderOpencodePlanMarkdown lower a in
      if js_trim markdown = [] then Inl NO_PLAN_CONTENT
      else let planPath = (case target of None \<Rightarrow> resolveHostPlanPath lower paths now workspaceRoot (Some (pl_name a)) created | Some t \<Rightarrow> t)
        in Inr \<lparr>pp_planPath = planPath, pp_planUri = pp_file_url paths planPath, pp_markdown = markdown\<rparr>)"

datatype persistence_route = WriteRoute file_path_key | PatchRoute host_patch_tool | UnsupportedRoute

text \<open>\<open>hostPatchTool\<close> on the advertised names.\<close>

definition patch_tool_of :: "utf16 list \<Rightarrow> host_patch_tool option" where
  "patch_tool_of names =
     (if lit (tool_name APPLY_PATCH_TOOL) \<in> set names then Some APPLY_PATCH_TOOL
      else if lit (tool_name PATCH_TOOL) \<in> set names then Some PATCH_TOOL else None)"

definition resolvePlanPersistence :: "utf16 list \<Rightarrow> file_path_key \<Rightarrow> persistence_route" where
  "resolvePlanPersistence names key =
     (if lit ''write'' \<in> set names then WriteRoute key
      else case patch_tool_of names of None \<Rightarrow> UnsupportedRoute | Some t \<Rightarrow> PatchRoute t)"

datatype persistence_error = NoFileTool | NotAPatch patch_error

text \<open>The host call as the tool's name and arguments; an error is named, its text is the exception's message.\<close>

definition buildPlanPersistenceCall :: "persistence_route \<Rightarrow> utf16 \<Rightarrow> utf16 \<Rightarrow> persistence_error + utf16 \<times> (utf16 \<times> json) list" where
  "buildPlanPersistenceCall route planPath markdown =
     (case route of
        WriteRoute key \<Rightarrow> Inr (lit ''write'', [(path_key_name key, JString planPath), (lit ''content'', JString markdown)])
      | PatchRoute t \<Rightarrow>
          (case buildAddFilePatch planPath markdown t of Inl e \<Rightarrow> Inl (NotAPatch e)
           | Inr p \<Rightarrow> Inr (lit (tool_name t), [(lit ''patchText'', JString p)]))
      | UnsupportedRoute \<Rightarrow> Inl NoFileTool)"

definition renderPlanReviewMessage :: "utf16 \<Rightarrow> utf16 \<Rightarrow> utf16" where
  "renderPlanReviewMessage markdown planPath =
     (let body = js_trim markdown; saved = lit ''_Plan saved to '' @ planPath @ lit ''_'' in
      if body \<noteq> [] then body @ [nl, nl] @ saved @ [nl] else saved @ [nl])"

section \<open>Only a yes starts the work\<close>

text \<open>The host reports the answer \<open>v\<close> to the approval question, in prose or as JSON.\<close>

definition host_reports :: "ask_env \<Rightarrow> utf16 \<Rightarrow> utf16 \<Rightarrow> utf16 \<Rightarrow> bool" where
  "host_reports env question v out \<longleftrightarrow>
     out = host_prose HOST_INTRO [(createPlanApprovalItem question, v)] HOST_OUTRO
     \<or> structured (js_trim out)
       \<and> ae_parse env (js_trim out) = Some (JObject [(lit ''answers'', JArray [JArray [JString v]])])"

definition says_yes :: "ask_env \<Rightarrow> utf16 \<Rightarrow> bool" where
  "says_yes env v \<longleftrightarrow> js_trim v \<noteq> [] \<and> js_trim v \<noteq> UNANSWERED \<and> ae_lower env (js_trim v) = ae_lower env YES"

lemma classify_yes: "classify_answer env s = PlanApproved \<longleftrightarrow> (case s of None \<Rightarrow> False | Some v \<Rightarrow> says_yes env v)"
  by (cases s) (auto simp: classify_answer_def says_yes_def Let_def js_trim_def)

lemma question_words:
  "34 \<notin> set (lit ''Plan at '')" "34 \<notin> set (lit '' is complete. Would you like to switch to the build agent and start implementing?'')"
  "34 \<notin> set (lit ''The plan is complete. Would you like to switch to the build agent and start implementing?'')"
  "length (lit ''Plan at '') = 8" "length (lit ''The plan is complete. Would you like to switch to the build agent and start implementing?'') \<noteq> 1"
  by (simp_all add: lit_def)

lemma set_js_trim: "set (js_trim s) \<subseteq> set s"
  by (auto simp: js_trim_def dest!: set_dropWhileD)

lemma question_plain:
  assumes "34 \<notin> set label"
  shows "plain_prompt (createPlanApprovalItem (createPlanApprovalQuestion label))"
proof -
  let ?p = "createPlanApprovalQuestion label"
  have "34 \<notin> set ?p" using assms set_js_trim [of label] question_words(1 - 3)
    by (auto simp: createPlanApprovalQuestion_def Let_def)
  moreover have "length ?p \<noteq> 1" using question_words(4, 5) by (simp add: createPlanApprovalQuestion_def Let_def)
  ultimately show ?thesis by (auto simp: plain_prompt_def createPlanApprovalItem_def)
qed

lemma reported_segment:
  assumes "34 \<notin> set label" "host_reports env (createPlanApprovalQuestion label) v out"
  shows "classify_answer env (hd (parseAnswerSegments env [createPlanApprovalItem (createPlanApprovalQuestion label)] out True))
    = classify_answer env (Some v)"
proof (cases "out = host_prose HOST_INTRO [(createPlanApprovalItem (createPlanApprovalQuestion label), v)] HOST_OUTRO")
  case True
  then show ?thesis
    using prose_answers [of "[(createPlanApprovalItem (createPlanApprovalQuestion label), v)]" env True] question_plain [OF assms(1)] by simp
next
  case False
  then have j: "structured (js_trim out)" "ae_parse env (js_trim out) = Some (JObject [(lit ''answers'', JArray [JArray [JString v]])])"
    using assms(2) by (simp_all add: host_reports_def)
  have e: "classify_answer env None = classify_answer env (Some [])" by (simp add: classify_answer_def)
  show ?thesis using e by (auto simp: parseAnswerSegments_def parseJsonAnswerSegments_def j ask_str_def)
qed

text \<open>C18: An approval asked through the host's question lets Cursor execute the plan exactly when the host reports a yes
  without an error while the session's permissions are known and let it edit; then and only then the reply is the
  plan's success.
\<close>

theorem execution_needs_an_explicit_yes:
  assumes "json_field m (lit ''createPlanBridgeKind'') = JString (lit ''approve'')"
    and "json_field m (lit ''createPlanQuestion'') = JString (createPlanApprovalQuestion label)" "34 \<notin> set label"
    and "json_field m (lit ''interactionId'') = JNumber i"
    and "json_field m (lit ''planUri'') = JString uri" "js_trim uri \<noteq> []"
    and "host_reports env (createPlanApprovalQuestion label) v out"
  shows "\<exists>c. buildCreatePlanContinuationFrame env m out err agent editsDenied unavailable = Inr c
    \<and> pc_interactionId c = i
    \<and> (pc_approved c \<longleftrightarrow> err = None \<and> says_yes env v \<and> \<not> editsDenied \<and> \<not> unavailable)
    \<and> (pc_approved c \<longleftrightarrow> pc_reply c = PlanSuccess uri)"
proof -
  let ?e = "createPlanApprovalOutcome env out (err \<noteq> None) (createPlanApprovalQuestion label)"
  have e: "emulated_outcome env m out err = Some ?e"
    using assms(1, 2) by (simp add: emulated_outcome_def ask_str_def)
  have "?e = PlanApproved \<longleftrightarrow> err = None \<and> says_yes env v"
    using reported_segment [OF assms(3, 7)] by (auto simp: createPlanApprovalOutcome_def classify_yes)
  then have r: "review_approved env m out err agent \<longleftrightarrow> err = None \<and> says_yes env v"
    by (simp add: review_approved_def e)
  show ?thesis
    using assms(4, 5, 6) by (auto simp: buildCreatePlanContinuationFrame_def Let_def ask_str_def r)
qed

text \<open>Structured output approves only as one row of one text.\<close>

theorem structured_approval_is_one_choice:
  assumes "structured (js_trim out)" "createPlanApproved env out isError question"
  shows "\<exists>p t. ae_parse env (js_trim out) = Some p
    \<and> or_else (json_array p) (json_array (json_field p (lit ''answers''))) = Some [JArray [JString t]]
    \<and> \<not> isError \<and> says_yes env t"
proof -
  let ?q = "createPlanApprovalItem question"
  have err: "\<not> isError" and ok: "classify_answer env (hd (parseAnswerSegments env [?q] out True)) = PlanApproved"
    using assms(2) by (auto simp: createPlanApproved_def createPlanApprovalOutcome_def split: if_splits)
  obtain t where t: "hd (parseAnswerSegments env [?q] out True) = Some t" "says_yes env t"
    using ok by (auto simp: classify_yes split: option.splits)
  then obtain p cells where p: "ae_parse env (js_trim out) = Some p"
      "or_else (json_array p) (json_array (json_field p (lit ''answers''))) = Some cells"
      "length cells = 1" "list_all single_choice_cell cells" "cellText env (cells ! 0) = Some t"
    using assms(1) by (auto simp: parseAnswerSegments_def parseJsonAnswerSegments_def Let_def split: option.splits if_splits)
  then obtain x where "cells = [JArray [JString x]]"
    by (cases cells; cases "cells ! 0" rule: single_choice_cell.cases) auto
  then show ?thesis using p t err by (auto simp: Let_def ask_str_def split: if_splits)
qed

section \<open>The plan's file\<close>

definition file_units :: "16 word set" where "file_units = {c. slug_unit c \<or> c = 45}"

lemma dashes_units: "set (dashes b s) \<subseteq> file_units"
  by (induction b s rule: dashes.induct) (auto simp: file_units_def)

lemma strip_units: "set (strip_dashes s) \<subseteq> set s"
  by (auto simp: strip_dashes_def dest!: set_dropWhileD)

lemma rev_dropWhile_hd: "rev (dropWhile P (rev s)) \<noteq> [] \<Longrightarrow> hd (rev (dropWhile P (rev s))) = hd s"
  by (cases s) (auto simp: dropWhile_append split: if_splits)

lemma strip_hd:
  assumes "strip_dashes s \<noteq> []"
  shows "hd (strip_dashes s) \<noteq> 45"
proof -
  have "hd (strip_dashes s) = hd (dropWhile (\<lambda>c. c = 45) s)"
    using assms unfolding strip_dashes_def by (rule rev_dropWhile_hd)
  moreover have "dropWhile (\<lambda>c. c = 45) s \<noteq> []" using assms unfolding strip_dashes_def by (metis dropWhile.simps(1) rev.simps(1))
  ultimately show ?thesis using hd_dropWhile [of "\<lambda>c. c = 45" s] by simp
qed

definition word_ok :: "string \<Rightarrow> bool" where
  "word_ok w \<longleftrightarrow> w \<noteq> [] \<and> length w \<le> 8 \<and> list_all slug_unit (lit w)"

lemma words_ok: "list_all word_ok PLAN_ADJECTIVES" "list_all word_ok PLAN_NOUNS"
  by code_simp+

lemma random_slug_safe:
  "randomPlanSlug n \<noteq> [] \<and> length (randomPlanSlug n) \<le> 64 \<and> hd (randomPlanSlug n) \<noteq> 45 \<and> set (randomPlanSlug n) \<subseteq> file_units"
proof -
  obtain a b where r: "randomPlanSlug n = lit a @ lit ''-'' @ lit b" and w: "word_ok a" "word_ok b"
    using words_ok unfolding randomPlanSlug_def list_all_length by (metis length_greater_0_conv mod_less_divisor PLAN_ADJECTIVES_def PLAN_NOUNS_def list.distinct(1))
  have "length (lit x) = length x" for x by (simp add: lit_def)
  moreover obtain c cs where "lit a = c # cs" using w(1) by (cases a) (auto simp: word_ok_def lit_def)
  moreover have "\<not> slug_unit 45" by (simp add: slug_unit_def)
  moreover have "lit ''-'' = [45]" by (simp add: lit_def)
  moreover have "length (lit a) + length (lit b) \<le> 16" using w calculation(1) by (simp add: word_ok_def)
  ultimately show ?thesis using w unfolding r by (auto simp del: length_map simp: word_ok_def list_all_iff file_units_def)
qed

text \<open>Whatever the plan is called, its file name is lower-case letters, digits and dashes, at most 64, starting with none of the dashes.\<close>

theorem plan_file_name_is_safe:
  "slugifyPlanName lower now name \<noteq> [] \<and> length (slugifyPlanName lower now name) \<le> 64
   \<and> hd (slugifyPlanName lower now name) \<noteq> 45 \<and> set (slugifyPlanName lower now name) \<subseteq> file_units"
proof -
  let ?s = "strip_dashes (dashes False (lower (js_trim name)))"
  show ?thesis
  proof (cases "?s = []")
    case True
    then show ?thesis using random_slug_safe [of now] by (simp add: slugifyPlanName_def)
  next
    case False
    moreover have "set (take 64 ?s) \<subseteq> file_units" using strip_units dashes_units set_take_subset by fast
    ultimately show ?thesis using strip_hd [OF False] by (simp add: slugifyPlanName_def Let_def hd_take)
  qed
qed

section \<open>The saved plan\<close>

lemma rendered_ends: "renderOpencodePlanMarkdown lower a = [] \<or> ends_with [nl] (renderOpencodePlanMarkdown lower a)"
  by (auto simp: renderOpencodePlanMarkdown_def Let_def ends_nl)

text \<open>The file the host makes of an Add File patch: the lines between the header and the end, without their marks.\<close>

definition added_file :: "utf16 \<Rightarrow> utf16" where
  "added_file p = host_text (map tl (butlast (drop 2 (split_nl p))))"

text \<open>C38: Where the host saves by patch, the file it makes is the plan's markdown at the plan's path; a plan is refused only
  for its path, for carriage returns the tool would drop, or for a doubled byte order mark.
\<close>

theorem saved_plan_is_its_markdown:
  "case buildPlanPersistenceCall (PatchRoute t) path (renderOpencodePlanMarkdown lower a) of
     Inr (tool, call) \<Rightarrow> tool = lit (tool_name t) \<and>
       (\<exists>p. call = [(lit ''patchText'', JString p)] \<and> added_file p = renderOpencodePlanMarkdown lower a
         \<and> split_nl p ! 1 = lit ''*** Add File: '' @ path)
   | Inl e \<Rightarrow> e \<in> NotAPatch ` {BadPath, StripsCarriageReturns, RepeatedBom}"
proof (cases "buildAddFilePatch path (renderOpencodePlanMarkdown lower a) t")
  case (Inl e)
  then show ?thesis using rendered_ends [of lower a]
    by (auto simp: buildPlanPersistenceCall_def buildAddFilePatch_def assertPatchPath_def assertPatchText_def
        split: option.splits if_splits)
next
  case (Inr p)
  let ?md = "renderOpencodePlanMarkdown lower a"
  let ?ls = "[BEGIN_PATCH, lit ''*** Add File: '' @ path] @ map (\<lambda>l. lit ''+'' @ l) (split_nl ?md) @ [END_PATCH]"
  have "split_nl p = ?ls" using add_patch_lines [OF Inr] split_join [of ?ls] by simp
  moreover have "map (tl \<circ> (\<lambda>l. lit ''+'' @ l)) ls = ls" for ls by (simp add: lit_def comp_def)
  ultimately have "added_file p = host_text (split_nl ?md)" by (simp add: added_file_def butlast_append)
  then show ?thesis
    using Inr host_text_split [OF rendered_ends] \<open>split_nl p = ?ls\<close> by (simp add: buildPlanPersistenceCall_def)
qed

text \<open>A plan that is only its heading keeps it, so the document opens with the same heading twice.\<close>

lemma lone_heading_is_doubled:
  "renderOpencodePlanMarkdown (\<lambda>t. t)
     \<lparr>pl_plan = lit ''# Fix'', pl_overview = [], pl_name = lit ''Fix'', pl_isProject = False, pl_todos = []\<rparr>
   = lit ''# Fix'' @ [nl, nl] @ lit ''# Fix'' @ [nl]"
  by code_simp

definition approved_env :: ask_env where
  "approved_env = \<lparr>ae_lower = (\<lambda>t. if t = lit ''Yes'' then lit ''yes'' else t),
     ae_parse = (\<lambda>t. Some (JObject [(lit ''answers'', JArray [JArray [JString (lit ''yes'')]])])), ae_number = (\<lambda>n. [])\<rparr>"

definition approval_metadata :: json where
  "approval_metadata = JObject [(lit ''createPlanBridgeKind'', JString (lit ''approve'')),
     (lit ''createPlanQuestion'', JString (createPlanApprovalQuestion (lit ''p.md''))),
     (lit ''interactionId'', JNumber 7), (lit ''planUri'', JString (lit ''file:///p.md''))]"

theorem execution_needs_an_explicit_yes_witness:
  "\<exists>c. buildCreatePlanContinuationFrame approved_env approval_metadata
       (host_prose HOST_INTRO [(createPlanApprovalItem (createPlanApprovalQuestion (lit ''p.md'')), lit ''Yes'')] HOST_OUTRO) None None False False = Inr c
    \<and> pc_interactionId c = 7
    \<and> (pc_approved c \<longleftrightarrow> None = (None :: utf16 option) \<and> says_yes approved_env (lit ''Yes'') \<and> \<not> False \<and> \<not> False)
    \<and> (pc_approved c \<longleftrightarrow> pc_reply c = PlanSuccess (lit ''file:///p.md''))"
  by (rule execution_needs_an_explicit_yes [where label = "lit ''p.md''"]) (code_simp | simp add: host_reports_def)+

theorem structured_approval_is_one_choice_witness:
  "\<exists>p t. ae_parse approved_env (js_trim (lit ''{}'')) = Some p
    \<and> or_else (json_array p) (json_array (json_field p (lit ''answers''))) = Some [JArray [JString t]]
    \<and> \<not> False \<and> says_yes approved_env t"
  by (rule structured_approval_is_one_choice [where question = "lit ''q''"]) code_simp+

end
