(* ===== verification/Interactions.thy ===== *)
theory Interactions
  imports CreatePlan PlanReceipts Wire
begin

text \<open>
  The queries Cursor's Run blocks on (\<open>src/src/protocol/interactions.ts\<close>, \<open>decodeGenerateImageQuery\<close> of
  \<open>src/src/protocol/generate-image.ts\<close>): which query the wire holds, and how each is answered, refused or handed
  to the host. A refusal is named by its cause, a reply by the message it encodes; the schema decoders, the
  workspace's paths and the clock are parameters.
\<close>

section \<open>The query on the wire\<close>

definition variantNames :: "(32 word \<times> string) list" where
  "variantNames =
     [(2, ''web_search_request_query''), (3, ''ask_question_interaction_query''), (4, ''switch_mode_request_query''),
      (7, ''create_plan_request_query''), (8, ''setup_vm_environment_args''), (9, ''web_fetch_request_query''),
      (10, ''pr_management_request_query''), (11, ''mcp_auth_request_query''), (12, ''generate_image_request_query''),
      (13, ''replace_env_args''), (14, ''connect_scm_request_query'')]"

record wire_info =
  wi_id :: "32 word option"
  wi_variantField :: "32 word option"
  wi_variantName :: "string option"
  wi_variantBytes :: "bytes option"

definition no_info :: wire_info where
  "no_info = \<lparr>wi_id = None, wi_variantField = None, wi_variantName = None, wi_variantBytes = None\<rparr>"

fun scan_query :: "raw_field list \<Rightarrow> 32 word \<Rightarrow> (32 word \<times> bytes option) option \<Rightarrow> 32 word \<times> (32 word \<times> bytes option) option" where
  "scan_query [] i variant = (i, variant)"
| "scan_query (f # fs) i variant =
     (if rf_fn f = 1 \<and> rf_wt f = 0 then scan_query fs (rf_varint f) variant
      else if rf_wt f = 2 \<and> variant = None then scan_query fs i (Some (rf_fn f, rf_bytes f))
      else scan_query fs i variant)"

definition inspectInteractionQueryWire :: "bytes \<Rightarrow> wire_info" where
  "inspectInteractionQueryWire payload =
     (case find (\<lambda>f. rf_fn f = 7 \<and> rf_wt f = 2) (readAllFields payload) of
        None \<Rightarrow> no_info
      | Some q \<Rightarrow>
          (case rf_bytes q of None \<Rightarrow> no_info
           | Some query \<Rightarrow>
               (let (i, variant) = scan_query (readAllFields query) 0 None in
                \<lparr>wi_id = Some i, wi_variantField = map_option fst variant,
                 wi_variantName = (case variant of None \<Rightarrow> None | Some v \<Rightarrow> map_of variantNames (fst v)),
                 wi_variantBytes = Option.bind variant snd\<rparr>)))"

section \<open>What is handed on\<close>

record image_query =
  iq_description :: utf16
  iq_filePath :: utf16
  iq_referenceImagePaths :: "utf16 list"
  iq_toolCallId :: utf16

definition decodeGenerateImageQuery :: "(bytes \<Rightarrow> json option) \<Rightarrow> bytes \<Rightarrow> image_query option" where
  "decodeGenerateImageQuery decode b =
     (case decode b of None \<Rightarrow> None
      | Some d \<Rightarrow>
          (let a = json_field d (lit ''args''); description = ask_str (json_field a (lit ''description'')) in
           if \<not> is_object a \<or> description = [] then None
           else Some \<lparr>iq_description = description, iq_filePath = ask_str (json_field a (lit ''file_path'')),
             iq_referenceImagePaths = (case json_array (json_field a (lit ''reference_image_paths'')) of
                 None \<Rightarrow> [] | Some vs \<Rightarrow> List.map_filter string_of vs),
             iq_toolCallId = ask_str (json_field d (lit ''tool_call_id''))\<rparr>))"

datatype query_outcome = Rejected | Acknowledged | Failed | Bridged | Approved

datatype switch_answer = SwitchedOk | SwitchNoQuery | SwitchNoArgs | SwitchRefused switch_refusal
datatype plan_failure = PlanDeferred defer_reason | PlanNoPermissions | PlanNoWorkspace | PlanNoContent | PlanNoFileTool | PlanNotAPatch patch_error
datatype image_refusal = ImageNoQuery | ImageNoArgs | ImageNotSaved

text \<open>\<open>PlanAcked\<close> is the success with an empty URI: nothing was written.\<close>

datatype query_reply =
    Headless | VmReady | EnvNotReplaced
  | AskReply ask_result
  | SwitchReply switch_answer
  | PlanAcked | PlanFailed plan_failure
  | ImageRefused image_refusal | ImageApproved utf16

datatype after_plan_write = ReviewAfter review_tool | HoldAfter | AckAfter

record planned_save =
  ps_prepared :: prepared_plan
  ps_toolName :: utf16
  ps_input :: "(utf16 \<times> json) list"
  ps_after :: after_plan_write
  ps_planReview :: utf16
  ps_questionInput :: "json option"

record bridged_plan =
  bp_query :: decoded_plan
  bp_bridge :: plan_bridge
  bp_save :: "planned_save option"

record handled =
  hd_id :: "32 word"
  hd_variantField :: "32 word"
  hd_outcome :: query_outcome
  hd_toolCallId :: "utf16 option"
  hd_reply :: "query_reply option"
  hd_askQuestion :: "decoded_query option"
  hd_switchMode :: "(switch_query \<times> switch_bridge) option"
  hd_createPlan :: "bridged_plan option"
  hd_deferredPlan :: "utf16 option"
  hd_endTurn :: bool
  hd_image :: "image_query option"

record query_env =
  qe_ask :: "bytes \<Rightarrow> json option"
  qe_switch :: "bytes \<Rightarrow> json option"
  qe_plan :: "bytes \<Rightarrow> json option"
  qe_image :: "bytes \<Rightarrow> json option"
  qe_lower :: lower_case
  qe_paths :: plan_paths
  qe_now :: nat
  qe_created :: nat

record query_options =
  qo_canBridgeAskQuestion :: bool
  qo_allowTools :: bool
  qo_advertised :: "utf16 list"
  qo_canSaveImage :: bool
  qo_workspaceRoot :: "utf16 option"
  qo_canBridgeCreatePlan :: bool
  qo_hostPlanEntryPending :: bool
  qo_hostAgent :: "utf16 option"
  qo_planModeActive :: bool
  qo_hostPlanFile :: "utf16 option"
  qo_activeCursorModeId :: "utf16 option"
  qo_editsDenied :: bool
  qo_permissionsUnavailable :: bool
  qo_filePathKey :: file_path_key

text \<open>A query that is answered and hands nothing on.\<close>

definition plain :: "32 word \<Rightarrow> 32 word \<Rightarrow> utf16 option \<Rightarrow> query_outcome \<Rightarrow> query_reply \<Rightarrow> handled" where
  "plain i v call oc r = \<lparr>hd_id = i, hd_variantField = v, hd_outcome = oc, hd_toolCallId = call, hd_reply = Some r,
     hd_askQuestion = None, hd_switchMode = None, hd_createPlan = None, hd_deferredPlan = None, hd_endTurn = False, hd_image = None\<rparr>"

section \<open>Questions\<close>

definition MISSING_QUERY_REASON :: utf16 where "MISSING_QUERY_REASON = lit ''Missing ask-question query''"
definition MISSING_ARGS_REASON :: utf16 where "MISSING_ARGS_REASON = lit ''Missing ask-question arguments''"
definition ASK_QUESTION_UNAVAILABLE_REASON :: utf16 where
  "ASK_QUESTION_UNAVAILABLE_REASON =
     lit ''The OpenCode `question` tool is not available to the current agent, so questions ''
     @ lit ''cannot be shown to the user this turn. State the question in your reply instead.''"

text \<open>\<open>None\<close> where the decoder does not return (see \<open>extractArgsBytes\<close>).\<close>

definition handleAskQuestionQuery :: "query_env \<Rightarrow> 32 word \<Rightarrow> bytes option \<Rightarrow> query_options \<Rightarrow> handled option" where
  "handleAskQuestionQuery env i variantBytes ops =
     (let reject = (\<lambda>call reason. Some (plain i 3 call Rejected (AskReply (AskRejected reason)))) in
      case variantBytes of None \<Rightarrow> reject None MISSING_QUERY_REASON
      | Some b \<Rightarrow>
          (case decodeAskQuestionQuery (qe_ask env) b of
             None \<Rightarrow> None
           | Some None \<Rightarrow> reject None MISSING_ARGS_REASON
           | Some (Some d) \<Rightarrow>
               (if \<not> qo_canBridgeAskQuestion ops then reject (Some (dq_toolCallId d)) ASK_QUESTION_UNAVAILABLE_REASON
                else Some ((plain i 3 (Some (dq_toolCallId d)) Bridged (AskReply asyncResult))
                  \<lparr>hd_askQuestion := Some d, hd_reply := (if aa_runAsync (dq_args d) then Some (AskReply asyncResult) else None)\<rparr>))))"

section \<open>Mode switches\<close>

definition switch_options_of :: "query_options \<Rightarrow> switch_options" where
  "switch_options_of ops =
     \<lparr>so_allowTools = qo_allowTools ops, so_advertised = qo_advertised ops, so_activeModeId = qo_activeCursorModeId ops,
      so_hostAgent = qo_hostAgent ops, so_editsDenied = qo_editsDenied ops, so_permissionsUnavailable = qo_permissionsUnavailable ops\<rparr>"

definition handleSwitchModeQuery :: "query_env \<Rightarrow> 32 word \<Rightarrow> bytes option \<Rightarrow> query_options \<Rightarrow> handled" where
  "handleSwitchModeQuery env i variantBytes ops =
     (case variantBytes of None \<Rightarrow> plain i 4 None Rejected (SwitchReply SwitchNoQuery)
      | Some b \<Rightarrow>
          (case decodeSwitchModeQuery (qe_switch env) b of None \<Rightarrow> plain i 4 None Rejected (SwitchReply SwitchNoArgs)
           | Some d \<Rightarrow>
               (let bridge = resolveSwitchModeBridge (qe_lower env) (sq_targetModeId d) (switch_options_of ops);
                    answer = plain i 4 (Some (sq_toolCallId d)) in
                case bridge of
                  SwitchReject r \<Rightarrow> (answer Rejected (SwitchReply (SwitchRefused r)))
                    \<lparr>hd_endTurn := (r \<in> {PermissionsUnavailable, EditsDenied})\<rparr>
                | SwitchAck \<Rightarrow> answer Acknowledged (SwitchReply SwitchedOk)
                | SwitchApprove \<Rightarrow> (answer Approved (SwitchReply SwitchedOk))\<lparr>hd_switchMode := Some (d, bridge)\<rparr>
                | SwitchNative t \<Rightarrow> (answer Bridged (SwitchReply SwitchedOk))\<lparr>hd_switchMode := Some (d, bridge), hd_reply := None\<rparr>)))"

section \<open>Plans\<close>

definition plan_options_of :: "query_options \<Rightarrow> bridge_options" where
  "plan_options_of ops =
     \<lparr>bo_allowTools = qo_allowTools ops, bo_canStage = qo_canBridgeCreatePlan ops, bo_advertised = qo_advertised ops,
      bo_hostPlanEntryPending = qo_hostPlanEntryPending ops, bo_hostAgent = qo_hostAgent ops, bo_planModeActive = qo_planModeActive ops,
      bo_hostPlanFile = qo_hostPlanFile ops, bo_editsDenied = qo_editsDenied ops\<rparr>"

definition after_write_of :: "plan_bridge \<Rightarrow> after_plan_write" where
  "after_write_of bridge =
     (case bridge of ExitBridge f \<Rightarrow> ReviewAfter PlanExitTool | ApproveBridge \<Rightarrow> ReviewAfter QuestionTool | HoldBridge \<Rightarrow> HoldAfter | _ \<Rightarrow> AckAfter)"

text \<open>The save of the plan, once the bridge is known.\<close>

definition plan_save :: "query_env \<Rightarrow> query_options \<Rightarrow> plan_bridge \<Rightarrow> plan_args \<Rightarrow> plan_failure + planned_save" where
  "plan_save env ops bridge a =
     (let root = js_trim (case qo_workspaceRoot ops of None \<Rightarrow> [] | Some r \<Rightarrow> r);
          target = (case bridge of ExitBridge f \<Rightarrow> Some f | _ \<Rightarrow> qo_hostPlanFile ops);
          after = after_write_of bridge in
      if root = [] then Inl PlanNoWorkspace
      else case prepareCreatePlanFile (qe_lower env) (qe_paths env) (qe_now env) a root (qe_created env) target of
          Inl e \<Rightarrow> Inl PlanNoContent
        | Inr prepared \<Rightarrow>
            (case buildPlanPersistenceCall (resolvePlanPersistence (qo_advertised ops) (qo_filePathKey ops)) (pp_planPath prepared) (pp_markdown prepared) of
               Inl NoFileTool \<Rightarrow> Inl PlanNoFileTool
             | Inl (NotAPatch e) \<Rightarrow> Inl (PlanNotAPatch e)
             | Inr (tool, input) \<Rightarrow> Inr
                 \<lparr>ps_prepared = prepared, ps_toolName = tool, ps_input = input, ps_after = after,
                  ps_planReview = renderPlanReviewMessage (pp_markdown prepared) (pp_planPath prepared),
                  ps_questionInput = (if after = ReviewAfter QuestionTool then Some (createPlanApprovalQuestionInput (pp_planPath prepared)) else None)\<rparr>))"

definition handleCreatePlanQuery :: "query_env \<Rightarrow> 32 word \<Rightarrow> bytes option \<Rightarrow> query_options \<Rightarrow> handled" where
  "handleCreatePlanQuery env i variantBytes ops =
     (case Option.bind variantBytes (decodeCreatePlanQuery (qe_lower env) (qe_plan env)) of
        None \<Rightarrow> plain i 7 None Acknowledged PlanAcked
      | Some d \<Rightarrow>
          (let bridge = resolveCreatePlanBridge (plan_options_of ops); call = dp_toolCallId d;
               failed = (\<lambda>e. plain i 7 (Some call) Failed (PlanFailed e));
               bridged = (\<lambda>save. (plain i 7 (Some call) Bridged PlanAcked)
                 \<lparr>hd_createPlan := Some \<lparr>bp_query = d, bp_bridge = bridge, bp_save = save\<rparr>, hd_reply := None\<rparr>)
           in case bridge of
                DeferBridge r \<Rightarrow> (failed (PlanDeferred r))\<lparr>hd_deferredPlan := (if call \<noteq> [] then Some call else None)\<rparr>
              | _ \<Rightarrow>
                 (if qo_allowTools ops \<and> qo_permissionsUnavailable ops then (failed PlanNoPermissions)\<lparr>hd_endTurn := True\<rparr>
                  else if bridge = StageBridge then bridged None
                  else if \<not> qo_allowTools ops then plain i 7 (Some call) Acknowledged PlanAcked
                  else case plan_save env ops bridge (dp_args d) of
                      Inl e \<Rightarrow> (failed e)\<lparr>hd_endTurn := (bridge = HoldBridge)\<rparr>
                    | Inr save \<Rightarrow> bridged (Some save))))"

section \<open>Images\<close>

definition handleGenerateImageQuery :: "query_env \<Rightarrow> 32 word \<Rightarrow> bytes option \<Rightarrow> query_options \<Rightarrow> handled" where
  "handleGenerateImageQuery env i variantBytes ops =
     (case variantBytes of None \<Rightarrow> plain i 12 None Rejected (ImageRefused ImageNoQuery)
      | Some b \<Rightarrow>
          (case decodeGenerateImageQuery (qe_image env) b of None \<Rightarrow> plain i 12 None Rejected (ImageRefused ImageNoArgs)
           | Some d \<Rightarrow>
               (if \<not> qo_canSaveImage ops then plain i 12 (Some (iq_toolCallId d)) Rejected (ImageRefused ImageNotSaved)
                else (plain i 12 (Some (iq_toolCallId d)) Acknowledged (ImageApproved (iq_description d)))\<lparr>hd_image := Some d\<rparr>)))"

section \<open>Every query\<close>

datatype query_error = UnsupportedQuery wire_info | IdMismatch

text \<open>\<open>None\<close> where the handler does not return; \<open>decodedId\<close> is the id of the decoded message, when it has one.\<close>

definition handleInteractionQuery :: "query_env \<Rightarrow> 32 word option \<Rightarrow> bytes \<Rightarrow> query_options \<Rightarrow> (query_error + handled) option" where
  "handleInteractionQuery env decodedId payload ops =
     (let info = inspectInteractionQueryWire payload; b = wi_variantBytes info in
      case (wi_id info, wi_variantField info, wi_variantName info) of
        (Some i, Some v, Some name) \<Rightarrow>
          (if decodedId \<noteq> None \<and> decodedId \<noteq> Some i then Some (Inl IdMismatch)
           else if v = 3 then map_option Inr (handleAskQuestionQuery env i b ops)
           else if v = 4 then Some (Inr (handleSwitchModeQuery env i b ops))
           else if v = 7 then Some (Inr (handleCreatePlanQuery env i b ops))
           else if v = 12 then Some (Inr (handleGenerateImageQuery env i b ops))
           else if v \<in> {2, 9, 10, 11, 14} then Some (Inr (plain i v None Rejected Headless))
           else if v = 8 then Some (Inr (plain i v None Acknowledged VmReady))
           else if v = 13 then Some (Inr (plain i v None Failed EnvNotReplaced))
           else Some (Inl (UnsupportedQuery info)))
      | _ \<Rightarrow> Some (Inl (UnsupportedQuery info)))"

section \<open>A session that may not edit starts nothing\<close>

text \<open>The query lets Cursor implement: a switch to an implementing mode, or a plan saved for anything but being held.\<close>

definition starts_work :: "lower_case \<Rightarrow> handled \<Rightarrow> bool" where
  "starts_work lc h \<longleftrightarrow>
     (case hd_switchMode h of
        None \<Rightarrow> hd_reply h = Some (SwitchReply SwitchedOk)
      | Some (d, bridge) \<Rightarrow> cursorModeRole lc (Some (sq_targetModeId d)) = Some ImplementRole)
     \<or> (case Option.bind (hd_createPlan h) bp_save of None \<Rightarrow> False | Some save \<Rightarrow> ps_after save \<noteq> HoldAfter)"

lemmas plain_simps = plain_def starts_work_def

lemma ask_starts_nothing: "handleAskQuestionQuery env i b ops = Some h \<Longrightarrow> \<not> starts_work lc h"
  by (auto simp: handleAskQuestionQuery_def plain_simps Let_def split: option.splits if_splits)

lemma image_starts_nothing: "\<not> starts_work lc (handleGenerateImageQuery env i b ops)"
  by (auto simp: handleGenerateImageQuery_def plain_simps split: option.splits)

lemma blocked_switch:
  assumes "so_allowTools ops" "so_editsDenied ops \<or> so_permissionsUnavailable ops"
  shows "resolveSwitchModeBridge lc target ops = SwitchApprove \<Longrightarrow> cursorModeRole lc (Some target) \<noteq> Some ImplementRole"
    and "resolveSwitchModeBridge lc target ops = SwitchNative t \<Longrightarrow> cursorModeRole lc (Some target) \<noteq> Some ImplementRole"
  using assms by (auto simp: resolveSwitchModeBridge_def map_target split: if_splits)

lemma switch_ack: "resolveSwitchModeBridge lc target ops = SwitchAck \<Longrightarrow> \<not> so_allowTools ops"
  by (auto simp: resolveSwitchModeBridge_def split: option.splits if_splits)

lemma switch_starts_nothing:
  assumes "qo_allowTools ops" "qo_editsDenied ops \<or> qo_permissionsUnavailable ops"
  shows "\<not> starts_work (qe_lower env) (handleSwitchModeQuery env i b ops)"
proof -
  have o: "so_allowTools (switch_options_of ops)" "so_editsDenied (switch_options_of ops) \<or> so_permissionsUnavailable (switch_options_of ops)"
    using assms by (simp_all add: switch_options_of_def)
  show ?thesis
    using blocked_switch [OF o, of "qe_lower env"] switch_ack [of "qe_lower env" _ "switch_options_of ops"] o(1)
    by (auto simp: handleSwitchModeQuery_def plain_simps Let_def split: option.splits switch_bridge.splits)
qed

lemma saved_after: "plan_save env ops bridge a = Inr save \<Longrightarrow> ps_after save = after_write_of bridge"
  by (auto simp: plan_save_def Let_def split: if_splits sum.splits persistence_error.splits)

lemma denied_bridge:
  assumes "bo_allowTools ops" "bo_editsDenied ops"
  shows "resolveCreatePlanBridge ops \<in> {DeferBridge HostPlanPending, StageBridge, HoldBridge}"
  using assms by (simp add: resolveCreatePlanBridge_def)

lemma plan_starts_nothing:
  assumes "qo_allowTools ops" "qo_editsDenied ops \<or> qo_permissionsUnavailable ops"
  shows "\<not> starts_work lc (handleCreatePlanQuery env i b ops)"
proof (cases "Option.bind b (decodeCreatePlanQuery (qe_lower env) (qe_plan env))")
  case None
  then show ?thesis by (simp add: handleCreatePlanQuery_def plain_simps)
next
  case (Some d)
  let ?bridge = "resolveCreatePlanBridge (plan_options_of ops)"
  show ?thesis
  proof (cases "qo_permissionsUnavailable ops")
    case True
    then show ?thesis using assms(1) Some
      by (cases ?bridge) (simp_all add: handleCreatePlanQuery_def plain_simps Let_def)
  next
    case False
    then have "?bridge \<in> {DeferBridge HostPlanPending, StageBridge, HoldBridge}"
      using assms denied_bridge [of "plan_options_of ops"] by (simp add: plan_options_of_def)
    then show ?thesis using assms(1) Some False saved_after [of env ops HoldBridge "dp_args d"]
      by (auto simp: handleCreatePlanQuery_def plain_simps Let_def after_write_of_def split: sum.splits)
  qed
qed

text \<open>C16: While the session denies edits, or its rules could not be read, no query lets Cursor start implementing.\<close>

theorem blocked_session_starts_nothing:
  assumes "handleInteractionQuery env decodedId payload ops = Some (Inr h)"
    and "qo_allowTools ops" "qo_editsDenied ops \<or> qo_permissionsUnavailable ops"
  shows "\<not> starts_work (qe_lower env) h"
proof -
  have "\<not> starts_work (qe_lower env) (plain i v None oc r)" if "r \<noteq> SwitchReply SwitchedOk" for i v oc r
    using that by (simp add: plain_simps)
  then show ?thesis using assms(1) ask_starts_nothing image_starts_nothing switch_starts_nothing [OF assms(2, 3)] plan_starts_nothing [OF assms(2, 3)]
    by (auto simp: handleInteractionQuery_def Let_def split: option.splits if_splits)
qed

section \<open>No query is left waiting\<close>

text \<open>Cursor gets its reply now, or the query was handed to one host tool whose result is the reply.\<close>

definition handed_on :: "handled \<Rightarrow> nat" where
  "handed_on h = length (filter (\<lambda>b. b) [hd_askQuestion h \<noteq> None, hd_switchMode h \<noteq> None, hd_createPlan h \<noteq> None])"

definition settled :: "handled \<Rightarrow> bool" where
  "settled h \<longleftrightarrow> (if hd_reply h = None then hd_outcome h = Bridged \<and> handed_on h = 1 else handed_on h \<le> 1)"

lemmas settled_simps = settled_def handed_on_def plain_def

lemma ask_settled: "handleAskQuestionQuery env i b ops = Some h \<Longrightarrow> settled h \<and> hd_id h = i \<and> hd_variantField h = 3"
  by (auto simp: handleAskQuestionQuery_def settled_simps Let_def split: option.splits if_splits)

lemma switch_settled:
  "settled (handleSwitchModeQuery env i b ops) \<and> hd_id (handleSwitchModeQuery env i b ops) = i \<and> hd_variantField (handleSwitchModeQuery env i b ops) = 4"
  by (auto simp: handleSwitchModeQuery_def settled_simps Let_def split: option.splits switch_bridge.splits)

lemma plan_settled:
  "settled (handleCreatePlanQuery env i b ops) \<and> hd_id (handleCreatePlanQuery env i b ops) = i \<and> hd_variantField (handleCreatePlanQuery env i b ops) = 7"
  by (auto simp: handleCreatePlanQuery_def settled_simps Let_def split: option.splits plan_bridge.splits sum.splits)

lemma image_settled:
  "settled (handleGenerateImageQuery env i b ops) \<and> hd_id (handleGenerateImageQuery env i b ops) = i \<and> hd_variantField (handleGenerateImageQuery env i b ops) = 12"
  by (auto simp: handleGenerateImageQuery_def settled_simps split: option.splits)

lemma named_variants: "map_of variantNames v = Some name \<Longrightarrow> v \<in> {2, 3, 4, 7, 8, 9, 10, 11, 12, 13, 14}"
  by (auto simp: variantNames_def split: if_splits)

lemma named_query:
  "wi_variantName (inspectInteractionQueryWire p) = Some name \<Longrightarrow> wi_variantField (inspectInteractionQueryWire p) = Some v \<Longrightarrow>
   map_of variantNames v = Some name"
  by (auto simp: inspectInteractionQueryWire_def no_info_def split: option.splits prod.splits)

lemma ask_returns:
  assumes "\<And>b. vb = Some b \<Longrightarrow> qe_ask env b = None \<or> (\<exists>fs. (\<forall>f \<in> set fs. echo_ok f) \<and> b = concat (map enc_field fs))"
  shows "\<exists>h. handleAskQuestionQuery env i vb ops = Some h"
proof -
  have "decodeAskQuestionQuery (qe_ask env) b \<noteq> None" if b: "vb = Some b" for b
  proof (cases "qe_ask env b = None")
    case False
    then obtain fs where "\<forall>f \<in> set fs. echo_ok f" "b = concat (map enc_field fs)" using False assms [OF b] by auto
    then have "extractArgsBytes b \<noteq> None" using extract_fields [of fs "[]"] by (simp add: extractArgsBytes_def)
    then show ?thesis by (auto simp: decodeAskQuestionQuery_def Let_def split: option.split)
  qed (simp add: decodeAskQuestionQuery_def)
  then show ?thesis by (auto simp: handleAskQuestionQuery_def Let_def split: option.splits)
qed

text \<open>C17: A query of a known kind, with the id of its decoded message, is handled under that id: replied to now, or handed to
exactly one host tool whose result is the reply; and the handler returns. For a question the bytes of the
message are fields as an encoder writes them (each shorter than 2 GiB), or the decoder refuses them: on other
bytes, such as a negative length, the loop that looks for the arguments need not return. For every other kind
nothing is asked of the bytes.\<close>

theorem known_query_is_settled:
  assumes "wi_id (inspectInteractionQueryWire payload) = Some i" "decodedId \<in> {None, Some i}"
    and "wi_variantField (inspectInteractionQueryWire payload) = Some v"
    and "wi_variantName (inspectInteractionQueryWire payload) = Some name"
    and "\<And>b. v = 3 \<Longrightarrow> wi_variantBytes (inspectInteractionQueryWire payload) = Some b \<Longrightarrow>
      qe_ask env b = None \<or> (\<exists>fs. (\<forall>f \<in> set fs. echo_ok f) \<and> b = concat (map enc_field fs))"
  shows "\<exists>h. handleInteractionQuery env decodedId payload ops = Some (Inr h) \<and> hd_id h = i \<and> hd_variantField h = v \<and> settled h"
proof -
  let ?b = "wi_variantBytes (inspectInteractionQueryWire payload)"
  have v: "v \<in> {2, 3, 4, 7, 8, 9, 10, 11, 12, 13, 14}" using named_variants named_query assms(3, 4) by blast
  have h: "\<exists>h. handleAskQuestionQuery env i ?b ops = Some h" if "v = 3"
    using ask_returns [of ?b env i ops] assms(5) that by blast
  have p: "settled (plain i v None oc r)" "hd_id (plain i v None oc r) = i" "hd_variantField (plain i v None oc r) = v" for oc r
    by (simp_all add: settled_simps)
  have d: "\<not> (decodedId \<noteq> None \<and> decodedId \<noteq> Some i)" using assms(2) by auto
  show ?thesis
  proof (cases "v = 3")
    case True
    obtain h where h: "handleAskQuestionQuery env i ?b ops = Some h" using h [OF True] by blast
    show ?thesis using ask_settled [OF h] True
      unfolding handleInteractionQuery_def Let_def assms(1, 3, 4)
      by (simp only: option.case prod.case if_not_P [OF d]) (simp add: h)
  next
    case False
    then show ?thesis
      using v switch_settled [of env i ?b ops] plan_settled [of env i ?b ops] image_settled [of env i ?b ops] p
      unfolding handleInteractionQuery_def Let_def assms(1, 3, 4)
      by (simp only: option.case prod.case if_not_P [OF d]) (elim insertE emptyE; simp)
  qed
qed

section \<open>Reading the query\<close>

text \<open>The fields of a message as it may be written: valid, with varints of 32 bits.\<close>

definition fields_ok :: "strict_field list \<Rightarrow> bool" where
  "fields_ok fs \<longleftrightarrow> list_all (\<lambda>f. strict_ok f \<and> small_varint f) fs"

definition written :: "strict_field list \<Rightarrow> bytes" where
  "written fs = concat (map enc_field fs)"

text \<open>The last id counts and the first sub-message; without an id it is zero.\<close>

definition query_id :: "strict_field list \<Rightarrow> 32 word" where
  "query_id fs = (case filter (\<lambda>f. sf_fn f = 1 \<and> sf_wt f = 0) fs of [] \<Rightarrow> 0 | is \<Rightarrow> of_nat (the (sf_varint (last is))))"

definition query_variant :: "strict_field list \<Rightarrow> strict_field option" where
  "query_variant fs = find (\<lambda>f. sf_wt f = 2) fs"

lemma written_fields:
  assumes "fields_ok fs"
  shows "readAllFields (written fs) = map lenient_of (filter (\<lambda>f. sf_wt f \<noteq> 5) fs)"
proof (rule strict_lenient)
  have "list_all strict_ok fs" using assms by (simp add: fields_ok_def list_all_iff)
  then show "readAllFieldsStrict (written fs) = Some fs"
    using readAllFieldsStrict_enc_append [of fs "[]"] by (simp add: written_def list_all_iff)
  show "\<forall>f \<in> set fs. small_varint f" using assms by (simp add: fields_ok_def list_all_iff)
qed

lemma lenient_number:
  assumes "strict_ok f" "n < 2 ^ 29"
  shows "rf_fn (lenient_of f) = of_nat n \<longleftrightarrow> sf_fn f = n"
proof -
  have "sf_fn f < 2 ^ 32" using assms(1) by (simp add: strict_ok_def MAX_PROTOBUF_FIELD_NUMBER_def)
  then have "(of_nat (sf_fn f) = (of_nat n :: 32 word)) \<longleftrightarrow> sf_fn f = n"
    using assms(2) by (simp add: word_of_nat_eq_iff take_bit_nat_eq_self)
  then show ?thesis by (simp add: lenient_of_def)
qed

lemma lenient_wire: "strict_ok f \<Longrightarrow> rf_wt (lenient_of f) = of_nat (sf_wt f) \<and> sf_wt f \<in> {0, 1, 2, 5}"
  by (cases f) (auto simp: strict_ok_def field_defs lenient_of_def)

lemma lenient_facts:
  assumes "strict_ok f"
  shows "rf_fn (lenient_of f) = 1 \<longleftrightarrow> sf_fn f = 1" "rf_fn (lenient_of f) = 7 \<longleftrightarrow> sf_fn f = 7"
    "rf_wt (lenient_of f) = 0 \<longleftrightarrow> sf_wt f = 0" "rf_wt (lenient_of f) = 2 \<longleftrightarrow> sf_wt f = 2"
  using lenient_number [OF assms, of 1] lenient_number [OF assms, of 7] lenient_wire [OF assms] by auto

lemma varint_of: "strict_ok f \<Longrightarrow> sf_wt f = 0 \<Longrightarrow> rf_varint (lenient_of f) = of_nat (the (sf_varint f))"
  by (cases f) (auto simp: strict_ok_def field_defs lenient_of_def)

lemma scan_written:
  "list_all strict_ok fs \<Longrightarrow> scan_query (map lenient_of (filter (\<lambda>f. sf_wt f \<noteq> 5) fs)) i variant =
     (case filter (\<lambda>f. sf_fn f = 1 \<and> sf_wt f = 0) fs of [] \<Rightarrow> i | is \<Rightarrow> of_nat (the (sf_varint (last is))),
      case variant of Some v \<Rightarrow> Some v
      | None \<Rightarrow> map_option (\<lambda>f. (of_nat (sf_fn f), sf_bytes f)) (query_variant fs))"
proof (induction fs arbitrary: i variant)
  case (Cons f fs)
  then have f: "strict_ok f" by simp
  show ?case
    using Cons lenient_facts [OF f] varint_of [OF f]
    by (auto simp: query_variant_def lenient_of_def split: option.split list.split)
qed (simp add: query_variant_def split: option.split)

lemma find_written:
  assumes "list_all strict_ok pre" "list_all (\<lambda>f. \<not> (sf_fn f = 7 \<and> sf_wt f = 2)) pre" "rf_fn q = 7" "rf_wt q = 2"
  shows "find (\<lambda>f. rf_fn f = 7 \<and> rf_wt f = 2) (map lenient_of (filter (\<lambda>f. sf_wt f \<noteq> 5) pre) @ q # post) = Some q"
  using assms by (induction pre) (auto simp: lenient_facts)

lemma inspect_written:
  assumes "fields_ok (pre @ bytes_field 7 (written fs) # post)" "fields_ok fs"
    and "list_all (\<lambda>f. \<not> (sf_fn f = 7 \<and> sf_wt f = 2)) pre"
  shows "inspectInteractionQueryWire (written (pre @ bytes_field 7 (written fs) # post)) =
    \<lparr>wi_id = Some (query_id fs), wi_variantField = map_option (\<lambda>f. of_nat (sf_fn f)) (query_variant fs),
     wi_variantName = (case query_variant fs of None \<Rightarrow> None | Some f \<Rightarrow> map_of variantNames (of_nat (sf_fn f))),
     wi_variantBytes = Option.bind (query_variant fs) sf_bytes\<rparr>"
proof -
  let ?q = "lenient_of (bytes_field 7 (written fs))"
  have q: "rf_fn ?q = 7" "rf_wt ?q = 2" "rf_bytes ?q = Some (written fs)" by (simp_all add: lenient_of_def bytes_field_def)
  have "list_all strict_ok pre" "list_all strict_ok fs" using assms(1, 2) by (simp_all add: fields_ok_def list_all_iff)
  note f = find_written [OF this(1) assms(3) q(1, 2)] and sc = scan_written [OF this(2), of 0 None]
  have "sf_wt (bytes_field 7 (written fs)) \<noteq> 5" by (simp add: bytes_field_def)
  then have "find (\<lambda>f. rf_fn f = 7 \<and> rf_wt f = 2) (readAllFields (written (pre @ bytes_field 7 (written fs) # post))) = Some ?q"
    using f by (simp add: written_fields [OF assms(1)])
  then show ?thesis
    by (cases "query_variant fs")
      (simp_all add: inspectInteractionQueryWire_def q written_fields [OF assms(2)] sc query_id_def)
qed

text \<open>C40: The id and the kind of a query are read off the wire whatever fields a newer schema adds around them: the last id, zero
  where it is omitted, and the first sub-message.
\<close>

theorem query_is_read_off_the_wire:
  assumes "fields_ok (pre @ bytes_field 7 (written fs) # post)" "fields_ok fs"
    and "list_all (\<lambda>f. \<not> (sf_fn f = 7 \<and> sf_wt f = 2)) pre"
  shows "inspectInteractionQueryWire (written (pre @ bytes_field 7 (written fs) # post)) =
    \<lparr>wi_id = Some (query_id fs), wi_variantField = map_option (\<lambda>f. of_nat (sf_fn f)) (query_variant fs),
     wi_variantName = (case query_variant fs of None \<Rightarrow> None | Some f \<Rightarrow> map_of variantNames (of_nat (sf_fn f))),
     wi_variantBytes = Option.bind (query_variant fs) sf_bytes\<rparr>"
  using assms by (rule inspect_written)

definition sample_query :: "strict_field list" where
  "sample_query = [varint_field 1 6, bytes_field 4 [10, 1], varint_field 900 1]"

definition sample_payload :: bytes where
  "sample_payload = written ([varint_field 1 2] @ bytes_field 7 (written sample_query) # [])"

lemma field_lengths: "sf_fn (varint_field n v) = n" "sf_fn (bytes_field n d) = n" "sf_wt (varint_field n v) = 0" "sf_wt (bytes_field n d) = 2"
  by (simp_all add: field_defs)

lemma ok_varint: "0 < n \<Longrightarrow> n \<le> MAX_PROTOBUF_FIELD_NUMBER \<Longrightarrow> v < 2 ^ 32 \<Longrightarrow> strict_ok (varint_field n v) \<and> small_varint (varint_field n v)"
  by (auto simp: strict_ok_def small_varint_def field_defs)

lemma ok_bytes: "0 < n \<Longrightarrow> n \<le> MAX_PROTOBUF_FIELD_NUMBER \<Longrightarrow> length d < 2 ^ 32 \<Longrightarrow> strict_ok (bytes_field n d) \<and> small_varint (bytes_field n d)"
  by (auto simp: strict_ok_def small_varint_def field_defs)

lemma written_sample: "written sample_query = [8, 6, 34, 2, 10, 1, 160, 56, 1]"
  by (simp add: written_def sample_query_def enc_field_def field_defs wire_eval)

lemma sample_ok: "fields_ok sample_query" "fields_ok ([varint_field 1 2] @ bytes_field 7 (written sample_query) # [])"
proof -
  show "fields_ok sample_query" by (simp add: fields_ok_def sample_query_def ok_varint ok_bytes MAX_PROTOBUF_FIELD_NUMBER_def)
  show "fields_ok ([varint_field 1 2] @ bytes_field 7 (written sample_query) # [])"
    by (simp add: fields_ok_def ok_varint ok_bytes MAX_PROTOBUF_FIELD_NUMBER_def written_sample)
qed

theorem query_is_read_off_the_wire_witness:
  "inspectInteractionQueryWire (written ([varint_field 1 2] @ bytes_field 7 (written sample_query) # [])) =
    \<lparr>wi_id = Some (query_id sample_query), wi_variantField = map_option (\<lambda>f. of_nat (sf_fn f)) (query_variant sample_query),
     wi_variantName = (case query_variant sample_query of None \<Rightarrow> None | Some f \<Rightarrow> map_of variantNames (of_nat (sf_fn f))),
     wi_variantBytes = Option.bind (query_variant sample_query) sf_bytes\<rparr>"
  by (rule query_is_read_off_the_wire [OF sample_ok(2, 1)]) (simp add: field_defs)

lemma sample_info:
  "inspectInteractionQueryWire sample_payload =
    \<lparr>wi_id = Some 6, wi_variantField = Some 4, wi_variantName = Some ''switch_mode_request_query'', wi_variantBytes = Some [10, 1]\<rparr>"
  unfolding sample_payload_def
  by (subst inspect_written [OF sample_ok(2, 1)])
    (simp_all add: field_lengths sample_query_def query_id_def query_variant_def variantNames_def, simp_all add: field_defs)

text \<open>A request to leave plan mode for the agent mode.\<close>

definition sample_query_env :: query_env where
  "sample_query_env =
     \<lparr>qe_ask = (\<lambda>b. None), qe_switch = (\<lambda>b. Some (JObject [(lit ''args'', JObject [(lit ''target_mode_id'', JString (lit ''agent''))])])),
      qe_plan = (\<lambda>b. None), qe_image = (\<lambda>b. None), qe_lower = (\<lambda>t. t),
      qe_paths = \<lparr>pp_join = (\<lambda>a b. a @ lit ''/'' @ b), pp_file_url = (\<lambda>p. lit ''file://'' @ p), pp_plans_dir = (\<lambda>r. r)\<rparr>,
      qe_now = 0, qe_created = 0\<rparr>"

definition sample_query_options :: query_options where
  "sample_query_options =
     \<lparr>qo_canBridgeAskQuestion = True, qo_allowTools = True, qo_advertised = [lit ''plan_exit''], qo_canSaveImage = False,
      qo_workspaceRoot = Some (lit ''/w''), qo_canBridgeCreatePlan = False, qo_hostPlanEntryPending = False,
      qo_hostAgent = Some (lit ''plan''), qo_planModeActive = True, qo_hostPlanFile = None, qo_activeCursorModeId = Some (lit ''plan''),
      qo_editsDenied = True, qo_permissionsUnavailable = False, qo_filePathKey = FilePathKey\<rparr>"

lemma sample_handled:
  "handleInteractionQuery sample_query_env (Some 6) sample_payload sample_query_options =
     Some (Inr (handleSwitchModeQuery sample_query_env 6 (Some [10, 1]) sample_query_options))"
  by (simp add: handleInteractionQuery_def sample_info Let_def)

theorem blocked_session_starts_nothing_witness:
  "\<not> starts_work (qe_lower sample_query_env) (handleSwitchModeQuery sample_query_env 6 (Some [10, 1]) sample_query_options)"
  by (rule blocked_session_starts_nothing [OF sample_handled]) (simp_all add: sample_query_options_def)

text \<open>A question, whose one field is the arguments.\<close>

definition question_query :: "strict_field list" where
  "question_query = [varint_field 1 6, bytes_field 3 (written [bytes_field 1 [7]])]"

definition question_payload :: bytes where "question_payload = written ([] @ bytes_field 7 (written question_query) # [])"

lemma question_bytes: "written [bytes_field 1 [7]] = [10, 1, 7]" "written question_query = [8, 6, 26, 3, 10, 1, 7]"
  by (simp_all add: written_def question_query_def enc_field_def field_defs wire_eval)

lemma question_info:
  "inspectInteractionQueryWire question_payload =
    \<lparr>wi_id = Some 6, wi_variantField = Some 3, wi_variantName = Some ''ask_question_interaction_query'', wi_variantBytes = Some [10, 1, 7]\<rparr>"
proof -
  have "fields_ok question_query"
    by (simp add: fields_ok_def question_query_def ok_varint ok_bytes MAX_PROTOBUF_FIELD_NUMBER_def question_bytes del: One_nat_def)
  moreover have "fields_ok ([] @ bytes_field 7 (written question_query) # [])"
    by (simp add: fields_ok_def ok_bytes MAX_PROTOBUF_FIELD_NUMBER_def question_bytes del: One_nat_def)
  ultimately show ?thesis
    unfolding question_payload_def
    by (subst inspect_written)
      (simp_all add: field_lengths question_query_def query_id_def query_variant_def variantNames_def question_bytes(1) del: One_nat_def, simp_all add: field_defs)
qed

theorem known_query_is_settled_witness:
  "\<exists>h. handleInteractionQuery (sample_query_env\<lparr>qe_ask := (\<lambda>b. Some JUndefined)\<rparr>) (Some 6) question_payload sample_query_options = Some (Inr h)
     \<and> hd_id h = 6 \<and> hd_variantField h = 3 \<and> settled h"
proof (rule known_query_is_settled [where name = "''ask_question_interaction_query''"])
  fix b assume "wi_variantBytes (inspectInteractionQueryWire question_payload) = Some b"
  then have "b = concat (map enc_field [bytes_field 1 [7]])" using question_bytes(1) by (simp add: question_info written_def)
  moreover have "\<forall>f \<in> set [bytes_field 1 [7]]. echo_ok f" by (simp add: echo_ok_def strict_ok_def field_defs MAX_PROTOBUF_FIELD_NUMBER_def)
  ultimately show "qe_ask (sample_query_env\<lparr>qe_ask := (\<lambda>b. Some JUndefined)\<rparr>) b = None \<or> (\<exists>fs. (\<forall>f \<in> set fs. echo_ok f) \<and> b = concat (map enc_field fs))"
    by blast
qed (simp_all add: question_info)

end
