(* ===== verification/HostReplies.thy ===== *)
theory HostReplies
  imports Interactions
begin

text \<open>
  What a host tool's result becomes for the query Cursor still waits on (\<open>buildAskQuestionContinuationFrame\<close>,
  \<open>buildSwitchModeContinuationFrame\<close> and the plan's write phase in \<open>deliverContinuationResults\<close> of
  \<open>src/src/language-model.ts\<close>); the review of a plan is in \<open>CreatePlan\<close>. The metadata of the pending call is a JSON
  value, the decoded arguments and their bytes are given beside it.
\<close>

section \<open>Questions\<close>

datatype lost_reply = LostArguments | LostInteraction | LostRawArgs

datatype question_frame = InteractionAnswer "64 word" ask_result | AsyncCompletion utf16 bytes ask_result

definition buildAskQuestionContinuationFrame ::
    "ask_env \<Rightarrow> json \<Rightarrow> ask_args option \<Rightarrow> bytes option \<Rightarrow> utf16 \<Rightarrow> utf16 option \<Rightarrow> lost_reply + question_frame" where
  "buildAskQuestionContinuationFrame env metadata args rawArgs out err =
     (case args of None \<Rightarrow> Inl LostArguments
      | Some a \<Rightarrow>
          (let answer = askQuestionResultFromToolOutput env a out (err \<noteq> None) in
           if \<not> aa_runAsync a
           then (case json_field metadata (lit ''interactionId'') of JNumber i \<Rightarrow> Inr (InteractionAnswer i answer) | _ \<Rightarrow> Inl LostInteraction)
           else (case rawArgs of None \<Rightarrow> Inl LostRawArgs
             | Some raw \<Rightarrow> Inr (AsyncCompletion (ask_str (json_field metadata (lit ''askQuestionToolCallId''))) raw answer))))"

section \<open>Mode switches\<close>

datatype switch_reply = HostAnswer switch_result | LateRefusal switch_refusal

record switch_continuation =
  sc_interactionId :: "64 word"
  sc_reply :: switch_reply
  sc_approvedTarget :: "utf16 option"
  sc_bridgeKind :: json
  sc_endTurn :: bool

definition buildSwitchModeContinuationFrame ::
    "lower_case \<Rightarrow> json \<Rightarrow> utf16 \<Rightarrow> utf16 option \<Rightarrow> bool \<Rightarrow> bool \<Rightarrow> lost_reply + switch_continuation" where
  "buildSwitchModeContinuationFrame lc metadata out err editsDenied unavailable =
     (case json_field metadata (lit ''interactionId'') of
        JNumber i \<Rightarrow>
          (let answer = switchModeResultFromToolOutput out (err \<noteq> None);
               target = (if answer = SwitchApproved then js_trim (ask_str (json_field metadata (lit ''switchModeTarget''))) else [])
           in if (editsDenied \<or> unavailable) \<and> hostAgentForCursorMode lc (Some target) = Some (lit ''build'')
              then Inr \<lparr>sc_interactionId = i, sc_reply = LateRefusal (if unavailable then PermissionsUnavailable else EditsDenied),
                        sc_approvedTarget = None, sc_bridgeKind = JUndefined, sc_endTurn = True\<rparr>
              else Inr \<lparr>sc_interactionId = i, sc_reply = HostAnswer answer,
                        sc_approvedTarget = (if target \<noteq> [] then Some target else None),
                        sc_bridgeKind = (if target \<noteq> [] then json_field metadata (lit ''switchModeBridgeKind'') else JUndefined),
                        sc_endTurn = False\<rparr>)
      | _ \<Rightarrow> Inl LostInteraction)"

section \<open>The saved plan\<close>

record write_result =
  wr_sessionId :: utf16
  wr_execId :: nat
  wr_error :: "utf16 option"
  wr_interrupted :: bool
  wr_refusal :: "tool_refusal option"

datatype queued_plan =
    QueuedReview "64 word" "utf16 option" utf16 utf16 utf16 utf16 "utf16 option" "utf16 option" review_tool "(json \<times> utf16) option"
  | QueuedHold "64 word" utf16 utf16 "utf16 option"

record write_continuation =
  wc_reply :: "plan_reply option"
  wc_queued :: "queued_plan option"
  wc_endTurn :: "bool option"
  wc_completed :: "utf16 option"
  wc_store :: plan_store

definition receipt_call :: "utf16 \<Rightarrow> nat \<Rightarrow> utf16" where
  "receipt_call sessionId execId = lit ''cursor_'' @ sessionId @ lit ''_'' @ decimal execId"

definition refusal_name :: "tool_refusal \<Rightarrow> utf16" where
  "refusal_name t = (case t of PermissionDenied \<Rightarrow> lit ''permission_denied'' | HostPrompt.Rejected \<Rightarrow> lit ''rejected'')"

definition WRITE_FAILED :: utf16 where "WRITE_FAILED = lit ''Failed to write plan file''"

definition write_failed :: "write_result \<Rightarrow> utf16 option \<Rightarrow> bool" where
  "write_failed r err \<longleftrightarrow> err \<noteq> None \<or> wr_interrupted r \<or> wr_refusal r \<noteq> None"

definition write_error :: "write_result \<Rightarrow> utf16 option \<Rightarrow> utf16" where
  "write_error r err =
     (let e = js_trim (case err of None \<Rightarrow> [] | Some t \<Rightarrow> t); own = (case wr_refusal r of None \<Rightarrow> [] | Some t \<Rightarrow> refusal_name t) in
      if e \<noteq> [] then e else if own \<noteq> [] then own else WRITE_FAILED)"

definition optional_text :: "json \<Rightarrow> utf16 option" where
  "optional_text v = (case v of JString t \<Rightarrow> if t \<noteq> [] then Some t else None | _ \<Rightarrow> None)"

text \<open>
  \<open>sessionId\<close> is the Run's, \<open>key\<close> the host session; \<open>reviewDeclined\<close> where another review of this Run was
  declined. \<open>wc_endTurn\<close> is \<open>None\<close> where nothing is delivered: the review is queued.
\<close>

definition planWritten :: "utf16 \<Rightarrow> utf16 option \<Rightarrow> bool \<Rightarrow> json \<Rightarrow> write_result \<Rightarrow> plan_store \<Rightarrow> lost_plan + write_continuation" where
  "planWritten sessionId key reviewDeclined metadata r m =
     (let planUri = ask_str (json_field metadata (lit ''planUri''));
          planPath = js_trim (ask_str (json_field metadata (lit ''planPath'')));
          call = receipt_call sessionId (wr_execId r);
          err = (if reviewDeclined then Some CREATE_PLAN_NOT_APPROVED_REASON else wr_error r);
          after = json_field metadata (lit ''createPlanAfterWrite'');
          planReview = optional_text (json_field metadata (lit ''planReview''));
          toolCall = string_of (json_field metadata (lit ''createPlanToolCallId''));
          kind = string_of (json_field metadata (lit ''createPlanBridgeKind''))
      in case json_field metadata (lit ''interactionId'') of
           JNumber i \<Rightarrow>
             (if js_trim planUri = [] then Inl LostPlanUri
              else if write_failed r err
              then Inr \<lparr>wc_reply = Some (PlanError (write_error r err)), wc_queued = None, wc_endTurn = Some True, wc_completed = Some call, wc_store = m\<rparr>
              else if after = JString (lit ''review'')
              then (let tool = (if json_field metadata (lit ''createPlanReviewToolName'') = JString (lit ''plan_exit'') then PlanExitTool else QuestionTool) in
                    Inr \<lparr>wc_reply = None,
                      wc_queued = Some (QueuedReview i toolCall (case kind of None \<Rightarrow> lit ''approve'' | Some k \<Rightarrow> k) call planUri planPath
                        (optional_text (json_field metadata (lit ''planMarkdown''))) planReview tool
                        (if tool = QuestionTool then Some (createPlanApprovalQuestionInput planPath, createPlanApprovalQuestion planPath) else None)),
                      wc_endTurn = None, wc_completed = None,
                      wc_store = updatePlanOperationConsumed key call (wr_sessionId r @ lit '':'' @ decimal (wr_execId r)) (Some ReviewPhase) m\<rparr>)
              else if after = JString (lit ''hold'')
              then Inr \<lparr>wc_reply = Some (PlanError (createPlanSessionEditsDeniedReason planPath)), wc_queued = Some (QueuedHold i planUri planPath planReview),
                        wc_endTurn = Some True, wc_completed = Some call, wc_store = m\<rparr>
              else Inr \<lparr>wc_reply = Some (PlanSuccess planUri), wc_queued = None, wc_endTurn = Some False, wc_completed = Some call, wc_store = m\<rparr>)
         | _ \<Rightarrow> Inl LostInteractionId)"

section \<open>A late change of the rules\<close>

text \<open>
  A switch that was handed to the host while edits were allowed is still refused when they are denied by the time the
  host's approval arrives: the session takes no implementing mode and Cursor is told so.
\<close>

theorem late_deny_stops_the_switch:
  assumes "buildSwitchModeContinuationFrame lc metadata out err editsDenied unavailable = Inr c" "editsDenied \<or> unavailable"
    and "cursorModeRole lc (Some (js_trim (ask_str (json_field metadata (lit ''switchModeTarget''))))) = Some ImplementRole"
  shows "sc_approvedTarget c = None \<and> sc_reply c \<noteq> HostAnswer SwitchApproved"
  using assms by (auto simp: buildSwitchModeContinuationFrame_def Let_def hostAgentForCursorMode_def split: json.splits if_splits)

section \<open>A saved plan is not an approved plan\<close>

lemma consumed_stays:
  assumes "r \<in> set rs" "pr_hostCallId r = call" "unconsumed r"
  shows "\<exists>q \<in> set (consume_first call rid (Some ReviewPhase) rs). pr_hostCallId q = call \<and> pr_phase q = ReviewPhase"
  using assms by (induction rs) auto

lemma consumed_incomplete:
  assumes "jm_wf m" "r \<in> set (planOperationsFor key m)" "pr_hostCallId r = call" "unconsumed r"
  shows "\<exists>p \<in> set (incompletePlanOperations key (updatePlanOperationConsumed key call rid (Some ReviewPhase) m)).
    pr_hostCallId p = call \<and> pr_phase p = ReviewPhase"
proof -
  obtain k where key: "plan_key key = Some k" using assms(2) by (cases "plan_key key") (auto simp: planOperationsFor_def)
  obtain rs where "jm_get m k = Some rs" using assms(2) by (cases "jm_get m k") (auto simp: planOperationsFor_def key)
  then have k: "plan_key key = Some k" "jm_get m k = Some rs" "r \<in> set rs" using assms(2) key by (simp_all add: planOperationsFor_def)
  have "planOperationsFor key (updatePlanOperationConsumed key call rid (Some ReviewPhase) m) = consume_first call rid (Some ReviewPhase) rs"
    using assms(1) k by (simp add: planOperationsFor_def updatePlanOperationConsumed_def del: map_of_eq_Some_iff)
  then show ?thesis using consumed_stays [OF k(3) assms(3, 4), of rid] by (auto simp: incompletePlanOperations_def)
qed

text \<open>C22: A plan saved for review is not answered: Cursor hears nothing, the queued action is the review of this very
plan - the interaction, the receipt, the file and its text, the tool that asks, and the approval question where
no \<open>plan_exit\<close> asks - and its unconsumed receipt stays incomplete, now in the review phase, so that an
interruption before the review keeps the turn from going on. A save that failed - an error, a refusal, an
interruption, or a review of the same Run that was declined - queues nothing and ends the turn with its
error. A save that waits for a lifted rule ends the turn with the refusal for denied edits and queues the
hold. What is said when neither a review nor a hold follows the save is not part of this.\<close>

theorem saved_plan_waits_for_review:
  assumes "planWritten sessionId key reviewDeclined metadata r m = Inr c" "jm_wf m"
    and "q \<in> set (planOperationsFor key m)" "pr_hostCallId q = receipt_call sessionId (wr_execId r)" "unconsumed q"
    and "err = (if reviewDeclined then Some CREATE_PLAN_NOT_APPROVED_REASON else wr_error r)"
    and "uri = ask_str (json_field metadata (lit ''planUri''))" "path = js_trim (ask_str (json_field metadata (lit ''planPath'')))"
    and "review = optional_text (json_field metadata (lit ''planReview''))"
    and "exit_tool \<longleftrightarrow> json_field metadata (lit ''createPlanReviewToolName'') = JString (lit ''plan_exit'')"
  shows "\<exists>i. json_field metadata (lit ''interactionId'') = JNumber i
    \<and> (write_failed r err \<longrightarrow> wc_reply c = Some (PlanError (write_error r err)) \<and> wc_queued c = None \<and> wc_endTurn c = Some True \<and> wc_store c = m)
    \<and> (\<not> write_failed r err \<and> json_field metadata (lit ''createPlanAfterWrite'') = JString (lit ''review'') \<longrightarrow>
        wc_reply c = None \<and> wc_endTurn c = None \<and> wc_completed c = None
        \<and> wc_queued c = Some (QueuedReview i (string_of (json_field metadata (lit ''createPlanToolCallId'')))
            (case string_of (json_field metadata (lit ''createPlanBridgeKind'')) of None \<Rightarrow> lit ''approve'' | Some k \<Rightarrow> k)
            (receipt_call sessionId (wr_execId r)) uri path (optional_text (json_field metadata (lit ''planMarkdown''))) review
            (if exit_tool then PlanExitTool else QuestionTool)
            (if exit_tool then None else Some (createPlanApprovalQuestionInput path, createPlanApprovalQuestion path)))
        \<and> (\<exists>p \<in> set (incompletePlanOperations key (wc_store c)). pr_hostCallId p = receipt_call sessionId (wr_execId r) \<and> pr_phase p = ReviewPhase))
    \<and> (\<not> write_failed r err \<and> json_field metadata (lit ''createPlanAfterWrite'') = JString (lit ''hold'') \<longrightarrow>
        wc_reply c = Some (PlanError (createPlanSessionEditsDeniedReason path)) \<and> wc_queued c = Some (QueuedHold i uri path review)
        \<and> wc_endTurn c = Some True \<and> wc_store c = m)"
proof -
  have d: "lit ''review'' \<noteq> lit ''hold''" by (simp add: lit_def)
  show ?thesis
    using assms(1,6-) consumed_incomplete [OF assms(2 - 5)] d
    by (auto simp: planWritten_def Let_def split: json.splits if_splits)
qed

section \<open>Examples\<close>

definition switch_metadata :: json where
  "switch_metadata = JObject [(lit ''interactionId'', JNumber 5), (lit ''switchModeTarget'', JString (lit ''agent''))]"

lemma late_switch:
  "buildSwitchModeContinuationFrame (\<lambda>t. t) switch_metadata [] None True False =
     Inr \<lparr>sc_interactionId = 5, sc_reply = LateRefusal EditsDenied, sc_approvedTarget = None, sc_bridgeKind = JUndefined, sc_endTurn = True\<rparr>"
  by code_simp

theorem late_deny_stops_the_switch_witness:
  "sc_approvedTarget \<lparr>sc_interactionId = 5, sc_reply = LateRefusal EditsDenied, sc_approvedTarget = None, sc_bridgeKind = JUndefined, sc_endTurn = True\<rparr> = None
   \<and> sc_reply \<lparr>sc_interactionId = 5, sc_reply = LateRefusal EditsDenied, sc_approvedTarget = None, sc_bridgeKind = JUndefined, sc_endTurn = True\<rparr>
     \<noteq> HostAnswer SwitchApproved"
  by (rule late_deny_stops_the_switch [OF late_switch]) (simp, code_simp)

definition write_metadata :: json where
  "write_metadata = JObject [(lit ''interactionId'', JNumber 5), (lit ''planUri'', JString (lit ''u'')), (lit ''createPlanAfterWrite'', JString (lit ''review''))]"

definition saved_receipt :: plan_receipt where
  "saved_receipt = \<lparr>pr_interactionId = 5, pr_createPlanToolCallId = None, pr_hostCallId = lit ''cursor_s_3'', pr_planPath = [], pr_planUri = lit ''u'',
     pr_markdown = [], pr_phase = WritePhase, pr_bridgeKind = lit ''approve'', pr_afterWrite = Some AfterReview, pr_reviewToolName = None,
     pr_consumedResultId = None\<rparr>"

definition saved_store :: plan_store where "saved_store = [(lit ''k'', [saved_receipt])]"

definition saved_result :: write_result where
  "saved_result = \<lparr>wr_sessionId = lit ''s'', wr_execId = 3, wr_error = None, wr_interrupted = False, wr_refusal = None\<rparr>"

definition saved_continuation :: write_continuation where
  "saved_continuation = projr (planWritten (lit ''s'') (Some (lit ''k'')) False write_metadata saved_result saved_store)"

lemma saved_write: "planWritten (lit ''s'') (Some (lit ''k'')) False write_metadata saved_result saved_store = Inr saved_continuation"
  by code_simp

theorem saved_plan_waits_for_review_witness:
  "wc_reply saved_continuation = None
   \<and> wc_queued saved_continuation = Some (QueuedReview 5 None (lit ''approve'') (lit ''cursor_s_3'') (lit ''u'') [] None None QuestionTool
       (Some (createPlanApprovalQuestionInput [], createPlanApprovalQuestion [])))
   \<and> (\<exists>p \<in> set (incompletePlanOperations (Some (lit ''k'')) (wc_store saved_continuation)). pr_hostCallId p = lit ''cursor_s_3'' \<and> pr_phase p = ReviewPhase)"
proof -
  have f: "json_field write_metadata (lit ''interactionId'') = JNumber 5" "json_field write_metadata (lit ''createPlanAfterWrite'') = JString (lit ''review'')"
    "ask_str (json_field write_metadata (lit ''planUri'')) = lit ''u''" "js_trim (ask_str (json_field write_metadata (lit ''planPath''))) = []"
    "optional_text (json_field write_metadata (lit ''planReview'')) = None" "optional_text (json_field write_metadata (lit ''planMarkdown'')) = None"
    "string_of (json_field write_metadata (lit ''createPlanToolCallId'')) = None" "string_of (json_field write_metadata (lit ''createPlanBridgeKind'')) = None"
    "json_field write_metadata (lit ''createPlanReviewToolName'') \<noteq> JString (lit ''plan_exit'')"
    "receipt_call (lit ''s'') (wr_execId saved_result) = lit ''cursor_s_3''"
    by code_simp+
  have q: "saved_receipt \<in> set (planOperationsFor (Some (lit ''k'')) saved_store)" "pr_hostCallId saved_receipt = receipt_call (lit ''s'') (wr_execId saved_result)"
    "unconsumed saved_receipt" "jm_wf saved_store" by code_simp+
  show ?thesis
    using saved_plan_waits_for_review [OF saved_write q(4) q(1-3) refl refl refl refl refl] f
    by (simp add: write_failed_def saved_result_def)
qed

text \<open>
  Where no review follows the save, the rules are not read again: a plan whose save started while edits were allowed is
  reported as a success whatever the session says when the save returns.
\<close>

lemma late_deny_is_acknowledged:
  "map_sum id wc_reply (planWritten sessionId key False
     (JObject [(lit ''interactionId'', JNumber 5), (lit ''planUri'', JString (lit ''u'')), (lit ''createPlanAfterWrite'', JString (lit ''ack''))]) saved_result m)
   = Inr (Some (PlanSuccess (lit ''u'')))"
proof -
  have "js_trim (lit ''u'') \<noteq> []" by code_simp
  moreover have "lit ''ack'' \<noteq> lit ''review''" "lit ''ack'' \<noteq> lit ''hold''" by code_simp+
  moreover have "map_of (rev [(lit ''interactionId'', JNumber 5), (lit ''planUri'', JString (lit ''u'')), (lit ''createPlanAfterWrite'', JString (lit ''ack''))])
      (lit x) = (if x = ''interactionId'' then Some (JNumber 5) else if x = ''planUri'' then Some (JString (lit ''u''))
       else if x = ''createPlanAfterWrite'' then Some (JString (lit ''ack'')) else None)"
    if "x \<in> {''interactionId'', ''planUri'', ''createPlanAfterWrite''}" for x
    using that by (elim insertE emptyE) (simp; code_simp)+
  ultimately show ?thesis
    by (simp add: planWritten_def Let_def ask_str_def write_failed_def saved_result_def)
qed

end
