(* ===== verification/Spec2Isabelle.thy ===== *)
theory Spec2Isabelle
  imports Framing Utf8 Wire JsonValue StepOrder RetryBudget Activity SessionProps ParallelStep
    FrameReader ApplyPatch BlobStore ReplaySafety ShellResults LostRequest HostSteer
    TurnProvenance EditRemap ExecCalls PromptHistory TurnState HostNotes TodoStore HostNoteStore
    SteerTurns AskQuestion PlanReceipts SessionEdits CursorModes CreatePlan Interactions
    HostReplies
begin

text \<open>
  A verification development for the Cursor provider of OpenCode (the TypeScript sources under
  \<open>src/src\<close>; files below are named relative to it).

  \<^bold>\<open>The program.\<close> OpenCode is a host that talks to language models through providers; this provider lets it
  use Cursor's agent. A turn of the host opens a Run: a stream of Connect frames
  (\<open>protocol/framing.ts\<close>) whose payloads are protobuf messages (\<open>protocol/struct.ts\<close>). Cursor asks the
  provider to run tools ("execs"); the provider emits them as tool calls of the host, keeps the Run open
  (\<open>session.ts\<close>), and sends the results back in a later call of the host. Around this the code keeps
  tables per conversation, session or tool call, most of them process-wide JavaScript maps that evict
  their oldest key, and decides what may be retried, replayed, resumed or sent again.

  \<^bold>\<open>How the model corresponds to the code.\<close> A JavaScript \<open>Map\<close> is an association list in insertion order
  (\<open>Prelude\<close>); a string whose code units matter is a list of 16-bit words, an identifier a string; an
  object is a record, a shared mutable object a heap cell; an exception or early return is a value of a
  sum or option type; an \<open>async\<close> function is cut at its awaits into steps, and a run is any sequence of
  steps, so every interleaving of the host's calls is covered. Time is an integer of milliseconds that a
  caller supplies. Code outside \<open>src/src\<close> is a parameter with its documented behaviour as a hypothesis:
  protobufjs' reader, SHA-256, gzip, \<open>JSON\<close> text, the file system, \<open>node:path\<close>.

  \<^bold>\<open>Theories.\<close>
  \<^item> \<open>Prelude\<close>: the map operations, the interfaces \<open>bounded_store\<close> (a table that evicts its oldest key),
    \<open>step_system\<close> (an invariant every step keeps) and \<open>prefix_codec\<close> (self-delimiting encodings).
    \<open>JsString\<close>: the string methods the sources use, lines, searches, numbers in text.
  \<^item> \<open>Framing\<close> (\<open>protocol/framing.ts\<close>): \<open>encodeFrame\<close>, \<open>streamFrames\<close>, the chunked \<open>asyncStreamFrames\<close>.
    Frames are recovered whatever the chunking.
  \<^item> \<open>Utf8\<close>, \<open>Wire\<close>, \<open>JsonValue\<close> (\<open>protocol/struct.ts\<close>): text encoding, the lenient and the strict
    protobuf readers, and JSON as \<open>google.protobuf.Value\<close>. Varints are 32-bit words as the code
    computes them. The readers agree where the strict one accepts; JSON survives a round trip up to the
    losses stated.
  \<^item> \<open>StepOrder\<close> (\<open>step-order.ts\<close>): the order in which execs of one model step may start. No event
    lets a call overtake a file change already known, a refusal stops the later calls, nothing held is stuck or lost.
  \<^item> \<open>ParallelStep\<close> (\<open>parallel-step.ts\<close>), \<open>Activity\<close> (\<open>activity.ts\<close>), \<open>RetryBudget\<close>
    (\<open>retry-budget.ts\<close> and the error codes of \<open>errors.ts\<close>): counting the calls of a step, the host
    activity that keeps a Run alive, and what may be retried.
  \<^item> \<open>SessionManager\<close>, \<open>SessionInvariant\<close>, \<open>SessionOps\<close>, \<open>SessionSystem\<close>, \<open>SessionProps\<close>
    (\<open>session.ts\<close>): the manager of held-open Runs with its indexes, leases, tombstones and the delivery
    of results, cut at each write; the invariant that the indexes agree, and delivery at most once.
    \<open>FrameReader\<close>: reading frames of a held Run with timeouts.
  \<^item> \<open>ApplyPatch\<close> (\<open>protocol/apply-patch.ts\<close>): patch envelopes; a planned edit makes the replacement.
  \<^item> \<open>BlobReachability\<close>, \<open>BlobStore\<close> (\<open>protocol/blob-reachability.ts\<close>, \<open>protocol/blob-store.ts\<close>,
    \<open>protocol/kv.ts\<close>): the blobs a checkpoint reaches and their compaction.
  \<^item> \<open>ReplayFrame\<close>, \<open>ReplaySafety\<close> (\<open>replay-safety.ts\<close>): which frames make a Run unsafe to repeat.
  \<^item> \<open>ShellOutcome\<close>, \<open>ShellCalls\<close>, \<open>ShellGate\<close>, \<open>ShellResults\<close> (\<open>shell-timeout.ts\<close>): the sentinels a
    launcher prints, the tables of shell calls, the gate that serializes shell creates as one queue per
    command, and a call from its result to its end.
  \<^item> \<open>LostRequest\<close> (\<open>lost-request.ts\<close>), \<open>HostSteer\<close> (\<open>host-steer.ts\<close>): messages to send again, and
    messages injected into a running turn.
  \<^item> \<open>JsonAccess\<close>, \<open>ToolNames\<close>, \<open>ExecArgs\<close>, \<open>ExecCalls\<close> (\<open>protocol/tools.ts\<close>,
    \<open>protocol/exec-variants.ts\<close>): the catalog advertised to Cursor and the way back from a call; an exec
    request parsed into a call of a host tool; the host reads from it what Cursor asked for.
  \<^item> \<open>EditRemap\<close> (\<open>protocol/tools.ts\<close>): a whole-file write of Cursor planned as an edit, a write or a patch of
    the host; the file ends as Cursor asked where the planned text stands once and the line endings agree.
  \<^item> \<open>TodoStore\<close> (\<open>todo-store.ts\<close>), \<open>TurnProvenance\<close> (\<open>protocol/turn-provenance.ts\<close>), \<open>TurnState\<close>
    (\<open>language-model.ts\<close>): what is kept per host session across turns.
  \<^item> \<open>HostPrompt\<close>, \<open>PromptHistory\<close>, \<open>HostNotes\<close> (\<open>language-model.ts\<close>, \<open>protocol/host-notes.ts\<close>): the host's
    prompt as the provider reads it, the history that seeds a rebuilt conversation, and host notes in the
    shapes Cursor takes.
  \<^item> \<open>HostNoteStore\<close>, \<open>SteerTurns\<close> (\<open>language-model.ts\<close>): the tables of host notes, their operations as
    events, and why no note is dropped; which host copies of answered early steers a turn leaves out, and what
    a rebuild must say of what Cursor appended.
  \<^item> \<open>AskQuestion\<close> (\<open>protocol/ask-question.ts\<close>, on the texts of \<open>JsText\<close>): a question of Cursor as the host's, and
    the way back of the answers, from the host's prose or its JSON.
  \<^item> \<open>SessionEdits\<close>, \<open>CursorModes\<close> (\<open>protocol/session-edits.ts\<close>, \<open>protocol/cursor-mode.ts\<close>,
    \<open>protocol/switch-mode.ts\<close>): the session's edit rule and how Cursor is told of it, Cursor's modes on the host's
    agents and the mode each session is in.
  \<^item> \<open>CreatePlan\<close>, \<open>PlanReceipts\<close> (\<open>protocol/create-plan.ts\<close>, \<open>protocol/plan-operations.ts\<close>, \<open>language-model.ts\<close>):
    a plan's file, the question that approves it and the reply; the receipts that keep an interrupted plan from
    being resumed.
  \<^item> \<open>Interactions\<close> (\<open>protocol/interactions.ts\<close>): the queries a Run blocks on, read off the wire and dispatched to
    the components above; each gets its reply or goes to one host tool, and a session that may not edit starts
    nothing.
  \<^item> \<open>HostReplies\<close> (\<open>language-model.ts\<close>): what the host's result of such a query becomes for Cursor; a saved plan is
    not an approved one.

  \<^bold>\<open>Groups of lemmas.\<close> Each component has its invariant with one preservation lemma per operation
  (collection \<open>model_inv\<close>), frame lemmas (\<open>model_frame\<close>), an interpretation of the interface it provides,
  and at its end the properties, each after a text that names it, with a witness at concrete input.

  \<^bold>\<open>Bounds and termination.\<close> The limits are the code's constants; proofs use only that they are
  positive, or the exact bound where a property states it. Loops are structural, or terminate by the
  length of the input that is left; the walk over a checkpoint takes as many turns as the buffer has
  bytes, since each field takes at least one, and its depth limit is the code's.

  \<^bold>\<open>Not modelled.\<close> the streams of \<open>language-model.ts\<close>: the pump drives the components here from
  asynchronous streams; the decisions it takes are modelled, its input and output are not. \<open>protocol/messages.ts\<close>
  only declares a protobufjs schema. Transport, authentication, terminals, images, web tools and the
  snapshot files are network, process and file system I/O. The plugins register callbacks with the host.
  The text of generated shell scripts is kept symbolic.
\<close>

end
